(* ===== verification/Prelude.thy ===== *)
theory Prelude
  imports Main "HOL-Library.Word" "HOL-Library.Multiset" "HOL-Library.Monad_Syntax"
begin

text \<open>
  Shared vocabulary of the development: the machine types of the C sources, the C reading of a
  flag test, byte buffers with bounds-checked access, and the generic lemmas on lists and words
  that the component theories use through the simplifier.

  An access outside an array, or a call that never returns, is the value \<^term>\<open>None\<close>
  of the model; the theorems that an operation yields \<^term>\<open>Some\<close> are its memory safety.
\<close>

unbundle bit_operations_syntax

section \<open>Machine types\<close>

type_synonym u8 = "8 word"
type_synonym u16 = "16 word"
type_synonym u32 = "32 word"
type_synonym u64 = "64 word"

section \<open>Collections of facts\<close>

named_theorems buf_simps \<open>rewriting of buffer accesses\<close>
named_theorems inv_intros \<open>introduction of component invariants\<close>

section \<open>C conditions\<close>

text \<open>A C expression of integer type is true when it is not zero: \<open>if (x & mask)\<close>.\<close>

definition flag :: "'a::len word \<Rightarrow> 'a word \<Rightarrow> bool" where
  "flag x m \<longleftrightarrow> x AND m \<noteq> 0"

section \<open>Time\<close>

text \<open>
  Ticks of the kernel clock are \<open>unsigned long\<close> and wrap; the comparison macros of
  \<^verbatim>\<open>jiffies.h\<close> subtract as signed numbers. The vmkernel runs at \<open>HZ = 100\<close>.
\<close>

definition HZ :: nat where
  "HZ = 100"

definition time_after :: "u64 \<Rightarrow> u64 \<Rightarrow> bool" where
  "time_after a b \<longleftrightarrow> sint (b - a) < 0"

definition time_before :: "u64 \<Rightarrow> u64 \<Rightarrow> bool" where
  "time_before a b \<longleftrightarrow> time_after b a"

section \<open>Byte buffers\<close>

text \<open>Reading and writing one element of an array through a C \<open>int\<close> index.\<close>

definition buf_get :: "'a list \<Rightarrow> int \<Rightarrow> 'a option" where
  "buf_get b i = (if 0 \<le> i \<and> i < int (length b) then Some (b ! nat i) else None)"

definition buf_set :: "'a list \<Rightarrow> int \<Rightarrow> 'a \<Rightarrow> 'a list option" where
  "buf_set b i v = (if 0 \<le> i \<and> i < int (length b) then Some (b[nat i := v]) else None)"

text \<open>\<open>memcpy(dst + off, src, length src)\<close> into a buffer of fixed size.\<close>

definition blit :: "'a list \<Rightarrow> nat \<Rightarrow> 'a list \<Rightarrow> 'a list option" where
  "blit dst off src =
     (if off + length src \<le> length dst
      then Some (take off dst @ src @ drop (off + length src) dst) else None)"

lemma buf_get_Some [buf_simps]: "0 \<le> i \<Longrightarrow> i < int (length b) \<Longrightarrow> buf_get b i = Some (b ! nat i)"
  by (simp add: buf_get_def)

lemma buf_set_Some [buf_simps]: "0 \<le> i \<Longrightarrow> i < int (length b) \<Longrightarrow> buf_set b i v = Some (b[nat i := v])"
  by (simp add: buf_set_def)

lemma buf_set_length: "buf_set b i v = Some b' \<Longrightarrow> length b' = length b"
  by (auto simp: buf_set_def split: if_splits)

lemma blit_Some [buf_simps]:
  "off + length src \<le> length dst \<Longrightarrow>
   blit dst off src = Some (take off dst @ src @ drop (off + length src) dst)"
  by (simp add: blit_def)

lemma blit_length: "blit dst off src = Some b \<Longrightarrow> length b = length dst"
  by (auto simp: blit_def split: if_splits)

lemma blit_take: "blit dst off src = Some b \<Longrightarrow> take (length src) (drop off b) = src"
  by (auto simp: blit_def split: if_splits)

lemma blit_start:
  "n = length src \<Longrightarrow> n \<le> length dst \<Longrightarrow> blit dst 0 src = Some (src @ drop n dst)"
  by (simp add: blit_def)

lemma blit_append:
  "off = length pre \<Longrightarrow> length src \<le> length rest \<Longrightarrow>
   blit (pre @ rest) off src = Some (pre @ src @ drop (length src) rest)"
  by (simp add: blit_def)

lemma blit_outside:
  "blit dst off src = Some b \<Longrightarrow> i < off \<or> off + length src \<le> i \<Longrightarrow> i < length dst \<Longrightarrow> b ! i = dst ! i"
  by (auto simp: blit_def nth_append min_def split: if_splits)

section \<open>Lists\<close>

lemma Cons_nth_drop: "i < length xs \<Longrightarrow> xs ! i # drop (Suc i) xs = drop i xs"
  by (simp add: Cons_nth_drop_Suc)

lemma split_Cons_snoc2: "length xs = n + 3 \<Longrightarrow> \<exists>a ys b c. xs = a # ys @ [b, c] \<and> length ys = n"
  by (cases xs; simp add: eval_nat_numeral length_Suc_conv_rev) force+

section \<open>Words\<close>

lemma unat_u8_bound: "unat (b :: u8) < 256"
  using unsigned_less [of b] by simp

lemma unat_eq_numeral_u8: "n < 256 \<Longrightarrow> unat (b :: u8) = n \<longleftrightarrow> b = of_nat n"
  by (auto simp: unsigned_of_nat take_bit_nat_eq_self)

section \<open>Invariants of transition systems\<close>

text \<open>The contract between the steps of a concurrent component and the theorems about its runs: every step
  keeps the invariant, hence every state reachable from one that satisfies it does.\<close>

locale step_invariant =
  fixes step :: "'s \<Rightarrow> 's \<Rightarrow> bool"
    and inv :: "'s \<Rightarrow> bool"
  assumes step_inv: "step s s' \<Longrightarrow> inv s \<Longrightarrow> inv s'"
begin

lemma reach_inv: "step\<^sup>*\<^sup>* s s' \<Longrightarrow> inv s \<Longrightarrow> inv s'"
  by (induction rule: rtranclp_induct) (auto intro: step_inv)

end

end
