(* ===== verification/Ipmi_Si.thy ===== *)
theory Ipmi_Si
  imports Prelude
begin

text \<open>
  The interface between the IPMI system-interface driver and its three low-level state machines
  (\<^verbatim>\<open>ipmi_si_sm.h\<close>): the I/O routines a machine is given, the results of an event,
  the completion codes, and the contract every set of handlers keeps, as the locale
  \<open>si_sm_contract\<close>.

  The registers of the BMC are not code of the repository. They are the parameter
  \<open>si_sm_io\<close>: a device state with an input and an output routine, arbitrary unless a
  theorem names what it relies on.
\<close>

section \<open>I/O routines, results, completion codes\<close>

record 'd si_sm_io =
  inputb :: "'d \<Rightarrow> nat \<Rightarrow> u8 \<times> 'd"
  outputb :: "'d \<Rightarrow> nat \<Rightarrow> u8 \<Rightarrow> 'd"

datatype si_sm_result =
  SI_SM_CALL_WITHOUT_DELAY
| SI_SM_CALL_WITH_DELAY
| SI_SM_CALL_WITH_TICK_DELAY
| SI_SM_TRANSACTION_COMPLETE
| SI_SM_IDLE
| SI_SM_HOSED
| SI_SM_ATTN

definition IPMI_MAX_MSG_LENGTH :: nat where
  "IPMI_MAX_MSG_LENGTH = 272"

abbreviation (input) IPMI_NODE_BUSY_ERR :: u8 where "IPMI_NODE_BUSY_ERR \<equiv> 0xc0"
abbreviation (input) IPMI_TIMEOUT_ERR :: u8 where "IPMI_TIMEOUT_ERR \<equiv> 0xc3"
abbreviation (input) IPMI_ERR_MSG_TRUNCATED :: u8 where "IPMI_ERR_MSG_TRUNCATED \<equiv> 0xc6"
abbreviation (input) IPMI_REQ_LEN_INVALID_ERR :: u8 where "IPMI_REQ_LEN_INVALID_ERR \<equiv> 0xc7"
abbreviation (input) IPMI_REQ_LEN_EXCEEDED_ERR :: u8 where "IPMI_REQ_LEN_EXCEEDED_ERR \<equiv> 0xc8"
abbreviation (input) IPMI_NOT_IN_MY_STATE_ERR :: u8 where "IPMI_NOT_IN_MY_STATE_ERR \<equiv> 0xd5"
abbreviation (input) IPMI_ERR_UNSPECIFIED :: u8 where "IPMI_ERR_UNSPECIFIED \<equiv> 0xff"

section \<open>A device that records what it is told\<close>

text \<open>
  For the theorems on what a machine transmits: the device state is the log of the output
  operations so far, and the value a register reads as may depend on that log.
\<close>

type_synonym io_log = "(nat \<times> u8) list"

definition logging_io :: "(io_log \<Rightarrow> nat \<Rightarrow> u8) \<Rightarrow> io_log si_sm_io" where
  "logging_io rd = \<lparr>inputb = (\<lambda>l off. (rd l off, l)), outputb = (\<lambda>l off b. l @ [(off, b)])\<rparr>"

lemma logging_io_simps [simp]:
  "inputb (logging_io rd) l off = (rd l off, l)"
  "outputb (logging_io rd) l off b = l @ [(off, b)]"
  by (simp_all add: logging_io_def)

section \<open>Copying a result to the caller\<close>

text \<open>
  The KCS and SMIC machines hand a result over with the same code: at most \<open>length\<close> bytes are
  copied, a response that is too short is padded to three bytes with an error in the third, and
  a truncated response has the truncation error there. The pair is the new read position, which
  is the value returned, and the caller's buffer.
\<close>

definition si_copy_result :: "u8 list \<Rightarrow> int \<Rightarrow> bool \<Rightarrow> u8 list \<Rightarrow> (int \<times> u8 list) option" where
  "si_copy_result rd pos trunc data =
     (let len = int (length data);
          trunc1 = (trunc \<or> len < pos);
          pos1 = (if len < pos then len else pos);
          short = (len \<ge> 3 \<and> pos1 < 3) in do {
      d1 \<leftarrow> blit data 0 (take (nat pos1) rd);
      d2 \<leftarrow> (if short then buf_set d1 2 IPMI_ERR_UNSPECIFIED else Some d1);
      d3 \<leftarrow> (if trunc1 then buf_set d2 2 IPMI_ERR_MSG_TRUNCATED else Some d2);
      Some (if short then 3 else pos1, d3) })"

lemma si_copy_result_eq:
  assumes "0 \<le> pos" "pos \<le> int (length rd)" "3 \<le> length data"
  defines "m \<equiv> min (length data) (nat pos)"
  defines "d1 \<equiv> take m rd @ drop m data"
  shows "si_copy_result rd pos trunc data =
    Some (int (max 3 m),
      (if trunc \<or> int (length data) < pos then d1[2 := 0xc6] else if pos < 3 then d1[2 := 0xff] else d1))"
proof -
  have "(if int (length data) < pos then int (length data) else pos) = int m"
    using assms(1,3) unfolding m_def min_def by auto
  moreover have "m \<le> length rd" "m \<le> length data" "(m < 3) = (pos < 3)"
    using assms by (auto simp: m_def min_def)
  ultimately show ?thesis using assms(3)
    by (cases "pos < 3") (auto simp: si_copy_result_def Let_def buf_simps d1_def max_def)
qed

lemma si_copy_result_pos:
  assumes "si_copy_result rd pos trunc data = Some (p, d)"
  shows "p = 3 \<or> p = pos \<or> p = int (length data) \<and> p < pos"
  using assms by (auto simp: si_copy_result_def Let_def bind_eq_Some_conv split: if_splits)

section \<open>The handlers and their use\<close>

text \<open>
  \<open>struct si_sm_handlers\<close>, the table of functions through which the upper layer uses a machine.
  A machine lives in memory the upper layer allocates. A call of \<open>start_transaction\<close>,
  \<open>event\<close> or \<open>get_result\<close> is an option: \<^term>\<open>None\<close> is an access outside a buffer of the
  machine or a call that does not return. \<open>detect\<close> returns non-zero when no interface is there.
  The version string, the empty \<open>cleanup\<close> and \<open>size\<close> have no counterpart.
\<close>

record 's si_sm_handlers =
  init_data :: "'s \<Rightarrow> 's"
  start_transaction :: "'s \<Rightarrow> u8 list \<Rightarrow> (u8 \<times> 's) option"
  get_result :: "'s \<Rightarrow> u8 list \<Rightarrow> (int \<times> u8 list \<times> 's) option"
  event :: "'s \<Rightarrow> int \<Rightarrow> u64 \<Rightarrow> (si_sm_result \<times> 's) option"
  detect :: "'s \<Rightarrow> int \<times> 's"

text \<open>
  What the upper layer may do with a machine: start a transaction, deliver an event with the
  time that has passed and the clock, fetch a result.
\<close>

datatype si_call = Start "u8 list" | Event int u64 | Get_result "u8 list"

fun si_step :: "'s si_sm_handlers \<Rightarrow> si_call \<Rightarrow> 's \<Rightarrow> 's option" where
  "si_step h (Start data) s = map_option snd (start_transaction h s data)"
| "si_step h (Event t j) s = map_option snd (event h s t j)"
| "si_step h (Get_result data) s = map_option (\<lambda>(n, b, s'). s') (get_result h s data)"

fun si_run :: "'s si_sm_handlers \<Rightarrow> si_call list \<Rightarrow> 's \<Rightarrow> 's option" where
  "si_run h [] s = Some s"
| "si_run h (c # cs) s = si_step h c s \<bind> si_run h cs"

text \<open>Requests of at most \<open>max_req\<close> bytes, and result buffers of at least three.\<close>

fun si_call_ok :: "nat \<Rightarrow> si_call \<Rightarrow> bool" where
  "si_call_ok max_req (Start data) = (length data \<le> max_req)"
| "si_call_ok max_req (Event t j) = True"
| "si_call_ok max_req (Get_result data) = (3 \<le> length data)"

section \<open>The contract of a set of handlers\<close>

text \<open>
  A provider promises an invariant that memory of the right size (\<open>raw\<close>) has after
  \<open>init_data\<close> and that its own calls keep, and that a call under the invariant is defined, for
  requests of at most \<open>max_req\<close> bytes, a result buffer of at least three bytes, and a device
  that satisfies \<open>dev_ok\<close>.
\<close>

locale si_sm_contract =
  fixes h :: "'s si_sm_handlers"
    and raw :: "'s \<Rightarrow> bool"
    and inv :: "'s \<Rightarrow> bool"
    and dev_ok :: "'s \<Rightarrow> bool"
    and max_req :: nat
  assumes init_inv: "raw s \<Longrightarrow> inv (init_data h s)"
    and start_defined: "inv s \<Longrightarrow> length data \<le> max_req \<Longrightarrow> start_transaction h s data \<noteq> None"
    and start_inv: "inv s \<Longrightarrow> start_transaction h s data = Some (c, s') \<Longrightarrow> inv s'"
    and event_defined: "inv s \<Longrightarrow> dev_ok s \<Longrightarrow> event h s t j \<noteq> None"
    and event_inv: "inv s \<Longrightarrow> dev_ok s \<Longrightarrow> event h s t j = Some (r, s') \<Longrightarrow> inv s'"
    and result_defined: "inv s \<Longrightarrow> 3 \<le> length data \<Longrightarrow> get_result h s data \<noteq> None"
    and result_inv: "inv s \<Longrightarrow> get_result h s data = Some (n, data', s') \<Longrightarrow> inv s'"
begin

lemma si_step_inv: "inv s \<Longrightarrow> dev_ok s \<Longrightarrow> si_step h c s = Some s' \<Longrightarrow> inv s'"
  by (cases c) (auto intro: start_inv event_inv result_inv)

lemma si_step_defined:
  "inv s \<Longrightarrow> dev_ok s \<Longrightarrow> si_call_ok max_req c \<Longrightarrow> \<exists>s'. si_step h c s = Some s'"
  using start_defined event_defined result_defined by (cases c) fastforce+

lemma si_run_defined:
  assumes "inv s" and "\<And>s. dev_ok s" and "list_all (si_call_ok max_req) cs"
  shows "\<exists>s'. si_run h cs s = Some s' \<and> inv s'"
  using assms
proof (induction cs arbitrary: s)
  case (Cons c cs)
  then obtain s1 where s1: "si_step h c s = Some s1"
    using si_step_defined [of s c] by auto
  with Cons show ?case using si_step_inv [OF _ _ s1] by auto
qed simp

lemma si_run_from_init:
  "raw s \<Longrightarrow> (\<And>s. dev_ok s) \<Longrightarrow> list_all (si_call_ok max_req) cs \<Longrightarrow>
   \<exists>s'. si_run h cs (init_data h s) = Some s' \<and> inv s'"
  by (rule si_run_defined [OF init_inv])

end

end
