(* ===== verification/Ipmi_Smi.thy ===== *)
theory Ipmi_Smi
  imports Ipmi_Si
begin

text \<open>
  The driver above the three state machines, \<^verbatim>\<open>drivers/char/openipmi/ipmi_si_drv/ipmi_si_intf.c\<close>: it queues the
  messages of the upper layer, runs them one at a time through a machine, fetches the messages and events of the
  BMC when the machine asks for attention, and hands every answer up. The machine is a parameter: a set of handlers
  (\<open>si_sm_handlers\<close>) that the three machines instantiate.

  Timer, interrupt, kernel thread and senders run concurrently under two locks, \<open>si_lock\<close> and \<open>msg_lock\<close>. The code is cut
  where it takes or drops a lock, and, inside the critical section, at each call of the machine; a piece is a
  segment of a thread. A thread at \<open>Callback\<close> has dropped \<open>si_lock\<close> to call the upper layer. A \<open>NULL\<close> that is
  dereferenced, an access outside a buffer, and unlocking a lock that is not held, are \<^term>\<open>None\<close>.
\<close>

section \<open>Data\<close>

datatype si_intf_state =
  SI_NORMAL | SI_GETTING_FLAGS | SI_GETTING_EVENTS | SI_CLEARING_FLAGS | SI_CLEARING_FLAGS_THEN_SET_IRQ
| SI_GETTING_MESSAGES | SI_ENABLE_INTERRUPTS1 | SI_ENABLE_INTERRUPTS2 | SI_DISABLE_INTERRUPTS1 | SI_DISABLE_INTERRUPTS2

text \<open>The address of a message, by who allocated it.\<close>

datatype msg_ptr = Upper nat | Driver nat

record ipmi_smi_msg =
  msg_ptr :: msg_ptr
  msg_data :: "u8 list"
  msg_data_size :: nat
  msg_rsp :: "u8 list"
  msg_rsp_size :: int
  msg_tagged :: bool

record ipmi_device_id =
  device_id :: u8
  device_revision :: u8
  firmware_revision_1 :: u8
  firmware_revision_2 :: u8
  ipmi_version :: u8
  additional_device_support :: u8
  manufacturer_id :: u32
  product_id :: u32
  aux_firmware_revision :: "u8 list option"

text \<open>\<open>oem_data_avail_handler\<close> says whether the handler is set (there is only one), \<open>xaction_notifier\<close> whether
  the notifier of Dell BT systems is on \<open>xaction_notifier_list\<close>. That list is shared by all interfaces, so that another
  interface may put the notifier there at any time; nothing takes it off.\<close>

record 's smi_info =
  si_sm :: 's
  xmit_msgs :: "ipmi_smi_msg list"
  hp_xmit_msgs :: "ipmi_smi_msg list"
  curr_msg :: "ipmi_smi_msg option"
  si_state :: si_intf_state
  msg_flags :: u8
  oem_data_avail_handler :: bool
  xaction_notifier :: bool
  req_events :: bool
  run_to_completion :: bool
  irq :: bool
  interrupt_disabled :: bool
  stop_operation :: bool
  pendingRequests :: int
  idles :: u64
  attentions :: u64
  hosed_count :: u64
  complete_transactions :: u64
  events :: u64
  watchdog_pretimeouts :: u64
  incoming_messages :: u64

abbreviation (input) RECEIVE_MSG_AVAIL :: u8 where "RECEIVE_MSG_AVAIL \<equiv> 0x01"
abbreviation (input) EVENT_MSG_BUFFER_FULL :: u8 where "EVENT_MSG_BUFFER_FULL \<equiv> 0x02"
abbreviation (input) WDT_PRE_TIMEOUT_INT :: u8 where "WDT_PRE_TIMEOUT_INT \<equiv> 0x08"
abbreviation (input) OEM_DATA_AVAIL :: u8 where "OEM_DATA_AVAIL \<equiv> 0xe0"

text \<open>\<open>IPMI_NETFN_APP_REQUEST << 2\<close> and the commands.\<close>

abbreviation (input) APP_REQUEST :: u8 where "APP_REQUEST \<equiv> 0x18"
abbreviation (input) IPMI_GET_DEVICE_ID_CMD :: u8 where "IPMI_GET_DEVICE_ID_CMD \<equiv> 0x01"
abbreviation (input) IPMI_SET_BMC_GLOBAL_ENABLES_CMD :: u8 where "IPMI_SET_BMC_GLOBAL_ENABLES_CMD \<equiv> 0x2e"
abbreviation (input) IPMI_GET_BMC_GLOBAL_ENABLES_CMD :: u8 where "IPMI_GET_BMC_GLOBAL_ENABLES_CMD \<equiv> 0x2f"
abbreviation (input) IPMI_CLEAR_MSG_FLAGS_CMD :: u8 where "IPMI_CLEAR_MSG_FLAGS_CMD \<equiv> 0x30"
abbreviation (input) IPMI_GET_MSG_FLAGS_CMD :: u8 where "IPMI_GET_MSG_FLAGS_CMD \<equiv> 0x31"
abbreviation (input) IPMI_GET_MSG_CMD :: u8 where "IPMI_GET_MSG_CMD \<equiv> 0x33"
abbreviation (input) IPMI_READ_EVENT_MSG_BUFFER_CMD :: u8 where "IPMI_READ_EVENT_MSG_BUFFER_CMD \<equiv> 0x35"
abbreviation (input) BMC_MSG_INTRS :: u8 where "BMC_MSG_INTRS \<equiv> 0x03"
abbreviation (input) CANNOT_RETURN_REQUESTED_LENGTH :: int where "CANNOT_RETURN_REQUESTED_LENGTH \<equiv> 0xca"

section \<open>Answers the driver makes up\<close>

definition make_response :: "int \<Rightarrow> ipmi_smi_msg \<Rightarrow> ipmi_smi_msg option" where
  "make_response cCode msg = do {
     d0 \<leftarrow> buf_get (msg_data msg) 0;
     d1 \<leftarrow> buf_get (msg_data msg) 1;
     r0 \<leftarrow> buf_set (msg_rsp msg) 0 (d0 OR 4);
     r1 \<leftarrow> buf_set r0 1 d1;
     r2 \<leftarrow> buf_set r1 2 (word_of_int cCode);
     Some (msg\<lparr>msg_rsp := r2, msg_rsp_size := 3\<rparr>) }"

text \<open>The message leaves the count of pending requests when it was counted.\<close>

definition untag :: "ipmi_smi_msg \<Rightarrow> 's smi_info \<Rightarrow> ipmi_smi_msg \<times> 's smi_info" where
  "untag msg s = (if msg_tagged msg then (msg\<lparr>msg_tagged := False\<rparr>, s\<lparr>pendingRequests := pendingRequests s - 1\<rparr>) else (msg, s))"

text \<open>The message that is to be delivered, and the state.\<close>

definition return_hosed_msg :: "int \<Rightarrow> 's smi_info \<Rightarrow> (ipmi_smi_msg \<times> 's smi_info) option" where
  "return_hosed_msg cCode s = do {
     msg \<leftarrow> curr_msg s;
     let (msg1, s1) = untag msg s;
     let cCode1 = (if cCode < 0 \<or> cCode > 0xff then 0xff else cCode);
     msg2 \<leftarrow> make_response cCode1 msg1;
     Some (msg2, s1\<lparr>curr_msg := None\<rparr>) }"

definition return_hosed_msg_badsize :: "'s smi_info \<Rightarrow> (ipmi_smi_msg \<times> 's smi_info) option" where
  "return_hosed_msg_badsize s = do {
     msg \<leftarrow> curr_msg s;
     msg1 \<leftarrow> make_response CANNOT_RETURN_REQUESTED_LENGTH msg;
     Some (msg1, s\<lparr>curr_msg := None\<rparr>) }"

definition register_xaction_notifier :: "'s smi_info \<Rightarrow> 's smi_info" where
  "register_xaction_notifier s = s\<lparr>xaction_notifier := True\<rparr>"

text \<open>The notifier: \<^term>\<open>Some\<close> of the message to deliver when it stops the transaction.\<close>

definition dell_poweredge_bt_xaction_handler ::
  "'s smi_info \<Rightarrow> (ipmi_smi_msg option \<times> 's smi_info) option" where
  "dell_poweredge_bt_xaction_handler s = do {
     msg \<leftarrow> curr_msg s;
     d0 \<leftarrow> buf_get (msg_data msg) 0;
     d1 \<leftarrow> buf_get (msg_data msg) 1;
     d7 \<leftarrow> buf_get (msg_data msg) 7;
     if msg_data_size msg \<ge> 8 \<and> drop_bit 2 d0 = 0x0a \<and> d1 = 0x23 \<and> d7 = 0x3a
     then do { (m, s1) \<leftarrow> return_hosed_msg_badsize s; Some (Some m, s1) }
     else Some (None, s) }"

section \<open>Starting transactions\<close>

datatype next_msg = Next_idle | Next_started | Next_stopped ipmi_smi_msg

definition start_next_msg :: "'s si_sm_handlers \<Rightarrow> 's smi_info \<Rightarrow> (next_msg \<times> 's smi_info) option" where
  "start_next_msg h s =
     (let pick = (case hp_xmit_msgs s of m # ms \<Rightarrow> Some (m, s\<lparr>hp_xmit_msgs := ms\<rparr>)
                  | [] \<Rightarrow> (case xmit_msgs s of m # ms \<Rightarrow> Some (m, s\<lparr>xmit_msgs := ms\<rparr>) | [] \<Rightarrow> None)) in
      case pick of
        None \<Rightarrow> Some (Next_idle, s\<lparr>curr_msg := None\<rparr>)
      | Some (m, s0) \<Rightarrow> do {
          let s1 = s0\<lparr>curr_msg := Some m\<rparr>;
          (stop, s2) \<leftarrow> (if xaction_notifier s1 then dell_poweredge_bt_xaction_handler s1 else Some (None, s1));
          case stop of
            Some m1 \<Rightarrow> Some (Next_stopped m1, s2)
          | None \<Rightarrow> do {
              (err, sm) \<leftarrow> start_transaction h (si_sm s2) (take (msg_data_size m) (msg_data m));
              let s3 = s2\<lparr>si_sm := sm\<rparr>;
              if err \<noteq> 0 then do { (m2, s4) \<leftarrow> return_hosed_msg (uint err) s3; Some (Next_stopped m2, s4) }
              else Some (Next_started, s3) } })"

text \<open>The transactions of the driver itself, whose result is not looked at.\<close>

definition start_own :: "'s si_sm_handlers \<Rightarrow> u8 list \<Rightarrow> 's smi_info \<Rightarrow> 's smi_info option" where
  "start_own h msg s = do { (_, sm) \<leftarrow> start_transaction h (si_sm s) msg; Some (s\<lparr>si_sm := sm\<rparr>) }"

definition start_enable_irq :: "'s si_sm_handlers \<Rightarrow> 's smi_info \<Rightarrow> 's smi_info option" where
  "start_enable_irq h s = do {
     s1 \<leftarrow> start_own h [APP_REQUEST, IPMI_GET_BMC_GLOBAL_ENABLES_CMD] s;
     Some (s1\<lparr>si_state := SI_ENABLE_INTERRUPTS1\<rparr>) }"

definition start_disable_irq :: "'s si_sm_handlers \<Rightarrow> 's smi_info \<Rightarrow> 's smi_info option" where
  "start_disable_irq h s = do {
     s1 \<leftarrow> start_own h [APP_REQUEST, IPMI_GET_BMC_GLOBAL_ENABLES_CMD] s;
     Some (s1\<lparr>si_state := SI_DISABLE_INTERRUPTS1\<rparr>) }"

definition start_clear_flags :: "'s si_sm_handlers \<Rightarrow> 's smi_info \<Rightarrow> 's smi_info option" where
  "start_clear_flags h s = do {
     s1 \<leftarrow> start_own h [APP_REQUEST, IPMI_CLEAR_MSG_FLAGS_CMD, WDT_PRE_TIMEOUT_INT] s;
     Some (s1\<lparr>si_state := SI_CLEARING_FLAGS\<rparr>) }"

definition disable_si_irq :: "'s si_sm_handlers \<Rightarrow> 's smi_info \<Rightarrow> 's smi_info option" where
  "disable_si_irq h s =
     (if irq s \<and> \<not> interrupt_disabled s
      then do { s1 \<leftarrow> start_disable_irq h s; Some (s1\<lparr>interrupt_disabled := True\<rparr>) } else Some s)"

definition enable_si_irq :: "'s si_sm_handlers \<Rightarrow> 's smi_info \<Rightarrow> 's smi_info option" where
  "enable_si_irq h s =
     (if irq s \<and> interrupt_disabled s
      then do { s1 \<leftarrow> start_enable_irq h s; Some (s1\<lparr>interrupt_disabled := False\<rparr>) } else Some s)"

section \<open>The flags of the BMC\<close>

text \<open>What a segment calls in the upper layer with \<open>si_lock\<close> released, and what it shows to the outside.\<close>

datatype callback = Deliver ipmi_smi_msg | Watchdog_pretimeout

datatype smi_eff = Eff_alloc msg_ptr | Eff_done msg_ptr | Eff_deliver ipmi_smi_msg

type_synonym 's smi_handled = "('s smi_info \<times> callback list \<times> smi_eff list) option"

text \<open>A message of the driver: \<open>a\<close> is the answer of \<open>ipmi_alloc_smi_msg\<close>.\<close>

definition set_request :: "u8 \<Rightarrow> ipmi_smi_msg \<Rightarrow> ipmi_smi_msg" where
  "set_request cmd m = m\<lparr>msg_data := (msg_data m)[0 := APP_REQUEST, 1 := cmd], msg_data_size := 2\<rparr>"

definition fetch_from_bmc ::
  "'s si_sm_handlers \<Rightarrow> ipmi_smi_msg option \<Rightarrow> u8 \<Rightarrow> si_intf_state \<Rightarrow> 's smi_info \<Rightarrow> 's smi_handled" where
  "fetch_from_bmc h a cmd st s =
     (case a of
        None \<Rightarrow> do { s1 \<leftarrow> disable_si_irq h (s\<lparr>curr_msg := None\<rparr>); Some (s1\<lparr>si_state := SI_NORMAL\<rparr>, [], []) }
      | Some m \<Rightarrow> do {
          s1 \<leftarrow> enable_si_irq h (s\<lparr>curr_msg := Some m\<rparr>);
          s2 \<leftarrow> start_own h [APP_REQUEST, cmd] (s1\<lparr>curr_msg := Some (set_request cmd m)\<rparr>);
          Some (s2\<lparr>si_state := st\<rparr>, [], [Eff_alloc (msg_ptr m)]) })"

definition oem_data_avail_to_receive_msg_avail :: "'s smi_info \<Rightarrow> 's smi_info" where
  "oem_data_avail_to_receive_msg_avail s = s\<lparr>msg_flags := (msg_flags s AND NOT OEM_DATA_AVAIL) OR RECEIVE_MSG_AVAIL\<rparr>"

function handle_flags :: "'s si_sm_handlers \<Rightarrow> ipmi_smi_msg option \<Rightarrow> 's smi_info \<Rightarrow> 's smi_handled" where
  "handle_flags h a s =
     (if flag (msg_flags s) WDT_PRE_TIMEOUT_INT
      then do { s1 \<leftarrow> start_clear_flags h (s\<lparr>watchdog_pretimeouts := watchdog_pretimeouts s + 1\<rparr>);
                Some (s1\<lparr>msg_flags := msg_flags s1 AND NOT WDT_PRE_TIMEOUT_INT\<rparr>, [Watchdog_pretimeout], []) }
      else if flag (msg_flags s) RECEIVE_MSG_AVAIL then fetch_from_bmc h a IPMI_GET_MSG_CMD SI_GETTING_MESSAGES s
      else if flag (msg_flags s) EVENT_MSG_BUFFER_FULL
      then fetch_from_bmc h a IPMI_READ_EVENT_MSG_BUFFER_CMD SI_GETTING_EVENTS s
      else if flag (msg_flags s) OEM_DATA_AVAIL \<and> oem_data_avail_handler s
      then handle_flags h a (oem_data_avail_to_receive_msg_avail s)
      else Some (s\<lparr>si_state := SI_NORMAL\<rparr>, [], []))"
  by pat_completeness auto

lemma oem_flags_cleared: "\<not> flag ((f AND NOT OEM_DATA_AVAIL) OR RECEIVE_MSG_AVAIL) OEM_DATA_AVAIL"
  by (simp add: flag_def word_ao_dist word_bw_assocs)

termination handle_flags
  by (relation "measure (\<lambda>(h, a, s). if flag (msg_flags s) OEM_DATA_AVAIL then 1 else 0)")
     (auto simp: oem_data_avail_to_receive_msg_avail_def oem_flags_cleared [simplified])

declare handle_flags.simps [simp del]

section \<open>The end of a transaction\<close>

text \<open>\<open>get_result\<close> into the message, which is then taken out of \<open>curr_msg\<close>.\<close>

definition take_result :: "'s si_sm_handlers \<Rightarrow> 's smi_info \<Rightarrow> (ipmi_smi_msg \<times> 's smi_info) option" where
  "take_result h s = do {
     msg \<leftarrow> curr_msg s;
     (n, rsp, sm) \<leftarrow> get_result h (si_sm s) (msg_rsp msg);
     let (msg1, s1) = untag (msg\<lparr>msg_rsp := rsp, msg_rsp_size := n\<rparr>) (s\<lparr>si_sm := sm\<rparr>);
     Some (msg1, s1\<lparr>curr_msg := None\<rparr>) }"

text \<open>\<open>SI_GETTING_EVENTS\<close> and \<open>SI_GETTING_MESSAGES\<close> differ in the flag and the counter.\<close>

definition fetched_done ::
  "'s si_sm_handlers \<Rightarrow> ipmi_smi_msg option \<Rightarrow> u8 \<Rightarrow> ('s smi_info \<Rightarrow> 's smi_info) \<Rightarrow> 's smi_info \<Rightarrow> 's smi_handled" where
  "fetched_done h a fl bump s = do {
     (msg, s1) \<leftarrow> take_result h s;
     r2 \<leftarrow> buf_get (msg_rsp msg) 2;
     if r2 \<noteq> 0
     then do { (s2, cbs, effs) \<leftarrow> handle_flags h a (s1\<lparr>msg_flags := msg_flags s1 AND NOT fl\<rparr>);
               Some (s2, cbs, Eff_done (msg_ptr msg) # effs) }
     else do { (s2, cbs, effs) \<leftarrow> handle_flags h a (bump s1); Some (s2, cbs @ [Deliver msg], effs) } }"

text \<open>\<open>get_result\<close> into a buffer on the stack, whose former contents are \<open>stk\<close>.\<close>

definition own_result :: "'s si_sm_handlers \<Rightarrow> u8 list \<Rightarrow> 's smi_info \<Rightarrow> (int \<times> u8 list \<times> u8 \<times> 's smi_info) option" where
  "own_result h stk s = do {
     (n, msg, sm) \<leftarrow> get_result h (si_sm s) stk;
     cc \<leftarrow> buf_get msg 2;
     Some (n, msg, cc, s\<lparr>si_sm := sm\<rparr>) }"

text \<open>The two steps that change the interrupt enables of the BMC: read them, write them back.\<close>

definition enables_read :: "'s si_sm_handlers \<Rightarrow> u8 list \<Rightarrow> (u8 \<Rightarrow> u8) \<Rightarrow> si_intf_state \<Rightarrow> 's smi_info \<Rightarrow> 's smi_handled" where
  "enables_read h stk change st s = do {
     (n, msg, cc, s1) \<leftarrow> own_result h stk s;
     if cc \<noteq> 0 then Some (s1\<lparr>si_state := SI_NORMAL\<rparr>, [], [])
     else do {
       m3 \<leftarrow> buf_get msg 3;
       s2 \<leftarrow> start_own h [APP_REQUEST, IPMI_SET_BMC_GLOBAL_ENABLES_CMD, change m3] s1;
       Some (s2\<lparr>si_state := st\<rparr>, [], []) } }"

definition handle_transaction_done ::
  "'s si_sm_handlers \<Rightarrow> ipmi_smi_msg option \<Rightarrow> u8 list \<Rightarrow> 's smi_info \<Rightarrow> 's smi_handled" where
  "handle_transaction_done h a stk s =
     (case si_state s of
        SI_NORMAL \<Rightarrow>
          (if curr_msg s = None then Some (s, [], [])
           else do { (msg, s1) \<leftarrow> take_result h s; Some (s1, [Deliver msg], []) })
      | SI_GETTING_FLAGS \<Rightarrow> do {
          (n, msg, cc, s1) \<leftarrow> own_result h stk s;
          if cc \<noteq> 0 then Some (s1\<lparr>si_state := SI_NORMAL\<rparr>, [], [])
          else if 0 \<le> n \<and> n < 4 then Some (s1\<lparr>si_state := SI_NORMAL\<rparr>, [], [])
          else do { fl \<leftarrow> buf_get msg 3; handle_flags h a (s1\<lparr>msg_flags := fl\<rparr>) } }
      | SI_CLEARING_FLAGS \<Rightarrow> do {
          (n, msg, cc, s1) \<leftarrow> own_result h (take 3 stk) s;
          Some (s1\<lparr>si_state := SI_NORMAL\<rparr>, [], []) }
      | SI_CLEARING_FLAGS_THEN_SET_IRQ \<Rightarrow> do {
          (n, msg, cc, s1) \<leftarrow> own_result h (take 3 stk) s;
          s2 \<leftarrow> start_enable_irq h s1;
          Some (s2, [], []) }
      | SI_GETTING_EVENTS \<Rightarrow> fetched_done h a EVENT_MSG_BUFFER_FULL (\<lambda>s. s\<lparr>events := events s + 1\<rparr>) s
      | SI_GETTING_MESSAGES \<Rightarrow> fetched_done h a RECEIVE_MSG_AVAIL (\<lambda>s. s\<lparr>incoming_messages := incoming_messages s + 1\<rparr>) s
      | SI_ENABLE_INTERRUPTS1 \<Rightarrow> enables_read h stk (\<lambda>m3. m3 OR BMC_MSG_INTRS) SI_ENABLE_INTERRUPTS2 s
      | SI_ENABLE_INTERRUPTS2 \<Rightarrow> do {
          (n, msg, cc, s1) \<leftarrow> own_result h stk s;
          Some (s1\<lparr>si_state := SI_NORMAL\<rparr>, [], []) }
      | SI_DISABLE_INTERRUPTS1 \<Rightarrow> enables_read h stk (\<lambda>m3. m3 AND NOT BMC_MSG_INTRS) SI_DISABLE_INTERRUPTS2 s
      | SI_DISABLE_INTERRUPTS2 \<Rightarrow> do {
          (n, msg, cc, s1) \<leftarrow> own_result h stk s;
          Some (s1\<lparr>si_state := SI_NORMAL\<rparr>, [], []) })"

section \<open>Threads\<close>

text \<open>What the caller of \<open>smi_event_handler\<close> does with its result: nothing (timer, interrupt, kernel thread,
  \<open>poll\<close>), or call it again until it is idle (run to completion). Who called \<open>start_next_msg\<close>. Where a thread goes on
  after its calls of the upper layer: at the event behind them, or at the end of \<open>start_next_msg\<close>.\<close>

datatype smi_ret = Once | Until_idle

datatype smi_caller = By_sender | By_handler smi_ret

datatype smi_cont = To_after smi_ret | End_next smi_caller

datatype smi_pc =
  Smi_idle
| Send ipmi_smi_msg int
| Send_lock
| Set_rtc bool
| Handler int smi_ret
| Restart int smi_ret
| Result si_sm_result smi_ret
| Callback callback "callback list" smi_cont
| Relock "callback list" smi_cont
| After smi_ret
| Attn si_sm_result smi_ret
| Next smi_caller
| Req_events smi_ret

text \<open>The locks a thread holds, and the ones it waits for.\<close>

fun end_next :: "smi_cont \<Rightarrow> bool" where
  "end_next (End_next c) = True"
| "end_next (To_after r) = False"

fun holds_si :: "smi_pc \<Rightarrow> bool" where
  "holds_si (Restart t r) = True"
| "holds_si (Result x r) = True"
| "holds_si (After r) = True"
| "holds_si (Attn x r) = True"
| "holds_si (Next c) = True"
| "holds_si (Req_events r) = True"
| "holds_si _ = False"

fun holds_msg :: "smi_pc \<Rightarrow> bool" where
  "holds_msg (Callback cb cbs k) = end_next k"
| "holds_msg (Relock cbs k) = end_next k"
| "holds_msg _ = False"

fun wants_si :: "smi_pc \<Rightarrow> bool" where
  "wants_si Send_lock = True"
| "wants_si (Set_rtc b) = True"
| "wants_si (Handler t r) = True"
| "wants_si (Relock cbs k) = True"
| "wants_si _ = False"

fun wants_msg :: "smi_pc \<Rightarrow> bool" where
  "wants_msg (Send m p) = True"
| "wants_msg (Next c) = True"
| "wants_msg _ = False"

fun smi_return :: "si_sm_result \<Rightarrow> smi_ret \<Rightarrow> smi_pc" where
  "smi_return r Once = Smi_idle"
| "smi_return r Until_idle = (if r \<noteq> SI_SM_IDLE then Restart 250 Until_idle else Smi_idle)"

fun resume :: "smi_cont \<Rightarrow> smi_pc" where
  "resume (To_after r) = After r"
| "resume (End_next By_sender) = Smi_idle"
| "resume (End_next (By_handler r)) = Restart 0 r"

fun calls :: "callback list \<Rightarrow> smi_cont \<Rightarrow> smi_pc" where
  "calls [] k = resume k"
| "calls (cb # cbs) k = Callback cb cbs k"

section \<open>The segments\<close>

text \<open>What the environment decides in a segment: the clock, the answer of the allocator, the contents of the stack.\<close>

record smi_env =
  env_jiffies :: u64
  env_alloc :: "ipmi_smi_msg option"
  env_stack :: "u8 list"

type_synonym 's smi_seg = "('s smi_info \<times> smi_pc \<times> smi_eff list) option"

definition sm_event :: "'s si_sm_handlers \<Rightarrow> smi_env \<Rightarrow> int \<Rightarrow> 's smi_info \<Rightarrow> (si_sm_result \<times> 's smi_info) option" where
  "sm_event h env t s = do { (r, sm) \<leftarrow> event h (si_sm s) t (env_jiffies env); Some (r, s\<lparr>si_sm := sm\<rparr>) }"

text \<open>\<open>sender\<close> up to the release of \<open>msg_lock\<close>. With \<open>stop_operation\<close> set it drops \<open>si_lock\<close>, which it does not hold.\<close>

definition seg_send :: "ipmi_smi_msg \<Rightarrow> int \<Rightarrow> 's smi_info \<Rightarrow> 's smi_seg" where
  "seg_send m priority s =
     (if stop_operation s then None
      else if run_to_completion s then Some (s\<lparr>xmit_msgs := xmit_msgs s @ [m]\<rparr>, Handler 0 Until_idle, [])
      else let m1 = m\<lparr>msg_tagged := True\<rparr>; s1 = s\<lparr>pendingRequests := pendingRequests s + 1\<rparr> in
        if priority > 0 then Some (s1\<lparr>hp_xmit_msgs := hp_xmit_msgs s @ [m1]\<rparr>, Send_lock, [])
        else Some (s1\<lparr>xmit_msgs := xmit_msgs s @ [m1]\<rparr>, Send_lock, []))"

definition seg_send_lock :: "'s smi_info \<Rightarrow> 's smi_seg" where
  "seg_send_lock s =
     (if si_state s = SI_NORMAL \<and> curr_msg s = None then Some (s, Next By_sender, []) else Some (s, Smi_idle, []))"

definition seg_set_rtc :: "bool \<Rightarrow> 's smi_info \<Rightarrow> 's smi_seg" where
  "seg_set_rtc b s = Some (s\<lparr>run_to_completion := b\<rparr>, if b then Restart 0 Until_idle else Smi_idle, [])"

text \<open>\<open>smi_event_handler\<close>, first the event loop and what became of the transaction.\<close>

definition seg_result :: "'s si_sm_handlers \<Rightarrow> smi_env \<Rightarrow> si_sm_result \<Rightarrow> smi_ret \<Rightarrow> 's smi_info \<Rightarrow> 's smi_seg" where
  "seg_result h env r ret s =
     (if r = SI_SM_CALL_WITHOUT_DELAY then do { (r1, s1) \<leftarrow> sm_event h env 0 s; Some (s1, Result r1 ret, []) }
      else if r = SI_SM_TRANSACTION_COMPLETE then do {
        (s1, cbs, effs) \<leftarrow> handle_transaction_done h (env_alloc env) (env_stack env)
                             (s\<lparr>complete_transactions := complete_transactions s + 1\<rparr>);
        Some (s1, calls cbs (To_after ret), effs) }
      else if r = SI_SM_HOSED then do {
        let s1 = s\<lparr>hosed_count := hosed_count s + 1, si_state := SI_NORMAL\<rparr>;
        if curr_msg s1 \<noteq> None
        then do { (m, s2) \<leftarrow> return_hosed_msg 0xff s1; Some (s2, calls [Deliver m] (To_after ret), []) }
        else Some (s1, After ret, []) }
      else Some (s, Attn r ret, []))"

text \<open>Then attention, which comes before new messages.\<close>

definition seg_attn :: "'s si_sm_handlers \<Rightarrow> si_sm_result \<Rightarrow> smi_ret \<Rightarrow> 's smi_info \<Rightarrow> 's smi_seg" where
  "seg_attn h r ret s =
     (if r = SI_SM_ATTN then do {
        s1 \<leftarrow> start_own h [APP_REQUEST, IPMI_GET_MSG_FLAGS_CMD] (s\<lparr>attentions := attentions s + 1\<rparr>);
        Some (s1\<lparr>si_state := SI_GETTING_FLAGS\<rparr>, Restart 0 ret, []) }
      else if r = SI_SM_IDLE then Some (s\<lparr>idles := idles s + 1\<rparr>, Next (By_handler ret), [])
      else Some (s, smi_return r ret, []))"

definition seg_next :: "'s si_sm_handlers \<Rightarrow> smi_caller \<Rightarrow> 's smi_info \<Rightarrow> 's smi_seg" where
  "seg_next h c s = do {
     (r, s1) \<leftarrow> start_next_msg h s;
     Some (s1,
       (case r of
          Next_idle \<Rightarrow> (case c of By_sender \<Rightarrow> Smi_idle | By_handler ret \<Rightarrow> Req_events ret)
        | Next_started \<Rightarrow> (case c of By_sender \<Rightarrow> Smi_idle | By_handler ret \<Rightarrow> Restart 0 ret)
        | Next_stopped m \<Rightarrow> Callback (Deliver m) [] (End_next c)), []) }"

definition seg_req_events :: "'s si_sm_handlers \<Rightarrow> smi_env \<Rightarrow> smi_ret \<Rightarrow> 's smi_info \<Rightarrow> 's smi_seg" where
  "seg_req_events h env ret s =
     (if req_events s then
        (let s1 = s\<lparr>req_events := False\<rparr> in
         case env_alloc env of
           None \<Rightarrow> Some (s1\<lparr>curr_msg := None\<rparr>, smi_return SI_SM_IDLE ret, [])
         | Some m \<Rightarrow> do {
             s2 \<leftarrow> start_own h [APP_REQUEST, IPMI_READ_EVENT_MSG_BUFFER_CMD]
                     (s1\<lparr>curr_msg := Some (set_request IPMI_READ_EVENT_MSG_BUFFER_CMD m)\<rparr>);
             Some (s2\<lparr>si_state := SI_GETTING_EVENTS\<rparr>, Restart 0 ret, [Eff_alloc (msg_ptr m)]) })
      else Some (s, smi_return SI_SM_IDLE ret, []))"

fun callback_effs :: "callback \<Rightarrow> smi_eff list" where
  "callback_effs (Deliver m) = [Eff_deliver m]"
| "callback_effs Watchdog_pretimeout = []"

fun smi_seg :: "'s si_sm_handlers \<Rightarrow> smi_env \<Rightarrow> 's smi_info \<Rightarrow> smi_pc \<Rightarrow> 's smi_seg" where
  "smi_seg h env s Smi_idle = Some (s, Smi_idle, [])"
| "smi_seg h env s (Send m p) = seg_send m p s"
| "smi_seg h env s Send_lock = seg_send_lock s"
| "smi_seg h env s (Set_rtc b) = seg_set_rtc b s"
| "smi_seg h env s (Handler t ret) = Some (s, Restart t ret, [])"
| "smi_seg h env s (Restart t ret) = do { (r, s1) \<leftarrow> sm_event h env t s; Some (s1, Result r ret, []) }"
| "smi_seg h env s (Result r ret) = seg_result h env r ret s"
| "smi_seg h env s (Callback cb cbs k) = Some (s, Relock cbs k, callback_effs cb)"
| "smi_seg h env s (Relock cbs k) = Some (s, calls cbs k, [])"
| "smi_seg h env s (After ret) = do { (r, s1) \<leftarrow> sm_event h env 0 s; Some (s1, Attn r ret, []) }"
| "smi_seg h env s (Attn r ret) = seg_attn h r ret s"
| "smi_seg h env s (Next c) = seg_next h c s"
| "smi_seg h env s (Req_events ret) = seg_req_events h env ret s"

definition request_events :: "'s smi_info \<Rightarrow> 's smi_info" where
  "request_events s = (if stop_operation s then s else s\<lparr>req_events := True\<rparr>)"

definition set_maintenance_mode :: "bool \<Rightarrow> 's smi_info \<Rightarrow> 's smi_info" where
  "set_maintenance_mode enable s = (if \<not> enable then s\<lparr>req_events := False\<rparr> else s)"

text \<open>\<open>atomic_inc\<close> at the start of \<open>cleanup_one_si\<close>.\<close>

definition stop_smi :: "'s smi_info \<Rightarrow> 's smi_info" where
  "stop_smi s = s\<lparr>stop_operation := True\<rparr>"

section \<open>Bringing up an interface\<close>

abbreviation (input) ENODEV :: int where "ENODEV \<equiv> 19"

definition ipmi_demangle_device_id :: "u8 list \<Rightarrow> int \<Rightarrow> (int \<times> ipmi_device_id option) option" where
  "ipmi_demangle_device_id data data_len =
     (if data_len < 9 then Some (- 22, None)
      else do {
        d0 \<leftarrow> buf_get data 0; d1 \<leftarrow> buf_get data 1; d2 \<leftarrow> buf_get data 2;
        if d0 \<noteq> 0x1c \<or> d1 \<noteq> IPMI_GET_DEVICE_ID_CMD then Some (- 22, None)
        else if d2 \<noteq> 0 then Some (- 22, None)
        else do {
          e0 \<leftarrow> buf_get data 3; e1 \<leftarrow> buf_get data 4; e2 \<leftarrow> buf_get data 5;
          e3 \<leftarrow> buf_get data 6; e4 \<leftarrow> buf_get data 7; e5 \<leftarrow> buf_get data 8;
          (mid, pid) \<leftarrow>
            (if data_len \<ge> 14
             then do {
               a \<leftarrow> buf_get data 9; b \<leftarrow> buf_get data 10; c \<leftarrow> buf_get data 11; d \<leftarrow> buf_get data 12; e \<leftarrow> buf_get data 13;
               Some (ucast a OR push_bit 8 (ucast b) OR push_bit 16 (ucast c), ucast d OR push_bit 8 (ucast e)) }
             else Some (0, 0));
          aux \<leftarrow> (if data_len \<ge> 18
                  then if 18 \<le> length data then Some (Some (take 4 (drop 14 data))) else None
                  else Some None);
          Some (0, Some \<lparr>device_id = e0, device_revision = e1, firmware_revision_1 = e2, firmware_revision_2 = e3,
            ipmi_version = e4, additional_device_support = e5, manufacturer_id = mid, product_id = pid,
            aux_firmware_revision = aux\<rparr>) } })"

text \<open>The loop of \<open>try_get_dev_id\<close>; \<open>clk\<close> is the clock at the calls of the machine.\<close>

partial_function (option) dev_id_events ::
  "'s si_sm_handlers \<Rightarrow> (nat \<Rightarrow> u64) \<Rightarrow> nat \<Rightarrow> si_sm_result \<Rightarrow> 's \<Rightarrow> (si_sm_result \<times> 's) option" where
  "dev_id_events h clk n r s =
     (if r = SI_SM_CALL_WITH_DELAY \<or> r = SI_SM_CALL_WITH_TICK_DELAY
      then Option.bind (event h s 100 (clk n)) (\<lambda>x. dev_id_events h clk (Suc n) (fst x) (snd x))
      else if r = SI_SM_CALL_WITHOUT_DELAY
      then Option.bind (event h s 0 (clk n)) (\<lambda>x. dev_id_events h clk (Suc n) (fst x) (snd x))
      else Some (r, s))"

declare dev_id_events.simps [code]

text \<open>\<open>resp\<close> is the buffer that \<open>kmalloc\<close> returned, with its contents.\<close>

definition try_get_dev_id ::
  "'s si_sm_handlers \<Rightarrow> (nat \<Rightarrow> u64) \<Rightarrow> u8 list option \<Rightarrow> 's \<Rightarrow> (int \<times> ipmi_device_id option \<times> 's) option" where
  "try_get_dev_id h clk resp s =
     (case resp of
        None \<Rightarrow> Some (- 12, None, s)
      | Some buf \<Rightarrow> do {
          (_, s1) \<leftarrow> start_transaction h s [APP_REQUEST, IPMI_GET_DEVICE_ID_CMD];
          (r, s2) \<leftarrow> event h s1 0 (clk 0);
          (r1, s3) \<leftarrow> dev_id_events h clk 1 r s2;
          if r1 = SI_SM_HOSED then Some (- ENODEV, None, s3)
          else do {
            (n, buf1, s4) \<leftarrow> get_result h s3 buf;
            (rv, did) \<leftarrow> ipmi_demangle_device_id buf1 n;
            Some (rv, did, s4) } })"

definition setup_oem_data_handler :: "ipmi_device_id \<Rightarrow> bool" where
  "setup_oem_data_handler did \<longleftrightarrow>
     manufacturer_id did = 0x2a2 \<and>
     (device_id did = 0x20 \<and> device_revision did = 0x80 \<and> ipmi_version did = 0x51 \<or>
      ipmi_version did AND 0xf < 1 \<or> ipmi_version did AND 0xf = 1 \<and> drop_bit 4 (ipmi_version did) < 5)"

text \<open>The part of \<open>try_smi_init\<close> behind the detection of the BMC, up to the registration. \<open>bt\<close> says
  whether the interface is of type BT.\<close>

definition smi_init :: "'s si_sm_handlers \<Rightarrow> bool \<Rightarrow> bool \<Rightarrow> ipmi_device_id \<Rightarrow> 's \<Rightarrow> 's smi_info option" where
  "smi_init h bt has_irq did sm = do {
     s \<leftarrow> start_clear_flags h \<lparr>si_sm = sm, xmit_msgs = [], hp_xmit_msgs = [], curr_msg = None, si_state = SI_NORMAL,
       msg_flags = 0, oem_data_avail_handler = setup_oem_data_handler did,
       xaction_notifier = (manufacturer_id did = 0x2a2 \<and> bt), req_events = False, run_to_completion = False,
       irq = has_irq, interrupt_disabled = False, stop_operation = False, pendingRequests = 0,
       idles = 0, attentions = 0, hosed_count = 0, complete_transactions = 0, events = 0, watchdog_pretimeouts = 0,
       incoming_messages = 0\<rparr>;
     Some (if has_irq then s\<lparr>si_state := SI_CLEARING_FLAGS_THEN_SET_IRQ\<rparr> else s) }"

text \<open>\<open>try_smi_init\<close> up to the registration, for a machine in memory \<open>sm\<close> and with the I/O set up.\<close>

definition try_smi_init ::
  "'s si_sm_handlers \<Rightarrow> bool \<Rightarrow> bool \<Rightarrow> (nat \<Rightarrow> u64) \<Rightarrow> u8 list option \<Rightarrow> 's \<Rightarrow> (int + 's smi_info) option" where
  "try_smi_init h bt has_irq clk resp sm =
     (case detect h (init_data h sm) of (d, sm1) \<Rightarrow>
      if d \<noteq> 0 then Some (Inl (- ENODEV))
      else do {
        (rv, did, sm2) \<leftarrow> try_get_dev_id h clk resp sm1;
        if rv \<noteq> 0 then Some (Inl rv)
        else do { i \<leftarrow> did; s \<leftarrow> smi_init h bt has_irq i sm2; Some (Inr s) } })"

section \<open>The threads together\<close>

text \<open>The interface, the threads, and where the messages went: handed to \<open>sender\<close>, allocated by the driver,
  freed with \<open>done\<close>, delivered to the upper layer.\<close>

record 's smi_sys =
  sys_smi :: "'s smi_info"
  smi_pcs :: "smi_pc list"
  smi_sent :: "msg_ptr multiset"
  smi_alloced :: "msg_ptr multiset"
  smi_freed :: "msg_ptr multiset"
  smi_delivered :: "ipmi_smi_msg list"

fun eff_alloced :: "smi_eff \<Rightarrow> msg_ptr multiset" where
  "eff_alloced (Eff_alloc p) = {#p#}"
| "eff_alloced _ = {#}"

fun eff_done :: "smi_eff \<Rightarrow> msg_ptr multiset" where
  "eff_done (Eff_done p) = {#p#}"
| "eff_done _ = {#}"

fun eff_delivered :: "smi_eff \<Rightarrow> ipmi_smi_msg list" where
  "eff_delivered (Eff_deliver m) = [m]"
| "eff_delivered _ = []"

definition locks_free :: "smi_pc list \<Rightarrow> smi_pc \<Rightarrow> bool" where
  "locks_free pcs pc \<longleftrightarrow> (wants_si pc \<longrightarrow> (\<forall>p \<in> set pcs. \<not> holds_si p)) \<and> (wants_msg pc \<longrightarrow> (\<forall>p \<in> set pcs. \<not> holds_msg p))"

text \<open>A thread inside \<open>smi_event_handler\<close>, or about to enter it.\<close>

fun drives :: "smi_pc \<Rightarrow> bool" where
  "drives (Handler t r) = True"
| "drives (Restart t r) = True"
| "drives (Result x r) = True"
| "drives (After r) = True"
| "drives (Attn x r) = True"
| "drives (Next c) = (c \<noteq> By_sender)"
| "drives (Req_events r) = True"
| "drives (Callback cb cbs k) = (k \<noteq> End_next By_sender)"
| "drives (Relock cbs k) = (k \<noteq> End_next By_sender)"
| "drives _ = False"

definition one_driver :: "smi_pc list \<Rightarrow> bool" where
  "one_driver pcs \<longleftrightarrow> (\<forall>t < length pcs. \<forall>u < length pcs. drives (pcs ! t) \<and> drives (pcs ! u) \<longrightarrow> t = u)"

text \<open>Messages have arrays of the size of the C structure, and are not counted before they are sent.\<close>

definition msg_ok :: "ipmi_smi_msg \<Rightarrow> bool" where
  "msg_ok m \<longleftrightarrow> length (msg_data m) = IPMI_MAX_MSG_LENGTH \<and> length (msg_rsp m) = IPMI_MAX_MSG_LENGTH \<and>
     msg_data_size m \<le> IPMI_MAX_MSG_LENGTH"

fun is_upper :: "msg_ptr \<Rightarrow> bool" where
  "is_upper (Upper n) = True"
| "is_upper (Driver n) = False"

definition env_ok :: "bool \<Rightarrow> smi_env \<Rightarrow> bool" where
  "env_ok mem env \<longleftrightarrow> length (env_stack env) = 4 \<and>
     (case env_alloc env of None \<Rightarrow> \<not> mem | Some m \<Rightarrow> msg_ok m \<and> \<not> is_upper (msg_ptr m) \<and> \<not> msg_tagged m)"

text \<open>\<open>many\<close> says whether several threads may be inside \<open>smi_event_handler\<close> at the same time, \<open>mem\<close> whether memory
  is never short. \<open>notify\<close>: a Dell BT interface comes up beside this one. \<open>stop\<close>: this one begins to go away.\<close>

inductive smi_step :: "'s si_sm_handlers \<Rightarrow> bool \<Rightarrow> bool \<Rightarrow> 's smi_sys \<Rightarrow> 's smi_sys \<Rightarrow> bool" for h many mem where
  send: "\<lbrakk>t < length (smi_pcs s); smi_pcs s ! t = Smi_idle; msg_ok m; is_upper (msg_ptr m); \<not> msg_tagged m\<rbrakk> \<Longrightarrow>
     smi_step h many mem s (s\<lparr>smi_pcs := (smi_pcs s)[t := Send m priority], smi_sent := add_mset (msg_ptr m) (smi_sent s)\<rparr>)"
| drive: "\<lbrakk>t < length (smi_pcs s); smi_pcs s ! t = Smi_idle; many \<or> one_driver ((smi_pcs s)[t := Handler time Once])\<rbrakk> \<Longrightarrow>
     smi_step h many mem s (s\<lparr>smi_pcs := (smi_pcs s)[t := Handler time Once]\<rparr>)"
| rtc: "\<lbrakk>t < length (smi_pcs s); smi_pcs s ! t = Smi_idle\<rbrakk> \<Longrightarrow>
     smi_step h many mem s (s\<lparr>smi_pcs := (smi_pcs s)[t := Set_rtc b]\<rparr>)"
| request: "smi_step h many mem s (s\<lparr>sys_smi := request_events (sys_smi s)\<rparr>)"
| maintenance: "smi_step h many mem s (s\<lparr>sys_smi := set_maintenance_mode b (sys_smi s)\<rparr>)"
| notify: "smi_step h many mem s (s\<lparr>sys_smi := register_xaction_notifier (sys_smi s)\<rparr>)"
| stop: "smi_step h many mem s (s\<lparr>sys_smi := stop_smi (sys_smi s)\<rparr>)"
| run: "\<lbrakk>t < length (smi_pcs s); locks_free (smi_pcs s) (smi_pcs s ! t); env_ok mem env;
         smi_seg h env (sys_smi s) (smi_pcs s ! t) = Some (smi, pc, effs); many \<or> one_driver ((smi_pcs s)[t := pc])\<rbrakk> \<Longrightarrow>
     smi_step h many mem s (s\<lparr>sys_smi := smi, smi_pcs := (smi_pcs s)[t := pc],
       smi_alloced := smi_alloced s + sum_list (map eff_alloced effs),
       smi_freed := smi_freed s + sum_list (map eff_done effs),
       smi_delivered := smi_delivered s @ concat (map eff_delivered effs)\<rparr>)"

inductive_cases smi_step_cases: "smi_step h many mem s s'"

text \<open>An interface that has just come up, and \<open>k\<close> idle threads.\<close>

definition smi_start :: "'s smi_info \<Rightarrow> nat \<Rightarrow> 's smi_sys" where
  "smi_start smi k = \<lparr>sys_smi = smi, smi_pcs = replicate k Smi_idle, smi_sent = {#}, smi_alloced = {#}, smi_freed = {#},
     smi_delivered = []\<rparr>"

definition smi_reach :: "'s si_sm_handlers \<Rightarrow> bool \<Rightarrow> bool \<Rightarrow> 's smi_sys \<Rightarrow> 's smi_sys \<Rightarrow> bool" where
  "smi_reach h many mem = (smi_step h many mem)\<^sup>*\<^sup>*"

end
