(* ===== verification/Ipmi_Kcs.thy ===== *)
theory Ipmi_Kcs
  imports Ipmi_Si
begin

text \<open>
  The KCS state machine, \<^verbatim>\<open>drivers/char/openipmi/ipmi_si_drv/ipmi_kcs_sm.c\<close>. The structure
  \<open>si_sm_data\<close> is the record \<open>kcs_data\<close>; the device behind \<open>io\<close> is its field
  \<open>kcs_dev\<close>. Each \<open>case\<close> of \<open>kcs_event\<close> is a definition of its own: it yields
  \<^term>\<open>Some r\<close> where the C code returns \<open>r\<close> and \<^term>\<open>None\<close> where it breaks out of the
  switch. The counters of the structure are C \<open>int\<close>s and \<open>long\<close>s that stay far from their
  limits and are modelled as integers; \<open>error_retries\<close> is unsigned. Debug output is left out.
\<close>

section \<open>Data\<close>

datatype kcs_states =
  KCS_IDLE | KCS_START_OP | KCS_WAIT_WRITE_START | KCS_WAIT_WRITE | KCS_WAIT_WRITE_END
| KCS_WAIT_READ | KCS_ERROR0 | KCS_ERROR1 | KCS_ERROR2 | KCS_ERROR3 | KCS_HOSED

definition MAX_KCS_READ_SIZE :: nat where
  "MAX_KCS_READ_SIZE = IPMI_MAX_MSG_LENGTH"

definition MAX_KCS_WRITE_SIZE :: nat where
  "MAX_KCS_WRITE_SIZE = IPMI_MAX_MSG_LENGTH"

abbreviation (input) IBF_RETRY_TIMEOUT :: int where "IBF_RETRY_TIMEOUT \<equiv> 1000000"
abbreviation (input) OBF_RETRY_TIMEOUT :: int where "OBF_RETRY_TIMEOUT \<equiv> 1000000"
abbreviation (input) MAX_ERROR_RETRIES :: u32 where "MAX_ERROR_RETRIES \<equiv> 10"

definition ERROR0_OBF_WAIT_JIFFIES :: u64 where
  "ERROR0_OBF_WAIT_JIFFIES = of_nat (2 * HZ)"

record 'd kcs_data =
  kcs_state :: kcs_states
  kcs_dev :: 'd
  kcs_write_data :: "u8 list"
  kcs_write_pos :: int
  kcs_write_count :: int
  kcs_orig_write_count :: int
  kcs_read_data :: "u8 list"
  kcs_read_pos :: int
  kcs_truncated :: bool
  kcs_error_retries :: u32
  kcs_ibf_timeout :: int
  kcs_obf_timeout :: int
  kcs_error0_timeout :: u64

definition init_kcs_data :: "'d kcs_data \<Rightarrow> 'd kcs_data" where
  "init_kcs_data k = k\<lparr>kcs_state := KCS_IDLE, kcs_write_pos := 0, kcs_write_count := 0,
     kcs_orig_write_count := 0, kcs_read_pos := 0, kcs_error_retries := 0,
     kcs_truncated := False, kcs_ibf_timeout := IBF_RETRY_TIMEOUT,
     kcs_obf_timeout := OBF_RETRY_TIMEOUT\<rparr>"

section \<open>Register access\<close>

definition kcs_read_status :: "'d si_sm_io \<Rightarrow> 'd kcs_data \<Rightarrow> u8 \<times> 'd kcs_data" where
  "kcs_read_status io k = (case inputb io (kcs_dev k) 1 of (b, d) \<Rightarrow> (b, k\<lparr>kcs_dev := d\<rparr>))"

definition kcs_read_byte :: "'d si_sm_io \<Rightarrow> 'd kcs_data \<Rightarrow> u8 \<times> 'd kcs_data" where
  "kcs_read_byte io k = (case inputb io (kcs_dev k) 0 of (b, d) \<Rightarrow> (b, k\<lparr>kcs_dev := d\<rparr>))"

definition kcs_write_cmd :: "'d si_sm_io \<Rightarrow> u8 \<Rightarrow> 'd kcs_data \<Rightarrow> 'd kcs_data" where
  "kcs_write_cmd io b k = k\<lparr>kcs_dev := outputb io (kcs_dev k) 1 b\<rparr>"

definition kcs_write_byte :: "'d si_sm_io \<Rightarrow> u8 \<Rightarrow> 'd kcs_data \<Rightarrow> 'd kcs_data" where
  "kcs_write_byte io b k = k\<lparr>kcs_dev := outputb io (kcs_dev k) 0 b\<rparr>"

abbreviation (input) KCS_GET_STATUS_ABORT :: u8 where "KCS_GET_STATUS_ABORT \<equiv> 0x60"
abbreviation (input) KCS_WRITE_START :: u8 where "KCS_WRITE_START \<equiv> 0x61"
abbreviation (input) KCS_WRITE_END :: u8 where "KCS_WRITE_END \<equiv> 0x62"
abbreviation (input) KCS_READ_BYTE :: u8 where "KCS_READ_BYTE \<equiv> 0x68"

definition GET_STATUS_STATE :: "u8 \<Rightarrow> u8" where
  "GET_STATUS_STATE status = (drop_bit 6 status) AND 3"

abbreviation (input) KCS_IDLE_STATE :: u8 where "KCS_IDLE_STATE \<equiv> 0"
abbreviation (input) KCS_READ_STATE :: u8 where "KCS_READ_STATE \<equiv> 1"
abbreviation (input) KCS_WRITE_STATE :: u8 where "KCS_WRITE_STATE \<equiv> 2"

definition GET_STATUS_ATN :: "u8 \<Rightarrow> bool" where "GET_STATUS_ATN status = flag status 4"
definition GET_STATUS_IBF :: "u8 \<Rightarrow> bool" where "GET_STATUS_IBF status = flag status 2"
definition GET_STATUS_OBF :: "u8 \<Rightarrow> bool" where "GET_STATUS_OBF status = flag status 1"

section \<open>Helpers of the event handler\<close>

definition kcs_write_next_byte :: "'d si_sm_io \<Rightarrow> 'd kcs_data \<Rightarrow> 'd kcs_data option" where
  "kcs_write_next_byte io k = do {
     b \<leftarrow> buf_get (kcs_write_data k) (kcs_write_pos k);
     let k1 = kcs_write_byte io b k in
     Some (k1\<lparr>kcs_write_pos := kcs_write_pos k1 + 1, kcs_write_count := kcs_write_count k1 - 1\<rparr>)
   }"

definition kcs_start_error_recovery :: "u64 \<Rightarrow> 'd kcs_data \<Rightarrow> 'd kcs_data" where
  "kcs_start_error_recovery jiffies k =
     (let k1 = k\<lparr>kcs_error_retries := kcs_error_retries k + 1\<rparr> in
      if kcs_error_retries k1 > MAX_ERROR_RETRIES then k1\<lparr>kcs_state := KCS_HOSED\<rparr>
      else k1\<lparr>kcs_error0_timeout := jiffies + ERROR0_OBF_WAIT_JIFFIES, kcs_state := KCS_ERROR0\<rparr>)"

definition kcs_read_next_byte :: "'d si_sm_io \<Rightarrow> 'd kcs_data \<Rightarrow> 'd kcs_data option" where
  "kcs_read_next_byte io k = do {
     k2 \<leftarrow> (if kcs_read_pos k \<ge> int MAX_KCS_READ_SIZE
       then (case kcs_read_byte io k of (b, k1) \<Rightarrow> Some (k1\<lparr>kcs_truncated := True\<rparr>))
       else (case kcs_read_byte io k of (b, k1) \<Rightarrow> do {
         rd \<leftarrow> buf_set (kcs_read_data k1) (kcs_read_pos k1) b;
         Some (k1\<lparr>kcs_read_data := rd, kcs_read_pos := kcs_read_pos k1 + 1\<rparr>) }));
     Some (kcs_write_byte io KCS_READ_BYTE k2)
   }"

definition kcs_check_ibf :: "u8 \<Rightarrow> int \<Rightarrow> u64 \<Rightarrow> 'd kcs_data \<Rightarrow> bool \<times> 'd kcs_data" where
  "kcs_check_ibf status time jiffies k =
     (if GET_STATUS_IBF status then
        (let k1 = k\<lparr>kcs_ibf_timeout := kcs_ibf_timeout k - time\<rparr> in
         if kcs_ibf_timeout k1 < 0
         then (True, (kcs_start_error_recovery jiffies k1)\<lparr>kcs_ibf_timeout := IBF_RETRY_TIMEOUT\<rparr>)
         else (False, k1))
      else (True, k\<lparr>kcs_ibf_timeout := IBF_RETRY_TIMEOUT\<rparr>))"

definition kcs_check_obf :: "u8 \<Rightarrow> int \<Rightarrow> u64 \<Rightarrow> 'd kcs_data \<Rightarrow> bool \<times> 'd kcs_data" where
  "kcs_check_obf status time jiffies k =
     (if \<not> GET_STATUS_OBF status then
        (let k1 = k\<lparr>kcs_obf_timeout := kcs_obf_timeout k - time\<rparr> in
         if kcs_obf_timeout k1 < 0 then (True, kcs_start_error_recovery jiffies k1)
         else (False, k1))
      else (True, k\<lparr>kcs_obf_timeout := OBF_RETRY_TIMEOUT\<rparr>))"

definition kcs_clear_obf :: "'d si_sm_io \<Rightarrow> u8 \<Rightarrow> 'd kcs_data \<Rightarrow> 'd kcs_data" where
  "kcs_clear_obf io status k = (if GET_STATUS_OBF status then snd (kcs_read_byte io k) else k)"

definition restart_kcs_transaction :: "'d si_sm_io \<Rightarrow> 'd kcs_data \<Rightarrow> 'd kcs_data" where
  "restart_kcs_transaction io k =
     kcs_write_cmd io KCS_WRITE_START
       (k\<lparr>kcs_write_count := kcs_orig_write_count k, kcs_write_pos := 0, kcs_read_pos := 0,
          kcs_state := KCS_WAIT_WRITE_START, kcs_ibf_timeout := IBF_RETRY_TIMEOUT,
          kcs_obf_timeout := OBF_RETRY_TIMEOUT\<rparr>)"

section \<open>Starting a transaction and fetching its result\<close>

definition start_kcs_transaction :: "'d kcs_data \<Rightarrow> u8 list \<Rightarrow> (u8 \<times> 'd kcs_data) option" where
  "start_kcs_transaction k data =
     (let size = length data in
      if size < 2 then Some (IPMI_REQ_LEN_INVALID_ERR, k)
      else if size > MAX_KCS_WRITE_SIZE then Some (IPMI_REQ_LEN_EXCEEDED_ERR, k)
      else if kcs_state k \<noteq> KCS_IDLE \<and> kcs_state k \<noteq> KCS_HOSED
        then Some (IPMI_NOT_IN_MY_STATE_ERR, k)
      else do {
        wd \<leftarrow> blit (kcs_write_data k) 0 data;
        Some (0, k\<lparr>kcs_error_retries := 0, kcs_write_data := wd, kcs_write_count := int size,
          kcs_orig_write_count := int size, kcs_write_pos := 0, kcs_read_pos := 0,
          kcs_state := KCS_START_OP, kcs_ibf_timeout := IBF_RETRY_TIMEOUT,
          kcs_obf_timeout := OBF_RETRY_TIMEOUT\<rparr>) })"

definition get_kcs_result ::
  "'d kcs_data \<Rightarrow> u8 list \<Rightarrow> (int \<times> u8 list \<times> 'd kcs_data) option" where
  "get_kcs_result k data = do {
     (pos, d) \<leftarrow> si_copy_result (kcs_read_data k) (kcs_read_pos k) (kcs_truncated k) data;
     Some (pos, d, k\<lparr>kcs_read_pos := pos, kcs_truncated := False\<rparr>) }"

section \<open>The event handler\<close>

type_synonym 'd kcs_branch = "(si_sm_result option \<times> 'd kcs_data) option"

definition kcs_ev_idle :: "'d si_sm_io \<Rightarrow> u8 \<Rightarrow> 'd kcs_data \<Rightarrow> 'd kcs_branch" where
  "kcs_ev_idle io status k =
     (let k1 = kcs_clear_obf io status k in
      if GET_STATUS_ATN status then Some (Some SI_SM_ATTN, k1) else Some (Some SI_SM_IDLE, k1))"

definition kcs_ev_start_op :: "'d si_sm_io \<Rightarrow> u8 \<Rightarrow> u64 \<Rightarrow> 'd kcs_data \<Rightarrow> 'd kcs_branch" where
  "kcs_ev_start_op io status jiffies k =
     (if GET_STATUS_STATE status \<noteq> KCS_IDLE_STATE
      then Some (None, kcs_start_error_recovery jiffies k)
      else Some (None, (kcs_write_cmd io KCS_WRITE_START (kcs_clear_obf io status k))
                         \<lparr>kcs_state := KCS_WAIT_WRITE_START\<rparr>))"

definition kcs_ev_wait_write_start ::
  "'d si_sm_io \<Rightarrow> u8 \<Rightarrow> u64 \<Rightarrow> 'd kcs_data \<Rightarrow> 'd kcs_branch" where
  "kcs_ev_wait_write_start io status jiffies k =
     (if GET_STATUS_STATE status \<noteq> KCS_WRITE_STATE
      then Some (None, kcs_start_error_recovery jiffies k)
      else (let k1 = snd (kcs_read_byte io k) in
        if kcs_write_count k1 = 1
        then Some (None, (kcs_write_cmd io KCS_WRITE_END k1)\<lparr>kcs_state := KCS_WAIT_WRITE_END\<rparr>)
        else do {
          k2 \<leftarrow> kcs_write_next_byte io k1;
          Some (None, k2\<lparr>kcs_state := KCS_WAIT_WRITE\<rparr>) }))"

definition kcs_ev_wait_write ::
  "'d si_sm_io \<Rightarrow> u8 \<Rightarrow> u64 \<Rightarrow> 'd kcs_data \<Rightarrow> 'd kcs_branch" where
  "kcs_ev_wait_write io status jiffies k =
     (if GET_STATUS_STATE status \<noteq> KCS_WRITE_STATE
      then Some (None, kcs_start_error_recovery jiffies k)
      else (let k1 = kcs_clear_obf io status k in
        if kcs_write_count k1 = 1
        then Some (None, (kcs_write_cmd io KCS_WRITE_END k1)\<lparr>kcs_state := KCS_WAIT_WRITE_END\<rparr>)
        else do { k2 \<leftarrow> kcs_write_next_byte io k1; Some (None, k2) }))"

definition kcs_ev_wait_write_end ::
  "'d si_sm_io \<Rightarrow> u8 \<Rightarrow> u64 \<Rightarrow> 'd kcs_data \<Rightarrow> 'd kcs_branch" where
  "kcs_ev_wait_write_end io status jiffies k =
     (if GET_STATUS_STATE status \<noteq> KCS_WRITE_STATE
      then Some (None, kcs_start_error_recovery jiffies k)
      else do {
        k1 \<leftarrow> kcs_write_next_byte io (kcs_clear_obf io status k);
        Some (None, k1\<lparr>kcs_state := KCS_WAIT_READ\<rparr>) })"

definition kcs_ev_wait_read ::
  "'d si_sm_io \<Rightarrow> u8 \<Rightarrow> int \<Rightarrow> u64 \<Rightarrow> 'd kcs_data \<Rightarrow> 'd kcs_branch" where
  "kcs_ev_wait_read io status time jiffies k =
     (if GET_STATUS_STATE status \<noteq> KCS_READ_STATE \<and> GET_STATUS_STATE status \<noteq> KCS_IDLE_STATE
      then Some (None, kcs_start_error_recovery jiffies k)
      else if GET_STATUS_STATE status = KCS_READ_STATE
      then (case kcs_check_obf status time jiffies k of (ok, k1) \<Rightarrow>
        if \<not> ok then Some (Some SI_SM_CALL_WITH_DELAY, k1)
        else do { k2 \<leftarrow> kcs_read_next_byte io k1; Some (None, k2) })
      else Some (Some SI_SM_TRANSACTION_COMPLETE,
        (kcs_clear_obf io status k)\<lparr>kcs_orig_write_count := 0, kcs_state := KCS_IDLE\<rparr>))"

definition kcs_ev_error0 :: "'d si_sm_io \<Rightarrow> u8 \<Rightarrow> u64 \<Rightarrow> 'd kcs_data \<Rightarrow> 'd kcs_branch" where
  "kcs_ev_error0 io status jiffies k =
     (case kcs_read_status io (kcs_clear_obf io status k) of (status1, k1) \<Rightarrow>
      if GET_STATUS_OBF status1 \<and> time_before jiffies (kcs_error0_timeout k1)
      then Some (Some SI_SM_CALL_WITH_TICK_DELAY, k1)
      else Some (None, (kcs_write_cmd io KCS_GET_STATUS_ABORT k1)\<lparr>kcs_state := KCS_ERROR1\<rparr>))"

definition kcs_ev_error1 :: "'d si_sm_io \<Rightarrow> u8 \<Rightarrow> 'd kcs_data \<Rightarrow> 'd kcs_branch" where
  "kcs_ev_error1 io status k =
     Some (None, (kcs_write_byte io 0 (kcs_clear_obf io status k))\<lparr>kcs_state := KCS_ERROR2\<rparr>)"

definition kcs_ev_error2 ::
  "'d si_sm_io \<Rightarrow> u8 \<Rightarrow> int \<Rightarrow> u64 \<Rightarrow> 'd kcs_data \<Rightarrow> 'd kcs_branch" where
  "kcs_ev_error2 io status time jiffies k =
     (if GET_STATUS_STATE status \<noteq> KCS_READ_STATE
      then Some (None, kcs_start_error_recovery jiffies k)
      else (case kcs_check_obf status time jiffies k of (ok, k1) \<Rightarrow>
        if \<not> ok then Some (Some SI_SM_CALL_WITH_DELAY, k1)
        else Some (None, (kcs_write_byte io KCS_READ_BYTE (kcs_clear_obf io status k1))
                           \<lparr>kcs_state := KCS_ERROR3\<rparr>)))"

definition kcs_ev_error3 ::
  "'d si_sm_io \<Rightarrow> u8 \<Rightarrow> int \<Rightarrow> u64 \<Rightarrow> 'd kcs_data \<Rightarrow> 'd kcs_branch" where
  "kcs_ev_error3 io status time jiffies k =
     (if GET_STATUS_STATE status \<noteq> KCS_IDLE_STATE
      then Some (None, kcs_start_error_recovery jiffies k)
      else (case kcs_check_obf status time jiffies k of (ok, k1) \<Rightarrow>
        if \<not> ok then Some (Some SI_SM_CALL_WITH_DELAY, k1)
        else (let k2 = kcs_clear_obf io status k1 in
          if kcs_orig_write_count k2 \<noteq> 0 then Some (None, restart_kcs_transaction io k2)
          else Some (Some SI_SM_TRANSACTION_COMPLETE, k2\<lparr>kcs_state := KCS_IDLE\<rparr>))))"

definition kcs_ev_switch ::
  "'d si_sm_io \<Rightarrow> u8 \<Rightarrow> int \<Rightarrow> u64 \<Rightarrow> 'd kcs_data \<Rightarrow> 'd kcs_branch" where
  "kcs_ev_switch io status time jiffies k =
     (case kcs_state k of
        KCS_IDLE \<Rightarrow> kcs_ev_idle io status k
      | KCS_START_OP \<Rightarrow> kcs_ev_start_op io status jiffies k
      | KCS_WAIT_WRITE_START \<Rightarrow> kcs_ev_wait_write_start io status jiffies k
      | KCS_WAIT_WRITE \<Rightarrow> kcs_ev_wait_write io status jiffies k
      | KCS_WAIT_WRITE_END \<Rightarrow> kcs_ev_wait_write_end io status jiffies k
      | KCS_WAIT_READ \<Rightarrow> kcs_ev_wait_read io status time jiffies k
      | KCS_ERROR0 \<Rightarrow> kcs_ev_error0 io status jiffies k
      | KCS_ERROR1 \<Rightarrow> kcs_ev_error1 io status k
      | KCS_ERROR2 \<Rightarrow> kcs_ev_error2 io status time jiffies k
      | KCS_ERROR3 \<Rightarrow> kcs_ev_error3 io status time jiffies k
      | KCS_HOSED \<Rightarrow> Some (None, k))"

definition kcs_event ::
  "'d si_sm_io \<Rightarrow> 'd kcs_data \<Rightarrow> int \<Rightarrow> u64 \<Rightarrow> (si_sm_result \<times> 'd kcs_data) option" where
  "kcs_event io k time jiffies =
     (case kcs_read_status io k of (status, k0) \<Rightarrow>
      case kcs_check_ibf status time jiffies k0 of (ok, k1) \<Rightarrow>
      if \<not> ok then Some (SI_SM_CALL_WITH_DELAY, k1)
      else do {
        (r, k2) \<leftarrow> kcs_ev_switch io status time jiffies k1;
        (case r of
           Some res \<Rightarrow> Some (res, k2)
         | None \<Rightarrow>
             if kcs_state k2 = KCS_HOSED then Some (SI_SM_HOSED, init_kcs_data k2)
             else Some (SI_SM_CALL_WITHOUT_DELAY, k2)) })"

definition kcs_detect :: "'d si_sm_io \<Rightarrow> 'd kcs_data \<Rightarrow> int \<times> 'd kcs_data" where
  "kcs_detect io k = (case kcs_read_status io k of (b, k1) \<Rightarrow> (if b = 0xff then 1 else 0, k1))"

definition kcs_smi_handlers :: "'d si_sm_io \<Rightarrow> 'd kcs_data si_sm_handlers" where
  "kcs_smi_handlers io = \<lparr>init_data = init_kcs_data, start_transaction = start_kcs_transaction,
     get_result = get_kcs_result, event = kcs_event io, detect = kcs_detect io\<rparr>"

section \<open>The invariant\<close>

text \<open>
  The buffers keep their size; the read position stays inside its buffer; while a request is
  being written, the bytes written and the bytes left add up to the request.
\<close>

definition kcs_raw :: "'d kcs_data \<Rightarrow> bool" where
  "kcs_raw k \<longleftrightarrow> length (kcs_write_data k) = MAX_KCS_WRITE_SIZE \<and>
     length (kcs_read_data k) = MAX_KCS_READ_SIZE"

definition kcs_inv :: "'d kcs_data \<Rightarrow> bool" where
  "kcs_inv k \<longleftrightarrow> kcs_raw k \<and>
     0 \<le> kcs_read_pos k \<and> kcs_read_pos k \<le> int MAX_KCS_READ_SIZE \<and>
     (kcs_orig_write_count k = 0 \<or>
        2 \<le> kcs_orig_write_count k \<and> kcs_orig_write_count k \<le> int MAX_KCS_WRITE_SIZE) \<and>
     (kcs_state k \<in> {KCS_START_OP, KCS_WAIT_WRITE_START} \<longrightarrow>
        kcs_write_pos k = 0 \<and> kcs_write_count k = kcs_orig_write_count k \<and>
        kcs_orig_write_count k \<noteq> 0) \<and>
     (kcs_state k \<in> {KCS_WAIT_WRITE, KCS_WAIT_WRITE_END} \<longrightarrow>
        0 \<le> kcs_write_pos k \<and> 1 \<le> kcs_write_count k \<and>
        kcs_write_pos k + kcs_write_count k = kcs_orig_write_count k) \<and>
     (kcs_state k = KCS_WAIT_WRITE_END \<longrightarrow> kcs_write_count k = 1)"

lemmas kcs_size_defs = MAX_KCS_READ_SIZE_def MAX_KCS_WRITE_SIZE_def IPMI_MAX_MSG_LENGTH_def
lemma init_kcs_data_inv: "kcs_raw k \<Longrightarrow> kcs_inv (init_kcs_data k)"
  by (simp add: kcs_inv_def kcs_raw_def init_kcs_data_def)

lemma kcs_inv_raw: "kcs_inv k \<Longrightarrow> kcs_raw k"
  by (simp add: kcs_inv_def)

text \<open>Register accesses change the device only.\<close>

lemma kcs_inv_dev [simp]: "kcs_inv (k\<lparr>kcs_dev := d\<rparr>) = kcs_inv k"
  by (simp add: kcs_inv_def kcs_raw_def)

lemma kcs_read_status_eq:
  "kcs_read_status io k = (fst (inputb io (kcs_dev k) 1), k\<lparr>kcs_dev := snd (inputb io (kcs_dev k) 1)\<rparr>)"
  by (simp add: kcs_read_status_def split_beta)

lemma kcs_read_byte_eq:
  "kcs_read_byte io k = (fst (inputb io (kcs_dev k) 0), k\<lparr>kcs_dev := snd (inputb io (kcs_dev k) 0)\<rparr>)"
  by (simp add: kcs_read_byte_def split_beta)

lemma kcs_clear_obf_eq:
  "kcs_clear_obf io st k = k\<lparr>kcs_dev := if GET_STATUS_OBF st then snd (inputb io (kcs_dev k) 0) else kcs_dev k\<rparr>"
  by (simp add: kcs_clear_obf_def kcs_read_byte_eq)

lemmas kcs_io_eqs = kcs_read_status_eq kcs_read_byte_eq kcs_clear_obf_eq kcs_write_cmd_def
  kcs_write_byte_def

text \<open>The helpers keep the invariant, and entering error recovery needs only its buffer part.\<close>

lemma kcs_start_error_recovery_inv [intro]: "kcs_inv k \<Longrightarrow> kcs_inv (kcs_start_error_recovery j k)"
  by (simp add: kcs_start_error_recovery_def kcs_inv_def kcs_raw_def Let_def)

lemma kcs_inv_timeouts [simp]:
  "kcs_inv (k\<lparr>kcs_ibf_timeout := t\<rparr>) = kcs_inv k"
  "kcs_inv (k\<lparr>kcs_obf_timeout := t\<rparr>) = kcs_inv k"
  by (simp_all add: kcs_inv_def kcs_raw_def)

lemma kcs_inv_neutral_state:
  "kcs_inv k \<Longrightarrow> st \<in> {KCS_IDLE, KCS_WAIT_READ, KCS_ERROR0, KCS_ERROR1, KCS_ERROR2, KCS_ERROR3, KCS_HOSED} \<Longrightarrow>
   kcs_inv (k\<lparr>kcs_state := st\<rparr>)"
  by (auto simp: kcs_inv_def kcs_raw_def)

lemma kcs_check_ibf_inv: "kcs_inv k \<Longrightarrow> kcs_check_ibf st t j k = (ok, k') \<Longrightarrow> kcs_inv k'"
  by (auto simp: kcs_check_ibf_def Let_def intro!: kcs_start_error_recovery_inv split: if_splits)

lemma kcs_check_obf_inv: "kcs_inv k \<Longrightarrow> kcs_check_obf st t j k = (ok, k') \<Longrightarrow> kcs_inv k'"
  by (auto simp: kcs_check_obf_def Let_def intro!: kcs_start_error_recovery_inv split: if_splits)

lemma kcs_read_next_byte_inv:
  "kcs_inv k \<Longrightarrow> \<exists>k'. kcs_read_next_byte io k = Some k' \<and> kcs_inv k'"
  by (auto simp: kcs_read_next_byte_def kcs_io_eqs kcs_inv_def kcs_raw_def buf_set_def)

lemma kcs_write_next_byte_inv:
  "kcs_inv k \<Longrightarrow> kcs_state k = KCS_WAIT_WRITE \<or> kcs_state k = KCS_WAIT_WRITE_START \<Longrightarrow>
   kcs_write_count k \<noteq> 1 \<Longrightarrow>
   \<exists>k'. kcs_write_next_byte io k = Some k' \<and> kcs_inv (k'\<lparr>kcs_state := KCS_WAIT_WRITE\<rparr>) \<and>
        kcs_state k' = kcs_state k"
  by (auto simp: kcs_write_next_byte_def kcs_io_eqs kcs_inv_def kcs_raw_def buf_get_def)

lemma kcs_write_last_byte_inv:
  "kcs_inv k \<Longrightarrow> kcs_state k = KCS_WAIT_WRITE_END \<Longrightarrow>
   \<exists>k'. kcs_write_next_byte io k = Some k' \<and> kcs_inv (k'\<lparr>kcs_state := KCS_WAIT_READ\<rparr>)"
  by (auto simp: kcs_write_next_byte_def kcs_io_eqs kcs_inv_def kcs_raw_def buf_get_def)

definition kcs_branch_ok :: "'d kcs_branch \<Rightarrow> bool" where
  "kcs_branch_ok b \<longleftrightarrow> (\<exists>r k. b = Some (r, k) \<and> kcs_inv k)"

lemma kcs_branch_ok_Some [simp]: "kcs_branch_ok (Some (r, k)) = kcs_inv k"
  by (simp add: kcs_branch_ok_def)

lemma kcs_ev_wait_write_start_ok:
  assumes "kcs_inv k" "kcs_state k = KCS_WAIT_WRITE_START"
  shows "kcs_branch_ok (kcs_ev_wait_write_start io st j k)"
proof -
  let ?k = "k\<lparr>kcs_dev := snd (inputb io (kcs_dev k) 0)\<rparr>"
  have "kcs_write_count k \<noteq> 1" using assms by (auto simp: kcs_inv_def)
  then obtain k' where "kcs_write_next_byte io ?k = Some k'"
      "kcs_inv (k'\<lparr>kcs_state := KCS_WAIT_WRITE\<rparr>)"
    using kcs_write_next_byte_inv [of ?k io] assms by auto
  with assms \<open>kcs_write_count k \<noteq> 1\<close> show ?thesis
    by (auto simp: kcs_ev_wait_write_start_def kcs_read_byte_eq Let_def)
qed

lemma kcs_ev_wait_write_ok:
  assumes "kcs_inv k" "kcs_state k = KCS_WAIT_WRITE"
  shows "kcs_branch_ok (kcs_ev_wait_write io st j k)"
proof (cases "kcs_write_count k = 1")
  case True
  with assms show ?thesis
    by (auto simp: kcs_ev_wait_write_def kcs_io_eqs Let_def kcs_inv_def kcs_raw_def
        kcs_start_error_recovery_def)
next
  case False
  let ?k = "kcs_clear_obf io st k"
  obtain k' where "kcs_write_next_byte io ?k = Some k'"
      "kcs_inv (k'\<lparr>kcs_state := KCS_WAIT_WRITE\<rparr>)" "kcs_state k' = KCS_WAIT_WRITE"
    using kcs_write_next_byte_inv [of ?k io] assms False by (auto simp: kcs_clear_obf_eq)
  moreover have "k'\<lparr>kcs_state := KCS_WAIT_WRITE\<rparr> = k'"
    using \<open>kcs_state k' = KCS_WAIT_WRITE\<close> by (metis kcs_data.surjective kcs_data.update_convs(1))
  ultimately show ?thesis
    using assms False by (auto simp: kcs_ev_wait_write_def Let_def kcs_clear_obf_eq)
qed

lemma kcs_ev_wait_write_end_ok:
  assumes "kcs_inv k" "kcs_state k = KCS_WAIT_WRITE_END"
  shows "kcs_branch_ok (kcs_ev_wait_write_end io st j k)"
proof -
  let ?k = "kcs_clear_obf io st k"
  obtain k' where "kcs_write_next_byte io ?k = Some k'"
      "kcs_inv (k'\<lparr>kcs_state := KCS_WAIT_READ\<rparr>)"
    using kcs_write_last_byte_inv [of ?k io] assms by (auto simp: kcs_clear_obf_eq)
  with assms show ?thesis by (auto simp: kcs_ev_wait_write_end_def)
qed

lemma kcs_ev_wait_read_ok:
  assumes "kcs_inv k" shows "kcs_branch_ok (kcs_ev_wait_read io st t j k)"
proof -
  obtain ok k1 where k1: "kcs_check_obf st t j k = (ok, k1)" by fastforce
  with assms have "kcs_inv k1" by (rule kcs_check_obf_inv)
  moreover obtain k2 where "kcs_read_next_byte io k1 = Some k2" "kcs_inv k2"
    using kcs_read_next_byte_inv \<open>kcs_inv k1\<close> by blast
  moreover have "kcs_inv (k\<lparr>kcs_dev := d, kcs_orig_write_count := 0, kcs_state := KCS_IDLE\<rparr>)" for d
    using assms by (auto simp: kcs_inv_def kcs_raw_def)
  ultimately show ?thesis
    using assms k1 by (auto simp: kcs_ev_wait_read_def kcs_clear_obf_eq)
qed

lemma kcs_ev_error23_ok:
  assumes "kcs_inv k"
  shows "kcs_branch_ok (kcs_ev_error2 io st t j k)" "kcs_branch_ok (kcs_ev_error3 io st t j k)"
proof -
  obtain ok k1 where k1: "kcs_check_obf st t j k = (ok, k1)" by fastforce
  with assms have inv: "kcs_inv k1" by (rule kcs_check_obf_inv)
  show "kcs_branch_ok (kcs_ev_error2 io st t j k)"
    using assms k1 inv by (auto simp: kcs_ev_error2_def kcs_io_eqs intro: kcs_inv_neutral_state)
  have "kcs_orig_write_count k1 \<noteq> 0 \<Longrightarrow> kcs_inv (restart_kcs_transaction io (k1\<lparr>kcs_dev := d\<rparr>))" for d
    using inv by (auto simp: restart_kcs_transaction_def kcs_write_cmd_def kcs_inv_def kcs_raw_def)
  then show "kcs_branch_ok (kcs_ev_error3 io st t j k)"
    using assms k1 inv
    by (auto simp: kcs_ev_error3_def kcs_clear_obf_eq Let_def intro: kcs_inv_neutral_state)
qed

lemma kcs_ev_switch_ok:
  assumes "kcs_inv k" shows "kcs_branch_ok (kcs_ev_switch io st t j k)"
proof (cases "kcs_state k")
  case KCS_START_OP
  with assms have "kcs_inv (k\<lparr>kcs_dev := d, kcs_state := KCS_WAIT_WRITE_START\<rparr>)" for d
    by (auto simp: kcs_inv_def kcs_raw_def)
  with assms KCS_START_OP show ?thesis
    by (auto simp: kcs_ev_switch_def kcs_ev_start_op_def kcs_io_eqs)
qed (use assms in \<open>auto simp: kcs_ev_switch_def kcs_ev_idle_def kcs_ev_error0_def kcs_ev_error1_def
  kcs_io_eqs Let_def kcs_ev_wait_write_start_ok kcs_ev_wait_write_ok kcs_ev_wait_write_end_ok
  kcs_ev_wait_read_ok kcs_ev_error23_ok intro!: kcs_inv_neutral_state\<close>)

lemma kcs_event_inv:
  assumes "kcs_inv k"
  shows "\<exists>r k'. kcs_event io k t j = Some (r, k') \<and> kcs_inv k'"
proof -
  obtain st k0 where k0: "kcs_read_status io k = (st, k0)" by fastforce
  obtain ok k1 where k1: "kcs_check_ibf st t j k0 = (ok, k1)" by fastforce
  have "kcs_inv k1"
    using assms k0 k1 by (auto simp: kcs_read_status_eq intro: kcs_check_ibf_inv [rotated])
  then obtain r k2 where "kcs_ev_switch io st t j k1 = Some (r, k2)" and "kcs_inv k2"
    using kcs_ev_switch_ok [of k1 io st t j] unfolding kcs_branch_ok_def by blast
  with k0 k1 \<open>kcs_inv k1\<close> show ?thesis
    by (auto simp: kcs_event_def init_kcs_data_inv kcs_inv_raw split: option.splits)
qed

lemma start_kcs_transaction_cases:
  assumes "start_kcs_transaction k data = Some (c, k')"
  obtains "k' = k" "c \<noteq> 0"
  | wd where "blit (kcs_write_data k) 0 data = Some wd" "c = 0"
      "2 \<le> length data" "length data \<le> MAX_KCS_WRITE_SIZE"
      "kcs_state k = KCS_IDLE \<or> kcs_state k = KCS_HOSED"
      "k' = k\<lparr>kcs_error_retries := 0, kcs_write_data := wd, kcs_write_count := int (length data),
          kcs_orig_write_count := int (length data), kcs_write_pos := 0, kcs_read_pos := 0,
          kcs_state := KCS_START_OP, kcs_ibf_timeout := IBF_RETRY_TIMEOUT,
          kcs_obf_timeout := OBF_RETRY_TIMEOUT\<rparr>"
  using assms by (auto simp: start_kcs_transaction_def Let_def bind_eq_Some_conv split: if_splits)

lemma start_kcs_transaction_inv:
  assumes "kcs_inv k" "start_kcs_transaction k data = Some (c, k')"
  shows "kcs_inv k'"
  using assms(2)
proof (cases rule: start_kcs_transaction_cases)
  case (2 wd)
  then show ?thesis using assms(1) blit_length [OF 2(1)] by (auto simp: kcs_inv_def kcs_raw_def)
qed (use assms in simp)

lemma start_kcs_transaction_defined: "kcs_inv k \<Longrightarrow> start_kcs_transaction k data \<noteq> None"
  by (simp add: start_kcs_transaction_def Let_def blit_def kcs_inv_def kcs_raw_def)

lemma get_kcs_result_defined:
  "kcs_inv k \<Longrightarrow> 3 \<le> length data \<Longrightarrow> get_kcs_result k data \<noteq> None"
  by (simp add: get_kcs_result_def si_copy_result_eq kcs_inv_def kcs_raw_def)

lemma kcs_inv_read_pos:
  "kcs_inv k \<Longrightarrow> 0 \<le> p \<Longrightarrow> p \<le> int MAX_KCS_READ_SIZE \<Longrightarrow>
   kcs_inv (k\<lparr>kcs_read_pos := p, kcs_truncated := t\<rparr>)"
  by (auto simp: kcs_inv_def kcs_raw_def)

lemma get_kcs_result_inv:
  assumes "kcs_inv k" "get_kcs_result k data = Some (n, data', k')"
  shows "kcs_inv k'"
proof -
  have n: "si_copy_result (kcs_read_data k) (kcs_read_pos k) (kcs_truncated k) data = Some (n, data')"
    and k': "k' = k\<lparr>kcs_read_pos := n, kcs_truncated := False\<rparr>"
    using assms(2) by (auto simp: get_kcs_result_def bind_eq_Some_conv)
  have "0 \<le> kcs_read_pos k" "kcs_read_pos k \<le> int MAX_KCS_READ_SIZE"
    using assms(1) by (simp_all add: kcs_inv_def)
  with si_copy_result_pos [OF n] have "0 \<le> n \<and> n \<le> int MAX_KCS_READ_SIZE"
    unfolding kcs_size_defs by linarith
  with assms(1) show ?thesis unfolding k' by (simp add: kcs_inv_read_pos)
qed

interpretation kcs: si_sm_contract "kcs_smi_handlers io" kcs_raw kcs_inv "\<lambda>_. True"
  MAX_KCS_WRITE_SIZE for io
proof (unfold_locales, goal_cases)
  case 1 then show ?case by (simp add: kcs_smi_handlers_def init_kcs_data_inv)
next
  case 2 then show ?case by (simp add: kcs_smi_handlers_def start_kcs_transaction_defined)
next
  case 3 then show ?case by (auto simp: kcs_smi_handlers_def intro: start_kcs_transaction_inv)
next
  case (4 s t j) then show ?case using kcs_event_inv [of s io t j] by (auto simp: kcs_smi_handlers_def)
next
  case (5 s t j r s') then show ?case
    using kcs_event_inv [of s io t j] by (auto simp: kcs_smi_handlers_def)
next
  case 6 then show ?case using get_kcs_result_defined by (auto simp: kcs_smi_handlers_def)
next
  case 7 then show ?case by (auto simp: kcs_smi_handlers_def intro: get_kcs_result_inv)
qed

end
