(* ===== verification/Ipmi_Smic.thy ===== *)
theory Ipmi_Smic
  imports Ipmi_Si
begin

text \<open>
  The SMIC state machine, \<^verbatim>\<open>drivers/char/openipmi/ipmi_si_drv/ipmi_smic_sm.c\<close>. The structure
  \<open>si_sm_data\<close> is the record \<open>smic_data\<close>; the device behind \<open>io\<close> is its field
  \<open>smic_dev\<close>. Each \<open>case\<close> of \<open>smic_event\<close> is a definition of its own: it yields
  \<^term>\<open>Some r\<close> where the C code returns \<open>r\<close> and \<^term>\<open>None\<close> where it breaks out of the
  switch. Positions and counters are C \<open>int\<close>s and \<open>long\<close>s that stay far from their limits and
  are modelled as integers. Debug output is left out; \<open>init_smic_data\<close> also returns the constant
  3, the size of the I/O region, which is not modelled.
\<close>

section \<open>Data\<close>

datatype smic_states =
  SMIC_IDLE | SMIC_START_OP | SMIC_OP_OK | SMIC_WRITE_START | SMIC_WRITE_NEXT | SMIC_WRITE_END
| SMIC_WRITE2READ | SMIC_READ_START | SMIC_READ_NEXT | SMIC_READ_END | SMIC_HOSED

definition MAX_SMIC_READ_SIZE :: nat where "MAX_SMIC_READ_SIZE = 80"
definition MAX_SMIC_WRITE_SIZE :: nat where "MAX_SMIC_WRITE_SIZE = 80"
abbreviation (input) SMIC_MAX_ERROR_RETRIES :: u32 where "SMIC_MAX_ERROR_RETRIES \<equiv> 3"
abbreviation (input) SMIC_RETRY_TIMEOUT :: int where "SMIC_RETRY_TIMEOUT \<equiv> 2000000"

abbreviation (input) SMIC_RX_DATA_READY :: u8 where "SMIC_RX_DATA_READY \<equiv> 0x80"
abbreviation (input) SMIC_TX_DATA_READY :: u8 where "SMIC_TX_DATA_READY \<equiv> 0x40"
abbreviation (input) SMIC_SMS_DATA_AVAIL :: u8 where "SMIC_SMS_DATA_AVAIL \<equiv> 0x04"
abbreviation (input) SMIC_FLAG_BSY :: u8 where "SMIC_FLAG_BSY \<equiv> 0x01"

abbreviation (input) SMIC_CC_SMS_GET_STATUS :: u8 where "SMIC_CC_SMS_GET_STATUS \<equiv> 0x40"
abbreviation (input) SMIC_CC_SMS_WR_START :: u8 where "SMIC_CC_SMS_WR_START \<equiv> 0x41"
abbreviation (input) SMIC_CC_SMS_WR_NEXT :: u8 where "SMIC_CC_SMS_WR_NEXT \<equiv> 0x42"
abbreviation (input) SMIC_CC_SMS_WR_END :: u8 where "SMIC_CC_SMS_WR_END \<equiv> 0x43"
abbreviation (input) SMIC_CC_SMS_RD_START :: u8 where "SMIC_CC_SMS_RD_START \<equiv> 0x44"
abbreviation (input) SMIC_CC_SMS_RD_NEXT :: u8 where "SMIC_CC_SMS_RD_NEXT \<equiv> 0x45"
abbreviation (input) SMIC_CC_SMS_RD_END :: u8 where "SMIC_CC_SMS_RD_END \<equiv> 0x46"
abbreviation (input) SMIC_SC_SMS_READY :: u8 where "SMIC_SC_SMS_READY \<equiv> 0xC0"
abbreviation (input) SMIC_SC_SMS_WR_START :: u8 where "SMIC_SC_SMS_WR_START \<equiv> 0xC1"
abbreviation (input) SMIC_SC_SMS_WR_NEXT :: u8 where "SMIC_SC_SMS_WR_NEXT \<equiv> 0xC2"
abbreviation (input) SMIC_SC_SMS_WR_END :: u8 where "SMIC_SC_SMS_WR_END \<equiv> 0xC3"
abbreviation (input) SMIC_SC_SMS_RD_START :: u8 where "SMIC_SC_SMS_RD_START \<equiv> 0xC4"
abbreviation (input) SMIC_SC_SMS_RD_NEXT :: u8 where "SMIC_SC_SMS_RD_NEXT \<equiv> 0xC5"
abbreviation (input) SMIC_SC_SMS_RD_END :: u8 where "SMIC_SC_SMS_RD_END \<equiv> 0xC6"

record 'd smic_data =
  smic_state :: smic_states
  smic_dev :: 'd
  smic_write_data :: "u8 list"
  smic_write_pos :: int
  smic_write_count :: int
  smic_orig_write_count :: int
  smic_read_data :: "u8 list"
  smic_read_pos :: int
  smic_truncated :: bool
  smic_error_retries :: u32
  smic_timeout :: int

definition init_smic_data :: "'d smic_data \<Rightarrow> 'd smic_data" where
  "init_smic_data m = m\<lparr>smic_state := SMIC_IDLE, smic_write_pos := 0, smic_write_count := 0,
     smic_orig_write_count := 0, smic_read_pos := 0, smic_error_retries := 0,
     smic_truncated := False, smic_timeout := SMIC_RETRY_TIMEOUT\<rparr>"

section \<open>Starting a transaction and fetching its result\<close>

definition start_smic_transaction :: "'d smic_data \<Rightarrow> u8 list \<Rightarrow> (u8 \<times> 'd smic_data) option" where
  "start_smic_transaction m data =
     (let size = length data in
      if size < 2 then Some (IPMI_REQ_LEN_INVALID_ERR, m)
      else if size > MAX_SMIC_WRITE_SIZE then Some (IPMI_REQ_LEN_EXCEEDED_ERR, m)
      else if smic_state m \<noteq> SMIC_IDLE \<and> smic_state m \<noteq> SMIC_HOSED
        then Some (IPMI_NOT_IN_MY_STATE_ERR, m)
      else do {
        wd \<leftarrow> blit (smic_write_data m) 0 data;
        Some (0, m\<lparr>smic_error_retries := 0, smic_write_data := wd, smic_write_count := int size,
          smic_orig_write_count := int size, smic_write_pos := 0, smic_read_pos := 0,
          smic_state := SMIC_START_OP, smic_timeout := SMIC_RETRY_TIMEOUT\<rparr>) })"

definition smic_get_result ::
  "'d smic_data \<Rightarrow> u8 list \<Rightarrow> (int \<times> u8 list \<times> 'd smic_data) option" where
  "smic_get_result m data = do {
     (pos, d) \<leftarrow> si_copy_result (smic_read_data m) (smic_read_pos m) (smic_truncated m) data;
     Some (pos, d, m\<lparr>smic_read_pos := pos, smic_truncated := False\<rparr>) }"

section \<open>Register access and helpers\<close>

definition read_smic_flags :: "'d si_sm_io \<Rightarrow> 'd smic_data \<Rightarrow> u8 \<times> 'd smic_data" where
  "read_smic_flags io m = (case inputb io (smic_dev m) 2 of (b, d) \<Rightarrow> (b, m\<lparr>smic_dev := d\<rparr>))"

definition read_smic_status :: "'d si_sm_io \<Rightarrow> 'd smic_data \<Rightarrow> u8 \<times> 'd smic_data" where
  "read_smic_status io m = (case inputb io (smic_dev m) 1 of (b, d) \<Rightarrow> (b, m\<lparr>smic_dev := d\<rparr>))"

definition read_smic_data :: "'d si_sm_io \<Rightarrow> 'd smic_data \<Rightarrow> u8 \<times> 'd smic_data" where
  "read_smic_data io m = (case inputb io (smic_dev m) 0 of (b, d) \<Rightarrow> (b, m\<lparr>smic_dev := d\<rparr>))"

definition write_smic_flags :: "'d si_sm_io \<Rightarrow> u8 \<Rightarrow> 'd smic_data \<Rightarrow> 'd smic_data" where
  "write_smic_flags io flags m = m\<lparr>smic_dev := outputb io (smic_dev m) 2 flags\<rparr>"

definition write_smic_control :: "'d si_sm_io \<Rightarrow> u8 \<Rightarrow> 'd smic_data \<Rightarrow> 'd smic_data" where
  "write_smic_control io control m = m\<lparr>smic_dev := outputb io (smic_dev m) 1 control\<rparr>"

definition write_si_sm_data :: "'d si_sm_io \<Rightarrow> u8 \<Rightarrow> 'd smic_data \<Rightarrow> 'd smic_data" where
  "write_si_sm_data io data m = m\<lparr>smic_dev := outputb io (smic_dev m) 0 data\<rparr>"

definition smic_start_error_recovery :: "'d smic_data \<Rightarrow> 'd smic_data" where
  "smic_start_error_recovery m =
     (let m1 = m\<lparr>smic_error_retries := smic_error_retries m + 1\<rparr> in
      if smic_error_retries m1 > SMIC_MAX_ERROR_RETRIES then m1\<lparr>smic_state := SMIC_HOSED\<rparr>
      else m1\<lparr>smic_write_count := smic_orig_write_count m1, smic_write_pos := 0,
             smic_read_pos := 0, smic_state := SMIC_START_OP, smic_timeout := SMIC_RETRY_TIMEOUT\<rparr>)"

definition smic_write_next_byte :: "'d si_sm_io \<Rightarrow> 'd smic_data \<Rightarrow> 'd smic_data option" where
  "smic_write_next_byte io m = do {
     b \<leftarrow> buf_get (smic_write_data m) (smic_write_pos m);
     let m1 = write_si_sm_data io b m in
     Some (m1\<lparr>smic_write_pos := smic_write_pos m1 + 1, smic_write_count := smic_write_count m1 - 1\<rparr>)
   }"

definition smic_read_next_byte :: "'d si_sm_io \<Rightarrow> 'd smic_data \<Rightarrow> 'd smic_data option" where
  "smic_read_next_byte io m =
     (if smic_read_pos m \<ge> int MAX_SMIC_READ_SIZE
      then (case read_smic_data io m of (b, m1) \<Rightarrow> Some (m1\<lparr>smic_truncated := True\<rparr>))
      else (case read_smic_data io m of (b, m1) \<Rightarrow> do {
        rd \<leftarrow> buf_set (smic_read_data m1) (smic_read_pos m1) b;
        Some (m1\<lparr>smic_read_data := rd, smic_read_pos := smic_read_pos m1 + 1\<rparr>) }))"

section \<open>The event handler\<close>

type_synonym 'd smic_branch = "(si_sm_result option \<times> 'd smic_data) option"

text \<open>A step that fails: \<open>start_error_recovery\<close>, then \<open>return SI_SM_CALL_WITH_DELAY\<close>.\<close>

definition smic_recover :: "'d smic_data \<Rightarrow> 'd smic_branch" where
  "smic_recover m = Some (Some SI_SM_CALL_WITH_DELAY, smic_start_error_recovery m)"

definition smic_ev_idle :: "u8 \<Rightarrow> 'd smic_data \<Rightarrow> 'd smic_branch" where
  "smic_ev_idle flags m =
     (if flag flags SMIC_SMS_DATA_AVAIL then Some (Some SI_SM_ATTN, m) else Some (Some SI_SM_IDLE, m))"

definition smic_ev_start_op :: "'d si_sm_io \<Rightarrow> u8 \<Rightarrow> 'd smic_data \<Rightarrow> 'd smic_branch" where
  "smic_ev_start_op io flags m =
     Some (None, (write_smic_flags io (flags OR SMIC_FLAG_BSY)
       (write_smic_control io SMIC_CC_SMS_GET_STATUS m))\<lparr>smic_state := SMIC_OP_OK\<rparr>)"

definition smic_ev_op_ok :: "'d si_sm_io \<Rightarrow> u8 \<Rightarrow> u8 \<Rightarrow> 'd smic_data \<Rightarrow> 'd smic_branch" where
  "smic_ev_op_ok io flags status m =
     (if status \<noteq> SMIC_SC_SMS_READY then smic_recover m
      else do {
        m1 \<leftarrow> smic_write_next_byte io (write_smic_control io SMIC_CC_SMS_WR_START m);
        Some (None, (write_smic_flags io (flags OR SMIC_FLAG_BSY) m1)\<lparr>smic_state := SMIC_WRITE_START\<rparr>) })"

text \<open>SMIC\_WRITE\_START and SMIC\_WRITE\_NEXT run the same code but for the status they expect.\<close>

definition smic_ev_write ::
  "'d si_sm_io \<Rightarrow> u8 \<Rightarrow> u8 \<Rightarrow> u8 \<Rightarrow> 'd smic_data \<Rightarrow> 'd smic_branch" where
  "smic_ev_write io expected flags status m =
     (if status \<noteq> expected then smic_recover m
      else if flag flags SMIC_TX_DATA_READY then do {
        m1 \<leftarrow> smic_write_next_byte io
          (if smic_write_count m = 1
           then (write_smic_control io SMIC_CC_SMS_WR_END m)\<lparr>smic_state := SMIC_WRITE_END\<rparr>
           else (write_smic_control io SMIC_CC_SMS_WR_NEXT m)\<lparr>smic_state := SMIC_WRITE_NEXT\<rparr>);
        Some (None, write_smic_flags io (flags OR SMIC_FLAG_BSY) m1) }
      else Some (Some SI_SM_CALL_WITH_DELAY, m))"

definition smic_ev_write_end :: "'d si_sm_io \<Rightarrow> u8 \<Rightarrow> 'd smic_data \<Rightarrow> 'd smic_branch" where
  "smic_ev_write_end io status m =
     (if status \<noteq> SMIC_SC_SMS_WR_END then smic_recover m
      else (case read_smic_data io m of (data, m1) \<Rightarrow>
        if data \<noteq> 0 then smic_recover m1
        else Some (None, m1\<lparr>smic_state := SMIC_WRITE2READ\<rparr>)))"

definition smic_ev_write2read :: "'d si_sm_io \<Rightarrow> u8 \<Rightarrow> 'd smic_data \<Rightarrow> 'd smic_branch" where
  "smic_ev_write2read io flags m =
     (if flag flags SMIC_RX_DATA_READY
      then Some (None, (write_smic_flags io (flags OR SMIC_FLAG_BSY)
        (write_smic_control io SMIC_CC_SMS_RD_START m))\<lparr>smic_state := SMIC_READ_START\<rparr>)
      else Some (Some SI_SM_CALL_WITH_DELAY, m))"

definition smic_ev_read_start :: "'d si_sm_io \<Rightarrow> u8 \<Rightarrow> u8 \<Rightarrow> 'd smic_data \<Rightarrow> 'd smic_branch" where
  "smic_ev_read_start io flags status m =
     (if status \<noteq> SMIC_SC_SMS_RD_START then smic_recover m
      else if flag flags SMIC_RX_DATA_READY then do {
        m1 \<leftarrow> smic_read_next_byte io m;
        Some (None, (write_smic_flags io (flags OR SMIC_FLAG_BSY)
          (write_smic_control io SMIC_CC_SMS_RD_NEXT m1))\<lparr>smic_state := SMIC_READ_NEXT\<rparr>) }
      else Some (Some SI_SM_CALL_WITH_DELAY, m))"

definition smic_ev_read_next :: "'d si_sm_io \<Rightarrow> u8 \<Rightarrow> u8 \<Rightarrow> 'd smic_data \<Rightarrow> 'd smic_branch" where
  "smic_ev_read_next io flags status m =
     (if status = SMIC_SC_SMS_RD_END then do {
        m1 \<leftarrow> smic_read_next_byte io m;
        Some (None, (write_smic_flags io (flags OR SMIC_FLAG_BSY)
          (write_smic_control io SMIC_CC_SMS_RD_END m1))\<lparr>smic_state := SMIC_READ_END\<rparr>) }
      else if status = SMIC_SC_SMS_RD_NEXT then
        (if flag flags SMIC_RX_DATA_READY then do {
           m1 \<leftarrow> smic_read_next_byte io m;
           Some (None, (write_smic_flags io (flags OR SMIC_FLAG_BSY)
             (write_smic_control io SMIC_CC_SMS_RD_NEXT m1))\<lparr>smic_state := SMIC_READ_NEXT\<rparr>) }
         else Some (Some SI_SM_CALL_WITH_DELAY, m))
      else smic_recover m)"

definition smic_ev_read_end :: "'d si_sm_io \<Rightarrow> u8 \<Rightarrow> 'd smic_data \<Rightarrow> 'd smic_branch" where
  "smic_ev_read_end io status m =
     (if status \<noteq> SMIC_SC_SMS_READY then smic_recover m
      else (case read_smic_data io m of (data, m1) \<Rightarrow>
        if data \<noteq> 0 then smic_recover m1
        else Some (Some SI_SM_TRANSACTION_COMPLETE, m1\<lparr>smic_state := SMIC_IDLE\<rparr>)))"

definition smic_ev_switch :: "'d si_sm_io \<Rightarrow> u8 \<Rightarrow> u8 \<Rightarrow> 'd smic_data \<Rightarrow> 'd smic_branch" where
  "smic_ev_switch io flags status m =
     (case smic_state m of
        SMIC_IDLE \<Rightarrow> smic_ev_idle flags m
      | SMIC_START_OP \<Rightarrow> smic_ev_start_op io flags m
      | SMIC_OP_OK \<Rightarrow> smic_ev_op_ok io flags status m
      | SMIC_WRITE_START \<Rightarrow> smic_ev_write io SMIC_SC_SMS_WR_START flags status m
      | SMIC_WRITE_NEXT \<Rightarrow> smic_ev_write io SMIC_SC_SMS_WR_NEXT flags status m
      | SMIC_WRITE_END \<Rightarrow> smic_ev_write_end io status m
      | SMIC_WRITE2READ \<Rightarrow> smic_ev_write2read io flags m
      | SMIC_READ_START \<Rightarrow> smic_ev_read_start io flags status m
      | SMIC_READ_NEXT \<Rightarrow> smic_ev_read_next io flags status m
      | SMIC_READ_END \<Rightarrow> smic_ev_read_end io status m
      | SMIC_HOSED \<Rightarrow> Some (Some SI_SM_HOSED, init_smic_data m))"

text \<open>The part of \<open>smic_event\<close> after the timeout checks.\<close>

definition smic_event_poll :: "'d si_sm_io \<Rightarrow> 'd smic_data \<Rightarrow> (si_sm_result \<times> 'd smic_data) option" where
  "smic_event_poll io m =
     (case read_smic_flags io m of (flags, m1) \<Rightarrow>
      if flag flags SMIC_FLAG_BSY then Some (SI_SM_CALL_WITH_DELAY, m1)
      else (case read_smic_status io m1 of (status, m2) \<Rightarrow> do {
        (r, m3) \<leftarrow> smic_ev_switch io flags status m2;
        (case r of
           Some res \<Rightarrow> Some (res, m3)
         | None \<Rightarrow> Some (SI_SM_CALL_WITHOUT_DELAY, m3\<lparr>smic_timeout := SMIC_RETRY_TIMEOUT\<rparr>)) }))"

definition smic_event ::
  "'d si_sm_io \<Rightarrow> 'd smic_data \<Rightarrow> int \<Rightarrow> u64 \<Rightarrow> (si_sm_result \<times> 'd smic_data) option" where
  "smic_event io m time jiffies =
     (if smic_state m = SMIC_HOSED then Some (SI_SM_HOSED, init_smic_data m)
      else if smic_state m \<noteq> SMIC_IDLE \<and> time < SMIC_RETRY_TIMEOUT then
        (let m1 = m\<lparr>smic_timeout := smic_timeout m - time\<rparr> in
         if smic_timeout m1 < 0
         then Some (SI_SM_CALL_WITH_DELAY, smic_start_error_recovery m1)
         else smic_event_poll io m1)
      else smic_event_poll io m)"

definition smic_detect :: "'d si_sm_io \<Rightarrow> 'd smic_data \<Rightarrow> int \<times> 'd smic_data" where
  "smic_detect io m = (case read_smic_flags io m of (b, m1) \<Rightarrow> (if b = 0xff then 1 else 0, m1))"

definition smic_smi_handlers :: "'d si_sm_io \<Rightarrow> 'd smic_data si_sm_handlers" where
  "smic_smi_handlers io = \<lparr>init_data = init_smic_data, start_transaction = start_smic_transaction,
     get_result = smic_get_result, event = smic_event io, detect = smic_detect io\<rparr>"

section \<open>The invariant\<close>

text \<open>
  As for KCS, with two more parts for the bound on recovery: outside the idle and hosed states a
  request is loaded, at most three recoveries have been tried, and the timeout has not expired.
\<close>

definition smic_raw :: "'d smic_data \<Rightarrow> bool" where
  "smic_raw m \<longleftrightarrow> length (smic_write_data m) = MAX_SMIC_WRITE_SIZE \<and>
     length (smic_read_data m) = MAX_SMIC_READ_SIZE"

definition smic_writing :: "'d smic_data \<Rightarrow> bool" where
  "smic_writing m \<longleftrightarrow>
     (smic_state m \<in> {SMIC_START_OP, SMIC_OP_OK} \<longrightarrow>
        smic_write_pos m = 0 \<and> smic_write_count m = smic_orig_write_count m) \<and>
     (smic_state m \<in> {SMIC_WRITE_START, SMIC_WRITE_NEXT} \<longrightarrow>
        0 \<le> smic_write_pos m \<and> 1 \<le> smic_write_count m \<and>
        smic_write_pos m + smic_write_count m = smic_orig_write_count m)"

definition smic_busy :: "'d smic_data \<Rightarrow> bool" where
  "smic_busy m \<longleftrightarrow> smic_state m \<notin> {SMIC_IDLE, SMIC_HOSED}"

definition smic_inv :: "'d smic_data \<Rightarrow> bool" where
  "smic_inv m \<longleftrightarrow> smic_raw m \<and>
     0 \<le> smic_read_pos m \<and> smic_read_pos m \<le> int MAX_SMIC_READ_SIZE \<and>
     (smic_busy m \<longrightarrow> 2 \<le> smic_orig_write_count m \<and>
        smic_orig_write_count m \<le> int MAX_SMIC_WRITE_SIZE \<and> smic_error_retries m \<le> 3) \<and>
     smic_writing m"

lemmas smic_size_defs = MAX_SMIC_READ_SIZE_def MAX_SMIC_WRITE_SIZE_def
lemmas smic_inv_defs = smic_inv_def smic_raw_def smic_writing_def smic_busy_def

lemma read_smic_flags_eq:
  "read_smic_flags io m = (fst (inputb io (smic_dev m) 2), m\<lparr>smic_dev := snd (inputb io (smic_dev m) 2)\<rparr>)"
  by (simp add: read_smic_flags_def split_beta)

lemma read_smic_status_eq:
  "read_smic_status io m = (fst (inputb io (smic_dev m) 1), m\<lparr>smic_dev := snd (inputb io (smic_dev m) 1)\<rparr>)"
  by (simp add: read_smic_status_def split_beta)

lemma read_smic_data_eq:
  "read_smic_data io m = (fst (inputb io (smic_dev m) 0), m\<lparr>smic_dev := snd (inputb io (smic_dev m) 0)\<rparr>)"
  by (simp add: read_smic_data_def split_beta)

lemmas smic_io_eqs = read_smic_flags_eq read_smic_status_eq read_smic_data_eq write_smic_flags_def
  write_smic_control_def write_si_sm_data_def

lemma smic_inv_dev [simp]:
  "smic_inv (m\<lparr>smic_dev := d\<rparr>) = smic_inv m"
  "smic_inv (m\<lparr>smic_timeout := t\<rparr>) = smic_inv m"
  "smic_inv (m\<lparr>smic_dev := d, smic_timeout := t\<rparr>) = smic_inv m"
  by (simp_all add: smic_inv_defs)

lemma init_smic_data_inv: "smic_raw m \<Longrightarrow> smic_inv (init_smic_data m)"
  by (simp add: smic_inv_defs init_smic_data_def)

lemma smic_inv_raw: "smic_inv m \<Longrightarrow> smic_raw m"
  by (simp add: smic_inv_def)

lemma smic_start_error_recovery_inv: "smic_inv m \<Longrightarrow> smic_busy m \<Longrightarrow> smic_inv (smic_start_error_recovery m)"
  by (auto simp: smic_start_error_recovery_def Let_def smic_inv_defs linorder_not_less smic_size_defs)

lemma smic_read_next_byte_inv:
  "smic_inv m \<Longrightarrow> smic_state m \<in> {SMIC_READ_START, SMIC_READ_NEXT} \<Longrightarrow>
   \<exists>m'. smic_read_next_byte io m = Some m' \<and> smic_inv m' \<and> smic_state m' = smic_state m"
  by (auto simp: smic_read_next_byte_def smic_io_eqs smic_inv_defs buf_set_def)

lemma smic_inv_neutral_state:
  "smic_inv m \<Longrightarrow> smic_busy m \<Longrightarrow>
   st \<in> {SMIC_IDLE, SMIC_WRITE_END, SMIC_WRITE2READ, SMIC_READ_START, SMIC_READ_NEXT, SMIC_READ_END} \<Longrightarrow>
   smic_inv (m\<lparr>smic_state := st\<rparr>)"
  by (auto simp: smic_inv_defs)

text \<open>The byte written fits into the request; the state after it is the one the caller sets.\<close>

lemma smic_write_next_byte_inv:
  assumes "smic_inv m" "smic_state m \<in> {SMIC_OP_OK, SMIC_WRITE_START, SMIC_WRITE_NEXT}"
  shows "\<exists>b. smic_write_next_byte io (m\<lparr>smic_dev := d, smic_state := st\<rparr>) =
    Some (m\<lparr>smic_dev := outputb io d 0 b, smic_state := st, smic_write_pos := smic_write_pos m + 1,
      smic_write_count := smic_write_count m - 1\<rparr>) \<and> b = smic_write_data m ! nat (smic_write_pos m)"
  using assms by (auto simp: smic_write_next_byte_def smic_io_eqs smic_inv_defs buf_simps)

definition smic_branch_ok :: "'d smic_branch \<Rightarrow> bool" where
  "smic_branch_ok b \<longleftrightarrow> (\<exists>r m. b = Some (r, m) \<and> smic_inv m)"

lemma smic_branch_ok_Some [simp]: "smic_branch_ok (Some (r, m)) = smic_inv m"
  by (simp add: smic_branch_ok_def)

lemma smic_recover_ok: "smic_inv m \<Longrightarrow> smic_busy m \<Longrightarrow> smic_branch_ok (smic_recover m)"
  by (simp add: smic_recover_def smic_start_error_recovery_inv)

lemma smic_ev_op_ok_ok:
  assumes "smic_inv m" "smic_state m = SMIC_OP_OK"
  shows "smic_branch_ok (smic_ev_op_ok io flags status m)"
proof -
  let ?d = "outputb io (smic_dev m) 1 SMIC_CC_SMS_WR_START"
  have same: "m\<lparr>smic_dev := ?d\<rparr> = m\<lparr>smic_dev := ?d, smic_state := SMIC_OP_OK\<rparr>" using assms(2) by simp
  obtain b where b: "smic_write_next_byte io (m\<lparr>smic_dev := ?d, smic_state := SMIC_OP_OK\<rparr>) =
      Some (m\<lparr>smic_dev := outputb io ?d 0 b, smic_state := SMIC_OP_OK,
        smic_write_pos := smic_write_pos m + 1, smic_write_count := smic_write_count m - 1\<rparr>)"
    using smic_write_next_byte_inv [OF assms(1), where d = ?d and st = SMIC_OP_OK] assms(2) by blast
  have "smic_inv (m\<lparr>smic_write_pos := smic_write_pos m + 1,
      smic_write_count := smic_write_count m - 1, smic_dev := d, smic_state := SMIC_WRITE_START\<rparr>)" for d
    using assms by (auto simp: smic_inv_defs)
  moreover have "smic_branch_ok (smic_recover m)"
    using assms by (simp add: smic_recover_ok smic_busy_def)
  ultimately show ?thesis
    using b [folded same] by (simp add: smic_ev_op_ok_def write_smic_control_def write_smic_flags_def)
qed

lemma smic_ev_write_ok:
  assumes "smic_inv m" "smic_state m \<in> {SMIC_WRITE_START, SMIC_WRITE_NEXT}"
  shows "smic_branch_ok (smic_ev_write io expected flags status m)"
proof -
  have next_ok: "\<exists>m'. smic_write_next_byte io (m\<lparr>smic_dev := d, smic_state := st\<rparr>) = Some m' \<and> smic_inv m'"
    if "st = (if smic_write_count m = 1 then SMIC_WRITE_END else SMIC_WRITE_NEXT)" for d st
  proof -
    have "smic_inv (m\<lparr>smic_dev := e, smic_state := st, smic_write_pos := smic_write_pos m + 1,
      smic_write_count := smic_write_count m - 1\<rparr>)" for e
      using assms that by (auto simp: smic_inv_defs)
    then show ?thesis
      using smic_write_next_byte_inv [OF assms(1), where d = d and st = st and io = io] assms(2) by fastforce
  qed
  let ?m = "if smic_write_count m = 1
    then (write_smic_control io SMIC_CC_SMS_WR_END m)\<lparr>smic_state := SMIC_WRITE_END\<rparr>
    else (write_smic_control io SMIC_CC_SMS_WR_NEXT m)\<lparr>smic_state := SMIC_WRITE_NEXT\<rparr>"
  obtain m' where "smic_write_next_byte io ?m = Some m'" "smic_inv m'"
    using next_ok by (cases "smic_write_count m = 1") (auto simp: write_smic_control_def)
  moreover have "smic_branch_ok (smic_recover m)"
    using assms by (auto simp: smic_recover_ok smic_busy_def)
  ultimately show ?thesis
    using assms(1) by (simp only: smic_ev_write_def) (simp add: write_smic_flags_def)
qed

lemma smic_ev_end_ok:
  assumes "smic_inv m" "smic_busy m"
  shows "smic_branch_ok (smic_ev_write_end io status m)" "smic_branch_ok (smic_ev_read_end io status m)"
proof -
  have "smic_inv (m\<lparr>smic_dev := d, smic_state := st\<rparr>)" if "st = SMIC_IDLE \<or> st = SMIC_WRITE2READ" for d st
    using smic_inv_neutral_state [of "m\<lparr>smic_dev := d\<rparr>" st] assms that by (auto simp: smic_busy_def)
  moreover have "smic_branch_ok (smic_recover m)" "smic_branch_ok (smic_recover (m\<lparr>smic_dev := d\<rparr>))" for d
    using assms by (simp_all add: smic_recover_ok smic_busy_def)
  ultimately show "smic_branch_ok (smic_ev_write_end io status m)" "smic_branch_ok (smic_ev_read_end io status m)"
    by (simp_all add: smic_ev_write_end_def smic_ev_read_end_def read_smic_data_eq)
qed

lemma smic_ev_read_ok:
  assumes "smic_inv m" "smic_state m \<in> {SMIC_READ_START, SMIC_READ_NEXT}"
  shows "smic_branch_ok (smic_ev_read_start io flags status m)"
    "smic_branch_ok (smic_ev_read_next io flags status m)"
proof -
  obtain m' where m': "smic_read_next_byte io m = Some m'" "smic_inv m'" "smic_state m' = smic_state m"
    using smic_read_next_byte_inv [OF assms] by blast
  have "smic_inv (m'\<lparr>smic_dev := d, smic_state := st\<rparr>)" if "st \<in> {SMIC_READ_NEXT, SMIC_READ_END}" for d st
    using smic_inv_neutral_state [of "m'\<lparr>smic_dev := d\<rparr>" st] m'(2,3) assms(2) that
    by (auto simp: smic_busy_def)
  moreover have "smic_branch_ok (smic_recover m)"
    using assms by (auto simp: smic_recover_ok smic_busy_def)
  ultimately show "smic_branch_ok (smic_ev_read_start io flags status m)"
    "smic_branch_ok (smic_ev_read_next io flags status m)"
    using m'(1) assms(1) by (simp_all add: smic_ev_read_start_def smic_ev_read_next_def
        write_smic_control_def write_smic_flags_def)
qed

lemma smic_ev_switch_ok:
  assumes "smic_inv m" shows "smic_branch_ok (smic_ev_switch io flags status m)"
proof (cases "smic_state m")
  case SMIC_START_OP
  with assms have "smic_inv (m\<lparr>smic_dev := d, smic_state := SMIC_OP_OK\<rparr>)" for d
    by (auto simp: smic_inv_defs)
  with assms SMIC_START_OP show ?thesis
    by (simp add: smic_ev_switch_def smic_ev_start_op_def smic_io_eqs)
next
  case SMIC_WRITE2READ
  with assms have "smic_inv (m\<lparr>smic_dev := d, smic_state := SMIC_READ_START\<rparr>)" for d
    using smic_inv_neutral_state [of "m\<lparr>smic_dev := d\<rparr>" SMIC_READ_START] by (simp add: smic_busy_def)
  with assms SMIC_WRITE2READ show ?thesis
    by (simp add: smic_ev_switch_def smic_ev_write2read_def smic_io_eqs)
next
  case SMIC_HOSED
  with assms show ?thesis
    by (simp add: smic_ev_switch_def init_smic_data_inv smic_inv_raw)
qed (use assms in \<open>simp_all add: smic_ev_switch_def smic_ev_idle_def smic_ev_op_ok_ok smic_ev_write_ok
  smic_ev_end_ok smic_busy_def smic_ev_read_ok\<close>)

lemma smic_event_poll_inv:
  assumes "smic_inv m" shows "\<exists>r m'. smic_event_poll io m = Some (r, m') \<and> smic_inv m'"
proof -
  obtain flags m1 where m1: "read_smic_flags io m = (flags, m1)" "smic_inv m1"
    using assms by (simp add: read_smic_flags_eq)
  obtain status m2 where m2: "read_smic_status io m1 = (status, m2)" "smic_inv m2"
    using m1(2) by (simp add: read_smic_status_eq)
  obtain r m3 where "smic_ev_switch io flags status m2 = Some (r, m3)" "smic_inv m3"
    using smic_ev_switch_ok [OF m2(2), of io flags status] by (auto simp: smic_branch_ok_def)
  with m1 m2 show ?thesis
    by (cases r) (simp_all add: smic_event_poll_def)
qed

lemma smic_event_inv:
  assumes "smic_inv m" shows "\<exists>r m'. smic_event io m t j = Some (r, m') \<and> smic_inv m'"
proof -
  have "smic_inv (init_smic_data m)" using assms by (simp add: init_smic_data_inv smic_inv_raw)
  moreover have "smic_busy m \<Longrightarrow> smic_inv (smic_start_error_recovery (m\<lparr>smic_timeout := x\<rparr>))" for x
    using assms by (intro smic_start_error_recovery_inv) (simp_all add: smic_busy_def)
  ultimately show ?thesis
    using smic_event_poll_inv [of m io] smic_event_poll_inv [of "m\<lparr>smic_timeout := smic_timeout m - t\<rparr>" io] assms
    by (simp add: smic_event_def Let_def smic_busy_def)
qed

lemma start_smic_transaction_cases:
  assumes "start_smic_transaction m data = Some (c, m')"
  obtains "m' = m" "c \<noteq> 0"
  | wd where "blit (smic_write_data m) 0 data = Some wd" "c = 0"
      "2 \<le> length data" "length data \<le> MAX_SMIC_WRITE_SIZE"
      "smic_state m = SMIC_IDLE \<or> smic_state m = SMIC_HOSED"
      "m' = m\<lparr>smic_error_retries := 0, smic_write_data := wd, smic_write_count := int (length data),
          smic_orig_write_count := int (length data), smic_write_pos := 0, smic_read_pos := 0,
          smic_state := SMIC_START_OP, smic_timeout := SMIC_RETRY_TIMEOUT\<rparr>"
  using assms by (auto simp: start_smic_transaction_def Let_def bind_eq_Some_conv split: if_splits)

lemma start_smic_transaction_inv:
  assumes "smic_inv m" "start_smic_transaction m data = Some (c, m')"
  shows "smic_inv m'"
  using assms(2)
proof (cases rule: start_smic_transaction_cases)
  case (2 wd)
  then show ?thesis using assms(1) blit_length [OF 2(1)] by (simp add: smic_inv_defs)
qed (use assms in simp)

lemma start_smic_transaction_defined: "smic_inv m \<Longrightarrow> start_smic_transaction m data \<noteq> None"
  by (simp add: start_smic_transaction_def Let_def blit_def smic_inv_def smic_raw_def)

lemma smic_get_result_defined:
  "smic_inv m \<Longrightarrow> 3 \<le> length data \<Longrightarrow> smic_get_result m data \<noteq> None"
  by (simp add: smic_get_result_def si_copy_result_eq smic_inv_def smic_raw_def)

lemma smic_get_result_inv:
  assumes "smic_inv m" "smic_get_result m data = Some (n, data', m')"
  shows "smic_inv m'"
proof -
  have n: "si_copy_result (smic_read_data m) (smic_read_pos m) (smic_truncated m) data = Some (n, data')"
    and m': "m' = m\<lparr>smic_read_pos := n, smic_truncated := False\<rparr>"
    using assms(2) by (auto simp: smic_get_result_def bind_eq_Some_conv)
  have "0 \<le> smic_read_pos m" "smic_read_pos m \<le> int MAX_SMIC_READ_SIZE"
    using assms(1) by (simp_all add: smic_inv_def)
  with si_copy_result_pos [OF n] have "0 \<le> n \<and> n \<le> int MAX_SMIC_READ_SIZE"
    unfolding smic_size_defs by linarith
  with assms(1) show ?thesis unfolding m' by (simp add: smic_inv_defs)
qed

interpretation smic: si_sm_contract "smic_smi_handlers io" smic_raw smic_inv "\<lambda>_. True"
  MAX_SMIC_WRITE_SIZE for io
proof (unfold_locales, goal_cases)
  case 1 then show ?case by (simp add: smic_smi_handlers_def init_smic_data_inv)
next
  case 2 then show ?case by (simp add: smic_smi_handlers_def start_smic_transaction_defined)
next
  case 3 then show ?case by (auto simp: smic_smi_handlers_def intro: start_smic_transaction_inv)
next
  case (4 s t j) then show ?case using smic_event_inv [of s io t j] by (auto simp: smic_smi_handlers_def)
next
  case (5 s t j r s') then show ?case
    using smic_event_inv [of s io t j] by (auto simp: smic_smi_handlers_def)
next
  case 6 then show ?case using smic_get_result_defined by (auto simp: smic_smi_handlers_def)
next
  case 7 then show ?case by (auto simp: smic_smi_handlers_def intro: smic_get_result_inv)
qed

section \<open>A BMC that never becomes ready\<close>

text \<open>The state after \<open>n\<close> events, the i-th of which comes \<open>ts i\<close> microseconds after the last.\<close>

fun smic_after :: "'d si_sm_io \<Rightarrow> (nat \<Rightarrow> int) \<Rightarrow> nat \<Rightarrow> 'd smic_data \<Rightarrow> 'd smic_data option" where
  "smic_after io ts 0 m = Some m"
| "smic_after io ts (Suc n) m = do { m1 \<leftarrow> smic_after io ts n m; map_option snd (smic_event io m1 (ts n) 0) }"

definition smic_patience :: "'d smic_data \<Rightarrow> nat" where
  "smic_patience m = (if smic_state m = SMIC_HOSED then 0
     else Suc ((3 - unat (smic_error_retries m)) * 2000001 + nat (smic_timeout m)))"

lemma smic_patience_pos: "smic_busy m \<Longrightarrow> 0 < smic_patience m"
  by (simp add: smic_patience_def smic_busy_def)

lemma smic_stuck_event:
  assumes "smic_inv m" "smic_busy m" "0 \<le> smic_timeout m"
    and "\<And>d. flag (fst (inputb io d 2)) SMIC_FLAG_BSY" and "0 < t" "t < SMIC_RETRY_TIMEOUT"
  shows "\<exists>m'. smic_event io m t j = Some (SI_SM_CALL_WITH_DELAY, m') \<and> smic_inv m' \<and>
    (smic_state m' = SMIC_HOSED \<or> smic_busy m' \<and> 0 \<le> smic_timeout m') \<and>
    smic_patience m' < smic_patience m"
proof (cases "smic_timeout m < t")
  case False
  then show ?thesis
    using assms by (auto simp: smic_event_def Let_def smic_busy_def smic_event_poll_def
        read_smic_flags_eq smic_patience_def)
next
  case True
  let ?m = "smic_start_error_recovery (m\<lparr>smic_timeout := smic_timeout m - t\<rparr>)"
  have r: "smic_error_retries m \<le> 3" using assms(1,2) by (simp add: smic_inv_def)
  then have "unat (smic_error_retries m) \<le> 3" by (simp add: word_le_nat_alt)
  moreover have "\<not> 3 < smic_error_retries m + 1 \<Longrightarrow> unat (smic_error_retries m + 1) = Suc (unat (smic_error_retries m))
      \<and> unat (smic_error_retries m) < 3"
    using r by (simp add: word_le_nat_alt word_less_nat_alt unat_word_ariths)
  ultimately have "smic_patience ?m < smic_patience m" "smic_state ?m = SMIC_HOSED \<or> smic_busy ?m \<and> 0 \<le> smic_timeout ?m"
    using assms(2) by (auto simp: smic_patience_def smic_busy_def smic_start_error_recovery_def Let_def)
  moreover have "smic_inv ?m"
    using assms(1,2) by (intro smic_start_error_recovery_inv) (simp_all add: smic_busy_def)
  ultimately show ?thesis
    using assms True by (auto simp: smic_event_def Let_def smic_busy_def)
qed

lemma smic_stuck_progress:
  assumes "smic_inv m" "smic_busy m" "0 \<le> smic_timeout m"
    and "\<And>d. flag (fst (inputb io d 2)) SMIC_FLAG_BSY"
    and "\<And>i. 0 < ts i \<and> ts i < SMIC_RETRY_TIMEOUT"
  shows "(\<exists>k m'. k \<le> n \<and> smic_after io ts k m = Some m' \<and> smic_state m' = SMIC_HOSED) \<or>
    (\<exists>m'. smic_after io ts n m = Some m' \<and> smic_inv m' \<and> smic_busy m' \<and> 0 \<le> smic_timeout m' \<and>
      smic_patience m' + n \<le> smic_patience m)"
proof (induction n)
  case 0
  then show ?case using assms by simp
next
  case (Suc n)
  then consider k m' where "k \<le> n" "smic_after io ts k m = Some m'" "smic_state m' = SMIC_HOSED"
    | m' where "smic_after io ts n m = Some m'" "smic_inv m'" "smic_busy m'" "0 \<le> smic_timeout m'"
      "smic_patience m' + n \<le> smic_patience m" by blast
  then show ?case
  proof cases
    case 1
    then show ?thesis using le_SucI by blast
  next
    case (2 m')
    then obtain m2 where "smic_event io m' (ts n) 0 = Some (SI_SM_CALL_WITH_DELAY, m2)" "smic_inv m2"
      "smic_state m2 = SMIC_HOSED \<or> smic_busy m2 \<and> 0 \<le> smic_timeout m2"
      "smic_patience m2 < smic_patience m'"
      using smic_stuck_event [of m' io "ts n" 0] assms(4,5) by blast
    with 2 show ?thesis by (cases "smic_state m2 = SMIC_HOSED") (fastforce)+
  qed
qed

section \<open>Properties\<close>

definition smic_idle_example :: "u8 list \<Rightarrow> io_log smic_data" where
  "smic_idle_example l = init_smic_data \<lparr>smic_state = SMIC_HOSED, smic_dev = [],
     smic_write_data = replicate 80 0, smic_write_pos = 7, smic_write_count = 7,
     smic_orig_write_count = 7, smic_read_data = l @ replicate (80 - length l) 0, smic_read_pos = 7,
     smic_truncated = True, smic_error_retries = 7, smic_timeout = 0\<rparr>"

lemma smic_idle_example_inv: "smic_inv (smic_idle_example [])"
  unfolding smic_idle_example_def by (rule init_smic_data_inv) (simp add: smic_raw_def smic_size_defs)

text \<open>Memory safety of the SMIC machine under any use. From freshly allocated memory, every
  sequence of handler calls (transactions started with requests of any accepted length, events at
  any time with any device, results fetched into buffers of at least three bytes) stays inside
  the machine's 80-byte buffers and keeps its invariant.\<close>

theorem smic_any_calls_safe:
  assumes "smic_raw m" "list_all (si_call_ok MAX_SMIC_WRITE_SIZE) cs"
  shows "\<exists>m'. si_run (smic_smi_handlers io) cs (init_smic_data m) = Some m' \<and> smic_inv m'"
  using smic.si_run_from_init [OF assms(1) TrueI assms(2), of io] by (simp add: smic_smi_handlers_def)

theorem smic_any_calls_safe_witness:
  "\<exists>m'. si_run (smic_smi_handlers (logging_io (\<lambda>_ _. 0xC0)))
     [Start [0x18, 1], Event 0 0, Start [1], Event 5 1, Event 5 2, Get_result [0, 0, 0]]
     (init_smic_data (smic_idle_example [])) = Some m' \<and> smic_inv m'"
  by (rule smic_any_calls_safe [OF smic_inv_raw [OF smic_idle_example_inv]])
    (simp add: smic_size_defs)

text \<open>A BMC that never leaves its busy state does not hang the SMIC machine. With a
  transaction under way and events at any intervals below the retry timeout, the machine goes
  through its three recoveries and reports SI\_SM\_HOSED, after at most as many events as
  microseconds of patience are left, and is idle again.\<close>

theorem smic_stuck_bmc_gives_up:
  assumes "smic_inv m" "smic_busy m" "0 \<le> smic_timeout m"
    and "\<And>d. flag (fst (inputb io d 2)) SMIC_FLAG_BSY"
    and "\<And>i. 0 < ts i \<and> ts i < SMIC_RETRY_TIMEOUT"
  shows "\<exists>n m1 m2. n \<le> smic_patience m \<and> smic_after io ts n m = Some m1 \<and>
    smic_event io m1 (ts n) j = Some (SI_SM_HOSED, m2) \<and> smic_state m2 = SMIC_IDLE"
proof -
  have "\<exists>k m'. k \<le> smic_patience m \<and> smic_after io ts k m = Some m' \<and> smic_state m' = SMIC_HOSED"
    using smic_stuck_progress [where ts = ts and n = "smic_patience m", OF assms] smic_patience_pos by fastforce
  then show ?thesis by (fastforce simp: smic_event_def init_smic_data_def)
qed

theorem smic_stuck_bmc_gives_up_witness:
  "\<exists>n m1 m2. n \<le> smic_patience ((smic_idle_example [])\<lparr>smic_state := SMIC_START_OP,
       smic_write_count := 2, smic_orig_write_count := 2\<rparr>) \<and>
    smic_after (logging_io (\<lambda>_ _. 1)) (\<lambda>_. 1000) n ((smic_idle_example [])\<lparr>smic_state := SMIC_START_OP,
       smic_write_count := 2, smic_orig_write_count := 2\<rparr>) = Some m1 \<and>
    smic_event (logging_io (\<lambda>_ _. 1)) m1 1000 0 = Some (SI_SM_HOSED, m2) \<and> smic_state m2 = SMIC_IDLE"
  by (rule smic_stuck_bmc_gives_up [where ts = "\<lambda>_. 1000"])
    (simp_all add: smic_idle_example_def init_smic_data_def smic_inv_defs smic_size_defs flag_def)

text \<open>What \<open>get_result\<close> of the SMIC machine returns. With a response of \<open>p\<close> bytes and a
  buffer of at least three, the caller gets the first bytes of the response that fit, the length
  returned is theirs and at least three, and the completion code, the third byte, is replaced by
  the truncation error when anything was lost and by an unspecified error when the response is
  shorter than three bytes. The rest of the caller's buffer is untouched.\<close>

theorem smic_get_result_bytes:
  assumes "smic_inv m" "3 \<le> length data"
  defines "n \<equiv> min (length data) (nat (smic_read_pos m))"
  shows "\<exists>data' m'. smic_get_result m data = Some (int (max 3 n), data', m') \<and>
    length data' = length data \<and> smic_read_pos m' = int (max 3 n) \<and> \<not> smic_truncated m' \<and>
    (\<forall>i < length data. data' ! i =
       (if i = 2 \<and> (smic_truncated m \<or> int (length data) < smic_read_pos m) then 0xc6
        else if i = 2 \<and> smic_read_pos m < 3 then 0xff
        else if i < n then smic_read_data m ! i else data ! i))"
proof -
  have "0 \<le> smic_read_pos m" "smic_read_pos m \<le> int (length (smic_read_data m))"
    using assms(1) by (simp_all add: smic_inv_def smic_raw_def)
  then show ?thesis using assms(2)
    by (auto simp: smic_get_result_def si_copy_result_eq n_def nth_append nth_list_update)
qed

theorem smic_get_result_bytes_witness:
  "\<exists>data' m'. smic_get_result ((smic_idle_example [])\<lparr>smic_read_pos := 2\<rparr>) [5, 5, 5, 5] =
     Some (3, data', m') \<and> length data' = 4 \<and> data' ! 2 = 0xff \<and> data' ! 3 = 5"
proof -
  have "smic_inv ((smic_idle_example [])\<lparr>smic_read_pos := 2\<rparr>)"
    using smic_idle_example_inv by (simp add: smic_inv_defs smic_size_defs)
  from smic_get_result_bytes [OF this, of "[5, 5, 5, 5]"] show ?thesis
    by (fastforce simp: smic_idle_example_def init_smic_data_def)
qed

end
