(* ===== verification/Ipmi_Smi_Safe.thy ===== *)
theory Ipmi_Smi_Safe
  imports Ipmi_Smi Ipmi_Kcs Ipmi_Smic
begin

text \<open>
  What the driver of \<open>Ipmi_Smi\<close> relies on, as the locale \<open>si_sm_driver\<close>, which the KCS and the SMIC machine interpret: a
  machine is ready for a transaction or busy with one, and reports the end of each. What follows, for any number of
  senders and one thread at a time in \<open>smi_event_handler\<close>, with or without memory, with or without an interrupt line: the code is
  defined everywhere but at \<open>sender\<close> on an interface that is being removed, every message that is handed to \<open>sender\<close> is in one place
  at any time, and no request is missing from the count of pending requests.
\<close>

section \<open>What is counted\<close>

definition queued :: "'s smi_info \<Rightarrow> ipmi_smi_msg list" where
  "queued s = hp_xmit_msgs s @ xmit_msgs s @ (case curr_msg s of None \<Rightarrow> [] | Some m \<Rightarrow> [m])"

lemma queued_upd [simp]:
  "queued (s\<lparr>si_sm := sm\<rparr>) = queued s" "queued (s\<lparr>si_state := st\<rparr>) = queued s" "queued (s\<lparr>msg_flags := f\<rparr>) = queued s"
  "queued (s\<lparr>pendingRequests := n\<rparr>) = queued s" "queued (s\<lparr>complete_transactions := c\<rparr>) = queued s"
  "queued (s\<lparr>hosed_count := c\<rparr>) = queued s" "queued (s\<lparr>attentions := c\<rparr>) = queued s" "queued (s\<lparr>idles := c\<rparr>) = queued s"
  "queued (s\<lparr>req_events := b\<rparr>) = queued s" "queued (s\<lparr>run_to_completion := b\<rparr>) = queued s"
  by (simp_all add: queued_def)

fun callback_msgs :: "callback \<Rightarrow> ipmi_smi_msg list" where
  "callback_msgs (Deliver m) = [m]"
| "callback_msgs Watchdog_pretimeout = []"

fun pc_msgs :: "smi_pc \<Rightarrow> ipmi_smi_msg list" where
  "pc_msgs (Send m p) = [m]"
| "pc_msgs (Callback cb cbs k) = concat (map callback_msgs (cb # cbs))"
| "pc_msgs (Relock cbs k) = concat (map callback_msgs cbs)"
| "pc_msgs _ = []"

definition ptrs :: "ipmi_smi_msg list \<Rightarrow> msg_ptr multiset" where
  "ptrs ms = mset (map msg_ptr ms)"

definition tags :: "ipmi_smi_msg list \<Rightarrow> int" where
  "tags ms = int (length (filter msg_tagged ms))"

definition alloced :: "smi_eff list \<Rightarrow> msg_ptr multiset" where
  "alloced effs = sum_list (map eff_alloced effs)"

definition freed :: "smi_eff list \<Rightarrow> msg_ptr multiset" where
  "freed effs = sum_list (map eff_done effs)"

definition delivered :: "smi_eff list \<Rightarrow> ipmi_smi_msg list" where
  "delivered effs = concat (map eff_delivered effs)"

lemma ptrs_simps [simp]:
  "ptrs [] = {#}" "ptrs (m # ms) = add_mset (msg_ptr m) (ptrs ms)" "ptrs (ms @ ns) = ptrs ms + ptrs ns"
  by (simp_all add: ptrs_def)

lemma tags_simps [simp]:
  "tags [] = 0" "tags (m # ms) = (if msg_tagged m then 1 else 0) + tags ms" "tags (ms @ ns) = tags ms + tags ns"
  by (simp_all add: tags_def)

lemma eff_simps [simp]:
  "alloced [] = {#}" "alloced (e # es) = eff_alloced e + alloced es"
  "freed [] = {#}" "freed (e # es) = eff_done e + freed es"
  "delivered [] = []" "delivered (e # es) = eff_delivered e @ delivered es"
  by (simp_all add: alloced_def freed_def delivered_def)

definition thread_msgs :: "smi_pc list \<Rightarrow> ipmi_smi_msg list" where
  "thread_msgs pcs = concat (map pc_msgs pcs)"

lemma thread_msgs_update:
  "t < length pcs \<Longrightarrow> ptrs (thread_msgs (pcs[t := pc])) + ptrs (pc_msgs (pcs ! t)) = ptrs (thread_msgs pcs) + ptrs (pc_msgs pc)"
proof (induction pcs arbitrary: t)
  case (Cons p pcs)
  then show ?case by (cases t) (auto simp: thread_msgs_def ac_simps)
qed simp

definition engaged :: "'s smi_info \<Rightarrow> bool" where
  "engaged s \<longleftrightarrow> curr_msg s \<noteq> None \<or> si_state s \<noteq> SI_NORMAL"

text \<open>Whose message is current: the driver's while it fetches messages or events, the upper layer's in the normal state.\<close>

definition curr_ok :: "'s smi_info \<Rightarrow> bool" where
  "curr_ok s \<longleftrightarrow>
     (case curr_msg s of
        None \<Rightarrow> si_state s \<noteq> SI_GETTING_EVENTS \<and> si_state s \<noteq> SI_GETTING_MESSAGES
      | Some m \<Rightarrow> if is_upper (msg_ptr m) then si_state s = SI_NORMAL
                  else si_state s = SI_GETTING_EVENTS \<or> si_state s = SI_GETTING_MESSAGES)"

definition queues_ok :: "'s smi_info \<Rightarrow> bool" where
  "queues_ok s \<longleftrightarrow> (\<forall>m \<in> set (hp_xmit_msgs s @ xmit_msgs s). msg_ok m \<and> is_upper (msg_ptr m)) \<and>
     (\<forall>m. curr_msg s = Some m \<longrightarrow> msg_ok m)"

section \<open>What the driver relies on\<close>

locale si_sm_driver = si_sm_contract h raw inv dev_ok max_req
  for h :: "'s si_sm_handlers" and raw inv dev_ok :: "'s \<Rightarrow> bool" and max_req :: nat +
  fixes ready fresh :: "'s \<Rightarrow> bool"
  assumes any_device: "dev_ok s"
    and own_size: "3 \<le> max_req"
    and start_total: "inv s \<Longrightarrow> length data \<le> IPMI_MAX_MSG_LENGTH \<Longrightarrow> start_transaction h s data \<noteq> None"
    and start_ready: "inv s \<Longrightarrow> ready s \<Longrightarrow> 2 \<le> length data \<Longrightarrow> length data \<le> max_req \<Longrightarrow>
          start_transaction h s data = Some (c, s') \<Longrightarrow> c = 0"
    and start_fresh: "inv s \<Longrightarrow> start_transaction h s data = Some (0, s') \<Longrightarrow> fresh s'"
    and start_refused: "inv s \<Longrightarrow> start_transaction h s data = Some (c, s') \<Longrightarrow> c \<noteq> 0 \<Longrightarrow> s' = s"
    and fresh_busy: "fresh s \<Longrightarrow> \<not> ready s"
    and init_ready: "ready (init_data h s)"
    and detect_keeps: "inv s \<Longrightarrow> inv (snd (detect h s)) \<and> ready (snd (detect h s)) = ready s"
    and event_idle: "inv s \<Longrightarrow> event h s t j = Some (r, s') \<Longrightarrow> r = SI_SM_IDLE \<or> r = SI_SM_ATTN \<Longrightarrow> ready s \<and> ready s'"
    and event_done: "inv s \<Longrightarrow> event h s t j = Some (r, s') \<Longrightarrow> r = SI_SM_TRANSACTION_COMPLETE \<or> r = SI_SM_HOSED \<Longrightarrow> ready s'"
    and event_busy: "inv s \<Longrightarrow> event h s t j = Some (r, s') \<Longrightarrow> r \<noteq> SI_SM_TRANSACTION_COMPLETE \<Longrightarrow> r \<noteq> SI_SM_HOSED \<Longrightarrow>
          \<not> ready s \<Longrightarrow> \<not> ready s'"
    and event_fresh: "inv s \<Longrightarrow> event h s t j = Some (r, s') \<Longrightarrow> fresh s \<Longrightarrow> r \<noteq> SI_SM_TRANSACTION_COMPLETE \<and> r \<noteq> SI_SM_HOSED"
    and result_keeps: "inv s \<Longrightarrow> get_result h s data = Some (n, d, s') \<Longrightarrow> ready s' = ready s \<and> length d = length data"
begin

definition base :: "'s smi_info \<Rightarrow> bool" where
  "base s \<longleftrightarrow> inv (si_sm s) \<and> queues_ok s \<and> tags (queued s) \<le> pendingRequests s \<and>
     (xaction_notifier s \<or> pendingRequests s = tags (queued s))"

text \<open>What holds when a piece of code has run and given up the state.\<close>

definition settled :: "'s smi_info \<Rightarrow> bool" where
  "settled s \<longleftrightarrow> base s \<and> curr_ok s \<and> (engaged s \<longrightarrow> fresh (si_sm s))"

lemma start_own_ok:
  assumes "base s" "ready (si_sm s)" "length msg = 2 \<or> length msg = 3"
  obtains sm where "start_own h msg s = Some (s\<lparr>si_sm := sm\<rparr>)" "fresh sm" "inv sm"
proof -
  have i: "inv (si_sm s)" using assms(1) by (simp add: base_def)
  have l: "length msg \<le> max_req" using assms(3) own_size by auto
  obtain c sm where st: "start_transaction h (si_sm s) msg = Some (c, sm)"
    using start_defined [OF i l] by auto
  have "c = 0" using start_ready [OF i assms(2) _ l st] assms(3) by auto
  then have "fresh sm" using start_fresh [OF i] st by simp
  then show ?thesis using that [of sm] st start_inv [OF i st] by (simp add: start_own_def)
qed

lemma base_upd [simp]:
  "base (s\<lparr>si_state := st\<rparr>) = base s" "base (s\<lparr>msg_flags := f\<rparr>) = base s" "base (s\<lparr>req_events := b\<rparr>) = base s"
  "base (s\<lparr>run_to_completion := b\<rparr>) = base s" "base (s\<lparr>idles := n\<rparr>) = base s" "base (s\<lparr>attentions := n\<rparr>) = base s"
  "base (s\<lparr>hosed_count := n\<rparr>) = base s" "base (s\<lparr>complete_transactions := n\<rparr>) = base s" "base (s\<lparr>events := n\<rparr>) = base s"
  "base (s\<lparr>watchdog_pretimeouts := n\<rparr>) = base s" "base (s\<lparr>incoming_messages := n\<rparr>) = base s"
  "base (s\<lparr>interrupt_disabled := b\<rparr>) = base s" "base (s\<lparr>stop_operation := b\<rparr>) = base s"
  by (simp_all add: base_def queues_ok_def queued_def)

lemma base_sm: "base s \<Longrightarrow> inv sm \<Longrightarrow> base (s\<lparr>si_sm := sm\<rparr>)"
  by (simp add: base_def queues_ok_def queued_def)

lemma base_inv: "base s \<Longrightarrow> inv (si_sm s)"
  by (simp add: base_def)

definition handled :: "'s smi_info \<Rightarrow> 's smi_handled \<Rightarrow> bool" where
  "handled s H \<longleftrightarrow> (\<exists>s' cbs effs. H = Some (s', cbs, effs) \<and> settled s' \<and> irq s' = irq s \<and>
     (\<forall>m \<in> set (concat (map callback_msgs cbs)). \<not> msg_tagged m) \<and>
     ptrs (queued s) + alloced effs = ptrs (queued s') + ptrs (concat (map callback_msgs cbs)) + freed effs \<and>
     delivered effs = [] \<and> (\<forall>p \<in># freed effs + alloced effs. \<not> is_upper p))"

definition alloc_ok :: "ipmi_smi_msg option \<Rightarrow> bool" where
  "alloc_ok a \<longleftrightarrow> (\<forall>m. a = Some m \<longrightarrow> msg_ok m \<and> \<not> is_upper (msg_ptr m) \<and> \<not> msg_tagged m)"

lemma set_request_simps [simp]:
  "msg_ptr (set_request c m) = msg_ptr m" "msg_tagged (set_request c m) = msg_tagged m" "msg_ok m \<Longrightarrow> msg_ok (set_request c m)"
  by (simp_all add: set_request_def msg_ok_def IPMI_MAX_MSG_LENGTH_def)

text \<open>Fetching from the BMC: \<open>s\<close> has no current message.\<close>

lemma start_own_any:
  assumes "base s" "length msg \<le> 3"
  obtains sm where "start_own h msg s = Some (s\<lparr>si_sm := sm\<rparr>)" "inv sm" "sm = si_sm s \<or> fresh sm"
proof -
  note i = base_inv [OF assms(1)]
  obtain c sm where st: "start_transaction h (si_sm s) msg = Some (c, sm)"
    using start_total [OF i, of msg] assms(2) by (auto simp: IPMI_MAX_MSG_LENGTH_def)
  then have "sm = si_sm s \<or> fresh sm" using start_fresh [OF i] start_refused [OF i st] by (cases "c = 0") auto
  then show ?thesis using that [of sm] st start_inv [OF i st] by (simp add: start_own_def)
qed

text \<open>The request itself. With the interrupts off a transaction that turns them on has just been started, which makes the
  machine refuse this one.\<close>

lemma fetch_own_ok:
  assumes b: "base s" "ready (si_sm s) \<or> fresh (si_sm s)" "curr_msg s = None"
    and m: "msg_ok m" "\<not> is_upper (msg_ptr m)" "\<not> msg_tagged m" and st: "st = SI_GETTING_EVENTS \<or> st = SI_GETTING_MESSAGES"
  obtains s' where "start_own h [APP_REQUEST, cmd] (s\<lparr>curr_msg := Some (set_request cmd m)\<rparr>) = Some s'"
    "settled (s'\<lparr>si_state := st\<rparr>)" "irq s' = irq s" "ptrs (queued s') = add_mset (msg_ptr m) (ptrs (queued s))"
proof -
  let ?s = "s\<lparr>curr_msg := Some (set_request cmd m)\<rparr>"
  have bs: "base ?s" using b m by (auto simp: base_def queues_ok_def queued_def)
  obtain sm where sm: "start_own h [APP_REQUEST, cmd] ?s = Some (?s\<lparr>si_sm := sm\<rparr>)" "fresh sm" "inv sm"
  proof (cases "ready (si_sm s)")
    case True
    then show ?thesis using start_own_ok [OF bs, of "[APP_REQUEST, cmd]"] that by force
  next
    case False
    then show ?thesis using start_own_any [OF bs, of "[APP_REQUEST, cmd]"] b(2) that by force
  qed
  show ?thesis
    by (rule that [OF sm(1)])
       (use b m sm st in \<open>auto simp: settled_def base_def queues_ok_def queued_def curr_ok_def\<close>)
qed

text \<open>Turning the interrupts on or off starts a transaction, or nothing.\<close>

lemma irq_change_ok:
  assumes "base s" "ready (si_sm s)"
  shows "\<exists>s'. disable_si_irq h s = Some s' \<and> base s' \<and> curr_msg s' = curr_msg s \<and> irq s' = irq s \<and> queued s' = queued s"
    and "\<exists>sm st d. enable_si_irq h s = Some (s\<lparr>si_sm := sm, si_state := st, interrupt_disabled := d\<rparr>) \<and> inv sm \<and> (ready sm \<or> fresh sm)"
proof -
  obtain sm where sm: "start_own h [APP_REQUEST, IPMI_GET_BMC_GLOBAL_ENABLES_CMD] s = Some (s\<lparr>si_sm := sm\<rparr>)" "fresh sm" "inv sm"
    using start_own_ok [OF assms, of "[APP_REQUEST, IPMI_GET_BMC_GLOBAL_ENABLES_CMD]"] by auto
  then show "\<exists>s'. disable_si_irq h s = Some s' \<and> base s' \<and> curr_msg s' = curr_msg s \<and> irq s' = irq s \<and> queued s' = queued s"
    using assms base_sm [OF assms(1) sm(3)] by (simp add: disable_si_irq_def start_disable_irq_def queued_def)
  have "enable_si_irq h s = Some (s\<lparr>si_sm := sm, si_state := SI_ENABLE_INTERRUPTS1, interrupt_disabled := False\<rparr>) \<or>
      enable_si_irq h s = Some (s\<lparr>si_sm := si_sm s, si_state := si_state s, interrupt_disabled := interrupt_disabled s\<rparr>)"
    using sm(1) by (simp add: enable_si_irq_def start_enable_irq_def)
  then show "\<exists>sm st d. enable_si_irq h s = Some (s\<lparr>si_sm := sm, si_state := st, interrupt_disabled := d\<rparr>) \<and> inv sm \<and> (ready sm \<or> fresh sm)"
    using sm(2,3) assms(2) base_inv [OF assms(1)] by blast
qed

lemma fetch_from_bmc_ok:
  assumes b: "base s" "ready (si_sm s)" "curr_msg s = None" and a: "alloc_ok a"
    and st: "st = SI_GETTING_EVENTS \<or> st = SI_GETTING_MESSAGES"
  shows "handled s (fetch_from_bmc h a cmd st s)"
proof (cases a)
  case None
  obtain s' where s': "disable_si_irq h s = Some s'" "base s'" "curr_msg s' = None" "irq s' = irq s" "queued s' = queued s"
    using irq_change_ok(1) [OF b(1,2)] b(3) by auto
  have "s\<lparr>curr_msg := None\<rparr> = s" using b(3) by simp
  then have "fetch_from_bmc h a cmd st s = Some (s'\<lparr>si_state := SI_NORMAL\<rparr>, [], [])"
    using None s'(1) by (simp only: fetch_from_bmc_def option.case bind.bind_lunit)
  then show ?thesis using s'(2-5) by (simp add: handled_def settled_def engaged_def curr_ok_def)
next
  case (Some m)
  then have m: "msg_ok m" "\<not> is_upper (msg_ptr m)" "\<not> msg_tagged m" using a by (auto simp: alloc_ok_def)
  have bm: "base (s\<lparr>curr_msg := Some m\<rparr>)" using b m by (auto simp: base_def queues_ok_def queued_def)
  then obtain sm st1 d where en: "enable_si_irq h (s\<lparr>curr_msg := Some m\<rparr>) =
      Some (s\<lparr>curr_msg := Some m, si_sm := sm, si_state := st1, interrupt_disabled := d\<rparr>)" "inv sm" "ready sm \<or> fresh sm"
    using irq_change_ok(2) [OF bm] b(2) by auto
  let ?s = "s\<lparr>si_sm := sm, si_state := st1, interrupt_disabled := d\<rparr>"
  have bs: "base ?s" "ready (si_sm ?s) \<or> fresh (si_sm ?s)" "curr_msg ?s = None" using base_sm [OF b(1) en(2)] en(3) b(3) by simp_all
  obtain s' where s': "start_own h [APP_REQUEST, cmd] (?s\<lparr>curr_msg := Some (set_request cmd m)\<rparr>) = Some s'"
    "settled (s'\<lparr>si_state := st\<rparr>)" "irq s' = irq s" "ptrs (queued s') = add_mset (msg_ptr m) (ptrs (queued s))"
    using fetch_own_ok [OF bs m st, of cmd] by (force simp: queued_def)
  have "fetch_from_bmc h a cmd st s = Some (s'\<lparr>si_state := st\<rparr>, [], [Eff_alloc (msg_ptr m)])"
    using Some s'(1) en(1) by (simp add: fetch_from_bmc_def)
  then show ?thesis using s' m(2) by (simp add: handled_def)
qed

lemma start_clear_flags_ok:
  assumes "base s" "ready (si_sm s)" "curr_msg s = None"
  obtains sm where "start_clear_flags h s = Some (s\<lparr>si_sm := sm, si_state := SI_CLEARING_FLAGS\<rparr>)"
    "settled (s\<lparr>si_sm := sm, si_state := SI_CLEARING_FLAGS\<rparr>)"
proof -
  obtain sm where "start_own h [APP_REQUEST, IPMI_CLEAR_MSG_FLAGS_CMD, WDT_PRE_TIMEOUT_INT] s = Some (s\<lparr>si_sm := sm\<rparr>)" "fresh sm" "inv sm"
    using start_own_ok [OF assms(1,2), of "[APP_REQUEST, IPMI_CLEAR_MSG_FLAGS_CMD, WDT_PRE_TIMEOUT_INT]"] by auto
  then show ?thesis using that [of sm] assms base_sm [OF assms(1), of sm]
    by (simp add: start_clear_flags_def settled_def curr_ok_def)
qed

lemma settled_flags [simp]: "settled (s\<lparr>msg_flags := f\<rparr>) = settled s"
  by (simp add: settled_def engaged_def curr_ok_def split: option.splits)

lemma handle_flags_pretimeout:
  assumes "base s" "ready (si_sm s)" "curr_msg s = None" "flag (msg_flags s) WDT_PRE_TIMEOUT_INT"
  shows "handled s (handle_flags h a s)"
proof -
  let ?s = "s\<lparr>watchdog_pretimeouts := watchdog_pretimeouts s + 1\<rparr>"
  obtain sm where "start_clear_flags h ?s = Some (?s\<lparr>si_sm := sm, si_state := SI_CLEARING_FLAGS\<rparr>)"
      "settled (?s\<lparr>si_sm := sm, si_state := SI_CLEARING_FLAGS\<rparr>)"
    using start_clear_flags_ok [of ?s] assms(1-3) by auto
  then show ?thesis using assms(4) by (subst handle_flags.simps) (simp add: handled_def queued_def)
qed

lemma handle_flags_plain:
  assumes b: "base s" "ready (si_sm s)" "curr_msg s = None" "alloc_ok a"
    and f: "flag (msg_flags s) RECEIVE_MSG_AVAIL \<or> flag (msg_flags s) EVENT_MSG_BUFFER_FULL \<or>
      \<not> (flag (msg_flags s) OEM_DATA_AVAIL \<and> oem_data_avail_handler s)"
  shows "handled s (handle_flags h a s)"
proof (cases "flag (msg_flags s) WDT_PRE_TIMEOUT_INT")
  case False
  have "handled s (Some (s\<lparr>si_state := SI_NORMAL\<rparr>, [], []))"
    using b by (simp add: handled_def settled_def engaged_def curr_ok_def queued_def)
  then show ?thesis using False f fetch_from_bmc_ok [OF b] by (subst handle_flags.simps) auto
qed (rule handle_flags_pretimeout [OF b(1-3)])

lemma handle_flags_ok:
  assumes b: "base s" "ready (si_sm s)" "curr_msg s = None" "alloc_ok a"
  shows "handled s (handle_flags h a s)"
proof (cases "flag (msg_flags s) 8 \<or> flag (msg_flags s) 1 \<or> flag (msg_flags s) 2 \<or> \<not> (flag (msg_flags s) 0xe0 \<and> oem_data_avail_handler s)")
  case True
  then show ?thesis using handle_flags_plain [OF b] handle_flags_pretimeout [OF b(1-3)] by blast
next
  case False
  let ?s = "oem_data_avail_to_receive_msg_avail s"
  have "handled ?s (handle_flags h a ?s)"
    using b by (intro handle_flags_plain)
      (simp_all add: oem_data_avail_to_receive_msg_avail_def alloc_ok_def oem_flags_cleared [simplified])
  moreover have "handled s H = handled ?s H" for H
    by (simp add: handled_def oem_data_avail_to_receive_msg_avail_def queued_def)
  ultimately show ?thesis using False by (subst handle_flags.simps) simp
qed

section \<open>The end of a transaction\<close>

text \<open>Taking the current message out, with an answer in it.\<close>

lemma base_take:
  assumes "base s" "curr_msg s = Some m" "inv sm" "untag (m\<lparr>msg_rsp := r, msg_rsp_size := n\<rparr>) (s\<lparr>si_sm := sm\<rparr>) = (m1, s1)"
  shows "base (s1\<lparr>curr_msg := None\<rparr>) \<and> \<not> msg_tagged m1 \<and> msg_ptr m1 = msg_ptr m \<and> msg_rsp m1 = r \<and> msg_data m1 = msg_data m \<and>
     si_sm s1 = sm \<and> si_state s1 = si_state s \<and> irq s1 = irq s \<and> msg_flags s1 = msg_flags s \<and>
     ptrs (queued s) = add_mset (msg_ptr m) (ptrs (queued (s1\<lparr>curr_msg := None\<rparr>)))"
  using assms by (auto simp: untag_def base_def queues_ok_def queued_def split: if_splits)

lemma take_result_ok:
  assumes b: "base s" "ready (si_sm s)" and m: "curr_msg s = Some m"
  obtains m1 s1 where "take_result h s = Some (m1, s1)" "base s1" "ready (si_sm s1)" "curr_msg s1 = None" "\<not> msg_tagged m1"
    "msg_ptr m1 = msg_ptr m" "si_state s1 = si_state s" "irq s1 = irq s" "length (msg_rsp m1) = IPMI_MAX_MSG_LENGTH"
    "ptrs (queued s) = add_mset (msg_ptr m1) (ptrs (queued s1))"
proof -
  have i: "inv (si_sm s)" and r: "length (msg_rsp m) = IPMI_MAX_MSG_LENGTH"
    using b(1) m by (auto simp: base_def queues_ok_def msg_ok_def)
  obtain n d sm where g: "get_result h (si_sm s) (msg_rsp m) = Some (n, d, sm)"
    using result_defined [OF i, of "msg_rsp m"] r by (auto simp: IPMI_MAX_MSG_LENGTH_def)
  obtain m1 s1 where u: "untag (m\<lparr>msg_rsp := d, msg_rsp_size := n\<rparr>) (s\<lparr>si_sm := sm\<rparr>) = (m1, s1)" by fastforce
  note k = base_take [OF b(1) m result_inv [OF i g] u] result_keeps [OF i g]
  have "take_result h s = Some (m1, s1\<lparr>curr_msg := None\<rparr>)" using m g u by (simp add: take_result_def)
  then show ?thesis using that [of m1 "s1\<lparr>curr_msg := None\<rparr>"] k b(2) r by simp
qed

lemma own_result_ok:
  assumes b: "base s" and l: "3 \<le> length stk"
  obtains n d cc sm where "own_result h stk s = Some (n, d, cc, s\<lparr>si_sm := sm\<rparr>)" "base (s\<lparr>si_sm := sm\<rparr>)"
    "ready sm = ready (si_sm s)" "length d = length stk"
proof -
  note i = base_inv [OF b]
  obtain n d sm where g: "get_result h (si_sm s) stk = Some (n, d, sm)" using result_defined [OF i l] by auto
  note k = result_keeps [OF i g] base_sm [OF b result_inv [OF i g]]
  then have "own_result h stk s = Some (n, d, d ! 2, s\<lparr>si_sm := sm\<rparr>)" using g l by (simp add: own_result_def buf_simps)
  then show ?thesis using that k by blast
qed

lemma own_result_normal:
  assumes b: "base s" and l: "3 \<le> length stk" and c: "curr_msg s = None"
  shows "handled s (do { (n, msg, cc, s1) \<leftarrow> own_result h stk s; Some (s1\<lparr>si_state := SI_NORMAL\<rparr>, [], []) })"
proof -
  obtain n d cc sm where "own_result h stk s = Some (n, d, cc, s\<lparr>si_sm := sm\<rparr>)" "base (s\<lparr>si_sm := sm\<rparr>)"
    using own_result_ok [OF b l] by metis
  then show ?thesis using c by (simp add: handled_def settled_def engaged_def curr_ok_def queued_def)
qed

lemma handled_mono:
  assumes "handled s1 H" "ptrs (queued s1) = ptrs (queued s)" "irq s1 = irq s"
  shows "handled s H"
  using assms by (simp add: handled_def)

lemma start_enable_irq_ok:
  assumes "base s" "ready (si_sm s)" "curr_msg s = None"
  shows "handled s (do { s2 \<leftarrow> start_enable_irq h s; Some (s2, [], []) })"
proof -
  obtain sm where "start_own h [APP_REQUEST, IPMI_GET_BMC_GLOBAL_ENABLES_CMD] s = Some (s\<lparr>si_sm := sm\<rparr>)" "fresh sm" "inv sm"
    using start_own_ok [OF assms(1,2), of "[APP_REQUEST, IPMI_GET_BMC_GLOBAL_ENABLES_CMD]"] by auto
  then show ?thesis using assms base_sm [OF assms(1), of sm]
    by (simp add: start_enable_irq_def handled_def settled_def curr_ok_def queued_def)
qed

lemma enables_read_ok:
  assumes b: "base s" "ready (si_sm s)" "curr_msg s = None" and l: "length stk = 4"
    and st: "st \<noteq> SI_GETTING_EVENTS" "st \<noteq> SI_GETTING_MESSAGES"
  shows "handled s (enables_read h stk f st s)"
proof -
  have l4: "3 \<le> length stk" using l by simp
  obtain n d cc sm where o: "own_result h stk s = Some (n, d, cc, s\<lparr>si_sm := sm\<rparr>)" "base (s\<lparr>si_sm := sm\<rparr>)" "ready sm" "length d = 4"
    using own_result_ok [OF b(1) l4] l b(2) by metis
  obtain sm' where "start_own h [APP_REQUEST, IPMI_SET_BMC_GLOBAL_ENABLES_CMD, f (d ! 3)] (s\<lparr>si_sm := sm\<rparr>) =
      Some (s\<lparr>si_sm := sm'\<rparr>)" "fresh sm'" "inv sm'"
    using start_own_ok [OF o(2), of "[APP_REQUEST, IPMI_SET_BMC_GLOBAL_ENABLES_CMD, f (d ! 3)]"] o(3) by auto
  then show ?thesis using o b base_sm [OF b(1)] st
    by (auto simp: enables_read_def handled_def settled_def engaged_def curr_ok_def queued_def buf_simps)
qed

lemma fetched_done_ok:
  assumes b: "base s" "ready (si_sm s)" and m: "curr_msg s = Some m" "\<not> is_upper (msg_ptr m)" and a: "alloc_ok a"
    and bump: "\<And>s. base s \<Longrightarrow> base (bump s) \<and> si_sm (bump s) = si_sm s \<and> curr_msg (bump s) = curr_msg s \<and>
      queued (bump s) = queued s \<and> irq (bump s) = irq s"
  shows "handled s (fetched_done h a fl bump s)"
proof -
  obtain m1 s1 where t: "take_result h s = Some (m1, s1)" "base s1" "ready (si_sm s1)" "curr_msg s1 = None" "\<not> msg_tagged m1"
    "msg_ptr m1 = msg_ptr m" "irq s1 = irq s" "length (msg_rsp m1) = IPMI_MAX_MSG_LENGTH"
    "ptrs (queued s) = add_mset (msg_ptr m1) (ptrs (queued s1))"
    using take_result_ok [OF b m(1)] by metis
  have r: "buf_get (msg_rsp m1) 2 = Some (msg_rsp m1 ! 2)" using t(8) by (simp add: buf_simps IPMI_MAX_MSG_LENGTH_def)
  let ?s = "if msg_rsp m1 ! 2 \<noteq> 0 then s1\<lparr>msg_flags := msg_flags s1 AND NOT fl\<rparr> else bump s1"
  have "handled ?s (handle_flags h a ?s)"
    using t(2-4) bump [OF t(2)] a t(7) by (intro handle_flags_ok) (auto simp: alloc_ok_def)
  then have "handled s1 (handle_flags h a ?s)"
    by (rule handled_mono) (use bump [OF t(2)] in auto)
  then obtain s' cbs effs where "handle_flags h a ?s = Some (s', cbs, effs)" "settled s'" "irq s' = irq s1"
     "\<forall>m \<in> set (concat (map callback_msgs cbs)). \<not> msg_tagged m"
     "ptrs (queued s1) + alloced effs = ptrs (queued s') + ptrs (concat (map callback_msgs cbs)) + freed effs"
     "delivered effs = []" "\<forall>p \<in># freed effs + alloced effs. \<not> is_upper p" by (auto simp: handled_def)
  then show ?thesis using t r m(2) by (cases "msg_rsp m1 ! 2 = 0") (auto simp: fetched_done_def handled_def)
qed

lemma handle_transaction_done_ok:
  assumes b: "base s" "ready (si_sm s)" "curr_ok s" and a: "alloc_ok a" and l: "length stk = 4"
  shows "handled s (handle_transaction_done h a stk s)"
proof (cases "curr_msg s")
  case None
  note n = own_result_normal [OF b(1) _ None]
  have l3: "3 \<le> length (take 3 stk)" and l4: "3 \<le> length stk" using l by simp_all
  obtain n d cc sm where o: "own_result h stk s = Some (n, d, cc, s\<lparr>si_sm := sm\<rparr>)" "base (s\<lparr>si_sm := sm\<rparr>)" "ready sm" "length d = 4"
    using own_result_ok [OF b(1) l4] l b(2) by metis
  obtain n3 d3 cc3 sm3 where o3: "own_result h (take 3 stk) s = Some (n3, d3, cc3, s\<lparr>si_sm := sm3\<rparr>)" "base (s\<lparr>si_sm := sm3\<rparr>)" "ready sm3"
    using own_result_ok [OF b(1) l3] b(2) by metis
  let ?n = "Some (s\<lparr>si_sm := sm, si_state := SI_NORMAL\<rparr>, [], [])" and ?f = "s\<lparr>si_sm := sm, msg_flags := d ! 3\<rparr>"
  have nrm: "handled s ?n" using n [of stk] o l by simp
  have "handled ?f (handle_flags h a ?f)"
    by (rule handle_flags_ok) (use o None a in \<open>auto simp: alloc_ok_def\<close>)
  then have fl: "handled s (handle_flags h a ?f)" by (rule handled_mono) (simp_all add: queued_def)
  have "handled (s\<lparr>si_sm := sm3\<rparr>) (do { s2 \<leftarrow> start_enable_irq h (s\<lparr>si_sm := sm3\<rparr>); Some (s2, [], []) })"
    by (rule start_enable_irq_ok) (use o3 None in simp_all)
  then have en: "handled s (do { s2 \<leftarrow> start_enable_irq h (s\<lparr>si_sm := sm3\<rparr>); Some (s2, [], []) })"
    by (rule handled_mono) (simp_all add: queued_def)
  have nn: "si_state s = SI_NORMAL \<Longrightarrow> handled s (Some (s, [], []))"
    using b None by (simp add: handled_def settled_def engaged_def)
  show ?thesis
    using b(3) None n [of stk] n [of "take 3 stk"] o o3 fl en nn nrm l enables_read_ok [OF b(1,2) None l]
    by (cases "si_state s") (auto simp: handle_transaction_done_def curr_ok_def buf_simps)
next
  case (Some m)
  obtain m1 s1 where t: "take_result h s = Some (m1, s1)" "base s1" "ready (si_sm s1)" "curr_msg s1 = None" "\<not> msg_tagged m1"
    "si_state s1 = si_state s" "irq s1 = irq s" "ptrs (queued s) = add_mset (msg_ptr m1) (ptrs (queued s1))"
    using take_result_ok [OF b(1,2) Some] by metis
  have nn: "si_state s = SI_NORMAL \<Longrightarrow> handled s (Some (s1, [Deliver m1], []))"
    using t by (simp add: handled_def settled_def engaged_def curr_ok_def)
  show ?thesis
  proof (cases "is_upper (msg_ptr m)")
    case True
    then show ?thesis using b(3) Some t(1) nn by (simp add: handle_transaction_done_def curr_ok_def)
  next
    case False
    note f = fetched_done_ok [OF b(1,2) Some False a]
    show ?thesis using b(3) Some False by (auto simp: handle_transaction_done_def curr_ok_def queued_def intro!: f)
  qed
qed

section \<open>Starting the next message\<close>

lemma make_response_ok:
  assumes "length (msg_data m) = IPMI_MAX_MSG_LENGTH" "length (msg_rsp m) = IPMI_MAX_MSG_LENGTH"
  obtains r where "make_response c m = Some (m\<lparr>msg_rsp := r, msg_rsp_size := 3\<rparr>)"
  using assms that by (auto simp: make_response_def buf_simps IPMI_MAX_MSG_LENGTH_def)

lemma return_hosed_msg_ok:
  assumes "base s" "curr_msg s = Some m"
  obtains m1 s1 where "return_hosed_msg c s = Some (m1, s1)" "base s1" "curr_msg s1 = None" "si_sm s1 = si_sm s"
    "si_state s1 = si_state s" "irq s1 = irq s" "ptrs (queued s) = add_mset (msg_ptr m1) (ptrs (queued s1))"
proof -
  obtain m1 s1 where u: "untag m s = (m1, s1)" by fastforce
  have m: "msg_ok m" using assms by (auto simp: base_def queues_ok_def)
  have "length (msg_data m1) = IPMI_MAX_MSG_LENGTH" "length (msg_rsp m1) = IPMI_MAX_MSG_LENGTH"
    using u m by (auto simp: untag_def msg_ok_def split: if_splits)
  then obtain r where r: "make_response (if c < 0 \<or> c > 0xff then 0xff else c) m1 = Some (m1\<lparr>msg_rsp := r, msg_rsp_size := 3\<rparr>)"
    by (rule make_response_ok)
  have b: "base (s1\<lparr>curr_msg := None\<rparr>) \<and> msg_ptr m1 = msg_ptr m \<and> si_sm s1 = si_sm s \<and> si_state s1 = si_state s \<and> irq s1 = irq s \<and>
      ptrs (queued s) = add_mset (msg_ptr m) (ptrs (queued (s1\<lparr>curr_msg := None\<rparr>)))"
    using assms u by (auto simp: untag_def base_def queues_ok_def queued_def split: if_splits)
  have "return_hosed_msg c s = Some (m1\<lparr>msg_rsp := r, msg_rsp_size := 3\<rparr>, s1\<lparr>curr_msg := None\<rparr>)"
    using assms(2) u r unfolding return_hosed_msg_def by (simp only: bind.bind_lunit Let_def prod.case)
  then show ?thesis using that b by force
qed

fun next_msgs :: "next_msg \<Rightarrow> ipmi_smi_msg list" where
  "next_msgs (Next_stopped m) = [m]"
| "next_msgs _ = []"

definition next_ok :: "'s smi_info \<Rightarrow> (next_msg \<times> 's smi_info) option \<Rightarrow> bool" where
  "next_ok s X \<longleftrightarrow> (\<exists>r s'. X = Some (r, s') \<and> base s' \<and> curr_ok s' \<and> si_state s' = SI_NORMAL \<and> irq s' = irq s \<and>
     (if r = Next_started then fresh (si_sm s') else curr_msg s' = None \<and> (r = Next_idle \<longrightarrow> si_sm s' = si_sm s)) \<and>
     ptrs (queued s) = ptrs (queued s') + ptrs (next_msgs r))"

text \<open>The message is current; the notifier or the machine may refuse it.\<close>

lemma notifier_ok:
  assumes b: "base s" "curr_msg s = Some m" and x: "xaction_notifier s"
  shows "dell_poweredge_bt_xaction_handler s = Some (None, s) \<or>
    (\<exists>m1. dell_poweredge_bt_xaction_handler s = Some (Some m1, s\<lparr>curr_msg := None\<rparr>) \<and> msg_ptr m1 = msg_ptr m \<and>
       base (s\<lparr>curr_msg := None\<rparr>))"
proof -
  have l: "length (msg_data m) = IPMI_MAX_MSG_LENGTH" "length (msg_rsp m) = IPMI_MAX_MSG_LENGTH"
    using b by (auto simp: base_def queues_ok_def msg_ok_def)
  obtain r where r: "make_response CANNOT_RETURN_REQUESTED_LENGTH m = Some (m\<lparr>msg_rsp := r, msg_rsp_size := 3\<rparr>)"
    using make_response_ok [OF l] by metis
  have "base (s\<lparr>curr_msg := None\<rparr>)" using b x by (auto simp: base_def queues_ok_def queued_def split: if_splits)
  then show ?thesis using b l r
    by (auto simp: dell_poweredge_bt_xaction_handler_def return_hosed_msg_badsize_def buf_simps IPMI_MAX_MSG_LENGTH_def)
qed

definition launch :: "ipmi_smi_msg \<Rightarrow> 's smi_info \<Rightarrow> (next_msg \<times> 's smi_info) option" where
  "launch m s = do {
     (err, sm) \<leftarrow> start_transaction h (si_sm s) (take (msg_data_size m) (msg_data m));
     let s3 = s\<lparr>si_sm := sm\<rparr>;
     if err \<noteq> 0 then do { (m2, s4) \<leftarrow> return_hosed_msg (uint err) s3; Some (Next_stopped m2, s4) }
     else Some (Next_started, s3) }"

lemma launch_ok:
  assumes b: "base s" "curr_msg s = Some m" "is_upper (msg_ptr m)" "si_state s = SI_NORMAL"
  shows "next_ok s (launch m s)"
proof -
  have i: "inv (si_sm s)" and l: "length (take (msg_data_size m) (msg_data m)) \<le> IPMI_MAX_MSG_LENGTH"
    using b by (auto simp: base_def queues_ok_def msg_ok_def)
  obtain e sm where st: "start_transaction h (si_sm s) (take (msg_data_size m) (msg_data m)) = Some (e, sm)"
    using start_total [OF i l] by auto
  note b1 = base_sm [OF b(1) start_inv [OF i st]]
  show ?thesis
  proof (cases "e = 0")
    case True
    then show ?thesis using st b b1 start_fresh [OF i, of _ sm] by (simp add: launch_def next_ok_def curr_ok_def)
  next
    case False
    obtain m1 s1 where "return_hosed_msg (uint e) (s\<lparr>si_sm := sm\<rparr>) = Some (m1, s1)" "base s1" "curr_msg s1 = None" "si_sm s1 = sm"
      "si_state s1 = SI_NORMAL" "irq s1 = irq s" "ptrs (queued s) = add_mset (msg_ptr m1) (ptrs (queued s1))"
      using return_hosed_msg_ok [OF b1, of m "uint e"] b by auto
    then show ?thesis using False st by (simp add: launch_def next_ok_def curr_ok_def)
  qed
qed

lemma start_next_msg_ok:
  assumes b: "base s" and e: "\<not> engaged s"
  shows "next_ok s (start_next_msg h s)"
proof -
  have c: "curr_msg s = None" "si_state s = SI_NORMAL" using e by (auto simp: engaged_def)
  define pick where "pick = (case hp_xmit_msgs s of m # ms \<Rightarrow> Some (m, s\<lparr>hp_xmit_msgs := ms\<rparr>)
                  | [] \<Rightarrow> (case xmit_msgs s of m # ms \<Rightarrow> Some (m, s\<lparr>xmit_msgs := ms\<rparr>) | [] \<Rightarrow> None))"
  show ?thesis
  proof (cases pick)
    case None
    then have "start_next_msg h s = Some (Next_idle, s)"
      using c by (simp add: start_next_msg_def pick_def [symmetric])
    then show ?thesis using b c by (simp add: next_ok_def curr_ok_def)
  next
    case (Some p)
    then obtain m s0 where p: "pick = Some (m, s0)" by (cases p) auto
    let ?s = "s0\<lparr>curr_msg := Some m\<rparr>"
    have k: "base ?s" "is_upper (msg_ptr m)" "si_state ?s = SI_NORMAL" "irq ?s = irq s" "ptrs (queued ?s) = ptrs (queued s)" "si_sm ?s = si_sm s"
      using p b c by (auto simp: pick_def base_def queues_ok_def queued_def split: list.splits)
    have L: "next_ok s (launch m ?s)" using launch_ok [of ?s m] k unfolding next_ok_def by (simp split del: if_split cong: if_cong)
    have "start_next_msg h s = (if xaction_notifier ?s then dell_poweredge_bt_xaction_handler ?s else Some (None, ?s)) \<bind>
        (\<lambda>(stop, s2). case stop of Some m1 \<Rightarrow> Some (Next_stopped m1, s2) | None \<Rightarrow> launch m s2)"
      using p by (simp add: start_next_msg_def pick_def [symmetric] launch_def cong: if_cong option.case_cong)
    then consider "start_next_msg h s = launch m ?s"
      | m1 where "start_next_msg h s = Some (Next_stopped m1, ?s\<lparr>curr_msg := None\<rparr>)" "msg_ptr m1 = msg_ptr m" "base (?s\<lparr>curr_msg := None\<rparr>)"
      using notifier_ok [OF k(1)] by (cases "xaction_notifier ?s") auto
    then show ?thesis
    proof cases
      case 2
      have "ptrs (queued s) = add_mset (msg_ptr m) (ptrs (queued (s0\<lparr>curr_msg := None\<rparr>)))"
        using k(5) by (simp add: queued_def)
      then show ?thesis using 2 k by (simp add: next_ok_def curr_ok_def)
    qed (use L in simp)
  qed
qed

section \<open>The segments\<close>

text \<open>What holds at each place of a thread. At \<open>Callback\<close> and \<open>Relock\<close> the lock is free: a sender may have started a
  transaction, but no event of it has happened.\<close>

definition at :: "'s smi_info \<Rightarrow> smi_pc \<Rightarrow> bool" where
  "at s pc \<longleftrightarrow>
     (case pc of
        Restart t ret \<Rightarrow> engaged s \<longrightarrow> \<not> ready (si_sm s)
      | Result r ret \<Rightarrow>
          if r = SI_SM_TRANSACTION_COMPLETE \<or> r = SI_SM_HOSED then ready (si_sm s)
          else if r = SI_SM_IDLE \<or> r = SI_SM_ATTN then ready (si_sm s) \<and> \<not> engaged s
          else engaged s \<longrightarrow> \<not> ready (si_sm s)
      | After ret \<Rightarrow> engaged s \<longrightarrow> fresh (si_sm s)
      | Attn r ret \<Rightarrow>
          if r = SI_SM_TRANSACTION_COMPLETE \<or> r = SI_SM_HOSED then \<not> engaged s
          else if r = SI_SM_IDLE \<or> r = SI_SM_ATTN then ready (si_sm s) \<and> \<not> engaged s
          else engaged s \<longrightarrow> \<not> ready (si_sm s)
      | Next c \<Rightarrow> \<not> engaged s \<and> (c \<noteq> By_sender \<longrightarrow> ready (si_sm s))
      | Req_events ret \<Rightarrow> \<not> engaged s \<and> ready (si_sm s)
      | Callback cb cbs k \<Rightarrow> \<not> end_next k \<longrightarrow> engaged s \<longrightarrow> fresh (si_sm s)
      | Relock cbs k \<Rightarrow> \<not> end_next k \<longrightarrow> engaged s \<longrightarrow> fresh (si_sm s)
      | Send m p \<Rightarrow> msg_ok m \<and> is_upper (msg_ptr m) \<and> \<not> msg_tagged m
      | _ \<Rightarrow> True)"

text \<open>When nobody holds the lock.\<close>

definition unlocked :: "'s smi_info \<Rightarrow> bool" where
  "unlocked s \<longleftrightarrow> (engaged s \<longrightarrow> \<not> ready (si_sm s))"

definition same_core :: "'s smi_info \<Rightarrow> 's smi_info \<Rightarrow> bool" where
  "same_core s s' \<longleftrightarrow> si_sm s' = si_sm s \<and> curr_msg s' = curr_msg s \<and> si_state s' = si_state s"

definition seg_ok :: "'s smi_info \<Rightarrow> smi_pc \<Rightarrow> 's smi_seg \<Rightarrow> bool" where
  "seg_ok s pc X \<longleftrightarrow> (\<exists>s' pc' effs. X = Some (s', pc', effs) \<and> base s' \<and> curr_ok s' \<and> irq s' = irq s \<and> at s' pc' \<and>
     (holds_si pc \<and> \<not> holds_si pc' \<longrightarrow> unlocked s') \<and> (\<not> holds_si pc \<longrightarrow> same_core s s') \<and>
     (pc = Next By_sender \<longrightarrow> engaged s' \<longrightarrow> fresh (si_sm s')) \<and>
     ptrs (queued s) + ptrs (pc_msgs pc) + alloced effs = ptrs (queued s') + ptrs (pc_msgs pc') + freed effs + ptrs (delivered effs) \<and>
     (\<forall>p \<in># freed effs + alloced effs. \<not> is_upper p))"

lemma sm_event_ok:
  assumes "base s"
  obtains r sm where "sm_event h env t s = Some (r, s\<lparr>si_sm := sm\<rparr>)" "base (s\<lparr>si_sm := sm\<rparr>)"
    "event h (si_sm s) t (env_jiffies env) = Some (r, sm)"
proof -
  note i = base_inv [OF assms]
  obtain r sm where e: "event h (si_sm s) t (env_jiffies env) = Some (r, sm)"
    using event_defined [OF i any_device] by fastforce
  then show ?thesis using that [of r sm] base_sm [OF assms event_inv [OF i any_device e]] by (simp add: sm_event_def)
qed

lemma engaged_upd [simp]:
  "engaged (s\<lparr>si_sm := sm\<rparr>) = engaged s" "engaged (s\<lparr>complete_transactions := c\<rparr>) = engaged s"
  "engaged (s\<lparr>idles := c\<rparr>) = engaged s" "engaged (s\<lparr>run_to_completion := b\<rparr>) = engaged s"
  by (simp_all add: engaged_def)

lemma curr_ok_upd [simp]:
  "curr_ok (s\<lparr>si_sm := sm\<rparr>) = curr_ok s" "curr_ok (s\<lparr>complete_transactions := c\<rparr>) = curr_ok s"
  "curr_ok (s\<lparr>idles := c\<rparr>) = curr_ok s" "curr_ok (s\<lparr>run_to_completion := b\<rparr>) = curr_ok s"
  by (auto simp: curr_ok_def split: option.splits)

lemma seg_event_ok:
  assumes b: "base s" "curr_ok s" and e: "engaged s \<longrightarrow> \<not> ready (si_sm s)"
    and pc: "holds_si pc" "pc \<noteq> Next By_sender" "pc_msgs pc = []"
  shows "seg_ok s pc (do { (r, s1) \<leftarrow> sm_event h env t s; Some (s1, Result r ret, []) })"
proof -
  obtain r sm where ev: "sm_event h env t s = Some (r, s\<lparr>si_sm := sm\<rparr>)" "base (s\<lparr>si_sm := sm\<rparr>)"
      "event h (si_sm s) t (env_jiffies env) = Some (r, sm)"
    using sm_event_ok [OF b(1)] by metis
  note i = base_inv [OF b(1)]
  have "at (s\<lparr>si_sm := sm\<rparr>) (Result r ret)"
    using e event_idle [OF i ev(3)] event_done [OF i ev(3)] event_busy [OF i ev(3)] by (auto simp: at_def)
  then show ?thesis using b ev pc by (simp add: seg_ok_def)
qed

lemma seg_after_ok:
  assumes b: "base s" "curr_ok s" and e: "at s (After ret)"
  shows "seg_ok s (After ret) (do { (r, s1) \<leftarrow> sm_event h env 0 s; Some (s1, Attn r ret, []) })"
proof -
  obtain r sm where ev: "sm_event h env 0 s = Some (r, s\<lparr>si_sm := sm\<rparr>)" "base (s\<lparr>si_sm := sm\<rparr>)"
      "event h (si_sm s) 0 (env_jiffies env) = Some (r, sm)"
    using sm_event_ok [OF b(1)] by metis
  note i = base_inv [OF b(1)]
  have "at (s\<lparr>si_sm := sm\<rparr>) (Attn r ret)"
    using e fresh_busy event_fresh [OF i ev(3)] event_idle [OF i ev(3)] event_busy [OF i ev(3)] by (auto simp: at_def)
  then show ?thesis using b ev by (simp add: seg_ok_def)
qed

lemma pc_msgs_resume [simp]: "pc_msgs (resume k) = []"
  by (cases k rule: resume.cases) auto

lemma pc_msgs_calls [simp]: "pc_msgs (calls cbs k) = concat (map callback_msgs cbs)"
  by (cases cbs) auto

lemma pc_msgs_return [simp]: "pc_msgs (smi_return r ret) = []"
  by (cases ret) auto

lemma at_calls: "at s (calls cbs (To_after ret)) \<longleftrightarrow> (engaged s \<longrightarrow> fresh (si_sm s))"
  by (cases cbs) (auto simp: at_def)

lemma at_return: "unlocked s \<Longrightarrow> at s (smi_return r ret)"
  by (cases ret) (auto simp: at_def unlocked_def)

lemma settled_unlocked: "settled s \<Longrightarrow> unlocked s"
  using fresh_busy by (auto simp: settled_def unlocked_def)

lemma seg_done_ok:
  assumes b: "base s" "curr_ok s" "ready (si_sm s)" and a: "alloc_ok (env_alloc env)" "length (env_stack env) = 4"
  shows "seg_ok s (Result SI_SM_TRANSACTION_COMPLETE ret) (seg_result h env SI_SM_TRANSACTION_COMPLETE ret s)"
proof -
  let ?s = "s\<lparr>complete_transactions := complete_transactions s + 1\<rparr>"
  have "handled ?s (handle_transaction_done h (env_alloc env) (env_stack env) ?s)"
    by (rule handle_transaction_done_ok) (use b a in \<open>simp_all add: alloc_ok_def\<close>)
  then obtain s' cbs effs where k: "handle_transaction_done h (env_alloc env) (env_stack env) ?s = Some (s', cbs, effs)" "settled s'"
     "irq s' = irq s" "ptrs (queued s) + alloced effs = ptrs (queued s') + ptrs (concat (map callback_msgs cbs)) + freed effs"
     "delivered effs = []" "\<forall>p \<in># freed effs + alloced effs. \<not> is_upper p" by (auto simp: handled_def)
  then show ?thesis using settled_unlocked [OF k(2)]
    by (simp add: seg_ok_def seg_result_def at_calls settled_def)
qed

lemma seg_hosed_ok:
  assumes b: "base s" "curr_ok s" "ready (si_sm s)"
  shows "seg_ok s (Result SI_SM_HOSED ret) (seg_result h env SI_SM_HOSED ret s)"
proof (cases "curr_msg s")
  case None
  then show ?thesis using b by (simp add: seg_ok_def seg_result_def curr_ok_def at_def engaged_def)
next
  case (Some m)
  let ?s = "s\<lparr>hosed_count := hosed_count s + 1, si_state := SI_NORMAL\<rparr>"
  obtain m1 s1 where "return_hosed_msg 0xff ?s = Some (m1, s1)" "base s1" "curr_msg s1 = None" "si_state s1 = SI_NORMAL"
      "irq s1 = irq s" "ptrs (queued s) = add_mset (msg_ptr m1) (ptrs (queued s1))"
    by (rule return_hosed_msg_ok [of ?s m "0xff"]) (use b Some in auto)
  then show ?thesis using Some b by (simp add: seg_ok_def seg_result_def curr_ok_def at_def unlocked_def engaged_def)
qed

lemma seg_result_ok:
  assumes b: "base s" "curr_ok s" "at s (Result r ret)" and a: "alloc_ok (env_alloc env)" "length (env_stack env) = 4"
  shows "seg_ok s (Result r ret) (seg_result h env r ret s)"
proof -
  have ready: "r = SI_SM_TRANSACTION_COMPLETE \<or> r = SI_SM_HOSED \<Longrightarrow> ready (si_sm s)" using b(3) by (auto simp: at_def)
  have loop: "seg_ok s (Result r ret) (do { (r1, s1) \<leftarrow> sm_event h env 0 s; Some (s1, Result r1 ret, []) })"
    if "r = SI_SM_CALL_WITHOUT_DELAY" by (rule seg_event_ok) (use b that in \<open>simp_all add: at_def\<close>)
  have "at s (Attn r ret)" if "r \<noteq> SI_SM_TRANSACTION_COMPLETE" "r \<noteq> SI_SM_HOSED" using b(3) that by (simp add: at_def)
  then have "seg_ok s (Result r ret) (Some (s, Attn r ret, []))" if "r \<noteq> SI_SM_TRANSACTION_COMPLETE" "r \<noteq> SI_SM_HOSED"
    using b that by (simp add: seg_ok_def)
  then show ?thesis
    using seg_done_ok [OF b(1,2) _ a] seg_hosed_ok [OF b(1,2)] ready loop by (cases r) (auto simp: seg_result_def)
qed

lemma seg_attn_ok:
  assumes b: "base s" "curr_ok s" "at s (Attn r ret)"
  shows "seg_ok s (Attn r ret) (seg_attn h r ret s)"
proof (cases "r = SI_SM_ATTN")
  case True
  let ?s = "s\<lparr>attentions := attentions s + 1\<rparr>"
  have c: "ready (si_sm s)" "curr_msg s = None" using b(3) True by (auto simp: at_def engaged_def)
  obtain sm where "start_own h [APP_REQUEST, IPMI_GET_MSG_FLAGS_CMD] ?s = Some (?s\<lparr>si_sm := sm\<rparr>)" "fresh sm" "inv sm"
    using start_own_ok [of ?s "[APP_REQUEST, IPMI_GET_MSG_FLAGS_CMD]"] b(1) c(1) by auto
  then show ?thesis using True b c fresh_busy base_sm [of ?s sm] by (simp add: seg_ok_def seg_attn_def at_def curr_ok_def)
next
  case False
  then show ?thesis using b at_return [of s r ret]
    by (auto simp: seg_ok_def seg_attn_def at_def unlocked_def split: if_splits)
qed

lemma seg_next_ok:
  assumes b: "base s" "at s (Next c)"
  shows "seg_ok s (Next c) (seg_next h c s)"
proof -
  have e: "\<not> engaged s" using b(2) by (simp add: at_def)
  obtain r s' where n: "start_next_msg h s = Some (r, s')" "base s'" "curr_ok s'" "si_state s' = SI_NORMAL" "irq s' = irq s"
     "if r = Next_started then fresh (si_sm s') else curr_msg s' = None \<and> (r = Next_idle \<longrightarrow> si_sm s' = si_sm s)"
     "ptrs (queued s) = ptrs (queued s') + ptrs (next_msgs r)"
    using start_next_msg_ok [OF b(1) e] unfolding next_ok_def by blast
  show ?thesis
    using n b(2) fresh_busy by (cases r; cases c) (auto simp: seg_ok_def seg_next_def at_def unlocked_def engaged_def)
qed

lemma seg_req_events_ok:
  assumes b: "base s" "curr_ok s" "at s (Req_events ret)" and a: "alloc_ok (env_alloc env)"
  shows "seg_ok s (Req_events ret) (seg_req_events h env ret s)"
proof -
  have e: "\<not> engaged s" "ready (si_sm s)" using b(3) by (auto simp: at_def)
  then have c: "curr_msg s = None" by (simp add: engaged_def)
  have plain: "seg_ok s (Req_events ret) (Some (s1, smi_return SI_SM_IDLE ret, []))"
    if "s1 = s \<or> s1 = s\<lparr>req_events := False\<rparr>" for s1
    using that b e at_return [of s1 SI_SM_IDLE ret] by (auto simp: seg_ok_def unlocked_def engaged_def curr_ok_def split: option.splits)
  show ?thesis
  proof (cases "req_events s \<and> env_alloc env \<noteq> None")
    case False
    have "s\<lparr>req_events := False, curr_msg := None\<rparr> = s\<lparr>req_events := False\<rparr>" using c by simp
    then show ?thesis using False plain by (auto simp: seg_req_events_def)
  next
    case True
    then obtain m where m: "env_alloc env = Some m" "req_events s" by auto
    let ?s = "s\<lparr>req_events := False\<rparr>"
    have mo: "msg_ok m" "\<not> is_upper (msg_ptr m)" "\<not> msg_tagged m" using a m by (auto simp: alloc_ok_def)
    obtain s' where "start_own h [APP_REQUEST, IPMI_READ_EVENT_MSG_BUFFER_CMD]
          (?s\<lparr>curr_msg := Some (set_request IPMI_READ_EVENT_MSG_BUFFER_CMD m)\<rparr>) = Some s'"
        "settled (s'\<lparr>si_state := SI_GETTING_EVENTS\<rparr>)" "irq s' = irq ?s" "ptrs (queued s') = add_mset (msg_ptr m) (ptrs (queued ?s))"
      by (rule fetch_own_ok [of ?s m SI_GETTING_EVENTS IPMI_READ_EVENT_MSG_BUFFER_CMD]) (use b e c mo in auto)
    then show ?thesis using m mo(2) fresh_busy by (auto simp: seg_ok_def seg_req_events_def at_def settled_def)
  qed
qed

lemma curr_ok_core: "same_core s s' \<Longrightarrow> curr_ok s \<Longrightarrow> curr_ok s'"
  by (auto simp: curr_ok_def same_core_def split: option.splits)

lemma seg_send_ok:
  assumes b: "base s" "curr_ok s" "at s (Send m p)" "\<not> stop_operation s"
  shows "seg_ok s (Send m p) (seg_send m p s)"
proof -
  have m: "msg_ok m" "is_upper (msg_ptr m)" "\<not> msg_tagged m" "msg_ok (m\<lparr>msg_tagged := True\<rparr>)"
    using b(3) by (auto simp: at_def msg_ok_def)
  obtain s' pc' where s': "seg_send m p s = Some (s', pc', [])" "base s'" "same_core s s'" "irq s' = irq s" "at s' pc'" "\<not> holds_si pc'"
      "ptrs (queued s') = add_mset (msg_ptr m) (ptrs (queued s))" "pc_msgs pc' = []"
    using b(1,4) m
    by (cases "run_to_completion s"; cases "p > 0")
       (auto simp: seg_send_def Let_def base_def queues_ok_def queued_def same_core_def at_def)
  then show ?thesis using curr_ok_core [OF s'(3) b(2)] by (simp add: seg_ok_def)
qed

text \<open>The one place where the driver goes wrong: \<open>sender\<close> on an interface that is being removed.\<close>

definition stop_at :: "'s smi_info \<Rightarrow> smi_pc \<Rightarrow> bool" where
  "stop_at s pc \<longleftrightarrow> stop_operation s \<and> (\<exists>m p. pc = Send m p)"

lemma stop_at_undefined: "stop_at s pc \<Longrightarrow> smi_seg h env s pc = None"
  by (auto simp: stop_at_def seg_send_def)

lemma smi_seg_ok:
  assumes b: "base s" "curr_ok s" "at s pc" "\<not> stop_at s pc" and w: "wants_si pc \<Longrightarrow> unlocked s"
    and a: "alloc_ok (env_alloc env)" "length (env_stack env) = 4"
  shows "seg_ok s pc (smi_seg h env s pc)"
proof (cases pc)
  case (Restart t ret)
  then show ?thesis using seg_event_ok [OF b(1,2), of pc] b(3) by (simp add: at_def)
next
  case (Send m p)
  then show ?thesis using seg_send_ok b by (simp add: stop_at_def)
next
  case (Relock cbs k)
  show ?thesis
  proof (cases cbs)
    case Nil
    then show ?thesis using Relock b w
      by (cases k rule: resume.cases) (auto simp: seg_ok_def at_def same_core_def unlocked_def)
  qed (use Relock b in \<open>simp add: seg_ok_def at_def same_core_def\<close>)
next
  case (Callback cb cbs k)
  then show ?thesis using b by (cases cb) (simp_all add: seg_ok_def at_def same_core_def)
next
  case Send_lock
  then show ?thesis using b by (simp add: seg_ok_def seg_send_lock_def at_def same_core_def engaged_def)
next
  case (Set_rtc x)
  then show ?thesis using b w by (simp add: seg_ok_def seg_set_rtc_def at_def same_core_def unlocked_def)
next
  case (Handler t ret)
  then show ?thesis using b w by (simp add: seg_ok_def at_def same_core_def unlocked_def)
qed (use b a seg_result_ok seg_after_ok seg_attn_ok seg_next_ok seg_req_events_ok in
     \<open>auto simp: seg_ok_def [of _ Smi_idle] same_core_def at_def [of _ Smi_idle]\<close>)

section \<open>The invariant of the threads\<close>

definition smi_inv :: "'s smi_sys \<Rightarrow> bool" where
  "smi_inv S \<longleftrightarrow>
     base (sys_smi S) \<and> curr_ok (sys_smi S) \<and>
     (\<forall>pc \<in> set (smi_pcs S). at (sys_smi S) pc) \<and> one_driver (smi_pcs S) \<and>
     (\<forall>t < length (smi_pcs S). \<forall>u < length (smi_pcs S). holds_si (smi_pcs S ! t) \<and> holds_si (smi_pcs S ! u) \<longrightarrow> t = u) \<and>
     ((\<forall>pc \<in> set (smi_pcs S). \<not> holds_si pc) \<longrightarrow> unlocked (sys_smi S)) \<and>
     smi_sent S + smi_alloced S =
       ptrs (queued (sys_smi S)) + ptrs (thread_msgs (smi_pcs S)) + smi_freed S + ptrs (smi_delivered S) \<and>
     (\<forall>p \<in># smi_sent S. is_upper p) \<and> (\<forall>p \<in># smi_alloced S + smi_freed S. \<not> is_upper p)"

text \<open>What other threads know stays true.\<close>

lemma at_other:
  assumes "at s pc" "same_core s s'"
  shows "at s' pc"
proof -
  have "engaged s' = engaged s" using assms(2) by (simp add: engaged_def same_core_def)
  then show ?thesis using assms by (cases pc) (simp_all add: at_def same_core_def)
qed

lemma at_free:
  assumes "at s pc" "\<not> holds_si pc" "drives pc \<Longrightarrow> engaged s' \<Longrightarrow> fresh (si_sm s')"
  shows "at s' pc"
  using assms
proof (cases pc)
  case (Callback cb cbs k)
  then show ?thesis using assms by (cases k) (auto simp: at_def)
next
  case (Relock cbs k)
  then show ?thesis using assms by (cases k) (auto simp: at_def)
qed (auto simp: at_def)

lemma holder_drives: "holds_si pc \<Longrightarrow> pc \<noteq> Next By_sender \<Longrightarrow> drives pc"
  by (cases pc) auto

text \<open>A thread takes a segment: its own place, the places of the others, and the free lock.\<close>

lemma smi_run_places:
  assumes i: "smi_inv S" and t: "t < length (smi_pcs S)" and f: "locks_free (smi_pcs S) (smi_pcs S ! t)"
    and k: "at s' pc'" "holds_si (smi_pcs S ! t) \<and> \<not> holds_si pc' \<longrightarrow> unlocked s'"
      "\<not> holds_si (smi_pcs S ! t) \<longrightarrow> same_core (sys_smi S) s'"
      "smi_pcs S ! t = Next By_sender \<longrightarrow> engaged s' \<longrightarrow> fresh (si_sm s')"
    and h': "holds_si pc' \<longrightarrow> holds_si (smi_pcs S ! t) \<or> wants_si (smi_pcs S ! t)"
  shows "(\<forall>pc \<in> set ((smi_pcs S)[t := pc']). at s' pc) \<and>
    (\<forall>u < length (smi_pcs S). \<forall>v < length (smi_pcs S). holds_si ((smi_pcs S)[t := pc'] ! u) \<and> holds_si ((smi_pcs S)[t := pc'] ! v) \<longrightarrow> u = v) \<and>
    ((\<forall>pc \<in> set ((smi_pcs S)[t := pc']). \<not> holds_si pc) \<longrightarrow> unlocked s')"
proof -
  let ?pcs = "smi_pcs S" and ?s = "sys_smi S"
  have at: "at ?s (?pcs ! u)" if "u < length ?pcs" for u using i that by (simp add: smi_inv_def)
  have one: "u = v" if "u < length ?pcs" "v < length ?pcs" "holds_si (?pcs ! u)" "holds_si (?pcs ! v)" for u v
    using i that by (auto simp: smi_inv_def)
  have drv: "u = v" if "u < length ?pcs" "v < length ?pcs" "drives (?pcs ! u)" "drives (?pcs ! v)" for u v
    using i that by (auto simp: smi_inv_def one_driver_def)
  have free: "\<not> holds_si (?pcs ! u)" if "u < length ?pcs" "wants_si (?pcs ! t)" for u
    using f that by (simp add: locks_free_def)
  have other: "at s' (?pcs ! u)" if u: "u < length ?pcs" "u \<noteq> t" for u
  proof (cases "holds_si (?pcs ! t)")
    case True
    show ?thesis
    proof (rule at_free [OF at [OF u(1)]])
      show "\<not> holds_si (?pcs ! u)" using one [OF u(1) t _ True] u(2) by blast
      show "fresh (si_sm s')" if "drives (?pcs ! u)" "engaged s'"
        using that drv [OF u(1) t] u(2) holder_drives [OF True] k(4) by blast
    qed
  qed (use at_other at [OF u(1)] k(3) in blast)
  have "\<forall>pc \<in> set (?pcs[t := pc']). at s' pc" using other k(1) t by (auto simp: in_set_conv_nth nth_list_update)
  moreover have "u = v" if "u < length ?pcs" "v < length ?pcs" "holds_si (?pcs[t := pc'] ! u)" "holds_si (?pcs[t := pc'] ! v)" for u v
    using one [of u v] one [of t v] one [of u t] free that h' t by (auto simp: nth_list_update split: if_splits)
  moreover have "unlocked s'" if n: "\<forall>pc \<in> set (?pcs[t := pc']). \<not> holds_si pc"
  proof (cases "holds_si (?pcs ! t)")
    case True
    then show ?thesis using k(2) n t by (simp add: set_update_memI)
  next
    case False
    have "\<not> holds_si (?pcs ! u)" if "u < length ?pcs" for u
      using n that False t by (metis length_list_update nth_list_update_neq nth_mem)
    then have "unlocked ?s" using i by (auto simp: smi_inv_def in_set_conv_nth)
    then show ?thesis using k(3) False by (simp add: unlocked_def same_core_def engaged_def)
  qed
  ultimately show ?thesis by simp
qed

lemma seg_takes_lock:
  assumes "smi_seg h env s pc = Some (s', pc', effs)" "holds_si pc'"
  shows "holds_si pc \<or> wants_si pc"
  using assms
  by (cases pc) (auto simp: seg_send_def Let_def split: if_splits)

lemma balance_step:
  fixes Q :: "'a multiset"
  assumes "A = Q + T + F + D" "Q + P + al = Q' + P' + fr + de" "T' + P = T + P'"
  shows "A + al = Q' + T' + (F + fr) + (D + de)"
proof (rule multiset_eqI)
  fix x
  show "count (A + al) x = count (Q' + T' + (F + fr) + (D + de)) x"
    using assms [THEN arg_cong, of "\<lambda>M. count M x"] by simp
qed

lemma one_driver_update: "one_driver pcs \<Longrightarrow> \<not> drives pc \<Longrightarrow> one_driver (pcs[t := pc])"
  by (cases "t < length pcs") (auto simp: one_driver_def nth_list_update list_update_beyond split: if_splits)

text \<open>An idle thread enters an operation.\<close>

lemma smi_start_op:
  assumes i: "smi_inv S" and t: "t < length (smi_pcs S)" "smi_pcs S ! t = Smi_idle"
    and p: "at (sys_smi S) pc" "\<not> holds_si pc" "one_driver ((smi_pcs S)[t := pc])" "\<forall>m \<in> set (pc_msgs pc). is_upper (msg_ptr m)"
  shows "smi_inv (S\<lparr>smi_pcs := (smi_pcs S)[t := pc], smi_sent := smi_sent S + ptrs (pc_msgs pc)\<rparr>)"
proof -
  have "locks_free (smi_pcs S) (smi_pcs S ! t)" using t by (simp add: locks_free_def)
  note places = smi_run_places [OF i t(1) this, of "sys_smi S" pc]
  have "ptrs (thread_msgs ((smi_pcs S)[t := pc])) = ptrs (thread_msgs (smi_pcs S)) + ptrs (pc_msgs pc)"
    using thread_msgs_update [OF t(1), of pc] t(2) by simp
  moreover have "\<forall>p \<in># ptrs (pc_msgs pc). is_upper p" using p(4) by (auto simp: ptrs_def)
  ultimately show ?thesis using i p(1-3) places t(2) by (auto simp: smi_inv_def same_core_def ac_simps)
qed

text \<open>A change that no transaction depends on.\<close>

lemma smi_inv_core:
  assumes "smi_inv S" "same_core (sys_smi S) s" "base s" "queued s = queued (sys_smi S)"
  shows "smi_inv (S\<lparr>sys_smi := s\<rparr>)"
  using assms at_other curr_ok_core by (auto simp: smi_inv_def unlocked_def engaged_def same_core_def)

lemma smi_step_inv:
  assumes "smi_step h False mem S S'" "smi_inv S"
  shows "smi_inv S'"
  using assms
proof (induction rule: smi_step.induct)
  case (run t S env s' pc' effs)
  let ?pc = "smi_pcs S ! t" and ?s = "sys_smi S"
  have i: "base ?s" "curr_ok ?s" "at ?s ?pc" "\<not> stop_at ?s ?pc"
    using run(1,6) stop_at_undefined [of ?s ?pc env] run(4) by (auto simp: smi_inv_def)
  have w: "unlocked ?s" if "wants_si ?pc" using that run(2,6) by (simp add: locks_free_def smi_inv_def)
  have a: "alloc_ok (env_alloc env)" "length (env_stack env) = 4" using run(3) by (auto simp: env_ok_def alloc_ok_def split: option.splits)
  have "seg_ok ?s ?pc (Some (s', pc', effs))" using smi_seg_ok [OF i w a] run(4) by simp
  then have k: "base s'" "curr_ok s'" "irq s' = irq ?s" "at s' pc'" "holds_si ?pc \<and> \<not> holds_si pc' \<longrightarrow> unlocked s'"
      "\<not> holds_si ?pc \<longrightarrow> same_core ?s s'" "?pc = Next By_sender \<longrightarrow> engaged s' \<longrightarrow> fresh (si_sm s')"
      "ptrs (queued ?s) + ptrs (pc_msgs ?pc) + alloced effs = ptrs (queued s') + ptrs (pc_msgs pc') + freed effs + ptrs (delivered effs)"
      "\<forall>p \<in># freed effs + alloced effs. \<not> is_upper p"
    unfolding seg_ok_def by simp_all
  have h': "holds_si pc' \<longrightarrow> holds_si ?pc \<or> wants_si ?pc" using seg_takes_lock [OF run(4)] by blast
  note places = smi_run_places [OF run(6,1,2) k(4-7) h']
  have "smi_sent S + smi_alloced S =
       ptrs (queued ?s) + ptrs (thread_msgs (smi_pcs S)) + smi_freed S + ptrs (smi_delivered S)"
    using run(6) by (simp add: smi_inv_def)
  from balance_step [OF this k(8) thread_msgs_update [OF run(1)]]
  show ?case using run(5,6) k(1-3,9) places
    by (simp add: smi_inv_def alloced_def [symmetric] freed_def [symmetric] delivered_def [symmetric] ac_simps) blast
next
  case (send t S m p)
  have "one_driver (smi_pcs S)" using send(6) by (simp add: smi_inv_def)
  then show ?case using send(3-5) smi_start_op [OF send(6,1,2), of "Send m p"] one_driver_update [of _ "Send m p" t] by (simp add: at_def)
next
  case (drive t S time)
  then show ?case using smi_start_op [OF drive(4,1,2), of "Handler time Once"] by (simp add: at_def)
next
  case (rtc t S b)
  have "one_driver (smi_pcs S)" using rtc(3) by (simp add: smi_inv_def)
  then show ?case using smi_start_op [OF rtc(3,1,2), of "Set_rtc b"] one_driver_update [of _ "Set_rtc b" t] by (simp add: at_def)
next
  case (request S)
  then show ?case by (intro smi_inv_core) (auto simp: request_events_def same_core_def smi_inv_def)
next
  case (maintenance S b)
  then show ?case by (intro smi_inv_core) (auto simp: set_maintenance_mode_def same_core_def smi_inv_def)
next
  case (notify S)
  then show ?case
    by (intro smi_inv_core) (auto simp: register_xaction_notifier_def same_core_def smi_inv_def base_def queues_ok_def queued_def)
next
  case (stop S)
  then show ?case by (intro smi_inv_core) (auto simp: stop_smi_def same_core_def smi_inv_def queued_def)
qed

lemma smi_reach_inv: "smi_reach h False mem S S' \<Longrightarrow> smi_inv S \<Longrightarrow> smi_inv S'"
  unfolding smi_reach_def by (induction rule: rtranclp_induct) (auto intro: smi_step_inv)

section \<open>Bringing up the interface\<close>

lemma dev_id_events_ready:
  assumes "dev_id_events h clk n r s = Some x" "inv s" "r = SI_SM_IDLE \<or> r = SI_SM_ATTN \<or> r = SI_SM_TRANSACTION_COMPLETE \<or> r = SI_SM_HOSED \<longrightarrow> ready s"
  shows "inv (snd x) \<and> ready (snd x)"
proof -
  let ?P = "\<lambda>r s x. inv s \<longrightarrow>
    (r = SI_SM_IDLE \<or> r = SI_SM_ATTN \<or> r = SI_SM_TRANSACTION_COMPLETE \<or> r = SI_SM_HOSED \<longrightarrow> ready s) \<longrightarrow> inv (snd x) \<and> ready (snd x)"
  have "?P r s x"
  proof (rule dev_id_events.raw_induct [OF _ assms(1), where P = "\<lambda>h' clk n r s x. h' = h \<longrightarrow> ?P r s x", THEN mp, OF _ refl], goal_cases)
    case (1 f h' clk n r s x)
    have nxt: "?P r s x" if i: "inv s" and e: "event h s t j = Some y" and f: "f h clk (Suc n) (fst y) (snd y) = Some x" and "h' = h" for t j y
    proof -
      have e': "event h s t j = Some (fst y, snd y)" using e by simp
      have "inv (snd y)" by (rule event_inv [OF i any_device e'])
      then show ?thesis using 1(1) [rule_format, OF f] event_idle [OF i e'] event_done [OF i e'] \<open>h' = h\<close> by auto
    qed
    show ?case using 1(2) nxt by (cases r) (auto simp: bind_eq_Some_conv)
  qed
  then show ?thesis using assms(2,3) by blast
qed

lemma try_get_dev_id_ready:
  assumes g: "try_get_dev_id h clk (Some resp) s = Some (0, did, s')" and i: "inv s" "ready s"
  shows "inv s' \<and> ready s'"
proof -
  obtain c s1 r s2 x n buf where st: "start_transaction h s [APP_REQUEST, IPMI_GET_DEVICE_ID_CMD] = Some (c, s1)"
      and ev: "event h s1 0 (clk 0) = Some (r, s2)" and lp: "dev_id_events h clk 1 r s2 = Some x"
      and res: "get_result h (snd x) resp = Some (n, buf, s')"
    using g by (auto simp: try_get_dev_id_def bind_eq_Some_conv split: if_splits)
  have i1: "inv s1" by (rule start_inv [OF i(1) st])
  have i2: "inv s2" by (rule event_inv [OF i1 any_device ev])
  have "inv (snd x) \<and> ready (snd x)"
    using dev_id_events_ready [OF lp i2] event_idle [OF i1 ev] event_done [OF i1 ev] by blast
  then show ?thesis using result_keeps [OF _ res] result_inv [OF _ res] by blast
qed

lemma smi_init_settled:
  assumes "smi_init h bt has_irq did sm = Some smi" "inv sm" "ready sm"
  shows "settled smi \<and> irq smi = has_irq \<and> queued smi = []"
proof -
  let ?s = "\<lparr>si_sm = sm, xmit_msgs = [], hp_xmit_msgs = [], curr_msg = None, si_state = SI_NORMAL,
       msg_flags = 0, oem_data_avail_handler = setup_oem_data_handler did,
       xaction_notifier = (manufacturer_id did = 0x2a2 \<and> bt), req_events = False, run_to_completion = False,
       irq = has_irq, interrupt_disabled = False, stop_operation = False, pendingRequests = 0,
       idles = 0, attentions = 0, hosed_count = 0, complete_transactions = 0, events = 0, watchdog_pretimeouts = 0,
       incoming_messages = 0\<rparr> :: 's smi_info"
  have b: "base ?s" using assms(2) by (simp add: base_def queues_ok_def queued_def)
  obtain sm' where "start_clear_flags h ?s = Some (?s\<lparr>si_sm := sm', si_state := SI_CLEARING_FLAGS\<rparr>)"
      "settled (?s\<lparr>si_sm := sm', si_state := SI_CLEARING_FLAGS\<rparr>)"
    using start_clear_flags_ok [OF b] assms(3) by auto
  then show ?thesis using assms(1)
    by (cases has_irq) (auto simp: smi_init_def queued_def settled_def curr_ok_def engaged_def base_def queues_ok_def)
qed

lemma smi_start_inv:
  assumes "settled smi" "queued smi = []"
  shows "smi_inv (smi_start smi n)"
proof -
  have "at smi Smi_idle" by (simp add: at_def)
  moreover have "thread_msgs (replicate n Smi_idle) = []" by (simp add: thread_msgs_def)
  ultimately show ?thesis using assms settled_unlocked [OF assms(1)]
    by (auto simp: smi_inv_def smi_start_def settled_def one_driver_def)
qed

lemma try_smi_init_inv:
  assumes "try_smi_init h bt has_irq clk (Some resp) sm = Some (Inr smi)" "raw sm"
  shows "smi_inv (smi_start smi n)"
proof -
  have d: "inv (snd (detect h (init_data h sm)))" "ready (snd (detect h (init_data h sm)))"
    using detect_keeps [OF init_inv [OF assms(2)]] init_ready by auto
  obtain did sm2 where g: "try_get_dev_id h clk (Some resp) (snd (detect h (init_data h sm))) = Some (0, Some did, sm2)"
      "smi_init h bt has_irq did sm2 = Some smi"
    using assms(1) by (auto simp: try_smi_init_def bind_eq_Some_conv split: if_splits prod.splits)
  show ?thesis
    using smi_init_settled [OF g(2)] try_get_dev_id_ready [OF g(1) d] smi_start_inv by blast
qed

text \<open>What the invariant says of the messages of the upper layer.\<close>

lemma smi_inv_conserves:
  assumes "smi_inv S"
  shows "smi_sent S = filter_mset is_upper (ptrs (queued (sys_smi S) @ thread_msgs (smi_pcs S) @ smi_delivered S)) \<and>
    (\<forall>p \<in># smi_freed S. \<not> is_upper p) \<and>
    tags (queued (sys_smi S)) \<le> pendingRequests (sys_smi S) \<and>
    (xaction_notifier (sys_smi S) \<or> pendingRequests (sys_smi S) = tags (queued (sys_smi S)))"
proof -
  have e: "smi_sent S + smi_alloced S = ptrs (queued (sys_smi S)) + ptrs (thread_msgs (smi_pcs S)) + smi_freed S + ptrs (smi_delivered S)"
    and f: "\<forall>p \<in># smi_sent S. is_upper p" "\<forall>p \<in># smi_alloced S + smi_freed S. \<not> is_upper p" and b: "base (sys_smi S)"
    using assms by (simp_all add: smi_inv_def)
  have z: "filter_mset is_upper (smi_sent S) = smi_sent S" "filter_mset is_upper (smi_alloced S) = {#}"
      "filter_mset is_upper (smi_freed S) = {#}"
    using f filter_mset_cong [OF refl, of "smi_alloced S" is_upper "\<lambda>_. False"]
      filter_mset_cong [OF refl, of "smi_freed S" is_upper "\<lambda>_. False"] by (auto simp: filter_mset_eq_conv)
  have "smi_sent S = filter_mset is_upper (ptrs (queued (sys_smi S) @ thread_msgs (smi_pcs S) @ smi_delivered S))"
    using arg_cong [OF e, of "filter_mset is_upper"] by (simp only: filter_union_mset ptrs_simps z add.assoc add_0_right add_0_left)
  moreover have "\<forall>p \<in># smi_freed S. \<not> is_upper p" using f(2) by simp
  moreover have "tags (queued (sys_smi S)) \<le> pendingRequests (sys_smi S)"
      "xaction_notifier (sys_smi S) \<or> pendingRequests (sys_smi S) = tags (queued (sys_smi S))" using b by (simp_all add: base_def)
  ultimately show ?thesis by (intro conjI)
qed

lemma smi_inv_defined:
  assumes i: "smi_inv S" and t: "t < length (smi_pcs S)" "locks_free (smi_pcs S) (smi_pcs S ! t)" and e: "env_ok mem env"
  shows "smi_seg h env (sys_smi S) (smi_pcs S ! t) = None \<longleftrightarrow> stop_at (sys_smi S) (smi_pcs S ! t)"
proof (cases "stop_at (sys_smi S) (smi_pcs S ! t)")
  case True
  then show ?thesis using stop_at_undefined by blast
next
  case False
  have "base (sys_smi S)" "curr_ok (sys_smi S)" "at (sys_smi S) (smi_pcs S ! t)" using i t(1) by (auto simp: smi_inv_def)
  moreover have "unlocked (sys_smi S)" if "wants_si (smi_pcs S ! t)" using that t(2) i by (simp add: locks_free_def smi_inv_def)
  ultimately have "seg_ok (sys_smi S) (smi_pcs S ! t) (smi_seg h env (sys_smi S) (smi_pcs S ! t))"
    using e False by (intro smi_seg_ok) (auto simp: env_ok_def alloc_ok_def split: option.splits)
  then show ?thesis using False by (auto simp: seg_ok_def)
qed

end

section \<open>The machines\<close>

definition kcs_ready :: "'d kcs_data \<Rightarrow> bool" where
  "kcs_ready k \<longleftrightarrow> kcs_state k = KCS_IDLE \<or> kcs_state k = KCS_HOSED"

definition kcs_fresh :: "'d kcs_data \<Rightarrow> bool" where
  "kcs_fresh k \<longleftrightarrow> kcs_state k = KCS_START_OP \<and> kcs_error_retries k = 0"

lemma kcs_recovery_state [simp]:
  "kcs_state (kcs_start_error_recovery j k) = (if kcs_error_retries k + 1 > MAX_ERROR_RETRIES then KCS_HOSED else KCS_ERROR0)"
  by (simp add: kcs_start_error_recovery_def Let_def)

lemma kcs_check_ibf_state:
  "kcs_check_ibf st t j k = (ok, k') \<Longrightarrow> kcs_state k' = kcs_state k \<or> ok \<and> (kcs_state k' = KCS_ERROR0 \<or> kcs_state k' = KCS_HOSED)"
  by (auto simp: kcs_check_ibf_def Let_def split: if_splits)

lemma kcs_check_obf_state:
  "kcs_check_obf st t j k = (ok, k') \<Longrightarrow> kcs_state k' = kcs_state k \<or> ok \<and> (kcs_state k' = KCS_ERROR0 \<or> kcs_state k' = KCS_HOSED)"
  by (auto simp: kcs_check_obf_def Let_def split: if_splits)

lemma kcs_byte_state:
  "kcs_write_next_byte io k = Some k' \<Longrightarrow> kcs_state k' = kcs_state k"
  "kcs_read_next_byte io k = Some k' \<Longrightarrow> kcs_state k' = kcs_state k"
  by (auto simp: kcs_write_next_byte_def kcs_read_next_byte_def kcs_io_eqs bind_eq_Some_conv split: if_splits)

lemmas kcs_ev_defs = kcs_ev_idle_def kcs_ev_start_op_def kcs_ev_wait_write_start_def kcs_ev_wait_write_def kcs_ev_wait_write_end_def
  kcs_ev_wait_read_def kcs_ev_error0_def kcs_ev_error1_def kcs_ev_error2_def kcs_ev_error3_def restart_kcs_transaction_def

text \<open>Which state the switch leaves the machine in.\<close>

definition kcs_left :: "kcs_states \<Rightarrow> si_sm_result option \<Rightarrow> kcs_states \<Rightarrow> bool" where
  "kcs_left st r st' \<longleftrightarrow>
     (case r of
        None \<Rightarrow> st' \<noteq> KCS_IDLE
      | Some res \<Rightarrow>
          if res = SI_SM_IDLE \<or> res = SI_SM_ATTN then st = KCS_IDLE \<and> st' = KCS_IDLE
          else if res = SI_SM_TRANSACTION_COMPLETE then st' = KCS_IDLE
          else res \<noteq> SI_SM_HOSED \<and> st' \<noteq> KCS_IDLE \<and> st' \<noteq> KCS_HOSED)"

lemma kcs_ev_switch_state:
  assumes "kcs_ev_switch io st t j k = Some (r, k')"
  shows "kcs_left (kcs_state k) r (kcs_state k')"
  using assms
  by (cases "kcs_state k")
     (auto simp: kcs_left_def kcs_ev_switch_def kcs_ev_defs kcs_io_eqs Let_def bind_eq_Some_conv split: if_splits prod.splits
       dest!: kcs_byte_state kcs_check_obf_state)

lemma kcs_event_states:
  assumes "kcs_event io k t j = Some (r, k')"
  shows "(r = SI_SM_IDLE \<or> r = SI_SM_ATTN \<longrightarrow> kcs_ready k \<and> kcs_ready k') \<and>
    (r = SI_SM_TRANSACTION_COMPLETE \<or> r = SI_SM_HOSED \<longrightarrow> kcs_ready k') \<and>
    (r \<noteq> SI_SM_TRANSACTION_COMPLETE \<and> r \<noteq> SI_SM_HOSED \<and> \<not> kcs_ready k \<longrightarrow> \<not> kcs_ready k')"
proof -
  obtain st k0 ok k1 where st: "kcs_read_status io k = (st, k0)" and ibf: "kcs_check_ibf st t j k0 = (ok, k1)" by fastforce
  have k0: "kcs_state k0 = kcs_state k" using st by (auto simp: kcs_read_status_eq)
  note i = kcs_check_ibf_state [OF ibf]
  show ?thesis
  proof (cases ok)
    case True
    then obtain x k2 where sw: "kcs_ev_switch io st t j k1 = Some (x, k2)"
      using assms st ibf by (auto simp: kcs_event_def bind_eq_Some_conv)
    then show ?thesis using assms st ibf True i k0 kcs_ev_switch_state [OF sw]
      by (cases x) (auto simp: kcs_event_def kcs_left_def kcs_ready_def init_kcs_data_def split: if_splits)
  qed (use assms st ibf i k0 in \<open>auto simp: kcs_event_def kcs_ready_def\<close>)
qed

lemma kcs_event_fresh:
  assumes "kcs_event io k t j = Some (r, k')" "kcs_fresh k"
  shows "r \<noteq> SI_SM_TRANSACTION_COMPLETE \<and> r \<noteq> SI_SM_HOSED"
proof -
  obtain st k0 ok k1 where st: "kcs_read_status io k = (st, k0)" and ibf: "kcs_check_ibf st t j k0 = (ok, k1)" by fastforce
  have k0: "kcs_state k0 = KCS_START_OP" "kcs_error_retries k0 = 0" using st assms(2) by (auto simp: kcs_read_status_eq kcs_fresh_def)
  have "kcs_state k1 = KCS_ERROR0 \<or> kcs_state k1 = KCS_START_OP \<and> kcs_error_retries k1 = 0"
    using ibf k0 by (auto simp: kcs_check_ibf_def Let_def split: if_splits)
  then show ?thesis using assms(1) st ibf
    by (auto simp: kcs_event_def kcs_ev_switch_def kcs_ev_defs kcs_io_eqs bind_eq_Some_conv split: if_splits option.splits prod.splits)
qed

lemma start_kcs_transaction_ready:
  assumes "start_kcs_transaction k data = Some (c, k')"
  shows "(c = 0 \<longrightarrow> kcs_fresh k') \<and> (c \<noteq> 0 \<longrightarrow> k' = k) \<and> (kcs_ready k \<and> 2 \<le> length data \<and> length data \<le> MAX_KCS_WRITE_SIZE \<longrightarrow> c = 0)"
  using assms by (auto simp: start_kcs_transaction_def Let_def kcs_fresh_def kcs_ready_def bind_eq_Some_conv split: if_splits)

lemma si_copy_result_length: "si_copy_result rd pos tr data = Some (p, d) \<Longrightarrow> length d = length data"
  by (auto simp: si_copy_result_def Let_def bind_eq_Some_conv dest!: blit_length buf_set_length split: if_splits)

lemma kcs_handler_simps:
  "start_transaction (kcs_smi_handlers io) = start_kcs_transaction" "event (kcs_smi_handlers io) = kcs_event io"
  "get_result (kcs_smi_handlers io) = get_kcs_result" "init_data (kcs_smi_handlers io) = init_kcs_data"
  "detect (kcs_smi_handlers io) = kcs_detect io"
  by (simp_all add: kcs_smi_handlers_def)

interpretation kcs_driver: si_sm_driver "kcs_smi_handlers io" kcs_raw kcs_inv "\<lambda>_. True" MAX_KCS_WRITE_SIZE kcs_ready kcs_fresh for io
proof (unfold_locales, unfold kcs_handler_simps, goal_cases)
  case (3 s data)
  then show ?case by (intro kcs.start_defined [unfolded kcs_handler_simps]) (simp_all add: kcs_size_defs)
next
  case 4 then show ?case using start_kcs_transaction_ready by blast
next
  case 5 then show ?case using start_kcs_transaction_ready by blast
next
  case 6 then show ?case using start_kcs_transaction_ready by blast
next
  case (9 s) then show ?case by (simp add: kcs_detect_def kcs_read_status_eq kcs_ready_def)
next
  case 10 then show ?case using kcs_event_states by blast
next
  case 11 then show ?case using kcs_event_states by blast
next
  case 12 then show ?case using kcs_event_states by blast
next
  case 13 then show ?case using kcs_event_fresh by blast
next
  case (14 s data n d s')
  then show ?case by (auto simp: get_kcs_result_def kcs_ready_def bind_eq_Some_conv dest: si_copy_result_length)
qed (simp_all add: kcs_size_defs kcs_fresh_def kcs_ready_def init_kcs_data_def)

definition smic_ready :: "'d smic_data \<Rightarrow> bool" where
  "smic_ready m \<longleftrightarrow> smic_state m = SMIC_IDLE"

definition smic_fresh :: "'d smic_data \<Rightarrow> bool" where
  "smic_fresh m \<longleftrightarrow> smic_state m = SMIC_START_OP"

lemma smic_recovery_state [simp]:
  "smic_state (smic_start_error_recovery m) = (if smic_error_retries m + 1 > SMIC_MAX_ERROR_RETRIES then SMIC_HOSED else SMIC_START_OP)"
  by (simp add: smic_start_error_recovery_def Let_def)

lemma smic_byte_state:
  "smic_write_next_byte io m = Some m' \<Longrightarrow> smic_state m' = smic_state m"
  "smic_read_next_byte io m = Some m' \<Longrightarrow> smic_state m' = smic_state m"
  by (auto simp: smic_write_next_byte_def smic_read_next_byte_def smic_io_eqs bind_eq_Some_conv split: if_splits)

lemmas smic_ev_defs = smic_ev_idle_def smic_ev_start_op_def smic_ev_op_ok_def smic_ev_write_def smic_ev_write_end_def
  smic_ev_write2read_def smic_ev_read_start_def smic_ev_read_next_def smic_ev_read_end_def smic_recover_def

lemma smic_ev_switch_state:
  assumes "smic_ev_switch io fl st m = Some (r, m')"
  shows "case r of
      None \<Rightarrow> smic_state m' \<noteq> SMIC_IDLE
    | Some res \<Rightarrow>
        if res = SI_SM_IDLE \<or> res = SI_SM_ATTN then smic_state m = SMIC_IDLE \<and> smic_state m' = SMIC_IDLE
        else if res = SI_SM_TRANSACTION_COMPLETE \<or> res = SI_SM_HOSED then smic_state m' = SMIC_IDLE \<and> smic_state m \<noteq> SMIC_START_OP
        else smic_state m' \<noteq> SMIC_IDLE"
  using assms
  by (cases "smic_state m")
     (auto simp: smic_ev_switch_def smic_ev_defs smic_io_eqs init_smic_data_def bind_eq_Some_conv split: if_splits dest!: smic_byte_state)

lemma smic_event_poll_states:
  assumes "smic_event_poll io m = Some (r, m')"
  shows "(r = SI_SM_IDLE \<or> r = SI_SM_ATTN \<longrightarrow> smic_ready m \<and> smic_ready m') \<and>
    (r = SI_SM_TRANSACTION_COMPLETE \<or> r = SI_SM_HOSED \<longrightarrow> smic_ready m' \<and> \<not> smic_fresh m) \<and>
    (r \<noteq> SI_SM_TRANSACTION_COMPLETE \<and> r \<noteq> SI_SM_HOSED \<and> \<not> smic_ready m \<longrightarrow> \<not> smic_ready m')"
proof -
  obtain fl m1 st m2 where fl: "read_smic_flags io m = (fl, m1)" and st: "read_smic_status io m1 = (st, m2)" by fastforce
  have eq: "smic_state m1 = smic_state m" "smic_state m2 = smic_state m" using fl st by (auto simp: smic_io_eqs)
  show ?thesis
  proof (cases "flag fl SMIC_FLAG_BSY")
    case False
    then obtain x m3 where sw: "smic_ev_switch io fl st m2 = Some (x, m3)"
      using assms fl st by (auto simp: smic_event_poll_def bind_eq_Some_conv)
    then show ?thesis using assms fl st False eq smic_ev_switch_state [OF sw]
      by (cases x) (auto simp: smic_event_poll_def smic_ready_def smic_fresh_def split: if_splits)
  qed (use assms fl eq in \<open>auto simp: smic_event_poll_def smic_ready_def\<close>)
qed

lemma smic_event_states:
  assumes "smic_event io m t j = Some (r, m')"
  shows "(r = SI_SM_IDLE \<or> r = SI_SM_ATTN \<longrightarrow> smic_ready m \<and> smic_ready m') \<and>
    (r = SI_SM_TRANSACTION_COMPLETE \<or> r = SI_SM_HOSED \<longrightarrow> smic_ready m' \<and> \<not> smic_fresh m) \<and>
    (r \<noteq> SI_SM_TRANSACTION_COMPLETE \<and> r \<noteq> SI_SM_HOSED \<and> \<not> smic_ready m \<longrightarrow> \<not> smic_ready m')"
proof -
  have "smic_ready (m\<lparr>smic_timeout := x\<rparr>) = smic_ready m" "smic_fresh (m\<lparr>smic_timeout := x\<rparr>) = smic_fresh m" for x
    by (simp_all add: smic_ready_def smic_fresh_def)
  then show ?thesis using assms smic_event_poll_states [of io m r m'] smic_event_poll_states [of io "m\<lparr>smic_timeout := smic_timeout m - t\<rparr>" r m']
    by (auto simp: smic_event_def Let_def init_smic_data_def smic_ready_def smic_fresh_def split: if_splits)
qed

lemma start_smic_transaction_ready:
  assumes "start_smic_transaction m data = Some (c, m')"
  shows "(c = 0 \<longrightarrow> smic_fresh m') \<and> (c \<noteq> 0 \<longrightarrow> m' = m) \<and> (smic_ready m \<and> 2 \<le> length data \<and> length data \<le> MAX_SMIC_WRITE_SIZE \<longrightarrow> c = 0)"
  using assms by (auto simp: start_smic_transaction_def Let_def smic_fresh_def smic_ready_def bind_eq_Some_conv split: if_splits)

lemma smic_handler_simps:
  "start_transaction (smic_smi_handlers io) = start_smic_transaction" "event (smic_smi_handlers io) = smic_event io"
  "get_result (smic_smi_handlers io) = smic_get_result" "init_data (smic_smi_handlers io) = init_smic_data"
  "detect (smic_smi_handlers io) = smic_detect io"
  by (simp_all add: smic_smi_handlers_def)

interpretation smic_driver: si_sm_driver "smic_smi_handlers io" smic_raw smic_inv "\<lambda>_. True" MAX_SMIC_WRITE_SIZE smic_ready smic_fresh for io
proof (unfold_locales, unfold smic_handler_simps, goal_cases)
  case (3 s data)
  then show ?case by (auto simp: start_smic_transaction_def Let_def smic_inv_defs buf_simps)
next
  case 4 then show ?case using start_smic_transaction_ready by blast
next
  case 5 then show ?case using start_smic_transaction_ready by blast
next
  case 6 then show ?case using start_smic_transaction_ready by blast
next
  case (9 s) then show ?case by (simp add: smic_detect_def smic_io_eqs smic_ready_def)
next
  case 10 then show ?case using smic_event_states by blast
next
  case 11 then show ?case using smic_event_states by blast
next
  case 12 then show ?case using smic_event_states by blast
next
  case 13 then show ?case using smic_event_states by blast
next
  case (14 s data n d s')
  then show ?case by (auto simp: smic_get_result_def smic_ready_def bind_eq_Some_conv dest: si_copy_result_length)
qed (simp_all add: smic_size_defs smic_fresh_def smic_ready_def init_smic_data_def)

end
