(* ===== verification/Ipmi_Kcs_Protocol.thy ===== *)
theory Ipmi_Kcs_Protocol
  imports Ipmi_Kcs
begin

text \<open>
  The KCS machine against a BMC that follows the protocol: a whole transaction, from the request
  in the write buffer to the response in the caller's buffer.

  The BMC is the concrete device \<open>kcs_bmc\<close>. It is idle until the WRITE\_START command, in write
  state until one byte has followed the WRITE\_END command, then in read state with its output
  buffer full while response bytes are left, and idle again. Its state is the log of what the
  host wrote and the response bytes not yet read.
\<close>

section \<open>A BMC that follows the KCS protocol\<close>

definition kcs_bmc_status :: "io_log \<Rightarrow> u8 list \<Rightarrow> u8" where
  "kcs_bmc_status l rs =
     (if l = [] then 0
      else if (1, KCS_WRITE_END) \<in> set (butlast l) then (if rs = [] then 0 else 0x41)
      else 0x80)"

definition kcs_bmc :: "(io_log \<times> u8 list) si_sm_io" where
  "kcs_bmc = \<lparr>
     inputb = (\<lambda>(l, rs) off.
       if off = 1 then (kcs_bmc_status l rs, (l, rs))
       else if (1, KCS_WRITE_END) \<in> set (butlast l) \<and> rs \<noteq> [] then (hd rs, (l, tl rs))
       else (0, (l, rs))),
     outputb = (\<lambda>(l, rs) off b. (l @ [(off, b)], rs))\<rparr>"

lemma kcs_bmc_simps [simp]:
  "inputb kcs_bmc (l, rs) (Suc 0) = (kcs_bmc_status l rs, (l, rs))"
  "inputb kcs_bmc (l, rs) 0 =
     (if (1, KCS_WRITE_END) \<in> set (butlast l) \<and> rs \<noteq> [] then (hd rs, (l, tl rs)) else (0, (l, rs)))"
  "outputb kcs_bmc (l, rs) off b = (l @ [(off, b)], rs)"
  by (simp_all add: kcs_bmc_def)

lemma kcs_status_bits [simp]:
  "\<not> GET_STATUS_IBF 0" "\<not> GET_STATUS_OBF 0" "GET_STATUS_STATE 0 = 0"
  "\<not> GET_STATUS_IBF 0x80" "\<not> GET_STATUS_OBF 0x80" "GET_STATUS_STATE 0x80 = 2"
  "\<not> GET_STATUS_IBF 0x41" "GET_STATUS_OBF 0x41" "GET_STATUS_STATE 0x41 = 1"
  by (simp_all add: GET_STATUS_IBF_def GET_STATUS_OBF_def GET_STATUS_STATE_def flag_def)

section \<open>Sequences of events\<close>

text \<open>Events with the time that passed before each and the clock at each.\<close>

fun kcs_events :: "'d si_sm_io \<Rightarrow> (int \<times> u64) list \<Rightarrow> 'd kcs_data \<Rightarrow>
    (si_sm_result list \<times> 'd kcs_data) option" where
  "kcs_events io [] k = Some ([], k)"
| "kcs_events io ((t, j) # evs) k = do {
     (r, k1) \<leftarrow> kcs_event io k t j;
     (rs, k2) \<leftarrow> kcs_events io evs k1;
     Some (r # rs, k2) }"

lemma kcs_events_append:
  "kcs_events io (xs @ ys) k = do {
     (r1, k1) \<leftarrow> kcs_events io xs k; (r2, k2) \<leftarrow> kcs_events io ys k1; Some (r1 @ r2, k2) }"
  by (induction xs arbitrary: k) (auto split: option.splits simp: Option.bind_eq_Some_conv bind_assoc split_def)

section \<open>Single events\<close>

lemma kcs_event_start:
  assumes "kcs_state k = KCS_START_OP" "kcs_dev k = ([], rs)"
  shows "kcs_event kcs_bmc k t j = Some (SI_SM_CALL_WITHOUT_DELAY,
    k\<lparr>kcs_ibf_timeout := IBF_RETRY_TIMEOUT, kcs_dev := ([(1, KCS_WRITE_START)], rs),
      kcs_state := KCS_WAIT_WRITE_START\<rparr>)"
  using assms by (simp add: kcs_event_def kcs_io_eqs kcs_bmc_status_def kcs_check_ibf_def
      kcs_ev_switch_def kcs_ev_start_op_def)

lemma kcs_event_write:
  assumes "kcs_state k = KCS_WAIT_WRITE \<or> kcs_state k = KCS_WAIT_WRITE_START"
    and "kcs_dev k = (l, rs)" "l \<noteq> []" "(1, KCS_WRITE_END) \<notin> set l"
    and "kcs_write_count k \<noteq> 1" "0 \<le> kcs_write_pos k" "kcs_write_pos k < int (length (kcs_write_data k))"
  shows "kcs_event kcs_bmc k t j = Some (SI_SM_CALL_WITHOUT_DELAY,
    k\<lparr>kcs_ibf_timeout := IBF_RETRY_TIMEOUT,
      kcs_dev := (l @ [(0, kcs_write_data k ! nat (kcs_write_pos k))], rs),
      kcs_write_pos := kcs_write_pos k + 1, kcs_write_count := kcs_write_count k - 1,
      kcs_state := KCS_WAIT_WRITE\<rparr>)"
proof -
  have "(1, KCS_WRITE_END) \<notin> set (butlast l)" using assms(4) by (auto dest: in_set_butlastD)
  then show ?thesis
    using assms by (auto simp: kcs_event_def kcs_io_eqs kcs_bmc_status_def kcs_check_ibf_def
        kcs_ev_switch_def kcs_ev_wait_write_def kcs_ev_wait_write_start_def kcs_write_next_byte_def
        buf_simps Let_def)
qed

lemma kcs_event_write_end:
  assumes "kcs_state k = KCS_WAIT_WRITE" "kcs_dev k = (l, rs)" "l \<noteq> []"
    and "(1, KCS_WRITE_END) \<notin> set l" "kcs_write_count k = 1"
  shows "kcs_event kcs_bmc k t j = Some (SI_SM_CALL_WITHOUT_DELAY,
    k\<lparr>kcs_ibf_timeout := IBF_RETRY_TIMEOUT, kcs_dev := (l @ [(1, KCS_WRITE_END)], rs),
      kcs_state := KCS_WAIT_WRITE_END\<rparr>)"
proof -
  have "(1, KCS_WRITE_END) \<notin> set (butlast l)" using assms(4) by (auto dest: in_set_butlastD)
  then show ?thesis
    using assms by (auto simp: kcs_event_def kcs_io_eqs kcs_bmc_status_def kcs_check_ibf_def
        kcs_ev_switch_def kcs_ev_wait_write_def Let_def)
qed

lemma kcs_event_write_last:
  assumes "kcs_state k = KCS_WAIT_WRITE_END" "kcs_dev k = (l @ [(1, KCS_WRITE_END)], rs)"
    and "(1, KCS_WRITE_END) \<notin> set l"
    and "0 \<le> kcs_write_pos k" "kcs_write_pos k < int (length (kcs_write_data k))"
  shows "kcs_event kcs_bmc k t j = Some (SI_SM_CALL_WITHOUT_DELAY,
    k\<lparr>kcs_ibf_timeout := IBF_RETRY_TIMEOUT,
      kcs_dev := (l @ [(1, KCS_WRITE_END), (0, kcs_write_data k ! nat (kcs_write_pos k))], rs),
      kcs_write_pos := kcs_write_pos k + 1, kcs_write_count := kcs_write_count k - 1,
      kcs_state := KCS_WAIT_READ\<rparr>)"
  using assms by (auto simp: kcs_event_def kcs_io_eqs kcs_bmc_status_def kcs_check_ibf_def
      kcs_ev_switch_def kcs_ev_wait_write_end_def kcs_write_next_byte_def buf_simps Let_def)

lemma kcs_event_read:
  assumes "kcs_state k = KCS_WAIT_READ" "kcs_dev k = (l, r # rs)"
    and "(1, KCS_WRITE_END) \<in> set (butlast l)"
    and "0 \<le> kcs_read_pos k" "kcs_read_pos k < int MAX_KCS_READ_SIZE"
    and "length (kcs_read_data k) = MAX_KCS_READ_SIZE"
  shows "kcs_event kcs_bmc k t j = Some (SI_SM_CALL_WITHOUT_DELAY,
    k\<lparr>kcs_ibf_timeout := IBF_RETRY_TIMEOUT, kcs_obf_timeout := OBF_RETRY_TIMEOUT,
      kcs_dev := (l @ [(0, KCS_READ_BYTE)], rs),
      kcs_read_data := (kcs_read_data k)[nat (kcs_read_pos k) := r],
      kcs_read_pos := kcs_read_pos k + 1\<rparr>)"
proof -
  have "l \<noteq> []" using assms(3) by auto
  then show ?thesis
    using assms by (auto simp: kcs_event_def kcs_io_eqs kcs_bmc_status_def kcs_check_ibf_def
        kcs_check_obf_def kcs_ev_switch_def kcs_ev_wait_read_def kcs_read_next_byte_def buf_simps Let_def)
qed

lemma kcs_event_complete:
  assumes "kcs_state k = KCS_WAIT_READ" "kcs_dev k = (l, [])"
    and "(1, KCS_WRITE_END) \<in> set (butlast l)"
  shows "kcs_event kcs_bmc k t j = Some (SI_SM_TRANSACTION_COMPLETE,
    k\<lparr>kcs_ibf_timeout := IBF_RETRY_TIMEOUT, kcs_orig_write_count := 0, kcs_state := KCS_IDLE\<rparr>)"
proof -
  have "l \<noteq> []" using assms(3) by auto
  then show ?thesis
    using assms by (auto simp: kcs_event_def kcs_io_eqs kcs_bmc_status_def kcs_check_ibf_def
        kcs_ev_switch_def kcs_ev_wait_read_def)
qed

section \<open>The write phase and the read phase\<close>

text \<open>Events that the caller follows with another one at once.\<close>

abbreviation (input) goes_on :: "nat \<Rightarrow> si_sm_result list" where
  "goes_on n \<equiv> replicate n SI_SM_CALL_WITHOUT_DELAY"

text \<open>All bytes of the request but the last, one per event.\<close>

lemma kcs_write_loop:
  assumes "kcs_state k = KCS_WAIT_WRITE \<or> kcs_state k = KCS_WAIT_WRITE_START \<and> evs \<noteq> []"
    and "kcs_dev k = (l, rs)" "l \<noteq> []" "(1, KCS_WRITE_END) \<notin> set l"
    and "kcs_write_count k = 1 + int (length evs)" "kcs_write_pos k = int p"
    and "p + length evs \<le> length (kcs_write_data k)"
  shows "\<exists>k'. kcs_events kcs_bmc evs k = Some (goes_on (length evs), k') \<and>
    k' = k\<lparr>kcs_ibf_timeout := kcs_ibf_timeout k',
      kcs_dev := (l @ map (Pair 0) (take (length evs) (drop p (kcs_write_data k))), rs),
      kcs_write_pos := int (p + length evs), kcs_write_count := 1, kcs_state := KCS_WAIT_WRITE\<rparr>"
  using assms
proof (induction evs arbitrary: k l p)
  case Nil
  then show ?case by (intro exI [of _ k]) simp
next
  case (Cons e evs)
  obtain t j where e: "e = (t, j)" by fastforce
  let ?b = "kcs_write_data k ! p"
  let ?k = "k\<lparr>kcs_ibf_timeout := IBF_RETRY_TIMEOUT, kcs_dev := (l @ [(0, ?b)], rs),
      kcs_write_pos := kcs_write_pos k + 1, kcs_write_count := kcs_write_count k - 1,
      kcs_state := KCS_WAIT_WRITE\<rparr>"
  have step: "kcs_event kcs_bmc k t j = Some (SI_SM_CALL_WITHOUT_DELAY, ?k)"
    using Cons.prems by (subst kcs_event_write [where l = l and rs = rs]) auto
  obtain k' where k': "kcs_events kcs_bmc evs ?k = Some (goes_on (length evs), k')"
    "k' = ?k\<lparr>kcs_ibf_timeout := kcs_ibf_timeout k',
      kcs_dev := ((l @ [(0, ?b)]) @ map (Pair 0) (take (length evs) (drop (Suc p) (kcs_write_data ?k))), rs),
      kcs_write_pos := int (Suc p + length evs), kcs_write_count := 1, kcs_state := KCS_WAIT_WRITE\<rparr>"
    using Cons.IH [of ?k "l @ [(0, ?b)]" "Suc p"] Cons.prems by fastforce
  have "take (length (e # evs)) (drop p (kcs_write_data k)) =
      ?b # take (length evs) (drop (Suc p) (kcs_write_data k))"
    using Cons.prems(7) by (simp add: Cons_nth_drop_Suc [symmetric])
  with step k' show ?case by (intro exI [of _ k']) (simp add: e)
qed

text \<open>All bytes of the response, one per event.\<close>

lemma kcs_read_loop:
  assumes "kcs_state k = KCS_WAIT_READ" "kcs_dev k = (l, rs)"
    and "(1, KCS_WRITE_END) \<in> set (butlast l)" "length evs = length rs"
    and "kcs_read_pos k = int p" "p + length rs \<le> MAX_KCS_READ_SIZE"
    and "length (kcs_read_data k) = MAX_KCS_READ_SIZE"
  shows "\<exists>k'. kcs_events kcs_bmc evs k = Some (goes_on (length evs), k') \<and> kcs_state k' = KCS_WAIT_READ \<and>
    kcs_dev k' = (l @ replicate (length rs) (0, KCS_READ_BYTE), []) \<and>
    kcs_read_pos k' = int (p + length rs) \<and> kcs_truncated k' = kcs_truncated k \<and>
    kcs_read_data k' = take p (kcs_read_data k) @ rs @ drop (p + length rs) (kcs_read_data k)"
  using assms
proof (induction rs arbitrary: evs k l p)
  case Nil
  then show ?case by auto
next
  case (Cons r rs)
  then obtain t j evs' where evs: "evs = (t, j) # evs'" and len: "length evs' = length rs"
    by (cases evs) auto
  let ?k = "k\<lparr>kcs_ibf_timeout := IBF_RETRY_TIMEOUT, kcs_obf_timeout := OBF_RETRY_TIMEOUT,
      kcs_dev := (l @ [(0, KCS_READ_BYTE)], rs), kcs_read_data := (kcs_read_data k)[p := r],
      kcs_read_pos := kcs_read_pos k + 1\<rparr>"
  have step: "kcs_event kcs_bmc k t j = Some (SI_SM_CALL_WITHOUT_DELAY, ?k)"
    using Cons.prems by (subst kcs_event_read [where l = l and r = r and rs = rs]) auto
  have mem: "(1, KCS_WRITE_END) \<in> set (butlast (l @ [(0, KCS_READ_BYTE)]))"
    using Cons.prems(3) by (auto dest: in_set_butlastD)
  obtain k' where k': "kcs_events kcs_bmc evs' ?k = Some (goes_on (length evs'), k')" "kcs_state k' = KCS_WAIT_READ"
    "kcs_dev k' = ((l @ [(0, KCS_READ_BYTE)]) @ replicate (length rs) (0, KCS_READ_BYTE), [])"
    "kcs_read_pos k' = int (Suc p + length rs)" "kcs_truncated k' = kcs_truncated ?k"
    "kcs_read_data k' = take (Suc p) (kcs_read_data ?k) @ rs @ drop (Suc p + length rs) (kcs_read_data ?k)"
    using Cons.IH [of ?k "l @ [(0, KCS_READ_BYTE)]" evs' "Suc p"] Cons.prems mem len by fastforce
  have "take (Suc p) ((kcs_read_data k)[p := r]) = take p (kcs_read_data k) @ [r]"
    using Cons.prems(6,7) by (simp add: take_Suc_conv_app_nth)
  then show ?case using step k'
    by (intro exI [of _ k']) (simp add: evs)
qed

text \<open>From the accepted request to the last byte on the wire.\<close>

lemma kcs_write_phase:
  assumes "kcs_inv k" "kcs_dev k = ([], rs)" "start_kcs_transaction k req = Some (0, k0)"
    and "length evs = length req + 2"
  shows "\<exists>k1. kcs_events kcs_bmc evs k0 = Some (goes_on (length evs), k1) \<and> kcs_state k1 = KCS_WAIT_READ \<and>
    kcs_dev k1 = ((1, KCS_WRITE_START) # map (Pair 0) (butlast req) @
       [(1, KCS_WRITE_END), (0, last req)], rs) \<and>
    kcs_read_pos k1 = 0 \<and> kcs_truncated k1 = kcs_truncated k \<and>
    length (kcs_read_data k1) = MAX_KCS_READ_SIZE"
proof -
  obtain wd where wd: "blit (kcs_write_data k) 0 req = Some wd" "2 \<le> length req"
      "length req \<le> MAX_KCS_WRITE_SIZE"
    and k0: "k0 = k\<lparr>kcs_error_retries := 0, kcs_write_data := wd, kcs_write_count := int (length req),
          kcs_orig_write_count := int (length req), kcs_write_pos := 0, kcs_read_pos := 0,
          kcs_state := KCS_START_OP, kcs_ibf_timeout := IBF_RETRY_TIMEOUT,
          kcs_obf_timeout := OBF_RETRY_TIMEOUT\<rparr>"
    using assms(3) by (cases rule: start_kcs_transaction_cases) auto
  define n where "n = length req - 1"
  have n: "length req = Suc n" "0 < n" using wd(2) by (auto simp: n_def)
  have wlen: "length wd = MAX_KCS_WRITE_SIZE"
    using blit_length [OF wd(1)] assms(1) by (simp add: kcs_inv_def kcs_raw_def)
  have wreq: "take (Suc n) wd = req" using blit_take [OF wd(1)] n by simp
  obtain e0 ews e1 e2 where evs: "evs = e0 # ews @ [e1, e2]" and ews: "length ews = n"
    using split_Cons_snoc2 [of evs n] assms(4) n by auto
  let ?k1 = "k0\<lparr>kcs_ibf_timeout := IBF_RETRY_TIMEOUT, kcs_dev := ([(1, KCS_WRITE_START)], rs),
      kcs_state := KCS_WAIT_WRITE_START\<rparr>"
  have s1: "kcs_event kcs_bmc k0 (fst e0) (snd e0) = Some (SI_SM_CALL_WITHOUT_DELAY, ?k1)"
    using assms(2) by (subst kcs_event_start [where rs = rs]) (auto simp: k0)
  let ?l = "(1, KCS_WRITE_START) # map (Pair 0) (take n wd)"
  obtain k2 where k2: "kcs_events kcs_bmc ews ?k1 = Some (goes_on (length ews), k2)"
    "k2 = ?k1\<lparr>kcs_ibf_timeout := kcs_ibf_timeout k2,
      kcs_dev := ([(1, KCS_WRITE_START)] @ map (Pair 0) (take (length ews) (drop 0 (kcs_write_data ?k1))), rs),
      kcs_write_pos := int (0 + length ews), kcs_write_count := 1, kcs_state := KCS_WAIT_WRITE\<rparr>"
    using kcs_write_loop [of ?k1 ews "[(1, KCS_WRITE_START)]" rs 0] n ews wlen wd(3)
    by (fastforce simp: k0)
  have f2: "kcs_state k2 = KCS_WAIT_WRITE" "kcs_dev k2 = (?l, rs)" "kcs_write_count k2 = 1"
    "kcs_write_pos k2 = int n" "kcs_write_data k2 = wd" "kcs_read_pos k2 = 0"
    "kcs_truncated k2 = kcs_truncated k" "kcs_read_data k2 = kcs_read_data k"
    by (subst k2(2), simp add: k0 ews)+
  let ?k3 = "k2\<lparr>kcs_ibf_timeout := IBF_RETRY_TIMEOUT, kcs_dev := (?l @ [(1, KCS_WRITE_END)], rs),
      kcs_state := KCS_WAIT_WRITE_END\<rparr>"
  have s3: "kcs_event kcs_bmc k2 (fst e1) (snd e1) = Some (SI_SM_CALL_WITHOUT_DELAY, ?k3)"
    using f2 by (subst kcs_event_write_end [where l = ?l and rs = rs]) auto
  have s4: "kcs_event kcs_bmc ?k3 (fst e2) (snd e2) = Some (SI_SM_CALL_WITHOUT_DELAY,
    ?k3\<lparr>kcs_ibf_timeout := IBF_RETRY_TIMEOUT,
      kcs_dev := (?l @ [(1, KCS_WRITE_END), (0, wd ! n)], rs),
      kcs_write_pos := int n + 1, kcs_write_count := 0, kcs_state := KCS_WAIT_READ\<rparr>)"
    using f2 n wlen wd(3) by (subst kcs_event_write_last [where l = ?l and rs = rs]) auto
  have bytes: "take n wd = butlast req" "wd ! n = last req"
    using wreq wlen n wd(3) by (auto simp: take_Suc_conv_app_nth)
  have "kcs_events kcs_bmc (ews @ [e1, e2]) ?k1 \<noteq> None"
    using k2(1) s3 s4 by (cases e1, cases e2) (simp add: kcs_events_append)
  with s1 k2(1) s3 s4 f2 bytes assms(1) show ?thesis
    by (cases e0, cases e1, cases e2)
      (simp add: evs kcs_events_append kcs_inv_def kcs_raw_def replicate_append_same [symmetric])
qed

text \<open>From the last request byte to the end of the transaction.\<close>

lemma kcs_read_phase:
  assumes "kcs_state k = KCS_WAIT_READ" "kcs_dev k = (l, rs)"
    and "(1, KCS_WRITE_END) \<in> set (butlast l)" "length evs = Suc (length rs)"
    and "kcs_read_pos k = 0" "length rs \<le> MAX_KCS_READ_SIZE"
    and "length (kcs_read_data k) = MAX_KCS_READ_SIZE"
  shows "\<exists>k'. kcs_events kcs_bmc evs k = Some (goes_on (length rs) @ [SI_SM_TRANSACTION_COMPLETE], k') \<and>
    kcs_state k' = KCS_IDLE \<and> kcs_dev k' = (l @ replicate (length rs) (0, KCS_READ_BYTE), []) \<and>
    kcs_read_pos k' = int (length rs) \<and> kcs_truncated k' = kcs_truncated k \<and>
    take (length rs) (kcs_read_data k') = rs \<and> length (kcs_read_data k') = MAX_KCS_READ_SIZE"
proof -
  obtain ers t j where evs: "evs = ers @ [(t, j)]" "length ers = length rs"
    using assms(4) by (cases evs rule: rev_cases) auto
  obtain k1 where k1: "kcs_events kcs_bmc ers k = Some (goes_on (length ers), k1)" "kcs_state k1 = KCS_WAIT_READ"
    "kcs_dev k1 = (l @ replicate (length rs) (0, KCS_READ_BYTE), [])"
    "kcs_read_pos k1 = int (length rs)" "kcs_truncated k1 = kcs_truncated k"
    "kcs_read_data k1 = rs @ drop (length rs) (kcs_read_data k)"
    using kcs_read_loop [of k l rs ers 0] assms evs by auto
  have "(1, KCS_WRITE_END) \<in> set (butlast (l @ replicate (length rs) (0, KCS_READ_BYTE)))"
    using assms(3) by (cases "rs = []") (auto simp: butlast_append dest: in_set_butlastD)
  with k1 kcs_event_complete [of k1 "l @ replicate (length rs) (0, KCS_READ_BYTE)" t j]
  show ?thesis using assms(6,7)
    by (auto simp: evs kcs_events_append)
qed

lemma kcs_transaction_run:
  assumes "kcs_inv k" "kcs_dev k = ([], resp)" "\<not> kcs_truncated k"
    and "start_kcs_transaction k req = Some (0, k0)"
    and "3 \<le> length resp" "length resp \<le> MAX_KCS_READ_SIZE" "length resp \<le> length buf"
    and "length evs = length req + length resp + 3"
  shows "\<exists>k1 k2. kcs_events kcs_bmc evs k0 = Some (goes_on (length req + length resp + 2) @ [SI_SM_TRANSACTION_COMPLETE], k1) \<and>
    kcs_state k1 = KCS_IDLE \<and> snd (kcs_dev k1) = [] \<and>
    fst (kcs_dev k1) = (1, KCS_WRITE_START) # map (Pair 0) (butlast req) @
      [(1, KCS_WRITE_END), (0, last req)] @ replicate (length resp) (0, KCS_READ_BYTE) \<and>
    get_kcs_result k1 buf = Some (int (length resp), resp @ drop (length resp) buf, k2)"
proof -
  let ?e1 = "take (length req + 2) evs" and ?e2 = "drop (length req + 2) evs"
  let ?l = "(1, KCS_WRITE_START) # map (Pair 0) (butlast req) @ [(1, KCS_WRITE_END), (0, last req)]"
  obtain k1 where k1: "kcs_events kcs_bmc ?e1 k0 = Some (goes_on (length ?e1), k1)" "kcs_state k1 = KCS_WAIT_READ"
    "kcs_dev k1 = (?l, resp)" "kcs_read_pos k1 = 0" "\<not> kcs_truncated k1"
    "length (kcs_read_data k1) = MAX_KCS_READ_SIZE"
    using kcs_write_phase [OF assms(1,2,4), of ?e1] assms(3,8) by auto
  have mem: "(1, KCS_WRITE_END) \<in> set (butlast ?l)" by (simp add: butlast_append)
  obtain k2 where k2: "kcs_events kcs_bmc ?e2 k1 = Some (goes_on (length resp) @ [SI_SM_TRANSACTION_COMPLETE], k2)"
    "kcs_state k2 = KCS_IDLE" "kcs_dev k2 = (?l @ replicate (length resp) (0, KCS_READ_BYTE), [])"
    "kcs_read_pos k2 = int (length resp)" "\<not> kcs_truncated k2"
    "take (length resp) (kcs_read_data k2) = resp" "length (kcs_read_data k2) = MAX_KCS_READ_SIZE"
    using kcs_read_phase [OF k1(2,3) mem, of ?e2] k1(4,5,6) assms(6,8) by auto
  have "kcs_events kcs_bmc (?e1 @ ?e2) k0 = Some (goes_on (length ?e1) @ goes_on (length resp) @ [SI_SM_TRANSACTION_COMPLETE], k2)"
    using k1(1) k2(1) by (simp only: kcs_events_append) simp
  moreover have "goes_on (length ?e1) @ goes_on (length resp) = goes_on (length req + length resp + 2)"
    using assms(8) by (simp add: replicate_add [symmetric])
  moreover have "get_kcs_result k2 buf = Some (int (length resp), resp @ drop (length resp) buf,
      k2\<lparr>kcs_read_pos := int (length resp), kcs_truncated := False\<rparr>)"
    using k2 assms(5,6,7) by (simp add: get_kcs_result_def si_copy_result_eq min_absorb2)
  ultimately show ?thesis using k2(2,3) by (metis append.assoc append_take_drop_id fst_conv snd_conv append_Cons)
qed

section \<open>Properties\<close>

text \<open>C1: A KCS transaction against a BMC that follows the protocol. Once a request of 2 to 272
  bytes is accepted, one event per protocol step writes exactly WRITE\_START, every byte of the
  request but the last, WRITE\_END and the last byte, then reads one byte of the response per
  event, and the final event reports completion; fetching the result into a large enough buffer
  then returns the BMC's response unchanged.\<close>

theorem kcs_transaction:
  assumes "kcs_inv k" "kcs_dev k = ([], resp)" "\<not> kcs_truncated k"
    and "start_kcs_transaction k req = Some (0, k0)"
    and "3 \<le> length resp" "length resp \<le> MAX_KCS_READ_SIZE" "length resp \<le> length buf"
    and "length evs = length req + length resp + 3"
  shows "\<exists>k1 k2. kcs_events kcs_bmc evs k0 =
      Some (replicate (length req + length resp + 2) SI_SM_CALL_WITHOUT_DELAY @ [SI_SM_TRANSACTION_COMPLETE], k1) \<and>
    kcs_state k1 = KCS_IDLE \<and>
    fst (kcs_dev k1) = (1, KCS_WRITE_START) # map (Pair 0) (butlast req) @
      [(1, KCS_WRITE_END), (0, last req)] @ replicate (length resp) (0, KCS_READ_BYTE) \<and>
    get_kcs_result k1 buf = Some (int (length resp), resp @ drop (length resp) buf, k2)"
  using kcs_transaction_run [OF assms] by blast

definition kcs_idle_example :: "u8 list \<Rightarrow> (io_log \<times> u8 list) kcs_data" where
  "kcs_idle_example resp = init_kcs_data \<lparr>kcs_state = KCS_HOSED, kcs_dev = ([], resp),
     kcs_write_data = replicate 272 0, kcs_write_pos = 7, kcs_write_count = 7,
     kcs_orig_write_count = 7, kcs_read_data = replicate 272 0, kcs_read_pos = 7,
     kcs_truncated = True, kcs_error_retries = 7, kcs_ibf_timeout = 0, kcs_obf_timeout = 0,
     kcs_error0_timeout = 0\<rparr>"

lemma kcs_idle_example_inv: "kcs_inv (kcs_idle_example resp)"
  unfolding kcs_idle_example_def by (rule init_kcs_data_inv) (simp add: kcs_raw_def kcs_size_defs)

theorem kcs_transaction_witness:
  "\<exists>k1 k2. kcs_events kcs_bmc (replicate 8 (0, 0))
      (snd (the (start_kcs_transaction (kcs_idle_example [0x1c, 1, 0]) [0x18, 1])))
      = Some (replicate 7 SI_SM_CALL_WITHOUT_DELAY @ [SI_SM_TRANSACTION_COMPLETE], k1) \<and>
    kcs_state k1 = KCS_IDLE \<and>
    fst (kcs_dev k1) = [(1, 0x61), (0, 0x18), (1, 0x62), (0, 1), (0, 0x68), (0, 0x68), (0, 0x68)] \<and>
    get_kcs_result k1 [9, 9, 9, 9] = Some (3, [0x1c, 1, 0, 9], k2)"
proof -
  let ?k = "kcs_idle_example [0x1c, 1, 0]"
  obtain k0 where k0: "start_kcs_transaction ?k [0x18, 1] = Some (0, k0)"
    by (simp add: start_kcs_transaction_def kcs_idle_example_def init_kcs_data_def blit_def kcs_size_defs)
  have "kcs_dev ?k = ([], [0x1c, 1, 0])" "\<not> kcs_truncated ?k"
    by (simp_all add: kcs_idle_example_def init_kcs_data_def)
  from kcs_transaction [OF kcs_idle_example_inv this k0, of "[9, 9, 9, 9]" "replicate 8 (0, 0)"]
  show ?thesis using k0 by (simp add: kcs_size_defs numeral_eq_Suc)
qed

text \<open>C4: Memory safety of the KCS machine under any use. From freshly allocated memory, every
  sequence of handler calls (transactions started, events at any time with any device, results
  fetched into buffers of at least three bytes) stays inside the machine's buffers and keeps its
  invariant.\<close>

theorem kcs_any_calls_safe:
  assumes "kcs_raw k" "list_all (si_call_ok MAX_KCS_WRITE_SIZE) cs"
  shows "\<exists>k'. si_run (kcs_smi_handlers io) cs (init_kcs_data k) = Some k' \<and> kcs_inv k'"
  using kcs.si_run_from_init [OF assms(1) TrueI assms(2), of io] by (simp add: kcs_smi_handlers_def)

theorem kcs_any_calls_safe_witness:
  "\<exists>k'. si_run (kcs_smi_handlers kcs_bmc)
     [Start [0x18, 1], Event 0 0, Start [1], Event 5 1, Get_result [0, 0, 0]]
     (init_kcs_data (kcs_idle_example [])) = Some k' \<and> kcs_inv k'"
  by (rule kcs_any_calls_safe [OF kcs_inv_raw [OF kcs_idle_example_inv]])
    (simp add: kcs_size_defs)

text \<open>Error recovery of the KCS machine gives up. When the BMC leaves the expected state
  while a request is being started or written and ten recoveries have already been tried, the
  event reports SI\_SM\_HOSED and the machine is back in its initial state.\<close>

theorem kcs_retries_exhausted:
  assumes "kcs_state k \<in> {KCS_START_OP, KCS_WAIT_WRITE_START, KCS_WAIT_WRITE, KCS_WAIT_WRITE_END}"
    and "inputb io (kcs_dev k) 1 = (status, d)" "\<not> GET_STATUS_IBF status"
    and "GET_STATUS_STATE status \<noteq> (if kcs_state k = KCS_START_OP then 0 else 2)"
    and "kcs_error_retries k = 10"
  shows "\<exists>k'. kcs_event io k t j = Some (SI_SM_HOSED, k') \<and> kcs_state k' = KCS_IDLE \<and>
    kcs_error_retries k' = 0 \<and> kcs_dev k' = d"
  using assms
  by (auto simp: kcs_event_def kcs_read_status_eq kcs_check_ibf_def kcs_ev_switch_def
      kcs_ev_start_op_def kcs_ev_wait_write_start_def kcs_ev_wait_write_def kcs_ev_wait_write_end_def
      kcs_start_error_recovery_def init_kcs_data_def Let_def)

theorem kcs_retries_exhausted_witness:
  "\<exists>k'. kcs_event kcs_bmc ((kcs_idle_example [])\<lparr>kcs_state := KCS_WAIT_WRITE_START,
      kcs_error_retries := 10\<rparr>) 0 0 = Some (SI_SM_HOSED, k') \<and> kcs_state k' = KCS_IDLE \<and>
    kcs_error_retries k' = 0 \<and> kcs_dev k' = ([], [])"
  by (rule kcs_retries_exhausted [where status = 0])
    (simp_all add: kcs_idle_example_def init_kcs_data_def kcs_bmc_status_def)

text \<open>A flaw in the KCS recovery path. In KCS\_ERROR2 a missing output byte past the timeout
  calls \<open>start_error_recovery\<close>, which decides to give up once the retries are exhausted; the code
  after the check then overwrites that decision and moves on to KCS\_ERROR3. The event never
  reports SI\_SM\_HOSED there, whatever the number of retries.\<close>

theorem kcs_error2_overrides_hosed:
  assumes "kcs_state k = KCS_ERROR2" "inputb io (kcs_dev k) 1 = (status, d)"
    and "\<not> GET_STATUS_IBF status" "GET_STATUS_STATE status = 1" "\<not> GET_STATUS_OBF status"
    and "kcs_obf_timeout k < t"
  shows "\<exists>k'. kcs_event io k t j = Some (SI_SM_CALL_WITHOUT_DELAY, k') \<and>
    kcs_state k' = KCS_ERROR3 \<and> kcs_error_retries k' = kcs_error_retries k + 1"
  using assms
  by (auto simp: kcs_event_def kcs_io_eqs kcs_check_ibf_def kcs_check_obf_def kcs_ev_switch_def
      kcs_ev_error2_def kcs_start_error_recovery_def Let_def)

theorem kcs_error2_overrides_hosed_witness:
  "\<exists>k'. kcs_event (logging_io (\<lambda>_ _. 0x40)) (init_kcs_data \<lparr>kcs_state = KCS_IDLE, kcs_dev = [],
      kcs_write_data = replicate 272 0, kcs_write_pos = 0, kcs_write_count = 0,
      kcs_orig_write_count = 0, kcs_read_data = replicate 272 0, kcs_read_pos = 0,
      kcs_truncated = False, kcs_error_retries = 0, kcs_ibf_timeout = 0, kcs_obf_timeout = 0,
      kcs_error0_timeout = 0\<rparr>\<lparr>kcs_state := KCS_ERROR2, kcs_error_retries := 10\<rparr>) 1000001 0
     = Some (SI_SM_CALL_WITHOUT_DELAY, k') \<and> kcs_state k' = KCS_ERROR3 \<and> kcs_error_retries k' = 10 + 1"
  using kcs_error2_overrides_hosed [where io = "logging_io (\<lambda>_ _. 0x40)" and status = "0x40" and
      d = "[]" and t = 1000001 and j = 0 and k = "init_kcs_data \<lparr>kcs_state = KCS_IDLE, kcs_dev = [],
      kcs_write_data = replicate 272 0, kcs_write_pos = 0, kcs_write_count = 0,
      kcs_orig_write_count = 0, kcs_read_data = replicate 272 0, kcs_read_pos = 0,
      kcs_truncated = False, kcs_error_retries = 0, kcs_ibf_timeout = 0, kcs_obf_timeout = 0,
      kcs_error0_timeout = 0\<rparr>\<lparr>kcs_state := KCS_ERROR2, kcs_error_retries := 10\<rparr>"]
  by (simp add: init_kcs_data_def GET_STATUS_IBF_def GET_STATUS_OBF_def GET_STATUS_STATE_def flag_def)

end
