(* ===== verification/Ipmi_Smi_Run.thy ===== *)
theory Ipmi_Smi_Run
  imports Ipmi_Smi_Safe Ipmi_Kcs_Protocol
begin

text \<open>
  The properties of the IPMI system interface driver with one thread at a time in \<open>smi_event_handler\<close>, for the KCS and the
  SMIC machine: no message is lost, every segment is defined, and a request is answered. \<open>smi_exec\<close> executes a schedule,
  a sequence of steps of \<open>smi_step\<close>.
\<close>

section \<open>Schedules\<close>

datatype smi_act = Do_send nat ipmi_smi_msg int | Do_drive nat int | Do_run nat

fun smi_do :: "'s si_sm_handlers \<Rightarrow> bool \<Rightarrow> bool \<Rightarrow> smi_env \<Rightarrow> smi_act \<Rightarrow> 's smi_sys \<Rightarrow> 's smi_sys option" where
  "smi_do h many mem env (Do_send t m p) s =
     (if t < length (smi_pcs s) \<and> smi_pcs s ! t = Smi_idle \<and> msg_ok m \<and> is_upper (msg_ptr m) \<and> \<not> msg_tagged m
      then Some (s\<lparr>smi_pcs := (smi_pcs s)[t := Send m p], smi_sent := add_mset (msg_ptr m) (smi_sent s)\<rparr>) else None)"
| "smi_do h many mem env (Do_drive t time) s =
     (if t < length (smi_pcs s) \<and> smi_pcs s ! t = Smi_idle \<and> (many \<or> one_driver ((smi_pcs s)[t := Handler time Once]))
      then Some (s\<lparr>smi_pcs := (smi_pcs s)[t := Handler time Once]\<rparr>) else None)"
| "smi_do h many mem env (Do_run t) s =
     (if t < length (smi_pcs s) \<and> locks_free (smi_pcs s) (smi_pcs s ! t) \<and> env_ok mem env
      then (case smi_seg h env (sys_smi s) (smi_pcs s ! t) of
              None \<Rightarrow> None
            | Some (smi, pc, effs) \<Rightarrow>
                if many \<or> one_driver ((smi_pcs s)[t := pc])
                then Some (s\<lparr>sys_smi := smi, smi_pcs := (smi_pcs s)[t := pc],
                       smi_alloced := smi_alloced s + sum_list (map eff_alloced effs),
                       smi_freed := smi_freed s + sum_list (map eff_done effs),
                       smi_delivered := smi_delivered s @ concat (map eff_delivered effs)\<rparr>) else None)
      else None)"

fun smi_exec :: "'s si_sm_handlers \<Rightarrow> bool \<Rightarrow> bool \<Rightarrow> smi_env \<Rightarrow> smi_act list \<Rightarrow> 's smi_sys \<Rightarrow> 's smi_sys option" where
  "smi_exec h many mem env [] s = Some s"
| "smi_exec h many mem env (a # as) s = smi_do h many mem env a s \<bind> smi_exec h many mem env as"

lemma smi_do_step: "smi_do h many mem env a s = Some s' \<Longrightarrow> smi_step h many mem s s'"
  by (cases a) (auto split: if_splits option.splits prod.splits intro!: smi_step.intros smi_step.run [where env = env])

lemma smi_exec_reach: "smi_exec h many mem env as s = Some s' \<Longrightarrow> smi_reach h many mem s s'"
  unfolding smi_reach_def
  by (induction as arbitrary: s) (auto simp: bind_eq_Some_conv dest!: smi_do_step intro: converse_rtranclp_into_rtranclp)

section \<open>A scripted BMC\<close>

text \<open>A BMC whose registers read as a script says, and as zero behind its end.\<close>

definition script_io :: "u8 list si_sm_io" where
  "script_io = \<lparr>inputb = (\<lambda>d off. case d of [] \<Rightarrow> (0, []) | b # bs \<Rightarrow> (b, bs)), outputb = (\<lambda>d off b. d)\<rparr>"

text \<open>A transaction with a request of \<open>n\<close> bytes, as KCS reads it from the registers, without the final status.\<close>

definition script_txn :: "nat \<Rightarrow> u8 list \<Rightarrow> u8 list" where
  "script_txn n resp = [0, 0x80, 0] @ replicate n 0x80 @ concat (map (\<lambda>b. [0x41, b]) resp)"

definition script_kcs :: "u8 list \<Rightarrow> u8 list kcs_data" where
  "script_kcs script = init_kcs_data \<lparr>kcs_state = KCS_IDLE, kcs_dev = script,
     kcs_write_data = replicate 272 0, kcs_write_pos = 0, kcs_write_count = 0,
     kcs_orig_write_count = 0, kcs_read_data = replicate 272 0, kcs_read_pos = 0,
     kcs_truncated = False, kcs_error_retries = 0, kcs_ibf_timeout = 0, kcs_obf_timeout = 0,
     kcs_error0_timeout = 0\<rparr>"

text \<open>An interface on which nothing is going on.\<close>

definition idle_smi :: "'s \<Rightarrow> bool \<Rightarrow> 's smi_info" where
  "idle_smi sm has_irq = \<lparr>si_sm = sm, xmit_msgs = [], hp_xmit_msgs = [], curr_msg = None, si_state = SI_NORMAL,
       msg_flags = 0, oem_data_avail_handler = False, xaction_notifier = False, req_events = False, run_to_completion = False,
       irq = has_irq, interrupt_disabled = False, stop_operation = False, pendingRequests = 0,
       idles = 0, attentions = 0, hosed_count = 0, complete_transactions = 0, events = 0, watchdog_pretimeouts = 0,
       incoming_messages = 0\<rparr>"

definition example_msg :: "nat \<Rightarrow> ipmi_smi_msg" where
  "example_msg n = \<lparr>msg_ptr = Upper n, msg_data = replicate 272 0, msg_data_size = 2, msg_rsp = replicate 272 0, msg_rsp_size = 0,
     msg_tagged = False\<rparr>"

definition example_env :: smi_env where
  "example_env = \<lparr>env_jiffies = 0, env_alloc = None, env_stack = [0, 0, 0, 0]\<rparr>"

section \<open>One request from sender to answer\<close>

text \<open>Two threads: the first is idle, the second is at \<open>pc\<close>.\<close>

definition two_threads :: "'s smi_info \<Rightarrow> smi_pc \<Rightarrow> msg_ptr \<Rightarrow> ipmi_smi_msg list \<Rightarrow> 's smi_sys" where
  "two_threads smi pc p ds = \<lparr>sys_smi = smi, smi_pcs = [Smi_idle, pc], smi_sent = {#p#}, smi_alloced = {#}, smi_freed = {#},
     smi_delivered = ds\<rparr>"

lemma one_driver_two: "one_driver [Smi_idle, pc]"
  by (auto simp: one_driver_def less_Suc_eq)

lemma waits_for_others: "wants_si pc \<Longrightarrow> \<not> holds_si pc" "wants_msg pc \<Longrightarrow> \<not> holds_msg pc"
  by (cases pc; simp)+

lemma run_second:
  assumes "smi_seg h env smi pc = Some (smi', pc', effs)" "env_ok mem env" "alloced effs = {#}" "freed effs = {#}"
  shows "smi_do h False mem env (Do_run 1) (two_threads smi pc p ds) = Some (two_threads smi' pc' p (ds @ delivered effs))"
  using assms one_driver_two [of pc'] waits_for_others [of pc]
  by (simp add: two_threads_def locks_free_def alloced_def [symmetric] freed_def [symmetric] delivered_def [symmetric])

text \<open>The event loop of \<open>smi_event_handler\<close> is a sequence of events of the machine.\<close>

lemma exec_events:
  assumes "kcs_events io (replicate (Suc n) (0, env_jiffies env)) k = Some (goes_on n @ [r], k')"
    and "pc = Restart 0 Once \<or> pc = Result SI_SM_CALL_WITHOUT_DELAY Once" and "env_ok mem env"
  shows "smi_exec (kcs_smi_handlers io) False mem env (replicate (Suc n) (Do_run 1)) (two_threads (smi\<lparr>si_sm := k\<rparr>) pc p ds) =
    Some (two_threads (smi\<lparr>si_sm := k'\<rparr>) (Result r Once) p ds)"
  using assms(1,2)
proof (induction n arbitrary: k pc)
  case 0
  then have "smi_seg (kcs_smi_handlers io) env (smi\<lparr>si_sm := k\<rparr>) pc = Some (smi\<lparr>si_sm := k'\<rparr>, Result r Once, [])"
    by (auto simp: sm_event_def kcs_handler_simps seg_result_def bind_eq_Some_conv)
  from run_second [OF this assms(3)] show ?case by simp
next
  case (Suc n)
  then obtain k1 where k1: "kcs_event io k 0 (env_jiffies env) = Some (SI_SM_CALL_WITHOUT_DELAY, k1)"
      "kcs_events io (replicate (Suc n) (0, env_jiffies env)) k1 = Some (goes_on n @ [r], k')"
    by (auto simp: bind_eq_Some_conv)
  then have "smi_seg (kcs_smi_handlers io) env (smi\<lparr>si_sm := k\<rparr>) pc =
      Some (smi\<lparr>si_sm := k1\<rparr>, Result SI_SM_CALL_WITHOUT_DELAY Once, [])"
    using Suc.prems(2) by (auto simp: sm_event_def kcs_handler_simps seg_result_def)
  from run_second [OF this assms(3)] show ?case using Suc.IH [OF k1(2)] by simp
qed

lemma smi_exec_append: "smi_exec h many mem env (xs @ ys) s = smi_exec h many mem env xs s \<bind> smi_exec h many mem env ys"
  by (induction xs arbitrary: s) (auto split: bind_splits)

text \<open>From the end of the transaction on: the answer is delivered, and there is nothing left to do.\<close>

lemma exec_completion:
  assumes g: "get_kcs_result k1 (msg_rsp m) = Some (n, rsp, k2)" and ev: "kcs_event io k2 0 (env_jiffies env) = Some (SI_SM_IDLE, k3)"
    and smi: "curr_msg smi = Some m" "si_state smi = SI_NORMAL" "hp_xmit_msgs smi = []" "xmit_msgs smi = []" "\<not> req_events smi" "msg_tagged m"
    and env: "env_ok mem env"
  shows "smi_exec (kcs_smi_handlers io) False mem env (replicate 7 (Do_run 1)) (two_threads (smi\<lparr>si_sm := k1\<rparr>) (Result SI_SM_TRANSACTION_COMPLETE Once) p ds) =
    Some (two_threads (smi\<lparr>curr_msg := None, pendingRequests := pendingRequests smi - 1,
        complete_transactions := complete_transactions smi + 1, si_sm := k3, idles := idles smi + 1\<rparr>) Smi_idle p
      (ds @ [m\<lparr>msg_rsp := rsp, msg_rsp_size := n, msg_tagged := False\<rparr>]))"
proof -
  let ?h = "kcs_smi_handlers io"
  let ?m = "m\<lparr>msg_rsp := rsp, msg_rsp_size := n, msg_tagged := False\<rparr>"
  let ?s2 = "smi\<lparr>si_sm := k2, curr_msg := None, pendingRequests := pendingRequests smi - 1, complete_transactions := complete_transactions smi + 1\<rparr>"
  let ?s3 = "?s2\<lparr>si_sm := k3\<rparr>"
  let ?s4 = "?s3\<lparr>idles := idles smi + 1\<rparr>"
  have "smi_seg ?h env (smi\<lparr>si_sm := k1\<rparr>) (Result SI_SM_TRANSACTION_COMPLETE Once) = Some (?s2, Callback (Deliver ?m) [] (To_after Once), [])"
    using g smi by (simp add: seg_result_def handle_transaction_done_def take_result_def untag_def kcs_handler_simps)
  note 1 = run_second [OF this env]
  have "smi_seg ?h env ?s2 (Callback (Deliver ?m) [] (To_after Once)) = Some (?s2, Relock [] (To_after Once), [Eff_deliver ?m])" by simp
  note 2 = run_second [OF this env]
  have "smi_seg ?h env ?s2 (Relock [] (To_after Once)) = Some (?s2, After Once, [])" by simp
  note 3 = run_second [OF this env]
  have "smi_seg ?h env ?s2 (After Once) = Some (?s3, Attn SI_SM_IDLE Once, [])"
    using ev by (simp add: sm_event_def kcs_handler_simps)
  note 4 = run_second [OF this env]
  have "smi_seg ?h env ?s3 (Attn SI_SM_IDLE Once) = Some (?s4, Next (By_handler Once), [])" by (simp add: seg_attn_def)
  note 5 = run_second [OF this env]
  have "smi_seg ?h env ?s4 (Next (By_handler Once)) = Some (?s4, Req_events Once, [])"
    using smi by (simp add: seg_next_def start_next_msg_def)
  note 6 = run_second [OF this env]
  have "smi_seg ?h env ?s4 (Req_events Once) = Some (?s4, Smi_idle, [])" using smi by (simp add: seg_req_events_def)
  note 7 = run_second [OF this env]
  show ?thesis using 1 2 3 4 5 6 7 by (simp add: numeral_eq_Suc del: smi_do.simps)
qed

definition request_schedule :: "ipmi_smi_msg \<Rightarrow> int \<Rightarrow> nat \<Rightarrow> smi_act list" where
  "request_schedule m priority n =
     [Do_send 0 m priority, Do_run 0, Do_run 0, Do_run 0, Do_drive 1 0, Do_run 1] @ replicate n (Do_run 1)"

text \<open>Up to the handler: the message is queued, the machine has accepted it.\<close>

lemma exec_send:
  assumes st: "start_kcs_transaction k (take (msg_data_size m) (msg_data m)) = Some (0, k0)"
    and m: "msg_ok m" "is_upper (msg_ptr m)" "\<not> msg_tagged m" and env: "env_ok mem env"
  shows "smi_exec (kcs_smi_handlers io) False mem env [Do_send 0 m priority, Do_run 0, Do_run 0, Do_run 0, Do_drive 1 0, Do_run 1]
      (smi_start (idle_smi k False) 2) =
    Some (two_threads ((idle_smi k False)\<lparr>curr_msg := Some (m\<lparr>msg_tagged := True\<rparr>), pendingRequests := 1, si_sm := k0\<rparr>) (Restart 0 Once) (msg_ptr m) [])"
proof -
  have o: "one_driver [pc, Smi_idle]" "one_driver [Smi_idle, pc]" for pc by (auto simp: one_driver_def less_Suc_eq)
  show ?thesis using st m env o
    by (cases "priority > 0") (simp_all add: smi_start_def numeral_eq_Suc locks_free_def seg_send_def seg_send_lock_def seg_next_def start_next_msg_def
      kcs_handler_simps idle_smi_def two_threads_def)
qed

lemma kcs_event_idle:
  assumes "kcs_state k = KCS_IDLE" "kcs_dev k = (l, [])" "(1, KCS_WRITE_END) \<in> set (butlast l)"
  shows "\<exists>k'. kcs_event kcs_bmc k t j = Some (SI_SM_IDLE, k') \<and> kcs_dev k' = kcs_dev k"
  using assms by (auto simp: kcs_event_def kcs_io_eqs kcs_bmc_status_def kcs_check_ibf_def kcs_ev_switch_def kcs_ev_idle_def
      GET_STATUS_ATN_def flag_def)

text \<open>C3: From the request to the answer. On an idle KCS interface whose BMC follows the protocol, a message of 2 to 272 bytes that
  is handed to \<open>sender\<close>, followed by one run of \<open>smi_event_handler\<close>, puts exactly the framed request on the wire, and the upper layer
  gets the message back once, with the response of the BMC; then the interface is idle again and no request is pending.\<close>

theorem smi_request_answered:
  fixes m defines "req \<equiv> take (msg_data_size m) (msg_data m)"
  assumes k: "kcs_inv k" "kcs_state k = KCS_IDLE" "kcs_dev k = ([], resp)" "\<not> kcs_truncated k"
    and m: "msg_ok m" "is_upper (msg_ptr m)" "\<not> msg_tagged m" "2 \<le> msg_data_size m"
    and resp: "3 \<le> length resp" "length resp \<le> 272" and env: "env_ok False env"
  shows "\<exists>S. smi_exec (kcs_smi_handlers kcs_bmc) False False env (request_schedule m priority (msg_data_size m + length resp + 10))
        (smi_start (idle_smi k False) 2) = Some S \<and>
      map (\<lambda>d. (msg_ptr d, take (nat (msg_rsp_size d)) (msg_rsp d))) (smi_delivered S) = [(msg_ptr m, resp)] \<and>
      fst (kcs_dev (si_sm (sys_smi S))) = (1, KCS_WRITE_START) # map (Pair 0) (butlast req) @
        [(1, KCS_WRITE_END), (0, last req)] @ replicate (length resp) (0, KCS_READ_BYTE) \<and>
      smi_pcs S = [Smi_idle, Smi_idle] \<and> curr_msg (sys_smi S) = None \<and> pendingRequests (sys_smi S) = 0"
proof -
  have len: "length req = msg_data_size m" "length (msg_rsp m) = 272" "msg_data_size m \<le> 272"
    using m(1) by (auto simp: req_def msg_ok_def IPMI_MAX_MSG_LENGTH_def)
  have ok: "kcs_ready k" "2 \<le> length req" "length req \<le> MAX_KCS_WRITE_SIZE"
    using k(2) m(4) len by (auto simp: kcs_ready_def kcs_size_defs)
  then obtain c k0 where st: "start_kcs_transaction k req = Some (c, k0)"
    using kcs.start_defined [OF k(1), of req] by (auto simp: kcs_handler_simps)
  then have st: "start_kcs_transaction k req = Some (0, k0)"
    using start_kcs_transaction_ready [OF st] ok by simp
  define n where "n = msg_data_size m + length resp + 2"
  define evs where "evs = replicate (Suc n) (0 :: int, env_jiffies env)"
  obtain k1 k2 where run: "kcs_events kcs_bmc evs k0 = Some (goes_on n @ [SI_SM_TRANSACTION_COMPLETE], k1)"
      and k1: "kcs_state k1 = KCS_IDLE" "snd (kcs_dev k1) = []"
        "fst (kcs_dev k1) = (1, KCS_WRITE_START) # map (Pair 0) (butlast req) @
          [(1, KCS_WRITE_END), (0, last req)] @ replicate (length resp) (0, KCS_READ_BYTE)"
      and res: "get_kcs_result k1 (msg_rsp m) = Some (int (length resp), resp @ drop (length resp) (msg_rsp m), k2)"
    using kcs_transaction_run [OF k(1,3,4) st resp(1), of "msg_rsp m" evs] resp(2) len
    by (auto simp: evs_def n_def kcs_size_defs)
  have k2: "kcs_state k2 = KCS_IDLE" "kcs_dev k2 = (fst (kcs_dev k1), [])"
    using res k1(1,2) by (cases "kcs_dev k1"; auto simp: get_kcs_result_def bind_eq_Some_conv)+
  have "(1, KCS_WRITE_END) \<in> set (butlast (fst (kcs_dev k1)))" by (simp add: k1(3) butlast_append)
  then obtain k3 where k3: "kcs_event kcs_bmc k2 0 (env_jiffies env) = Some (SI_SM_IDLE, k3)" "kcs_dev k3 = kcs_dev k2"
    using kcs_event_idle [OF k2] by blast
  let ?m = "m\<lparr>msg_tagged := True\<rparr>"
  let ?smi = "(idle_smi k False)\<lparr>curr_msg := Some ?m, pendingRequests := 1\<rparr>"
  have sched: "request_schedule m priority (msg_data_size m + length resp + 10) =
      [Do_send 0 m priority, Do_run 0, Do_run 0, Do_run 0, Do_drive 1 0, Do_run 1] @ replicate (Suc n) (Do_run 1) @ replicate 7 (Do_run 1)"
  proof -
    have "msg_data_size m + length resp + 10 = Suc n + 7" by (simp add: n_def)
    then show ?thesis by (simp only: request_schedule_def replicate_add append_assoc)
  qed
  have 1: "smi_exec (kcs_smi_handlers kcs_bmc) False False env [Do_send 0 m priority, Do_run 0, Do_run 0, Do_run 0, Do_drive 1 0, Do_run 1]
      (smi_start (idle_smi k False) 2) = Some (two_threads (?smi\<lparr>si_sm := k0\<rparr>) (Restart 0 Once) (msg_ptr m) [])"
    using exec_send [OF st [unfolded req_def] m(1-3) env] by simp
  have 2: "smi_exec (kcs_smi_handlers kcs_bmc) False False env (replicate (Suc n) (Do_run 1))
      (two_threads (?smi\<lparr>si_sm := k0\<rparr>) (Restart 0 Once) (msg_ptr m) []) =
      Some (two_threads (?smi\<lparr>si_sm := k1\<rparr>) (Result SI_SM_TRANSACTION_COMPLETE Once) (msg_ptr m) [])"
    using exec_events [OF run [unfolded evs_def] _ env] by blast
  have 3: "smi_exec (kcs_smi_handlers kcs_bmc) False False env (replicate 7 (Do_run 1))
      (two_threads (?smi\<lparr>si_sm := k1\<rparr>) (Result SI_SM_TRANSACTION_COMPLETE Once) (msg_ptr m) []) =
      Some (two_threads (?smi\<lparr>curr_msg := None, pendingRequests := pendingRequests ?smi - 1,
        complete_transactions := complete_transactions ?smi + 1, si_sm := k3, idles := idles ?smi + 1\<rparr>) Smi_idle (msg_ptr m)
        ([] @ [?m\<lparr>msg_rsp := resp @ drop (length resp) (msg_rsp m), msg_rsp_size := int (length resp), msg_tagged := False\<rparr>]))"
    by (rule exec_completion) (use res k3(1) env in \<open>simp_all add: idle_smi_def\<close>)
  show ?thesis unfolding sched smi_exec_append 1 bind.bind_lunit 2 3
    using k1(3) k2(2) k3(2) by (simp add: two_threads_def)
qed

theorem smi_request_answered_witness:
  "\<exists>S. smi_exec (kcs_smi_handlers kcs_bmc) False False example_env (request_schedule (example_msg 1) 1 15)
        (smi_start (idle_smi (kcs_idle_example [4, 0, 0]) False) 2) = Some S \<and>
      map (\<lambda>d. (msg_ptr d, take (nat (msg_rsp_size d)) (msg_rsp d))) (smi_delivered S) = [(Upper 1, [4, 0, 0])]"
proof -
  have m: "msg_ok (example_msg 1)" "msg_ptr (example_msg 1) = Upper 1" "\<not> msg_tagged (example_msg 1)" "msg_data_size (example_msg 1) = 2"
    by (simp_all add: example_msg_def msg_ok_def IPMI_MAX_MSG_LENGTH_def)
  have "env_ok False example_env" by (simp add: env_ok_def example_env_def)
  moreover have "kcs_state (kcs_idle_example [4, 0, 0]) = KCS_IDLE" "kcs_dev (kcs_idle_example [4, 0, 0]) = ([], [4, 0, 0])"
      "\<not> kcs_truncated (kcs_idle_example [4, 0, 0])"
    by (simp_all add: kcs_idle_example_def init_kcs_data_def)
  ultimately show ?thesis
    using smi_request_answered [of "kcs_idle_example [4, 0, 0]" "[4, 0, 0]" "example_msg 1" example_env 1] kcs_idle_example_inv m by auto
qed

section \<open>An interface that comes up\<close>

text \<open>An interface that comes up: the BMC answers the request for its device identifier with nine bytes.\<close>

definition up_kcs :: "u8 list kcs_data" where
  "up_kcs = script_kcs (0 # script_txn 2 [0x1c, 1, 0, 0x20, 0x80, 1, 2, 0x51, 0] @ [0])"

lemma up_smi: "\<exists>smi. try_smi_init (kcs_smi_handlers script_io) False True (\<lambda>_. 0) (Some (replicate 272 0)) up_kcs = Some (Inr smi)"
proof -
  have "(case try_smi_init (kcs_smi_handlers script_io) False True (\<lambda>_. 0) (Some (replicate 272 0)) up_kcs of Some (Inr _) \<Rightarrow> True | _ \<Rightarrow> False)"
    by code_simp
  then show ?thesis by (auto split: option.splits sum.splits)
qed

lemma up_kcs_raw: "kcs_raw up_kcs"
  by (simp add: up_kcs_def script_kcs_def init_kcs_data_def kcs_raw_def kcs_size_defs)

text \<open>The interface once a message has been handed to \<open>sender\<close>.\<close>

definition example_sending :: "'s smi_info \<Rightarrow> 's smi_sys" where
  "example_sending smi = (smi_start smi 2)\<lparr>smi_pcs := [Send (example_msg 1) 0, Smi_idle], smi_sent := {#Upper 1#}\<rparr>"

lemma example_sending_reach: "smi_reach h many mem (smi_start smi 2) (example_sending smi)"
  by (rule smi_exec_reach [where as = "[Do_send 0 (example_msg 1) 0]" and env = example_env])
     (simp add: example_sending_def smi_start_def example_msg_def msg_ok_def IPMI_MAX_MSG_LENGTH_def numeral_eq_Suc)

section \<open>Every interleaving\<close>

text \<open>C2: No message is lost, duplicated or freed under its owner, for the KCS interface from its bring-up on. With any BMC, any number of
  senders, with or without an interrupt line, also when memory is short, when another interface registers its notifier and when the interface
  is being removed, and with one thread at a time in \<open>smi_event_handler\<close>: the messages handed to \<open>sender\<close> are at any time those that are
  queued or current, in the hands of a thread on their way, or delivered, each once; only messages that the driver itself allocated
  are freed; and the count of pending requests is at least the number of counted messages that are queued or current, and equal to it as
  long as the notifier of Dell BT systems is not on the list that all interfaces share.\<close>

theorem smi_conserves_messages:
  assumes "kcs_raw k" and "try_smi_init (kcs_smi_handlers io) False has_irq clk (Some resp) k = Some (Inr smi)"
    and "smi_reach (kcs_smi_handlers io) False mem (smi_start smi n) S"
  shows "smi_sent S = filter_mset is_upper (ptrs (queued (sys_smi S) @ thread_msgs (smi_pcs S) @ smi_delivered S)) \<and>
    (\<forall>p \<in># smi_freed S. \<not> is_upper p) \<and> tags (queued (sys_smi S)) \<le> pendingRequests (sys_smi S) \<and>
    (xaction_notifier (sys_smi S) \<or> pendingRequests (sys_smi S) = tags (queued (sys_smi S)))"
  by (rule kcs_driver.smi_inv_conserves [OF kcs_driver.smi_reach_inv [OF assms(3) kcs_driver.try_smi_init_inv [OF assms(2,1)]]])

theorem smi_conserves_messages_witness:
  "\<exists>smi. try_smi_init (kcs_smi_handlers script_io) False True (\<lambda>_. 0) (Some (replicate 272 0)) up_kcs = Some (Inr smi) \<and>
     smi_sent (example_sending smi) = filter_mset is_upper
       (ptrs (queued smi @ thread_msgs (smi_pcs (example_sending smi)) @ smi_delivered (example_sending smi))) \<and>
     tags (queued smi) \<le> pendingRequests smi"
proof -
  obtain smi where up: "try_smi_init (kcs_smi_handlers script_io) False True (\<lambda>_. 0) (Some (replicate 272 0)) up_kcs = Some (Inr smi)"
    using up_smi by blast
  have "sys_smi (example_sending smi) = smi" by (simp add: example_sending_def smi_start_def)
  then show ?thesis
    using smi_conserves_messages [OF up_kcs_raw up example_sending_reach [where mem = False]] up by auto
qed



lemma smic_conserves_messages:
  assumes "smic_raw k" and "try_smi_init (smic_smi_handlers io) False has_irq clk (Some resp) k = Some (Inr smi)"
    and "smi_reach (smic_smi_handlers io) False mem (smi_start smi n) S"
  shows "smi_sent S = filter_mset is_upper (ptrs (queued (sys_smi S) @ thread_msgs (smi_pcs S) @ smi_delivered S)) \<and>
    (\<forall>p \<in># smi_freed S. \<not> is_upper p)"
  using smic_driver.smi_inv_conserves [OF smic_driver.smi_reach_inv [OF assms(3) smic_driver.try_smi_init_inv [OF assms(2,1)]]]
  by blast

end
