(* ===== verification/Ipmi_Smi_Faults.thy ===== *)
theory Ipmi_Smi_Faults
  imports Ipmi_Smi_Run
begin

text \<open>
  What goes wrong in the IPMI system interface driver, outside of what \<open>Ipmi_Smi_Run\<close> assumes: two threads in
  \<open>smi_event_handler\<close> lose a message for good, the error path of \<open>start_next_msg\<close> deadlocks with a second thread, and a failed
  allocation makes the driver forget a transaction that it has started. Each run is a schedule that \<open>smi_exec\<close> executes,
  against a scripted BMC.
\<close>

definition race_schedule :: "smi_act list" where
  "race_schedule =
     [Do_send 2 (example_msg 1) 0, Do_run 2, Do_run 2, Do_run 2, Do_drive 0 0] @ replicate 10 (Do_run 0) @
     [Do_send 2 (example_msg 2) 0, Do_run 2, Do_run 2, Do_run 2, Do_drive 1 0] @ replicate 12 (Do_run 1) @
     replicate 4 (Do_run 0) @ [Do_drive 0 0] @ replicate 6 (Do_run 0)"

definition race_start :: "u8 list kcs_data smi_sys" where
  "race_start = smi_start (idle_smi (script_kcs (script_txn 2 [4,0,0] @ [0] @ script_txn 2 [4,0,0] @ [0x40, 0])) False) 3"

definition deadlock_schedule :: "smi_act list" where
  "deadlock_schedule =
     [Do_drive 0 2000000] @ replicate 6 (Do_run 0) @ [Do_send 1 (example_msg 1) 0] @ replicate 3 (Do_run 1) @
     [Do_drive 0 0] @ replicate 6 (Do_run 0) @ [Do_run 1]"

definition deadlock_start :: "u8 list kcs_data smi_sys" where
  "deadlock_start = smi_start (idle_smi (script_kcs [0x02,0,0,0x40,0x41,0,0x01,0,0]) False) 2"

definition memory_schedule :: "smi_act list" where
  "memory_schedule =
     [Do_drive 0 0] @ replicate 16 (Do_run 0) @ [Do_send 1 (example_msg 1) 0] @ replicate 5 (Do_run 1)"

definition memory_start :: "u8 list kcs_data smi_sys" where
  "memory_start = smi_start (idle_smi (script_kcs (4 # script_txn 2 [0x1c,0x31,0,1] @ [0])) True) 2"

text \<open>That at most one thread is in the handler, by counting.\<close>

lemma one_driver_Cons: "one_driver (pc # pcs) \<longleftrightarrow> one_driver pcs \<and> (drives pc \<longrightarrow> list_all (\<lambda>p. \<not> drives p) pcs)"
  unfolding one_driver_def list_all_length length_Cons All_less_Suc2 nth_Cons_0 nth_Cons_Suc by auto

lemma one_driver_Nil: "one_driver []"
  by (simp add: one_driver_def)

lemmas one_driver_code [code] = one_driver_Nil [THEN eqTrueI] one_driver_Cons

text \<open>A run that is executed up to what it shows of its last state leads to such a state.\<close>

lemma exec_shows:
  assumes "map_option f (smi_exec h many mem env as s) = Some v"
  shows "\<exists>S. smi_reach h many mem s S \<and> f S = v"
  using assms smi_exec_reach by fastforce

section \<open>No message comes back\<close>

text \<open>Whatever the state and however many threads are in the handler, a segment ends with no more messages than it began with and
  allocated: the message a thread has taken out, \<open>curr_msg\<close>, the queues, what was freed and what was delivered.\<close>

definition no_more :: "'s smi_info \<Rightarrow> ipmi_smi_msg list \<Rightarrow> 's smi_info \<Rightarrow> ipmi_smi_msg list \<Rightarrow> smi_eff list \<Rightarrow> bool" where
  "no_more s ms s' ms' effs \<longleftrightarrow>
     ptrs (queued s') + ptrs ms' + freed effs + ptrs (delivered effs) \<subseteq># ptrs (queued s) + ptrs ms + alloced effs"

lemma start_own_queues:
  "start_own h d s = Some s' \<Longrightarrow> hp_xmit_msgs s' = hp_xmit_msgs s \<and> xmit_msgs s' = xmit_msgs s \<and> curr_msg s' = curr_msg s"
  by (auto simp: start_own_def bind_eq_Some_conv)

lemma start_own_queued: "start_own h d s = Some s' \<Longrightarrow> queued s' = queued s"
  by (drule start_own_queues) (simp add: queued_def)

lemma irq_queues:
  "start_clear_flags h s = Some s' \<Longrightarrow> queued s' = queued s" "start_enable_irq h s = Some s' \<Longrightarrow> queued s' = queued s"
  "disable_si_irq h s = Some s' \<Longrightarrow> hp_xmit_msgs s' = hp_xmit_msgs s \<and> xmit_msgs s' = xmit_msgs s \<and> curr_msg s' = curr_msg s"
  "enable_si_irq h s = Some s' \<Longrightarrow> hp_xmit_msgs s' = hp_xmit_msgs s \<and> xmit_msgs s' = xmit_msgs s \<and> curr_msg s' = curr_msg s"
  by (auto simp: start_clear_flags_def start_enable_irq_def start_disable_irq_def disable_si_irq_def enable_si_irq_def queued_def
      bind_eq_Some_conv dest!: start_own_queues split: if_splits)

lemma fetch_no_more: "fetch_from_bmc h a c st s = Some (s', cbs, effs) \<Longrightarrow> no_more s [] s' (concat (map callback_msgs cbs)) effs"
  by (auto simp: fetch_from_bmc_def no_more_def queued_def set_request_def bind_eq_Some_conv dest!: irq_queues(3,4) start_own_queues
      split: option.splits)

lemma handle_flags_no_more: "handle_flags h a s = Some (s', cbs, effs) \<Longrightarrow> no_more s [] s' (concat (map callback_msgs cbs)) effs"
proof (induction h a s rule: handle_flags.induct)
  case (1 h a s)
  show ?case
  proof (cases "\<not> flag (msg_flags s) 8 \<and> \<not> flag (msg_flags s) 1 \<and> \<not> flag (msg_flags s) 2 \<and> flag (msg_flags s) 0xe0 \<and> oem_data_avail_handler s")
    case True
    then have "handle_flags h a (oem_data_avail_to_receive_msg_avail s) = Some (s', cbs, effs)"
      using 1(2) by (simp add: handle_flags.simps [of h a s])
    then show ?thesis using 1(1) True by (simp add: oem_data_avail_to_receive_msg_avail_def no_more_def)
  next
    case False
    then show ?thesis using 1(2) unfolding handle_flags.simps [of h a s]
      by (auto simp: no_more_def bind_eq_Some_conv queued_def [of "s\<lparr>watchdog_pretimeouts := x\<rparr>" for x] queued_def [of s]
          dest!: fetch_no_more irq_queues(1) split: if_splits)
  qed
qed

text \<open>The current message is taken out.\<close>

definition taken :: "'s smi_info \<Rightarrow> ipmi_smi_msg \<Rightarrow> 's smi_info \<Rightarrow> bool" where
  "taken s m s' \<longleftrightarrow> ptrs (queued s) = add_mset (msg_ptr m) (ptrs (queued s'))"

lemma untag_queues:
  "msg_ptr (fst (untag m s)) = msg_ptr m" "hp_xmit_msgs (snd (untag m s)) = hp_xmit_msgs s" "xmit_msgs (snd (untag m s)) = xmit_msgs s"
  by (simp_all add: untag_def)

lemma make_response_ptr: "make_response c m = Some m' \<Longrightarrow> msg_ptr m' = msg_ptr m"
  by (auto simp: make_response_def bind_eq_Some_conv)

lemma taken_out:
  "take_result h s = Some (m, s') \<Longrightarrow> taken s m s'" "return_hosed_msg c s = Some (m, s') \<Longrightarrow> taken s m s'"
  "return_hosed_msg_badsize s = Some (m, s') \<Longrightarrow> taken s m s'"
  by (auto simp: take_result_def return_hosed_msg_def return_hosed_msg_badsize_def taken_def queued_def Let_def bind_eq_Some_conv
      case_prod_beta untag_queues dest!: make_response_ptr)

lemma own_result_queues: "own_result h stk s = Some (n, d, cc, s') \<Longrightarrow> queued s' = queued s"
  by (auto simp: own_result_def bind_eq_Some_conv)

lemma fetched_no_more:
  assumes "fetched_done h a fl bump s = Some (s', cbs, effs)" "\<And>s. queued (bump s) = queued s"
  shows "no_more s [] s' (concat (map callback_msgs cbs)) effs"
proof -
  obtain m s1 r2 where t: "take_result h s = Some (m, s1)" "buf_get (msg_rsp m) 2 = Some r2"
    using assms(1) by (auto simp: fetched_done_def bind_eq_Some_conv)
  let ?s = "if r2 \<noteq> 0 then s1\<lparr>msg_flags := msg_flags s1 AND NOT fl\<rparr> else bump s1"
  obtain cbs0 effs0 where f: "handle_flags h a ?s = Some (s', cbs0, effs0)"
      "cbs = (if r2 \<noteq> 0 then cbs0 else cbs0 @ [Deliver m])" "effs = (if r2 \<noteq> 0 then Eff_done (msg_ptr m) # effs0 else effs0)"
    using assms(1) t by (auto simp: fetched_done_def bind_eq_Some_conv split: if_splits)
  have "queued ?s = queued s1" using assms(2) by simp
  then have "ptrs (queued s') + ptrs (concat (map callback_msgs cbs0)) + freed effs0 + ptrs (delivered effs0) \<subseteq># ptrs (queued s1) + alloced effs0"
    using handle_flags_no_more [OF f(1)] by (simp add: no_more_def)
  then show ?thesis using f(2,3) taken_out(1) [OF t(1)] by (simp add: no_more_def taken_def union_assoc)
qed

lemma done_no_more:
  assumes "handle_transaction_done h a stk s = Some (s', cbs, effs)"
  shows "no_more s [] s' (concat (map callback_msgs cbs)) effs"
proof -
  have f: "no_more s [] s' (concat (map callback_msgs cbs)) effs"
    if "fetched_done h a fl (\<lambda>s. s\<lparr>events := events s + 1\<rparr>) s = Some (s', cbs, effs) \<or>
        fetched_done h a fl (\<lambda>s. s\<lparr>incoming_messages := incoming_messages s + 1\<rparr>) s = Some (s', cbs, effs)" for fl
    using that by (auto elim!: fetched_no_more simp: queued_def)
  show ?thesis
    using assms f
    by (cases "si_state s")
       (auto simp: handle_transaction_done_def enables_read_def no_more_def bind_eq_Some_conv taken_def
         dest!: own_result_queues taken_out(1) start_own_queued irq_queues(2) handle_flags_no_more split: if_splits)
qed

lemma next_no_more:
  assumes "start_next_msg h s = Some (r, s')"
  shows "ptrs (queued s') + ptrs (case r of Next_stopped m \<Rightarrow> [m] | _ \<Rightarrow> []) \<subseteq># ptrs (queued s)"
proof -
  have d: "case x of None \<Rightarrow> s2 = s1 | Some m \<Rightarrow> taken s1 m s2" if "dell_poweredge_bt_xaction_handler s1 = Some (x, s2)" for s1 :: "'a smi_info" and x s2
    using that by (auto simp: dell_poweredge_bt_xaction_handler_def bind_eq_Some_conv split: if_splits dest: taken_out(3))
  define pick where "pick = (case hp_xmit_msgs s of m # ms \<Rightarrow> Some (m, s\<lparr>hp_xmit_msgs := ms\<rparr>)
                  | [] \<Rightarrow> (case xmit_msgs s of m # ms \<Rightarrow> Some (m, s\<lparr>xmit_msgs := ms\<rparr>) | [] \<Rightarrow> None))"
  note n = assms [unfolded start_next_msg_def Let_def, folded pick_def]
  show ?thesis
  proof (cases pick)
    case None
    then show ?thesis using n by (auto simp: queued_def)
  next
    case (Some y)
    obtain m s0 where y: "y = (m, s0)" by (cases y)
    let ?s = "s0\<lparr>curr_msg := Some m\<rparr>"
    have q: "ptrs (queued ?s) \<subseteq># ptrs (queued s)"
      using Some y by (auto simp: pick_def queued_def split: list.splits)
    have "ptrs (queued s') + ptrs (case r of Next_stopped m \<Rightarrow> [m] | _ \<Rightarrow> []) = ptrs (queued ?s)"
      using n Some y
      by (auto simp: bind_eq_Some_conv taken_def split: if_splits option.splits dest!: d taken_out(2))
    then show ?thesis using q by simp
  qed
qed

lemma seg_no_more:
  assumes "smi_seg h env s pc = Some (s', pc', effs)"
  shows "no_more s (pc_msgs pc) s' (pc_msgs pc') effs"
proof (cases pc)
  case (Callback cb cbs k)
  then show ?thesis using assms by (cases cb) (auto simp: no_more_def)
next
  case (Send m p)
  then show ?thesis using assms by (auto simp: no_more_def seg_send_def Let_def queued_def split: if_splits)
next
  case (Result r ret)
  then show ?thesis using assms
    by (auto simp: no_more_def seg_result_def sm_event_def Let_def taken_def kcs_driver.pc_msgs_calls bind_eq_Some_conv
        dest!: done_no_more taken_out(2) split: if_splits)
next
  case (Next c)
  then obtain r where r: "start_next_msg h s = Some (r, s')" using assms by (auto simp: seg_next_def bind_eq_Some_conv)
  then show ?thesis using Next assms next_no_more [OF r]
    by (cases r; cases c) (auto simp: no_more_def seg_next_def)
next
  case (Req_events ret)
  then show ?thesis using assms
    by (auto simp: no_more_def seg_req_events_def Let_def bind_eq_Some_conv set_request_def queued_def kcs_driver.pc_msgs_return
        dest!: start_own_queues split: if_splits option.splits)
qed (use assms in \<open>auto simp: no_more_def seg_send_lock_def seg_set_rtc_def sm_event_def seg_attn_def bind_eq_Some_conv
       kcs_driver.pc_msgs_calls kcs_driver.pc_msgs_return dest!: start_own_queued split: if_splits\<close>)

text \<open>What is allocated comes from the allocator.\<close>

lemma fetch_allocs: "fetch_from_bmc h a c st s = Some (s', cbs, effs) \<Longrightarrow> alloced effs \<subseteq># ptrs (case a of None \<Rightarrow> [] | Some m \<Rightarrow> [m])"
  by (auto simp: fetch_from_bmc_def bind_eq_Some_conv split: option.splits)

lemma handle_flags_allocs: "handle_flags h a s = Some (s', cbs, effs) \<Longrightarrow> alloced effs \<subseteq># ptrs (case a of None \<Rightarrow> [] | Some m \<Rightarrow> [m])"
proof (induction h a s rule: handle_flags.induct)
  case (1 h a s)
  show ?case
  proof (cases "\<not> flag (msg_flags s) 8 \<and> \<not> flag (msg_flags s) 1 \<and> \<not> flag (msg_flags s) 2 \<and> flag (msg_flags s) 0xe0 \<and> oem_data_avail_handler s")
    case True
    then have "handle_flags h a (oem_data_avail_to_receive_msg_avail s) = Some (s', cbs, effs)"
      using 1(2) by (simp add: handle_flags.simps [of h a s])
    then show ?thesis using 1(1) True by simp
  next
    case False
    then show ?thesis using 1(2) unfolding handle_flags.simps [of h a s]
      by (auto simp: bind_eq_Some_conv dest!: fetch_allocs split: if_splits)
  qed
qed

lemma done_allocs:
  assumes "handle_transaction_done h a stk s = Some (s', cbs, effs)"
  shows "alloced effs \<subseteq># ptrs (case a of None \<Rightarrow> [] | Some m \<Rightarrow> [m])"
  using assms
  by (cases "si_state s")
     (auto simp: handle_transaction_done_def fetched_done_def enables_read_def bind_eq_Some_conv dest!: handle_flags_allocs split: if_splits)

lemma seg_allocs:
  assumes "env_ok mem env" "smi_seg h env s pc = Some (s', pc', effs)"
  shows "\<forall>q \<in># alloced effs. \<not> is_upper q"
proof -
  have "alloced effs \<subseteq># ptrs (case env_alloc env of None \<Rightarrow> [] | Some m \<Rightarrow> [m])"
  proof (cases pc)
    case (Callback cb cbs k)
    then show ?thesis using assms(2) by (cases cb) auto
  qed (use assms(2) in \<open>auto simp: seg_send_def seg_send_lock_def seg_set_rtc_def sm_event_def seg_result_def seg_attn_def seg_next_def
         seg_req_events_def Let_def bind_eq_Some_conv dest!: done_allocs split: if_splits option.splits\<close>)
  then show ?thesis using assms(1) by (auto simp: env_ok_def dest!: mset_subset_eqD split: option.splits)
qed

text \<open>Where the messages of the upper layer are that have not gone astray.\<close>

definition here :: "'s smi_sys \<Rightarrow> msg_ptr multiset" where
  "here S = ptrs (queued (sys_smi S)) + ptrs (thread_msgs (smi_pcs S)) + ptrs (smi_delivered S)"

lemma step_no_more:
  assumes "smi_step h many mem S S'" "is_upper p"
  shows "count (here S') p + count (smi_sent S) p \<le> count (here S) p + count (smi_sent S') p"
  using assms(1)
proof cases
  case (run t env s' pc' effs)
  note m = seg_no_more [OF run(5), unfolded no_more_def, THEN mset_subset_eq_count, of p]
  have a: "count (alloced effs) p = 0"
  proof -
    have "\<forall>q \<in># alloced effs. \<not> is_upper q" using run(4,5) seg_allocs by blast
    then show ?thesis using assms(2) by (auto simp: not_in_iff [symmetric])
  qed
  show ?thesis using m a arg_cong [OF thread_msgs_update [OF run(2), of pc'], of "\<lambda>M. count M p"] unfolding run(1)
    by (simp add: here_def ptrs_def delivered_def)
next
  case (send t m priority)
  then show ?thesis using arg_cong [OF thread_msgs_update [of t "smi_pcs S" "Send m priority"], of "\<lambda>M. count M p"] by (simp add: here_def)
next
  case (drive t time)
  then show ?thesis using arg_cong [OF thread_msgs_update [of t "smi_pcs S" "Handler time Once"], of "\<lambda>M. count M p"] by (simp add: here_def)
next
  case (rtc t b)
  then show ?thesis using arg_cong [OF thread_msgs_update [of t "smi_pcs S" "Set_rtc b"], of "\<lambda>M. count M p"] by (simp add: here_def)
qed (simp_all add: here_def queued_def request_events_def set_maintenance_mode_def register_xaction_notifier_def stop_smi_def)

lemma reach_no_more:
  assumes "smi_reach h many mem S S'" "is_upper p"
  shows "count (here S') p + count (smi_sent S) p \<le> count (here S) p + count (smi_sent S') p"
  using assms unfolding smi_reach_def
  by (induction rule: rtranclp_induct) (use step_no_more in fastforce)+

section \<open>Two threads in the handler\<close>

text \<open>C32: Two threads in \<open>smi_event_handler\<close> lose a message for good. The first has dropped \<open>si_lock\<close> to deliver the answer to message 1; meanwhile
  message 2 is sent and the second thread runs its transaction up to its last byte, where the BMC lets it wait. The event that the
  first thread calls after its delivery completes the transaction, and \<open>smi_event_handler\<close> drops that result. Then every
  thread is idle, nothing is queued or current, and message 2 is not answered, although a request is still counted as pending. No
  continuation makes up for it, whatever threads, BMC and further senders do: message 2 has been delivered fewer times than it
  was sent.\<close>

theorem smi_lost_message:
  "\<exists>S. smi_reach (kcs_smi_handlers script_io) True False race_start S \<and>
     smi_pcs S = [Smi_idle, Smi_idle, Smi_idle] \<and> queued (sys_smi S) = [] \<and> pendingRequests (sys_smi S) = 1 \<and>
     smi_sent S = {#Upper 1, Upper 2#} \<and> map msg_ptr (smi_delivered S) = [Upper 1] \<and>
     {S'. smi_reach (kcs_smi_handlers script_io) True False S S' \<and>
        count (smi_sent S') (Upper 2) \<le> count (ptrs (smi_delivered S')) (Upper 2)} = {}"
proof -
  have "map_option (\<lambda>S. (smi_pcs S, queued (sys_smi S), pendingRequests (sys_smi S), smi_sent S, map msg_ptr (smi_delivered S)))
      (smi_exec (kcs_smi_handlers script_io) True False example_env race_schedule race_start) =
    Some ([Smi_idle, Smi_idle, Smi_idle], [], 1, {#Upper 1, Upper 2#}, [Upper 1])"
    by code_simp
  from exec_shows [OF this] obtain S where S: "smi_reach (kcs_smi_handlers script_io) True False race_start S"
      "smi_pcs S = [Smi_idle, Smi_idle, Smi_idle]" "queued (sys_smi S) = []" "pendingRequests (sys_smi S) = 1"
      "smi_sent S = {#Upper 1, Upper 2#}" "map msg_ptr (smi_delivered S) = [Upper 1]"
    by (auto simp del: map_eq_Cons_conv)
  then have "count (here S) (Upper 2) = 0" by (simp add: here_def ptrs_def thread_msgs_def)
  then have "count (ptrs (smi_delivered S')) (Upper 2) < count (smi_sent S') (Upper 2)"
    if "smi_reach (kcs_smi_handlers script_io) True False S S'" for S'
    using reach_no_more [OF that, of "Upper 2"] S(5) by (simp add: here_def)
  then show ?thesis using S by (intro exI [of _ S]) (auto simp: not_less [symmetric])
qed

section \<open>A deadlock of the two locks\<close>

text \<open>A thread that waits for \<open>msg_lock\<close> with \<open>si_lock\<close> held, and one that waits for \<open>si_lock\<close> with \<open>msg_lock\<close> held.\<close>

definition deadlocked :: "nat \<Rightarrow> nat \<Rightarrow> smi_pc list \<Rightarrow> bool" where
  "deadlocked t u pcs \<longleftrightarrow> t < length pcs \<and> u < length pcs \<and>
     wants_msg (pcs ! t) \<and> holds_si (pcs ! t) \<and> wants_si (pcs ! u) \<and> holds_msg (pcs ! u)"

lemma deadlocked_not_free:
  assumes "deadlocked t u pcs"
  shows "\<not> locks_free pcs (pcs ! t)" "\<not> locks_free pcs (pcs ! u)"
  using assms unfolding deadlocked_def locks_free_def by (metis nth_mem)+

lemma deadlocked_step:
  assumes "smi_step h many mem S S'" "deadlocked t u (smi_pcs S)"
  shows "smi_pcs S' ! t = smi_pcs S ! t \<and> smi_pcs S' ! u = smi_pcs S ! u \<and> deadlocked t u (smi_pcs S')"
  using assms
proof cases
  case (run v env smi pc effs)
  then have "v \<noteq> t" "v \<noteq> u" using deadlocked_not_free [OF assms(2)] by auto
  then show ?thesis using run assms(2) by (simp add: deadlocked_def)
qed (auto simp: deadlocked_def nth_list_update)

lemma deadlocked_forever:
  assumes "smi_reach h many mem S S'" "deadlocked t u (smi_pcs S)"
  shows "smi_pcs S' ! t = smi_pcs S ! t \<and> smi_pcs S' ! u = smi_pcs S ! u"
proof -
  have "smi_pcs S' ! t = smi_pcs S ! t \<and> smi_pcs S' ! u = smi_pcs S ! u \<and> deadlocked t u (smi_pcs S')"
    using assms unfolding smi_reach_def by (induction rule: rtranclp_induct) (auto dest: deadlocked_step)
  then show ?thesis by simp
qed

text \<open>C33: The driver deadlocks, with one thread in \<open>smi_event_handler\<close>. A machine that is not ready makes \<open>start_next_msg\<close>, called by
  \<open>sender\<close>, return the message with an error: it drops \<open>si_lock\<close> for the delivery and takes it again with \<open>msg_lock\<close> held. When the handler
  comes in between with \<open>si_lock\<close> and calls \<open>start_next_msg\<close> for \<open>msg_lock\<close>, the two threads stay where they are in every continuation.\<close>

theorem smi_deadlock:
  "\<exists>S. smi_reach (kcs_smi_handlers script_io) False False deadlock_start S \<and>
     {(smi_pcs S' ! 0, smi_pcs S' ! 1) | S'. smi_reach (kcs_smi_handlers script_io) False False S S'} =
     {(Next (By_handler Once), Relock [] (End_next By_sender))}"
proof -
  have "map_option smi_pcs (smi_exec (kcs_smi_handlers script_io) False False example_env deadlock_schedule deadlock_start) =
    Some [Next (By_handler Once), Relock [] (End_next By_sender)]"
    by code_simp
  from exec_shows [OF this] obtain S where S: "smi_reach (kcs_smi_handlers script_io) False False deadlock_start S"
      "smi_pcs S = [Next (By_handler Once), Relock [] (End_next By_sender)]"
    by blast
  then have d: "deadlocked 0 1 (smi_pcs S)" by (simp add: deadlocked_def)
  have "smi_reach (kcs_smi_handlers script_io) False False S S" by (simp add: smi_reach_def)
  with S show ?thesis using deadlocked_forever [OF _ d] by (intro exI [of _ S]) force
qed

section \<open>A failed allocation\<close>

text \<open>A failed allocation makes the driver with an interrupt line refuse a good message. \<open>handle_flags\<close> finds no memory for the message of the BMC and
  \<open>disable_si_irq\<close> starts a transaction to turn off the interrupts; then the state is set back to \<open>SI_NORMAL\<close> as if nothing had
  been started. The next message is refused by the busy machine and returned to its sender with \<open>IPMI_NOT_IN_MY_STATE_ERR\<close>, while the
  interface counts its interrupts as disabled.\<close>

theorem smi_memory_refuses_message:
  "\<exists>S. smi_reach (kcs_smi_handlers script_io) False False memory_start S \<and>
     smi_pcs S = [Smi_idle, Smi_idle] \<and> si_state (sys_smi S) = SI_NORMAL \<and> curr_msg (sys_smi S) = None \<and>
     kcs_state (si_sm (sys_smi S)) = KCS_WAIT_WRITE_START \<and> interrupt_disabled (sys_smi S) \<and>
     map (\<lambda>m. (msg_ptr m, take (nat (msg_rsp_size m)) (msg_rsp m))) (smi_delivered S) = [(Upper 1, [4, 0, 0xd5])]"
proof -
  have "map_option (\<lambda>S. (smi_pcs S, si_state (sys_smi S), curr_msg (sys_smi S), kcs_state (si_sm (sys_smi S)), interrupt_disabled (sys_smi S),
        map (\<lambda>m. (msg_ptr m, take (nat (msg_rsp_size m)) (msg_rsp m))) (smi_delivered S)))
      (smi_exec (kcs_smi_handlers script_io) False False example_env memory_schedule memory_start) =
    Some ([Smi_idle, Smi_idle], SI_NORMAL, None, KCS_WAIT_WRITE_START, True, [(Upper 1, [4, 0, 0xd5])])"
    by code_simp
  from exec_shows [OF this] show ?thesis by auto
qed

end
