(* ===== verification/Ipmi_Msg.thy ===== *)
theory Ipmi_Msg
  imports Ipmi_Smi
begin

text \<open>
  The IPMI message handler, \<^verbatim>\<open>drivers/char/openipmi/ipmi_msghandler/ipmi_msghandler.c\<close>, first part: addresses, the framing of messages
  that the BMC forwards to a bus, the table of sequence numbers, and requests of users. The handler sits between the users of
  an interface and the system interface driver of \<open>Ipmi_Smi\<close>, whose \<open>sender\<close> it calls.

  A message object is a value that lives in one place: the table entry, the message below (\<open>user_data\<close>) or the list that the code
  links it into. \<open>rm_id\<close> names the allocation. What the handler calls in the layers around it, and what it
  frees, is appended to \<open>mh_log\<close>.
\<close>

section \<open>Addresses\<close>

text \<open>The overlay \<open>struct ipmi_addr\<close> with its four layouts, and any other \<open>addr_type\<close>. The channel is a \<open>short\<close>.\<close>

datatype ipmi_addr =
  System_interface_addr int u8
| Ipmb_addr int u8 u8
| Ipmb_broadcast_addr int u8 u8
| Lan_addr int u8 u8 u8 u8 u8
| Other_addr int int

fun addr_channel :: "ipmi_addr \<Rightarrow> int" where
  "addr_channel (System_interface_addr c lun) = c"
| "addr_channel (Ipmb_addr c slave lun) = c"
| "addr_channel (Ipmb_broadcast_addr c slave lun) = c"
| "addr_channel (Lan_addr c priv session remote local lun) = c"
| "addr_channel (Other_addr t c) = c"

fun ipmi_addr_equal :: "ipmi_addr \<Rightarrow> ipmi_addr \<Rightarrow> bool" where
  "ipmi_addr_equal (System_interface_addr c l) (System_interface_addr c' l') = (c = c' \<and> l = l')"
| "ipmi_addr_equal (Ipmb_addr c s l) (Ipmb_addr c' s' l') = (c = c' \<and> s = s' \<and> l = l')"
| "ipmi_addr_equal (Ipmb_broadcast_addr c s l) (Ipmb_broadcast_addr c' s' l') = (c = c' \<and> s = s' \<and> l = l')"
| "ipmi_addr_equal (Lan_addr c p h r w l) (Lan_addr c' p' h' r' w' l') = (c = c' \<and> r = r' \<and> w = w' \<and> h = h' \<and> l = l')"
| "ipmi_addr_equal (Other_addr t c) (Other_addr t' c') = (t = t' \<and> c = c')"
| "ipmi_addr_equal _ _ = False"

abbreviation (input) IPMI_MAX_CHANNELS :: nat where "IPMI_MAX_CHANNELS \<equiv> 16"
abbreviation (input) IPMI_BMC_CHANNEL :: int where "IPMI_BMC_CHANNEL \<equiv> 15"
abbreviation (input) EINVAL :: int where "EINVAL \<equiv> 22"
abbreviation (input) EAGAIN :: int where "EAGAIN \<equiv> 11"
abbreviation (input) ENOMEM :: int where "ENOMEM \<equiv> 12"
abbreviation (input) EBUSY :: int where "EBUSY \<equiv> 16"
abbreviation (input) ENOENT :: int where "ENOENT \<equiv> 2"
abbreviation (input) EMSGSIZE :: int where "EMSGSIZE \<equiv> 90"

text \<open>The sizes of the C structures.\<close>

abbreviation (input) sizeof_system_interface_addr :: int where "sizeof_system_interface_addr \<equiv> 8"
abbreviation (input) sizeof_ipmb_addr :: int where "sizeof_ipmb_addr \<equiv> 8"
abbreviation (input) sizeof_lan_addr :: int where "sizeof_lan_addr \<equiv> 12"

text \<open>\<open>len\<close> is compared with a \<open>sizeof\<close>, that is, as an unsigned number.\<close>

definition ipmi_validate_addr :: "ipmi_addr \<Rightarrow> int \<Rightarrow> int" where
  "ipmi_validate_addr addr len =
     (if 0 \<le> len \<and> len < sizeof_system_interface_addr then - EINVAL
      else case addr of
        System_interface_addr c lun \<Rightarrow> if c \<noteq> IPMI_BMC_CHANNEL then - EINVAL else 0
      | _ \<Rightarrow>
        if addr_channel addr = IPMI_BMC_CHANNEL \<or> addr_channel addr \<ge> int IPMI_MAX_CHANNELS \<or> addr_channel addr < 0 then - EINVAL
        else (case addr of
            Ipmb_addr c s l \<Rightarrow> if 0 \<le> len \<and> len < sizeof_ipmb_addr then - EINVAL else 0
          | Ipmb_broadcast_addr c s l \<Rightarrow> if 0 \<le> len \<and> len < sizeof_ipmb_addr then - EINVAL else 0
          | Lan_addr c p h r w l \<Rightarrow> if 0 \<le> len \<and> len < sizeof_lan_addr then - EINVAL else 0
          | _ \<Rightarrow> - EINVAL))"

section \<open>Messages, users, the interface\<close>

record kernel_ipmi_msg =
  km_netfn :: u8
  km_cmd :: u8
  km_data :: "u8 list"

datatype recv_type =
  IPMI_RESPONSE_RECV_TYPE | IPMI_ASYNC_EVENT_RECV_TYPE | IPMI_CMD_RECV_TYPE | IPMI_RESPONSE_RESPONSE_TYPE | IPMI_OEM_RECV_TYPE

text \<open>\<open>rm_data\<close> is the bytes that \<open>msg.data\<close> and \<open>msg.data_len\<close> denote; \<open>rm_user\<close> is \<^term>\<open>None\<close> for \<open>NULL\<close>.\<close>

record ipmi_recv_msg =
  rm_id :: nat
  rm_type :: recv_type
  rm_user :: "nat option"
  rm_addr :: ipmi_addr
  rm_msgid :: int
  rm_msg :: kernel_ipmi_msg

text \<open>The fields of \<open>struct ipmi_smi_msg\<close> that only the message handler uses.\<close>

record smi_req = ipmi_smi_msg +
  smi_msgid :: int
  smi_user_data :: "ipmi_recv_msg option"

record ipmi_user =
  user_valid :: bool
  user_refcount :: int
  gets_events :: bool

record cmd_rcvr =
  rcvr_user :: nat
  rcvr_netfn :: u8
  rcvr_cmd :: u8
  rcvr_chans :: u32

record seq_table =
  inuse :: bool
  seq_broadcast :: bool
  seq_timeout :: int
  orig_timeout :: u64
  retries_left :: u32
  seq_seqid :: int
  seq_recv_msg :: ipmi_recv_msg

record ipmi_channel =
  medium :: u8
  protocol :: u8
  ch_address :: u8
  ch_lun :: u8

datatype ipmi_counter =
  Sent_invalid_commands | Sent_local_commands | Handled_local_responses | Unhandled_local_responses
| Sent_ipmb_commands | Sent_ipmb_command_errs | Retransmitted_ipmb_commands | Timed_out_ipmb_commands | Timed_out_ipmb_broadcasts
| Sent_ipmb_responses | Handled_ipmb_responses | Invalid_ipmb_responses | Unhandled_ipmb_responses
| Sent_lan_commands | Sent_lan_command_errs | Retransmitted_lan_commands | Timed_out_lan_commands
| Sent_lan_responses | Handled_lan_responses | Invalid_lan_responses | Unhandled_lan_responses
| Handled_commands | Invalid_commands | Unhandled_commands | Invalid_events | Events

text \<open>What the handler does to the layers around it: it calls \<open>sender\<close>, the receive handler of a user, the handler for \<open>NULL\<close> users,
  \<open>set_maintenance_mode\<close> and \<open>request_events\<close>, and it frees messages and users.\<close>

datatype mh_eff =
  Sender smi_req int
| Recv_hndl ipmi_recv_msg
| Null_user_hndl ipmi_recv_msg
| Set_maintenance_mode bool
| Request_events
| Free_smi smi_req
| Free_recv ipmi_recv_msg
| Free_user nat

text \<open>\<open>struct ipmi_smi\<close>. \<open>mh_handlers\<close> says whether \<open>handlers\<close> is set, \<open>user_objs\<close> are the objects of all users, alive or not.\<close>

record ipmi_smi =
  intf_num :: int
  mh_handlers :: bool
  user_objs :: "nat \<Rightarrow> ipmi_user"
  users :: "nat list"
  seq_tab :: "seq_table list"
  curr_seq :: nat
  waiting_msgs :: "smi_req list"
  cmd_rcvrs :: "cmd_rcvr list"
  waiting_events :: "ipmi_recv_msg list"
  waiting_events_count :: nat
  delivering_events :: bool
  maintenance_mode :: int
  maintenance_mode_enable :: bool
  auto_maintenance_timeout :: int
  null_user_handler :: bool
  curr_channel :: int
  channels :: "ipmi_channel list"
  counters :: "ipmi_counter \<Rightarrow> u32"
  mh_log :: "mh_eff list"

definition emit :: "mh_eff \<Rightarrow> ipmi_smi \<Rightarrow> ipmi_smi" where
  "emit e s = s\<lparr>mh_log := mh_log s @ [e]\<rparr>"

definition bump :: "ipmi_counter \<Rightarrow> ipmi_smi \<Rightarrow> ipmi_smi" where
  "bump c s = s\<lparr>counters := (counters s)(c := counters s c + 1)\<rparr>"

definition set_user :: "nat \<Rightarrow> (ipmi_user \<Rightarrow> ipmi_user) \<Rightarrow> ipmi_smi \<Rightarrow> ipmi_smi" where
  "set_user u f s = s\<lparr>user_objs := (user_objs s)(u := f (user_objs s u))\<rparr>"

definition set_seq :: "nat \<Rightarrow> (seq_table \<Rightarrow> seq_table) \<Rightarrow> ipmi_smi \<Rightarrow> ipmi_smi" where
  "set_seq i f s = s\<lparr>seq_tab := (seq_tab s)[i := f (seq_tab s ! i)]\<rparr>"

section \<open>Reference counts of users, freeing, delivery\<close>

definition user_get :: "nat \<Rightarrow> ipmi_smi \<Rightarrow> ipmi_smi" where
  "user_get u = set_user u (\<lambda>o'. o'\<lparr>user_refcount := user_refcount o' + 1\<rparr>)"

definition user_put :: "nat \<Rightarrow> ipmi_smi \<Rightarrow> ipmi_smi" where
  "user_put u s =
     (let s1 = set_user u (\<lambda>o'. o'\<lparr>user_refcount := user_refcount o' - 1\<rparr>) s in
      if user_refcount (user_objs s1 u) = 0 then emit (Free_user u) s1 else s1)"

definition ipmi_free_recv_msg :: "ipmi_recv_msg \<Rightarrow> ipmi_smi \<Rightarrow> ipmi_smi" where
  "ipmi_free_recv_msg r s = emit (Free_recv r) (case rm_user r of None \<Rightarrow> s | Some u \<Rightarrow> user_put u s)"

definition deliver_response :: "ipmi_recv_msg \<Rightarrow> ipmi_smi \<Rightarrow> ipmi_smi" where
  "deliver_response r s =
     (case rm_user r of
        None \<Rightarrow> ipmi_free_recv_msg r
          (if null_user_handler s then bump Handled_local_responses (emit (Null_user_hndl r) s)
           else bump Unhandled_local_responses s)
      | Some u \<Rightarrow> emit (Recv_hndl r) s)"

definition deliver_err_response :: "ipmi_recv_msg \<Rightarrow> u8 \<Rightarrow> ipmi_smi \<Rightarrow> ipmi_smi" where
  "deliver_err_response r err = deliver_response
     (r\<lparr>rm_type := IPMI_RESPONSE_RECV_TYPE, rm_msg := (rm_msg r)\<lparr>km_data := [err], km_netfn := km_netfn (rm_msg r) OR 1\<rparr>\<rparr>)"

section \<open>Sequence numbers\<close>

abbreviation (input) IPMI_IPMB_NUM_SEQ :: nat where "IPMI_IPMB_NUM_SEQ \<equiv> 64"
abbreviation (input) MAX_MSG_TIMEOUT :: int where "MAX_MSG_TIMEOUT \<equiv> 60000"

text \<open>\<open>seq\<close> is an \<open>unsigned char\<close> that is shifted as an \<open>int\<close>; the result is a \<open>long\<close>.\<close>

definition STORE_SEQ_IN_MSGID :: "u8 \<Rightarrow> int \<Rightarrow> int" where
  "STORE_SEQ_IN_MSGID seq seqid = sint (push_bit 26 (ucast (seq AND 0xff)) :: 32 word) OR (seqid AND 0x3ffffff)"

definition GET_SEQ_FROM_MSGID :: "int \<Rightarrow> nat \<times> int" where
  "GET_SEQ_FROM_MSGID msgid = (nat (drop_bit 26 msgid AND 0x3f), msgid AND 0x3fffff)"

definition NEXT_SEQID :: "int \<Rightarrow> int" where
  "NEXT_SEQID seqid = (seqid + 1) AND 0x3fffff"

text \<open>The loop of \<open>intf_next_seq\<close>.\<close>

partial_function (option) next_seq_slot :: "seq_table list \<Rightarrow> nat \<Rightarrow> nat \<Rightarrow> nat option" where
  "next_seq_slot tbl start i =
     (if (i + 1) mod IPMI_IPMB_NUM_SEQ = start then Some i
      else Option.bind (buf_get tbl (int i)) (\<lambda>e. if \<not> inuse e then Some i else next_seq_slot tbl start ((i + 1) mod IPMI_IPMB_NUM_SEQ)))"

declare next_seq_slot.simps [code]

text \<open>\<^term>\<open>Inl\<close> is an error.\<close>

definition intf_next_seq ::
  "ipmi_recv_msg \<Rightarrow> u64 \<Rightarrow> int \<Rightarrow> bool \<Rightarrow> ipmi_smi \<Rightarrow> ((int + nat \<times> int) \<times> ipmi_smi) option" where
  "intf_next_seq recv_msg timeout retries broadcast s = do {
     i \<leftarrow> next_seq_slot (seq_tab s) (curr_seq s) (curr_seq s);
     e \<leftarrow> buf_get (seq_tab s) (int i);
     if \<not> inuse e
     then do {
       let seqid = NEXT_SEQID (seq_seqid e);
       let e1 = \<lparr>inuse = True, seq_broadcast = broadcast, seq_timeout = MAX_MSG_TIMEOUT, orig_timeout = timeout,
         retries_left = word_of_int retries, seq_seqid = seqid, seq_recv_msg = recv_msg\<rparr>;
       Some (Inr (i, seqid), s\<lparr>seq_tab := (seq_tab s)[i := e1], curr_seq := (i + 1) mod IPMI_IPMB_NUM_SEQ\<rparr>) }
     else Some (Inl (- EAGAIN), s) }"

definition intf_find_seq ::
  "nat \<Rightarrow> int \<Rightarrow> u8 \<Rightarrow> u8 \<Rightarrow> ipmi_addr \<Rightarrow> ipmi_smi \<Rightarrow> ((int + ipmi_recv_msg) \<times> ipmi_smi) option" where
  "intf_find_seq seq channel cmd netfn addr s =
     (if seq \<ge> IPMI_IPMB_NUM_SEQ then Some (Inl (- EINVAL), s)
      else do {
        e \<leftarrow> buf_get (seq_tab s) (int seq);
        let r = seq_recv_msg e;
        if inuse e \<and> addr_channel (rm_addr r) = channel \<and> km_cmd (rm_msg r) = cmd \<and> km_netfn (rm_msg r) = netfn \<and>
           ipmi_addr_equal addr (rm_addr r)
        then Some (Inr r, set_seq seq (\<lambda>e. e\<lparr>inuse := False\<rparr>) s)
        else Some (Inl (- ENODEV), s) })"

definition intf_start_seq_timer :: "int \<Rightarrow> ipmi_smi \<Rightarrow> (int \<times> ipmi_smi) option" where
  "intf_start_seq_timer msgid s =
     (case GET_SEQ_FROM_MSGID msgid of (seq, seqid) \<Rightarrow> do {
        e \<leftarrow> buf_get (seq_tab s) (int seq);
        if inuse e \<and> seq_seqid e = seqid
        then Some (0, set_seq seq (\<lambda>e. e\<lparr>seq_timeout := sint (orig_timeout e)\<rparr>) s)
        else Some (- ENODEV, s) })"

definition intf_err_seq :: "int \<Rightarrow> u8 \<Rightarrow> ipmi_smi \<Rightarrow> (int \<times> ipmi_smi) option" where
  "intf_err_seq msgid err s =
     (case GET_SEQ_FROM_MSGID msgid of (seq, seqid) \<Rightarrow> do {
        e \<leftarrow> buf_get (seq_tab s) (int seq);
        if inuse e \<and> seq_seqid e = seqid
        then Some (0, deliver_err_response (seq_recv_msg e) err (set_seq seq (\<lambda>e. e\<lparr>inuse := False\<rparr>) s))
        else Some (- ENODEV, s) })"

section \<open>Framing\<close>

abbreviation (input) IPMI_SEND_MSG_CMD :: u8 where "IPMI_SEND_MSG_CMD \<equiv> 0x34"

text \<open>\<open>ipmb_checksum\<close> of the \<open>n\<close> bytes at \<open>off\<close>.\<close>

definition ipmb_checksum :: "u8 list \<Rightarrow> nat \<Rightarrow> nat \<Rightarrow> u8 option" where
  "ipmb_checksum data off n = (if off + n \<le> length data then Some (- sum_list (take n (drop off data))) else None)"

definition format_ipmb_msg ::
  "smi_req \<Rightarrow> kernel_ipmi_msg \<Rightarrow> int \<Rightarrow> u8 \<Rightarrow> u8 \<Rightarrow> int \<Rightarrow> u8 \<Rightarrow> bool \<Rightarrow> u8 \<Rightarrow> u8 \<Rightarrow> smi_req option" where
  "format_ipmb_msg smi msg channel slave lun msgid ipmb_seq broadcast source_address source_lun = do {
     let i = (if broadcast then 1 else 0);
     let len = length (km_data msg);
     d \<leftarrow> buf_set (msg_data smi) 0 APP_REQUEST;
     d \<leftarrow> buf_set d 1 IPMI_SEND_MSG_CMD;
     d \<leftarrow> buf_set d 2 (word_of_int channel);
     d \<leftarrow> (if broadcast then buf_set d 3 0 else Some d);
     d \<leftarrow> buf_set d (int i + 3) slave;
     d \<leftarrow> buf_set d (int i + 4) (push_bit 2 (km_netfn msg) OR (lun AND 3));
     c \<leftarrow> ipmb_checksum d (i + 3) 2;
     d \<leftarrow> buf_set d (int i + 5) c;
     d \<leftarrow> buf_set d (int i + 6) source_address;
     d \<leftarrow> buf_set d (int i + 7) (push_bit 2 ipmb_seq OR source_lun);
     d \<leftarrow> buf_set d (int i + 8) (km_cmd msg);
     d \<leftarrow> (if len > 0 then blit d (i + 9) (km_data msg) else Some d);
     let size = len + 9;
     c \<leftarrow> ipmb_checksum d (i + 6) (size - 6);
     d \<leftarrow> buf_set d (int (i + size)) c;
     Some (smi\<lparr>msg_data := d, msg_data_size := size + 1 + i, smi_msgid := msgid\<rparr>) }"

definition format_lan_msg ::
  "smi_req \<Rightarrow> kernel_ipmi_msg \<Rightarrow> int \<Rightarrow> u8 \<Rightarrow> u8 \<Rightarrow> u8 \<Rightarrow> u8 \<Rightarrow> int \<Rightarrow> u8 \<Rightarrow> u8 \<Rightarrow> smi_req option" where
  "format_lan_msg smi msg channel session_handle remote_SWID local_SWID lun msgid ipmb_seq source_lun = do {
     let len = length (km_data msg);
     d \<leftarrow> buf_set (msg_data smi) 0 APP_REQUEST;
     d \<leftarrow> buf_set d 1 IPMI_SEND_MSG_CMD;
     d \<leftarrow> buf_set d 2 (word_of_int channel);
     d \<leftarrow> buf_set d 3 session_handle;
     d \<leftarrow> buf_set d 4 remote_SWID;
     d \<leftarrow> buf_set d 5 (push_bit 2 (km_netfn msg) OR (lun AND 3));
     c \<leftarrow> ipmb_checksum d 4 2;
     d \<leftarrow> buf_set d 6 c;
     d \<leftarrow> buf_set d 7 local_SWID;
     d \<leftarrow> buf_set d 8 (push_bit 2 ipmb_seq OR source_lun);
     d \<leftarrow> buf_set d 9 (km_cmd msg);
     d \<leftarrow> (if len > 0 then blit d 10 (km_data msg) else Some d);
     let size = len + 10;
     c \<leftarrow> ipmb_checksum d 7 (size - 7);
     d \<leftarrow> buf_set d (int size) c;
     Some (smi\<lparr>msg_data := d, msg_data_size := size + 1, smi_msgid := msgid\<rparr>) }"

section \<open>Requests\<close>

abbreviation (input) IPMI_NETFN_APP_REQUEST :: u8 where "IPMI_NETFN_APP_REQUEST \<equiv> 6"
abbreviation (input) IPMI_NETFN_FIRMWARE_REQUEST :: u8 where "IPMI_NETFN_FIRMWARE_REQUEST \<equiv> 8"
abbreviation (input) IPMI_NETFN_SENSOR_EVENT_REQUEST :: u8 where "IPMI_NETFN_SENSOR_EVENT_REQUEST \<equiv> 4"
abbreviation (input) IPMI_NETFN_SENSOR_EVENT_RESPONSE :: u8 where "IPMI_NETFN_SENSOR_EVENT_RESPONSE \<equiv> 5"
abbreviation (input) IPMI_COLD_RESET_CMD :: u8 where "IPMI_COLD_RESET_CMD \<equiv> 2"
abbreviation (input) IPMI_WARM_RESET_CMD :: u8 where "IPMI_WARM_RESET_CMD \<equiv> 3"
abbreviation (input) IPMI_CHANNEL_MEDIUM_IPMB :: u8 where "IPMI_CHANNEL_MEDIUM_IPMB \<equiv> 1"
abbreviation (input) IPMI_CHANNEL_MEDIUM_8023LAN :: u8 where "IPMI_CHANNEL_MEDIUM_8023LAN \<equiv> 4"
abbreviation (input) IPMI_CHANNEL_MEDIUM_ASYNC :: u8 where "IPMI_CHANNEL_MEDIUM_ASYNC \<equiv> 5"
abbreviation (input) IPMI_MAINTENANCE_MODE_TIMEOUT :: int where "IPMI_MAINTENANCE_MODE_TIMEOUT \<equiv> 30000"

definition update_maintenance :: "ipmi_smi \<Rightarrow> ipmi_smi" where
  "update_maintenance s = emit (Set_maintenance_mode (maintenance_mode_enable s)) s"

text \<open>A reset or a firmware command puts the interface into maintenance mode.\<close>

definition auto_maintenance :: "kernel_ipmi_msg \<Rightarrow> ipmi_smi \<Rightarrow> ipmi_smi" where
  "auto_maintenance msg s =
     (if km_netfn msg = IPMI_NETFN_APP_REQUEST \<and> (km_cmd msg = IPMI_COLD_RESET_CMD \<or> km_cmd msg = IPMI_WARM_RESET_CMD) \<or>
         km_netfn msg = IPMI_NETFN_FIRMWARE_REQUEST
      then let s1 = s\<lparr>auto_maintenance_timeout := IPMI_MAINTENANCE_MODE_TIMEOUT\<rparr> in
        if maintenance_mode s1 = 0 \<and> \<not> maintenance_mode_enable s1
        then update_maintenance (s1\<lparr>maintenance_mode_enable := True\<rparr>) else s1
      else s)"

text \<open>The three branches of \<open>i_ipmi_request\<close> give the return value so far and the two messages.\<close>

type_synonym mh_request = "(int \<times> ipmi_recv_msg \<times> smi_req \<times> ipmi_smi) option"

definition request_smi :: "int \<Rightarrow> u8 \<Rightarrow> int \<Rightarrow> kernel_ipmi_msg \<Rightarrow> ipmi_recv_msg \<Rightarrow> smi_req \<Rightarrow> ipmi_smi \<Rightarrow> mh_request" where
  "request_smi channel lun msgid msg r smi s =
     (let invalid = bump Sent_invalid_commands in
      if flag (km_netfn msg) 1 then Some (- EINVAL, r, smi, s)
      else if lun > 3 then Some (- EINVAL, r, smi, invalid s)
      else let r1 = r\<lparr>rm_addr := System_interface_addr channel lun\<rparr> in
        if km_netfn msg = IPMI_NETFN_APP_REQUEST \<and>
           (km_cmd msg = IPMI_SEND_MSG_CMD \<or> km_cmd msg = IPMI_GET_MSG_CMD \<or> km_cmd msg = IPMI_READ_EVENT_MSG_BUFFER_CMD)
        then Some (- EINVAL, r1, smi, invalid s)
        else let s1 = auto_maintenance msg s in
          if length (km_data msg) + 2 > IPMI_MAX_MSG_LENGTH then Some (- EMSGSIZE, r1, smi, invalid s1)
          else do {
            d \<leftarrow> buf_set (msg_data smi) 0 (push_bit 2 (km_netfn msg) OR (lun AND 3));
            d \<leftarrow> buf_set d 1 (km_cmd msg);
            d \<leftarrow> (if length (km_data msg) > 0 then blit d 2 (km_data msg) else Some d);
            Some (0, r1, smi\<lparr>msg_data := d, msg_data_size := length (km_data msg) + 2, smi_msgid := msgid, smi_user_data := Some r1\<rparr>,
              bump Sent_local_commands s1) })"

text \<open>The message that was sent becomes the data of the receive message, for retransmissions.\<close>

definition keep_for_resend :: "nat \<Rightarrow> smi_req \<Rightarrow> ipmi_smi \<Rightarrow> ipmi_smi option" where
  "keep_for_resend seq smi s =
     (if msg_data_size smi \<le> length (msg_data smi) \<and> msg_data_size smi \<le> IPMI_MAX_MSG_LENGTH
      then Some (set_seq seq (\<lambda>e. e\<lparr>seq_recv_msg := (seq_recv_msg e)
             \<lparr>rm_msg := (rm_msg (seq_recv_msg e))\<lparr>km_data := take (msg_data_size smi) (msg_data smi)\<rparr>\<rparr>\<rparr>) s)
      else None)"

definition ipmb_retries :: "bool \<Rightarrow> kernel_ipmi_msg \<Rightarrow> int \<Rightarrow> int" where
  "ipmb_retries broadcast msg retries =
     (if retries < 0 then
        if broadcast then 0
        else if km_netfn msg = IPMI_NETFN_SENSOR_EVENT_REQUEST \<or> km_netfn msg = IPMI_NETFN_SENSOR_EVENT_RESPONSE then 1 else 4
      else retries)"

definition ipmb_retry_time :: "kernel_ipmi_msg \<Rightarrow> u32 \<Rightarrow> u32" where
  "ipmb_retry_time msg t =
     (if t = 0 then
        if km_netfn msg = IPMI_NETFN_SENSOR_EVENT_REQUEST \<or> km_netfn msg = IPMI_NETFN_SENSOR_EVENT_RESPONSE then 100 else 1000
      else t)"

definition request_ipmb ::
  "bool \<Rightarrow> int \<Rightarrow> u8 \<Rightarrow> u8 \<Rightarrow> int \<Rightarrow> kernel_ipmi_msg \<Rightarrow> u8 \<Rightarrow> u8 \<Rightarrow> int \<Rightarrow> u32 \<Rightarrow>
   ipmi_recv_msg \<Rightarrow> smi_req \<Rightarrow> ipmi_smi \<Rightarrow> mh_request" where
  "request_ipmb broadcast channel slave lun msgid msg source_address source_lun retries retry_time_ms r smi s =
     (let invalid = bump Sent_invalid_commands in
      if channel \<ge> int IPMI_MAX_CHANNELS then Some (- EINVAL, r, smi, invalid s)
      else do {
        ch \<leftarrow> buf_get (channels s) channel;
        if medium ch \<noteq> IPMI_CHANNEL_MEDIUM_IPMB then Some (- EINVAL, r, smi, invalid s)
        else if length (km_data msg) + 10 + (if broadcast then 1 else 0) > IPMI_MAX_MSG_LENGTH
        then Some (- EMSGSIZE, r, smi, invalid s)
        else if lun > 3 then Some (- EINVAL, r, smi, invalid s)
        else do {
          let r1 = r\<lparr>rm_addr := Ipmb_addr channel slave lun\<rparr>;
          if flag (km_netfn msg) 1
          then do {
            smi1 \<leftarrow> format_ipmb_msg smi msg channel slave lun msgid (word_of_int msgid) broadcast source_address source_lun;
            Some (0, r1, smi1\<lparr>smi_user_data := Some r1\<rparr>, bump Sent_ipmb_responses s) }
          else do {
            (res, s1) \<leftarrow> intf_next_seq r1 (ucast (ipmb_retry_time msg retry_time_ms)) (ipmb_retries broadcast msg retries) broadcast
                          (bump Sent_ipmb_commands s);
            (case res of
               Inl err \<Rightarrow> Some (err, r1, smi, s1)
             | Inr (seq, seqid) \<Rightarrow> do {
                 smi1 \<leftarrow> format_ipmb_msg smi msg channel slave lun (STORE_SEQ_IN_MSGID (of_nat seq) seqid) (of_nat seq) broadcast
                           source_address source_lun;
                 s2 \<leftarrow> keep_for_resend seq smi1 s1;
                 Some (0, r1, smi1, s2) }) } } })"

definition request_lan ::
  "int \<Rightarrow> u8 \<Rightarrow> u8 \<Rightarrow> u8 \<Rightarrow> u8 \<Rightarrow> u8 \<Rightarrow> int \<Rightarrow> kernel_ipmi_msg \<Rightarrow> u8 \<Rightarrow> u32 \<Rightarrow>
   ipmi_recv_msg \<Rightarrow> smi_req \<Rightarrow> ipmi_smi \<Rightarrow> mh_request" where
  "request_lan channel privilege session_handle remote_SWID local_SWID lun msgid msg source_lun retry_time_ms r smi s =
     (let invalid = bump Sent_invalid_commands in
      if channel \<ge> int IPMI_MAX_CHANNELS then Some (- EINVAL, r, smi, invalid s)
      else do {
        ch \<leftarrow> buf_get (channels s) channel;
        if medium ch \<noteq> IPMI_CHANNEL_MEDIUM_8023LAN \<and> medium ch \<noteq> IPMI_CHANNEL_MEDIUM_ASYNC then Some (- EINVAL, r, smi, invalid s)
        else if length (km_data msg) + 12 > IPMI_MAX_MSG_LENGTH then Some (- EMSGSIZE, r, smi, invalid s)
        else if lun > 3 then Some (- EINVAL, r, smi, invalid s)
        else do {
          let r1 = r\<lparr>rm_addr := Lan_addr channel privilege session_handle remote_SWID local_SWID lun\<rparr>;
          if flag (km_netfn msg) 1
          then do {
            smi1 \<leftarrow> format_lan_msg smi msg channel session_handle remote_SWID local_SWID lun msgid (word_of_int msgid) source_lun;
            Some (0, r1, smi1\<lparr>smi_user_data := Some r1\<rparr>, bump Sent_lan_responses s) }
          else do {
            (res, s1) \<leftarrow> intf_next_seq r1 (ucast (if retry_time_ms = 0 then 100 else retry_time_ms)) 1 False (bump Sent_lan_commands s);
            (case res of
               Inl err \<Rightarrow> Some (err, r1, smi, s1)
             | Inr (seq, seqid) \<Rightarrow> do {
                 smi1 \<leftarrow> format_lan_msg smi msg channel session_handle remote_SWID local_SWID lun
                           (STORE_SEQ_IN_MSGID (of_nat seq) seqid) (of_nat seq) source_lun;
                 s2 \<leftarrow> keep_for_resend seq smi1 s1;
                 Some (0, r1, smi1, s2) }) } } })"

text \<open>\<open>ar\<close> and \<open>am\<close> are the answers of \<open>ipmi_alloc_recv_msg\<close> and \<open>ipmi_alloc_smi_msg\<close>; no messages are supplied.\<close>

definition i_ipmi_request ::
  "nat option \<Rightarrow> ipmi_addr \<Rightarrow> int \<Rightarrow> kernel_ipmi_msg \<Rightarrow> int \<Rightarrow> u8 \<Rightarrow> u8 \<Rightarrow> int \<Rightarrow> u32 \<Rightarrow>
   ipmi_recv_msg option \<Rightarrow> smi_req option \<Rightarrow> ipmi_smi \<Rightarrow> (int \<times> ipmi_smi) option" where
  "i_ipmi_request user addr msgid msg priority source_address source_lun retries retry_time_ms ar am s =
     (case ar of
        None \<Rightarrow> Some (- ENOMEM, s)
      | Some r \<Rightarrow>
        (case am of
           None \<Rightarrow> Some (- ENOMEM, ipmi_free_recv_msg r s)
         | Some smi \<Rightarrow>
           if \<not> mh_handlers s then Some (- ENODEV, ipmi_free_recv_msg r (emit (Free_smi smi) s))
           else do {
             let s1 = (case user of None \<Rightarrow> s | Some u \<Rightarrow> user_get u s);
             let r1 = r\<lparr>rm_user := user, rm_msgid := msgid, rm_msg := msg\<rparr>;
             (rv, r2, smi1, s2) \<leftarrow>
               (case addr of
                  System_interface_addr c lun \<Rightarrow> request_smi c lun msgid msg r1 smi s1
                | Ipmb_addr c slave lun \<Rightarrow>
                    request_ipmb False c slave lun msgid msg source_address source_lun retries retry_time_ms r1 smi s1
                | Ipmb_broadcast_addr c slave lun \<Rightarrow>
                    request_ipmb True c slave lun msgid msg source_address source_lun retries retry_time_ms r1 smi s1
                | Lan_addr c p h rem loc lun \<Rightarrow> request_lan c p h rem loc lun msgid msg source_lun retry_time_ms r1 smi s1
                | Other_addr t c \<Rightarrow> Some (- EINVAL, r1, smi, bump Sent_invalid_commands s1));
             if rv \<noteq> 0 then Some (rv, ipmi_free_recv_msg r2 (emit (Free_smi smi1) s2))
             else Some (0, emit (Sender smi1 priority) s2) }))"

definition check_addr :: "ipmi_addr \<Rightarrow> ipmi_smi \<Rightarrow> (int + u8 \<times> u8) option" where
  "check_addr addr s =
     (if addr_channel addr \<ge> int IPMI_MAX_CHANNELS then Some (Inl (- EINVAL))
      else do { ch \<leftarrow> buf_get (channels s) (addr_channel addr); Some (Inr (ch_address ch, ch_lun ch)) })"

definition ipmi_request_settime ::
  "nat option \<Rightarrow> ipmi_addr \<Rightarrow> int \<Rightarrow> kernel_ipmi_msg \<Rightarrow> int \<Rightarrow> int \<Rightarrow> u32 \<Rightarrow>
   ipmi_recv_msg option \<Rightarrow> smi_req option \<Rightarrow> ipmi_smi \<Rightarrow> (int \<times> ipmi_smi) option" where
  "ipmi_request_settime user addr msgid msg priority retries retry_time_ms ar am s =
     (if user = None then Some (- EINVAL, s)
      else do {
        c \<leftarrow> check_addr addr s;
        (case c of
           Inl rv \<Rightarrow> Some (rv, s)
         | Inr (saddr, lun) \<Rightarrow> i_ipmi_request user addr msgid msg priority saddr lun retries retry_time_ms ar am s) })"

end
