(* ===== verification/Ipmi_Msg_Recv.thy ===== *)
theory Ipmi_Msg_Recv
  imports Ipmi_Msg
begin

text \<open>
  The IPMI message handler, second part: what comes back from the system interface driver, the timer, and the operations on users.
  \<open>al\<close> are the receive messages that \<open>ipmi_alloc_recv_msg\<close> hands out, one after the other; at the end of the list it
  returns \<open>NULL\<close>. A return value of a handler is \<open>1\<close> or \<open>2\<close> to queue the message again, \<open>0\<close> to free it, \<open>-1\<close> when it has been
  used.
\<close>

section \<open>Command receivers\<close>

definition find_cmd_rcvr :: "u8 \<Rightarrow> u8 \<Rightarrow> nat \<Rightarrow> ipmi_smi \<Rightarrow> cmd_rcvr option" where
  "find_cmd_rcvr netfn cmd chan s = find (\<lambda>c. rcvr_netfn c = netfn \<and> rcvr_cmd c = cmd \<and> flag (rcvr_chans c) (push_bit chan 1)) (cmd_rcvrs s)"

definition is_cmd_rcvr_exclusive :: "u8 \<Rightarrow> u8 \<Rightarrow> u32 \<Rightarrow> ipmi_smi \<Rightarrow> bool" where
  "is_cmd_rcvr_exclusive netfn cmd chans s \<longleftrightarrow>
     find (\<lambda>c. rcvr_netfn c = netfn \<and> rcvr_cmd c = cmd \<and> flag (rcvr_chans c) chans) (cmd_rcvrs s) = None"

text \<open>\<open>ok\<close> says whether memory for the registration was found.\<close>

definition ipmi_register_for_cmd :: "nat \<Rightarrow> u8 \<Rightarrow> u8 \<Rightarrow> u32 \<Rightarrow> bool \<Rightarrow> ipmi_smi \<Rightarrow> int \<times> ipmi_smi" where
  "ipmi_register_for_cmd user netfn cmd chans ok s =
     (if \<not> ok then (- ENOMEM, s)
      else if \<not> is_cmd_rcvr_exclusive netfn cmd chans s then (- EBUSY, s)
      else (0, s\<lparr>cmd_rcvrs := \<lparr>rcvr_user = user, rcvr_netfn = netfn, rcvr_cmd = cmd, rcvr_chans = chans\<rparr> # cmd_rcvrs s\<rparr>))"

text \<open>The loop of \<open>ipmi_unregister_for_cmd\<close> from channel \<open>i\<close> on, for \<open>k\<close> channels; the receiver found is changed in place, or removed.\<close>

fun change_first :: "('a \<Rightarrow> bool) \<Rightarrow> ('a \<Rightarrow> 'a option) \<Rightarrow> 'a list \<Rightarrow> 'a list" where
  "change_first P f [] = []"
| "change_first P f (x # xs) = (if P x then (case f x of None \<Rightarrow> xs | Some y \<Rightarrow> y # xs) else x # change_first P f xs)"

fun unregister_loop :: "nat \<Rightarrow> u8 \<Rightarrow> u8 \<Rightarrow> u32 \<Rightarrow> nat \<Rightarrow> nat \<Rightarrow> int \<times> ipmi_smi \<Rightarrow> int \<times> ipmi_smi" where
  "unregister_loop user netfn cmd chans i 0 (rv, s) = (rv, s)"
| "unregister_loop user netfn cmd chans i (Suc k) (rv, s) = unregister_loop user netfn cmd chans (Suc i) k
     (if \<not> flag (push_bit i 1) chans then (rv, s)
      else case find_cmd_rcvr netfn cmd i s of
        None \<Rightarrow> (rv, s)
      | Some c \<Rightarrow>
          if rcvr_user c \<noteq> user then (rv, s)
          else (0, s\<lparr>cmd_rcvrs := change_first (\<lambda>c. rcvr_netfn c = netfn \<and> rcvr_cmd c = cmd \<and> flag (rcvr_chans c) (push_bit i 1))
                 (\<lambda>c. let ch = rcvr_chans c AND NOT chans in if ch = 0 then None else Some (c\<lparr>rcvr_chans := ch\<rparr>)) (cmd_rcvrs s)\<rparr>))"

definition ipmi_unregister_for_cmd :: "nat \<Rightarrow> u8 \<Rightarrow> u8 \<Rightarrow> u32 \<Rightarrow> ipmi_smi \<Rightarrow> int \<times> ipmi_smi" where
  "ipmi_unregister_for_cmd user netfn cmd chans s = unregister_loop user netfn cmd chans 0 IPMI_MAX_CHANNELS (- ENOENT, s)"

section \<open>Messages from the receive queue of the BMC\<close>

text \<open>\<open>memcpy\<close> of \<open>rsp_size - off\<close> bytes of the response from \<open>off\<close> on into \<open>msg_data\<close>, of which all but \<open>trail\<close> are the data.\<close>

definition rsp_data :: "smi_req \<Rightarrow> nat \<Rightarrow> nat \<Rightarrow> u8 list option" where
  "rsp_data m off trail =
     (let n = nat (msg_rsp_size m) - off in
      if int off \<le> msg_rsp_size m \<and> off + n \<le> length (msg_rsp m) \<and> n \<le> IPMI_MAX_MSG_LENGTH
      then Some (take (n - trail) (drop off (msg_rsp m))) else None)"

text \<open>The receive message for an answer that was found in the table.\<close>

definition answered :: "u8 \<Rightarrow> u8 list \<Rightarrow> ipmi_recv_msg \<Rightarrow> ipmi_recv_msg" where
  "answered netfn data r = r\<lparr>rm_type := IPMI_RESPONSE_RECV_TYPE, rm_msg := (rm_msg r)\<lparr>km_netfn := netfn, km_data := data\<rparr>\<rparr>"

type_synonym mh_handled = "(int \<times> ipmi_smi) option"

definition handle_ipmb_get_msg_rsp :: "smi_req \<Rightarrow> ipmi_smi \<Rightarrow> mh_handled" where
  "handle_ipmb_get_msg_rsp m s =
     (if msg_rsp_size m < 11 then Some (0, bump Invalid_ipmb_responses s)
      else do {
        r2 \<leftarrow> buf_get (msg_rsp m) 2; r3 \<leftarrow> buf_get (msg_rsp m) 3; r4 \<leftarrow> buf_get (msg_rsp m) 4;
        r6 \<leftarrow> buf_get (msg_rsp m) 6; r7 \<leftarrow> buf_get (msg_rsp m) 7; r8 \<leftarrow> buf_get (msg_rsp m) 8;
        if r2 \<noteq> 0 then Some (0, s)
        else do {
          let chan = uint (r3 AND 0x0f);
          (res, s1) \<leftarrow> intf_find_seq (unat (drop_bit 2 r7)) chan r8 (drop_bit 2 r4 AND NOT 1) (Ipmb_addr chan r6 (r7 AND 3)) s;
          (case res of
             Inl err \<Rightarrow> Some (0, bump Unhandled_ipmb_responses s1)
           | Inr r \<Rightarrow> do {
               data \<leftarrow> rsp_data m 9 1;
               Some (0, deliver_response (answered (drop_bit 2 r4) data r) (bump Handled_ipmb_responses s1)) }) } })"

text \<open>The receive message for a command from somewhere else.\<close>

definition command_from :: "nat \<Rightarrow> ipmi_addr \<Rightarrow> recv_type \<Rightarrow> int \<Rightarrow> u8 \<Rightarrow> u8 \<Rightarrow> u8 list \<Rightarrow> ipmi_recv_msg \<Rightarrow> ipmi_recv_msg" where
  "command_from user addr ty msgid netfn cmd data r =
     r\<lparr>rm_user := Some user, rm_addr := addr, rm_type := ty, rm_msgid := msgid, rm_msg := \<lparr>km_netfn = netfn, km_cmd = cmd, km_data = data\<rparr>\<rparr>"

text \<open>The answer to a command that nobody has registered for, written over the message.\<close>

definition invalid_command_reply :: "smi_req \<Rightarrow> ipmi_smi \<Rightarrow> smi_req option" where
  "invalid_command_reply m s = do {
     r3 \<leftarrow> buf_get (msg_rsp m) 3; r4 \<leftarrow> buf_get (msg_rsp m) 4; r6 \<leftarrow> buf_get (msg_rsp m) 6;
     r7 \<leftarrow> buf_get (msg_rsp m) 7; r8 \<leftarrow> buf_get (msg_rsp m) 8;
     ch \<leftarrow> buf_get (channels s) (uint (r3 AND 0xf));
     d \<leftarrow> buf_set (msg_data m) 0 APP_REQUEST;
     d \<leftarrow> buf_set d 1 IPMI_SEND_MSG_CMD;
     d \<leftarrow> buf_set d 2 r3;
     d \<leftarrow> buf_set d 3 r6;
     d \<leftarrow> buf_set d 4 (push_bit 2 (drop_bit 2 r4 + 1) OR (r7 AND 3));
     c \<leftarrow> ipmb_checksum d 3 2;
     d \<leftarrow> buf_set d 5 c;
     d \<leftarrow> buf_set d 6 (ch_address ch);
     d \<leftarrow> buf_set d 7 ((r7 AND 0xfc) OR (r4 AND 3));
     d \<leftarrow> buf_set d 8 r8;
     d \<leftarrow> buf_set d 9 0xc1;
     c \<leftarrow> ipmb_checksum d 6 4;
     d \<leftarrow> buf_set d 10 c;
     Some (m\<lparr>msg_data := d, msg_data_size := 11\<rparr>) }"

definition handle_ipmb_get_msg_cmd :: "ipmi_recv_msg list \<Rightarrow> smi_req \<Rightarrow> ipmi_smi \<Rightarrow> mh_handled" where
  "handle_ipmb_get_msg_cmd al m s =
     (if msg_rsp_size m < 10 then Some (0, bump Invalid_commands s)
      else do {
        r2 \<leftarrow> buf_get (msg_rsp m) 2; r3 \<leftarrow> buf_get (msg_rsp m) 3; r4 \<leftarrow> buf_get (msg_rsp m) 4;
        r6 \<leftarrow> buf_get (msg_rsp m) 6; r7 \<leftarrow> buf_get (msg_rsp m) 7; r8 \<leftarrow> buf_get (msg_rsp m) 8;
        if r2 \<noteq> 0 then Some (0, s)
        else let netfn = drop_bit 2 r4; chan = r3 AND 0xf in
          case find_cmd_rcvr netfn r8 (unat chan) s of
            None \<Rightarrow> do {
              let s1 = bump Unhandled_commands s;
              m1 \<leftarrow> invalid_command_reply m s1;
              if mh_handlers s1 then Some (- 1, emit (Sender m1 0) s1) else Some (0, s1) }
          | Some c \<Rightarrow>
              (let s1 = bump Handled_commands (user_get (rcvr_user c) s) in
               case al of
                 [] \<Rightarrow> Some (1, user_put (rcvr_user c) s1)
               | r # _ \<Rightarrow> do {
                   data \<leftarrow> rsp_data m 9 1;
                   Some (0, deliver_response (command_from (rcvr_user c) (Ipmb_addr (uint chan) r6 (r7 AND 3)) IPMI_CMD_RECV_TYPE
                     (uint (drop_bit 2 r7)) netfn r8 data r) s1) }) })"

definition handle_lan_get_msg_rsp :: "smi_req \<Rightarrow> ipmi_smi \<Rightarrow> mh_handled" where
  "handle_lan_get_msg_rsp m s =
     (if msg_rsp_size m < 13 then Some (0, bump Invalid_lan_responses s)
      else do {
        r2 \<leftarrow> buf_get (msg_rsp m) 2; r3 \<leftarrow> buf_get (msg_rsp m) 3; r4 \<leftarrow> buf_get (msg_rsp m) 4; r5 \<leftarrow> buf_get (msg_rsp m) 5;
        r6 \<leftarrow> buf_get (msg_rsp m) 6; r8 \<leftarrow> buf_get (msg_rsp m) 8; r9 \<leftarrow> buf_get (msg_rsp m) 9; r10 \<leftarrow> buf_get (msg_rsp m) 10;
        if r2 \<noteq> 0 then Some (0, s)
        else do {
          let chan = uint (r3 AND 0x0f);
          (res, s1) \<leftarrow> intf_find_seq (unat (drop_bit 2 r9)) chan r10 (drop_bit 2 r6 AND NOT 1)
                        (Lan_addr chan (drop_bit 4 r3) r4 r8 r5 (r9 AND 3)) s;
          (case res of
             Inl err \<Rightarrow> Some (0, bump Unhandled_lan_responses s1)
           | Inr r \<Rightarrow> do {
               data \<leftarrow> rsp_data m 11 1;
               Some (0, deliver_response (answered (drop_bit 2 r6) data r) (bump Handled_lan_responses s1)) }) } })"

definition handle_lan_get_msg_cmd :: "ipmi_recv_msg list \<Rightarrow> smi_req \<Rightarrow> ipmi_smi \<Rightarrow> mh_handled" where
  "handle_lan_get_msg_cmd al m s =
     (if msg_rsp_size m < 12 then Some (0, bump Invalid_commands s)
      else do {
        r2 \<leftarrow> buf_get (msg_rsp m) 2; r3 \<leftarrow> buf_get (msg_rsp m) 3; r4 \<leftarrow> buf_get (msg_rsp m) 4; r5 \<leftarrow> buf_get (msg_rsp m) 5;
        r6 \<leftarrow> buf_get (msg_rsp m) 6; r8 \<leftarrow> buf_get (msg_rsp m) 8; r9 \<leftarrow> buf_get (msg_rsp m) 9; r10 \<leftarrow> buf_get (msg_rsp m) 10;
        if r2 \<noteq> 0 then Some (0, s)
        else let netfn = drop_bit 2 r6; chan = r3 AND 0xf in
          case find_cmd_rcvr netfn r10 (unat chan) s of
            None \<Rightarrow> Some (0, bump Unhandled_commands s)
          | Some c \<Rightarrow>
              (let s1 = bump Handled_commands (user_get (rcvr_user c) s) in
               case al of
                 [] \<Rightarrow> Some (1, user_put (rcvr_user c) s1)
               | r # _ \<Rightarrow> do {
                   data \<leftarrow> rsp_data m 11 1;
                   Some (0, deliver_response (command_from (rcvr_user c) (Lan_addr (uint chan) (drop_bit 4 r3) r4 r8 r5 (r9 AND 3))
                     IPMI_CMD_RECV_TYPE (uint (drop_bit 2 r9)) netfn r10 data r) s1) }) })"

text \<open>Without memory the reference that was taken on the user is not given back. \<open>msgid\<close> of the message is not set.\<close>

definition handle_oem_get_msg_cmd :: "ipmi_recv_msg list \<Rightarrow> smi_req \<Rightarrow> ipmi_smi \<Rightarrow> mh_handled" where
  "handle_oem_get_msg_cmd al m s =
     (if msg_rsp_size m < 4 then Some (0, bump Invalid_commands s)
      else do {
        r0 \<leftarrow> buf_get (msg_rsp m) 0; r1 \<leftarrow> buf_get (msg_rsp m) 1; r2 \<leftarrow> buf_get (msg_rsp m) 2; r3 \<leftarrow> buf_get (msg_rsp m) 3;
        if r2 \<noteq> 0 then Some (0, s)
        else let netfn = drop_bit 2 r0; chan = r3 AND 0xf in
          case find_cmd_rcvr netfn r1 (unat chan) s of
            None \<Rightarrow> Some (1, bump Unhandled_commands s)
          | Some c \<Rightarrow>
              (let s1 = bump Handled_commands (user_get (rcvr_user c) s) in
               case al of
                 [] \<Rightarrow> Some (1, s1)
               | r # _ \<Rightarrow> do {
                   data \<leftarrow> rsp_data m 4 0;
                   Some (0, deliver_response (command_from (rcvr_user c) (System_interface_addr IPMI_BMC_CHANNEL (r0 AND 3))
                     IPMI_OEM_RECV_TYPE (rm_msgid r) netfn r1 data r) s1) }) })"

section \<open>Events\<close>

abbreviation (input) MAX_EVENTS_IN_QUEUE :: nat where "MAX_EVENTS_IN_QUEUE \<equiv> 25"

definition copy_event_into_recv_msg :: "ipmi_recv_msg \<Rightarrow> smi_req \<Rightarrow> ipmi_recv_msg option" where
  "copy_event_into_recv_msg r m = do {
     r0 \<leftarrow> buf_get (msg_rsp m) 0; r1 \<leftarrow> buf_get (msg_rsp m) 1;
     data \<leftarrow> rsp_data m 3 0;
     Some (r\<lparr>rm_msgid := 0, rm_addr := System_interface_addr IPMI_BMC_CHANNEL (r0 AND 3), rm_type := IPMI_ASYNC_EVENT_RECV_TYPE,
       rm_msg := \<lparr>km_netfn = drop_bit 2 r0, km_cmd = r1, km_data = data\<rparr>\<rparr>) }"

text \<open>One message for every user that gets events; \<^term>\<open>False\<close> when memory runs out.\<close>

fun event_msgs ::
  "smi_req \<Rightarrow> nat list \<Rightarrow> ipmi_recv_msg list \<Rightarrow> ipmi_recv_msg list \<Rightarrow> ipmi_smi \<Rightarrow>
   (bool \<times> ipmi_recv_msg list \<times> ipmi_recv_msg list \<times> ipmi_smi) option" where
  "event_msgs m [] al msgs s = Some (True, al, msgs, s)"
| "event_msgs m (u # us) al msgs s =
     (if \<not> gets_events (user_objs s u) then event_msgs m us al msgs s
      else case al of
        [] \<Rightarrow> Some (False, [], msgs, s)
      | r # al1 \<Rightarrow> do {
          r1 \<leftarrow> copy_event_into_recv_msg r m;
          event_msgs m us al1 (msgs @ [r1\<lparr>rm_user := Some u\<rparr>]) (user_get u s) })"

definition handle_read_event_rsp :: "ipmi_recv_msg list \<Rightarrow> smi_req \<Rightarrow> ipmi_smi \<Rightarrow> mh_handled" where
  "handle_read_event_rsp al m s =
     (if msg_rsp_size m < 19 then Some (0, bump Invalid_events s)
      else do {
        r2 \<leftarrow> buf_get (msg_rsp m) 2;
        if r2 \<noteq> 0 then Some (0, s)
        else do {
          (ok, al1, msgs, s1) \<leftarrow> event_msgs m (users s) al [] (bump Events s);
          if \<not> ok then Some (1, fold ipmi_free_recv_msg msgs s1)
          else if msgs \<noteq> [] then Some (0, fold deliver_response msgs s1)
          else if waiting_events_count s1 < MAX_EVENTS_IN_QUEUE
          then (case al1 of
                  [] \<Rightarrow> Some (1, s1)
                | r # _ \<Rightarrow> do {
                    r1 \<leftarrow> copy_event_into_recv_msg r m;
                    Some (0, s1\<lparr>waiting_events := waiting_events s1 @ [r1], waiting_events_count := waiting_events_count s1 + 1\<rparr>) })
          else Some (0, s1) } })"

section \<open>Messages from the system interface driver\<close>

definition handle_bmc_rsp :: "smi_req \<Rightarrow> ipmi_smi \<Rightarrow> mh_handled" where
  "handle_bmc_rsp m s =
     (case smi_user_data m of
        None \<Rightarrow> Some (0, s)
      | Some r \<Rightarrow>
        if (case rm_user r of None \<Rightarrow> False | Some u \<Rightarrow> \<not> user_valid (user_objs s u))
        then Some (0, ipmi_free_recv_msg r (bump Unhandled_local_responses s))
        else do {
          r0 \<leftarrow> buf_get (msg_rsp m) 0; r1 \<leftarrow> buf_get (msg_rsp m) 1;
          data \<leftarrow> rsp_data m 2 0;
          Some (0, deliver_response
            (r\<lparr>rm_type := IPMI_RESPONSE_RECV_TYPE, rm_msgid := smi_msgid m, rm_addr := System_interface_addr IPMI_BMC_CHANNEL (r0 AND 3),
               rm_msg := \<lparr>km_netfn = drop_bit 2 r0, km_cmd = r1, km_data = data\<rparr>\<rparr>)
            (bump Handled_local_responses s)) })"

text \<open>A response that is too short, or that answers another command, is replaced.\<close>

definition check_response :: "smi_req \<Rightarrow> smi_req option" where
  "check_response m = do {
     d0 \<leftarrow> buf_get (msg_data m) 0; d1 \<leftarrow> buf_get (msg_data m) 1;
     r0 \<leftarrow> buf_get (msg_rsp m) 0; r1 \<leftarrow> buf_get (msg_rsp m) 1;
     if msg_rsp_size m < 2 \<or> drop_bit 2 r0 \<noteq> drop_bit 2 d0 OR 1 \<or> r1 \<noteq> d1
     then do {
       b \<leftarrow> buf_set (msg_rsp m) 0 (d0 OR 4);
       b \<leftarrow> buf_set b 1 d1;
       b \<leftarrow> buf_set b 2 IPMI_ERR_UNSPECIFIED;
       Some (m\<lparr>msg_rsp := b, msg_rsp_size := 3\<rparr>) }
     else Some m }"

text \<open>The answer to a response that a user has sent. When the user is gone, the receive message is forgotten.\<close>

definition handle_response_sent :: "smi_req \<Rightarrow> ipmi_recv_msg \<Rightarrow> ipmi_smi \<Rightarrow> mh_handled" where
  "handle_response_sent m r s =
     (case rm_user r of
        None \<Rightarrow> Some (0, s)
      | Some u \<Rightarrow>
        if \<not> user_valid (user_objs s u) then Some (0, s)
        else do {
          r2 \<leftarrow> buf_get (msg_rsp m) 2;
          Some (0, deliver_response (r\<lparr>rm_type := IPMI_RESPONSE_RESPONSE_TYPE, rm_msg := (rm_msg r)\<lparr>km_data := [r2]\<rparr>\<rparr>) s) })"

text \<open>A message from the receive queue of the BMC, by the medium of its channel.\<close>

definition handle_get_msg :: "ipmi_recv_msg list \<Rightarrow> smi_req \<Rightarrow> ipmi_smi \<Rightarrow> mh_handled" where
  "handle_get_msg al m s = do {
     r3 \<leftarrow> buf_get (msg_rsp m) 3; r4 \<leftarrow> buf_get (msg_rsp m) 4; r6 \<leftarrow> buf_get (msg_rsp m) 6;
     ch \<leftarrow> buf_get (channels s) (uint (r3 AND 0xf));
     if medium ch = IPMI_CHANNEL_MEDIUM_IPMB
     then (if flag r4 4 then handle_ipmb_get_msg_rsp m s else handle_ipmb_get_msg_cmd al m s)
     else if medium ch = IPMI_CHANNEL_MEDIUM_8023LAN \<or> medium ch = IPMI_CHANNEL_MEDIUM_ASYNC
     then (if flag r6 4 then handle_lan_get_msg_rsp m s else handle_lan_get_msg_cmd al m s)
     else if intf_num s < 0 then Some (0, s)
     else if 0x60 \<le> medium ch \<and> medium ch \<le> 0x7f
     then do {
       (requeue, s1) \<leftarrow> handle_oem_get_msg_cmd al m s;
       Some (if requeue \<noteq> 0 \<and> curr_channel s1 < int IPMI_MAX_CHANNELS then 2 else requeue, s1) }
     else Some (0, s) }"

text \<open>The message itself may have been changed, and is given back.\<close>

definition handle_new_recv_msg :: "ipmi_recv_msg list \<Rightarrow> smi_req \<Rightarrow> ipmi_smi \<Rightarrow> (int \<times> smi_req \<times> ipmi_smi) option" where
  "handle_new_recv_msg al m0 s = do {
     m \<leftarrow> check_response m0;
     r0 \<leftarrow> buf_get (msg_rsp m) 0; r1 \<leftarrow> buf_get (msg_rsp m) 1;
     (rv, s1) \<leftarrow>
       (case smi_user_data m of
          Some r \<Rightarrow>
            if r0 = 0x1c \<and> r1 = IPMI_SEND_MSG_CMD then handle_response_sent m r s
            else if r0 = 0x1c \<and> r1 = IPMI_GET_MSG_CMD then handle_get_msg al m s
            else if r0 = 0x1c \<and> r1 = IPMI_READ_EVENT_MSG_BUFFER_CMD then handle_read_event_rsp al m s
            else handle_bmc_rsp m s
        | None \<Rightarrow>
            if r0 = 0x1c \<and> r1 = IPMI_GET_MSG_CMD then handle_get_msg al m s
            else if r0 = 0x1c \<and> r1 = IPMI_READ_EVENT_MSG_BUFFER_CMD then handle_read_event_rsp al m s
            else handle_bmc_rsp m s);
     Some (rv, m, s1) }"

text \<open>Errors of \<open>IPMI_SEND_MSG_CMD\<close> that a retransmission may cure.\<close>

definition retry_error :: "u8 \<Rightarrow> bool" where
  "retry_error e \<longleftrightarrow> e = IPMI_NODE_BUSY_ERR \<or> e = 0x81 \<or> e = 0x82 \<or> e = 0x83"

definition ipmi_smi_msg_received :: "ipmi_recv_msg list \<Rightarrow> smi_req \<Rightarrow> ipmi_smi \<Rightarrow> ipmi_smi option" where
  "ipmi_smi_msg_received al m s = do {
     d0 \<leftarrow> buf_get (msg_data m) 0; d1 \<leftarrow> buf_get (msg_data m) 1;
     if msg_data_size m \<ge> 2 \<and> d0 = APP_REQUEST \<and> d1 = IPMI_SEND_MSG_CMD \<and> smi_user_data m = None
     then do {
       r2 \<leftarrow> buf_get (msg_rsp m) 2; r3 \<leftarrow> buf_get (msg_rsp m) 3;
       (rv, s1) \<leftarrow>
         (if msg_rsp_size m \<ge> 3 \<and> r2 \<noteq> 0 \<and> \<not> retry_error r2
          then do {
            ch \<leftarrow> buf_get (channels s) (uint (r3 AND 0xf));
            intf_err_seq (smi_msgid m) r2
              (bump (if medium ch = IPMI_CHANNEL_MEDIUM_8023LAN \<or> medium ch = IPMI_CHANNEL_MEDIUM_ASYNC
                     then Sent_lan_command_errs else Sent_ipmb_command_errs) s) }
          else intf_start_seq_timer (smi_msgid m) s);
       Some (emit (Free_smi m) s1) }
     else if waiting_msgs s \<noteq> [] then Some (s\<lparr>waiting_msgs := waiting_msgs s @ [m]\<rparr>)
     else do {
       (rv, m1, s1) \<leftarrow> handle_new_recv_msg al m s;
       Some (if rv > 0 then s1\<lparr>waiting_msgs := waiting_msgs s1 @ [m1]\<rparr>
             else if rv = 0 then emit (Free_smi m1) s1 else s1) } }"

section \<open>The timer\<close>

text \<open>\<open>am\<close> is the answer of \<open>ipmi_alloc_smi_msg\<close>.\<close>

definition smi_from_recv_msg :: "smi_req option \<Rightarrow> ipmi_recv_msg \<Rightarrow> nat \<Rightarrow> int \<Rightarrow> smi_req option option" where
  "smi_from_recv_msg am r seq seqid =
     (case am of
        None \<Rightarrow> Some None
      | Some smi \<Rightarrow> do {
          d \<leftarrow> blit (msg_data smi) 0 (km_data (rm_msg r));
          Some (Some (smi\<lparr>msg_data := d, msg_data_size := length (km_data (rm_msg r)), smi_msgid := STORE_SEQ_IN_MSGID (of_nat seq) seqid\<rparr>)) })"

fun is_lan_addr :: "ipmi_addr \<Rightarrow> bool" where
  "is_lan_addr (Lan_addr c p h r w l) = True"
| "is_lan_addr _ = False"

text \<open>One entry of the table; the second component is the list of messages that have timed out.\<close>

definition check_msg_timeout ::
  "smi_req option \<Rightarrow> int \<Rightarrow> nat \<Rightarrow> ipmi_recv_msg list \<times> ipmi_smi \<Rightarrow> (ipmi_recv_msg list \<times> ipmi_smi) option" where
  "check_msg_timeout am timeout_period slot ts =
     (case ts of (timeouts, s) \<Rightarrow>
      if intf_num s = - 1 then Some (timeouts, s)
      else do {
        e0 \<leftarrow> buf_get (seq_tab s) (int slot);
        if \<not> inuse e0 then Some (timeouts, s)
        else do {
          let s1 = set_seq slot (\<lambda>e. e\<lparr>seq_timeout := seq_timeout e - timeout_period\<rparr>) s;
          let e = seq_tab s1 ! slot;
          if seq_timeout e > 0 then Some (timeouts, s1)
          else if retries_left e = 0
          then Some (timeouts @ [seq_recv_msg e],
            bump (if seq_broadcast e then Timed_out_ipmb_broadcasts
                  else if is_lan_addr (rm_addr (seq_recv_msg e)) then Timed_out_lan_commands else Timed_out_ipmb_commands)
              (set_seq slot (\<lambda>e. e\<lparr>inuse := False\<rparr>) s1))
          else do {
            let s2 = bump (if is_lan_addr (rm_addr (seq_recv_msg e)) then Retransmitted_lan_commands else Retransmitted_ipmb_commands)
              (set_seq slot (\<lambda>e. e\<lparr>seq_timeout := MAX_MSG_TIMEOUT, retries_left := retries_left e - 1\<rparr>) s1);
            smi \<leftarrow> smi_from_recv_msg am (seq_recv_msg e) slot (seq_seqid e);
            (case smi of
               None \<Rightarrow> Some (timeouts, s2)
             | Some m \<Rightarrow> Some (timeouts, emit (if mh_handlers s2 then Sender m 0 else Free_smi m) s2)) } } })"

text \<open>\<open>ams\<close> gives the answers of the allocator by slot.\<close>

fun check_timeouts ::
  "(nat \<Rightarrow> smi_req option) \<Rightarrow> int \<Rightarrow> nat list \<Rightarrow> ipmi_recv_msg list \<times> ipmi_smi \<Rightarrow> (ipmi_recv_msg list \<times> ipmi_smi) option" where
  "check_timeouts ams period [] ts = Some ts"
| "check_timeouts ams period (i # is) ts = check_msg_timeout (ams i) period i ts \<bind> check_timeouts ams period is"

text \<open>The queue of messages that could not be handled: a handled message leaves it, one that was used again as a reply does not,
  and the first one that still cannot be handled stops the walk. \<open>seen\<close> are the messages before it that stay; the result says whether
  the walk goes on.\<close>

definition handle_waiting_msg ::
  "ipmi_recv_msg list \<Rightarrow> smi_req list \<Rightarrow> smi_req \<Rightarrow> ipmi_smi \<Rightarrow> (bool \<times> smi_req list \<times> ipmi_smi) option" where
  "handle_waiting_msg al seen m s = do {
     (rv, m1, s1) \<leftarrow> handle_new_recv_msg al m s;
     if rv = 0 then Some (True, seen, emit (Free_smi m1) s1)
     else Some (rv \<noteq> 1, seen @ [m1], s1) }"

fun handle_waiting :: "ipmi_recv_msg list list \<Rightarrow> smi_req list \<Rightarrow> smi_req list \<Rightarrow> ipmi_smi \<Rightarrow> ipmi_smi option" where
  "handle_waiting als seen [] s = Some (s\<lparr>waiting_msgs := seen\<rparr>)"
| "handle_waiting als seen (m # ms) s = do {
     (go, seen1, s1) \<leftarrow> handle_waiting_msg (case als of [] \<Rightarrow> [] | al # _ \<Rightarrow> al) seen m s;
     if go then handle_waiting (tl als) seen1 ms s1 else Some (s1\<lparr>waiting_msgs := seen1 @ ms\<rparr>) }"

definition maintenance_timeout :: "int \<Rightarrow> ipmi_smi \<Rightarrow> ipmi_smi" where
  "maintenance_timeout period s =
     (if auto_maintenance_timeout s > 0 then
        (let s1 = s\<lparr>auto_maintenance_timeout := auto_maintenance_timeout s - period\<rparr> in
         if maintenance_mode s1 = 0 \<and> auto_maintenance_timeout s1 \<le> 0
         then update_maintenance (s1\<lparr>maintenance_mode_enable := False\<rparr>) else s1)
      else s)"

definition deliver_timeouts :: "ipmi_recv_msg list \<Rightarrow> ipmi_smi \<Rightarrow> ipmi_smi" where
  "deliver_timeouts = fold (\<lambda>r. deliver_err_response r IPMI_TIMEOUT_ERR)"

text \<open>\<open>ipmi_timeout_handler\<close> for one interface.\<close>

definition ipmi_timeout_handler ::
  "ipmi_recv_msg list list \<Rightarrow> (nat \<Rightarrow> smi_req option) \<Rightarrow> int \<Rightarrow> ipmi_smi \<Rightarrow> ipmi_smi option" where
  "ipmi_timeout_handler als ams period s = do {
     s1 \<leftarrow> handle_waiting als [] (waiting_msgs s) s;
     (timeouts, s2) \<leftarrow> check_timeouts ams period [0..<IPMI_IPMB_NUM_SEQ] ([], s1);
     Some (maintenance_timeout period (deliver_timeouts timeouts s2)) }"

definition ipmi_request_event :: "ipmi_smi \<Rightarrow> ipmi_smi" where
  "ipmi_request_event s = (if \<not> maintenance_mode_enable s \<and> mh_handlers s then emit Request_events s else s)"

section \<open>Users\<close>

definition ipmi_create_user :: "nat \<Rightarrow> ipmi_smi \<Rightarrow> ipmi_smi" where
  "ipmi_create_user u s = s\<lparr>user_objs := (user_objs s)(u := \<lparr>user_valid = True, user_refcount = 1, gets_events = False\<rparr>), users := u # users s\<rparr>"

fun drop_user_seqs :: "nat \<Rightarrow> nat list \<Rightarrow> ipmi_smi \<Rightarrow> ipmi_smi" where
  "drop_user_seqs u [] s = s"
| "drop_user_seqs u (i # is) s = drop_user_seqs u is
     (if inuse (seq_tab s ! i) \<and> rm_user (seq_recv_msg (seq_tab s ! i)) = Some u
      then ipmi_free_recv_msg (seq_recv_msg (seq_tab s ! i)) (set_seq i (\<lambda>e. e\<lparr>inuse := False\<rparr>) s) else s)"

definition ipmi_destroy_user :: "nat \<Rightarrow> ipmi_smi \<Rightarrow> ipmi_smi" where
  "ipmi_destroy_user u s =
     (let s1 = set_user u (\<lambda>o'. o'\<lparr>user_valid := False\<rparr>) s;
          s2 = drop_user_seqs u [0..<length (seq_tab s1)] (s1\<lparr>users := remove1 u (users s1)\<rparr>) in
      user_put u (s2\<lparr>cmd_rcvrs := filter (\<lambda>c. rcvr_user c \<noteq> u) (cmd_rcvrs s2)\<rparr>))"

definition ipmi_set_my_address :: "nat \<Rightarrow> u8 \<Rightarrow> ipmi_smi \<Rightarrow> int \<times> ipmi_smi" where
  "ipmi_set_my_address channel address s =
     (if channel \<ge> IPMI_MAX_CHANNELS then (- EINVAL, s)
      else (0, s\<lparr>channels := (channels s)[channel := (channels s ! channel)\<lparr>ch_address := address\<rparr>]\<rparr>))"

definition ipmi_set_my_LUN :: "nat \<Rightarrow> u8 \<Rightarrow> ipmi_smi \<Rightarrow> int \<times> ipmi_smi" where
  "ipmi_set_my_LUN channel lun s =
     (if channel \<ge> IPMI_MAX_CHANNELS then (- EINVAL, s)
      else (0, s\<lparr>channels := (channels s)[channel := (channels s ! channel)\<lparr>ch_lun := lun AND 3\<rparr>]\<rparr>))"

definition ipmi_set_maintenance_mode :: "int \<Rightarrow> ipmi_smi \<Rightarrow> int \<times> ipmi_smi" where
  "ipmi_set_maintenance_mode mode s =
     (if maintenance_mode s = mode then (0, s)
      else if mode = 0
      then (0, update_maintenance (s\<lparr>maintenance_mode := mode, maintenance_mode_enable := auto_maintenance_timeout s > 0\<rparr>))
      else if mode = 1 then (0, update_maintenance (s\<lparr>maintenance_mode := mode, maintenance_mode_enable := False\<rparr>))
      else if mode = 2 then (0, update_maintenance (s\<lparr>maintenance_mode := mode, maintenance_mode_enable := True\<rparr>))
      else (- EINVAL, s))"

text \<open>The test and the first part of the loop of \<open>ipmi_set_gets_events\<close>, under \<open>events_lock\<close>: the waiting events move to the end of the local
  list \<open>msgs\<close>. The result is the list that is then delivered, or \<^term>\<open>None\<close> when the loop ends.\<close>

definition gets_events_loop :: "nat \<Rightarrow> ipmi_recv_msg list \<Rightarrow> ipmi_smi \<Rightarrow> ipmi_recv_msg list option \<times> ipmi_smi" where
  "gets_events_loop u msgs s =
     (if gets_events (user_objs s u) \<and> waiting_events s \<noteq> []
      then (Some (msgs @ waiting_events s), s\<lparr>waiting_events := [], waiting_events_count := 0, delivering_events := True\<rparr>)
      else (None, s))"

text \<open>\<open>ipmi_set_gets_events\<close> up to the first release of the lock.\<close>

definition ipmi_set_gets_events :: "nat \<Rightarrow> bool \<Rightarrow> ipmi_smi \<Rightarrow> ipmi_recv_msg list option \<times> ipmi_smi" where
  "ipmi_set_gets_events u val s =
     (let s1 = set_user u (\<lambda>o'. o'\<lparr>gets_events := val\<rparr>) s in
      if delivering_events s1 then (None, s1) else gets_events_loop u [] s1)"

text \<open>One round of the loop that delivers, without the lock, and what follows it: the lock is taken again, and the local list still has
  the messages that were delivered.\<close>

definition deliver_event :: "nat \<Rightarrow> ipmi_recv_msg \<Rightarrow> ipmi_smi \<Rightarrow> ipmi_smi" where
  "deliver_event u r s = deliver_response (r\<lparr>rm_user := Some u\<rparr>) (user_get u s)"

definition events_delivered :: "nat \<Rightarrow> ipmi_recv_msg list \<Rightarrow> ipmi_smi \<Rightarrow> ipmi_recv_msg list option \<times> ipmi_smi" where
  "events_delivered u msgs s = gets_events_loop u msgs (s\<lparr>delivering_events := False\<rparr>)"

section \<open>The end of an interface\<close>

fun cleanup_seqs :: "nat list \<Rightarrow> ipmi_smi \<Rightarrow> ipmi_smi" where
  "cleanup_seqs [] s = s"
| "cleanup_seqs (i # is) s = cleanup_seqs is
     (if inuse (seq_tab s ! i) then deliver_err_response (seq_recv_msg (seq_tab s ! i)) IPMI_ERR_UNSPECIFIED s else s)"

definition cleanup_smi_msgs :: "ipmi_smi \<Rightarrow> ipmi_smi" where
  "cleanup_smi_msgs s = cleanup_seqs [0..<length (seq_tab s)] s"

definition clean_up_interface_data :: "ipmi_smi \<Rightarrow> ipmi_smi" where
  "clean_up_interface_data s =
     (let s1 = fold (\<lambda>m. emit (Free_smi m)) (waiting_msgs s) (s\<lparr>waiting_msgs := []\<rparr>);
          s2 = fold ipmi_free_recv_msg (waiting_events s1) (s1\<lparr>waiting_events := []\<rparr>);
          s3 = s2\<lparr>cmd_rcvrs := []\<rparr> in
      fold (\<lambda>e s. if inuse e then ipmi_free_recv_msg (seq_recv_msg e) s else s) (seq_tab s3) s3)"

text \<open>What \<open>ipmi_unregister_smi\<close> does to the interface; \<open>clean_up_interface_data\<close> follows once every user is gone.\<close>

definition ipmi_unregister_smi :: "ipmi_smi \<Rightarrow> ipmi_smi" where
  "ipmi_unregister_smi s = cleanup_smi_msgs (s\<lparr>intf_num := - 1, mh_handlers := False\<rparr>)"

end
