(* ===== verification/Ipmi_Msg_Ipmb.thy ===== *)
theory Ipmi_Msg_Ipmb
  imports Ipmi_Msg_Recv
begin

text \<open>
  From a request to its answer through the IPMI message handler: the sequence number survives the trip through \<open>msgid\<close>, the frame of a
  message that the BMC forwards to a bus, and the way of the answer back to the user.
\<close>

section \<open>Sequence numbers\<close>

lemma int_mask_range: "0 \<le> q \<Longrightarrow> q < 2 ^ n \<Longrightarrow> q AND mask n = (q :: int)"
  by (simp add: take_bit_eq_mask [symmetric] take_bit_int_eq_self)

lemma NEXT_SEQID_range: "0 \<le> NEXT_SEQID q" "NEXT_SEQID q < 2 ^ 22"
proof -
  have "NEXT_SEQID q = take_bit 22 (q + 1)" by (simp add: NEXT_SEQID_def take_bit_eq_mask mask_numeral)
  then show "0 \<le> NEXT_SEQID q" "NEXT_SEQID q < 2 ^ 22" using take_bit_int_less_exp [of 22 "q + 1"] by simp_all
qed

lemma u8_and_ff: "(x :: u8) AND 0xff = x"
proof -
  have "(0xff :: u8) = - 1" by simp
  then show ?thesis by (metis and.right_neutral)
qed

lemma msgid_roundtrip:
  assumes "i < 64" "0 \<le> q" "q < 2 ^ 22"
  shows "GET_SEQ_FROM_MSGID (STORE_SEQ_IN_MSGID (of_nat i) q) = (i, q)"
proof -
  have m22: "(0x3fffff :: int) = mask 22" and m26: "(0x3ffffff :: int) = mask 26" and m6: "(0x3f :: int) = mask 6"
    by (simp_all add: mask_numeral)
  have bq: "bit q n \<Longrightarrow> n < 22" for n
    using assms(2,3) bit_take_bit_iff [of 22 q n] take_bit_int_eq_self [of q 22] by simp
  define w where "w = (push_bit 26 (ucast ((of_nat i :: u8) AND 0xff)) :: 32 word)"
  have bi: "bit (of_nat i :: u8) n \<longleftrightarrow> n < 6 \<and> bit i n" for n
  proof -
    have "bit i n \<Longrightarrow> n < 6"
      using assms(1) bit_take_bit_iff [of 6 i n] take_bit_nat_eq_self [of i 6] by simp
    then show ?thesis by (auto simp: bit_of_nat_iff)
  qed
  have bw: "bit w n \<longleftrightarrow> 26 \<le> n \<and> n < 32 \<and> bit i (n - 26)" for n
    unfolding w_def u8_and_ff by (auto simp: bit_push_bit_iff bit_ucast_iff bi)
  have st: "STORE_SEQ_IN_MSGID (of_nat i) q = sint w OR q"
    using assms(2,3) int_mask_range [of q 26] by (simp add: STORE_SEQ_IN_MSGID_def w_def m26 [symmetric])
  have "(sint w OR q) AND mask 22 = q"
    by (rule bit_eqI) (auto simp: bit_and_iff bit_or_iff bit_mask_iff bit_sint_iff bw min_def dest: bq)
  moreover have "drop_bit 26 (sint w OR q) AND mask 6 = int i"
  proof (rule bit_eqI)
    fix n
    have "bit i n \<Longrightarrow> n < 6"
      using assms(1) bit_take_bit_iff [of 6 i n] take_bit_nat_eq_self [of i 6] by simp
    then show "bit (drop_bit 26 (sint w OR q) AND mask 6) n = bit (int i) n"
      by (auto simp: bit_and_iff bit_or_iff bit_mask_iff bit_sint_iff bit_drop_bit_eq bw min_def bit_of_nat_iff_bit dest: bq)
  qed
  ultimately show ?thesis by (simp add: GET_SEQ_FROM_MSGID_def st m22 m6)
qed

text \<open>The search goes once around the table, and finds a free entry if there is one.\<close>

lemma next_seq_slot_search:
  assumes "length tbl = 64" "st < 64" "d < 64"
  shows "\<exists>j < 64. next_seq_slot tbl st ((st + 63 - d) mod 64) = Some j \<and>
    (\<not> inuse (tbl ! j) \<or> (\<forall>k \<le> d. inuse (tbl ! ((st + 63 - k) mod 64))))"
  using assms(3)
proof (induction d)
  case 0
  have "((st + 63 - 0) mod 64 + 1) mod 64 = st" using assms(2) by (simp only: mod_add_left_eq diff_zero) simp
  then have "next_seq_slot tbl st ((st + 63 - 0) mod 64) = Some ((st + 63 - 0) mod 64)"
    by (subst next_seq_slot.simps) (simp only: if_True HOL.simp_thms)
  then show ?case by (intro exI [of _ "(st + 63 - 0) mod 64"]) auto
next
  case (Suc d)
  let ?i = "(st + 63 - Suc d) mod 64"
  have nxt: "(?i + 1) mod 64 = (st + 63 - d) mod 64"
  proof -
    have "st + 63 - Suc d + 1 = st + 63 - d" using Suc.prems by simp
    then show ?thesis by (simp only: mod_add_left_eq)
  qed
  have no: "(st + 63 - d) mod 64 \<noteq> st"
  proof (cases "st \<le> d")
    case True
    then show ?thesis using Suc.prems assms(2) by (subst mod_less) auto
  next
    case False
    then have "(st + 63 - d) mod 64 = st - 1 - d" using assms(2) by (subst le_mod_geq) (auto intro!: mod_less)
    then show ?thesis using False by simp
  qed
  have get: "buf_get tbl (int ?i) = Some (tbl ! ?i)" by (simp add: buf_get_def assms(1))
  show ?case
  proof (cases "inuse (tbl ! ?i)")
    case True
    then have "next_seq_slot tbl st ?i = next_seq_slot tbl st ((st + 63 - d) mod 64)"
      using no by (subst next_seq_slot.simps) (simp only: nxt get bind.bind_lunit if_False not_not HOL.simp_thms)
    then show ?thesis using Suc.IH Suc.prems True by (auto simp: le_Suc_eq)
  next
    case False
    then have "next_seq_slot tbl st ?i = Some ?i"
      using no by (subst next_seq_slot.simps) (simp only: nxt get bind.bind_lunit if_False if_True HOL.simp_thms)
    then show ?thesis using False by (intro exI [of _ ?i]) simp
  qed
qed

definition seqs_ok :: "ipmi_smi \<Rightarrow> bool" where
  "seqs_ok s \<longleftrightarrow> length (seq_tab s) = 64 \<and> curr_seq s < 64 \<and> (\<forall>e \<in> set (seq_tab s). 0 \<le> seq_seqid e \<and> seq_seqid e < 2 ^ 22)"

lemma intf_next_seq_cases:
  assumes "seqs_ok s"
  obtains (full) "intf_next_seq r t n b s = Some (Inl (- EAGAIN), s)" "\<forall>e \<in> set (seq_tab s). inuse e"
  | (slot) i q where "i < 64" "\<not> inuse (seq_tab s ! i)" "q = NEXT_SEQID (seq_seqid (seq_tab s ! i))"
      "intf_next_seq r t n b s = Some (Inr (i, q), s\<lparr>curr_seq := (i + 1) mod 64,
        seq_tab := (seq_tab s)[i := \<lparr>inuse = True, seq_broadcast = b, seq_timeout = MAX_MSG_TIMEOUT, orig_timeout = t,
          retries_left = word_of_int n, seq_seqid = q, seq_recv_msg = r\<rparr>]\<rparr>)"
proof -
  have len: "length (seq_tab s) = 64" and cur: "curr_seq s < 64" using assms by (auto simp: seqs_ok_def)
  have "(curr_seq s + 63 - 63) mod 64 = curr_seq s" using cur by simp
  with next_seq_slot_search [OF len cur, of 63] obtain j where j: "j < 64" "next_seq_slot (seq_tab s) (curr_seq s) (curr_seq s) = Some j"
      "\<not> inuse (seq_tab s ! j) \<or> (\<forall>k \<le> 63. inuse (seq_tab s ! ((curr_seq s + 63 - k) mod 64)))"
    by auto
  have get: "buf_get (seq_tab s) (int j) = Some (seq_tab s ! j)" by (simp add: buf_get_def len j(1))
  show thesis
  proof (cases "inuse (seq_tab s ! j)")
    case True
    with j(3) have all: "\<forall>k \<le> 63. inuse (seq_tab s ! ((curr_seq s + 63 - k) mod 64))" by simp
    have "inuse (seq_tab s ! m)" if "m < 64" for m
    proof -
      define k where "k = (if curr_seq s \<le> m then curr_seq s + 63 - m else curr_seq s - 1 - m)"
      have "k \<le> 63" "curr_seq s + 63 - k = (if curr_seq s \<le> m then m else m + 64)" using that cur by (auto simp: k_def)
      then show ?thesis using all that by (cases "curr_seq s \<le> m") (auto dest!: spec [of _ k])
    qed
    then have "\<forall>e \<in> set (seq_tab s). inuse e" by (auto simp: in_set_conv_nth len)
    with full show thesis using True by (simp add: intf_next_seq_def j(2) get)
  next
    case False
    show thesis by (rule slot [OF j(1) False refl]) (use False in \<open>simp add: intf_next_seq_def j(2) get Let_def\<close>)
  qed
qed

section \<open>Frames\<close>

text \<open>A buffer whose beginning has been written over.\<close>

definition overlay :: "'a list \<Rightarrow> 'a list \<Rightarrow> 'a list" where
  "overlay h arr = h @ drop (length h) arr"

lemma overlay_Nil: "overlay [] arr = arr"
  by (simp add: overlay_def)

lemma overlay_length: "length h \<le> length arr \<Longrightarrow> length (overlay h arr) = length arr"
  by (simp add: overlay_def)

lemma overlay_take: "take (length h) (overlay h arr) = h"
  by (simp add: overlay_def)

lemma buf_set_overlay: "k = int (length h) \<Longrightarrow> length h < length arr \<Longrightarrow> buf_set (overlay h arr) k v = Some (overlay (h @ [v]) arr)"
  by (simp add: buf_set_def overlay_def list_update_append Cons_nth_drop_Suc [symmetric])

lemma blit_overlay:
  "n = length h \<Longrightarrow> length h + length xs \<le> length arr \<Longrightarrow> blit (overlay h arr) n xs = Some (overlay (h @ xs) arr)"
  by (simp add: blit_def overlay_def add.commute)

lemma checksum_overlay:
  "off + n \<le> length h \<Longrightarrow> length h \<le> length arr \<Longrightarrow> ipmb_checksum (overlay h arr) off n = Some (- sum_list (take n (drop off h)))"
  by (simp add: ipmb_checksum_def overlay_def)

lemmas overlay_simps = buf_set_overlay blit_overlay checksum_overlay

text \<open>The bytes that the BMC gets for a message to a bus: the command that forwards, then the frame, a header and a body, each with a
  checksum that makes its bytes add up to zero.\<close>

definition ipmb_frame :: "u8 list \<Rightarrow> u8 list \<Rightarrow> u8 list" where
  "ipmb_frame hdr body = hdr @ [- sum_list hdr] @ body @ [- sum_list body]"

definition ipmb_bytes :: "bool \<Rightarrow> int \<Rightarrow> u8 \<Rightarrow> u8 \<Rightarrow> u8 \<Rightarrow> u8 \<Rightarrow> u8 \<Rightarrow> kernel_ipmi_msg \<Rightarrow> u8 list" where
  "ipmb_bytes broadcast channel slave lun seq source_address source_lun msg =
     [APP_REQUEST, IPMI_SEND_MSG_CMD, word_of_int channel] @ (if broadcast then [0] else []) @
     ipmb_frame [slave, push_bit 2 (km_netfn msg) OR (lun AND 3)]
       ([source_address, push_bit 2 seq OR source_lun, km_cmd msg] @ km_data msg)"

lemma ipmb_bytes_length: "length (ipmb_bytes b c sl lun q sa su msg) = length (km_data msg) + 10 + (if b then 1 else 0)"
  by (simp add: ipmb_bytes_def ipmb_frame_def)

lemma format_ipmb_msg_bytes:
  fixes b c sl lun q sa su msg
  defines "bs \<equiv> ipmb_bytes b c sl lun q sa su msg"
  assumes "length (msg_data smi) = 272" "length (km_data msg) + 10 + (if b then 1 else 0) \<le> 272"
  shows "format_ipmb_msg smi msg c sl lun msgid q b sa su =
    Some (smi\<lparr>msg_data := overlay bs (msg_data smi), msg_data_size := length bs, smi_msgid := msgid\<rparr>)"
proof -
  let ?arr = "msg_data smi"
  have 0: "buf_set ?arr 0 v = Some (overlay [v] ?arr)" for v
    using buf_set_overlay [of 0 "[]" ?arr v] assms(2) by (simp add: overlay_Nil)
  show ?thesis using assms(2,3)
    by (cases b; cases "km_data msg")
       (simp_all add: format_ipmb_msg_def 0 overlay_simps bs_def ipmb_bytes_def ipmb_frame_def Let_def numeral_eq_Suc del: replicate_Suc)
qed

definition lan_bytes :: "int \<Rightarrow> u8 \<Rightarrow> u8 \<Rightarrow> u8 \<Rightarrow> u8 \<Rightarrow> u8 \<Rightarrow> u8 \<Rightarrow> kernel_ipmi_msg \<Rightarrow> u8 list" where
  "lan_bytes channel session_handle remote_SWID local_SWID lun seq source_lun msg =
     [APP_REQUEST, IPMI_SEND_MSG_CMD, word_of_int channel, session_handle] @
     ipmb_frame [remote_SWID, push_bit 2 (km_netfn msg) OR (lun AND 3)] ([local_SWID, push_bit 2 seq OR source_lun, km_cmd msg] @ km_data msg)"

lemma format_lan_msg_bytes:
  fixes c h rem loc lun q su msg
  defines "bs \<equiv> lan_bytes c h rem loc lun q su msg"
  assumes "length (msg_data smi) = 272" "length (km_data msg) + 11 \<le> 272"
  shows "format_lan_msg smi msg c h rem loc lun msgid q su =
    Some (smi\<lparr>msg_data := overlay bs (msg_data smi), msg_data_size := length bs, smi_msgid := msgid\<rparr>)"
proof -
  let ?arr = "msg_data smi"
  have 0: "buf_set ?arr 0 v = Some (overlay [v] ?arr)" for v
    using buf_set_overlay [of 0 "[]" ?arr v] assms(2) by (simp add: overlay_Nil)
  show ?thesis using assms(2,3)
    by (cases "km_data msg")
       (simp_all add: format_lan_msg_def 0 overlay_simps bs_def lan_bytes_def ipmb_frame_def Let_def numeral_eq_Suc del: replicate_Suc)
qed

text \<open>Header and body of a frame add up to zero, which is what the receiver checks.\<close>

lemma ipmb_frame_sums:
  "sum_list (take (length hdr + 1) (ipmb_frame hdr body)) = 0" "sum_list (drop (length hdr + 1) (ipmb_frame hdr body)) = 0"
  by (simp_all add: ipmb_frame_def)

section \<open>Two values in a byte\<close>

lemma u8_small_bit: "(l :: u8) < 2 ^ k \<Longrightarrow> bit l n \<Longrightarrow> n < k"
  by (metis bit_take_bit_iff less_mask_eq take_bit_eq_mask)

lemma pack_high: "(l :: u8) < 4 \<Longrightarrow> q < 64 \<Longrightarrow> drop_bit 2 (push_bit 2 q OR l) = q"
  by (rule bit_word_eqI) (use u8_small_bit [of l 2] u8_small_bit [of q 6] in \<open>fastforce simp: bit_drop_bit_eq bit_or_iff bit_push_bit_iff\<close>)

lemma pack_low: "(l :: u8) < 4 \<Longrightarrow> (push_bit 2 q OR l) AND 3 = l"
proof -
  assume "l < 4"
  then have "(push_bit 2 q OR l) AND mask 2 = l"
    by (intro bit_word_eqI) (use u8_small_bit [of l 2] in \<open>auto simp: bit_and_iff bit_or_iff bit_push_bit_iff bit_mask_iff\<close>)
  then show ?thesis by (simp add: mask_numeral)
qed

lemma pack_flag: "(l :: u8) < 4 \<Longrightarrow> flag (push_bit 2 (q OR 1) OR l) 4"
proof -
  have "bit (push_bit 2 (q OR 1) OR l) 2" by (simp add: bit_or_iff bit_push_bit_iff bit_1_iff)
  moreover have "bit (4 :: u8) 2" by (simp add: bit_numeral_rec)
  ultimately have "bit ((push_bit 2 (q OR 1) OR l) AND 4) 2" by (simp add: bit_and_iff)
  then show ?thesis unfolding flag_def by auto
qed

lemma even_response: "\<not> flag (q :: u8) 1 \<Longrightarrow> (q OR 1) AND NOT 1 = q"
proof (rule bit_word_eqI)
  fix n
  assume "\<not> flag q 1"
  then have "\<not> bit q 0" unfolding flag_def by (metis and_one_eq even_iff_mod_2_eq_zero bit_0 odd_iff_mod_2_eq_one)
  then show "bit ((q OR 1) AND NOT 1) n = bit q n" if "n < LENGTH(8)"
    using that by (cases n) (auto simp: bit_and_iff bit_or_iff bit_not_iff bit_1_iff)
qed

section \<open>A command and its answer\<close>

lemma channel_nibble: "0 \<le> c \<Longrightarrow> c < 16 \<Longrightarrow> uint ((word_of_int c :: u8) AND 0xf) = c"
proof -
  assume c: "0 \<le> c" "c < 16"
  have "uint ((word_of_int c :: u8) AND mask 4) = take_bit 4 (uint (word_of_int c :: u8))"
    by (simp only: take_bit_eq_mask [symmetric] unsigned_take_bit_eq)
  moreover have "uint (word_of_int c :: u8) = c" using c by (simp add: uint_word_of_int)
  ultimately show ?thesis using c by (simp add: mask_numeral take_bit_int_eq_self)
qed

lemma seqs_ok_frame: "seq_tab s' = seq_tab s \<Longrightarrow> curr_seq s' = curr_seq s \<Longrightarrow> seqs_ok s' = seqs_ok s"
  by (simp add: seqs_ok_def)

lemma log_simps [simp]:
  "mh_log (emit e s) = mh_log s @ [e]" "mh_log (bump k s) = mh_log s" "mh_log (set_user u f s) = mh_log s"
  "mh_log (set_seq i g s) = mh_log s" "mh_log (user_get u s) = mh_log s"
  by (simp_all add: emit_def bump_def set_user_def set_seq_def user_get_def)

lemma seq_tab_simps [simp]:
  "seq_tab (emit e s) = seq_tab s" "seq_tab (bump k s) = seq_tab s" "seq_tab (set_user u f s) = seq_tab s" "seq_tab (user_get u s) = seq_tab s"
  "curr_seq (emit e s) = curr_seq s" "curr_seq (bump k s) = curr_seq s" "curr_seq (set_user u f s) = curr_seq s" "curr_seq (user_get u s) = curr_seq s"
  "curr_seq (set_seq i g s) = curr_seq s" "seq_tab (set_seq i g s) = (seq_tab s)[i := g (seq_tab s ! i)]"
  by (simp_all add: emit_def bump_def set_user_def set_seq_def user_get_def)

lemma frame_simps [simp]:
  "channels (emit e s) = channels s" "channels (bump k s) = channels s" "channels (set_user u f s) = channels s" "channels (user_get u s) = channels s"
  "channels (set_seq i g s) = channels s"
  "waiting_msgs (emit e s) = waiting_msgs s" "waiting_msgs (bump k s) = waiting_msgs s" "waiting_msgs (set_user u f s) = waiting_msgs s"
  "waiting_msgs (user_get u s) = waiting_msgs s" "waiting_msgs (set_seq i g s) = waiting_msgs s"
  "mh_handlers (emit e s) = mh_handlers s" "mh_handlers (bump k s) = mh_handlers s" "mh_handlers (set_user u f s) = mh_handlers s"
  "mh_handlers (user_get u s) = mh_handlers s" "mh_handlers (set_seq i g s) = mh_handlers s"
  by (simp_all add: emit_def bump_def set_user_def set_seq_def user_get_def)

text \<open>What the table holds for a command on its way.\<close>

definition sent_recv_msg :: "nat \<Rightarrow> ipmi_addr \<Rightarrow> int \<Rightarrow> kernel_ipmi_msg \<Rightarrow> u8 list \<Rightarrow> ipmi_recv_msg \<Rightarrow> ipmi_recv_msg" where
  "sent_recv_msg u addr msgid msg bs r = r\<lparr>rm_user := Some u, rm_msgid := msgid, rm_addr := addr, rm_msg := msg\<lparr>km_data := bs\<rparr>\<rparr>"

lemma ipmb_command_sent:
  assumes s: "seqs_ok s" "mh_handlers s" "length (channels s) = 16" "\<exists>e \<in> set (seq_tab s). \<not> inuse e"
    and c: "0 \<le> c" "c < 16" "medium (channels s ! nat c) = IPMI_CHANNEL_MEDIUM_IPMB"
    and msg: "\<not> flag (km_netfn msg) 1" "length (km_data msg) + 10 \<le> 272" "lun < 4" and smi: "length (msg_data smi) = 272"
  obtains i q s1 bs where "i < 64" "\<not> inuse (seq_tab s ! i)" "q = NEXT_SEQID (seq_seqid (seq_tab s ! i))"
    "bs = ipmb_bytes False c sl lun (of_nat i) sa su msg"
    "i_ipmi_request (Some u) (Ipmb_addr c sl lun) msgid msg prio sa su retries rt (Some r) (Some smi) s = Some (0, s1)"
    "mh_log s1 = mh_log s @ [Sender (smi\<lparr>msg_data := overlay bs (msg_data smi), msg_data_size := length bs,
        smi_msgid := STORE_SEQ_IN_MSGID (of_nat i) q\<rparr>) prio]"
    "seq_tab s1 = (seq_tab s)[i := \<lparr>inuse = True, seq_broadcast = False, seq_timeout = MAX_MSG_TIMEOUT,
        orig_timeout = ucast (ipmb_retry_time msg rt), retries_left = word_of_int (ipmb_retries False msg retries), seq_seqid = q,
        seq_recv_msg = sent_recv_msg u (Ipmb_addr c sl lun) msgid msg bs r\<rparr>]"
    "channels s1 = channels s" "waiting_msgs s1 = waiting_msgs s" "curr_seq s1 = (i + 1) mod 64"
proof -
  let ?r = "r\<lparr>rm_user := Some u, rm_msgid := msgid, rm_msg := msg, rm_addr := Ipmb_addr c sl lun\<rparr>"
  let ?s = "bump Sent_ipmb_commands (user_get u s)"
  have ok: "seqs_ok ?s" using s(1) seqs_ok_frame [of ?s s] by simp
  have len: "length (seq_tab s) = 64" using s(1) by (simp add: seqs_ok_def)
  have ch: "buf_get (channels s) c = Some (channels s ! nat c)" using c s(3) by (simp add: buf_get_def)
  have lun: "\<not> lun > 3" using msg(3) by (simp add: word_less_nat_alt)
  show thesis
  proof (rule intf_next_seq_cases [OF ok, of ?r "ucast (ipmb_retry_time msg rt)" "ipmb_retries False msg retries" False])
    assume "\<forall>e \<in> set (seq_tab ?s). inuse e"
    then show thesis using s(4) by simp
  next
    fix i q
    assume i: "i < 64" "\<not> inuse (seq_tab ?s ! i)" "q = NEXT_SEQID (seq_seqid (seq_tab ?s ! i))"
      and nxt: "intf_next_seq ?r (ucast (ipmb_retry_time msg rt)) (ipmb_retries False msg retries) False ?s = Some (Inr (i, q), ?s\<lparr>curr_seq := (i + 1) mod 64,
        seq_tab := (seq_tab ?s)[i := \<lparr>inuse = True, seq_broadcast = False, seq_timeout = MAX_MSG_TIMEOUT, orig_timeout = ucast (ipmb_retry_time msg rt),
          retries_left = word_of_int (ipmb_retries False msg retries), seq_seqid = q, seq_recv_msg = ?r\<rparr>]\<rparr>)"
    let ?bs = "ipmb_bytes False c sl lun (of_nat i) sa su msg"
    have bl: "length ?bs \<le> 272" using msg(2) by (simp add: ipmb_bytes_length)
    have ol: "length (overlay ?bs (msg_data smi)) = 272" using bl smi by (simp add: overlay_length)
    let ?smi = "smi\<lparr>msg_data := overlay ?bs (msg_data smi), msg_data_size := length ?bs, smi_msgid := STORE_SEQ_IN_MSGID (of_nat i) q\<rparr>"
    let ?S = "?s\<lparr>curr_seq := (i + 1) mod 64,
        seq_tab := (seq_tab s)[i := \<lparr>inuse = True, seq_broadcast = False, seq_timeout = MAX_MSG_TIMEOUT, orig_timeout = ucast (ipmb_retry_time msg rt),
          retries_left = word_of_int (ipmb_retries False msg retries), seq_seqid = q, seq_recv_msg = ?r\<rparr>]\<rparr>"
    let ?T = "set_seq i (\<lambda>e. e\<lparr>seq_recv_msg := (seq_recv_msg e)\<lparr>rm_msg := (rm_msg (seq_recv_msg e))\<lparr>km_data := ?bs\<rparr>\<rparr>\<rparr>) ?S"
    have keep: "keep_for_resend i ?smi ?S = Some ?T"
      using bl by (simp add: keep_for_resend_def IPMI_MAX_MSG_LENGTH_def overlay_take ol)
    have fmt: "format_ipmb_msg smi msg c sl lun (STORE_SEQ_IN_MSGID (of_nat i) q) (of_nat i) False sa su = Some ?smi"
      using format_ipmb_msg_bytes [OF smi, of msg False] msg(2) by simp
    have "request_ipmb False c sl lun msgid msg sa su retries rt (r\<lparr>rm_user := Some u, rm_msgid := msgid, rm_msg := msg\<rparr>) smi (user_get u s) =
        Some (0, ?r, ?smi, ?T)"
      using c msg lun ch by (simp add: request_ipmb_def nxt fmt keep IPMI_MAX_MSG_LENGTH_def Let_def del: One_nat_def)
    then have "i_ipmi_request (Some u) (Ipmb_addr c sl lun) msgid msg prio sa su retries rt (Some r) (Some smi) s =
        Some (0, emit (Sender ?smi prio) ?T)"
      using s(2) by (simp add: i_ipmi_request_def)
    from that [OF i(1) _ _ refl this] i len show thesis by (simp add: sent_recv_msg_def)
  qed
qed

text \<open>A message from the receive queue of the BMC that holds the answer \<open>ans\<close> of the slave to the command with sequence number \<open>seq\<close>;
  \<open>x\<close> and \<open>y\<close> are the places of the checksums.\<close>

definition holds_ipmb_answer :: "int \<Rightarrow> u8 \<Rightarrow> u8 \<Rightarrow> u8 \<Rightarrow> u8 \<Rightarrow> u8 \<Rightarrow> u8 \<Rightarrow> u8 list \<Rightarrow> smi_req \<Rightarrow> bool" where
  "holds_ipmb_answer channel netfn slave lun seq cmd source_lun ans m \<longleftrightarrow>
     (\<exists>d pad x y. msg_data m = APP_REQUEST # IPMI_GET_MSG_CMD # d \<and> smi_user_data m = None \<and> length (msg_rsp m) = 272 \<and>
        msg_rsp m = [0x1c, IPMI_GET_MSG_CMD, 0, word_of_int channel, push_bit 2 (netfn OR 1) OR source_lun, x, slave,
          push_bit 2 seq OR lun, cmd] @ ans @ [y] @ pad \<and>
        msg_rsp_size m = int (length ans) + 10)"

lemma u8_of_nat_64: "i < 64 \<Longrightarrow> (of_nat i :: u8) < 64" "i < 64 \<Longrightarrow> unat (of_nat i :: u8) = i"
  by (simp_all add: word_less_nat_alt unsigned_of_nat take_bit_nat_eq_self)

lemma ipmb_answer_delivered:
  assumes tab: "length (seq_tab s) = 64" "i < 64" "inuse (seq_tab s ! i)"
      "seq_recv_msg (seq_tab s ! i) = sent_recv_msg u (Ipmb_addr c sl lun) msgid msg bs r"
    and s: "waiting_msgs s = []" "length (channels s) = 16" "medium (channels s ! nat c) = IPMI_CHANNEL_MEDIUM_IPMB"
    and c: "0 \<le> c" "c < 16" and msg: "km_netfn msg < 64" "\<not> flag (km_netfn msg) 1" and lun: "lun < 4" "su < 4" and ans: "ans \<noteq> []"
    and m: "holds_ipmb_answer c (km_netfn msg) sl lun (of_nat i) (km_cmd msg) su ans m"
  shows "ipmi_smi_msg_received al m s = Some (emit (Free_smi m) (emit (Recv_hndl
      (answered (km_netfn msg OR 1) ans (sent_recv_msg u (Ipmb_addr c sl lun) msgid msg bs r)))
      (bump Handled_ipmb_responses (set_seq i (\<lambda>e. e\<lparr>inuse := False\<rparr>) s))))"
proof -
  obtain d pad x y where d: "msg_data m = APP_REQUEST # IPMI_GET_MSG_CMD # d" and ud: "smi_user_data m = None"
    and len: "length (msg_rsp m) = 272" and sz: "msg_rsp_size m = int (length ans) + 10"
    and rsp: "msg_rsp m = [0x1c, IPMI_GET_MSG_CMD, 0, word_of_int c, push_bit 2 (km_netfn msg OR 1) OR su, x, sl,
          push_bit 2 (of_nat i) OR lun, km_cmd msg] @ ans @ [y] @ pad"
    using m by (auto simp: holds_ipmb_answer_def)
  have n1: "km_netfn msg OR 1 < 64"
  proof -
    have "take_bit 6 (km_netfn msg OR 1) = km_netfn msg OR 1"
      using msg(1) less_mask_eq [of "km_netfn msg" 6] by (simp add: take_bit_eq_mask bit.conj_disj_distrib2 mask_numeral)
    moreover have "(km_netfn msg OR 1) AND mask 6 < 2 ^ 6" by (rule and_mask_less_size) (simp add: word_size)
    ultimately show ?thesis by (simp add: take_bit_eq_mask)
  qed
  have nib: "uint ((word_of_int c :: u8) AND 0xf) = c" using channel_nibble c by blast
  have rs: "msg_rsp m ! 0 = 0x1c" "msg_rsp m ! Suc 0 = IPMI_GET_MSG_CMD" "msg_rsp m ! 2 = 0" "msg_rsp m ! 3 = word_of_int c"
      "msg_rsp m ! 6 = sl" "msg_rsp m ! 8 = km_cmd msg"
    by (simp_all add: rsp)
  have "msg_rsp m ! 4 = push_bit 2 (km_netfn msg OR 1) OR su" "msg_rsp m ! 7 = push_bit 2 (of_nat i) OR lun"
    unfolding rsp by (simp_all only: append_Cons nth_Cons_numeral) simp_all
  then have fields: "drop_bit 2 (msg_rsp m ! 4) = km_netfn msg OR 1" "flag (msg_rsp m ! 4) 4"
      "drop_bit 2 (msg_rsp m ! 7) = of_nat i" "msg_rsp m ! 7 AND 3 = lun"
    using pack_high [OF lun(2) n1] pack_flag [OF lun(2)] pack_high [OF lun(1) u8_of_nat_64(1) [OF tab(2)]] pack_low [OF lun(1)] by metis+
  have get: "buf_get (msg_rsp m) k = Some (msg_rsp m ! nat k)" if "0 \<le> k" "k < 272" for k
    using that len by (simp add: buf_get_def)
  have dat: "rsp_data m 9 (Suc 0) = Some ans"
    using len by (simp add: rsp_data_def sz rsp IPMI_MAX_MSG_LENGTH_def Let_def)
  have dg: "buf_get (msg_data m) 0 = Some APP_REQUEST" "buf_get (msg_data m) 1 = Some IPMI_GET_MSG_CMD" by (simp_all add: d buf_get_def)
  have chk: "check_response m = Some m"
    by (simp add: check_response_def get rs dg sz)
  have find: "intf_find_seq i c (km_cmd msg) (km_netfn msg) (Ipmb_addr c sl lun) s =
      Some (Inr (seq_recv_msg (seq_tab s ! i)), set_seq i (\<lambda>e. e\<lparr>inuse := False\<rparr>) s)"
    using tab by (simp add: intf_find_seq_def buf_get_def sent_recv_msg_def)
  have rspm: "handle_ipmb_get_msg_rsp m s = Some (0, emit (Recv_hndl
      (answered (km_netfn msg OR 1) ans (sent_recv_msg u (Ipmb_addr c sl lun) msgid msg bs r)))
      (bump Handled_ipmb_responses (set_seq i (\<lambda>e. e\<lparr>inuse := False\<rparr>) s)))"
    using ans tab(4) n1 lun u8_of_nat_64 [OF tab(2)] msg(2)
    by (simp add: handle_ipmb_get_msg_rsp_def get rs fields sz nib even_response [simplified] find dat answered_def deliver_response_def
        sent_recv_msg_def)
  have "handle_get_msg al m s = handle_ipmb_get_msg_rsp m s"
    using s c by (simp add: handle_get_msg_def get rs fields nib buf_get_def [of "channels s"])
  then show ?thesis
    using s(1) by (simp add: ipmi_smi_msg_received_def dg ud handle_new_recv_msg_def chk get rs rspm)
qed

text \<open>The BMC has forwarded the command: the timer of its entry starts.\<close>

lemma ipmb_send_done:
  assumes tab: "length (seq_tab s) = 64" "i < 64" "inuse (seq_tab s ! i)" "seq_seqid (seq_tab s ! i) = q" "0 \<le> q" "q < 2 ^ 22"
    and m: "msg_data m = APP_REQUEST # IPMI_SEND_MSG_CMD # d" "2 \<le> msg_data_size m" "smi_user_data m = None"
      "smi_msgid m = STORE_SEQ_IN_MSGID (of_nat i) q" "length (msg_rsp m) = 272" "msg_rsp m ! 2 = 0"
  shows "ipmi_smi_msg_received al m s = Some (emit (Free_smi m) (set_seq i (\<lambda>e. e\<lparr>seq_timeout := sint (orig_timeout e)\<rparr>) s))"
proof -
  have "buf_get (msg_data m) 0 = Some APP_REQUEST" "buf_get (msg_data m) 1 = Some IPMI_SEND_MSG_CMD" by (simp_all add: m(1) buf_get_def)
  moreover have "buf_get (msg_rsp m) k = Some (msg_rsp m ! nat k)" if "0 \<le> k" "k < 272" for k
    using that m(5) by (simp add: buf_get_def)
  ultimately show ?thesis
    using m tab msgid_roundtrip [OF tab(2,5,6)]
    by (simp add: ipmi_smi_msg_received_def intf_start_seq_timer_def buf_get_def [of "seq_tab s"])
qed

text \<open>C15: A command to a device on the IPMB finds its way there and back. On an interface with a free sequence number \<open>i_ipmi_request\<close>
  hands one message to the system interface driver; it holds the addressed frame, with the sequence number in it and both checksums right. The
  driver's success report starts the timer of exactly this entry, and when the BMC later has the answer of the slave with that sequence
  number, the user who sent the command gets its own message back, with the \<open>msgid\<close> it gave, the response code of the network
  function and the bytes of the answer; then the entry is free and all other entries are as before.\<close>

theorem ipmb_command_answered:
  fixes c sl lun sa su msg u msgid r smi rsp n
  defines "addr \<equiv> Ipmb_addr c sl lun" and "got \<equiv> \<lambda>smi1. smi1\<lparr>msg_rsp := rsp, msg_rsp_size := n\<rparr>"
  assumes s: "seqs_ok s" "mh_handlers s" "waiting_msgs s = []" "length (channels s) = 16" "\<exists>e \<in> set (seq_tab s). \<not> inuse e"
    and c: "0 \<le> c" "c < 16" "medium (channels s ! nat c) = IPMI_CHANNEL_MEDIUM_IPMB"
    and msg: "km_netfn msg < 64" "\<not> flag (km_netfn msg) 1" "length (km_data msg) + 10 \<le> 272" "lun < 4" "su < 4"
    and smi: "length (msg_data smi) = 272" "smi_user_data smi = None"
    and sent: "length rsp = 272" "rsp ! 2 = 0"
    and ans: "ans \<noteq> []" "\<And>i. i < 64 \<Longrightarrow> holds_ipmb_answer c (km_netfn msg) sl lun (of_nat i) (km_cmd msg) su ans (m i)"
  shows "\<exists>i s1 smi1 s2 s3 r1. i < 64 \<and>
      i_ipmi_request (Some u) addr msgid msg prio sa su retries rt (Some r) (Some smi) s = Some (0, s1) \<and>
      mh_log s1 = mh_log s @ [Sender smi1 prio] \<and>
      take (msg_data_size smi1) (msg_data smi1) = ipmb_bytes False c sl lun (of_nat i) sa su msg \<and>
      ipmi_smi_msg_received al (got smi1) s1 = Some s2 \<and> mh_log s2 = mh_log s1 @ [Free_smi (got smi1)] \<and>
      ipmi_smi_msg_received al1 (m i) s2 = Some s3 \<and> mh_log s3 = mh_log s2 @ [Recv_hndl r1, Free_smi (m i)] \<and>
      rm_id r1 = rm_id r \<and> rm_user r1 = Some u \<and> rm_msgid r1 = msgid \<and> rm_type r1 = IPMI_RESPONSE_RECV_TYPE \<and>
      rm_msg r1 = \<lparr>km_netfn = km_netfn msg OR 1, km_cmd = km_cmd msg, km_data = ans\<rparr> \<and>
      \<not> inuse (seq_tab s3 ! i) \<and> seq_tab s3 = (seq_tab s)[i := seq_tab s3 ! i]"
proof -
  obtain i q s1 bs where i: "i < 64" "q = NEXT_SEQID (seq_seqid (seq_tab s ! i))"
    and bs: "bs = ipmb_bytes False c sl lun (of_nat i) sa su msg"
    and req: "i_ipmi_request (Some u) addr msgid msg prio sa su retries rt (Some r) (Some smi) s = Some (0, s1)"
    and log: "mh_log s1 = mh_log s @ [Sender (smi\<lparr>msg_data := overlay bs (msg_data smi), msg_data_size := length bs,
        smi_msgid := STORE_SEQ_IN_MSGID (of_nat i) q\<rparr>) prio]"
    and tab: "seq_tab s1 = (seq_tab s)[i := \<lparr>inuse = True, seq_broadcast = False, seq_timeout = MAX_MSG_TIMEOUT,
        orig_timeout = ucast (ipmb_retry_time msg rt), retries_left = word_of_int (ipmb_retries False msg retries), seq_seqid = q,
        seq_recv_msg = sent_recv_msg u addr msgid msg bs r\<rparr>]"
    and fr: "channels s1 = channels s" "waiting_msgs s1 = waiting_msgs s"
    using ipmb_command_sent [OF s(1,2,4,5) c msg(2,3,4) smi(1)] unfolding addr_def by metis
  let ?smi1 = "smi\<lparr>msg_data := overlay bs (msg_data smi), msg_data_size := length bs, smi_msgid := STORE_SEQ_IN_MSGID (of_nat i) q\<rparr>"
  let ?s2 = "emit (Free_smi (got ?smi1)) (set_seq i (\<lambda>e. e\<lparr>seq_timeout := sint (orig_timeout e)\<rparr>) s1)"
  have len: "length (seq_tab s) = 64" using s(1) by (simp add: seqs_ok_def)
  have two: "ipmi_smi_msg_received al (got ?smi1) s1 = Some ?s2"
    by (rule ipmb_send_done [where q = q and d = "drop 2 (overlay bs (msg_data smi))"])
       (use i len tab smi sent in \<open>simp_all add: got_def NEXT_SEQID_range [simplified] bs ipmb_bytes_def ipmb_bytes_length overlay_def ipmb_frame_def\<close>)
  let ?r1 = "answered (km_netfn msg OR 1) ans (sent_recv_msg u addr msgid msg bs r)"
  let ?s3 = "emit (Free_smi (m i)) (emit (Recv_hndl ?r1) (bump Handled_ipmb_responses (set_seq i (\<lambda>e. e\<lparr>inuse := False\<rparr>) ?s2)))"
  have "ipmi_smi_msg_received al1 (m i) ?s2 = Some ?s3"
    unfolding addr_def
    by (rule ipmb_answer_delivered [where su = su]) (use i len tab fr s c msg ans in \<open>simp_all add: addr_def\<close>)
  with req log two show ?thesis
    using i(1) len tab bs
    by (intro exI [of _ i] exI [of _ s1] exI [of _ ?smi1] exI [of _ ?s2] exI [of _ ?s3] exI [of _ ?r1])
       (simp add: overlay_take answered_def sent_recv_msg_def)
qed

text \<open>An interface with an IPMB on channel 0 and a free table.\<close>

definition idle_recv :: ipmi_recv_msg where
  "idle_recv = \<lparr>rm_id = 0, rm_type = IPMI_RESPONSE_RECV_TYPE, rm_user = None, rm_addr = System_interface_addr 15 0, rm_msgid = 0,
     rm_msg = \<lparr>km_netfn = 0, km_cmd = 0, km_data = []\<rparr>\<rparr>"

definition idle_seq :: seq_table where
  "idle_seq = \<lparr>inuse = False, seq_broadcast = False, seq_timeout = 0, orig_timeout = 0, retries_left = 0, seq_seqid = 0, seq_recv_msg = idle_recv\<rparr>"

definition idle_intf :: ipmi_smi where
  "idle_intf = \<lparr>intf_num = 0, mh_handlers = True, user_objs = (\<lambda>u. \<lparr>user_valid = True, user_refcount = 1, gets_events = False\<rparr>), users = [0],
     seq_tab = replicate 64 idle_seq, curr_seq = 0, waiting_msgs = [], cmd_rcvrs = [], waiting_events = [], waiting_events_count = 0,
     delivering_events = False, maintenance_mode = 0, maintenance_mode_enable = False, auto_maintenance_timeout = 0,
     null_user_handler = False, curr_channel = 16,
     channels = replicate 16 \<lparr>medium = IPMI_CHANNEL_MEDIUM_IPMB, protocol = 1, ch_address = 0x20, ch_lun = 2\<rparr>,
     counters = (\<lambda>k. 0), mh_log = []\<rparr>"

definition idle_req :: smi_req where
  "idle_req = \<lparr>msg_ptr = Upper 0, msg_data = replicate 272 0, msg_data_size = 0, msg_rsp = replicate 272 0, msg_rsp_size = 0, msg_tagged = False,
     smi_msgid = 0, smi_user_data = None\<rparr>"

lemma idle_intf_facts:
  "seqs_ok idle_intf" "mh_handlers idle_intf" "waiting_msgs idle_intf = []" "length (channels idle_intf) = 16"
  "\<exists>e \<in> set (seq_tab idle_intf). \<not> inuse e" "medium (channels idle_intf ! nat 0) = IPMI_CHANNEL_MEDIUM_IPMB"
  by (simp_all add: idle_intf_def seqs_ok_def idle_seq_def)

theorem ipmb_command_answered_witness:
  "\<exists>i s1 s2. i_ipmi_request (Some 7) (Ipmb_addr 0 0x42 0) 99 \<lparr>km_netfn = 4, km_cmd = 0x2d, km_data = [1]\<rparr> 0 0x20 2 4 0 (Some idle_recv) (Some idle_req) idle_intf = Some (0, s1) \<and>
     ipmi_smi_msg_received [] (idle_req\<lparr>msg_data := overlay [APP_REQUEST, IPMI_GET_MSG_CMD] (msg_data idle_req), msg_rsp_size := 12,
       msg_rsp := overlay [0x1c, IPMI_GET_MSG_CMD, 0, 0, 0x16, 0, 0x42, push_bit 2 (of_nat i), 0x2d, 0, 0x55, 0] (msg_rsp idle_req)\<rparr>) s2 \<noteq> None"
proof -
  let ?m = "\<lambda>i. idle_req\<lparr>msg_data := overlay [APP_REQUEST, IPMI_GET_MSG_CMD] (msg_data idle_req), msg_rsp_size := 12,
       msg_rsp := overlay [0x1c, IPMI_GET_MSG_CMD, 0, 0, 0x16, 0, 0x42, push_bit 2 (of_nat i), 0x2d, 0, 0x55, 0] (msg_rsp idle_req)\<rparr>"
  have m: "holds_ipmb_answer 0 4 0x42 0 (of_nat i) 0x2d 2 [0, 0x55] (?m i)" for i
    by (simp add: holds_ipmb_answer_def idle_req_def overlay_def)
  from ipmb_command_answered [where s = idle_intf and c = 0 and sl = "0x42" and lun = 0 and msg = "\<lparr>km_netfn = 4, km_cmd = 0x2d, km_data = [1]\<rparr>"
      and su = 2 and sa = "0x20" and smi = idle_req and rsp = "replicate 272 0" and ans = "[0, 0x55]" and m = ?m and u = 7 and msgid = 99
      and prio = 0 and retries = 4 and rt = 0 and r = idle_recv and al = "[]" and ?al1.0 = "[]" and n = 3]
  show ?thesis using idle_intf_facts m by (simp add: idle_req_def flag_def) blast
qed

end
