(* ===== verification/Ipmi_Msg_Own.thy ===== *)
theory Ipmi_Msg_Own
  imports Ipmi_Msg_Ipmb
begin

text \<open>
  Who owns a receive message, operation by operation. A receive message is in the table of sequence numbers, in the queue of
  events, in a message of the system interface driver (\<open>user_data\<close>), or it has been handed to a user or freed. Each operation moves
  messages between these places; the lemmas say how, as equations on multisets of identities.
\<close>

section \<open>Places\<close>

definition ent_own :: "seq_table \<Rightarrow> nat multiset" where
  "ent_own e = (if inuse e then {#rm_id (seq_recv_msg e)#} else {#})"

definition seq_own :: "seq_table list \<Rightarrow> nat multiset" where
  "seq_own tbl = sum_list (map ent_own tbl)"

definition ids :: "ipmi_recv_msg list \<Rightarrow> nat multiset" where
  "ids rs = mset (map rm_id rs)"

definition ud :: "smi_req \<Rightarrow> nat multiset" where
  "ud m = (case smi_user_data m of None \<Rightarrow> {#} | Some r \<Rightarrow> {#rm_id r#})"

definition uds :: "smi_req list \<Rightarrow> nat multiset" where
  "uds ms = sum_list (map ud ms)"

fun sends :: "mh_eff list \<Rightarrow> smi_req list" where
  "sends [] = []"
| "sends (Sender m p # es) = m # sends es"
| "sends (_ # es) = sends es"

text \<open>Given to a user, or freed.\<close>

fun final :: "mh_eff \<Rightarrow> nat multiset" where
  "final (Recv_hndl r) = {#rm_id r#}"
| "final (Free_recv r) = {#rm_id r#}"
| "final _ = {#}"

definition finals :: "mh_eff list \<Rightarrow> nat multiset" where
  "finals es = sum_list (map final es)"

text \<open>All but the waiting messages, which the timer walks through.\<close>

definition own :: "ipmi_smi \<Rightarrow> nat multiset" where
  "own s = seq_own (seq_tab s) + ids (waiting_events s) + uds (sends (mh_log s)) + finals (mh_log s)"

lemma ids_simps [simp]: "ids [] = {#}" "ids (r # rs) = add_mset (rm_id r) (ids rs)" "ids (rs @ rs') = ids rs + ids rs'"
  by (simp_all add: ids_def)

lemma uds_simps [simp]: "uds [] = {#}" "uds (m # ms) = ud m + uds ms" "uds (ms @ ms') = uds ms + uds ms'"
  by (simp_all add: uds_def)

lemma finals_simps [simp]: "finals [] = {#}" "finals (e # es) = final e + finals es" "finals (es @ es') = finals es + finals es'"
  by (simp_all add: finals_def)

lemma sends_append [simp]: "sends (es @ es') = sends es @ sends es'"
  by (induction es rule: sends.induct) simp_all

lemma seq_own_update:
  "i < length tbl \<Longrightarrow> seq_own (tbl[i := e]) + ent_own (tbl ! i) = seq_own tbl + ent_own e"
  by (induction tbl arbitrary: i) (auto simp: seq_own_def nth_Cons ac_simps split: nat.split)

lemma seq_own_frees:
  assumes "i < length tbl" "inuse (tbl ! i)"
  shows "seq_own tbl = add_mset (rm_id (seq_recv_msg (tbl ! i))) (seq_own (tbl[i := (tbl ! i)\<lparr>inuse := False\<rparr>]))"
  using seq_own_update [OF assms(1), of "(tbl ! i)\<lparr>inuse := False\<rparr>"] assms(2) by (simp add: ent_own_def)

lemma seq_own_uses:
  assumes "i < length tbl" "\<not> inuse (tbl ! i)" "inuse e"
  shows "seq_own (tbl[i := e]) = add_mset (rm_id (seq_recv_msg e)) (seq_own tbl)"
  using seq_own_update [OF assms(1), of e] assms(2,3) by (simp add: ent_own_def)

lemma seq_own_keeps:
  assumes "i < length tbl" "ent_own e = ent_own (tbl ! i)"
  shows "seq_own (tbl[i := e]) = seq_own tbl"
  using seq_own_update [OF assms(1), of e] assms(2) by simp

lemma events_simps [simp]:
  "waiting_events (emit e s) = waiting_events s" "waiting_events (bump k s) = waiting_events s" "waiting_events (set_user u f s) = waiting_events s"
  "waiting_events (user_get u s) = waiting_events s" "waiting_events (set_seq i g s) = waiting_events s"
  by (simp_all add: emit_def bump_def set_user_def set_seq_def user_get_def)

section \<open>Delivery and freeing\<close>

lemma own_simps [simp]:
  "own (bump k s) = own s" "own (set_user u f s) = own s" "own (user_get u s) = own s"
  "own (emit (Recv_hndl r) s) = add_mset (rm_id r) (own s)" "own (emit (Free_recv r) s) = add_mset (rm_id r) (own s)"
  "own (emit (Null_user_hndl r) s) = own s" "own (emit (Set_maintenance_mode b) s) = own s" "own (emit Request_events s) = own s"
  "own (emit (Free_smi m) s) = own s" "own (emit (Free_user u) s) = own s" "own (emit (Sender m p) s) = own s + ud m"
  by (simp_all add: own_def ac_simps)

text \<open>What no handler touches.\<close>

definition same_frame :: "ipmi_smi \<Rightarrow> ipmi_smi \<Rightarrow> bool" where
  "same_frame s s' \<longleftrightarrow> waiting_msgs s' = waiting_msgs s \<and> length (seq_tab s') = length (seq_tab s) \<and> channels s' = channels s \<and>
     (\<forall>u. user_valid (user_objs s' u) = user_valid (user_objs s u))"

lemma same_frame_refl [simp]: "same_frame s s"
  by (simp add: same_frame_def)

lemma same_frame_trans [trans]: "same_frame s s1 \<Longrightarrow> same_frame s1 s2 \<Longrightarrow> same_frame s s2"
  by (simp add: same_frame_def)

lemma same_frame_simps [simp]:
  "same_frame s0 (emit e s) = same_frame s0 s" "same_frame s0 (bump k s) = same_frame s0 s" "same_frame s0 (set_seq i g s) = same_frame s0 s"
  "same_frame s0 (user_get u s) = same_frame s0 s"
  "same_frame s0 (set_user u (\<lambda>o'. o'\<lparr>user_refcount := f o'\<rparr>) s) = same_frame s0 s"
  by (auto simp: same_frame_def emit_def bump_def set_user_def set_seq_def user_get_def)

lemma own_user_put [simp]: "own (user_put u s) = own s" "same_frame s0 (user_put u s) = same_frame s0 s"
  by (simp_all add: user_put_def Let_def)

lemma own_free [simp]: "own (ipmi_free_recv_msg r s) = add_mset (rm_id r) (own s)" "same_frame s0 (ipmi_free_recv_msg r s) = same_frame s0 s"
  by (simp_all add: ipmi_free_recv_msg_def split: option.split)

lemma own_deliver [simp]: "own (deliver_response r s) = add_mset (rm_id r) (own s)" "same_frame s0 (deliver_response r s) = same_frame s0 s"
  by (simp_all add: deliver_response_def split: option.split)

lemma own_deliver_err [simp]:
  "own (deliver_err_response r err s) = add_mset (rm_id r) (own s)" "same_frame s0 (deliver_err_response r err s) = same_frame s0 s"
  by (simp_all add: deliver_err_response_def)

lemma own_fold_deliver:
  "own (fold deliver_response rs s) = own s + ids rs" "same_frame s0 (fold deliver_response rs s) = same_frame s0 s"
  "own (fold ipmi_free_recv_msg rs s) = own s + ids rs" "same_frame s0 (fold ipmi_free_recv_msg rs s) = same_frame s0 s"
  by (induction rs arbitrary: s) simp_all

section \<open>The table\<close>

lemma own_frees:
  assumes "i < length (seq_tab s)" "inuse (seq_tab s ! i)"
  shows "own s = add_mset (rm_id (seq_recv_msg (seq_tab s ! i))) (own (set_seq i (\<lambda>e. e\<lparr>inuse := False\<rparr>) s))"
  using seq_own_frees [OF assms] by (simp add: own_def)

lemma own_set_seq:
  assumes "i < length (seq_tab s)" "ent_own (f (seq_tab s ! i)) = ent_own (seq_tab s ! i)"
  shows "own (set_seq i f s) = own s"
  using seq_own_keeps [OF assms] by (simp add: own_def)

lemma buf_get_SomeD: "buf_get b i = Some x \<Longrightarrow> 0 \<le> i \<and> nat i < length b \<and> x = b ! nat i"
  by (auto simp: buf_get_def split: if_splits)

lemma own_next_seq:
  assumes "intf_next_seq r t n b s = Some (res, s')"
  shows "same_frame s s' \<and> own s' = own s + (case res of Inl err \<Rightarrow> {#} | Inr x \<Rightarrow> {#rm_id r#})"
    and "res = Inr (i, q) \<Longrightarrow> i < length (seq_tab s') \<and> rm_id (seq_recv_msg (seq_tab s' ! i)) = rm_id r"
  using assms
  by (auto simp: intf_next_seq_def bind_eq_Some_conv own_def seq_own_uses same_frame_def Let_def dest!: buf_get_SomeD split: if_splits)

lemma own_find_seq:
  assumes "intf_find_seq q c cmd nf a s = Some (res, s')"
  shows "same_frame s s' \<and> own s = own s' + (case res of Inl err \<Rightarrow> {#} | Inr r \<Rightarrow> {#rm_id r#})"
  using assms own_frees [of q s]
  by (auto simp: intf_find_seq_def bind_eq_Some_conv Let_def dest!: buf_get_SomeD split: if_splits)

lemma own_start_timer: "intf_start_seq_timer msgid s = Some (rv, s') \<Longrightarrow> same_frame s s' \<and> own s' = own s"
  by (auto simp: intf_start_seq_timer_def bind_eq_Some_conv ent_own_def own_set_seq dest!: buf_get_SomeD split: if_splits prod.splits)

lemma own_err_seq: "intf_err_seq msgid e s = Some (rv, s') \<Longrightarrow> same_frame s s' \<and> own s' = own s"
  by (auto simp: intf_err_seq_def bind_eq_Some_conv dest!: buf_get_SomeD split: if_splits prod.splits) (metis own_frees)+

section \<open>Requests\<close>

text \<open>A message that carries a receive message is not taken for one of the BMC's own messages.\<close>

definition plain :: "smi_req \<Rightarrow> bool" where
  "plain m \<longleftrightarrow> smi_user_data m = None \<or>
     \<not> (drop_bit 2 (msg_data m ! 0) OR 1 = 7 \<and> (msg_data m ! 1 = IPMI_GET_MSG_CMD \<or> msg_data m ! 1 = IPMI_READ_EVENT_MSG_BUFFER_CMD))"

definition smi_fresh :: "smi_req \<Rightarrow> bool" where
  "smi_fresh m \<longleftrightarrow> length (msg_data m) = 272 \<and> length (msg_rsp m) = 272 \<and> smi_user_data m = None"

lemma ud_fresh [simp]: "smi_fresh m \<Longrightarrow> ud m = {#}"
  by (simp add: smi_fresh_def ud_def)

text \<open>What the branches of \<open>i_ipmi_request\<close> do, as seen by the accounts.\<close>

definition request_moves :: "ipmi_recv_msg \<Rightarrow> ipmi_smi \<Rightarrow> int \<times> ipmi_recv_msg \<times> smi_req \<times> ipmi_smi \<Rightarrow> bool" where
  "request_moves r s res \<longleftrightarrow> (case res of (rv, r2, smi, s') \<Rightarrow>
     same_frame s s' \<and> rm_id r2 = rm_id r \<and> sends (mh_log s') = sends (mh_log s) \<and>
     (if rv = 0 then own s' + ud smi = add_mset (rm_id r) (own s) \<and> plain smi \<and> length (msg_data smi) = 272 \<and> length (msg_rsp smi) = 272
      else own s' = own s))"

lemma auto_maintenance_moves:
  "same_frame s (auto_maintenance msg s)" "own (auto_maintenance msg s) = own s" "sends (mh_log (auto_maintenance msg s)) = sends (mh_log s)"
  by (simp_all add: auto_maintenance_def update_maintenance_def same_frame_def emit_def own_def Let_def)

lemma user_command_plain:
  assumes "km_netfn msg < 64" "\<not> flag (km_netfn msg) 1"
    and "\<not> (km_netfn msg = 6 \<and> (km_cmd msg = IPMI_SEND_MSG_CMD \<or> km_cmd msg = IPMI_GET_MSG_CMD \<or> km_cmd msg = IPMI_READ_EVENT_MSG_BUFFER_CMD))"
    and "msg_data m ! 0 = push_bit 2 (km_netfn msg) OR (lun AND 3)" "msg_data m ! 1 = km_cmd msg"
  shows "plain m"
proof -
  have "lun AND 3 < 4" using and_mask_less_size [of 2 lun] by (simp add: word_size mask_numeral)
  then have "drop_bit 2 (msg_data m ! 0) = km_netfn msg" using pack_high assms(1,4) by metis
  moreover have "km_netfn msg OR 1 = 7 \<Longrightarrow> km_netfn msg = 6" using even_response [OF assms(2)] by auto
  ultimately show ?thesis using assms(3,5) by (auto simp: plain_def)
qed

lemma request_smi_moves:
  assumes "request_smi c lun msgid msg r smi s = Some res" "smi_fresh smi" "km_netfn msg < 64"
  shows "request_moves r s res"
proof -
  obtain rv r2 smi1 s' where res: "res = (rv, r2, smi1, s')" by (cases res) auto
  show ?thesis
  proof (cases "rv = 0")
    case True
    have "plain smi1"
      by (rule user_command_plain [where msg = msg and lun = lun])
         (use assms res True in \<open>auto simp: request_smi_def bind_eq_Some_conv Let_def smi_fresh_def buf_set_def blit_def nth_append split: if_splits\<close>)
    then show ?thesis using assms(1,2) res True auto_maintenance_moves
      by (auto simp: request_smi_def request_moves_def bind_eq_Some_conv Let_def ud_def smi_fresh_def dest!: buf_set_length blit_length split: if_splits)
  next
    case False
    then show ?thesis using assms(1) res auto_maintenance_moves
      by (auto simp: request_smi_def request_moves_def bind_eq_Some_conv Let_def split: if_splits)
  qed
qed

lemma keep_for_resend_moves:
  assumes "keep_for_resend q smi s = Some s'" "q < length (seq_tab s)"
  shows "same_frame s s'" "own s' = own s" "mh_log s' = mh_log s"
  using assms by (auto simp: keep_for_resend_def own_set_seq ent_own_def split: if_splits)

lemma next_seq_log: "intf_next_seq r t n b s = Some (res, s') \<Longrightarrow> mh_log s' = mh_log s"
  by (auto simp: intf_next_seq_def bind_eq_Some_conv Let_def split: if_splits)

text \<open>A frame for a bus: nothing but the bytes of the message changes, and it is not one of the BMC's own messages.\<close>

definition framed :: "smi_req \<Rightarrow> smi_req \<Rightarrow> bool" where
  "framed smi smi1 \<longleftrightarrow> smi_user_data smi1 = smi_user_data smi \<and> msg_rsp smi1 = msg_rsp smi \<and> length (msg_data smi1) = length (msg_data smi) \<and>
     msg_data smi1 ! 1 = IPMI_SEND_MSG_CMD"

lemma framed_ipmb:
  assumes "format_ipmb_msg smi msg c sl lun msgid q b sa su = Some smi1" "length (msg_data smi) = 272"
    "length (km_data msg) + 10 + (if b then 1 else 0) \<le> 272"
  shows "framed smi smi1"
  using assms format_ipmb_msg_bytes [OF assms(2,3), of c sl lun msgid q sa su] overlay_length [of "ipmb_bytes b c sl lun q sa su msg" "msg_data smi"]
  by (auto simp: framed_def overlay_def ipmb_bytes_def ipmb_frame_def)

lemma framed_lan:
  assumes "format_lan_msg smi msg c h rem loc lun msgid q su = Some smi1" "length (msg_data smi) = 272" "length (km_data msg) + 11 \<le> 272"
  shows "framed smi smi1"
  using assms format_lan_msg_bytes [OF assms(2,3), of c h rem loc lun msgid q su]
    overlay_length [of "lan_bytes c h rem loc lun q su msg" "msg_data smi"]
  by (auto simp: framed_def overlay_def lan_bytes_def ipmb_frame_def)

text \<open>The two ways of a message to a bus: a response carries its receive message, a command leaves it in the table.\<close>

lemma framed_response_moves:
  assumes "framed smi smi1" "smi_fresh smi" "rm_id r1 = rm_id r"
  shows "request_moves r s (0, r1, smi1\<lparr>smi_user_data := Some r1\<rparr>, bump k s)"
  using assms by (auto simp: framed_def request_moves_def plain_def ud_def smi_fresh_def)

lemma framed_command_moves:
  assumes "intf_next_seq r1 t n b (bump k s) = Some (Inr (q, qid), s1)" "framed smi smi1" "keep_for_resend q smi1 s1 = Some s2"
    "smi_fresh smi" "rm_id r1 = rm_id r"
  shows "request_moves r s (0, r1, smi1, s2)"
proof -
  note n = own_next_seq [OF assms(1)] next_seq_log [OF assms(1)]
  have q: "q < length (seq_tab s1)" using n(2) by blast
  note k = keep_for_resend_moves [OF assms(3) q]
  have "same_frame s s2" using same_frame_trans [OF _ k(1)] n(1) same_frame_trans [of s "bump k s" s1] by simp
  moreover have "own s2 = add_mset (rm_id r) (own s)" using n(1) k(2) assms(5) by simp
  ultimately show ?thesis using assms(2,4,5) n(3) k(3) by (auto simp: request_moves_def framed_def plain_def ud_def smi_fresh_def)
qed

lemma full_moves:
  assumes "intf_next_seq r1 t n b (bump k s) = Some (Inl err, s1)" "rm_id r1 = rm_id r"
  shows "request_moves r s (err, r1, smi, s1)"
proof -
  have "err = - EAGAIN" using assms(1) by (auto simp: intf_next_seq_def bind_eq_Some_conv Let_def split: if_splits)
  moreover have "same_frame s s1" using own_next_seq(1) [OF assms(1)] same_frame_trans [of s "bump k s" s1] by simp
  ultimately show ?thesis using own_next_seq(1) [OF assms(1)] next_seq_log [OF assms(1)] assms(2) by (simp add: request_moves_def)
qed

lemma refused_moves: "rv \<noteq> 0 \<Longrightarrow> rm_id r2 = rm_id r \<Longrightarrow> request_moves r s (rv, r2, smi, s)" 
  "rv \<noteq> 0 \<Longrightarrow> rm_id r2 = rm_id r \<Longrightarrow> request_moves r s (rv, r2, smi, bump k s)"
  by (simp_all add: request_moves_def)

lemma bus_request_moves:
  assumes tail: "(if flag nf 1 then do { smi1 \<leftarrow> fmt msgid q0; Some (0, r1, smi1\<lparr>smi_user_data := Some r1\<rparr>, bump kr s) }
      else do {
        (res, s1) \<leftarrow> intf_next_seq r1 t n b (bump kc s);
        (case res of
           Inl err \<Rightarrow> Some (err, r1, smi, s1)
         | Inr (seq, seqid) \<Rightarrow> do {
             smi1 \<leftarrow> fmt (STORE_SEQ_IN_MSGID (of_nat seq) seqid) (of_nat seq);
             s2 \<leftarrow> keep_for_resend seq smi1 s1;
             Some (0, r1, smi1, s2) }) }) = Some res"
    and fmt: "\<And>a b smi1. fmt a b = Some smi1 \<Longrightarrow> framed smi smi1" and smi: "smi_fresh smi" and id: "rm_id r1 = rm_id r"
  shows "request_moves r s res"
proof (cases "flag nf 1")
  case True
  then obtain smi1 where "fmt msgid q0 = Some smi1" "res = (0, r1, smi1\<lparr>smi_user_data := Some r1\<rparr>, bump kr s)"
    using tail by (auto simp: bind_eq_Some_conv)
  then show ?thesis using framed_response_moves [OF fmt smi id] by simp
next
  case False
  then obtain x s1 where x: "intf_next_seq r1 t n b (bump kc s) = Some (x, s1)"
    using tail by (auto simp: bind_eq_Some_conv)
  show ?thesis
  proof (cases x)
    case (Inl err)
    then show ?thesis using tail False x full_moves [OF _ id] by auto
  next
    case (Inr y)
    then obtain q qid where y: "x = Inr (q, qid)" by (cases y) auto
    obtain smi1 s2 where "fmt (STORE_SEQ_IN_MSGID (of_nat q) qid) (of_nat q) = Some smi1" "keep_for_resend q smi1 s1 = Some s2" "res = (0, r1, smi1, s2)"
      using tail False x y by (auto simp: bind_eq_Some_conv)
    then show ?thesis using framed_command_moves [OF _ fmt _ smi id] x y by blast
  qed
qed

lemma request_ipmb_moves:
  assumes "request_ipmb b c sl lun msgid msg sa su retries rt r smi s = Some res" "smi_fresh smi"
  shows "request_moves r s res"
proof (cases "c \<ge> 16 \<or> (\<exists>ch. buf_get (channels s) c = Some ch \<and> medium ch \<noteq> IPMI_CHANNEL_MEDIUM_IPMB) \<or>
    length (km_data msg) + 10 + (if b then 1 else 0) > 272 \<or> lun > 3")
  case True
  then show ?thesis using assms(1)
    by (auto simp: request_ipmb_def bind_eq_Some_conv Let_def IPMI_MAX_MSG_LENGTH_def refused_moves split: if_splits)
next
  case False
  then obtain ch where "buf_get (channels s) c = Some ch" using assms(1) by (cases "buf_get (channels s) c") (auto simp: request_ipmb_def Let_def)
  then show ?thesis
    using assms False
    by (intro bus_request_moves [where smi = smi and fmt = "\<lambda>id q. format_ipmb_msg smi msg c sl lun id q b sa su" and nf = "km_netfn msg"
          and ?r1.0 = "r\<lparr>rm_addr := Ipmb_addr c sl lun\<rparr>" and kr = Sent_ipmb_responses and kc = Sent_ipmb_commands and ?q0.0 = "word_of_int msgid"
          and t = "ucast (ipmb_retry_time msg rt)" and n = "ipmb_retries b msg retries" and b = b and msgid = msgid])
       (auto simp: request_ipmb_def Let_def smi_fresh_def IPMI_MAX_MSG_LENGTH_def intro!: framed_ipmb)
qed

lemma request_lan_moves:
  assumes "request_lan c p h rem loc lun msgid msg su rt r smi s = Some res" "smi_fresh smi"
  shows "request_moves r s res"
proof (cases "c \<ge> 16 \<or> (\<exists>ch. buf_get (channels s) c = Some ch \<and> medium ch \<noteq> IPMI_CHANNEL_MEDIUM_8023LAN \<and> medium ch \<noteq> IPMI_CHANNEL_MEDIUM_ASYNC) \<or>
    length (km_data msg) + 12 > 272 \<or> lun > 3")
  case True
  then show ?thesis using assms(1)
    by (auto simp: request_lan_def bind_eq_Some_conv Let_def IPMI_MAX_MSG_LENGTH_def refused_moves split: if_splits)
next
  case False
  then obtain ch where "buf_get (channels s) c = Some ch" using assms(1) by (cases "buf_get (channels s) c") (auto simp: request_lan_def Let_def)
  then show ?thesis
    using assms False
    by (intro bus_request_moves [where smi = smi and fmt = "\<lambda>id q. format_lan_msg smi msg c h rem loc lun id q su" and nf = "km_netfn msg"
          and ?r1.0 = "r\<lparr>rm_addr := Lan_addr c p h rem loc lun\<rparr>" and kr = Sent_lan_responses and kc = Sent_lan_commands and ?q0.0 = "word_of_int msgid"
          and t = "ucast (if rt = 0 then 100 else rt)" and n = 1 and b = False and msgid = msgid])
       (auto simp: request_lan_def Let_def smi_fresh_def IPMI_MAX_MSG_LENGTH_def intro!: framed_lan)
qed

end
