(* ===== verification/Ipmi_Msg_Moves.thy ===== *)
theory Ipmi_Msg_Moves
  imports Ipmi_Msg_Own
begin

text \<open>
  The ownership of receive messages, continued: requests as a whole, the messages from the system interface driver, the timer,
  and users.
\<close>

section \<open>Moves\<close>

definition msg_wf :: "smi_req \<Rightarrow> bool" where
  "msg_wf m \<longleftrightarrow> length (msg_data m) = 272 \<and> length (msg_rsp m) = 272 \<and> plain m"

text \<open>From \<open>s\<close> to \<open>s'\<close> the receive messages \<open>X\<close> have come in, and only well-formed messages have been sent.\<close>

definition moves :: "nat multiset \<Rightarrow> ipmi_smi \<Rightarrow> ipmi_smi \<Rightarrow> bool" where
  "moves X s s' \<longleftrightarrow> same_frame s s' \<and> own s' = own s + X \<and> (\<exists>ms. sends (mh_log s') = sends (mh_log s) @ ms \<and> (\<forall>m \<in> set ms. msg_wf m))"

text \<open>As before, where \<open>X\<close> is some of the messages that were allocated.\<close>

definition moves_some :: "ipmi_recv_msg list \<Rightarrow> ipmi_smi \<Rightarrow> ipmi_smi \<Rightarrow> bool" where
  "moves_some al s s' \<longleftrightarrow> (\<exists>X. X \<subseteq># ids al \<and> moves X s s')"

lemma moves_refl [simp]: "moves {#} s s"
  by (simp add: moves_def)

lemma moves_trans: "moves X s s1 \<Longrightarrow> moves Y s1 s2 \<Longrightarrow> moves (X + Y) s s2"
  by (fastforce simp: moves_def intro: same_frame_trans)

lemma moves_some_none: "moves {#} s s' \<Longrightarrow> moves_some al s s'"
  unfolding moves_some_def by (intro exI [of _ "{#}"]) simp

lemma moves_some_one: "moves {#rm_id r#} s s' \<Longrightarrow> moves_some (r # al) s s'"
  unfolding moves_some_def by (intro exI [of _ "{#rm_id r#}"]) simp

lemma sends_simps [simp]:
  "sends (mh_log (user_put u s)) = sends (mh_log s)" "sends (mh_log (ipmi_free_recv_msg r s)) = sends (mh_log s)"
  "sends (mh_log (deliver_response r s)) = sends (mh_log s)" "sends (mh_log (deliver_err_response r e s)) = sends (mh_log s)"
  by (simp_all add: user_put_def ipmi_free_recv_msg_def deliver_response_def deliver_err_response_def Let_def split: option.split)

text \<open>An operation at the end of a run of others.\<close>

lemma moves_steps [simp]:
  "moves X s (bump k s1) = moves X s s1" "moves X s (user_get u s1) = moves X s s1" "moves X s (user_put u s1) = moves X s s1"
  "moves X s (emit (Free_smi m) s1) = moves X s s1" "moves X s (emit (Set_maintenance_mode b) s1) = moves X s s1"
  "moves X s (emit Request_events s1) = moves X s s1"
  by (simp_all add: moves_def)

lemma moves_deliver:
  "moves X s s1 \<Longrightarrow> moves (add_mset (rm_id r) X) s (deliver_response r s1)"
  "moves X s s1 \<Longrightarrow> moves (add_mset (rm_id r) X) s (ipmi_free_recv_msg r s1)"
  "moves X s s1 \<Longrightarrow> moves (add_mset (rm_id r) X) s (deliver_err_response r e s1)"
  by (simp_all add: moves_def)

lemma moves_send: "moves X s s1 \<Longrightarrow> msg_wf m \<Longrightarrow> moves (X + ud m) s (emit (Sender m p) s1)"
  by (auto simp: moves_def)

section \<open>Requests\<close>

lemma request_moves_sent:
  assumes "request_moves r s (0, r2, smi, s')"
  shows "moves {#rm_id r#} s (emit (Sender smi p) s')"
  using assms by (auto simp: request_moves_def moves_def msg_wf_def)

lemma request_moves_refused:
  assumes "request_moves r s (rv, r2, smi, s')" "rv \<noteq> 0"
  shows "moves {#rm_id r#} s (ipmi_free_recv_msg r2 (emit (Free_smi smi) s'))"
  using assms by (auto simp: request_moves_def moves_def)

lemma moves_from:
  "moves X (bump k s) s' = moves X s s'" "moves X (user_get u s) s' = moves X s s'"
  by (auto simp: moves_def same_frame_def bump_def user_get_def set_user_def own_def)

lemma i_ipmi_request_moves:
  assumes "i_ipmi_request user addr msgid msg prio sa su retries rt ar am s = Some (rv, s')"
    and "\<And>m. am = Some m \<Longrightarrow> smi_fresh m" and "km_netfn msg < 64"
  shows "moves (case ar of None \<Rightarrow> {#} | Some r \<Rightarrow> {#rm_id r#}) s s'"
proof (cases "\<exists>r smi. ar = Some r \<and> am = Some smi \<and> mh_handlers s")
  case False
  then show ?thesis using assms(1) moves_deliver(2) [OF moves_refl]
    by (auto simp: i_ipmi_request_def moves_def split: option.splits if_splits)
next
  case True
  then obtain r smi where a: "ar = Some r" "am = Some smi" "mh_handlers s" by blast
  let ?r = "r\<lparr>rm_user := user, rm_msgid := msgid, rm_msg := msg\<rparr>"
  let ?s = "case user of None \<Rightarrow> s | Some u \<Rightarrow> user_get u s"
  obtain rv1 r2 smi1 s2 where req: "(case addr of
          System_interface_addr c lun \<Rightarrow> request_smi c lun msgid msg ?r smi ?s
        | Ipmb_addr c slave lun \<Rightarrow> request_ipmb False c slave lun msgid msg sa su retries rt ?r smi ?s
        | Ipmb_broadcast_addr c slave lun \<Rightarrow> request_ipmb True c slave lun msgid msg sa su retries rt ?r smi ?s
        | Lan_addr c p h rem loc lun \<Rightarrow> request_lan c p h rem loc lun msgid msg su rt ?r smi ?s
        | Other_addr t c \<Rightarrow> Some (- EINVAL, ?r, smi, bump Sent_invalid_commands ?s)) = Some (rv1, r2, smi1, s2)"
      and res: "if rv1 \<noteq> 0 then s' = ipmi_free_recv_msg r2 (emit (Free_smi smi1) s2) else s' = emit (Sender smi1 prio) s2"
    using assms(1) a by (auto simp: i_ipmi_request_def bind_eq_Some_conv Let_def split: if_splits)
  have "request_moves ?r ?s (rv1, r2, smi1, s2)"
    using req request_smi_moves [OF _ assms(2) [OF a(2)] assms(3)] request_ipmb_moves [OF _ assms(2) [OF a(2)]]
      request_lan_moves [OF _ assms(2) [OF a(2)]]
    by (cases addr) (auto simp: refused_moves)
  then have "moves {#rm_id r#} ?s s'"
    using res request_moves_sent [of ?r ?s r2 smi1 s2] request_moves_refused [of ?r ?s rv1 r2 smi1 s2] by (auto split: if_splits)
  then show ?thesis using a(1) by (auto simp: moves_from split: option.splits)
qed

lemma bind_SomeE: "x \<bind> f = Some y \<Longrightarrow> (\<And>a. x = Some a \<Longrightarrow> f a = Some y \<Longrightarrow> P) \<Longrightarrow> P"
  by (auto simp: bind_eq_Some_conv)

definition recvs :: "ipmi_recv_msg option \<Rightarrow> ipmi_recv_msg list" where
  "recvs ar = (case ar of None \<Rightarrow> [] | Some r \<Rightarrow> [r])"

lemma request_moves_some:
  assumes "i_ipmi_request user addr msgid msg prio sa su retries rt ar am s = Some (rv, s')"
    and "\<And>m. am = Some m \<Longrightarrow> smi_fresh m" and "km_netfn msg < 64"
  shows "moves_some (recvs ar) s s'"
  using i_ipmi_request_moves [OF assms] by (auto simp: recvs_def moves_some_one moves_some_none split: option.split_asm)

lemma settime_moves:
  assumes "ipmi_request_settime user addr msgid msg prio retries rt ar am s = Some (rv, s')"
    and "\<And>m. am = Some m \<Longrightarrow> smi_fresh m" and "km_netfn msg < 64"
  shows "moves_some (recvs ar) s s'"
proof -
  consider "s' = s" | sa su where "i_ipmi_request user addr msgid msg prio sa su retries rt ar am s = Some (rv, s')"
    using assms(1) by (auto simp: ipmi_request_settime_def elim!: bind_SomeE split: if_split_asm sum.split_asm)
  then show ?thesis
  proof cases
    case 2
    from request_moves_some [OF 2 assms(2,3)] show ?thesis .
  qed (simp add: moves_some_none)
qed

section \<open>Messages from the BMC\<close>

text \<open>The answers that are looked up in the table.\<close>

lemma find_then_deliver:
  assumes "intf_find_seq q c cmd nf a s = Some (Inr r, s1)"
  shows "moves {#} s (deliver_response (answered n d r) s1)"
proof -
  have "mh_log s1 = mh_log s" using assms by (auto simp: intf_find_seq_def Let_def elim!: bind_SomeE split: if_split_asm)
  then show ?thesis using own_find_seq [OF assms] by (simp add: moves_def answered_def)
qed

lemma find_failed: "intf_find_seq q c cmd nf a s = Some (Inl e, s1) \<Longrightarrow> s1 = s"
  by (auto simp: intf_find_seq_def Let_def elim!: bind_SomeE split: if_split_asm)

lemma deliver_bump: "deliver_response r (bump k s) = bump k (deliver_response r s)" if "rm_user r = Some u"
  using that by (simp add: deliver_response_def bump_def emit_def)

lemma moves_find:
  assumes "intf_find_seq q c cmd nf a s = Some (res, s1)"
    and "(case res of Inl err \<Rightarrow> Some (0, bump k s1) | Inr r \<Rightarrow> d \<bind> (\<lambda>data. Some (0, deliver_response (answered n data r) (bump k' s1)))) = Some (rv, s')"
  shows "rv = 0 \<and> moves {#} s s'"
proof (cases res)
  case (Inl e)
  then show ?thesis using assms find_failed [of q c cmd nf a s e s1] by auto
next
  case (Inr r)
  then obtain data where d: "rv = 0" "s' = deliver_response (answered n data r) (bump k' s1)" using assms(2) by (auto elim!: bind_SomeE)
  have "moves {#} s (deliver_response (answered n data r) s1)" using find_then_deliver assms(1) Inr by blast
  then show ?thesis using d by (simp add: moves_def)
qed

lemma ipmb_rsp_moves: "handle_ipmb_get_msg_rsp m s = Some (rv, s') \<Longrightarrow> rv = 0 \<and> moves {#} s s'"
  by (auto simp: handle_ipmb_get_msg_rsp_def Let_def elim!: bind_SomeE split: if_split_asm dest!: moves_find)

lemma lan_rsp_moves: "handle_lan_get_msg_rsp m s = Some (rv, s') \<Longrightarrow> rv = 0 \<and> moves {#} s s'"
  by (auto simp: handle_lan_get_msg_rsp_def Let_def elim!: bind_SomeE split: if_split_asm dest!: moves_find)

lemma command_from_id [simp]: "rm_id (command_from u a t i n c d r) = rm_id r"
  by (simp add: command_from_def)

lemma command_delivered: "moves {#} s s1 \<Longrightarrow> moves_some (r # al) s (deliver_response (command_from u a t i n c d r) s1)"
  using moves_deliver(1) [of "{#}" s s1 "command_from u a t i n c d r"] by (simp add: moves_some_one)

lemma invalid_reply_wf:
  assumes "invalid_command_reply m s = Some m1" "msg_wf m" "smi_user_data m = None"
  shows "msg_wf m1 \<and> ud m1 = {#}"
  using assms by (auto simp: invalid_command_reply_def msg_wf_def plain_def ud_def elim!: bind_SomeE dest!: buf_set_length)

lemma ipmb_cmd_moves:
  assumes "handle_ipmb_get_msg_cmd al m s = Some (rv, s')" "msg_wf m" "smi_user_data m = None"
  shows "rv \<in> {- 1, 0, 1} \<and> moves_some al s s'"
proof -
  have reply: "moves_some al s (emit (Sender m1 0) (bump Unhandled_commands s))" if "invalid_command_reply m (bump Unhandled_commands s) = Some m1" for m1
    using invalid_reply_wf [OF that assms(2,3)] moves_send [of "{#}" s "bump Unhandled_commands s" m1 0] by (simp add: moves_some_none)
  show ?thesis using assms(1)
    by (auto simp: handle_ipmb_get_msg_cmd_def Let_def moves_some_none reply elim!: bind_SomeE split: if_split_asm option.split_asm list.split_asm
        intro!: command_delivered)
qed

lemma lan_cmd_moves: "handle_lan_get_msg_cmd al m s = Some (rv, s') \<Longrightarrow> rv \<in> {0, 1} \<and> moves_some al s s'"
  by (auto simp: handle_lan_get_msg_cmd_def Let_def moves_some_none elim!: bind_SomeE split: if_split_asm option.split_asm list.split_asm
      intro!: command_delivered)

lemma oem_cmd_moves: "handle_oem_get_msg_cmd al m s = Some (rv, s') \<Longrightarrow> rv \<in> {0, 1} \<and> moves_some al s s'"
  by (auto simp: handle_oem_get_msg_cmd_def Let_def moves_some_none elim!: bind_SomeE split: if_split_asm option.split_asm list.split_asm
      intro!: command_delivered)

lemma get_msg_moves:
  assumes "handle_get_msg al m s = Some (rv, s')" "msg_wf m" "smi_user_data m = None"
  shows "rv \<in> {- 1, 0, 1, 2} \<and> moves_some al s s'"
  using assms(1) ipmb_cmd_moves [OF _ assms(2,3), of al s rv s']
  by (auto simp: handle_get_msg_def moves_some_none elim!: bind_SomeE split: if_split_asm
      dest!: ipmb_rsp_moves lan_rsp_moves lan_cmd_moves oem_cmd_moves)

section \<open>Events\<close>

lemma copy_event_id: "copy_event_into_recv_msg r m = Some r1 \<Longrightarrow> rm_id r1 = rm_id r"
  by (auto simp: copy_event_into_recv_msg_def elim!: bind_SomeE)

lemma event_msgs_moves:
  assumes "event_msgs m us al msgs s = Some (ok, al1, msgs1, s1)"
  shows "moves {#} s s1 \<and> ids msgs1 + ids al1 \<subseteq># ids msgs + ids al"
  using assms
proof (induction m us al msgs s rule: event_msgs.induct)
  case (2 m u us al msgs s)
  show ?case
  proof (cases "gets_events (user_objs s u) \<and> al \<noteq> []")
    case True
    then obtain r al2 where al: "al = r # al2" by (cases al) auto
    then obtain r1 where r1: "copy_event_into_recv_msg r m = Some r1"
        "event_msgs m us al2 (msgs @ [r1\<lparr>rm_user := Some u\<rparr>]) (user_get u s) = Some (ok, al1, msgs1, s1)"
      using 2(3) True by (auto elim!: bind_SomeE)
    then show ?thesis using 2(2) [OF _ al r1] True al copy_event_id [OF r1(1)] by (simp add: moves_from)
  next
    case False
    then show ?thesis using 2(1,3) by (auto split: if_split_asm list.split_asm)
  qed
qed simp

lemma sends_fold [simp]:
  "sends (mh_log (fold deliver_response rs s)) = sends (mh_log s)" "sends (mh_log (fold ipmi_free_recv_msg rs s)) = sends (mh_log s)"
  by (induction rs arbitrary: s) simp_all

lemma moves_fold:
  "moves X s s1 \<Longrightarrow> moves (X + ids rs) s (fold deliver_response rs s1)"
  "moves X s s1 \<Longrightarrow> moves (X + ids rs) s (fold ipmi_free_recv_msg rs s1)"
  by (simp_all add: moves_def own_fold_deliver)

lemma read_event_moves:
  assumes "handle_read_event_rsp al m s = Some (rv, s')"
  shows "rv \<in> {0, 1} \<and> moves_some al s s'"
proof (cases "msg_rsp_size m < 19 \<or> buf_get (msg_rsp m) 2 \<noteq> Some 0")
  case True
  then show ?thesis using assms by (auto simp: handle_read_event_rsp_def moves_some_none elim!: bind_SomeE split: if_split_asm)
next
  case False
  then obtain ok al1 msgs s1 where ev: "event_msgs m (users s) al [] (bump Events s) = Some (ok, al1, msgs, s1)"
    using assms by (auto simp: handle_read_event_rsp_def elim!: bind_SomeE split: if_split_asm)
  then have 1: "moves {#} s s1" "ids msgs + ids al1 \<subseteq># ids al" using event_msgs_moves [OF ev] by (simp_all add: moves_from)
  have "moves_some al s (fold deliver_response msgs s1)" "moves_some al s (fold ipmi_free_recv_msg msgs s1)"
    using moves_fold [OF 1(1), of msgs] 1(2) unfolding moves_some_def by (metis add_0 mset_subset_eq_add_left subset_mset.order_trans)+
  moreover have "moves_some al s (s1\<lparr>waiting_events := waiting_events s1 @ [r1], waiting_events_count := n\<rparr>)"
    if "al1 = r # al2" "copy_event_into_recv_msg r m = Some r1" for r al2 r1 n
  proof -
    have "moves {#rm_id r#} s (s1\<lparr>waiting_events := waiting_events s1 @ [r1], waiting_events_count := n\<rparr>)"
      using 1(1) copy_event_id [OF that(2)] by (simp add: moves_def same_frame_def own_def)
    moreover have "{#rm_id r#} \<subseteq># ids al" using 1(2) that(1) by (auto simp: insert_subset_eq_iff dest: mset_subset_eqD)
    ultimately show ?thesis unfolding moves_some_def by blast
  qed
  ultimately show ?thesis using assms False ev moves_some_none [OF 1(1)]
    by (auto simp: handle_read_event_rsp_def elim!: bind_SomeE split: if_split_asm list.split_asm)
qed

section \<open>Messages from the system interface driver\<close>

lemma bmc_rsp_moves: "handle_bmc_rsp m s = Some (rv, s') \<Longrightarrow> rv = 0 \<and> moves (ud m) s s'"
  using moves_deliver [of "{#}" s] 
  by (auto simp: handle_bmc_rsp_def ud_def moves_def elim!: bind_SomeE split: if_split_asm option.split_asm)

text \<open>The answer to a response is forgotten when its user is gone.\<close>

lemma response_sent_moves:
  assumes "handle_response_sent m r s = Some (rv, s')"
  shows "rv = 0 \<and> moves (if \<exists>u. rm_user r = Some u \<and> user_valid (user_objs s u) then {#rm_id r#} else {#}) s s'"
  using assms by (auto simp: handle_response_sent_def moves_def elim!: bind_SomeE split: if_split_asm option.split_asm)

lemma check_response_keeps:
  assumes "check_response m = Some m1"
  shows "smi_user_data m1 = smi_user_data m" "msg_data m1 = msg_data m" "msg_wf m1 = msg_wf m" "smi_msgid m1 = smi_msgid m"
    "msg_ptr m1 = msg_ptr m" "msg_data_size m1 = msg_data_size m" "ud m1 = ud m"
  using assms
  by (auto simp: check_response_def msg_wf_def plain_def ud_def elim!: bind_SomeE split: if_split_asm dest!: buf_set_length)

text \<open>After the check the response answers the command of the message.\<close>

lemma check_response_answers:
  assumes "check_response m = Some m1" "msg_wf m"
  shows "drop_bit 2 (msg_rsp m1 ! 0) = drop_bit 2 (msg_data m ! 0) OR 1" "msg_rsp m1 ! 1 = msg_data m ! 1"
proof -
  have or4: "drop_bit 2 (x OR 4) = drop_bit 2 x OR (1 :: u8)" for x
    by (rule bit_word_eqI) (auto simp: bit_drop_bit_eq bit_or_iff bit_1_iff bit_numeral_rec(1) bit_numeral_iff)
  show "drop_bit 2 (msg_rsp m1 ! 0) = drop_bit 2 (msg_data m ! 0) OR 1" "msg_rsp m1 ! 1 = msg_data m ! 1"
    using assms by (auto simp: check_response_def msg_wf_def buf_get_def buf_set_def or4 elim!: bind_SomeE split: if_split_asm)
qed

definition alive :: "ipmi_recv_msg \<Rightarrow> ipmi_smi \<Rightarrow> bool" where
  "alive r s \<longleftrightarrow> (\<exists>u. rm_user r = Some u \<and> user_valid (user_objs s u))"

text \<open>The answer to a response that its user has sent through the BMC has come back, and the user is gone.\<close>

definition gone :: "smi_req \<Rightarrow> ipmi_smi \<Rightarrow> bool" where
  "gone m s \<longleftrightarrow> drop_bit 2 (msg_data m ! 0) OR 1 = 7 \<and> msg_data m ! 1 = IPMI_SEND_MSG_CMD \<and> (\<exists>r. smi_user_data m = Some r \<and> \<not> alive r s)"

text \<open>The message \<open>m\<close> has come back and is done with: its receive message has gone on, or was forgotten with its user.\<close>

definition takes_back :: "ipmi_recv_msg list \<Rightarrow> smi_req \<Rightarrow> ipmi_smi \<Rightarrow> ipmi_smi \<Rightarrow> bool" where
  "takes_back al m s s' \<longleftrightarrow> (\<exists>X Y. X \<subseteq># ids al \<and> moves (X + Y) s s' \<and> (Y = ud m \<or> Y = {#} \<and> gone m s))"

lemma takes_back_some: "moves_some al s s' \<Longrightarrow> smi_user_data m = None \<Longrightarrow> takes_back al m s s'"
  unfolding takes_back_def moves_some_def ud_def by (metis add_0_right option.case(1))

lemma takes_back_own: "moves (ud m) s s' \<Longrightarrow> takes_back al m s s'"
  unfolding takes_back_def by (intro exI [of _ "{#}"] exI [of _ "ud m"]) simp

lemma takes_back_gone: "moves {#} s s' \<Longrightarrow> gone m s \<Longrightarrow> takes_back al m s s'"
  unfolding takes_back_def by (intro exI [of _ "{#}"]) simp

text \<open>A message that is kept is one of the BMC's own.\<close>

lemma new_recv_cases:
  assumes "handle_new_recv_msg al m0 s = Some (rv, m, s')" "msg_wf m0"
  shows "msg_wf m \<and> ud m = ud m0 \<and>
    (rv = 0 \<and> takes_back al m0 s s' \<or> rv \<in> {- 1, 1, 2} \<and> smi_user_data m0 = None \<and> moves_some al s s')"
proof -
  obtain r0 r1 where m: "check_response m0 = Some m" "buf_get (msg_rsp m) 0 = Some r0" "buf_get (msg_rsp m) 1 = Some r1"
    using assms(1) by (auto simp: handle_new_recv_msg_def elim!: bind_SomeE)
  note k = check_response_keeps [OF m(1)]
  have wf: "msg_wf m" using k(3) assms(2) by simp
  have r: "r0 = msg_rsp m ! 0" "r1 = msg_rsp m ! 1" using m(2,3) by (auto dest: buf_get_SomeD)
  show ?thesis
  proof (cases "smi_user_data m0")
    case None
    then have "rv \<in> {- 1, 0, 1, 2} \<and> moves_some al s s'"
      using assms(1) m k(1) get_msg_moves [OF _ wf, of al s rv s'] read_event_moves [of al m s rv s'] bmc_rsp_moves [of m s rv s'] k(7)
      by (auto simp: handle_new_recv_msg_def ud_def moves_some_none elim!: bind_SomeE split: if_split_asm)
    then show ?thesis using takes_back_some [OF _ None] wf k(7) None by auto
  next
    case (Some r)
    have "\<not> (r0 = 0x1c \<and> (r1 = IPMI_GET_MSG_CMD \<or> r1 = IPMI_READ_EVENT_MSG_BUFFER_CMD))"
    proof
      assume a: "r0 = 0x1c \<and> (r1 = IPMI_GET_MSG_CMD \<or> r1 = IPMI_READ_EVENT_MSG_BUFFER_CMD)"
      then have "drop_bit 2 (msg_data m0 ! 0) OR 1 = 7" using check_response_answers(1) [OF m(1) assms(2)] r by simp
      then show False using a check_response_answers(2) [OF m(1) assms(2)] r assms(2) Some by (auto simp: msg_wf_def plain_def)
    qed
    then consider "handle_response_sent m r s = Some (rv, s')" "r0 = 0x1c" "r1 = IPMI_SEND_MSG_CMD"
      | "handle_bmc_rsp m s = Some (rv, s')"
      using assms(1) m k(1) Some by (auto simp: handle_new_recv_msg_def elim!: bind_SomeE split: if_split_asm)
    then have "rv = 0 \<and> takes_back al m0 s s'"
    proof cases
      case 1
      then show ?thesis
        using response_sent_moves [OF 1(1)] takes_back_own [of m0 s s'] takes_back_gone [of s s' m0 al] Some
          check_response_answers [OF m(1) assms(2)] r 1(2,3)
        by (auto simp: alive_def gone_def ud_def split: if_split_asm)
    next
      case 2
      then show ?thesis using bmc_rsp_moves [OF 2] takes_back_own k(7) by simp
    qed
    then show ?thesis using wf k(7) by simp
  qed
qed

lemma seq_report_moves:
  "intf_err_seq msgid e s = Some (rv, s') \<Longrightarrow> moves {#} s s'" "intf_start_seq_timer msgid s = Some (rv, s') \<Longrightarrow> moves {#} s s'"
proof -
  show "moves {#} s s'" if "intf_err_seq msgid e s = Some (rv, s')"
    using that own_err_seq [OF that] by (auto simp: intf_err_seq_def moves_def elim!: bind_SomeE split: if_split_asm prod.split_asm)
  show "moves {#} s s'" if "intf_start_seq_timer msgid s = Some (rv, s')"
    using that own_start_timer [OF that] by (auto simp: intf_start_seq_timer_def moves_def elim!: bind_SomeE split: if_split_asm prod.split_asm)
qed

lemma received_cases:
  assumes "ipmi_smi_msg_received al m s = Some s'" "msg_wf m"
  obtains (taken) "takes_back al m s s'"
  | (waits) m1 s1 where "s' = s1\<lparr>waiting_msgs := waiting_msgs s @ [m1]\<rparr>" "moves_some al s s1" "ud m1 = ud m" "msg_wf m1"
proof -
  have sent: "takes_back al m s (emit (Free_smi m) s1)" if "smi_user_data m = None" "moves {#} s s1" for s1
    using that takes_back_some moves_some_none by simp
  let ?send = "msg_data_size m \<ge> 2 \<and> buf_get (msg_data m) 0 = Some APP_REQUEST \<and> buf_get (msg_data m) 1 = Some IPMI_SEND_MSG_CMD \<and> smi_user_data m = None"
  have sends: "\<exists>s1. s' = emit (Free_smi m) s1 \<and> moves {#} s s1" if ?send
  proof -
    have err: "moves {#} s b" if "intf_err_seq (smi_msgid m) e (bump k s) = Some (rv, b)" for e k rv b
      using seq_report_moves(1) [OF that] by (simp add: moves_from)
    show ?thesis using assms(1) that
      by (auto simp: ipmi_smi_msg_received_def elim!: bind_SomeE split: if_split_asm)
        (blast dest: err seq_report_moves(2))+
  qed
  consider (send) ?send
    | (queue) "s' = s\<lparr>waiting_msgs := waiting_msgs s @ [m]\<rparr>"
    | (new) rv m1 s1 where "handle_new_recv_msg al m s = Some (rv, m1, s1)"
        "s' = (if rv > 0 then s1\<lparr>waiting_msgs := waiting_msgs s1 @ [m1]\<rparr> else if rv = 0 then emit (Free_smi m1) s1 else s1)"
  proof (cases ?send)
    case False
    then show thesis using assms(1) queue new by (auto simp: ipmi_smi_msg_received_def elim!: bind_SomeE split: if_split_asm)
  qed (rule that(1))
  then show thesis
  proof cases
    case send
    then show thesis using sends [OF send] sent taken by blast
  next
    case queue
    then show thesis using waits [of m s] assms(2) moves_some_none by simp
  next
    case new
    note c = new_recv_cases [OF new(1) assms(2)]
    have fs: "waiting_msgs s1 = waiting_msgs s" using c by (auto simp: takes_back_def moves_some_def moves_def same_frame_def)
    have fr: "takes_back al m s s1 \<Longrightarrow> takes_back al m s (emit (Free_smi m1) s1)" by (simp add: takes_back_def)
    from c new(2) show thesis using taken waits [of m1 s1] fr fs takes_back_some [of al s s1 m] by (auto split: if_split_asm)
  qed
qed

end
