(* ===== verification/Ipmi_Msg_Run.thy ===== *)
theory Ipmi_Msg_Run
  imports Ipmi_Msg_Moves
begin

text \<open>
  The message handler at work: a system of the interface, the messages that are with the system interface driver and the timer,
  whose steps are the operations in any order. Without the three faults of \<open>Ipmi_Msg_Faults\<close> no receive message is ever at two places, so
  that none is given to a user or freed twice; and none is lost but a response whose user is gone.
\<close>

section \<open>The timer and the users\<close>

lemma waiting_msg_moves:
  assumes "handle_waiting_msg al seen m s = Some (go, seen1, s1)" "msg_wf m"
  obtains (taken) "seen1 = seen" "takes_back al m s s1" | (stays) m1 where "seen1 = seen @ [m1]" "ud m1 = ud m" "msg_wf m1" "moves_some al s s1"
proof -
  obtain rv m1 s2 where h: "handle_new_recv_msg al m s = Some (rv, m1, s2)"
      "if rv = 0 then seen1 = seen \<and> s1 = emit (Free_smi m1) s2 else seen1 = seen @ [m1] \<and> s1 = s2"
    using assms(1) by (auto simp: handle_waiting_msg_def elim!: bind_SomeE split: if_split_asm)
  from new_recv_cases [OF h(1) assms(2)] show thesis
    using h(2) taken stays [of m1] by (auto simp: takes_back_def split: if_split_asm)
qed

lemma retransmit_wf:
  assumes "smi_from_recv_msg am r q i = Some (Some m)" "\<And>m. am = Some m \<Longrightarrow> smi_fresh m"
  shows "msg_wf m \<and> ud m = {#}"
  using assms by (auto simp: smi_from_recv_msg_def smi_fresh_def msg_wf_def plain_def ud_def elim!: bind_SomeE split: option.split_asm dest!: blit_length)

lemma own_update_seq:
  assumes "i < length (seq_tab s)" "\<And>e. ent_own (f e) = ent_own e"
  shows "own (set_seq i f s) = own s"
  using own_set_seq [OF assms(1)] assms(2) by simp

lemma seq_tab_set [simp]: "i < length (seq_tab s) \<Longrightarrow> seq_tab (set_seq i f s) ! i = f (seq_tab s ! i)" "length (seq_tab (set_seq i f s)) = length (seq_tab s)"
  "mh_log (set_seq i f s) = mh_log s"
  by (simp_all add: set_seq_def)

lemma timeout_moves:
  assumes "check_msg_timeout am p i (ts, s) = Some (ts', s')" "\<And>m. am = Some m \<Longrightarrow> smi_fresh m"
  obtains (kept) "ts' = ts" "moves {#} s s'" | (out) r where "ts' = ts @ [r]" "same_frame s s'" "own s = add_mset (rm_id r) (own s')" "sends (mh_log s') = sends (mh_log s)"
proof (cases "intf_num s = - 1 \<or> (\<exists>e. buf_get (seq_tab s) (int i) = Some e \<and> \<not> inuse e)")
  case True
  then show thesis using assms(1) that(1) by (auto simp: check_msg_timeout_def elim!: bind_SomeE split: if_split_asm)
next
  case False
  then obtain e where e: "buf_get (seq_tab s) (int i) = Some e" "inuse e"
    using assms(1) by (auto simp: check_msg_timeout_def elim!: bind_SomeE)
  then have i: "i < length (seq_tab s)" "inuse (seq_tab s ! i)" by (auto dest!: buf_get_SomeD)
  let ?s1 = "set_seq i (\<lambda>e. e\<lparr>seq_timeout := seq_timeout e - p\<rparr>) s"
  have own1: "own ?s1 = own s" "inuse (seq_tab ?s1 ! i)" using i by (simp_all add: own_update_seq ent_own_def)
  have own2: "own (set_seq i (\<lambda>e. e\<lparr>seq_timeout := 60000, retries_left := k e\<rparr>) ?s1) = own s" for k :: "seq_table \<Rightarrow> u32"
    using i own1 by (subst own_update_seq) (simp_all add: ent_own_def)
  have gone: "own s = add_mset (rm_id (seq_recv_msg (seq_tab ?s1 ! i))) (own (set_seq i (\<lambda>e. e\<lparr>inuse := False\<rparr>) ?s1))"
    using own_frees [of i ?s1] own1 i by simp
  show thesis
  proof (cases "0 < seq_timeout (seq_tab ?s1 ! i) \<or> retries_left (seq_tab ?s1 ! i) \<noteq> 0")
    case True
    have "ts' = ts \<and> moves {#} s s'"
      using assms(1) False True i e own1(1) own2 retransmit_wf [OF _ assms(2)]
      by (auto simp: check_msg_timeout_def moves_def Let_def elim!: bind_SomeE split: if_split_asm option.split_asm)
    then show thesis using that(1) by blast
  next
    case out: False
    then show thesis using assms(1) False i e gone that(2) [of "seq_recv_msg (seq_tab ?s1 ! i)"]
      by (auto simp: check_msg_timeout_def Let_def elim!: bind_SomeE split: if_split_asm)
  qed
qed

section \<open>The account of an interface\<close>

definition total :: "ipmi_smi \<Rightarrow> nat multiset" where
  "total s = own s + uds (waiting_msgs s)"

definition out_wf :: "ipmi_smi \<Rightarrow> bool" where
  "out_wf s \<longleftrightarrow> (\<forall>m \<in> set (waiting_msgs s) \<union> set (sends (mh_log s)). msg_wf m)"

text \<open>The messages \<open>ms\<close> have come in, with what they carry, and some of the receive messages of \<open>al\<close>.\<close>

definition takes_in :: "ipmi_recv_msg list \<Rightarrow> smi_req list \<Rightarrow> ipmi_smi \<Rightarrow> ipmi_smi \<Rightarrow> bool" where
  "takes_in al ms s s' \<longleftrightarrow> total s' \<subseteq># total s + uds ms + ids al \<and> (out_wf s \<longrightarrow> out_wf s') \<and>
     ((\<forall>m \<in> set (waiting_msgs s @ ms). \<not> gone m s) \<longrightarrow> total s + uds ms \<subseteq># total s')"

lemma moves_takes_in: "X \<subseteq># ids al \<Longrightarrow> moves X s s' \<Longrightarrow> takes_in al [] s s'"
  by (auto simp: takes_in_def moves_def total_def out_wf_def same_frame_def)

lemma moves_some_takes_in: "moves_some al s s' \<Longrightarrow> takes_in al [] s s'"
  by (auto simp: moves_some_def intro: moves_takes_in)

lemma takes_back_in: "takes_back al m s s' \<Longrightarrow> takes_in al [m] s s'"
  by (auto simp: takes_back_def takes_in_def moves_def total_def out_wf_def same_frame_def gone_def alive_def ac_simps
      intro: subset_mset.order_trans [OF _ mset_subset_eq_add_left])

lemma received_takes_in:
  assumes "ipmi_smi_msg_received al m s = Some s'" "msg_wf m"
  shows "takes_in al [m] s s'"
  using assms
proof (cases rule: received_cases)
  case taken
  then show ?thesis by (rule takes_back_in)
next
  case (waits m1 s1)
  have w: "waiting_msgs s1 = waiting_msgs s" using waits(2) by (auto simp: moves_some_def moves_def same_frame_def)
  from moves_some_takes_in [OF waits(2)] show ?thesis using waits(1,3,4) w
    by (auto simp: takes_in_def total_def own_def out_wf_def ac_simps)
qed

text \<open>One message of the queue, and the walk through it.\<close>

lemma waiting_msg_account:
  assumes "handle_waiting_msg al seen m s = Some (go, seen1, s1)" "\<forall>m \<in> set (m # seen). msg_wf m"
  shows "own s1 + uds seen1 \<subseteq># own s + uds seen + ud m + ids al"
    and "\<not> gone m s \<Longrightarrow> own s + uds seen + ud m \<subseteq># own s1 + uds seen1"
    and "(\<forall>m \<in> set seen1. msg_wf m) \<and> (\<forall>m'. gone m' s1 = gone m' s) \<and> (\<forall>m \<in> set (sends (mh_log s1)). m \<in> set (sends (mh_log s)) \<or> msg_wf m)"
proof -
  have "msg_wf m" using assms(2) by simp
  note c = waiting_msg_moves [OF assms(1) this]
  show "own s1 + uds seen1 \<subseteq># own s + uds seen + ud m + ids al"
    by (rule c) (auto simp: takes_back_def moves_some_def moves_def ac_simps intro: subset_mset.order_trans [OF _ mset_subset_eq_add_left])
  show "own s + uds seen + ud m \<subseteq># own s1 + uds seen1" if "\<not> gone m s"
    using that by - (rule c, auto simp: takes_back_def moves_some_def moves_def gone_def ac_simps)
  show "(\<forall>m \<in> set seen1. msg_wf m) \<and> (\<forall>m'. gone m' s1 = gone m' s) \<and> (\<forall>m \<in> set (sends (mh_log s1)). m \<in> set (sends (mh_log s)) \<or> msg_wf m)"
    using assms(2) by - (rule c, auto simp: takes_back_def moves_some_def moves_def same_frame_def gone_def alive_def)
qed

lemma waiting_account:
  assumes "handle_waiting als seen ms s = Some s'" "\<forall>m \<in> set (seen @ ms). msg_wf m"
  shows "total s' \<subseteq># own s + uds seen + uds ms + ids (concat als) \<and>
    ((\<forall>m \<in> set ms. \<not> gone m s) \<longrightarrow> own s + uds seen + uds ms \<subseteq># total s') \<and>
    (\<forall>m \<in> set (waiting_msgs s'). msg_wf m) \<and> (\<forall>m \<in> set (sends (mh_log s')). m \<in> set (sends (mh_log s)) \<or> msg_wf m)"
  using assms
proof (induction ms arbitrary: als seen s)
  case Nil
  then show ?case by (auto simp: total_def own_def)
next
  case (Cons m ms)
  define al where "al = (case als of [] \<Rightarrow> [] | al # _ \<Rightarrow> al)"
  have al: "ids (concat als) = ids al + ids (concat (tl als))" by (simp add: al_def split: list.split)
  obtain go seen1 s1 where h: "handle_waiting_msg al seen m s = Some (go, seen1, s1)"
      "(if go then handle_waiting (tl als) seen1 ms s1 else Some (s1\<lparr>waiting_msgs := seen1 @ ms\<rparr>)) = Some s'"
    using Cons.prems(1) by (auto simp: al_def elim!: bind_SomeE)
  have wf: "\<forall>m \<in> set (m # seen). msg_wf m" using Cons.prems(2) by simp
  note a = waiting_msg_account [OF h(1) wf]
  let ?d = "uds ms + ids (concat (tl als))"
  have up: "own s1 + uds seen1 + ?d \<subseteq># own s + uds seen + uds (m # ms) + ids (concat als)"
    using subset_mset.add_right_mono [OF a(1), of ?d] al by (simp add: ac_simps)
  have low: "own s + uds seen + uds (m # ms) \<subseteq># own s1 + uds seen1 + uds ms" if "\<not> gone m s"
    using subset_mset.add_right_mono [OF a(2) [OF that], of "uds ms"] by (simp add: ac_simps)
  have res: "total s' \<subseteq># own s1 + uds seen1 + ?d \<and> ((\<forall>m \<in> set ms. \<not> gone m s1) \<longrightarrow> own s1 + uds seen1 + uds ms \<subseteq># total s') \<and>
    (\<forall>m \<in> set (waiting_msgs s'). msg_wf m) \<and> (\<forall>m \<in> set (sends (mh_log s')). m \<in> set (sends (mh_log s1)) \<or> msg_wf m)"
  proof (cases go)
    case True
    then show ?thesis using Cons.IH [of "tl als" seen1 s1] h(2) a(3) Cons.prems(2) by (auto simp: ac_simps)
  next
    case False
    then have "s' = s1\<lparr>waiting_msgs := seen1 @ ms\<rparr>" using h(2) by simp
    then show ?thesis using a(3) Cons.prems(2) by (auto simp: total_def own_def ac_simps)
  qed
  then show ?case using up low a(3) subset_mset.order_trans by (metis list.set_intros)
qed

lemma waiting_takes_in:
  assumes "handle_waiting als [] (waiting_msgs s) s = Some s'" "out_wf s"
  shows "takes_in (concat als) [] s s'"
  using waiting_account [OF assms(1)] assms(2) by (auto simp: takes_in_def out_wf_def total_def ac_simps)

text \<open>An operation that gives nothing away and takes nothing in.\<close>

definition level :: "ipmi_smi \<Rightarrow> ipmi_smi \<Rightarrow> bool" where
  "level s s' \<longleftrightarrow> own s' = own s \<and> waiting_msgs s' = waiting_msgs s \<and> sends (mh_log s') = sends (mh_log s)"

lemma level_takes_in: "level s s' \<Longrightarrow> takes_in [] [] s s'"
  by (simp add: level_def takes_in_def total_def out_wf_def)

lemma level_trans: "level s s1 \<Longrightarrow> level s1 s2 \<Longrightarrow> level s s2"
  by (simp add: level_def)

lemma level_frees_seq:
  assumes "i < length (seq_tab s)" "inuse (seq_tab s ! i)"
  shows "level s (ipmi_free_recv_msg (seq_recv_msg (seq_tab s ! i)) (set_seq i (\<lambda>e. e\<lparr>inuse := False\<rparr>) s))"
  using own_frees [OF assms] by (simp add: level_def ipmi_free_recv_msg_def user_put_def emit_def set_user_def set_seq_def Let_def own_def split: option.split)

lemma free_recv_table [simp]: "seq_tab (ipmi_free_recv_msg r s) = seq_tab s"
  by (simp add: ipmi_free_recv_msg_def user_put_def emit_def set_user_def Let_def split: option.split)

lemma level_drop_user: "\<forall>i \<in> set is. i < length (seq_tab s) \<Longrightarrow> level s (drop_user_seqs u is s)"
proof (induction "is" arbitrary: s)
  case (Cons i "is")
  then show ?case using level_trans [OF level_frees_seq, of i s] by simp
qed (simp add: level_def)

lemma level_destroy: "level s (ipmi_destroy_user u s)"
proof -
  let ?s1 = "(set_user u (\<lambda>o'. o'\<lparr>user_valid := False\<rparr>) s)\<lparr>users := remove1 u (users s)\<rparr>"
  have "level s ?s1" by (simp add: level_def own_def set_user_def)
  moreover have "level ?s1 (drop_user_seqs u [0..<length (seq_tab ?s1)] ?s1)" by (rule level_drop_user) simp
  ultimately show ?thesis
    by (auto simp: ipmi_destroy_user_def level_def own_def user_put_def set_user_def emit_def Let_def)
qed

lemma waiting_simps [simp]:
  "waiting_msgs (user_get u s) = waiting_msgs s" "waiting_msgs (deliver_response r s) = waiting_msgs s" "waiting_msgs (deliver_err_response r e s) = waiting_msgs s"
  "mh_log (user_get u s) = mh_log s"
  using own_deliver(2) [of s r s] own_deliver_err(2) [of s r e s] by (simp_all add: same_frame_def user_get_def set_user_def)

text \<open>The waiting events go to the local list of \<open>ipmi_set_gets_events\<close>, and from there one by one to the user.\<close>

definition listed :: "ipmi_recv_msg list option \<Rightarrow> ipmi_recv_msg list" where
  "listed ms = (case ms of None \<Rightarrow> [] | Some ms \<Rightarrow> ms)"

lemma gets_events_moves:
  assumes "ipmi_set_gets_events u val s = (ms, s')"
  shows "own s = own s' + ids (listed ms) \<and> waiting_msgs s' = waiting_msgs s \<and> sends (mh_log s') = sends (mh_log s)"
  using assms by (auto simp: ipmi_set_gets_events_def gets_events_loop_def listed_def Let_def set_user_def own_def ac_simps split: if_split_asm)

lemma events_delivered_ends:
  assumes "events_delivered u ds s = (None, s')"
  shows "level s s'"
  using assms by (auto simp: events_delivered_def gets_events_loop_def level_def own_def split: if_split_asm)

lemma deliver_event_moves:
  "own (deliver_event u r s) = add_mset (rm_id r) (own s)" "waiting_msgs (deliver_event u r s) = waiting_msgs s"
  "sends (mh_log (deliver_event u r s)) = sends (mh_log s)"
  by (simp_all add: deliver_event_def)

lemma level_maintenance: "level s (maintenance_timeout p s)"
  by (simp add: maintenance_timeout_def update_maintenance_def level_def own_def emit_def Let_def)

lemma timeouts_account:
  "own (deliver_timeouts ts s) = own s + ids ts" "waiting_msgs (deliver_timeouts ts s) = waiting_msgs s" "sends (mh_log (deliver_timeouts ts s)) = sends (mh_log s)"
proof -
  have "own (deliver_timeouts ts s) = own s + ids ts \<and> waiting_msgs (deliver_timeouts ts s) = waiting_msgs s \<and> sends (mh_log (deliver_timeouts ts s)) = sends (mh_log s)"
  proof (induction ts arbitrary: s)
    case (Cons r ts)
    then show ?case by (simp add: deliver_timeouts_def)
  qed (simp add: deliver_timeouts_def)
  then show "own (deliver_timeouts ts s) = own s + ids ts" "waiting_msgs (deliver_timeouts ts s) = waiting_msgs s" "sends (mh_log (deliver_timeouts ts s)) = sends (mh_log s)"
    by simp_all
qed

section \<open>The system\<close>

text \<open>\<open>sys_below\<close> are the messages that the system interface driver has, \<open>sys_slot\<close> is the entry of the table that the timer looks at
  next and \<open>sys_timeouts\<close> its local list; \<open>sys_events\<close> are the threads that are delivering events in \<open>ipmi_set_gets_events\<close>, each with its
  user and the part of its local list that it has delivered and the part to come; \<open>sys_hist\<close> is all that was done to the layers around, and \<open>sys_allocs\<close> counts the receive
  messages that were allocated, which are numbered in that order.\<close>

record mh_sys =
  sys_intf :: ipmi_smi
  sys_below :: "smi_req list"
  sys_slot :: "nat option"
  sys_timeouts :: "ipmi_recv_msg list"
  sys_events :: "(nat \<times> ipmi_recv_msg list \<times> ipmi_recv_msg list) list"
  sys_hist :: "mh_eff list"
  sys_allocs :: nat

text \<open>After an operation of the interface.\<close>

definition mh_done :: "mh_sys \<Rightarrow> nat \<Rightarrow> ipmi_smi \<Rightarrow> mh_sys" where
  "mh_done y n s = y\<lparr>sys_intf := s\<lparr>mh_log := []\<rparr>, sys_below := sys_below y @ sends (mh_log s), sys_hist := sys_hist y @ mh_log s,
     sys_allocs := sys_allocs y + n\<rparr>"

definition fresh_recvs :: "mh_sys \<Rightarrow> ipmi_recv_msg list \<Rightarrow> bool" where
  "fresh_recvs y al \<longleftrightarrow> map rm_id al = [sys_allocs y..<sys_allocs y + length al]"

definition fresh_smis :: "(nat \<Rightarrow> smi_req option) \<Rightarrow> bool" where
  "fresh_smis am \<longleftrightarrow> (\<forall>i m. am i = Some m \<longrightarrow> smi_fresh m)"

definition to_deliver :: "nat \<Rightarrow> ipmi_recv_msg list option \<Rightarrow> (nat \<times> ipmi_recv_msg list \<times> ipmi_recv_msg list) list" where
  "to_deliver u ms = (case ms of None \<Rightarrow> [] | Some ms \<Rightarrow> [(u, [], ms)])"

text \<open>The steps: a request of a user, or of the message handler itself (\<open>user\<close> is \<^term>\<open>None\<close>); a message that comes back with a
  response; a message that the system interface driver has made itself; the three parts of the timer; the operations of users, of
  which \<open>ipmi_set_gets_events\<close> has three parts; the end of the interface. \<open>faults\<close> allows what the message handler does not stand (\<open>Ipmi_Msg_Faults\<close>):
  a network function of more than six bits, a second round of \<open>ipmi_set_gets_events\<close>, the end of the interface.\<close>

inductive mh_step :: "bool \<Rightarrow> mh_sys \<Rightarrow> mh_sys \<Rightarrow> bool" for faults where
  request: "ipmi_request_settime user addr msgid msg prio retries rt ar (am 0) (sys_intf y) = Some (rv, s) \<Longrightarrow>
    fresh_recvs y (recvs ar) \<Longrightarrow> fresh_smis am \<Longrightarrow> faults \<or> km_netfn msg < 64 \<Longrightarrow> mh_step faults y (mh_done y (length (recvs ar)) s)"
| internal: "i_ipmi_request None addr msgid msg prio sa su retries rt ar (am 0) (sys_intf y) = Some (rv, s) \<Longrightarrow>
    fresh_recvs y (recvs ar) \<Longrightarrow> fresh_smis am \<Longrightarrow> faults \<or> km_netfn msg < 64 \<Longrightarrow> mh_step faults y (mh_done y (length (recvs ar)) s)"
| answer: "sys_below y = ms1 @ m # ms2 \<Longrightarrow> length rsp = 272 \<Longrightarrow>
    ipmi_smi_msg_received al (m\<lparr>msg_rsp := rsp, msg_rsp_size := n\<rparr>) (sys_intf y) = Some s \<Longrightarrow> fresh_recvs y al \<Longrightarrow>
    mh_step faults y (mh_done (y\<lparr>sys_below := ms1 @ ms2\<rparr>) (length al) s)"
| arrival: "smi_user_data m = None \<Longrightarrow> msg_wf m \<Longrightarrow>
    ipmi_smi_msg_received al m (sys_intf y) = Some s \<Longrightarrow> fresh_recvs y al \<Longrightarrow> mh_step faults y (mh_done y (length al) s)"
| timer_waiting: "sys_slot y = None \<Longrightarrow> handle_waiting als [] (waiting_msgs (sys_intf y)) (sys_intf y) = Some s \<Longrightarrow> fresh_recvs y (concat als) \<Longrightarrow>
    mh_step faults y (mh_done (y\<lparr>sys_slot := Some 0\<rparr>) (length (concat als)) s)"
| timer_slot: "sys_slot y = Some i \<Longrightarrow> i < IPMI_IPMB_NUM_SEQ \<Longrightarrow>
    check_msg_timeout (am i) period i (sys_timeouts y, sys_intf y) = Some (ts, s) \<Longrightarrow> fresh_smis am \<Longrightarrow>
    mh_step faults y (mh_done (y\<lparr>sys_slot := Some (i + 1), sys_timeouts := ts\<rparr>) 0 s)"
| timer_end: "sys_slot y = Some IPMI_IPMB_NUM_SEQ \<Longrightarrow>
    mh_step faults y (mh_done (y\<lparr>sys_slot := None, sys_timeouts := []\<rparr>) 0 (maintenance_timeout period (deliver_timeouts (sys_timeouts y) (sys_intf y))))"
| create_user: "u \<notin> set (users (sys_intf y)) \<Longrightarrow> mh_step faults y (mh_done y 0 (ipmi_create_user u (sys_intf y)))"
| destroy_user: "u \<in> set (users (sys_intf y)) \<Longrightarrow> mh_step faults y (mh_done y 0 (ipmi_destroy_user u (sys_intf y)))"
| set_gets_events: "ipmi_set_gets_events u val (sys_intf y) = (ms, s) \<Longrightarrow>
    mh_step faults y (mh_done (y\<lparr>sys_events := sys_events y @ to_deliver u ms\<rparr>) 0 s)"
| deliver_event: "sys_events y = es1 @ (u, ds, r # ms) # es2 \<Longrightarrow>
    mh_step faults y (mh_done (y\<lparr>sys_events := es1 @ (u, ds @ [r], ms) # es2\<rparr>) 0 (deliver_event u r (sys_intf y)))"
| events_delivered: "sys_events y = es1 @ (u, ds, []) # es2 \<Longrightarrow> events_delivered u ds (sys_intf y) = (ms, s) \<Longrightarrow> faults \<or> ms = None \<Longrightarrow>
    mh_step faults y (mh_done (y\<lparr>sys_events := es1 @ to_deliver u ms @ es2\<rparr>) 0 s)"
| register_for_cmd: "mh_step faults y (mh_done y 0 (snd (ipmi_register_for_cmd u nf cmd chans ok (sys_intf y))))"
| unregister_for_cmd: "mh_step faults y (mh_done y 0 (snd (ipmi_unregister_for_cmd u nf cmd chans (sys_intf y))))"
| set_maintenance: "mh_step faults y (mh_done y 0 (snd (ipmi_set_maintenance_mode mode (sys_intf y))))"
| unregister: "faults \<Longrightarrow> mh_step faults y (mh_done y 0 (ipmi_unregister_smi (sys_intf y)))"

text \<open>Where receive messages are.\<close>

definition in_hand :: "(nat \<times> ipmi_recv_msg list \<times> ipmi_recv_msg list) list \<Rightarrow> nat multiset" where
  "in_hand es = ids (concat (map (\<lambda>(u, ds, ms). ms) es))"

lemma in_hand_simps [simp]:
  "in_hand [] = {#}" "in_hand ((u, ds, ms) # es) = ids ms + in_hand es" "in_hand (es @ es') = in_hand es + in_hand es'"
  "in_hand (to_deliver u ml) = ids (listed ml)"
  by (simp_all add: in_hand_def to_deliver_def listed_def split: option.split)

definition places :: "mh_sys \<Rightarrow> nat multiset" where
  "places y = total (sys_intf y) + uds (sys_below y) + ids (sys_timeouts y) + in_hand (sys_events y) + finals (sys_hist y)"

definition sys_wf :: "mh_sys \<Rightarrow> bool" where
  "sys_wf y \<longleftrightarrow> mh_log (sys_intf y) = [] \<and> (\<forall>m \<in> set (waiting_msgs (sys_intf y)) \<union> set (sys_below y). msg_wf m)"

text \<open>No response that is on its way through the BMC belongs to a user who is gone.\<close>

definition users_there :: "mh_sys \<Rightarrow> bool" where
  "users_there y \<longleftrightarrow> (\<forall>m \<in> set (waiting_msgs (sys_intf y)) \<union> set (sys_below y). \<not> gone m (sys_intf y))"

definition mh_inv :: "mh_sys \<Rightarrow> bool" where
  "mh_inv y \<longleftrightarrow> sys_wf y \<and> places y \<subseteq># mset [0..<sys_allocs y]"

lemma places_done:
  "places (mh_done z n s) = total s + uds (sys_below z) + ids (sys_timeouts z) + in_hand (sys_events z) + finals (sys_hist z)"
  by (simp add: places_def mh_done_def total_def own_def ac_simps)

text \<open>What a step does to the account.\<close>

definition accounts :: "mh_sys \<Rightarrow> mh_sys \<Rightarrow> bool" where
  "accounts y y' \<longleftrightarrow> sys_wf y' \<and> sys_allocs y \<le> sys_allocs y' \<and> places y' \<subseteq># places y + mset [sys_allocs y..<sys_allocs y'] \<and>
     (users_there y \<longrightarrow> places y \<subseteq># places y')"

lemma done_accounts:
  assumes t: "takes_in al ms (sys_intf y) s" and wf: "sys_wf y" and fresh: "fresh_recvs y al"
    and below: "set b \<subseteq> set (sys_below y)" "uds b + uds ms = uds (sys_below y)"
    and there: "users_there y \<Longrightarrow> \<forall>m \<in> set ms. \<not> gone m (sys_intf y)"
  shows "accounts y (mh_done (y\<lparr>sys_below := b, sys_slot := sl\<rparr>) (length al) s)"
proof -
  let ?d = "uds b + ids (sys_timeouts y) + in_hand (sys_events y) + finals (sys_hist y)"
  have al: "ids al = mset [sys_allocs y..<sys_allocs y + length al]" using fresh by (simp add: fresh_recvs_def ids_def)
  have p: "places y = total (sys_intf y) + uds ms + ?d" using below(2) by (simp add: places_def ac_simps)
  have "out_wf s" using t wf by (auto simp: takes_in_def sys_wf_def out_wf_def)
  then have "sys_wf (mh_done (y\<lparr>sys_below := b, sys_slot := sl\<rparr>) (length al) s)"
    using wf below(1) by (auto simp: sys_wf_def out_wf_def mh_done_def)
  moreover have "total s + ?d \<subseteq># places y + ids al"
  proof -
    have "total s \<subseteq># total (sys_intf y) + uds ms + ids al" using t by (simp add: takes_in_def)
    from subset_mset.add_right_mono [OF this, of ?d] show ?thesis unfolding p by (simp only: ac_simps)
  qed
  moreover have "places y \<subseteq># total s + ?d" if "users_there y"
  proof -
    have "total (sys_intf y) + uds ms \<subseteq># total s" using t there [OF that] that by (auto simp: takes_in_def users_there_def)
    then show ?thesis unfolding p by (rule subset_mset.add_right_mono)
  qed
  ultimately show ?thesis by (simp add: accounts_def places_done al) (simp add: mh_done_def ac_simps)
qed

lemma same_below: "y\<lparr>sys_below := sys_below y, sys_slot := sys_slot y\<rparr> = (y :: mh_sys)"
  by (cases y) simp

lemma level_accounts:
  assumes "level (sys_intf y) s" "sys_wf y"
  shows "accounts y (mh_done y 0 s)"
  using done_accounts [OF level_takes_in [OF assms(1)] assms(2), of "sys_below y" "sys_slot y"] by (simp add: fresh_recvs_def same_below)

lemma fresh_one: "moves_some al (sys_intf y) s \<Longrightarrow> sys_wf y \<Longrightarrow> fresh_recvs y al \<Longrightarrow> accounts y (mh_done y (length al) s)"
  using done_accounts [OF moves_some_takes_in, of al y s "sys_below y" "sys_slot y"] by (simp add: same_below)

text \<open>Between the queue of events, the local lists and the users.\<close>

lemma events_accounts:
  assumes "own s + in_hand es = own (sys_intf y) + in_hand (sys_events y)" "waiting_msgs s = waiting_msgs (sys_intf y)"
    and "sends (mh_log s) = sends (mh_log (sys_intf y))" "sys_wf y"
  shows "accounts y (mh_done (y\<lparr>sys_events := es\<rparr>) 0 s)"
proof -
  have "places (mh_done (y\<lparr>sys_events := es\<rparr>) 0 s) = places y"
    using assms(1,2) by (simp add: places_done) (simp add: places_def total_def ac_simps)
  then show ?thesis using assms(2-4) by (simp add: accounts_def) (simp add: sys_wf_def mh_done_def)
qed

lemma level_register: "level s (snd (ipmi_register_for_cmd u nf cmd chans ok s))"
  by (simp add: ipmi_register_for_cmd_def level_def own_def)

lemma level_unregister_loop: "level s (snd (unregister_loop u nf cmd chans i k (rv, s)))"
  by (induction u nf cmd chans i k "(rv, s)" arbitrary: rv s rule: unregister_loop.induct)
    (auto simp: level_def own_def split: option.split)

lemma level_set_maintenance: "level s (snd (ipmi_set_maintenance_mode mode s))"
  by (simp add: ipmi_set_maintenance_mode_def update_maintenance_def level_def own_def emit_def)

lemma slot_accounts:
  assumes "check_msg_timeout am p i (sys_timeouts y, sys_intf y) = Some (ts, s)" "\<And>m. am = Some m \<Longrightarrow> smi_fresh m" "sys_wf y"
  shows "accounts y (mh_done (y\<lparr>sys_slot := sl, sys_timeouts := ts\<rparr>) 0 s)"
proof (rule timeout_moves [OF assms(1,2)])
  assume kept: "ts = sys_timeouts y" "moves {#} (sys_intf y) s"
  then show ?thesis using done_accounts [OF moves_takes_in [OF _ kept(2)] assms(3), of "[]" "sys_below y" sl]
    by (cases y) (simp add: fresh_recvs_def)
next
  fix r
  assume out: "ts = sys_timeouts y @ [r]" "same_frame (sys_intf y) s" "own (sys_intf y) = add_mset (rm_id r) (own s)"
    "sends (mh_log s) = sends (mh_log (sys_intf y))"
  then have "total (sys_intf y) + ids (sys_timeouts y) = total s + ids ts" by (simp add: total_def same_frame_def ac_simps)
  then have "places (mh_done (y\<lparr>sys_slot := sl, sys_timeouts := ts\<rparr>) 0 s) = places y" by (simp add: places_done) (simp add: places_def ac_simps)
  then show ?thesis using out assms(3) by (simp add: accounts_def) (simp add: sys_wf_def mh_done_def same_frame_def)
qed

lemma end_accounts:
  assumes "sys_wf y"
  shows "accounts y (mh_done (y\<lparr>sys_slot := None, sys_timeouts := []\<rparr>) 0 (maintenance_timeout p (deliver_timeouts (sys_timeouts y) (sys_intf y))))"
proof -
  let ?s = "maintenance_timeout p (deliver_timeouts (sys_timeouts y) (sys_intf y))"
  have l: "level (deliver_timeouts (sys_timeouts y) (sys_intf y)) ?s" by (rule level_maintenance)
  have "total ?s = total (sys_intf y) + ids (sys_timeouts y)" "waiting_msgs ?s = waiting_msgs (sys_intf y)" "sends (mh_log ?s) = []"
    using l assms by (simp_all add: level_def total_def timeouts_account sys_wf_def ac_simps)
  then show ?thesis using assms by (simp add: accounts_def places_done) (simp add: sys_wf_def mh_done_def places_def ac_simps)
qed

lemma answered_wf: "msg_wf m \<Longrightarrow> length rsp = 272 \<Longrightarrow> msg_wf (m\<lparr>msg_rsp := rsp, msg_rsp_size := n\<rparr>)" "ud (m\<lparr>msg_rsp := rsp, msg_rsp_size := n\<rparr>) = ud m"
  "gone (m\<lparr>msg_rsp := rsp, msg_rsp_size := n\<rparr>) s = gone m s"
  by (simp_all add: msg_wf_def plain_def ud_def gone_def)

lemma step_accounts:
  assumes "mh_step False y y'" "sys_wf y"
  shows "accounts y y'"
  using assms
proof (induction rule: mh_step.induct)
  case (request user addr msgid msg prio retries rt ar am y rv s)
  then show ?case using settime_moves by (intro fresh_one) (auto simp: fresh_smis_def)
next
  case (internal addr msgid msg prio sa su retries rt ar am y rv s)
  then show ?case using request_moves_some by (intro fresh_one) (auto simp: fresh_smis_def)
next
  case (answer y ms1 m ms2 rsp al n s)
  have "msg_wf m" using answer(1,5) by (simp add: sys_wf_def)
  note t = received_takes_in [OF answer(3) answered_wf(1) [OF this answer(2)]]
  have "accounts y (mh_done (y\<lparr>sys_below := ms1 @ ms2, sys_slot := sys_slot y\<rparr>) (length al) s)"
    using answer(1) by (intro done_accounts [OF t answer(5,4)]) (auto simp: answered_wf users_there_def ac_simps)
  then show ?case by (cases y) simp
next
  case (arrival m al y s)
  have "accounts y (mh_done (y\<lparr>sys_below := sys_below y, sys_slot := sys_slot y\<rparr>) (length al) s)"
    using arrival(1) by (intro done_accounts [OF received_takes_in [OF arrival(3,2)] arrival(5,4)]) (simp_all add: ud_def gone_def)
  then show ?case by (simp add: same_below)
next
  case (timer_waiting y als s)
  have "out_wf (sys_intf y)" using timer_waiting(4) by (simp add: out_wf_def sys_wf_def)
  from done_accounts [OF waiting_takes_in [OF timer_waiting(2) this] timer_waiting(4,3), of "sys_below y" "Some 0"]
  show ?case by (cases y) simp
next
  case (timer_slot y i am p ts s)
  then show ?case by (intro slot_accounts) (auto simp: fresh_smis_def)
next
  case (create_user u y)
  then show ?case by (intro level_accounts) (simp_all add: level_def ipmi_create_user_def own_def)
next
  case (unregister_for_cmd y u nf cmd chans)
  then show ?case using level_unregister_loop by (intro level_accounts) (simp_all add: ipmi_unregister_for_cmd_def)
next
  case (set_gets_events u val y ms s)
  then show ?case using gets_events_moves [OF set_gets_events(1)] by (intro events_accounts) (simp_all add: ac_simps)
next
  case (deliver_event y es1 u ds r ms es2)
  then show ?case by (intro events_accounts) (simp_all add: deliver_event_moves)
next
  case (events_delivered y es1 u ds es2 ms s)
  then have "level (sys_intf y) s" using events_delivered_ends by blast
  then show ?case using events_delivered by (intro events_accounts) (simp_all add: level_def listed_def)
qed (auto intro: level_accounts end_accounts level_destroy level_register level_set_maintenance)

lemma accounts_inv:
  assumes "accounts y y'" "mh_inv y"
  shows "mh_inv y'"
proof -
  have "places y + mset [sys_allocs y..<sys_allocs y'] \<subseteq># mset [0..<sys_allocs y] + mset [sys_allocs y..<sys_allocs y']"
    using assms(2) by (simp add: mh_inv_def)
  also have "\<dots> = mset [0..<sys_allocs y']" using assms(1) by (metis accounts_def mset_append upt_add_eq_append le0 add_0 le_add_diff_inverse)
  finally show ?thesis using assms(1) by (auto simp: accounts_def mh_inv_def intro: subset_mset.order_trans)
qed

interpretation mh: step_invariant "mh_step False" mh_inv
  by unfold_locales (blast intro: accounts_inv step_accounts dest: mh_inv_def [THEN iffD1])

section \<open>Once\<close>

text \<open>The receive messages that the message handler or the layers below still have.\<close>

definition pending :: "mh_sys \<Rightarrow> nat multiset" where
  "pending y = seq_own (seq_tab (sys_intf y)) + ids (waiting_events (sys_intf y)) + uds (waiting_msgs (sys_intf y)) +
     uds (sys_below y) + ids (sys_timeouts y) + in_hand (sys_events y)"

text \<open>An interface that has just been registered.\<close>

definition mh_start :: "ipmi_smi \<Rightarrow> mh_sys" where
  "mh_start s = \<lparr>sys_intf = s\<lparr>mh_log := [], waiting_msgs := [], waiting_events := [], seq_tab := map (\<lambda>e. e\<lparr>inuse := False\<rparr>) (seq_tab s)\<rparr>,
     sys_below = [], sys_slot = None, sys_timeouts = [], sys_events = [], sys_hist = [], sys_allocs = 0\<rparr>"

lemma start_inv: "mh_inv (mh_start s)"
proof -
  have "seq_own (map (\<lambda>e. e\<lparr>inuse := False\<rparr>) tbl) = {#}" for tbl by (induction tbl) (simp_all add: seq_own_def ent_own_def)
  then show ?thesis by (simp add: mh_inv_def mh_start_def sys_wf_def places_def total_def own_def)
qed

lemma places_pending: "mh_inv y \<Longrightarrow> places y = pending y + finals (sys_hist y)"
  by (simp add: places_def pending_def total_def own_def mh_inv_def sys_wf_def ac_simps)

lemma count_once: "count (mset [0..<n]) i \<le> 1"
  by (simp add: count_mset_set')

lemma inv_once: "mh_inv y \<Longrightarrow> count (pending y) i + count (finals (sys_hist y)) i \<le> 1"
  using places_pending [of y] mset_subset_eq_count [of "places y" "mset [0..<sys_allocs y]" i] count_once [of "sys_allocs y" i]
  by (simp add: mh_inv_def)

text \<open>A user asks for the device identifier, and the BMC answers with three bytes.\<close>

definition asked_recv :: ipmi_recv_msg where
  "asked_recv = idle_recv\<lparr>rm_user := Some 0, rm_msgid := 7, rm_msg := \<lparr>km_netfn = 6, km_cmd = 1, km_data = []\<rparr>\<rparr>"

definition asked_msg :: smi_req where
  "asked_msg = idle_req\<lparr>msg_data := (msg_data idle_req)[0 := APP_REQUEST, 1 := 1], msg_data_size := Suc (Suc 0), smi_msgid := 7, smi_user_data := Some asked_recv\<rparr>"

definition asked_sys :: mh_sys where
  "asked_sys = mh_done (mh_start idle_intf) 1 (emit (Sender asked_msg 0) (bump Sent_local_commands (user_get 0 (sys_intf (mh_start idle_intf)))))"

definition answered_msg :: smi_req where
  "answered_msg = asked_msg\<lparr>msg_rsp := (msg_rsp idle_req)[0 := 0x1c, 1 := 1], msg_rsp_size := 3\<rparr>"

definition answered_sys :: mh_sys where
  "answered_sys = mh_done (asked_sys\<lparr>sys_below := []\<rparr>) 0 (emit (Free_smi answered_msg)
     (emit (Recv_hndl (asked_recv\<lparr>rm_type := IPMI_RESPONSE_RECV_TYPE, rm_msg := \<lparr>km_netfn = 7, km_cmd = 1, km_data = [0]\<rparr>\<rparr>))
       (bump Handled_local_responses (sys_intf asked_sys))))"

lemma asked_step: "mh_step False (mh_start idle_intf) asked_sys"
proof -
  have "ipmi_request_settime (Some 0) (System_interface_addr 15 0) 7 \<lparr>km_netfn = 6, km_cmd = 1, km_data = []\<rparr> 0 0 0 (Some idle_recv) (Some idle_req)
      (sys_intf (mh_start idle_intf)) = Some (0, emit (Sender asked_msg 0) (bump Sent_local_commands (user_get 0 (sys_intf (mh_start idle_intf)))))"
    by (simp add: ipmi_request_settime_def check_addr_def i_ipmi_request_def request_smi_def auto_maintenance_def flag_def buf_get_def buf_set_def
        mh_start_def idle_intf_def idle_req_def idle_recv_def asked_msg_def asked_recv_def IPMI_MAX_MSG_LENGTH_def Let_def)
  then show ?thesis unfolding asked_sys_def using mh_step.request [where ar = "Some idle_recv" and am = "\<lambda>_. Some idle_req" and faults = False]
    by (fastforce simp: recvs_def fresh_recvs_def fresh_smis_def smi_fresh_def mh_start_def idle_recv_def idle_req_def)
qed

lemma idle_table: "seq_own (replicate n (idle_seq\<lparr>inuse := False\<rparr>)) = {#}"
  by (induction n) (simp_all add: seq_own_def ent_own_def)

lemma asked_below: "sys_below asked_sys = [asked_msg]" "pending asked_sys = {#0#}" "finals (sys_hist asked_sys) = {#}"
proof -
  show "sys_below asked_sys = [asked_msg]" "finals (sys_hist asked_sys) = {#}"
    by (simp_all add: asked_sys_def mh_done_def mh_start_def emit_def bump_def user_get_def set_user_def idle_intf_def)
  show "pending asked_sys = {#0#}"
    by (simp add: asked_sys_def mh_done_def mh_start_def emit_def bump_def user_get_def set_user_def idle_intf_def pending_def idle_table ud_def)
      (simp add: asked_msg_def asked_recv_def idle_recv_def)
qed

lemma answer_step: "mh_step False asked_sys answered_sys"
proof -
  have "ipmi_smi_msg_received [] answered_msg (sys_intf asked_sys) = Some (emit (Free_smi answered_msg)
     (emit (Recv_hndl (asked_recv\<lparr>rm_type := IPMI_RESPONSE_RECV_TYPE, rm_msg := \<lparr>km_netfn = 7, km_cmd = 1, km_data = [0]\<rparr>\<rparr>))
       (bump Handled_local_responses (sys_intf asked_sys))))"
  proof -
    have m: "buf_get (msg_data answered_msg) 0 = Some APP_REQUEST" "buf_get (msg_data answered_msg) 1 = Some 1"
        "buf_get (msg_rsp answered_msg) 0 = Some 0x1c" "buf_get (msg_rsp answered_msg) 1 = Some 1" "rsp_data answered_msg 2 0 = Some [0]"
        "smi_user_data answered_msg = Some asked_recv" "msg_rsp_size answered_msg = 3" "smi_msgid answered_msg = 7"
      by (simp_all add: answered_msg_def asked_msg_def idle_req_def buf_get_def rsp_data_def IPMI_MAX_MSG_LENGTH_def numeral_eq_Suc)
    have s: "waiting_msgs (sys_intf asked_sys) = []" "user_valid (user_objs (sys_intf asked_sys) 0)"
      by (simp_all add: asked_sys_def mh_done_def mh_start_def emit_def bump_def user_get_def set_user_def idle_intf_def)
    show ?thesis using m s
      by (simp add: ipmi_smi_msg_received_def handle_new_recv_msg_def check_response_def handle_bmc_rsp_def deliver_response_def asked_recv_def idle_recv_def)
  qed
  then show ?thesis
    using mh_step.answer [where y = asked_sys and ?ms1.0 = "[]" and m = asked_msg and ?ms2.0 = "[]" and al = "[]" and n = 3
        and rsp = "(msg_rsp idle_req)[0 := 0x1c, 1 := 1]" and faults = False] asked_below(1)
    unfolding answered_sys_def answered_msg_def by (simp add: fresh_recvs_def idle_req_def)
qed

lemma answered_final: "finals (sys_hist answered_sys) = {#0#}"
proof -
  have "mh_log (sys_intf asked_sys) = []" by (simp add: asked_sys_def mh_done_def)
  then show ?thesis using asked_below(3) by (simp add: answered_sys_def mh_done_def emit_def bump_def asked_recv_def idle_recv_def)
qed





end
