(* ===== verification/Ipmi_Msg_Timer.thy ===== *)
theory Ipmi_Msg_Timer
  imports Ipmi_Msg_Run
begin

text \<open>
  The timer of the message handler: every command in the table that nobody answers is answered by the timer, with the code for a
  timeout, after a number of ticks that its timeout and its retries bound.
\<close>

section \<open>One entry\<close>

definition tick_entry :: "int \<Rightarrow> seq_table \<Rightarrow> seq_table" where
  "tick_entry p e =
     (if \<not> inuse e then e
      else let e1 = e\<lparr>seq_timeout := seq_timeout e - p\<rparr> in
        if seq_timeout e1 > 0 then e1
        else if retries_left e1 = 0 then e1\<lparr>inuse := False\<rparr>
        else e1\<lparr>seq_timeout := MAX_MSG_TIMEOUT, retries_left := retries_left e1 - 1\<rparr>)"

text \<open>The entry gives up in this tick.\<close>

definition expires :: "int \<Rightarrow> seq_table \<Rightarrow> bool" where
  "expires p e \<longleftrightarrow> inuse e \<and> \<not> inuse (tick_entry p e)"

definition entry_fits :: "seq_table \<Rightarrow> bool" where
  "entry_fits e \<longleftrightarrow> (inuse e \<longrightarrow> length (km_data (rm_msg (seq_recv_msg e))) \<le> 272)"

lemma tick_entry_keeps [simp]: "seq_recv_msg (tick_entry p e) = seq_recv_msg e" "entry_fits e \<Longrightarrow> entry_fits (tick_entry p e)"
  by (simp_all add: tick_entry_def entry_fits_def Let_def)

lemma timeout_entry:
  assumes "i < length (seq_tab s)" "intf_num s \<noteq> - 1" "entry_fits (seq_tab s ! i)" "\<And>m. am = Some m \<Longrightarrow> smi_fresh m"
  shows "\<exists>s'. check_msg_timeout am p i (ts, s) = Some (if expires p (seq_tab s ! i) then ts @ [seq_recv_msg (seq_tab s ! i)] else ts, s') \<and>
    seq_tab s' = (seq_tab s)[i := tick_entry p (seq_tab s ! i)] \<and> intf_num s' = intf_num s \<and> waiting_msgs s' = waiting_msgs s \<and>
    set (mh_log s) \<subseteq> set (mh_log s')"
proof -
  have g: "buf_get (seq_tab s) (int i) = Some (seq_tab s ! i)" using assms(1) by (simp add: buf_get_def)
  obtain sm where "inuse (seq_tab s ! i) \<Longrightarrow> smi_from_recv_msg am (seq_recv_msg (seq_tab s ! i)) i (seq_seqid (seq_tab s ! i)) = Some sm"
    using assms(3,4) by (cases am) (auto simp: smi_from_recv_msg_def entry_fits_def smi_fresh_def blit_def)
  then show ?thesis using assms(1,2) g
    by (cases sm) (auto simp: check_msg_timeout_def expires_def tick_entry_def set_seq_def bump_def emit_def Let_def)
qed

section \<open>The table\<close>

text \<open>What a walk through the entries \<open>is\<close> leaves.\<close>

definition ticked :: "nat list \<Rightarrow> int \<Rightarrow> ipmi_smi \<Rightarrow> ipmi_smi \<Rightarrow> bool" where
  "ticked is p s s' \<longleftrightarrow> seq_tab s' = map (\<lambda>i. if i \<in> set is then tick_entry p (seq_tab s ! i) else seq_tab s ! i) [0..<length (seq_tab s)] \<and>
     intf_num s' = intf_num s \<and> waiting_msgs s' = waiting_msgs s \<and> set (mh_log s) \<subseteq> set (mh_log s')"

lemma timeouts_ticked:
  assumes "distinct is" "\<forall>i \<in> set is. i < length (seq_tab s)" "intf_num s \<noteq> - 1" "\<forall>e \<in> set (seq_tab s). entry_fits e" "fresh_smis ams"
  shows "\<exists>s'. check_timeouts ams p is (ts, s) = Some (ts @ map (\<lambda>i. seq_recv_msg (seq_tab s ! i)) (filter (\<lambda>i. expires p (seq_tab s ! i)) is), s') \<and> ticked is p s s'"
  using assms
proof (induction "is" arbitrary: ts s)
  case Nil
  then show ?case by (simp add: ticked_def map_nth)
next
  case (Cons i "is")
  let ?ts = "if expires p (seq_tab s ! i) then ts @ [seq_recv_msg (seq_tab s ! i)] else ts"
  have i: "i < length (seq_tab s)" "entry_fits (seq_tab s ! i)" "i \<notin> set is" using Cons.prems by simp_all
  obtain s1 where s1: "check_msg_timeout (ams i) p i (ts, s) = Some (?ts, s1)" "seq_tab s1 = (seq_tab s)[i := tick_entry p (seq_tab s ! i)]"
      "intf_num s1 = intf_num s" "waiting_msgs s1 = waiting_msgs s" "set (mh_log s) \<subseteq> set (mh_log s1)"
    using timeout_entry [OF i(1) Cons.prems(3) i(2), of "ams i" p ts] Cons.prems(5) by (auto simp: fresh_smis_def)
  have other: "seq_tab s1 ! j = seq_tab s ! j" if "j \<in> set is" for j using that i(3) s1(2) by (metis nth_list_update_neq)
  have "\<forall>e \<in> set (seq_tab s1). entry_fits e" using Cons.prems(4) i(2) s1(2) by (auto dest!: set_update_subset_insert [THEN subsetD])
  then obtain s2 where s2: "check_timeouts ams p is (?ts, s1) = Some (?ts @ map (\<lambda>i. seq_recv_msg (seq_tab s1 ! i)) (filter (\<lambda>i. expires p (seq_tab s1 ! i)) is), s2)"
      "ticked is p s1 s2"
    using Cons.IH [of s1 ?ts] Cons.prems s1(2,3) by auto
  have "ticked (i # is) p s s2" using s2(2) s1(2-5) i by (auto simp: ticked_def nth_list_update)
  moreover have "filter (\<lambda>i. expires p (seq_tab s1 ! i)) is = filter (\<lambda>i. expires p (seq_tab s ! i)) is" using other by (auto intro: filter_cong)
  then have "map (\<lambda>i. seq_recv_msg (seq_tab s1 ! i)) (filter (\<lambda>i. expires p (seq_tab s1 ! i)) is) =
      map (\<lambda>i. seq_recv_msg (seq_tab s ! i)) (filter (\<lambda>i. expires p (seq_tab s ! i)) is)" using other by simp
  ultimately show ?case using s1(1) s2(1) by auto
qed

section \<open>Ticks\<close>

definition timed_out :: "ipmi_recv_msg \<Rightarrow> ipmi_recv_msg" where
  "timed_out r = r\<lparr>rm_type := IPMI_RESPONSE_RECV_TYPE, rm_msg := (rm_msg r)\<lparr>km_data := [IPMI_TIMEOUT_ERR], km_netfn := km_netfn (rm_msg r) OR 1\<rparr>\<rparr>"

lemma deliver_timeouts_log:
  "seq_tab (deliver_timeouts ts s) = seq_tab s \<and> intf_num (deliver_timeouts ts s) = intf_num s \<and> waiting_msgs (deliver_timeouts ts s) = waiting_msgs s \<and>
   set (mh_log s) \<subseteq> set (mh_log (deliver_timeouts ts s)) \<and>
   (\<forall>r \<in> set ts. \<forall>u. rm_user r = Some u \<longrightarrow> Recv_hndl (timed_out r) \<in> set (mh_log (deliver_timeouts ts s)))"
proof (induction ts arbitrary: s)
  case (Cons r ts)
  let ?s = "deliver_err_response r IPMI_TIMEOUT_ERR s"
  have "deliver_timeouts (r # ts) s = deliver_timeouts ts ?s" by (simp add: deliver_timeouts_def)
  moreover have "seq_tab ?s = seq_tab s \<and> intf_num ?s = intf_num s \<and> waiting_msgs ?s = waiting_msgs s \<and> set (mh_log s) \<subseteq> set (mh_log ?s) \<and>
      (\<forall>u. rm_user r = Some u \<longrightarrow> Recv_hndl (timed_out r) \<in> set (mh_log ?s))"
    by (auto simp: deliver_err_response_def deliver_response_def ipmi_free_recv_msg_def timed_out_def emit_def bump_def split: option.split)
  ultimately show ?case using Cons.IH [of ?s] by auto
qed (simp add: deliver_timeouts_def)

definition timer_ready :: "ipmi_smi \<Rightarrow> bool" where
  "timer_ready s \<longleftrightarrow> length (seq_tab s) = IPMI_IPMB_NUM_SEQ \<and> intf_num s \<noteq> - 1 \<and> waiting_msgs s = [] \<and> (\<forall>e \<in> set (seq_tab s). entry_fits e)"

lemma handler_ticks:
  assumes "timer_ready s" "fresh_smis ams"
  shows "\<exists>s'. ipmi_timeout_handler [] ams p s = Some s' \<and> timer_ready s' \<and> (\<forall>i < 64. seq_tab s' ! i = tick_entry p (seq_tab s ! i)) \<and>
    set (mh_log s) \<subseteq> set (mh_log s') \<and>
    (\<forall>i < 64. \<forall>u. expires p (seq_tab s ! i) \<longrightarrow> rm_user (seq_recv_msg (seq_tab s ! i)) = Some u \<longrightarrow> Recv_hndl (timed_out (seq_recv_msg (seq_tab s ! i))) \<in> set (mh_log s'))"
proof -
  let ?ts = "map (\<lambda>i. seq_recv_msg (seq_tab s ! i)) (filter (\<lambda>i. expires p (seq_tab s ! i)) [0..<64])"
  have r: "length (seq_tab s) = 64" "intf_num s \<noteq> - 1" "waiting_msgs s = []" "\<forall>e \<in> set (seq_tab s). entry_fits e"
    using assms(1) by (auto simp: timer_ready_def)
  obtain s1 where s1: "check_timeouts ams p [0..<64] ([], s) = Some (?ts, s1)" "ticked [0..<64] p s s1"
    using timeouts_ticked [of "[0..<64]" s ams p "[]"] r assms(2) by auto
  let ?s' = "maintenance_timeout p (deliver_timeouts ?ts s1)"
  have m: "seq_tab (maintenance_timeout p s) = seq_tab s \<and> intf_num (maintenance_timeout p s) = intf_num s \<and> waiting_msgs (maintenance_timeout p s) = waiting_msgs s \<and>
      set (mh_log s) \<subseteq> set (mh_log (maintenance_timeout p s))" for s
    by (auto simp: maintenance_timeout_def update_maintenance_def emit_def Let_def)
  have tab: "seq_tab ?s' = map (tick_entry p) (seq_tab s)"
    using m deliver_timeouts_log [of ?ts s1] s1(2) r(1) by (auto simp: ticked_def intro!: nth_equalityI)
  then have "timer_ready ?s'" using m deliver_timeouts_log [of ?ts s1] s1(2) r by (auto simp: timer_ready_def ticked_def)
  moreover have "handle_waiting [] [] (waiting_msgs s) s = Some s" using r(3) by (cases s) simp
  then have "ipmi_timeout_handler [] ams p s = Some ?s'" using s1(1) by (simp add: ipmi_timeout_handler_def)
  moreover have "set (mh_log s) \<subseteq> set (mh_log ?s')" using m deliver_timeouts_log [of ?ts s1] s1(2) by (auto simp: ticked_def)
  moreover have "\<forall>i < 64. \<forall>u. expires p (seq_tab s ! i) \<longrightarrow> rm_user (seq_recv_msg (seq_tab s ! i)) = Some u \<longrightarrow> Recv_hndl (timed_out (seq_recv_msg (seq_tab s ! i))) \<in> set (mh_log ?s')"
    using m deliver_timeouts_log [of ?ts s1] by fastforce
  ultimately show ?thesis using tab r(1) by auto
qed

text \<open>The ticks of \<open>ipmi_timeout\<close>, each with the answers of the allocator.\<close>

fun mh_ticks :: "(nat \<Rightarrow> smi_req option) list \<Rightarrow> ipmi_smi \<Rightarrow> ipmi_smi option" where
  "mh_ticks [] s = Some s"
| "mh_ticks (ams # as) s = ipmi_timeout_handler [] ams 100 s \<bind> mh_ticks as"

definition lifetime :: "seq_table \<Rightarrow> nat" where
  "lifetime e = 600 * unat (retries_left e) + nat ((max 1 (seq_timeout e) + 99) div 100)"

lemma lifetime_tick:
  assumes "inuse e" "\<not> expires 100 e"
  shows "inuse (tick_entry 100 e)" "lifetime (tick_entry 100 e) < lifetime e"
proof -
  have "unat (w - 1) + 1 = unat w" if "w \<noteq> 0" for w :: u32 using that unat_minus_one [of w] unat_gt_0 [of w] by simp
  then have k: "600 * unat (retries_left e - 1) + 600 = 600 * unat (retries_left e)" if "retries_left e \<noteq> 0"
    using that by (metis distrib_left mult.right_neutral)
  show "inuse (tick_entry 100 e)" using assms by (simp add: expires_def)
  show "lifetime (tick_entry 100 e) < lifetime e"
    using assms k by (auto simp: expires_def tick_entry_def lifetime_def Let_def split: if_split_asm)
qed

lemma lifetime_pos: "lifetime e > 0"
  using zdiv_mono1 [of 100 "max 1 (seq_timeout e) + 99" 100] by (simp add: lifetime_def)

lemma ticks_keep:
  assumes "timer_ready s" "\<forall>ams \<in> set as. fresh_smis ams"
  shows "\<exists>s'. mh_ticks as s = Some s' \<and> set (mh_log s) \<subseteq> set (mh_log s') \<and> (\<forall>i < 64. \<not> inuse (seq_tab s ! i) \<longrightarrow> \<not> inuse (seq_tab s' ! i))"
  using assms
proof (induction "as" arbitrary: s)
  case (Cons ams "as")
  then obtain s1 where s1: "ipmi_timeout_handler [] ams 100 s = Some s1" "timer_ready s1" "\<forall>i < 64. seq_tab s1 ! i = tick_entry 100 (seq_tab s ! i)"
      "set (mh_log s) \<subseteq> set (mh_log s1)"
    using handler_ticks [of s ams 100] by auto
  moreover have "\<not> inuse e \<Longrightarrow> \<not> inuse (tick_entry 100 e)" for e by (simp add: tick_entry_def)
  ultimately show ?case using Cons.IH [of s1] Cons.prems by fastforce
qed simp

lemma ticks_expire:
  assumes "timer_ready s" "\<forall>ams \<in> set as. fresh_smis ams" "i < 64" "inuse (seq_tab s ! i)" "rm_user (seq_recv_msg (seq_tab s ! i)) = Some u"
    and "lifetime (seq_tab s ! i) \<le> length as"
  shows "\<exists>s'. mh_ticks as s = Some s' \<and> \<not> inuse (seq_tab s' ! i) \<and> Recv_hndl (timed_out (seq_recv_msg (seq_tab s ! i))) \<in> set (mh_log s')"
  using assms
proof (induction "as" arbitrary: s)
  case Nil
  then show ?case using lifetime_pos [of "seq_tab s ! i"] by simp
next
  case (Cons ams "as")
  let ?e = "seq_tab s ! i"
  obtain s1 where s1: "ipmi_timeout_handler [] ams 100 s = Some s1" "timer_ready s1" "\<forall>i < 64. seq_tab s1 ! i = tick_entry 100 (seq_tab s ! i)"
      "expires 100 ?e \<Longrightarrow> Recv_hndl (timed_out (seq_recv_msg ?e)) \<in> set (mh_log s1)"
    using handler_ticks [of s ams 100] Cons.prems by auto
  show ?case
  proof (cases "expires 100 ?e")
    case True
    then show ?thesis using ticks_keep [of s1 "as"] s1 Cons.prems by (fastforce simp: expires_def)
  next
    case False
    then show ?thesis using Cons.IH [of s1] s1 Cons.prems lifetime_tick [of ?e] by simp
  qed
qed

text \<open>C14: A command that nobody answers is answered by the timer: after as many ticks as its timeout and its retries come to, 600 for
  each retry, its entry of the table is free, and its user has been given the receive message with the code for a timeout, whether or not
  there was memory for the retransmissions.\<close>

theorem ipmi_command_times_out:
  assumes "timer_ready s" "\<forall>ams \<in> set as. fresh_smis ams" "i < IPMI_IPMB_NUM_SEQ" "inuse (seq_tab s ! i)"
    and "rm_user (seq_recv_msg (seq_tab s ! i)) = Some u"
    and "600 * unat (retries_left (seq_tab s ! i)) + nat ((max 1 (seq_timeout (seq_tab s ! i)) + 99) div 100) \<le> length as"
  shows "\<exists>s'. mh_ticks as s = Some s' \<and> \<not> inuse (seq_tab s' ! i) \<and> Recv_hndl (timed_out (seq_recv_msg (seq_tab s ! i))) \<in> set (mh_log s')"
  using ticks_expire [OF assms(1-5)] assms(6) by (simp add: lifetime_def)

theorem ipmi_command_times_out_witness:
  "let s = idle_intf\<lparr>seq_tab := (seq_tab idle_intf)[3 := idle_seq\<lparr>inuse := True, seq_timeout := 150, seq_recv_msg := idle_recv\<lparr>rm_user := Some 7\<rparr>\<rparr>]\<rparr> in
   \<exists>s'. mh_ticks [\<lambda>_. None, \<lambda>_. Some idle_req] s = Some s' \<and> \<not> inuse (seq_tab s' ! 3) \<and> Recv_hndl (timed_out (idle_recv\<lparr>rm_user := Some 7\<rparr>)) \<in> set (mh_log s')"
proof -
  define s where "s = idle_intf\<lparr>seq_tab := (seq_tab idle_intf)[3 := idle_seq\<lparr>inuse := True, seq_timeout := 150, seq_recv_msg := idle_recv\<lparr>rm_user := Some 7\<rparr>\<rparr>]\<rparr>"
  define as where "as = [\<lambda>_ :: nat. None, \<lambda>_. Some idle_req]"
  have tab: "seq_tab s ! 3 = idle_seq\<lparr>inuse := True, seq_timeout := 150, seq_recv_msg := idle_recv\<lparr>rm_user := Some 7\<rparr>\<rparr>" by (simp add: s_def idle_intf_def)
  have ready: "timer_ready s"
    by (auto simp: s_def timer_ready_def idle_intf_def entry_fits_def idle_seq_def idle_recv_def dest!: set_update_subset_insert [THEN subsetD])
  have "\<forall>ams \<in> set as. fresh_smis ams" "length as = 2" by (simp_all add: as_def fresh_smis_def smi_fresh_def idle_req_def)
  with ipmi_command_times_out [OF ready, of "as" 3 7]
  have "\<exists>s'. mh_ticks as s = Some s' \<and> \<not> inuse (seq_tab s' ! 3) \<and> Recv_hndl (timed_out (idle_recv\<lparr>rm_user := Some 7\<rparr>)) \<in> set (mh_log s')"
    by (simp add: tab idle_seq_def)
  then show ?thesis unfolding s_def as_def Let_def .
qed

end
