(* ===== verification/Ipmi_Msg_Faults.thy ===== *)
theory Ipmi_Msg_Faults
  imports Ipmi_Msg_Timer
begin

text \<open>
  Where the message handler does not do what it means to: the end of an interface, commands whose network function does not fit into
  its six bits, answers for users that are gone, and events that are delivered again.
\<close>

section \<open>The end of an interface\<close>

lemma seq_tab_err [simp]: "seq_tab (deliver_err_response r e s) = seq_tab s"
  by (simp add: deliver_err_response_def deliver_response_def bump_def emit_def split: option.split)

lemma log_err: "set (mh_log s) \<subseteq> set (mh_log (deliver_err_response r e s))"
  by (auto simp: deliver_err_response_def deliver_response_def ipmi_free_recv_msg_def emit_def bump_def split: option.split)

lemma cleanup_seqs_keeps: "seq_tab (cleanup_seqs is s) = seq_tab s" "set (mh_log s) \<subseteq> set (mh_log (cleanup_seqs is s))"
proof -
  show "seq_tab (cleanup_seqs is s) = seq_tab s" by (induction "is" arbitrary: s) simp_all
  show "set (mh_log s) \<subseteq> set (mh_log (cleanup_seqs is s))"
  proof (induction "is" arbitrary: s)
    case (Cons i "is")
    then show ?case using log_err [of s "seq_recv_msg (seq_tab s ! i)" IPMI_ERR_UNSPECIFIED] by (auto split: if_split)
  qed simp
qed

lemma cleanup_seqs_hands:
  assumes "i \<in> set is" "inuse (seq_tab s ! i)" "rm_user (seq_recv_msg (seq_tab s ! i)) = Some u"
  shows "\<exists>r. rm_id r = rm_id (seq_recv_msg (seq_tab s ! i)) \<and> Recv_hndl r \<in> set (mh_log (cleanup_seqs is s))"
  using assms
proof (induction "is" arbitrary: s)
  case (Cons j "is")
  show ?case
  proof (cases "j = i")
    case True
    let ?r = "seq_recv_msg (seq_tab s ! i)"
    have "\<exists>r. rm_id r = rm_id ?r \<and> Recv_hndl r \<in> set (mh_log (deliver_err_response ?r IPMI_ERR_UNSPECIFIED s))"
      using Cons.prems(3)
      by (intro exI [of _ "?r\<lparr>rm_type := IPMI_RESPONSE_RECV_TYPE, rm_msg := (rm_msg ?r)\<lparr>km_data := [IPMI_ERR_UNSPECIFIED], km_netfn := km_netfn (rm_msg ?r) OR 1\<rparr>\<rparr>"])
        (simp add: deliver_err_response_def deliver_response_def emit_def)
    then show ?thesis using True Cons.prems(2) cleanup_seqs_keeps(2) by fastforce
  next
    case False
    then show ?thesis using Cons.IH [of s] Cons.IH [of "deliver_err_response (seq_recv_msg (seq_tab s ! j)) IPMI_ERR_UNSPECIFIED s"] Cons.prems by simp
  qed
qed simp

lemma drop_user_frees:
  assumes "i \<in> set is" "\<forall>j \<in> set is. j < length (seq_tab s)" "inuse (seq_tab s ! i)" "rm_user (seq_recv_msg (seq_tab s ! i)) = Some u"
  shows "Free_recv (seq_recv_msg (seq_tab s ! i)) \<in> set (mh_log (drop_user_seqs u is s))"
  using assms
proof (induction "is" arbitrary: s)
  case (Cons j "is")
  have grows: "set (mh_log s) \<subseteq> set (mh_log (drop_user_seqs u js s))" for js s
  proof (induction js arbitrary: s)
    case (Cons k js)
    have "set (mh_log s) \<subseteq> set (mh_log (ipmi_free_recv_msg r (set_seq k f s)))" for r f
      by (auto simp: ipmi_free_recv_msg_def user_put_def emit_def set_user_def set_seq_def Let_def split: option.split)
    from subset_trans [OF this Cons.IH] show ?case using Cons.IH by simp
  qed simp
  show ?case
  proof (cases "j = i")
    case True
    have "Free_recv (seq_recv_msg (seq_tab s ! i)) \<in> set (mh_log (ipmi_free_recv_msg (seq_recv_msg (seq_tab s ! i)) (set_seq i (\<lambda>e. e\<lparr>inuse := False\<rparr>) s)))"
      by (simp add: ipmi_free_recv_msg_def emit_def)
    then show ?thesis using True Cons.prems grows by auto
  next
    case False
    then show ?thesis
      using Cons.IH [of s] Cons.IH [of "ipmi_free_recv_msg (seq_recv_msg (seq_tab s ! j)) (set_seq j (\<lambda>e. e\<lparr>inuse := False\<rparr>) s)"] Cons.prems
      by (simp add: set_seq_def)
  qed
qed simp

text \<open>C34: \<open>cleanup_smi_msgs\<close> gives the receive message of every command in the table to its user, and leaves the entry in use: when the user
  is destroyed afterwards, the same message is freed a second time.\<close>

theorem ipmi_unregister_frees_again:
  assumes "i < length (seq_tab s)" "inuse (seq_tab s ! i)" "rm_user (seq_recv_msg (seq_tab s ! i)) = Some u"
  shows "(\<exists>r. rm_id r = rm_id (seq_recv_msg (seq_tab s ! i)) \<and> Recv_hndl r \<in> set (mh_log (ipmi_unregister_smi s))) \<and>
    Free_recv (seq_recv_msg (seq_tab s ! i)) \<in> set (mh_log (ipmi_destroy_user u ((ipmi_unregister_smi s)\<lparr>mh_log := []\<rparr>)))"
proof
  let ?s = "ipmi_unregister_smi s"
  show "\<exists>r. rm_id r = rm_id (seq_recv_msg (seq_tab s ! i)) \<and> Recv_hndl r \<in> set (mh_log ?s)"
    using cleanup_seqs_hands [of i "[0..<length (seq_tab s)]" "s\<lparr>intf_num := - 1, mh_handlers := False\<rparr>" u] assms
    by (simp add: ipmi_unregister_smi_def cleanup_smi_msgs_def)
  let ?s1 = "(set_user u (\<lambda>o'. o'\<lparr>user_valid := False\<rparr>) (?s\<lparr>mh_log := []\<rparr>))\<lparr>users := remove1 u (users ?s)\<rparr>"
  have "seq_tab ?s1 = seq_tab s" by (simp add: ipmi_unregister_smi_def cleanup_smi_msgs_def cleanup_seqs_keeps set_user_def)
  then have "Free_recv (seq_recv_msg (seq_tab s ! i)) \<in> set (mh_log (drop_user_seqs u [0..<length (seq_tab ?s1)] ?s1))"
    using drop_user_frees [of i "[0..<length (seq_tab ?s1)]" ?s1 u] assms by simp
  then show "Free_recv (seq_recv_msg (seq_tab s ! i)) \<in> set (mh_log (ipmi_destroy_user u (?s\<lparr>mh_log := []\<rparr>)))"
    by (auto simp: ipmi_destroy_user_def user_put_def set_user_def emit_def Let_def)
qed

theorem ipmi_unregister_frees_again_witness:
  "let s = idle_intf\<lparr>seq_tab := (seq_tab idle_intf)[3 := idle_seq\<lparr>inuse := True, seq_recv_msg := idle_recv\<lparr>rm_user := Some 0\<rparr>\<rparr>]\<rparr> in
   Free_recv (idle_recv\<lparr>rm_user := Some 0\<rparr>) \<in> set (mh_log (ipmi_destroy_user 0 ((ipmi_unregister_smi s)\<lparr>mh_log := []\<rparr>)))"
proof -
  define s where "s = idle_intf\<lparr>seq_tab := (seq_tab idle_intf)[3 := idle_seq\<lparr>inuse := True, seq_recv_msg := idle_recv\<lparr>rm_user := Some 0\<rparr>\<rparr>]\<rparr>"
  have "3 < length (seq_tab s)" "seq_tab s ! 3 = idle_seq\<lparr>inuse := True, seq_recv_msg := idle_recv\<lparr>rm_user := Some 0\<rparr>\<rparr>" by (simp_all add: s_def idle_intf_def)
  then show ?thesis using ipmi_unregister_frees_again [of 3 s 0] by (simp add: s_def)
qed

section \<open>Lost receive messages\<close>

text \<open>The answer to a response that a user has sent, when the user is gone: nothing happens but that the message is freed. The receive message and
  the reference to the user that it holds are lost.\<close>

lemma ipmi_gone_user_leaks:
  assumes "msg_wf m" "msg_data m ! 0 = APP_REQUEST" "msg_data m ! 1 = IPMI_SEND_MSG_CMD" "smi_user_data m = Some r"
    and "rm_user r = Some u" "\<not> user_valid (user_objs s u)" "waiting_msgs s = []"
    and "msg_rsp_size m \<ge> 2" "msg_rsp m ! 0 = 0x1c" "msg_rsp m ! 1 = IPMI_SEND_MSG_CMD"
  shows "ipmi_smi_msg_received al m s = Some (emit (Free_smi m) s)"
  using assms
  by (auto simp: ipmi_smi_msg_received_def handle_new_recv_msg_def check_response_def handle_response_sent_def msg_wf_def buf_get_def)

text \<open>A command with the network function \<open>0x46\<close> is sent to the BMC as the \<open>IPMI_GET_MSG_CMD\<close> that users may not send: the comparison is made on
  eight bits, and six of them are sent.\<close>

lemma ipmi_netfn_bypasses_filter:
  assumes "smi_fresh smi" "mh_handlers s"
  shows "\<exists>m s1. i_ipmi_request None (System_interface_addr IPMI_BMC_CHANNEL 0) msgid \<lparr>km_netfn = 0x46, km_cmd = IPMI_GET_MSG_CMD, km_data = []\<rparr> prio sa su retries rt
      (Some r) (Some smi) s = Some (0, emit (Sender m prio) s1) \<and>
    msg_data m ! 0 = APP_REQUEST \<and> msg_data m ! 1 = IPMI_GET_MSG_CMD \<and> smi_user_data m \<noteq> None"
  using assms
  by (auto simp: i_ipmi_request_def request_smi_def smi_fresh_def IPMI_MAX_MSG_LENGTH_def buf_set_def flag_def Let_def)

section \<open>Events that are delivered again\<close>

lemma deliver_all:
  assumes "sys_events y = [(u, ds, ms)]" "mh_log (sys_intf y) = []"
  shows "\<exists>y'. (mh_step faults)\<^sup>*\<^sup>* y y' \<and> finals (sys_hist y') = finals (sys_hist y) + ids ms"
  using assms
proof (induction ms arbitrary: ds y)
  case (Cons r ms)
  let ?y = "mh_done (y\<lparr>sys_events := [(u, ds @ [r], ms)]\<rparr>) 0 (deliver_event u r (sys_intf y))"
  have step: "mh_step faults y ?y" using mh_step.deliver_event [of y "[]" u ds r ms "[]" faults] Cons.prems(1) by simp
  have y: "sys_events ?y = [(u, ds @ [r], ms)]" "mh_log (sys_intf ?y) = []" "finals (sys_hist ?y) = finals (sys_hist y) + {#rm_id r#}"
    using Cons.prems(2) by (simp_all add: mh_done_def deliver_event_def deliver_response_def user_get_def set_user_def emit_def)
  from Cons.IH [OF y(1,2)] obtain y' where "(mh_step faults)\<^sup>*\<^sup>* ?y y'" "finals (sys_hist y') = finals (sys_hist ?y) + ids ms" by blast
  then show ?case using step y(3) by (intro exI [of _ y']) (auto intro: converse_rtranclp_into_rtranclp)
qed auto

text \<open>A thread in \<open>ipmi_set_gets_events\<close> has delivered the messages \<open>ds\<close>, and meanwhile an event was queued: it goes on to deliver \<open>ds\<close> again, to
  a user who may have freed them.\<close>

lemma ipmi_events_again:
  assumes "sys_events y = [(u, ds, [])]" "mh_log (sys_intf y) = []" "gets_events (user_objs (sys_intf y) u)" "waiting_events (sys_intf y) \<noteq> []"
  shows "\<exists>y'. (mh_step True)\<^sup>*\<^sup>* y y' \<and> finals (sys_hist y') = finals (sys_hist y) + ids ds + ids (waiting_events (sys_intf y))"
proof -
  let ?ms = "ds @ waiting_events (sys_intf y)"
  let ?s = "(sys_intf y)\<lparr>waiting_events := [], waiting_events_count := 0, delivering_events := True\<rparr>"
  let ?y = "mh_done (y\<lparr>sys_events := [(u, [], ?ms)]\<rparr>) 0 ?s"
  have "events_delivered u ds (sys_intf y) = (Some ?ms, ?s)" using assms(3,4) by (simp add: events_delivered_def gets_events_loop_def)
  then have step: "mh_step True y ?y"
    using mh_step.events_delivered [of y "[]" u ds "[]" "Some ?ms" ?s True] assms(1) by (simp add: to_deliver_def)
  have "sys_events ?y = [(u, [], ?ms)]" "mh_log (sys_intf ?y) = []" "sys_hist ?y = sys_hist y" using assms(2) by (simp_all add: mh_done_def)
  from deliver_all [OF this(1,2), of True] this(3) show ?thesis
    using step by (auto intro: converse_rtranclp_into_rtranclp)
qed

end
