(* ===== verification/Ipmi_Msg_Register.thy ===== *)
theory Ipmi_Msg_Register
  imports Ipmi_Msg_Own
begin

text \<open>
  The start of an interface of the message handler (\<open>ipmi_register_smi\<close>): its number, the GUID of its BMC, and the scan of its
  channels, which goes through the requests and the answers of the message handler itself.
\<close>

section \<open>Numbers of interfaces\<close>

text \<open>The loop that looks for a hole in the numbers: the number, and the interfaces before the place where the new one goes.\<close>

fun find_hole :: "int \<Rightarrow> int list \<Rightarrow> int \<times> int list \<times> int list" where
  "find_hole i [] = (i, [], [])"
| "find_hole i (n # ns) = (if n \<noteq> i then (i, [], n # ns) else (case find_hole (i + 1) ns of (j, bs, as) \<Rightarrow> (j, n # bs, as)))"

text \<open>The new interface is put at the head of the list when its number is \<open>0\<close>, else before the interface where the search
  stopped, or at the end.\<close>

definition add_interface :: "int list \<Rightarrow> int \<times> int list" where
  "add_interface nums = (case find_hole 0 nums of (i, bs, as) \<Rightarrow> (i, if i = 0 then i # nums else bs @ i # as))"

section \<open>The GUID\<close>

abbreviation (input) IPMI_NETFN_APP_RESPONSE :: u8 where "IPMI_NETFN_APP_RESPONSE \<equiv> 7"
abbreviation (input) IPMI_GET_DEVICE_GUID_CMD :: u8 where "IPMI_GET_DEVICE_GUID_CMD \<equiv> 8"
abbreviation (input) IPMI_GET_CHANNEL_INFO_CMD :: u8 where "IPMI_GET_CHANNEL_INFO_CMD \<equiv> 0x42"
abbreviation (input) IPMI_INVALID_COMMAND_ERR :: u8 where "IPMI_INVALID_COMMAND_ERR \<equiv> 0xc1"
abbreviation (input) IPMI_CHANNEL_PROTOCOL_IPMB :: u8 where "IPMI_CHANNEL_PROTOCOL_IPMB \<equiv> 1"

fun is_si_addr :: "ipmi_addr \<Rightarrow> bool" where
  "is_si_addr (System_interface_addr c lun) = True"
| "is_si_addr _ = False"

record bmc_device =
  bmc_guid :: "u8 list"
  guid_set :: nat

text \<open>\<open>ar\<close> and \<open>am\<close> are the answers of the allocators.\<close>

definition send_guid_cmd :: "ipmi_recv_msg option \<Rightarrow> smi_req option \<Rightarrow> ipmi_smi \<Rightarrow> (int \<times> ipmi_smi) option" where
  "send_guid_cmd ar am s = do {
     ch \<leftarrow> buf_get (channels s) 0;
     i_ipmi_request None (System_interface_addr IPMI_BMC_CHANNEL 0) 0
       \<lparr>km_netfn = IPMI_NETFN_APP_REQUEST, km_cmd = IPMI_GET_DEVICE_GUID_CMD, km_data = []\<rparr> 0 (ch_address ch) (ch_lun ch) (- 1) 0 ar am s }"

text \<open>The first component of the result says whether the thread that waits is woken.\<close>

definition guid_handler :: "ipmi_recv_msg \<Rightarrow> bmc_device \<Rightarrow> (bool \<times> bmc_device) option" where
  "guid_handler msg b =
     (if \<not> is_si_addr (rm_addr msg) \<or> km_netfn (rm_msg msg) \<noteq> IPMI_NETFN_APP_RESPONSE \<or> km_cmd (rm_msg msg) \<noteq> IPMI_GET_DEVICE_GUID_CMD
      then Some (False, b)
      else do {
        d0 \<leftarrow> buf_get (km_data (rm_msg msg)) 0;
        if d0 \<noteq> 0 then Some (True, b\<lparr>guid_set := 0\<rparr>)
        else if length (km_data (rm_msg msg)) < 17 then Some (True, b\<lparr>guid_set := 0\<rparr>)
        else Some (True, b\<lparr>bmc_guid := take 16 (km_data (rm_msg msg)), guid_set := 1\<rparr>) })"

section \<open>The channels\<close>

definition send_channel_info_cmd :: "int \<Rightarrow> ipmi_recv_msg option \<Rightarrow> smi_req option \<Rightarrow> ipmi_smi \<Rightarrow> (int \<times> ipmi_smi) option" where
  "send_channel_info_cmd chan ar am s = do {
     ch \<leftarrow> buf_get (channels s) 0;
     i_ipmi_request None (System_interface_addr IPMI_BMC_CHANNEL 0) 0
       \<lparr>km_netfn = IPMI_NETFN_APP_REQUEST, km_cmd = IPMI_GET_CHANNEL_INFO_CMD, km_data = [word_of_int chan]\<rparr> 0 (ch_address ch) (ch_lun ch) (- 1) 0 ar am s }"

definition next_channel :: "ipmi_recv_msg option \<Rightarrow> smi_req option \<Rightarrow> ipmi_smi \<Rightarrow> (bool \<times> ipmi_smi) option" where
  "next_channel ar am s =
     (let s1 = s\<lparr>curr_channel := curr_channel s + 1\<rparr> in
      if curr_channel s1 \<ge> int IPMI_MAX_CHANNELS then Some (True, s1)
      else do {
        (rv, s2) \<leftarrow> send_channel_info_cmd (curr_channel s1) ar am s1;
        if rv \<noteq> 0 then Some (True, s2\<lparr>curr_channel := int IPMI_MAX_CHANNELS\<rparr>) else Some (False, s2) })"

definition channel_handler :: "ipmi_recv_msg option \<Rightarrow> smi_req option \<Rightarrow> ipmi_recv_msg \<Rightarrow> ipmi_smi \<Rightarrow> (bool \<times> ipmi_smi) option" where
  "channel_handler ar am msg s =
     (if is_si_addr (rm_addr msg) \<and> km_netfn (rm_msg msg) = IPMI_NETFN_APP_RESPONSE \<and> km_cmd (rm_msg msg) = IPMI_GET_CHANNEL_INFO_CMD
      then do {
        d0 \<leftarrow> buf_get (km_data (rm_msg msg)) 0;
        if d0 \<noteq> 0
        then (if d0 = IPMI_INVALID_COMMAND_ERR
              then do {
                ch \<leftarrow> buf_get (channels s) 0;
                Some (True, s\<lparr>channels := (channels s)[0 := ch\<lparr>medium := IPMI_CHANNEL_MEDIUM_IPMB, protocol := IPMI_CHANNEL_PROTOCOL_IPMB\<rparr>],
                  curr_channel := int IPMI_MAX_CHANNELS\<rparr>) }
              else next_channel ar am s)
        else if length (km_data (rm_msg msg)) < 4 then next_channel ar am s
        else do {
          d2 \<leftarrow> buf_get (km_data (rm_msg msg)) 2; d3 \<leftarrow> buf_get (km_data (rm_msg msg)) 3;
          ch \<leftarrow> buf_get (channels s) (curr_channel s);
          next_channel ar am
            (s\<lparr>channels := (channels s)[nat (curr_channel s) := ch\<lparr>medium := d2 AND 0x7f, protocol := d3 AND 0x1f\<rparr>]\<rparr>) } }
      else Some (False, s))"

text \<open>One round of the scan: the message \<open>m\<close> comes back with the answer \<open>rsp\<close> of the BMC, and the handler for \<open>NULL\<close> users runs on what is
  delivered.\<close>

fun null_deliveries :: "mh_eff list \<Rightarrow> ipmi_recv_msg list" where
  "null_deliveries [] = []"
| "null_deliveries (Null_user_hndl r # es) = r # null_deliveries es"
| "null_deliveries (_ # es) = null_deliveries es"

fun run_handler :: "ipmi_recv_msg option \<Rightarrow> smi_req option \<Rightarrow> ipmi_recv_msg list \<Rightarrow> bool \<times> ipmi_smi \<Rightarrow> (bool \<times> ipmi_smi) option" where
  "run_handler ar am [] ws = Some ws"
| "run_handler ar am (r # rs) (w, s) = do { (w1, s1) \<leftarrow> channel_handler ar am r s; run_handler ar am rs (w \<or> w1, s1) }"

definition scan_round :: "ipmi_recv_msg option \<Rightarrow> smi_req option \<Rightarrow> smi_req \<Rightarrow> u8 list \<Rightarrow> nat \<Rightarrow> ipmi_smi \<Rightarrow> (bool \<times> ipmi_smi) option" where
  "scan_round ar am m rsp n s = do {
     s1 \<leftarrow> ipmi_smi_msg_received [] (m\<lparr>msg_rsp := rsp, msg_rsp_size := int n\<rparr>) (s\<lparr>mh_log := []\<rparr>);
     run_handler ar am (null_deliveries (mh_log s1)) (False, s1) }"

text \<open>The scan, with at most \<open>k\<close> rounds; \<open>bmc\<close> gives the completion code and the data with which the BMC answers for a channel, \<open>rs\<close> and \<open>ms\<close>
  are the answers of the allocators when the request for a channel is made.\<close>

fun channel_scan ::
  "(nat \<Rightarrow> ipmi_recv_msg option) \<Rightarrow> (nat \<Rightarrow> smi_req option) \<Rightarrow> (nat \<Rightarrow> u8 list) \<Rightarrow> nat \<Rightarrow> smi_req \<Rightarrow> ipmi_smi \<Rightarrow> ipmi_smi option" where
  "channel_scan rs ms bmc 0 m s = None"
| "channel_scan rs ms bmc (Suc k) m s = do {
     let c = unat (msg_data m ! 2);
     let ans = [0x1c, IPMI_GET_CHANNEL_INFO_CMD] @ bmc c;
     (w, s1) \<leftarrow> scan_round (rs (c + 1)) (ms (c + 1)) m (overlay ans (msg_rsp m)) (length ans) s;
     if w then Some s1
     else (case sends (mh_log s1) of [] \<Rightarrow> None | m1 # _ \<Rightarrow> channel_scan rs ms bmc k m1 s1) }"

section \<open>Numbers are given once\<close>

lemma find_hole_spec:
  assumes "sorted_wrt (<) ns" "\<forall>n \<in> set ns. i \<le> n" "find_hole i ns = (j, bs, as)"
  shows "ns = bs @ as \<and> i \<le> j \<and> (\<forall>n \<in> set bs. n < j) \<and> (\<forall>n \<in> set as. j < n) \<and> (\<forall>n. i \<le> n \<and> n < j \<longrightarrow> n \<in> set ns)"
  using assms
proof (induction i ns arbitrary: j bs as rule: find_hole.induct)
  case (2 i n ns)
  show ?case
  proof (cases "n = i")
    case True
    obtain bs1 where r: "find_hole (i + 1) ns = (j, bs1, as)" "bs = n # bs1" using 2(4) True by (auto split: prod.splits)
    have "sorted_wrt (<) ns" "\<forall>n \<in> set ns. i + 1 \<le> n" using 2(2) True by auto
    then have "ns = bs1 @ as \<and> i + 1 \<le> j \<and> (\<forall>n \<in> set bs1. n < j) \<and> (\<forall>n \<in> set as. j < n) \<and> (\<forall>n. i + 1 \<le> n \<and> n < j \<longrightarrow> n \<in> set ns)"
      using 2(1) [OF _ _ _ r(1)] True by blast
    moreover have "x = i \<or> i + 1 \<le> x" if "i \<le> x" for x using that by auto
    ultimately show ?thesis using r(2) True by force
  next
    case False
    then show ?thesis using 2(2-4) by force
  qed
qed simp

text \<open>The number of a new interface is the least one that no interface has, and the list of interfaces stays in the order of the numbers.\<close>

theorem ipmi_interface_numbers:
  assumes "sorted_wrt (<) nums" "\<forall>n \<in> set nums. 0 \<le> n" "add_interface nums = (i, nums')"
  shows "0 \<le> i \<and> i \<notin> set nums \<and> (\<forall>j. 0 \<le> j \<and> j < i \<longrightarrow> j \<in> set nums) \<and> set nums' = insert i (set nums) \<and> sorted_wrt (<) nums'"
proof -
  obtain bs as where h: "find_hole 0 nums = (i, bs, as)" using assms(3) by (auto simp: add_interface_def split: prod.splits)
  note sp = find_hole_spec [OF assms(1,2) h]
  have "bs = []" if "i = 0" using sp that assms(2) by (cases bs) force+
  then have "nums' = bs @ i # as" using assms(3) h sp by (auto simp: add_interface_def)
  then show ?thesis using sp assms(1) by (auto simp: sorted_wrt_append)
qed

theorem ipmi_interface_numbers_witness: "add_interface [0, 1, 3] = (2, [0, 1, 2, 3]) \<and> sorted_wrt (<) (snd (add_interface [0, 1, 3]))"
  using ipmi_interface_numbers [of "[0, 1, 3]" 2 "[0, 1, 2, 3]"] by (simp add: add_interface_def)

section \<open>The GUID is shifted\<close>

text \<open>\<open>guid_handler\<close> copies the answer of the BMC from its completion code on: the GUID it stores begins with the code and lacks the last byte, so that two
  BMCs whose GUIDs differ there only are taken for one.\<close>

theorem ipmi_guid_shifted:
  assumes "is_si_addr (rm_addr r)" "length g = 16"
  shows "guid_handler (r\<lparr>rm_msg := \<lparr>km_netfn = IPMI_NETFN_APP_RESPONSE, km_cmd = IPMI_GET_DEVICE_GUID_CMD, km_data = 0 # g\<rparr>\<rparr>) b =
    Some (True, b\<lparr>bmc_guid := 0 # butlast g, guid_set := 1\<rparr>)"
  using assms by (simp add: guid_handler_def buf_get_def butlast_conv_take)

theorem ipmi_guid_shifted_witness:
  "guid_handler (idle_recv\<lparr>rm_msg := \<lparr>km_netfn = IPMI_NETFN_APP_RESPONSE, km_cmd = IPMI_GET_DEVICE_GUID_CMD, km_data = 0 # replicate 15 9 @ [1]\<rparr>\<rparr>) \<lparr>bmc_guid = [], guid_set = 2\<rparr> =
   guid_handler (idle_recv\<lparr>rm_msg := \<lparr>km_netfn = IPMI_NETFN_APP_RESPONSE, km_cmd = IPMI_GET_DEVICE_GUID_CMD, km_data = 0 # replicate 15 9 @ [2]\<rparr>\<rparr>) \<lparr>bmc_guid = [], guid_set = 2\<rparr>"
  using ipmi_guid_shifted [of idle_recv "replicate 15 9 @ [1]" "\<lparr>bmc_guid = [], guid_set = 2\<rparr>"] ipmi_guid_shifted [of idle_recv "replicate 15 9 @ [2]" "\<lparr>bmc_guid = [], guid_set = 2\<rparr>"]
  by (simp add: idle_recv_def butlast_append)

section \<open>The scan finds every channel\<close>

definition channel_recv :: "int \<Rightarrow> ipmi_recv_msg \<Rightarrow> ipmi_recv_msg" where
  "channel_recv c r = r\<lparr>rm_user := None, rm_msgid := 0,
     rm_msg := \<lparr>km_netfn = IPMI_NETFN_APP_REQUEST, km_cmd = IPMI_GET_CHANNEL_INFO_CMD, km_data = [word_of_int c]\<rparr>,
     rm_addr := System_interface_addr IPMI_BMC_CHANNEL 0\<rparr>"

definition channel_msg :: "int \<Rightarrow> ipmi_recv_msg \<Rightarrow> smi_req \<Rightarrow> smi_req" where
  "channel_msg c r smi = smi\<lparr>msg_data := overlay [APP_REQUEST, IPMI_GET_CHANNEL_INFO_CMD, word_of_int c] (msg_data smi), msg_data_size := 3,
     smi_msgid := 0, smi_user_data := Some (channel_recv c r)\<rparr>"

lemma channel_cmd_sent:
  assumes "mh_handlers s" "length (channels s) = 16" "smi_fresh smi"
  shows "send_channel_info_cmd c (Some r) (Some smi) s = Some (0, emit (Sender (channel_msg c r smi) 0) (bump Sent_local_commands s))"
proof -
  have len: "length (msg_data smi) = 272" using assms(3) by (simp add: smi_fresh_def)
  have 0: "buf_set (msg_data smi) 0 v = Some (overlay [v] (msg_data smi))" for v
    using buf_set_overlay [of 0 "[]" "msg_data smi" v] len by (simp add: overlay_Nil)
  have "buf_set (overlay [a] (msg_data smi)) 1 v = Some (overlay [a, v] (msg_data smi))" for a v
    using buf_set_overlay [of 1 "[a]" "msg_data smi" v] len by simp
  moreover have "blit (overlay [a, v] (msg_data smi)) 2 [x] = Some (overlay [a, v, x] (msg_data smi))" for a v x
    using blit_overlay [of 2 "[a, v]" "[x]" "msg_data smi"] len by simp
  ultimately show ?thesis using assms 0
    by (simp add: send_channel_info_cmd_def i_ipmi_request_def request_smi_def auto_maintenance_def buf_get_def flag_def IPMI_MAX_MSG_LENGTH_def
        channel_msg_def channel_recv_def numeral_3_eq_3 Let_def)
qed

text \<open>The interface while it is scanned.\<close>

definition scanning :: "ipmi_smi \<Rightarrow> bool" where
  "scanning s \<longleftrightarrow> mh_handlers s \<and> length (channels s) = 16 \<and> waiting_msgs s = [] \<and> null_user_handler s"

definition scanned :: "u8 list \<Rightarrow> ipmi_channel \<Rightarrow> ipmi_channel" where
  "scanned ans ch = (if ans ! 0 = 0 \<and> length ans \<ge> 4 then ch\<lparr>medium := ans ! 2 AND 0x7f, protocol := ans ! 3 AND 0x1f\<rparr> else ch)"

lemma channel_answer:
  assumes "scanning s" "smi_fresh smi" "0 < length ans" "length ans \<le> 64"
    and m_def: "m = (channel_msg c r smi)\<lparr>msg_rsp := overlay ([0x1c, IPMI_GET_CHANNEL_INFO_CMD] @ ans) (msg_rsp smi), msg_rsp_size := int (length ans + 2)\<rparr>"
  shows "\<exists>s1 r1. ipmi_smi_msg_received [] m (s\<lparr>mh_log := []\<rparr>) = Some s1 \<and> null_deliveries (mh_log s1) = [r1] \<and> is_si_addr (rm_addr r1) \<and>
    rm_msg r1 = \<lparr>km_netfn = IPMI_NETFN_APP_RESPONSE, km_cmd = IPMI_GET_CHANNEL_INFO_CMD, km_data = ans\<rparr> \<and>
    scanning s1 \<and> channels s1 = channels s \<and> curr_channel s1 = curr_channel s \<and> sends (mh_log s1) = []"
proof -
  have len: "length (msg_data m) = 272" "length (msg_rsp m) = 272"
    using assms(2,4) by (simp_all add: m_def channel_msg_def smi_fresh_def overlay_def)
  have b: "msg_data m ! 0 = APP_REQUEST" "msg_data m ! 1 = IPMI_GET_CHANNEL_INFO_CMD" "msg_rsp m ! 0 = 0x1c" "msg_rsp m ! 1 = IPMI_GET_CHANNEL_INFO_CMD"
    "smi_user_data m = Some (channel_recv c r)" "msg_rsp_size m = int (length ans + 2)"
    by (simp_all add: m_def channel_msg_def overlay_def)
  have d: "rsp_data m 2 0 = Some ans"
    using assms(2,4) by (simp add: rsp_data_def b(6) IPMI_MAX_MSG_LENGTH_def len(2) Let_def) (simp add: m_def overlay_def)
  have chk: "check_response m = Some m" using len b by (simp add: check_response_def buf_get_def)
  show ?thesis using assms(1) len b d chk
    by (auto simp: ipmi_smi_msg_received_def handle_new_recv_msg_def handle_bmc_rsp_def buf_get_def channel_recv_def
        deliver_response_def ipmi_free_recv_msg_def emit_def bump_def scanning_def)
qed

text \<open>What the answer for a channel does to the channels, and whether the scan goes on behind it: not behind the last channel, not when the BMC does not
  know the command, and not when the next request finds no memory.\<close>

definition ipmb_channel :: "ipmi_channel \<Rightarrow> ipmi_channel" where
  "ipmb_channel ch = ch\<lparr>medium := IPMI_CHANNEL_MEDIUM_IPMB, protocol := IPMI_CHANNEL_PROTOCOL_IPMB\<rparr>"

definition channel_answered :: "u8 list \<Rightarrow> nat \<Rightarrow> ipmi_channel list \<Rightarrow> ipmi_channel list" where
  "channel_answered ans c chs = (if ans ! 0 = IPMI_INVALID_COMMAND_ERR then chs[0 := ipmb_channel (chs ! 0)] else chs[c := scanned ans (chs ! c)])"

definition scan_goes_on :: "ipmi_recv_msg option \<Rightarrow> smi_req option \<Rightarrow> u8 list \<Rightarrow> nat \<Rightarrow> bool" where
  "scan_goes_on ar am ans c \<longleftrightarrow> c < 15 \<and> ar \<noteq> None \<and> am \<noteq> None \<and> ans ! 0 \<noteq> IPMI_INVALID_COMMAND_ERR"

lemma channel_cmd_no_memory:
  assumes "ar = None \<or> am = None" "length (channels s) = 16"
  shows "\<exists>s1. send_channel_info_cmd c ar am s = Some (- ENOMEM, s1) \<and> scanning s1 = scanning s \<and> channels s1 = channels s"
  using assms
  by (cases ar; cases am)
     (auto simp: send_channel_info_cmd_def i_ipmi_request_def buf_get_def ipmi_free_recv_msg_def emit_def scanning_def user_put_def set_user_def Let_def split: option.splits)

lemma next_channel_sends:
  assumes "scanning t" "curr_channel t = int c" "c < 16" "\<forall>smi. am = Some smi \<longrightarrow> smi_fresh smi" "ans ! 0 \<noteq> IPMI_INVALID_COMMAND_ERR"
  shows "\<exists>s1. next_channel ar am t = Some (\<not> scan_goes_on ar am ans c, s1) \<and> scanning s1 \<and>
    curr_channel s1 = (if scan_goes_on ar am ans c then int (Suc c) else 16) \<and> channels s1 = channels t \<and>
    (scan_goes_on ar am ans c \<longrightarrow> sends (mh_log s1) = sends (mh_log t) @ [channel_msg (int (Suc c)) (the ar) (the am)])"
proof (cases "c = 15 \<or> ar \<noteq> None \<and> am \<noteq> None")
  case True
  then show ?thesis using assms
    by (auto simp: next_channel_def channel_cmd_sent scanning_def emit_def bump_def scan_goes_on_def add.commute [of "int c" 1] Let_def)
next
  case False
  let ?t = "t\<lparr>curr_channel := int c + 1\<rparr>"
  obtain s1 where "send_channel_info_cmd (int c + 1) ar am ?t = Some (- ENOMEM, s1)" "scanning s1" "channels s1 = channels t"
    using channel_cmd_no_memory [of ar am ?t "int c + 1"] False assms(1) by (auto simp: scanning_def)
  then show ?thesis using False assms(2,3)
    by (auto simp: next_channel_def scan_goes_on_def scanning_def Let_def)
qed

lemma channel_handled:
  assumes "scanning s" "curr_channel s = int c" "c < 16" "\<forall>smi. am = Some smi \<longrightarrow> smi_fresh smi" "is_si_addr (rm_addr r1)"
    and "rm_msg r1 = \<lparr>km_netfn = IPMI_NETFN_APP_RESPONSE, km_cmd = IPMI_GET_CHANNEL_INFO_CMD, km_data = ans\<rparr>" "0 < length ans"
  shows "\<exists>s1. channel_handler ar am r1 s = Some (\<not> scan_goes_on ar am ans c, s1) \<and> scanning s1 \<and>
    curr_channel s1 = (if scan_goes_on ar am ans c then int (Suc c) else 16) \<and> channels s1 = channel_answered ans c (channels s) \<and>
    (scan_goes_on ar am ans c \<longrightarrow> sends (mh_log s1) = sends (mh_log s) @ [channel_msg (int (Suc c)) (the ar) (the am)])"
proof (cases "ans ! 0 = IPMI_INVALID_COMMAND_ERR")
  case True
  then show ?thesis using assms
    by (auto simp: channel_handler_def scan_goes_on_def channel_answered_def ipmb_channel_def buf_get_def scanning_def)
next
  case False
  let ?t = "s\<lparr>channels := (channels s)[c := scanned ans (channels s ! c)]\<rparr>"
  have "(channels s)[c := channels s ! c] = channels s" by simp
  then have "channel_handler ar am r1 s = next_channel ar am ?t"
    using assms False by (auto simp: channel_handler_def scanned_def buf_get_def scanning_def)
  then show ?thesis using next_channel_sends [of ?t c am ans ar] assms(1-4) False by (simp add: scanning_def channel_answered_def)
qed

lemma scan_round_result:
  assumes "scanning s" "curr_channel s = int c" "c < 16" "smi_fresh smi" "\<forall>smi. am = Some smi \<longrightarrow> smi_fresh smi"
    and "0 < length ans" "length ans \<le> 64"
  shows "\<exists>s1. scan_round ar am (channel_msg (int c) r smi) (overlay ([0x1c, IPMI_GET_CHANNEL_INFO_CMD] @ ans) (msg_rsp smi)) (length ans + 2) s =
      Some (\<not> scan_goes_on ar am ans c, s1) \<and> scanning s1 \<and> curr_channel s1 = (if scan_goes_on ar am ans c then int (Suc c) else 16) \<and>
      channels s1 = channel_answered ans c (channels s) \<and>
      (scan_goes_on ar am ans c \<longrightarrow> sends (mh_log s1) = [channel_msg (int (Suc c)) (the ar) (the am)])"
proof -
  obtain s0 r0 where a: "ipmi_smi_msg_received [] ((channel_msg (int c) r smi)\<lparr>msg_rsp := overlay ([0x1c, IPMI_GET_CHANNEL_INFO_CMD] @ ans) (msg_rsp smi),
        msg_rsp_size := int (length ans + 2)\<rparr>) (s\<lparr>mh_log := []\<rparr>) = Some s0" "null_deliveries (mh_log s0) = [r0]" "is_si_addr (rm_addr r0)"
      "rm_msg r0 = \<lparr>km_netfn = IPMI_NETFN_APP_RESPONSE, km_cmd = IPMI_GET_CHANNEL_INFO_CMD, km_data = ans\<rparr>"
      "scanning s0" "channels s0 = channels s" "curr_channel s0 = curr_channel s" "sends (mh_log s0) = []"
    using channel_answer [OF assms(1,4,6,7) refl] by blast
  have "curr_channel s0 = int c" using a(7) assms(2) by simp
  from channel_handled [OF a(5) this assms(3,5) a(3,4) assms(6), of ar]
  show ?thesis using a by (auto simp: scan_round_def)
qed

lemma scan_step:
  fixes rs
  assumes "scanning s" "curr_channel s = int c" "c < 16" "smi_fresh smi" "\<forall>i smi. ms i = Some smi \<longrightarrow> smi_fresh smi"
    and "0 < length (bmc c)" "length (bmc c) \<le> 64"
  defines "go \<equiv> scan_goes_on (rs (c + 1)) (ms (c + 1)) (bmc c) c"
  shows "\<exists>s1. channel_scan rs ms bmc (Suc k) (channel_msg (int c) r smi) s =
      (if go then channel_scan rs ms bmc k (channel_msg (int (Suc c)) (the (rs (c + 1))) (the (ms (c + 1)))) s1 else Some s1) \<and>
    scanning s1 \<and> curr_channel s1 = (if go then int (Suc c) else 16) \<and> channels s1 = channel_answered (bmc c) c (channels s)"
proof -
  have ch: "unat (msg_data (channel_msg (int c) r smi) ! 2) = c" "msg_rsp (channel_msg (int c) r smi) = msg_rsp smi"
    using assms(3) by (simp_all add: channel_msg_def overlay_def unat_of_nat)
  have "\<forall>smi. ms (c + 1) = Some smi \<longrightarrow> smi_fresh smi" using assms(5) by blast
  from scan_round_result [OF assms(1-4) this assms(6,7), of "rs (c + 1)" r] show ?thesis
    by (auto simp: ch go_def)
qed

text \<open>The channels when the scan, begun at channel \<open>c\<close>, has stopped behind the answer for channel \<open>k\<close>.\<close>

definition scan_channels :: "(nat \<Rightarrow> u8 list) \<Rightarrow> nat \<Rightarrow> nat \<Rightarrow> ipmi_channel list \<Rightarrow> ipmi_channel list" where
  "scan_channels bmc c k chs =
     (let new = map (\<lambda>i. if c \<le> i \<and> i \<le> k then scanned (bmc i) (chs ! i) else chs ! i) [0..<16] in
      if bmc k ! 0 = IPMI_INVALID_COMMAND_ERR then new[0 := ipmb_channel (new ! 0)] else new)"

lemma scan_channels_stop:
  assumes "length chs = 16" "c < 16"
  shows "scan_channels bmc c c chs = channel_answered (bmc c) c chs"
proof -
  have "map (\<lambda>i. if c \<le> i \<and> i \<le> c then scanned (bmc i) (chs ! i) else chs ! i) [0..<16] = chs[c := scanned (bmc c) (chs ! c)]"
    using assms by (auto intro!: nth_equalityI simp: nth_list_update)
  moreover have "scanned (bmc c) (chs ! c) = chs ! c" if "bmc c ! 0 = IPMI_INVALID_COMMAND_ERR" using that by (simp add: scanned_def)
  ultimately show ?thesis by (simp add: scan_channels_def channel_answered_def)
qed

lemma scan_channels_next:
  assumes "length chs = 16" "c < k" "k < 16" "bmc c ! 0 \<noteq> IPMI_INVALID_COMMAND_ERR"
  shows "scan_channels bmc (Suc c) k (channel_answered (bmc c) c chs) = scan_channels bmc c k chs"
proof -
  have "map (\<lambda>i. if Suc c \<le> i \<and> i \<le> k then scanned (bmc i) (channel_answered (bmc c) c chs ! i) else channel_answered (bmc c) c chs ! i) [0..<16] =
      map (\<lambda>i. if c \<le> i \<and> i \<le> k then scanned (bmc i) (chs ! i) else chs ! i) [0..<16]"
    using assms by (auto simp: channel_answered_def nth_list_update)
  then show ?thesis unfolding scan_channels_def by (simp only:)
qed

lemma scan_rounds:
  assumes "scanning s" "curr_channel s = int c" "c + Suc n = 16" "\<forall>i smi. ms i = Some smi \<longrightarrow> smi_fresh smi" "smi_fresh smi"
    and bmc: "\<forall>c < 16. 0 < length (bmc c) \<and> length (bmc c) \<le> 64"
  shows "\<exists>s1 k. channel_scan rs ms bmc (Suc n) (channel_msg (int c) r smi) s = Some s1 \<and> curr_channel s1 = 16 \<and> c \<le> k \<and> k < 16 \<and>
    (\<forall>i. c \<le> i \<and> i < k \<longrightarrow> scan_goes_on (rs (i + 1)) (ms (i + 1)) (bmc i) i) \<and> \<not> scan_goes_on (rs (k + 1)) (ms (k + 1)) (bmc k) k \<and>
    channels s1 = scan_channels bmc c k (channels s)"
  using assms(1-5)
proof (induction n arbitrary: c s r smi)
  case (0 c)
  then have c: "c < 16" "\<not> scan_goes_on (rs (c + 1)) (ms (c + 1)) (bmc c) c" by (auto simp: scan_goes_on_def)
  have "length (channels s) = 16" using 0 by (simp add: scanning_def)
  with scan_step [OF 0(1,2) c(1) 0(5,4), of bmc rs 0 r] bmc c 0 show ?case
    by (intro exI [of _ "the (channel_scan rs ms bmc (Suc 0) (channel_msg (int c) r smi) s)"] exI [of _ c])
       (auto simp del: channel_scan.simps simp: scan_channels_stop)
next
  case (Suc n)
  then have c: "c < 16" by simp
  let ?go = "scan_goes_on (rs (c + 1)) (ms (c + 1)) (bmc c) c"
  have l: "length (channels s) = 16" using Suc.prems(1) by (simp add: scanning_def)
  obtain s1 where s1: "channel_scan rs ms bmc (Suc (Suc n)) (channel_msg (int c) r smi) s =
        (if ?go then channel_scan rs ms bmc (Suc n) (channel_msg (int (Suc c)) (the (rs (c + 1))) (the (ms (c + 1)))) s1 else Some s1)"
      "scanning s1" "curr_channel s1 = (if ?go then int (Suc c) else 16)" "channels s1 = channel_answered (bmc c) c (channels s)"
    using scan_step [OF Suc.prems(1,2) c Suc.prems(5,4), of bmc rs "Suc n" r] bmc c by blast
  show ?case
  proof (cases ?go)
    case False
    then show ?thesis using s1 c l by (intro exI [of _ s1] exI [of _ c]) (auto simp: scan_channels_stop simp del: channel_scan.simps)
  next
    case True
    then obtain x where x: "ms (c + 1) = Some x" "smi_fresh x" "bmc c ! 0 \<noteq> IPMI_INVALID_COMMAND_ERR"
      using Suc.prems(4) by (auto simp: scan_goes_on_def)
    have "curr_channel s1 = int (Suc c)" using s1(3) True by simp
    from Suc.IH [OF s1(2) this _ Suc.prems(4), of "the (ms (c + 1))" "the (rs (c + 1))"] Suc.prems(3) x obtain s2 k where
      s2: "channel_scan rs ms bmc (Suc n) (channel_msg (int (Suc c)) (the (rs (c + 1))) (the (ms (c + 1)))) s1 = Some s2" "curr_channel s2 = 16"
        "Suc c \<le> k" "k < 16" "\<forall>i. Suc c \<le> i \<and> i < k \<longrightarrow> scan_goes_on (rs (i + 1)) (ms (i + 1)) (bmc i) i"
        "\<not> scan_goes_on (rs (k + 1)) (ms (k + 1)) (bmc k) k" "channels s2 = scan_channels bmc (Suc c) k (channels s1)" by auto
    have "channels s2 = scan_channels bmc c k (channels s)" using scan_channels_next [where bmc = bmc and c = c and k = k, OF l _ s2(4) x(3)] s2(3,7) s1(4) by simp
    moreover have "\<forall>i. c \<le> i \<and> i < k \<longrightarrow> scan_goes_on (rs (i + 1)) (ms (i + 1)) (bmc i) i"
      using s2(5) True by (metis Suc_leI le_neq_implies_less)
    ultimately show ?thesis using s1(1) s2 True by (intro exI [of _ s2] exI [of _ k]) (auto simp del: channel_scan.simps)
  qed
qed

text \<open>C18: The scan of the channels, once its first request is sent, ends after at most 16 answers of the BMC, whatever their completion codes and data are and whether
  or not there is memory for the later requests. It stops behind the first channel \<open>k\<close> that is the last one, whose answer is that the BMC
  does not know the command, or behind which the next request finds no memory. Every channel up to \<open>k\<close> then has the medium and protocol of its own answer, or is as before
  when that was an error or too short; the other channels are as before; and when the last answer was that the command is not known, channel 0 is set to
  IPMB. The answers have a completion code and are at most 64 bytes long.\<close>

theorem ipmi_channels_scanned:
  assumes "scanning s" "curr_channel s = 0" "rs 0 = Some r" "ms 0 = Some smi" "\<forall>i m. ms i = Some m \<longrightarrow> smi_fresh m"
    and "\<forall>c < 16. 0 < length (bmc c) \<and> length (bmc c) \<le> 64"
  shows "\<exists>m s1 s2 k. send_channel_info_cmd 0 (rs 0) (ms 0) s = Some (0, s1) \<and> sends (mh_log s1) = sends (mh_log s) @ [m] \<and>
    channel_scan rs ms bmc 16 m s1 = Some s2 \<and> curr_channel s2 = 16 \<and> k < 16 \<and>
    (\<forall>c < k. rs (c + 1) \<noteq> None \<and> ms (c + 1) \<noteq> None \<and> bmc c ! 0 \<noteq> IPMI_INVALID_COMMAND_ERR) \<and>
    (k = 15 \<or> rs (k + 1) = None \<or> ms (k + 1) = None \<or> bmc k ! 0 = IPMI_INVALID_COMMAND_ERR) \<and>
    channels s2 =
      (let new = map (\<lambda>c. if c \<le> k then scanned (bmc c) (channels s ! c) else channels s ! c) [0..<16] in
       if bmc k ! 0 = IPMI_INVALID_COMMAND_ERR then new[0 := ipmb_channel (new ! 0)] else new)"
proof -
  let ?s1 = "emit (Sender (channel_msg 0 r smi) 0) (bump Sent_local_commands s)"
  have f: "smi_fresh smi" using assms(4,5) by blast
  have 1: "send_channel_info_cmd 0 (rs 0) (ms 0) s = Some (0, ?s1)"
    using assms(1,3,4) f by (simp add: scanning_def channel_cmd_sent)
  have 2: "scanning ?s1" "curr_channel ?s1 = int 0" "channels ?s1 = channels s" "sends (mh_log ?s1) = sends (mh_log s) @ [channel_msg 0 r smi]"
    using assms(1,2) by (simp_all add: scanning_def emit_def bump_def)
  obtain s2 k where "channel_scan rs ms bmc 16 (channel_msg 0 r smi) ?s1 = Some s2" "curr_channel s2 = 16" "k < 16"
      "\<forall>i. i < k \<longrightarrow> scan_goes_on (rs (i + 1)) (ms (i + 1)) (bmc i) i" "\<not> scan_goes_on (rs (k + 1)) (ms (k + 1)) (bmc k) k"
      "channels s2 = scan_channels bmc 0 k (channels s)"
    using scan_rounds [OF 2(1,2) _ assms(5) f assms(6), of 15 rs r] 2(3) by (auto simp del: channel_scan.simps)
  then show ?thesis using 1 2(4) by (intro exI [of _ "channel_msg 0 r smi"] exI [of _ ?s1] exI [of _ s2] exI [of _ k])
      (auto simp: scan_goes_on_def scan_channels_def simp del: channel_scan.simps)
qed

text \<open>Channel 1 answers with a medium, channel 2 that the command is not known: the scan ends there, and channel 0 becomes IPMB.\<close>

theorem ipmi_channels_scanned_witness:
  "\<exists>m s1 s2. send_channel_info_cmd 0 (Some idle_recv) (Some idle_req) (idle_intf\<lparr>curr_channel := 0, null_user_handler := True\<rparr>) = Some (0, s1) \<and>
     sends (mh_log s1) = [m] \<and>
     channel_scan (\<lambda>_. Some idle_recv) (\<lambda>_. Some idle_req) (\<lambda>c. if c = 1 then [0, 1, 4, 1] else if c = 2 then [0xc1] else [0xcc]) 16 m s1 = Some s2 \<and>
     medium (channels s2 ! 1) = 4 \<and> protocol (channels s2 ! 0) = 1 \<and> curr_channel s2 = 16"
proof -
  have 1: "scanning (idle_intf\<lparr>curr_channel := 0, null_user_handler := True\<rparr>)" by (simp add: scanning_def idle_intf_def)
  have 2: "smi_fresh idle_req" by (simp add: smi_fresh_def idle_req_def)
  have 3: "medium (scanned [0, 1, 4, 1] ch) = 4" for ch by (simp add: scanned_def)
  let ?bmc = "\<lambda>c :: nat. if c = 1 then [0, 1, 4, 1] else if c = 2 then [0xc1] else [0xcc :: u8]"
  have ans: "\<forall>c < 16. 0 < length (?bmc c) \<and> length (?bmc c) \<le> 64" by simp
  let ?i = "idle_intf\<lparr>curr_channel := 0, null_user_handler := True\<rparr>" and ?rs = "\<lambda>_ :: nat. Some idle_recv" and ?ms = "\<lambda>_ :: nat. Some idle_req"
  have 4: "curr_channel ?i = 0" "\<forall>i m. ?ms i = Some m \<longrightarrow> smi_fresh m" using 2 by simp_all
  obtain m s1 s2 k where s: "send_channel_info_cmd 0 (?rs 0) (?ms 0) ?i = Some (0, s1)"
      "sends (mh_log s1) = sends (mh_log ?i) @ [m]" "channel_scan ?rs ?ms ?bmc 16 m s1 = Some s2" "curr_channel s2 = 16"
      "k < 16" "\<forall>c < k. ?rs (c + 1) \<noteq> None \<and> ?ms (c + 1) \<noteq> None \<and> ?bmc c ! 0 \<noteq> IPMI_INVALID_COMMAND_ERR"
      "k = 15 \<or> ?rs (k + 1) = None \<or> ?ms (k + 1) = None \<or> ?bmc k ! 0 = IPMI_INVALID_COMMAND_ERR"
      "channels s2 = (let new = map (\<lambda>c. if c \<le> k then scanned (?bmc c) (channels ?i ! c) else channels ?i ! c) [0..<16] in
         if ?bmc k ! 0 = IPMI_INVALID_COMMAND_ERR then new[0 := ipmb_channel (new ! 0)] else new)"
    using ipmi_channels_scanned [where rs = ?rs and ms = ?ms, OF 1 4(1) refl refl 4(2) ans] by blast
  have "\<not> 2 < k" using s(6) by auto
  moreover have "k \<noteq> 0" "k \<noteq> 1" using s(7) by (auto split: if_splits)
  ultimately have k: "k = 2" by linarith
  have "sends (mh_log s1) = [m]" "medium (channels s2 ! 1) = 4" "protocol (channels s2 ! 0) = 1" using s(2,8) 3 k by (simp_all add: idle_intf_def ipmb_channel_def Let_def)
  then show ?thesis using s(1,3,4) by blast
qed

end
