(* ===== verification/Ipmi_Bt.thy ===== *)
theory Ipmi_Bt
  imports Ipmi_Si
begin

text \<open>
  The BT state machine, \<^verbatim>\<open>drivers/char/openipmi/ipmi_si_drv/ipmi_bt_sm.c\<close>. The structure
  \<open>si_sm_data\<close> is the record \<open>bt_data\<close>; the device behind \<open>io\<close> is its field \<open>bt_dev\<close>, and
  the routines that only talk to the BMC are functions on the device. Each \<open>case\<close> of
  \<open>bt_event\<close> is a definition of its own. The \<open>int\<close> and \<open>long\<close> fields stay far from their limits
  and are integers; the sequence number and the loop counter of \<open>read_all_bytes\<close> are
  \<open>unsigned char\<close> and wrap. \<open>bt_debug\<close> is zero (\<open>BT_DEBUG_OFF\<close>), so debug output is left out;
  \<open>bt_init_data\<close> also returns the constant 3, the size of the I/O region.
\<close>

section \<open>Data\<close>

datatype bt_states =
  BT_STATE_IDLE | BT_STATE_XACTION_START | BT_STATE_WRITE_BYTES | BT_STATE_WRITE_CONSUME
| BT_STATE_READ_WAIT | BT_STATE_CLEAR_B2H | BT_STATE_READ_BYTES | BT_STATE_RESET1
| BT_STATE_RESET2 | BT_STATE_RESET3 | BT_STATE_RESTART | BT_STATE_PRINTME
| BT_STATE_CAPABILITIES_BEGIN | BT_STATE_CAPABILITIES_END | BT_STATE_LONG_BUSY

text \<open>``Order is critical in this list'': the code compares states by their position in the
  enumeration.\<close>

fun bt_state_num :: "bt_states \<Rightarrow> nat" where
  "bt_state_num BT_STATE_IDLE = 0"
| "bt_state_num BT_STATE_XACTION_START = 1"
| "bt_state_num BT_STATE_WRITE_BYTES = 2"
| "bt_state_num BT_STATE_WRITE_CONSUME = 3"
| "bt_state_num BT_STATE_READ_WAIT = 4"
| "bt_state_num BT_STATE_CLEAR_B2H = 5"
| "bt_state_num BT_STATE_READ_BYTES = 6"
| "bt_state_num BT_STATE_RESET1 = 7"
| "bt_state_num BT_STATE_RESET2 = 8"
| "bt_state_num BT_STATE_RESET3 = 9"
| "bt_state_num BT_STATE_RESTART = 10"
| "bt_state_num BT_STATE_PRINTME = 11"
| "bt_state_num BT_STATE_CAPABILITIES_BEGIN = 12"
| "bt_state_num BT_STATE_CAPABILITIES_END = 13"
| "bt_state_num BT_STATE_LONG_BUSY = 14"

lemma bt_state_num_inj: "bt_state_num a = bt_state_num b \<Longrightarrow> a = b"
  by (cases a; cases b) simp_all

instantiation bt_states :: linorder
begin

definition less_eq_bt_states :: "bt_states \<Rightarrow> bt_states \<Rightarrow> bool" where
  "less_eq_bt_states a b \<longleftrightarrow> bt_state_num a \<le> bt_state_num b"

definition less_bt_states :: "bt_states \<Rightarrow> bt_states \<Rightarrow> bool" where
  "less_bt_states a b \<longleftrightarrow> bt_state_num a < bt_state_num b"

instance
  by standard (auto simp: less_eq_bt_states_def less_bt_states_def dest: bt_state_num_inj)

end

abbreviation (input) BT_NORMAL_TIMEOUT :: int where "BT_NORMAL_TIMEOUT \<equiv> 5"
abbreviation (input) BT_NORMAL_RETRY_LIMIT :: int where "BT_NORMAL_RETRY_LIMIT \<equiv> 2"
abbreviation (input) BT_RESET_DELAY :: int where "BT_RESET_DELAY \<equiv> 6"

record 'd bt_data =
  bt_state :: bt_states
  bt_seq :: u8
  bt_dev :: 'd
  bt_write_data :: "u8 list"
  bt_write_count :: int
  bt_read_data :: "u8 list"
  bt_read_count :: int
  bt_truncated :: bool
  bt_timeout :: int
  bt_error_retries :: int
  bt_nonzero_status :: u32
  bt_complete :: bt_states
  BT_CAP_outreqs :: int
  BT_CAP_req2rsp :: int
  BT_CAP_retries :: int

abbreviation (input) BT_CLR_WR_PTR :: u8 where "BT_CLR_WR_PTR \<equiv> 0x01"
abbreviation (input) BT_CLR_RD_PTR :: u8 where "BT_CLR_RD_PTR \<equiv> 0x02"
abbreviation (input) BT_H2B_ATN :: u8 where "BT_H2B_ATN \<equiv> 0x04"
abbreviation (input) BT_B2H_ATN :: u8 where "BT_B2H_ATN \<equiv> 0x08"
abbreviation (input) BT_SMS_ATN :: u8 where "BT_SMS_ATN \<equiv> 0x10"
abbreviation (input) BT_H_BUSY :: u8 where "BT_H_BUSY \<equiv> 0x40"
abbreviation (input) BT_B_BUSY :: u8 where "BT_B_BUSY \<equiv> 0x80"
abbreviation (input) BT_BMC_HWRST :: u8 where "BT_BMC_HWRST \<equiv> 0x80"

section \<open>Register access\<close>

definition BT_STATUS :: "'d si_sm_io \<Rightarrow> 'd \<Rightarrow> u8 \<times> 'd" where
  "BT_STATUS io d = inputb io d 0"

definition BT_CONTROL :: "'d si_sm_io \<Rightarrow> u8 \<Rightarrow> 'd \<Rightarrow> 'd" where
  "BT_CONTROL io x d = outputb io d 0 x"

definition BMC2HOST :: "'d si_sm_io \<Rightarrow> 'd \<Rightarrow> u8 \<times> 'd" where
  "BMC2HOST io d = inputb io d 1"

definition HOST2BMC :: "'d si_sm_io \<Rightarrow> u8 \<Rightarrow> 'd \<Rightarrow> 'd" where
  "HOST2BMC io x d = outputb io d 1 x"

definition BT_INTMASK_R :: "'d si_sm_io \<Rightarrow> 'd \<Rightarrow> u8 \<times> 'd" where
  "BT_INTMASK_R io d = inputb io d 2"

definition BT_INTMASK_W :: "'d si_sm_io \<Rightarrow> u8 \<Rightarrow> 'd \<Rightarrow> 'd" where
  "BT_INTMASK_W io x d = outputb io d 2 x"

section \<open>Initialisation, requests and results\<close>

text \<open>\<open>memset\<close> clears the whole structure, \<open>seq\<close> and \<open>io\<close> included, before \<open>bt->io\<close> is compared
  with \<open>io\<close>; the device stays the one \<open>io\<close> leads to.\<close>

definition bt_init_data :: "'d bt_data \<Rightarrow> 'd bt_data" where
  "bt_init_data bt = \<lparr>bt_state = BT_STATE_IDLE, bt_seq = 0, bt_dev = bt_dev bt,
     bt_write_data = replicate IPMI_MAX_MSG_LENGTH 0, bt_write_count = 0,
     bt_read_data = replicate IPMI_MAX_MSG_LENGTH 0, bt_read_count = 0, bt_truncated = False,
     bt_timeout = 0, bt_error_retries = 0, bt_nonzero_status = 0, bt_complete = BT_STATE_IDLE,
     BT_CAP_outreqs = 0, BT_CAP_req2rsp = BT_NORMAL_TIMEOUT * 1000000,
     BT_CAP_retries = BT_NORMAL_RETRY_LIMIT\<rparr>"

definition force_result :: "'d bt_data \<Rightarrow> u8 \<Rightarrow> 'd bt_data option" where
  "force_result bt completion_code = do {
     w1 \<leftarrow> buf_get (bt_write_data bt) 1;
     w2 \<leftarrow> buf_get (bt_write_data bt) 2;
     w3 \<leftarrow> buf_get (bt_write_data bt) 3;
     rd \<leftarrow> blit (bt_read_data bt) 0 [4, w1 OR 4, w2, w3, completion_code];
     Some (bt\<lparr>bt_read_data := rd, bt_read_count := 5\<rparr>) }"

definition bt_start_transaction :: "'d bt_data \<Rightarrow> u8 list \<Rightarrow> (u8 \<times> 'd bt_data) option" where
  "bt_start_transaction bt data =
     (let size = length data in
      if size < 2 then Some (IPMI_REQ_LEN_INVALID_ERR, bt)
      else if size > IPMI_MAX_MSG_LENGTH then Some (IPMI_REQ_LEN_EXCEEDED_ERR, bt)
      else if bt_state bt = BT_STATE_LONG_BUSY then Some (IPMI_NODE_BUSY_ERR, bt)
      else if bt_state bt \<noteq> BT_STATE_IDLE then Some (IPMI_NOT_IN_MY_STATE_ERR, bt)
      else do {
        wd \<leftarrow> blit (bt_write_data bt) 0 [of_nat (size + 1), hd data, bt_seq bt];
        wd' \<leftarrow> blit wd 3 (tl data);
        bt1 \<leftarrow> force_result (bt\<lparr>bt_write_data := wd', bt_seq := bt_seq bt + 1,
          bt_write_count := int size + 2, bt_error_retries := 0, bt_nonzero_status := 0,
          bt_truncated := False, bt_state := BT_STATE_XACTION_START,
          bt_timeout := BT_CAP_req2rsp bt\<rparr>) IPMI_ERR_UNSPECIFIED;
        Some (0, bt1) })"

definition bt_get_result :: "'d bt_data \<Rightarrow> u8 list \<Rightarrow> (int \<times> u8 list \<times> 'd bt_data) option" where
  "bt_get_result bt data = do {
     let msg_len = bt_read_count bt - 2;
     let bad = (msg_len < 3 \<or> msg_len > int IPMI_MAX_MSG_LENGTH);
     bt1 \<leftarrow> (if bad then force_result bt IPMI_ERR_UNSPECIFIED else Some bt);
     let msg_len1 = (if bad then 3 else msg_len);
     r1 \<leftarrow> buf_get (bt_read_data bt1) 1;
     r3 \<leftarrow> buf_get (bt_read_data bt1) 3;
     d1 \<leftarrow> blit data 0 [r1, r3];
     if int (length data) < msg_len1 \<or> bt_truncated bt1 then do {
       d2 \<leftarrow> buf_set d1 2 IPMI_ERR_MSG_TRUNCATED;
       Some (3, d2, bt1) }
     else if length (bt_read_data bt1) < 4 + nat (msg_len1 - 2) then None
     else do {
       d2 \<leftarrow> blit d1 2 (take (nat (msg_len1 - 2)) (drop 4 (bt_read_data bt1)));
       Some (msg_len1, d2, bt1) } }"

section \<open>Traffic with the BMC\<close>

definition reset_flags :: "'d si_sm_io \<Rightarrow> 'd \<Rightarrow> 'd" where
  "reset_flags io d =
     (case BT_STATUS io d of (status, d1) \<Rightarrow>
      let d2 = (if flag status BT_H_BUSY then BT_CONTROL io BT_H_BUSY d1 else d1) in
      BT_INTMASK_W io BT_BMC_HWRST (BT_CONTROL io BT_SMS_ATN (BT_CONTROL io BT_CLR_WR_PTR d2)))"

fun bt_discard :: "'d si_sm_io \<Rightarrow> nat \<Rightarrow> 'd \<Rightarrow> 'd" where
  "bt_discard io 0 d = d"
| "bt_discard io (Suc n) d = bt_discard io n (snd (BMC2HOST io d))"

definition drain_BMC2HOST :: "'d si_sm_io \<Rightarrow> 'd \<Rightarrow> 'd" where
  "drain_BMC2HOST io d =
     (case BT_STATUS io d of (status, d1) \<Rightarrow>
      if \<not> flag status BT_B2H_ATN then d1
      else let d2 = BT_CONTROL io BT_B2H_ATN (BT_CONTROL io BT_H_BUSY d1);
               d3 = snd (BT_STATUS io d2);
               d4 = BT_CONTROL io BT_CLR_RD_PTR (BT_CONTROL io BT_B2H_ATN d3) in
        case BMC2HOST io d4 of (sz, d5) \<Rightarrow>
        BT_CONTROL io BT_H_BUSY (bt_discard io (unat sz) d5))"

text \<open>\<open>for (i = 0; i < write_count; i++) HOST2BMC(write_data[i])\<close>\<close>

fun write_bytes :: "'d si_sm_io \<Rightarrow> u8 list \<Rightarrow> nat \<Rightarrow> nat \<Rightarrow> 'd \<Rightarrow> 'd option" where
  "write_bytes io wd i 0 d = Some d"
| "write_bytes io wd i (Suc n) d = do {
     b \<leftarrow> buf_get wd (int i);
     write_bytes io wd (Suc i) n (HOST2BMC io b d) }"

definition write_all_bytes :: "'d si_sm_io \<Rightarrow> 'd bt_data \<Rightarrow> 'd option" where
  "write_all_bytes io bt = write_bytes io (bt_write_data bt) 0 (nat (bt_write_count bt)) (bt_dev bt)"

text \<open>
  \<open>for (i = 1; i <= read_count; i++) read_data[i] = BMC2HOST\<close>, where \<open>i\<close> is an
  \<open>unsigned char\<close> and \<open>read_count\<close> an \<open>int\<close>. A loop that does not end is \<^term>\<open>None\<close>.
\<close>

partial_function (option) read_bytes ::
  "'d si_sm_io \<Rightarrow> int \<Rightarrow> u8 \<Rightarrow> u8 list \<Rightarrow> 'd \<Rightarrow> (u8 list \<times> 'd) option" where
  "read_bytes io cnt i rd d =
     (if uint i \<le> cnt then
        (case BMC2HOST io d of (b, d1) \<Rightarrow>
         Option.bind (buf_set rd (uint i) b) (\<lambda>rd1. read_bytes io cnt (i + 1) rd1 d1))
      else Some (rd, d))"

definition read_all_bytes :: "'d si_sm_io \<Rightarrow> 'd bt_data \<Rightarrow> (bool \<times> 'd bt_data) option" where
  "read_all_bytes io bt =
     (case BMC2HOST io (bt_dev bt) of (len, d1) \<Rightarrow> do {
       rd \<leftarrow> buf_set (bt_read_data bt) 0 len;
       let cnt = uint len;
       if cnt < 4 \<or> cnt \<ge> int IPMI_MAX_MSG_LENGTH
       then Some (True, bt\<lparr>bt_dev := d1, bt_read_data := rd, bt_read_count := cnt, bt_truncated := True\<rparr>)
       else do {
         (rd1, d2) \<leftarrow> read_bytes io cnt 1 rd d1;
         r1 \<leftarrow> buf_get rd1 1; r2 \<leftarrow> buf_get rd1 2; r3 \<leftarrow> buf_get rd1 3;
         w1 \<leftarrow> buf_get (bt_write_data bt) 1; w2 \<leftarrow> buf_get (bt_write_data bt) 2;
         w3 \<leftarrow> buf_get (bt_write_data bt) 3;
         Some (r3 = w3 \<and> r2 = w2 \<and> r1 AND 0xF8 = w1 AND 0xF8,
               bt\<lparr>bt_dev := d2, bt_read_data := rd1, bt_read_count := cnt + 1\<rparr>) } })"

definition error_recovery :: "'d bt_data \<Rightarrow> u8 \<Rightarrow> u8 \<Rightarrow> (si_sm_result \<times> 'd bt_data) option" where
  "error_recovery bt status cCode =
     (let bt1 = bt\<lparr>bt_timeout := BT_CAP_req2rsp bt, bt_error_retries := bt_error_retries bt + 1\<rparr> in
      if bt_error_retries bt1 < BT_CAP_retries bt1
      then Some (SI_SM_CALL_WITHOUT_DELAY, bt1\<lparr>bt_state := BT_STATE_RESTART\<rparr>)
      else if bt_nonzero_status bt1 \<noteq> 0 \<and> bt_seq bt1 \<le> of_int (BT_CAP_retries bt1)
      then Some (SI_SM_CALL_WITHOUT_DELAY, bt1\<lparr>bt_state := BT_STATE_RESET1\<rparr>)
      else let busy = (cCode = IPMI_TIMEOUT_ERR \<and> flag status BT_B_BUSY);
               code = (if busy then IPMI_NODE_BUSY_ERR else cCode);
               st = (if busy then BT_STATE_LONG_BUSY else BT_STATE_IDLE) in do {
        bt2 \<leftarrow> force_result (bt1\<lparr>bt_state := st\<rparr>) code;
        Some (SI_SM_TRANSACTION_COMPLETE, bt2) })"

section \<open>The event handler\<close>

type_synonym 'd bt_ret = "(si_sm_result \<times> 'd bt_data) option"

definition bt_ev_idle :: "'d si_sm_io \<Rightarrow> u8 \<Rightarrow> 'd bt_data \<Rightarrow> 'd bt_ret" where
  "bt_ev_idle io status bt =
     (if flag status BT_SMS_ATN
      then Some (SI_SM_ATTN, bt\<lparr>bt_dev := BT_CONTROL io BT_SMS_ATN (bt_dev bt)\<rparr>)
      else let bt1 = (if flag status BT_H_BUSY
                      then bt\<lparr>bt_dev := BT_CONTROL io BT_H_BUSY (bt_dev bt)\<rparr> else bt) in
        if BT_CAP_outreqs bt1 = 0
        then Some (SI_SM_CALL_WITHOUT_DELAY, bt1\<lparr>bt_state := BT_STATE_CAPABILITIES_BEGIN\<rparr>)
        else Some (SI_SM_IDLE, bt1\<lparr>bt_timeout := BT_CAP_req2rsp bt1\<rparr>))"

definition bt_ev_xaction_start :: "'d si_sm_io \<Rightarrow> u8 \<Rightarrow> 'd bt_data \<Rightarrow> 'd bt_ret" where
  "bt_ev_xaction_start io status bt =
     (if flag status (BT_B_BUSY OR BT_H2B_ATN) then Some (SI_SM_CALL_WITH_DELAY, bt)
      else case BT_STATUS io (bt_dev bt) of (status1, d1) \<Rightarrow>
        let d2 = (if flag status1 BT_H_BUSY then BT_CONTROL io BT_H_BUSY d1 else d1) in
        Some (SI_SM_CALL_WITHOUT_DELAY, bt\<lparr>bt_dev := d2, bt_state := BT_STATE_WRITE_BYTES\<rparr>))"

definition bt_ev_write_bytes :: "'d si_sm_io \<Rightarrow> u8 \<Rightarrow> 'd bt_data \<Rightarrow> 'd bt_ret" where
  "bt_ev_write_bytes io status bt =
     (let d1 = (if flag status BT_H_BUSY then BT_CONTROL io BT_H_BUSY (bt_dev bt) else bt_dev bt) in do {
      d2 \<leftarrow> write_all_bytes io (bt\<lparr>bt_dev := BT_CONTROL io BT_CLR_WR_PTR d1\<rparr>);
      Some (SI_SM_CALL_WITHOUT_DELAY,
        bt\<lparr>bt_dev := BT_CONTROL io BT_H2B_ATN d2, bt_state := BT_STATE_WRITE_CONSUME\<rparr>) })"

definition bt_ev_write_consume :: "u8 \<Rightarrow> 'd bt_data \<Rightarrow> 'd bt_ret" where
  "bt_ev_write_consume status bt =
     (if flag status (BT_B_BUSY OR BT_H2B_ATN) then Some (SI_SM_CALL_WITH_DELAY, bt)
      else Some (SI_SM_CALL_WITHOUT_DELAY, bt\<lparr>bt_state := BT_STATE_READ_WAIT\<rparr>))"

definition bt_ev_read_wait :: "'d si_sm_io \<Rightarrow> u8 \<Rightarrow> 'd bt_data \<Rightarrow> 'd bt_ret" where
  "bt_ev_read_wait io status bt =
     (if \<not> flag status BT_B2H_ATN then Some (SI_SM_CALL_WITH_DELAY, bt)
      else Some (SI_SM_CALL_WITHOUT_DELAY,
        bt\<lparr>bt_dev := BT_CONTROL io BT_B2H_ATN (BT_CONTROL io BT_H_BUSY (bt_dev bt)),
           bt_state := BT_STATE_CLEAR_B2H\<rparr>))"

definition bt_ev_clear_b2h :: "'d si_sm_io \<Rightarrow> u8 \<Rightarrow> 'd bt_data \<Rightarrow> 'd bt_ret" where
  "bt_ev_clear_b2h io status bt =
     (if flag status BT_B2H_ATN
      then Some (SI_SM_CALL_WITH_DELAY, bt\<lparr>bt_dev := BT_CONTROL io BT_B2H_ATN (bt_dev bt)\<rparr>)
      else Some (SI_SM_CALL_WITHOUT_DELAY, bt\<lparr>bt_state := BT_STATE_READ_BYTES\<rparr>))"

definition bt_ev_read_bytes :: "'d si_sm_io \<Rightarrow> u8 \<Rightarrow> 'd bt_data \<Rightarrow> 'd bt_ret" where
  "bt_ev_read_bytes io status bt =
     (let d1 = (if \<not> flag status BT_H_BUSY then BT_CONTROL io BT_H_BUSY (bt_dev bt) else bt_dev bt) in do {
      (i, bt1) \<leftarrow> read_all_bytes io (bt\<lparr>bt_dev := BT_CONTROL io BT_CLR_RD_PTR d1\<rparr>);
      let bt2 = bt1\<lparr>bt_dev := BT_CONTROL io BT_H_BUSY (bt_dev bt1)\<rparr>;
      if \<not> i then Some (SI_SM_CALL_WITHOUT_DELAY, bt2\<lparr>bt_state := BT_STATE_READ_WAIT\<rparr>)
      else Some (if bt_complete bt2 = BT_STATE_IDLE then SI_SM_TRANSACTION_COMPLETE
                 else SI_SM_CALL_WITHOUT_DELAY, bt2\<lparr>bt_state := bt_complete bt2\<rparr>) })"

definition bt_ev_long_busy :: "'d si_sm_io \<Rightarrow> u8 \<Rightarrow> 'd bt_data \<Rightarrow> 'd bt_ret" where
  "bt_ev_long_busy io status bt =
     Some (SI_SM_CALL_WITH_DELAY,
       if \<not> flag status BT_B_BUSY then bt_init_data (bt\<lparr>bt_dev := reset_flags io (bt_dev bt)\<rparr>) else bt)"

definition bt_ev_reset1 :: "'d si_sm_io \<Rightarrow> 'd bt_data \<Rightarrow> 'd bt_ret" where
  "bt_ev_reset1 io bt = Some (SI_SM_CALL_WITH_DELAY,
     bt\<lparr>bt_dev := drain_BMC2HOST io (reset_flags io (bt_dev bt)), bt_state := BT_STATE_RESET2\<rparr>)"

definition bt_ev_reset2 :: "'d si_sm_io \<Rightarrow> 'd bt_data \<Rightarrow> 'd bt_ret" where
  "bt_ev_reset2 io bt =
     (let d1 = BT_CONTROL io BT_CLR_WR_PTR (bt_dev bt);
          d2 = HOST2BMC io 3 (HOST2BMC io 42 (HOST2BMC io 0x18 (HOST2BMC io 3 d1))) in
      Some (SI_SM_CALL_WITH_DELAY,
        bt\<lparr>bt_dev := BT_CONTROL io BT_H2B_ATN d2, bt_timeout := BT_RESET_DELAY * 1000000,
           bt_state := BT_STATE_RESET3\<rparr>))"

definition bt_ev_reset3 :: "'d si_sm_io \<Rightarrow> 'd bt_data \<Rightarrow> 'd bt_ret" where
  "bt_ev_reset3 io bt =
     (if bt_timeout bt > 0 then Some (SI_SM_CALL_WITH_DELAY, bt)
      else Some (SI_SM_CALL_WITH_DELAY,
        bt\<lparr>bt_dev := drain_BMC2HOST io (bt_dev bt), bt_state := BT_STATE_RESTART\<rparr>))"

definition bt_ev_restart :: "'d bt_data \<Rightarrow> 'd bt_ret" where
  "bt_ev_restart bt = Some (SI_SM_CALL_WITH_DELAY,
     bt\<lparr>bt_read_count := 0, bt_nonzero_status := 0, bt_timeout := BT_CAP_req2rsp bt,
        bt_state := BT_STATE_XACTION_START\<rparr>)"

definition bt_ev_capabilities_begin :: "'d bt_data \<Rightarrow> 'd bt_ret" where
  "bt_ev_capabilities_begin bt = do {
     (c, bt1) \<leftarrow> bt_start_transaction (bt\<lparr>BT_CAP_outreqs := 1, bt_state := BT_STATE_IDLE\<rparr>) [0x18, 0x36];
     Some (SI_SM_CALL_WITH_DELAY,
       bt1\<lparr>bt_complete := BT_STATE_CAPABILITIES_END, bt_state := BT_STATE_XACTION_START\<rparr>) }"

text \<open>The local array \<open>BT_CAP\<close> is uninitialised; the model starts it with zeros, and the code
  reads it only when \<open>bt_get_result\<close> has filled all eight bytes.\<close>

definition bt_ev_capabilities_end :: "'d bt_data \<Rightarrow> 'd bt_ret" where
  "bt_ev_capabilities_end bt = do {
     (i, cap, bt1) \<leftarrow> bt_get_result bt (replicate 8 0);
     let bt2 = bt_init_data bt1;
     let bt3 = (if i = 8 \<and> cap ! 2 = 0
       then bt2\<lparr>BT_CAP_outreqs := uint (cap ! 3), BT_CAP_req2rsp := uint (cap ! 6) * 1000000,
                BT_CAP_retries := uint (cap ! 7)\<rparr>
       else bt2);
     let bt4 = (if BT_CAP_outreqs bt3 = 0 then bt3\<lparr>BT_CAP_outreqs := 1\<rparr> else bt3);
     Some (SI_SM_CALL_WITHOUT_DELAY, bt4\<lparr>bt_timeout := BT_CAP_req2rsp bt4\<rparr>) }"

definition bt_ev_switch :: "'d si_sm_io \<Rightarrow> u8 \<Rightarrow> 'd bt_data \<Rightarrow> 'd bt_ret" where
  "bt_ev_switch io status bt =
     (case bt_state bt of
        BT_STATE_IDLE \<Rightarrow> bt_ev_idle io status bt
      | BT_STATE_XACTION_START \<Rightarrow> bt_ev_xaction_start io status bt
      | BT_STATE_WRITE_BYTES \<Rightarrow> bt_ev_write_bytes io status bt
      | BT_STATE_WRITE_CONSUME \<Rightarrow> bt_ev_write_consume status bt
      | BT_STATE_READ_WAIT \<Rightarrow> bt_ev_read_wait io status bt
      | BT_STATE_CLEAR_B2H \<Rightarrow> bt_ev_clear_b2h io status bt
      | BT_STATE_READ_BYTES \<Rightarrow> bt_ev_read_bytes io status bt
      | BT_STATE_LONG_BUSY \<Rightarrow> bt_ev_long_busy io status bt
      | BT_STATE_RESET1 \<Rightarrow> bt_ev_reset1 io bt
      | BT_STATE_RESET2 \<Rightarrow> bt_ev_reset2 io bt
      | BT_STATE_RESET3 \<Rightarrow> bt_ev_reset3 io bt
      | BT_STATE_RESTART \<Rightarrow> bt_ev_restart bt
      | BT_STATE_CAPABILITIES_BEGIN \<Rightarrow> bt_ev_capabilities_begin bt
      | BT_STATE_CAPABILITIES_END \<Rightarrow> bt_ev_capabilities_end bt
      | BT_STATE_PRINTME \<Rightarrow> error_recovery bt status IPMI_ERR_UNSPECIFIED)"

definition bt_event :: "'d si_sm_io \<Rightarrow> 'd bt_data \<Rightarrow> int \<Rightarrow> u64 \<Rightarrow> 'd bt_ret" where
  "bt_event io bt time jiffies =
     (case BT_STATUS io (bt_dev bt) of (status, d) \<Rightarrow>
      let bt1 = bt\<lparr>bt_dev := d, bt_nonzero_status := bt_nonzero_status bt OR ucast status\<rparr> in
      if bt_state bt1 < BT_STATE_WRITE_BYTES \<and> flag status BT_B2H_ATN
      then Some (SI_SM_CALL_WITH_DELAY, bt1\<lparr>bt_dev := drain_BMC2HOST io (bt_dev bt1)\<rparr>)
      else if bt_state bt1 \<noteq> BT_STATE_IDLE \<and> bt_state bt1 < BT_STATE_PRINTME then
        (let bt2 = bt1\<lparr>bt_timeout := bt_timeout bt1 - time\<rparr> in
         if bt_timeout bt2 < 0 \<and> bt_state bt2 < BT_STATE_RESET1
         then error_recovery bt2 status IPMI_TIMEOUT_ERR
         else bt_ev_switch io status bt2)
      else bt_ev_switch io status bt1)"

definition bt_detect :: "'d si_sm_io \<Rightarrow> 'd bt_data \<Rightarrow> int \<times> 'd bt_data" where
  "bt_detect io bt =
     (case BT_STATUS io (bt_dev bt) of (s, d1) \<Rightarrow>
      if s = 0xFF then
        (case BT_INTMASK_R io d1 of (m, d2) \<Rightarrow>
         if m = 0xFF then (1, bt\<lparr>bt_dev := d2\<rparr>) else (0, bt\<lparr>bt_dev := reset_flags io d2\<rparr>))
      else (0, bt\<lparr>bt_dev := reset_flags io d1\<rparr>))"

definition bt_smi_handlers :: "'d si_sm_io \<Rightarrow> 'd bt_data si_sm_handlers" where
  "bt_smi_handlers io = \<lparr>init_data = bt_init_data, start_transaction = bt_start_transaction,
     get_result = bt_get_result, event = bt_event io, detect = bt_detect io\<rparr>"

section \<open>The invariant\<close>

definition bt_inv :: "'d bt_data \<Rightarrow> bool" where
  "bt_inv bt \<longleftrightarrow> length (bt_write_data bt) = IPMI_MAX_MSG_LENGTH \<and>
     length (bt_read_data bt) = IPMI_MAX_MSG_LENGTH \<and>
     0 \<le> bt_write_count bt \<and> bt_write_count bt \<le> int IPMI_MAX_MSG_LENGTH \<and>
     0 \<le> bt_read_count bt \<and> bt_read_count bt \<le> int IPMI_MAX_MSG_LENGTH"

text \<open>What the read loop relies on: the length byte, the first one read after the read pointer
  of the BMC is cleared, is not 255.\<close>

definition bt_len_ok :: "'d si_sm_io \<Rightarrow> bool" where
  "bt_len_ok io \<longleftrightarrow> (\<forall>d. fst (BMC2HOST io (BT_CONTROL io BT_CLR_RD_PTR d)) \<noteq> 255)"

lemma bt_inv_frame [simp]:
  "bt_inv (bt\<lparr>bt_dev := d\<rparr>) = bt_inv bt"
  "bt_inv (bt\<lparr>bt_state := st\<rparr>) = bt_inv bt"
  "bt_inv (bt\<lparr>bt_timeout := t\<rparr>) = bt_inv bt"
  "bt_inv (bt\<lparr>bt_error_retries := n\<rparr>) = bt_inv bt"
  "bt_inv (bt\<lparr>bt_nonzero_status := z\<rparr>) = bt_inv bt"
  "bt_inv (bt\<lparr>bt_complete := st\<rparr>) = bt_inv bt"
  "bt_inv (bt\<lparr>BT_CAP_outreqs := n\<rparr>) = bt_inv bt"
  "bt_inv (bt\<lparr>BT_CAP_req2rsp := n\<rparr>) = bt_inv bt"
  "bt_inv (bt\<lparr>BT_CAP_retries := n\<rparr>) = bt_inv bt"
  by (simp_all add: bt_inv_def)

lemma bt_init_data_inv [simp]: "bt_inv (bt_init_data bt)"
  by (simp add: bt_inv_def bt_init_data_def)

lemma force_result_eq:
  assumes "bt_inv bt"
  shows "force_result bt c = Some (bt\<lparr>bt_read_data := [4, bt_write_data bt ! 1 OR 4, bt_write_data bt ! 2,
      bt_write_data bt ! 3, c] @ drop 5 (bt_read_data bt), bt_read_count := 5\<rparr>)"
  using assms by (simp add: force_result_def bt_inv_def buf_simps IPMI_MAX_MSG_LENGTH_def numeral_eq_Suc)

lemma force_result_inv: "bt_inv bt \<Longrightarrow> \<exists>bt'. force_result bt c = Some bt' \<and> bt_inv bt'"
  by (simp add: force_result_eq) (simp add: bt_inv_def IPMI_MAX_MSG_LENGTH_def)

lemma write_bytes_log:
  "i + n \<le> length wd \<Longrightarrow>
   write_bytes io wd i n d = Some (foldl (\<lambda>e b. HOST2BMC io b e) d (take n (drop i wd)))"
proof (induction n arbitrary: i d)
  case (Suc n)
  then have "take (Suc n) (drop i wd) = wd ! i # take n (drop (Suc i) wd)"
    by (simp add: Cons_nth_drop_Suc [symmetric])
  with Suc show ?case by (simp add: buf_simps)
qed simp

section \<open>The read loop\<close>

fun bmc_bytes :: "'d si_sm_io \<Rightarrow> nat \<Rightarrow> 'd \<Rightarrow> u8 list \<times> 'd" where
  "bmc_bytes io 0 d = ([], d)"
| "bmc_bytes io (Suc n) d =
     (case BMC2HOST io d of (b, d1) \<Rightarrow> case bmc_bytes io n d1 of (bs, d2) \<Rightarrow> (b # bs, d2))"

lemma bmc_bytes_length: "length (fst (bmc_bytes io n d)) = n"
  by (induction n arbitrary: d) (auto simp: split_beta)

text \<open>With a count below 255 the loop reads that many bytes in order behind the length byte.\<close>

lemma read_bytes_loop:
  assumes "k + n \<le> 255" "n + k \<le> length rd"
  shows "read_bytes io (int k + int n - 1) (of_nat k) rd d =
    Some (take k rd @ fst (bmc_bytes io n d) @ drop (k + n) rd, snd (bmc_bytes io n d))"
  using assms
proof (induction n arbitrary: k rd d)
  case 0
  have "uint (of_nat k :: u8) = int k" using 0 by (simp add: unsigned_of_nat take_bit_nat_eq_self)
  then show ?case by (subst read_bytes.simps) simp
next
  case (Suc n)
  obtain b d1 where b: "BMC2HOST io d = (b, d1)" by fastforce
  have k: "uint (of_nat k :: u8) = int k" using Suc.prems by (simp add: unsigned_of_nat take_bit_nat_eq_self)
  have "read_bytes io (int k + int (Suc n) - 1) (of_nat k) rd d =
      read_bytes io (int (Suc k) + int n - 1) (of_nat (Suc k)) (rd[k := b]) d1"
    using Suc.prems b k by (subst read_bytes.simps) (simp add: buf_simps algebra_simps)
  moreover have "take (Suc k) (rd[k := b]) = take k rd @ [b]"
    using Suc.prems by (simp add: take_Suc_conv_app_nth)
  ultimately show ?case using Suc.IH [of "Suc k" "rd[k := b]" d1] Suc.prems b
    by (simp add: split_beta)
qed

corollary read_bytes_all:
  assumes "n \<le> 254" "n < length rd"
  shows "read_bytes io (int n) 1 rd d =
    Some (take 1 rd @ fst (bmc_bytes io n d) @ drop (Suc n) rd, snd (bmc_bytes io n d))"
  using read_bytes_loop [of 1 n rd io d] assms by simp

text \<open>With a count of 255 it never leaves the loop.\<close>

lemma read_bytes_ends:
  assumes "read_bytes io cnt i rd d = Some y" shows "cnt < 255"
  using assms
proof (rule read_bytes.raw_induct [where P = "\<lambda>io cnt i rd d y. cnt < 255", rotated])
  fix f :: "'d si_sm_io \<Rightarrow> int \<Rightarrow> u8 \<Rightarrow> u8 list \<Rightarrow> 'd \<Rightarrow> (u8 list \<times> 'd) option"
    and io cnt i rd d y
  assume "\<And>io cnt i rd d y. f io cnt i rd d = Some y \<Longrightarrow> cnt < 255"
    and "(if uint i \<le> cnt then case BMC2HOST io d of
      (b, d1) \<Rightarrow> buf_set rd (uint i) b \<bind> (\<lambda>rd1. f io cnt (i + 1) rd1 d1) else Some (rd, d)) = Some y"
  then show "cnt < 255"
    using uint_lt2p [of i] by (cases y) (fastforce simp: split_beta bind_eq_Some_conv split: if_splits)
qed

lemma read_all_bytes_inv:
  assumes "bt_inv bt" "fst (BMC2HOST io (bt_dev bt)) \<noteq> 255"
  shows "\<exists>i bt'. read_all_bytes io bt = Some (i, bt') \<and> bt_inv bt' \<and> bt_complete bt' = bt_complete bt"
proof -
  obtain len d1 where len: "BMC2HOST io (bt_dev bt) = (len, d1)" by fastforce
  let ?rd = "(bt_read_data bt)[0 := len]"
  have rd: "buf_set (bt_read_data bt) 0 len = Some ?rd" "length ?rd = 272"
    using assms(1) by (simp_all add: bt_inv_def buf_simps IPMI_MAX_MSG_LENGTH_def)
  have "unat len \<noteq> 255" using assms(2) len unat_eq_numeral_u8 [of 255 len] by auto
  then have cnt: "unat len \<le> 254" using unat_u8_bound [of len] by simp
  have loop: "read_bytes io (uint len) 1 ?rd d1 =
      Some (take 1 ?rd @ fst (bmc_bytes io (unat len) d1) @ drop (Suc (unat len)) ?rd,
        snd (bmc_bytes io (unat len) d1))"
    using read_bytes_all [OF cnt, of ?rd io d1] cnt rd(2) by (simp only: uint_nat)
  show ?thesis
  proof (cases "uint len < 4")
    case True
    then show ?thesis using assms(1) len rd
      by (auto simp: read_all_bytes_def bt_inv_def IPMI_MAX_MSG_LENGTH_def)
  next
    case False
    have "uint len \<le> 254" using cnt uint_nat [of len] by linarith
    with False show ?thesis using assms(1) len rd loop cnt
      by (simp add: read_all_bytes_def bt_inv_def IPMI_MAX_MSG_LENGTH_def buf_simps bmc_bytes_length)
  qed
qed

section \<open>The operations keep the invariant\<close>

definition bt_ret_ok :: "'d bt_ret \<Rightarrow> bool" where
  "bt_ret_ok x \<longleftrightarrow> (\<exists>r bt. x = Some (r, bt) \<and> bt_inv bt)"

lemma bt_ret_ok_Some [simp]: "bt_ret_ok (Some (r, bt)) = bt_inv bt"
  by (simp add: bt_ret_ok_def)

lemma error_recovery_ok:
  assumes "bt_inv bt" shows "bt_ret_ok (error_recovery bt status c)"
proof -
  have "\<exists>bt'. force_result (bt\<lparr>bt_timeout := t, bt_error_retries := n, bt_state := st\<rparr>) code = Some bt' \<and> bt_inv bt'"
    for t n st code using assms by (intro force_result_inv) simp
  then show ?thesis using assms
    by (auto simp: error_recovery_def Let_def bt_ret_ok_def) (metis bind.bind_lunit)+
qed

lemma bt_start_transaction_accepted:
  assumes "bt_inv bt" "2 \<le> length data" "length data \<le> 270" "bt_state bt = BT_STATE_IDLE"
  shows "\<exists>bt'. bt_start_transaction bt data = Some (0, bt') \<and> bt_inv bt' \<and>
    bt_state bt' = BT_STATE_XACTION_START \<and> bt_seq bt' = bt_seq bt + 1 \<and>
    bt_dev bt' = bt_dev bt \<and> bt_timeout bt' = BT_CAP_req2rsp bt \<and> bt_complete bt' = bt_complete bt \<and>
    bt_write_count bt' = int (length data) + 2 \<and>
    take (length data + 2) (bt_write_data bt') = of_nat (length data + 1) # hd data # bt_seq bt # tl data"
proof -
  let ?h = "[of_nat (length data + 1), hd data, bt_seq bt]"
  let ?wd = "?h @ drop 3 (bt_write_data bt)"
  let ?wd' = "?h @ tl data @ drop (length data + 2) (bt_write_data bt)"
  let ?b = "bt\<lparr>bt_write_data := ?wd', bt_seq := bt_seq bt + 1,
          bt_write_count := int (length data) + 2, bt_error_retries := 0, bt_nonzero_status := 0,
          bt_truncated := False, bt_state := BT_STATE_XACTION_START, bt_timeout := BT_CAP_req2rsp bt\<rparr>"
  have "blit (bt_write_data bt) 0 ?h = Some ?wd"
    using assms by (intro blit_start) (simp_all add: bt_inv_def IPMI_MAX_MSG_LENGTH_def)
  moreover have "blit ?wd 3 (tl data) = Some ?wd'"
    using assms by (subst blit_append) (simp_all add: bt_inv_def IPMI_MAX_MSG_LENGTH_def add.commute)
  moreover have inv: "bt_inv ?b"
    using assms by (simp add: bt_inv_def IPMI_MAX_MSG_LENGTH_def)
  moreover obtain r where r: "force_result ?b IPMI_ERR_UNSPECIFIED = Some r"
    "r = ?b\<lparr>bt_read_data := bt_read_data r, bt_read_count := 5\<rparr>" "length (bt_read_data r) = 272"
    using inv by (simp only: force_result_eq [OF inv]) (simp add: bt_inv_def IPMI_MAX_MSG_LENGTH_def)
  ultimately have "bt_start_transaction bt data = Some (0, r)"
    using assms(2-4) by (simp only: bt_start_transaction_def Let_def IPMI_MAX_MSG_LENGTH_def) simp
  moreover have "bt_inv r"
    using inv r(3) by (subst r(2)) (simp add: bt_inv_def IPMI_MAX_MSG_LENGTH_def)
  moreover have "take (length data + 2) ?wd' = of_nat (length data + 1) # hd data # bt_seq bt # tl data"
    using assms(2) by (cases data) simp_all
  moreover have "bt_write_data r = ?wd'" "bt_state r = BT_STATE_XACTION_START" "bt_seq r = bt_seq bt + 1"
    "bt_dev r = bt_dev bt" "bt_timeout r = BT_CAP_req2rsp bt" "bt_complete r = bt_complete bt"
    "bt_write_count r = int (length data) + 2"
    by (subst r(2), simp)+
  ultimately show ?thesis by metis
qed

lemma bt_start_transaction_rejected:
  assumes "bt_state bt \<noteq> BT_STATE_IDLE \<or> length data < 2 \<or> length data > 272"
  shows "\<exists>c. bt_start_transaction bt data = Some (c, bt) \<and> c \<noteq> 0"
  using assms by (auto simp: bt_start_transaction_def IPMI_MAX_MSG_LENGTH_def Let_def)

lemma bt_start_transaction_overflow:
  assumes "bt_inv bt" "270 < length data" "length data \<le> 272" "bt_state bt = BT_STATE_IDLE"
  shows "bt_start_transaction bt data = None"
  using assms by (simp add: bt_start_transaction_def IPMI_MAX_MSG_LENGTH_def bt_inv_def blit_def)

lemma bt_start_transaction_ok:
  assumes "bt_inv bt"
  shows "length data \<le> 270 \<Longrightarrow> bt_start_transaction bt data \<noteq> None"
    and "bt_start_transaction bt data = Some (c, bt') \<Longrightarrow> bt_inv bt'"
proof -
  consider "bt_state bt \<noteq> BT_STATE_IDLE \<or> length data < 2 \<or> length data > 272"
    | "bt_state bt = BT_STATE_IDLE" "2 \<le> length data" "length data \<le> 270"
    | "bt_state bt = BT_STATE_IDLE" "270 < length data" "length data \<le> 272" by linarith
  note cases = this
  show "length data \<le> 270 \<Longrightarrow> bt_start_transaction bt data \<noteq> None"
    using cases bt_start_transaction_rejected [of bt data] bt_start_transaction_accepted [OF assms, of data] by auto
  show "bt_start_transaction bt data = Some (c, bt') \<Longrightarrow> bt_inv bt'"
    using cases bt_start_transaction_rejected [of bt data] bt_start_transaction_accepted [OF assms, of data]
      bt_start_transaction_overflow [OF assms, of data] assms by auto
qed

lemma bt_get_result_eq:
  assumes "bt_inv bt" "3 \<le> length data" "5 \<le> bt_read_count bt"
  shows "bt_get_result bt data = (if int (length data) < bt_read_count bt - 2 \<or> bt_truncated bt
     then Some (3, ([bt_read_data bt ! 1, bt_read_data bt ! 3] @ drop 2 data)[2 := IPMI_ERR_MSG_TRUNCATED], bt)
     else Some (bt_read_count bt - 2, [bt_read_data bt ! 1, bt_read_data bt ! 3] @
       take (nat (bt_read_count bt) - 4) (drop 4 (bt_read_data bt)) @ drop (nat (bt_read_count bt) - 2) data, bt))"
proof -
  let ?d1 = "[bt_read_data bt ! 1, bt_read_data bt ! 3] @ drop 2 data"
  let ?n = "nat (bt_read_count bt) - 4"
  have len: "length (bt_read_data bt) = 272" "bt_read_count bt \<le> 272" "\<not> int IPMI_MAX_MSG_LENGTH < bt_read_count bt - 2"
    using assms(1) by (simp_all add: bt_inv_def IPMI_MAX_MSG_LENGTH_def)
  have n: "nat (bt_read_count bt - 2 - 2) = ?n" "\<not> length (bt_read_data bt) < 4 + ?n"
    using assms(3) len by auto
  have "buf_get (bt_read_data bt) 1 = Some (bt_read_data bt ! 1)" "buf_get (bt_read_data bt) 3 = Some (bt_read_data bt ! 3)"
    using len by (simp_all add: buf_simps)
  moreover have "blit data 0 [bt_read_data bt ! 1, bt_read_data bt ! 3] = Some ?d1"
    using assms(2) by (intro blit_start) simp_all
  moreover have "buf_set ?d1 2 c = Some (?d1[2 := c])" for c using assms(2) by (simp add: buf_simps)
  moreover have "blit ?d1 2 (take ?n (drop 4 (bt_read_data bt))) = Some ([bt_read_data bt ! 1, bt_read_data bt ! 3] @
       take ?n (drop 4 (bt_read_data bt)) @ drop (nat (bt_read_count bt) - 2) data)"
    if "\<not> int (length data) < bt_read_count bt - 2"
  proof -
    have "nat (bt_read_count bt) - 2 = 2 + ?n" "?n \<le> length data - 2" "length (take ?n (drop 4 (bt_read_data bt))) = ?n"
      using assms(3) that len by auto
    then show ?thesis by (subst blit_append) (auto simp: add.commute)
  qed
  ultimately show ?thesis
    using assms(3) len(3) n by (simp add: bt_get_result_def del: append.simps)
qed

lemma bt_get_result_short:
  assumes "bt_read_count bt < 5" "force_result bt IPMI_ERR_UNSPECIFIED = Some bt1"
  shows "bt_get_result bt data = bt_get_result bt1 data"
proof -
  have "bt_read_count bt1 = 5" "bt_truncated bt1 = bt_truncated bt"
    using assms(2) by (auto simp: force_result_def bind_eq_Some_conv)
  then show ?thesis using assms by (simp add: bt_get_result_def IPMI_MAX_MSG_LENGTH_def)
qed

lemma bt_get_result_ok:
  assumes "bt_inv bt" "3 \<le> length data"
  shows "\<exists>n data' bt'. bt_get_result bt data = Some (n, data', bt') \<and> bt_inv bt' \<and>
    length data' = length data \<and> 3 \<le> n \<and> n \<le> int (length data)"
proof -
  have enough: "\<exists>n data'. bt_get_result b data = Some (n, data', b) \<and> length data' = length data \<and>
      3 \<le> n \<and> n \<le> int (length data)" if b: "bt_inv b" "5 \<le> bt_read_count b" for b
    using bt_get_result_eq [OF b(1) assms(2) b(2)] assms(2) b by (auto simp: bt_inv_def IPMI_MAX_MSG_LENGTH_def)
  show ?thesis
  proof (cases "bt_read_count bt < 5")
    case True
    obtain bt1 where bt1: "force_result bt IPMI_ERR_UNSPECIFIED = Some bt1" "bt_inv bt1"
      using force_result_inv [OF assms(1)] by blast
    then have "bt_read_count bt1 = 5" by (auto simp: force_result_def bind_eq_Some_conv)
    with True bt1 enough [of bt1] show ?thesis by (auto simp: bt_get_result_short)
  next
    case False
    with assms(1) enough [of bt] show ?thesis by force
  qed
qed

lemma bt_get_result_keeps:
  assumes "bt_inv bt" "bt_get_result bt data = Some (n, data', bt')" shows "bt_inv bt'"
proof -
  have "bt' = bt \<or> force_result bt IPMI_ERR_UNSPECIFIED = Some bt'"
    using assms(2) by (auto simp: bt_get_result_def Let_def bind_eq_Some_conv split: if_splits)
  then show ?thesis using force_result_inv [OF assms(1), of IPMI_ERR_UNSPECIFIED] assms(1) by auto
qed

lemma bt_ev_capabilities_ok:
  assumes "bt_inv bt"
  shows "bt_ret_ok (bt_ev_capabilities_begin bt)" "bt_ret_ok (bt_ev_capabilities_end bt)"
proof -
  obtain bt1 where "bt_start_transaction (bt\<lparr>BT_CAP_outreqs := 1, bt_state := BT_STATE_IDLE\<rparr>) [0x18, 0x36] = Some (0, bt1)"
    "bt_inv bt1"
    using bt_start_transaction_accepted [of "bt\<lparr>BT_CAP_outreqs := 1, bt_state := BT_STATE_IDLE\<rparr>" "[0x18, 0x36]"] assms by auto
  then show "bt_ret_ok (bt_ev_capabilities_begin bt)"
    by (simp add: bt_ev_capabilities_begin_def)
  obtain n cap bt2 where "bt_get_result bt (replicate 8 0) = Some (n, cap, bt2)"
    using bt_get_result_ok [OF assms, of "replicate 8 0"] by auto
  then show "bt_ret_ok (bt_ev_capabilities_end bt)"
    by (simp add: bt_ev_capabilities_end_def Let_def)
qed

lemma bt_ev_write_bytes_ok:
  assumes "bt_inv bt" shows "bt_ret_ok (bt_ev_write_bytes io status bt)"
proof -
  have "0 + nat (bt_write_count bt) \<le> length (bt_write_data bt)"
    using assms by (auto simp: bt_inv_def)
  then show ?thesis using assms
    by (simp only: bt_ev_write_bytes_def Let_def write_all_bytes_def)
      (simp add: write_bytes_log)
qed

lemma bt_ev_read_bytes_ok:
  assumes "bt_inv bt" "bt_len_ok io" shows "bt_ret_ok (bt_ev_read_bytes io status bt)"
proof -
  let ?d = "if \<not> flag status BT_H_BUSY then BT_CONTROL io BT_H_BUSY (bt_dev bt) else bt_dev bt"
  obtain i bt1 where "read_all_bytes io (bt\<lparr>bt_dev := BT_CONTROL io BT_CLR_RD_PTR ?d\<rparr>) = Some (i, bt1)" "bt_inv bt1"
    using read_all_bytes_inv [of "bt\<lparr>bt_dev := BT_CONTROL io BT_CLR_RD_PTR ?d\<rparr>" io] assms
    by (auto simp: bt_len_ok_def)
  then show ?thesis by (simp add: bt_ev_read_bytes_def Let_def)
qed

lemma bt_ev_switch_ok:
  assumes "bt_inv bt" "bt_len_ok io" shows "bt_ret_ok (bt_ev_switch io status bt)"
proof (cases "bt_state bt")
  case BT_STATE_RESTART
  then show ?thesis using assms(1)
    by (simp add: bt_ev_switch_def bt_ev_restart_def) (simp add: bt_inv_def)
qed (use assms in \<open>simp_all add: bt_ev_switch_def bt_ev_idle_def bt_ev_xaction_start_def bt_ev_write_bytes_ok
  bt_ev_write_consume_def bt_ev_read_wait_def bt_ev_clear_b2h_def bt_ev_read_bytes_ok bt_ev_long_busy_def
  bt_ev_reset1_def bt_ev_reset2_def bt_ev_reset3_def bt_ev_capabilities_ok error_recovery_ok Let_def split_beta\<close>)

lemma bt_event_ok:
  assumes "bt_inv bt" "bt_len_ok io" shows "bt_ret_ok (bt_event io bt t j)"
  using assms by (simp add: bt_event_def Let_def split_beta error_recovery_ok bt_ev_switch_ok)

interpretation bt: si_sm_contract "bt_smi_handlers io" "\<lambda>_. True" bt_inv "\<lambda>_. bt_len_ok io" 270 for io
proof (unfold_locales, goal_cases)
  case 1 then show ?case by (simp add: bt_smi_handlers_def)
next
  case 2 then show ?case by (simp add: bt_smi_handlers_def bt_start_transaction_ok)
next
  case 3 then show ?case by (auto simp: bt_smi_handlers_def intro: bt_start_transaction_ok)
next
  case (4 s t j) then show ?case using bt_event_ok [of s io t j] by (auto simp: bt_smi_handlers_def bt_ret_ok_def)
next
  case (5 s t j r s') then show ?case
    using bt_event_ok [of s io t j] by (auto simp: bt_smi_handlers_def bt_ret_ok_def)
next
  case (6 s data) then show ?case using bt_get_result_ok [of s data] by (auto simp: bt_smi_handlers_def)
next
  case (7 s data n data' s') then show ?case by (auto simp: bt_smi_handlers_def intro: bt_get_result_keeps)
qed

section \<open>Responses\<close>

lemma read_all_bytes_eq:
  assumes "bt_inv bt" "BMC2HOST io (bt_dev bt) = (len, d1)" "4 \<le> unat len" "unat len \<le> 254"
    and "bmc_bytes io (unat len) d1 = (bs, d2)"
  shows "read_all_bytes io bt = Some (bs ! 2 = bt_write_data bt ! 3 \<and> bs ! 1 = bt_write_data bt ! 2 \<and>
      bs ! 0 AND 0xF8 = bt_write_data bt ! 1 AND 0xF8,
    bt\<lparr>bt_dev := d2, bt_read_data := len # bs @ drop (Suc (unat len)) (bt_read_data bt),
       bt_read_count := int (unat len) + 1\<rparr>)"
proof -
  let ?rd = "(bt_read_data bt)[0 := len]"
  let ?rd1 = "len # bs @ drop (Suc (unat len)) (bt_read_data bt)"
  have inv: "length (bt_read_data bt) = 272" "length (bt_write_data bt) = 272"
    using assms(1) by (simp_all add: bt_inv_def IPMI_MAX_MSG_LENGTH_def)
  have bs: "length bs = unat len" using bmc_bytes_length [of io "unat len" d1] assms(5) by simp
  then obtain b0 b1 b2 bs' where bs': "bs = b0 # b1 # b2 # bs'"
    using assms(3) by (auto simp: numeral_eq_Suc Suc_le_length_iff dest!: sym [of "length bs"])
  have "take 1 ?rd = [len]" using inv(1) by (cases "bt_read_data bt") simp_all
  then have loop: "read_bytes io (uint len) 1 ?rd d1 = Some (?rd1, d2)"
    using read_bytes_all [OF assms(4), of ?rd io d1] assms(4,5) inv(1) by (simp add: uint_nat [symmetric])
  have "buf_set (bt_read_data bt) 0 len = Some ?rd" using inv by (simp add: buf_simps)
  moreover have "\<not> (uint len < 4 \<or> int IPMI_MAX_MSG_LENGTH \<le> uint len)"
    using assms(3,4) uint_nat [of len] by (simp only: IPMI_MAX_MSG_LENGTH_def) linarith
  moreover have "buf_get ?rd1 1 = Some (bs ! 0)" "buf_get ?rd1 2 = Some (bs ! 1)" "buf_get ?rd1 3 = Some (bs ! 2)"
    by (simp_all add: buf_get_def bs')
  moreover have "buf_get (bt_write_data bt) 1 = Some (bt_write_data bt ! 1)"
    "buf_get (bt_write_data bt) 2 = Some (bt_write_data bt ! 2)"
    "buf_get (bt_write_data bt) 3 = Some (bt_write_data bt ! 3)"
    using inv by (simp_all add: buf_simps)
  ultimately show ?thesis using loop assms(2)
    by (simp only: read_all_bytes_def Let_def) simp
qed

section \<open>Properties\<close>

definition bt_example :: "'d \<Rightarrow> 'd bt_data" where
  "bt_example d = bt_init_data \<lparr>bt_state = BT_STATE_LONG_BUSY, bt_seq = 77, bt_dev = d,
     bt_write_data = [], bt_write_count = 7, bt_read_data = [], bt_read_count = 7,
     bt_truncated = True, bt_timeout = 7, bt_error_retries = 7, bt_nonzero_status = 7,
     bt_complete = BT_STATE_RESET1, BT_CAP_outreqs = 7, BT_CAP_req2rsp = 7, BT_CAP_retries = 7\<rparr>"

lemma bt_example_inv: "bt_inv (bt_example d)"
  by (simp add: bt_example_def)

text \<open>Memory safety and termination of the BT machine under any use, within its limits. With
  requests of at most 270 bytes and a BMC whose length byte is never 255, every sequence of
  handler calls from any memory contents returns, stays inside the machine's buffers and keeps
  its invariant.\<close>

theorem bt_any_calls_safe:
  assumes "bt_len_ok io" "list_all (si_call_ok 270) cs"
  shows "\<exists>bt'. si_run (bt_smi_handlers io) cs (bt_init_data bt) = Some bt' \<and> bt_inv bt'"
  using bt.si_run_from_init [OF TrueI assms, of bt] by (simp add: bt_smi_handlers_def)

theorem bt_any_calls_safe_witness:
  "\<exists>bt'. si_run (bt_smi_handlers (logging_io (\<lambda>_ _. 0x48)))
     [Event 0 0, Start [0x18, 1], Event 5 1, Event 5 2, Get_result [0, 0, 0]]
     (bt_init_data (bt_example [])) = Some bt' \<and> bt_inv bt'"
  by (rule bt_any_calls_safe) (simp_all add: bt_len_ok_def BMC2HOST_def)

text \<open>A BT request on the wire. When the BMC is ready, the two events after an accepted
  request write it as one packet: the write pointer is cleared, the length byte, NetFn/LUN, the
  sequence number, the command and the data follow in order, and the attention bit ends it. The
  sequence number advances by one for every request.\<close>

theorem bt_request_on_wire:
  assumes "bt_inv bt" "2 \<le> length data" "length data \<le> 270" "bt_state bt = BT_STATE_IDLE"
    and "0 \<le> t" "2 * t \<le> BT_CAP_req2rsp bt" "bt_dev bt = []"
  shows "\<exists>bt1 bt2 bt3. bt_start_transaction bt data = Some (0, bt1) \<and> bt_seq bt1 = bt_seq bt + 1 \<and>
    bt_event (logging_io (\<lambda>_ _. 0)) bt1 t j = Some (SI_SM_CALL_WITHOUT_DELAY, bt2) \<and>
    bt_event (logging_io (\<lambda>_ _. 0)) bt2 t j = Some (SI_SM_CALL_WITHOUT_DELAY, bt3) \<and>
    bt_state bt3 = BT_STATE_WRITE_CONSUME \<and>
    bt_dev bt3 = (0, BT_CLR_WR_PTR) #
      map (Pair 1) (of_nat (length data + 1) # hd data # bt_seq bt # tl data) @ [(0, BT_H2B_ATN)]"
proof -
  let ?io = "logging_io (\<lambda>_ _. 0)"
  obtain b1 where b1: "bt_start_transaction bt data = Some (0, b1)" "bt_inv b1"
    "bt_state b1 = BT_STATE_XACTION_START" "bt_seq b1 = bt_seq bt + 1" "bt_dev b1 = []"
    "bt_timeout b1 = BT_CAP_req2rsp bt" "bt_write_count b1 = int (length data) + 2"
    "take (length data + 2) (bt_write_data b1) = of_nat (length data + 1) # hd data # bt_seq bt # tl data"
    using bt_start_transaction_accepted [OF assms(1-4)] assms(7) by auto
  let ?b2 = "b1\<lparr>bt_nonzero_status := bt_nonzero_status b1, bt_timeout := bt_timeout b1 - t,
    bt_state := BT_STATE_WRITE_BYTES\<rparr>"
  have e1: "bt_event ?io b1 t j = Some (SI_SM_CALL_WITHOUT_DELAY, ?b2)"
    using b1(3,5,6) assms(5,6) by (simp add: bt_event_def BT_STATUS_def bt_ev_switch_def
        bt_ev_xaction_start_def flag_def less_bt_states_def Let_def)
  have "foldl (\<lambda>e b. HOST2BMC ?io b e) l bs = l @ map (Pair 1) bs" for l bs
    by (induction bs arbitrary: l) (simp_all add: HOST2BMC_def)
  moreover have "0 + (length data + 2) \<le> length (bt_write_data b1)"
    using b1(2,7) by (simp add: bt_inv_def IPMI_MAX_MSG_LENGTH_def)
  ultimately have w: "write_bytes ?io (bt_write_data b1) 0 (length data + 2) [(0, BT_CLR_WR_PTR)] =
      Some ((0, BT_CLR_WR_PTR) # map (Pair 1) (take (length data + 2) (bt_write_data b1)))"
    by (subst write_bytes_log) simp_all
  have "nat (int (length data) + 2) = length data + 2" by linarith
  with w have "bt_event ?io ?b2 t j = Some (SI_SM_CALL_WITHOUT_DELAY, ?b2\<lparr>bt_timeout := bt_timeout b1 - t - t,
      bt_dev := (0, BT_CLR_WR_PTR) # map (Pair 1) (take (length data + 2) (bt_write_data b1)) @ [(0, BT_H2B_ATN)],
      bt_state := BT_STATE_WRITE_CONSUME\<rparr>)"
    using b1(5,6,7) assms(5,6) by (simp add: bt_event_def BT_STATUS_def bt_ev_switch_def
        bt_ev_write_bytes_def flag_def less_bt_states_def Let_def write_all_bytes_def BT_CONTROL_def
        del: write_bytes.simps)
  with b1 e1 show ?thesis by (simp only: b1(8)) simp
qed

theorem bt_request_on_wire_witness:
  "\<exists>bt1 bt2 bt3. bt_start_transaction (bt_example []) [0x18, 0x36] = Some (0, bt1) \<and> bt_seq bt1 = 1 \<and>
    bt_event (logging_io (\<lambda>_ _. 0)) bt1 100 0 = Some (SI_SM_CALL_WITHOUT_DELAY, bt2) \<and>
    bt_event (logging_io (\<lambda>_ _. 0)) bt2 100 0 = Some (SI_SM_CALL_WITHOUT_DELAY, bt3) \<and>
    bt_state bt3 = BT_STATE_WRITE_CONSUME \<and>
    bt_dev bt3 = [(0, 1), (1, 3), (1, 0x18), (1, 0), (1, 0x36), (0, 4)]"
  using bt_request_on_wire [OF bt_example_inv, of "[0x18, 0x36]" "[]" 100 0]
  by (simp add: bt_example_def bt_init_data_def)

text \<open>A packet that is long enough is compared with the request; one that is too short is not.\<close>

lemma response_compared:
  assumes "bt_inv bt" "\<not> bt_truncated bt" "BMC2HOST io (bt_dev bt) = (len, d1)"
    and "4 \<le> unat len" "unat len \<le> 254"
    and "bmc_bytes io (unat len) d1 = (netfn # seq # cmd # rest, d2)"
    and "unat len \<le> length buf + 1" "3 \<le> length buf"
  shows "\<exists>ok bt'. read_all_bytes io bt = Some (ok, bt') \<and>
    (ok \<longleftrightarrow> cmd = bt_write_data bt ! 3 \<and> seq = bt_write_data bt ! 2 \<and>
            netfn AND 0xF8 = bt_write_data bt ! 1 AND 0xF8) \<and>
    bt_get_result bt' buf =
      Some (int (unat len) - 1, netfn # cmd # rest @ drop (unat len - 1) buf, bt')"
proof -
  let ?bs = "netfn # seq # cmd # rest"
  let ?bt = "bt\<lparr>bt_dev := d2, bt_read_data := len # ?bs @ drop (Suc (unat len)) (bt_read_data bt),
       bt_read_count := int (unat len) + 1\<rparr>"
  have bs: "length ?bs = unat len" using bmc_bytes_length [of io "unat len" d1] assms(6) by simp
  have "uint len \<le> 254" using assms(5) uint_nat [of len] by linarith
  with bs have inv: "bt_inv ?bt"
    using assms(1,5) by (auto simp: bt_inv_def IPMI_MAX_MSG_LENGTH_def)
  have "take (unat len - 3) (rest @ drop (Suc (unat len)) (bt_read_data bt)) = rest"
    using bs by auto
  moreover have "\<not> int (length buf) < uint len - 1" using assms(7) uint_nat [of len] by linarith
  moreover have "nat (uint len + 1) - 4 = unat len - 3" "nat (uint len + 1) - 2 = unat len - 1" "5 \<le> uint len + 1"
    using assms(4) uint_nat [of len] by linarith+
  ultimately have "bt_get_result ?bt buf = Some (int (unat len) - 1, netfn # cmd # rest @ drop (unat len - 1) buf, ?bt)"
    using bt_get_result_eq [OF inv assms(8)] assms(2,4) by simp
  then show ?thesis
    using read_all_bytes_eq [OF assms(1,3,4,5,6)] by (simp only:) auto
qed

lemma response_too_short:
  assumes inv: "bt_inv bt" and len: "BMC2HOST io (bt_dev bt) = (len, d1)" "unat len < 4" and buf: "3 \<le> length buf"
  shows "\<exists>bt' bt2. read_all_bytes io bt = Some (True, bt') \<and>
    bt_get_result bt' buf = Some (3, [bt_write_data bt ! 1 OR 4, bt_write_data bt ! 3, IPMI_ERR_MSG_TRUNCATED] @ drop 3 buf, bt2)"
proof -
  let ?b = "bt\<lparr>bt_dev := d1, bt_read_data := (bt_read_data bt)[0 := len], bt_read_count := uint len, bt_truncated := True\<rparr>"
  have u: "uint len < 4" "0 \<le> uint len" using len(2) uint_nat [of len] by linarith+
  have r: "read_all_bytes io bt = Some (True, ?b)"
    using len(1) u inv by (simp add: read_all_bytes_def bt_inv_def buf_simps IPMI_MAX_MSG_LENGTH_def Let_def)
  have b: "bt_inv ?b" using inv u by (simp add: bt_inv_def IPMI_MAX_MSG_LENGTH_def)
  obtain b1 where b1: "force_result ?b IPMI_ERR_UNSPECIFIED = Some b1" "bt_inv b1" using force_result_inv [OF b] by blast
  then have e: "bt_read_count b1 = 5" "bt_truncated b1" "bt_read_data b1 ! 1 = bt_write_data bt ! 1 OR 4" "bt_read_data b1 ! 3 = bt_write_data bt ! 3"
    using force_result_eq [OF b, of IPMI_ERR_UNSPECIFIED] by auto
  have "bt_get_result ?b buf = bt_get_result b1 buf" by (rule bt_get_result_short [OF _ b1(1)]) (use u in simp)
  also have "\<dots> = Some (3, ([bt_write_data bt ! 1 OR 4, bt_write_data bt ! 3] @ drop 2 buf)[2 := IPMI_ERR_MSG_TRUNCATED], b1)"
    using bt_get_result_eq [OF b1(2) buf] e by simp
  also have "([bt_write_data bt ! 1 OR 4, bt_write_data bt ! 3] @ drop 2 buf)[2 := IPMI_ERR_MSG_TRUNCATED] =
      [bt_write_data bt ! 1 OR 4, bt_write_data bt ! 3, IPMI_ERR_MSG_TRUNCATED] @ drop 3 buf"
  proof -
    obtain x y z xs where "buf = x # y # z # xs" using buf by (auto simp: numeral_eq_Suc Suc_le_length_iff)
    then show ?thesis by (simp add: numeral_eq_Suc)
  qed
  finally show ?thesis using r by blast
qed

text \<open>C24: What the driver makes of a BT response, for every length byte up to 254 and a result buffer with room for it. A packet of 4 to 254 bytes
  is accepted exactly when its command, its sequence number and its NetFn (apart from the response and LUN
  bits) are those of the request, and the result fetched from it is the packet without the length and sequence
  bytes. A packet whose length byte is below 4 is accepted without being read or compared; the result is the request's NetFn with the
  response bit, its command and the completion code for a truncated message. (255 is the length on which the loop hangs, see below.)\<close>

theorem bt_response_matched:
  assumes "bt_inv bt" "\<not> bt_truncated bt" "BMC2HOST io (bt_dev bt) = (len, d1)" "unat len \<le> 254"
    and "bmc_bytes io (unat len) d1 = (bs, d2)" "unat len \<le> length buf + 1" "3 \<le> length buf"
  shows "\<exists>ok bt' n out bt2. read_all_bytes io bt = Some (ok, bt') \<and> bt_get_result bt' buf = Some (n, out, bt2) \<and>
    (if unat len < 4
     then ok \<and> n = 3 \<and> out = [bt_write_data bt ! 1 OR 4, bt_write_data bt ! 3, IPMI_ERR_MSG_TRUNCATED] @ drop 3 buf
     else (ok \<longleftrightarrow> bs ! 2 = bt_write_data bt ! 3 \<and> bs ! 1 = bt_write_data bt ! 2 \<and> bs ! 0 AND 0xF8 = bt_write_data bt ! 1 AND 0xF8) \<and>
          n = int (unat len) - 1 \<and> out = bs ! 0 # drop 2 bs @ drop (unat len - 1) buf)"
proof (cases "unat len < 4")
  case True
  then show ?thesis using response_too_short [OF assms(1,3) True assms(7)] by auto
next
  case False
  have "length bs = unat len" using bmc_bytes_length [of io "unat len" d1] assms(5) by simp
  then obtain netfn seq cmd rest where "bs = netfn # seq # cmd # rest"
    using False by (auto simp: numeral_eq_Suc Suc_le_length_iff not_less dest!: sym [of "length bs"])
  then show ?thesis using response_compared [OF assms(1-3) _ assms(4) _ assms(6,7), of netfn seq cmd rest d2] assms(5) False by auto
qed

text \<open>A BMC whose data register yields the given bytes.\<close>

definition bt_bytes_io :: "u8 list si_sm_io" where
  "bt_bytes_io = \<lparr>inputb = (\<lambda>l off. case l of [] \<Rightarrow> (0, []) | b # bs \<Rightarrow> (b, bs)),
     outputb = (\<lambda>l off b. l)\<rparr>"

theorem bt_response_matched_witness:
  "\<exists>ok bt'. read_all_bytes bt_bytes_io ((bt_example [4, 0x1c, 9, 1, 0])\<lparr>bt_write_data := [3, 0x18, 9, 1] @
      replicate 268 0\<rparr>) = Some (ok, bt') \<and> ok \<and> (\<exists>bt2. bt_get_result bt' [7, 7, 7, 7] = Some (3, [0x1c, 1, 0, 7], bt2))"
proof -
  have four: "unat (4 :: u8) = Suc (Suc (Suc (Suc 0)))" by simp
  let ?bt = "(bt_example [4, 0x1c, 9, 1, 0 :: u8])\<lparr>bt_write_data := [3, 0x18, 9, 1] @ replicate 268 0\<rparr>"
  have "bt_inv ?bt"
    using bt_example_inv [of "[4, 0x1c, 9, 1, 0 :: u8]"] by (simp add: bt_inv_def IPMI_MAX_MSG_LENGTH_def)
  moreover have "\<not> bt_truncated ?bt" "BMC2HOST bt_bytes_io (bt_dev ?bt) = (4, [0x1c, 9, 1, 0])"
    by (simp_all add: bt_example_def bt_init_data_def BMC2HOST_def bt_bytes_io_def)
  moreover have "bmc_bytes bt_bytes_io (unat (4 :: u8)) [0x1c, 9, 1, 0] = ([0x1c, 9, 1, 0], [])"
    by (simp only: four) (simp add: BMC2HOST_def bt_bytes_io_def)
  ultimately show ?thesis
    using bt_response_matched [of ?bt bt_bytes_io 4 "[0x1c, 9, 1, 0]" "[0x1c, 9, 1, 0]" "[]" "[7, 7, 7, 7]"] by auto
qed

text \<open>A timeout of a BT transaction that has used up its retries ends it with an error
  response, unless the BMC answered at all and a reset is due: the caller is told the transaction
  is complete, and the result fetched is the request's NetFn with the response bit, its command
  and the timeout code, or the node-busy code when the BMC still says it is busy, in which case
  the machine stays in the long-busy state.\<close>

theorem bt_timeout_reported:
  assumes "bt_inv bt" "BT_STATE_WRITE_BYTES \<le> bt_state bt" "bt_state bt < BT_STATE_RESET1"
    and "BT_STATUS io (bt_dev bt) = (status, d)" "bt_timeout bt < t" "\<not> bt_truncated bt"
    and "BT_CAP_retries bt \<le> bt_error_retries bt + 1" "of_int (BT_CAP_retries bt) < bt_seq bt"
  shows "\<exists>bt'. bt_event io bt t j = Some (SI_SM_TRANSACTION_COMPLETE, bt') \<and>
    bt_state bt' = (if flag status BT_B_BUSY then BT_STATE_LONG_BUSY else BT_STATE_IDLE) \<and>
    bt_get_result bt' [0, 0, 0] = Some (3, [bt_write_data bt ! 1 OR 4, bt_write_data bt ! 3,
      if flag status BT_B_BUSY then IPMI_NODE_BUSY_ERR else IPMI_TIMEOUT_ERR], bt')"
proof -
  let ?code = "if flag status BT_B_BUSY then IPMI_NODE_BUSY_ERR else IPMI_TIMEOUT_ERR"
  let ?b = "bt\<lparr>bt_dev := d, bt_nonzero_status := bt_nonzero_status bt OR ucast status, bt_timeout := BT_CAP_req2rsp bt,
    bt_error_retries := bt_error_retries bt + 1,
    bt_state := if flag status BT_B_BUSY then BT_STATE_LONG_BUSY else BT_STATE_IDLE\<rparr>"
  have inv: "bt_inv ?b" using assms(1) by simp
  have st: "\<not> bt_state bt < BT_STATE_WRITE_BYTES" "bt_state bt \<noteq> BT_STATE_IDLE" "bt_state bt < BT_STATE_PRINTME"
    using assms(2,3) by (cases "bt_state bt"; simp add: less_bt_states_def less_eq_bt_states_def)+
  obtain b1 where b1: "force_result ?b ?code = Some b1" "bt_inv b1"
    using force_result_inv [OF inv] by blast
  have "bt_event io bt t j = Some (SI_SM_TRANSACTION_COMPLETE, b1)"
    using assms(3-8) st b1(1) by (simp add: bt_event_def error_recovery_def Let_def linorder_not_le)
  moreover have b1_eq: "b1 = ?b\<lparr>bt_read_data := [4, bt_write_data ?b ! 1 OR 4, bt_write_data ?b ! 2,
      bt_write_data ?b ! 3, ?code] @ drop 5 (bt_read_data ?b), bt_read_count := 5\<rparr>"
    using b1(1) force_result_eq [OF inv, of ?code] by simp
  moreover have "bt_get_result b1 [0, 0, 0] = Some (3, [bt_write_data bt ! 1 OR 4, bt_write_data bt ! 3, ?code], b1)"
    using bt_get_result_eq [OF b1(2), of "[0, 0, 0]"] assms(6) by (simp add: b1_eq)
  ultimately show ?thesis by simp
qed

theorem bt_timeout_reported_witness:
  "\<exists>bt'. bt_event (logging_io (\<lambda>_ _. 0x80)) ((bt_example [])\<lparr>bt_state := BT_STATE_READ_WAIT, bt_seq := 5,
      bt_error_retries := 1, bt_timeout := 10\<rparr>) 20 0 = Some (SI_SM_TRANSACTION_COMPLETE, bt') \<and>
    bt_state bt' = BT_STATE_LONG_BUSY \<and> bt_get_result bt' [0, 0, 0] = Some (3, [4, 0, 0xc0], bt')"
proof -
  have "bt_inv ((bt_example [] :: io_log bt_data)\<lparr>bt_state := BT_STATE_READ_WAIT, bt_seq := 5,
      bt_error_retries := 1, bt_timeout := 10\<rparr>)"
    using bt_example_inv [of "[] :: io_log"] by (simp add: bt_inv_def)
  from bt_timeout_reported [OF this, of "logging_io (\<lambda>_ _. 0x80)" "0x80" "[]" 20 0] show ?thesis
    by (simp add: less_bt_states_def less_eq_bt_states_def bt_example_def bt_init_data_def BT_STATUS_def
        flag_def IPMI_MAX_MSG_LENGTH_def)
qed

section \<open>Flaws of the machine\<close>

text \<open>The BT machine accepts requests it has no room for. A request of 271 or 272 bytes passes
  the length check but, framed with its length and sequence bytes, is written past the end of the
  272-byte buffer.\<close>

theorem bt_long_request_overflows:
  assumes "bt_inv bt" "270 < length data" "length data \<le> IPMI_MAX_MSG_LENGTH" "bt_state bt = BT_STATE_IDLE"
  shows "bt_start_transaction bt data = None"
  using bt_start_transaction_overflow [OF assms(1,2) _ assms(4)] assms(3) by (simp add: IPMI_MAX_MSG_LENGTH_def)

theorem bt_long_request_overflows_witness:
  "bt_start_transaction (bt_example ()) (replicate 272 0) = None"
  by (rule bt_long_request_overflows [OF bt_example_inv])
    (simp_all add: IPMI_MAX_MSG_LENGTH_def bt_example_def bt_init_data_def)

text \<open>C38: A length byte of 255 hangs the driver. The read loop counts an \<open>unsigned char\<close> up to the
  length, which it can never exceed: the event does not return.\<close>

theorem bt_length_255_hangs:
  assumes "bt_inv bt" "bt_state bt = BT_STATE_READ_BYTES" "0 \<le> bt_timeout bt - t"
    and "\<And>d. fst (BMC2HOST io d) = 255"
  shows "bt_event io bt t j = None"
proof -
  have "read_bytes io (uint (255 :: u8)) 1 rd d = None" for rd d
    using read_bytes_ends [of io "uint (255 :: u8)" 1 rd d] by (cases "read_bytes io (uint (255 :: u8)) 1 rd d") auto
  then have "read_all_bytes io b = None" if "bt_inv b" for b
    using that assms(4) [of "bt_dev b"]
    by (simp add: read_all_bytes_def split_beta bt_inv_def buf_simps IPMI_MAX_MSG_LENGTH_def Let_def)
  then show ?thesis using assms(1-3)
    by (simp add: bt_event_def split_beta Let_def less_bt_states_def bt_ev_switch_def bt_ev_read_bytes_def)
qed

theorem bt_length_255_hangs_witness:
  "bt_event (logging_io (\<lambda>_ _. 255)) ((bt_example [])\<lparr>bt_state := BT_STATE_READ_BYTES\<rparr>) 0 0 = None"
  using bt_length_255_hangs [of "(bt_example [])\<lparr>bt_state := BT_STATE_READ_BYTES\<rparr>" 0 "logging_io (\<lambda>_ _. 255)" 0]
    bt_example_inv [of "[] :: io_log"]
  by (simp add: BMC2HOST_def bt_example_def bt_init_data_def bt_inv_def)

text \<open>After a failed capabilities query the response to the next request is lost. The query sets
  \<open>complete\<close> to BT\_STATE\_CAPABILITIES\_END; nothing clears it when the query ends with an error.
  The next request's response then leads to that state, the machine takes the response for the
  capabilities, initialises itself and never reports the transaction as complete.\<close>

theorem bt_response_taken_for_capabilities:
  assumes "bt_inv bt" "bt_state bt = BT_STATE_READ_BYTES" "bt_complete bt = BT_STATE_CAPABILITIES_END"
    and "bt_len_ok io" "t \<le> bt_timeout bt" "\<And>d. \<not> flag (fst (BT_STATUS io d)) BT_B2H_ATN"
    and "bt_event io bt t j = Some (r, bt1)" "bt_state bt1 \<noteq> BT_STATE_READ_WAIT"
  shows "r = SI_SM_CALL_WITHOUT_DELAY \<and> bt_state bt1 = BT_STATE_CAPABILITIES_END \<and>
    (\<exists>bt2. bt_event io bt1 t' j' = Some (SI_SM_CALL_WITHOUT_DELAY, bt2) \<and>
       bt_state bt2 = BT_STATE_IDLE \<and> bt_read_count bt2 = 0)"
proof -
  obtain s d where s: "BT_STATUS io (bt_dev bt) = (s, d)" by fastforce
  let ?b = "bt\<lparr>bt_dev := d, bt_nonzero_status := bt_nonzero_status bt OR ucast s, bt_timeout := bt_timeout bt - t\<rparr>"
  have ev: "bt_ev_read_bytes io s ?b = Some (r, bt1)"
    using assms(2,5,7) s by (simp add: bt_event_def Let_def less_bt_states_def bt_ev_switch_def)
  define b where "b = ?b\<lparr>bt_dev := BT_CONTROL io BT_CLR_RD_PTR (if \<not> flag s BT_H_BUSY
    then BT_CONTROL io BT_H_BUSY d else d)\<rparr>"
  obtain i b1 where b1: "read_all_bytes io b = Some (i, b1)" "bt_inv b1" "bt_complete b1 = BT_STATE_CAPABILITIES_END"
    using read_all_bytes_inv [of b io] assms(1,3,4) by (auto simp: b_def bt_len_ok_def)
  then have r: "r = SI_SM_CALL_WITHOUT_DELAY" "bt_state bt1 = BT_STATE_CAPABILITIES_END" "bt_inv bt1"
    using ev assms(8) by (auto simp: bt_ev_read_bytes_def Let_def b_def split: if_splits)
  obtain s2 d2 where s2: "BT_STATUS io (bt_dev bt1) = (s2, d2)" by fastforce
  let ?b2 = "bt1\<lparr>bt_dev := d2, bt_nonzero_status := bt_nonzero_status bt1 OR ucast s2\<rparr>"
  obtain n cap b3 where "bt_get_result ?b2 (replicate 8 0) = Some (n, cap, b3)"
    using bt_get_result_ok [of ?b2 "replicate 8 0"] r(3) by auto
  then show ?thesis using r s2
    by (auto simp: bt_event_def less_bt_states_def bt_ev_switch_def bt_ev_capabilities_end_def Let_def bt_init_data_def)
qed

theorem bt_response_taken_for_capabilities_witness:
  "\<exists>bt1. bt_event (logging_io (\<lambda>_ _. 0)) ((bt_example [])\<lparr>bt_state := BT_STATE_READ_BYTES,
      bt_complete := BT_STATE_CAPABILITIES_END\<rparr>) 0 0 = Some (SI_SM_CALL_WITHOUT_DELAY, bt1) \<and>
    (\<exists>bt2. bt_event (logging_io (\<lambda>_ _. 0)) bt1 0 0 = Some (SI_SM_CALL_WITHOUT_DELAY, bt2) \<and>
       bt_state bt2 = BT_STATE_IDLE \<and> bt_read_count bt2 = 0)"
proof -
  let ?io = "logging_io (\<lambda>_ _. 0)"
  let ?bt = "(bt_example [] :: io_log bt_data)\<lparr>bt_state := BT_STATE_READ_BYTES, bt_complete := BT_STATE_CAPABILITIES_END\<rparr>"
  have "bt_inv ?bt" using bt_example_inv [of "[] :: io_log"] by simp
  moreover have "bt_len_ok ?io" by (simp add: bt_len_ok_def BMC2HOST_def)
  moreover obtain r bt1 where "bt_event ?io ?bt 0 0 = Some (r, bt1)" "bt_state bt1 \<noteq> BT_STATE_READ_WAIT"
    by (simp add: bt_event_def bt_example_def bt_init_data_def BT_STATUS_def less_bt_states_def bt_ev_switch_def
        bt_ev_read_bytes_def read_all_bytes_def BMC2HOST_def buf_simps IPMI_MAX_MSG_LENGTH_def Let_def flag_def)
  moreover have "0 \<le> bt_timeout ?bt" by (simp add: bt_example_def bt_init_data_def)
  ultimately show ?thesis
    using bt_response_taken_for_capabilities [of ?bt ?io 0 0 r bt1 0 0] by (simp add: BT_STATUS_def flag_def)
qed

end
