(* ===== verification/Workqueue.thy ===== *)
theory Workqueue
  imports Prelude
begin

text \<open>
  Work queues, \<^verbatim>\<open>vmklinux26/vmware/linux_workqueue.c\<close>: Linux work queues on top of the vmkernel's
  helper worlds. The code runs concurrently in client worlds, in helper worlds and in timers; what
  is atomic is a section under \<open>wqLock\<close> or one operation on a pending bit. The state is the
  record \<open>workqueue\<close>, one queue together with the threads inside its functions, and every
  atomic section is a definition; \<open>wq_step\<close> is their interleaving.

  A queue entry is a work structure with a ticket, the number of the enqueue operation. Tickets
  are not in the code: they tell two executions of the same work structure apart. The ghost field
  \<open>gone\<close> collects the tickets whose callback has returned or that were cancelled.

  The helper (\<open>vmk_HelperSubmitRequest\<close>) may accept or refuse a request at any time and runs an
  accepted one once; the client's callback may do anything but return before it is called. The
  fields for the threads: \<open>submitting\<close> counts the callers between the two locked sections of
  \<open>vmklnx_workqueue_dispatch\<close>, \<open>relocking\<close> those whose request was accepted and who go
  round the loop, \<open>arming\<close> those whose request was refused and who are about to start the timer,
  \<open>helper\<close> the accepted requests whose callout has not begun, \<open>queueing\<close> the work
  whose pending bit is set and that is about to be queued.
\<close>

section \<open>State\<close>

text \<open>A work structure is a client's or the plunger of \<open>flush_workqueue\<close>.\<close>

datatype 'w job = is_Client: Client (client: 'w) | Plunger

text \<open>A callout clears the pending bit after it has left the lock: \<open>Starting\<close> before that.\<close>

datatype callout_pc = Starting | Running

record 'w work_tracker =
  slot :: nat
  ticket :: nat
  executing :: "'w job"
  callout_at :: callout_pc

datatype cancel_pc = Cancel_top | Cancel_lock | Cancel_wait | Cancel_bottom

text \<open>A thread in \<open>vmklnx_cancel_work_sync\<close>: its work, whether a timer was passed,
  \<open>didGrabPending\<close>, \<open>ret\<close>, and where it is.\<close>

type_synonym 'w canceller = "'w \<times> bool \<times> bool \<times> int \<times> cancel_pc"

datatype flush_pc = No_flush | Flush_plunging nat | Flush_plunged nat | Flush_draining nat

record 'w workqueue =
  wq_head :: "(nat \<times> 'w job) list"
  qLen :: int
  curPosted :: int
  curDispatch :: int
  maxDispatch :: int
  trackList :: "'w work_tracker list"
  trackFlushList :: "'w work_tracker list"
  trackFree :: "nat list"
  setExitFlag :: bool
  delayTimer :: bool
  pending :: "'w set"
  timers :: "'w list"
  queueing :: "'w list"
  submitting :: nat
  relocking :: nat
  arming :: nat
  helper :: nat
  cancellers :: "'w canceller multiset"
  flusher :: flush_pc
  next_ticket :: nat
  gone :: "nat set"

text \<open>\<open>vmklnx_Helper_worlds\<close>: the number of processors, between 8 and 32.\<close>

definition helper_worlds :: "int \<Rightarrow> int" where
  "helper_worlds pcpus = (if pcpus < 8 then 8 else if pcpus > 32 then 32 else pcpus)"

definition create_workqueue :: "int \<Rightarrow> bool \<Rightarrow> 'w workqueue" where
  "create_workqueue worlds singlethread =
     (let n = (if singlethread then 1 else worlds) in
      \<lparr>wq_head = [], qLen = 0, curPosted = 0, curDispatch = 0, maxDispatch = n,
       trackList = [], trackFlushList = [], trackFree = rev [0..<nat n],
       setExitFlag = False, delayTimer = False, pending = {}, timers = [], queueing = [],
       submitting = 0, relocking = 0, arming = 0, helper = 0, cancellers = {#},
       flusher = No_flush, next_ticket = 0, gone = {}\<rparr>)"

section \<open>Dispatching to the helper\<close>

text \<open>\<open>vmklnx_workqueue_dispatch\<close>: the loop condition, tested under the lock; a true condition
  counts the request as posted and leaves the lock to submit it.\<close>

definition dispatch_check :: "'w workqueue \<Rightarrow> 'w workqueue" where
  "dispatch_check s =
     (if min (maxDispatch s - curDispatch s) (qLen s - curPosted s) > 0
      then s\<lparr>curPosted := curPosted s + 1, submitting := submitting s + 1\<rparr>
      else s)"

definition dispatch_accepted :: "'w workqueue \<Rightarrow> 'w workqueue" where
  "dispatch_accepted s =
     (let s1 = s\<lparr>submitting := submitting s - 1, helper := helper s + 1\<rparr> in
      if maxDispatch s = 1 then s1 else s1\<lparr>relocking := relocking s + 1\<rparr>)"

definition dispatch_relock :: "'w workqueue \<Rightarrow> 'w workqueue" where
  "dispatch_relock s = dispatch_check (s\<lparr>relocking := relocking s - 1\<rparr>)"

definition dispatch_refused :: "'w workqueue \<Rightarrow> 'w workqueue" where
  "dispatch_refused s =
     s\<lparr>submitting := submitting s - 1, curPosted := curPosted s - 1, arming := arming s + 1\<rparr>"

definition dispatch_mod_timer :: "'w workqueue \<Rightarrow> 'w workqueue" where
  "dispatch_mod_timer s = s\<lparr>arming := arming s - 1, delayTimer := True\<rparr>"

definition workqueue_timeout :: "'w workqueue \<Rightarrow> 'w workqueue" where
  "workqueue_timeout s = dispatch_check (s\<lparr>delayTimer := False\<rparr>)"

section \<open>Queueing\<close>

definition queue_work' :: "'w job \<Rightarrow> 'w workqueue \<Rightarrow> 'w workqueue" where
  "queue_work' j s = dispatch_check
     (s\<lparr>wq_head := wq_head s @ [(next_ticket s, j)], qLen := qLen s + 1,
        next_ticket := next_ticket s + 1\<rparr>)"

text \<open>\<open>vmklnx_queue_work\<close> up to the call of \<open>__queue_work\<close>, with its result.\<close>

definition vmklnx_queue_work :: "'w \<Rightarrow> 'w workqueue \<Rightarrow> int \<times> 'w workqueue" where
  "vmklnx_queue_work w s =
     (if setExitFlag s then (0, s)
      else if w \<in> pending s then (0, s)
      else (1, s\<lparr>pending := insert w (pending s), queueing := w # queueing s\<rparr>))"

definition queue_work_locked :: "'w \<Rightarrow> 'w workqueue \<Rightarrow> 'w workqueue" where
  "queue_work_locked w s = queue_work' (Client w) (s\<lparr>queueing := remove1 w (queueing s)\<rparr>)"

definition queue_delayed_work :: "'w \<Rightarrow> u64 \<Rightarrow> 'w workqueue \<Rightarrow> int \<times> 'w workqueue" where
  "queue_delayed_work w delay s =
     (if delay = 0 then vmklnx_queue_work w s
      else if w \<notin> pending s
      then (1, s\<lparr>pending := insert w (pending s), timers := w # timers s\<rparr>)
      else (0, s))"

text \<open>The timer of a delayed work fires: it is no longer armed, and \<open>__queue_work\<close> comes next.\<close>

definition delayed_work_timer_fn :: "'w \<Rightarrow> 'w workqueue \<Rightarrow> 'w workqueue" where
  "delayed_work_timer_fn w s = s\<lparr>timers := remove1 w (timers s), queueing := w # queueing s\<rparr>"

section \<open>The callout\<close>

definition callout_begin :: "'w workqueue \<Rightarrow> 'w workqueue" where
  "callout_begin s =
     (let s1 = s\<lparr>helper := helper s - 1, curPosted := curPosted s - 1\<rparr> in
      if wq_head s1 = [] \<or> curDispatch s1 \<ge> maxDispatch s1 then s1
      else (case trackFree s1 of
          [] \<Rightarrow> s1
        | k # free \<Rightarrow>
            s1\<lparr>wq_head := tl (wq_head s1), curDispatch := curDispatch s1 + 1, qLen := qLen s1 - 1,
               trackFree := free,
               trackList := \<lparr>slot = k, ticket = fst (hd (wq_head s1)),
                 executing = snd (hd (wq_head s1)), callout_at = Starting\<rparr> # trackList s1\<rparr>))"

definition tracker_set :: "'w work_tracker \<Rightarrow> 'w work_tracker \<Rightarrow> 'w work_tracker list \<Rightarrow> 'w work_tracker list" where
  "tracker_set t t' ts = map (\<lambda>u. if u = t then t' else u) ts"

definition callout_clear_pending :: "'w work_tracker \<Rightarrow> 'w workqueue \<Rightarrow> 'w workqueue" where
  "callout_clear_pending t s =
     (let t' = t\<lparr>callout_at := Running\<rparr> in
      s\<lparr>pending := (case executing t of Client w \<Rightarrow> pending s - {w} | Plunger \<Rightarrow> pending s),
        trackList := tracker_set t t' (trackList s),
        trackFlushList := tracker_set t t' (trackFlushList s)\<rparr>)"

definition callout_end :: "'w work_tracker \<Rightarrow> 'w workqueue \<Rightarrow> 'w workqueue" where
  "callout_end t s = dispatch_check
     (s\<lparr>curDispatch := curDispatch s - 1, trackList := remove1 t (trackList s),
        trackFlushList := remove1 t (trackFlushList s), trackFree := slot t # trackFree s,
        gone := insert (ticket t) (gone s)\<rparr>)"

section \<open>Flushing\<close>

text \<open>The plunger is queued with its pending bit set, under \<open>flushMutex\<close>.\<close>

definition flush_start :: "'w workqueue \<Rightarrow> 'w workqueue" where
  "flush_start s = (queue_work' Plunger s)\<lparr>flusher := Flush_plunging (next_ticket s)\<rparr>"

text \<open>\<open>vmklnx_plunger_complete\<close>. The completion that follows the locked section only enables the
  flusher, so that it is part of the same step.\<close>

definition plunger_complete :: "'w work_tracker \<Rightarrow> 'w workqueue \<Rightarrow> 'w workqueue" where
  "plunger_complete t s =
     s\<lparr>trackFlushList := trackList s @ trackFlushList s, trackList := [],
       flusher := Flush_plunged (ticket t)\<rparr>"

text \<open>\<open>wait_for_completion\<close> returns; the flusher waits for \<open>trackFlushList\<close> to become empty, then
  returns.\<close>

definition flush_completed :: "nat \<Rightarrow> 'w workqueue \<Rightarrow> 'w workqueue" where
  "flush_completed p s = s\<lparr>flusher := Flush_draining p\<rparr>"

definition flush_return :: "'w workqueue \<Rightarrow> 'w workqueue" where
  "flush_return s = s\<lparr>flusher := No_flush\<rparr>"

section \<open>Cancelling\<close>

definition work_executing :: "'w \<Rightarrow> 'w workqueue \<Rightarrow> bool" where
  "work_executing w s \<longleftrightarrow> Client w \<in> executing ` set (trackList s) \<or> Client w \<in> executing ` set (trackFlushList s)"

definition cancel_move :: "'w canceller \<Rightarrow> 'w canceller \<Rightarrow> 'w workqueue \<Rightarrow> 'w workqueue" where
  "cancel_move c c' s = s\<lparr>cancellers := add_mset c' (cancellers s - {#c#})\<rparr>"

definition cancel_enter :: "'w \<Rightarrow> bool \<Rightarrow> 'w workqueue \<Rightarrow> 'w workqueue" where
  "cancel_enter w timer s = s\<lparr>cancellers := add_mset (w, timer, False, 0, Cancel_top) (cancellers s)\<rparr>"

text \<open>Grab the pending bit directly, or from the timer.\<close>

definition cancel_grab :: "'w \<Rightarrow> bool \<Rightarrow> int \<Rightarrow> 'w workqueue \<Rightarrow> 'w workqueue" where
  "cancel_grab w timer ret s =
     (let c = (w, timer, False, ret, Cancel_top) in
      if w \<notin> pending s
      then cancel_move c (w, timer, True, ret, Cancel_lock) (s\<lparr>pending := insert w (pending s)\<rparr>)
      else if timer \<and> w \<in> set (timers s)
      then cancel_move c (w, timer, True, 1, Cancel_lock) (s\<lparr>timers := remove1 w (timers s)\<rparr>)
      else cancel_move c (w, timer, False, ret, Cancel_lock) s)"

text \<open>The first locked section: grab the pending bit from the queue, then look for a running
  callout; \<open>Cancel_wait\<close> is the wait for one to end. A work that was never queued has no
  \<open>wq_data\<close>; the code skips the section then, which for such a work changes nothing.\<close>

definition wq_queued :: "'w \<Rightarrow> 'w workqueue \<Rightarrow> bool" where
  "wq_queued w s \<longleftrightarrow> Client w \<in> snd ` set (wq_head s)"

definition cancel_locked :: "'w \<Rightarrow> bool \<Rightarrow> bool \<Rightarrow> int \<Rightarrow> 'w workqueue \<Rightarrow> 'w workqueue" where
  "cancel_locked w timer grabbed ret s =
     (let c = (w, timer, grabbed, ret, Cancel_lock);
          pc = (if work_executing w s then Cancel_wait else Cancel_bottom) in
      if wq_queued w s \<and> w \<in> pending s
      then cancel_move c (w, timer, True, 1, pc)
        (s\<lparr>wq_head := filter (\<lambda>e. snd e \<noteq> Client w) (wq_head s), qLen := qLen s - 1,
           gone := gone s \<union> fst ` {e \<in> set (wq_head s). snd e = Client w}\<rparr>)
      else cancel_move c (w, timer, grabbed, ret, pc) s)"

definition cancel_rescan :: "'w \<Rightarrow> bool \<Rightarrow> bool \<Rightarrow> int \<Rightarrow> 'w workqueue \<Rightarrow> 'w workqueue" where
  "cancel_rescan w timer grabbed ret s =
     cancel_move (w, timer, grabbed, ret, Cancel_wait)
       (w, timer, grabbed, ret, if work_executing w s then Cancel_wait else Cancel_bottom) s"

definition cancel_retry :: "'w \<Rightarrow> bool \<Rightarrow> int \<Rightarrow> 'w workqueue \<Rightarrow> 'w workqueue" where
  "cancel_retry w timer ret s =
     cancel_move (w, timer, False, ret, Cancel_bottom) (w, timer, False, ret, Cancel_top) s"

definition cancel_return :: "'w \<Rightarrow> bool \<Rightarrow> int \<Rightarrow> 'w workqueue \<Rightarrow> 'w workqueue" where
  "cancel_return w timer ret s =
     s\<lparr>pending := pending s - {w}, cancellers := cancellers s - {#(w, timer, True, ret, Cancel_bottom)#}\<rparr>"

section \<open>Interleaving\<close>

definition trackers :: "'w workqueue \<Rightarrow> 'w work_tracker set" where
  "trackers s = set (trackList s) \<union> set (trackFlushList s)"

inductive wq_step :: "'w workqueue \<Rightarrow> 'w workqueue \<Rightarrow> bool" where
  queue: "wq_step s (snd (vmklnx_queue_work w s))"
| queue_locked: "w \<in> set (queueing s) \<Longrightarrow> wq_step s (queue_work_locked w s)"
| delayed: "wq_step s (snd (queue_delayed_work w delay s))"
| timer: "w \<in> set (timers s) \<Longrightarrow> wq_step s (delayed_work_timer_fn w s)"
| accepted: "submitting s > 0 \<Longrightarrow> wq_step s (dispatch_accepted s)"
| relock: "relocking s > 0 \<Longrightarrow> wq_step s (dispatch_relock s)"
| refused: "submitting s > 0 \<Longrightarrow> wq_step s (dispatch_refused s)"
| mod_timer: "arming s > 0 \<Longrightarrow> wq_step s (dispatch_mod_timer s)"
| timeout: "delayTimer s \<Longrightarrow> wq_step s (workqueue_timeout s)"
| call: "helper s > 0 \<Longrightarrow> wq_step s (callout_begin s)"
| clear: "t \<in> trackers s \<Longrightarrow> callout_at t = Starting \<Longrightarrow> wq_step s (callout_clear_pending t s)"
| plunge: "t \<in> trackers s \<Longrightarrow> callout_at t = Running \<Longrightarrow> executing t = Plunger \<Longrightarrow>
    flusher s = Flush_plunging (ticket t) \<Longrightarrow> wq_step s (plunger_complete t s)"
| finish: "t \<in> trackers s \<Longrightarrow> callout_at t = Running \<Longrightarrow>
    (executing t = Plunger \<longrightarrow> flusher s \<noteq> Flush_plunging (ticket t)) \<Longrightarrow> wq_step s (callout_end t s)"
| flush: "flusher s = No_flush \<Longrightarrow> wq_step s (flush_start s)"
| flushed: "flusher s = Flush_plunged p \<Longrightarrow> wq_step s (flush_completed p s)"
| flush_ret: "flusher s = Flush_draining p \<Longrightarrow> trackFlushList s = [] \<Longrightarrow> wq_step s (flush_return s)"
| exit_flag: "wq_step s (s\<lparr>setExitFlag := True\<rparr>)"
| cancel: "wq_step s (cancel_enter w tm s)"
| cancel1: "(w, tm, False, r, Cancel_top) \<in># cancellers s \<Longrightarrow> wq_step s (cancel_grab w tm r s)"
| cancel2: "(w, tm, g, r, Cancel_lock) \<in># cancellers s \<Longrightarrow> wq_step s (cancel_locked w tm g r s)"
| cancel3: "(w, tm, g, r, Cancel_wait) \<in># cancellers s \<Longrightarrow> wq_step s (cancel_rescan w tm g r s)"
| cancel4: "(w, tm, False, r, Cancel_bottom) \<in># cancellers s \<Longrightarrow> wq_step s (cancel_retry w tm r s)"
| cancel5: "(w, tm, True, r, Cancel_bottom) \<in># cancellers s \<Longrightarrow> wq_step s (cancel_return w tm r s)"

definition wq_reachable :: "int \<Rightarrow> bool \<Rightarrow> 'w workqueue \<Rightarrow> bool" where
  "wq_reachable worlds single s \<longleftrightarrow> 1 \<le> worlds \<and> wq_step\<^sup>*\<^sup>* (create_workqueue worlds single) s"

lemma wq_reachable_induct:
  assumes "wq_reachable n single s" and "\<And>n b. 1 \<le> n \<Longrightarrow> P (create_workqueue n b)"
    and "\<And>s s'. P s \<Longrightarrow> wq_step s s' \<Longrightarrow> P s'"
  shows "P s"
proof -
  have "wq_step\<^sup>*\<^sup>* (create_workqueue n single) s" and "1 \<le> n" using assms(1) by (simp_all add: wq_reachable_def)
  then show ?thesis by (induction rule: rtranclp_induct) (auto intro: assms(2,3))
qed

section \<open>Frame of the dispatch\<close>

lemma dispatch_check_frame [simp]:
  "wq_head (dispatch_check s) = wq_head s" "qLen (dispatch_check s) = qLen s"
  "curDispatch (dispatch_check s) = curDispatch s" "maxDispatch (dispatch_check s) = maxDispatch s"
  "trackList (dispatch_check s) = trackList s" "trackFlushList (dispatch_check s) = trackFlushList s"
  "trackFree (dispatch_check s) = trackFree s" "delayTimer (dispatch_check s) = delayTimer s"
  "pending (dispatch_check s) = pending s" "timers (dispatch_check s) = timers s"
  "queueing (dispatch_check s) = queueing s" "relocking (dispatch_check s) = relocking s"
  "arming (dispatch_check s) = arming s" "helper (dispatch_check s) = helper s"
  "cancellers (dispatch_check s) = cancellers s" "flusher (dispatch_check s) = flusher s"
  "next_ticket (dispatch_check s) = next_ticket s" "gone (dispatch_check s) = gone s"
  by (simp_all add: dispatch_check_def)

lemma callout_begin_frame:
  "pending (callout_begin s) = pending s" "cancellers (callout_begin s) = cancellers s"
  "flusher (callout_begin s) = flusher s" "gone (callout_begin s) = gone s"
  "trackFlushList (callout_begin s) = trackFlushList s" "delayTimer (callout_begin s) = delayTimer s"
  "submitting (callout_begin s) = submitting s" "relocking (callout_begin s) = relocking s"
  "arming (callout_begin s) = arming s"
  by (simp_all add: callout_begin_def Let_def split: list.split)

lemmas wq_ops = vmklnx_queue_work_def queue_work_locked_def queue_delayed_work_def
  delayed_work_timer_fn_def dispatch_accepted_def dispatch_relock_def dispatch_refused_def
  dispatch_mod_timer_def workqueue_timeout_def callout_begin_def callout_clear_pending_def
  plunger_complete_def callout_end_def flush_start_def flush_completed_def flush_return_def
  cancel_enter_def cancel_grab_def cancel_locked_def cancel_rescan_def cancel_retry_def
  cancel_return_def cancel_move_def queue_work'_def

section \<open>The counters\<close>

definition wq_tracking :: "'w workqueue \<Rightarrow> 'w work_tracker list" where
  "wq_tracking s = trackList s @ trackFlushList s"

definition wq_counts :: "'w workqueue \<Rightarrow> bool" where
  "wq_counts s \<longleftrightarrow> qLen s = int (length (wq_head s)) \<and>
     curPosted s = int (submitting s + helper s) \<and>
     curDispatch s = int (length (wq_tracking s)) \<and>
     int (length (trackFree s)) + curDispatch s = maxDispatch s \<and> 1 \<le> maxDispatch s"

text \<open>Every enqueue is somewhere: queued, in a callout, or over.\<close>

definition wq_tks :: "'w workqueue \<Rightarrow> nat list" where
  "wq_tks s = map ticket (wq_tracking s)"

definition wq_tickets :: "'w workqueue \<Rightarrow> bool" where
  "wq_tickets s \<longleftrightarrow> sorted_wrt (<) (map fst (wq_head s)) \<and> distinct (wq_tks s) \<and>
     (\<forall>k \<in> fst ` set (wq_head s). k < next_ticket s) \<and>
     (\<forall>k \<in> set (wq_tks s). k < next_ticket s \<and> (\<forall>e \<in> fst ` set (wq_head s). k < e)) \<and>
     {..<next_ticket s} \<subseteq> set (wq_tks s) \<union> fst ` set (wq_head s) \<union> gone s"

text \<open>Whoever holds a set pending bit: a caller about to queue the work, the armed timer, the queue,
  a callout that has not cleared it yet, or a canceller that has grabbed it.\<close>

definition works :: "'w job multiset \<Rightarrow> 'w multiset" where
  "works M = image_mset client (filter_mset is_Client M)"

definition wq_starting :: "'w workqueue \<Rightarrow> 'w multiset" where
  "wq_starting s = works (image_mset executing (filter_mset (\<lambda>t. callout_at t = Starting) (mset (wq_tracking s))))"

definition wq_grabbed :: "'w workqueue \<Rightarrow> 'w multiset" where
  "wq_grabbed s = image_mset fst (filter_mset (\<lambda>(w, tm, g, r, pc). g) (cancellers s))"

definition wq_holders :: "'w workqueue \<Rightarrow> 'w multiset" where
  "wq_holders s = mset (queueing s) + mset (timers s) + works (mset (map snd (wq_head s))) +
     wq_starting s + wq_grabbed s"

definition wq_owned :: "'w workqueue \<Rightarrow> bool" where
  "wq_owned s \<longleftrightarrow> finite (pending s) \<and> wq_holders s = mset_set (pending s)"

lemma works_simps [simp]:
  "works {#} = {#}" "works (add_mset (Client w) M) = add_mset w (works M)"
  "works (add_mset Plunger M) = works M" "works (M + N) = works M + works N"
  by (simp_all add: works_def)

lemma works_filter:
  "works (mset (map snd (filter (\<lambda>e. snd e \<noteq> Client w) h))) = filter_mset (\<lambda>x. x \<noteq> w) (works (mset (map snd h)))"
proof (induction h)
  case (Cons e h)
  then show ?case by (cases "snd e") auto
qed simp

lemma length_filter_works:
  "length (filter (\<lambda>e. snd e \<noteq> Client w) h) + count (works (mset (map snd h))) w = length h"
proof (induction h)
  case (Cons e h)
  then show ?case by (cases "snd e") auto
qed simp

lemma in_works: "w \<in># works M \<longleftrightarrow> Client w \<in># M"
  by (auto simp: works_def) (metis image_eqI job.disc(1) job.sel mem_Collect_eq)

lemma wq_queued_works: "wq_queued w s \<longleftrightarrow> w \<in># works (mset (map snd (wq_head s)))"
  by (simp add: wq_queued_def in_works image_iff)

lemma filter_neq_count_one: "count M w = 1 \<Longrightarrow> filter_mset (\<lambda>x. x \<noteq> w) M = M - {#w#}"
  by (rule multiset_eqI) auto

lemma length_remove1_Suc: "x \<in> set xs \<Longrightarrow> Suc (length (remove1 x xs)) = length xs"
  by (induction xs) auto

lemma mset_tracker_set:
  "distinct ts \<Longrightarrow> t \<in> set ts \<Longrightarrow> mset (tracker_set t t' ts) = add_mset t' (mset (remove1 t ts))"
proof (induction ts)
  case (Cons u ts)
  have "t \<notin> set ts \<Longrightarrow> tracker_set t t' ts = ts" by (induction ts) (auto simp: tracker_set_def)
  moreover have "tracker_set t t' (u # ts) = (if u = t then t' else u) # tracker_set t t' ts"
    by (simp add: tracker_set_def)
  ultimately show ?case using Cons by auto
qed simp

lemma tracker_set_length [simp]: "length (tracker_set t t' ts) = length ts"
  by (simp add: tracker_set_def)

lemma tracker_set_append: "tracker_set t t' (xs @ ys) = tracker_set t t' xs @ tracker_set t t' ys"
  by (simp add: tracker_set_def)

lemma tracker_set_ticket: "ticket t' = ticket t \<Longrightarrow> map ticket (tracker_set t t' ts) = map ticket ts"
  by (auto simp: tracker_set_def)

text \<open>A held work is held once.\<close>

lemma wq_owned_count:
  assumes "wq_owned s" shows "count (wq_holders s) w = (if w \<in> pending s then 1 else 0)"
  using assms by (simp add: wq_owned_def count_mset_set)

lemma one_if_one: "(1 :: nat) \<le> a \<Longrightarrow> a \<le> b \<Longrightarrow> b = (if P then 1 else 0) \<Longrightarrow> a = 1 \<and> P"
  by (auto split: if_splits)

lemma wq_owned_queued:
  assumes "wq_owned s" "wq_queued w s"
  shows "count (works (mset (map snd (wq_head s)))) w = 1" "w \<in> pending s"
proof -
  have "1 \<le> count (works (mset (map snd (wq_head s)))) w"
    using assms(2) by (simp add: wq_queued_works Suc_le_eq)
  moreover have "count (works (mset (map snd (wq_head s)))) w \<le> count (wq_holders s) w"
    by (simp add: wq_holders_def)
  ultimately have "count (works (mset (map snd (wq_head s)))) w = 1 \<and> w \<in> pending s"
    using wq_owned_count [OF assms(1), of w] by (rule one_if_one)
  then show "count (works (mset (map snd (wq_head s)))) w = 1" "w \<in> pending s" by simp_all
qed

text \<open>A tracker is in one of the two lists.\<close>

lemma remove1_both:
  "distinct (xs @ ys) \<Longrightarrow> remove1 t xs @ remove1 t ys = remove1 t (xs @ ys)"
  by (auto simp: remove1_append intro!: remove1_idem)

lemma wq_tickets_distinct: "wq_tickets s \<Longrightarrow> distinct (wq_tracking s)"
  by (simp add: wq_tickets_def wq_tks_def distinct_map)

lemma wq_tracking_remove:
  "wq_tickets s \<Longrightarrow> remove1 t (trackList s) @ remove1 t (trackFlushList s) = remove1 t (wq_tracking s)"
  using wq_tickets_distinct [of s] by (simp add: wq_tracking_def remove1_both)

lemma trackers_tracking: "trackers s = set (wq_tracking s)"
  by (simp add: trackers_def wq_tracking_def)

lemma wq_counts_dispatch:
  "wq_counts (dispatch_check s) = wq_counts s"
  by (auto simp: wq_counts_def wq_tracking_def dispatch_check_def)

lemma wq_counts_call: "wq_counts s \<Longrightarrow> helper s > 0 \<Longrightarrow> wq_counts (callout_begin s)"
  by (cases "wq_head s"; cases "trackFree s") (auto simp: callout_begin_def wq_counts_def wq_tracking_def Let_def)

lemma wq_counts_queue: "wq_counts s \<Longrightarrow> wq_counts (queue_work' j s)"
  by (simp add: queue_work'_def wq_counts_dispatch) (simp add: wq_counts_def wq_tracking_def)

lemma wq_counts_frame:
  "wq_counts s \<Longrightarrow> wq_head s' = wq_head s \<Longrightarrow> qLen s' = qLen s \<Longrightarrow> curPosted s' = curPosted s \<Longrightarrow>
   curDispatch s' = curDispatch s \<Longrightarrow> maxDispatch s' = maxDispatch s \<Longrightarrow> trackFree s' = trackFree s \<Longrightarrow>
   length (wq_tracking s') = length (wq_tracking s) \<Longrightarrow> submitting s' + helper s' = submitting s + helper s \<Longrightarrow>
   wq_counts s'"
  by (simp add: wq_counts_def)

lemma wq_counts_finish:
  assumes "wq_counts s" "wq_tickets s" "t \<in> trackers s" shows "wq_counts (callout_end t s)"
proof -
  have "Suc (length (remove1 t (wq_tracking s))) = length (wq_tracking s)"
    using assms(3) by (simp add: trackers_tracking length_remove1_Suc)
  moreover have "length (remove1 t (trackList s)) + length (remove1 t (trackFlushList s)) = length (remove1 t (wq_tracking s))"
    using wq_tracking_remove [OF assms(2), of t] by (metis length_append)
  ultimately show ?thesis using assms(1) unfolding callout_end_def wq_counts_dispatch
    by (auto simp: wq_counts_def wq_tracking_def)
qed

lemma wq_counts_cancel:
  assumes "wq_counts s" "wq_owned s" shows "wq_counts (cancel_locked w tm g r s)"
proof -
  have "int (length (filter (\<lambda>e. snd e \<noteq> Client w) (wq_head s))) = int (length (wq_head s)) - 1" if "wq_queued w s"
    using wq_owned_queued(1) [OF assms(2) that] length_filter_works [of w "wq_head s"] by linarith
  then show ?thesis using assms(1)
    by (auto simp: cancel_locked_def cancel_move_def wq_counts_def wq_tracking_def Let_def)
qed

lemma wq_counts_step:
  assumes "wq_step s s'" "wq_counts s" "wq_tickets s" "wq_owned s"
  shows "wq_counts s'"
  using assms(1)
proof cases
  case (queue_locked w)
  show ?thesis unfolding queue_locked queue_work_locked_def
    by (rule wq_counts_queue) (rule wq_counts_frame [OF assms(2)], simp_all add: wq_tracking_def)
next
  case flush
  show ?thesis unfolding flush flush_start_def
    by (rule wq_counts_frame [OF wq_counts_queue [OF assms(2)]]) (simp_all add: wq_tracking_def)
next
  case refused
  then show ?thesis using assms(2) by (auto simp: dispatch_refused_def wq_counts_def wq_tracking_def)
next
  case accepted
  then show ?thesis using assms(2) by (auto simp: dispatch_accepted_def Let_def wq_counts_def wq_tracking_def)
next
  case relock
  show ?thesis unfolding relock dispatch_relock_def wq_counts_dispatch
    by (rule wq_counts_frame [OF assms(2)]) (simp_all add: wq_tracking_def)
next
  case timeout
  show ?thesis unfolding timeout workqueue_timeout_def wq_counts_dispatch
    by (rule wq_counts_frame [OF assms(2)]) (simp_all add: wq_tracking_def)
next
  case (finish t)
  then show ?thesis using assms(2,3) by (simp add: wq_counts_finish)
next
  case (cancel2 w tm g r)
  then show ?thesis using assms(2,4) by (simp add: wq_counts_cancel)
next
  case call
  then show ?thesis using assms(2) by (simp add: wq_counts_call)
qed (rule wq_counts_frame [OF assms(2)]; simp add: wq_ops wq_tracking_def Let_def)+

section \<open>The tickets\<close>

lemma wq_tickets_frame:
  "wq_tickets s \<Longrightarrow> wq_head s' = wq_head s \<Longrightarrow> wq_tks s' = wq_tks s \<Longrightarrow> next_ticket s' = next_ticket s \<Longrightarrow>
   gone s' = gone s \<Longrightarrow> wq_tickets s'"
  by (simp add: wq_tickets_def)

lemma wq_tickets_shrink:
  assumes "wq_tickets s" "next_ticket s' = next_ticket s"
    and "sorted_wrt (<) (map fst (wq_head s'))" "distinct (wq_tks s')"
    and "fst ` set (wq_head s') \<subseteq> fst ` set (wq_head s)" "set (wq_tks s') \<subseteq> set (wq_tks s)"
    and "set (wq_tks s) \<union> fst ` set (wq_head s) \<union> gone s \<subseteq> set (wq_tks s') \<union> fst ` set (wq_head s') \<union> gone s'"
  shows "wq_tickets s'"
proof -
  have old: "\<forall>k \<in> fst ` set (wq_head s). k < next_ticket s"
    "\<forall>k \<in> set (wq_tks s). k < next_ticket s \<and> (\<forall>e \<in> fst ` set (wq_head s). k < e)"
    "{..<next_ticket s} \<subseteq> set (wq_tks s) \<union> fst ` set (wq_head s) \<union> gone s"
    using assms(1) unfolding wq_tickets_def by blast+
  have "\<forall>k \<in> fst ` set (wq_head s'). k < next_ticket s'" using old(1) assms(2,5) by (metis subsetD)
  moreover have "\<forall>k \<in> set (wq_tks s'). k < next_ticket s' \<and> (\<forall>e \<in> fst ` set (wq_head s'). k < e)"
    using old(2) assms(2,5,6) by (metis subsetD)
  moreover have "{..<next_ticket s'} \<subseteq> set (wq_tks s') \<union> fst ` set (wq_head s') \<union> gone s'"
    unfolding assms(2) using old(3) assms(7) by (rule subset_trans)
  ultimately show ?thesis using assms(3,4) unfolding wq_tickets_def by blast
qed

lemma wq_tks_frame [simp]: "wq_tks (dispatch_check s) = wq_tks s"
  by (simp add: wq_tks_def wq_tracking_def)

lemma wq_tickets_queue:
  assumes "wq_tickets s" shows "wq_tickets (queue_work' j s)"
proof -
  have "wq_tks (queue_work' j s) = wq_tks s" by (simp add: queue_work'_def wq_tks_def wq_tracking_def)
  then show ?thesis using assms
    by (auto simp: wq_tickets_def queue_work'_def sorted_wrt_append lessThan_Suc less_SucI)
qed

lemma wq_tickets_call:
  assumes "wq_tickets s" shows "wq_tickets (callout_begin s)"
proof (cases "wq_head s = [] \<or> curDispatch s \<ge> maxDispatch s \<or> trackFree s = []")
  case True
  then show ?thesis
    by (intro wq_tickets_frame [OF assms]) (auto simp: callout_begin_def Let_def wq_tks_def wq_tracking_def split: list.split)
next
  case False
  then obtain k j h n free where h: "wq_head s = (k, j) # h" and free: "trackFree s = n # free"
    by (metis list.exhaust surj_pair)
  with False have "wq_tks (callout_begin s) = k # wq_tks s" "wq_head (callout_begin s) = h"
    "next_ticket (callout_begin s) = next_ticket s" "gone (callout_begin s) = gone s"
    by (simp_all add: callout_begin_def Let_def wq_tks_def wq_tracking_def)
  then show ?thesis using assms h by (auto simp: wq_tickets_def)
qed

lemma wq_tickets_finish:
  assumes "wq_tickets s" "t \<in> trackers s" shows "wq_tickets (callout_end t s)"
proof -
  have "wq_tks (callout_end t s) = map ticket (remove1 t (wq_tracking s))"
    using wq_tracking_remove [OF assms(1), of t] by (simp add: callout_end_def wq_tks_def) (simp add: wq_tracking_def)
  moreover have "insert (ticket t) (ticket ` set (remove1 t (wq_tracking s))) = set (wq_tks s)"
    using assms(2) wq_tickets_distinct [OF assms(1)] by (auto simp: trackers_tracking wq_tks_def)
  moreover have "distinct (map ticket (remove1 t (wq_tracking s)))"
    using assms(1) by (auto simp: wq_tickets_def wq_tks_def distinct_map intro: inj_on_subset dest: notin_set_remove1)
  moreover have "wq_head (callout_end t s) = wq_head s" "next_ticket (callout_end t s) = next_ticket s"
    "gone (callout_end t s) = insert (ticket t) (gone s)"
    by (simp_all add: callout_end_def)
  ultimately show ?thesis
    using assms(1) by (intro wq_tickets_shrink [OF assms(1)]) (auto simp: wq_tickets_def)
qed

lemma wq_tickets_cancel:
  assumes "wq_tickets s" shows "wq_tickets (cancel_locked w tm g r s)"
proof (cases "wq_queued w s \<and> w \<in> pending s")
  case True
  let ?h = "filter (\<lambda>e. snd e \<noteq> Client w) (wq_head s)"
  have "wq_head (cancel_locked w tm g r s) = ?h" "next_ticket (cancel_locked w tm g r s) = next_ticket s"
    "gone (cancel_locked w tm g r s) = gone s \<union> fst ` {e \<in> set (wq_head s). snd e = Client w}"
    "wq_tks (cancel_locked w tm g r s) = wq_tks s"
    using True by (simp_all add: cancel_locked_def cancel_move_def Let_def wq_tks_def wq_tracking_def)
  moreover have "sorted_wrt (<) (map fst ?h)"
    using assms by (simp add: wq_tickets_def sorted_wrt_map sorted_wrt_filter)
  moreover have "fst ` set (wq_head s) \<subseteq> fst ` set ?h \<union> fst ` {e \<in> set (wq_head s). snd e = Client w}"
    by auto
  ultimately show ?thesis
    using assms by (intro wq_tickets_shrink [OF assms]) (auto simp: wq_tickets_def)
next
  case False
  then show ?thesis
    by (intro wq_tickets_frame [OF assms]) (auto simp: cancel_locked_def cancel_move_def Let_def wq_tks_def wq_tracking_def)
qed

lemma plunger_complete_tracking: "set (wq_tracking (plunger_complete t s)) = set (wq_tracking s)"
  "wq_tks (plunger_complete t s) = wq_tks s"
  by (simp_all add: plunger_complete_def wq_tracking_def wq_tks_def)

lemma wq_tickets_step:
  assumes "wq_step s s'" "wq_tickets s"
  shows "wq_tickets s'"
  using assms(1)
proof cases
  case (queue_locked w)
  show ?thesis unfolding queue_locked queue_work_locked_def
    by (rule wq_tickets_queue) (rule wq_tickets_frame [OF assms(2)], simp_all add: wq_tks_def wq_tracking_def)
next
  case flush
  show ?thesis unfolding flush flush_start_def
    by (rule wq_tickets_frame [OF wq_tickets_queue [OF assms(2)]]) (simp_all add: wq_tks_def wq_tracking_def)
next
  case (finish t)
  then show ?thesis using assms(2) by (simp add: wq_tickets_finish)
next
  case (cancel2 w tm g r)
  then show ?thesis using assms(2) by (simp add: wq_tickets_cancel)
next
  case call
  then show ?thesis using assms(2) by (simp add: wq_tickets_call)
next
  case (clear t)
  then show ?thesis
    by (intro wq_tickets_frame [OF assms(2)])
      (simp_all add: callout_clear_pending_def Let_def wq_tks_def wq_tracking_def tracker_set_ticket)
qed (rule wq_tickets_frame [OF assms(2)]; simp add: wq_ops wq_tks_def wq_tracking_def Let_def)+

section \<open>Who holds a pending bit\<close>

definition canceller_grab :: "'w canceller \<Rightarrow> 'w multiset" where
  "canceller_grab c = (case c of (w, tm, g, r, pc) \<Rightarrow> if g then {#w#} else {#})"

lemma wq_grabbed_add: "wq_grabbed (s\<lparr>cancellers := add_mset c M\<rparr>) = canceller_grab c + wq_grabbed (s\<lparr>cancellers := M\<rparr>)"
  by (cases c) (auto simp: wq_grabbed_def canceller_grab_def)

lemma wq_grabbed_split:
  assumes "c \<in># cancellers s"
  shows "wq_grabbed s = canceller_grab c + wq_grabbed (s\<lparr>cancellers := cancellers s - {#c#}\<rparr>)"
proof -
  obtain M where "cancellers s = add_mset c M" using assms by (metis mset_add)
  then show ?thesis using wq_grabbed_add [where s = s and c = c and M = M] by (cases s) (simp add: wq_grabbed_def)
qed

lemma wq_owned_frame:
  "wq_owned s \<Longrightarrow> pending s' = pending s \<Longrightarrow> wq_holders s' = wq_holders s \<Longrightarrow> wq_owned s'"
  by (simp add: wq_owned_def)

lemma wq_owned_add:
  "wq_owned s \<Longrightarrow> w \<notin> pending s \<Longrightarrow> pending s' = insert w (pending s) \<Longrightarrow>
   wq_holders s' = add_mset w (wq_holders s) \<Longrightarrow> wq_owned s'"
  by (simp add: wq_owned_def)

lemma wq_owned_remove:
  assumes "wq_owned s" "pending s' = pending s - {w}" "wq_holders s = add_mset w (wq_holders s')"
  shows "wq_owned s'"
proof -
  have eq: "add_mset w (wq_holders s') = mset_set (pending s)" and fin: "finite (pending s)"
    using assms(1,3) by (simp_all add: wq_owned_def)
  have "w \<in># mset_set (pending s)" unfolding eq [symmetric] by simp
  then have "mset_set (pending s) = add_mset w (mset_set (pending s - {w}))"
    using fin by (simp add: mset_set.remove)
  with eq show ?thesis using fin assms(2) by (simp add: wq_owned_def)
qed

lemma wq_holders_dispatch [simp]: "wq_holders (dispatch_check s) = wq_holders s"
  by (simp add: wq_holders_def wq_starting_def wq_tracking_def wq_grabbed_def)

lemma wq_holders_queue:
  "wq_holders (queue_work' j s) = works {#j#} + wq_holders s"
  by (simp add: queue_work'_def wq_holders_def wq_starting_def wq_tracking_def wq_grabbed_def)
    (simp add: works_def)

lemma wq_holders_call: "wq_holders (callout_begin s) = wq_holders s"
proof (cases "wq_head s = [] \<or> curDispatch s \<ge> maxDispatch s \<or> trackFree s = []")
  case True
  then show ?thesis
    by (auto simp: callout_begin_def Let_def wq_holders_def wq_starting_def wq_tracking_def wq_grabbed_def split: list.split)
next
  case False
  then obtain k j h n free where "wq_head s = (k, j) # h" "trackFree s = n # free"
    by (metis list.exhaust surj_pair)
  with False show ?thesis
    by (cases j) (simp_all add: callout_begin_def Let_def wq_holders_def wq_starting_def wq_tracking_def wq_grabbed_def)
qed

lemma wq_starting_finish:
  assumes "wq_tickets s" "t \<in> trackers s" "callout_at t = Running"
  shows "wq_holders (callout_end t s) = wq_holders s"
proof -
  have t: "mset (wq_tracking s) = add_mset t (mset (remove1 t (wq_tracking s)))"
    using assms(2) by (simp add: trackers_tracking)
  have "mset (wq_tracking (callout_end t s)) = mset (remove1 t (wq_tracking s))"
    using wq_tracking_remove [OF assms(1), of t] by (simp add: callout_end_def) (simp add: wq_tracking_def)
  then have "wq_starting (callout_end t s) = wq_starting s"
    using assms(3) unfolding wq_starting_def t by simp
  then show ?thesis by (simp add: wq_holders_def wq_grabbed_def callout_end_def)
qed

lemma wq_tracking_clear:
  assumes "wq_tickets s" "t \<in> trackers s"
  shows "mset (wq_tracking (callout_clear_pending t s)) = add_mset (t\<lparr>callout_at := Running\<rparr>) (mset (remove1 t (wq_tracking s)))"
proof -
  have "wq_tracking (callout_clear_pending t s) = tracker_set t (t\<lparr>callout_at := Running\<rparr>) (wq_tracking s)"
    by (simp add: callout_clear_pending_def Let_def wq_tracking_def tracker_set_append)
  then show ?thesis
    using mset_tracker_set [of "wq_tracking s" t] wq_tickets_distinct [OF assms(1)] assms(2) by (simp add: trackers_tracking)
qed

lemma wq_owned_clear:
  assumes "wq_owned s" "wq_tickets s" "t \<in> trackers s" "callout_at t = Starting"
  shows "wq_owned (callout_clear_pending t s)"
proof -
  have "mset (wq_tracking s) = add_mset t (mset (remove1 t (wq_tracking s)))"
    using assms(3) by (simp add: trackers_tracking)
  then obtain R where "mset (wq_tracking s) = add_mset t R"
    "mset (wq_tracking (callout_clear_pending t s)) = add_mset (t\<lparr>callout_at := Running\<rparr>) R"
    using wq_tracking_clear [OF assms(2,3)] by blast
  then have "wq_starting s = works {#executing t#} + wq_starting (callout_clear_pending t s)"
    using assms(4) unfolding wq_starting_def by (cases "executing t") simp_all
  then have h: "wq_holders s = works {#executing t#} + wq_holders (callout_clear_pending t s)"
    by (simp add: wq_holders_def wq_grabbed_def callout_clear_pending_def Let_def)
  show ?thesis
  proof (cases "executing t")
    case (Client w)
    with h show ?thesis
      by (intro wq_owned_remove [OF assms(1), of _ w]) (simp_all add: callout_clear_pending_def Let_def)
  next
    case Plunger
    with h show ?thesis
      by (intro wq_owned_frame [OF assms(1)]) (simp_all add: callout_clear_pending_def Let_def)
  qed
qed

lemma wq_holders_move:
  assumes "c \<in># cancellers s" "cancellers s0 = cancellers s" "wq_tracking s0 = wq_tracking s"
  shows "wq_holders (cancel_move c c' s0) + canceller_grab c + mset (queueing s) + mset (timers s) +
      works (mset (map snd (wq_head s))) =
    wq_holders s + canceller_grab c' + mset (queueing s0) + mset (timers s0) + works (mset (map snd (wq_head s0)))"
proof -
  have "wq_grabbed (cancel_move c c' s0) = canceller_grab c' + wq_grabbed (s\<lparr>cancellers := cancellers s - {#c#}\<rparr>)"
    using wq_grabbed_add [where s = s0 and c = c' and M = "cancellers s - {#c#}"] assms(2)
    by (simp add: cancel_move_def wq_grabbed_def)
  moreover have "wq_starting (cancel_move c c' s0) = wq_starting s"
    using assms(3) by (simp add: cancel_move_def wq_starting_def wq_tracking_def)
  ultimately show ?thesis
    using wq_grabbed_split [OF assms(1)] by (simp add: wq_holders_def) (simp add: cancel_move_def)
qed

text \<open>A canceller that does not touch the queue or the bits.\<close>

lemma wq_owned_move_same:
  assumes "wq_owned s" "c \<in># cancellers s" "canceller_grab c' = canceller_grab c"
  shows "wq_owned (cancel_move c c' s)"
  using wq_holders_move [OF assms(2) refl refl, of c'] assms(3)
  by (intro wq_owned_frame [OF assms(1)]) (simp_all add: cancel_move_def)

lemma wq_owned_cancel_grab:
  assumes "wq_owned s" "(w, tm, False, r, Cancel_top) \<in># cancellers s"
  shows "wq_owned (cancel_grab w tm r s)"
proof -
  let ?c = "(w, tm, False, r, Cancel_top)"
  consider "w \<notin> pending s" | "w \<in> pending s" "tm" "w \<in> set (timers s)"
    | "w \<in> pending s" "\<not> (tm \<and> w \<in> set (timers s))" by blast
  then show ?thesis
  proof cases
    case 1
    let ?s = "s\<lparr>pending := insert w (pending s)\<rparr>"
    have "wq_holders (cancel_move ?c (w, tm, True, r, Cancel_lock) ?s) = add_mset w (wq_holders s)"
      using wq_holders_move [OF assms(2), of ?s "(w, tm, True, r, Cancel_lock)"]
      by (simp add: canceller_grab_def wq_tracking_def)
    with 1 show ?thesis
      by (intro wq_owned_add [OF assms(1) 1]) (simp_all add: cancel_grab_def cancel_move_def)
  next
    case 2
    let ?s = "s\<lparr>timers := remove1 w (timers s)\<rparr>"
    have "mset (timers s) = add_mset w (mset (remove1 w (timers s)))" using 2(3) by simp
    then have "wq_holders (cancel_move ?c (w, tm, True, 1, Cancel_lock) ?s) = wq_holders s"
      using wq_holders_move [OF assms(2), of ?s "(w, tm, True, 1, Cancel_lock)"]
      by (simp add: canceller_grab_def wq_tracking_def del: mset_remove1)
    with 2 show ?thesis
      by (intro wq_owned_frame [OF assms(1)]) (simp_all add: cancel_grab_def cancel_move_def)
  next
    case 3
    then show ?thesis
      using wq_owned_move_same [OF assms, of "(w, tm, False, r, Cancel_lock)"]
      by (auto simp: cancel_grab_def canceller_grab_def)
  qed
qed

lemma last_holder:
  "(1 :: nat) \<le> e \<Longrightarrow> a + b + c + d + e = (if P then 1 else 0) \<Longrightarrow> P \<and> c = 0 \<and> b = 0 \<and> a = 0 \<and> d = 0"
  by (auto split: if_splits)

lemma wq_owned_grabbed_not_queued:
  assumes "wq_owned s" "(w, tm, True, r, pc) \<in># cancellers s"
  shows "w \<in> pending s" "\<not> wq_queued w s" "w \<notin> set (timers s)" "w \<notin> set (queueing s)"
    "w \<notin># wq_starting s"
proof -
  have "1 \<le> count (wq_grabbed s) w"
    using wq_grabbed_split [OF assms(2)] by (simp add: canceller_grab_def)
  moreover have "count (wq_holders s) w = (if w \<in> pending s then 1 else 0)"
    by (rule wq_owned_count [OF assms(1)])
  ultimately have "w \<in> pending s \<and> count (works (mset (map snd (wq_head s)))) w = 0 \<and>
      count (mset (timers s)) w = 0 \<and> count (mset (queueing s)) w = 0 \<and> count (wq_starting s) w = 0"
    unfolding wq_holders_def count_union by (rule last_holder)
  then show "w \<in> pending s" "\<not> wq_queued w s" "w \<notin> set (timers s)" "w \<notin> set (queueing s)" "w \<notin># wq_starting s"
    by (simp_all add: wq_queued_works count_eq_zero_iff)
qed

lemma wq_owned_cancel_locked:
  assumes "wq_owned s" "(w, tm, g, r, Cancel_lock) \<in># cancellers s"
  shows "wq_owned (cancel_locked w tm g r s)"
proof (cases "wq_queued w s")
  case True
  let ?h = "filter (\<lambda>e. snd e \<noteq> Client w) (wq_head s)"
  let ?c = "(w, tm, g, r, Cancel_lock)"
  let ?c' = "(w, tm, True, 1, if work_executing w s then Cancel_wait else Cancel_bottom)"
  let ?s = "s\<lparr>wq_head := ?h, qLen := qLen s - 1,
    gone := gone s \<union> fst ` {e \<in> set (wq_head s). snd e = Client w}\<rparr>"
  have g: "\<not> g" using wq_owned_grabbed_not_queued(2) [OF assms(1)] assms(2) True by (cases g) auto
  have one: "count (works (mset (map snd (wq_head s)))) w = 1" "w \<in> pending s"
    by (rule wq_owned_queued [OF assms(1) True])+
  have "works (mset (map snd ?h)) = works (mset (map snd (wq_head s))) - {#w#}"
    unfolding works_filter by (rule filter_neq_count_one [OF one(1)])
  moreover have "w \<in># works (mset (map snd (wq_head s)))" using True by (simp add: wq_queued_works)
  ultimately have "works (mset (map snd (wq_head s))) = add_mset w (works (mset (map snd ?h)))" by simp
  then have "wq_holders (cancel_move ?c ?c' ?s) = wq_holders s"
    using wq_holders_move [OF assms(2), of ?s ?c'] g by (simp add: canceller_grab_def wq_tracking_def)
  with True one(2) show ?thesis
    by (intro wq_owned_frame [OF assms(1)]) (simp_all add: cancel_locked_def cancel_move_def Let_def)
next
  case False
  then show ?thesis
    using wq_owned_move_same [OF assms, of "(w, tm, g, r, if work_executing w s then Cancel_wait else Cancel_bottom)"]
    by (simp add: cancel_locked_def canceller_grab_def)
qed

lemma wq_owned_cancel_return:
  assumes "wq_owned s" "(w, tm, True, r, Cancel_bottom) \<in># cancellers s"
  shows "wq_owned (cancel_return w tm r s)"
proof -
  have "wq_grabbed s = add_mset w (wq_grabbed (cancel_return w tm r s))"
    using wq_grabbed_split [OF assms(2)] by (simp add: canceller_grab_def cancel_return_def wq_grabbed_def)
  then show ?thesis
    by (intro wq_owned_remove [OF assms(1), of _ w])
      (simp_all add: cancel_return_def wq_holders_def wq_starting_def wq_tracking_def)
qed

lemmas wq_holder_defs = wq_holders_def wq_starting_def wq_tracking_def wq_grabbed_def

lemma wq_owned_step:
  assumes "wq_step s s'" "wq_tickets s" "wq_owned s"
  shows "wq_owned s'"
  using assms(1)
proof cases
  case (queue w)
  then show ?thesis
    by (cases "w \<in> pending s \<or> setExitFlag s")
      (auto simp: vmklnx_queue_work_def assms(3) wq_holder_defs intro!: wq_owned_add [OF assms(3), of w])
next
  case (delayed w d)
  then show ?thesis
    by (cases "w \<in> pending s \<or> d = 0 \<and> setExitFlag s")
      (auto simp: queue_delayed_work_def vmklnx_queue_work_def assms(3) wq_holder_defs intro!: wq_owned_add [OF assms(3), of w])
next
  case (queue_locked w)
  then have "mset (queueing s) = add_mset w (mset (remove1 w (queueing s)))" by simp
  then have "wq_holders (queue_work_locked w s) = wq_holders s"
    by (simp only: queue_work_locked_def wq_holders_queue) (simp add: wq_holder_defs del: mset_remove1)
  then show ?thesis unfolding queue_locked
    by (intro wq_owned_frame [OF assms(3)]) (simp_all add: queue_work_locked_def queue_work'_def)
next
  case (timer w)
  then have "mset (timers s) = add_mset w (mset (remove1 w (timers s)))" by simp
  then show ?thesis unfolding timer
    by (intro wq_owned_frame [OF assms(3)]) (simp_all add: delayed_work_timer_fn_def wq_holder_defs del: mset_remove1)
next
  case call
  then show ?thesis
    by (intro wq_owned_frame [OF assms(3)]) (simp_all add: wq_holders_call callout_begin_frame)
next
  case (clear t)
  then show ?thesis using assms(2,3) by (simp add: wq_owned_clear)
next
  case (finish t)
  show ?thesis unfolding finish(1)
    by (rule wq_owned_frame [OF assms(3) _ wq_starting_finish [OF assms(2) finish(2,3)]]) (simp add: callout_end_def)
next
  case flush
  then show ?thesis
    by (intro wq_owned_frame [OF assms(3)])
      (simp_all add: flush_start_def queue_work'_def wq_holder_defs)
next
  case (cancel w tm)
  then show ?thesis
    by (intro wq_owned_frame [OF assms(3)]) (simp_all add: cancel_enter_def wq_holder_defs)
next
  case (cancel1 w tm r)
  then show ?thesis using assms(3) by (simp add: wq_owned_cancel_grab)
next
  case (cancel2 w tm g r)
  then show ?thesis using assms(3) by (simp add: wq_owned_cancel_locked)
next
  case (cancel3 w tm g r)
  then show ?thesis
    using wq_owned_move_same [OF assms(3) cancel3(2)] by (simp add: cancel_rescan_def canceller_grab_def)
next
  case (cancel4 w tm r)
  then show ?thesis
    using wq_owned_move_same [OF assms(3) cancel4(2)] by (simp add: cancel_retry_def canceller_grab_def)
next
  case (cancel5 w tm r)
  then show ?thesis using assms(3) by (simp add: wq_owned_cancel_return)
qed (rule wq_owned_frame [OF assms(3)]; simp add: wq_ops wq_holder_defs Let_def)+

section \<open>No work is left behind\<close>

text \<open>While work is queued, something will look at the queue again: a callout that runs, a request
  on its way to the helper, or the timer.\<close>

definition wq_attended :: "'w workqueue \<Rightarrow> bool" where
  "wq_attended s \<longleftrightarrow> (wq_head s \<noteq> [] \<longrightarrow> curDispatch s > 0 \<or>
     submitting s + helper s + relocking s + arming s > 0 \<or> delayTimer s)"

lemma wq_attended_dispatch:
  "wq_counts s \<Longrightarrow> wq_attended (dispatch_check s)"
  by (cases "wq_head s") (auto simp: wq_attended_def dispatch_check_def wq_counts_def)

lemma wq_attended_call:
  assumes "wq_counts s" shows "wq_attended (callout_begin s)"
proof (cases "wq_head s = [] \<or> curDispatch s \<ge> maxDispatch s")
  case True
  then show ?thesis using assms by (auto simp: wq_attended_def callout_begin_def Let_def wq_counts_def)
next
  case False
  then have "trackFree s \<noteq> []" using assms by (auto simp: wq_counts_def)
  with False assms show ?thesis
    by (auto simp: wq_attended_def callout_begin_def Let_def wq_counts_def split: list.split)
qed

lemma wq_attended_step:
  assumes "wq_step s s'" "wq_counts s" "wq_counts s'" "wq_attended s"
  shows "wq_attended s'"
  using assms(1)
proof cases
  case (queue_locked w)
  then show ?thesis using assms(3)
    by (simp add: queue_work_locked_def queue_work'_def wq_attended_dispatch wq_counts_dispatch)
next
  case relock
  then show ?thesis using assms(3) by (simp add: dispatch_relock_def wq_attended_dispatch wq_counts_dispatch)
next
  case timeout
  then show ?thesis using assms(3) by (simp add: workqueue_timeout_def wq_attended_dispatch wq_counts_dispatch)
next
  case (finish t)
  then show ?thesis using assms(3) by (simp add: callout_end_def wq_attended_dispatch wq_counts_dispatch)
next
  case flush
  have "wq_attended (queue_work' Plunger s)"
    using wq_counts_queue [OF assms(2), of Plunger] by (simp add: queue_work'_def wq_attended_dispatch wq_counts_dispatch)
  then show ?thesis by (simp add: flush flush_start_def wq_attended_def)
next
  case call
  then show ?thesis using assms(2) by (simp add: wq_attended_call)
qed (use assms(4) in \<open>auto simp: wq_attended_def wq_ops Let_def\<close>)

section \<open>Cancelled work does not run\<close>

definition wq_cancel_safe :: "'w workqueue \<Rightarrow> bool" where
  "wq_cancel_safe s \<longleftrightarrow> (\<forall>w tm r. (w, tm, True, r, Cancel_bottom) \<in># cancellers s \<longrightarrow> \<not> work_executing w s)"

lemma wq_cancel_safe_mono:
  assumes "wq_cancel_safe s" "cancellers s' \<subseteq># cancellers s" "\<And>w. work_executing w s' \<Longrightarrow> work_executing w s"
  shows "wq_cancel_safe s'"
  using assms unfolding wq_cancel_safe_def by (meson mset_subset_eqD)

lemma work_executing_tracking: "work_executing w s \<longleftrightarrow> Client w \<in> executing ` set (wq_tracking s)"
  by (auto simp: work_executing_def wq_tracking_def)

lemma wq_cancel_safe_frame:
  "wq_cancel_safe s \<Longrightarrow> cancellers s' = cancellers s \<Longrightarrow> set (wq_tracking s') = set (wq_tracking s) \<Longrightarrow>
   wq_cancel_safe s'"
  by (simp add: wq_cancel_safe_def work_executing_tracking)

lemma wq_cancel_safe_move:
  assumes "wq_cancel_safe s" "wq_tracking s0 = wq_tracking s" "cancellers s0 = cancellers s"
    and "fst c' = w" "snd (snd (snd (snd c'))) = Cancel_bottom \<Longrightarrow> \<not> work_executing w s"
  shows "wq_cancel_safe (cancel_move c c' s0)"
proof -
  have "work_executing v (cancel_move c c' s0) = work_executing v s" for v
    using assms(2) by (simp add: work_executing_tracking cancel_move_def wq_tracking_def)
  moreover have "c' = d \<or> d \<in># cancellers s" if "d \<in># cancellers (cancel_move c c' s0)" for d
    using that assms(3) by (auto simp: cancel_move_def dest: in_diffD)
  ultimately show ?thesis using assms(1,4,5) unfolding wq_cancel_safe_def by fastforce
qed

lemma work_executing_call:
  assumes "work_executing w (callout_begin s)" shows "work_executing w s \<or> wq_queued w s"
proof (cases "wq_head s = [] \<or> curDispatch s \<ge> maxDispatch s \<or> trackFree s = []")
  case True
  then show ?thesis using assms
    by (auto simp: callout_begin_def Let_def work_executing_tracking wq_tracking_def split: list.splits)
next
  case False
  then obtain k j h n free where "wq_head s = (k, j) # h" "trackFree s = n # free"
    by (metis list.exhaust surj_pair)
  with False assms show ?thesis
    by (auto simp: callout_begin_def Let_def work_executing_tracking wq_tracking_def wq_queued_def)
qed

lemma wq_cancel_safe_step:
  assumes "wq_step s s'" "wq_tickets s" "wq_owned s" "wq_cancel_safe s"
  shows "wq_cancel_safe s'"
  using assms(1)
proof cases
  case call
  have "\<not> wq_queued w s" if "(w, tm, True, r, Cancel_bottom) \<in># cancellers s" for w tm r
    using wq_owned_grabbed_not_queued(2) [OF assms(3) that] .
  then show ?thesis using assms(4) work_executing_call unfolding call wq_cancel_safe_def
    by (metis callout_begin_frame(2))
next
  case (clear t)
  have "executing ` set (wq_tracking (callout_clear_pending t s)) = executing ` set (wq_tracking s)"
  proof -
    have "set (wq_tracking (callout_clear_pending t s)) = insert (t\<lparr>callout_at := Running\<rparr>) (set (wq_tracking s) - {t})"
      using wq_tracking_clear [OF assms(2) clear(2)] wq_tickets_distinct [OF assms(2)]
      by (metis set_mset_add_mset_insert set_mset_mset set_remove1_eq)
    then show ?thesis using clear(2) by (auto simp: trackers_tracking)
  qed
  then show ?thesis unfolding clear
    by (intro wq_cancel_safe_mono [OF assms(4)]) (simp_all add: work_executing_tracking, simp add: callout_clear_pending_def Let_def)
next
  case (finish t)
  have "executing ` set (remove1 t xs) \<subseteq> executing ` set xs" for xs
    by (intro image_mono set_remove1_subset)
  then have "work_executing w (callout_end t s) \<Longrightarrow> work_executing w s" for w
    unfolding work_executing_def by (simp add: callout_end_def) blast
  then show ?thesis unfolding finish(1)
    by (intro wq_cancel_safe_mono [OF assms(4)]) (simp_all add: callout_end_def)
next
  case (cancel w tm)
  then show ?thesis using assms(4)
    by (auto simp: wq_cancel_safe_def cancel_enter_def work_executing_def)
next
  case (cancel1 w tm r)
  then show ?thesis
    by (auto simp: cancel_grab_def Let_def wq_tracking_def intro!: wq_cancel_safe_move [OF assms(4), where w = w])
next
  case (cancel2 w tm g r)
  then show ?thesis
    by (auto simp: cancel_locked_def Let_def wq_tracking_def intro!: wq_cancel_safe_move [OF assms(4), where w = w])
next
  case (cancel3 w tm g r)
  then show ?thesis
    by (auto simp: cancel_rescan_def intro!: wq_cancel_safe_move [OF assms(4), where w = w])
next
  case (cancel4 w tm r)
  then show ?thesis
    by (auto simp: cancel_retry_def intro!: wq_cancel_safe_move [OF assms(4), where w = w])
next
  case (cancel5 w tm r)
  then show ?thesis
    by (intro wq_cancel_safe_mono [OF assms(4)]) (simp_all add: cancel_return_def work_executing_def)
qed (rule wq_cancel_safe_frame [OF assms(4)]; simp add: wq_ops wq_tracking_def Let_def)+

section \<open>A flush waits for everything before it\<close>

fun wq_flush_ok :: "flush_pc \<Rightarrow> 'w workqueue \<Rightarrow> bool" where
  "wq_flush_ok (Flush_plunged p) s = ({..<p} \<subseteq> gone s \<union> ticket ` set (trackFlushList s))"
| "wq_flush_ok (Flush_draining p) s = ({..<p} \<subseteq> gone s \<union> ticket ` set (trackFlushList s))"
| "wq_flush_ok _ s = True"

lemma wq_flush_ok_mono:
  assumes "wq_flush_ok (flusher s) s" "flusher s' = flusher s"
    and "gone s \<union> ticket ` set (trackFlushList s) \<subseteq> gone s' \<union> ticket ` set (trackFlushList s')"
  shows "wq_flush_ok (flusher s') s'"
proof (cases "flusher s")
  case (Flush_plunged p)
  then show ?thesis using assms by (simp only: wq_flush_ok.simps)
next
  case (Flush_draining p)
  then show ?thesis using assms by (simp only: wq_flush_ok.simps)
qed (use assms(2) in simp_all)

lemma wq_flush_ok_step:
  assumes "wq_step s s'" "wq_tickets s" "wq_flush_ok (flusher s) s"
  shows "wq_flush_ok (flusher s') s'"
  using assms(1)
proof cases
  case (plunge t)
  have "ticket t \<in> set (wq_tks s)" using plunge(2) by (simp add: trackers_tracking wq_tks_def)
  then have "ticket t < next_ticket s" "\<forall>e \<in> fst ` set (wq_head s). ticket t < e"
    using assms(2) unfolding wq_tickets_def by blast+
  moreover have "{..<next_ticket s} \<subseteq> set (wq_tks s) \<union> fst ` set (wq_head s) \<union> gone s"
    using assms(2) unfolding wq_tickets_def by blast
  ultimately have "k \<in> set (wq_tks s) \<union> gone s" if "k < ticket t" for k
    using that by (meson UnE UnI1 UnI2 lessThan_iff less_trans not_less_iff_gr_or_eq subsetD)
  then have "{..<ticket t} \<subseteq> set (wq_tks s) \<union> gone s" by blast
  then show ?thesis unfolding plunge
    by (auto simp: plunger_complete_def wq_tks_def wq_tracking_def)
next
  case (finish t)
  have "ticket ` set (trackFlushList s) \<subseteq> insert (ticket t) (ticket ` set (remove1 t (trackFlushList s)))"
    by (metis image_insert image_mono insert_subset set_subset_Cons subsetI in_set_remove1 insert_iff)
  then show ?thesis unfolding finish(1)
    by (intro wq_flush_ok_mono [OF assms(3)]) (auto simp: callout_end_def)
next
  case (clear t)
  have "ticket ` set (trackFlushList (callout_clear_pending t s)) = set (map ticket (trackFlushList s))"
    by (simp only: set_map [symmetric] callout_clear_pending_def Let_def) (simp add: tracker_set_ticket del: set_map)
  then show ?thesis unfolding clear(1)
    by (intro wq_flush_ok_mono [OF assms(3)]) (simp_all add: callout_clear_pending_def Let_def)
next
  case call
  then show ?thesis
    by (intro wq_flush_ok_mono [OF assms(3)]) (simp_all add: callout_begin_frame)
next
  case (flushed p)
  then show ?thesis using assms(3) by (simp add: flush_completed_def)
next
  case (flush_ret p)
  then show ?thesis by (simp add: flush_return_def)
next
  case flush
  then show ?thesis by (simp add: flush_start_def)
qed (rule wq_flush_ok_mono [OF assms(3)]; auto simp: wq_ops Let_def)+

section \<open>The invariant of reachable states\<close>

definition wq_inv :: "'w workqueue \<Rightarrow> bool" where
  "wq_inv s \<longleftrightarrow> wq_counts s \<and> wq_tickets s \<and> wq_owned s \<and> wq_attended s \<and> wq_cancel_safe s \<and>
     wq_flush_ok (flusher s) s"

lemma wq_inv_create: "1 \<le> n \<Longrightarrow> wq_inv (create_workqueue n b)"
  by (simp add: wq_inv_def create_workqueue_def Let_def wq_counts_def wq_tracking_def wq_tickets_def
      wq_tks_def wq_owned_def wq_holders_def wq_starting_def wq_grabbed_def wq_attended_def wq_cancel_safe_def)

lemma wq_inv_step: "wq_inv s \<Longrightarrow> wq_step s s' \<Longrightarrow> wq_inv s'"
  unfolding wq_inv_def
  using wq_counts_step wq_tickets_step wq_owned_step wq_attended_step wq_cancel_safe_step wq_flush_ok_step
  by blast

lemma wq_reachable_inv: "wq_reachable n b s \<Longrightarrow> wq_inv s"
  by (erule wq_reachable_induct) (auto intro: wq_inv_create wq_inv_step)

lemma wq_reachable_step: "wq_reachable n b s \<Longrightarrow> wq_step s s' \<Longrightarrow> wq_reachable n b s'"
  by (auto simp: wq_reachable_def intro: rtranclp.rtrancl_into_rtrancl)

lemma wq_reachable_create: "1 \<le> n \<Longrightarrow> wq_reachable n b (create_workqueue n b)"
  by (simp add: wq_reachable_def)

section \<open>Properties\<close>

text \<open>The counters of a work queue agree with its lists in every interleaving. \<open>qLen\<close> is the
  length of the queue, \<open>curPosted\<close> the number of requests at or on their way to the helper,
  \<open>curDispatch\<close> the number of callouts in progress, each with a tracking element, the free
  tracking elements are the rest of \<open>maxDispatch\<close>, and the limit on concurrent callouts holds.\<close>

theorem workqueue_counters:
  assumes "wq_reachable n single s"
  shows "qLen s = int (length (wq_head s)) \<and> curPosted s = int (submitting s + helper s) \<and>
    curDispatch s = int (length (trackList s) + length (trackFlushList s)) \<and>
    int (length (trackFree s)) = maxDispatch s - curDispatch s \<and> 0 \<le> curDispatch s \<and> curDispatch s \<le> maxDispatch s"
  using wq_reachable_inv [OF assms] by (auto simp: wq_inv_def wq_counts_def wq_tracking_def)

theorem workqueue_counters_witness:
  "qLen (queue_work_locked 7 (snd (vmklnx_queue_work (7::nat) (create_workqueue 8 False)))) = 1"
  using workqueue_counters [OF wq_reachable_step [OF wq_reachable_step [OF wq_reachable_create [of 8 False]
        wq_step.queue [of _ "7::nat"]] wq_step.queue_locked [of 7]]]
  by (simp add: vmklnx_queue_work_def create_workqueue_def queue_work_locked_def queue_work'_def)

text \<open>C11: No queued work is forgotten. Whenever the queue is not empty, a callout is running (and
  dispatches again when it ends), a request is on its way to or waiting in the helper, a dispatcher
  is about to look again, or the retry timer is armed, whatever the helper refuses and however the
  worlds interleave.\<close>

theorem workqueue_no_lost_work:
  assumes "wq_reachable n single s" "wq_head s \<noteq> []"
  shows "curDispatch s > 0 \<or> submitting s > 0 \<or> helper s > 0 \<or> relocking s > 0 \<or> arming s > 0 \<or> delayTimer s"
  using wq_reachable_inv [OF assms(1)] assms(2) by (auto simp: wq_inv_def wq_attended_def)

theorem workqueue_no_lost_work_witness:
  "let s = dispatch_refused (queue_work_locked 7 (snd (vmklnx_queue_work (7::nat) (create_workqueue 8 False))))
   in wq_head s \<noteq> [] \<and> (curDispatch s > 0 \<or> submitting s > 0 \<or> helper s > 0 \<or> relocking s > 0 \<or> arming s > 0 \<or> delayTimer s)"
  using workqueue_no_lost_work [OF wq_reachable_step [OF wq_reachable_step [OF wq_reachable_step [OF wq_reachable_create [of 8 False]
        wq_step.queue [of _ "7::nat"]] wq_step.queue_locked [of 7]] wq_step.refused]]
  by (simp add: vmklnx_queue_work_def create_workqueue_def queue_work_locked_def queue_work'_def
      dispatch_refused_def dispatch_check_def)

text \<open>Work starts in the order in which it was queued. A callout that takes work takes the oldest
  entry: all callouts in progress were queued before it and all entries left in the queue after it.\<close>

theorem workqueue_fifo:
  assumes "wq_reachable n single s" "helper s > 0" "wq_head s = (k, j) # h" "curDispatch s < maxDispatch s"
  shows "wq_head (callout_begin s) = h \<and>
    (\<exists>t. trackList (callout_begin s) = t # trackList s \<and> ticket t = k \<and> executing t = j) \<and>
    (\<forall>t \<in> trackers s. ticket t < k) \<and> (\<forall>e \<in> set h. k < fst e)"
proof -
  have inv: "wq_counts s" "wq_tickets s" using wq_reachable_inv [OF assms(1)] by (simp_all add: wq_inv_def)
  then obtain f free where "trackFree s = f # free"
    using assms(4) by (cases "trackFree s") (auto simp: wq_counts_def)
  then show ?thesis
    using inv(2) assms(3,4) by (auto simp: callout_begin_def Let_def wq_tickets_def wq_tks_def trackers_tracking)
qed

theorem workqueue_fifo_witness:
  "let s = dispatch_accepted (queue_work_locked 7 (snd (vmklnx_queue_work (7::nat) (create_workqueue 8 False))))
   in wq_head (callout_begin s) = [] \<and> (\<exists>t. trackList (callout_begin s) = [t] \<and> ticket t = 0 \<and> executing t = Client 7)"
  using workqueue_fifo [OF wq_reachable_step [OF wq_reachable_step [OF wq_reachable_step [OF wq_reachable_create [of 8 False]
        wq_step.queue [of _ "7::nat"]] wq_step.queue_locked [of 7]] wq_step.accepted], of 0 "Client 7" "[]"]
  by (simp add: vmklnx_queue_work_def create_workqueue_def queue_work_locked_def queue_work'_def
      dispatch_accepted_def dispatch_check_def trackers_def)

text \<open>C5: \<open>flush_workqueue\<close> keeps its promise. When it returns, every work that was queued before the
  flush has been executed to the end of its callback, or cancelled, although the queue may be
  multi-threaded and work may be queued, cancelled and requeued at any time.\<close>

theorem flush_workqueue_drains:
  assumes "wq_reachable n single s" "flusher s = Flush_draining p" "trackFlushList s = []" "k < p"
  shows "k \<in> gone s"
  using wq_reachable_inv [OF assms(1)] assms(2-4) by (auto simp: wq_inv_def)

text \<open>One work runs to its end on a single-threaded queue, then the queue is flushed.\<close>

definition wq_demo_tracker :: "nat \<Rightarrow> nat job \<Rightarrow> callout_pc \<Rightarrow> nat work_tracker" where
  "wq_demo_tracker k j pc = \<lparr>slot = 0, ticket = k, executing = j, callout_at = pc\<rparr>"

definition wq_demo_worked :: "nat workqueue" where
  "wq_demo_worked = callout_end (wq_demo_tracker 0 (Client 7) Running)
     (callout_clear_pending (wq_demo_tracker 0 (Client 7) Starting)
     (callout_begin (dispatch_accepted (queue_work_locked 7
     (snd (vmklnx_queue_work 7 (create_workqueue 1 True)))))))"

definition wq_demo_flushed :: "nat workqueue" where
  "wq_demo_flushed = callout_end (wq_demo_tracker 1 Plunger Running)
     (flush_completed 1 (plunger_complete (wq_demo_tracker 1 Plunger Running)
     (callout_clear_pending (wq_demo_tracker 1 Plunger Starting)
     (callout_begin (dispatch_accepted (flush_start wq_demo_worked))))))"

lemmas wq_demo_defs = wq_demo_tracker_def create_workqueue_def vmklnx_queue_work_def queue_work_locked_def
  queue_work'_def dispatch_accepted_def dispatch_check_def callout_begin_def callout_clear_pending_def
  callout_end_def tracker_set_def trackers_def flush_start_def plunger_complete_def flush_completed_def

lemma wq_demo_worked_eq:
  "wq_demo_worked = (create_workqueue 1 True)\<lparr>next_ticket := 1, gone := {0}\<rparr>"
  by (simp add: wq_demo_worked_def wq_demo_defs)

lemma wq_demo_worked_reachable: "wq_reachable 1 True wq_demo_worked"
  unfolding wq_demo_worked_def
  by (rule wq_reachable_step [OF _ wq_step.finish], rule wq_reachable_step [OF _ wq_step.clear],
      rule wq_reachable_step [OF _ wq_step.call], rule wq_reachable_step [OF _ wq_step.accepted],
      rule wq_reachable_step [OF _ wq_step.queue_locked], rule wq_reachable_step [OF _ wq_step.queue],
      rule wq_reachable_create, simp_all add: wq_demo_defs)

lemma wq_demo_flushed_reachable: "wq_reachable 1 True wq_demo_flushed"
  unfolding wq_demo_flushed_def
  by (rule wq_reachable_step [OF _ wq_step.finish], rule wq_reachable_step [OF _ wq_step.flushed],
      rule wq_reachable_step [OF _ wq_step.plunge], rule wq_reachable_step [OF _ wq_step.clear],
      rule wq_reachable_step [OF _ wq_step.call], rule wq_reachable_step [OF _ wq_step.accepted],
      rule wq_reachable_step [OF _ wq_step.flush], rule wq_demo_worked_reachable)
    (simp_all add: wq_demo_worked_eq wq_demo_defs)

theorem flush_workqueue_drains_witness:
  "flusher wq_demo_flushed = Flush_draining 1 \<and> trackFlushList wq_demo_flushed = [] \<and> 0 \<in> gone wq_demo_flushed"
  using flush_workqueue_drains [OF wq_demo_flushed_reachable, of 1 0]
  by (simp add: wq_demo_flushed_def wq_demo_worked_eq wq_demo_defs)

text \<open>C9: \<open>vmklnx_cancel_work_sync\<close> keeps its promise. When it is about to return it still holds the
  pending bit, and the work is not queued, its timer is not armed, nobody is about to queue it, and
  no callout of it is running.\<close>

theorem cancel_work_sync_complete:
  assumes "wq_reachable n single s" "(w, tm, True, ret, Cancel_bottom) \<in># cancellers s"
  shows "w \<in> pending s \<and> \<not> wq_queued w s \<and> w \<notin> set (timers s) \<and> w \<notin> set (queueing s) \<and> \<not> work_executing w s"
  using wq_reachable_inv [OF assms(1)] wq_owned_grabbed_not_queued [OF _ assms(2)] assms(2)
  by (auto simp: wq_inv_def wq_cancel_safe_def)

theorem cancel_work_sync_complete_witness:
  "let s = cancel_locked (7::nat) False True 0 (cancel_grab 7 False 0 (cancel_enter 7 False (create_workqueue 8 False)))
   in 7 \<in> pending s \<and> \<not> wq_queued 7 s \<and> \<not> work_executing 7 s"
  using cancel_work_sync_complete [OF wq_reachable_step [OF wq_reachable_step [OF wq_reachable_step [OF wq_reachable_create [of 8 False]
        wq_step.cancel [of _ "7::nat" False]] wq_step.cancel1 [of 7 False 0]] wq_step.cancel2 [of 7 False True 0]], of 7 False 0]
  by (simp add: cancel_enter_def cancel_grab_def cancel_locked_def cancel_move_def create_workqueue_def Let_def
      wq_queued_def work_executing_def)

end
