(* ===== verification/Usb_Config.thy ===== *)
theory Usb_Config
  imports Prelude
begin

text \<open>
  Parsing of USB configuration descriptors, \<^verbatim>\<open>drivers/usb/core/config.c\<close>: the bytes come from the
  device and may be anything. A C pointer into the buffer is the list of the bytes from there to
  the end of the allocation, so that \<open>buffer += n\<close> is \<^term>\<open>drop n buffer\<close>; a read outside it, a
  write outside an array, or a loop that does not end is \<^term>\<open>None\<close>. Descriptors are lists of
  their bytes in the layout of \<^verbatim>\<open>ch9.h\<close>; a pair \<open>extra\<close>, \<open>extralen\<close> is the list of
  the bytes it denotes. Arrays have the length they are allocated with. The allocator is the
  parameter \<open>alloc\<close>, which says for a number of elements whether \<open>kzalloc\<close> succeeds. Warnings,
  and the loops that only look for numbers to warn about, are left out.
\<close>

section \<open>Descriptors\<close>

abbreviation (input) USB_DT_DEVICE :: u8 where "USB_DT_DEVICE \<equiv> 0x01"
abbreviation (input) USB_DT_CONFIG :: u8 where "USB_DT_CONFIG \<equiv> 0x02"
abbreviation (input) USB_DT_INTERFACE :: u8 where "USB_DT_INTERFACE \<equiv> 0x04"
abbreviation (input) USB_DT_ENDPOINT :: u8 where "USB_DT_ENDPOINT \<equiv> 0x05"
abbreviation (input) USB_DT_INTERFACE_ASSOCIATION :: u8 where "USB_DT_INTERFACE_ASSOCIATION \<equiv> 0x0b"

definition USB_MAXALTSETTING :: nat where "USB_MAXALTSETTING = 128"
definition USB_MAXENDPOINTS :: nat where "USB_MAXENDPOINTS = 30"
definition USB_MAXINTERFACES :: nat where "USB_MAXINTERFACES = 32"
definition USB_MAXIADS :: nat where "USB_MAXIADS = 16"

datatype usb_device_speed = USB_SPEED_UNKNOWN | USB_SPEED_LOW | USB_SPEED_FULL | USB_SPEED_HIGH | USB_SPEED_VARIABLE

record usb_host_endpoint =
  ep_desc :: "u8 list"
  ep_extra :: "u8 list"

record usb_host_interface =
  alt_desc :: "u8 list"
  alt_endpoint :: "usb_host_endpoint list"
  alt_extra :: "u8 list"

record usb_interface_cache =
  num_altsetting :: nat
  altsetting :: "usb_host_interface list"

record usb_host_config =
  cfg_desc :: "u8 list"
  intf_assoc :: "u8 list list"
  intf_cache :: "usb_interface_cache list"
  cfg_extra :: "u8 list"

definition zero_endpoint :: usb_host_endpoint where
  "zero_endpoint = \<lparr>ep_desc = replicate 9 0, ep_extra = []\<rparr>"

definition zero_interface :: usb_host_interface where
  "zero_interface = \<lparr>alt_desc = replicate 9 0, alt_endpoint = [], alt_extra = []\<rparr>"

text \<open>\<open>fls\<close>: the position of the most significant bit, from one; zero has none.\<close>

fun fls :: "nat \<Rightarrow> nat" where
  "fls n = (if n = 0 then 0 else Suc (fls (n div 2)))"

declare fls.simps [simp del]

definition usb_endpoint_xfer_int :: "u8 \<Rightarrow> bool" where
  "usb_endpoint_xfer_int attr \<longleftrightarrow> attr AND 3 = 3"

definition usb_endpoint_xfer_isoc :: "u8 \<Rightarrow> bool" where
  "usb_endpoint_xfer_isoc attr \<longleftrightarrow> attr AND 3 = 1"

definition usb_endpoint_xfer_bulk :: "u8 \<Rightarrow> bool" where
  "usb_endpoint_xfer_bulk attr \<longleftrightarrow> attr AND 3 = 2"

section \<open>Finding the next descriptor\<close>

text \<open>The result is the number of bytes and of descriptors skipped.\<close>

partial_function (option) find_next_descriptor ::
  "u8 list \<Rightarrow> int \<Rightarrow> u8 \<Rightarrow> u8 \<Rightarrow> (nat \<times> nat) option" where
  "find_next_descriptor buffer sz dt1 dt2 =
     (if sz > 0 then
        Option.bind (buf_get buffer 1) (\<lambda>ty.
        if ty = dt1 \<or> ty = dt2 then Some (0, 0)
        else Option.bind (buf_get buffer 0) (\<lambda>len.
          Option.bind (find_next_descriptor (drop (unat len) buffer) (sz - uint len) dt1 dt2) (\<lambda>r.
          Some (unat len + fst r, Suc (snd r)))))
      else Some (0, 0))"

section \<open>Endpoints\<close>

text \<open>The corrected descriptor of an endpoint: the legal range of \<open>bInterval\<close> and the value to use
  when it is outside, by transfer type and speed; then the treatment of low-speed bulk endpoints.\<close>

definition endpoint_interval :: "usb_device_speed \<Rightarrow> u8 \<Rightarrow> u8 \<Rightarrow> u8" where
  "endpoint_interval speed attr ival =
     (if usb_endpoint_xfer_int attr then
        (let n = fls (unat ival * 8) in
         case speed of
           USB_SPEED_HIGH \<Rightarrow>
             if unat ival < 1 \<or> unat ival > 16 then of_nat (if n = 0 then 9 else n) else ival
         | _ \<Rightarrow> if unat ival < 1 \<or> unat ival > 255 then 32 else ival)
      else if usb_endpoint_xfer_isoc attr then
        (if unat ival < 1 \<or> unat ival > 16 then (if speed = USB_SPEED_HIGH then 9 else 6) else ival)
      else ival)"

definition endpoint_fixup :: "usb_device_speed \<Rightarrow> u8 list \<Rightarrow> u8 list" where
  "endpoint_fixup speed d =
     (let attr = d ! 3; d1 = d[6 := endpoint_interval speed attr (d ! 6)] in
      if speed = USB_SPEED_LOW \<and> usb_endpoint_xfer_bulk attr then
        (let d2 = d1[3 := 3, 6 := 1] in
         if unat (d2 ! 4) + 256 * unat (d2 ! 5) > 8 then d2[4 := 8, 5 := 0] else d2)
      else d1)"

text \<open>The value returned is the number of bytes consumed.\<close>

definition usb_parse_endpoint ::
  "usb_device_speed \<Rightarrow> usb_host_interface \<Rightarrow> nat \<Rightarrow> u8 list \<Rightarrow> int \<Rightarrow> (nat \<times> usb_host_interface) option" where
  "usb_parse_endpoint speed ifp num_ep buffer0 size0 = do {
     bLength \<leftarrow> buf_get buffer0 0;
     let buffer = drop (unat bLength) buffer0;
     let sz = size0 - uint bLength;
     let skip = do {
       (i, n) \<leftarrow> find_next_descriptor buffer sz USB_DT_ENDPOINT USB_DT_INTERFACE;
       Some (unat bLength + i, ifp) };
     let n = (if unat bLength \<ge> 9 then 9 else 7);
     if unat bLength < 7 then skip
     else do {
       addr \<leftarrow> buf_get buffer0 2;
       let i = addr AND NOT 0x80;
       if i \<ge> 16 \<or> i = 0 then skip
       else do {
         cnt \<leftarrow> buf_get (alt_desc ifp) 4;
         if unat cnt \<ge> num_ep then skip
         else if length buffer0 < n then None
         else do {
           d \<leftarrow> blit (replicate 9 0) 0 (take n buffer0);
           (i, n) \<leftarrow> find_next_descriptor buffer sz USB_DT_ENDPOINT USB_DT_INTERFACE;
           eps \<leftarrow> buf_set (alt_endpoint ifp) (uint cnt)
             \<lparr>ep_desc = endpoint_fixup speed d, ep_extra = take i buffer\<rparr>;
           Some (unat bLength + i, ifp\<lparr>alt_desc := (alt_desc ifp)[4 := cnt + 1], alt_endpoint := eps\<rparr>) } } } }"

text \<open>The loop of \<open>usb_parse_interface\<close> over the endpoint descriptors.\<close>

partial_function (option) usb_parse_endpoints ::
  "usb_device_speed \<Rightarrow> usb_host_interface \<Rightarrow> nat \<Rightarrow> u8 list \<Rightarrow> int \<Rightarrow> (nat \<times> usb_host_interface) option" where
  "usb_parse_endpoints speed ifp num_ep buffer sz =
     (if sz > 0 then
        Option.bind (buf_get buffer 1) (\<lambda>ty.
        if ty = USB_DT_INTERFACE then Some (0, ifp)
        else Option.bind (usb_parse_endpoint speed ifp num_ep buffer sz) (\<lambda>r.
          Option.bind (usb_parse_endpoints speed (snd r) num_ep (drop (fst r) buffer) (sz - int (fst r))) (\<lambda>r2.
          Some (fst r + fst r2, snd r2))))
      else Some (0, ifp))"

section \<open>Interfaces\<close>

text \<open>\<open>for (i = 0; i < n; ++i) if (inums[i] == inum) break\<close> over the interfaces counted so far.\<close>

fun find_inum :: "u8 \<Rightarrow> (u8 \<times> u8) list \<Rightarrow> nat \<Rightarrow> nat" where
  "find_inum inum [] i = i"
| "find_inum inum ((num, alts) # rest) i = (if num = inum then i else find_inum inum rest (Suc i))"

definition ENOMEM :: int where "ENOMEM = 12"
definition EINVAL :: int where "EINVAL = 22"

text \<open>A negative result is an error, otherwise the number of bytes consumed.\<close>

definition usb_parse_interface ::
  "(nat \<Rightarrow> bool) \<Rightarrow> usb_device_speed \<Rightarrow> usb_host_config \<Rightarrow> u8 list \<Rightarrow> int \<Rightarrow> (u8 \<times> u8) list \<Rightarrow>
   (int \<times> usb_host_config) option" where
  "usb_parse_interface alloc speed config buffer0 size0 ifs = do {
     bLength \<leftarrow> buf_get buffer0 0;
     let buffer = drop (unat bLength) buffer0;
     let sz = size0 - uint bLength;
     let skip = do {
       (i, n) \<leftarrow> find_next_descriptor buffer sz USB_DT_INTERFACE USB_DT_INTERFACE;
       Some (int (unat bLength + i), config) };
     if unat bLength < 9 then skip
     else do {
       inum \<leftarrow> buf_get buffer0 2;
       let k = find_inum inum ifs 0;
       if k \<ge> length ifs then skip
       else do {
         intfc \<leftarrow> buf_get (intf_cache config) (int k);
         if num_altsetting intfc \<ge> unat (snd (ifs ! k)) then skip
         else do {
           asnum \<leftarrow> buf_get buffer0 3;
           if asnum \<in> set (map (\<lambda>a. alt_desc a ! 3) (take (num_altsetting intfc) (altsetting intfc))) then skip
           else if length buffer0 < 9 then None
           else do {
             (i, n) \<leftarrow> find_next_descriptor buffer sz USB_DT_ENDPOINT USB_DT_INTERFACE;
             let d = take 9 buffer0;
             let num_ep = min (unat (d ! 4)) USB_MAXENDPOINTS;
             let ok = (num_ep = 0 \<or> alloc num_ep);
             let alt = \<lparr>alt_desc = d[4 := 0],
               alt_endpoint = (if ok then replicate num_ep zero_endpoint else []), alt_extra = take i buffer\<rparr>;
             let store = (\<lambda>a. do {
               alts \<leftarrow> buf_set (altsetting intfc) (int (num_altsetting intfc)) a;
               Some (config\<lparr>intf_cache := (intf_cache config)[k :=
                 \<lparr>num_altsetting = num_altsetting intfc + 1, altsetting = alts\<rparr>]\<rparr>) });
             if \<not> ok then do { config1 \<leftarrow> store alt; Some (- ENOMEM, config1) }
             else do {
               (r, alt1) \<leftarrow> usb_parse_endpoints speed alt num_ep (drop i buffer) (sz - int i);
               config1 \<leftarrow> store alt1;
               Some (int (unat bLength + i + r), config1) } } } } } }"

section \<open>Configurations\<close>

text \<open>One interface descriptor seen by the counting pass: \<open>inums\<close> and \<open>nalts\<close> are the list of
  pairs.\<close>

definition count_interface :: "u8 \<Rightarrow> (u8 \<times> u8) list \<Rightarrow> (u8 \<times> u8) list" where
  "count_interface inum ifs =
     (let i = find_inum inum ifs 0 in
      if i < length ifs then (if unat (snd (ifs ! i)) < 255 then ifs[i := (inum, snd (ifs ! i) + 1)] else ifs)
      else if length ifs < USB_MAXINTERFACES then ifs @ [(inum, 1)] else ifs)"

text \<open>The counting pass: the bytes that hold complete descriptors, the interfaces with their numbers
  of alternate settings, and the association descriptors.\<close>

function count_descriptors ::
  "u8 list \<Rightarrow> int \<Rightarrow> (u8 \<times> u8) list \<Rightarrow> u8 list list \<Rightarrow> (nat \<times> (u8 \<times> u8) list \<times> u8 list list) option" where
  "count_descriptors buffer2 size2 ifs iads =
     (if size2 > 0 \<and> size2 \<ge> 2 then do {
        len \<leftarrow> buf_get buffer2 0;
        ty \<leftarrow> buf_get buffer2 1;
        if uint len > size2 \<or> uint len < 2 then Some (0, ifs, iads)
        else do {
          ifs1 \<leftarrow> (if ty = USB_DT_INTERFACE \<and> unat len \<ge> 9
            then do { inum \<leftarrow> buf_get buffer2 2; Some (count_interface inum ifs) }
            else Some ifs);
          let iads1 = (if ty = USB_DT_INTERFACE_ASSOCIATION \<and> length iads \<noteq> USB_MAXIADS
            then iads @ [take (unat len) buffer2] else iads);
          (n, r) \<leftarrow> count_descriptors (drop (unat len) buffer2) (size2 - uint len) ifs1 iads1;
          Some (unat len + n, r) } }
      else Some (0, ifs, iads))"
  by auto
termination
  by (relation "measure (\<lambda>(b, n, x). nat n)")
    (auto split: if_splits)

text \<open>The caches of the interfaces, with \<open>nalts\<close> cut to the limit, up to the first allocation that
  fails.\<close>

definition cut_nalts :: "(u8 \<times> u8) list \<Rightarrow> (u8 \<times> u8) list" where
  "cut_nalts ifs = map (\<lambda>(num, alts). (num, if unat alts > USB_MAXALTSETTING then of_nat USB_MAXALTSETTING else alts)) ifs"

fun alloc_caches :: "(nat \<Rightarrow> bool) \<Rightarrow> (u8 \<times> u8) list \<Rightarrow> bool \<times> usb_interface_cache list" where
  "alloc_caches alloc [] = (True, [])"
| "alloc_caches alloc ((num, alts) # ifs) =
     (if alloc (unat alts)
      then (case alloc_caches alloc ifs of (ok, rest) \<Rightarrow>
        (ok, \<lparr>num_altsetting = 0, altsetting = replicate (unat alts) zero_interface\<rparr> # rest))
      else (False, []))"

partial_function (option) usb_parse_interfaces ::
  "(nat \<Rightarrow> bool) \<Rightarrow> usb_device_speed \<Rightarrow> usb_host_config \<Rightarrow> u8 list \<Rightarrow> int \<Rightarrow> (u8 \<times> u8) list \<Rightarrow>
   (int \<times> usb_host_config) option" where
  "usb_parse_interfaces alloc speed config buffer sz ifs =
     (if sz > 0 then
        Option.bind (usb_parse_interface alloc speed config buffer sz ifs) (\<lambda>r.
        if fst r < 0 then Some r
        else usb_parse_interfaces alloc speed (snd r) (drop (nat (fst r)) buffer) (sz - fst r) ifs)
      else Some (0, config))"

definition usb_parse_configuration ::
  "(nat \<Rightarrow> bool) \<Rightarrow> usb_device_speed \<Rightarrow> usb_host_config \<Rightarrow> u8 list \<Rightarrow> int \<Rightarrow> (int \<times> usb_host_config) option" where
  "usb_parse_configuration alloc speed config buffer0 size0 =
     (if length buffer0 < 9 then None
      else let desc = take 9 buffer0; config1 = config\<lparr>cfg_desc := desc\<rparr> in
      if desc ! 1 \<noteq> USB_DT_CONFIG \<or> unat (desc ! 0) < 9 then Some (- EINVAL, config1)
      else do {
        let bLength = desc ! 0;
        let buffer = drop (unat bLength) buffer0;
        (sz, ifs, iads) \<leftarrow> count_descriptors buffer (size0 - uint bLength) [] [];
        let total = unat bLength + sz;
        let desc1 = desc[2 := of_nat total, 3 := of_nat (total div 256), 4 := of_nat (length ifs)];
        let ifs1 = cut_nalts ifs;
        let config2 = config1\<lparr>cfg_desc := desc1, intf_assoc := iads\<rparr>;
        let caches = alloc_caches alloc ifs1;
        let config3 = config2\<lparr>intf_cache := snd caches\<rparr>;
        if \<not> fst caches then Some (- ENOMEM, config3)
        else do {
          (i, n) \<leftarrow> find_next_descriptor buffer (int sz) USB_DT_INTERFACE USB_DT_INTERFACE;
          usb_parse_interfaces alloc speed
            (config3\<lparr>cfg_extra := take i buffer\<rparr>) (drop i buffer) (int sz - int i) ifs1 } })"

declare count_descriptors.simps [simp del]
declare find_next_descriptor.simps [code] usb_parse_endpoints.simps [code] usb_parse_interfaces.simps [code]

section \<open>Chains of descriptors\<close>

text \<open>What the counting pass establishes: the next \<open>n\<close> bytes are complete descriptors.\<close>

inductive desc_chain :: "u8 list \<Rightarrow> nat \<Rightarrow> bool" where
  chain_end: "desc_chain b 0"
| chain_desc: "n \<le> length b \<Longrightarrow> 2 \<le> unat (b ! 0) \<Longrightarrow> unat (b ! 0) \<le> n \<Longrightarrow>
    desc_chain (drop (unat (b ! 0)) b) (n - unat (b ! 0)) \<Longrightarrow> desc_chain b n"

inductive_cases desc_chain_pos: "desc_chain b (Suc n)"

lemma desc_chainE:
  assumes "desc_chain b n" "0 < n"
  obtains "2 \<le> unat (b ! 0)" "unat (b ! 0) \<le> n" "n \<le> length b"
    "desc_chain (drop (unat (b ! 0)) b) (n - unat (b ! 0))"
    "buf_get b 0 = Some (b ! 0)" "buf_get b 1 = Some (b ! 1)"
proof -
  from assms have d: "2 \<le> unat (b ! 0)" "unat (b ! 0) \<le> n" "n \<le> length b"
    "desc_chain (drop (unat (b ! 0)) b) (n - unat (b ! 0))"
    by (auto elim: desc_chain.cases)
  moreover have "b \<noteq> []" "1 < length b" using d by auto
  ultimately have "buf_get b 0 = Some (b ! 0)" "buf_get b 1 = Some (b ! 1)" by (simp_all add: buf_get_def)
  with d show ?thesis by (rule that)
qed

lemma int_minus_uint: "unat (x :: u8) \<le> n \<Longrightarrow> int n - uint x = int (n - unat x)"
  using uint_nat [of x] by linarith

lemma buf_set_uint: "unat (i :: u8) < length xs \<Longrightarrow> buf_set xs (uint i) v = Some (xs[unat i := v])"
proof -
  assume "unat i < length xs"
  then have "uint i < int (length xs)" using uint_nat [of i] by linarith
  then show ?thesis by (simp add: buf_set_def nat_uint_eq)
qed

lemma find_next_descriptor_chain:
  assumes "desc_chain b n"
  shows "\<exists>i k. find_next_descriptor b (int n) t1 t2 = Some (i, k) \<and> i \<le> n \<and> desc_chain (drop i b) (n - i) \<and>
    (i < n \<longrightarrow> drop i b ! 1 = t1 \<or> drop i b ! 1 = t2)"
  using assms
proof (induction rule: desc_chain.induct)
  case (chain_end b)
  show ?case by (subst find_next_descriptor.simps) (auto intro: desc_chain.chain_end)
next
  case (chain_desc n b)
  have rd: "buf_get b 0 = Some (b ! 0)" "buf_get b 1 = Some (b ! 1)" "0 < n"
    using chain_desc.hyps by (auto simp: buf_get_def)
  show ?case
  proof (cases "b ! 1 = t1 \<or> b ! 1 = t2")
    case True
    then show ?thesis using rd desc_chain.chain_desc [OF chain_desc.hyps(1-4)]
      by (subst find_next_descriptor.simps) simp
  next
    case False
    obtain i k where i: "find_next_descriptor (drop (unat (b ! 0)) b) (int (n - unat (b ! 0))) t1 t2 = Some (i, k)"
      "i \<le> n - unat (b ! 0)" "desc_chain (drop (i + unat (b ! 0)) b) (n - unat (b ! 0) - i)"
      "i < n - unat (b ! 0) \<longrightarrow> drop (i + unat (b ! 0)) b ! 1 = t1 \<or> drop (i + unat (b ! 0)) b ! 1 = t2"
      using chain_desc.IH by auto
    have "find_next_descriptor b (int n) t1 t2 = Some (unat (b ! 0) + i, Suc k)"
      using False rd i(1) chain_desc.hyps(3)
      by (subst find_next_descriptor.simps) (simp add: int_minus_uint del: of_nat_diff)
    then show ?thesis using i(2-4) chain_desc.hyps(3) by (auto simp: add.commute diff_diff_left)
  qed
qed

section \<open>Endpoints\<close>

lemma fls_le: "n < 2 ^ k \<Longrightarrow> fls n \<le> k"
proof (induction k arbitrary: n)
  case 0
  then show ?case by (simp add: fls.simps)
next
  case (Suc k)
  then have "n div 2 < 2 ^ k" by simp
  from Suc.IH [OF this] show ?case by (subst fls.simps) simp
qed

lemma fls_pos: "0 < n \<Longrightarrow> 0 < fls n"
  by (subst fls.simps) simp

definition interval_legal :: "usb_device_speed \<Rightarrow> u8 \<Rightarrow> u8 \<Rightarrow> bool" where
  "interval_legal speed attr ival \<longleftrightarrow>
     (usb_endpoint_xfer_int attr \<longrightarrow> 1 \<le> unat ival \<and> (speed = USB_SPEED_HIGH \<longrightarrow> unat ival \<le> 16)) \<and>
     (usb_endpoint_xfer_isoc attr \<longrightarrow> 1 \<le> unat ival \<and> unat ival \<le> 16)"

lemma endpoint_interval_legal: "interval_legal speed attr (endpoint_interval speed attr ival)"
proof -
  have "unat ival < 256" by (rule unat_u8_bound)
  then have f: "fls (unat ival * 8) \<le> 11" by (intro fls_le) simp
  have hi: "unat (of_nat (if fls (unat ival * 8) = 0 then 9 else fls (unat ival * 8)) :: u8) =
      (if fls (unat ival * 8) = 0 then 9 else fls (unat ival * 8))"
    using f by (simp add: unsigned_of_nat take_bit_nat_eq_self)
  have "usb_endpoint_xfer_int attr \<Longrightarrow> \<not> usb_endpoint_xfer_isoc attr"
    by (simp add: usb_endpoint_xfer_int_def usb_endpoint_xfer_isoc_def)
  then show ?thesis using f hi
    by (cases speed) (auto simp: interval_legal_def endpoint_interval_def Let_def simp del: of_nat_numeral)
qed

text \<open>What the drivers may rely on for an endpoint that was stored.\<close>

definition endpoint_legal :: "usb_device_speed \<Rightarrow> u8 list \<Rightarrow> bool" where
  "endpoint_legal speed d \<longleftrightarrow> length d = 9 \<and> interval_legal speed (d ! 3) (d ! 6) \<and>
     d ! 2 AND NOT 0x80 \<noteq> 0 \<and> d ! 2 AND NOT 0x80 < 16 \<and>
     (speed = USB_SPEED_LOW \<longrightarrow> \<not> usb_endpoint_xfer_bulk (d ! 3))"

lemma endpoint_fixup_legal:
  assumes "length d = 9" "d ! 2 AND NOT 0x80 \<noteq> 0" "d ! 2 AND NOT 0x80 < 16"
  shows "endpoint_legal speed (endpoint_fixup speed d)"
  using assms endpoint_interval_legal [of speed "d ! 3" "d ! 6"]
  by (auto simp: endpoint_legal_def endpoint_fixup_def Let_def interval_legal_def usb_endpoint_xfer_int_def
      usb_endpoint_xfer_isoc_def usb_endpoint_xfer_bulk_def)

definition alt_ok :: "usb_device_speed \<Rightarrow> nat \<Rightarrow> usb_host_interface \<Rightarrow> bool" where
  "alt_ok speed num_ep a \<longleftrightarrow> length (alt_desc a) = 9 \<and> length (alt_endpoint a) = num_ep \<and>
     num_ep \<le> USB_MAXENDPOINTS \<and> unat (alt_desc a ! 4) \<le> num_ep \<and>
     (\<forall>j < unat (alt_desc a ! 4). endpoint_legal speed (ep_desc (alt_endpoint a ! j)))"

lemma alt_ok_store:
  assumes "alt_ok speed num_ep a" "unat (alt_desc a ! 4) < num_ep" "endpoint_legal speed (ep_desc e)"
  shows "alt_ok speed num_ep (a\<lparr>alt_desc := (alt_desc a)[4 := alt_desc a ! 4 + 1],
     alt_endpoint := (alt_endpoint a)[unat (alt_desc a ! 4) := e]\<rparr>)"
proof -
  have "unat (alt_desc a ! 4 + 1) = unat (alt_desc a ! 4) + 1"
    using assms(1,2) by (simp add: unat_word_ariths alt_ok_def USB_MAXENDPOINTS_def)
  then show ?thesis using assms by (auto simp: alt_ok_def nth_list_update less_Suc_eq)
qed

lemma usb_parse_endpoint_chain:
  assumes "desc_chain b n" "0 < n" "alt_ok speed num_ep a"
  shows "\<exists>r a'. usb_parse_endpoint speed a num_ep b (int n) = Some (r, a') \<and> 0 < r \<and> r \<le> n \<and>
    desc_chain (drop r b) (n - r) \<and> alt_ok speed num_ep a' \<and> alt_desc a' ! 3 = alt_desc a ! 3"
  using assms(1,2)
proof (rule desc_chainE)
  let ?l = "unat (b ! 0)"
  assume l: "2 \<le> ?l" "?l \<le> n" "n \<le> length b" "desc_chain (drop ?l b) (n - ?l)" "buf_get b 0 = Some (b ! 0)"
  obtain i k where i: "find_next_descriptor (drop ?l b) (int (n - ?l)) USB_DT_ENDPOINT USB_DT_INTERFACE = Some (i, k)"
    "i \<le> n - ?l" "desc_chain (drop (?l + i) b) (n - (?l + i))"
    using find_next_descriptor_chain [OF l(4), of USB_DT_ENDPOINT USB_DT_INTERFACE]
    by (auto simp: add.commute diff_diff_left)
  have r: "0 < ?l + i" "?l + i \<le> n" using l(1,2) i(2) by auto
  note start = usb_parse_endpoint_def Let_def l(5) int_minus_uint [OF l(2)] i(1)
  have skip: ?thesis if "usb_parse_endpoint speed a num_ep b (int n) = Some (?l + i, a)"
    using that r i(3) assms(3) by auto
  consider (short) "?l < 7" | (addr) "7 \<le> ?l" "b ! 2 AND NOT 0x80 \<ge> 16 \<or> b ! 2 AND NOT 0x80 = 0"
    | (full) "7 \<le> ?l" "\<not> (b ! 2 AND NOT 0x80 \<ge> 16 \<or> b ! 2 AND NOT 0x80 = 0)" "unat (alt_desc a ! 4) \<ge> num_ep"
    | (store) "7 \<le> ?l" "\<not> (b ! 2 AND NOT 0x80 \<ge> 16 \<or> b ! 2 AND NOT 0x80 = 0)" "unat (alt_desc a ! 4) < num_ep"
    by linarith
  then show ?thesis
  proof cases
    case short
    then show ?thesis by (intro skip) (simp add: start del: of_nat_diff)
  next
    case addr
    then have "buf_get b 2 = Some (b ! 2)" using l by (simp add: buf_simps)
    with addr show ?thesis by (intro skip) (auto simp: start simp del: of_nat_diff)
  next
    case full
    then have "buf_get b 2 = Some (b ! 2)" "buf_get (alt_desc a) 4 = Some (alt_desc a ! 4)"
      using l assms(3) by (simp_all add: buf_simps alt_ok_def)
    with full show ?thesis by (intro skip) (auto simp: start simp del: of_nat_diff)
  next
    case store
    define m where "m = (if 9 \<le> ?l then 9 else 7 :: nat)"
    have m: "m \<le> length b" "m \<le> 9" "7 \<le> m" using l store(1) by (auto simp: m_def)
    let ?d = "take m b @ replicate (9 - m) 0"
    let ?e = "\<lparr>ep_desc = endpoint_fixup speed ?d, ep_extra = take i (drop ?l b)\<rparr>"
    have "buf_get b 2 = Some (b ! 2)" "buf_get (alt_desc a) 4 = Some (alt_desc a ! 4)"
      "blit (replicate 9 0) 0 (take m b) = Some ?d"
      "buf_set (alt_endpoint a) (uint (alt_desc a ! 4)) ?e = Some ((alt_endpoint a)[unat (alt_desc a ! 4) := ?e])"
      using l store assms(3) m by (auto simp: buf_simps alt_ok_def blit_def buf_set_uint)
    then have "usb_parse_endpoint speed a num_ep b (int n) = Some (?l + i,
        a\<lparr>alt_desc := (alt_desc a)[4 := alt_desc a ! 4 + 1],
          alt_endpoint := (alt_endpoint a)[unat (alt_desc a ! 4) := ?e]\<rparr>)"
      using store m by (simp add: start m_def [symmetric] del: of_nat_diff)
    moreover have "?d ! 2 = b ! 2" "length ?d = 9" using m by (auto simp: nth_append)
    then have "endpoint_legal speed (ep_desc ?e)"
      using endpoint_fixup_legal [of ?d speed] store(2) by auto
    ultimately show ?thesis using alt_ok_store [OF assms(3) store(3), of ?e] r i(3) by simp
  qed
qed

lemma usb_parse_endpoints_chain:
  assumes "desc_chain b n" "alt_ok speed num_ep a"
  shows "\<exists>r a'. usb_parse_endpoints speed a num_ep b (int n) = Some (r, a') \<and> r \<le> n \<and>
    desc_chain (drop r b) (n - r) \<and> alt_ok speed num_ep a' \<and> alt_desc a' ! 3 = alt_desc a ! 3"
  using assms
proof (induction n arbitrary: b a rule: less_induct)
  case (less n)
  show ?case
  proof (cases "n = 0 \<or> b ! 1 = USB_DT_INTERFACE")
    case True
    then have "usb_parse_endpoints speed a num_ep b (int n) = Some (0, a)"
      using less.prems(1) by (subst usb_parse_endpoints.simps) (auto elim: desc_chainE)
    with less.prems show ?thesis by simp
  next
    case False
    then have "0 < n" by simp
    with less.prems obtain r a1 where r: "usb_parse_endpoint speed a num_ep b (int n) = Some (r, a1)" "0 < r" "r \<le> n"
      "desc_chain (drop r b) (n - r)" "alt_ok speed num_ep a1" "alt_desc a1 ! 3 = alt_desc a ! 3"
      using usb_parse_endpoint_chain by blast
    then obtain r2 a2 where r2: "usb_parse_endpoints speed a1 num_ep (drop r b) (int (n - r)) = Some (r2, a2)" "r2 \<le> n - r"
      "desc_chain (drop r2 (drop r b)) (n - r - r2)" "alt_ok speed num_ep a2" "alt_desc a2 ! 3 = alt_desc a1 ! 3"
      using less.IH [of "n - r" "drop r b" a1] by force
    have "buf_get b 1 = Some (b ! 1)" using less.prems(1) \<open>0 < n\<close> by (auto elim: desc_chainE)
    with False \<open>0 < n\<close> r(1,3) r2(1) have "usb_parse_endpoints speed a num_ep b (int n) = Some (r + r2, a2)"
      by (subst usb_parse_endpoints.simps) (simp add: of_nat_diff [symmetric] del: of_nat_diff)
    with r r2 show ?thesis by (auto simp: diff_diff_left add.commute)
  qed
qed

section \<open>Interfaces\<close>

lemma find_inum_le: "find_inum x ifs i \<le> i + length ifs"
  by (induction x ifs i rule: find_inum.induct) auto

definition cache_ok :: "usb_device_speed \<Rightarrow> nat \<Rightarrow> usb_interface_cache \<Rightarrow> bool" where
  "cache_ok speed nalts c \<longleftrightarrow> nalts \<le> USB_MAXALTSETTING \<and> length (altsetting c) = nalts \<and> num_altsetting c \<le> nalts \<and>
     distinct (map (\<lambda>a. alt_desc a ! 3) (take (num_altsetting c) (altsetting c))) \<and>
     (\<forall>a \<in> set (take (num_altsetting c) (altsetting c)). \<exists>num_ep. alt_ok speed num_ep a)"

definition config_ok :: "usb_device_speed \<Rightarrow> (u8 \<times> u8) list \<Rightarrow> usb_host_config \<Rightarrow> bool" where
  "config_ok speed ifs config \<longleftrightarrow> length (intf_cache config) = length ifs \<and> length (intf_assoc config) \<le> USB_MAXIADS \<and>
     (\<forall>k < length ifs. cache_ok speed (unat (snd (ifs ! k))) (intf_cache config ! k))"

lemma cache_ok_store:
  assumes "cache_ok speed nalts c" "num_altsetting c < nalts" "alt_ok speed num_ep a"
    and "alt_desc a ! 3 \<notin> set (map (\<lambda>a. alt_desc a ! 3) (take (num_altsetting c) (altsetting c)))"
  shows "cache_ok speed nalts \<lparr>num_altsetting = num_altsetting c + 1, altsetting = (altsetting c)[num_altsetting c := a]\<rparr>"
proof -
  have "take (Suc (num_altsetting c)) ((altsetting c)[num_altsetting c := a]) = take (num_altsetting c) (altsetting c) @ [a]"
    using assms(1,2) by (simp add: cache_ok_def take_Suc_conv_app_nth)
  then show ?thesis using assms by (auto simp: cache_ok_def)
qed

lemma config_ok_store:
  assumes "config_ok speed ifs config" "k < length ifs" "cache_ok speed (unat (snd (ifs ! k))) c"
  shows "config_ok speed ifs (config\<lparr>intf_cache := (intf_cache config)[k := c]\<rparr>)"
  using assms by (auto simp: config_ok_def nth_list_update)

lemma zero_alt_ok: "length d = 9 \<Longrightarrow> num_ep \<le> USB_MAXENDPOINTS \<Longrightarrow>
   alt_ok speed num_ep \<lparr>alt_desc = d[4 := 0], alt_endpoint = replicate num_ep zero_endpoint, alt_extra = x\<rparr>"
  by (simp add: alt_ok_def)

text \<open>The state the loop over the interface descriptors keeps.\<close>

definition intf_result :: "usb_device_speed \<Rightarrow> (u8 \<times> u8) list \<Rightarrow> u8 list \<Rightarrow> nat \<Rightarrow> (int \<times> usb_host_config) option \<Rightarrow> bool" where
  "intf_result speed ifs b n x \<longleftrightarrow> (\<exists>r config'. x = Some (r, config') \<and>
     (r = - ENOMEM \<or> 0 < r \<and> r \<le> int n \<and> config_ok speed ifs config' \<and> desc_chain (drop (nat r) b) (n - nat r)))"

lemma intf_resultI:
  "0 < r \<Longrightarrow> r \<le> n \<Longrightarrow> config_ok speed ifs config' \<Longrightarrow> desc_chain (drop r b) (n - r) \<Longrightarrow>
   intf_result speed ifs b n (Some (int r, config'))"
  by (auto simp: intf_result_def)

lemma usb_parse_interface_store:
  fixes b :: "u8 list" and ifs :: "(u8 \<times> u8) list" and k :: nat
  defines "l \<equiv> unat (b ! 0)" and "k \<equiv> find_inum (b ! 2) ifs 0"
  assumes chain: "9 \<le> l" "l \<le> n" "n \<le> length b" and config: "config_ok speed ifs config" "k < length ifs"
    and i: "find_next_descriptor (drop l b) (int (n - l)) USB_DT_ENDPOINT USB_DT_INTERFACE = Some (i, m)"
      "i \<le> n - l" "desc_chain (drop (l + i) b) (n - (l + i))"
    and c: "c = intf_cache config ! k" "num_altsetting c < unat (snd (ifs ! k))"
      "b ! 3 \<notin> set (map (\<lambda>a. alt_desc a ! 3) (take (num_altsetting c) (altsetting c)))"
  shows "intf_result speed ifs b n (usb_parse_interface alloc speed config b (int n) ifs)"
proof -
  define num where "num = min (unat (b ! 4)) USB_MAXENDPOINTS"
  define a0 where "a0 = \<lparr>alt_desc = (take 9 b)[4 := 0], alt_endpoint = replicate num zero_endpoint, alt_extra = take i (drop l b)\<rparr>"
  have rd: "buf_get b 0 = Some (b ! 0)" "buf_get b 2 = Some (b ! 2)" "buf_get b 3 = Some (b ! 3)" "\<not> length b < 9" "b \<noteq> []"
    using chain by (auto simp: buf_get_def)
  have cache: "cache_ok speed (unat (snd (ifs ! k))) c" "buf_get (intf_cache config) (int k) = Some c"
    using config by (auto simp: config_ok_def buf_simps c(1))
  have set: "buf_set (altsetting c) (int (num_altsetting c)) a = Some ((altsetting c)[num_altsetting c := a])" for a
  proof -
    have "num_altsetting c < length (altsetting c)" using cache(1) c(2) by (simp add: cache_ok_def)
    then show ?thesis by (simp add: buf_simps)
  qed
  have "alt_ok speed num a0" using rd(4) by (auto simp: a0_def num_def intro!: zero_alt_ok)
  with usb_parse_endpoints_chain [OF i(3)] obtain r a1 where
    r: "usb_parse_endpoints speed a0 num (drop (l + i) b) (int (n - (l + i))) = Some (r, a1)" "r \<le> n - (l + i)"
      "desc_chain (drop (l + i + r) b) (n - (l + i + r))" "alt_ok speed num a1" "alt_desc a1 ! 3 = alt_desc a0 ! 3"
    by (force simp: add.commute diff_diff_left)
  have a3: "alt_desc a1 ! 3 = b ! 3" using r(5) rd(4) by (simp add: a0_def)
  let ?c = "\<lparr>num_altsetting = num_altsetting c + 1, altsetting = (altsetting c)[num_altsetting c := a1]\<rparr>"
  have "cache_ok speed (unat (snd (ifs ! k))) ?c"
    using cache_ok_store [OF cache(1) c(2) r(4)] c(3) a3 by simp
  then have ok: "config_ok speed ifs (config\<lparr>intf_cache := (intf_cache config)[k := ?c]\<rparr>)"
    by (rule config_ok_store [OF config])
  have sz: "int (n - l) - int i = int (n - (l + i))" using i(2) by linarith
  have t4: "take 9 b ! 4 = b ! 4" by simp
  note fold = usb_parse_interface_def Let_def t4 num_def [symmetric]
  note run = rd cache(2) int_minus_uint [OF chain(2) [unfolded l_def], folded l_def]
    k_def [symmetric] l_def [symmetric] i(1) set
  show ?thesis
  proof (cases "num = 0 \<or> alloc num")
    case True
    then have "usb_parse_interface alloc speed config b (int n) ifs =
        Some (int (l + i + r), config\<lparr>intf_cache := (intf_cache config)[k := ?c]\<rparr>)"
      using chain(1) config(2) c(2,3) r(1) by (simp only: fold) (simp add: run sz a0_def [symmetric] add.commute [of i] del: of_nat_diff set_map of_nat_add)
    then show ?thesis using r(2,3) ok chain(1,2) i(2) by (simp only:) (intro intf_resultI, auto)
  next
    case False
    then show ?thesis using chain(1) config(2) c(2,3)
      by (simp only: fold) (simp add: run intf_result_def del: of_nat_diff set_map)
  qed
qed

lemma usb_parse_interface_chain:
  assumes "desc_chain b n" "0 < n" "config_ok speed ifs config"
  shows "intf_result speed ifs b n (usb_parse_interface alloc speed config b (int n) ifs)"
  using assms(1,2)
proof (rule desc_chainE)
  let ?l = "unat (b ! 0)"
  assume l: "2 \<le> ?l" "?l \<le> n" "n \<le> length b" "desc_chain (drop ?l b) (n - ?l)" "buf_get b 0 = Some (b ! 0)"
  obtain i n1 where i: "find_next_descriptor (drop ?l b) (int (n - ?l)) USB_DT_INTERFACE USB_DT_INTERFACE = Some (i, n1)"
    "i \<le> n - ?l" "desc_chain (drop (?l + i) b) (n - (?l + i))"
    using find_next_descriptor_chain [OF l(4), of USB_DT_INTERFACE USB_DT_INTERFACE] by (auto simp: add.commute diff_diff_left)
  obtain i2 n2 where i2: "find_next_descriptor (drop ?l b) (int (n - ?l)) USB_DT_ENDPOINT USB_DT_INTERFACE = Some (i2, n2)"
    "i2 \<le> n - ?l" "desc_chain (drop (?l + i2) b) (n - (?l + i2))"
    using find_next_descriptor_chain [OF l(4), of USB_DT_ENDPOINT USB_DT_INTERFACE] by (auto simp: add.commute diff_diff_left)
  note start = usb_parse_interface_def Let_def l(5) int_minus_uint [OF l(2)] i(1) i2(1)
  have skip: ?thesis if "usb_parse_interface alloc speed config b (int n) ifs = Some (int (?l + i), config)"
    unfolding that using l i assms(3) by (intro intf_resultI) auto
  define k where "k = find_inum (b ! 2) ifs 0"
  define c where "c = intf_cache config ! k"
  have rd: "9 \<le> ?l \<Longrightarrow> buf_get b 2 = Some (b ! 2)" "9 \<le> ?l \<Longrightarrow> buf_get b 3 = Some (b ! 3)"
    "9 \<le> ?l \<Longrightarrow> 9 \<le> length b"
    using l by (auto simp: buf_simps)
  have c: "k < length ifs \<Longrightarrow> cache_ok speed (unat (snd (ifs ! k))) c \<and> buf_get (intf_cache config) (int k) = Some c"
    using assms(3) by (auto simp: config_ok_def buf_simps c_def)
  consider (short) "?l < 9" | (unknown) "9 \<le> ?l" "length ifs \<le> k"
    | (full) "9 \<le> ?l" "k < length ifs" "num_altsetting c \<ge> unat (snd (ifs ! k))"
    | (dup) "9 \<le> ?l" "k < length ifs" "num_altsetting c < unat (snd (ifs ! k))"
        "b ! 3 \<in> set (map (\<lambda>a. alt_desc a ! 3) (take (num_altsetting c) (altsetting c)))"
    | (store) "9 \<le> ?l" "k < length ifs" "num_altsetting c < unat (snd (ifs ! k))"
        "b ! 3 \<notin> set (map (\<lambda>a. alt_desc a ! 3) (take (num_altsetting c) (altsetting c)))"
    by linarith
  then show ?thesis
  proof cases
    case short
    then show ?thesis by (intro skip) (simp add: start del: of_nat_diff)
  next
    case unknown
    then show ?thesis using rd by (intro skip) (simp add: start k_def [symmetric] del: of_nat_diff)
  next
    case full
    then show ?thesis using rd c by (intro skip) (simp add: start k_def [symmetric] del: of_nat_diff)
  next
    case dup
    then show ?thesis using rd c by (intro skip) (simp add: start k_def [symmetric] del: of_nat_diff set_map)
  next
    case store
    then show ?thesis
      using usb_parse_interface_store [OF _ l(2,3) assms(3), of i2 n2 c] i2 by (simp add: k_def c_def)
  qed
qed

lemma usb_parse_interfaces_chain:
  assumes "desc_chain b n" "config_ok speed ifs config"
  shows "\<exists>r config'. usb_parse_interfaces alloc speed config b (int n) ifs = Some (r, config') \<and>
    (r = - ENOMEM \<or> r = 0 \<and> config_ok speed ifs config')"
  using assms
proof (induction n arbitrary: b config rule: less_induct)
  case (less n)
  show ?case
  proof (cases "n = 0")
    case True
    then show ?thesis using less.prems(2) by (subst usb_parse_interfaces.simps) simp
  next
    case False
    then obtain r config1 where r: "usb_parse_interface alloc speed config b (int n) ifs = Some (r, config1)"
      "r = - ENOMEM \<or> 0 < r \<and> r \<le> int n \<and> config_ok speed ifs config1 \<and> desc_chain (drop (nat r) b) (n - nat r)"
      using usb_parse_interface_chain [OF less.prems(1) _ less.prems(2), of alloc] by (auto simp: intf_result_def)
    show ?thesis
    proof (cases "r = - ENOMEM")
      case True
      then show ?thesis using r(1) False by (subst usb_parse_interfaces.simps) (simp add: ENOMEM_def)
    next
      case neg: False
      then have pos: "0 < r" "r \<le> int n" "int n - r = int (n - nat r)" "n - nat r < n" using r(2) False by auto
      with less.IH [of "n - nat r" "drop (nat r) b" config1] r(2) neg show ?thesis
        using r(1) False by (subst usb_parse_interfaces.simps) (simp del: of_nat_diff)
    qed
  qed
qed

section \<open>Configurations\<close>

lemma count_interface_length: "length ifs \<le> USB_MAXINTERFACES \<Longrightarrow> length (count_interface x ifs) \<le> USB_MAXINTERFACES"
  by (simp add: count_interface_def Let_def)

lemma size_drop:
  assumes "n \<le> int (length b)" shows "n - uint (x :: u8) \<le> int (length (drop (unat x) b))"
proof -
  have "n - int (unat x) \<le> int (length b - unat x)" using assms by linarith
  then show ?thesis by simp
qed

lemma count_descriptors_chain:
  assumes "size2 \<le> int (length b)" "length ifs \<le> USB_MAXINTERFACES" "length iads \<le> USB_MAXIADS"
  shows "\<exists>n ifs' iads'. count_descriptors b size2 ifs iads = Some (n, ifs', iads') \<and> desc_chain b n \<and> n \<le> length b \<and>
    length ifs' \<le> USB_MAXINTERFACES \<and> length iads' \<le> USB_MAXIADS"
  using assms
proof (induction b size2 ifs iads rule: count_descriptors.induct)
  case (1 b size2 ifs iads)
  show ?case
  proof (cases "2 \<le> size2 \<and> uint (b ! 0) \<le> size2 \<and> 2 \<le> uint (b ! 0)")
    case False
    have "2 \<le> size2 \<Longrightarrow> buf_get b 0 = Some (b ! 0) \<and> buf_get b 1 = Some (b ! 1)"
      using 1(2) by (cases b) (auto simp: buf_get_def)
    then have "count_descriptors b size2 ifs iads = Some (0, ifs, iads)"
      using False by (subst count_descriptors.simps) auto
    then show ?thesis using 1(3,4) by (auto intro: desc_chain.chain_end)
  next
    case True
    let ?l = "unat (b ! 0)"
    define ifs1 where "ifs1 = (if b ! 1 = USB_DT_INTERFACE \<and> ?l \<ge> 9 then count_interface (b ! 2) ifs else ifs)"
    define iads1 where "iads1 = (if b ! 1 = USB_DT_INTERFACE_ASSOCIATION \<and> length iads \<noteq> USB_MAXIADS then iads @ [take ?l b] else iads)"
    have len: "2 \<le> ?l" "int ?l \<le> size2" "size2 \<le> int (length b)" using True 1(2) uint_nat [of "b ! 0"] by linarith+
    have conds: "0 < size2 \<and> 2 \<le> size2" "\<not> (size2 < uint (b ! 0) \<or> uint (b ! 0) < 2)" using True by auto
    have lb: "?l \<le> length b" using len by linarith
    then have "b \<noteq> []" "1 < length b" "?l \<ge> 9 \<Longrightarrow> 2 < length b" using len(1) by auto
    then have rd: "buf_get b 0 = Some (b ! 0)" "buf_get b 1 = Some (b ! 1)" "?l \<ge> 9 \<Longrightarrow> buf_get b 2 = Some (b ! 2)"
      by (simp_all add: buf_get_def)
    have step: "(if b ! 1 = USB_DT_INTERFACE \<and> 9 \<le> ?l then do { inum \<leftarrow> buf_get b 2; Some (count_interface inum ifs) }
        else Some ifs) = Some ifs1" using rd(3) by (simp add: ifs1_def)
    have bounds: "size2 - uint (b ! 0) \<le> int (length (drop ?l b))" "length ifs1 \<le> USB_MAXINTERFACES" "length iads1 \<le> USB_MAXIADS"
      using size_drop [OF len(3), of "b ! 0"] 1(3,4) count_interface_length by (auto simp: ifs1_def iads1_def)
    obtain n ifs' iads' where n: "count_descriptors (drop ?l b) (size2 - uint (b ! 0)) ifs1 iads1 = Some (n, ifs', iads')"
      "desc_chain (drop ?l b) n" "n \<le> length (drop ?l b)" "length ifs' \<le> USB_MAXINTERFACES" "length iads' \<le> USB_MAXIADS"
      using 1(1) [OF conds(1) rd(1,2) conds(2) step iads1_def bounds] by blast
    have "count_descriptors b size2 ifs iads = Some (?l + n, ifs', iads')"
      using True rd(1,2) step n(1) by (subst count_descriptors.simps) (simp add: iads1_def)
    moreover have "desc_chain b (?l + n)"
      using n(2,3) len(1) lb by - (rule desc_chain.chain_desc, simp_all)
    ultimately show ?thesis using n(3-5) lb by auto
  qed
qed

lemma alloc_caches_ok:
  assumes "list_all (\<lambda>(num, alts). unat alts \<le> USB_MAXALTSETTING) ifs" "alloc_caches alloc ifs = (True, caches)"
  shows "length caches = length ifs \<and> (\<forall>k < length ifs. cache_ok speed (unat (snd (ifs ! k))) (caches ! k))"
  using assms
proof (induction ifs arbitrary: caches)
  case (Cons p ifs)
  then show ?case by (cases p) (auto simp: cache_ok_def nth_Cons split: if_splits prod.splits nat.splits)
qed simp

lemma cut_nalts_max: "list_all (\<lambda>(num, alts). unat alts \<le> USB_MAXALTSETTING) (cut_nalts ifs)"
  by (auto simp: cut_nalts_def list_all_iff USB_MAXALTSETTING_def)

text \<open>What a successfully parsed configuration looks like.\<close>

definition parsed_ok :: "usb_device_speed \<Rightarrow> usb_host_config \<Rightarrow> bool" where
  "parsed_ok speed config \<longleftrightarrow> length (intf_cache config) \<le> USB_MAXINTERFACES \<and> length (intf_assoc config) \<le> USB_MAXIADS \<and>
     (\<forall>c \<in> set (intf_cache config). cache_ok speed (length (altsetting c)) c)"

lemma config_ok_parsed:
  assumes "config_ok speed ifs config" "length ifs \<le> USB_MAXINTERFACES"
  shows "parsed_ok speed config"
proof -
  have "cache_ok speed (length (altsetting c)) c" if mem: "c \<in> set (intf_cache config)" for c
  proof -
    obtain k where "k < length ifs" "c = intf_cache config ! k"
      using mem assms(1) unfolding in_set_conv_nth config_ok_def by metis
    with assms(1) have "cache_ok speed (unat (snd (ifs ! k))) c" by (simp add: config_ok_def)
    moreover from this have "length (altsetting c) = unat (snd (ifs ! k))" by (simp add: cache_ok_def)
    ultimately show ?thesis by simp
  qed
  then show ?thesis using assms by (simp add: parsed_ok_def config_ok_def)
qed

lemma usb_parse_configuration_result:
  assumes "9 \<le> length b" "size0 \<le> int (length b)"
  shows "\<exists>r config'. usb_parse_configuration alloc speed config b size0 = Some (r, config') \<and>
    (r = - EINVAL \<or> r = - ENOMEM \<or> r = 0 \<and> parsed_ok speed config')"
proof (cases "b ! 1 \<noteq> USB_DT_CONFIG \<or> unat (b ! 0) < 9")
  case True
  then show ?thesis using assms(1) by (auto simp: usb_parse_configuration_def Let_def)
next
  case False
  let ?l = "unat (b ! 0)"
  have le: "size0 - uint (b ! 0) \<le> int (length (drop ?l b))" by (rule size_drop [OF assms(2)])
  obtain sz ifs iads where cnt: "count_descriptors (drop ?l b) (size0 - uint (b ! 0)) [] [] = Some (sz, ifs, iads)"
    "desc_chain (drop ?l b) sz" "length ifs \<le> USB_MAXINTERFACES" "length iads \<le> USB_MAXIADS"
    using count_descriptors_chain [OF le, of "[]" "[]"] by auto
  obtain ok caches where al: "alloc_caches alloc (cut_nalts ifs) = (ok, caches)" by fastforce
  obtain i n where i: "find_next_descriptor (drop ?l b) (int sz) USB_DT_INTERFACE USB_DT_INTERFACE = Some (i, n)"
    "i \<le> sz" "desc_chain (drop i (drop ?l b)) (sz - i)"
    using find_next_descriptor_chain [OF cnt(2), of USB_DT_INTERFACE USB_DT_INTERFACE] by blast
  have sz: "int sz - int i = int (sz - i)" using i(2) by simp
  let ?d = "(take 9 b)[2 := of_nat (?l + sz), 3 := of_nat ((?l + sz) div 256), 4 := of_nat (length ifs)]"
  let ?c = "config\<lparr>cfg_desc := ?d, intf_assoc := iads, intf_cache := caches, cfg_extra := take i (drop ?l b)\<rparr>"
  have ok: "config_ok speed (cut_nalts ifs) ?c" if ok
    using alloc_caches_ok [OF cut_nalts_max, of alloc ifs caches speed] al that cnt(4) by (auto simp: config_ok_def)
  obtain r config' where r: "usb_parse_interfaces alloc speed ?c (drop i (drop ?l b)) (int (sz - i)) (cut_nalts ifs) = Some (r, config')"
    "r = - ENOMEM \<or> r = 0 \<and> config_ok speed (cut_nalts ifs) config'" if ok
    using usb_parse_interfaces_chain [OF i(3) ok] by blast
  have "length (cut_nalts ifs) \<le> USB_MAXINTERFACES" using cnt(3) by (simp add: cut_nalts_def)
  then show ?thesis using False assms(1) cnt(1) al i(1) r config_ok_parsed
    by (cases ok) (force simp: usb_parse_configuration_def Let_def sz simp del: of_nat_diff)+
qed

section \<open>Properties\<close>

text \<open>C16: Parsing a configuration is memory safe and ends, whatever the device sends. For a buffer of
  at least nine bytes and a size within it, \<open>usb_parse_configuration\<close> returns, having read and
  written inside its buffers only, with success, \<open>-EINVAL\<close> or \<open>-ENOMEM\<close>.\<close>

theorem usb_parse_configuration_safe:
  assumes "9 \<le> length b" "size0 \<le> int (length b)"
  shows "\<exists>r config'. usb_parse_configuration alloc speed config b size0 = Some (r, config') \<and>
    r \<in> {0, - EINVAL, - ENOMEM}"
  using usb_parse_configuration_result [OF assms, of alloc speed config] by auto

definition usb_example :: "u8 list" where
  "usb_example = [9, 2, 25, 0, 1, 1, 0, 128, 50,  9, 4, 0, 0, 1, 3, 1, 1, 0,  7, 5, 129, 3, 8, 0, 255]"

definition usb_example_config :: usb_host_config where
  "usb_example_config = \<lparr>cfg_desc = [], intf_assoc = [], intf_cache = [], cfg_extra = []\<rparr>"

theorem usb_parse_configuration_safe_witness:
  "\<exists>r config'. usb_parse_configuration (\<lambda>_. True) USB_SPEED_HIGH usb_example_config usb_example 25 = Some (r, config') \<and>
    r \<in> {0, - EINVAL, - ENOMEM}"
  by (rule usb_parse_configuration_safe) (simp_all add: usb_example_def)

text \<open>C20: What a successful parse guarantees. At most 32 interfaces and 16 association descriptors are
  stored; an interface has at most 128 alternate settings, inside its array and with different
  numbers; an alternate setting has at most 30 endpoints, inside its array; an endpoint has a number
  from 1 to 15, an interval in the legal range of its type and speed, and is not a bulk endpoint at
  low speed.\<close>

theorem usb_parse_configuration_wellformed:
  assumes "9 \<le> length b" "size0 \<le> int (length b)"
    and "usb_parse_configuration alloc speed config b size0 = Some (0, config')"
  shows "length (intf_cache config') \<le> 32 \<and> length (intf_assoc config') \<le> 16 \<and>
    (\<forall>c \<in> set (intf_cache config').
       num_altsetting c \<le> length (altsetting c) \<and> num_altsetting c \<le> 128 \<and>
       distinct (map (\<lambda>a. alt_desc a ! 3) (take (num_altsetting c) (altsetting c))) \<and>
       (\<forall>a \<in> set (take (num_altsetting c) (altsetting c)).
          unat (alt_desc a ! 4) \<le> length (alt_endpoint a) \<and> unat (alt_desc a ! 4) \<le> 30 \<and>
          (\<forall>j < unat (alt_desc a ! 4). endpoint_legal speed (ep_desc (alt_endpoint a ! j)))))"
proof -
  have "parsed_ok speed config'"
    using usb_parse_configuration_result [OF assms(1,2), of alloc speed config] assms(3) by (auto simp: EINVAL_def ENOMEM_def)
  then show ?thesis
    by (fastforce simp: parsed_ok_def cache_ok_def alt_ok_def USB_MAXALTSETTING_def USB_MAXENDPOINTS_def
        USB_MAXINTERFACES_def USB_MAXIADS_def)
qed

lemma usb_example_parses:
  "map_option fst (usb_parse_configuration (\<lambda>_. True) USB_SPEED_HIGH usb_example_config usb_example 25) = Some 0"
  by code_simp

theorem usb_parse_configuration_wellformed_witness:
  "\<exists>config'. usb_parse_configuration (\<lambda>_. True) USB_SPEED_HIGH usb_example_config usb_example 25 = Some (0, config') \<and>
    length (intf_cache config') \<le> 32 \<and> (\<forall>c \<in> set (intf_cache config'). num_altsetting c \<le> 128)"
proof -
  obtain config' where c: "usb_parse_configuration (\<lambda>_. True) USB_SPEED_HIGH usb_example_config usb_example 25 = Some (0, config')"
    using usb_example_parses by auto
  have "9 \<le> length usb_example" "25 \<le> int (length usb_example)" by (simp_all add: usb_example_def)
  from usb_parse_configuration_wellformed [OF this c] c show ?thesis by blast
qed

end
