(* ===== verification/Usb_Device.thy ===== *)
theory Usb_Device
  imports Usb_Config
begin

text \<open>
  The configurations of a USB device from reading to freeing: \<open>usb_get_descriptor\<close> of \<^verbatim>\<open>drivers/usb/core/message.c\<close>,
  and \<open>usb_get_configuration\<close>, \<open>usb_destroy_configuration\<close>, \<open>usb_release_interface_cache\<close> of
  \<^verbatim>\<open>drivers/usb/core/config.c\<close>. The control transfer is a parameter with a state of its own: the device. Whether an
  allocation succeeds is a parameter as well. Freeing yields the objects that are given to \<open>kfree\<close>; strings are
  cached by other files and \<open>NULL\<close> here, and the only reference to an interface cache is the one it was made with.
\<close>

section \<open>Reading descriptors\<close>

abbreviation (input) ETIMEDOUT :: int where "ETIMEDOUT \<equiv> 110"
abbreviation (input) EPROTO :: int where "EPROTO \<equiv> 71"

definition USB_MAXCONFIG :: nat where "USB_MAXCONFIG = 8"

text \<open>\<open>usb_control_msg\<close>: the result and the contents of the buffer afterwards.\<close>

type_synonym 's usb_control = "'s \<Rightarrow> u8 \<Rightarrow> u8 \<Rightarrow> u8 list \<Rightarrow> int \<times> u8 list \<times> 's"

fun usb_get_descriptor_tries ::
  "'s usb_control \<Rightarrow> u8 \<Rightarrow> u8 \<Rightarrow> nat \<Rightarrow> int \<Rightarrow> u8 list \<Rightarrow> 's \<Rightarrow> (int \<times> u8 list \<times> 's) option" where
  "usb_get_descriptor_tries ctl ty idx 0 result buf s = Some (result, buf, s)"
| "usb_get_descriptor_tries ctl ty idx (Suc n) result0 buf0 s0 =
     (case ctl s0 ty idx buf0 of (result, buf, s) \<Rightarrow>
      if result \<le> 0 \<and> result \<noteq> - ETIMEDOUT then usb_get_descriptor_tries ctl ty idx n result buf s
      else if result > 1
      then do { b \<leftarrow> buf_get buf 1;
                if b \<noteq> ty then usb_get_descriptor_tries ctl ty idx n (- EPROTO) buf s
                else Some (result, buf, s) }
      else Some (result, buf, s))"

definition usb_get_descriptor ::
  "'s usb_control \<Rightarrow> u8 \<Rightarrow> u8 \<Rightarrow> nat \<Rightarrow> 's \<Rightarrow> (int \<times> u8 list \<times> 's) option" where
  "usb_get_descriptor ctl ty idx sz s = usb_get_descriptor_tries ctl ty idx 3 0 (replicate sz 0) s"

section \<open>Reading the configurations\<close>

text \<open>The allocations: the array of configurations, the array of raw descriptors, the buffer for the header, a buffer for
  configuration \<open>c\<close>, and, while that is parsed, an array of \<open>n\<close> elements.\<close>

datatype usb_site = Config_Site | Raw_Site | Header_Site | Big_Site nat | Parse_Site nat nat

record usb_device =
  ud_authorized :: bool
  ud_speed :: usb_device_speed
  ud_num :: u8
  ud_config :: "usb_host_config list option"
  ud_raw :: "u8 list option list option"

definition zero_config :: usb_host_config where
  "zero_config = \<lparr>cfg_desc = replicate 9 0, intf_assoc = [], intf_cache = [], cfg_extra = []\<rparr>"

text \<open>The loop over the configurations that are left; it yields the result and \<open>cfgno\<close> at the label \<open>err\<close>.\<close>

fun usb_read_configurations ::
  "(usb_site \<Rightarrow> bool) \<Rightarrow> 's usb_control \<Rightarrow> usb_device_speed \<Rightarrow> nat \<Rightarrow> nat \<Rightarrow> usb_host_config list \<Rightarrow>
   u8 list option list \<Rightarrow> 's \<Rightarrow> (int \<times> nat \<times> usb_host_config list \<times> u8 list option list \<times> 's) option" where
  "usb_read_configurations kalloc ctl speed cfgno 0 cfgs raws s = Some (0, cfgno, cfgs, raws, s)"
| "usb_read_configurations kalloc ctl speed cfgno (Suc n) cfgs raws s =
     do { (result, buf, s1) \<leftarrow> usb_get_descriptor ctl USB_DT_CONFIG (of_nat cfgno) 9 s;
          if result < 0 then Some (0, cfgno, cfgs, raws, s1)
          else if result < 4 then Some (- EINVAL, cfgno, cfgs, raws, s1)
          else do {
            lo \<leftarrow> buf_get buf 2;
            hi \<leftarrow> buf_get buf 3;
            let len = max (unat lo + 256 * unat hi) 9;
            if \<not> kalloc (Big_Site cfgno) then Some (- ENOMEM, cfgno, cfgs, raws, s1)
            else do {
              (result2, big, s2) \<leftarrow> usb_get_descriptor ctl USB_DT_CONFIG (of_nat cfgno) len s1;
              if result2 < 0 then Some (result2, cfgno, cfgs, raws, s2)
              else do {
                let len2 = (if result2 < int len then result2 else int len);
                raws1 \<leftarrow> buf_set raws (int cfgno) (Some big);
                config \<leftarrow> buf_get cfgs (int cfgno);
                (result3, config1) \<leftarrow>
                  usb_parse_configuration (\<lambda>k. kalloc (Parse_Site cfgno k)) speed config big len2;
                cfgs1 \<leftarrow> buf_set cfgs (int cfgno) config1;
                if result3 < 0 then Some (result3, cfgno + 1, cfgs1, raws1, s2)
                else usb_read_configurations kalloc ctl speed (cfgno + 1) n cfgs1 raws1 s2 } } } }"

definition usb_get_configuration ::
  "(usb_site \<Rightarrow> bool) \<Rightarrow> 's usb_control \<Rightarrow> usb_device \<Rightarrow> 's \<Rightarrow> (int \<times> usb_device \<times> 's) option" where
  "usb_get_configuration kalloc ctl dev s =
     (if \<not> ud_authorized dev then Some (0, dev\<lparr>ud_num := 0\<rparr>, s)
      else let ncfg = min (unat (ud_num dev)) USB_MAXCONFIG;
               dev1 = dev\<lparr>ud_num := of_nat ncfg\<rparr> in
      if ncfg < 1 then Some (- EINVAL, dev1, s)
      else if \<not> kalloc Config_Site then Some (- ENOMEM, dev1\<lparr>ud_config := None\<rparr>, s)
      else let cfgs = replicate ncfg zero_config in
      if \<not> kalloc Raw_Site then Some (- ENOMEM, dev1\<lparr>ud_config := Some cfgs, ud_raw := None\<rparr>, s)
      else let raws = replicate ncfg None in
      if \<not> kalloc Header_Site then Some (- ENOMEM, dev1\<lparr>ud_config := Some cfgs, ud_raw := Some raws\<rparr>, s)
      else do { (result, cfgno, cfgs1, raws1, s1) \<leftarrow>
                  usb_read_configurations kalloc ctl (ud_speed dev) 0 ncfg cfgs raws s;
                Some (result, dev1\<lparr>ud_num := of_nat cfgno, ud_config := Some cfgs1, ud_raw := Some raws1\<rparr>, s1) })"

section \<open>Freeing\<close>

datatype usb_object = Config_Array | Raw_Array | Raw_Desc nat | Cache nat nat | Endpoints nat nat nat

text \<open>\<open>for (i = 0; i < n; i++)\<close> with the objects that the body frees.\<close>

fun for_upto :: "nat \<Rightarrow> (nat \<Rightarrow> 'a list option) \<Rightarrow> 'a list option" where
  "for_upto 0 body = Some []"
| "for_upto (Suc n) body = do { xs \<leftarrow> for_upto n body; ys \<leftarrow> body n; Some (xs @ ys) }"

definition usb_release_interface_cache :: "nat \<Rightarrow> nat \<Rightarrow> usb_interface_cache \<Rightarrow> usb_object list option" where
  "usb_release_interface_cache c i intfc =
     do { eps \<leftarrow> for_upto (num_altsetting intfc) (\<lambda>j.
            do { alt \<leftarrow> buf_get (altsetting intfc) (int j);
                 Some (if alt_endpoint alt = [] then [] else [Endpoints c i j]) });
          Some (eps @ [Cache c i]) }"

text \<open>\<open>cf->intf_cache[i]\<close>: an entry that was not set is \<open>NULL\<close>; the array has \<open>USB_MAXINTERFACES\<close> entries.\<close>

definition intf_cache_at :: "usb_host_config \<Rightarrow> nat \<Rightarrow> usb_interface_cache option option" where
  "intf_cache_at cf i =
     (if i < length (intf_cache cf) then Some (Some (intf_cache cf ! i))
      else if i < USB_MAXINTERFACES then Some None else None)"

definition usb_free_config :: "nat \<Rightarrow> usb_host_config \<Rightarrow> usb_object list option" where
  "usb_free_config c cf =
     for_upto (unat (cfg_desc cf ! 4)) (\<lambda>i.
       do { slot \<leftarrow> intf_cache_at cf i;
            case slot of None \<Rightarrow> Some [] | Some intfc \<Rightarrow> usb_release_interface_cache c i intfc })"

definition usb_destroy_configuration :: "usb_device \<Rightarrow> (usb_object list \<times> usb_device) option" where
  "usb_destroy_configuration dev =
     (case ud_config dev of
        None \<Rightarrow> Some ([], dev)
      | Some cfgs \<Rightarrow>
          do { (freed, dev1) \<leftarrow>
                 (case ud_raw dev of
                    None \<Rightarrow> Some ([], dev)
                  | Some raws \<Rightarrow>
                      do { xs \<leftarrow> for_upto (unat (ud_num dev)) (\<lambda>i.
                             do { r \<leftarrow> buf_get raws (int i); Some (case r of None \<Rightarrow> [] | Some _ \<Rightarrow> [Raw_Desc i]) });
                           Some (xs @ [Raw_Array], dev\<lparr>ud_raw := None\<rparr>) });
               freed2 \<leftarrow> for_upto (unat (ud_num dev)) (\<lambda>c.
                 do { cf \<leftarrow> buf_get cfgs (int c); usb_free_config c cf });
               Some (freed @ freed2 @ [Config_Array], dev1\<lparr>ud_config := None\<rparr>) })"

section \<open>What parsing leaves to free\<close>

text \<open>The endpoint arrays of an interface cache belong to the alternate settings that are counted.\<close>

definition cache_owned :: "usb_interface_cache \<Rightarrow> bool" where
  "cache_owned c \<longleftrightarrow> num_altsetting c \<le> length (altsetting c) \<and>
     (\<forall>a \<in> set (drop (num_altsetting c) (altsetting c)). alt_endpoint a = [])"

definition config_owned :: "usb_host_config \<Rightarrow> bool" where
  "config_owned cf \<longleftrightarrow> length (intf_cache cf) \<le> unat (cfg_desc cf ! 4) \<and> (\<forall>c \<in> set (intf_cache cf). cache_owned c)"

lemma cache_owned_store:
  assumes "cache_owned c" "buf_set (altsetting c) (int (num_altsetting c)) a = Some alts"
  shows "cache_owned \<lparr>num_altsetting = num_altsetting c + 1, altsetting = alts\<rparr>"
proof -
  have n: "num_altsetting c < length (altsetting c)" and alts: "alts = (altsetting c)[num_altsetting c := a]"
    using assms(2) by (auto simp: buf_set_def split: if_splits)
  have "drop (Suc (num_altsetting c)) (altsetting c) = tl (drop (num_altsetting c) (altsetting c))"
    by (simp add: drop_Suc tl_drop)
  then have "set (drop (Suc (num_altsetting c)) (altsetting c)) \<subseteq> set (drop (num_altsetting c) (altsetting c))"
    by (metis list.set_sel(2) subsetI tl_Nil)
  then show ?thesis using assms(1) n by (auto simp: cache_owned_def alts)
qed

text \<open>Storing an alternate setting, as \<open>usb_parse_interface\<close> does.\<close>

lemma config_owned_store:
  assumes "config_owned cf" "buf_get (intf_cache cf) (int k) = Some c"
    "buf_set (altsetting c) (int (num_altsetting c)) a = Some alts"
  shows "config_owned (cf\<lparr>intf_cache := (intf_cache cf)[k := \<lparr>num_altsetting = num_altsetting c + 1, altsetting = alts\<rparr>]\<rparr>)"
proof -
  have "c \<in> set (intf_cache cf)" using assms(2) by (auto simp: buf_get_def split: if_splits)
  then show ?thesis using assms cache_owned_store [OF _ assms(3)]
    by (auto simp: config_owned_def dest: set_update_subset_insert [THEN subsetD])
qed

lemma parse_interface_owned:
  assumes "usb_parse_interface alloc speed cf b n ifs = Some (r, cf')" "config_owned cf"
  shows "config_owned cf' \<and> cfg_desc cf' = cfg_desc cf"
  using assms config_owned_store
  by (force simp: usb_parse_interface_def Let_def split: bind_splits if_splits prod.splits)

lemma parse_interfaces_owned:
  assumes "usb_parse_interfaces alloc speed cf b n ifs = Some r" "config_owned cf"
  shows "config_owned (snd r) \<and> cfg_desc (snd r) = cfg_desc cf"
proof -
  have "config_owned cf \<longrightarrow> config_owned (snd r) \<and> cfg_desc (snd r) = cfg_desc cf"
  proof (rule usb_parse_interfaces.raw_induct [OF _ assms(1),
        where P = "\<lambda>alloc speed cf b n ifs r. config_owned cf \<longrightarrow> config_owned (snd r) \<and> cfg_desc (snd r) = cfg_desc cf"], goal_cases)
    case (1 f alloc speed cf b n ifs r)
    show ?case
    proof (cases "0 < n")
      case True
      then obtain x where x: "usb_parse_interface alloc speed cf b n ifs = Some x"
        and f: "(if fst x < 0 then Some x else f alloc speed (snd x) (drop (nat (fst x)) b) (n - fst x) ifs) = Some r"
        using 1(2) by (auto simp: bind_eq_Some_conv)
      have "config_owned cf \<longrightarrow> config_owned (snd x) \<and> cfg_desc (snd x) = cfg_desc cf"
        using parse_interface_owned [of alloc speed cf b n ifs "fst x" "snd x"] x by simp
      moreover have "r = x \<or> (config_owned (snd x) \<longrightarrow> config_owned (snd r) \<and> cfg_desc (snd r) = cfg_desc (snd x))"
        using f 1(1) by (cases "fst x < 0") auto
      ultimately show ?thesis by auto
    qed (use 1(2) in auto)
  qed
  then show ?thesis using assms(2) by blast
qed

text \<open>Every way out of the parser keeps the interface caches within the number of interfaces of the descriptor, and that number
  within the array, except for a bad header, which is stored as it came.\<close>

lemma alloc_caches_owned:
  "alloc_caches alloc ifs = (ok, cs) \<Longrightarrow> length cs \<le> length ifs \<and> (\<forall>c \<in> set cs. cache_owned c)"
  by (induction alloc ifs arbitrary: ok cs rule: alloc_caches.induct)
     (auto split: if_splits prod.splits simp: cache_owned_def zero_interface_def)

definition bad_header :: "u8 list \<Rightarrow> bool" where
  "bad_header b \<longleftrightarrow> b ! 1 \<noteq> USB_DT_CONFIG \<or> unat (b ! 0) < 9"

lemma parse_configuration_owned:
  assumes "9 \<le> length b" "size0 \<le> int (length b)"
    "usb_parse_configuration alloc speed zero_config b size0 = Some (r, cf)"
  shows "config_owned cf \<and> (unat (cfg_desc cf ! 4) \<le> USB_MAXINTERFACES \<or> r = - EINVAL \<and> bad_header b \<and> cfg_desc cf = take 9 b)"
proof (cases "bad_header b")
  case True
  then have "r = - EINVAL" "cf = zero_config\<lparr>cfg_desc := take 9 b\<rparr>"
    using assms by (auto simp: usb_parse_configuration_def Let_def bad_header_def)
  then show ?thesis using True by (simp add: config_owned_def zero_config_def)
next
  case False
  let ?l = "unat (b ! 0)"
  have le: "size0 - uint (b ! 0) \<le> int (length (drop ?l b))" by (rule size_drop [OF assms(2)])
  obtain sz ifs iads where cnt: "count_descriptors (drop ?l b) (size0 - uint (b ! 0)) [] [] = Some (sz, ifs, iads)"
    "length ifs \<le> USB_MAXINTERFACES"
    using count_descriptors_chain [OF le, of "[]" "[]"] by auto
  obtain ok cs where al: "alloc_caches alloc (cut_nalts ifs) = (ok, cs)" by fastforce
  let ?d = "(take 9 b)[2 := of_nat (?l + sz), 3 := of_nat ((?l + sz) div 256), 4 := of_nat (length ifs)]"
  have d4: "unat (?d ! 4) = length ifs"
    using assms(1) cnt(2) by (simp add: USB_MAXINTERFACES_def unat_of_nat)
  have c: "config_owned (zero_config\<lparr>cfg_desc := ?d, intf_assoc := iads, intf_cache := cs, cfg_extra := x\<rparr>)" for x
    using alloc_caches_owned [OF al] d4 by (simp add: config_owned_def cut_nalts_def)
  have "config_owned cf \<and> cfg_desc cf = ?d"
    using assms(1,3) False cnt(1) al c parse_interfaces_owned
    by (fastforce simp: usb_parse_configuration_def Let_def bad_header_def zero_config_def split: if_splits bind_splits)
  then show ?thesis using d4 cnt(2) by simp
qed

section \<open>The life of the configurations\<close>

text \<open>What a control transfer may do: it changes bytes of the buffer and returns an error or a number of bytes within it.\<close>

definition control_ok :: "'s usb_control \<Rightarrow> bool" where
  "control_ok ctl \<longleftrightarrow> (\<forall>s ty idx buf r buf' s'. ctl s ty idx buf = (r, buf', s') \<longrightarrow> length buf' = length buf \<and> r \<le> int (length buf))"

lemma get_descriptor_tries_ok:
  assumes "control_ok ctl" "r0 \<le> int (length buf)"
  shows "\<exists>r buf' s'. usb_get_descriptor_tries ctl ty idx n r0 buf s = Some (r, buf', s') \<and> length buf' = length buf \<and>
           r \<le> int (length buf)"
  using assms(2)
proof (induction n arbitrary: r0 buf s)
  case (Suc n)
  obtain r buf1 s1 where c: "ctl s ty idx buf = (r, buf1, s1)" by (cases "ctl s ty idx buf") auto
  then have b: "length buf1 = length buf" "r \<le> int (length buf)" using assms(1) unfolding control_ok_def by blast+
  have g: "buf_get buf1 1 = Some (buf1 ! 1)" if "r > 1" using that b by (simp add: buf_get_def)
  show ?case using Suc.IH [of r buf1 s1] Suc.IH [of "- 71" buf1 s1] c b g by auto
qed simp

lemma get_descriptor_ok:
  assumes "control_ok ctl"
  obtains r buf s' where "usb_get_descriptor ctl ty idx sz s = Some (r, buf, s')" "length buf = sz" "r \<le> int sz"
  using get_descriptor_tries_ok [OF assms, of 0 "replicate sz 0" ty idx 3 s] by (auto simp: usb_get_descriptor_def)

text \<open>The arrays while configurations are read: below \<open>cfgno\<close> they are filled, behind it untouched.\<close>

definition configs_read :: "nat \<Rightarrow> nat \<Rightarrow> usb_host_config list \<Rightarrow> u8 list option list \<Rightarrow> bool" where
  "configs_read ncfg cfgno cfgs raws \<longleftrightarrow> length cfgs = ncfg \<and> length raws = ncfg \<and> cfgno \<le> ncfg \<and>
     (\<forall>c<ncfg. config_owned (cfgs ! c)) \<and> (\<forall>c<ncfg. cfgno \<le> c \<longrightarrow> cfgs ! c = zero_config \<and> raws ! c = None)"

definition slots_ok :: "usb_host_config list \<Rightarrow> bool" where
  "slots_ok cfgs \<longleftrightarrow> (\<forall>cf \<in> set cfgs. unat (cfg_desc cf ! 4) \<le> USB_MAXINTERFACES)"

lemma read_configurations_ok:
  assumes ctl: "control_ok ctl" and "configs_read ncfg cfgno cfgs raws" "slots_ok cfgs" "cfgno + n = ncfg"
  shows "\<exists>r k cfgs' raws' s'. usb_read_configurations kalloc ctl speed cfgno n cfgs raws s = Some (r, k, cfgs', raws', s') \<and>
           r \<le> 0 \<and> configs_read ncfg k cfgs' raws' \<and> (r \<noteq> - EINVAL \<longrightarrow> slots_ok cfgs')"
  using assms(2-)
proof (induction n arbitrary: cfgno cfgs raws s)
  case (Suc n)
  have neg: "EINVAL > 0" "ENOMEM > 0" by (simp_all add: EINVAL_def ENOMEM_def)
  obtain r1 buf s1 where d1: "usb_get_descriptor ctl USB_DT_CONFIG (of_nat cfgno) 9 s = Some (r1, buf, s1)" "length buf = 9" "r1 \<le> 9"
    using get_descriptor_ok [OF ctl, of USB_DT_CONFIG "of_nat cfgno" 9 s] by auto
  consider "r1 < 0" | "0 \<le> r1" "r1 < 4" | "4 \<le> r1" by linarith
  then show ?case
  proof cases
    case 3
    define len where "len = max (unat (buf ! 2) + 256 * unat (buf ! 3)) 9"
    obtain r2 big s2 where d2: "usb_get_descriptor ctl USB_DT_CONFIG (of_nat cfgno) len s1 = Some (r2, big, s2)" "length big = len" "r2 \<le> int len"
      using get_descriptor_ok [OF ctl] by blast
    let ?l2 = "if r2 < int len then r2 else int len"
    have z: "cfgno < ncfg" "cfgs ! cfgno = zero_config" using Suc.prems by (auto simp: configs_read_def)
    have len: "length cfgs = ncfg" "length raws = ncfg" using Suc.prems(1) by (auto simp: configs_read_def)
    have big: "9 \<le> length big" "?l2 \<le> int (length big)" using d2(2) by (auto simp: len_def)
    obtain r3 cf where p: "usb_parse_configuration (\<lambda>k. kalloc (Parse_Site cfgno k)) speed zero_config big ?l2 = Some (r3, cf)"
        "r3 = - EINVAL \<or> r3 = - ENOMEM \<or> r3 = 0"
      using usb_parse_configuration_result [OF big] by blast
    have o: "config_owned cf" "unat (cfg_desc cf ! 4) \<le> USB_MAXINTERFACES \<or> r3 = - EINVAL"
      using parse_configuration_owned [OF big p(1)] by auto
    let ?cfgs = "cfgs[cfgno := cf]" and ?raws = "raws[cfgno := Some big]"
    have inv: "configs_read ncfg (Suc cfgno) ?cfgs ?raws"
      using Suc.prems(1) z o(1) by (auto simp: configs_read_def nth_list_update)
    have sl: "slots_ok ?cfgs" if "r3 \<noteq> - EINVAL"
      using Suc.prems(2) o(2) that set_update_subset_insert [of cfgs cfgno cf] by (auto simp: slots_ok_def)
    have step: "usb_read_configurations kalloc ctl speed cfgno (Suc n) cfgs raws s =
        (if \<not> kalloc (Big_Site cfgno) then Some (- ENOMEM, cfgno, cfgs, raws, s1)
         else if r2 < 0 then Some (r2, cfgno, cfgs, raws, s2)
         else if r3 < 0 then Some (r3, Suc cfgno, ?cfgs, ?raws, s2)
         else usb_read_configurations kalloc ctl speed (Suc cfgno) n ?cfgs ?raws s2)"
      using 3 d1 d2(1) p(1) z len by (simp add: buf_simps len_def [symmetric])
    have IH: "r3 = 0 \<Longrightarrow> \<exists>r k cfgs' raws' s'. usb_read_configurations kalloc ctl speed (Suc cfgno) n ?cfgs ?raws s2 =
         Some (r, k, cfgs', raws', s') \<and> r \<le> 0 \<and> configs_read ncfg k cfgs' raws' \<and> (r \<noteq> - EINVAL \<longrightarrow> slots_ok cfgs')"
      using Suc.IH [OF inv sl] Suc.prems(3) neg by simp
    show ?thesis unfolding step using Suc.prems(1,2) inv sl IH p(2) neg by (cases "r3 = 0") auto
  qed (use d1 Suc.prems neg in auto)
qed auto

lemma for_upto_Some: "(\<And>i. i < n \<Longrightarrow> body i = Some (g i)) \<Longrightarrow> for_upto n body = Some (concat (map g [0..<n]))"
  by (induction n) auto

text \<open>The objects a device owns.\<close>

definition cache_objects :: "nat \<Rightarrow> nat \<Rightarrow> usb_interface_cache \<Rightarrow> usb_object list" where
  "cache_objects c i intfc =
     [Endpoints c i j. j \<leftarrow> [0..<length (altsetting intfc)], alt_endpoint (altsetting intfc ! j) \<noteq> []] @ [Cache c i]"

definition config_objects :: "nat \<Rightarrow> usb_host_config \<Rightarrow> usb_object list" where
  "config_objects c cf = concat (map (\<lambda>i. cache_objects c i (intf_cache cf ! i)) [0..<length (intf_cache cf)])"

definition usb_objects :: "usb_device \<Rightarrow> usb_object set" where
  "usb_objects dev =
     (case ud_raw dev of None \<Rightarrow> {}
      | Some raws \<Rightarrow> insert Raw_Array {Raw_Desc i |i. i < length raws \<and> raws ! i \<noteq> None}) \<union>
     (case ud_config dev of None \<Rightarrow> {}
      | Some cfgs \<Rightarrow> insert Config_Array (\<Union>c<length cfgs. set (config_objects c (cfgs ! c))))"

lemma concat_upt_split:
  "k \<le> n \<Longrightarrow> (\<And>i. k \<le> i \<Longrightarrow> i < n \<Longrightarrow> g i = []) \<Longrightarrow> concat (map g [0..<n]) = concat (map g [0..<k])"
proof -
  assume k: "k \<le> n" and g: "\<And>i. k \<le> i \<Longrightarrow> i < n \<Longrightarrow> g i = []"
  have "[0..<n] = [0..<k] @ [k..<n]" using k by (metis le_add_diff_inverse upt_add_eq_append zero_le)
  moreover have "concat (map g [k..<n]) = []" using g by simp
  ultimately show ?thesis by simp
qed

lemma distinct_concat_upt:
  assumes "\<And>i. i < n \<Longrightarrow> distinct (g i)" "\<And>i j. i < j \<Longrightarrow> j < n \<Longrightarrow> set (g i) \<inter> set (g j) = {}"
  shows "distinct (concat (map g [0..<n]))"
  using assms by (induction n) (fastforce)+

lemma release_interface_cache_ok:
  assumes "cache_owned intfc"
  shows "usb_release_interface_cache c i intfc = Some (cache_objects c i intfc)"
proof -
  let ?g = "\<lambda>j. if alt_endpoint (altsetting intfc ! j) \<noteq> [] then [Endpoints c i j] else []"
  have n: "num_altsetting intfc \<le> length (altsetting intfc)" using assms by (simp add: cache_owned_def)
  have "alt_endpoint (altsetting intfc ! j) = []" if "num_altsetting intfc \<le> j" "j < length (altsetting intfc)" for j
  proof -
    have "altsetting intfc ! j = drop (num_altsetting intfc) (altsetting intfc) ! (j - num_altsetting intfc)" using that by simp
    moreover have "\<dots> \<in> set (drop (num_altsetting intfc) (altsetting intfc))" using that by (intro nth_mem) simp
    ultimately show ?thesis using assms by (metis cache_owned_def)
  qed
  then have "concat (map ?g [0..<length (altsetting intfc)]) = concat (map ?g [0..<num_altsetting intfc])"
    by (intro concat_upt_split [OF n]) simp
  moreover have "for_upto (num_altsetting intfc) (\<lambda>j.
            do { alt \<leftarrow> buf_get (altsetting intfc) (int j);
                 Some (if alt_endpoint alt = [] then [] else [Endpoints c i j]) }) =
      Some (concat (map ?g [0..<num_altsetting intfc]))"
    by (rule for_upto_Some) (use n in \<open>simp add: buf_simps\<close>)
  ultimately show ?thesis by (simp add: usb_release_interface_cache_def cache_objects_def)
qed

lemma free_config_ok:
  assumes "config_owned cf" "unat (cfg_desc cf ! 4) \<le> USB_MAXINTERFACES"
  shows "usb_free_config c cf = Some (config_objects c cf)"
proof -
  let ?g = "\<lambda>i. if i < length (intf_cache cf) then cache_objects c i (intf_cache cf ! i) else []"
  have n: "length (intf_cache cf) \<le> unat (cfg_desc cf ! 4)" using assms by (simp add: config_owned_def)
  have "usb_free_config c cf = Some (concat (map ?g [0..<unat (cfg_desc cf ! 4)]))"
    unfolding usb_free_config_def
    by (rule for_upto_Some) (use assms in \<open>auto simp: intf_cache_at_def config_owned_def release_interface_cache_ok\<close>)
  also have "concat (map ?g [0..<unat (cfg_desc cf ! 4)]) = concat (map ?g [0..<length (intf_cache cf)])"
    by (rule concat_upt_split [OF n]) simp
  also have "\<dots> = config_objects c cf" unfolding config_objects_def by (intro arg_cong [of _ _ concat] map_cong) auto
  finally show ?thesis .
qed

lemma cache_objects_distinct: "distinct (cache_objects c i intfc)"
  by (auto simp: cache_objects_def intro!: distinct_concat_upt)

lemma cache_objects_of: "x \<in> set (cache_objects c i intfc) \<Longrightarrow> x = Cache c i \<or> (\<exists>j. x = Endpoints c i j)"
  by (auto simp: cache_objects_def split: if_splits)

lemma config_objects_distinct: "distinct (config_objects c cf)"
  unfolding config_objects_def
  by (rule distinct_concat_upt [OF cache_objects_distinct]) (auto dest!: cache_objects_of)

lemma config_objects_of: "x \<in> set (config_objects c cf) \<Longrightarrow> \<exists>i. x = Cache c i \<or> (\<exists>j. x = Endpoints c i j)"
  by (auto simp: config_objects_def dest!: cache_objects_of)

lemma destroy_ok:
  assumes R: "configs_read ncfg k cfgs raws" "slots_ok cfgs"
    and dev: "ud_config dev = Some cfgs" "ud_raw dev = Some raws \<or> ud_raw dev = None" "unat (ud_num dev) = k"
  shows "\<exists>freed. usb_destroy_configuration dev = Some (freed, dev\<lparr>ud_raw := None, ud_config := None\<rparr>) \<and>
           distinct freed \<and> set freed = usb_objects dev"
proof -
  let ?r = "\<lambda>i. if raws ! i = None then [] else [Raw_Desc i]"
  let ?f = "\<lambda>c. config_objects c (cfgs ! c)"
  have len: "length cfgs = ncfg" "length raws = ncfg" "k \<le> ncfg" using R(1) by (auto simp: configs_read_def)
  have "for_upto k (\<lambda>c. do { cf \<leftarrow> buf_get cfgs (int c); usb_free_config c cf }) = Some (concat (map ?f [0..<k]))"
    by (rule for_upto_Some) (use R len in \<open>simp add: buf_simps free_config_ok configs_read_def slots_ok_def\<close>)
  moreover have "concat (map ?f [0..<ncfg]) = concat (map ?f [0..<k])"
    by (rule concat_upt_split [OF len(3)]) (use R(1) in \<open>simp add: configs_read_def config_objects_def zero_config_def\<close>)
  ultimately have 1: "for_upto k (\<lambda>c. do { cf \<leftarrow> buf_get cfgs (int c); usb_free_config c cf }) = Some (concat (map ?f [0..<ncfg]))"
    by simp
  have "for_upto k (\<lambda>i. do { r \<leftarrow> buf_get raws (int i); Some (case r of None \<Rightarrow> [] | Some _ \<Rightarrow> [Raw_Desc i]) }) =
      Some (concat (map ?r [0..<k]))"
    by (rule for_upto_Some) (use len in \<open>auto simp: buf_simps split: option.splits\<close>)
  moreover have "concat (map ?r [0..<ncfg]) = concat (map ?r [0..<k])"
    by (rule concat_upt_split [OF len(3)]) (use R(1) in \<open>simp add: configs_read_def\<close>)
  ultimately have 2: "for_upto k (\<lambda>i. do { r \<leftarrow> buf_get raws (int i); Some (case r of None \<Rightarrow> [] | Some _ \<Rightarrow> [Raw_Desc i]) }) =
      Some (concat (map ?r [0..<ncfg]))" by simp
  have d1: "distinct (concat (map ?f [0..<ncfg]) @ [Config_Array])"
    by (auto intro!: distinct_concat_upt config_objects_distinct dest!: config_objects_of)
  have d2: "distinct (concat (map ?r [0..<ncfg]) @ [Raw_Array])"
    by (auto intro!: distinct_concat_upt split: if_splits)
  have dj: "set (concat (map ?r [0..<ncfg]) @ [Raw_Array]) \<inter> set (concat (map ?f [0..<ncfg]) @ [Config_Array]) = {}"
    by (auto dest!: config_objects_of split: if_splits)
  have s: "set (concat (map ?r [0..<ncfg])) = {Raw_Desc i |i. i < length raws \<and> raws ! i \<noteq> None}"
      "set (concat (map ?f [0..<ncfg])) = (\<Union>c<length cfgs. set (?f c))"
    using len by (auto simp: lessThan_def)
  let ?F = "concat (map ?f [0..<ncfg]) @ [Config_Array]" and ?R = "concat (map ?r [0..<ncfg]) @ [Raw_Array]"
  show ?thesis
  proof (cases "ud_raw dev")
    case None
    have "usb_destroy_configuration dev = Some (?F, dev\<lparr>ud_raw := None, ud_config := None\<rparr>)"
      using dev None 1 by (simp add: usb_destroy_configuration_def)
    moreover have "set ?F = usb_objects dev" using dev(1) None s(2) by (simp add: usb_objects_def)
    ultimately show ?thesis using d1 by blast
  next
    case (Some rs)
    then have "ud_raw dev = Some raws" using dev(2) by simp
    then have "usb_destroy_configuration dev = Some (?R @ ?F, dev\<lparr>ud_raw := None, ud_config := None\<rparr>)"
      using dev 1 2 by (simp add: usb_destroy_configuration_def)
    moreover have "set (?R @ ?F) = usb_objects dev" using dev(1) \<open>ud_raw dev = Some raws\<close> s
      by (simp add: usb_objects_def insert_commute)
    moreover have "distinct (?R @ ?F)" using d1 d2 dj by (simp only: distinct_append)
    ultimately show ?thesis by blast
  qed
qed

section \<open>From reading to freeing\<close>

lemma configs_read_start: "configs_read n 0 (replicate n zero_config) (replicate n None)" "slots_ok (replicate n zero_config)"
  by (auto simp: configs_read_def slots_ok_def config_owned_def zero_config_def)

lemma destroy_nothing: "ud_config dev = None \<Longrightarrow> ud_raw dev = None \<Longrightarrow>
    usb_destroy_configuration dev = Some ([], dev\<lparr>ud_raw := None, ud_config := None\<rparr>) \<and> usb_objects dev = {}"
  by (simp add: usb_destroy_configuration_def usb_objects_def)

lemma get_configuration_cases:
  assumes ctl: "control_ok ctl" and dev: "ud_config dev = None" "ud_raw dev = None"
  shows "\<exists>r dev' s'. usb_get_configuration kalloc ctl dev s = Some (r, dev', s') \<and> r \<le> 0 \<and>
     (ud_config dev' = None \<and> ud_raw dev' = None \<or>
      (\<exists>ncfg cfgs raws. ncfg \<le> USB_MAXCONFIG \<and> configs_read ncfg (unat (ud_num dev')) cfgs raws \<and> ud_config dev' = Some cfgs \<and>
         (ud_raw dev' = Some raws \<or> ud_raw dev' = None) \<and> (r = - EINVAL \<or> slots_ok cfgs)))"
proof -
  define ncfg where "ncfg = min (unat (ud_num dev)) USB_MAXCONFIG"
  let ?n = "of_nat ncfg :: u8" and ?cfgs = "replicate ncfg zero_config" and ?raws = "replicate ncfg None :: u8 list option list"
  have n: "ncfg \<le> USB_MAXCONFIG" "\<And>k. k \<le> ncfg \<Longrightarrow> unat (of_nat k :: u8) = k"
    by (simp_all add: ncfg_def USB_MAXCONFIG_def unat_of_nat)
  have neg: "EINVAL > 0" "ENOMEM > 0" by (simp_all add: EINVAL_def ENOMEM_def)
  obtain r k cfgs raws s' where rd: "usb_read_configurations kalloc ctl (ud_speed dev) 0 ncfg ?cfgs ?raws s = Some (r, k, cfgs, raws, s')"
      "r \<le> 0" "configs_read ncfg k cfgs raws" "r \<noteq> - EINVAL \<longrightarrow> slots_ok cfgs"
    using read_configurations_ok [OF ctl configs_read_start(1) [of ncfg] configs_read_start(2) add_0,
        where kalloc = kalloc and speed = "ud_speed dev" and s = s] by blast
  have k: "unat (of_nat k :: u8) = k" using rd(3) n(2) by (simp add: configs_read_def)
  have full: "configs_read ncfg ncfg ?cfgs ?raws" using configs_read_start(1) [of ncfg] by (simp add: configs_read_def)
  note unf = usb_get_configuration_def Let_def ncfg_def [symmetric]
  consider "\<not> ud_authorized dev \<or> ncfg < 1 \<or> \<not> kalloc Config_Site"
    | "ud_authorized dev" "ncfg \<ge> 1" "kalloc Config_Site" "\<not> kalloc Raw_Site \<or> \<not> kalloc Header_Site"
    | "ud_authorized dev" "ncfg \<ge> 1" "kalloc Config_Site" "kalloc Raw_Site" "kalloc Header_Site" by linarith
  then show ?thesis
  proof cases
    case 1
    then show ?thesis using dev neg by (auto simp: unf)
  next
    case 2
    obtain raw where "usb_get_configuration kalloc ctl dev s =
        Some (- ENOMEM, dev\<lparr>ud_num := ?n, ud_config := Some ?cfgs, ud_raw := raw\<rparr>, s)" "raw = Some ?raws \<or> raw = None"
      using 2 by (cases "kalloc Raw_Site") (auto simp: unf)
    then show ?thesis using full n configs_read_start(2) [of ncfg] neg by force
  next
    case 3
    then have "usb_get_configuration kalloc ctl dev s =
        Some (r, dev\<lparr>ud_num := of_nat k, ud_config := Some cfgs, ud_raw := Some raws\<rparr>, s')"
      using rd(1) by (simp add: unf)
    then show ?thesis using rd(2-) k n(1) by force
  qed
qed

text \<open>C21: No leak, no double free. Reading the configurations of any device returns a code that is at most 0, whichever transfer or
  allocation fails. Afterwards \<open>usb_destroy_configuration\<close> gives each object that the device owns to \<open>kfree\<close>
  exactly once, and nothing else, unless \<open>-EINVAL\<close> was returned and a stored header claims more than 32 interfaces.
  The objects are those of the device; the two temporary buffers inside \<open>usb_get_configuration\<close> are not among them.\<close>

theorem usb_configuration_lifecycle:
  assumes "control_ok ctl" "ud_config dev = None" "ud_raw dev = None"
  shows "\<exists>r dev' s'. usb_get_configuration kalloc ctl dev s = Some (r, dev', s') \<and> r \<le> 0 \<and>
     (r = - EINVAL \<and> (\<exists>cfgs. ud_config dev' = Some cfgs \<and> (\<exists>cf \<in> set cfgs. 32 < unat (cfg_desc cf ! 4))) \<or>
      (\<exists>freed. usb_destroy_configuration dev' = Some (freed, dev'\<lparr>ud_raw := None, ud_config := None\<rparr>) \<and>
         distinct freed \<and> set freed = usb_objects dev'))"
proof -
  obtain r dev' s' where g: "usb_get_configuration kalloc ctl dev s = Some (r, dev', s')" "r \<le> 0"
    and c: "ud_config dev' = None \<and> ud_raw dev' = None \<or>
      (\<exists>ncfg cfgs raws. ncfg \<le> USB_MAXCONFIG \<and> configs_read ncfg (unat (ud_num dev')) cfgs raws \<and> ud_config dev' = Some cfgs \<and>
         (ud_raw dev' = Some raws \<or> ud_raw dev' = None) \<and> (r = - EINVAL \<or> slots_ok cfgs))"
    using get_configuration_cases [OF assms] by blast
  from c show ?thesis
  proof
    assume "ud_config dev' = None \<and> ud_raw dev' = None"
    then show ?thesis using g destroy_nothing [of dev'] by force
  next
    assume "\<exists>ncfg cfgs raws. ncfg \<le> USB_MAXCONFIG \<and> configs_read ncfg (unat (ud_num dev')) cfgs raws \<and> ud_config dev' = Some cfgs \<and>
         (ud_raw dev' = Some raws \<or> ud_raw dev' = None) \<and> (r = - EINVAL \<or> slots_ok cfgs)"
    then obtain ncfg cfgs raws where e: "configs_read ncfg (unat (ud_num dev')) cfgs raws" "ud_config dev' = Some cfgs"
        "ud_raw dev' = Some raws \<or> ud_raw dev' = None" "r = - EINVAL \<or> slots_ok cfgs" by blast
    show ?thesis
    proof (cases "slots_ok cfgs")
      case True
      then show ?thesis using g destroy_ok [OF e(1) True e(2,3) refl] by blast
    next
      case False
      then have "\<exists>cf \<in> set cfgs. 32 < unat (cfg_desc cf ! 4)" by (auto simp: slots_ok_def USB_MAXINTERFACES_def not_le)
      then show ?thesis using g e(2,4) False by blast
    qed
  qed
qed

text \<open>A device with one configuration that answers every request for it with the bytes \<open>bs\<close>.\<close>

definition answers :: "u8 list \<Rightarrow> unit usb_control" where
  "answers bs s ty idx buf =
     (let n = min (length bs) (length buf) in (int n, take n bs @ drop n buf, s))"

definition one_config :: usb_device where
  "one_config = \<lparr>ud_authorized = True, ud_speed = USB_SPEED_HIGH, ud_num = 1, ud_config = None, ud_raw = None\<rparr>"

lemma answers_ok: "control_ok (answers bs)"
  by (auto simp: control_ok_def answers_def Let_def)

theorem usb_configuration_lifecycle_witness:
  "\<exists>dev'. usb_get_configuration (\<lambda>_. True) (answers usb_example) one_config () = Some (0, dev', ()) \<and>
     (\<exists>freed. usb_destroy_configuration dev' = Some (freed, dev'\<lparr>ud_raw := None, ud_config := None\<rparr>) \<and>
         distinct freed \<and> set freed = usb_objects dev')"
proof -
  have "map_option fst (usb_get_configuration (\<lambda>_. True) (answers usb_example) one_config ()) = Some 0" by code_simp
  moreover have "- EINVAL \<noteq> 0" by (simp add: EINVAL_def)
  ultimately show ?thesis
    using usb_configuration_lifecycle [OF answers_ok [of usb_example], of one_config "\<lambda>_. True" "()"] by (force simp: one_config_def)
qed

lemma for_upto_None: "i < n \<Longrightarrow> body i = None \<Longrightarrow> for_upto n body = None"
  by (induction n) (auto simp: less_Suc_eq bind_eq_None_conv split: option.splits)

lemma free_config_overflows:
  assumes "32 < unat (cfg_desc cf ! 4)" "intf_cache cf = []"
  shows "usb_free_config c cf = None"
  unfolding usb_free_config_def using assms by (intro for_upto_None [of 32]) (simp_all add: intf_cache_at_def USB_MAXINTERFACES_def)

text \<open>C40: A header that is rejected is stored all the same, with the device's number of interfaces. For every device whose first
  configuration, read without errors of transfer or memory, has a header that is too short or not of a configuration, and that
  claims more than 32 interfaces, \<open>usb_get_configuration\<close> returns \<open>-EINVAL\<close> and leaves the configuration with the device,
  and \<open>usb_destroy_configuration\<close> then reads beyond \<open>intf_cache\<close> and passes what it finds to \<open>kref_put\<close>.\<close>

theorem usb_destroy_configuration_overflows:
  assumes "control_ok ctl" "ud_authorized dev" "1 \<le> unat (ud_num dev)"
    and "kalloc Config_Site" "kalloc Raw_Site" "kalloc Header_Site" "kalloc (Big_Site 0)"
    and "usb_get_descriptor ctl USB_DT_CONFIG 0 9 s = Some (r1, hdr, s1)" "4 \<le> r1"
    and "usb_get_descriptor ctl USB_DT_CONFIG 0 (max (unat (hdr ! 2) + 256 * unat (hdr ! 3)) 9) s1 = Some (r2, big, s2)" "0 \<le> r2"
    and "bad_header big" "32 < unat (big ! 4)"
  shows "\<exists>dev'. usb_get_configuration kalloc ctl dev s = Some (- EINVAL, dev', s2) \<and> usb_destroy_configuration dev' = None"
proof -
  define ncfg where "ncfg = min (unat (ud_num dev)) USB_MAXCONFIG"
  define len where "len = max (unat (hdr ! 2) + 256 * unat (hdr ! 3)) 9"
  obtain n where n: "ncfg = Suc n" using assms(3) by (cases ncfg) (auto simp: ncfg_def USB_MAXCONFIG_def)
  have l: "length hdr = 9" "length big = len"
    using get_descriptor_ok [OF assms(1), of USB_DT_CONFIG 0 9 s] get_descriptor_ok [OF assms(1), of USB_DT_CONFIG 0 len s1]
      assms(8,10) by (auto simp: len_def)
  let ?cf = "zero_config\<lparr>cfg_desc := take 9 big\<rparr>"
  let ?dev = "dev\<lparr>ud_num := 1, ud_config := Some (?cf # replicate n zero_config), ud_raw := Some (Some big # replicate n None)\<rparr>"
  have "9 \<le> length big" using l(2) by (simp add: len_def)
  then have p: "usb_parse_configuration alloc sp zero_config big sz = Some (- EINVAL, ?cf)" for alloc sp sz
    using assms(12) by (auto simp: usb_parse_configuration_def Let_def bad_header_def)
  have "- EINVAL < 0" by (simp add: EINVAL_def)
  then have "usb_read_configurations kalloc ctl (ud_speed dev) 0 (Suc n) (replicate (Suc n) zero_config) (replicate (Suc n) None) s =
      Some (- EINVAL, 1, ?cf # replicate n zero_config, Some big # replicate n None, s2)"
    using assms(7-11) l p by (simp add: buf_simps len_def [symmetric] buf_get_def buf_set_def)
  then have g: "usb_get_configuration kalloc ctl dev s = Some (- EINVAL, ?dev, s2)"
    using assms(2,4-6) by (simp add: usb_get_configuration_def Let_def ncfg_def [symmetric] n del: usb_read_configurations.simps replicate.simps)
  have "usb_free_config 0 ?cf = None" using assms(13) by (intro free_config_overflows) (simp_all add: zero_config_def)
  then have "for_upto 1 (\<lambda>c. do { cf \<leftarrow> buf_get (?cf # replicate n zero_config) (int c); usb_free_config c cf }) = None"
    by (intro for_upto_None [of 0]) (simp_all add: buf_get_def)
  then have "usb_destroy_configuration ?dev = None" by (simp add: usb_destroy_configuration_def buf_get_def)
  with g show ?thesis by blast
qed

text \<open>A header of length 8 that claims 255 interfaces.\<close>

theorem usb_destroy_configuration_overflows_witness:
  "\<exists>dev'. usb_get_configuration (\<lambda>_. True) (answers [8, 2, 9, 0, 255, 1, 0, 0x80, 50]) one_config () = Some (- EINVAL, dev', ()) \<and>
     usb_destroy_configuration dev' = None"
proof (rule usb_destroy_configuration_overflows)
  let ?h = "[8, 2, 9, 0, 255, 1, 0, 0x80, 50] :: u8 list"
  show "usb_get_descriptor (answers ?h) USB_DT_CONFIG 0 9 () = Some (9, ?h, ())" by code_simp
  show "usb_get_descriptor (answers ?h) USB_DT_CONFIG 0 (max (unat (?h ! 2) + 256 * unat (?h ! 3)) 9) () = Some (9, ?h, ())" by code_simp
qed (simp_all add: answers_ok one_config_def bad_header_def)

end
