(* ===== verification/Hid_Bits.thy ===== *)
theory Hid_Bits
  imports Prelude
begin

text \<open>
  The bit fields of HID reports, \<^verbatim>\<open>vmklinux26/linux/drivers/hid/hid-core.c\<close>: \<open>extract\<close> and \<open>implement\<close> move a
  field between a little endian bit stream and a number, eight bytes at a time, and \<open>snto32\<close> and
  \<open>s32ton\<close> convert between 32-bit and narrower signed numbers.

  Signed numbers are integers. A shift by a negative amount or by the width of its operand, which C leaves
  undefined, and an access outside the report, are \<^term>\<open>None\<close>.
\<close>

section \<open>Little endian access\<close>

text \<open>\<open>le64_to_cpu(get_unaligned(p))\<close> and \<open>put_unaligned(cpu_to_le64(x), p)\<close>; on the vmkernel's x86 the
  conversions are the identity.\<close>

fun le_word :: "u8 list \<Rightarrow> u64" where
  "le_word [] = 0"
| "le_word (b # bs) = ucast b OR push_bit 8 (le_word bs)"

definition get_le64 :: "u8 list \<Rightarrow> nat \<Rightarrow> u64 option" where
  "get_le64 b p = (if p + 8 \<le> length b then Some (le_word (take 8 (drop p b))) else None)"

definition le_bytes :: "u64 \<Rightarrow> u8 list" where
  "le_bytes x = map (\<lambda>i. ucast (drop_bit (8 * i) x)) [0..<8]"

definition put_le64 :: "u64 \<Rightarrow> u8 list \<Rightarrow> nat \<Rightarrow> u8 list option" where
  "put_le64 x b p = blit b p (le_bytes x)"

section \<open>Fields\<close>

definition extract_field :: "u8 list \<Rightarrow> u32 \<Rightarrow> nat \<Rightarrow> u32 option" where
  "extract_field report offset n =
     (if 64 \<le> n then None
      else do { x \<leftarrow> get_le64 report (unat (drop_bit 3 offset));
                Some (ucast (drop_bit (unat (offset AND 7)) x AND (push_bit n 1 - 1))) })"

definition implement_field :: "u8 list \<Rightarrow> u32 \<Rightarrow> nat \<Rightarrow> u32 \<Rightarrow> u8 list option" where
  "implement_field report offset n value =
     (if 64 \<le> n then None
      else
        let m = push_bit n 1 - 1 :: u64; value = value AND ucast m;
            p = unat (drop_bit 3 offset); offset = unat (offset AND 7)
        in do { x \<leftarrow> get_le64 report p;
                put_le64 ((x AND NOT (push_bit offset m)) OR push_bit offset (ucast value)) report p })"

definition snto32 :: "u32 \<Rightarrow> nat \<Rightarrow> int option" where
  "snto32 value n =
     (if n = 8 then Some (sint (ucast value :: u8))
      else if n = 16 then Some (sint (ucast value :: u16))
      else if n = 32 then Some (sint value)
      else if n = 0 \<or> 32 < n then None
      else Some (sint (if value AND push_bit (n - 1) 1 \<noteq> 0 then value OR push_bit n (- 1) else value)))"

definition s32ton :: "int \<Rightarrow> nat \<Rightarrow> u32 option" where
  "s32ton value n =
     (if n = 0 \<or> 32 < n then None
      else
        let a = drop_bit (n - 1) value in
        if a \<noteq> 0 \<and> a \<noteq> - 1 then Some (if value < 0 then push_bit (n - 1) 1 else push_bit (n - 1) 1 - 1)
        else if n = 32 then None
        else Some (word_of_int value AND (push_bit n 1 - 1)))"

text \<open>Search an array for a value; \<open>n\<close> is its length. 0 means found.\<close>

fun search :: "int list \<Rightarrow> int \<Rightarrow> nat \<Rightarrow> int option" where
  "search xs v 0 = Some (- 1)"
| "search [] v (Suc n) = None"
| "search (x # xs) v (Suc n) = (if x = v then Some 0 else search xs v n)"

lemma search_length: "search xs v (length xs) = Some (if v \<in> set xs then 0 else - 1)"
  by (induction xs) auto

section \<open>The bit stream\<close>

definition stream_bit :: "u8 list \<Rightarrow> nat \<Rightarrow> bool" where
  "stream_bit b k = bit (b ! (k div 8)) (k mod 8)"

lemma stream_bit_Cons: "stream_bit (x # bs) k = (if k < 8 then bit x k else stream_bit bs (k - 8))"
proof (cases "k < 8")
  case False
  then obtain j where "k = 8 + j" by (metis le_iff_add not_less)
  then show ?thesis by (simp add: stream_bit_def div_add_self1)
qed (simp add: stream_bit_def)

lemma stream_bit_drop: "p \<le> length b \<Longrightarrow> stream_bit (drop p b) k = stream_bit b (8 * p + k)"
  by (simp add: stream_bit_def)

lemma stream_bit_take: "k < 8 * n \<Longrightarrow> n \<le> length b \<Longrightarrow> stream_bit (take n b) k = stream_bit b k"
  by (simp add: stream_bit_def less_mult_imp_div_less)

lemma bit_le_word: "k < 64 \<Longrightarrow> bit (le_word bs) k \<longleftrightarrow> k < 8 * length bs \<and> stream_bit bs k"
proof (induction bs arbitrary: k)
  case (Cons b bs)
  show ?case
  proof (cases "k < 8")
    case True
    then show ?thesis using Cons.prems by (simp add: bit_or_iff bit_push_bit_iff bit_ucast_iff stream_bit_Cons)
  next
    case False
    then show ?thesis using Cons.IH [of "k - 8"] Cons.prems
      by (auto simp: bit_or_iff bit_push_bit_iff bit_ucast_iff stream_bit_Cons dest: bit_imp_le_length)
  qed
qed simp

lemma get_le64_bit:
  assumes "get_le64 b p = Some x" "k < 64"
  shows "bit x k \<longleftrightarrow> stream_bit b (8 * p + k)"
  using assms by (auto simp: get_le64_def bit_le_word stream_bit_take stream_bit_drop split: if_splits)

lemma le_bytes_length [simp]: "length (le_bytes x) = 8"
  by (simp add: le_bytes_def)

lemma stream_bit_le_bytes: "k < 64 \<Longrightarrow> stream_bit (le_bytes x) k \<longleftrightarrow> bit x k"
  by (simp add: stream_bit_def le_bytes_def less_mult_imp_div_less bit_ucast_iff bit_drop_bit_eq mult.commute)

lemma put_le64_bit:
  assumes "put_le64 x b p = Some b'" "k < 8 * length b"
  shows "stream_bit b' k = (if 8 * p \<le> k \<and> k < 8 * p + 64 then bit x (k - 8 * p) else stream_bit b k)"
proof -
  have b: "b' = take p b @ le_bytes x @ drop (p + 8) b" "p + 8 \<le> length b"
    using assms(1) by (auto simp: put_le64_def blit_def split: if_splits)
  consider "k < 8 * p" | "8 * p \<le> k" "k < 8 * p + 64" | "8 * p + 64 \<le> k" by linarith
  then show ?thesis
  proof cases
    case 1
    then have "k div 8 < p" by (simp add: less_mult_imp_div_less)
    then show ?thesis using 1 b by (simp add: stream_bit_def nth_append)
  next
    case 2
    then obtain j where j: "k = 8 * p + j" "j < 64" by (metis add_less_cancel_left le_iff_add)
    then have d: "k div 8 = p + j div 8" "k mod 8 = j mod 8" by simp_all
    have "j div 8 < 8" using j(2) by (simp add: less_mult_imp_div_less)
    then have "stream_bit b' k = stream_bit (le_bytes x) j" unfolding stream_bit_def d using b by (simp add: nth_append)
    then show ?thesis using j by (simp add: stream_bit_le_bytes)
  next
    case 3
    then have "p + 8 \<le> k div 8" by simp
    then have "b' ! (k div 8) = b ! (k div 8)" using b by (auto simp: nth_append)
    then show ?thesis using 3 by (simp add: stream_bit_def)
  qed
qed

lemma put_le64_Some: "p + 8 \<le> length b \<Longrightarrow> \<exists>b'. put_le64 x b p = Some b' \<and> length b' = length b"
  by (simp add: put_le64_def blit_def)

section \<open>Reading and writing fields\<close>

lemma unat_shift3: "unat (drop_bit 3 offset) = unat (offset :: u32) div 8"
  by (simp only: unat_drop_bit_eq) (simp add: drop_bit_eq_div)

lemma offset_split: "8 * unat (drop_bit 3 offset) + unat (offset AND 7) = unat (offset :: u32)"
proof -
  have "offset AND 7 = take_bit 3 offset" by (simp add: take_bit_eq_mask mask_eq_exp_minus_1)
  then show ?thesis unfolding unat_shift3 by (simp only: unsigned_take_bit_eq) (simp add: take_bit_eq_mod)
qed

lemma offset_low: "unat (offset AND 7 :: u32) < 8"
  using word_and_le1 [of offset 7] by (simp add: word_le_nat_alt)

lemma mask_word: "2 ^ n - 1 = (mask n :: 'a::len word)"
  by (simp add: mask_eq_exp_minus_1)

lemma extract_bit:
  assumes "extract_field b offset n = Some v" "n \<le> 32"
  shows "bit v i \<longleftrightarrow> i < n \<and> stream_bit b (unat offset + i)"
proof -
  let ?o = "unat (offset AND 7)"
  obtain x where x: "get_le64 b (unat (drop_bit 3 offset)) = Some x" "v = ucast (drop_bit ?o x AND mask n)"
    using assms by (auto simp: extract_field_def mask_word split: if_splits bind_splits)
  have "bit v i \<longleftrightarrow> i < n \<and> bit x (?o + i)"
    unfolding x(2) using assms(2) by (auto simp: bit_ucast_iff bit_and_iff bit_mask_iff bit_drop_bit_eq dest: bit_imp_le_length)
  moreover have "bit x (?o + i) = stream_bit b (unat offset + i)" if "i < n"
    using get_le64_bit [OF x(1), of "?o + i"] offset_low [of offset] assms(2) that offset_split [of offset] by (simp add: add.assoc [symmetric])
  ultimately show ?thesis by auto
qed

lemma extract_Some:
  assumes "n \<le> 32" "unat offset div 8 + 8 \<le> length b"
  obtains v where "extract_field b offset n = Some v"
  using assms by (simp add: extract_field_def get_le64_def unat_shift3)

lemma implement_bit:
  assumes "implement_field b offset n v = Some b'" "n \<le> 32" "k < 8 * length b"
  shows "stream_bit b' k = (if unat offset \<le> k \<and> k < unat offset + n then bit v (k - unat offset) else stream_bit b k)"
proof -
  let ?o = "unat (offset AND 7)" and ?p = "unat (drop_bit 3 offset)"
  define y where "y x = (x AND NOT (push_bit ?o (mask n))) OR push_bit ?o (ucast (v AND ucast (mask n :: u64)))" for x :: u64
  obtain x where x: "get_le64 b ?p = Some x" "put_le64 (y x) b ?p = Some b'"
    using assms by (auto simp: implement_field_def y_def mask_word Let_def split: if_splits bind_splits)
  have s: "unat offset = 8 * ?p + ?o" "?o < 8" using offset_split offset_low by simp_all
  have y: "bit (y x) j = (if ?o \<le> j \<and> j < ?o + n then bit v (j - ?o) else bit x j)" if "j < 64" for j
    unfolding y_def using that assms(2)
    by (auto simp: bit_or_iff bit_and_iff bit_not_iff bit_push_bit_iff bit_mask_iff bit_ucast_iff dest: bit_imp_le_length)
  show ?thesis
  proof (cases "8 * ?p \<le> k \<and> k < 8 * ?p + 64")
    case True
    then obtain j where j: "k = 8 * ?p + j" "j < 64" by (metis add_less_cancel_left le_iff_add)
    then show ?thesis using y [OF j(2)] get_le64_bit [OF x(1) j(2)] put_le64_bit [OF x(2) assms(3)] unfolding s(1) by auto
  next
    case False
    then show ?thesis using put_le64_bit [OF x(2) assms(3)] s assms(2) by auto
  qed
qed

lemma implement_Some:
  assumes "n \<le> 32" "unat offset div 8 + 8 \<le> length b"
  obtains b' where "implement_field b offset n v = Some b'" "length b' = length b"
  using assms put_le64_Some [of "unat offset div 8" b]
  by (fastforce simp: implement_field_def get_le64_def unat_shift3 Let_def)

lemma implement_length: "implement_field b offset n v = Some b' \<Longrightarrow> length b' = length b"
  by (auto simp: implement_field_def Let_def put_le64_def dest: blit_length split: if_splits bind_splits)

section \<open>Signed fields\<close>

lemma snto32_signed:
  assumes "1 \<le> n" "n \<le> 31" "\<And>i. n \<le> i \<Longrightarrow> \<not> bit w i"
  shows "snto32 w n = Some (signed_take_bit (n - 1) (uint w))"
proof -
  have b: "bit (uint w) i = bit w i" for i by (auto simp: bit_uint_iff dest: bit_imp_le_length)
  have s: "bit (sint x) i = bit x (min i (LENGTH('l) - 1))" for x :: "'l::len word" and i
    using len_gt_0 [where 'a = 'l] bit_imp_le_length [of x i] by (auto simp: bit_sint_iff min_def simp del: len_gt_0) (metis Suc_pred le_antisym not_less_eq_eq)?
  have n: "w AND push_bit (n - 1) 1 \<noteq> 0 \<longleftrightarrow> bit w (n - 1)"
    using assms(1,2) by (simp add: bit_iff_and_push_bit_not_eq_0)
  have "sint (ucast w :: u8) = signed_take_bit 7 (uint w)" "sint (ucast w :: u16) = signed_take_bit 15 (uint w)"
    by (rule bit_eqI, simp add: s bit_ucast_iff bit_signed_take_bit_iff b min_less_iff_disj min.commute)+
  moreover have "sint (if bit w (n - 1) then w OR push_bit n (- 1) else w) = signed_take_bit (n - 1) (uint w)"
  proof (rule bit_eqI)
    fix i
    consider "i < n - 1" "i < n" | "i = n - 1" | "n \<le> i" by linarith
    then show "bit (sint (if bit w (n - 1) then w OR push_bit n (- 1) else w)) i = bit (signed_take_bit (n - 1) (uint w)) i"
      by cases (use assms in \<open>simp_all add: s bit_signed_take_bit_iff b bit_or_iff bit_not_iff bit_mask_iff min_def\<close>)
  qed
  ultimately show ?thesis using assms(1,2) unfolding snto32_def n by auto
qed

text \<open>The narrow number is the two's complement of the value, clamped to the range of \<open>n\<close> bits.\<close>

definition clamp :: "nat \<Rightarrow> int \<Rightarrow> int" where
  "clamp n v = max (- (2 ^ (n - 1))) (min (2 ^ (n - 1) - 1) v)"

lemma drop_bit_signed:
  fixes v :: int
  shows "drop_bit k v = 0 \<longleftrightarrow> 0 \<le> v \<and> v < 2 ^ k" "drop_bit k v = - 1 \<longleftrightarrow> - (2 ^ k) \<le> v \<and> v < 0"
proof -
  have P: "(2 :: int) ^ k > 0" by simp
  have d: "2 ^ k * (v div 2 ^ k) \<le> v" "v < 2 ^ k * (v div 2 ^ k + 1)"
    using pos_mod_sign [OF P, of v] pos_mod_bound [OF P, of v] mult_div_mod_eq [of "2 ^ k" v] unfolding distrib_left mult_1_right by linarith+
  show "drop_bit k v = 0 \<longleftrightarrow> 0 \<le> v \<and> v < 2 ^ k" unfolding drop_bit_eq_div using d by auto
  show "drop_bit k v = - 1 \<longleftrightarrow> - (2 ^ k) \<le> v \<and> v < 0"
  proof
    assume "- (2 ^ k) \<le> v \<and> v < 0"
    moreover from this have "v div 2 ^ k < 0" using pos_imp_zdiv_neg_iff [OF P] by blast
    moreover have "\<not> v div 2 ^ k + 1 \<le> - 1"
      using d(2) calculation(1) mult_left_mono [of "v div 2 ^ k + 1" "- 1" "2 ^ k"] by auto
    ultimately show "drop_bit k v = - 1" by (simp add: drop_bit_eq_div)
  qed (use d in \<open>auto simp: drop_bit_eq_div\<close>)
qed

lemma s32ton_clamp:
  assumes "1 \<le> n" "n \<le> 31"
  shows "s32ton v n = Some (word_of_int (take_bit n (clamp n v)))"
proof -
  have p: "(2 :: int) ^ n = 2 * 2 ^ (n - 1)" using assms(1) by (cases n) auto
  have w: "word_of_int (take_bit n v) = (word_of_int v AND mask n :: u32)" for v
    by (rule bit_eqI) (auto simp: bit_word_of_int_iff bit_take_bit_iff bit_and_iff bit_mask_iff)
  consider (in_range) "- (2 ^ (n - 1)) \<le> v" "v < 2 ^ (n - 1)" | (low) "v < - (2 ^ (n - 1))" | (high) "2 ^ (n - 1) \<le> v" by linarith
  then show ?thesis
  proof cases
    case in_range
    then have "drop_bit (n - 1) v = 0 \<or> drop_bit (n - 1) v = - 1" unfolding drop_bit_signed by linarith
    moreover have "clamp n v = v" using in_range by (simp add: clamp_def)
    ultimately show ?thesis using assms by (auto simp: s32ton_def mask_word w)
  next
    case low
    have "- (2 ^ (n - 1)) mod (2 :: int) ^ n = 2 ^ (n - 1)" unfolding p by (subst zmod_zminus1_eq_if) simp
    moreover have "clamp n v = - (2 ^ (n - 1))" using low by (simp add: clamp_def)
    ultimately have "take_bit n (clamp n v) = 2 ^ (n - 1)" by (simp add: take_bit_eq_mod)
    moreover have "v < 0" using low by (smt (verit) zero_less_power)
    ultimately show ?thesis using assms low by (simp add: s32ton_def drop_bit_signed Let_def)
  next
    case high
    have "(2 ^ (n - 1) - 1) mod (2 :: int) ^ n = 2 ^ (n - 1) - 1" unfolding p by (rule mod_pos_pos_trivial) (use zero_less_power [of "2 :: int" "n - 1"] in linarith)+
    moreover have "clamp n v = 2 ^ (n - 1) - 1" using high by (simp add: clamp_def)
    ultimately have "take_bit n (clamp n v) = 2 ^ (n - 1) - 1" by (simp add: take_bit_eq_mod)
    moreover have "\<not> v < 0" using high by (smt (verit) zero_less_power)
    ultimately show ?thesis using assms high by (simp add: s32ton_def drop_bit_signed Let_def)
  qed
qed

lemma signed_take_bit_clamp:
  assumes "1 \<le> n"
  shows "signed_take_bit (n - 1) (clamp n v) = clamp n v"
proof (rule signed_take_bit_int_eq_self)
  have "(0 :: int) < 2 ^ (n - 1)" by simp
  then show "- (2 ^ (n - 1)) \<le> clamp n v" "clamp n v < 2 ^ (n - 1)" unfolding clamp_def by linarith+
qed

lemma snto32_s32ton:
  assumes "1 \<le> n" "n \<le> 31"
  shows "snto32 (word_of_int (take_bit n (clamp n v))) n = Some (clamp n v)"
proof -
  let ?w = "word_of_int (take_bit n (clamp n v)) :: u32"
  have "\<not> bit ?w i" if "n \<le> i" for i using that by (simp add: bit_word_of_int_iff bit_take_bit_iff)
  moreover have "uint ?w = take_bit n (clamp n v)" using assms(2) by (simp add: uint_word_of_int_eq take_bit_take_bit min_def)
  moreover have "signed_take_bit (n - 1) (take_bit n (clamp n v)) = clamp n v"
    using signed_take_bit_clamp [OF assms(1)] assms(1) by (auto simp: signed_take_bit_take_bit)
  ultimately show ?thesis using snto32_signed [OF assms, of ?w] by simp
qed

lemma implement_roundtrip:
  assumes "n \<le> 32" "unat offset div 8 + 8 \<le> length b"
  shows "\<exists>b'. implement_field b offset n v = Some b' \<and> length b' = length b \<and>
    extract_field b' offset n = Some (take_bit n v) \<and>
    (\<forall>k < 8 * length b. k < unat offset \<or> unat offset + n \<le> k \<longrightarrow> stream_bit b' k = stream_bit b k)"
proof -
  obtain b' where b: "implement_field b offset n v = Some b'" "length b' = length b" using assms by (rule implement_Some)
  obtain w where w: "extract_field b' offset n = Some w" using assms b(2) extract_Some by metis
  have "unat offset + i < 8 * length b" if "i < n" for i using assms that by linarith
  then have "w = take_bit n v"
    by (intro bit_eqI) (auto simp: extract_bit [OF w assms(1)] implement_bit [OF b(1) assms(1)] bit_take_bit_iff)
  then show ?thesis using b w by (auto simp: implement_bit [OF b(1) assms(1)])
qed

text \<open>A field depends on its bits only.\<close>

lemma extract_cong:
  assumes "n \<le> 32" "unat offset div 8 + 8 \<le> length b" "length b' = length b"
    "\<And>k. unat offset \<le> k \<Longrightarrow> k < unat offset + n \<Longrightarrow> stream_bit b' k = stream_bit b k"
  shows "extract_field b' offset n = extract_field b offset n"
proof -
  obtain v w where v: "extract_field b offset n = Some v" "extract_field b' offset n = Some w"
    using assms extract_Some by metis
  have "v = w" by (rule bit_eqI) (use assms(4) in \<open>auto simp: extract_bit [OF v(1) assms(1)] extract_bit [OF v(2) assms(1)]\<close>)
  then show ?thesis using v by simp
qed

section \<open>Properties\<close>

text \<open>A field written into a report is read back: for a width of at most 32 bits and a report that
  holds eight bytes from the byte of the field on, \<open>implement\<close> returns, every bit of the report outside the
  field stays as it was, and \<open>extract\<close> returns the value, cut to the width.\<close>

theorem hid_field_roundtrip:
  assumes "n \<le> 32" "unat offset div 8 + 8 \<le> length b"
  shows "\<exists>b'. implement_field b offset n v = Some b' \<and> length b' = length b \<and>
    extract_field b' offset n = Some (take_bit n v) \<and>
    (\<forall>k < 8 * length b. k < unat offset \<or> unat offset + n \<le> k \<longrightarrow> stream_bit b' k = stream_bit b k)"
  using assms by (rule implement_roundtrip)

theorem hid_field_roundtrip_witness:
  "\<exists>b'. implement_field (replicate 10 0xff) 13 9 0x155 = Some b' \<and> length b' = length (replicate 10 (0xff :: u8)) \<and>
    extract_field b' 13 9 = Some (take_bit 9 0x155) \<and>
    (\<forall>k < 8 * length (replicate 10 (0xff :: u8)). k < unat (13 :: u32) \<or> unat (13 :: u32) + 9 \<le> k \<longrightarrow>
       stream_bit b' k = stream_bit (replicate 10 0xff) k)"
  by (rule hid_field_roundtrip) simp_all

text \<open>Signed fields of 1 to 31 bits: \<open>s32ton\<close> clamps a value to the range of the width, and \<open>snto32\<close> reads the
  clamped value back; so a value in the range survives. At 32 bits \<open>s32ton\<close> shifts a 32-bit number by 32.\<close>

theorem hid_signed_roundtrip:
  assumes "1 \<le> n" "n \<le> 31"
  shows "\<exists>w. s32ton v n = Some w \<and> unat w < 2 ^ n \<and> snto32 w n = Some (max (- (2 ^ (n - 1))) (min (2 ^ (n - 1) - 1) v)) \<and>
    (- (2 ^ 31) \<le> v \<and> v < 2 ^ 31 \<longrightarrow> s32ton v 32 = None)"
proof -
  let ?w = "word_of_int (take_bit n (clamp n v)) :: u32"
  have "uint ?w = take_bit n (clamp n v)" using assms(2) by (simp add: uint_word_of_int_eq take_bit_take_bit min_def)
  then have "uint ?w < 2 ^ n" by simp
  then have "unat ?w < 2 ^ n" by (metis (mono_tags) of_nat_less_numeral_power_cancel_iff uint_nat)
  moreover have "- (2 ^ 31) \<le> v \<and> v < 2 ^ 31 \<longrightarrow> s32ton v 32 = None" by (auto simp: s32ton_def drop_bit_signed Let_def)
  ultimately show ?thesis using s32ton_clamp [OF assms] snto32_s32ton [OF assms] by (auto simp: clamp_def)
qed

theorem hid_signed_roundtrip_witness:
  "\<exists>w. s32ton (- 5) 4 = Some w \<and> unat w < 2 ^ 4 \<and> snto32 w 4 = Some (max (- (2 ^ (4 - 1))) (min (2 ^ (4 - 1) - 1) (- 5))) \<and>
    (- (2 ^ 31) \<le> (- 5 :: int) \<and> (- 5 :: int) < 2 ^ 31 \<longrightarrow> s32ton (- 5) 32 = None)"
  by (rule hid_signed_roundtrip) simp_all

end
