(* ===== verification/Hid_Parser.thy ===== *)
theory Hid_Parser
  imports Prelude
begin

text \<open>
  The parser of HID report descriptors, \<^verbatim>\<open>vmklinux26/linux/drivers/hid/hid-core.c\<close>: from bytes a device sends
  to the reports and fields that describe its data.

  An access outside an array is \<^term>\<open>None\<close>. Allocations succeed or fail as a list of answers says, and
  succeed behind its end; \<open>p_live\<close> counts the objects that are allocated. The arrays \<open>usage\<close> and
  \<open>collection_index\<close> of the local state, which an \<open>memset\<close> clears, are the list of their entries below
  \<open>usage_index\<close>, the array \<open>field\<close> of a report is the list of its entries below \<open>maxfield\<close>, and the
  pointers of \<open>report_id_hash\<close> are the reports themselves: each is in one table only.
\<close>

section \<open>Data\<close>

abbreviation (input) HID_MAX_USAGES :: nat where "HID_MAX_USAGES \<equiv> 8192"
abbreviation (input) HID_DEFAULT_NUM_COLLECTIONS :: nat where "HID_DEFAULT_NUM_COLLECTIONS \<equiv> 16"
abbreviation (input) HID_MAX_FIELDS :: nat where "HID_MAX_FIELDS \<equiv> 64"
abbreviation (input) HID_REPORT_TYPES :: nat where "HID_REPORT_TYPES \<equiv> 3"
abbreviation (input) HID_GLOBAL_STACK_SIZE :: nat where "HID_GLOBAL_STACK_SIZE \<equiv> 4"
abbreviation (input) HID_COLLECTION_STACK_SIZE :: nat where "HID_COLLECTION_STACK_SIZE \<equiv> 4"

record hid_item =
  i_long :: bool
  i_size :: nat
  i_type :: nat
  i_tag :: nat
  i_data :: u32

record hid_global =
  g_usage_page :: u32
  g_logical_minimum :: int
  g_logical_maximum :: int
  g_physical_minimum :: int
  g_physical_maximum :: int
  g_unit_exponent :: int
  g_unit :: u32
  g_report_id :: u32
  g_report_size :: u32
  g_report_count :: u32

record hid_local =
  l_usages :: "(u32 \<times> nat) list"
  l_usage_minimum :: u32
  l_delimiter_depth :: nat
  l_delimiter_branch :: nat

record hid_collection =
  c_type :: u32
  c_usage :: u32
  c_level :: nat

record hid_field =
  f_physical :: u32
  f_logical :: u32
  f_application :: u32
  f_usage :: "(u32 \<times> nat) list"
  f_maxusage :: nat
  f_flags :: u32
  f_report_offset :: u32
  f_report_size :: u32
  f_report_count :: u32
  f_report_type :: nat
  f_value :: "int list"
  f_logical_minimum :: int
  f_logical_maximum :: int
  f_physical_minimum :: int
  f_physical_maximum :: int
  f_unit_exponent :: int
  f_unit :: u32

record hid_report =
  r_id :: nat
  r_type :: nat
  r_fields :: "hid_field list"
  r_size :: u32

record hid_report_enum =
  e_numbered :: bool
  e_list :: "nat list"
  e_hash :: "nat \<Rightarrow> hid_report option"

record hid_device =
  d_rdesc :: "u8 list"
  d_collection :: "hid_collection list"
  d_maxcollection :: nat
  d_maxapplication :: nat
  d_enum :: "nat \<Rightarrow> hid_report_enum"

record hid_parser =
  p_global :: hid_global
  p_global_stack :: "hid_global list"
  p_global_stack_ptr :: nat
  p_local :: hid_local
  p_collection_stack :: "nat list"
  p_collection_stack_ptr :: nat
  p_device :: hid_device
  p_allocs :: "bool list"
  p_live :: int

definition zero_global :: hid_global where
  "zero_global = \<lparr>g_usage_page = 0, g_logical_minimum = 0, g_logical_maximum = 0, g_physical_minimum = 0, g_physical_maximum = 0,
     g_unit_exponent = 0, g_unit = 0, g_report_id = 0, g_report_size = 0, g_report_count = 0\<rparr>"

definition zero_local :: hid_local where
  "zero_local = \<lparr>l_usages = [], l_usage_minimum = 0, l_delimiter_depth = 0, l_delimiter_branch = 0\<rparr>"

definition zero_collection :: hid_collection where
  "zero_collection = \<lparr>c_type = 0, c_usage = 0, c_level = 0\<rparr>"

definition hid_alloc :: "hid_parser \<Rightarrow> bool \<times> hid_parser" where
  "hid_alloc p =
     (case p_allocs p of
        [] \<Rightarrow> (True, p\<lparr>p_live := p_live p + 1\<rparr>)
      | ok # rest \<Rightarrow> (ok, p\<lparr>p_allocs := rest, p_live := p_live p + (if ok then 1 else 0)\<rparr>))"

section \<open>Reports and fields\<close>

abbreviation enum_upd :: "nat \<Rightarrow> (hid_report_enum \<Rightarrow> hid_report_enum) \<Rightarrow> hid_parser \<Rightarrow> hid_parser" where
  "enum_upd t f p \<equiv> p\<lparr>p_device := (p_device p)\<lparr>d_enum := (d_enum (p_device p))(t := f (d_enum (p_device p) t))\<rparr>\<rparr>"

abbreviation report_set :: "nat \<Rightarrow> nat \<Rightarrow> hid_report \<Rightarrow> hid_parser \<Rightarrow> hid_parser" where
  "report_set t rid r p \<equiv> enum_upd t (\<lambda>e. e\<lparr>e_hash := (e_hash e)(rid := Some r)\<rparr>) p"

text \<open>The report of a type and an identifier, registered when it is new; no report is \<open>NULL\<close>.\<close>

definition hid_register_report :: "nat \<Rightarrow> nat \<Rightarrow> hid_parser \<Rightarrow> (hid_report option \<times> hid_parser) option" where
  "hid_register_report t rid p =
     (if 256 \<le> rid then None
      else case e_hash (d_enum (p_device p) t) rid of
        Some r \<Rightarrow> Some (Some r, p)
      | None \<Rightarrow>
          let (ok, p1) = hid_alloc p; r = \<lparr>r_id = rid, r_type = t, r_fields = [], r_size = 0\<rparr> in
          if \<not> ok then Some (None, p1)
          else Some (Some r, report_set t rid r
                 (enum_upd t (\<lambda>e. e\<lparr>e_numbered := e_numbered e \<or> rid \<noteq> 0, e_list := e_list e @ [rid]\<rparr>) p1)))"

text \<open>Room for a new field in a report: there are fewer than \<open>HID_MAX_FIELDS\<close>, and there is memory for it.\<close>

definition hid_register_field :: "hid_report \<Rightarrow> hid_parser \<Rightarrow> (bool \<times> hid_parser) option" where
  "hid_register_field r p =
     (if length (r_fields r) = HID_MAX_FIELDS then Some (False, p)
      else
        let (ok, p1) = hid_alloc p in
        if \<not> ok then Some (False, p1)
        else if length (r_fields r) < HID_MAX_FIELDS then Some (True, p1) else None)"

text \<open>An entry of the local usage table, 0 where nothing has been written.\<close>

definition local_usage :: "hid_local \<Rightarrow> nat \<Rightarrow> (u32 \<times> nat) option" where
  "local_usage l j =
     (if HID_MAX_USAGES \<le> j then None else Some (if j < length (l_usages l) then l_usages l ! j else (0, 0)))"

section \<open>Collections\<close>

definition open_collection :: "u32 \<Rightarrow> hid_parser \<Rightarrow> (int \<times> hid_parser) option" where
  "open_collection ty p =
     do { (usage, _) \<leftarrow> local_usage (p_local p) 0;
          if p_collection_stack_ptr p = HID_COLLECTION_STACK_SIZE then Some (- 1, p)
          else
            let d = p_device p; full = (d_maxcollection d = length (d_collection d));
                (ok, p1) = (if full then hid_alloc p else (True, p))
            in if \<not> ok then Some (- 1, p1)
               else
                 let d1 = (if full then d\<lparr>d_collection := d_collection d @ replicate (length (d_collection d)) zero_collection\<rparr> else d);
                     p2 = (if full then p1\<lparr>p_live := p_live p1 - 1\<rparr> else p1)
                 in do { st \<leftarrow> buf_set (p_collection_stack p2) (int (p_collection_stack_ptr p2)) (d_maxcollection d1);
                         cs \<leftarrow> buf_set (d_collection d1) (int (d_maxcollection d1))
                                \<lparr>c_type = ty, c_usage = usage, c_level = p_collection_stack_ptr p2\<rparr>;
                         Some (0, p2\<lparr>p_collection_stack := st, p_collection_stack_ptr := p_collection_stack_ptr p2 + 1,
                                     p_device := d1\<lparr>d_collection := cs, d_maxcollection := d_maxcollection d1 + 1,
                                       d_maxapplication := d_maxapplication d1 + (if ty = 1 then 1 else 0)\<rparr>\<rparr>) } }"

definition close_collection :: "hid_parser \<Rightarrow> int \<times> hid_parser" where
  "close_collection p =
     (if p_collection_stack_ptr p = 0 then (- 1, p)
      else (0, p\<lparr>p_collection_stack_ptr := p_collection_stack_ptr p - 1\<rparr>))"

fun lookup_collection :: "hid_parser \<Rightarrow> u32 \<Rightarrow> nat \<Rightarrow> u32 option" where
  "lookup_collection p ty 0 = Some 0"
| "lookup_collection p ty (Suc n) =
     do { i \<leftarrow> buf_get (p_collection_stack p) (int n);
          c \<leftarrow> buf_get (d_collection (p_device p)) (int i);
          if c_type c = ty then Some (c_usage c) else lookup_collection p ty n }"

definition hid_lookup_collection :: "hid_parser \<Rightarrow> u32 \<Rightarrow> u32 option" where
  "hid_lookup_collection p ty = lookup_collection p ty (p_collection_stack_ptr p)"

definition hid_add_usage :: "u32 \<Rightarrow> hid_parser \<Rightarrow> (int \<times> hid_parser) option" where
  "hid_add_usage usage p =
     (let l = p_local p in
      if HID_MAX_USAGES \<le> length (l_usages l) then Some (- 1, p)
      else
        do { ci \<leftarrow> (if p_collection_stack_ptr p \<noteq> 0
                   then buf_get (p_collection_stack p) (int (p_collection_stack_ptr p) - 1) else Some 0);
             Some (0, p\<lparr>p_local := l\<lparr>l_usages := l_usages l @ [(usage, ci)]\<rparr>\<rparr>) })"

fun the_all :: "'a option list \<Rightarrow> 'a list option" where
  "the_all [] = Some []"
| "the_all (x # xs) = do { a \<leftarrow> x; as \<leftarrow> the_all xs; Some (a # as) }"

text \<open>The usage table of a field: the last usage is repeated for the values that have none.\<close>

definition usage_table :: "hid_local \<Rightarrow> nat \<Rightarrow> (u32 \<times> nat) list option" where
  "usage_table l usages =
     the_all (map (\<lambda>i. local_usage l (if length (l_usages l) \<le> i then length (l_usages l) - 1 else i)) [0..<usages])"

text \<open>The second half of \<open>hid_add_field\<close>: the field itself. When there is no room for it, it is left out.\<close>

definition hid_new_field :: "nat \<Rightarrow> nat \<Rightarrow> u32 \<Rightarrow> u32 \<Rightarrow> hid_report \<Rightarrow> hid_parser \<Rightarrow> (int \<times> hid_parser) option" where
  "hid_new_field t rid flags offset r p =
     (let g = p_global p; l = p_local p; usages = nat (max (int (length (l_usages l))) (sint (g_report_count g))) in
      do { (ok, p1) \<leftarrow> hid_register_field r p;
           if \<not> ok then Some (0, p1)
           else
             do { ph \<leftarrow> hid_lookup_collection p1 0;
                  lo \<leftarrow> hid_lookup_collection p1 2;
                  ap \<leftarrow> hid_lookup_collection p1 1;
                  us \<leftarrow> usage_table l usages;
                  let f = \<lparr>f_physical = ph, f_logical = lo, f_application = ap, f_usage = us, f_maxusage = usages,
                         f_flags = flags, f_report_offset = offset, f_report_size = g_report_size g,
                         f_report_count = g_report_count g, f_report_type = t,
                         f_value = replicate (unat (g_report_count g)) 0,
                         f_logical_minimum = g_logical_minimum g, f_logical_maximum = g_logical_maximum g,
                         f_physical_minimum = g_physical_minimum g, f_physical_maximum = g_physical_maximum g,
                         f_unit_exponent = g_unit_exponent g, f_unit = g_unit g\<rparr>
                  in Some (0, report_set t rid (r\<lparr>r_fields := r_fields r @ [f]\<rparr>) p1) } })"

definition hid_add_field :: "nat \<Rightarrow> u32 \<Rightarrow> hid_parser \<Rightarrow> (int \<times> hid_parser) option" where
  "hid_add_field t flags p0 =
     (let rid = unat (g_report_id (p_global p0)) in
      do { (rep, p) \<leftarrow> hid_register_report t rid p0;
           case rep of None \<Rightarrow> Some (- 1, p)
           | Some r \<Rightarrow>
             let g = p_global p in
             if g_logical_maximum g < g_logical_minimum g then Some (- 1, p)
             else
               let offset = r_size r;
                   r1 = r\<lparr>r_size := r_size r + g_report_size g * g_report_count g\<rparr>;
                   p1 = report_set t rid r1 p
               in if l_usages (p_local p1) = [] then Some (0, p1) else hid_new_field t rid flags offset r1 p1 })"

section \<open>Items\<close>

definition item_udata :: "hid_item \<Rightarrow> u32" where
  "item_udata it =
     (if i_size it = 1 then ucast (ucast (i_data it) :: u8)
      else if i_size it = 2 then ucast (ucast (i_data it) :: u16)
      else if i_size it = 4 then i_data it else 0)"

definition item_sdata :: "hid_item \<Rightarrow> int" where
  "item_sdata it =
     (if i_size it = 1 then sint (ucast (i_data it) :: u8)
      else if i_size it = 2 then sint (ucast (i_data it) :: u16)
      else if i_size it = 4 then sint (i_data it) else 0)"

definition hid_parser_global :: "hid_item \<Rightarrow> hid_parser \<Rightarrow> (int \<times> hid_parser) option" where
  "hid_parser_global it p =
     (let g = p_global p; u = item_udata it; s = item_sdata it; set = (\<lambda>g'. p\<lparr>p_global := g'\<rparr>) in
      if i_tag it = 10 then
        if p_global_stack_ptr p = HID_GLOBAL_STACK_SIZE then Some (- 1, p)
        else do { st \<leftarrow> buf_set (p_global_stack p) (int (p_global_stack_ptr p)) g;
                  Some (0, p\<lparr>p_global_stack := st, p_global_stack_ptr := p_global_stack_ptr p + 1\<rparr>) }
      else if i_tag it = 11 then
        if p_global_stack_ptr p = 0 then Some (- 1, p)
        else do { g' \<leftarrow> buf_get (p_global_stack p) (int (p_global_stack_ptr p) - 1);
                  Some (0, p\<lparr>p_global := g', p_global_stack_ptr := p_global_stack_ptr p - 1\<rparr>) }
      else if i_tag it = 0 then Some (0, set (g\<lparr>g_usage_page := u\<rparr>))
      else if i_tag it = 1 then Some (0, set (g\<lparr>g_logical_minimum := s\<rparr>))
      else if i_tag it = 2 then
        Some (0, set (g\<lparr>g_logical_maximum := if g_logical_minimum g < 0 then s else sint u\<rparr>))
      else if i_tag it = 3 then Some (0, set (g\<lparr>g_physical_minimum := s\<rparr>))
      else if i_tag it = 4 then
        Some (0, set (g\<lparr>g_physical_maximum := if g_physical_minimum g < 0 then s else sint u\<rparr>))
      else if i_tag it = 5 then Some (0, set (g\<lparr>g_unit_exponent := s\<rparr>))
      else if i_tag it = 6 then Some (0, set (g\<lparr>g_unit := u\<rparr>))
      else if i_tag it = 7 then Some (if u > 32 then - 1 else 0, set (g\<lparr>g_report_size := u\<rparr>))
      else if i_tag it = 9 then Some (if unat u > HID_MAX_USAGES then - 1 else 0, set (g\<lparr>g_report_count := u\<rparr>))
      else if i_tag it = 8 then Some (if u = 0 then - 1 else 0, set (g\<lparr>g_report_id := u\<rparr>))
      else Some (- 1, p))"

text \<open>The loop over a range of usages. It ends even when the range ends at the largest number, because
  the table fills up.\<close>

function hid_add_usages :: "u32 \<Rightarrow> u32 \<Rightarrow> hid_parser \<Rightarrow> (int \<times> hid_parser) option" where
  "hid_add_usages n data p =
     (if n \<le> data
      then do { (ret, p1) \<leftarrow> hid_add_usage n p;
                if ret \<noteq> 0 then Some (- 1, p1) else hid_add_usages (n + 1) data p1 }
      else Some (0, p))"
  by pat_completeness auto

lemma hid_add_usage_grows: "hid_add_usage n p = Some (0, p1) \<Longrightarrow>
    length (l_usages (p_local p)) < HID_MAX_USAGES \<and> length (l_usages (p_local p1)) = Suc (length (l_usages (p_local p)))"
  by (auto simp: hid_add_usage_def Let_def split: if_splits bind_splits)

termination hid_add_usages
  by (relation "measure (\<lambda>(n, data, p). HID_MAX_USAGES - length (l_usages (p_local p)))") (auto dest!: hid_add_usage_grows)

declare hid_add_usages.simps [simp del]

definition hid_parser_local :: "hid_item \<Rightarrow> hid_parser \<Rightarrow> (int \<times> hid_parser) option" where
  "hid_parser_local it p =
     (if i_size it = 0 then Some (- 1, p)
      else
        let l = p_local p; u = item_udata it;
            data = (if i_size it \<le> 2 then push_bit 16 (g_usage_page (p_global p)) + u else u)
        in
        if i_tag it = 10 then
          if u \<noteq> 0 then
            if l_delimiter_depth l \<noteq> 0 then Some (- 1, p)
            else Some (1, p\<lparr>p_local := l\<lparr>l_delimiter_depth := l_delimiter_depth l + 1, l_delimiter_branch := l_delimiter_branch l + 1\<rparr>\<rparr>)
          else
            if l_delimiter_depth l < 1 then Some (- 1, p)
            else Some (1, p\<lparr>p_local := l\<lparr>l_delimiter_depth := l_delimiter_depth l - 1\<rparr>\<rparr>)
        else if i_tag it = 0 then
          if l_delimiter_branch l > 1 then Some (0, p) else hid_add_usage data p
        else if i_tag it = 1 then
          if l_delimiter_branch l > 1 then Some (0, p) else Some (0, p\<lparr>p_local := l\<lparr>l_usage_minimum := data\<rparr>\<rparr>)
        else if i_tag it = 2 then
          if l_delimiter_branch l > 1 then Some (0, p) else hid_add_usages (l_usage_minimum l) data p
        else Some (0, p))"

definition hid_parser_main :: "hid_item \<Rightarrow> hid_parser \<Rightarrow> (int \<times> hid_parser) option" where
  "hid_parser_main it p =
     do { (ret, p1) \<leftarrow>
            (if i_tag it = 10 then open_collection (item_udata it AND 0xff) p
             else if i_tag it = 12 then Some (close_collection p)
             else if i_tag it = 8 then hid_add_field 0 (item_udata it) p
             else if i_tag it = 9 then hid_add_field 1 (item_udata it) p
             else if i_tag it = 11 then hid_add_field 2 (item_udata it) p
             else Some (0, p));
          Some (ret, p1\<lparr>p_local := zero_local\<rparr>) }"

definition hid_parser_reserved :: "hid_item \<Rightarrow> hid_parser \<Rightarrow> (int \<times> hid_parser) option" where
  "hid_parser_reserved it p = Some (0, p)"

definition dispatch_type :: "hid_item \<Rightarrow> hid_parser \<Rightarrow> (int \<times> hid_parser) option" where
  "dispatch_type it =
     (if i_type it = 0 then hid_parser_main it
      else if i_type it = 1 then hid_parser_global it
      else if i_type it = 2 then hid_parser_local it
      else if i_type it = 3 then hid_parser_reserved it
      else (\<lambda>p. None))"

section \<open>The descriptor\<close>

text \<open>Fetch an item from the bytes between \<open>start\<close> and \<open>end\<close>.\<close>

definition fetch_item :: "u8 list \<Rightarrow> (hid_item \<times> u8 list) option" where
  "fetch_item bytes =
     (case bytes of
        [] \<Rightarrow> None
      | b # rest \<Rightarrow>
          let ty = unat (drop_bit 2 b AND 3); tag = unat (drop_bit 4 b AND 15); sz = unat (b AND 3) in
          if tag = 15 then
            if length rest < 2 then None
            else
              let lsize = unat (rest ! 0); ltag = unat (rest ! 1); start = drop 2 rest in
              if length start < lsize then None
              else Some (\<lparr>i_long = True, i_size = lsize, i_type = ty, i_tag = ltag, i_data = 0\<rparr>, drop lsize start)
          else if sz = 0 then Some (\<lparr>i_long = False, i_size = 0, i_type = ty, i_tag = tag, i_data = 0\<rparr>, rest)
          else if sz = 1 then
            if length rest < 1 then None
            else Some (\<lparr>i_long = False, i_size = 1, i_type = ty, i_tag = tag, i_data = ucast (rest ! 0)\<rparr>, drop 1 rest)
          else if sz = 2 then
            if length rest < 2 then None
            else Some (\<lparr>i_long = False, i_size = 2, i_type = ty, i_tag = tag,
                        i_data = ucast (rest ! 0) OR push_bit 8 (ucast (rest ! 1))\<rparr>, drop 2 rest)
          else
            if length rest < 4 then None
            else Some (\<lparr>i_long = False, i_size = 4, i_type = ty, i_tag = tag,
                        i_data = ucast (rest ! 0) OR push_bit 8 (ucast (rest ! 1)) OR push_bit 16 (ucast (rest ! 2)) OR
                          push_bit 24 (ucast (rest ! 3))\<rparr>, drop 4 rest))"

text \<open>\<open>hid_free_report\<close> and \<open>hid_free_device\<close>: the objects they free.\<close>

definition hid_free_report :: "hid_report \<Rightarrow> int" where
  "hid_free_report r = int (length (r_fields r)) + 1"

definition hid_free_reports :: "hid_device \<Rightarrow> int" where
  "hid_free_reports d =
     (\<Sum>i\<leftarrow>[0..<HID_REPORT_TYPES]. \<Sum>j\<leftarrow>[0..<256]. case e_hash (d_enum d i) j of None \<Rightarrow> 0 | Some r \<Rightarrow> hid_free_report r)"

definition hid_free_device :: "hid_device \<Rightarrow> int" where
  "hid_free_device d = hid_free_reports d + 3"

text \<open>The result: the device, or \<open>NULL\<close>, and the objects that stay allocated.\<close>

definition parse_fail :: "hid_parser \<Rightarrow> hid_device option \<times> int" where
  "parse_fail p = (None, p_live p - hid_free_device (p_device p) - 1)"

lemma fetch_item_shorter: "fetch_item bytes = Some (it, rest) \<Longrightarrow> length rest < length bytes"
  by (auto simp: fetch_item_def Let_def split: list.splits if_splits)

function hid_parse_items :: "u8 list \<Rightarrow> hid_parser \<Rightarrow> (hid_device option \<times> int) option" where
  "hid_parse_items bytes p =
     (case fetch_item bytes of
        None \<Rightarrow> Some (parse_fail p)
      | Some (it, rest) \<Rightarrow>
          if i_long it then Some (parse_fail p)
          else
            do { (ret, p1) \<leftarrow> dispatch_type it p;
                 if ret \<noteq> 0 then Some (parse_fail p1)
                 else if rest = [] then
                   if p_collection_stack_ptr p1 \<noteq> 0 then Some (parse_fail p1)
                   else if l_delimiter_depth (p_local p1) \<noteq> 0 then Some (parse_fail p1)
                   else Some (Some (p_device p1), p_live p1 - 1)
                 else hid_parse_items rest p1 })"
  by pat_completeness auto

termination hid_parse_items
  by (relation "measure (\<lambda>(bytes, p). length bytes)") (auto dest: fetch_item_shorter)

declare hid_parse_items.simps [simp del]

definition new_device :: "u8 list \<Rightarrow> hid_device" where
  "new_device desc = \<lparr>d_rdesc = desc, d_collection = replicate HID_DEFAULT_NUM_COLLECTIONS zero_collection, d_maxcollection = 0,
     d_maxapplication = 0, d_enum = (\<lambda>_. \<lparr>e_numbered = False, e_list = [], e_hash = Map.empty\<rparr>)\<rparr>"

definition new_parser :: "u8 list \<Rightarrow> bool list \<Rightarrow> hid_parser" where
  "new_parser desc allocs = \<lparr>p_global = zero_global, p_global_stack = replicate HID_GLOBAL_STACK_SIZE zero_global, p_global_stack_ptr = 0,
     p_local = zero_local, p_collection_stack = replicate HID_COLLECTION_STACK_SIZE 0, p_collection_stack_ptr = 0,
     p_device = new_device desc, p_allocs = allocs, p_live = 0\<rparr>"

definition hid_parse_report :: "u8 list \<Rightarrow> bool list \<Rightarrow> (hid_device option \<times> int) option" where
  "hid_parse_report desc allocs =
     (let (ok1, p1) = hid_alloc (new_parser desc allocs) in
      if \<not> ok1 then Some (None, p_live p1)
      else
        let (ok2, p2) = hid_alloc p1 in
        if \<not> ok2 then Some (None, p_live p2 - 1)
        else
          let (ok3, p3) = hid_alloc p2 in
          if \<not> ok3 then Some (None, p_live p3 - 2)
          else
            let (ok4, p4) = hid_alloc p3 in
            if \<not> ok4 then Some (None, p_live p4 - 3)
            else hid_parse_items desc p4)"

section \<open>Invariant\<close>

definition global_ok :: "hid_global \<Rightarrow> bool" where
  "global_ok g \<longleftrightarrow> unat (g_report_size g) \<le> 32 \<and> unat (g_report_count g) \<le> HID_MAX_USAGES \<and> unat (g_report_id g) < 256"

text \<open>A field whose tables have the sizes its users expect; \<open>mc\<close> is the number of collections.\<close>

definition field_ok :: "nat \<Rightarrow> hid_field \<Rightarrow> bool" where
  "field_ok mc f \<longleftrightarrow> f_maxusage f = length (f_usage f) \<and> 0 < f_maxusage f \<and> unat (f_report_count f) \<le> f_maxusage f \<and>
     length (f_value f) = unat (f_report_count f) \<and> unat (f_report_size f) \<le> 32 \<and> unat (f_report_count f) \<le> HID_MAX_USAGES \<and>
     f_logical_minimum f \<le> f_logical_maximum f \<and> (\<forall>u \<in> set (f_usage f). snd u < max 1 mc)"

definition field_bits :: "hid_field \<Rightarrow> nat" where
  "field_bits f = unat (f_report_size f) * unat (f_report_count f)"

text \<open>The fields lie one behind the other, from bit \<open>k\<close> on and within \<open>n\<close> bits.\<close>

fun layout :: "nat \<Rightarrow> hid_field list \<Rightarrow> nat \<Rightarrow> bool" where
  "layout k [] n \<longleftrightarrow> k \<le> n"
| "layout k (f # fs) n \<longleftrightarrow> k \<le> unat (f_report_offset f) \<and> layout (unat (f_report_offset f) + field_bits f) fs n"

definition report_ok :: "nat \<Rightarrow> nat \<Rightarrow> nat \<Rightarrow> hid_report \<Rightarrow> bool" where
  "report_ok mc t i r \<longleftrightarrow> r_id r = i \<and> r_type r = t \<and> length (r_fields r) \<le> HID_MAX_FIELDS \<and>
     (\<forall>f \<in> set (r_fields r). field_ok mc f \<and> f_report_type f = t) \<and> layout 0 (r_fields r) (unat (r_size r))"

definition device_ok :: "hid_device \<Rightarrow> bool" where
  "device_ok d \<longleftrightarrow> d_maxcollection d \<le> length (d_collection d) \<and> 0 < length (d_collection d) \<and>
     (\<forall>t i r. e_hash (d_enum d t) i = Some r \<longrightarrow> t < HID_REPORT_TYPES \<and> i < 256 \<and> report_ok (d_maxcollection d) t i r)"

text \<open>\<open>k\<close> items have been processed; each makes a report at most 32 times 8192 bits longer.\<close>

definition size_ok :: "nat \<Rightarrow> hid_device \<Rightarrow> bool" where
  "size_ok k d \<longleftrightarrow> (\<forall>t i r. e_hash (d_enum d t) i = Some r \<longrightarrow> unat (r_size r) \<le> 2 ^ 18 * k)"

definition hid_live :: "hid_parser \<Rightarrow> bool" where
  "hid_live p \<longleftrightarrow> p_live p = hid_free_reports (p_device p) + 4"

definition stacks_ok :: "hid_parser \<Rightarrow> bool" where
  "stacks_ok p \<longleftrightarrow> length (p_global_stack p) = HID_GLOBAL_STACK_SIZE \<and> p_global_stack_ptr p \<le> HID_GLOBAL_STACK_SIZE \<and>
     global_ok (p_global p) \<and> (\<forall>g \<in> set (p_global_stack p). global_ok g) \<and>
     length (p_collection_stack p) = HID_COLLECTION_STACK_SIZE \<and> p_collection_stack_ptr p \<le> HID_COLLECTION_STACK_SIZE \<and>
     (\<forall>i < p_collection_stack_ptr p. p_collection_stack p ! i < d_maxcollection (p_device p))"

definition local_ok :: "hid_parser \<Rightarrow> bool" where
  "local_ok p \<longleftrightarrow> length (l_usages (p_local p)) \<le> HID_MAX_USAGES \<and>
     (\<forall>u \<in> set (l_usages (p_local p)). snd u < max 1 (d_maxcollection (p_device p)))"

definition hid_inv :: "nat \<Rightarrow> hid_parser \<Rightarrow> bool" where
  "hid_inv k p \<longleftrightarrow> stacks_ok p \<and> local_ok p \<and> device_ok (p_device p) \<and> size_ok k (p_device p) \<and> hid_live p"

text \<open>What every item handler promises for the state behind it.\<close>

definition item_done :: "nat \<Rightarrow> (int \<times> hid_parser) option \<Rightarrow> bool" where
  "item_done k x \<longleftrightarrow> (\<exists>ret p. x = Some (ret, p) \<and> hid_live p \<and> (ret = 0 \<longrightarrow> hid_inv k p))"

lemma item_doneI [intro]: "hid_live p \<Longrightarrow> (ret = 0 \<Longrightarrow> hid_inv k p) \<Longrightarrow> item_done k (Some (ret, p))"
  by (simp add: item_done_def)

lemma size_ok_mono: "size_ok k d \<Longrightarrow> k \<le> k' \<Longrightarrow> size_ok k' d"
  unfolding size_ok_def by (meson mult_le_mono2 order_trans)

lemma hid_inv_Suc: "hid_inv k p \<Longrightarrow> hid_inv (Suc k) p"
  by (auto simp: hid_inv_def intro: size_ok_mono)

lemma hid_inv_live: "hid_inv k p \<Longrightarrow> hid_live p"
  by (simp add: hid_inv_def)

lemma layout_snoc: "layout k (fs @ [f]) n \<longleftrightarrow> layout k fs (unat (f_report_offset f)) \<and> unat (f_report_offset f) + field_bits f \<le> n"
  by (induction fs arbitrary: k) auto

lemma layout_mono: "layout k fs n \<Longrightarrow> n \<le> n' \<Longrightarrow> layout k fs n'"
  by (induction fs arbitrary: k) auto

lemma free_reports_sum:
  "hid_free_reports d = (\<Sum>(i, j) \<in> {0..<3} \<times> {0..<256}. case e_hash (d_enum d i) j of None \<Rightarrow> 0 | Some r \<Rightarrow> hid_free_report r)"
  by (simp add: hid_free_reports_def interv_sum_list_conv_sum_set_nat sum.cartesian_product del: upt_Suc)

lemma free_reports_upd:
  assumes "t < 3" "i < 256" "e_hash (d_enum d' t) = (e_hash (d_enum d t))(i := Some r)" "\<And>u. u \<noteq> t \<Longrightarrow> d_enum d' u = d_enum d u"
  shows "hid_free_reports d' = hid_free_reports d + hid_free_report r -
    (case e_hash (d_enum d t) i of None \<Rightarrow> 0 | Some r0 \<Rightarrow> hid_free_report r0)"
proof -
  let ?A = "{0..<3 :: nat} \<times> {0..<256 :: nat}"
  let ?w = "\<lambda>d :: hid_device. \<lambda>(i, j). case e_hash (d_enum d i) j of None \<Rightarrow> 0 | Some r \<Rightarrow> hid_free_report r"
  have a: "(t, i) \<in> ?A" "finite ?A" using assms(1,2) by auto
  have "?w d' x = ?w d x" if "x \<noteq> (t, i)" for x using that assms(3,4) by (cases x; cases "fst x = t") auto
  then have "sum (?w d') (?A - {(t, i)}) = sum (?w d) (?A - {(t, i)})" by (intro sum.cong) auto
  then show ?thesis unfolding free_reports_sum using sum.remove [OF a(2,1), of "?w d"] sum.remove [OF a(2,1), of "?w d'"] assms(3) by simp
qed

lemma free_reports_cong: "(\<And>t. e_hash (d_enum d' t) = e_hash (d_enum d t)) \<Longrightarrow> hid_free_reports d' = hid_free_reports d"
  by (simp add: hid_free_reports_def)

section \<open>Every item keeps the invariant\<close>

lemma hid_alloc_cases:
  obtains rest where "hid_alloc p = (True, p\<lparr>p_allocs := rest, p_live := p_live p + 1\<rparr>)"
  | rest where "hid_alloc p = (False, p\<lparr>p_allocs := rest\<rparr>)"
proof (cases "p_allocs p")
  case Nil
  then have "hid_alloc p = (True, p\<lparr>p_allocs := [], p_live := p_live p + 1\<rparr>)" by (simp add: hid_alloc_def)
  then show ?thesis by (rule that(1))
next
  case (Cons a list)
  then show ?thesis using that by (cases a) (simp_all add: hid_alloc_def)
qed

lemma global_done:
  assumes i: "hid_inv k p" and r: "i_tag it = 8 \<longrightarrow> unat (item_udata it) < 256"
  shows "item_done k (hid_parser_global it p)"
proof -
  have l: "hid_live (p\<lparr>p_global := g\<rparr>)" for g using hid_inv_live [OF i] by (simp add: hid_live_def)
  have s: "hid_inv k (p\<lparr>p_global := g\<rparr>)" if "global_ok g" for g
    using i that by (simp add: hid_inv_def stacks_ok_def local_ok_def hid_live_def)
  have g: "global_ok (p_global p)" using i by (simp add: hid_inv_def stacks_ok_def)
  consider (push) "i_tag it = 10" | (pop) "i_tag it = 11" | (other) "i_tag it \<noteq> 10" "i_tag it \<noteq> 11" by blast
  then show ?thesis
  proof cases
    case push
    have "\<forall>x \<in> set ((p_global_stack p)[j := p_global p]). global_ok x" for j
      using i g set_update_subset_insert [of "p_global_stack p" j "p_global p"] by (auto simp: hid_inv_def stacks_ok_def)
    then show ?thesis using i g push
      by (auto simp: hid_parser_global_def Let_def buf_set_def hid_inv_def stacks_ok_def local_ok_def hid_live_def
          intro!: item_doneI)
  next
    case pop
    then show ?thesis using i g
      by (auto simp: hid_parser_global_def Let_def buf_get_def hid_inv_def stacks_ok_def local_ok_def hid_live_def
          intro!: item_doneI)
  next
    case other
    have "unat (item_udata it) \<le> 32" if "\<not> item_udata it > 32" using that by (simp add: word_less_nat_alt)
    then have b: "item_done k (Some (if 32 < item_udata it then - 1 else 0, p\<lparr>p_global := (p_global p)\<lparr>g_report_size := item_udata it\<rparr>\<rparr>))"
      using g by (intro item_doneI l s) (simp add: global_ok_def split: if_splits)
    have c: "item_done k (Some (e, p\<lparr>p_global := g'\<rparr>))" if "e = 0 \<longrightarrow> global_ok g'" for e g' using that by (intro item_doneI l s) simp
    have d: "item_done k (Some (- 1, p))" using hid_inv_live [OF i] by (intro item_doneI) auto
    have "item_done k (Some (if HID_MAX_USAGES < unat (item_udata it) then - 1 else 0, p\<lparr>p_global := (p_global p)\<lparr>g_report_count := item_udata it\<rparr>\<rparr>))"
      "i_tag it = 8 \<longrightarrow> item_done k (Some (if item_udata it = 0 then - 1 else 0, p\<lparr>p_global := (p_global p)\<lparr>g_report_id := item_udata it\<rparr>\<rparr>))"
      using g r by (auto simp: global_ok_def intro: c)
    moreover have "global_ok ((p_global p)\<lparr>g_usage_page := u\<rparr>)" "global_ok ((p_global p)\<lparr>g_logical_minimum := x\<rparr>)"
      "global_ok ((p_global p)\<lparr>g_logical_maximum := x\<rparr>)" "global_ok ((p_global p)\<lparr>g_physical_minimum := x\<rparr>)"
      "global_ok ((p_global p)\<lparr>g_physical_maximum := x\<rparr>)" "global_ok ((p_global p)\<lparr>g_unit_exponent := x\<rparr>)"
      "global_ok ((p_global p)\<lparr>g_unit := u\<rparr>)" for u x
      using g by (simp_all add: global_ok_def)
    ultimately show ?thesis using other unfolding hid_parser_global_def Let_def if_distrib [of "item_done k"]
      by (simp only: b c d simp_thms if_False if_cancel) simp
  qed
qed

lemma local_upd_inv:
  assumes "hid_inv k p" "length (l_usages l) \<le> HID_MAX_USAGES" "\<forall>u \<in> set (l_usages l). snd u < max 1 (d_maxcollection (p_device p))"
  shows "hid_inv k (p\<lparr>p_local := l\<rparr>)"
  using assms by (simp add: hid_inv_def stacks_ok_def local_ok_def hid_live_def)

lemma stack_top:
  assumes "stacks_ok p" "0 < p_collection_stack_ptr p"
  shows "\<exists>c. buf_get (p_collection_stack p) (int (p_collection_stack_ptr p) - 1) = Some c \<and> c < d_maxcollection (p_device p)"
proof -
  obtain n where "p_collection_stack_ptr p = Suc n" using assms(2) by (cases "p_collection_stack_ptr p") auto
  then show ?thesis using assms(1) by (simp add: buf_get_def stacks_ok_def)
qed

lemma add_usage_done:
  assumes i: "hid_inv k p"
  shows "item_done k (hid_add_usage u p)"
proof (cases "HID_MAX_USAGES \<le> length (l_usages (p_local p))")
  case False
  obtain c where c: "(if p_collection_stack_ptr p \<noteq> 0 then buf_get (p_collection_stack p) (int (p_collection_stack_ptr p) - 1) else Some 0) = Some c"
      "c < max 1 (d_maxcollection (p_device p))"
    using stack_top [of p] i by (cases "p_collection_stack_ptr p") (auto simp: hid_inv_def)
  let ?l = "(p_local p)\<lparr>l_usages := l_usages (p_local p) @ [(u, c)]\<rparr>"
  have "hid_add_usage u p = Some (0, p\<lparr>p_local := ?l\<rparr>)" using False c(1) by (simp add: hid_add_usage_def Let_def)
  moreover have "hid_inv k (p\<lparr>p_local := ?l\<rparr>)" using i c(2) False by (intro local_upd_inv) (auto simp: hid_inv_def local_ok_def)
  ultimately show ?thesis using hid_inv_live by auto
qed (use i in \<open>auto simp: hid_add_usage_def Let_def hid_inv_live intro!: item_doneI\<close>)

lemma add_usages_done: "hid_inv k p \<Longrightarrow> item_done k (hid_add_usages n data p)"
proof (induction n data p rule: hid_add_usages.induct)
  case (1 n data p)
  obtain ret p1 where u: "hid_add_usage n p = Some (ret, p1)" "hid_live p1" "ret = 0 \<longrightarrow> hid_inv k p1"
    using add_usage_done [OF 1(2), of n] by (auto simp: item_done_def)
  show ?case
  proof (cases "n \<le> data")
    case True
    then show ?thesis using 1(1) [OF True u(1) refl] u by (subst hid_add_usages.simps) auto
  next
    case False
    then show ?thesis using 1(2) hid_inv_live by (subst hid_add_usages.simps) auto
  qed
qed

lemma local_done:
  assumes i: "hid_inv k p"
  shows "item_done k (hid_parser_local it p)"
proof -
  have "hid_inv k (p\<lparr>p_local := (p_local p)\<lparr>l_usage_minimum := m\<rparr>\<rparr>)" for m
    using i by (simp add: hid_inv_def stacks_ok_def local_ok_def hid_live_def)
  moreover have "hid_live (p\<lparr>p_local := l\<rparr>)" for l using hid_inv_live [OF i] by (simp add: hid_live_def)
  ultimately show ?thesis using i hid_inv_live [OF i] add_usage_done [OF i] add_usages_done [OF i]
    by (auto simp: hid_parser_local_def Let_def intro!: item_doneI)
qed

lemma inv_allocs [simp]: "hid_inv k (p\<lparr>p_allocs := x\<rparr>) = hid_inv k p"
  by (simp add: hid_inv_def stacks_ok_def local_ok_def hid_live_def)

lemma report_ok_mono: "report_ok mc t i r \<Longrightarrow> mc \<le> mc' \<Longrightarrow> report_ok mc' t i r"
  by (fastforce simp: report_ok_def field_ok_def)

lemma device_ok_grow:
  assumes "device_ok d" "d_maxcollection d < m" "m \<le> length cs" "d_enum d' = d_enum d" "d_collection d' = cs" "d_maxcollection d' = m"
  shows "device_ok d'"
  using assms unfolding device_ok_def by (metis gr_zeroI less_imp_le_nat less_le_trans not_less_zero report_ok_mono)

text \<open>The state behind \<open>open_collection\<close> when there is room, in the old array or in a new one.\<close>

definition opened :: "hid_device \<Rightarrow> hid_parser \<Rightarrow> hid_parser" where
  "opened d' p = p\<lparr>p_collection_stack := (p_collection_stack p)[p_collection_stack_ptr p := d_maxcollection (p_device p)],
     p_collection_stack_ptr := p_collection_stack_ptr p + 1, p_device := d'\<rparr>"

lemma opened_stacks:
  assumes s: "stacks_ok p" and ptr: "p_collection_stack_ptr p < HID_COLLECTION_STACK_SIZE"
    and d: "d_maxcollection d' = d_maxcollection (p_device p) + 1"
  shows "stacks_ok (opened d' p)"
proof -
  have "(p_collection_stack p)[p_collection_stack_ptr p := d_maxcollection (p_device p)] ! j < d_maxcollection (p_device p) + 1"
    if "j < p_collection_stack_ptr p + 1" for j
    using that ptr s by (cases "j = p_collection_stack_ptr p") (auto simp: stacks_ok_def less_SucI)
  then show ?thesis using s ptr d by (simp add: stacks_ok_def opened_def)
qed

lemma opened_done:
  assumes i: "hid_inv k p" and ptr: "p_collection_stack_ptr p < HID_COLLECTION_STACK_SIZE"
    and d: "d_maxcollection (p_device p) < length (d_collection d')" "d_enum d' = d_enum (p_device p)"
      "d_maxcollection d' = d_maxcollection (p_device p) + 1"
  shows "item_done k (Some (0, opened d' p))"
proof -
  have "device_ok d'"
    by (rule device_ok_grow [of "p_device p" "d_maxcollection (p_device p) + 1" "d_collection d'"]) (use i d in \<open>simp_all add: hid_inv_def\<close>)
  moreover have "stacks_ok (opened d' p)" using i by (intro opened_stacks ptr d(3)) (simp add: hid_inv_def)
  moreover have "local_ok (opened d' p)" using i d(3) by (fastforce simp: hid_inv_def local_ok_def opened_def)
  moreover have "hid_live (opened d' p)" "size_ok k d'"
    using i d(2) free_reports_cong [of d' "p_device p"] by (simp_all add: hid_inv_def hid_live_def size_ok_def opened_def)
  ultimately show ?thesis by (auto simp: hid_inv_def opened_def)
qed

lemma open_collection_done:
  assumes i: "hid_inv k p"
  shows "item_done k (open_collection ty p)"
proof (cases "p_collection_stack_ptr p = HID_COLLECTION_STACK_SIZE")
  case True
  then show ?thesis using hid_inv_live [OF i] by (auto simp: open_collection_def local_usage_def)
next
  case False
  let ?d = "p_device p"
  obtain usage c where u: "local_usage (p_local p) 0 = Some (usage, c)" by (fastforce simp: local_usage_def)
  have s: "p_collection_stack_ptr p < HID_COLLECTION_STACK_SIZE" "length (p_collection_stack p) = HID_COLLECTION_STACK_SIZE"
    and c: "d_maxcollection ?d \<le> length (d_collection ?d)" "d_collection ?d \<noteq> []"
    using i False by (auto simp: hid_inv_def stacks_ok_def device_ok_def)
  define new where "new cs = ?d\<lparr>d_collection := cs[d_maxcollection ?d := \<lparr>c_type = ty, c_usage = usage, c_level = p_collection_stack_ptr p\<rparr>],
      d_maxcollection := d_maxcollection ?d + 1, d_maxapplication := d_maxapplication ?d + (if ty = 1 then 1 else 0)\<rparr>" for cs
  show ?thesis
  proof (cases "d_maxcollection ?d = length (d_collection ?d)")
    case full: True
    show ?thesis
    proof (rule hid_alloc_cases [of p])
      fix rest assume "hid_alloc p = (False, p\<lparr>p_allocs := rest\<rparr>)"
      then show ?thesis using u False full hid_inv_live [OF i] by (auto simp: open_collection_def Let_def hid_live_def)
    next
      fix rest assume "hid_alloc p = (True, p\<lparr>p_allocs := rest, p_live := p_live p + 1\<rparr>)"
      then have "open_collection ty p = Some (0, opened (new (d_collection ?d @ replicate (length (d_collection ?d)) zero_collection)) (p\<lparr>p_allocs := rest\<rparr>))"
        using s c u False full by (simp add: open_collection_def Let_def buf_set_def new_def opened_def)
      then show ?thesis using opened_done [of k "p\<lparr>p_allocs := rest\<rparr>"] i s(1) c full by (simp add: new_def)
    qed
  next
    case room: False
    then have "open_collection ty p = Some (0, opened (new (d_collection ?d)) p)"
      using s c u False by (simp add: open_collection_def Let_def buf_set_def new_def opened_def)
    then show ?thesis using opened_done [OF i s(1)] c room by (simp add: new_def)
  qed
qed

lemma close_collection_done: "hid_inv k p \<Longrightarrow> item_done k (Some (close_collection p))"
  by (auto simp: close_collection_def hid_inv_def stacks_ok_def local_ok_def hid_live_def)

lemma lookup_collection_Some:
  assumes "stacks_ok p" "device_ok (p_device p)" "n \<le> p_collection_stack_ptr p"
  shows "lookup_collection p ty n \<noteq> None"
  using assms(3)
proof (induction n)
  case (Suc n)
  then have "n < length (p_collection_stack p)" "p_collection_stack p ! n < d_maxcollection (p_device p)"
    using assms(1) by (simp_all add: stacks_ok_def)
  moreover have "d_maxcollection (p_device p) \<le> length (d_collection (p_device p))" using assms(2) by (simp add: device_ok_def)
  ultimately have "n < length (p_collection_stack p)" "p_collection_stack p ! n < length (d_collection (p_device p))" by simp_all
  then show ?case using Suc by (simp add: buf_get_def)
qed simp

lemma the_all_map: "(\<And>x. x \<in> set xs \<Longrightarrow> f x = Some (g x)) \<Longrightarrow> the_all (map f xs) = Some (map g xs)"
  by (induction xs) auto

lemma usage_table_ok:
  assumes "l_usages l \<noteq> []" "length (l_usages l) \<le> HID_MAX_USAGES" "\<forall>u \<in> set (l_usages l). snd u < m"
  shows "\<exists>us. usage_table l n = Some us \<and> length us = n \<and> (\<forall>u \<in> set us. snd u < m)"
proof -
  define g where "g i = l_usages l ! (if length (l_usages l) \<le> i then length (l_usages l) - 1 else i)" for i
  have j: "(if length (l_usages l) \<le> i then length (l_usages l) - 1 else i) < length (l_usages l)" for i
    using assms(1) by (cases "l_usages l") auto
  then have "usage_table l n = Some (map g [0..<n])" using assms(2) unfolding usage_table_def
    by (intro the_all_map) (auto simp: local_usage_def g_def intro: order_less_le_trans)
  moreover have "g i \<in> set (l_usages l)" for i unfolding g_def using j by (rule nth_mem)
  ultimately show ?thesis using assms(3) by auto
qed

lemma register_report_done:
  assumes i: "hid_inv k p" and t: "t < HID_REPORT_TYPES" "rid < 256"
  shows "\<exists>rep p1. hid_register_report t rid p = Some (rep, p1) \<and> hid_inv k p1 \<and> p_global p1 = p_global p \<and> p_local p1 = p_local p \<and>
    (\<forall>r. rep = Some r \<longrightarrow> e_hash (d_enum (p_device p1) t) rid = Some r)"
proof (cases "e_hash (d_enum (p_device p) t) rid")
  case None
  let ?r = "\<lparr>r_id = rid, r_type = t, r_fields = [], r_size = 0\<rparr>"
  show ?thesis
  proof (rule hid_alloc_cases [of p])
    fix rest assume "hid_alloc p = (False, p\<lparr>p_allocs := rest\<rparr>)"
    then show ?thesis using None t i by (simp add: hid_register_report_def)
  next
    fix rest assume a: "hid_alloc p = (True, p\<lparr>p_allocs := rest, p_live := p_live p + 1\<rparr>)"
    let ?e = "\<lambda>e. e\<lparr>e_numbered := e_numbered e \<or> rid \<noteq> 0, e_list := e_list e @ [rid]\<rparr>"
    let ?p = "report_set t rid ?r (enum_upd t ?e (p\<lparr>p_allocs := rest, p_live := p_live p + 1\<rparr>))"
    have p: "hid_register_report t rid p = Some (Some ?r, ?p)" using None t a by (simp add: hid_register_report_def Let_def)
    have "hid_free_reports (p_device ?p) = hid_free_reports (p_device p) + 1"
      using free_reports_upd [OF t, of "p_device ?p" "p_device p" ?r] None by (simp add: hid_free_report_def)
    then have "hid_live ?p" using i by (simp add: hid_inv_def hid_live_def)
    moreover have "device_ok (p_device ?p)" "size_ok k (p_device ?p)"
      using i t by (auto simp: hid_inv_def device_ok_def size_ok_def report_ok_def)
    moreover have "stacks_ok ?p" "local_ok ?p" using i by (simp_all add: hid_inv_def stacks_ok_def local_ok_def)
    ultimately show ?thesis using p by (simp add: hid_inv_def)
  qed
qed (use assms in \<open>auto simp: hid_register_report_def\<close>)

lemma report_set_inv:
  assumes i: "hid_inv k p" and t: "t < HID_REPORT_TYPES" "rid < 256" and h: "e_hash (d_enum (p_device p) t) rid = Some r0"
    and r: "report_ok (d_maxcollection (p_device p)) t rid r" "unat (r_size r) \<le> 2 ^ 18 * k'" "k \<le> k'"
    and l: "live = p_live p + hid_free_report r - hid_free_report r0"
  shows "hid_inv k' (report_set t rid r (p\<lparr>p_live := live\<rparr>))"
proof -
  let ?p = "report_set t rid r (p\<lparr>p_live := live\<rparr>)"
  have "hid_free_reports (p_device ?p) = hid_free_reports (p_device p) + hid_free_report r - hid_free_report r0"
    using free_reports_upd [OF t, of "p_device ?p" "p_device p" r] h by simp
  then have "hid_live ?p" using i l by (simp add: hid_inv_def hid_live_def)
  moreover have "device_ok (p_device ?p)" using i t r(1) by (auto simp: hid_inv_def device_ok_def)
  moreover have "size_ok k' (p_device ?p)" using i r(2) size_ok_mono [OF _ r(3), of "p_device p"] by (auto simp: hid_inv_def size_ok_def)
  moreover have "stacks_ok ?p" "local_ok ?p" using i by (simp_all add: hid_inv_def stacks_ok_def local_ok_def)
  ultimately show ?thesis by (simp add: hid_inv_def)
qed

lemma grown_size:
  assumes "unat (sz :: u32) \<le> 2 ^ 18 * k" "k < 4096" "unat a \<le> 32" "unat b \<le> HID_MAX_USAGES"
  shows "unat (sz + a * b) = unat sz + unat a * unat b" "unat (sz + a * b) \<le> 2 ^ 18 * Suc k"
proof -
  have "unat a * unat b \<le> 32 * 8192" using assms(3,4) by (intro mult_le_mono)
  then show "unat (sz + a * b) = unat sz + unat a * unat b" "unat (sz + a * b) \<le> 2 ^ 18 * Suc k"
    using assms(1,2) by (simp_all add: unat_word_ariths)
qed

text \<open>A field with the tables that \<open>hid_new_field\<close> fills in may be appended to its report.\<close>

lemma report_snoc:
  assumes r: "report_ok mc t i r" "length (r_fields r) < HID_MAX_FIELDS" and f: "field_ok mc f" "f_report_type f = t"
    and l: "layout 0 (r_fields r) (unat (f_report_offset f))" "unat (f_report_offset f) + field_bits f \<le> unat (r_size r)"
  shows "report_ok mc t i (r\<lparr>r_fields := r_fields r @ [f]\<rparr>)"
  using assms by (auto simp: report_ok_def layout_snoc)

lemma sint_small:
  assumes "unat (w :: u32) < 2 ^ 31"
  shows "sint w = int (unat w)"
proof -
  have "int (unat w) < int (2 ^ 31)" using assms by (simp only: of_nat_less_iff)
  then have "uint w < 2 ^ 31" by simp
  moreover have "- (2 ^ 31) \<le> uint w" using uint_ge_0 [of w] by (rule order_trans [rotated]) simp
  ultimately show ?thesis by (simp add: sint_uint signed_take_bit_int_eq_self)
qed

lemma new_field_done:
  assumes i: "hid_inv k p" and t: "t < HID_REPORT_TYPES" "rid < 256" and h: "e_hash (d_enum (p_device p) t) rid = Some r"
    and g: "g_logical_minimum (p_global p) \<le> g_logical_maximum (p_global p)" and us: "l_usages (p_local p) \<noteq> []"
    and lay: "layout 0 (r_fields r) (unat offset)"
      "unat offset + unat (g_report_size (p_global p)) * unat (g_report_count (p_global p)) \<le> unat (r_size r)"
  shows "item_done k (hid_new_field t rid flags offset r p)"
proof -
  have rok: "report_ok (d_maxcollection (p_device p)) t rid r" "unat (r_size r) \<le> 2 ^ 18 * k"
    using h i by (auto simp: hid_inv_def device_ok_def size_ok_def)
  have gok: "global_ok (p_global p)" using i by (simp add: hid_inv_def stacks_ok_def)
  define usages where "usages = nat (max (int (length (l_usages (p_local p)))) (sint (g_report_count (p_global p))))"
  have "sint (g_report_count (p_global p)) = int (unat (g_report_count (p_global p)))" using gok by (intro sint_small) (simp add: global_ok_def)
  moreover have "nat (max (int a) (int b)) = max a b" for a b by (simp add: max_def)
  ultimately have "usages = max (length (l_usages (p_local p))) (unat (g_report_count (p_global p)))" unfolding usages_def by (simp only:)
  then have u: "0 < usages" "unat (g_report_count (p_global p)) \<le> usages" using us by (simp_all add: less_max_iff_disj)
  obtain tab where tab: "usage_table (p_local p) usages = Some tab" "length tab = usages" "\<forall>u \<in> set tab. snd u < max 1 (d_maxcollection (p_device p))"
    using usage_table_ok [OF us, of "max 1 (d_maxcollection (p_device p))" usages] i by (auto simp: hid_inv_def local_ok_def)
  show ?thesis
  proof (cases "length (r_fields r) = HID_MAX_FIELDS")
    case False
    then have len: "length (r_fields r) < HID_MAX_FIELDS" using rok(1) by (simp add: report_ok_def)
    show ?thesis
    proof (rule hid_alloc_cases [of p])
      fix rest assume a: "hid_alloc p = (True, p\<lparr>p_allocs := rest, p_live := p_live p + 1\<rparr>)"
      let ?p = "p\<lparr>p_allocs := rest, p_live := p_live p + 1\<rparr>"
      have "hid_lookup_collection ?p ty \<noteq> None" for ty
        unfolding hid_lookup_collection_def by (rule lookup_collection_Some) (use i in \<open>auto simp: hid_inv_def stacks_ok_def\<close>)
      then obtain ph lo ap where c: "hid_lookup_collection ?p 0 = Some ph" "hid_lookup_collection ?p 2 = Some lo"
          "hid_lookup_collection ?p 1 = Some ap"
        by (meson not_None_eq)
      let ?g = "p_global p"
      let ?f = "\<lparr>f_physical = ph, f_logical = lo, f_application = ap, f_usage = tab, f_maxusage = usages, f_flags = flags, f_report_offset = offset,
          f_report_size = g_report_size ?g, f_report_count = g_report_count ?g, f_report_type = t, f_value = replicate (unat (g_report_count ?g)) 0,
          f_logical_minimum = g_logical_minimum ?g, f_logical_maximum = g_logical_maximum ?g, f_physical_minimum = g_physical_minimum ?g,
          f_physical_maximum = g_physical_maximum ?g, f_unit_exponent = g_unit_exponent ?g, f_unit = g_unit ?g\<rparr>"
      obtain f where f: "hid_new_field t rid flags offset r p = Some (0, report_set t rid (r\<lparr>r_fields := r_fields r @ [f]\<rparr>) ?p)"
          "field_ok (d_maxcollection (p_device p)) f" "f_report_type f = t" "f_report_offset f = offset"
          "field_bits f = unat (g_report_size (p_global p)) * unat (g_report_count (p_global p))"
      proof (rule that [of ?f])
        show "hid_new_field t rid flags offset r p = Some (0, report_set t rid (r\<lparr>r_fields := r_fields r @ [?f]\<rparr>) ?p)"
          using len a c tab(1) False by (simp add: hid_new_field_def hid_register_field_def Let_def usages_def)
        show "field_ok (d_maxcollection (p_device p)) ?f" using tab u g gok by (simp add: field_ok_def global_ok_def)
      qed (simp_all add: field_bits_def)
      have "report_ok (d_maxcollection (p_device p)) t rid (r\<lparr>r_fields := r_fields r @ [f]\<rparr>)"
        using f lay by (intro report_snoc rok(1) len) simp_all
      then have "hid_inv k (report_set t rid (r\<lparr>r_fields := r_fields r @ [f]\<rparr>) ?p)"
        using report_set_inv [of k "p\<lparr>p_allocs := rest\<rparr>" t rid r "r\<lparr>r_fields := r_fields r @ [f]\<rparr>" k "p_live p + 1"] i t h rok(2)
        by (simp add: hid_free_report_def)
      then show ?thesis unfolding f(1) using hid_inv_live by blast
    qed (use i False hid_inv_live [of k] in \<open>auto simp: hid_new_field_def hid_register_field_def Let_def\<close>)
  qed (use i hid_inv_live in \<open>auto simp: hid_new_field_def hid_register_field_def Let_def\<close>)
qed

lemma add_field_done:
  assumes i: "hid_inv k p0" and t: "t < HID_REPORT_TYPES" and k: "k < 4096"
  shows "item_done (Suc k) (hid_add_field t flags p0)"
proof -
  let ?rid = "unat (g_report_id (p_global p0))"
  have gok: "global_ok (p_global p0)" using i by (simp add: hid_inv_def stacks_ok_def)
  then have rid: "?rid < 256" by (simp add: global_ok_def)
  obtain rep p where p: "hid_register_report t ?rid p0 = Some (rep, p)" "hid_inv k p" "p_global p = p_global p0" "p_local p = p_local p0"
      "\<And>r. rep = Some r \<Longrightarrow> e_hash (d_enum (p_device p) t) ?rid = Some r"
    using register_report_done [OF i t rid] by blast
  define g where "g = p_global p0"
  show ?thesis
  proof (cases "\<exists>r. rep = Some r \<and> g_logical_minimum g \<le> g_logical_maximum g")
    case False
    then show ?thesis using p hid_inv_live [OF p(2)] unfolding g_def
      by (auto simp: hid_add_field_def Let_def intro!: item_doneI split: option.splits)
  next
    case True
    then obtain r where r: "rep = Some r" "g_logical_minimum g \<le> g_logical_maximum g" by blast
    then have h: "e_hash (d_enum (p_device p) t) ?rid = Some r" using p(5) by simp
    then have rok: "report_ok (d_maxcollection (p_device p)) t ?rid r" "unat (r_size r) \<le> 2 ^ 18 * k"
      using p(2) by (auto simp: hid_inv_def device_ok_def size_ok_def)
    define n where "n = r_size r + g_report_size g * g_report_count g"
    have n: "unat n = unat (r_size r) + unat (g_report_size g) * unat (g_report_count g)" "unat n \<le> 2 ^ 18 * Suc k"
      unfolding n_def using grown_size [OF rok(2) k] gok by (simp_all add: global_ok_def g_def)
    define p1 where "p1 = report_set t ?rid (r\<lparr>r_size := n\<rparr>) p"
    have "report_ok (d_maxcollection (p_device p)) t ?rid (r\<lparr>r_size := n\<rparr>)"
      using rok(1) n(1) by (auto simp: report_ok_def intro: layout_mono)
    then have i1: "hid_inv (Suc k) p1" unfolding p1_def
      using report_set_inv [OF p(2) t rid h, of "r\<lparr>r_size := n\<rparr>" "Suc k" "p_live p"] n(2) by (simp add: hid_free_report_def)
    moreover have "item_done (Suc k) (hid_new_field t ?rid flags (r_size r) (r\<lparr>r_size := n\<rparr>) p1)" if "l_usages (p_local p1) \<noteq> []"
      using i1 t rid _ _ that by (rule new_field_done) (use p(3) r(2) n(1) rok(1) in \<open>auto simp: p1_def g_def report_ok_def\<close>)
    ultimately show ?thesis using p(1,3) r hid_inv_live [OF i1]
      by (auto simp: hid_add_field_def Let_def p1_def n_def g_def intro!: item_doneI)
  qed
qed

lemma main_done:
  assumes i: "hid_inv k p" and k: "k < 4096"
  shows "item_done (Suc k) (hid_parser_main it p)"
proof -
  have s: "hid_inv (Suc k) p" by (rule hid_inv_Suc [OF i])
  define x where "x = (if i_tag it = 10 then open_collection (item_udata it AND 0xff) p
             else if i_tag it = 12 then Some (close_collection p)
             else if i_tag it = 8 then hid_add_field 0 (item_udata it) p
             else if i_tag it = 9 then hid_add_field 1 (item_udata it) p
             else if i_tag it = 11 then hid_add_field 2 (item_udata it) p
             else Some (0, p))"
  have "item_done (Suc k) x"
    unfolding x_def using open_collection_done [OF s] close_collection_done [OF s] add_field_done [OF i _ k] s hid_inv_live [OF s] by auto
  then obtain ret p1 where x: "x = Some (ret, p1)" "hid_live p1" "ret = 0 \<longrightarrow> hid_inv (Suc k) p1" by (auto simp: item_done_def)
  have "ret = 0 \<Longrightarrow> hid_inv (Suc k) (p1\<lparr>p_local := zero_local\<rparr>)" using x(3) by (auto intro!: local_upd_inv simp: zero_local_def)
  moreover have "hid_live (p1\<lparr>p_local := zero_local\<rparr>)" using x(2) by (simp add: hid_live_def)
  ultimately show ?thesis unfolding hid_parser_main_def x_def [symmetric] x(1) by auto
qed

lemma item_done_Suc: "item_done k x \<Longrightarrow> item_done (Suc k) x"
  by (auto simp: item_done_def intro: hid_inv_Suc)

lemma dispatch_done:
  assumes "hid_inv k p" "k < 4096" "i_type it \<le> 3" "i_type it = 1 \<and> i_tag it = 8 \<longrightarrow> unat (item_udata it) < 256"
  shows "item_done (Suc k) (dispatch_type it p)"
proof -
  have "i_type it = 0 \<or> i_type it = 1 \<or> i_type it = 2 \<or> i_type it = 3" using assms(3) by linarith
  then show ?thesis
    using assms main_done [OF assms(1,2), of it] item_done_Suc [OF local_done [OF assms(1), of it]] item_done_Suc [OF global_done [OF assms(1), of it]]
      hid_inv_Suc [OF assms(1)] hid_inv_live [OF assms(1)]
    by (auto simp: dispatch_type_def hid_parser_reserved_def)
qed

text \<open>The items of a descriptor.\<close>

function hid_items :: "u8 list \<Rightarrow> hid_item list" where
  "hid_items bytes = (case fetch_item bytes of None \<Rightarrow> [] | Some (it, rest) \<Rightarrow> it # hid_items rest)"
  by pat_completeness auto

termination hid_items
  by (relation "measure length") (auto dest: fetch_item_shorter)

declare hid_items.simps [simp del]

lemma fetch_item_type: "fetch_item bytes = Some (it, rest) \<Longrightarrow> i_type it \<le> 3"
  using word_and_le1 [of _ "3 :: u8"]
  by (auto simp: fetch_item_def Let_def word_le_nat_alt split: list.splits if_splits)

definition ids_ok :: "hid_item list \<Rightarrow> bool" where
  "ids_ok its \<longleftrightarrow> (\<forall>it \<in> set its. i_type it = 1 \<and> i_tag it = 8 \<longrightarrow> unat (item_udata it) < 256)"

definition parse_done :: "(hid_device option \<times> int) option \<Rightarrow> bool" where
  "parse_done x \<longleftrightarrow> (\<exists>res live. x = Some (res, live) \<and>
     (case res of None \<Rightarrow> live = 0 | Some d \<Rightarrow> live = hid_free_device d \<and> device_ok d \<and> size_ok 4096 d))"

lemma parse_fail_done: "hid_live p \<Longrightarrow> parse_done (Some (parse_fail p))"
  by (simp add: parse_done_def parse_fail_def hid_live_def hid_free_device_def)

lemma parse_items_done: "hid_inv k p \<Longrightarrow> k + length bytes \<le> 4096 \<Longrightarrow> ids_ok (hid_items bytes) \<Longrightarrow> parse_done (hid_parse_items bytes p)"
proof (induction bytes p arbitrary: k rule: hid_parse_items.induct)
  case (1 bytes p)
  show ?case
  proof (cases "fetch_item bytes")
    case None
    then show ?thesis using parse_fail_done [OF hid_inv_live [OF 1(2)]] by (subst hid_parse_items.simps) simp
  next
    case (Some ir)
    then obtain it rest where f: "fetch_item bytes = Some (it, rest)" by (cases ir) auto
    have ids: "i_type it = 1 \<and> i_tag it = 8 \<longrightarrow> unat (item_udata it) < 256" "ids_ok (hid_items rest)"
      using 1(4) f by (subst (asm) hid_items.simps, simp add: ids_ok_def)+
    have len: "k < 4096" "Suc k + length rest \<le> 4096" using 1(3) fetch_item_shorter [OF f] by auto
    obtain ret p1 where d: "dispatch_type it p = Some (ret, p1)" "hid_live p1" "ret = 0 \<longrightarrow> hid_inv (Suc k) p1"
      using dispatch_done [OF 1(2) len(1) fetch_item_type [OF f] ids(1)] by (auto simp: item_done_def)
    have "parse_done (hid_parse_items rest p1)" if "\<not> i_long it" "ret = 0" "rest \<noteq> []"
      using 1(1) [OF f refl that(1) d(1) refl _ that(3), of "Suc k"] that d(3) len(2) ids(2) by simp
    moreover have "parse_done (Some (Some (p_device p1), p_live p1 - 1))" if "ret = 0"
      using d(3) that size_ok_mono [of "Suc k" "p_device p1" 4096] len(1) by (auto simp: parse_done_def hid_inv_def hid_live_def hid_free_device_def)
    ultimately show ?thesis using f d parse_fail_done [OF d(2)] parse_fail_done [OF hid_inv_live [OF 1(2)]]
      by (subst hid_parse_items.simps) simp
  qed
qed

lemma new_parser_inv: "hid_inv 0 ((new_parser desc allocs)\<lparr>p_allocs := x, p_live := 4\<rparr>)"
  by (simp add: hid_inv_def stacks_ok_def new_parser_def global_ok_def zero_global_def local_ok_def zero_local_def device_ok_def
      size_ok_def hid_live_def new_device_def hid_free_reports_def sum_list_triv)

lemma parse_report_done:
  assumes "length desc \<le> 4096" "ids_ok (hid_items desc)"
  shows "parse_done (hid_parse_report desc allocs)"
proof -
  have a: "\<exists>ok x. hid_alloc (q\<lparr>p_allocs := as, p_live := n\<rparr>) = (ok, q\<lparr>p_allocs := x, p_live := n + (if ok then 1 else 0)\<rparr>)" for q as n
    by (cases as) (auto simp: hid_alloc_def)
  let ?q = "new_parser desc allocs"
  have q: "?q = ?q\<lparr>p_allocs := allocs, p_live := 0\<rparr>" by (simp add: new_parser_def)
  obtain ok1 x1 where 1: "hid_alloc ?q = (ok1, ?q\<lparr>p_allocs := x1, p_live := if ok1 then 1 else 0\<rparr>)" using a [where q = ?q and as = allocs and n = 0] q by auto
  obtain ok2 x2 where 2: "hid_alloc (?q\<lparr>p_allocs := x1, p_live := 1\<rparr>) = (ok2, ?q\<lparr>p_allocs := x2, p_live := 1 + (if ok2 then 1 else 0)\<rparr>)" using a by blast
  obtain ok3 x3 where 3: "hid_alloc (?q\<lparr>p_allocs := x2, p_live := 2\<rparr>) = (ok3, ?q\<lparr>p_allocs := x3, p_live := 2 + (if ok3 then 1 else 0)\<rparr>)" using a by blast
  obtain ok4 x4 where 4: "hid_alloc (?q\<lparr>p_allocs := x3, p_live := 3\<rparr>) = (ok4, ?q\<lparr>p_allocs := x4, p_live := 3 + (if ok4 then 1 else 0)\<rparr>)" using a by blast
  have "parse_done (hid_parse_items desc (?q\<lparr>p_allocs := x4, p_live := 4\<rparr>))"
    using parse_items_done [OF new_parser_inv] assms by simp
  moreover have "parse_done (Some (None, 0))" by (simp add: parse_done_def)
  ultimately show ?thesis unfolding hid_parse_report_def 1 using 2 3 4 by (cases ok1; cases ok2; cases ok3; cases ok4) simp_all
qed

lemma delimiter_not_accepted:
  assumes "hid_parse_items bytes p = Some (Some d, live)" "it \<in> set (hid_items bytes)"
  shows "\<not> (i_type it = 2 \<and> i_tag it = 10)"
  using assms
proof (induction bytes p rule: hid_parse_items.induct)
  case (1 bytes p)
  obtain it0 rest where f: "fetch_item bytes = Some (it0, rest)"
    using 1(2) by (subst (asm) hid_parse_items.simps) (auto simp: parse_fail_def split: option.splits)
  have parse: "\<exists>p1. \<not> i_long it0 \<and> dispatch_type it0 p = Some (0, p1) \<and>
      (rest = [] \<or> hid_parse_items rest p1 = Some (Some d, live))"
    using 1(2) f by (subst (asm) hid_parse_items.simps) (auto simp: parse_fail_def split: if_splits bind_splits)
  then obtain p1 where p1: "\<not> i_long it0" "dispatch_type it0 p = Some (0, p1)" "rest = [] \<or> hid_parse_items rest p1 = Some (Some d, live)" by blast
  show ?case
  proof (cases "it = it0")
    case True
    then show ?thesis using p1(2) by (auto simp: dispatch_type_def hid_parser_local_def Let_def split: if_splits)
  next
    case False
    then have "it \<in> set (hid_items rest)" using 1(3) f by (subst (asm) hid_items.simps) simp
    moreover from this have "rest \<noteq> []" by (auto simp: hid_items.simps [of "[]"] fetch_item_def)
    ultimately show ?thesis using 1(1) [OF f refl p1(1,2) refl] p1(3) by simp
  qed
qed

section \<open>Properties\<close>

text \<open>C6: Parsing a report descriptor returns, whatever bytes the device sends and whichever allocations fail:
  for up to \<open>HID_MAX_DESCRIPTOR_SIZE\<close> (4096) bytes, in which no report identifier is above 255, no access is
  outside an array, no number of bits wraps, and every object is freed when there is no device; with a
  device, exactly the objects that \<open>hid_free_device\<close> frees are left.\<close>

theorem hid_parse_report_safe:
  assumes "length desc \<le> 4096"
    and "\<forall>it \<in> set (hid_items desc). i_type it = 1 \<and> i_tag it = 8 \<longrightarrow> unat (item_udata it) < 256"
  shows "\<exists>res live. hid_parse_report desc allocs = Some (res, live) \<and>
    live = (case res of None \<Rightarrow> 0 | Some d \<Rightarrow> hid_free_device d)"
  using parse_report_done [OF assms(1), of allocs] assms(2)
  by (auto simp: ids_ok_def parse_done_def split: option.splits)

lemmas hid_eval = hid_parse_report_def new_parser_def new_device_def hid_alloc_def hid_parse_items.simps fetch_item_def dispatch_type_def
  hid_parser_global_def hid_parser_local_def hid_parser_main_def item_udata_def item_sdata_def hid_add_usage_def open_collection_def close_collection_def
  hid_add_field_def hid_new_field_def hid_register_report_def hid_register_field_def hid_lookup_collection_def usage_table_def local_usage_def
  buf_get_def buf_set_def zero_global_def zero_local_def zero_collection_def Let_def

text \<open>The descriptor of a device with one axis of 8 bits.\<close>

definition hid_demo :: "u8 list" where
  "hid_demo = [0x05, 0x01, 0x09, 0x02, 0xa1, 0x01, 0x09, 0x30, 0x15, 0x81, 0x25, 0x7f, 0x75, 0x08, 0x95, 0x01, 0x81, 0x06, 0xc0]"

lemma hid_demo_ids: "\<forall>it \<in> set (hid_items hid_demo). i_type it = 1 \<and> i_tag it = 8 \<longrightarrow> unat (item_udata it) < 256"
  by (simp add: hid_demo_def hid_items.simps fetch_item_def Let_def)

theorem hid_parse_report_safe_witness:
  "\<exists>res live. hid_parse_report hid_demo [] = Some (res, live) \<and> live = (case res of None \<Rightarrow> 0 | Some d \<Rightarrow> hid_free_device d)"
  by (rule hid_parse_report_safe [OF _ hid_demo_ids]) (simp add: hid_demo_def)

text \<open>C22: The device of a successful parse is well formed: its collections are in the array; every
  report is in the table under its identifier and type, with at most 64 fields; the fields of a report
  lie one behind the other within its size; a field has a usage for every value it has room for, at most
  32 bits per value and a logical range that is not empty; and every usage belongs to a collection.\<close>

theorem hid_parse_report_wellformed:
  assumes "length desc \<le> 4096"
    and "\<forall>it \<in> set (hid_items desc). i_type it = 1 \<and> i_tag it = 8 \<longrightarrow> unat (item_udata it) < 256"
    and "hid_parse_report desc allocs = Some (Some d, live)"
  shows "device_ok d"
  using parse_report_done [OF assms(1), of allocs] assms(2,3) by (auto simp: ids_ok_def parse_done_def)

theorem hid_parse_report_wellformed_witness:
  "\<exists>d live. hid_parse_report hid_demo [] = Some (Some d, live) \<and> device_ok d \<and> d_maxapplication d = 1"
proof -
  obtain d live where d: "hid_parse_report hid_demo [] = Some (Some d, live)" "d_maxapplication d = 1"
    by (simp add: hid_demo_def hid_eval)
  then show ?thesis using hid_parse_report_wellformed [OF _ hid_demo_ids d(1)] by (auto simp: hid_demo_def)
qed

text \<open>A descriptor that is accepted can be continued: the parser goes on behind it.\<close>

lemma fetch_item_append:
  assumes "fetch_item bs = Some (it, rest)"
  shows "fetch_item (bs @ cs) = Some (it, rest @ cs)"
proof (cases bs)
  case (Cons b r)
  obtain ty tag sz where w: "unat (drop_bit 2 b AND 3) = ty" "unat (drop_bit 4 b AND 15) = tag" "unat (b AND 3) = sz" by blast
  have d: "drop k (r @ cs) = drop k r @ cs" if "\<not> length r < k" for k using that by simp
  show ?thesis using assms unfolding fetch_item_def Cons append_Cons list.case w Let_def
    by (auto simp: nth_append d simp del: drop_append One_nat_def split: if_split_asm) (cases r; simp)
qed (use assms in \<open>simp add: fetch_item_def\<close>)

lemma parse_items_append:
  "hid_parse_items bs p = Some (Some d, live) \<Longrightarrow> cs \<noteq> [] \<Longrightarrow> \<exists>p'. hid_parse_items (bs @ cs) p = hid_parse_items cs p'"
proof (induction bs p rule: hid_parse_items.induct)
  case (1 bs p)
  obtain it rest where f: "fetch_item bs = Some (it, rest)" "\<not> i_long it"
    using 1(2) by (subst (asm) hid_parse_items.simps) (auto simp: parse_fail_def split: option.splits if_splits)
  obtain p1 where d: "dispatch_type it p = Some (0, p1)"
    using 1(2) f by (subst (asm) hid_parse_items.simps) (auto simp: parse_fail_def split: bind_splits if_split_asm)
  have c: "hid_parse_items (bs @ cs) p = hid_parse_items (rest @ cs) p1"
    using f d 1(3) fetch_item_append [OF f(1)] by (subst hid_parse_items.simps) simp
  show ?case
  proof (cases "rest = []")
    case False
    then have "hid_parse_items rest p1 = Some (Some d, live)" using 1(2) f d by (subst (asm) hid_parse_items.simps) simp
    from 1(1) [OF f(1) refl f(2) d refl _ False this 1(3)] c show ?thesis by simp
  qed (use c in auto)
qed

text \<open>C37: The parser accepts a Report ID item with any number from 256 to the largest of 32 bits, and uses it as an index:
  when an Input, Output or Feature item follows it, the parser reads outside the table of reports, which has
  256 entries. This is so in every state of the parser, at the beginning of a descriptor and behind every
  descriptor \<open>pre\<close> that is accepted by itself.\<close>

theorem hid_report_id_overflow:
  assumes "pre = [] \<or> hid_parse_items pre p = Some (Some d, live)"
    and "fetch_item bytes = Some (id_item, tail)" "\<not> i_long id_item" "i_type id_item = 1" "i_tag id_item = 8"
    and "256 \<le> unat (item_udata id_item)"
    and "fetch_item tail = Some (main_item, rest)" "\<not> i_long main_item" "i_type main_item = 0" "i_tag main_item \<in> {8, 9, 11}"
  shows "hid_parse_items (pre @ bytes) p = None"
proof -
  have n: "bytes \<noteq> []" "tail \<noteq> []" using assms(2,7) by (auto simp: fetch_item_def)
  have "hid_parse_items bytes q = None" for q
  proof -
    let ?q = "q\<lparr>p_global := (p_global q)\<lparr>g_report_id := item_udata id_item\<rparr>\<rparr>"
    have "dispatch_type id_item q = Some (0, ?q)" using assms(4-6) by (auto simp: dispatch_type_def hid_parser_global_def Let_def)
    then have "hid_parse_items bytes q = hid_parse_items tail ?q" using assms(2,3) n by (subst hid_parse_items.simps) simp
    moreover have "dispatch_type main_item ?q = None"
      using assms(6,9,10) by (auto simp: dispatch_type_def hid_parser_main_def hid_add_field_def hid_register_report_def Let_def)
    then have "hid_parse_items tail ?q = None" using assms(7,8) by (subst hid_parse_items.simps) simp
    ultimately show ?thesis by simp
  qed
  then show ?thesis using parse_items_append [of pre p d live bytes] assms(1) n(1) by (metis append_Nil)
qed

theorem hid_report_id_overflow_witness: "hid_parse_report (hid_demo @ [0x86, 0x00, 0x01, 0x81, 0x02]) [] = None"
proof -
  let ?p = "(new_parser (hid_demo @ [0x86, 0x00, 0x01, 0x81, 0x02]) [])\<lparr>p_live := 4\<rparr>"
  obtain d live where d: "hid_parse_items hid_demo ?p = Some (Some d, live)" by (simp add: hid_demo_def hid_eval)
  have "hid_parse_items (hid_demo @ [0x86, 0x00, 0x01, 0x81, 0x02]) ?p = None"
    by (rule hid_report_id_overflow [OF disjI2 [OF d],
          where id_item = "\<lparr>i_long = False, i_size = 2, i_type = 1, i_tag = 8, i_data = 256\<rparr>" and tail = "[0x81, 0x02]"
          and main_item = "\<lparr>i_long = False, i_size = 1, i_type = 0, i_tag = 8, i_data = 2\<rparr>" and rest = "[]"])
       (simp_all add: fetch_item_def item_udata_def Let_def)
  then show ?thesis by (simp add: hid_parse_report_def new_parser_def hid_alloc_def)
qed

text \<open>A descriptor with a delimiter is never accepted: the handler of a well-formed delimiter returns 1,
  which the parser takes for an error.\<close>

theorem hid_delimiter_rejected:
  assumes "hid_parse_report desc allocs = Some (Some d, live)" "it \<in> set (hid_items desc)"
  shows "\<not> (i_type it = 2 \<and> i_tag it = 10)"
  using assms delimiter_not_accepted [of desc] by (auto simp: hid_parse_report_def Let_def split: prod.splits if_splits)

theorem hid_delimiter_rejected_witness:
  "\<exists>d live it. hid_parse_report hid_demo [] = Some (Some d, live) \<and> it \<in> set (hid_items hid_demo) \<and> \<not> (i_type it = 2 \<and> i_tag it = 10)"
proof -
  obtain d live where d: "hid_parse_report hid_demo [] = Some (Some d, live)" by (simp add: hid_demo_def hid_eval)
  moreover obtain it where it: "it \<in> set (hid_items hid_demo)" by (simp add: hid_demo_def hid_items.simps fetch_item_def Let_def) blast
  ultimately show ?thesis using hid_delimiter_rejected [OF d it] by blast
qed

end
