(* ===== verification/Hid_Report.thy ===== *)
theory Hid_Report
  imports Hid_Bits Hid_Parser
begin

text \<open>
  HID reports, \<^verbatim>\<open>vmklinux26/linux/drivers/hid/hid-core.c\<close>: composing the output report of a device from the
  values of its fields, setting a value, and analysing an input report, on the reports and fields that the
  parser has built.

  An input report yields the list of the calls it makes of the input layer, of hiddev and of hidraw. The
  buffer of a report is a list of bytes as long as the memory behind the pointer; an access outside it
  or outside a table, and an undefined shift, are \<^term>\<open>None\<close>.
\<close>

section \<open>Output\<close>

fun hid_output_values :: "hid_field \<Rightarrow> nat \<Rightarrow> nat \<Rightarrow> u8 list \<Rightarrow> u8 list option" where
  "hid_output_values f n 0 data = Some data"
| "hid_output_values f n (Suc m) data =
     do { v \<leftarrow> buf_get (f_value f) (int n);
          w \<leftarrow> (if f_logical_minimum f < 0 then s32ton v (unat (f_report_size f)) else Some (word_of_int v));
          data1 \<leftarrow> implement_field data (f_report_offset f + of_nat n * f_report_size f) (unat (f_report_size f)) w;
          hid_output_values f (Suc n) m data1 }"

definition hid_output_field :: "hid_field \<Rightarrow> u8 list \<Rightarrow> u8 list option" where
  "hid_output_field f data =
     (let count = f_report_count f; size = f_report_size f; bitsused = f_report_offset f + count * size in
      do { data1 \<leftarrow>
             (if count > 0 \<and> size > 0 \<and> bitsused mod 8 \<noteq> 0
              then do { b \<leftarrow> buf_get data (int (unat ((bitsused - 1) div 8)));
                        buf_set data (int (unat ((bitsused - 1) div 8))) (b AND (push_bit (unat (bitsused mod 8)) 1 - 1)) }
              else Some data);
           hid_output_values f 0 (unat count) data1 })"

fun hid_output_fields :: "hid_field list \<Rightarrow> u8 list \<Rightarrow> u8 list option" where
  "hid_output_fields [] data = Some data"
| "hid_output_fields (f # fs) data = do { data1 \<leftarrow> hid_output_field f data; hid_output_fields fs data1 }"

definition hid_output_report :: "hid_report \<Rightarrow> u8 list \<Rightarrow> u8 list option" where
  "hid_output_report r data =
     (if r_id r > 0
      then case data of
          [] \<Rightarrow> None
        | _ # rest \<Rightarrow> map_option ((#) (of_nat (r_id r))) (hid_output_fields (r_fields r) rest)
      else hid_output_fields (r_fields r) data)"

definition hid_set_field :: "u32 \<Rightarrow> int \<Rightarrow> hid_field \<Rightarrow> (int \<times> hid_field) option" where
  "hid_set_field offset value f =
     (if f_report_count f \<le> offset then Some (- 1, f)
      else
        do { same \<leftarrow> (if f_logical_minimum f < 0
                     then do { w \<leftarrow> s32ton value (unat (f_report_size f)); v \<leftarrow> snto32 w (unat (f_report_size f)); Some (value = v) }
                     else Some True);
             if \<not> same then Some (- 1, f)
             else do { vs \<leftarrow> buf_set (f_value f) (int (unat offset)) value; Some (0, f\<lparr>f_value := vs\<rparr>) } })"

section \<open>Input\<close>

text \<open>Who has claimed the device: the input layer, hiddev, hidraw; whether hiddev has set its callbacks.\<close>

record hid_claims =
  claimed_input :: bool
  claimed_hiddev :: bool
  claimed_hidraw :: bool
  hiddev_hid_event :: bool
  hiddev_report_event :: bool

datatype hid_call = Hidinput_event u32 int | Hiddev_event u32 int | Hiddev_report nat | Hidraw_report "u8 list" | Hidinput_report nat

definition hid_process_event :: "hid_claims \<Rightarrow> bool \<Rightarrow> u32 \<times> nat \<Rightarrow> int \<Rightarrow> hid_call list" where
  "hid_process_event c interrupt usage value =
     (if claimed_input c then [Hidinput_event (fst usage) value] else []) @
     (if claimed_hiddev c \<and> interrupt \<and> hiddev_hid_event c then [Hiddev_event (fst usage) value] else [])"

abbreviation (input) HID_MAIN_ITEM_VARIABLE :: u32 where "HID_MAIN_ITEM_VARIABLE \<equiv> 2"
abbreviation (input) HID_UP_KEYBOARD :: u32 where "HID_UP_KEYBOARD \<equiv> 0x00070000"

definition field_range :: "hid_field \<Rightarrow> int \<Rightarrow> bool" where
  "field_range f v \<longleftrightarrow> f_logical_minimum f \<le> v \<and> v \<le> f_logical_maximum f"

definition input_value :: "hid_field \<Rightarrow> u8 list \<Rightarrow> nat \<Rightarrow> int option" where
  "input_value f data n =
     do { x \<leftarrow> extract_field data (f_report_offset f + of_nat n * f_report_size f) (unat (f_report_size f));
          if f_logical_minimum f < 0 then snto32 x (unat (f_report_size f)) else Some (sint x) }"

text \<open>The first loop: the new values, or none of them when the keyboard reports \<open>ErrorRollOver\<close>.\<close>

fun input_values :: "hid_field \<Rightarrow> u8 list \<Rightarrow> nat \<Rightarrow> nat \<Rightarrow> int list option option" where
  "input_values f data n 0 = Some (Some [])"
| "input_values f data n (Suc m) =
     do { v \<leftarrow> input_value f data n;
          u \<leftarrow> (if \<not> flag (f_flags f) HID_MAIN_ITEM_VARIABLE \<and> field_range f v
               then map_option (\<lambda>u. fst u = HID_UP_KEYBOARD + 1) (buf_get (f_usage f) (v - f_logical_minimum f))
               else Some False);
          if u then Some None
          else do { vs \<leftarrow> input_values f data (Suc n) m; Some (map_option ((#) v) vs) } }"

text \<open>A value of an array field that is in \<open>vs\<close> but not in \<open>ws\<close>, with the event it makes.\<close>

definition array_event :: "hid_claims \<Rightarrow> bool \<Rightarrow> hid_field \<Rightarrow> int \<Rightarrow> int list \<Rightarrow> int \<Rightarrow> hid_call list option" where
  "array_event c interrupt f v ws event =
     (if field_range f v
      then do { u \<leftarrow> buf_get (f_usage f) (v - f_logical_minimum f);
                if fst u \<noteq> 0
                then do { s \<leftarrow> search ws v (unat (f_report_count f));
                          Some (if s \<noteq> 0 then hid_process_event c interrupt u event else []) }
                else Some [] }
      else Some [])"

fun input_events :: "hid_claims \<Rightarrow> bool \<Rightarrow> hid_field \<Rightarrow> int list \<Rightarrow> nat \<Rightarrow> nat \<Rightarrow> hid_call list option" where
  "input_events c interrupt f vs n 0 = Some []"
| "input_events c interrupt f vs n (Suc m) =
     do { v \<leftarrow> buf_get vs (int n);
          es \<leftarrow>
            (if flag (f_flags f) HID_MAIN_ITEM_VARIABLE
             then do { u \<leftarrow> buf_get (f_usage f) (int n); Some (hid_process_event c interrupt u v) }
             else do { old \<leftarrow> buf_get (f_value f) (int n);
                       e0 \<leftarrow> array_event c interrupt f old vs 0;
                       e1 \<leftarrow> array_event c interrupt f v (f_value f) 1;
                       Some (e0 @ e1) });
          rest \<leftarrow> input_events c interrupt f vs (Suc n) m;
          Some (es @ rest) }"

definition hid_input_field :: "hid_claims \<Rightarrow> bool \<Rightarrow> bool \<Rightarrow> u8 list \<Rightarrow> hid_field \<Rightarrow> (hid_call list \<times> hid_field) option" where
  "hid_input_field c mem interrupt data f =
     (if \<not> mem then Some ([], f)
      else
        do { vs \<leftarrow> input_values f data 0 (unat (f_report_count f));
             case vs of None \<Rightarrow> Some ([], f)
             | Some vs \<Rightarrow>
                 do { es \<leftarrow> input_events c interrupt f vs 0 (unat (f_report_count f));
                      Some (es, f\<lparr>f_value := vs\<rparr>) } })"

fun hid_input_fields :: "hid_claims \<Rightarrow> bool \<Rightarrow> bool \<Rightarrow> u8 list \<Rightarrow> hid_field list \<Rightarrow> (hid_call list \<times> hid_field list) option" where
  "hid_input_fields c mem interrupt data [] = Some ([], [])"
| "hid_input_fields c mem interrupt data (f # fs) =
     do { (es, f1) \<leftarrow> hid_input_field c mem interrupt data f;
          (es1, fs1) \<leftarrow> hid_input_fields c mem interrupt data fs;
          Some (es @ es1, f1 # fs1) }"

text \<open>The dispatcher: \<open>data\<close> is the buffer, of which the device has filled \<open>size\<close> bytes. A report that is too
  short is padded with zeros in the buffer.\<close>

definition hid_rsize :: "hid_report \<Rightarrow> nat" where
  "hid_rsize r = unat (drop_bit 3 (r_size r - 1) + 1)"

definition hid_input_report ::
  "hid_claims \<Rightarrow> bool \<Rightarrow> bool \<Rightarrow> nat \<Rightarrow> u8 list \<Rightarrow> nat \<Rightarrow> hid_device \<Rightarrow> (int \<times> hid_call list \<times> hid_device) option" where
  "hid_input_report c mem interrupt t data0 size0 d =
     (if size0 = 0 then Some (- 1, [], d)
      else
        let e = d_enum d t in
        do { (n, data, size) \<leftarrow> (if e_numbered e then case data0 of [] \<Rightarrow> None | b # rest \<Rightarrow> Some (unat b, rest, size0 - 1)
                                else Some (0, data0, size0));
             case e_hash e n of
               None \<Rightarrow> Some (- 1, [], d)
             | Some r \<Rightarrow>
                 do { data1 \<leftarrow> (if size < hid_rsize r then blit data size (replicate (hid_rsize r - size) 0) else Some data);
                      (es, fs) \<leftarrow> hid_input_fields c mem interrupt data1 (r_fields r);
                      Some (0, (if claimed_hiddev c \<and> hiddev_report_event c then [Hiddev_report n] else []) @
                               (if claimed_hidraw c then [Hidraw_report (take size data1)] else []) @ es @
                               (if claimed_input c then [Hidinput_report n] else []),
                            d\<lparr>d_enum := (d_enum d)(t := e\<lparr>e_hash := (e_hash e)(n := Some (r\<lparr>r_fields := fs\<rparr>))\<rparr>)\<rparr>) } })"

section \<open>What is written is read back\<close>

text \<open>A value that a field can represent. A signed field of 32 bits has none: \<open>s32ton\<close> shifts by 32, which C does not
  define.\<close>

definition value_fits :: "hid_field \<Rightarrow> int \<Rightarrow> bool" where
  "value_fits f v \<longleftrightarrow>
     (let n = unat (f_report_size f) in
      if f_logical_minimum f < 0 then 1 \<le> n \<and> n \<le> 31 \<and> - (2 ^ (n - 1)) \<le> v \<and> v < 2 ^ (n - 1)
      else if n = 32 then - (2 ^ 31) \<le> v \<and> v < 2 ^ 31
      else n \<le> 31 \<and> 0 \<le> v \<and> v < 2 ^ n)"

definition field_enc :: "hid_field \<Rightarrow> int \<Rightarrow> u32 option" where
  "field_enc f v = (if f_logical_minimum f < 0 then s32ton v (unat (f_report_size f)) else Some (word_of_int v))"

definition field_dec :: "hid_field \<Rightarrow> u32 \<Rightarrow> int option" where
  "field_dec f x = (if f_logical_minimum f < 0 then snto32 x (unat (f_report_size f)) else Some (sint x))"

lemma sint_word_small:
  assumes "- (2 ^ 31) \<le> v" "v < 2 ^ 31"
  shows "sint (word_of_int v :: u32) = v"
  using assms by (simp add: signed_of_int signed_take_bit_int_eq_self)

lemma enc_dec:
  assumes "value_fits f v"
  shows "\<exists>w. field_enc f v = Some w \<and> field_dec f (take_bit (unat (f_report_size f)) w) = Some v"
proof (cases "f_logical_minimum f < 0")
  case True
  let ?n = "unat (f_report_size f)"
  have n: "1 \<le> ?n" "?n \<le> 31" and "clamp ?n v = v" using assms True by (auto simp: value_fits_def Let_def clamp_def)
  moreover have "take_bit ?n (word_of_int (take_bit ?n v)) = (word_of_int (take_bit ?n v) :: u32)"
    by (rule bit_eqI) (auto simp: bit_take_bit_iff bit_word_of_int_iff)
  ultimately show ?thesis using True s32ton_clamp [OF n, of v] snto32_s32ton [OF n, of v] by (simp add: field_enc_def field_dec_def)
next
  case False
  let ?n = "unat (f_report_size f)"
  consider "?n = 32" "- (2 ^ 31) \<le> v" "v < 2 ^ 31" | "?n \<le> 31" "0 \<le> v" "v < 2 ^ ?n"
    using assms False by (auto simp: value_fits_def Let_def split: if_splits)
  then have "sint (take_bit ?n (word_of_int v) :: u32) = v"
  proof cases
    case 1
    then show ?thesis using sint_word_small by (simp add: take_bit_word_eq_self)
  next
    case 2
    then have "v < 2 ^ 31" by (meson less_le_trans one_le_numeral power_increasing)
    moreover have "take_bit ?n (word_of_int v :: u32) = word_of_int v"
    proof -
      have "take_bit ?n (word_of_int v :: u32) = word_of_int (take_bit ?n v)"
        by (rule bit_eqI) (auto simp: bit_take_bit_iff bit_word_of_int_iff)
      then show ?thesis using 2 by (simp add: take_bit_int_eq_self)
    qed
    ultimately show ?thesis using 2 sint_word_small by (smt (verit) zero_le_power)
  qed
  then show ?thesis using False by (simp add: field_enc_def field_dec_def)
qed

lemma value_pos:
  assumes "unat (f_report_offset f) + field_bits f < 2 ^ 32" "j < unat (f_report_count f)"
  shows "unat (f_report_offset f + of_nat j * f_report_size f) = unat (f_report_offset f) + j * unat (f_report_size f)"
    "unat (f_report_offset f) + j * unat (f_report_size f) + unat (f_report_size f) \<le> unat (f_report_offset f) + field_bits f"
proof -
  have "Suc j * unat (f_report_size f) \<le> unat (f_report_count f) * unat (f_report_size f)" using assms(2) by (intro mult_le_mono1) simp
  then show b: "unat (f_report_offset f) + j * unat (f_report_size f) + unat (f_report_size f) \<le> unat (f_report_offset f) + field_bits f"
    by (simp add: field_bits_def mult.commute)
  have "unat (f_report_count f) < 2 ^ 32" using unsigned_less [of "f_report_count f"] by simp
  then have j: "unat (of_nat j :: u32) = j" using assms(2) by (simp add: unsigned_of_nat take_bit_nat_eq_self)
  have "j * unat (f_report_size f) < 2 ^ 32" using b assms(1) by linarith
  then have "unat (of_nat j * f_report_size f) = j * unat (f_report_size f)" using j by (simp add: unat_mult_lem [THEN iffD1])
  then show "unat (f_report_offset f + of_nat j * f_report_size f) = unat (f_report_offset f) + j * unat (f_report_size f)"
    using b assms(1) by (subst unat_add_lem [THEN iffD1]) simp_all
qed

text \<open>The premises under which a field lies in a buffer.\<close>

definition field_in :: "hid_field \<Rightarrow> u8 list \<Rightarrow> bool" where
  "field_in f data \<longleftrightarrow> unat (f_report_size f) \<le> 32 \<and> unat (f_report_offset f) + field_bits f < 2 ^ 32 \<and>
     (unat (f_report_offset f) + field_bits f) div 8 + 8 \<le> length data \<and> length (f_value f) = unat (f_report_count f)"

lemma value_in:
  assumes "field_in f data" "j < unat (f_report_count f)"
  shows "unat (f_report_offset f + of_nat j * f_report_size f) div 8 + 8 \<le> length data"
proof -
  have a: "unat (f_report_offset f) + field_bits f < 2 ^ 32" "(unat (f_report_offset f) + field_bits f) div 8 + 8 \<le> length data"
    using assms(1) by (simp_all add: field_in_def)
  note p = value_pos [OF a(1) assms(2)]
  have "(unat (f_report_offset f) + j * unat (f_report_size f)) div 8 \<le> (unat (f_report_offset f) + field_bits f) div 8"
    using p(2) by (intro div_le_mono) linarith
  then show ?thesis using a(2) unfolding p(1) by linarith
qed

lemma input_value_cong:
  assumes "field_in f data" "length data' = length data" "j < unat (f_report_count f)"
    "\<And>k. unat (f_report_offset f) + j * unat (f_report_size f) \<le> k \<Longrightarrow>
       k < unat (f_report_offset f) + Suc j * unat (f_report_size f) \<Longrightarrow> stream_bit data' k = stream_bit data k"
  shows "input_value f data' j = input_value f data j"
proof -
  have "unat (f_report_offset f) + field_bits f < 2 ^ 32" "unat (f_report_size f) \<le> 32" using assms(1) by (simp_all add: field_in_def)
  then have "extract_field data' (f_report_offset f + of_nat j * f_report_size f) (unat (f_report_size f)) =
      extract_field data (f_report_offset f + of_nat j * f_report_size f) (unat (f_report_size f))"
    using value_in [OF assms(1,3)] assms(2,4) value_pos(1) [of f j] assms(3) by (intro extract_cong) (simp_all add: algebra_simps)
  then show ?thesis by (simp add: input_value_def)
qed

lemma output_values_ok:
  assumes "field_in f data" "n + m = unat (f_report_count f)" "\<forall>v \<in> set (f_value f). value_fits f v"
  shows "\<exists>data'. hid_output_values f n m data = Some data' \<and> length data' = length data \<and>
    (\<forall>k < 8 * length data. k < unat (f_report_offset f) + n * unat (f_report_size f) \<or> unat (f_report_offset f) + field_bits f \<le> k \<longrightarrow>
       stream_bit data' k = stream_bit data k) \<and>
    (\<forall>j. n \<le> j \<and> j < unat (f_report_count f) \<longrightarrow> input_value f data' j = Some (f_value f ! j))"
  using assms(1,2)
proof (induction m arbitrary: n data)
  case (Suc m)
  let ?o = "unat (f_report_offset f)" and ?z = "unat (f_report_size f)" and ?c = "unat (f_report_count f)"
  let ?off = "f_report_offset f + of_nat n * f_report_size f"
  have n: "n < ?c" and z: "?z \<le> 32" "?o + field_bits f < 2 ^ 32" using Suc.prems by (simp_all add: field_in_def)
  note pos = value_pos [OF z(2) n]
  have "n < length (f_value f)" using Suc.prems n by (simp add: field_in_def)
  then have v: "buf_get (f_value f) (int n) = Some (f_value f ! n)" "f_value f ! n \<in> set (f_value f)" by (simp_all add: buf_get_def)
  obtain w where w: "field_enc f (f_value f ! n) = Some w" "field_dec f (take_bit ?z w) = Some (f_value f ! n)"
    using enc_dec assms(3) v(2) by blast
  obtain d1 where d1: "implement_field data ?off ?z w = Some d1" "length d1 = length data" "extract_field d1 ?off ?z = Some (take_bit ?z w)"
      "\<forall>k < 8 * length data. k < unat ?off \<or> unat ?off + ?z \<le> k \<longrightarrow> stream_bit d1 k = stream_bit data k"
    using implement_roundtrip [OF z(1) value_in [OF Suc.prems(1) n]] by blast
  have f1: "field_in f d1" using Suc.prems(1) d1(2) by (simp add: field_in_def)
  obtain d2 where d2: "hid_output_values f (Suc n) m d1 = Some d2" "length d2 = length d1"
      "\<forall>k < 8 * length d1. k < ?o + Suc n * ?z \<or> ?o + field_bits f \<le> k \<longrightarrow> stream_bit d2 k = stream_bit d1 k"
      "\<forall>j. Suc n \<le> j \<and> j < ?c \<longrightarrow> input_value f d2 j = Some (f_value f ! j)"
    using Suc.IH [OF f1, of "Suc n"] Suc.prems(2) by auto
  have "input_value f d1 n = Some (f_value f ! n)" using d1(3) w(2) by (simp add: input_value_def field_dec_def)
  moreover have "input_value f d2 n = input_value f d1 n"
  proof (rule input_value_cong [OF f1 d2(2) n])
    fix k assume "?o + n * ?z \<le> k" "k < ?o + Suc n * ?z"
    moreover have "8 * ((?o + field_bits f) div 8 + 8) \<le> 8 * length d1" using f1 by (simp add: field_in_def)
    ultimately have "k < 8 * length d1" using pos(2) by simp
    then show "stream_bit d2 k = stream_bit d1 k" using d2(3) \<open>k < ?o + Suc n * ?z\<close> by blast
  qed
  ultimately have "\<forall>j. n \<le> j \<and> j < ?c \<longrightarrow> input_value f d2 j = Some (f_value f ! j)"
    using d2(4) by (metis Suc_leI le_neq_implies_less)
  moreover have "stream_bit d2 k = stream_bit data k" if "k < 8 * length data" "k < ?o + n * ?z \<or> ?o + field_bits f \<le> k" for k
    using that d1(2,4) d2(3) pos by auto
  ultimately show ?case using v(1) w(1) d1(1,2) d2(1,2) by (auto simp: field_enc_def)
qed auto

lemma mask_byte:
  assumes "B mod 8 \<noteq> 0" "k < B" "(B - 1) div 8 < length data"
  shows "stream_bit (data[(B - 1) div 8 := data ! ((B - 1) div 8) AND mask (B mod 8)]) k = stream_bit data k"
proof -
  have "B mod 8 < 8" by simp
  then have "8 * (B div 8) \<le> B - 1" "B - 1 < 8 * Suc (B div 8)"
    using assms(1) mult_div_mod_eq [of 8 B] unfolding mult_Suc_right by linarith+
  then have "(B - 1) div 8 = B div 8" by (rule div_nat_eqI)
  then have B: "B = 8 * ((B - 1) div 8) + B mod 8" by simp
  show ?thesis
  proof (cases "k div 8 = (B - 1) div 8")
    case True
    then have "k mod 8 < B mod 8" using assms(2) B mult_div_mod_eq [of 8 k] by linarith
    then show ?thesis using True assms(3) by (simp add: stream_bit_def bit_and_iff bit_mask_iff)
  qed (simp add: stream_bit_def)
qed

lemma output_field_ok:
  assumes f: "field_in f data" and v: "\<forall>v \<in> set (f_value f). value_fits f v"
  shows "\<exists>data'. hid_output_field f data = Some data' \<and> length data' = length data \<and>
    (\<forall>k < unat (f_report_offset f). stream_bit data' k = stream_bit data k) \<and>
    (\<forall>j < unat (f_report_count f). input_value f data' j = Some (f_value f ! j))"
proof -
  let ?o = "unat (f_report_offset f)"
  define B where "B = f_report_offset f + f_report_count f * f_report_size f"
  have "unat (f_report_count f * f_report_size f) = field_bits f"
    using f by (simp add: field_in_def field_bits_def unat_mult_lem [THEN iffD1] mult.commute)
  then have b: "unat B = ?o + field_bits f" unfolding B_def using f by (simp add: field_in_def unat_add_lem [THEN iffD1])
  define c where "c \<longleftrightarrow> f_report_count f > 0 \<and> f_report_size f > 0 \<and> B mod 8 \<noteq> 0"
  define data1 where "data1 = (if c then data[(unat B - 1) div 8 := data ! ((unat B - 1) div 8) AND mask (unat B mod 8)] else data)"
  have m: "unat (B mod 8) = unat B mod 8" by (simp add: unat_mod)
  have i: "unat ((B - 1) div 8) = (unat B - 1) div 8" "unat B mod 8 \<noteq> 0" "(unat B - 1) div 8 < length data" if c
  proof -
    have "unat (B mod 8) \<noteq> 0" using that by (simp add: c_def unat_eq_zero)
    then show r: "unat B mod 8 \<noteq> 0" by (simp add: m)
    then have "B \<noteq> 0" by auto
    then show "unat ((B - 1) div 8) = (unat B - 1) div 8" by (simp add: unat_div unat_minus_one)
    have "(unat B - 1) div 8 \<le> unat B div 8" by (intro div_le_mono) simp
    then show "(unat B - 1) div 8 < length data" using f b by (simp add: field_in_def)
  qed
  have len: "length data1 = length data" by (simp add: data1_def)
  have "hid_output_field f data = hid_output_values f 0 (unat (f_report_count f)) data1"
    using i m by (auto simp: hid_output_field_def Let_def B_def [symmetric] c_def [symmetric] data1_def buf_get_def buf_set_def mask_word simp del: unat_mod)
  moreover have "stream_bit data1 k = stream_bit data k" if "k < ?o" for k
    using mask_byte [of "unat B" k data] i that b by (auto simp: data1_def)
  moreover have "field_in f data1" using f len by (simp add: field_in_def)
  moreover from f have "8 * ((?o + field_bits f) div 8 + 8) \<le> 8 * length data" by (simp add: field_in_def)
  ultimately show ?thesis using output_values_ok [of f data1 0 "unat (f_report_count f)"] v len by fastforce
qed

lemma output_fields_ok:
  assumes "layout k fs n" "n div 8 + 8 \<le> length data" "n < 2 ^ 32"
    and "\<forall>f \<in> set fs. field_ok mc f \<and> (\<forall>v \<in> set (f_value f). value_fits f v)"
  shows "\<exists>data'. hid_output_fields fs data = Some data' \<and> length data' = length data \<and>
    (\<forall>i < k. stream_bit data' i = stream_bit data i) \<and>
    (\<forall>f \<in> set fs. \<forall>j < unat (f_report_count f). input_value f data' j = Some (f_value f ! j))"
  using assms
proof (induction fs arbitrary: k data)
  case (Cons f fs)
  let ?e = "unat (f_report_offset f) + field_bits f"
  have e: "?e \<le> n" using Cons.prems(1) by (induction fs arbitrary: k f) fastforce+
  have f: "field_in f data"
    using Cons.prems e div_le_mono [OF e, of 8] by (auto simp: field_in_def field_ok_def)
  obtain d1 where d1: "hid_output_field f data = Some d1" "length d1 = length data"
      "\<forall>i < unat (f_report_offset f). stream_bit d1 i = stream_bit data i"
      "\<forall>j < unat (f_report_count f). input_value f d1 j = Some (f_value f ! j)"
    using output_field_ok [OF f] Cons.prems(4) by auto
  obtain d2 where d2: "hid_output_fields fs d1 = Some d2" "length d2 = length d1" "\<forall>i < ?e. stream_bit d2 i = stream_bit d1 i"
      "\<forall>f \<in> set fs. \<forall>j < unat (f_report_count f). input_value f d2 j = Some (f_value f ! j)"
    using Cons.IH [of ?e d1] Cons.prems d1(2) by auto
  have "input_value f d2 j = input_value f d1 j" if "j < unat (f_report_count f)" for j
  proof (rule input_value_cong [OF _ d2(2) that])
    show f1: "field_in f d1" using f d1(2) by (simp add: field_in_def)
    fix i assume "i < unat (f_report_offset f) + Suc j * unat (f_report_size f)"
    moreover have "\<dots> \<le> ?e" using value_pos(2) [OF _ that] f by (simp add: field_in_def algebra_simps)
    ultimately show "stream_bit d2 i = stream_bit d1 i" using d2(3) by auto
  qed
  then show ?case using Cons.prems(1) d1 d2 by auto
qed simp

lemma upd_value_simps [simp]:
  "field_bits (f\<lparr>f_value := x\<rparr>) = field_bits f" "value_fits (f\<lparr>f_value := x\<rparr>) = value_fits f"
  "input_value (f\<lparr>f_value := x\<rparr>) = input_value f"
  by (simp_all add: field_bits_def value_fits_def input_value_def fun_eq_iff cong: if_cong)

lemma layout_upd_value: "layout k (map (\<lambda>f. f\<lparr>f_value := vs f\<rparr>) fs) n = layout k fs n"
  by (induction fs arbitrary: k) auto

lemma parsed_report:
  assumes "length desc \<le> 4096" "ids_ok (hid_items desc)" "hid_parse_report desc allocs = Some (Some d, live)" "e_hash (d_enum d t) i = Some r"
  shows "report_ok (d_maxcollection d) t i r" "unat (r_size r) < 2 ^ 32" "t < HID_REPORT_TYPES" "i < 256"
proof -
  have d: "device_ok d" "size_ok 4096 d" using parse_report_done [OF assms(1,2), of allocs] assms(3) by (auto simp: parse_done_def)
  then show "report_ok (d_maxcollection d) t i r" "t < HID_REPORT_TYPES" "i < 256" using assms(4) by (auto simp: device_ok_def)
  have "unat (r_size r) \<le> 2 ^ 30" using d(2) assms(4) by (fastforce simp: size_ok_def)
  then show "unat (r_size r) < 2 ^ 32" by simp
qed

text \<open>\<open>hid_set_field\<close> stores a signed value exactly when the field can represent it.\<close>

lemma set_field_fits:
  assumes "field_ok mc f" "f_logical_minimum f < 0" "1 \<le> unat (f_report_size f)" "unat (f_report_size f) \<le> 31" "offset < f_report_count f"
  shows "hid_set_field offset v f =
    (if value_fits f v then Some (0, f\<lparr>f_value := (f_value f)[unat offset := v]\<rparr>) else Some (- 1, f))"
proof -
  let ?n = "unat (f_report_size f)"
  have "(0 :: int) < 2 ^ (?n - 1)" by simp
  then have "v = clamp ?n v \<longleftrightarrow> value_fits f v" using assms(2-4) unfolding value_fits_def Let_def clamp_def max_def min_def by (auto split: if_splits)
  moreover have "unat offset < length (f_value f)" using assms(1,5) by (simp add: field_ok_def word_less_nat_alt)
  moreover from this have "buf_set (f_value f) (int (unat offset)) v = Some ((f_value f)[unat offset := v])" by (simp add: buf_set_def del: of_nat_unat)
  moreover have "\<not> f_report_count f \<le> offset" using assms(5) by simp
  ultimately show ?thesis using s32ton_clamp [OF assms(3,4), of v] snto32_s32ton [OF assms(3,4), of v] assms(2)
    by (simp add: hid_set_field_def)
qed

section \<open>Input is safe\<close>

text \<open>An array field whose logical range is no larger than its usage table; a signed value has a bit.\<close>

definition input_ok :: "hid_field \<Rightarrow> bool" where
  "input_ok f \<longleftrightarrow> (flag (f_flags f) HID_MAIN_ITEM_VARIABLE \<or> f_logical_maximum f - f_logical_minimum f < int (length (f_usage f))) \<and>
     (f_logical_minimum f < 0 \<longrightarrow> 0 < f_report_size f)"

lemma snto32_Some: "0 < n \<Longrightarrow> n \<le> 32 \<Longrightarrow> snto32 w n \<noteq> None"
  by (simp add: snto32_def)

lemma input_value_Some:
  assumes "field_in f data" "input_ok f" "j < unat (f_report_count f)"
  shows "input_value f data j \<noteq> None"
proof -
  have z: "unat (f_report_size f) \<le> 32" using assms(1) by (simp add: field_in_def)
  obtain x where "extract_field data (f_report_offset f + of_nat j * f_report_size f) (unat (f_report_size f)) = Some x"
    using extract_Some [OF z value_in [OF assms(1,3)]] by blast
  moreover have "f_logical_minimum f < 0 \<Longrightarrow> 0 < unat (f_report_size f)" using assms(2) by (auto simp: input_ok_def word_less_nat_alt)
  ultimately show ?thesis using snto32_Some [OF _ z] by (auto simp: input_value_def)
qed

lemma usage_in:
  assumes "input_ok f" "\<not> flag (f_flags f) HID_MAIN_ITEM_VARIABLE" "field_range f v"
  shows "\<exists>u. buf_get (f_usage f) (v - f_logical_minimum f) = Some u"
  using assms by (auto simp: input_ok_def field_range_def buf_get_def)

lemma input_values_Some:
  assumes "field_in f data" "input_ok f" "n + m = unat (f_report_count f)"
  shows "\<exists>vs. input_values f data n m = Some vs \<and> (\<forall>ws. vs = Some ws \<longrightarrow> length ws = m)"
  using assms(3)
proof (induction m arbitrary: n)
  case (Suc m)
  obtain v where v: "input_value f data n = Some v" using input_value_Some [OF assms(1,2), of n] Suc.prems by auto
  obtain vs where vs: "input_values f data (Suc n) m = Some vs" "\<forall>ws. vs = Some ws \<longrightarrow> length ws = m"
    using Suc.IH [of "Suc n"] Suc.prems by auto
  show ?case using v vs usage_in [OF assms(2), of v] by auto
qed simp

lemma array_event_Some:
  assumes "input_ok f" "\<not> flag (f_flags f) HID_MAIN_ITEM_VARIABLE" "length ws = unat (f_report_count f)"
  shows "array_event c i f v ws e \<noteq> None"
  using usage_in [OF assms(1,2), of v] search_length [of ws v] assms(3) by (auto simp: array_event_def)

lemma input_events_Some:
  assumes "input_ok f" "field_ok mc f" "length vs = unat (f_report_count f)" "n + m = unat (f_report_count f)"
  shows "input_events c i f vs n m \<noteq> None"
  using assms(4)
proof (induction m arbitrary: n)
  case (Suc m)
  have n: "n < length vs" "n < length (f_value f)" "n < length (f_usage f)" using Suc.prems assms(2,3) by (auto simp: field_ok_def)
  have a: "array_event c i f v ws e \<noteq> None" if "\<not> flag (f_flags f) HID_MAIN_ITEM_VARIABLE" "ws = vs \<or> ws = f_value f" for v ws e
    using array_event_Some [OF assms(1) that(1)] that(2) assms(2,3) by (auto simp: field_ok_def)
  obtain rest where "input_events c i f vs (Suc n) m = Some rest" using Suc.IH [of "Suc n"] Suc.prems by auto
  then show ?case using n a [of vs "f_value f ! n" 0] a [of "f_value f" "vs ! n" 1] by (auto simp: buf_get_def)
qed simp

lemma input_field_Some:
  assumes "field_in f data" "input_ok f" "field_ok mc f"
  shows "\<exists>es vs. hid_input_field c mem i data f = Some (es, f\<lparr>f_value := vs\<rparr>) \<and> length vs = unat (f_report_count f)"
proof -
  let ?n = "unat (f_report_count f)"
  have l: "length (f_value f) = ?n" "f = f\<lparr>f_value := f_value f\<rparr>" using assms(3) by (simp_all add: field_ok_def)
  obtain vs where vs: "input_values f data 0 ?n = Some vs" "\<forall>ws. vs = Some ws \<longrightarrow> length ws = ?n"
    using input_values_Some [OF assms(1,2), of 0 ?n] by auto
  show ?thesis
  proof (cases "mem \<and> vs \<noteq> None")
    case True
    then obtain ws where ws: "vs = Some ws" "length ws = ?n" using vs(2) by auto
    then obtain es where "input_events c i f ws 0 ?n = Some es" using input_events_Some [OF assms(2,3), of ws 0 ?n c i] by auto
    then show ?thesis using True vs(1) ws by (simp add: hid_input_field_def) blast
  next
    case False
    then have "hid_input_field c mem i data f = Some ([], f)" using vs(1) by (auto simp: hid_input_field_def)
    then show ?thesis using l by metis
  qed
qed

lemma input_fields_Some:
  assumes "\<forall>f \<in> set fs. field_in f data \<and> input_ok f \<and> field_ok mc f"
  shows "\<exists>es vs. hid_input_fields c mem i data fs = Some (es, map2 (\<lambda>f v. f\<lparr>f_value := v\<rparr>) fs vs) \<and>
    list_all2 (\<lambda>f v. length v = unat (f_report_count f)) fs vs"
  using assms
proof (induction fs)
  case (Cons f fs)
  then obtain es vs where 1: "hid_input_fields c mem i data fs = Some (es, map2 (\<lambda>f v. f\<lparr>f_value := v\<rparr>) fs vs)"
      "list_all2 (\<lambda>f v. length v = unat (f_report_count f)) fs vs" by auto
  obtain e v where 2: "hid_input_field c mem i data f = Some (e, f\<lparr>f_value := v\<rparr>)" "length v = unat (f_report_count f)"
    using input_field_Some Cons.prems by (metis list.set_intros(1))
  show ?case by (rule exI [of _ "e @ es"], rule exI [of _ "v # vs"]) (use 1 2 in simp)
qed simp

lemma layout_end: "layout k fs n \<Longrightarrow> f \<in> set fs \<Longrightarrow> unat (f_report_offset f) + field_bits f \<le> n"
proof (induction fs arbitrary: k)
  case (Cons g fs)
  have e: "layout m fs n \<Longrightarrow> m \<le> n" for m by (induction fs arbitrary: m) fastforce+
  show ?case using Cons e by auto
qed simp

lemma report_field_in:
  assumes "report_ok mc t i r" "f \<in> set (r_fields r)" "unat (r_size r) < 2 ^ 32" "unat (r_size r) div 8 + 8 \<le> length data"
  shows "field_in f data"
proof -
  have e: "unat (f_report_offset f) + field_bits f \<le> unat (r_size r)" using assms(1,2) layout_end by (auto simp: report_ok_def)
  show ?thesis using assms e div_le_mono [OF e, of 8] by (auto simp: field_in_def report_ok_def field_ok_def)
qed

lemma layout_map2: "list_all2 P fs vs \<Longrightarrow> layout k (map2 (\<lambda>f v. f\<lparr>f_value := v\<rparr>) fs vs) n = layout k fs n"
  by (induction fs vs arbitrary: k rule: list_all2_induct) auto

lemma report_ok_map2:
  assumes "report_ok mc t i r" "list_all2 (\<lambda>f v. length v = unat (f_report_count f)) (r_fields r) vs"
  shows "report_ok mc t i (r\<lparr>r_fields := map2 (\<lambda>f v. f\<lparr>f_value := v\<rparr>) (r_fields r) vs\<rparr>)"
proof -
  have "field_ok mc f' \<and> f_report_type f' = t" if m: "f' \<in> set (map2 (\<lambda>f v. f\<lparr>f_value := v\<rparr>) (r_fields r) vs)" for f'
  proof -
    obtain j where "j < length (map2 (\<lambda>f v. f\<lparr>f_value := v\<rparr>) (r_fields r) vs)" "f' = map2 (\<lambda>f v. f\<lparr>f_value := v\<rparr>) (r_fields r) vs ! j"
      using m by (auto simp only: in_set_conv_nth)
    then have j: "j < length (r_fields r)" "f' = (r_fields r ! j)\<lparr>f_value := vs ! j\<rparr>" "length (vs ! j) = unat (f_report_count (r_fields r ! j))"
      using assms(2) by (simp_all add: list_all2_conv_all_nth)
    moreover have "field_ok mc (r_fields r ! j) \<and> f_report_type (r_fields r ! j) = t" using assms(1) j(1) by (auto simp: report_ok_def)
    ultimately show ?thesis by (auto simp: field_ok_def)
  qed
  moreover have "length (map2 (\<lambda>f v. f\<lparr>f_value := v\<rparr>) (r_fields r) vs) \<le> HID_MAX_FIELDS" using assms(1) by (auto simp: report_ok_def)
  ultimately show ?thesis using assms layout_map2 by (auto simp: report_ok_def)
qed

lemma rsize_bound:
  assumes "r_size r \<noteq> 0"
  shows "hid_rsize r \<le> unat (r_size r) div 8 + 1"
proof -
  have "unat (drop_bit 3 (r_size r - 1)) = (unat (r_size r) - 1) div 8" using assms by (simp add: unat_shift3 unat_minus_one)
  moreover have "(unat (r_size r) - 1) div 8 \<le> unat (r_size r) div 8" by (intro div_le_mono) simp
  moreover have "unat (drop_bit 3 (r_size r - 1) + 1) \<le> unat (drop_bit 3 (r_size r - 1)) + 1" by (metis unat_plus_if' le_refl diff_le_self unat_1 unsigned_1)
  ultimately show ?thesis by (simp add: hid_rsize_def)
qed

lemma input_report_ok:
  assumes d: "device_ok d" and h: "\<And>i r. e_hash (d_enum d t) i = Some r \<Longrightarrow> unat (r_size r) < 2 ^ 32 \<and> r_size r \<noteq> 0 \<and>
      (\<forall>f \<in> set (r_fields r). input_ok f) \<and> unat (r_size r) div 8 + 8 + (if e_numbered (d_enum d t) then 1 else 0) \<le> length data"
    and s: "0 < used" "used \<le> length data"
  shows "\<exists>ret es d'. hid_input_report c mem i t data used d = Some (ret, es, d') \<and> device_ok d'"
proof -
  let ?e = "d_enum d t"
  obtain n body sz where b: "(if e_numbered ?e then case data of [] \<Rightarrow> None | b # rest \<Rightarrow> Some (unat b, rest, used - 1) else Some (0, data, used)) = Some (n, body, sz)"
      "length data = length body + (if e_numbered ?e then 1 else 0)" "sz \<le> length body"
    using s by (cases "e_numbered ?e"; cases data; fastforce)
  show ?thesis
  proof (cases "e_hash ?e n")
    case None
    then show ?thesis using b(1) s d by (simp add: hid_input_report_def Let_def)
  next
    case (Some r)
    note r = h [OF Some]
    have rok: "report_ok (d_maxcollection d) t n r" "t < HID_REPORT_TYPES" "n < 256" using d Some by (auto simp: device_ok_def)
    have len: "unat (r_size r) div 8 + 8 \<le> length body" using r b(2) by auto
    then have "hid_rsize r \<le> length body" using rsize_bound [of r] r by simp
    then have "\<exists>data1. (if sz < hid_rsize r then blit body sz (replicate (hid_rsize r - sz) 0) else Some body) = Some data1 \<and> length data1 = length body"
      by (simp add: blit_def)
    then obtain data1 where d1: "(if sz < hid_rsize r then blit body sz (replicate (hid_rsize r - sz) 0) else Some body) = Some data1" "length data1 = length body"
      by blast
    have "\<forall>f \<in> set (r_fields r). field_in f data1 \<and> input_ok f \<and> field_ok (d_maxcollection d) f"
      using report_field_in [OF rok(1)] r len d1(2) rok(1) by (auto simp: report_ok_def)
    then obtain es vs where f: "hid_input_fields c mem i data1 (r_fields r) = Some (es, map2 (\<lambda>f v. f\<lparr>f_value := v\<rparr>) (r_fields r) vs)"
        "list_all2 (\<lambda>f v. length v = unat (f_report_count f)) (r_fields r) vs"
      using input_fields_Some [of "r_fields r" data1 "d_maxcollection d" c mem i] by blast
    define r1 where "r1 = r\<lparr>r_fields := map2 (\<lambda>f v. f\<lparr>f_value := v\<rparr>) (r_fields r) vs\<rparr>"
    have "report_ok (d_maxcollection d) t n r1" unfolding r1_def by (rule report_ok_map2 [OF rok(1) f(2)])
    then have "device_ok (d\<lparr>d_enum := (d_enum d)(t := ?e\<lparr>e_hash := (e_hash ?e)(n := Some r1)\<rparr>)\<rparr>)"
      using d rok(2,3) by (auto simp: device_ok_def)
    then show ?thesis using b(1) s Some d1(1) f(1) by (simp add: hid_input_report_def Let_def r1_def)
  qed
qed

section \<open>Properties\<close>

text \<open>C10: What a device parsed from a descriptor sends out is what its fields hold. For a descriptor of at most 4096 bytes
  with report identifiers below 256, for every report of the device and all values that fit its fields (signed fields
  being at most 31 bits wide), \<open>hid_output_report\<close> on a buffer with eight bytes behind the
  report, which \<open>implement\<close> needs, returns, puts the identifier first when there is one, and the values that \<open>hid_input_field\<close>
  reads from the bytes are, for all fields at once, the values written.\<close>

theorem hid_output_report_roundtrip:
  assumes "length desc \<le> 4096"
    and "\<forall>it \<in> set (hid_items desc). i_type it = 1 \<and> i_tag it = 8 \<longrightarrow> unat (item_udata it) < 256"
    and "hid_parse_report desc allocs = Some (Some d, live)" "e_hash (d_enum d t) i = Some r"
    and "\<forall>f \<in> set (r_fields r). length (vs f) = unat (f_report_count f) \<and> (\<forall>v \<in> set (vs f). value_fits f v)"
    and "unat (r_size r) div 8 + 8 + (if i > 0 then 1 else 0) \<le> length data"
  shows "\<exists>out. hid_output_report (r\<lparr>r_fields := map (\<lambda>f. f\<lparr>f_value := vs f\<rparr>) (r_fields r)\<rparr>) data = Some out \<and>
    length out = length data \<and> (i > 0 \<longrightarrow> hd out = of_nat i) \<and>
    (\<forall>f \<in> set (r_fields r). \<forall>j < unat (f_report_count f). input_value f (if i > 0 then tl out else out) j = Some (vs f ! j))"
proof -
  have r: "report_ok (d_maxcollection d) t i r" "unat (r_size r) < 2 ^ 32"
    using parsed_report [OF assms(1) _ assms(3,4)] assms(2) by (simp_all add: ids_ok_def)
  let ?fs = "map (\<lambda>f. f\<lparr>f_value := vs f\<rparr>) (r_fields r)"
  have l: "layout 0 ?fs (unat (r_size r))" using r(1) by (simp add: layout_upd_value report_ok_def)
  have f: "\<forall>f \<in> set ?fs. field_ok (d_maxcollection d) f \<and> (\<forall>v \<in> set (f_value f). value_fits f v)"
    using r(1) assms(5) by (auto simp: report_ok_def field_ok_def)
  define body where "body = (if i > 0 then tl data else data)"
  have b: "unat (r_size r) div 8 + 8 \<le> length body" using assms(6) by (auto simp: body_def)
  obtain out where out: "hid_output_fields ?fs body = Some out" "length out = length body"
      "\<forall>f \<in> set ?fs. \<forall>j < unat (f_report_count f). input_value f out j = Some (f_value f ! j)"
    using output_fields_ok [OF l b r(2) f] by blast
  have v: "\<forall>f \<in> set (r_fields r). \<forall>j < unat (f_report_count f). input_value f out j = Some (vs f ! j)" using out(3) by simp
  have rid: "r_id r = i" using r(1) by (simp add: report_ok_def)
  show ?thesis
  proof (cases "i > 0")
    case True
    then obtain x where "data = x # body" using assms(6) by (cases data) (auto simp: body_def)
    then show ?thesis using True rid v out(1,2) by (simp add: hid_output_report_def)
  next
    case False
    then show ?thesis using rid v out(1,2) by (simp add: hid_output_report_def body_def)
  qed
qed

text \<open>A parsed device with one input report of one field.\<close>

definition one_field :: "u8 list \<Rightarrow> hid_device \<Rightarrow> hid_report \<Rightarrow> hid_field \<Rightarrow> bool" where
  "one_field desc d r f \<longleftrightarrow> (\<exists>live. hid_parse_report desc [] = Some (Some d, live)) \<and> e_hash (d_enum d 0) 0 = Some r \<and>
     (\<forall>i > 0. e_hash (d_enum d 0) i = None) \<and> \<not> e_numbered (d_enum d 0) \<and> r_fields r = [f]"

lemma hid_demo_parse:
  "\<exists>d r f. one_field hid_demo d r f \<and> r_size r = 8 \<and> f_report_count f = 1 \<and> f_report_size f = 8 \<and> f_logical_minimum f = - 127 \<and> flag (f_flags f) HID_MAIN_ITEM_VARIABLE"
  by (simp add: hid_demo_def hid_eval one_field_def flag_def)

theorem hid_output_report_roundtrip_witness:
  "\<exists>d r f out. one_field hid_demo d r f \<and>
     hid_output_report (r\<lparr>r_fields := [f\<lparr>f_value := [- 5]\<rparr>]\<rparr>) (replicate 9 0) = Some out \<and> input_value f out 0 = Some (- 5)"
proof -
  obtain d r f where d: "one_field hid_demo d r f" "r_size r = 8" "f_report_count f = 1" "f_report_size f = 8" "f_logical_minimum f = - 127"
    using hid_demo_parse by blast
  then obtain live where p: "hid_parse_report hid_demo [] = Some (Some d, live)" "e_hash (d_enum d 0) 0 = Some r" by (auto simp: one_field_def)
  have "\<forall>g \<in> set (r_fields r). length [- 5 :: int] = unat (f_report_count g) \<and> (\<forall>v \<in> set [- 5]. value_fits g v)"
    using d by (simp add: one_field_def value_fits_def)
  from hid_output_report_roundtrip [OF _ hid_demo_ids p this, of "replicate 9 0"] d show ?thesis by (auto simp: hid_demo_def one_field_def)
qed

text \<open>C31: Analysing an input report of a device parsed from a descriptor of at most 4096 bytes with report identifiers below 256 returns, stays inside the buffer and the tables, and leaves
  the device well formed, so that the next report can be analysed too, for any bytes and any number of
  them, provided the report is not empty, the logical range of every array field is no larger than its
  usage table, signed values have at least one bit, and the buffer has eight bytes behind the report, which \<open>extract\<close> needs
  and the buffers of the USB driver do not have.\<close>

theorem hid_input_report_safe:
  assumes "length desc \<le> 4096"
    and "\<forall>it \<in> set (hid_items desc). i_type it = 1 \<and> i_tag it = 8 \<longrightarrow> unat (item_udata it) < 256"
    and "hid_parse_report desc allocs = Some (Some d, live)"
    and "\<forall>i r. e_hash (d_enum d t) i = Some r \<longrightarrow> r_size r \<noteq> 0 \<and> (\<forall>f \<in> set (r_fields r). input_ok f) \<and>
      unat (r_size r) div 8 + 8 + (if e_numbered (d_enum d t) then 1 else 0) \<le> length data"
    and "0 < used" "used \<le> length data"
  shows "\<exists>ret es d'. hid_input_report c mem i t data used d = Some (ret, es, d') \<and> device_ok d'"
proof (rule input_report_ok)
  have "ids_ok (hid_items desc)" using assms(2) by (simp add: ids_ok_def)
  note p = parsed_report [OF assms(1) this assms(3)]
  show "device_ok d" using parse_report_done [OF assms(1) \<open>ids_ok (hid_items desc)\<close>, of allocs] assms(3) by (auto simp: parse_done_def)
  fix n r assume "e_hash (d_enum d t) n = Some r"
  then show "unat (r_size r) < 2 ^ 32 \<and> r_size r \<noteq> 0 \<and> (\<forall>f \<in> set (r_fields r). input_ok f) \<and>
      unat (r_size r) div 8 + 8 + (if e_numbered (d_enum d t) then 1 else 0) \<le> length data"
    using p(2) assms(4) by blast
qed (rule assms(5,6))+

theorem hid_input_report_safe_witness:
  "\<exists>d r f ret es d'. one_field hid_demo d r f \<and>
     hid_input_report \<lparr>claimed_input = True, claimed_hiddev = False, claimed_hidraw = False, hiddev_hid_event = False, hiddev_report_event = False\<rparr>
       True True 0 (7 # replicate 15 0) 1 d = Some (ret, es, d') \<and> device_ok d'"
proof -
  obtain d r f where d: "one_field hid_demo d r f" "r_size r = 8" "f_report_size f = 8" "flag (f_flags f) HID_MAIN_ITEM_VARIABLE"
    using hid_demo_parse by blast
  then obtain live where p: "hid_parse_report hid_demo [] = Some (Some d, live)" by (auto simp: one_field_def)
  have "\<forall>i r. e_hash (d_enum d 0) i = Some r \<longrightarrow> r_size r \<noteq> 0 \<and> (\<forall>f \<in> set (r_fields r). input_ok f) \<and>
      unat (r_size r) div 8 + 8 + (if e_numbered (d_enum d 0) then 1 else 0) \<le> length (7 # replicate 15 (0 :: u8))"
  proof (intro allI impI)
    fix i r' assume "e_hash (d_enum d 0) i = Some r'"
    then have "r' = r" using d(1) by (cases "i = 0") (auto simp: one_field_def)
    then show "r_size r' \<noteq> 0 \<and> (\<forall>f \<in> set (r_fields r'). input_ok f) \<and>
        unat (r_size r') div 8 + 8 + (if e_numbered (d_enum d 0) then 1 else 0) \<le> length (7 # replicate 15 (0 :: u8))"
      using d by (simp add: one_field_def input_ok_def)
  qed
  from hid_input_report_safe [OF _ hid_demo_ids p this, of 1] d(1) show ?thesis by (simp add: hid_demo_def) blast
qed

text \<open>Two of those provisos are needed, and a device can break them. A descriptor with an array field of one
  usage and the logical range 0 to 255 parses, and a report with the value 5 reads outside the usage
  table. A descriptor with an input item of no bits parses, and a report then clears \<open>2\<close> to the 29 bytes
  from the end of the received data on, past every shorter buffer.\<close>

theorem hid_input_report_overflows:
  "(\<exists>d live. hid_parse_report [0x09, 0x30, 0x15, 0x00, 0x26, 0xff, 0x00, 0x75, 0x08, 0x95, 0x01, 0x81, 0x00] [] = Some (Some d, live) \<and>
      hid_input_report c True i 0 (5 # replicate 63 0) 1 d = None) \<and>
   (\<exists>d live. hid_parse_report [0x09, 0x30, 0x81, 0x02] [] = Some (Some d, live) \<and>
      (length data < 2 ^ 29 \<longrightarrow> hid_input_report c True i 0 data 8 d = None))"
proof
  let ?x = "[0x09, 0x30, 0x15, 0x00, 0x26, 0xff, 0x00, 0x75, 0x08, 0x95, 0x01, 0x81, 0x00]"
  have "\<exists>d r f. one_field ?x d r f \<and> r_size r = 8 \<and> f_report_offset f = 0 \<and> f_report_count f = 1 \<and> f_report_size f = 8 \<and>
      f_logical_minimum f = 0 \<and> f_logical_maximum f = 255 \<and> f_flags f = 0 \<and> length (f_usage f) = 1"
    by (simp add: hid_eval one_field_def)
  then obtain d r f where d: "one_field ?x d r f" "r_size r = 8" "f_report_offset f = 0" "f_report_count f = 1" "f_report_size f = 8"
      "f_logical_minimum f = 0" "f_logical_maximum f = 255" "f_flags f = 0" "length (f_usage f) = 1"
    by blast
  have "take 8 (5 # replicate 63 (0 :: u8)) = [5, 0, 0, 0, 0, 0, 0, 0]" by (simp add: numeral_eq_Suc)
  then have "input_value f (5 # replicate 63 0) 0 = Some 5" using d by (simp add: input_value_def extract_field_def get_le64_def)
  then have "input_values f (5 # replicate 63 0) 0 1 = None" using d by (simp add: field_range_def flag_def buf_get_def)
  then have "hid_input_field c True i (5 # replicate 63 0) f = None" using d by (simp add: hid_input_field_def)
  moreover have "hid_rsize r = 1" using d(2) by (simp add: hid_rsize_def)
  ultimately have "hid_input_report c True i 0 (5 # replicate 63 0) 1 d = None" using d(1) by (simp add: hid_input_report_def one_field_def Let_def)
  then show "\<exists>d live. hid_parse_report ?x [] = Some (Some d, live) \<and> hid_input_report c True i 0 (5 # replicate 63 0) 1 d = None"
    using d(1) by (auto simp: one_field_def)
next
  have "\<exists>d r f. one_field [0x09, 0x30, 0x81, 0x02] d r f \<and> r_size r = 0" by (simp add: hid_eval one_field_def)
  then obtain d r f live where "hid_parse_report [0x09, 0x30, 0x81, 0x02] [] = Some (Some d, live)" "e_hash (d_enum d 0) 0 = Some r"
      "\<not> e_numbered (d_enum d 0)" "r_size r = 0"
    by (auto simp: one_field_def)
  moreover from this have "hid_rsize r = 2 ^ 29" by (simp add: hid_rsize_def mask_eq_exp_minus_1)
  ultimately show "\<exists>d live. hid_parse_report [0x09, 0x30, 0x81, 0x02] [] = Some (Some d, live) \<and>
      (length data < 2 ^ 29 \<longrightarrow> hid_input_report c True i 0 data 8 d = None)"
    by (simp add: hid_input_report_def blit_def)
qed

theorem hid_input_report_overflows_witness:
  "\<exists>d live. hid_parse_report [0x09, 0x30, 0x81, 0x02] [] = Some (Some d, live) \<and>
     hid_input_report \<lparr>claimed_input = True, claimed_hiddev = False, claimed_hidraw = False, hiddev_hid_event = False, hiddev_report_event = False\<rparr>
       True True 0 (replicate 64 0) 8 d = None"
  using hid_input_report_overflows
    [of "\<lparr>claimed_input = True, claimed_hiddev = False, claimed_hidraw = False, hiddev_hid_event = False, hiddev_report_event = False\<rparr>" True "replicate 64 0"]
  by auto

end
