(* ===== verification/Hashtab.thy ===== *)
theory Hashtab
  imports Prelude
begin

text \<open>
  The hash table of vmklinux, \<^verbatim>\<open>vmklinux26/vmware/linux_hashtab.c\<close>, with the hash function of
  \<^verbatim>\<open>linux/hash.h\<close>. An item is its key and the structure it is embedded in; a bucket is an hlist
  kept in ascending order of keys. The table is a finite map from keys to items: the interface is
  the locale \<open>key_table\<close>, which the table implements for every order from 1 to 31 (with order 0
  the hash function shifts by the word length, which C does not define).
\<close>

section \<open>The hash function\<close>

abbreviation (input) GOLDEN_RATIO_PRIME :: u64 where "GOLDEN_RATIO_PRIME \<equiv> 0x9e37fffffffc0001"

definition hash_long :: "u64 \<Rightarrow> nat \<Rightarrow> u64" where
  "hash_long val bits =
     (let n1 = push_bit 18 val; h1 = val - n1;
          n2 = push_bit 33 n1; h2 = h1 - n2;
          n3 = push_bit 3 n2; h3 = h2 + n3;
          n4 = push_bit 3 n3; h4 = h3 - n4;
          n5 = push_bit 4 n4; h5 = h4 + n5;
          n6 = push_bit 2 n5; h6 = h5 + n6 in
      drop_bit (64 - bits) h6)"

section \<open>The table\<close>

type_synonym 'v ht_item = "u64 \<times> 'v"

record 'v vmklnx_hashtab =
  ht_size :: nat
  ht_count :: u32
  ht_order :: nat
  ht_table :: "'v ht_item list list"

abbreviation (input) HT_EINVAL :: int where "HT_EINVAL \<equiv> 22"
abbreviation (input) HT_ENOMEM :: int where "HT_ENOMEM \<equiv> 12"

text \<open>The allocator says whether there is memory for the buckets; without it the table has none.\<close>

definition vmklnx_hashtab_create :: "bool \<Rightarrow> nat \<Rightarrow> int \<times> 'v vmklnx_hashtab" where
  "vmklnx_hashtab_create alloc order =
     (if \<not> alloc then (- HT_ENOMEM, \<lparr>ht_size = 2 ^ order, ht_count = 0, ht_order = order, ht_table = []\<rparr>)
      else (0, \<lparr>ht_size = 2 ^ order, ht_count = 0, ht_order = order, ht_table = replicate (2 ^ order) []\<rparr>))"

text \<open>The walk along a bucket stops at the key or behind its place.\<close>

fun hlist_find :: "u64 \<Rightarrow> 'v ht_item list \<Rightarrow> 'v ht_item option" where
  "hlist_find key [] = None"
| "hlist_find key (e # es) =
     (if fst e = key then Some e else if fst e > key then None else hlist_find key es)"

definition vmklnx_hashtab_find_key :: "'v vmklnx_hashtab \<Rightarrow> u64 \<Rightarrow> 'v ht_item option" where
  "vmklnx_hashtab_find_key ht key = hlist_find key (ht_table ht ! unat (hash_long key (ht_order ht)))"

definition vmklnx_hashtab_find_item :: "'v vmklnx_hashtab \<Rightarrow> u64 \<Rightarrow> int \<times> 'v ht_item option" where
  "vmklnx_hashtab_find_item ht key =
     (case vmklnx_hashtab_find_key ht key of None \<Rightarrow> (- HT_EINVAL, None) | Some e \<Rightarrow> (0, Some e))"

text \<open>\<open>hlist_add_after\<close> the last smaller key, or \<open>hlist_add_head\<close>; no result when the key is there.\<close>

fun hlist_insert :: "'v ht_item \<Rightarrow> 'v ht_item list \<Rightarrow> 'v ht_item list option" where
  "hlist_insert x [] = Some [x]"
| "hlist_insert x (e # es) =
     (if fst e = fst x then None
      else if fst e > fst x then Some (x # e # es)
      else map_option ((#) e) (hlist_insert x es))"

definition vmklnx_hashtab_insert_item :: "'v vmklnx_hashtab \<Rightarrow> 'v ht_item \<Rightarrow> int \<times> 'v vmklnx_hashtab" where
  "vmklnx_hashtab_insert_item ht x =
     (let h = unat (hash_long (fst x) (ht_order ht)) in
      case hlist_insert x (ht_table ht ! h) of
        None \<Rightarrow> (- HT_EINVAL, ht)
      | Some l \<Rightarrow> (0, ht\<lparr>ht_table := (ht_table ht)[h := l], ht_count := ht_count ht + 1\<rparr>))"

text \<open>\<open>hlist_del_init\<close> takes the node with the key out of its bucket.\<close>

fun hlist_del :: "u64 \<Rightarrow> 'v ht_item list \<Rightarrow> 'v ht_item list" where
  "hlist_del key [] = []"
| "hlist_del key (e # es) = (if fst e = key then es else e # hlist_del key es)"

definition vmklnx_hashtab_remove_key ::
  "'v vmklnx_hashtab \<Rightarrow> u64 \<Rightarrow> int \<times> 'v ht_item option \<times> 'v vmklnx_hashtab" where
  "vmklnx_hashtab_remove_key ht key =
     (let h = unat (hash_long key (ht_order ht)) in
      case vmklnx_hashtab_find_key ht key of
        Some e \<Rightarrow> (0, Some e, ht\<lparr>ht_table := (ht_table ht)[h := hlist_del (fst e) (ht_table ht ! h)],
                              ht_count := ht_count ht - 1\<rparr>)
      | None \<Rightarrow> (- HT_EINVAL, None, ht))"

definition vmklnx_hashtab_remove_item :: "'v vmklnx_hashtab \<Rightarrow> 'v ht_item \<Rightarrow> int \<times> 'v vmklnx_hashtab" where
  "vmklnx_hashtab_remove_item ht x =
     (case vmklnx_hashtab_remove_key ht (fst x) of (r, e, ht') \<Rightarrow> (r, ht'))"

definition vmklnx_hashtab_remove :: "'v vmklnx_hashtab \<Rightarrow> 'v vmklnx_hashtab" where
  "vmklnx_hashtab_remove ht = (if ht_table ht \<noteq> [] then ht\<lparr>ht_table := [], ht_count := 0\<rparr> else ht)"

section \<open>The interface\<close>

text \<open>A table of items with keys: what a lookup finds after each operation. The client below runs any
  sequence of operations and sees a finite map.\<close>

datatype 'v key_op = Op_insert u64 'v | Op_remove u64

fun key_step :: "('t \<Rightarrow> u64 \<Rightarrow> 'v \<Rightarrow> int \<times> 't) \<Rightarrow> ('t \<Rightarrow> u64 \<Rightarrow> int \<times> 't) \<Rightarrow> 't \<Rightarrow> 'v key_op \<Rightarrow> int \<times> 't" where
  "key_step ins rem t (Op_insert k v) = ins t k v"
| "key_step ins rem t (Op_remove k) = rem t k"

fun key_run :: "('t \<Rightarrow> u64 \<Rightarrow> 'v \<Rightarrow> int \<times> 't) \<Rightarrow> ('t \<Rightarrow> u64 \<Rightarrow> int \<times> 't) \<Rightarrow> 't \<Rightarrow> 'v key_op list \<Rightarrow> int list \<times> 't" where
  "key_run ins rem t [] = ([], t)"
| "key_run ins rem t (x # xs) =
     (case key_step ins rem t x of (r, t1) \<Rightarrow> case key_run ins rem t1 xs of (rs, t2) \<Rightarrow> (r # rs, t2))"

text \<open>The specification: a finite map that refuses to overwrite and to remove what it does not hold.\<close>

definition map_insert :: "(u64 \<Rightarrow> 'v option) \<Rightarrow> u64 \<Rightarrow> 'v \<Rightarrow> int \<times> (u64 \<Rightarrow> 'v option)" where
  "map_insert m k v = (if m k = None then (0, m(k \<mapsto> v)) else (- HT_EINVAL, m))"

definition map_remove :: "(u64 \<Rightarrow> 'v option) \<Rightarrow> u64 \<Rightarrow> int \<times> (u64 \<Rightarrow> 'v option)" where
  "map_remove m k = (if m k = None then (- HT_EINVAL, m) else (0, m(k := None)))"

locale key_table =
  fixes lookup :: "'t \<Rightarrow> u64 \<Rightarrow> 'v option"
    and ins :: "'t \<Rightarrow> u64 \<Rightarrow> 'v \<Rightarrow> int \<times> 't"
    and rem :: "'t \<Rightarrow> u64 \<Rightarrow> int \<times> 't"
    and inv :: "'t \<Rightarrow> bool"
  assumes insert_inv: "inv t \<Longrightarrow> inv (snd (ins t k v))"
    and remove_inv: "inv t \<Longrightarrow> inv (snd (rem t k))"
    and insert_result: "inv t \<Longrightarrow> fst (ins t k v) = (if lookup t k = None then 0 else - HT_EINVAL)"
    and remove_result: "inv t \<Longrightarrow> fst (rem t k) = (if lookup t k = None then - HT_EINVAL else 0)"
    and lookup_insert: "inv t \<Longrightarrow> lookup (snd (ins t k v)) =
          (if lookup t k = None then (lookup t)(k \<mapsto> v) else lookup t)"
    and lookup_remove: "inv t \<Longrightarrow> lookup (snd (rem t k)) = (lookup t)(k := None)"
begin

lemma step_inv: "inv t \<Longrightarrow> inv (snd (key_step ins rem t x))"
  by (cases x) (auto intro: insert_inv remove_inv)

lemma step_simulates:
  "inv t \<Longrightarrow> key_step map_insert map_remove (lookup t) x =
     (fst (key_step ins rem t x), lookup (snd (key_step ins rem t x)))"
  by (cases x) (auto simp: insert_result remove_result lookup_insert lookup_remove map_insert_def map_remove_def)

lemma run_simulates:
  "inv t \<Longrightarrow> inv (snd (key_run ins rem t xs)) \<and>
     key_run map_insert map_remove (lookup t) xs =
       (fst (key_run ins rem t xs), lookup (snd (key_run ins rem t xs)))"
proof (induction xs arbitrary: t)
  case (Cons x xs)
  then show ?case using step_simulates [of t x] step_inv [of t x] by (auto simp: split_beta)
qed simp

end

section \<open>The hash function is the multiplicative hash\<close>

lemma hash_long_mult: "hash_long val bits = drop_bit (64 - bits) (val * GOLDEN_RATIO_PRIME)"
proof -
  have "hash_long val bits = drop_bit (64 - bits) (val * (1 - 2 ^ 18 - 2 ^ 51 + 2 ^ 54 - 2 ^ 57 + 2 ^ 61 + 2 ^ 63))"
    by (simp add: hash_long_def Let_def push_bit_eq_mult algebra_simps)
  then show ?thesis by simp
qed

lemma hash_long_bound:
  assumes b: "1 \<le> bits" "bits \<le> 64"
  shows "unat (hash_long val bits) < 2 ^ bits"
proof -
  let ?h = "val * GOLDEN_RATIO_PRIME"
  have "unat ?h < 2 ^ bits * 2 ^ (64 - bits)"
    using unsigned_less [of ?h, where ?'a = nat] b by (simp add: power_add [symmetric])
  then have "unat ?h div 2 ^ (64 - bits) < 2 ^ bits"
    by (rule less_mult_imp_div_less)
  moreover have "unat (drop_bit (64 - bits) ?h) = unat ?h div 2 ^ (64 - bits)"
    by (simp only: unat_drop_bit_eq) (simp only: drop_bit_eq_div)
  ultimately show ?thesis by (simp only: hash_long_mult)
qed

section \<open>Buckets\<close>

abbreviation (input) bucket_sorted :: "'v ht_item list \<Rightarrow> bool" where
  "bucket_sorted l \<equiv> sorted_wrt (<) (map fst l)"

lemma hlist_find_map_of: "bucket_sorted l \<Longrightarrow> hlist_find k l = map_option (Pair k) (map_of l k)"
proof (induction k l rule: hlist_find.induct)
  case (2 k e es)
  have "map_of es k = None" if "k < fst e"
    using 2(2) that by (force simp: map_of_eq_None_iff)
  then show ?case using 2 by (cases e) auto
qed simp

lemma hlist_insert_None: "bucket_sorted l \<Longrightarrow> hlist_insert x l = None \<longleftrightarrow> map_of l (fst x) \<noteq> None"
proof (induction x l rule: hlist_insert.induct)
  case (2 x e es)
  have "map_of es (fst x) = None" if "fst x < fst e"
    using 2(2) that by (force simp: map_of_eq_None_iff)
  then show ?case using 2 by (cases e) auto
qed simp

lemma hlist_insert_set: "hlist_insert x l = Some l' \<Longrightarrow> set l' = insert x (set l) \<and> length l' = Suc (length l)"
  by (induction x l arbitrary: l' rule: hlist_insert.induct) (auto split: if_splits)

lemma hlist_insert_sorted: "bucket_sorted l \<Longrightarrow> hlist_insert x l = Some l' \<Longrightarrow> bucket_sorted l'"
proof (induction x l arbitrary: l' rule: hlist_insert.induct)
  case (2 x e es)
  show ?case
  proof (cases "fst e < fst x")
    case True
    then obtain z where "hlist_insert x es = Some z" "l' = e # z" using 2(3) by (auto split: if_splits)
    then show ?thesis using 2(1,2) True hlist_insert_set [of x es z] by auto
  next
    case False
    then have "fst x < fst e" "l' = x # e # es" using 2(3) by (auto split: if_splits)
    then show ?thesis using 2(2) by (auto dest: order.strict_trans)
  qed
qed simp

lemma hlist_insert_map_of: "hlist_insert x l = Some l' \<Longrightarrow> map_of l' = (map_of l)(fst x \<mapsto> snd x)"
  by (induction x l arbitrary: l' rule: hlist_insert.induct) (auto split: if_splits)

lemma hlist_del_set: "set (hlist_del k l) \<subseteq> set l"
  by (induction l) auto

lemma hlist_del_length: "map_of l k \<noteq> None \<Longrightarrow> length l = Suc (length (hlist_del k l))"
  by (induction l) auto

lemma hlist_del_sorted: "bucket_sorted l \<Longrightarrow> bucket_sorted (hlist_del k l)"
proof (induction l)
  case (Cons e es)
  then show ?case using hlist_del_set [of k es] by auto
qed simp

lemma hlist_del_map_of: "bucket_sorted l \<Longrightarrow> map_of (hlist_del k l) = (map_of l)(k := None)"
proof (induction l)
  case (Cons e es)
  have "map_of es (fst e) = None"
    using Cons(2) by (force simp: map_of_eq_None_iff)
  then show ?case using Cons by (cases e) (auto simp: fun_upd_twist)
qed simp

section \<open>The table implements the interface\<close>

definition ht_hash :: "'v vmklnx_hashtab \<Rightarrow> u64 \<Rightarrow> nat" where
  "ht_hash ht k = unat (hash_long k (ht_order ht))"

definition bucket_ok :: "nat \<Rightarrow> nat \<Rightarrow> 'v ht_item list \<Rightarrow> bool" where
  "bucket_ok order h l \<longleftrightarrow> bucket_sorted l \<and> (\<forall>x \<in> set l. unat (hash_long (fst x) order) = h)"

definition ht_inv :: "'v vmklnx_hashtab \<Rightarrow> bool" where
  "ht_inv ht \<longleftrightarrow> 1 \<le> ht_order ht \<and> ht_order ht \<le> 31 \<and> ht_size ht = 2 ^ ht_order ht \<and>
     length (ht_table ht) = 2 ^ ht_order ht \<and>
     (\<forall>h < 2 ^ ht_order ht. bucket_ok (ht_order ht) h (ht_table ht ! h)) \<and>
     ht_count ht = of_nat (length (concat (ht_table ht)))"

definition ht_lookup :: "'v vmklnx_hashtab \<Rightarrow> u64 \<Rightarrow> 'v option" where
  "ht_lookup ht k = map_option snd (vmklnx_hashtab_find_key ht k)"

definition ht_insert :: "'v vmklnx_hashtab \<Rightarrow> u64 \<Rightarrow> 'v \<Rightarrow> int \<times> 'v vmklnx_hashtab" where
  "ht_insert ht k v = vmklnx_hashtab_insert_item ht (k, v)"

definition ht_remove :: "'v vmklnx_hashtab \<Rightarrow> u64 \<Rightarrow> int \<times> 'v vmklnx_hashtab" where
  "ht_remove ht k = (case vmklnx_hashtab_remove_key ht k of (r, e, ht') \<Rightarrow> (r, ht'))"

lemma ht_hash_bound: "ht_inv ht \<Longrightarrow> ht_hash ht k < length (ht_table ht)"
  using hash_long_bound [of "ht_order ht" k] by (simp add: ht_inv_def ht_hash_def)

lemma ht_bucket: "ht_inv ht \<Longrightarrow> bucket_ok (ht_order ht) (ht_hash ht k) (ht_table ht ! ht_hash ht k)"
  using ht_hash_bound [of ht k] by (simp add: ht_inv_def)

lemma ht_find_key:
  "ht_inv ht \<Longrightarrow> vmklnx_hashtab_find_key ht k = map_option (Pair k) (map_of (ht_table ht ! ht_hash ht k) k)"
  using ht_bucket [of ht k]
  by (simp add: vmklnx_hashtab_find_key_def ht_hash_def bucket_ok_def hlist_find_map_of)

lemma ht_lookup_map_of: "ht_inv ht \<Longrightarrow> ht_lookup ht k = map_of (ht_table ht ! ht_hash ht k) k"
  by (simp add: ht_lookup_def ht_find_key option.map_comp comp_def option.map_ident)

lemma length_concat_update:
  "h < length xss \<Longrightarrow> length (concat (xss[h := l])) + length (xss ! h) = length (concat xss) + length l"
  by (induction xss arbitrary: h) (auto split: nat.splits)

lemma ht_upd_inv:
  assumes "ht_inv ht" "bucket_ok (ht_order ht) (ht_hash ht k) l"
    "c + of_nat (length (ht_table ht ! ht_hash ht k)) = ht_count ht + of_nat (length l)"
  shows "ht_inv (ht\<lparr>ht_table := (ht_table ht)[ht_hash ht k := l], ht_count := c\<rparr>)"
proof -
  let ?h = "ht_hash ht k" and ?t = "ht_table ht"
  have "of_nat (length (concat (?t[?h := l])) + length (?t ! ?h)) = (of_nat (length (concat ?t) + length l) :: u32)"
    by (subst length_concat_update [OF ht_hash_bound [OF assms(1)]]) simp
  then have "c + of_nat (length (?t ! ?h)) = of_nat (length (concat (?t[?h := l]))) + of_nat (length (?t ! ?h))"
    using assms(1,3) by (simp add: ht_inv_def add.commute)
  then have "c = of_nat (length (concat (?t[?h := l])))" by simp
  then show ?thesis using assms ht_hash_bound [OF assms(1), of k] by (auto simp: ht_inv_def nth_list_update)
qed

lemma ht_upd_lookup:
  assumes "ht_inv ht" "ht_inv (ht\<lparr>ht_table := (ht_table ht)[ht_hash ht k := l], ht_count := c\<rparr>)"
    "map_of l = (map_of (ht_table ht ! ht_hash ht k))(k := v)"
  shows "ht_lookup (ht\<lparr>ht_table := (ht_table ht)[ht_hash ht k := l], ht_count := c\<rparr>) = (ht_lookup ht)(k := v)"
  using assms ht_hash_bound [OF assms(1), of k]
  by (auto simp: ht_lookup_map_of ht_hash_def fun_eq_iff nth_list_update)

lemmas hash_fold = ht_hash_def [symmetric]

lemma ht_insert_cases:
  assumes "ht_inv ht"
  shows "if ht_lookup ht k = None
         then fst (ht_insert ht k v) = 0 \<and> ht_inv (snd (ht_insert ht k v)) \<and>
              ht_lookup (snd (ht_insert ht k v)) = (ht_lookup ht)(k \<mapsto> v)
         else ht_insert ht k v = (- HT_EINVAL, ht)"
proof -
  let ?h = "ht_hash ht k"
  let ?b = "ht_table ht ! ?h"
  have b: "bucket_ok (ht_order ht) ?h ?b" by (rule ht_bucket [OF assms])
  show ?thesis
  proof (cases "hlist_insert (k, v) ?b")
    case None
    then show ?thesis using assms b hlist_insert_None [of ?b "(k, v)"]
      by (simp add: ht_insert_def vmklnx_hashtab_insert_item_def hash_fold ht_lookup_map_of bucket_ok_def)
  next
    case (Some l)
    have r: "ht_insert ht k v = (0, ht\<lparr>ht_table := (ht_table ht)[?h := l], ht_count := ht_count ht + 1\<rparr>)"
      using Some by (simp add: ht_insert_def vmklnx_hashtab_insert_item_def hash_fold)
    have "bucket_ok (ht_order ht) ?h l"
      using b hlist_insert_set [OF Some] hlist_insert_sorted [OF _ Some] by (auto simp: bucket_ok_def ht_hash_def)
    then have "ht_inv (snd (ht_insert ht k v))"
      using hlist_insert_set [OF Some] unfolding r by (auto intro!: ht_upd_inv [OF assms])
    then show ?thesis using Some assms b hlist_insert_None [of ?b "(k, v)"]
        ht_upd_lookup [OF assms, where k = k and l = l and v = "Some v"] hlist_insert_map_of [OF Some]
      by (auto simp: r ht_lookup_map_of bucket_ok_def)
  qed
qed

lemma ht_remove_cases:
  assumes "ht_inv ht"
  shows "if ht_lookup ht k = None then ht_remove ht k = (- HT_EINVAL, ht)
         else fst (ht_remove ht k) = 0 \<and> ht_inv (snd (ht_remove ht k)) \<and>
              ht_lookup (snd (ht_remove ht k)) = (ht_lookup ht)(k := None)"
proof (cases "ht_lookup ht k")
  case None
  then show ?thesis using assms
    by (simp add: ht_remove_def vmklnx_hashtab_remove_key_def ht_find_key ht_lookup_map_of)
next
  case (Some v)
  let ?h = "ht_hash ht k"
  let ?b = "ht_table ht ! ?h"
  have b: "bucket_ok (ht_order ht) ?h ?b" by (rule ht_bucket [OF assms])
  have m: "map_of ?b k = Some v" using Some assms by (simp add: ht_lookup_map_of)
  have r: "ht_remove ht k = (0, ht\<lparr>ht_table := (ht_table ht)[?h := hlist_del k ?b], ht_count := ht_count ht - 1\<rparr>)"
    using ht_find_key [OF assms, of k] m by (simp add: ht_remove_def vmklnx_hashtab_remove_key_def hash_fold Let_def)
  have "bucket_ok (ht_order ht) ?h (hlist_del k ?b)"
    using b hlist_del_set [of k ?b] hlist_del_sorted [of ?b k] by (auto simp: bucket_ok_def)
  then have i: "ht_inv (snd (ht_remove ht k))"
    using hlist_del_length [of ?b k] m unfolding r by (auto intro!: ht_upd_inv [OF assms])
  moreover have "map_of (hlist_del k ?b) = (map_of ?b)(k := None)"
    using b by (auto simp: bucket_ok_def intro: hlist_del_map_of)
  ultimately show ?thesis using Some ht_upd_lookup [OF assms, where k = k and l = "hlist_del k ?b" and v = None]
    by (simp add: r)
qed

interpretation ht: key_table ht_lookup ht_insert ht_remove ht_inv
proof unfold_locales
  fix t :: "'v vmklnx_hashtab" and k :: u64 and v :: 'v
  assume i: "ht_inv t"
  note c = ht_insert_cases [OF i, of k v] ht_remove_cases [OF i, of k]
  show "ht_inv (snd (ht_insert t k v))" "ht_inv (snd (ht_remove t k))"
    using c i by (auto split: if_splits)
  show "fst (ht_insert t k v) = (if ht_lookup t k = None then 0 else - HT_EINVAL)"
    "fst (ht_remove t k) = (if ht_lookup t k = None then - HT_EINVAL else 0)"
    "ht_lookup (snd (ht_insert t k v)) = (if ht_lookup t k = None then (ht_lookup t)(k \<mapsto> v) else ht_lookup t)"
    "ht_lookup (snd (ht_remove t k)) = (ht_lookup t)(k := None)"
    using c by (auto split: if_splits simp: fun_upd_idem)
qed

lemma ht_create_inv:
  assumes "1 \<le> order" "order \<le> 31"
  shows "ht_inv (snd (vmklnx_hashtab_create True order :: int \<times> 'v vmklnx_hashtab))"
    and "ht_lookup (snd (vmklnx_hashtab_create True order)) = (Map.empty :: u64 \<Rightarrow> 'v option)"
proof -
  show i: "ht_inv (snd (vmklnx_hashtab_create True order :: int \<times> 'v vmklnx_hashtab))"
    using assms by (simp add: vmklnx_hashtab_create_def ht_inv_def bucket_ok_def)
  show "ht_lookup (snd (vmklnx_hashtab_create True order)) = (Map.empty :: u64 \<Rightarrow> 'v option)"
  proof
    fix k
    show "ht_lookup (snd (vmklnx_hashtab_create True order)) k = (None :: 'v option)"
      using ht_hash_bound [OF i, of k]
      by (simp add: ht_lookup_map_of [OF i]) (simp add: vmklnx_hashtab_create_def)
  qed
qed

text \<open>The keys a bucket holds are the keys of the map that hash to it.\<close>

lemma ht_count_card:
  assumes "ht_inv ht"
  shows "ht_count ht = of_nat (card (dom (ht_lookup ht)))"
proof -
  let ?n = "length (ht_table ht)" and ?K = "\<lambda>h. fst ` set (ht_table ht ! h)"
  have ok: "bucket_ok (ht_order ht) h (ht_table ht ! h)" if "h < ?n" for h
    using assms that by (simp add: ht_inv_def)
  have h: "ht_hash ht k = h" if "h < ?n" "k \<in> ?K h" for h k
    using ok [OF that(1)] that(2) by (auto simp: bucket_ok_def ht_hash_def)
  have dom: "k \<in> dom (ht_lookup ht) \<longleftrightarrow> k \<in> ?K (ht_hash ht k)" for k
    by (simp add: domIff ht_lookup_map_of [OF assms] map_of_eq_None_iff)
  have "dom (ht_lookup ht) = (\<Union>h < ?n. ?K h)"
  proof (intro set_eqI iffI)
    fix k assume "k \<in> dom (ht_lookup ht)"
    then show "k \<in> (\<Union>h < ?n. ?K h)"
      using ht_hash_bound [OF assms, of k] by (intro UN_I [of "ht_hash ht k"]) (simp_all only: dom lessThan_iff)
  next
    fix k assume "k \<in> (\<Union>h < ?n. ?K h)"
    then obtain i where i: "i < ?n" "k \<in> ?K i" by (elim UN_E) (simp only: lessThan_iff)
    show "k \<in> dom (ht_lookup ht)" unfolding dom using h [OF i] i(2) by (simp only:)
  qed
  moreover have "?K i \<inter> ?K j = {}" if "i < ?n" "j < ?n" "i \<noteq> j" for i j
    using h [OF that(1)] h [OF that(2)] that(3) by blast
  then have "card (\<Union>h < ?n. ?K h) = (\<Sum>h < ?n. card (?K h))"
    by (intro card_UN_disjoint) auto
  moreover have "card (?K h) = length (ht_table ht ! h)" if "h < ?n" for h
    using ok [OF that] distinct_card [of "map fst (ht_table ht ! h)"]
    by (simp add: bucket_ok_def strict_sorted_iff)
  ultimately have "card (dom (ht_lookup ht)) = (\<Sum>h < ?n. length (ht_table ht ! h))" by simp
  also have "\<dots> = length (concat (ht_table ht))"
    by (simp add: length_concat sum_list_sum_nth atLeast0LessThan)
  finally show ?thesis using assms by (simp add: ht_inv_def)
qed

section \<open>Properties\<close>

text \<open>C39: \<open>hash_long\<close>, written with shifts and additions, is multiplication by
  \<open>GOLDEN_RATIO_PRIME\<close> modulo \<open>2\<close> to the \<open>64\<close>, of which it returns the high bits; for every number of
  bits from 1 to 64 the result is below \<open>2\<close> to that number, an index of a table of that order.\<close>

theorem hash_long_multiplicative:
  assumes "1 \<le> bits" "bits \<le> 64"
  shows "unat (hash_long val bits) = unat val * 0x9e37fffffffc0001 mod 2 ^ 64 div 2 ^ (64 - bits) \<and>
    unat (hash_long val bits) < 2 ^ bits"
proof (intro conjI)
  have "unat (hash_long val bits) = unat (val * GOLDEN_RATIO_PRIME) div 2 ^ (64 - bits)"
    by (simp only: hash_long_mult unat_drop_bit_eq) (simp only: drop_bit_eq_div)
  then show "unat (hash_long val bits) = unat val * 0x9e37fffffffc0001 mod 2 ^ 64 div 2 ^ (64 - bits)"
    by (simp add: unat_word_ariths)
  show "unat (hash_long val bits) < 2 ^ bits" by (rule hash_long_bound [OF assms])
qed

theorem hash_long_multiplicative_witness:
  "unat (hash_long 3 8) = 3 * 0x9e37fffffffc0001 mod 2 ^ 64 div 2 ^ 56 \<and> unat (hash_long 3 8) < 2 ^ 8"
  using hash_long_multiplicative [of 8 3] by simp

text \<open>C23: A table created with an order from 1 to 31 is a finite map: every sequence of insertions and
  removals by key returns the results (0, or \<open>-EINVAL\<close> for a key that is already there or is not there)
  that the same operations return on a map from keys to items that starts empty, a search by key
  afterwards finds what that map holds, and \<open>count\<close> is the number of its keys modulo \<open>2\<close> to the \<open>32\<close>.\<close>

theorem hashtab_refines_map:
  assumes "1 \<le> order" "order \<le> 31"
    and "key_run ht_insert ht_remove (snd (vmklnx_hashtab_create True order)) xs = (rs, ht)"
    and "key_run map_insert map_remove Map.empty xs = (rs', m)"
  shows "rs = rs' \<and>
    vmklnx_hashtab_find_item ht k = (case m k of None \<Rightarrow> (- 22, None) | Some v \<Rightarrow> (0, Some (k, v))) \<and>
    ht_count ht = of_nat (card (dom m))"
proof (intro conjI)
  note r = ht.run_simulates [OF ht_create_inv(1) [OF assms(1,2)], of xs]
  have i: "ht_inv ht" and m: "rs = rs'" "ht_lookup ht = m"
    using r assms(3,4) by (auto simp: ht_create_inv(2) [OF assms(1,2)])
  show "rs = rs'" by (rule m)
  show "ht_count ht = of_nat (card (dom m))" using ht_count_card [OF i] m by simp
  show "vmklnx_hashtab_find_item ht k = (case m k of None \<Rightarrow> (- 22, None) | Some v \<Rightarrow> (0, Some (k, v)))"
    using ht_find_key [OF i, of k] m(2) [symmetric] ht_lookup_map_of [OF i, of k]
    by (simp add: vmklnx_hashtab_find_item_def split: option.splits)
qed

theorem hashtab_refines_map_witness:
  "\<exists>ht m. key_run ht_insert ht_remove (snd (vmklnx_hashtab_create True 2))
             [Op_insert 7 ''a'', Op_insert 5 ''b'', Op_insert 7 ''c'', Op_remove 9, Op_remove 7] =
               ([0, 0, -22, -22, 0], ht) \<and>
           key_run map_insert map_remove Map.empty
             [Op_insert 7 ''a'', Op_insert 5 ''b'', Op_insert 7 ''c'', Op_remove 9, Op_remove 7] =
               ([0, 0, -22, -22, 0], m) \<and>
           ht_count ht = of_nat (card (dom m)) \<and> vmklnx_hashtab_find_item ht 5 = (0, Some (5, ''b'')) \<and>
           vmklnx_hashtab_find_item ht 7 = (-22, None)"
proof -
  let ?xs = "[Op_insert 7 ''a'', Op_insert 5 ''b'', Op_insert 7 ''c'', Op_remove 9, Op_remove 7]"
  obtain rs ht where a: "key_run ht_insert ht_remove (snd (vmklnx_hashtab_create True 2)) ?xs = (rs, ht)"
    by fastforce
  have b: "key_run map_insert map_remove Map.empty ?xs = ([0, 0, -22, -22, 0], [5 \<mapsto> ''b''])"
    by (simp add: map_insert_def map_remove_def fun_eq_iff)
  note r = hashtab_refines_map [OF _ _ a b]
  show ?thesis using a b r [of 5] r [of 7] by auto
qed

end
