(* ===== verification/Notifier.thy ===== *)
theory Notifier
  imports Prelude
begin

text \<open>
  Notifier chains, \<^verbatim>\<open>vmklinux26/vmware/linux_notifier.c\<close>. The blocks live in a memory, linked by
  their \<open>next\<close> pointers, because registering a block writes into memory that other blocks point to;
  a walk along a cyclic chain does not return, which is the value \<^term>\<open>None\<close>. The callbacks are a
  parameter: a function from the block, the event and the state of the callers to a result.

  The theorems relate the linked memory to the list of registered blocks: the chain is the list of
  registrations sorted by descending priority, stable among equals, and a call visits it in order.
\<close>

section \<open>Data\<close>

record notifier_block =
  nb_next :: "nat option"
  priority :: int
  modID :: nat

text \<open>The head of a chain together with the memory of blocks its pointers reach.\<close>

record notifier_chain =
  nc_head :: "nat option"
  nc_mem :: "nat \<Rightarrow> notifier_block"

datatype rwsem_state = Rw_free | Rw_write | Rw_read nat

record atomic_notifier_head = notifier_chain +
  an_locked :: bool

record blocking_notifier_head = notifier_chain +
  bn_rwsem :: rwsem_state

text \<open>A pointer to a pointer: the head of the chain or the \<open>next\<close> field of a block.\<close>

datatype nb_slot = Head_slot | Next_slot nat

fun slot_read :: "'a notifier_chain_scheme \<Rightarrow> nb_slot \<Rightarrow> nat option" where
  "slot_read c Head_slot = nc_head c"
| "slot_read c (Next_slot b) = nb_next (nc_mem c b)"

fun slot_write :: "'a notifier_chain_scheme \<Rightarrow> nb_slot \<Rightarrow> nat option \<Rightarrow> 'a notifier_chain_scheme" where
  "slot_write c Head_slot p = c\<lparr>nc_head := p\<rparr>"
| "slot_write c (Next_slot b) p = c\<lparr>nc_mem := (nc_mem c)(b := (nc_mem c b)\<lparr>nb_next := p\<rparr>)\<rparr>"

abbreviation (input) NOTIFY_DONE :: u32 where "NOTIFY_DONE \<equiv> 0"
abbreviation (input) NOTIFY_STOP_MASK :: u32 where "NOTIFY_STOP_MASK \<equiv> 0x8000"
abbreviation (input) NB_ENOENT :: int where "NB_ENOENT \<equiv> 2"

section \<open>Operations\<close>

partial_function (option) register_walk :: "'a notifier_chain_scheme \<Rightarrow> int \<Rightarrow> nb_slot \<Rightarrow> nb_slot option" where
  "register_walk c p nl =
     (case slot_read c nl of
        None \<Rightarrow> Some nl
      | Some b \<Rightarrow> if p > priority (nc_mem c b) then Some nl else register_walk c p (Next_slot b))"

text \<open>\<open>mid\<close> is the module on top of the module stack, to which the block will belong.\<close>

definition notifier_chain_register ::
  "nat \<Rightarrow> 'a notifier_chain_scheme \<Rightarrow> nat \<Rightarrow> (int \<times> 'a notifier_chain_scheme) option" where
  "notifier_chain_register mid c n =
     do {
       nl \<leftarrow> register_walk c (priority (nc_mem c n)) Head_slot;
       let c1 = c\<lparr>nc_mem := (nc_mem c)(n := (nc_mem c n)\<lparr>nb_next := slot_read c nl, modID := mid\<rparr>)\<rparr>;
       Some (0, slot_write c1 nl (Some n))
     }"

partial_function (option) unregister_walk ::
  "'a notifier_chain_scheme \<Rightarrow> nat \<Rightarrow> nb_slot \<Rightarrow> (int \<times> 'a notifier_chain_scheme) option" where
  "unregister_walk c n nl =
     (case slot_read c nl of
        None \<Rightarrow> Some (- NB_ENOENT, c)
      | Some b \<Rightarrow> if b = n then Some (0, slot_write c nl (nb_next (nc_mem c n)))
                 else unregister_walk c n (Next_slot b))"

definition notifier_chain_unregister ::
  "'a notifier_chain_scheme \<Rightarrow> nat \<Rightarrow> (int \<times> 'a notifier_chain_scheme) option" where
  "notifier_chain_unregister c n = unregister_walk c n Head_slot"

partial_function (option) call_walk ::
  "(nat \<Rightarrow> u64 \<Rightarrow> 'e \<Rightarrow> u32 \<times> 'e) \<Rightarrow> 'a notifier_chain_scheme \<Rightarrow> u64 \<Rightarrow> nat option \<Rightarrow> u32 \<Rightarrow> 'e \<Rightarrow> (u32 \<times> 'e) option" where
  "call_walk call c val nb ret env =
     (case nb of
        None \<Rightarrow> Some (ret, env)
      | Some b \<Rightarrow>
          (let next_nb = nb_next (nc_mem c b); (ret', env') = call b val env in
           if ret' AND NOTIFY_STOP_MASK = NOTIFY_STOP_MASK then Some (ret', env')
           else call_walk call c val next_nb ret' env'))"

definition notifier_call_chain ::
  "(nat \<Rightarrow> u64 \<Rightarrow> 'e \<Rightarrow> u32 \<times> 'e) \<Rightarrow> 'a notifier_chain_scheme \<Rightarrow> u64 \<Rightarrow> 'e \<Rightarrow> (u32 \<times> 'e) option" where
  "notifier_call_chain call c val env = call_walk call c val (nc_head c) NOTIFY_DONE env"

text \<open>The atomic chain takes a spin lock around a registration; a lock that is held never comes free
  in this thread. A call only holds the read side of RCU, which does not block.\<close>

definition atomic_notifier_chain_register ::
  "nat \<Rightarrow> atomic_notifier_head \<Rightarrow> nat \<Rightarrow> (int \<times> atomic_notifier_head) option" where
  "atomic_notifier_chain_register mid nh n =
     (if an_locked nh then None
      else do {
        (ret, nh1) \<leftarrow> notifier_chain_register mid (nh\<lparr>an_locked := True\<rparr>) n;
        Some (ret, nh1\<lparr>an_locked := False\<rparr>)
      })"

definition atomic_notifier_call_chain ::
  "(nat \<Rightarrow> u64 \<Rightarrow> 'e \<Rightarrow> u32 \<times> 'e) \<Rightarrow> atomic_notifier_head \<Rightarrow> u64 \<Rightarrow> 'e \<Rightarrow> (u32 \<times> 'e) option" where
  "atomic_notifier_call_chain call nh val env = notifier_call_chain call nh val env"

text \<open>The blocking chain takes its semaphore for writing or for reading.\<close>

fun down_write :: "rwsem_state \<Rightarrow> rwsem_state option" where
  "down_write Rw_free = Some Rw_write"
| "down_write _ = None"

fun down_read :: "rwsem_state \<Rightarrow> rwsem_state option" where
  "down_read Rw_free = Some (Rw_read 1)"
| "down_read (Rw_read n) = Some (Rw_read (Suc n))"
| "down_read Rw_write = None"

fun up_read :: "rwsem_state \<Rightarrow> rwsem_state" where
  "up_read (Rw_read n) = (if n \<le> 1 then Rw_free else Rw_read (n - 1))"
| "up_read s = s"

definition up_write :: "rwsem_state \<Rightarrow> rwsem_state" where
  "up_write s = Rw_free"

definition blocking_notifier_chain_register ::
  "nat \<Rightarrow> blocking_notifier_head \<Rightarrow> nat \<Rightarrow> (int \<times> blocking_notifier_head) option" where
  "blocking_notifier_chain_register mid nh n =
     do {
       s \<leftarrow> down_write (bn_rwsem nh);
       (ret, nh1) \<leftarrow> notifier_chain_register mid (nh\<lparr>bn_rwsem := s\<rparr>) n;
       Some (ret, nh1\<lparr>bn_rwsem := up_write (bn_rwsem nh1)\<rparr>)
     }"

definition blocking_notifier_chain_unregister ::
  "blocking_notifier_head \<Rightarrow> nat \<Rightarrow> (int \<times> blocking_notifier_head) option" where
  "blocking_notifier_chain_unregister nh n =
     do {
       s \<leftarrow> down_write (bn_rwsem nh);
       (ret, nh1) \<leftarrow> notifier_chain_unregister (nh\<lparr>bn_rwsem := s\<rparr>) n;
       Some (ret, nh1\<lparr>bn_rwsem := up_write (bn_rwsem nh1)\<rparr>)
     }"

definition blocking_notifier_call_chain ::
  "(nat \<Rightarrow> u64 \<Rightarrow> 'e \<Rightarrow> u32 \<times> 'e) \<Rightarrow> blocking_notifier_head \<Rightarrow> u64 \<Rightarrow> 'e \<Rightarrow> (u32 \<times> 'e \<times> blocking_notifier_head) option" where
  "blocking_notifier_call_chain call nh val env =
     do {
       s \<leftarrow> down_read (bn_rwsem nh);
       (ret, env1) \<leftarrow> notifier_call_chain call (nh\<lparr>bn_rwsem := s\<rparr>) val env;
       Some (ret, env1, nh\<lparr>bn_rwsem := up_read s\<rparr>)
     }"

section \<open>The chain as a list\<close>

primrec nb_seg :: "(nat \<Rightarrow> notifier_block) \<Rightarrow> nat option \<Rightarrow> nat list \<Rightarrow> nat option \<Rightarrow> bool" where
  "nb_seg mem p [] q \<longleftrightarrow> p = q"
| "nb_seg mem p (b # bs) q \<longleftrightarrow> p = Some b \<and> nb_seg mem (nb_next (mem b)) bs q"

definition chain_list :: "'a notifier_chain_scheme \<Rightarrow> nat list \<Rightarrow> bool" where
  "chain_list c bs \<longleftrightarrow> nb_seg (nc_mem c) (nc_head c) bs None \<and> distinct bs"

text \<open>The specification of the operations on the list.\<close>

fun insert_prio :: "(nat \<Rightarrow> int) \<Rightarrow> nat \<Rightarrow> nat list \<Rightarrow> nat list" where
  "insert_prio prio n [] = [n]"
| "insert_prio prio n (b # bs) = (if prio n > prio b then n # b # bs else b # insert_prio prio n bs)"

fun call_list :: "(nat \<Rightarrow> u64 \<Rightarrow> 'e \<Rightarrow> u32 \<times> 'e) \<Rightarrow> u64 \<Rightarrow> nat list \<Rightarrow> u32 \<Rightarrow> 'e \<Rightarrow> u32 \<times> 'e" where
  "call_list call val [] ret env = (ret, env)"
| "call_list call val (b # bs) ret env =
     (case call b val env of (ret', env') \<Rightarrow>
        if ret' AND NOTIFY_STOP_MASK = NOTIFY_STOP_MASK then (ret', env') else call_list call val bs ret' env')"

lemma nb_seg_append [simp]: "nb_seg mem p (xs @ ys) q \<longleftrightarrow> (\<exists>r. nb_seg mem p xs r \<and> nb_seg mem r ys q)"
  by (induction xs arbitrary: p) auto

lemma nb_seg_cong:
  "nb_seg mem p bs q \<Longrightarrow> (\<And>b. b \<in> set bs \<Longrightarrow> nb_next (mem' b) = nb_next (mem b)) \<Longrightarrow> nb_seg mem' p bs q"
  by (induction bs arbitrary: p) auto

text \<open>The slot behind a prefix of the chain: what it holds, and what writing it does to the list.\<close>

definition slot_at :: "nat list \<Rightarrow> nb_slot" where
  "slot_at xs = (if xs = [] then Head_slot else Next_slot (last xs))"

lemma slot_at_simps [simp]: "slot_at [] = Head_slot" "slot_at (xs @ [b]) = Next_slot b"
  by (simp_all add: slot_at_def)

lemma slot_read_at: "nb_seg (nc_mem c) (nc_head c) xs r \<Longrightarrow> slot_read c (slot_at xs) = r"
  by (cases xs rule: rev_cases) auto

lemma slot_write_at:
  assumes "nb_seg (nc_mem c) (nc_head c) xs r" "nb_seg (nc_mem c) q ys None" "distinct (xs @ ys)"
  shows "chain_list (slot_write c (slot_at xs) q) (xs @ ys)"
proof (cases xs rule: rev_cases)
  case (snoc zs b)
  let ?mem = "(nc_mem c)(b := (nc_mem c b)\<lparr>nb_next := q\<rparr>)"
  have "nb_seg ?mem (nc_head c) zs (Some b)"
    by (rule nb_seg_cong [where mem = "nc_mem c"]) (use assms(1,3) snoc in auto)
  moreover have "nb_seg ?mem q ys None"
    by (rule nb_seg_cong [where mem = "nc_mem c"]) (use assms(2,3) snoc in auto)
  ultimately show ?thesis using assms(3) snoc by (auto simp: chain_list_def)
qed (use assms in \<open>simp add: chain_list_def\<close>)

section \<open>The operations on the list\<close>

lemma insert_prio_split:
  "insert_prio prio n bs = takeWhile (\<lambda>b. prio n \<le> prio b) bs @ n # dropWhile (\<lambda>b. prio n \<le> prio b) bs"
  by (induction bs) auto

lemma register_walk_list:
  assumes "nb_seg (nc_mem c) (nc_head c) xs r" "nb_seg (nc_mem c) r bs None"
  shows "register_walk c p (slot_at xs) = Some (slot_at (xs @ takeWhile (\<lambda>b. p \<le> priority (nc_mem c b)) bs))"
  using assms
proof (induction bs arbitrary: xs r)
  case Nil
  then show ?case by (subst register_walk.simps) (simp add: slot_read_at)
next
  case (Cons b bs)
  then have r: "slot_read c (slot_at xs) = Some b" by (simp add: slot_read_at)
  show ?case using Cons(2,3) Cons(1) [of "xs @ [b]" "nb_next (nc_mem c b)"]
    by (subst register_walk.simps) (simp add: r)
qed

lemma notifier_chain_register_list:
  assumes l: "chain_list c bs" and n: "n \<notin> set bs"
  obtains c' where "notifier_chain_register mid c n = Some (0, c')"
    "chain_list c' (insert_prio (\<lambda>b. priority (nc_mem c b)) n bs)"
    "\<And>b. priority (nc_mem c' b) = priority (nc_mem c b)"
    "notifier_chain.more c' = notifier_chain.more c"
proof -
  let ?P = "\<lambda>b. priority (nc_mem c n) \<le> priority (nc_mem c b)"
  let ?xs = "takeWhile ?P bs" and ?ys = "dropWhile ?P bs"
  let ?q = "slot_read c (slot_at ?xs)"
  let ?c1 = "c\<lparr>nc_mem := (nc_mem c)(n := (nc_mem c n)\<lparr>nb_next := ?q, modID := mid\<rparr>)\<rparr>"
  have w: "register_walk c (priority (nc_mem c n)) Head_slot = Some (slot_at ?xs)"
    using register_walk_list [of c "[]" "nc_head c" bs] l by (simp add: chain_list_def)
  have "nb_seg (nc_mem c) (nc_head c) (?xs @ ?ys) None" using l by (simp add: chain_list_def)
  then have s: "nb_seg (nc_mem c) (nc_head c) ?xs ?q" "nb_seg (nc_mem c) ?q ?ys None"
    by (auto simp: slot_read_at simp del: takeWhile_dropWhile_id)
  have d: "distinct (?xs @ ?ys)" "n \<notin> set (?xs @ ?ys)" using l n by (simp_all add: chain_list_def)
  then have "n \<notin> set ?xs" "n \<notin> set ?ys" "distinct (?xs @ n # ?ys)" by (simp_all del: takeWhile_dropWhile_id)
  then have "chain_list (slot_write ?c1 (slot_at ?xs) (Some n)) (?xs @ n # ?ys)"
    by (intro slot_write_at [where r = ?q])
       (auto intro: nb_seg_cong [OF s(1)] nb_seg_cong [OF s(2)] simp del: takeWhile_dropWhile_id)
  moreover have "notifier_chain_register mid c n = Some (0, slot_write ?c1 (slot_at ?xs) (Some n))"
    by (simp add: notifier_chain_register_def w)
  moreover have "priority (nc_mem (slot_write ?c1 (slot_at ?xs) (Some n)) b) = priority (nc_mem c b)" for b
    by (cases "slot_at ?xs") auto
  moreover have "notifier_chain.more (slot_write ?c1 (slot_at ?xs) (Some n)) = notifier_chain.more c"
    by (cases "slot_at ?xs") auto
  ultimately show ?thesis using that [of "slot_write ?c1 (slot_at ?xs) (Some n)"] by (simp only: insert_prio_split)
qed

lemma unregister_walk_list:
  assumes "nb_seg (nc_mem c) (nc_head c) xs r" "nb_seg (nc_mem c) r bs None"
  shows "unregister_walk c n (slot_at xs) =
     Some (if n \<in> set bs then (0, slot_write c (slot_at (xs @ takeWhile (\<lambda>b. b \<noteq> n) bs)) (nb_next (nc_mem c n)))
           else (- NB_ENOENT, c))"
  using assms
proof (induction bs arbitrary: xs r)
  case Nil
  then show ?case by (subst unregister_walk.simps) (simp add: slot_read_at)
next
  case (Cons b bs)
  then have r: "slot_read c (slot_at xs) = Some b" by (simp add: slot_read_at)
  show ?case using Cons(2,3) Cons(1) [of "xs @ [b]" "nb_next (nc_mem c b)"]
    by (subst unregister_walk.simps) (simp add: r)
qed

lemma notifier_chain_unregister_list:
  assumes l: "chain_list c bs"
  obtains c' where "notifier_chain_unregister c n = Some (if n \<in> set bs then 0 else - NB_ENOENT, c')"
    "chain_list c' (remove1 n bs)" "n \<notin> set bs \<Longrightarrow> c' = c"
    "\<And>b. priority (nc_mem c' b) = priority (nc_mem c b)"
    "notifier_chain.more c' = notifier_chain.more c"
proof (cases "n \<in> set bs")
  case False
  then show ?thesis using that [of c] l unregister_walk_list [of c "[]" "nc_head c" bs n]
    by (simp add: chain_list_def notifier_chain_unregister_def remove1_idem)
next
  case True
  then obtain xs ys where b: "bs = xs @ n # ys" "n \<notin> set xs" by (meson split_list_first)
  have w: "notifier_chain_unregister c n = Some (0, slot_write c (slot_at xs) (nb_next (nc_mem c n)))"
    using unregister_walk_list [of c "[]" "nc_head c" bs n] l b
    by (simp add: chain_list_def notifier_chain_unregister_def takeWhile_append)
  obtain r where "nb_seg (nc_mem c) (nc_head c) xs r" "nb_seg (nc_mem c) (nb_next (nc_mem c n)) ys None"
    "distinct (xs @ ys)" using l b by (auto simp: chain_list_def)
  then have "chain_list (slot_write c (slot_at xs) (nb_next (nc_mem c n))) (xs @ ys)" by (rule slot_write_at)
  then show ?thesis using that [of "slot_write c (slot_at xs) (nb_next (nc_mem c n))"] w b
    by (cases "slot_at xs") (auto simp: remove1_append)
qed

lemma call_walk_list: "nb_seg (nc_mem c) p bs None \<Longrightarrow> call_walk call c val p ret env = Some (call_list call val bs ret env)"
proof (induction bs arbitrary: p ret env)
  case (Cons b bs)
  then show ?case by (subst call_walk.simps) (auto simp: Let_def split: prod.splits)
qed (subst call_walk.simps, simp)

section \<open>Inserting by priority is stable sorting\<close>

lemma insert_prio_mset [simp]: "mset (insert_prio prio n bs) = add_mset n (mset bs)"
  by (induction bs) auto

lemma insert_prio_set [simp]: "set (insert_prio prio n bs) = insert n (set bs)"
  by (induction bs) auto

lemma insert_prio_sorted:
  "sorted (map (\<lambda>b. - prio b) bs) \<Longrightarrow> sorted (map (\<lambda>b. - prio b) (insert_prio prio n bs))"
  by (induction bs) auto

lemma insert_prio_stable:
  "sorted (map (\<lambda>b. - prio b) bs) \<Longrightarrow>
   filter (\<lambda>x. prio x = k) (insert_prio prio n bs) = filter (\<lambda>x. prio x = k) bs @ (if prio n = k then [n] else [])"
proof (induction bs)
  case (Cons b bs)
  have "filter (\<lambda>x. prio x = k) (b # bs) = []" if "prio n > prio b" "prio n = k"
    using Cons(2) that by (fastforce simp: filter_empty_conv)
  then show ?case using Cons by auto
qed simp

lemma insert_prio_sort_key:
  "insert_prio prio n (sort_key (\<lambda>b. - prio b) ys) = sort_key (\<lambda>b. - prio b) (ys @ [n])"
proof (rule properties_for_sort_key [symmetric])
  let ?s = "sort_key (\<lambda>b. - prio b) ys"
  show "sorted (map (\<lambda>b. - prio b) (insert_prio prio n ?s))" by (rule insert_prio_sorted) simp
  fix k
  have "filter (\<lambda>x. prio x = prio k) ?s = filter (\<lambda>x. prio x = prio k) ys"
    using sort_key_stable [of "\<lambda>b. - prio b" "- prio k" ys] by simp
  then show "filter (\<lambda>x. - prio k = - prio x) (insert_prio prio n ?s) = filter (\<lambda>x. - prio k = - prio x) (ys @ [n])"
    using insert_prio_stable [of prio ?s "prio k" n] by (auto simp: eq_commute)
qed simp

lemma remove1_sort_key: "distinct ys \<Longrightarrow> remove1 n (sort_key f ys) = sort_key f (remove1 n ys)"
  by (simp add: distinct_remove1_removeAll removeAll_filter_not_eq filter_sort)

section \<open>Sequences of registrations\<close>

datatype nb_op = Nb_register nat | Nb_unregister nat

fun nb_run :: "nat \<Rightarrow> blocking_notifier_head \<Rightarrow> nb_op list \<Rightarrow> (int list \<times> blocking_notifier_head) option" where
  "nb_run mid nh [] = Some ([], nh)"
| "nb_run mid nh (x # xs) =
     do {
       (r, nh1) \<leftarrow> (case x of Nb_register n \<Rightarrow> blocking_notifier_chain_register mid nh n
                          | Nb_unregister n \<Rightarrow> blocking_notifier_chain_unregister nh n);
       (rs, nh2) \<leftarrow> nb_run mid nh1 xs;
       Some (r # rs, nh2)
     }"

text \<open>The registered blocks in the order of their registration, which no block enters twice, and the
  results a client expects.\<close>

fun reg_step :: "nat list \<Rightarrow> nb_op \<Rightarrow> nat list" where
  "reg_step ys (Nb_register n) = ys @ [n]"
| "reg_step ys (Nb_unregister n) = remove1 n ys"

fun ops_ok :: "nat list \<Rightarrow> nb_op list \<Rightarrow> bool" where
  "ops_ok ys [] \<longleftrightarrow> True"
| "ops_ok ys (x # xs) \<longleftrightarrow> (case x of Nb_register n \<Rightarrow> n \<notin> set ys | _ \<Rightarrow> True) \<and> ops_ok (reg_step ys x) xs"

fun op_results :: "nat list \<Rightarrow> nb_op list \<Rightarrow> int list" where
  "op_results ys [] = []"
| "op_results ys (x # xs) =
     (case x of Nb_unregister n \<Rightarrow> (if n \<in> set ys then 0 else - NB_ENOENT) | _ \<Rightarrow> 0) # op_results (reg_step ys x) xs"

definition nb_order :: "(nat \<Rightarrow> int) \<Rightarrow> nat list \<Rightarrow> nat list" where
  "nb_order prio ys = sort_key (\<lambda>b. - prio b) ys"

text \<open>The semaphore is free between operations and the chain is the sorted list.\<close>

definition nb_inv :: "(nat \<Rightarrow> int) \<Rightarrow> nat list \<Rightarrow> blocking_notifier_head \<Rightarrow> bool" where
  "nb_inv prio ys nh \<longleftrightarrow> bn_rwsem nh = Rw_free \<and> distinct ys \<and> (\<forall>b. priority (nc_mem nh b) = prio b) \<and>
     chain_list nh (nb_order prio ys)"

lemma chain_list_update [simp]: "chain_list (nh\<lparr>bn_rwsem := s\<rparr>) bs = chain_list nh bs"
  by (simp add: chain_list_def)

lemma blocking_register_inv:
  assumes "nb_inv prio ys nh" "n \<notin> set ys"
  shows "\<exists>nh'. blocking_notifier_chain_register mid nh n = Some (0, nh') \<and> nb_inv prio (ys @ [n]) nh'"
proof -
  let ?nh = "nh\<lparr>bn_rwsem := Rw_write\<rparr>"
  have p: "(\<lambda>b. priority (nc_mem ?nh b)) = prio" using assms(1) by (simp add: nb_inv_def)
  have "chain_list ?nh (nb_order prio ys)" "n \<notin> set (nb_order prio ys)"
    using assms by (simp_all add: nb_inv_def nb_order_def)
  from this obtain c' where "notifier_chain_register mid ?nh n = Some (0, c')"
    "chain_list c' (insert_prio prio n (nb_order prio ys))" "\<And>b. priority (nc_mem c' b) = prio b"
    unfolding p [symmetric] by (rule notifier_chain_register_list [where mid = mid]) blast
  then show ?thesis using assms
    by (simp add: blocking_notifier_chain_register_def nb_inv_def up_write_def nb_order_def insert_prio_sort_key)
qed

lemma blocking_unregister_inv:
  assumes "nb_inv prio ys nh"
  shows "\<exists>nh'. blocking_notifier_chain_unregister nh n = Some (if n \<in> set ys then 0 else - NB_ENOENT, nh') \<and>
               nb_inv prio (remove1 n ys) nh'"
proof -
  let ?nh = "nh\<lparr>bn_rwsem := Rw_write\<rparr>"
  have p: "(\<lambda>b. priority (nc_mem ?nh b)) = prio" using assms(1) by (simp add: nb_inv_def)
  have "chain_list ?nh (nb_order prio ys)" using assms by (simp add: nb_inv_def)
  from this obtain c' where "notifier_chain_unregister ?nh n = Some (if n \<in> set (nb_order prio ys) then 0 else - NB_ENOENT, c')"
    "chain_list c' (remove1 n (nb_order prio ys))" "\<And>b. priority (nc_mem c' b) = prio b"
    unfolding p [symmetric] by (rule notifier_chain_unregister_list [where n = n]) blast
  then show ?thesis using assms
    by (simp add: blocking_notifier_chain_unregister_def nb_inv_def up_write_def nb_order_def remove1_sort_key)
qed

lemma nb_run_inv:
  "nb_inv prio ys nh \<Longrightarrow> ops_ok ys xs \<Longrightarrow>
   \<exists>nh'. nb_run mid nh xs = Some (op_results ys xs, nh') \<and> nb_inv prio (foldl reg_step ys xs) nh'"
proof (induction xs arbitrary: ys nh)
  case (Cons x xs)
  show ?case
  proof (cases x)
    case (Nb_register n)
    then obtain nh1 where "blocking_notifier_chain_register mid nh n = Some (0, nh1)" "nb_inv prio (ys @ [n]) nh1"
      using blocking_register_inv Cons(2,3) by fastforce
    then show ?thesis using Cons(1) [of "ys @ [n]" nh1] Cons(3) Nb_register by auto
  next
    case (Nb_unregister n)
    then obtain nh1 where "blocking_notifier_chain_unregister nh n = Some (if n \<in> set ys then 0 else - NB_ENOENT, nh1)"
      "nb_inv prio (remove1 n ys) nh1"
      using blocking_unregister_inv [OF Cons(2)] by blast
    then show ?thesis using Cons(1) [of "remove1 n ys" nh1] Cons(3) Nb_unregister by auto
  qed
qed simp

section \<open>Properties\<close>

text \<open>C25: On an empty blocking chain, every sequence of registrations (of blocks that are not registered)
  and unregistrations returns: a registration gives 0, an unregistration 0 or \<open>-ENOENT\<close> for a block that
  is not registered. Afterwards the linked blocks are exactly the registered ones, in descending
  order of priority and, among equal priorities, in the order of registration, and the semaphore is free.\<close>

theorem notifier_chain_order:
  assumes "nc_head nh = None" "bn_rwsem nh = Rw_free" "ops_ok [] xs"
  shows "\<exists>nh'. nb_run mid nh xs = Some (op_results [] xs, nh') \<and> bn_rwsem nh' = Rw_free \<and>
     chain_list nh' (sort_key (\<lambda>b. - priority (nc_mem nh b)) (foldl reg_step [] xs))"
proof -
  have "nb_inv (\<lambda>b. priority (nc_mem nh b)) [] nh"
    using assms by (simp add: nb_inv_def nb_order_def chain_list_def)
  from nb_run_inv [OF this assms(3)] show ?thesis by (auto simp: nb_inv_def nb_order_def)
qed

definition nb_example :: blocking_notifier_head where
  "nb_example = \<lparr>nc_head = None, nc_mem = (\<lambda>b. \<lparr>nb_next = None, priority = int (b mod 3), modID = 0\<rparr>), bn_rwsem = Rw_free\<rparr>"

theorem notifier_chain_order_witness:
  "\<exists>nh'. nb_run 4 nb_example [Nb_register 1, Nb_register 2, Nb_unregister 9, Nb_register 4, Nb_register 5, Nb_unregister 2] =
       Some ([0, 0, -2, 0, 0, 0], nh') \<and> chain_list nh' [5, 1, 4]"
  using notifier_chain_order
    [of nb_example "[Nb_register 1, Nb_register 2, Nb_unregister 9, Nb_register 4, Nb_register 5, Nb_unregister 2]" 4]
  by (auto simp: nb_example_def)

text \<open>A call of a blocking chain that holds the blocks \<open>bs\<close> returns, whatever the callbacks do to their
  state: it calls the blocks in the order of the chain, stops behind the first one whose result has
  \<open>NOTIFY_STOP_MASK\<close> set, returns the last result (\<open>NOTIFY_DONE\<close> from an empty chain) and leaves chain and
  semaphore as they were.\<close>

theorem notifier_call_chain_order:
  assumes "chain_list nh bs" "bn_rwsem nh = Rw_free"
  shows "blocking_notifier_call_chain call nh val env =
     (case call_list call val bs 0 env of (ret, env') \<Rightarrow> Some (ret, env', nh))"
  using assms call_walk_list [of "nh\<lparr>bn_rwsem := Rw_read 1\<rparr>" "nc_head nh" bs call val 0 env]
  by (cases nh) (simp add: blocking_notifier_call_chain_def notifier_call_chain_def chain_list_def split: prod.split)

text \<open>Block 7 comes behind block 5, which stops the call.\<close>

theorem notifier_call_chain_order_witness:
  "blocking_notifier_call_chain (\<lambda>b val log. (if b = 5 then 0x8001 else 1, log @ [b]))
     \<lparr>nc_head = Some 3, nc_mem = (\<lambda>b. \<lparr>nb_next = if b = 3 then Some 5 else if b = 5 then Some 7 else None,
                                        priority = 0, modID = 0\<rparr>), bn_rwsem = Rw_free\<rparr> 2 [] =
   Some (0x8001, [3, 5], \<lparr>nc_head = Some 3, nc_mem = (\<lambda>b. \<lparr>nb_next = if b = 3 then Some 5 else if b = 5 then Some 7 else None,
                                        priority = 0, modID = 0\<rparr>), bn_rwsem = Rw_free\<rparr>)"
  by (subst notifier_call_chain_order [where bs = "[3, 5, 7]"]) (simp_all add: chain_list_def)

end
