(* ===== verification/Sort.thy ===== *)
theory Sort
  imports Prelude
begin

text \<open>
  The heapsort of \<^verbatim>\<open>vmklinux26/linux/lib/sort.c\<close>. The array is the list of its bytes; the counters
  are byte offsets of type \<open>int\<close>, and every comparison and sum with \<open>size\<close> happens in \<open>size_t\<close>, as the
  C conversions say. An access outside the array or a loop that does not end is \<^term>\<open>None\<close>. The
  theorem shows that an array of up to 1 GiB is sorted and its elements permuted, for every
  comparison that is a total preorder.
\<close>

section \<open>C arithmetic\<close>

text \<open>Conversion to \<open>int\<close> and to \<open>size_t\<close>; both forget only high bits, so that a sum that goes through
  \<open>size_t\<close> before it is stored in an \<open>int\<close> is written with one conversion.\<close>

definition i32 :: "int \<Rightarrow> int" where
  "i32 x = signed_take_bit 31 x"

definition szt :: "int \<Rightarrow> int" where
  "szt x = x mod 2 ^ 64"

section \<open>Swapping\<close>

definition slice :: "u8 list \<Rightarrow> int \<Rightarrow> int \<Rightarrow> u8 list option" where
  "slice mem off len =
     (if 0 \<le> off \<and> 0 \<le> len \<and> off + len \<le> int (length mem) then Some (take (nat len) (drop (nat off) mem)) else None)"

definition u32_swap :: "u8 list \<Rightarrow> int \<Rightarrow> int \<Rightarrow> int \<Rightarrow> u8 list option" where
  "u32_swap mem a b sz =
     do {
       t \<leftarrow> slice mem a 4;
       y \<leftarrow> slice mem b 4;
       mem1 \<leftarrow> blit mem (nat a) y;
       blit mem1 (nat b) t
     }"

function generic_swap :: "u8 list \<Rightarrow> int \<Rightarrow> int \<Rightarrow> int \<Rightarrow> u8 list option" where
  "generic_swap mem a b sz =
     do {
       t \<leftarrow> buf_get mem a;
       y \<leftarrow> buf_get mem b;
       mem1 \<leftarrow> buf_set mem a y;
       mem2 \<leftarrow> buf_set mem1 b t;
       if sz - 1 > 0 then generic_swap mem2 (a + 1) (b + 1) (sz - 1) else Some mem2
     }"
  by pat_completeness auto

termination generic_swap
  by (relation "measure (\<lambda>(mem, a, b, sz). nat sz)") auto

declare generic_swap.simps [simp del]

section \<open>The heapsort\<close>

type_synonym swap_fun = "u8 list \<Rightarrow> int \<Rightarrow> int \<Rightarrow> int \<Rightarrow> u8 list option"

text \<open>The inner loop, the same in both phases: \<open>n\<close> is the end of the heap.\<close>

partial_function (option) sift_down ::
  "(u8 list \<Rightarrow> u8 list \<Rightarrow> int) \<Rightarrow> swap_fun \<Rightarrow> int \<Rightarrow> int \<Rightarrow> u8 list \<Rightarrow> int \<Rightarrow> u8 list option" where
  "sift_down cmp swp sz n mem r =
     (if szt (i32 (r * 2) + sz) < szt n
      then do {
        let c = i32 (i32 (r * 2) + sz);
        c \<leftarrow> (if szt c < szt (n - sz)
             then do {
               x \<leftarrow> slice mem c sz;
               y \<leftarrow> slice mem (c + sz) sz;
               Some (if cmp x y < 0 then i32 (c + sz) else c)
             }
             else Some c);
        x \<leftarrow> slice mem r sz;
        y \<leftarrow> slice mem c sz;
        if cmp x y \<ge> 0 then Some mem
        else do {
          mem' \<leftarrow> swp mem r c (i32 sz);
          sift_down cmp swp sz n mem' c
        }
      }
      else Some mem)"

partial_function (option) heapify ::
  "(u8 list \<Rightarrow> u8 list \<Rightarrow> int) \<Rightarrow> swap_fun \<Rightarrow> int \<Rightarrow> int \<Rightarrow> u8 list \<Rightarrow> int \<Rightarrow> u8 list option" where
  "heapify cmp swp sz n mem i =
     (if i \<ge> 0
      then do {
        mem1 \<leftarrow> sift_down cmp swp sz n mem i;
        heapify cmp swp sz n mem1 (i32 (i - sz))
      }
      else Some mem)"

partial_function (option) sort_heap ::
  "(u8 list \<Rightarrow> u8 list \<Rightarrow> int) \<Rightarrow> swap_fun \<Rightarrow> int \<Rightarrow> u8 list \<Rightarrow> int \<Rightarrow> u8 list option" where
  "sort_heap cmp swp sz mem i =
     (if i \<ge> 0
      then do {
        mem1 \<leftarrow> swp mem 0 i (i32 sz);
        mem2 \<leftarrow> sift_down cmp swp sz i mem1 0;
        sort_heap cmp swp sz mem2 (i32 (i - sz))
      }
      else Some mem)"

definition sort_array ::
  "u8 list \<Rightarrow> int \<Rightarrow> int \<Rightarrow> (u8 list \<Rightarrow> u8 list \<Rightarrow> int) \<Rightarrow> swap_fun option \<Rightarrow> u8 list option" where
  "sort_array base num sz cmp swap =
     (let i = i32 ((num div 2 - 1) * sz);
          n = i32 (num * sz);
          swp = (case swap of Some f \<Rightarrow> f | None \<Rightarrow> if sz = 4 then u32_swap else generic_swap)
      in do {
        mem \<leftarrow> heapify cmp swp sz n base i;
        sort_heap cmp swp sz mem (i32 (n - sz))
      })"

section \<open>Elements\<close>

text \<open>The array as the list of its elements.\<close>

definition elems :: "nat \<Rightarrow> nat \<Rightarrow> u8 list \<Rightarrow> u8 list list" where
  "elems sz num mem = map (\<lambda>k. take sz (drop (k * sz) mem)) [0..<num]"

definition swapped :: "'a list \<Rightarrow> nat \<Rightarrow> nat \<Rightarrow> 'a list" where
  "swapped xs a b = xs[a := xs ! b, b := xs ! a]"

text \<open>What a swap function has to do: exchange two elements of an array of \<open>num\<close> elements.\<close>

definition swap_ok :: "nat \<Rightarrow> nat \<Rightarrow> swap_fun \<Rightarrow> bool" where
  "swap_ok sz num swp \<longleftrightarrow> (\<forall>mem a b. length mem = num * sz \<and> a < num \<and> b < num \<longrightarrow>
     (\<exists>mem'. swp mem (int (a * sz)) (int (b * sz)) (int sz) = Some mem' \<and> length mem' = length mem \<and>
             elems sz num mem' = swapped (elems sz num mem) a b))"

lemma elems_length [simp]: "length (elems sz num mem) = num"
  by (simp add: elems_def)

lemma elems_nth [simp]: "k < num \<Longrightarrow> elems sz num mem ! k = take sz (drop (k * sz) mem)"
  by (simp add: elems_def)

lemma elem_bound: "k < num \<Longrightarrow> k * sz + sz \<le> num * (sz::nat)"
  by (metis Suc_leI add.commute mult_Suc mult_le_mono1)

lemma slice_elem:
  assumes "length mem = num * sz" "k < num"
  shows "slice mem (int k * int sz) (int sz) = Some (elems sz num mem ! k)"
proof -
  have "int k * int sz + int sz \<le> int (length mem)"
    using elem_bound [OF assms(2), of sz] assms(1)
    by (metis of_nat_add of_nat_le_iff of_nat_mult)
  then show ?thesis using assms(2)
    by (simp add: slice_def) (simp add: of_nat_mult [symmetric] del: of_nat_mult)
qed

lemma elems_eqI:
  assumes "length mem' = num * sz" "length mem = num * sz"
    and "\<And>k t. k < num \<Longrightarrow> t < sz \<Longrightarrow> mem' ! (k * sz + t) = xs ! k ! t"
    and "length xs = num" "\<And>k. k < num \<Longrightarrow> length (xs ! k) = sz"
  shows "elems sz num mem' = xs"
proof (rule nth_equalityI)
  fix k assume "k < length (elems sz num mem')"
  then have k: "k < num" by simp
  then have "k * sz + sz \<le> length mem'" using elem_bound assms(1) by simp
  then show "elems sz num mem' ! k = xs ! k"
    using assms(3-5) k by (intro nth_equalityI) auto
qed (simp add: assms(4))

section \<open>The swap functions exchange two elements\<close>

definition block_index :: "nat \<Rightarrow> nat \<Rightarrow> nat \<Rightarrow> nat \<Rightarrow> nat" where
  "block_index a b s j = (if a \<le> j \<and> j < a + s then b + (j - a) else if b \<le> j \<and> j < b + s then a + (j - b) else j)"

definition blocks_swapped :: "u8 list \<Rightarrow> nat \<Rightarrow> nat \<Rightarrow> nat \<Rightarrow> u8 list \<Rightarrow> bool" where
  "blocks_swapped mem a b s mem' \<longleftrightarrow>
     length mem' = length mem \<and> (\<forall>j < length mem. mem' ! j = mem ! block_index a b s j)"

definition apart :: "nat \<Rightarrow> nat \<Rightarrow> nat \<Rightarrow> bool" where
  "apart a b s \<longleftrightarrow> a = b \<or> a + s \<le> b \<or> b + s \<le> a"

lemma block_index_1: "block_index a b (Suc 0) j = (if j = a then b else if j = b then a else j)"
  by (auto simp: block_index_def)

lemma block_index_Suc:
  assumes "apart a b (Suc s)"
  shows "block_index a b (Suc s) j =
    (let i = block_index (a + 1) (b + 1) s j in if i = a then b else if i = b then a else i)"
proof (cases "a \<le> j \<and> j < a + Suc s")
  case True
  then show ?thesis using assms by (cases "j = a") (simp_all add: block_index_def apart_def Let_def, linarith+)
next
  case nota: False
  show ?thesis
  proof (cases "b \<le> j \<and> j < b + Suc s")
    case True
    then show ?thesis using assms nota by (cases "j = b") (auto simp: block_index_def apart_def Let_def)
  next
    case False
    then show ?thesis using nota by (auto simp: block_index_def Let_def)
  qed
qed

lemma block_index_elem:
  assumes "t < sz"
  shows "block_index (a * sz) (b * sz) sz (k * sz + t) = (if k = a then b * sz + t else if k = b then a * sz + t else k * sz + t)"
proof -
  have "c * sz \<le> k * sz + t \<and> k * sz + t < c * sz + sz \<longleftrightarrow> k = c" for c
  proof
    assume "c * sz \<le> k * sz + t \<and> k * sz + t < c * sz + sz"
    then have "(k * sz + t) div sz = c" by (intro div_nat_eqI) (auto simp: mult.commute)
    then show "k = c" using assms by simp
  qed (use assms in auto)
  then show ?thesis by (simp add: block_index_def)
qed

lemma blocks_swapped_elems:
  assumes "blocks_swapped mem (a * sz) (b * sz) sz mem'" "length mem = num * sz" "a < num" "b < num"
  shows "elems sz num mem' = swapped (elems sz num mem) a b"
proof (rule elems_eqI [where mem = mem])
  have l: "k * sz + sz \<le> length mem" if "k < num" for k using elem_bound [OF that] assms(2) by simp
  show "length (swapped (elems sz num mem) a b ! k) = sz" if "k < num" for k
    using l [OF that] l [OF assms(3)] l [OF assms(4)] that by (simp add: swapped_def nth_list_update assms)
  fix k t assume k: "k < num" and t: "t < sz"
  have "mem' ! (k * sz + t) = mem ! block_index (a * sz) (b * sz) sz (k * sz + t)"
    using assms(1) l [OF k] t by (simp add: blocks_swapped_def)
  then show "mem' ! (k * sz + t) = swapped (elems sz num mem) a b ! k ! t"
    using l [OF k] l [OF assms(3)] l [OF assms(4)] k t assms(3,4)
    by (simp add: block_index_elem swapped_def nth_list_update)
qed (use assms in \<open>simp_all add: blocks_swapped_def swapped_def\<close>)

lemma apart_elems: "apart (a * sz) (b * sz) sz"
proof (cases a b rule: linorder_cases)
  case less
  then show ?thesis using elem_bound [of a b sz] by (simp add: apart_def)
next
  case greater
  then show ?thesis using elem_bound [of b a sz] by (simp add: apart_def)
qed (simp add: apart_def)

lemma generic_swap_blocks:
  assumes "a + s \<le> length mem" "b + s \<le> length mem" "apart a b s" "0 < s"
  shows "\<exists>mem'. generic_swap mem (int a) (int b) (int s) = Some mem' \<and> blocks_swapped mem a b s mem'"
  using assms
proof (induction s arbitrary: mem a b)
  case (Suc s)
  let ?m = "mem[a := mem ! b, b := mem ! a]"
  have step: "generic_swap mem (int a) (int b) (int (Suc s)) =
      (if s > 0 then generic_swap ?m (int (a + 1)) (int (b + 1)) (int s) else Some ?m)"
    using Suc(2,3) by (subst generic_swap.simps) (simp add: buf_simps add.commute)
  have one: "?m ! j = mem ! (if j = a then b else if j = b then a else j)" if "j < length mem" for j
    using that Suc(2,3) by (auto simp: nth_list_update)
  show ?case
  proof (cases "s = 0")
    case True
    then have "generic_swap mem (int a) (int b) (int (Suc s)) = Some ?m" using step by simp
    moreover have "blocks_swapped mem a b (Suc s) ?m"
      unfolding blocks_swapped_def True block_index_1 by (intro conjI allI impI) (simp, rule one)
    ultimately show ?thesis by blast
  next
    case False
    then obtain mem' where m: "generic_swap ?m (int (a + 1)) (int (b + 1)) (int s) = Some mem'"
      "blocks_swapped ?m (a + 1) (b + 1) s mem'"
      using Suc(1) [of "a + 1" ?m "b + 1"] Suc(2-4) by (auto simp: apart_def)
    have "mem' ! j = mem ! block_index a b (Suc s) j" if j: "j < length mem" for j
    proof -
      have i: "block_index (a + 1) (b + 1) s j < length mem"
        using j Suc(2,3) by (auto simp: block_index_def)
      have "mem' ! j = ?m ! block_index (a + 1) (b + 1) s j" using m(2) j by (simp add: blocks_swapped_def)
      also have "\<dots> = mem ! block_index a b (Suc s) j"
        unfolding one [OF i] block_index_Suc [OF Suc(4)] Let_def ..
      finally show ?thesis .
    qed
    then have "blocks_swapped mem a b (Suc s) mem'" using m(2) by (simp add: blocks_swapped_def)
    moreover have "generic_swap mem (int a) (int b) (int (Suc s)) = Some mem'"
      unfolding step using m(1) False by simp
    ultimately show ?thesis by blast
  qed
qed simp

lemma overwrite_nth:
  assumes "off + length ys \<le> length xs" "j < length xs"
  shows "(take off xs @ ys @ drop (off + length ys) xs) ! j = (if off \<le> j \<and> j < off + length ys then ys ! (j - off) else xs ! j)"
  using assms by (auto simp: nth_append min_def)

lemma u32_swap_blocks:
  assumes "a + 4 \<le> length mem" "b + 4 \<le> length mem" "apart a b 4"
  shows "\<exists>mem'. u32_swap mem (int a) (int b) s = Some mem' \<and> blocks_swapped mem a b 4 mem'"
proof -
  let ?x = "take 4 (drop a mem)" and ?y = "take 4 (drop b mem)"
  let ?m1 = "take a mem @ ?y @ drop (a + length ?y) mem"
  let ?m2 = "take b ?m1 @ ?x @ drop (b + length ?x) ?m1"
  have l: "length ?x = 4" "length ?y = 4" "length ?m1 = length mem" using assms by simp_all
  have "u32_swap mem (int a) (int b) s = Some ?m2"
    using assms(1,2) by (simp add: u32_swap_def slice_def blit_def)
  moreover have "?m2 ! j = mem ! block_index a b 4 j" if "j < length mem" for j
    using overwrite_nth [of b ?x ?m1 j] overwrite_nth [of a ?y mem j] that assms l
    by (auto simp only: block_index_def apart_def nth_take nth_drop split: if_splits)
  ultimately show ?thesis using assms by (auto simp: blocks_swapped_def)
qed

lemma default_swap_ok:
  assumes "0 < sz"
  shows "swap_ok sz num (if sz = 4 then u32_swap else generic_swap)"
  unfolding swap_ok_def
proof (intro allI impI)
  fix mem :: "u8 list" and a b
  assume l: "length mem = num * sz \<and> a < num \<and> b < num"
  then have "a * sz + sz \<le> length mem" "b * sz + sz \<le> length mem" using elem_bound by auto
  then obtain mem' where "(if sz = 4 then u32_swap else generic_swap) mem (int (a * sz)) (int (b * sz)) (int sz) = Some mem'"
    "blocks_swapped mem (a * sz) (b * sz) sz mem'"
    using generic_swap_blocks [of "a * sz" sz mem "b * sz"] u32_swap_blocks [of "a * sz" mem "b * sz" "int sz"]
      apart_elems [of a sz b] assms by (cases "sz = 4") auto
  then show "\<exists>mem'. (if sz = 4 then u32_swap else generic_swap) mem (int (a * sz)) (int (b * sz)) (int sz) = Some mem' \<and>
      length mem' = length mem \<and> elems sz num mem' = swapped (elems sz num mem) a b"
    using l blocks_swapped_elems by (auto simp: blocks_swapped_def)
qed

section \<open>Heaps\<close>

text \<open>The comparison function: total and transitive, as a sign.\<close>

definition cmp_ok :: "('a \<Rightarrow> 'a \<Rightarrow> int) \<Rightarrow> bool" where
  "cmp_ok cmp \<longleftrightarrow> (\<forall>x y. cmp x y < 0 \<longleftrightarrow> cmp y x > 0) \<and> (\<forall>x y z. cmp x y \<ge> 0 \<and> cmp y z \<ge> 0 \<longrightarrow> cmp x z \<ge> 0)"

definition child :: "nat \<Rightarrow> nat \<Rightarrow> bool" where
  "child k j \<longleftrightarrow> j = 2 * k + 1 \<or> j = 2 * k + 2"

text \<open>From \<open>lo\<close> to \<open>n\<close> every element but the one at \<open>r\<close> is at least its children, and the children of
  \<open>r\<close> are at most the parent of \<open>r\<close>.\<close>

definition heap_from :: "('a \<Rightarrow> 'a \<Rightarrow> int) \<Rightarrow> 'a list \<Rightarrow> nat \<Rightarrow> nat \<Rightarrow> bool" where
  "heap_from cmp xs lo n \<longleftrightarrow> (\<forall>k j. lo \<le> k \<and> child k j \<and> j < n \<longrightarrow> cmp (xs ! k) (xs ! j) \<ge> 0)"

definition heap_but :: "('a \<Rightarrow> 'a \<Rightarrow> int) \<Rightarrow> 'a list \<Rightarrow> nat \<Rightarrow> nat \<Rightarrow> nat \<Rightarrow> bool" where
  "heap_but cmp xs lo n r \<longleftrightarrow>
     (\<forall>k j. lo \<le> k \<and> k \<noteq> r \<and> child k j \<and> j < n \<longrightarrow> cmp (xs ! k) (xs ! j) \<ge> 0) \<and>
     (\<forall>k j. lo \<le> k \<and> child k r \<and> child r j \<and> j < n \<longrightarrow> cmp (xs ! k) (xs ! j) \<ge> 0)"

lemma cmp_refl: "cmp_ok cmp \<Longrightarrow> cmp x x \<ge> 0"
  unfolding cmp_ok_def by (metis less_irrefl linorder_not_less order_less_trans)

lemma cmp_neg: "cmp_ok cmp \<Longrightarrow> cmp x y < 0 \<Longrightarrow> cmp y x \<ge> 0"
  unfolding cmp_ok_def by (meson less_imp_le)

lemma cmp_trans: "cmp_ok cmp \<Longrightarrow> cmp x y \<ge> 0 \<Longrightarrow> cmp y z \<ge> 0 \<Longrightarrow> cmp x z \<ge> 0"
  unfolding cmp_ok_def by blast

lemma child_gt: "child k j \<Longrightarrow> k < j"
  by (auto simp: child_def)

lemma child_unique: "child k j \<Longrightarrow> child k' j \<Longrightarrow> k = k'"
  unfolding child_def by presburger

lemma heap_but_start: "heap_from cmp xs (Suc r) n \<Longrightarrow> heap_but cmp xs r n r"
  unfolding heap_but_def heap_from_def by (auto dest: child_gt)

lemma heap_but_root:
  assumes "heap_from cmp xs 0 (Suc i)"
  shows "heap_but cmp (swapped xs 0 i) 0 i 0"
proof -
  have "swapped xs 0 i ! k = xs ! k" if "0 < k" "k < i" for k
    using that by (simp add: swapped_def)
  then show ?thesis using assms unfolding heap_but_def heap_from_def
    by (metis child_gt less_SucI less_nat_zero_code not_gr_zero order.strict_trans)
qed

lemma heap_but_done:
  "heap_but cmp xs lo n r \<Longrightarrow> (\<And>j. child r j \<Longrightarrow> j < n \<Longrightarrow> cmp (xs ! r) (xs ! j) \<ge> 0) \<Longrightarrow> heap_from cmp xs lo n"
  unfolding heap_but_def heap_from_def by metis

text \<open>Exchanging the element with its larger child moves the exception down.\<close>

lemma heap_but_step:
  assumes ok: "cmp_ok cmp" and h: "heap_but cmp xs lo n r" and r: "lo \<le> r" and c: "child r c" "c < n" "n \<le> length xs"
    and big: "\<And>j. child r j \<Longrightarrow> j < n \<Longrightarrow> cmp (xs ! c) (xs ! j) \<ge> 0" and lt: "cmp (xs ! r) (xs ! c) < 0"
  shows "heap_but cmp (swapped xs r c) lo n c"
proof -
  have rc: "r < c" using c by (simp add: child_gt)
  have nth: "swapped xs r c ! k = (if k = r then xs ! c else if k = c then xs ! r else xs ! k)" if "k < n" for k
    using c rc that by (auto simp: swapped_def nth_list_update)
  have "cmp (swapped xs r c ! k) (swapped xs r c ! j) \<ge> 0" if k: "lo \<le> k" "k \<noteq> c" "child k j" "j < n" for k j
  proof (cases "k = r")
    case True
    then show ?thesis using k big [of j] cmp_neg [OF ok lt] rc c(2) by (auto simp: nth dest: child_gt)
  next
    case False
    then have jc: "j \<noteq> c" using child_unique [OF c(1)] k(3) by blast
    have "cmp (xs ! k) (xs ! j) \<ge> 0" using h k False by (auto simp: heap_but_def)
    moreover have "cmp (xs ! k) (xs ! c) \<ge> 0" if "j = r" using h k c that by (auto simp: heap_but_def)
    moreover have "k < n" using child_gt [OF k(3)] k(4) by simp
    ultimately show ?thesis using False k(2,4) jc by (auto simp: nth)
  qed
  moreover have "cmp (swapped xs r c ! k) (swapped xs r c ! j) \<ge> 0" if k: "child k c" "child c j" "j < n" for k j
  proof -
    have "k = r" using child_unique [OF k(1) c(1)] .
    moreover have "cmp (xs ! c) (xs ! j) \<ge> 0" using h k(2,3) r rc by (auto simp: heap_but_def)
    ultimately show ?thesis using k rc c(2) child_gt [OF k(2)] by (auto simp: nth)
  qed
  ultimately show ?thesis unfolding heap_but_def by blast
qed

lemma heap_max:
  assumes ok: "cmp_ok cmp" and h: "heap_from cmp xs 0 n"
  shows "k < n \<Longrightarrow> cmp (xs ! 0) (xs ! k) \<ge> 0"
proof (induction k rule: less_induct)
  case (less k)
  show ?case
  proof (cases "k = 0")
    case False
    then have p: "child ((k - 1) div 2) k" "(k - 1) div 2 < k" unfolding child_def by presburger+
    then have "cmp (xs ! ((k - 1) div 2)) (xs ! k) \<ge> 0" using h less(2) by (auto simp: heap_from_def)
    then show ?thesis using cmp_trans [OF ok less(1)] p(2) less(2) by fastforce
  qed (simp add: cmp_refl [OF ok])
qed

section \<open>The loops\<close>

lemma i32_id: "- 2147483648 \<le> x \<Longrightarrow> x < 2147483648 \<Longrightarrow> i32 x = x"
  by (simp add: i32_def signed_take_bit_int_eq_self_iff)

lemma szt_id: "0 \<le> x \<Longrightarrow> x < 18446744073709551616 \<Longrightarrow> szt x = x"
  by (simp add: szt_def)

text \<open>In an array of at most 1 GiB the counters are exact.\<close>

definition small_array :: "nat \<Rightarrow> nat \<Rightarrow> bool" where
  "small_array sz num \<longleftrightarrow> 0 < sz \<and> num * sz \<le> 2 ^ 30 \<and> sz < 2 ^ 31"

lemma offset_bounds:
  assumes "small_array sz num" "k \<le> num"
  shows "0 \<le> int k * int sz" "int k * int sz \<le> 1073741824"
proof -
  have "k * sz \<le> num * sz" using assms(2) by (rule mult_le_mono1)
  also have "\<dots> \<le> 2 ^ 30" using assms(1) unfolding small_array_def by blast
  finally have "k * sz \<le> 2 ^ 30" .
  then have "int (k * sz) \<le> int (2 ^ 30)" by (simp only: of_nat_le_iff)
  then show "int k * int sz \<le> 1073741824" by simp
qed simp

lemma sift_counters:
  assumes "small_array sz num" "r < num" "N \<le> num"
  shows "i32 (int r * int sz * 2) = int (2 * r) * int sz"
    "szt (int (2 * r) * int sz + int sz) < szt (int N * int sz) \<longleftrightarrow> 2 * r + 1 < N"
    "i32 (int sz) = int sz"
proof -
  have s: "0 < int sz" "int sz < 2147483648" using assms(1) by (simp_all add: small_array_def)
  note b = offset_bounds [OF assms(1) less_imp_le [OF assms(2)]] offset_bounds [OF assms(1,3)]
  have "r * sz + sz \<le> num * sz" by (rule elem_bound [OF assms(2)])
  then have "int (r * sz) + int sz \<le> int (num * sz)" by linarith
  then have lt: "int r * int sz + int sz \<le> 1073741824" using offset_bounds(2) [OF assms(1) order.refl] by simp
  then show "i32 (int r * int sz * 2) = int (2 * r) * int sz"
    using b s by (subst i32_id) (linarith, linarith, simp)
  have "szt (int (2 * r) * int sz + int sz) = int (2 * r) * int sz + int sz" "szt (int N * int sz) = int N * int sz"
    using b s lt by (auto intro!: szt_id simp: mult.assoc)
  moreover have "int (2 * r) * int sz + int sz = int (2 * r + 1) * int sz" by (simp add: algebra_simps)
  ultimately show "szt (int (2 * r) * int sz + int sz) < szt (int N * int sz) \<longleftrightarrow> 2 * r + 1 < N"
    using s by (simp only: mult_less_cancel_right of_nat_less_iff) auto
  show "i32 (int sz) = int sz" using s by (intro i32_id) auto
qed

definition larger_child :: "('a \<Rightarrow> 'a \<Rightarrow> int) \<Rightarrow> 'a list \<Rightarrow> nat \<Rightarrow> nat \<Rightarrow> nat" where
  "larger_child cmp xs N r =
     (if 2 * r + 2 < N \<and> cmp (xs ! (2 * r + 1)) (xs ! (2 * r + 2)) < 0 then 2 * r + 2 else 2 * r + 1)"

lemma larger_child:
  assumes "cmp_ok cmp" "2 * r + 1 < N"
  shows "child r (larger_child cmp xs N r)" "larger_child cmp xs N r < N"
    "child r j \<Longrightarrow> j < N \<Longrightarrow> cmp (xs ! larger_child cmp xs N r) (xs ! j) \<ge> 0"
  using assms cmp_neg [OF assms(1)] cmp_refl [OF assms(1)]
  by (auto simp: larger_child_def child_def not_less)

text \<open>One round of the inner loop, on the elements.\<close>

lemma sift_down_unfold:
  assumes s: "small_array sz num" and r: "r < num" and N: "N \<le> num" and l: "length mem = num * sz"
    and xs_def: "xs = elems sz num mem" and c_def: "c = larger_child cmp xs N r"
  shows "sift_down cmp swp (int sz) (int N * int sz) mem (int r * int sz) =
    (if 2 * r + 1 < N \<and> cmp (xs ! r) (xs ! c) < 0
     then do {
       mem' \<leftarrow> swp mem (int r * int sz) (int c * int sz) (int sz);
       sift_down cmp swp (int sz) (int N * int sz) mem' (int c * int sz)
     }
     else Some mem)"
proof (cases "2 * r + 1 < N")
  case False
  then show ?thesis using sift_counters [OF s r N] by (subst sift_down.simps) simp
next
  case True
  note sc = sift_counters [OF s r N]
  have o: "int (2 * r) * int sz + int sz = int (2 * r + 1) * int sz"
    "int (2 * r + 1) * int sz + int sz = int (2 * r + 2) * int sz"
    "int N * int sz - int sz = int (N - 1) * int sz" using True by (simp_all add: algebra_simps of_nat_diff)
  have i: "i32 (int k * int sz) = int k * int sz" "szt (int k * int sz) = int k * int sz" if "k \<le> num" for k
    using offset_bounds [OF s that] by (intro i32_id szt_id; linarith)+
  have s0: "0 < sz" using s by (simp add: small_array_def)
  have lt: "szt (int (2 * r + 1) * int sz) < szt (int (N - 1) * int sz) \<longleftrightarrow> 2 * r + 2 < N"
    using True N s0 by (subst (1 2) i(2)) (auto simp only: mult_less_cancel_right of_nat_less_iff)
  have e: "slice mem (int k * int sz) (int sz) = Some (xs ! k)" if "k < num" for k
    unfolding xs_def by (rule slice_elem [OF l that])
  have c: "(if 2 * r + 2 < N
       then do {
         x \<leftarrow> slice mem (int (2 * r + 1) * int sz) (int sz);
         y \<leftarrow> slice mem (int (2 * r + 2) * int sz) (int sz);
         Some (if cmp x y < 0 then i32 (int (2 * r + 2) * int sz) else int (2 * r + 1) * int sz)
       }
       else Some (int (2 * r + 1) * int sz)) = Some (int c * int sz)"
    using True N i(1) [of "2 * r + 2"] by (simp add: e c_def larger_child_def del: of_nat_add of_nat_mult of_nat_Suc)
  have cn': "2 * r + 1 \<le> num" using True N by simp
  have cn: "c < num" using True N by (auto simp: c_def larger_child_def)
  show ?thesis
    by (subst sift_down.simps, subst (1) sc(1), subst sc(2))
       (simp only: sc(1,3) o lt True simp_thms if_True i(1) [OF cn'] Let_def c, simp add: e r cn)
qed

text \<open>What the inner loop does to the array: it repairs the heap from \<open>lo\<close> on and moves only elements
  of the heap.\<close>

definition sift_result :: "('a \<Rightarrow> 'a \<Rightarrow> int) \<Rightarrow> nat \<Rightarrow> nat \<Rightarrow> 'a list \<Rightarrow> 'a list \<Rightarrow> bool" where
  "sift_result cmp lo N xs ys \<longleftrightarrow>
     mset ys = mset xs \<and> heap_from cmp ys lo N \<and> drop N ys = drop N xs"

lemma swapped_mset: "a < length xs \<Longrightarrow> b < length xs \<Longrightarrow> mset (swapped xs a b) = mset xs"
  by (simp add: swapped_def mset_swap)

lemma swapped_drop: "a < N \<Longrightarrow> b < N \<Longrightarrow> drop N (swapped xs a b) = drop N xs"
  by (simp add: swapped_def)

lemma sift_down_correct:
  assumes s: "small_array sz num" and sw: "swap_ok sz num swp" and ok: "cmp_ok cmp" and N: "N \<le> num"
  shows "length mem = num * sz \<Longrightarrow> lo \<le> r \<Longrightarrow> r < num \<Longrightarrow> heap_but cmp (elems sz num mem) lo N r \<Longrightarrow>
    \<exists>mem'. sift_down cmp swp (int sz) (int N * int sz) mem (int r * int sz) = Some mem' \<and>
           length mem' = num * sz \<and> sift_result cmp lo N (elems sz num mem) (elems sz num mem')"
proof (induction "N - r" arbitrary: mem r rule: less_induct)
  case less
  let ?xs = "elems sz num mem"
  let ?c = "larger_child cmp ?xs N r"
  note u = sift_down_unfold [OF s less(4) N less(2) refl refl, of cmp swp]
  show ?case
  proof (cases "2 * r + 1 < N \<and> cmp (?xs ! r) (?xs ! ?c) < 0")
    case True
    then have r2: "2 * r + 1 < N" by simp
    note lc = larger_child [OF ok r2, where xs = ?xs]
    have c: "?c < num" "r < ?c" using lc N child_gt [OF lc(1)] by auto
    obtain m where m: "swp mem (int (r * sz)) (int (?c * sz)) (int sz) = Some m" "length m = num * sz"
      "elems sz num m = swapped ?xs r ?c"
      using sw less(2,4) c(1) unfolding swap_ok_def by metis
    have "heap_but cmp (elems sz num m) lo N ?c"
      unfolding m(3) using True less(3,5) N lc by (intro heap_but_step [OF ok]) auto
    moreover have "N - ?c < N - r" "lo \<le> ?c" using c lc(2) less(3) by auto
    ultimately obtain m' where m': "sift_down cmp swp (int sz) (int N * int sz) m (int ?c * int sz) = Some m'"
      "length m' = num * sz" "sift_result cmp lo N (elems sz num m) (elems sz num m')"
      using less(1) [of ?c m] m(2) c(1) by auto
    then have "sift_result cmp lo N ?xs (elems sz num m')"
      using swapped_mset [of r ?xs ?c] swapped_drop [of r N ?c ?xs] c lc(2) less(4) m(3) by (simp add: sift_result_def)
    then show ?thesis using u True m(1) m'(1,2) by auto
  next
    case False
    have "cmp (?xs ! r) (?xs ! j) \<ge> 0" if "child r j" "j < N" for j
      using False that larger_child(3) [OF ok _ that, where xs = ?xs] cmp_trans [OF ok]
      by (auto simp: child_def not_less)
    then have "heap_from cmp ?xs lo N" by (rule heap_but_done [OF less(5)])
    then show ?thesis using u False less(2) by (auto simp: sift_result_def)
  qed
qed

text \<open>The outer loops count \<open>m\<close> elements down; the counter is the offset of the last of them.\<close>

lemma outer_counter:
  assumes "small_array sz num" "m \<le> num"
  shows "i32 ((int m - 1) * int sz) = (int m - 1) * int sz" "(int m - 1) * int sz \<ge> 0 \<longleftrightarrow> m \<noteq> 0"
    "i32 (int m * int sz - int sz) = (int m - 1) * int sz"
proof -
  have s: "0 < int sz" "int sz < 2147483648" using assms(1) by (simp_all add: small_array_def)
  have e: "(int m - 1) * int sz = int m * int sz - int sz" by (simp add: algebra_simps)
  then show i: "i32 ((int m - 1) * int sz) = (int m - 1) * int sz"
    using offset_bounds [OF assms] s by (intro i32_id) linarith+
  then show "i32 (int m * int sz - int sz) = (int m - 1) * int sz" by (simp only: e)
  show "(int m - 1) * int sz \<ge> 0 \<longleftrightarrow> m \<noteq> 0" using s by (auto simp: zero_le_mult_iff)
qed

lemma heapify_correct:
  assumes s: "small_array sz num" and sw: "swap_ok sz num swp" and ok: "cmp_ok cmp"
  shows "m \<le> num \<Longrightarrow> length mem = num * sz \<Longrightarrow> heap_from cmp (elems sz num mem) m num \<Longrightarrow>
    \<exists>mem'. heapify cmp swp (int sz) (int num * int sz) mem ((int m - 1) * int sz) = Some mem' \<and>
           length mem' = num * sz \<and> mset (elems sz num mem') = mset (elems sz num mem) \<and>
           heap_from cmp (elems sz num mem') 0 num"
proof (induction m arbitrary: mem)
  case 0
  then show ?case using outer_counter(2) [OF s, of 0] by (subst heapify.simps) simp
next
  case (Suc m)
  have "heap_but cmp (elems sz num mem) m num m" using Suc(4) by (rule heap_but_start)
  then obtain m1 where m1: "sift_down cmp swp (int sz) (int num * int sz) mem (int m * int sz) = Some m1"
    "length m1 = num * sz" "sift_result cmp m num (elems sz num mem) (elems sz num m1)"
    using sift_down_correct [OF s sw ok order.refl Suc(3) order.refl, of m] Suc(2) by auto
  then obtain m' where "heapify cmp swp (int sz) (int num * int sz) m1 ((int m - 1) * int sz) = Some m'"
    "length m' = num * sz" "mset (elems sz num m') = mset (elems sz num mem)" "heap_from cmp (elems sz num m') 0 num"
    using Suc(1) [of m1] Suc(2) by (auto simp: sift_result_def)
  then show ?case using m1(1) outer_counter [OF s, of m] Suc(2)
    by (subst heapify.simps) simp
qed

text \<open>The second loop: a heap in front, sorted elements that are no smaller behind it.\<close>

definition sort_inv :: "('a \<Rightarrow> 'a \<Rightarrow> int) \<Rightarrow> nat \<Rightarrow> 'a list \<Rightarrow> bool" where
  "sort_inv cmp m xs \<longleftrightarrow> heap_from cmp xs 0 m \<and> sorted_wrt (\<lambda>x y. cmp y x \<ge> 0) (drop m xs) \<and>
     (\<forall>x \<in> set (take m xs). \<forall>y \<in> set (drop m xs). cmp y x \<ge> 0)"

lemma sort_inv_step:
  assumes ok: "cmp_ok cmp" and i: "sort_inv cmp (Suc m) xs" and m: "m < length xs"
    and r: "sift_result cmp 0 m (swapped xs 0 m) zs"
  shows "sort_inv cmp m zs"
proof -
  let ?ys = "swapped xs 0 m"
  have d: "drop m zs = xs ! 0 # drop (Suc m) xs"
    using r m by (simp add: sift_result_def swapped_def drop_update_swap Cons_nth_drop_Suc [symmetric])
  have "mset (take m zs) + mset (drop m zs) = mset (take m ?ys) + mset (drop m ?ys)"
    using r by (metis append_take_drop_id mset_append sift_result_def)
  then have t: "set (take m zs) = set (take m ?ys)"
    using r by (metis add_right_cancel set_mset_mset sift_result_def)
  have "set (take m ?ys) \<subseteq> set (take (Suc m) xs)"
  proof
    fix x assume "x \<in> set (take m ?ys)"
    then obtain k where "k < m" "x = ?ys ! k" using m by (auto simp: in_set_conv_nth)
    then have "x = xs ! (if k = 0 then m else k)" using m by (cases m; cases xs) (auto simp: swapped_def nth_list_update)
    then show "x \<in> set (take (Suc m) xs)"
      using nth_mem [of "if k = 0 then m else k" "take (Suc m) xs"] \<open>k < m\<close> m by (auto split: if_splits)
  qed
  then have sub: "set (take m zs) \<subseteq> set (take (Suc m) xs)" using t by simp
  have mx: "cmp (xs ! 0) x \<ge> 0" if "x \<in> set (take (Suc m) xs)" for x
    using heap_max [OF ok, of xs "Suc m"] i that by (auto simp: sort_inv_def in_set_conv_nth)
  have "xs ! 0 \<in> set (take (Suc m) xs)" using m by (cases xs) auto
  then show ?thesis using i r sub mx unfolding sort_inv_def d
    by (auto simp: sift_result_def)
qed

lemma sort_heap_correct:
  assumes s: "small_array sz num" and sw: "swap_ok sz num swp" and ok: "cmp_ok cmp"
  shows "m \<le> num \<Longrightarrow> length mem = num * sz \<Longrightarrow> sort_inv cmp m (elems sz num mem) \<Longrightarrow>
    \<exists>mem'. sort_heap cmp swp (int sz) mem ((int m - 1) * int sz) = Some mem' \<and>
           length mem' = num * sz \<and> mset (elems sz num mem') = mset (elems sz num mem) \<and>
           sort_inv cmp 0 (elems sz num mem')"
proof (induction m arbitrary: mem)
  case 0
  then show ?case using outer_counter(2) [OF s, of 0] by (subst sort_heap.simps) simp
next
  case (Suc m)
  let ?xs = "elems sz num mem"
  obtain m1 where m1: "swp mem (int (0 * sz)) (int (m * sz)) (int sz) = Some m1" "length m1 = num * sz"
    "elems sz num m1 = swapped ?xs 0 m"
    using sw Suc(2,3) unfolding swap_ok_def by (metis Suc_le_lessD less_nat_zero_code not_gr_zero order.strict_trans1)
  have "heap_but cmp (elems sz num m1) 0 m 0"
    unfolding m1(3) by (rule heap_but_root) (use Suc(4) in \<open>simp add: sort_inv_def\<close>)
  then obtain m2 where m2: "sift_down cmp swp (int sz) (int m * int sz) m1 (int 0 * int sz) = Some m2"
    "length m2 = num * sz" "sift_result cmp 0 m (swapped ?xs 0 m) (elems sz num m2)"
    using sift_down_correct [OF s sw ok _ m1(2), where N = m and lo = 0 and r = 0] Suc(2) m1(3) by auto
  have "sort_inv cmp m (elems sz num m2)" using sort_inv_step [OF ok Suc(4) _ m2(3)] Suc(2) by simp
  then obtain m' where "sort_heap cmp swp (int sz) m2 ((int m - 1) * int sz) = Some m'" "length m' = num * sz"
    "mset (elems sz num m') = mset (elems sz num m2)" "sort_inv cmp 0 (elems sz num m')"
    using Suc(1) [of m2] Suc(2) m2(2) by auto
  moreover have "mset (elems sz num m2) = mset ?xs"
    using m2(3) swapped_mset [of 0 ?xs m] Suc(2) by (simp add: sift_result_def)
  ultimately show ?case using m1(1) m2(1) outer_counter [OF s, of m] sift_counters(3) [OF s, of 0 0] Suc(2)
    by (subst sort_heap.simps) simp
qed

section \<open>Properties\<close>

lemma sort_inv_sorted: "cmp_ok cmp \<Longrightarrow> sort_inv cmp 0 xs \<Longrightarrow> sorted_wrt (\<lambda>x y. cmp x y \<le> 0) xs"
  unfolding sort_inv_def cmp_ok_def by (auto elim!: sorted_wrt_mono_rel [rotated] simp: not_less [symmetric])

text \<open>C12: The heapsort returns for every array of at most 1 GiB, in elements of 1 to \<open>2\<close> to the \<open>31\<close> minus 1
  bytes, whose comparison function is a total preorder, with the built-in swap functions or one that
  exchanges two elements: it accesses only the array, the result holds the same elements and they ascend.\<close>

theorem sort_array_sorts:
  assumes "0 < sz" "sz < 2 ^ 31" "num * sz \<le> 2 ^ 30" "length base = num * sz" "cmp_ok cmp"
    and "case swap of None \<Rightarrow> True | Some f \<Rightarrow> swap_ok sz num f"
  shows "\<exists>mem. sort_array base (int num) (int sz) cmp swap = Some mem \<and> length mem = length base \<and>
     mset (elems sz num mem) = mset (elems sz num base) \<and>
     sorted_wrt (\<lambda>x y. cmp x y \<le> 0) (elems sz num mem)"
proof -
  let ?sw = "case swap of Some f \<Rightarrow> f | None \<Rightarrow> if int sz = 4 then u32_swap else generic_swap"
  have s: "small_array sz num" using assms by (simp add: small_array_def)
  have sw: "swap_ok sz num ?sw"
    using assms(6) default_swap_ok [OF assms(1), of num] by (auto split: option.splits if_splits)
  have n: "i32 (int num * int sz) = int num * int sz"
    using offset_bounds [OF s order.refl] by (intro i32_id) linarith+
  have h: "heap_from cmp (elems sz num base) (num div 2) num"
    unfolding heap_from_def child_def by (intro allI impI) linarith
  obtain m where m: "heapify cmp ?sw (int sz) (int num * int sz) base ((int (num div 2) - 1) * int sz) = Some m"
    "length m = num * sz" "mset (elems sz num m) = mset (elems sz num base)" "heap_from cmp (elems sz num m) 0 num"
    using heapify_correct [OF s sw assms(5) _ assms(4) h] by auto
  then have "sort_inv cmp num (elems sz num m)" by (simp add: sort_inv_def)
  then obtain m' where m': "sort_heap cmp ?sw (int sz) m ((int num - 1) * int sz) = Some m'"
    "length m' = num * sz" "mset (elems sz num m') = mset (elems sz num m)" "sort_inv cmp 0 (elems sz num m')"
    using sort_heap_correct [OF s sw assms(5) order.refl m(2)] by auto
  have "sort_array base (int num) (int sz) cmp swap = Some m'"
    using m(1) m'(1) outer_counter(1) [OF s, of "num div 2"] outer_counter(3) [OF s order.refl]
    by (simp add: sort_array_def Let_def n zdiv_int)
  then show ?thesis using m' m(3) assms(4) sort_inv_sorted [OF assms(5) m'(4)] by auto
qed

definition byte_cmp :: "u8 list \<Rightarrow> u8 list \<Rightarrow> int" where
  "byte_cmp x y = uint (hd x) - uint (hd y)"

theorem sort_array_sorts_witness:
  "\<exists>mem. sort_array [3, 30, 1, 10, 2, 20] 3 2 byte_cmp None = Some mem \<and>
     mset (elems 2 3 mem) = mset [[3, 30], [1, 10], [2, 20]] \<and> sorted_wrt (\<lambda>x y. byte_cmp x y \<le> 0) (elems 2 3 mem)"
proof -
  have "elems 2 3 [3, 30, 1, 10, 2, 20] = [[3, 30], [1, 10], [2, 20]]"
    by (simp add: elems_def upt_rec)
  moreover have "cmp_ok byte_cmp" by (simp add: cmp_ok_def byte_cmp_def)
  ultimately show ?thesis using sort_array_sorts [of 2 3 "[3, 30, 1, 10, 2, 20]" byte_cmp None] by auto
qed

end
