(* ===== verification/Mempool.thy ===== *)
theory Mempool
  imports Prelude
begin

text \<open>
  Memory pools, \<^verbatim>\<open>vmklinux26/linux/mm/mempool.c\<close> as vmklinux compiles it (an allocation does not
  sleep). Creation and destruction are sequential. The other operations run concurrently; they are
  cut at the places where the code takes or drops the lock or calls the allocator, and each piece
  between two cuts is one atomic segment of a thread. A \<open>BUG_ON\<close> and an access outside the array of
  elements are \<^term>\<open>None\<close>. The underlying allocator is an arbitrary answer to each call.

  The theorems: with one resizer at a time no interleaving hits a \<open>BUG_ON\<close> or leaves the array; two concurrent
  resizers can leave the array; and with any number of resizers no element is lost or duplicated until then.
\<close>

section \<open>The pool\<close>

record mempool =
  min_nr :: int
  curr_nr :: int
  elements :: "nat list"

definition add_element :: "mempool \<Rightarrow> nat \<Rightarrow> mempool option" where
  "add_element pool e =
     (if curr_nr pool \<ge> min_nr pool then None
      else do {
        es \<leftarrow> buf_set (elements pool) (curr_nr pool) e;
        Some (pool\<lparr>curr_nr := curr_nr pool + 1, elements := es\<rparr>)
      })"

definition remove_element :: "mempool \<Rightarrow> (nat \<times> mempool) option" where
  "remove_element pool =
     (if curr_nr pool \<le> 0 then None
      else do {
        e \<leftarrow> buf_get (elements pool) (curr_nr pool - 1);
        Some (e, pool\<lparr>curr_nr := curr_nr pool - 1\<rparr>)
      })"

section \<open>Creation and destruction\<close>

text \<open>The allocator of the pool, with a state of its own: \<open>alloc_fn\<close> and \<open>free_fn\<close>.\<close>

function free_pool :: "(nat \<Rightarrow> 'h \<Rightarrow> 'h) \<Rightarrow> mempool \<Rightarrow> 'h \<Rightarrow> 'h option" where
  "free_pool free_fn pool h =
     (if curr_nr pool = 0 then Some h
      else case remove_element pool of
        None \<Rightarrow> None
      | Some (e, pool') \<Rightarrow> free_pool free_fn pool' (free_fn e h))"
  by pat_completeness auto

termination free_pool
  by (relation "measure (\<lambda>(f, pool, h). nat (curr_nr pool))")
     (auto simp: remove_element_def split: if_splits option.splits bind_splits)

function fill_pool ::
  "('h \<Rightarrow> nat option \<times> 'h) \<Rightarrow> (nat \<Rightarrow> 'h \<Rightarrow> 'h) \<Rightarrow> mempool \<Rightarrow> 'h \<Rightarrow> (mempool option \<times> 'h) option" where
  "fill_pool alloc_fn free_fn pool h =
     (if curr_nr pool < min_nr pool
      then case alloc_fn h of
             (None, h') \<Rightarrow> map_option (Pair None) (free_pool free_fn pool h')
           | (Some e, h') \<Rightarrow>
               (case add_element pool e of
                  None \<Rightarrow> None
                | Some pool' \<Rightarrow> fill_pool alloc_fn free_fn pool' h')
      else Some (Some pool, h))"
  by pat_completeness auto

termination fill_pool
  by (relation "measure (\<lambda>(f, g, pool, h). nat (min_nr pool - curr_nr pool))")
     (auto simp: add_element_def split: if_splits option.splits bind_splits)

text \<open>\<open>mem_pool\<close> and \<open>mem_elements\<close> say whether \<open>kmalloc\<close> finds memory for the pool and its array.\<close>

definition mempool_create_node ::
  "bool \<Rightarrow> bool \<Rightarrow> int \<Rightarrow> ('h \<Rightarrow> nat option \<times> 'h) \<Rightarrow> (nat \<Rightarrow> 'h \<Rightarrow> 'h) \<Rightarrow> 'h \<Rightarrow> (mempool option \<times> 'h) option" where
  "mempool_create_node mem_pool mem_elements n alloc_fn free_fn h =
     (if \<not> mem_pool then Some (None, h)
      else if \<not> mem_elements then Some (None, h)
      else fill_pool alloc_fn free_fn \<lparr>min_nr = n, curr_nr = 0, elements = replicate (nat n) 0\<rparr> h)"

definition mempool_destroy :: "(nat \<Rightarrow> 'h \<Rightarrow> 'h) \<Rightarrow> mempool \<Rightarrow> 'h \<Rightarrow> 'h option" where
  "mempool_destroy free_fn pool h =
     (if curr_nr pool \<noteq> min_nr pool then None else free_pool free_fn pool h)"

section \<open>The concurrent operations\<close>

text \<open>Where a thread is: idle, in \<open>mempool_alloc\<close>, in \<open>mempool_free\<close>, in \<open>mempool_resize\<close>.\<close>

datatype mp_pc =
  Mp_idle
| Mp_alloc | Mp_alloc_reserve
| Mp_free nat | Mp_free_locked nat | Mp_free_call nat
| Mp_resize int | Mp_shrink_free int nat | Mp_shrink int
| Mp_grow int | Mp_grow_swap int | Mp_refill | Mp_refill_add nat | Mp_refill_free nat

text \<open>What a segment shows to the outside: an element from the allocator, an element given back to it,
  the result of \<open>mempool_alloc\<close>, the result of \<open>mempool_resize\<close>.\<close>

datatype mp_eff = Eff_got nat | Eff_freed nat | Eff_alloc "nat option" | Eff_resize int

type_synonym mp_result = "(mempool \<times> mp_pc \<times> mp_eff list) option"

text \<open>\<open>mempool_alloc\<close>: first the allocator (its answer is \<open>a\<close>), then the reserve, under the lock.\<close>

definition mempool_alloc_call :: "nat option \<Rightarrow> mempool \<Rightarrow> mp_result" where
  "mempool_alloc_call a pool =
     (case a of Some e \<Rightarrow> Some (pool, Mp_idle, [Eff_got e, Eff_alloc (Some e)])
              | None \<Rightarrow> Some (pool, Mp_alloc_reserve, []))"

definition mempool_alloc_reserve :: "mempool \<Rightarrow> mp_result" where
  "mempool_alloc_reserve pool =
     (if curr_nr pool \<noteq> 0
      then do {
        (e, pool') \<leftarrow> remove_element pool;
        Some (pool', Mp_idle, [Eff_alloc (Some e)])
      }
      else Some (pool, Mp_idle, [Eff_alloc None]))"

text \<open>\<open>mempool_free\<close>: a check without the lock, the same check with it, or back to the allocator.\<close>

definition mempool_free_check :: "mempool \<Rightarrow> nat \<Rightarrow> mp_result" where
  "mempool_free_check pool e =
     (if curr_nr pool < min_nr pool then Some (pool, Mp_free_locked e, []) else Some (pool, Mp_free_call e, []))"

definition mempool_free_locked :: "mempool \<Rightarrow> nat \<Rightarrow> mp_result" where
  "mempool_free_locked pool e =
     (if curr_nr pool < min_nr pool
      then do {
        pool' \<leftarrow> add_element pool e;
        Some (pool', Mp_idle, [])
      }
      else Some (pool, Mp_free_call e, []))"

text \<open>\<open>mempool_resize\<close>: the loop test of the shrinking branch, which the lock protects.\<close>

definition mempool_shrink_test :: "mempool \<Rightarrow> int \<Rightarrow> mp_result" where
  "mempool_shrink_test pool n =
     (if n < curr_nr pool
      then do {
        (e, pool') \<leftarrow> remove_element pool;
        Some (pool', Mp_shrink_free n e, [])
      }
      else Some (pool\<lparr>min_nr := n\<rparr>, Mp_idle, [Eff_resize 0]))"

definition mempool_resize_enter :: "mempool \<Rightarrow> int \<Rightarrow> mp_result" where
  "mempool_resize_enter pool n =
     (if n \<le> 0 then None
      else if n \<le> min_nr pool then mempool_shrink_test pool n
      else Some (pool, Mp_grow n, []))"

text \<open>The growing branch: the new array (there is memory for it when \<open>a\<close> is an answer), the exchange of
  the arrays, and the loop that refills the pool.\<close>

definition mempool_grow_alloc :: "nat option \<Rightarrow> mempool \<Rightarrow> int \<Rightarrow> mp_result" where
  "mempool_grow_alloc a pool n =
     (case a of None \<Rightarrow> Some (pool, Mp_idle, [Eff_resize (- 12)]) | Some _ \<Rightarrow> Some (pool, Mp_grow_swap n, []))"

definition mempool_refill_test :: "mempool \<Rightarrow> mp_result" where
  "mempool_refill_test pool =
     (if curr_nr pool < min_nr pool then Some (pool, Mp_refill, []) else Some (pool, Mp_idle, [Eff_resize 0]))"

definition mempool_grow_swap :: "mempool \<Rightarrow> int \<Rightarrow> mp_result" where
  "mempool_grow_swap pool n =
     (if n \<le> min_nr pool then Some (pool, Mp_idle, [Eff_resize 0])
      else if curr_nr pool < 0 \<or> int (length (elements pool)) < curr_nr pool then None
      else do {
        new_elements \<leftarrow> blit (replicate (nat n) 0) 0 (take (nat (curr_nr pool)) (elements pool));
        mempool_refill_test (pool\<lparr>min_nr := n, elements := new_elements\<rparr>)
      })"

definition mempool_refill_call :: "nat option \<Rightarrow> mempool \<Rightarrow> mp_result" where
  "mempool_refill_call a pool =
     (case a of None \<Rightarrow> Some (pool, Mp_idle, [Eff_resize 0]) | Some e \<Rightarrow> Some (pool, Mp_refill_add e, [Eff_got e]))"

definition mempool_refill_add :: "mempool \<Rightarrow> nat \<Rightarrow> mp_result" where
  "mempool_refill_add pool e =
     (if curr_nr pool < min_nr pool
      then do {
        pool' \<leftarrow> add_element pool e;
        mempool_refill_test pool'
      }
      else Some (pool, Mp_refill_free e, []))"

fun mp_seg :: "nat option \<Rightarrow> mempool \<Rightarrow> mp_pc \<Rightarrow> mp_result" where
  "mp_seg a pool Mp_idle = Some (pool, Mp_idle, [])"
| "mp_seg a pool Mp_alloc = mempool_alloc_call a pool"
| "mp_seg a pool Mp_alloc_reserve = mempool_alloc_reserve pool"
| "mp_seg a pool (Mp_free e) = mempool_free_check pool e"
| "mp_seg a pool (Mp_free_locked e) = mempool_free_locked pool e"
| "mp_seg a pool (Mp_free_call e) = Some (pool, Mp_idle, [Eff_freed e])"
| "mp_seg a pool (Mp_resize n) = mempool_resize_enter pool n"
| "mp_seg a pool (Mp_shrink_free n e) = Some (pool, Mp_shrink n, [Eff_freed e])"
| "mp_seg a pool (Mp_shrink n) = mempool_shrink_test pool n"
| "mp_seg a pool (Mp_grow n) = mempool_grow_alloc a pool n"
| "mp_seg a pool (Mp_grow_swap n) = mempool_grow_swap pool n"
| "mp_seg a pool Mp_refill = mempool_refill_call a pool"
| "mp_seg a pool (Mp_refill_add e) = mempool_refill_add pool e"
| "mp_seg a pool (Mp_refill_free e) = Some (pool, Mp_idle, [Eff_freed e, Eff_resize 0])"

lemmas mp_seg_defs = mempool_alloc_call_def mempool_alloc_reserve_def mempool_free_check_def
  mempool_free_locked_def mempool_shrink_test_def mempool_resize_enter_def mempool_grow_alloc_def
  mempool_refill_test_def mempool_grow_swap_def mempool_refill_call_def mempool_refill_add_def

section \<open>Threads\<close>

text \<open>The pool, the threads, and the elements by where they are: got from the allocator, given back to
  it, in the hands of clients.\<close>

record mp_sys =
  sys_pool :: mempool
  sys_pcs :: "mp_pc list"
  sys_got :: "nat multiset"
  sys_freed :: "nat multiset"
  sys_out :: "nat multiset"

fun eff_got :: "mp_eff \<Rightarrow> nat multiset" where
  "eff_got (Eff_got e) = {#e#}"
| "eff_got _ = {#}"

fun eff_freed :: "mp_eff \<Rightarrow> nat multiset" where
  "eff_freed (Eff_freed e) = {#e#}"
| "eff_freed _ = {#}"

fun eff_out :: "mp_eff \<Rightarrow> nat multiset" where
  "eff_out (Eff_alloc (Some e)) = {#e#}"
| "eff_out _ = {#}"

fun in_resize :: "mp_pc \<Rightarrow> bool" where
  "in_resize (Mp_resize n) = True"
| "in_resize (Mp_shrink_free n e) = True"
| "in_resize (Mp_shrink n) = True"
| "in_resize (Mp_grow n) = True"
| "in_resize (Mp_grow_swap n) = True"
| "in_resize Mp_refill = True"
| "in_resize (Mp_refill_add e) = True"
| "in_resize (Mp_refill_free e) = True"
| "in_resize _ = False"

text \<open>A client frees an element it holds and resizes to a positive number; \<open>many\<close> says whether several
  threads may resize at the same time.\<close>

inductive mp_step :: "bool \<Rightarrow> mp_sys \<Rightarrow> mp_sys \<Rightarrow> bool" for many where
  start_alloc: "\<lbrakk>t < length (sys_pcs s); sys_pcs s ! t = Mp_idle\<rbrakk> \<Longrightarrow>
     mp_step many s (s\<lparr>sys_pcs := (sys_pcs s)[t := Mp_alloc]\<rparr>)"
| start_free: "\<lbrakk>t < length (sys_pcs s); sys_pcs s ! t = Mp_idle; e \<in># sys_out s\<rbrakk> \<Longrightarrow>
     mp_step many s (s\<lparr>sys_pcs := (sys_pcs s)[t := Mp_free e], sys_out := sys_out s - {#e#}\<rparr>)"
| start_resize: "\<lbrakk>t < length (sys_pcs s); sys_pcs s ! t = Mp_idle; 0 < n;
                 many \<or> (\<forall>p \<in> set (sys_pcs s). \<not> in_resize p)\<rbrakk> \<Longrightarrow>
     mp_step many s (s\<lparr>sys_pcs := (sys_pcs s)[t := Mp_resize n]\<rparr>)"
| run: "\<lbrakk>t < length (sys_pcs s); mp_seg a (sys_pool s) (sys_pcs s ! t) = Some (pool, pc, effs)\<rbrakk> \<Longrightarrow>
     mp_step many s (s\<lparr>sys_pool := pool, sys_pcs := (sys_pcs s)[t := pc],
       sys_got := sys_got s + sum_list (map eff_got effs),
       sys_freed := sys_freed s + sum_list (map eff_freed effs),
       sys_out := sys_out s + sum_list (map eff_out effs)\<rparr>)"

inductive_cases mp_step_cases: "mp_step many s s'"

definition pool_elems :: "mempool \<Rightarrow> nat multiset" where
  "pool_elems pool = mset (take (nat (curr_nr pool)) (elements pool))"

text \<open>A pool of \<open>n\<close> elements that has just been created, and \<open>k\<close> idle threads.\<close>

definition mp_start :: "nat list \<Rightarrow> nat \<Rightarrow> mp_sys" where
  "mp_start es k = \<lparr>sys_pool = \<lparr>min_nr = int (length es), curr_nr = int (length es), elements = es\<rparr>,
     sys_pcs = replicate k Mp_idle, sys_got = mset es, sys_freed = {#}, sys_out = {#}\<rparr>"

definition mp_reach :: "bool \<Rightarrow> mp_sys \<Rightarrow> mp_sys \<Rightarrow> bool" where
  "mp_reach many = (mp_step many)\<^sup>*\<^sup>*"

section \<open>Bounds\<close>

definition pool_ok :: "mempool \<Rightarrow> bool" where
  "pool_ok pool \<longleftrightarrow> 0 \<le> curr_nr pool \<and> curr_nr pool \<le> min_nr pool \<and> min_nr pool \<le> int (length (elements pool))"

text \<open>A thread that shrinks the pool will set \<open>min_nr\<close> to a number the array still has room for.\<close>

fun pc_ok :: "mempool \<Rightarrow> mp_pc \<Rightarrow> bool" where
  "pc_ok pool (Mp_resize n) \<longleftrightarrow> 0 < n"
| "pc_ok pool (Mp_shrink_free n e) \<longleftrightarrow> 0 < n \<and> n \<le> int (length (elements pool))"
| "pc_ok pool (Mp_shrink n) \<longleftrightarrow> 0 < n \<and> n \<le> int (length (elements pool))"
| "pc_ok pool (Mp_grow n) \<longleftrightarrow> 0 < n"
| "pc_ok pool (Mp_grow_swap n) \<longleftrightarrow> 0 < n"
| "pc_ok pool _ \<longleftrightarrow> True"

lemma add_element_ok:
  assumes "pool_ok pool" "curr_nr pool < min_nr pool"
  shows "add_element pool e = Some (pool\<lparr>curr_nr := curr_nr pool + 1, elements := (elements pool)[nat (curr_nr pool) := e]\<rparr>)"
  using assms by (simp add: add_element_def pool_ok_def buf_simps)

lemma remove_element_ok:
  assumes "pool_ok pool" "0 < curr_nr pool"
  shows "remove_element pool = Some (elements pool ! nat (curr_nr pool - 1), pool\<lparr>curr_nr := curr_nr pool - 1\<rparr>)"
  using assms by (simp add: remove_element_def pool_ok_def buf_simps)

lemma remove_element_nonzero:
  assumes "pool_ok pool" "curr_nr pool \<noteq> 0"
  shows "remove_element pool = Some (elements pool ! nat (curr_nr pool - 1), pool\<lparr>curr_nr := curr_nr pool - 1\<rparr>)"
  using assms by (intro remove_element_ok) (auto simp: pool_ok_def)

text \<open>A segment succeeds and keeps the bounds; only a resizer changes the size of the array.\<close>

lemma mp_seg_ok:
  assumes p: "pool_ok pool" and pc: "pc_ok pool pc"
  shows "\<exists>pool' pc' effs. mp_seg a pool pc = Some (pool', pc', effs) \<and> pool_ok pool' \<and> pc_ok pool' pc' \<and>
    (in_resize pc' \<longrightarrow> in_resize pc) \<and> (\<not> in_resize pc \<longrightarrow> length (elements pool') = length (elements pool))"
proof (cases pc)
  case (Mp_grow_swap n)
  show ?thesis
  proof (cases "n \<le> min_nr pool")
    case False
    then have "blit (replicate (nat n) 0) 0 (take (nat (curr_nr pool)) (elements pool)) =
        Some (take (nat (curr_nr pool)) (elements pool) @ replicate (nat n - nat (curr_nr pool)) 0)"
      using p by (subst blit_Some) (auto simp: pool_ok_def min_def)
    then show ?thesis using p False Mp_grow_swap by (auto simp: mp_seg_defs pool_ok_def)
  qed (use p Mp_grow_swap in \<open>simp add: mp_seg_defs\<close>)
qed (use p pc in \<open>auto simp: mp_seg_defs add_element_ok remove_element_ok remove_element_nonzero split: option.splits\<close>,
     auto simp: pool_ok_def)

definition sys_inv :: "mp_sys \<Rightarrow> bool" where
  "sys_inv s \<longleftrightarrow> pool_ok (sys_pool s) \<and> (\<forall>pc \<in> set (sys_pcs s). pc_ok (sys_pool s) pc) \<and>
     (\<forall>t u. t < length (sys_pcs s) \<and> u < length (sys_pcs s) \<and> in_resize (sys_pcs s ! t) \<and> in_resize (sys_pcs s ! u) \<longrightarrow> t = u)"

lemma pc_ok_length: "length (elements pool') = length (elements pool) \<Longrightarrow> pc_ok pool' pc = pc_ok pool pc"
  by (cases pc) auto

lemma pc_ok_other: "\<not> in_resize pc \<Longrightarrow> pc_ok pool pc"
  by (cases pc) auto

lemma sys_inv_start: "sys_inv (mp_start es k)"
  by (auto simp: sys_inv_def mp_start_def pool_ok_def)

text \<open>A thread goes on to \<open>pc\<close> while the pool becomes \<open>pool\<close>.\<close>

lemma sys_inv_update:
  assumes i: "sys_inv s" and t: "t < length (sys_pcs s)" and p: "pool_ok pool" "pc_ok pool pc"
    and r: "in_resize pc \<Longrightarrow> in_resize (sys_pcs s ! t) \<or> (\<forall>p \<in> set (sys_pcs s). \<not> in_resize p)"
    and l: "\<not> in_resize (sys_pcs s ! t) \<Longrightarrow> length (elements pool) = length (elements (sys_pool s))"
    and s': "sys_pool s' = pool" "sys_pcs s' = (sys_pcs s)[t := pc]"
  shows "sys_inv s'"
proof -
  have one: "u = v" if "u < length (sys_pcs s)" "v < length (sys_pcs s)" "in_resize (sys_pcs s ! u)" "in_resize (sys_pcs s ! v)" for u v
    using i that by (auto simp: sys_inv_def)
  have "pc_ok pool (sys_pcs s ! u)" if "u < length (sys_pcs s)" "u \<noteq> t" for u
  proof (cases "in_resize (sys_pcs s ! t)")
    case True
    then show ?thesis using one [OF that(1) t] that by (intro pc_ok_other) auto
  next
    case False
    then show ?thesis using i that pc_ok_length [OF l] by (auto simp: sys_inv_def)
  qed
  then have "\<forall>q \<in> set (sys_pcs s'). pc_ok pool q"
    using p(2) t by (auto simp: s' in_set_conv_nth nth_list_update)
  moreover have "u = v" if "u < length (sys_pcs s)" "v < length (sys_pcs s)" "in_resize (sys_pcs s' ! u)" "in_resize (sys_pcs s' ! v)" for u v
    using one [of u v] one [of t v] one [of u t] that r t by (auto simp: s' nth_list_update split: if_splits)
  ultimately show ?thesis using p(1) s' by (auto simp: sys_inv_def)
qed

lemma mp_step_inv:
  assumes "mp_step False s s'" "sys_inv s"
  shows "sys_inv s'"
  using assms
proof (induction rule: mp_step.induct)
  case (run t s a pool pc effs)
  have "pool_ok (sys_pool s)" "pc_ok (sys_pool s) (sys_pcs s ! t)" using run by (auto simp: sys_inv_def)
  from mp_seg_ok [OF this, of a] run(2) have o: "pool_ok pool" "pc_ok pool pc" "in_resize pc \<longrightarrow> in_resize (sys_pcs s ! t)"
    "\<not> in_resize (sys_pcs s ! t) \<longrightarrow> length (elements pool) = length (elements (sys_pool s))" by auto
  then show ?case by (intro sys_inv_update [OF run(3,1) o(1,2)]) simp_all
qed (rule sys_inv_update; simp add: sys_inv_def)+

interpretation mp_sys: step_invariant "mp_step False" sys_inv
  by unfold_locales (rule mp_step_inv)

lemma mp_reach_inv: "mp_reach False s s' \<Longrightarrow> sys_inv s \<Longrightarrow> sys_inv s'"
  unfolding mp_reach_def by (rule mp_sys.reach_inv)

section \<open>Conservation of elements\<close>

fun pc_elems :: "mp_pc \<Rightarrow> nat multiset" where
  "pc_elems (Mp_free e) = {#e#}"
| "pc_elems (Mp_free_locked e) = {#e#}"
| "pc_elems (Mp_free_call e) = {#e#}"
| "pc_elems (Mp_shrink_free n e) = {#e#}"
| "pc_elems (Mp_refill_add e) = {#e#}"
| "pc_elems (Mp_refill_free e) = {#e#}"
| "pc_elems _ = {#}"

lemma add_element_elems:
  assumes "pool_ok pool" "curr_nr pool < min_nr pool"
  shows "pool_elems (pool\<lparr>curr_nr := curr_nr pool + 1, elements := (elements pool)[nat (curr_nr pool) := e]\<rparr>) =
    add_mset e (pool_elems pool)"
proof -
  have "nat (curr_nr pool) < length (elements pool)" using assms by (auto simp: pool_ok_def)
  then show ?thesis using assms(1) by (simp add: pool_elems_def pool_ok_def nat_add_distrib take_Suc_conv_app_nth)
qed

lemma pool_elems_min [simp]: "pool_elems (pool\<lparr>min_nr := n\<rparr>) = pool_elems pool"
  by (simp add: pool_elems_def)

lemma remove_element_elems:
  assumes "pool_ok pool" "curr_nr pool \<noteq> 0"
  shows "pool_elems pool = add_mset (elements pool ! nat (curr_nr pool - 1)) (pool_elems (pool\<lparr>curr_nr := curr_nr pool - 1\<rparr>))"
proof -
  have "nat (curr_nr pool) = Suc (nat (curr_nr pool - 1))" "nat (curr_nr pool - 1) < length (elements pool)"
    using assms by (auto simp: pool_ok_def)
  then show ?thesis by (simp add: pool_elems_def take_Suc_conv_app_nth)
qed

text \<open>What holds even when several threads resize at once, as long as no access has left the array.\<close>

definition pool_bnd :: "mempool \<Rightarrow> bool" where
  "pool_bnd pool \<longleftrightarrow> 0 \<le> curr_nr pool \<and> curr_nr pool \<le> int (length (elements pool))"

lemma add_element_moves:
  assumes "add_element pool e = Some pool'" "pool_bnd pool"
  shows "pool_elems pool' = add_mset e (pool_elems pool)" "pool_bnd pool'"
proof -
  have "0 \<le> curr_nr pool" "nat (curr_nr pool) < length (elements pool)"
      "pool' = pool\<lparr>curr_nr := curr_nr pool + 1, elements := (elements pool)[nat (curr_nr pool) := e]\<rparr>"
    using assms by (auto simp: add_element_def pool_bnd_def buf_set_def split: if_splits bind_splits)
  then show "pool_elems pool' = add_mset e (pool_elems pool)" "pool_bnd pool'"
    by (simp_all add: pool_elems_def pool_bnd_def nat_add_distrib take_Suc_conv_app_nth)
qed

lemma remove_element_moves:
  assumes "remove_element pool = Some (e, pool')" "pool_bnd pool"
  shows "pool_elems pool = add_mset e (pool_elems pool')" "pool_bnd pool'"
proof -
  have r: "0 < curr_nr pool" "e = elements pool ! nat (curr_nr pool - 1)" "pool' = pool\<lparr>curr_nr := curr_nr pool - 1\<rparr>"
    using assms by (auto simp: remove_element_def buf_get_def split: if_splits bind_splits)
  then have "nat (curr_nr pool) = Suc (nat (curr_nr pool - 1))" "nat (curr_nr pool - 1) < length (elements pool)"
    using assms(2) by (auto simp: pool_bnd_def)
  then show "pool_elems pool = add_mset e (pool_elems pool')" by (simp add: pool_elems_def r take_Suc_conv_app_nth)
  show "pool_bnd pool'" using assms(2) r(1) by (simp add: r(3) pool_bnd_def)
qed

lemma pool_bnd_min [simp]: "pool_bnd (pool\<lparr>min_nr := n\<rparr>) = pool_bnd pool"
  by (simp add: pool_bnd_def)

lemma grow_swap_moves:
  assumes "mempool_grow_swap pool n = Some (pool', pc', effs)" "pool_bnd pool"
  shows "pool_elems pool' = pool_elems pool \<and> pool_bnd pool' \<and> pc_elems pc' = {#} \<and> effs \<in> {[], [Eff_resize 0]}"
proof (cases "n \<le> min_nr pool")
  case False
  let ?k = "nat (curr_nr pool)"
  have b: "?k \<le> length (elements pool)" using assms(2) by (auto simp: pool_bnd_def)
  obtain xs where "blit (replicate (nat n) 0) 0 (take ?k (elements pool)) = Some xs"
    and t: "mempool_refill_test (pool\<lparr>min_nr := n, elements := xs\<rparr>) = Some (pool', pc', effs)"
    using assms False by (auto simp: mempool_grow_swap_def split: if_splits bind_splits)
  then have x: "xs = take ?k (elements pool) @ replicate (nat n - ?k) 0" using b by (auto simp: blit_def split: if_splits)
  have "pool' = pool\<lparr>min_nr := n, elements := xs\<rparr>" "pc_elems pc' = {#}" "effs \<in> {[], [Eff_resize 0]}"
    using t by (auto simp: mempool_refill_test_def split: if_splits)
  then show ?thesis using assms(2) b by (simp add: x pool_elems_def pool_bnd_def)
qed (use assms in \<open>auto simp: mempool_grow_swap_def\<close>)

lemma mp_seg_conserves:
  assumes p: "pool_bnd pool" and s: "mp_seg a pool pc = Some (pool', pc', effs)"
  shows "pool_bnd pool' \<and> pool_elems pool + pc_elems pc + sum_list (map eff_got effs) =
    pool_elems pool' + pc_elems pc' + sum_list (map eff_freed effs) + sum_list (map eff_out effs)"
proof (cases pc)
  case (Mp_grow_swap n)
  then have "pool_elems pool' = pool_elems pool \<and> pool_bnd pool' \<and> pc_elems pc' = {#} \<and> effs \<in> {[], [Eff_resize 0]}"
    using s by (intro grow_swap_moves [OF _ p, of n]) simp
  then show ?thesis using Mp_grow_swap by auto
qed (use p s in \<open>auto simp: mp_seg_defs add_element_moves dest: remove_element_moves [OF _ p]
       split: option.splits if_splits bind_splits\<close>)

lemma sum_list_update_multiset:
  "t < length xs \<Longrightarrow> sum_list (map f (xs[t := x])) + f (xs ! t) = sum_list (map f xs) + (f x :: 'a multiset)"
  by (induction xs arbitrary: t) (auto split: nat.splits simp: algebra_simps)

definition all_elems :: "mp_sys \<Rightarrow> nat multiset" where
  "all_elems s = sys_out s + sys_freed s + pool_elems (sys_pool s) + sum_list (map pc_elems (sys_pcs s))"

lemma mp_step_conserves:
  assumes "mp_step many s s'" "pool_bnd (sys_pool s) \<and> sys_got s = all_elems s"
  shows "pool_bnd (sys_pool s') \<and> sys_got s' = all_elems s'"
  using assms
proof (induction rule: mp_step.induct)
  case (start_alloc t s)
  then show ?case using sum_list_update_multiset [of t "sys_pcs s" pc_elems Mp_alloc] by (simp add: all_elems_def)
next
  case (start_free t s e)
  then show ?case using sum_list_update_multiset [of t "sys_pcs s" pc_elems "Mp_free e"] by (simp add: all_elems_def)
next
  case (start_resize t s n)
  then show ?case using sum_list_update_multiset [of t "sys_pcs s" pc_elems "Mp_resize n"] by (simp add: all_elems_def)
next
  case (run t s a pool pc effs)
  let ?e = "\<lambda>f. sum_list (map f effs)" and ?r = "sum_list (map pc_elems ((sys_pcs s)[t := pc]))"
  let ?o = "pc_elems (sys_pcs s ! t)"
  have "sys_got s + ?e eff_got + ?o = sys_out s + sys_freed s + sum_list (map pc_elems (sys_pcs s)) +
      (pool_elems (sys_pool s) + ?o + ?e eff_got)"
    using run(3) by (simp add: all_elems_def ac_simps)
  also have "\<dots> = sys_out s + sys_freed s + (sum_list (map pc_elems (sys_pcs s)) + pc_elems pc) +
      pool_elems pool + ?e eff_freed + ?e eff_out"
    using mp_seg_conserves [OF _ run(2)] run(3) by (simp add: ac_simps)
  also have "\<dots> = sys_out s + sys_freed s + ?r + pool_elems pool + ?e eff_freed + ?e eff_out + ?o"
    using sum_list_update_multiset [OF run(1), of pc_elems pc] by (simp add: ac_simps)
  finally show ?case using mp_seg_conserves [OF _ run(2)] run(3) by (simp add: all_elems_def ac_simps)
qed

interpretation mp_elems: step_invariant "mp_step many" "\<lambda>s. pool_bnd (sys_pool s) \<and> sys_got s = all_elems s" for many
  by unfold_locales (rule mp_step_conserves)

lemma mp_reach_conserves:
  assumes "mp_reach many (mp_start es k) s"
  shows "pool_bnd (sys_pool s) \<and> sys_got s = all_elems s"
proof (rule mp_elems.reach_inv)
  show "(mp_step many)\<^sup>*\<^sup>* (mp_start es k) s" using assms by (simp add: mp_reach_def)
  have "sum_list (replicate k {#}) = ({#} :: nat multiset)" by (induction k) auto
  then show "pool_bnd (sys_pool (mp_start es k)) \<and> sys_got (mp_start es k) = all_elems (mp_start es k)"
    by (simp add: mp_start_def all_elems_def pool_elems_def pool_bnd_def)
qed

section \<open>Schedules\<close>

text \<open>A schedule names the thread of each step; running it computes the state.\<close>

datatype mp_event = Ev_alloc nat | Ev_free nat nat | Ev_resize nat int | Ev_run nat "nat option"

fun mp_fire :: "mp_event \<Rightarrow> mp_sys \<Rightarrow> mp_sys option" where
  "mp_fire (Ev_alloc t) s =
     (if t < length (sys_pcs s) \<and> sys_pcs s ! t = Mp_idle then Some (s\<lparr>sys_pcs := (sys_pcs s)[t := Mp_alloc]\<rparr>) else None)"
| "mp_fire (Ev_free t e) s =
     (if t < length (sys_pcs s) \<and> sys_pcs s ! t = Mp_idle \<and> e \<in># sys_out s
      then Some (s\<lparr>sys_pcs := (sys_pcs s)[t := Mp_free e], sys_out := sys_out s - {#e#}\<rparr>) else None)"
| "mp_fire (Ev_resize t n) s =
     (if t < length (sys_pcs s) \<and> sys_pcs s ! t = Mp_idle \<and> 0 < n
      then Some (s\<lparr>sys_pcs := (sys_pcs s)[t := Mp_resize n]\<rparr>) else None)"
| "mp_fire (Ev_run t a) s =
     (if t < length (sys_pcs s)
      then case mp_seg a (sys_pool s) (sys_pcs s ! t) of
             None \<Rightarrow> None
           | Some (pool, pc, effs) \<Rightarrow> Some (s\<lparr>sys_pool := pool, sys_pcs := (sys_pcs s)[t := pc],
               sys_got := sys_got s + sum_list (map eff_got effs),
               sys_freed := sys_freed s + sum_list (map eff_freed effs),
               sys_out := sys_out s + sum_list (map eff_out effs)\<rparr>)
      else None)"

fun mp_schedule :: "mp_event list \<Rightarrow> mp_sys \<Rightarrow> mp_sys option" where
  "mp_schedule [] s = Some s"
| "mp_schedule (x # xs) s = (case mp_fire x s of None \<Rightarrow> None | Some s' \<Rightarrow> mp_schedule xs s')"

definition no_resize :: "mp_event \<Rightarrow> bool" where
  "no_resize x \<longleftrightarrow> (case x of Ev_resize t n \<Rightarrow> False | _ \<Rightarrow> True)"

lemma mp_fire_step: "mp_fire x s = Some s' \<Longrightarrow> many \<or> no_resize x \<Longrightarrow> mp_step many s s'"
  by (cases x) (auto split: if_splits option.splits simp: no_resize_def intro: mp_step.intros)

lemma mp_schedule_reach: "mp_schedule xs s = Some s' \<Longrightarrow> many \<or> (\<forall>x \<in> set xs. no_resize x) \<Longrightarrow> mp_reach many s s'"
  unfolding mp_reach_def
proof (induction xs arbitrary: s)
  case (Cons x xs)
  then obtain s1 where "mp_fire x s = Some s1" "mp_schedule xs s1 = Some s'" by (auto split: option.splits)
  then show ?case using Cons mp_fire_step by (metis (no_types, lifting) converse_rtranclp_into_rtranclp list.set_intros)
qed simp

section \<open>Creation without leaks\<close>

text \<open>What the pool relies on of its allocator: \<open>live\<close> are the elements in use.\<close>

definition allocator_ok :: "('h \<Rightarrow> nat option \<times> 'h) \<Rightarrow> (nat \<Rightarrow> 'h \<Rightarrow> 'h) \<Rightarrow> ('h \<Rightarrow> nat multiset) \<Rightarrow> bool" where
  "allocator_ok alloc_fn free_fn live \<longleftrightarrow>
     (\<forall>h. case alloc_fn h of (None, h') \<Rightarrow> live h' = live h | (Some e, h') \<Rightarrow> live h' = add_mset e (live h)) \<and>
     (\<forall>e h. e \<in># live h \<longrightarrow> live (free_fn e h) = live h - {#e#})"

declare free_pool.simps [simp del] fill_pool.simps [simp del]

lemma free_pool_live:
  "allocator_ok alloc_fn free_fn live \<Longrightarrow> pool_ok pool \<Longrightarrow> live h = rest + pool_elems pool \<Longrightarrow>
   \<exists>h'. free_pool free_fn pool h = Some h' \<and> live h' = rest"
proof (induction free_fn pool h rule: free_pool.induct)
  case (1 free_fn pool h)
  show ?case
  proof (cases "curr_nr pool = 0")
    case True
    then show ?thesis using 1(4) by (subst free_pool.simps) (simp add: pool_elems_def)
  next
    case False
    let ?e = "elements pool ! nat (curr_nr pool - 1)" and ?p = "pool\<lparr>curr_nr := curr_nr pool - 1\<rparr>"
    have r: "remove_element pool = Some (?e, ?p)" by (rule remove_element_nonzero [OF 1(3) False])
    have "pool_ok ?p" using 1(3) False by (auto simp: pool_ok_def)
    moreover have "live h = add_mset ?e (rest + pool_elems ?p)"
      using 1(4) remove_element_elems [OF 1(3) False] by simp
    then have "live (free_fn ?e h) = rest + pool_elems ?p" using 1(2) by (simp add: allocator_ok_def)
    ultimately show ?thesis using 1(1) [OF False r refl 1(2)] False r by (subst free_pool.simps) simp
  qed
qed

definition filled :: "mempool \<Rightarrow> nat multiset \<Rightarrow> nat multiset \<Rightarrow> mempool option \<Rightarrow> bool" where
  "filled pool rest lv r \<longleftrightarrow> (case r of None \<Rightarrow> lv = rest
     | Some pool' \<Rightarrow> lv = rest + pool_elems pool' \<and> pool_ok pool' \<and> curr_nr pool' = min_nr pool' \<and> min_nr pool' = min_nr pool)"

lemma fill_pool_live:
  "allocator_ok alloc_fn free_fn live \<Longrightarrow> pool_ok pool \<Longrightarrow> live h = rest + pool_elems pool \<Longrightarrow>
   \<exists>r h'. fill_pool alloc_fn free_fn pool h = Some (r, h') \<and> filled pool rest (live h') r"
proof (induction alloc_fn free_fn pool h rule: fill_pool.induct)
  case (1 alloc_fn free_fn pool h)
  obtain a h1 where ah: "alloc_fn h = (a, h1)" by (cases "alloc_fn h")
  show ?case
  proof (cases "curr_nr pool < min_nr pool")
    case False
    then show ?thesis using 1(3,4) by (subst fill_pool.simps) (simp add: filled_def pool_ok_def)
  next
    case less: True
    show ?thesis
    proof (cases a)
      case None
      then have "live h1 = rest + pool_elems pool" using 1(2,4) ah by (auto simp: allocator_ok_def dest!: spec [of _ h])
      then show ?thesis using free_pool_live [OF 1(2,3)] less ah None
        by (subst fill_pool.simps) (auto simp: filled_def)
    next
      case (Some e)
      let ?p = "pool\<lparr>curr_nr := curr_nr pool + 1, elements := (elements pool)[nat (curr_nr pool) := e]\<rparr>"
      have "pool_ok ?p" using 1(3) less by (simp add: pool_ok_def)
      moreover have "live h1 = rest + pool_elems ?p"
        using 1(2,4) ah Some add_element_elems [OF 1(3) less, of e] by (auto simp: allocator_ok_def dest!: spec [of _ h])
      ultimately obtain r h' where "fill_pool alloc_fn free_fn ?p h1 = Some (r, h')" "filled ?p rest (live h') r"
        using 1(1) [OF less ah [symmetric] Some add_element_ok [OF 1(3) less] 1(2)] by blast
      then show ?thesis using less ah Some add_element_ok [OF 1(3) less]
        by (subst fill_pool.simps) (auto simp: filled_def split: option.splits)
    qed
  qed
qed

section \<open>Properties\<close>

text \<open>However the threads of a pool interleave their allocations and frees with the resizing of one
  thread at a time, the pool keeps \<open>0 <= curr_nr <= min_nr <=\<close> the size of its array, and the next segment
  of every thread, whatever the allocator answers, hits no \<open>BUG_ON\<close> and stays inside the array.\<close>

theorem mempool_safe:
  assumes "mp_reach False (mp_start es k) s" "t < length (sys_pcs s)"
  shows "0 \<le> curr_nr (sys_pool s) \<and> curr_nr (sys_pool s) \<le> min_nr (sys_pool s) \<and>
         min_nr (sys_pool s) \<le> int (length (elements (sys_pool s))) \<and>
         mp_seg a (sys_pool s) (sys_pcs s ! t) \<noteq> None"
proof -
  have i: "sys_inv s" using mp_reach_inv [OF assms(1) sys_inv_start] .
  then have "0 \<le> curr_nr (sys_pool s) \<and> curr_nr (sys_pool s) \<le> min_nr (sys_pool s) \<and>
         min_nr (sys_pool s) \<le> int (length (elements (sys_pool s)))" by (simp add: sys_inv_def pool_ok_def)
  moreover have "mp_seg a (sys_pool s) (sys_pcs s ! t) \<noteq> None"
    using mp_seg_ok [of "sys_pool s" "sys_pcs s ! t" a] i assms(2) by (auto simp: sys_inv_def)
  ultimately show ?thesis by blast
qed

lemma mp_start_reach_1:
  "mp_reach False (mp_start [7, 8] 2)
     \<lparr>sys_pool = \<lparr>min_nr = 2, curr_nr = 1, elements = [7, 8]\<rparr>, sys_pcs = [Mp_free 8, Mp_idle],
      sys_got = {#7, 8#}, sys_freed = {#}, sys_out = {#}\<rparr>"
  by (rule mp_schedule_reach [of "[Ev_alloc 0, Ev_run 0 None, Ev_run 0 None, Ev_free 0 8]"])
     (simp_all add: mp_start_def mp_seg_defs remove_element_def buf_get_def no_resize_def numeral_2_eq_2)

theorem mempool_safe_witness:
  "mp_seg None \<lparr>min_nr = 2, curr_nr = 1, elements = [7, 8]\<rparr> (Mp_free 8) \<noteq> None"
  using mempool_safe [OF mp_start_reach_1, of 0 None] by simp

text \<open>C27: No element of a pool is lost and none appears twice, however any number of threads interleave their allocations, frees
  and resizes, several resizes at the same time included, up to an access outside the array: the elements that came
  from the allocator are, with multiplicities, those in the hands of clients, those given back to the
  allocator, those in the reserve, and those a thread is just moving; and the number of elements in the reserve
  never leaves the array.\<close>

theorem mempool_conserves:
  assumes "mp_reach many (mp_start es k) s"
  shows "0 \<le> curr_nr (sys_pool s) \<and> curr_nr (sys_pool s) \<le> int (length (elements (sys_pool s))) \<and>
     sys_got s = sys_out s + sys_freed s + mset (take (nat (curr_nr (sys_pool s))) (elements (sys_pool s))) +
     sum_list (map pc_elems (sys_pcs s))"
  using mp_reach_conserves [OF assms] by (simp add: all_elems_def pool_elems_def pool_bnd_def)

text \<open>Two threads resize a pool of 4, to 3 and to 2, at the same time; each has taken an element out to free it.\<close>

definition mp_two_resize :: mp_sys where
  "mp_two_resize = \<lparr>sys_pool = \<lparr>min_nr = 4, curr_nr = 2, elements = [5, 6, 7, 8]\<rparr>, sys_pcs = [Mp_shrink_free 3 8, Mp_shrink_free 2 7],
     sys_got = {#5, 6, 7, 8#}, sys_freed = {#}, sys_out = {#}\<rparr>"

lemma mp_two_resize_reach: "mp_reach True (mp_start [5, 6, 7, 8] 2) mp_two_resize"
  by (rule mp_schedule_reach [of "[Ev_resize 0 3, Ev_resize 1 2, Ev_run 0 None, Ev_run 1 None]"])
     (simp_all add: mp_two_resize_def mp_start_def mp_seg_defs remove_element_def buf_get_def numeral_2_eq_2)

theorem mempool_conserves_witness:
  "mp_reach True (mp_start [5, 6, 7, 8] 2) mp_two_resize \<and> sys_got mp_two_resize =
     mset (take (nat (curr_nr (sys_pool mp_two_resize))) (elements (sys_pool mp_two_resize))) + {#8#} + {#7#}"
  using mempool_conserves [OF mp_two_resize_reach] mp_two_resize_reach by (simp add: mp_two_resize_def)

text \<open>Two threads that resize at the same time can make the pool write outside its array. The first
  shrinks a pool of 4 to 3 and drops the lock to free an element; the second meanwhile shrinks it to 1
  and grows it to 2, which allocates an array of 2 elements; the first, without looking at the array
  again, sets \<open>min_nr\<close> to 3, and the next element freed goes to index 2 of an array of 2.\<close>

theorem mempool_concurrent_resize_overflows:
  "\<exists>s. mp_reach True (mp_start [1, 2, 3, 4] 2) s \<and> sys_pcs s ! 0 = Mp_free_locked 9 \<and>
     curr_nr (sys_pool s) < min_nr (sys_pool s) \<and> length (elements (sys_pool s)) = 2 \<and>
     mp_seg None (sys_pool s) (sys_pcs s ! 0) = None"
proof -
  let ?sched = "[Ev_resize 0 3, Ev_run 0 None, Ev_resize 1 1] @ [Ev_run 1 None, Ev_run 1 None, Ev_run 1 None, Ev_run 1 None, Ev_run 1 None] @
    [Ev_resize 1 2, Ev_run 1 None, Ev_run 1 (Some 0), Ev_run 1 None, Ev_run 1 (Some 5), Ev_run 1 None] @
    [Ev_run 0 None, Ev_run 0 None, Ev_alloc 0, Ev_run 0 (Some 9), Ev_free 0 9, Ev_run 0 None]"
  obtain s where s: "mp_schedule ?sched (mp_start [1, 2, 3, 4] 2) = Some s" "sys_pcs s ! 0 = Mp_free_locked 9"
    "sys_pool s = \<lparr>min_nr = 3, curr_nr = 2, elements = [1, 5]\<rparr>"
    by (simp add: mp_start_def mp_seg_defs remove_element_def add_element_def buf_get_def buf_set_def blit_def)
  have "mp_reach True (mp_start [1, 2, 3, 4] 2) s" by (rule mp_schedule_reach [OF s(1)]) simp
  then show ?thesis using s(2,3) by (auto simp: mp_seg_defs add_element_def buf_set_def)
qed

text \<open>\<open>mempool_alloc\<close> fails, in whatever context it is called, exactly when the allocator fails and the
  reserve is empty: it does not wait for an element, although its description says that it never fails
  in process context. Such a call is reachable with a reserve of one element.\<close>

theorem mempool_alloc_fails:
  "(mempool_alloc_call a pool = Some (pool, Mp_alloc_reserve, []) \<longleftrightarrow> a = None) \<and>
   (mempool_alloc_reserve pool = Some (pool, Mp_idle, [Eff_alloc None]) \<longleftrightarrow> curr_nr pool = 0) \<and>
   (\<exists>s. mp_reach False (mp_start [7] 2) s \<and> sys_pcs s ! 1 = Mp_alloc_reserve \<and> curr_nr (sys_pool s) = 0)"
proof (intro conjI)
  show "mempool_alloc_call a pool = Some (pool, Mp_alloc_reserve, []) \<longleftrightarrow> a = None"
    by (simp add: mempool_alloc_call_def split: option.splits)
  show "mempool_alloc_reserve pool = Some (pool, Mp_idle, [Eff_alloc None]) \<longleftrightarrow> curr_nr pool = 0"
    by (auto simp: mempool_alloc_reserve_def split: bind_splits)
  let ?sched = "[Ev_alloc 0, Ev_run 0 None, Ev_run 0 None, Ev_alloc 1, Ev_run 1 None]"
  obtain s where s: "mp_schedule ?sched (mp_start [7] 2) = Some s" "sys_pcs s ! 1 = Mp_alloc_reserve" "curr_nr (sys_pool s) = 0"
    by (simp add: mp_start_def mp_seg_defs remove_element_def buf_get_def)
  then show "\<exists>s. mp_reach False (mp_start [7] 2) s \<and> sys_pcs s ! 1 = Mp_alloc_reserve \<and> curr_nr (sys_pool s) = 0"
    using mp_schedule_reach [OF s(1), of False] by (auto simp: no_resize_def)
qed

text \<open>Creating a pool of \<open>n >= 0\<close> elements returns, with every allocator that accounts for its elements.
  Either there is no pool and every element taken from the allocator went back to it, or the pool
  holds exactly \<open>n\<close> elements from it; destroying that pool at once gives them all back.\<close>

theorem mempool_create_no_leak:
  assumes "0 \<le> n" "allocator_ok alloc_fn free_fn live"
  shows "\<exists>r h'. mempool_create_node mem_pool mem_elements n alloc_fn free_fn h = Some (r, h') \<and>
     (case r of None \<Rightarrow> live h' = live h
      | Some pool \<Rightarrow> curr_nr pool = n \<and> min_nr pool = n \<and> live h' = live h + mset (take (nat n) (elements pool)) \<and>
          (\<exists>h''. mempool_destroy free_fn pool h' = Some h'' \<and> live h'' = live h))"
proof (cases "mem_pool \<and> mem_elements")
  case False
  then show ?thesis by (auto simp: mempool_create_node_def)
next
  case True
  let ?p = "\<lparr>min_nr = n, curr_nr = 0, elements = replicate (nat n) 0\<rparr>"
  have "pool_ok ?p" "live h = live h + pool_elems ?p" using assms(1) by (simp_all add: pool_ok_def pool_elems_def)
  from fill_pool_live [OF assms(2) this] obtain r h' where
    f: "fill_pool alloc_fn free_fn ?p h = Some (r, h')" "filled ?p (live h) (live h') r" by blast
  have "\<exists>h''. mempool_destroy free_fn pool h' = Some h'' \<and> live h'' = live h" if "r = Some pool" for pool
    using f(2) that free_pool_live [OF assms(2), of pool h' "live h"] by (simp add: filled_def mempool_destroy_def)
  then show ?thesis using f True
    by (auto simp: mempool_create_node_def filled_def pool_elems_def split: option.splits)
qed

text \<open>An allocator that hands out consecutive numbers below 10.\<close>

definition demo_alloc :: "nat \<times> nat multiset \<Rightarrow> nat option \<times> nat \<times> nat multiset" where
  "demo_alloc h = (if fst h < 10 then (Some (fst h), Suc (fst h), add_mset (fst h) (snd h)) else (None, h))"

definition demo_free :: "nat \<Rightarrow> nat \<times> nat multiset \<Rightarrow> nat \<times> nat multiset" where
  "demo_free e h = (fst h, snd h - {#e#})"

theorem mempool_create_no_leak_witness:
  "\<exists>r h'. mempool_create_node True True 12 demo_alloc demo_free (0, {#}) = Some (r, h') \<and>
     (case r of None \<Rightarrow> snd h' = {#} | Some pool \<Rightarrow> curr_nr pool = 12)"
proof -
  have "allocator_ok demo_alloc demo_free snd"
    by (auto simp: allocator_ok_def demo_alloc_def demo_free_def)
  from mempool_create_no_leak [OF _ this, of 12 True True "(0, {#})"] obtain r h' where
    "mempool_create_node True True 12 demo_alloc demo_free (0, {#}) = Some (r, h')"
    "case r of None \<Rightarrow> snd h' = {#} | Some pool \<Rightarrow> curr_nr pool = 12"
    by (fastforce split: option.splits)
  then show ?thesis by blast
qed

end
