(* ===== verification/Klist.thy ===== *)
theory Klist
  imports Prelude
begin

text \<open>
  Reference-counted lists that can be changed while they are walked: \<^verbatim>\<open>vmklinux26/linux/lib/klist.c\<close>
  on the reference counts of \<^verbatim>\<open>kref.c\<close>. Every operation holds the spin lock of the list, so an
  operation is one atomic step; what runs after the lock is dropped is only the \<open>put\<close> callback,
  which the model records. The list, its owner and any number of iterators form a transition system.
  The theorems: the count of a node is what its owner and the iterators hold, a node leaves the list
  and is put exactly when nobody holds it, and a walk visits the nodes in order.
\<close>

section \<open>Reference counts\<close>

definition kref_init :: int where
  "kref_init = 1"

definition kref_get :: "int \<Rightarrow> int" where
  "kref_get refcount = refcount + 1"

text \<open>\<open>kref_put\<close> says whether the last reference went and \<open>release\<close> has to run.\<close>

definition kref_put :: "int \<Rightarrow> int \<times> bool" where
  "kref_put refcount = (refcount - 1, refcount - 1 = 0)"

section \<open>The list\<close>

text \<open>The list with the fields of the nodes: the reference count, whether \<open>n_klist\<close> points to the list,
  the completion \<open>n_removed\<close>. \<open>get_log\<close> and \<open>put_log\<close> are the calls of the callbacks.\<close>

record klist =
  k_list :: "nat list"
  k_get :: bool
  k_put :: bool
  n_ref :: "nat \<Rightarrow> int"
  n_klist :: "nat \<Rightarrow> bool"
  n_removed :: "nat \<Rightarrow> bool"
  get_log :: "nat list"
  put_log :: "nat list"

definition klist_init :: "bool \<Rightarrow> bool \<Rightarrow> klist \<Rightarrow> klist" where
  "klist_init get put k = k\<lparr>k_list := [], k_get := get, k_put := put\<rparr>"

definition klist_node_init :: "klist \<Rightarrow> nat \<Rightarrow> klist" where
  "klist_node_init k n =
     (let k1 = k\<lparr>n_ref := (n_ref k)(n := kref_init), n_klist := (n_klist k)(n := True), n_removed := (n_removed k)(n := False)\<rparr>
      in if k_get k then k1\<lparr>get_log := get_log k1 @ [n]\<rparr> else k1)"

definition klist_add_head :: "nat \<Rightarrow> klist \<Rightarrow> klist" where
  "klist_add_head n k = (let k1 = klist_node_init k n in k1\<lparr>k_list := n # k_list k1\<rparr>)"

definition klist_add_tail :: "nat \<Rightarrow> klist \<Rightarrow> klist" where
  "klist_add_tail n k = (let k1 = klist_node_init k n in k1\<lparr>k_list := k_list k1 @ [n]\<rparr>)"

definition klist_release :: "klist \<Rightarrow> nat \<Rightarrow> klist" where
  "klist_release k n =
     k\<lparr>k_list := remove1 n (k_list k), n_klist := (n_klist k)(n := False), n_removed := (n_removed k)(n := True)\<rparr>"

definition klist_dec_and_del :: "klist \<Rightarrow> nat \<Rightarrow> bool \<times> klist" where
  "klist_dec_and_del k n =
     (case kref_put (n_ref k n) of (r, zero) \<Rightarrow>
        let k1 = k\<lparr>n_ref := (n_ref k)(n := r)\<rparr> in
        if zero then (True, klist_release k1 n) else (False, k1))"

text \<open>The callback runs after the lock is dropped, when the node went and the list has one.\<close>

definition klist_put :: "bool \<Rightarrow> nat \<Rightarrow> klist \<Rightarrow> klist" where
  "klist_put went n k = (if went \<and> k_put k then k\<lparr>put_log := put_log k @ [n]\<rparr> else k)"

text \<open>A node that is on no list has no \<open>n_klist\<close> to read the lock from.\<close>

definition klist_del :: "nat \<Rightarrow> klist \<Rightarrow> klist option" where
  "klist_del n k =
     (if \<not> n_klist k n then None
      else case klist_dec_and_del k n of (went, k1) \<Rightarrow> Some (klist_put went n k1))"

definition klist_node_attached :: "nat \<Rightarrow> klist \<Rightarrow> bool" where
  "klist_node_attached n k = n_klist k n"

text \<open>\<open>klist_remove\<close> waits until the node is gone; it goes on when \<open>n_removed\<close> is complete.\<close>

definition klist_remove_done :: "nat \<Rightarrow> klist \<Rightarrow> bool" where
  "klist_remove_done n k = n_removed k n"

section \<open>Iterators\<close>

text \<open>The iterator is its current node.\<close>

definition klist_iter_init_node :: "nat option \<Rightarrow> klist \<Rightarrow> nat option \<times> klist" where
  "klist_iter_init_node n k =
     (n, case n of Some m \<Rightarrow> k\<lparr>n_ref := (n_ref k)(m := kref_get (n_ref k m))\<rparr> | None \<Rightarrow> k)"

definition klist_iter_init :: "klist \<Rightarrow> nat option \<times> klist" where
  "klist_iter_init k = klist_iter_init_node None k"

definition klist_iter_exit :: "nat option \<Rightarrow> klist \<Rightarrow> (nat option \<times> klist) option" where
  "klist_iter_exit cur k =
     (case cur of Some n \<Rightarrow> map_option (Pair None) (klist_del n k) | None \<Rightarrow> Some (None, k))"

text \<open>The \<open>next\<close> pointer of a node of the list; \<^term>\<open>None\<close> is the head.\<close>

fun list_next :: "nat list \<Rightarrow> nat \<Rightarrow> nat option" where
  "list_next [] n = None"
| "list_next (x # xs) n = (if x = n then (case xs of [] \<Rightarrow> None | y # ys \<Rightarrow> Some y) else list_next xs n)"

definition list_first :: "nat list \<Rightarrow> nat option" where
  "list_first xs = (case xs of [] \<Rightarrow> None | x # _ \<Rightarrow> Some x)"

definition klist_next :: "nat option \<Rightarrow> klist \<Rightarrow> nat option \<times> klist" where
  "klist_next cur k =
     (let (nxt, went, k1) =
            (case cur of
               Some n \<Rightarrow> (let nxt = list_next (k_list k) n; (went, k1) = klist_dec_and_del k n in (nxt, went, k1))
             | None \<Rightarrow> (list_first (k_list k), False, k));
          k2 = (case nxt of Some m \<Rightarrow> k1\<lparr>n_ref := (n_ref k1)(m := kref_get (n_ref k1 m))\<rparr> | None \<Rightarrow> k1)
      in (nxt, case cur of Some n \<Rightarrow> klist_put went n k2 | None \<Rightarrow> k2))"

section \<open>The transition system\<close>

text \<open>Nodes their owner has added and not deleted, and the iterators. The obligations of the clients are
  the guards: a node is added when it is on no list, deleted once, an iterator starts from nothing
  and at a node its owner still holds.\<close>

record klist_sys =
  kl :: klist
  owned :: "nat set"
  iters :: "nat option list"

inductive kl_step :: "klist_sys \<Rightarrow> klist_sys \<Rightarrow> bool" where
  add_head: "n_ref (kl s) n = 0 \<Longrightarrow> kl_step s (s\<lparr>kl := klist_add_head n (kl s), owned := insert n (owned s)\<rparr>)"
| add_tail: "n_ref (kl s) n = 0 \<Longrightarrow> kl_step s (s\<lparr>kl := klist_add_tail n (kl s), owned := insert n (owned s)\<rparr>)"
| del: "\<lbrakk>n \<in> owned s; klist_del n (kl s) = Some k\<rbrakk> \<Longrightarrow> kl_step s (s\<lparr>kl := k, owned := owned s - {n}\<rparr>)"
| iter_init_node: "\<lbrakk>i < length (iters s); iters s ! i = None; n \<in> owned s; klist_iter_init_node (Some n) (kl s) = (cur, k)\<rbrakk> \<Longrightarrow>
    kl_step s (s\<lparr>kl := k, iters := (iters s)[i := cur]\<rparr>)"
| iter_next: "\<lbrakk>i < length (iters s); klist_next (iters s ! i) (kl s) = (cur, k)\<rbrakk> \<Longrightarrow>
    kl_step s (s\<lparr>kl := k, iters := (iters s)[i := cur]\<rparr>)"
| iter_exit: "\<lbrakk>i < length (iters s); klist_iter_exit (iters s ! i) (kl s) = Some (cur, k)\<rbrakk> \<Longrightarrow>
    kl_step s (s\<lparr>kl := k, iters := (iters s)[i := cur]\<rparr>)"

definition kl_start :: "nat \<Rightarrow> klist_sys" where
  "kl_start n = \<lparr>kl = klist_init True True \<lparr>k_list = [], k_get = False, k_put = False, n_ref = (\<lambda>_. 0), n_klist = (\<lambda>_. False),
       n_removed = (\<lambda>_. False), get_log = [], put_log = []\<rparr>, owned = {}, iters = replicate n None\<rparr>"

inductive_cases kl_step_cases: "kl_step s s'"

section \<open>Invariant\<close>

definition klist_ok :: "klist \<Rightarrow> bool" where
  "klist_ok k \<longleftrightarrow> distinct (k_list k) \<and> k_get k \<and> k_put k \<and>
     (\<forall>n. 0 \<le> n_ref k n \<and> (n \<in> set (k_list k) \<longleftrightarrow> 0 < n_ref k n) \<and> (n_klist k n \<longleftrightarrow> n \<in> set (k_list k)) \<and>
          count_list (get_log k) n = count_list (put_log k) n + (if n \<in> set (k_list k) then 1 else 0) \<and>
          (n \<in> set (get_log k) \<longrightarrow> (n_removed k n \<longleftrightarrow> n \<notin> set (k_list k))))"

lemma klist_add_ok:
  assumes "klist_ok k" "n_ref k n = 0"
  shows "klist_ok (klist_add_head n k)" "klist_ok (klist_add_tail n k)"
    "n_ref (klist_add_head n k) = (n_ref k)(n := 1)" "n_ref (klist_add_tail n k) = (n_ref k)(n := 1)"
  using assms
  by (auto simp: klist_ok_def klist_add_head_def klist_add_tail_def klist_node_init_def kref_init_def Let_def)

lemma klist_get_ok:
  assumes "klist_ok k" "n \<in> set (k_list k)"
  shows "klist_ok (k\<lparr>n_ref := (n_ref k)(n := kref_get (n_ref k n))\<rparr>)"
  using assms by (auto simp: klist_ok_def kref_get_def)

text \<open>Dropping a reference, with the callback that follows.\<close>

definition klist_drop :: "nat \<Rightarrow> klist \<Rightarrow> klist" where
  "klist_drop n k = (case klist_dec_and_del k n of (went, k1) \<Rightarrow> klist_put went n k1)"

lemma klist_drop_ok:
  assumes "klist_ok k" "n \<in> set (k_list k)"
  shows "klist_ok (klist_drop n k)" "n_ref (klist_drop n k) = (n_ref k)(n := n_ref k n - 1)"
    "k_list (klist_drop n k) = (if n_ref k n = 1 then remove1 n (k_list k) else k_list k)"
  using assms
  by (auto simp: klist_ok_def klist_drop_def klist_dec_and_del_def klist_put_def klist_release_def kref_put_def Let_def)

lemma klist_del_drop: "klist_ok k \<Longrightarrow> n \<in> set (k_list k) \<Longrightarrow> klist_del n k = Some (klist_drop n k)"
  by (simp add: klist_del_def klist_drop_def klist_ok_def split: prod.split)

lemma klist_next_None:
  "klist_next None k = (list_first (k_list k),
     case list_first (k_list k) of Some m \<Rightarrow> k\<lparr>n_ref := (n_ref k)(m := kref_get (n_ref k m))\<rparr> | None \<Rightarrow> k)"
  by (simp add: klist_next_def)

lemma klist_next_Some:
  "klist_next (Some n) k = (list_next (k_list k) n,
     case list_next (k_list k) n of
       Some m \<Rightarrow> (klist_drop n k)\<lparr>n_ref := (n_ref (klist_drop n k))(m := kref_get (n_ref (klist_drop n k) m))\<rparr>
     | None \<Rightarrow> klist_drop n k)"
  by (auto simp: klist_next_def klist_drop_def klist_put_def Let_def split: prod.split option.split)

lemma list_next_in: "list_next xs n = Some m \<Longrightarrow> m \<in> set xs"
  by (induction xs) (auto split: if_splits list.splits)

lemma list_next_neq: "distinct xs \<Longrightarrow> list_next xs n = Some m \<Longrightarrow> m \<noteq> n"
  by (induction xs) (auto split: if_splits list.splits dest: list_next_in)

lemma list_first_in: "list_first xs = Some m \<Longrightarrow> m \<in> set xs"
  by (auto simp: list_first_def split: list.splits)

text \<open>What the owner and the iterators hold of a node.\<close>

definition kl_held :: "klist_sys \<Rightarrow> nat \<Rightarrow> int" where
  "kl_held s n = (if n \<in> owned s then 1 else 0) + int (count_list (iters s) (Some n))"

definition kl_inv :: "klist_sys \<Rightarrow> bool" where
  "kl_inv s \<longleftrightarrow> klist_ok (kl s) \<and> n_ref (kl s) = kl_held s"

lemma count_list_update:
  "i < length xs \<Longrightarrow> count_list (xs[i := x]) y + (if xs ! i = y then 1 else 0) = count_list xs y + (if x = y then 1 else 0)"
proof (induction xs arbitrary: i)
  case (Cons a xs)
  show ?case
  proof (cases i)
    case (Suc j)
    then show ?thesis using Cons(1) [of j] Cons(2) by (auto split: if_splits)
  qed simp
qed simp

lemma kl_held_in: "kl_inv s \<Longrightarrow> 0 < kl_held s n \<Longrightarrow> n \<in> set (k_list (kl s))"
  by (simp add: kl_inv_def klist_ok_def)

lemma owned_in: "kl_inv s \<Longrightarrow> n \<in> owned s \<Longrightarrow> n \<in> set (k_list (kl s))"
  by (rule kl_held_in) (auto simp: kl_held_def)

lemma iter_in:
  assumes "kl_inv s" "i < length (iters s)" "iters s ! i = Some n"
  shows "n \<in> set (k_list (kl s))"
proof (rule kl_held_in [OF assms(1)])
  have "Some n \<in> set (iters s)" using assms(2,3) by (metis nth_mem)
  then have "count_list (iters s) (Some n) \<noteq> 0" by (simp add: count_list_0_iff)
  then show "0 < kl_held s n" by (simp add: kl_held_def)
qed

lemma kl_held_iter:
  assumes "i < length (iters s)"
  shows "kl_held (s\<lparr>kl := k, iters := (iters s)[i := x]\<rparr>) n =
    kl_held s n + (if x = Some n then 1 else 0) - (if iters s ! i = Some n then 1 else 0)"
  using count_list_update [OF assms, of x "Some n"] by (auto simp: kl_held_def split: if_splits)

lemma klist_next_ok:
  assumes "klist_ok k" "case cur of None \<Rightarrow> True | Some n \<Rightarrow> n \<in> set (k_list k)" "klist_next cur k = (cur', k')"
  shows "klist_ok k'"
    "n_ref k' m = n_ref k m + (if cur' = Some m then 1 else 0) - (if cur = Some m then 1 else 0)"
proof -
  have d: "distinct (k_list k)" using assms(1) by (simp add: klist_ok_def)
  have "klist_ok k' \<and> n_ref k' m = n_ref k m + (if cur' = Some m then 1 else 0) - (if cur = Some m then 1 else 0)"
  proof (cases cur)
    case None
    then show ?thesis using assms klist_get_ok [OF assms(1) list_first_in]
      by (auto simp: klist_next_None kref_get_def split: option.splits)
  next
    case (Some n)
    then have n: "n \<in> set (k_list k)" using assms(2) by simp
    note o = klist_drop_ok [OF assms(1) n]
    show ?thesis
    proof (cases "list_next (k_list k) n")
      case None
      then show ?thesis using assms(3) Some o by (auto simp: klist_next_Some)
    next
      case nxt: (Some l)
      have l: "l \<noteq> n" "l \<in> set (k_list (klist_drop n k))"
        using list_next_in [OF nxt] list_next_neq [OF d nxt] o(3) d by auto
      show ?thesis using assms(3) Some nxt l klist_get_ok [OF o(1) l(2)] o(2)
        by (auto simp: klist_next_Some kref_get_def)
    qed
  qed
  then show "klist_ok k'" "n_ref k' m = n_ref k m + (if cur' = Some m then 1 else 0) - (if cur = Some m then 1 else 0)" by auto
qed

lemma kl_inv_iter:
  assumes "kl_inv s" "i < length (iters s)" "klist_ok k"
    "\<And>m. n_ref k m = n_ref (kl s) m + (if cur = Some m then 1 else 0) - (if iters s ! i = Some m then 1 else 0)"
  shows "kl_inv (s\<lparr>kl := k, iters := (iters s)[i := cur]\<rparr>)"
  using assms by (auto simp: kl_inv_def kl_held_iter)

lemma kl_step_inv: "kl_step s s' \<Longrightarrow> kl_inv s \<Longrightarrow> kl_inv s'"
proof (induction rule: kl_step.induct)
  case (add_head s n)
  then show ?case using klist_add_ok [of "kl s" n] by (auto simp: kl_inv_def kl_held_def fun_eq_iff split: if_splits)
next
  case (add_tail s n)
  then show ?case using klist_add_ok [of "kl s" n] by (auto simp: kl_inv_def kl_held_def fun_eq_iff split: if_splits)
next
  case (del n s k)
  have k: "k = klist_drop n (kl s)" "klist_ok (kl s)"
    using del klist_del_drop [of "kl s" n] owned_in [OF del(3,1)] by (auto simp: kl_inv_def)
  show ?case using klist_drop_ok [OF k(2) owned_in [OF del(3,1)]] del by (auto simp: k(1) kl_inv_def kl_held_def fun_eq_iff)
next
  case (iter_init_node i s n cur k)
  have "klist_ok (kl s)" using iter_init_node(5) by (simp add: kl_inv_def)
  from klist_get_ok [OF this owned_in [OF iter_init_node(5,3)]] show ?case
    using iter_init_node by (intro kl_inv_iter) (auto simp: klist_iter_init_node_def kref_get_def split: if_splits)
next
  case (iter_next i s cur k)
  have ok: "klist_ok (kl s)" using iter_next(3) by (simp add: kl_inv_def)
  have c: "case iters s ! i of None \<Rightarrow> True | Some n \<Rightarrow> n \<in> set (k_list (kl s))"
    using iter_in [OF iter_next(3,1)] by (auto split: option.splits)
  show ?case using klist_next_ok [OF ok c iter_next(2)] iter_next(1,3) by (intro kl_inv_iter) auto
next
  case (iter_exit i s cur k)
  have ok: "klist_ok (kl s)" using iter_exit(3) by (simp add: kl_inv_def)
  show ?case
  proof (cases "iters s ! i")
    case None
    then show ?thesis using iter_exit ok by (intro kl_inv_iter) (auto simp: klist_iter_exit_def)
  next
    case (Some n)
    note n = iter_in [OF iter_exit(3,1) Some]
    show ?thesis using iter_exit Some klist_del_drop [OF ok n] klist_drop_ok [OF ok n]
      by (intro kl_inv_iter) (auto simp: klist_iter_exit_def)
  qed
qed

interpretation kl_sys: step_invariant kl_step kl_inv
  by unfold_locales (rule kl_step_inv)

lemma kl_start_inv: "kl_inv (kl_start m)"
proof -
  have "count_list (replicate m None) (Some n) = 0" for n :: nat by (induction m) auto
  then show ?thesis by (simp add: kl_start_def klist_init_def kl_inv_def klist_ok_def kl_held_def fun_eq_iff)
qed

lemma kl_reach_inv: "kl_step\<^sup>*\<^sup>* (kl_start m) s \<Longrightarrow> kl_inv s"
  using kl_sys.reach_inv kl_start_inv by blast

section \<open>Walking the list\<close>

text \<open>The loop of a client: \<open>klist_next\<close> until it returns nothing.\<close>

fun klist_walk :: "nat \<Rightarrow> nat option \<Rightarrow> klist \<Rightarrow> (nat list \<times> klist) option" where
  "klist_walk 0 cur k = None"
| "klist_walk (Suc fuel) cur k =
     (case klist_next cur k of
        (None, k1) \<Rightarrow> Some ([], k1)
      | (Some n, k1) \<Rightarrow> map_option (\<lambda>(ns, k2). (n # ns, k2)) (klist_walk fuel (Some n) k1))"

lemma list_next_append: "n \<notin> set xs \<Longrightarrow> list_next (xs @ n # ys) n = list_first ys"
  by (induction xs) (auto simp: list_first_def)

lemma klist_drop_get:
  assumes "0 < n_ref k n"
  shows "klist_drop n (k\<lparr>n_ref := (n_ref k)(n := kref_get (n_ref k n))\<rparr>) = k"
  using assms by (simp add: klist_drop_def klist_dec_and_del_def klist_put_def kref_put_def kref_get_def)

lemma klist_walk_rest:
  assumes "klist_ok k"
  shows "k_list k = xs @ n # ys \<Longrightarrow>
    klist_walk (Suc (length ys)) (Some n) (k\<lparr>n_ref := (n_ref k)(n := kref_get (n_ref k n))\<rparr>) = Some (ys, k)"
proof (induction ys arbitrary: xs n)
  case Nil
  have "0 < n_ref k n" "n \<notin> set xs" using assms Nil by (auto simp: klist_ok_def)
  then show ?case using Nil klist_drop_get [of k n]
    by (simp add: klist_next_Some list_next_append list_first_def del: fun_upd_apply)
next
  case (Cons y ys)
  have "0 < n_ref k n" "n \<notin> set xs" using assms Cons(2) by (auto simp: klist_ok_def)
  then have "klist_next (Some n) (k\<lparr>n_ref := (n_ref k)(n := kref_get (n_ref k n))\<rparr>) =
      (Some y, k\<lparr>n_ref := (n_ref k)(y := kref_get (n_ref k y))\<rparr>)"
    using Cons(2) klist_drop_get [of k n]
    by (simp add: klist_next_Some list_next_append list_first_def del: fun_upd_apply)
  then show ?case using Cons(1) [of "xs @ [n]" y] Cons(2)
    by (subst klist_walk.simps(2)) (simp del: fun_upd_apply klist_walk.simps)
qed

section \<open>Properties\<close>

text \<open>C28: Whatever sequence of additions, deletions and iterator operations of any number of iterators
  runs, the reference count of every node is what its owner (1 until it deletes the node) and the
  iterators at the node hold; the nodes on the list are exactly those with a positive count, each
  once; and the next operation of the owner or of an iterator finds its node on the list and succeeds.\<close>

theorem klist_refcounts:
  assumes "kl_step\<^sup>*\<^sup>* (kl_start m) s"
  shows "n_ref (kl s) n = (if n \<in> owned s then 1 else 0) + int (count_list (iters s) (Some n)) \<and>
    (n \<in> set (k_list (kl s)) \<longleftrightarrow> 0 < n_ref (kl s) n) \<and> distinct (k_list (kl s)) \<and>
    (n \<in> owned s \<longrightarrow> klist_del n (kl s) \<noteq> None) \<and>
    (i < length (iters s) \<longrightarrow> klist_iter_exit (iters s ! i) (kl s) \<noteq> None)"
proof (intro conjI)
  have i: "kl_inv s" by (rule kl_reach_inv [OF assms])
  then have ok: "klist_ok (kl s)" by (simp add: kl_inv_def)
  show "n_ref (kl s) n = (if n \<in> owned s then 1 else 0) + int (count_list (iters s) (Some n))"
    using i by (simp add: kl_inv_def kl_held_def)
  show "n \<in> set (k_list (kl s)) \<longleftrightarrow> 0 < n_ref (kl s) n" "distinct (k_list (kl s))" using ok by (auto simp: klist_ok_def)
  show "n \<in> owned s \<longrightarrow> klist_del n (kl s) \<noteq> None"
    using klist_del_drop [OF ok] owned_in [OF i] by auto
  show "i < length (iters s) \<longrightarrow> klist_iter_exit (iters s ! i) (kl s) \<noteq> None"
    using klist_del_drop [OF ok] iter_in [OF i] by (auto simp: klist_iter_exit_def split: option.splits)
qed

definition kl_demo :: klist_sys where
  "kl_demo = (let k = klist_add_tail 6 (klist_add_tail 5 (kl (kl_start 1))); (cur, k1) = klist_next None k in
     \<lparr>kl = the (klist_del 5 k1), owned = {6}, iters = [cur]\<rparr>)"

text \<open>An iterator stands at node 5, which its owner has deleted; node 6 follows.\<close>

lemma kl_demo_reach: "kl_step\<^sup>*\<^sup>* (kl_start 1) kl_demo"
proof -
  let ?s1 = "(kl_start 1)\<lparr>kl := klist_add_tail 5 (kl (kl_start 1)), owned := insert 5 (owned (kl_start 1))\<rparr>"
  let ?s2 = "?s1\<lparr>kl := klist_add_tail 6 (kl ?s1), owned := insert 6 (owned ?s1)\<rparr>"
  let ?k = "snd (klist_next None (kl ?s2))"
  let ?s3 = "?s2\<lparr>kl := ?k, iters := (iters ?s2)[0 := Some 5]\<rparr>"
  have a: "kl_step (kl_start 1) ?s1" by (rule kl_step.add_tail) (simp add: kl_start_def klist_init_def)
  have b: "kl_step ?s1 ?s2" by (rule kl_step.add_tail) (simp add: kl_start_def klist_init_def klist_add_tail_def klist_node_init_def)
  have c: "kl_step ?s2 ?s3"
    by (rule kl_step.iter_next) (simp_all add: kl_start_def klist_init_def klist_add_tail_def klist_node_init_def klist_next_None list_first_def)
  have "kl_step ?s3 (?s3\<lparr>kl := the (klist_del 5 ?k), owned := owned ?s3 - {5}\<rparr>)"
    by (rule kl_step.del) (simp_all add: kl_start_def klist_init_def klist_add_tail_def klist_node_init_def klist_next_None list_first_def klist_del_def split: prod.split)
  also have "?s3\<lparr>kl := the (klist_del 5 ?k), owned := owned ?s3 - {5}\<rparr> = kl_demo"
    by (simp add: kl_demo_def kl_start_def klist_next_None list_first_def klist_add_tail_def klist_node_init_def klist_init_def Let_def insert_Diff_if)
  finally show ?thesis using a b c by (meson converse_rtranclp_into_rtranclp r_into_rtranclp)
qed

theorem klist_refcounts_witness:
  "n_ref (kl kl_demo) 5 = 1 \<and> 5 \<in> set (k_list (kl kl_demo)) \<and> klist_iter_exit (Some 5) (kl kl_demo) \<noteq> None"
proof -
  have "owned kl_demo = {6}" "iters kl_demo = [Some 5]"
    by (simp_all add: kl_demo_def kl_start_def klist_next_None list_first_def klist_add_tail_def klist_node_init_def klist_init_def Let_def)
  then show ?thesis using klist_refcounts [OF kl_demo_reach, of 5 0] by simp
qed

text \<open>A thread in \<open>klist_remove\<close> goes on exactly when the node is on no list any more, that is when its
  owner has deleted it and no iterator stands at it; and the \<open>put\<close> callback has run once for every
  \<open>get\<close> of the node, except for the one of the list while the node is on it.\<close>

theorem klist_remove_and_put:
  assumes "kl_step\<^sup>*\<^sup>* (kl_start m) s" "n \<in> set (get_log (kl s))"
  shows "(klist_remove_done n (kl s) \<longleftrightarrow> n \<notin> owned s \<and> Some n \<notin> set (iters s)) \<and>
    (klist_remove_done n (kl s) \<longleftrightarrow> \<not> klist_node_attached n (kl s)) \<and>
    count_list (get_log (kl s)) n = count_list (put_log (kl s)) n + (if klist_remove_done n (kl s) then 0 else 1)"
proof (intro conjI)
  have i: "kl_inv s" by (rule kl_reach_inv [OF assms(1)])
  then have r: "n_removed (kl s) n \<longleftrightarrow> n \<notin> set (k_list (kl s))" "n \<in> set (k_list (kl s)) \<longleftrightarrow> 0 < kl_held s n"
    using assms(2) by (auto simp: kl_inv_def klist_ok_def)
  have "0 < kl_held s n \<longleftrightarrow> n \<in> owned s \<or> Some n \<in> set (iters s)"
    using count_list_0_iff [of "iters s" "Some n"] by (auto simp: kl_held_def)
  then show "klist_remove_done n (kl s) \<longleftrightarrow> n \<notin> owned s \<and> Some n \<notin> set (iters s)"
    using r by (simp add: klist_remove_done_def)
  show "klist_remove_done n (kl s) \<longleftrightarrow> \<not> klist_node_attached n (kl s)"
    "count_list (get_log (kl s)) n = count_list (put_log (kl s)) n + (if klist_remove_done n (kl s) then 0 else 1)"
    using i r(1) by (auto simp: kl_inv_def klist_ok_def klist_remove_done_def klist_node_attached_def)
qed

theorem klist_remove_and_put_witness: "\<not> klist_remove_done 5 (kl kl_demo) \<and> put_log (kl kl_demo) = []"
proof -
  have d: "get_log (kl kl_demo) = [5, 6]" "owned kl_demo = {6}" "iters kl_demo = [Some 5]" "put_log (kl kl_demo) = []"
    by (simp_all add: kl_demo_def kl_start_def klist_next_None list_first_def klist_add_tail_def klist_node_init_def
      klist_init_def Let_def klist_del_def klist_dec_and_del_def kref_put_def kref_get_def kref_init_def klist_put_def)
  show ?thesis using klist_remove_and_put [OF kl_demo_reach, of 5] d by simp
qed

text \<open>A walk from a new iterator over a list that nobody changes meanwhile returns every node of the
  list, in the order of the list, and leaves all reference counts as they were.\<close>

theorem klist_walk_complete:
  assumes "kl_step\<^sup>*\<^sup>* (kl_start m) s"
  shows "klist_walk (Suc (length (k_list (kl s)))) (fst (klist_iter_init (kl s))) (kl s) = Some (k_list (kl s), kl s)"
proof -
  have ok: "klist_ok (kl s)" using kl_reach_inv [OF assms] by (simp add: kl_inv_def)
  show ?thesis
  proof (cases "k_list (kl s)")
    case Nil
    then show ?thesis by (simp add: klist_iter_init_def klist_iter_init_node_def klist_next_None list_first_def)
  next
    case (Cons n ns)
    then show ?thesis using klist_walk_rest [OF ok, of "[]" n ns]
      by (subst klist_walk.simps(2))
         (simp add: klist_iter_init_def klist_iter_init_node_def klist_next_None list_first_def del: fun_upd_apply klist_walk.simps)
  qed
qed

theorem klist_walk_complete_witness:
  "klist_walk (Suc (length (k_list (kl kl_demo)))) (fst (klist_iter_init (kl kl_demo))) (kl kl_demo) = Some ([5, 6], kl kl_demo)"
proof -
  have "k_list (kl kl_demo) = [5, 6]"
    by (simp add: kl_demo_def kl_start_def klist_next_None list_first_def klist_add_tail_def klist_node_init_def
      klist_init_def Let_def klist_del_def klist_dec_and_del_def kref_put_def kref_get_def kref_init_def klist_put_def)
  then show ?thesis using klist_walk_complete [OF kl_demo_reach] by simp
qed

end
