(* ===== verification/Scsi_Cmd.thy ===== *)
theory Scsi_Cmd
  imports Prelude
begin

text \<open>
  The life of a SCSI command in vmklinux, \<^verbatim>\<open>vmklinux26/vmware/linux_scsi.c\<close>: queueing it to the
  driver, its completion by the driver, the bottom half that reports it to the vmkernel, aborts and
  timeouts. A function that runs under one lock is one atomic step; the driver, the aborting thread,
  the timer, the worker and the bottom half of one CPU interleave. A panic of the code
  (\<open>VMK_NOT_REACHED\<close>) is \<^term>\<open>None\<close>.

  The driver is a participant of the transition system: it accepts a command or refuses it, and
  completes an accepted command once, with any status. Commands come from the vmkernel; the internal
  commands of vmklinux, task management requests and the debugging hooks that drop commands do not
  occur in the system, although the operations handle their flags.
\<close>

section \<open>Data\<close>

datatype vmk_flag = NEED_CMDDONE | DELAY_CMDDONE | CMDDONE_ATTEMPTED | TMF_REQUEST | IO_TIMEOUT | INTERNAL_COMMAND

datatype scsi_host_state = SHOST_CREATED | SHOST_RUNNING | SHOST_CANCEL | SHOST_DEL | SHOST_RECOVERY
  | SHOST_CANCEL_RECOVERY | SHOST_DEL_RECOVERY

datatype scsi_device_state = SDEV_CREATED | SDEV_RUNNING | SDEV_CANCEL | SDEV_DEL | SDEV_QUIESCE | SDEV_OFFLINE | SDEV_BLOCK

record scsi_cmnd =
  vmkflags :: "vmk_flag set"
  serial_number :: nat
  result :: u32
  resid :: int
  request_bufflen :: u32
  underflow :: u32

text \<open>What the bottom half reports of a command: host status, device status and bytes transferred.\<close>

type_synonym scsi_report = "u8 \<times> u8 \<times> u32"

text \<open>The bottom half of the CPU: off, or in its loop with a deadline and the last reading of the clock.\<close>

datatype bh_pc = Bh_off | Bh_loop u64 u64

text \<open>The host, the device, the CPU's completion lists, and the parties that hold commands: the driver
  (\<open>drv\<close>), threads that abort (\<open>aborting\<close>), timers, and the work item of \<open>linuxSCSIIO_work\<close>, with the number
  of times it is in the work queue. \<open>int_sem\<close> are the semaphores of internal commands; \<open>completed\<close> are the reports to the vmkernel, in order.\<close>

record scsi_sys =
  cmds :: "nat \<Rightarrow> scsi_cmnd"
  shost_state :: scsi_host_state
  sdev_state :: scsi_device_state
  host_self_blocked :: bool
  max_cmd_len :: nat
  can_queue :: int
  queue_depth :: int
  fc_io_timeout :: bool
  host_busy :: int
  device_busy :: int
  isrDoneCmds :: "nat list"
  bhDoneCmds :: "nat list"
  runningBH :: bool
  bh_scheduled :: bool
  bh :: bh_pc
  drv :: "nat set"
  aborting :: "nat set"
  io_timers :: "nat set"
  work_data :: "nat option"
  work_queued :: nat
  int_sem :: "nat \<Rightarrow> nat"
  completed :: "(nat \<times> scsi_report) list"

abbreviation (input) DID_NO_CONNECT :: u32 where "DID_NO_CONNECT \<equiv> 0x01"
abbreviation (input) DID_TIME_OUT :: u32 where "DID_TIME_OUT \<equiv> 0x03"
abbreviation (input) DID_ABORT :: u32 where "DID_ABORT \<equiv> 0x05"
abbreviation (input) DID_ERROR :: u32 where "DID_ERROR \<equiv> 0x07"
abbreviation (input) SAM_STAT_BUSY :: u32 where "SAM_STAT_BUSY \<equiv> 0x08"

definition cmd_upd :: "nat \<Rightarrow> (scsi_cmnd \<Rightarrow> scsi_cmnd) \<Rightarrow> scsi_sys \<Rightarrow> scsi_sys" where
  "cmd_upd n f s = s\<lparr>cmds := (cmds s)(n := f (cmds s n))\<rparr>"

definition set_flag :: "vmk_flag \<Rightarrow> scsi_cmnd \<Rightarrow> scsi_cmnd" where
  "set_flag f c = c\<lparr>vmkflags := insert f (vmkflags c)\<rparr>"

definition clear_flag :: "vmk_flag \<Rightarrow> scsi_cmnd \<Rightarrow> scsi_cmnd" where
  "clear_flag f c = c\<lparr>vmkflags := vmkflags c - {f}\<rparr>"

definition has_flag :: "scsi_sys \<Rightarrow> nat \<Rightarrow> vmk_flag \<Rightarrow> bool" where
  "has_flag s n f \<longleftrightarrow> f \<in> vmkflags (cmds s n)"

section \<open>Completion\<close>

definition SCSILinuxSignalBH :: "scsi_sys \<Rightarrow> scsi_sys" where
  "SCSILinuxSignalBH s = (if \<not> runningBH s then s\<lparr>runningBH := True, bh_scheduled := True\<rparr> else s)"

definition SCSILinuxScheduleCompletion :: "nat \<Rightarrow> scsi_sys \<Rightarrow> scsi_sys" where
  "SCSILinuxScheduleCompletion n s = SCSILinuxSignalBH (s\<lparr>isrDoneCmds := isrDoneCmds s @ [n]\<rparr>)"

text \<open>A success with a negative residue, or with less data than required, becomes an error; the
  difference is computed in \<open>unsigned int\<close>.\<close>

definition cmd_transferred :: "scsi_cmnd \<Rightarrow> u32" where
  "cmd_transferred c = request_bufflen c - word_of_int (resid c)"

definition check_underflow :: "scsi_cmnd \<Rightarrow> scsi_cmnd" where
  "check_underflow c =
     (if result c = 0
      then if resid c < 0 then c\<lparr>result := push_bit 16 DID_ERROR\<rparr>
           else if cmd_transferred c < underflow c then c\<lparr>result := push_bit 16 DID_ERROR\<rparr>
           else c
      else c)"

definition SCSILinuxCmdDone :: "nat \<Rightarrow> scsi_sys \<Rightarrow> scsi_sys option" where
  "SCSILinuxCmdDone n s =
     (let s = (if has_flag s n IO_TIMEOUT then s\<lparr>io_timers := io_timers s - {n}\<rparr> else s) in
      if has_flag s n TMF_REQUEST then Some s
      else if \<not> has_flag s n NEED_CMDDONE then None
      else if has_flag s n DELAY_CMDDONE then Some (cmd_upd n (set_flag CMDDONE_ATTEMPTED) s)
      else Some (SCSILinuxScheduleCompletion n
                   (cmd_upd n (\<lambda>c. check_underflow ((clear_flag NEED_CMDDONE c)\<lparr>serial_number := 0\<rparr>)) s)))"

section \<open>The bottom half\<close>

definition VMKLNX_SCSI_HOST_STATUS :: "u32 \<Rightarrow> u8" where
  "VMKLNX_SCSI_HOST_STATUS status = ucast (drop_bit 16 status AND 0xff)"

definition VMKLNX_SCSI_DEVICE_STATUS :: "u32 \<Rightarrow> u8" where
  "VMKLNX_SCSI_DEVICE_STATUS status = ucast (status AND 0xff)"

definition driver_byte :: "u32 \<Rightarrow> u32" where
  "driver_byte res = drop_bit 24 res AND 0xff"

text \<open>The status codes of the vmkernel, \<^verbatim>\<open>vmkapi_scsi_ext.h\<close>, with the values of \<open>DID_OK\<close>, \<open>DID_ERROR\<close>,
  \<open>DID_TIME_OUT\<close>, \<open>SAM_STAT_GOOD\<close> and \<open>SAM_STAT_BUSY\<close>, on which the macros above rely.\<close>

abbreviation (input) VMK_SCSI_HOST_OK :: u8 where "VMK_SCSI_HOST_OK \<equiv> 0"
abbreviation (input) VMK_SCSI_HOST_ERROR :: u8 where "VMK_SCSI_HOST_ERROR \<equiv> 7"
abbreviation (input) VMK_SCSI_HOST_TIMEOUT :: u8 where "VMK_SCSI_HOST_TIMEOUT \<equiv> 3"
abbreviation (input) VMK_SCSI_DEVICE_GOOD :: u8 where "VMK_SCSI_DEVICE_GOOD \<equiv> 0"
abbreviation (input) VMK_SCSI_DEVICE_BUSY :: u8 where "VMK_SCSI_DEVICE_BUSY \<equiv> 8"

definition bh_status :: "u32 \<Rightarrow> u8 \<times> u8" where
  "bh_status res =
     (let d = driver_byte (res AND 0x0fffffff) in
      if d = 1 \<or> d = 2 then (VMK_SCSI_HOST_OK, VMK_SCSI_DEVICE_BUSY)
      else if d = 3 \<or> d = 4 \<or> d = 7 \<or> d = 5 then (VMK_SCSI_HOST_ERROR, VMK_SCSI_DEVICE_GOOD)
      else if d = 6 then (VMK_SCSI_HOST_TIMEOUT, VMK_SCSI_DEVICE_GOOD)
      else (VMKLNX_SCSI_HOST_STATUS res, VMKLNX_SCSI_DEVICE_STATUS res))"

definition bh_report :: "scsi_cmnd \<Rightarrow> scsi_report" where
  "bh_report c =
     (let (h, d) = bh_status (result c); x = cmd_transferred c in
      if x > request_bufflen c
      then if h \<noteq> VMK_SCSI_HOST_OK \<or> d \<noteq> VMK_SCSI_DEVICE_GOOD then (h, d, 0)
           else (VMK_SCSI_HOST_ERROR, VMK_SCSI_DEVICE_GOOD, 0)
      else (h, d, x))"

text \<open>The start of the bottom half, and \<open>replenish\<close>: what the interrupt handlers completed goes in front
  of what is left.\<close>

definition bh_replenish :: "scsi_sys \<Rightarrow> scsi_sys" where
  "bh_replenish s = s\<lparr>isrDoneCmds := [], bhDoneCmds := isrDoneCmds s @ bhDoneCmds s\<rparr>"

definition bh_start :: "u64 \<Rightarrow> scsi_sys \<Rightarrow> scsi_sys" where
  "bh_start deadline s = bh_replenish (s\<lparr>bh_scheduled := False, bh := Bh_loop deadline 0\<rparr>)"

text \<open>One round of the loop: an internal command is completed by its own routine, every other one is
  reported. \<open>now'\<close> is the clock after it.\<close>

definition bh_complete :: "u64 \<Rightarrow> u64 \<Rightarrow> scsi_sys \<Rightarrow> scsi_sys" where
  "bh_complete deadline now' s =
     (case bhDoneCmds s of
        [] \<Rightarrow> s
      | n # rest \<Rightarrow>
          (let s1 = s\<lparr>bhDoneCmds := rest, bh := Bh_loop deadline now'\<rparr> in
           if has_flag s n INTERNAL_COMMAND then s1
           else s1\<lparr>host_busy := host_busy s1 - 1, device_busy := device_busy s1 - 1,
                  completed := completed s1 @ [(n, bh_report (cmds s1 n))]\<rparr>))"

text \<open>Behind the loop, with interrupts disabled.\<close>

definition bh_end :: "u64 \<Rightarrow> u64 \<Rightarrow> scsi_sys \<Rightarrow> scsi_sys" where
  "bh_end deadline now s =
     (if now > deadline
      then if bhDoneCmds s \<noteq> [] \<or> isrDoneCmds s \<noteq> []
           then s\<lparr>bh_scheduled := True, bh := Bh_off\<rparr>
           else s\<lparr>runningBH := False, bh := Bh_off\<rparr>
      else if isrDoneCmds s \<noteq> [] then bh_replenish s
      else s\<lparr>runningBH := False, bh := Bh_off\<rparr>)"

section \<open>Queueing\<close>

datatype vmk_status = VMK_OK | VMK_NO_MEMORY | VMK_WOULD_BLOCK | VMK_FAILURE

text \<open>The command of the vmkernel: the length of its CDB, the lengths of its scatter-gather elements and the
  data it requires.\<close>

record vmk_cmd =
  cdbLen :: nat
  sg_lengths :: "u32 list"
  requiredDataLen :: u32

definition SCSILinuxComputeSGArray :: "vmk_cmd \<Rightarrow> u32" where
  "SCSILinuxComputeSGArray v = sum_list (sg_lengths v)"

definition get_command :: "nat \<Rightarrow> vmk_cmd \<Rightarrow> scsi_cmnd" where
  "get_command serial v = \<lparr>vmkflags = {}, serial_number = serial, result = 0, resid = 0,
     request_bufflen = SCSILinuxComputeSGArray v, underflow = requiredDataLen v\<rparr>"

definition go_busy :: "nat \<Rightarrow> scsi_sys \<Rightarrow> scsi_sys" where
  "go_busy n s = cmd_upd n (set_flag NEED_CMDDONE) (s\<lparr>host_busy := host_busy s + 1, device_busy := device_busy s + 1\<rparr>)"

definition fail_command :: "nat \<Rightarrow> u32 \<Rightarrow> scsi_sys \<Rightarrow> (vmk_status \<times> scsi_sys) option" where
  "fail_command n res s = map_option (Pair VMK_OK) (SCSILinuxCmdDone n (cmd_upd n (\<lambda>c. c\<lparr>result := res\<rparr>) s))"

definition queue_blocked :: "scsi_sys \<Rightarrow> bool" where
  "queue_blocked s \<longleftrightarrow> host_self_blocked s \<or> sdev_state s = SDEV_BLOCK \<or> sdev_state s = SDEV_QUIESCE \<or>
     shost_state s = SHOST_RECOVERY \<or> device_busy s \<ge> queue_depth s \<or> host_busy s \<ge> can_queue s"

text \<open>\<open>mem_scmd\<close> and \<open>mem_sg\<close>: there is memory for the command and its scatter-gather table. \<open>status\<close> is
  what the driver's \<open>queuecommand\<close> returns.\<close>

definition SCSILinuxQueueCommand ::
  "bool \<Rightarrow> bool \<Rightarrow> int \<Rightarrow> nat \<Rightarrow> nat \<Rightarrow> vmk_cmd \<Rightarrow> scsi_sys \<Rightarrow> (vmk_status \<times> scsi_sys) option" where
  "SCSILinuxQueueCommand mem_scmd mem_sg status serial n v s =
     (if \<not> mem_scmd then Some (VMK_NO_MEMORY, s)
      else if \<not> mem_sg then Some (VMK_NO_MEMORY, s)
      else
        let s1 = s\<lparr>cmds := (cmds s)(n := get_command serial v)\<rparr> in
        if cdbLen v > max_cmd_len s then fail_command n (push_bit 16 DID_ABORT) (go_busy n s1)
        else if shost_state s = SHOST_CANCEL then fail_command n (push_bit 16 DID_NO_CONNECT) (go_busy n s1)
        else if queue_blocked s then Some (VMK_WOULD_BLOCK, s)
        else
          let s2 = go_busy n s1 in
          if sdev_state s = SDEV_DEL \<or> sdev_state s = SDEV_OFFLINE
          then fail_command n (push_bit 16 DID_NO_CONNECT) s2
          else
            let s3 = (if fc_io_timeout s then cmd_upd n (set_flag IO_TIMEOUT) (s2\<lparr>io_timers := insert n (io_timers s2)\<rparr>) else s2) in
            if status = 0 then Some (VMK_OK, s3\<lparr>drv := insert n (drv s3)\<rparr>)
            else
              let s4 = (if has_flag s3 n IO_TIMEOUT then s3\<lparr>io_timers := io_timers s3 - {n}\<rparr> else s3) in
              if has_flag s4 n NEED_CMDDONE then fail_command n SAM_STAT_BUSY s4
              else Some (VMK_OK, cmd_upd n (\<lambda>c. c\<lparr>result := SAM_STAT_BUSY\<rparr>) s4))"

section \<open>Aborts and timeouts\<close>

text \<open>The first loop of \<open>SCSILinuxAbortCommands\<close>, for one command the vmkernel wants aborted; the second
  asks the driver, and its answer is only reported; the third lets a deferred completion go.\<close>

definition abort_mark :: "nat \<Rightarrow> scsi_sys \<Rightarrow> scsi_sys" where
  "abort_mark n s =
     (if has_flag s n NEED_CMDDONE \<and> \<not> has_flag s n CMDDONE_ATTEMPTED \<and> \<not> has_flag s n DELAY_CMDDONE
      then (cmd_upd n (set_flag DELAY_CMDDONE) s)\<lparr>aborting := insert n (aborting s)\<rparr> else s)"

definition finish_delay :: "nat \<Rightarrow> scsi_sys \<Rightarrow> scsi_sys option" where
  "finish_delay n s =
     (let s1 = cmd_upd n (clear_flag DELAY_CMDDONE) s in
      if has_flag s1 n CMDDONE_ATTEMPTED then SCSILinuxCmdDone n s1 else Some s1)"

definition abort_finish :: "nat \<Rightarrow> scsi_sys \<Rightarrow> scsi_sys option" where
  "abort_finish n s = finish_delay n (s\<lparr>aborting := aborting s - {n}\<rparr>)"

text \<open>\<open>has_handler\<close>: the driver has an abort handler; \<open>answer\<close>: the handler returns \<open>SUCCESS\<close>. What the handler does to
  the command, completing it, is a step of the driver.\<close>

definition SCSILinuxTryAbortCommand :: "bool \<Rightarrow> bool \<Rightarrow> nat \<Rightarrow> scsi_sys \<Rightarrow> bool" where
  "SCSILinuxTryAbortCommand has_handler answer n s =
     (if \<not> has_handler then False else if serial_number (cmds s n) = 0 then True else answer)"

text \<open>The reason of the abort is always \<open>DID_TIME_OUT\<close>.\<close>

definition SCSILinuxAbortCommand :: "bool \<Rightarrow> bool \<Rightarrow> nat \<Rightarrow> scsi_sys \<Rightarrow> vmk_status \<times> scsi_sys" where
  "SCSILinuxAbortCommand has_handler answer n s =
     (if SCSILinuxTryAbortCommand has_handler answer n s
      then if has_flag s n INTERNAL_COMMAND
           then (VMK_OK, (cmd_upd n (\<lambda>c. c\<lparr>result := push_bit 16 DID_TIME_OUT, serial_number := 0\<rparr>) s)
                           \<lparr>int_sem := (int_sem s)(n := int_sem s n + 1)\<rparr>)
           else if \<not> has_flag s n CMDDONE_ATTEMPTED then (VMK_FAILURE, s) else (VMK_OK, s)
      else if has_flag s n CMDDONE_ATTEMPTED then (VMK_OK, s) else (VMK_FAILURE, s))"

text \<open>The timer of a command fires; every timeout uses the one work item of the module, which it
  initialises anew.\<close>

definition SCSILinuxCmdTimedOut :: "nat \<Rightarrow> scsi_sys \<Rightarrow> scsi_sys" where
  "SCSILinuxCmdTimedOut n s =
     (let s1 = (cmd_upd n (clear_flag IO_TIMEOUT) s)\<lparr>io_timers := io_timers s - {n}\<rparr> in
      if has_flag s1 n NEED_CMDDONE
      then if has_flag s1 n DELAY_CMDDONE then s1
           else
             let s2 = cmd_upd n (set_flag DELAY_CMDDONE) s1;
                 s3 = (if has_flag s2 n INTERNAL_COMMAND
                       then cmd_upd n (\<lambda>c. (clear_flag NEED_CMDDONE c)\<lparr>serial_number := 0\<rparr>) s2 else s2)
             in s3\<lparr>work_data := Some n, work_queued := work_queued s3 + 1\<rparr>
      else s1)"

text \<open>The worker: the verdict on the abort is only logged.\<close>

definition SCSIProcessCmdTimedOut :: "bool \<Rightarrow> bool \<Rightarrow> scsi_sys \<Rightarrow> scsi_sys option" where
  "SCSIProcessCmdTimedOut has_handler answer s =
     (case work_data s of
        None \<Rightarrow> None
      | Some n \<Rightarrow>
          finish_delay n (snd (SCSILinuxAbortCommand has_handler answer n (s\<lparr>work_queued := work_queued s - 1\<rparr>))))"

section \<open>The transition system\<close>

text \<open>\<open>solo\<close>: a command times out only while the work item is not in the queue. \<open>clock\<close>: the clock never reads
  the deadline of the bottom half exactly.\<close>

inductive scsi_step :: "bool \<Rightarrow> bool \<Rightarrow> scsi_sys \<Rightarrow> scsi_sys \<Rightarrow> bool" for solo clock where
  queue: "\<lbrakk>NEED_CMDDONE \<notin> vmkflags (cmds s n); n \<notin> set (isrDoneCmds s @ bhDoneCmds s); n \<notin> fst ` set (completed s);
           serial \<noteq> 0; SCSILinuxQueueCommand ms mg st serial n v s = Some (r, s')\<rbrakk> \<Longrightarrow> scsi_step solo clock s s'"
| drv_done: "\<lbrakk>n \<in> drv s; SCSILinuxCmdDone n (cmd_upd n (\<lambda>c. c\<lparr>result := res, resid := rsd\<rparr>) (s\<lparr>drv := drv s - {n}\<rparr>)) = Some s'\<rbrakk> \<Longrightarrow>
    scsi_step solo clock s s'"
| mark: "scsi_step solo clock s (abort_mark n s)"
| finish: "\<lbrakk>n \<in> aborting s; abort_finish n s = Some s'\<rbrakk> \<Longrightarrow> scsi_step solo clock s s'"
| timeout: "\<lbrakk>n \<in> io_timers s; solo \<longrightarrow> work_queued s = 0\<rbrakk> \<Longrightarrow> scsi_step solo clock s (SCSILinuxCmdTimedOut n s)"
| ask: "n \<in> aborting s \<Longrightarrow> scsi_step solo clock s (snd (SCSILinuxAbortCommand hh ans n s))"
| work: "\<lbrakk>work_queued s > 0; SCSIProcessCmdTimedOut hh ans s = Some s'\<rbrakk> \<Longrightarrow> scsi_step solo clock s s'"
| start: "\<lbrakk>bh_scheduled s; bh s = Bh_off; deadline > 0\<rbrakk> \<Longrightarrow> scsi_step solo clock s (bh_start deadline s)"
| complete: "\<lbrakk>bh s = Bh_loop deadline now; bhDoneCmds s \<noteq> []; now < deadline; clock \<longrightarrow> now' \<noteq> deadline\<rbrakk> \<Longrightarrow>
    scsi_step solo clock s (bh_complete deadline now' s)"
| stop: "\<lbrakk>bh s = Bh_loop deadline now; bhDoneCmds s = [] \<or> \<not> now < deadline\<rbrakk> \<Longrightarrow> scsi_step solo clock s (bh_end deadline now s)"

text \<open>A host and a device without commands.\<close>

definition scsi_idle :: "scsi_sys \<Rightarrow> bool" where
  "scsi_idle s \<longleftrightarrow> (\<forall>n. vmkflags (cmds s n) = {}) \<and> host_busy s = 0 \<and> device_busy s = 0 \<and> isrDoneCmds s = [] \<and>
     bhDoneCmds s = [] \<and> \<not> runningBH s \<and> \<not> bh_scheduled s \<and> bh s = Bh_off \<and> drv s = {} \<and> aborting s = {} \<and>
     io_timers s = {} \<and> work_queued s = 0 \<and> completed s = []"

section \<open>Invariant\<close>

text \<open>Where an outstanding command is: with the driver, deferred (its completion came while an abort or a
  timeout held it back), or in a completion list.\<close>

definition done_list :: "scsi_sys \<Rightarrow> nat list" where
  "done_list s = isrDoneCmds s @ bhDoneCmds s"

definition outstanding :: "scsi_sys \<Rightarrow> nat set" where
  "outstanding s = {n. has_flag s n NEED_CMDDONE} \<union> set (done_list s)"

definition timed_out :: "scsi_sys \<Rightarrow> nat set" where
  "timed_out s = (if work_queued s > 0 then set_option (work_data s) else {})"

definition cmd_inv :: "bool \<Rightarrow> scsi_sys \<Rightarrow> nat \<Rightarrow> bool" where
  "cmd_inv solo s n \<longleftrightarrow>
     (n \<in> drv s \<longrightarrow> has_flag s n NEED_CMDDONE \<and> \<not> has_flag s n CMDDONE_ATTEMPTED) \<and>
     (has_flag s n NEED_CMDDONE \<and> n \<notin> drv s \<longrightarrow> has_flag s n CMDDONE_ATTEMPTED \<and> has_flag s n DELAY_CMDDONE) \<and>
     (solo \<longrightarrow> (has_flag s n DELAY_CMDDONE \<longleftrightarrow> n \<in> aborting s \<or> n \<in> timed_out s) \<and>
        \<not> (n \<in> aborting s \<and> n \<in> timed_out s) \<and> (has_flag s n DELAY_CMDDONE \<longrightarrow> has_flag s n NEED_CMDDONE)) \<and>
     (n \<in> set (done_list s) \<longrightarrow> \<not> has_flag s n NEED_CMDDONE) \<and>
     (n \<in> fst ` set (completed s) \<longrightarrow> n \<notin> outstanding s) \<and>
     \<not> has_flag s n TMF_REQUEST \<and> \<not> has_flag s n INTERNAL_COMMAND"

definition scsi_inv :: "bool \<Rightarrow> scsi_sys \<Rightarrow> bool" where
  "scsi_inv solo s \<longleftrightarrow> (\<forall>n. cmd_inv solo s n) \<and> distinct (done_list s) \<and> distinct (map fst (completed s)) \<and>
     finite (outstanding s) \<and> (solo \<longrightarrow> work_queued s \<le> 1 \<and> (work_queued s = 0 \<or> timed_out s \<noteq> {})) \<and>
     host_busy s = int (card (outstanding s)) \<and> device_busy s = host_busy s"

lemma cmd_upd_sel [simp]:
  "isrDoneCmds (cmd_upd n f s) = isrDoneCmds s" "bhDoneCmds (cmd_upd n f s) = bhDoneCmds s" "drv (cmd_upd n f s) = drv s"
  "aborting (cmd_upd n f s) = aborting s" "work_data (cmd_upd n f s) = work_data s" "work_queued (cmd_upd n f s) = work_queued s"
  "completed (cmd_upd n f s) = completed s" "host_busy (cmd_upd n f s) = host_busy s" "device_busy (cmd_upd n f s) = device_busy s"
  "io_timers (cmd_upd n f s) = io_timers s" "runningBH (cmd_upd n f s) = runningBH s" "bh_scheduled (cmd_upd n f s) = bh_scheduled s"
  "bh (cmd_upd n f s) = bh s" "cmds (cmd_upd n f s) m = (if m = n then f (cmds s n) else cmds s m)"
  by (simp_all add: cmd_upd_def)

lemma vmkflags_simps [simp]:
  "vmkflags (set_flag f c) = insert f (vmkflags c)" "vmkflags (clear_flag f c) = vmkflags c - {f}"
  "vmkflags (check_underflow c) = vmkflags c"
  by (simp_all add: set_flag_def clear_flag_def check_underflow_def)

lemma schedule_sel [simp]:
  "isrDoneCmds (SCSILinuxScheduleCompletion n s) = isrDoneCmds s @ [n]" "bhDoneCmds (SCSILinuxScheduleCompletion n s) = bhDoneCmds s"
  "drv (SCSILinuxScheduleCompletion n s) = drv s" "aborting (SCSILinuxScheduleCompletion n s) = aborting s"
  "work_data (SCSILinuxScheduleCompletion n s) = work_data s" "work_queued (SCSILinuxScheduleCompletion n s) = work_queued s"
  "completed (SCSILinuxScheduleCompletion n s) = completed s" "host_busy (SCSILinuxScheduleCompletion n s) = host_busy s"
  "device_busy (SCSILinuxScheduleCompletion n s) = device_busy s" "cmds (SCSILinuxScheduleCompletion n s) = cmds s"
  by (simp_all add: SCSILinuxScheduleCompletion_def SCSILinuxSignalBH_def)

text \<open>The parts of the state the invariant looks at.\<close>

definition view :: "scsi_sys \<Rightarrow> _" where
  "view s = ((\<lambda>n. vmkflags (cmds s n) - {IO_TIMEOUT}), drv s, aborting s, timed_out s, done_list s, completed s, work_queued s, host_busy s, device_busy s)"

lemma view_flag: "view s' = view s \<Longrightarrow> f \<noteq> IO_TIMEOUT \<Longrightarrow> has_flag s' n f = has_flag s n f"
  unfolding view_def has_flag_def by (auto simp: fun_eq_iff set_eq_iff)

lemma view_inv:
  assumes "view s' = view s"
  shows "scsi_inv solo s' = scsi_inv solo s"
proof -
  have f: "has_flag s' n f = has_flag s n f" if "f \<noteq> IO_TIMEOUT" for n f by (rule view_flag [OF assms that])
  have "outstanding s' = outstanding s" using assms f by (auto simp: outstanding_def view_def)
  then show ?thesis using assms f by (simp add: scsi_inv_def cmd_inv_def view_def)
qed

lemma abort_flags [simp]: "vmkflags (cmds (snd (SCSILinuxAbortCommand hh ans n s)) m) = vmkflags (cmds s m)"
  by (simp add: SCSILinuxAbortCommand_def)

lemma abort_sel [simp]:
  "drv (snd (SCSILinuxAbortCommand hh ans n s)) = drv s" "aborting (snd (SCSILinuxAbortCommand hh ans n s)) = aborting s"
  "isrDoneCmds (snd (SCSILinuxAbortCommand hh ans n s)) = isrDoneCmds s" "bhDoneCmds (snd (SCSILinuxAbortCommand hh ans n s)) = bhDoneCmds s"
  "work_data (snd (SCSILinuxAbortCommand hh ans n s)) = work_data s" "work_queued (snd (SCSILinuxAbortCommand hh ans n s)) = work_queued s"
  "completed (snd (SCSILinuxAbortCommand hh ans n s)) = completed s" "host_busy (snd (SCSILinuxAbortCommand hh ans n s)) = host_busy s"
  "device_busy (snd (SCSILinuxAbortCommand hh ans n s)) = device_busy s" "io_timers (snd (SCSILinuxAbortCommand hh ans n s)) = io_timers s"
  "runningBH (snd (SCSILinuxAbortCommand hh ans n s)) = runningBH s" "bh_scheduled (snd (SCSILinuxAbortCommand hh ans n s)) = bh_scheduled s"
  "bh (snd (SCSILinuxAbortCommand hh ans n s)) = bh s"
  by (simp_all add: SCSILinuxAbortCommand_def)

lemma abort_view: "view (snd (SCSILinuxAbortCommand hh ans n s)) = view s"
  by (simp add: view_def timed_out_def done_list_def)

text \<open>A command whose completion routine may run: it needs it and nobody else will call it.\<close>

definition cmd_ready :: "bool \<Rightarrow> scsi_sys \<Rightarrow> nat \<Rightarrow> bool" where
  "cmd_ready solo s n \<longleftrightarrow> has_flag s n NEED_CMDDONE \<and> n \<notin> drv s \<and> n \<notin> set (done_list s) \<and> n \<notin> fst ` set (completed s) \<and>
     (solo \<longrightarrow> (has_flag s n DELAY_CMDDONE \<longleftrightarrow> n \<in> aborting s \<or> n \<in> timed_out s) \<and> \<not> (n \<in> aborting s \<and> n \<in> timed_out s)) \<and>
     \<not> has_flag s n TMF_REQUEST \<and> \<not> has_flag s n INTERNAL_COMMAND"

definition scsi_inv_but :: "bool \<Rightarrow> scsi_sys \<Rightarrow> nat \<Rightarrow> bool" where
  "scsi_inv_but solo s n \<longleftrightarrow> (\<forall>m. m \<noteq> n \<longrightarrow> cmd_inv solo s m) \<and> distinct (done_list s) \<and> distinct (map fst (completed s)) \<and>
     finite (outstanding s) \<and> (solo \<longrightarrow> work_queued s \<le> 1 \<and> (work_queued s = 0 \<or> timed_out s \<noteq> {})) \<and>
     host_busy s = int (card (outstanding s)) \<and> device_busy s = host_busy s"

lemma CmdDone_inv:
  assumes "cmd_ready solo s n" "scsi_inv_but solo s n"
  shows "\<exists>s'. SCSILinuxCmdDone n s = Some s' \<and> scsi_inv solo s'"
proof (cases "has_flag s n DELAY_CMDDONE")
  case True
  let ?s = "cmd_upd n (set_flag CMDDONE_ATTEMPTED) (if has_flag s n IO_TIMEOUT then s\<lparr>io_timers := io_timers s - {n}\<rparr> else s)"
  have "SCSILinuxCmdDone n s = Some ?s" using True assms(1) by (simp add: SCSILinuxCmdDone_def Let_def has_flag_def cmd_ready_def)
  moreover have o: "outstanding ?s = outstanding s" "done_list ?s = done_list s" "timed_out ?s = timed_out s"
    by (auto simp: outstanding_def has_flag_def done_list_def timed_out_def)
  have "cmd_inv solo ?s m" for m
    using assms True unfolding cmd_inv_def o by (auto simp: has_flag_def cmd_ready_def scsi_inv_but_def cmd_inv_def outstanding_def)
  ultimately show ?thesis using assms(2) o by (auto simp: scsi_inv_def scsi_inv_but_def)
next
  case False
  let ?s = "SCSILinuxScheduleCompletion n (cmd_upd n (\<lambda>c. check_underflow ((clear_flag NEED_CMDDONE c)\<lparr>serial_number := 0\<rparr>))
      (if has_flag s n IO_TIMEOUT then s\<lparr>io_timers := io_timers s - {n}\<rparr> else s))"
  have "SCSILinuxCmdDone n s = Some ?s" using False assms(1) by (simp add: SCSILinuxCmdDone_def Let_def has_flag_def cmd_ready_def)
  moreover have o: "outstanding ?s = outstanding s" "set (done_list ?s) = insert n (set (done_list s))" "timed_out ?s = timed_out s"
    using assms(1) by (auto simp: outstanding_def has_flag_def done_list_def timed_out_def cmd_ready_def)
  have "cmd_inv solo ?s m" for m
    using assms False unfolding cmd_inv_def o by (auto simp: has_flag_def cmd_ready_def scsi_inv_but_def cmd_inv_def outstanding_def)
  ultimately show ?thesis using assms o by (auto simp: scsi_inv_def scsi_inv_but_def done_list_def cmd_ready_def)
qed

section \<open>Every step keeps the invariant\<close>

definition fresh :: "scsi_sys \<Rightarrow> nat \<Rightarrow> bool" where
  "fresh s n \<longleftrightarrow> \<not> has_flag s n NEED_CMDDONE \<and> n \<notin> set (done_list s) \<and> n \<notin> fst ` set (completed s)"

text \<open>A fresh command has been counted and marked.\<close>

lemma issue_ready:
  assumes i: "scsi_inv solo s" and f: "fresh s n"
    and c: "\<And>m. m \<noteq> n \<Longrightarrow> cmds x m = cmds s m" "vmkflags (cmds x n) - {IO_TIMEOUT} = {NEED_CMDDONE}"
    and e: "drv x = drv s" "aborting x = aborting s" "work_data x = work_data s" "work_queued x = work_queued s"
      "isrDoneCmds x = isrDoneCmds s" "bhDoneCmds x = bhDoneCmds s" "completed x = completed s"
      "host_busy x = host_busy s + 1" "device_busy x = device_busy s + 1"
  shows "cmd_ready solo x n" "scsi_inv_but solo x n" "\<not> has_flag x n CMDDONE_ATTEMPTED" "\<not> has_flag x n DELAY_CMDDONE"
proof -
  have n: "cmd_inv solo s n" using i by (simp add: scsi_inv_def)
  have fl: "has_flag x n g \<longleftrightarrow> g = NEED_CMDDONE" if "g \<noteq> IO_TIMEOUT" for g using c(2) that by (auto simp: has_flag_def)
  have fm: "has_flag x m g = has_flag s m g" if "m \<noteq> n" for m g using c(1) [OF that] by (simp add: has_flag_def)
  have t: "timed_out x = timed_out s" "done_list x = done_list s" using e by (simp_all add: timed_out_def done_list_def)
  have o: "outstanding x = insert n (outstanding s)"
  proof (rule set_eqI)
    fix m show "m \<in> outstanding x \<longleftrightarrow> m \<in> insert n (outstanding s)"
      using fl [of NEED_CMDDONE] fm [of m NEED_CMDDONE] t by (cases "m = n") (simp_all add: outstanding_def)
  qed
  have out: "n \<notin> outstanding s" using f by (simp add: fresh_def outstanding_def)
  show "cmd_ready solo x n" using n f by (auto simp: cmd_ready_def fl t e cmd_inv_def fresh_def)
  have "cmd_inv solo x m" if "m \<noteq> n" for m
  proof -
    have "cmd_inv solo s m" using i by (simp add: scsi_inv_def)
    then show ?thesis using that unfolding cmd_inv_def fm [OF that] t e o by auto
  qed
  then show "scsi_inv_but solo x n" using i out by (simp add: scsi_inv_but_def scsi_inv_def t e o)
  show "\<not> has_flag x n CMDDONE_ATTEMPTED" "\<not> has_flag x n DELAY_CMDDONE" by (simp_all add: fl)
qed

lemma drv_take_inv:
  assumes "cmd_ready solo x n" "scsi_inv_but solo x n" "\<not> has_flag x n CMDDONE_ATTEMPTED" "\<not> has_flag x n DELAY_CMDDONE"
  shows "scsi_inv solo (x\<lparr>drv := insert n (drv x)\<rparr>)"
proof -
  let ?s = "x\<lparr>drv := insert n (drv x)\<rparr>"
  have o: "outstanding ?s = outstanding x" "done_list ?s = done_list x" "timed_out ?s = timed_out x"
    by (auto simp: outstanding_def has_flag_def done_list_def timed_out_def)
  have "cmd_inv solo ?s m" for m
    using assms unfolding cmd_inv_def o by (auto simp: has_flag_def cmd_ready_def scsi_inv_but_def cmd_inv_def outstanding_def)
  then show ?thesis using assms(2) o by (auto simp: scsi_inv_def scsi_inv_but_def)
qed

lemma fail_command_inv:
  assumes "cmd_ready solo x n" "scsi_inv_but solo x n"
  shows "\<exists>s'. fail_command n res x = Some (VMK_OK, s') \<and> scsi_inv solo s'"
proof -
  let ?x = "cmd_upd n (\<lambda>c. c\<lparr>result := res\<rparr>) x"
  have f: "has_flag ?x = has_flag x" by (simp add: has_flag_def fun_eq_iff)
  have o: "outstanding ?x = outstanding x" "done_list ?x = done_list x" "timed_out ?x = timed_out x"
    by (simp_all add: outstanding_def f done_list_def timed_out_def)
  have "cmd_ready solo ?x n" "scsi_inv_but solo ?x n" using assms by (simp_all add: cmd_ready_def scsi_inv_but_def cmd_inv_def f o)
  from CmdDone_inv [OF this] show ?thesis by (auto simp: fail_command_def)
qed

text \<open>Queueing always returns; what it returns tells whether the command is now outstanding.\<close>

lemma queue_inv:
  assumes i: "scsi_inv solo s" and f: "fresh s n"
  shows "\<exists>r s'. SCSILinuxQueueCommand ms mg st serial n v s = Some (r, s') \<and> scsi_inv solo s'"
proof -
  define s1 where "s1 = s\<lparr>cmds := (cmds s)(n := get_command serial v)\<rparr>"
  define s2 where "s2 = go_busy n s1"
  define s3 where "s3 = (if fc_io_timeout s then cmd_upd n (set_flag IO_TIMEOUT) (s2\<lparr>io_timers := insert n (io_timers s2)\<rparr>) else s2)"
  define s4 where "s4 = (if has_flag s3 n IO_TIMEOUT then s3\<lparr>io_timers := io_timers s3 - {n}\<rparr> else s3)"
  note d = s1_def s2_def s3_def s4_def go_busy_def get_command_def
  have 2: "cmd_ready solo s2 n" "scsi_inv_but solo s2 n" by (rule issue_ready [OF i f]; simp add: d)+
  have 3: "cmd_ready solo s3 n" "scsi_inv_but solo s3 n" "\<not> has_flag s3 n CMDDONE_ATTEMPTED" "\<not> has_flag s3 n DELAY_CMDDONE"
    by (rule issue_ready [OF i f]; auto simp: d)+
  have 4: "cmd_ready solo s4 n" "scsi_inv_but solo s4 n" by (rule issue_ready [OF i f]; auto simp: d)+
  have "has_flag s4 n NEED_CMDDONE" using 4(1) by (simp add: cmd_ready_def)
  then have q: "SCSILinuxQueueCommand ms mg st serial n v s =
     (if \<not> ms then Some (VMK_NO_MEMORY, s) else if \<not> mg then Some (VMK_NO_MEMORY, s)
      else if cdbLen v > max_cmd_len s then fail_command n (push_bit 16 DID_ABORT) s2
      else if shost_state s = SHOST_CANCEL then fail_command n (push_bit 16 DID_NO_CONNECT) s2
      else if queue_blocked s then Some (VMK_WOULD_BLOCK, s)
      else if sdev_state s = SDEV_DEL \<or> sdev_state s = SDEV_OFFLINE then fail_command n (push_bit 16 DID_NO_CONNECT) s2
      else if st = 0 then Some (VMK_OK, s3\<lparr>drv := insert n (drv s3)\<rparr>) else fail_command n SAM_STAT_BUSY s4)"
    unfolding SCSILinuxQueueCommand_def Let_def s1_def [symmetric] s2_def [symmetric] s3_def [symmetric] s4_def [symmetric]
    by (simp only: if_True)
  define P where "P x \<longleftrightarrow> (\<exists>r s'. x = Some (r, s') \<and> scsi_inv solo s')" for x :: "(vmk_status \<times> scsi_sys) option"
  have "P (fail_command n res s2)" "P (fail_command n res s4)" for res
    using fail_command_inv [OF 2, of res] fail_command_inv [OF 4, of res] by (auto simp: P_def)
  moreover have "P (Some (VMK_OK, s3\<lparr>drv := insert n (drv s3)\<rparr>))" using drv_take_inv [OF 3] by (simp add: P_def)
  moreover have "P (Some (r, s))" for r using i by (simp add: P_def)
  ultimately have "P (SCSILinuxQueueCommand ms mg st serial n v s)" unfolding q by (simp only: if_distrib [of P] if_cancel)
  then show ?thesis by (simp only: P_def)
qed

lemma drv_done_inv:
  assumes i: "scsi_inv solo s" and n: "n \<in> drv s"
  shows "\<exists>s'. SCSILinuxCmdDone n (cmd_upd n (\<lambda>c. c\<lparr>result := res, resid := rsd\<rparr>) (s\<lparr>drv := drv s - {n}\<rparr>)) = Some s' \<and> scsi_inv solo s'"
proof -
  let ?x = "cmd_upd n (\<lambda>c. c\<lparr>result := res, resid := rsd\<rparr>) (s\<lparr>drv := drv s - {n}\<rparr>)"
  have c: "cmd_inv solo s m" for m using i by (simp add: scsi_inv_def)
  have f: "has_flag ?x = has_flag s" by (simp add: has_flag_def fun_eq_iff)
  have o: "outstanding ?x = outstanding s" "done_list ?x = done_list s" "timed_out ?x = timed_out s"
    by (simp_all add: outstanding_def f done_list_def timed_out_def)
  have "cmd_ready solo ?x n" using c [of n] n unfolding cmd_ready_def f o by (auto simp: cmd_inv_def outstanding_def)
  moreover have "cmd_inv solo ?x m" if "m \<noteq> n" for m using c [of m] that unfolding cmd_inv_def f o by auto
  then have "scsi_inv_but solo ?x n" using i by (simp add: scsi_inv_but_def scsi_inv_def o)
  ultimately show ?thesis by (rule CmdDone_inv)
qed

lemma abort_mark_inv:
  assumes i: "scsi_inv solo s"
  shows "scsi_inv solo (abort_mark n s)"
proof (cases "has_flag s n NEED_CMDDONE \<and> \<not> has_flag s n CMDDONE_ATTEMPTED \<and> \<not> has_flag s n DELAY_CMDDONE")
  case True
  let ?x = "(cmd_upd n (set_flag DELAY_CMDDONE) s)\<lparr>aborting := insert n (aborting s)\<rparr>"
  have x: "abort_mark n s = ?x" using True by (simp add: abort_mark_def)
  have c: "cmd_inv solo s m" for m using i by (simp add: scsi_inv_def)
  have o: "outstanding ?x = outstanding s" "done_list ?x = done_list s" "timed_out ?x = timed_out s"
    by (auto simp: outstanding_def has_flag_def done_list_def timed_out_def)
  have "cmd_inv solo ?x m" for m using c [of m] True unfolding cmd_inv_def o by (auto simp: has_flag_def)
  then show ?thesis using i by (simp add: x scsi_inv_def o)
next
  case False
  then have "abort_mark n s = s" unfolding abort_mark_def by (simp only: if_False)
  then show ?thesis using i by simp
qed

text \<open>Whoever held the completion back lets go of the command.\<close>

lemma finish_delay_inv:
  assumes i: "scsi_inv_but solo s n" and c: "cmd_inv False s n"
    and n: "solo \<Longrightarrow> has_flag s n NEED_CMDDONE \<and> n \<notin> aborting s \<and> n \<notin> timed_out s"
  shows "(solo \<longrightarrow> finish_delay n s \<noteq> None) \<and> (\<forall>s'. finish_delay n s = Some s' \<longrightarrow> scsi_inv solo s')"
proof -
  let ?x = "cmd_upd n (clear_flag DELAY_CMDDONE) s"
  have o: "outstanding ?x = outstanding s" "done_list ?x = done_list s" "timed_out ?x = timed_out s"
    by (auto simp: outstanding_def has_flag_def done_list_def timed_out_def)
  have m: "cmd_inv solo ?x m" if "m \<noteq> n" for m
    using i that unfolding scsi_inv_but_def cmd_inv_def o by (auto simp: has_flag_def)
  then have b: "scsi_inv_but solo ?x n" using i by (simp add: scsi_inv_but_def o)
  consider (early) "\<not> has_flag s n CMDDONE_ATTEMPTED"
    | (go) "has_flag s n CMDDONE_ATTEMPTED" "has_flag s n NEED_CMDDONE"
    | (panic) "has_flag s n CMDDONE_ATTEMPTED" "\<not> has_flag s n NEED_CMDDONE" by blast
  then show ?thesis
  proof cases
    case early
    have "cmd_inv solo ?x n" using c n early unfolding cmd_inv_def o by (auto simp: has_flag_def outstanding_def)
    then have "scsi_inv solo ?x" using m b unfolding scsi_inv_but_def scsi_inv_def by metis
    then show ?thesis using early by (simp add: finish_delay_def has_flag_def)
  next
    case go
    then have "cmd_ready solo ?x n" using c n unfolding cmd_ready_def cmd_inv_def o by (auto simp: has_flag_def outstanding_def)
    from CmdDone_inv [OF this b] show ?thesis using go by (auto simp: finish_delay_def has_flag_def)
  next
    case panic
    then have "finish_delay n s = None" using c by (simp add: finish_delay_def has_flag_def SCSILinuxCmdDone_def cmd_inv_def Let_def)
    then show ?thesis using n panic by auto
  qed
qed

lemma abort_finish_inv:
  assumes i: "scsi_inv solo s" and n: "n \<in> aborting s"
  shows "(solo \<longrightarrow> abort_finish n s \<noteq> None) \<and> (\<forall>s'. abort_finish n s = Some s' \<longrightarrow> scsi_inv solo s')"
proof -
  let ?x = "s\<lparr>aborting := aborting s - {n}\<rparr>"
  have c: "cmd_inv solo s m" for m using i by (simp add: scsi_inv_def)
  have f: "has_flag ?x = has_flag s" by (simp add: has_flag_def fun_eq_iff)
  have o: "outstanding ?x = outstanding s" "done_list ?x = done_list s" "timed_out ?x = timed_out s"
    by (simp_all add: outstanding_def f done_list_def timed_out_def)
  have "cmd_inv solo ?x m" if "m \<noteq> n" for m using c [of m] that unfolding cmd_inv_def f o by auto
  then have "scsi_inv_but solo ?x n" using i by (simp add: scsi_inv_but_def scsi_inv_def o)
  moreover have "cmd_inv False ?x n" using c [of n] unfolding cmd_inv_def f o by auto
  moreover have "has_flag ?x n NEED_CMDDONE \<and> n \<notin> aborting ?x \<and> n \<notin> timed_out ?x" if "solo"
    using c [of n] n that unfolding cmd_inv_def f o by auto
  ultimately show ?thesis unfolding abort_finish_def by (rule finish_delay_inv)
qed

lemma work_inv:
  assumes i: "scsi_inv solo s" and w: "work_queued s > 0"
  shows "(solo \<longrightarrow> SCSIProcessCmdTimedOut hh ans s \<noteq> None) \<and> (\<forall>s'. SCSIProcessCmdTimedOut hh ans s = Some s' \<longrightarrow> scsi_inv solo s')"
proof (cases "work_data s")
  case None
  then show ?thesis using i w by (auto simp: scsi_inv_def timed_out_def SCSIProcessCmdTimedOut_def)
next
  case (Some n)
  let ?x = "snd (SCSILinuxAbortCommand hh ans n (s\<lparr>work_queued := work_queued s - 1\<rparr>))"
  have c: "cmd_inv solo s m" for m using i by (simp add: scsi_inv_def)
  have f: "has_flag ?x = has_flag s" by (simp add: has_flag_def fun_eq_iff)
  have t: "timed_out ?x = {}" "timed_out s = {n}" "work_queued ?x = 0" if "solo"
    using i w Some that by (simp_all add: scsi_inv_def timed_out_def)
  have o: "outstanding ?x = outstanding s" "done_list ?x = done_list s"
    unfolding outstanding_def f by (simp_all add: done_list_def)
  have e: "drv ?x = drv s" "aborting ?x = aborting s" "completed ?x = completed s" by simp_all
  have "cmd_inv solo ?x m" if "m \<noteq> n" for m
    using c [of m] that t unfolding cmd_inv_def f o e by (cases solo) auto
  then have "scsi_inv_but solo ?x n" using i t(3) unfolding scsi_inv_but_def scsi_inv_def o by simp
  moreover have "cmd_inv False ?x n" using c [of n] unfolding cmd_inv_def f o by auto
  moreover have "has_flag ?x n NEED_CMDDONE \<and> n \<notin> aborting ?x \<and> n \<notin> timed_out ?x" if "solo"
    using c [of n] t that unfolding cmd_inv_def f o by auto
  ultimately show ?thesis unfolding SCSIProcessCmdTimedOut_def Some option.case by (rule finish_delay_inv)
qed

lemma timeout_inv:
  assumes i: "scsi_inv solo s" and w: "solo \<longrightarrow> work_queued s = 0"
  shows "scsi_inv solo (SCSILinuxCmdTimedOut n s)"
proof -
  let ?s1 = "(cmd_upd n (clear_flag IO_TIMEOUT) s)\<lparr>io_timers := io_timers s - {n}\<rparr>"
  have "view ?s1 = view s" by (auto simp: view_def timed_out_def done_list_def fun_eq_iff)
  then have i1: "scsi_inv solo ?s1" using i view_inv by blast
  then have c: "cmd_inv solo ?s1 m" for m by (simp add: scsi_inv_def)
  show ?thesis
  proof (cases "has_flag ?s1 n NEED_CMDDONE \<and> \<not> has_flag ?s1 n DELAY_CMDDONE")
    case True
    let ?x = "(cmd_upd n (set_flag DELAY_CMDDONE) ?s1)\<lparr>work_data := Some n, work_queued := work_queued s + 1\<rparr>"
    have x: "SCSILinuxCmdTimedOut n s = ?x"
      using True c [of n] by (simp add: SCSILinuxCmdTimedOut_def Let_def has_flag_def cmd_inv_def)
    have t: "timed_out ?x = {n}" "solo \<Longrightarrow> timed_out ?s1 = {}" using w by (auto simp: timed_out_def)
    have o: "outstanding ?x = outstanding ?s1" "done_list ?x = done_list ?s1"
      by (auto simp: outstanding_def has_flag_def done_list_def)
    have "cmd_inv solo ?x m" for m using c [of m] True t(2) unfolding cmd_inv_def o t(1) by (cases solo) (auto simp: has_flag_def)
    then have "\<forall>m. cmd_inv solo ?x m" by blast
    then show ?thesis using i1 w unfolding x scsi_inv_def o t(1) by simp
  next
    case False
    then have "SCSILinuxCmdTimedOut n s = ?s1" by (auto simp: SCSILinuxCmdTimedOut_def Let_def)
    then show ?thesis using i1 by simp
  qed
qed

lemma bh_complete_inv:
  assumes i: "scsi_inv solo s" and b: "bhDoneCmds s = n # rest"
  shows "scsi_inv solo (bh_complete deadline now' s)"
proof -
  let ?x = "bh_complete deadline now' s"
  have c: "cmd_inv solo s m" for m using i by (simp add: scsi_inv_def)
  have d: "n \<in> set (done_list s)" "n \<notin> set (isrDoneCmds s)" "n \<notin> set rest" "distinct (done_list s)"
    using i b by (auto simp: scsi_inv_def done_list_def)
  have x: "?x = s\<lparr>bhDoneCmds := rest, bh := Bh_loop deadline now', host_busy := host_busy s - 1, device_busy := device_busy s - 1,
      completed := completed s @ [(n, bh_report (cmds s n))]\<rparr>"
    using c [of n] b by (simp add: bh_complete_def cmd_inv_def Let_def)
  have f: "has_flag ?x = has_flag s" by (simp add: x has_flag_def fun_eq_iff)
  have o: "outstanding ?x = outstanding s - {n}" "set (done_list ?x) = set (done_list s) - {n}" "timed_out ?x = timed_out s"
    using b d c [of n] unfolding outstanding_def f by (auto simp: x done_list_def timed_out_def cmd_inv_def)
  have n: "n \<in> outstanding s" "n \<notin> fst ` set (completed s)" using d(1) c [of n] by (auto simp: outstanding_def cmd_inv_def)
  have "cmd_inv solo ?x m" for m using c [of m] unfolding cmd_inv_def f o by (auto simp: x)
  then have "\<forall>m. cmd_inv solo ?x m" by blast
  moreover have "int (card (outstanding s - {n})) = int (card (outstanding s)) - 1"
    using i n(1) card_Suc_Diff1 [of "outstanding s" n] by (simp add: scsi_inv_def)
  moreover have "work_queued ?x = work_queued s" by (simp add: x)
  moreover have "distinct (done_list ?x)" "distinct (map fst (completed ?x))" "host_busy ?x = host_busy s - 1" "device_busy ?x = device_busy s - 1"
    using i n(2) d b by (auto simp: x done_list_def scsi_inv_def)
  ultimately show ?thesis using i unfolding scsi_inv_def o by simp
qed

lemma bh_start_view: "view (bh_start deadline s) = view s"
  by (simp add: view_def bh_start_def bh_replenish_def timed_out_def done_list_def)

lemma bh_end_view: "view (bh_end deadline now s) = view s"
  by (simp add: view_def bh_end_def bh_replenish_def timed_out_def done_list_def)

lemma scsi_step_inv:
  assumes "scsi_step solo clock s s'" "scsi_inv solo s"
  shows "scsi_inv solo s'"
  using assms
proof (induction rule: scsi_step.induct)
  case (queue s n serial ms mg st v r s')
  have "fresh s n" using queue(1-3) by (simp add: fresh_def has_flag_def done_list_def)
  from queue_inv [OF queue(6) this, of ms mg st serial v] queue(5) show ?case by auto
next
  case (drv_done n s res rsd s')
  from drv_done_inv [OF drv_done(3,1), of res rsd] drv_done(2) show ?case by auto
next
  case (finish n s s')
  from abort_finish_inv [OF finish(3,1)] finish(2) show ?case by auto
next
  case (ask n s hh ans)
  then show ?case using view_inv [OF abort_view] by simp
next
  case (work s hh ans s')
  from work_inv [OF work(3,1), of hh ans] work(2) show ?case by auto
next
  case (complete s deadline now now')
  then show ?case using bh_complete_inv by (cases "bhDoneCmds s") auto
qed (auto simp: abort_mark_inv timeout_inv view_inv [OF bh_start_view] view_inv [OF bh_end_view])

lemma scsi_idle_inv: "scsi_idle s \<Longrightarrow> scsi_inv solo s"
  by (simp add: scsi_idle_def scsi_inv_def cmd_inv_def has_flag_def done_list_def timed_out_def outstanding_def)

interpretation scsi_cmds: step_invariant "scsi_step solo clock" "scsi_inv solo" for solo clock
  by unfold_locales (rule scsi_step_inv)

lemma scsi_reach_inv: "(scsi_step solo clock)\<^sup>*\<^sup>* s0 s \<Longrightarrow> scsi_idle s0 \<Longrightarrow> scsi_inv solo s"
  using scsi_cmds.reach_inv scsi_idle_inv by blast

section \<open>The bottom half does not forget commands\<close>

definition bh_ok :: "scsi_sys \<Rightarrow> bool" where
  "bh_ok s \<longleftrightarrow> (done_list s \<noteq> [] \<longrightarrow> runningBH s) \<and> (runningBH s \<longleftrightarrow> bh_scheduled s \<or> bh s \<noteq> Bh_off) \<and>
     (case bh s of Bh_off \<Rightarrow> True | Bh_loop deadline now \<Rightarrow> \<not> bh_scheduled s \<and> now \<noteq> deadline)"

definition bh_view :: "scsi_sys \<Rightarrow> _" where
  "bh_view s = (done_list s, runningBH s, bh_scheduled s, bh s)"

lemma bh_view_ok: "bh_view s' = bh_view s \<Longrightarrow> bh_ok s' = bh_ok s"
  by (auto simp: bh_view_def bh_ok_def split: bh_pc.splits)

lemma CmdDone_bh: "SCSILinuxCmdDone n s = Some s' \<Longrightarrow> bh_ok s \<Longrightarrow> bh_ok s'"
  by (auto simp: SCSILinuxCmdDone_def Let_def SCSILinuxScheduleCompletion_def SCSILinuxSignalBH_def bh_ok_def done_list_def
      split: if_splits bh_pc.splits)

lemma fail_command_bh: "fail_command n res x = Some (r, s') \<Longrightarrow> bh_view x = bh_view s \<Longrightarrow> bh_ok s \<Longrightarrow> bh_ok s'"
  using CmdDone_bh [of n "cmd_upd n (\<lambda>c. c\<lparr>result := res\<rparr>) x" s'] bh_view_ok [of "cmd_upd n (\<lambda>c. c\<lparr>result := res\<rparr>) x" s]
  by (auto simp: fail_command_def bh_view_def done_list_def)

lemma queue_bh:
  assumes q: "SCSILinuxQueueCommand ms mg st serial n v s = Some (r, s')" and ok: "bh_ok s"
  shows "bh_ok s'"
proof -
  define s1 where "s1 = s\<lparr>cmds := (cmds s)(n := get_command serial v)\<rparr>"
  define s2 where "s2 = go_busy n s1"
  define s3 where "s3 = (if fc_io_timeout s then cmd_upd n (set_flag IO_TIMEOUT) (s2\<lparr>io_timers := insert n (io_timers s2)\<rparr>) else s2)"
  define s4 where "s4 = (if has_flag s3 n IO_TIMEOUT then s3\<lparr>io_timers := io_timers s3 - {n}\<rparr> else s3)"
  have v: "bh_view s2 = bh_view s" "bh_view s3 = bh_view s" "bh_view s4 = bh_view s"
    by (simp_all add: s1_def s2_def s3_def s4_def go_busy_def bh_view_def done_list_def)
  define P where "P x \<longleftrightarrow> (\<forall>r s'. x = Some (r, s') \<longrightarrow> bh_ok s')" for x :: "(vmk_status \<times> scsi_sys) option"
  have "P (fail_command n res s2)" "P (fail_command n res s4)" for res
    using fail_command_bh [OF _ v(1) ok] fail_command_bh [OF _ v(3) ok] by (auto simp: P_def)
  moreover have "P (Some (VMK_OK, s3\<lparr>drv := insert n (drv s3)\<rparr>))" "P (Some (r, s))" for r
    using v(2) ok bh_view_ok [of "s3\<lparr>drv := insert n (drv s3)\<rparr>" s] by (auto simp: P_def bh_view_def done_list_def)
  moreover have "P (Some (VMK_OK, cmd_upd n (\<lambda>c. c\<lparr>result := SAM_STAT_BUSY\<rparr>) s4))"
    using v(3) ok bh_view_ok [of "cmd_upd n (\<lambda>c. c\<lparr>result := SAM_STAT_BUSY\<rparr>) s4" s] by (auto simp: P_def bh_view_def done_list_def)
  ultimately have "P (SCSILinuxQueueCommand ms mg st serial n v s)"
    unfolding SCSILinuxQueueCommand_def Let_def s1_def [symmetric] s2_def [symmetric] s3_def [symmetric] s4_def [symmetric]
    by (simp only: if_distrib [of P] if_cancel)
  then show ?thesis using q by (simp add: P_def)
qed

lemma finish_delay_bh: "finish_delay n s = Some s' \<Longrightarrow> bh_ok s \<Longrightarrow> bh_ok s'"
  using CmdDone_bh [of n "cmd_upd n (clear_flag DELAY_CMDDONE) s" s'] bh_view_ok [of "cmd_upd n (clear_flag DELAY_CMDDONE) s" s]
  by (auto simp: finish_delay_def Let_def bh_view_def done_list_def split: if_splits)

lemma scsi_step_bh:
  assumes "scsi_step solo True s s'" "bh_ok s"
  shows "bh_ok s'"
  using assms
proof (induction rule: scsi_step.induct)
  case (queue s n serial ms mg st v r s')
  then show ?case using queue_bh by blast
next
  case (drv_done n s rsd res s')
  then show ?case using CmdDone_bh bh_view_ok [of "cmd_upd n (\<lambda>c. c\<lparr>result := res, resid := rsd\<rparr>) (s\<lparr>drv := drv s - {n}\<rparr>)" s]
    by (auto simp: bh_view_def done_list_def)
next
  case (mark s n)
  then show ?case using bh_view_ok [of "abort_mark n s" s] by (auto simp: bh_view_def done_list_def abort_mark_def)
next
  case (finish n s s')
  then show ?case using finish_delay_bh bh_view_ok [of "s\<lparr>aborting := aborting s - {n}\<rparr>" s]
    by (auto simp: abort_finish_def bh_view_def done_list_def)
next
  case (timeout n s)
  then show ?case using bh_view_ok [of "SCSILinuxCmdTimedOut n s" s] by (auto simp: bh_view_def done_list_def SCSILinuxCmdTimedOut_def Let_def)
next
  case (ask n s hh ans)
  then show ?case using bh_view_ok [of "snd (SCSILinuxAbortCommand hh ans n s)" s] by (simp add: bh_view_def done_list_def)
next
  case (work s hh ans s')
  then obtain n where "finish_delay n (snd (SCSILinuxAbortCommand hh ans n (s\<lparr>work_queued := work_queued s - 1\<rparr>))) = Some s'"
    by (auto simp: SCSIProcessCmdTimedOut_def split: option.splits)
  then show ?case using finish_delay_bh bh_view_ok [of "snd (SCSILinuxAbortCommand hh ans n (s\<lparr>work_queued := work_queued s - 1\<rparr>))" s] work(3)
    by (simp add: bh_view_def done_list_def)
next
  case (start s deadline)
  then show ?case by (auto simp: bh_ok_def bh_start_def bh_replenish_def done_list_def)
next
  case (complete s deadline now now')
  then show ?case by (auto simp: bh_ok_def bh_complete_def done_list_def Let_def split: list.splits)
next
  case (stop s deadline now)
  then show ?case by (auto simp: bh_ok_def bh_end_def bh_replenish_def done_list_def)
qed

interpretation scsi_bottom: step_invariant "scsi_step solo True" bh_ok for solo
  by unfold_locales (rule scsi_step_bh)

lemma scsi_reach_bh: "(scsi_step solo True)\<^sup>*\<^sup>* s0 s \<Longrightarrow> scsi_idle s0 \<Longrightarrow> bh_ok s"
  by (rule scsi_bottom.reach_inv) (auto simp: scsi_idle_def bh_ok_def done_list_def)

section \<open>Properties\<close>

definition scsi_demo :: scsi_sys where
  "scsi_demo = \<lparr>cmds = (\<lambda>_. \<lparr>vmkflags = {}, serial_number = 0, result = 0, resid = 0, request_bufflen = 0, underflow = 0\<rparr>),
     shost_state = SHOST_RUNNING, sdev_state = SDEV_RUNNING, host_self_blocked = False, max_cmd_len = 16, can_queue = 8,
     queue_depth = 8, fc_io_timeout = True, host_busy = 0, device_busy = 0, isrDoneCmds = [], bhDoneCmds = [], runningBH = False,
     bh_scheduled = False, bh = Bh_off, drv = {}, aborting = {}, io_timers = {}, work_data = None, work_queued = 0, int_sem = (\<lambda>_. 0), completed = []\<rparr>"

lemma scsi_demo_idle: "scsi_idle scsi_demo"
  by (simp add: scsi_idle_def scsi_demo_def)

text \<open>A computable run: each event names its step.\<close>

datatype scsi_event = Ev_queue nat vmk_cmd | Ev_done nat u32 int | Ev_mark nat | Ev_finish nat | Ev_timeout nat | Ev_work
  | Ev_start u64 | Ev_complete u64 | Ev_stop

fun scsi_fire :: "scsi_event \<Rightarrow> scsi_sys \<Rightarrow> scsi_sys option" where
  "scsi_fire (Ev_queue n v) s =
     (if NEED_CMDDONE \<in> vmkflags (cmds s n) \<or> n \<in> set (isrDoneCmds s @ bhDoneCmds s) \<or> n \<in> fst ` set (completed s) then None
      else map_option snd (SCSILinuxQueueCommand True True 0 1 n v s))"
| "scsi_fire (Ev_done n res rsd) s =
     (if n \<in> drv s then SCSILinuxCmdDone n (cmd_upd n (\<lambda>c. c\<lparr>result := res, resid := rsd\<rparr>) (s\<lparr>drv := drv s - {n}\<rparr>)) else None)"
| "scsi_fire (Ev_mark n) s = Some (abort_mark n s)"
| "scsi_fire (Ev_finish n) s = (if n \<in> aborting s then abort_finish n s else None)"
| "scsi_fire (Ev_timeout n) s = (if n \<in> io_timers s then Some (SCSILinuxCmdTimedOut n s) else None)"
| "scsi_fire Ev_work s = (if work_queued s > 0 then SCSIProcessCmdTimedOut True True s else None)"
| "scsi_fire (Ev_start d) s = (if bh_scheduled s \<and> bh s = Bh_off \<and> d > 0 then Some (bh_start d s) else None)"
| "scsi_fire (Ev_complete t) s =
     (case bh s of Bh_off \<Rightarrow> None
      | Bh_loop d now \<Rightarrow> if bhDoneCmds s \<noteq> [] \<and> now < d then Some (bh_complete d t s) else None)"
| "scsi_fire Ev_stop s =
     (case bh s of Bh_off \<Rightarrow> None
      | Bh_loop d now \<Rightarrow> if bhDoneCmds s = [] \<or> \<not> now < d then Some (bh_end d now s) else None)"

fun scsi_run :: "scsi_event list \<Rightarrow> scsi_sys \<Rightarrow> scsi_sys option" where
  "scsi_run [] s = Some s"
| "scsi_run (x # xs) s = (case scsi_fire x s of None \<Rightarrow> None | Some s' \<Rightarrow> scsi_run xs s')"

fun ev_plain :: "scsi_event \<Rightarrow> bool" where
  "ev_plain (Ev_timeout n) = False"
| "ev_plain (Ev_complete t) = False"
| "ev_plain _ = True"

lemma scsi_fire_step: "scsi_fire x s = Some s' \<Longrightarrow> \<not> solo \<and> \<not> clock \<or> ev_plain x \<Longrightarrow> scsi_step solo clock s s'"
  by (cases x) (auto split: if_splits bh_pc.splits intro: scsi_step.intros)

lemma scsi_run_reach:
  "scsi_run xs s = Some s' \<Longrightarrow> \<not> solo \<and> \<not> clock \<or> (\<forall>x \<in> set xs. ev_plain x) \<Longrightarrow> (scsi_step solo clock)\<^sup>*\<^sup>* s s'"
proof (induction xs arbitrary: s)
  case (Cons x xs)
  then obtain s1 where "scsi_fire x s = Some s1" "scsi_run xs s1 = Some s'" by (auto split: option.splits)
  then show ?case using Cons scsi_fire_step by (metis (no_types, lifting) converse_rtranclp_into_rtranclp list.set_intros)
qed simp

definition demo_cmd :: vmk_cmd where
  "demo_cmd = \<lparr>cdbLen = 6, sg_lengths = [512], requiredDataLen = 512\<rparr>"

lemmas scsi_eval = scsi_demo_def demo_cmd_def SCSILinuxQueueCommand_def get_command_def SCSILinuxComputeSGArray_def go_busy_def
  queue_blocked_def has_flag_def cmd_upd_def set_flag_def clear_flag_def abort_mark_def SCSILinuxCmdDone_def
  SCSILinuxScheduleCompletion_def SCSILinuxSignalBH_def check_underflow_def cmd_transferred_def Let_def
  bh_start_def bh_replenish_def bh_complete_def bh_end_def SCSILinuxCmdTimedOut_def SCSIProcessCmdTimedOut_def finish_delay_def
  SCSILinuxAbortCommand_def SCSILinuxTryAbortCommand_def

text \<open>The driver has completed command 1 while an abort holds it back; it still has command 2.\<close>

definition scsi_demo_1 :: scsi_sys where
  "scsi_demo_1 = the (scsi_run [Ev_queue 1 demo_cmd, Ev_queue 2 demo_cmd, Ev_mark 1, Ev_done 1 0 0] scsi_demo)"

lemma scsi_demo_1_run: "scsi_run [Ev_queue 1 demo_cmd, Ev_queue 2 demo_cmd, Ev_mark 1, Ev_done 1 0 0] scsi_demo = Some scsi_demo_1"
  by (simp add: scsi_demo_1_def scsi_eval)

lemma scsi_demo_1_reach: "(scsi_step True True)\<^sup>*\<^sup>* scsi_demo scsi_demo_1"
  by (rule scsi_run_reach [OF scsi_demo_1_run]) simp

lemma scsi_demo_1_facts: "aborting scsi_demo_1 = {1}" "drv scsi_demo_1 = {2}" "host_busy scsi_demo_1 = 2" "isrDoneCmds scsi_demo_1 = []"
  "bhDoneCmds scsi_demo_1 = []" "vmkflags (cmds scsi_demo_1 1) = {CMDDONE_ATTEMPTED, DELAY_CMDDONE, IO_TIMEOUT, NEED_CMDDONE}"
  by (auto simp: scsi_demo_1_def scsi_eval)

text \<open>C13: Whatever the driver, aborting threads, timers, the worker and the bottom half do, in any order, also when
  commands time out while the work item of an earlier timeout is still queued, a command is reported to the
  vmkernel at most once, and not while it is outstanding; \<open>host_busy\<close> and \<open>device_busy\<close> are exactly the number of
  outstanding commands. The states are those before a panic over a double completion, which ends the run.\<close>

theorem scsi_completed_once:
  assumes "(scsi_step solo clock)\<^sup>*\<^sup>* s0 s" "scsi_idle s0"
  shows "distinct (map fst (completed s)) \<and>
    fst ` set (completed s) \<inter> ({n. NEED_CMDDONE \<in> vmkflags (cmds s n)} \<union> set (isrDoneCmds s @ bhDoneCmds s)) = {} \<and>
    host_busy s = int (card ({n. NEED_CMDDONE \<in> vmkflags (cmds s n)} \<union> set (isrDoneCmds s @ bhDoneCmds s))) \<and>
    device_busy s = host_busy s"
proof -
  have i: "scsi_inv solo s" by (rule scsi_reach_inv [OF assms])
  have o: "outstanding s = {n. NEED_CMDDONE \<in> vmkflags (cmds s n)} \<union> set (isrDoneCmds s @ bhDoneCmds s)"
    by (simp add: outstanding_def has_flag_def done_list_def)
  show ?thesis using i unfolding o [symmetric] by (auto simp: scsi_inv_def cmd_inv_def)
qed

text \<open>Two timeouts overlap, the worker lets the second command go, and it is reported; the first command stays
  outstanding.\<close>

definition scsi_demo_2 :: scsi_sys where
  "scsi_demo_2 = the (scsi_run [Ev_queue 1 demo_cmd, Ev_queue 2 demo_cmd, Ev_timeout 1, Ev_timeout 2, Ev_done 1 0 0, Ev_done 2 0 0,
     Ev_work, Ev_start 100, Ev_complete 50] scsi_demo)"

lemma scsi_demo_2_run:
  "scsi_run [Ev_queue 1 demo_cmd, Ev_queue 2 demo_cmd, Ev_timeout 1, Ev_timeout 2, Ev_done 1 0 0, Ev_done 2 0 0,
     Ev_work, Ev_start 100, Ev_complete 50] scsi_demo = Some scsi_demo_2"
  by (simp add: scsi_demo_2_def scsi_eval insert_Diff_if)

lemma scsi_demo_2_reach: "(scsi_step False False)\<^sup>*\<^sup>* scsi_demo scsi_demo_2"
  by (rule scsi_run_reach [OF scsi_demo_2_run]) simp

lemma scsi_demo_2_facts: "map fst (completed scsi_demo_2) = [2]" "host_busy scsi_demo_2 = 1" "work_queued scsi_demo_2 = 1"
  by (auto simp: scsi_demo_2_def scsi_eval insert_Diff_if)

theorem scsi_completed_once_witness:
  "(scsi_step False False)\<^sup>*\<^sup>* scsi_demo scsi_demo_2 \<and> map fst (completed scsi_demo_2) = [2] \<and>
   (1 :: int) = int (card ({n. NEED_CMDDONE \<in> vmkflags (cmds scsi_demo_2 n)} \<union> set (isrDoneCmds scsi_demo_2 @ bhDoneCmds scsi_demo_2)))"
  using scsi_completed_once [OF scsi_demo_2_reach scsi_demo_idle] scsi_demo_2_facts scsi_demo_2_reach by simp

text \<open>As long as no two timeouts overlap, vmklinux does not panic over a double completion: the completion of a command by the
  driver, the end of an abort, the worker that handles a timeout and the queueing of a command that is
  not outstanding all return.\<close>

theorem scsi_no_double_completion:
  assumes "(scsi_step True clock)\<^sup>*\<^sup>* s0 s" "scsi_idle s0"
  shows "(n \<in> drv s \<longrightarrow> SCSILinuxCmdDone n (cmd_upd n (\<lambda>c. c\<lparr>result := res, resid := rsd\<rparr>) (s\<lparr>drv := drv s - {n}\<rparr>)) \<noteq> None) \<and>
    (n \<in> aborting s \<longrightarrow> abort_finish n s \<noteq> None) \<and>
    (work_queued s > 0 \<longrightarrow> SCSIProcessCmdTimedOut hh ans s \<noteq> None) \<and>
    (fresh s n \<longrightarrow> SCSILinuxQueueCommand ms mg st serial n v s \<noteq> None)"
proof -
  have i: "scsi_inv True s" by (rule scsi_reach_inv [OF assms])
  show ?thesis
    using drv_done_inv [OF i, where n = n and res = res and rsd = rsd] abort_finish_inv [OF i, of n] work_inv [OF i, of hh ans]
      queue_inv [OF i, of n ms mg st serial v] by auto
qed

theorem scsi_no_double_completion_witness: "abort_finish 1 scsi_demo_1 \<noteq> None"
  using scsi_no_double_completion [OF scsi_demo_1_reach scsi_demo_idle, of 1] scsi_demo_1_facts(1) by simp

text \<open>C17: Where an outstanding command is, in any interleaving: with the driver, or with a completion that is held
  back, or once in a completion list of the bottom half, and in only one of the three. As long as no
  command times out while the work item of an earlier timeout is still queued (\<open>solo\<close>), a completion that is held
  back belongs to an abort in progress or to the command of the queued work item, which will let it go, so
  that no command is lost. (When timeouts overlap, the work item can name another command: see the loss of
  commands below.)\<close>

theorem scsi_no_lost_command:
  assumes "(scsi_step solo clock)\<^sup>*\<^sup>* s0 s" "scsi_idle s0"
    and "n \<in> {n. NEED_CMDDONE \<in> vmkflags (cmds s n)} \<union> set (isrDoneCmds s @ bhDoneCmds s)"
  shows "(n \<in> drv s \<and> n \<notin> set (isrDoneCmds s @ bhDoneCmds s) \<and> CMDDONE_ATTEMPTED \<notin> vmkflags (cmds s n)) \<or>
         (n \<notin> drv s \<and> n \<notin> set (isrDoneCmds s @ bhDoneCmds s) \<and> {CMDDONE_ATTEMPTED, DELAY_CMDDONE} \<subseteq> vmkflags (cmds s n) \<and>
            (solo \<longrightarrow> n \<in> aborting s \<or> work_queued s > 0 \<and> work_data s = Some n)) \<or>
         (n \<notin> drv s \<and> count_list (isrDoneCmds s @ bhDoneCmds s) n = 1)"
proof -
  have i: "scsi_inv solo s" by (rule scsi_reach_inv [OF assms(1,2)])
  then have c: "cmd_inv solo s n" and d: "distinct (isrDoneCmds s @ bhDoneCmds s)" by (simp_all add: scsi_inv_def done_list_def)
  have l: "count_list (isrDoneCmds s @ bhDoneCmds s) n = 1" if "n \<in> set (isrDoneCmds s @ bhDoneCmds s)"
    using d that distinct_count_atmost_1 by (metis count_mset)
  show ?thesis using c assms(3) l unfolding cmd_inv_def has_flag_def done_list_def timed_out_def
    by (auto split: if_splits)
qed

theorem scsi_no_lost_command_witness:
  "1 \<notin> drv scsi_demo_1 \<and> CMDDONE_ATTEMPTED \<in> vmkflags (cmds scsi_demo_1 1) \<and>
   (1 \<in> aborting scsi_demo_1 \<or> work_queued scsi_demo_1 > 0 \<and> work_data scsi_demo_1 = Some 1)"
  using scsi_no_lost_command [OF scsi_demo_1_reach scsi_demo_idle, of 1] scsi_demo_1_facts by auto

text \<open>As long as the clock never reads exactly the deadline of the bottom half, completed commands are not
  forgotten: while a completion list is not empty, the bottom half is scheduled or running.\<close>

theorem scsi_bottom_half_runs:
  assumes "(scsi_step solo True)\<^sup>*\<^sup>* s0 s" "scsi_idle s0" "isrDoneCmds s \<noteq> [] \<or> bhDoneCmds s \<noteq> []"
  shows "runningBH s \<and> (bh_scheduled s \<or> bh s \<noteq> Bh_off)"
  using scsi_reach_bh [OF assms(1,2)] assms(3) by (auto simp: bh_ok_def done_list_def)

theorem scsi_bottom_half_runs_witness:
  "\<exists>s. (scsi_step True True)\<^sup>*\<^sup>* scsi_demo s \<and> isrDoneCmds s = [1] \<and> runningBH s \<and> (bh_scheduled s \<or> bh s \<noteq> Bh_off)"
proof -
  obtain s where s: "scsi_run [Ev_queue 1 demo_cmd, Ev_done 1 0 0] scsi_demo = Some s" "isrDoneCmds s = [1]"
    by (simp add: scsi_eval)
  have r: "(scsi_step True True)\<^sup>*\<^sup>* scsi_demo s" by (rule scsi_run_reach [OF s(1)]) simp
  show ?thesis using scsi_bottom_half_runs [OF r scsi_demo_idle] s(2) r by auto
qed

text \<open>The bottom half can leave commands behind: when the clock reads exactly the deadline after a command,
  the loop stops with commands left in \<open>bhDoneCmds\<close>, and the bottom half ends without scheduling itself.
  The command left is completed, yet neither reported nor about to be.\<close>

theorem scsi_bh_stuck:
  "\<exists>s. (scsi_step False False)\<^sup>*\<^sup>* scsi_demo s \<and> bhDoneCmds s = [2] \<and> isrDoneCmds s = [] \<and> \<not> runningBH s \<and>
       \<not> bh_scheduled s \<and> bh s = Bh_off \<and> drv s = {} \<and> aborting s = {} \<and> work_queued s = 0 \<and> host_busy s = 1 \<and>
       map fst (completed s) = [1]"
proof -
  let ?xs = "[Ev_queue 1 demo_cmd, Ev_queue 2 demo_cmd, Ev_done 1 0 0, Ev_done 2 0 0, Ev_start 100, Ev_complete 100, Ev_stop]"
  have "\<exists>s. scsi_run ?xs scsi_demo = Some s \<and> bhDoneCmds s = [2] \<and> isrDoneCmds s = [] \<and> \<not> runningBH s \<and>
       \<not> bh_scheduled s \<and> bh s = Bh_off \<and> drv s = {} \<and> aborting s = {} \<and> work_queued s = 0 \<and> host_busy s = 1 \<and>
       map fst (completed s) = [1]"
    by (simp add: scsi_eval insert_Diff_if)
  moreover have "scsi_run ?xs scsi_demo = Some s \<Longrightarrow> (scsi_step False False)\<^sup>*\<^sup>* scsi_demo s" for s
    by (erule scsi_run_reach) simp
  ultimately show ?thesis by (elim ex_forward conj_forward)
qed

text \<open>A command that nobody will complete: its completion was deferred, and neither an abort in progress nor the
  work item knows of it.\<close>

definition scsi_lost :: "nat \<Rightarrow> scsi_sys \<Rightarrow> bool" where
  "scsi_lost n s \<longleftrightarrow> {NEED_CMDDONE, DELAY_CMDDONE, CMDDONE_ATTEMPTED} \<subseteq> vmkflags (cmds s n) \<and> n \<notin> drv s \<and> n \<notin> aborting s \<and>
     n \<notin> io_timers s \<and> work_data s \<noteq> Some n \<and> n \<notin> set (isrDoneCmds s @ bhDoneCmds s) \<and> n \<notin> fst ` set (completed s)"

lemma CmdDone_lost: "SCSILinuxCmdDone m s = Some s' \<Longrightarrow> m \<noteq> n \<Longrightarrow> scsi_lost n s \<Longrightarrow> scsi_lost n s'"
  by (auto simp: SCSILinuxCmdDone_def Let_def SCSILinuxScheduleCompletion_def SCSILinuxSignalBH_def scsi_lost_def split: if_splits)

lemma fail_command_lost: "fail_command m res s = Some (r, s') \<Longrightarrow> m \<noteq> n \<Longrightarrow> scsi_lost n s \<Longrightarrow> scsi_lost n s'"
  using CmdDone_lost [of m "cmd_upd m (\<lambda>c. c\<lparr>result := res\<rparr>) s" s' n] by (auto simp: fail_command_def scsi_lost_def)

lemma finish_delay_lost: "finish_delay m s = Some s' \<Longrightarrow> m \<noteq> n \<Longrightarrow> scsi_lost n s \<Longrightarrow> scsi_lost n s'"
  using CmdDone_lost [of m "cmd_upd m (clear_flag DELAY_CMDDONE) s" s' n]
  by (auto simp: finish_delay_def Let_def scsi_lost_def split: if_splits)

lemma queue_lost:
  assumes q: "SCSILinuxQueueCommand ms mg st serial m v s = Some (r, s')" and m: "m \<noteq> n" and l: "scsi_lost n s"
  shows "scsi_lost n s'"
proof -
  define s1 where "s1 = s\<lparr>cmds := (cmds s)(m := get_command serial v)\<rparr>"
  define s2 where "s2 = go_busy m s1"
  define s3 where "s3 = (if fc_io_timeout s then cmd_upd m (set_flag IO_TIMEOUT) (s2\<lparr>io_timers := insert m (io_timers s2)\<rparr>) else s2)"
  define s4 where "s4 = (if has_flag s3 m IO_TIMEOUT then s3\<lparr>io_timers := io_timers s3 - {m}\<rparr> else s3)"
  have v: "scsi_lost n s2" "scsi_lost n s3" "scsi_lost n s4"
    using l m by (simp_all add: s1_def s2_def s3_def s4_def go_busy_def scsi_lost_def)
  define P where "P x \<longleftrightarrow> (\<forall>r s'. x = Some (r, s') \<longrightarrow> scsi_lost n s')" for x :: "(vmk_status \<times> scsi_sys) option"
  have "P (fail_command m res s2)" "P (fail_command m res s4)" for res
    using fail_command_lost [OF _ m v(1)] fail_command_lost [OF _ m v(3)] by (auto simp: P_def)
  moreover have "P (Some (VMK_OK, s3\<lparr>drv := insert m (drv s3)\<rparr>))" "P (Some (r, s))" for r
    using v(2) l m by (auto simp: P_def scsi_lost_def)
  moreover have "P (Some (VMK_OK, cmd_upd m (\<lambda>c. c\<lparr>result := SAM_STAT_BUSY\<rparr>) s4))"
    using v(3) m by (auto simp: P_def scsi_lost_def)
  ultimately have "P (SCSILinuxQueueCommand ms mg st serial m v s)"
    unfolding SCSILinuxQueueCommand_def Let_def s1_def [symmetric] s2_def [symmetric] s3_def [symmetric] s4_def [symmetric]
    by (simp only: if_distrib [of P] if_cancel)
  then show ?thesis using q by (simp add: P_def)
qed

lemma scsi_step_lost: "scsi_step solo clock s s' \<Longrightarrow> scsi_lost n s \<Longrightarrow> scsi_lost n s'"
proof (induction rule: scsi_step.induct)
  case (queue s m serial ms mg st v r s')
  then have "m \<noteq> n" by (auto simp: scsi_lost_def)
  then show ?case using queue queue_lost by blast
next
  case (drv_done m s rsd res s')
  then have "m \<noteq> n" by (auto simp: scsi_lost_def)
  then show ?case using drv_done CmdDone_lost by (fastforce simp: scsi_lost_def)
next
  case (mark s m)
  then show ?case by (auto simp: scsi_lost_def abort_mark_def has_flag_def)
next
  case (finish m s s')
  then have "m \<noteq> n" by (auto simp: scsi_lost_def)
  then show ?case using finish finish_delay_lost [of m "s\<lparr>aborting := aborting s - {m}\<rparr>" s' n]
    by (auto simp: scsi_lost_def abort_finish_def)
next
  case (timeout m s)
  then have "m \<noteq> n" by (auto simp: scsi_lost_def)
  then show ?case using timeout by (auto simp: scsi_lost_def SCSILinuxCmdTimedOut_def Let_def)
next
  case (work s hh ans s')
  then obtain m where m: "work_data s = Some m" "m \<noteq> n" by (auto simp: scsi_lost_def SCSIProcessCmdTimedOut_def split: option.splits)
  then show ?case using work finish_delay_lost [of m "snd (SCSILinuxAbortCommand hh ans m (s\<lparr>work_queued := work_queued s - 1\<rparr>))" s' n]
    by (simp add: scsi_lost_def SCSIProcessCmdTimedOut_def)
qed (auto simp: scsi_lost_def bh_start_def bh_complete_def bh_end_def bh_replenish_def Let_def split: list.splits)

interpretation scsi_stuck: step_invariant "scsi_step solo clock" "scsi_lost n" for solo clock n
  by unfold_locales (rule scsi_step_lost)

lemmas scsi_reach_lost = scsi_stuck.reach_inv

text \<open>C36: Two commands that time out shortly after each other lose one: the second timeout initialises the shared
  work item anew, so the worker never hears of the first command, whose completion by the driver stays
  deferred. From then on, whatever happens, that command is never reported to the vmkernel.\<close>

theorem scsi_timeouts_lose_command:
  "\<exists>s. (scsi_step False False)\<^sup>*\<^sup>* scsi_demo s \<and>
     (\<forall>s'. (scsi_step False False)\<^sup>*\<^sup>* s s' \<longrightarrow> 1 \<notin> fst ` set (completed s') \<and> NEED_CMDDONE \<in> vmkflags (cmds s' 1))"
proof -
  let ?xs = "[Ev_queue 1 demo_cmd, Ev_queue 2 demo_cmd, Ev_timeout 1, Ev_timeout 2, Ev_done 1 0 0, Ev_done 2 0 0]"
  have "\<exists>s. scsi_run ?xs scsi_demo = Some s \<and> scsi_lost 1 s" by (simp add: scsi_eval scsi_lost_def)
  then obtain s where s: "scsi_run ?xs scsi_demo = Some s" "scsi_lost 1 s" by blast
  then have "(scsi_step False False)\<^sup>*\<^sup>* scsi_demo s" by (intro scsi_run_reach [OF s(1)]) simp
  moreover have "1 \<notin> fst ` set (completed s') \<and> NEED_CMDDONE \<in> vmkflags (cmds s' 1)" if "(scsi_step False False)\<^sup>*\<^sup>* s s'" for s'
    using scsi_reach_lost [OF that s(2)] by (simp add: scsi_lost_def)
  ultimately show ?thesis by blast
qed

theorem scsi_timeouts_lose_command_witness:
  "\<exists>s. (scsi_step False False)\<^sup>*\<^sup>* scsi_demo s \<and> 1 \<notin> fst ` set (completed s) \<and> NEED_CMDDONE \<in> vmkflags (cmds s 1)"
  using scsi_timeouts_lose_command by blast

text \<open>What is reported to the vmkernel of a completed command: never more bytes than the command asked for.
  And when the driver said success, a report of success means that the residue is between 0 and the
  length, that the bytes are exactly the length less the residue, and that they are at least the data
  the command requires.\<close>

theorem scsi_report_sound:
  assumes "bh_report (check_underflow c) = (h, d, x)"
  shows "x \<le> request_bufflen c \<and>
    (result c = 0 \<and> h = 0 \<and> d = 0 \<and> resid c < 2 ^ 31 \<longrightarrow>
       0 \<le> resid c \<and> uint x = uint (request_bufflen c) - resid c \<and> underflow c \<le> x)"
proof (intro conjI impI)
  have b: "cmd_transferred (check_underflow c) = cmd_transferred c" "request_bufflen (check_underflow c) = request_bufflen c"
    by (simp_all add: check_underflow_def cmd_transferred_def)
  show "x \<le> request_bufflen c" using assms by (auto simp: bh_report_def b Let_def split: prod.splits if_splits)
  assume "result c = 0 \<and> h = 0 \<and> d = 0 \<and> resid c < 2 ^ 31"
  then have r: "result c = 0" "h = 0" "d = 0" "resid c < 2 ^ 31" by auto
  have e: "bh_status (push_bit 16 DID_ERROR) = (7, 0)"
    by (simp add: bh_status_def driver_byte_def VMKLNX_SCSI_HOST_STATUS_def VMKLNX_SCSI_DEVICE_STATUS_def)
  have u: "check_underflow c = c"
  proof (rule ccontr)
    assume "check_underflow c \<noteq> c"
    then have "result (check_underflow c) = push_bit 16 DID_ERROR" using r(1) by (auto simp: check_underflow_def split: if_splits)
    then show False using assms r(2) e by (auto simp: bh_report_def Let_def split: if_splits)
  qed
  then have c: "0 \<le> resid c" "underflow c \<le> cmd_transferred c"
    using r(1) by (auto simp: check_underflow_def not_less split: if_splits dest: arg_cong [where f = result])
  have x: "x = cmd_transferred c" "cmd_transferred c \<le> request_bufflen c"
    using assms r(2,3) unfolding u by (auto simp: bh_report_def Let_def split: prod.splits if_splits)
  have w: "uint (word_of_int (resid c) :: u32) = resid c" using c(1) r(4) by (simp add: uint_word_of_int_eq take_bit_int_eq_self)
  have "uint (cmd_transferred c) = uint (request_bufflen c) - resid c"
    using x(2) w r(4) uint_lt2p [of "request_bufflen c"] unfolding cmd_transferred_def word_le_def uint_sub_if' by (auto split: if_splits)
  then show "0 \<le> resid c" "uint x = uint (request_bufflen c) - resid c" "underflow c \<le> x" using c x(1) by simp_all
qed

theorem scsi_report_sound_witness:
  "bh_report (check_underflow \<lparr>vmkflags = {}, serial_number = 0, result = 0, resid = 12, request_bufflen = 512, underflow = 500\<rparr>) = (0, 0, 500) \<and>
   uint (500 :: u32) = 512 - 12 \<and> (500 :: u32) \<le> 500"
proof -
  let ?c = "\<lparr>vmkflags = {}, serial_number = 0, result = 0, resid = 12, request_bufflen = 512, underflow = 500\<rparr>"
  have e: "bh_report (check_underflow ?c) = (0, 0, 500)"
    by (simp add: bh_report_def check_underflow_def cmd_transferred_def bh_status_def driver_byte_def
        VMKLNX_SCSI_HOST_STATUS_def VMKLNX_SCSI_DEVICE_STATUS_def)
  then show ?thesis using scsi_report_sound [OF e] by simp
qed

end
