(* ===== verification/Idr.thy ===== *)
theory Idr
  imports Prelude
begin

text \<open>
  The identifier allocator, \<^verbatim>\<open>vmklinux26/linux/lib/idr.c\<close> with \<^verbatim>\<open>include/linux/idr.h\<close> on a 64-bit machine: a
  radix tree of layers of 64 slots from small numbers to pointers. A pointer is a number, 0 is \<open>NULL\<close>;
  the layers live in a heap from addresses to \<open>struct idr_layer\<close>, so a layer that is reached twice, freed and
  reused, or a user's pointer taken for a layer would be seen. The slab cache of layers keeps the contents of
  the objects that are returned to it. An access through a pointer that is not a layer, an array index out of
  bounds and a loop that does not end are \<^term>\<open>None\<close>.
\<close>

section \<open>Layers, handles and memory\<close>

abbreviation (input) IDR_BITS :: nat where "IDR_BITS \<equiv> 6"
abbreviation (input) IDR_SIZE :: nat where "IDR_SIZE \<equiv> 64"
abbreviation (input) IDR_MASK :: int where "IDR_MASK \<equiv> 63"
abbreviation (input) MAX_LEVEL :: nat where "MAX_LEVEL \<equiv> 6"
abbreviation (input) IDR_FREE_MAX :: int where "IDR_FREE_MAX \<equiv> 12"
abbreviation (input) MAX_ID_BIT :: int where "MAX_ID_BIT \<equiv> 2147483648"
abbreviation (input) MAX_ID_MASK :: int where "MAX_ID_MASK \<equiv> 2147483647"
abbreviation (input) EAGAIN :: int where "EAGAIN \<equiv> 11"
abbreviation (input) ENOSPC :: int where "ENOSPC \<equiv> 28"
abbreviation (input) ENOENT :: int where "ENOENT \<equiv> 2"
abbreviation (input) IDR_EINVAL :: int where "IDR_EINVAL \<equiv> 22"

record idr_layer =
  l_bitmap :: u64
  l_ary :: "nat list"
  l_count :: int

record idr =
  i_top :: nat
  i_free :: nat
  i_layers :: nat
  i_free_cnt :: int

record idr_mem = idr +
  i_heap :: "nat \<rightharpoonup> idr_layer"
  i_slab :: "nat \<rightharpoonup> idr_layer"

text \<open>A store to an \<open>int\<close>, and the search for a set bit of one word.\<close>

definition to_int32 :: "int \<Rightarrow> int" where
  "to_int32 x = signed_take_bit 31 x"

definition scanbit :: "u64 \<Rightarrow> nat \<Rightarrow> nat" where
  "scanbit val mx = (case List.find (bit val) [0..<64] of None \<Rightarrow> mx | Some i \<Rightarrow> i)"

definition find_next_bit :: "u64 \<Rightarrow> nat \<Rightarrow> nat \<Rightarrow> nat" where
  "find_next_bit w sz off = off + scanbit (drop_bit off w) (sz - off)"

text \<open>The constructor of the cache, and a new handle.\<close>

definition idr_cache_ctor :: idr_layer where
  "idr_cache_ctor = \<lparr>l_bitmap = 0, l_ary = replicate IDR_SIZE 0, l_count = 0\<rparr>"

definition idr_init :: "idr_mem \<Rightarrow> idr_mem" where
  "idr_init st = st\<lparr>i_top := 0, i_free := 0, i_layers := 0, i_free_cnt := 0\<rparr>"

text \<open>
  The cache: an allocation answers an address that is not in use, and the object has what was in it when it
  was freed, or what the constructor wrote when the cache took it from the module's heap.
\<close>

definition kmem_cache_alloc :: "(idr_mem \<Rightarrow> nat) \<Rightarrow> idr_mem \<Rightarrow> nat \<times> idr_mem" where
  "kmem_cache_alloc pick st =
     (let p = pick st in
      if p = 0 then (0, st)
      else (p, st\<lparr>i_heap := (i_heap st)(p \<mapsto> case i_slab st p of None \<Rightarrow> idr_cache_ctor | Some ly \<Rightarrow> ly),
                  i_slab := (i_slab st)(p := None)\<rparr>))"

definition kmem_cache_free :: "nat \<Rightarrow> idr_mem \<Rightarrow> idr_mem option" where
  "kmem_cache_free p st =
     do { ly \<leftarrow> i_heap st p;
          Some (st\<lparr>i_heap := (i_heap st)(p := None), i_slab := (i_slab st)(p \<mapsto> ly)\<rparr>) }"

section \<open>The list of free layers\<close>

text \<open>\<open>IDR_FREE_MAX\<close> is unsigned, so a negative counter would compare as a large number.\<close>

definition alloc_layer :: "idr_mem \<Rightarrow> (nat \<times> idr_mem) option" where
  "alloc_layer st =
     (let p = i_free st in
      if p \<noteq> 0
      then do { ly \<leftarrow> i_heap st p;
                Some (p, st\<lparr>i_free := l_ary ly ! 0, i_free_cnt := i_free_cnt st - 1,
                            i_heap := (i_heap st)(p \<mapsto> ly\<lparr>l_ary := (l_ary ly)[0 := 0]\<rparr>)\<rparr>) }
      else Some (p, st))"

definition free_layer :: "idr_mem \<Rightarrow> nat \<Rightarrow> idr_mem option" where
  "free_layer st p =
     do { ly \<leftarrow> i_heap st p;
          Some (st\<lparr>i_heap := (i_heap st)(p \<mapsto> ly\<lparr>l_ary := (l_ary ly)[0 := i_free st]\<rparr>),
                   i_free := p, i_free_cnt := i_free_cnt st + 1\<rparr>) }"

partial_function (option) idr_pre_get :: "(idr_mem \<Rightarrow> nat) \<Rightarrow> idr_mem \<Rightarrow> (int \<times> idr_mem) option" where
  [code]: "idr_pre_get pick st =
     (if 0 \<le> i_free_cnt st \<and> i_free_cnt st < IDR_FREE_MAX
      then let (new, st1) = kmem_cache_alloc pick st in
           if new = 0 then Some (0, st1)
           else do { st2 \<leftarrow> free_layer st1 new; idr_pre_get pick st2 }
      else Some (1, st))"

section \<open>Allocation of an identifier\<close>

text \<open>
  The first loop of \<open>sub_alloc\<close>: \<open>pa\<close> holds the layers on the way down; a missing layer is created. It ends with a
  return value and \<open>*starting_id\<close>, or at a free slot \<open>m\<close> of the leaf \<open>p\<close>.
\<close>

datatype walk_end =
    Sub_Ret int int
  | Sub_Leaf "nat \<rightharpoonup> nat" nat nat int

definition write_pa :: "(nat \<rightharpoonup> nat) \<Rightarrow> nat \<Rightarrow> nat \<Rightarrow> (nat \<rightharpoonup> nat) option" where
  "write_pa pa l p = (if l < MAX_LEVEL then Some (pa(l \<mapsto> p)) else None)"

partial_function (option) sub_alloc_walk ::
  "idr_mem \<Rightarrow> (nat \<rightharpoonup> nat) \<Rightarrow> nat \<Rightarrow> nat \<Rightarrow> int \<Rightarrow> int \<Rightarrow> (walk_end \<times> idr_mem) option" where
  [code]: "sub_alloc_walk st pa p l idn start =
     do { ly \<leftarrow> i_heap st p;
          let n = drop_bit (IDR_BITS * l) idn AND IDR_MASK;
          let m = find_next_bit (NOT (l_bitmap ly)) IDR_SIZE (nat n);
          if m = IDR_SIZE
          then let id1 = to_int32 ((idn OR (push_bit (IDR_BITS * (l + 1)) 1 - 1)) + 1) in
               do { q \<leftarrow> pa (l + 1);
                    if q = 0 then Some (Sub_Ret (- 2) id1, st)
                    else sub_alloc_walk st pa q (l + 1) id1 start }
          else let id1 = (if int m \<noteq> n
                          then to_int32 (push_bit (IDR_BITS * l)
                                 (drop_bit (IDR_BITS * l) idn XOR n XOR int m))
                          else idn) in
               if id1 < 0 \<or> id1 \<ge> MAX_ID_BIT then Some (Sub_Ret (- 3) start, st)
               else if l = 0 then Some (Sub_Leaf pa p m id1, st)
               else if l_ary ly ! m = 0
               then do { (new, st1) \<leftarrow> alloc_layer st;
                         if new = 0 then Some (Sub_Ret (- 1) start, st1)
                         else do { ly1 \<leftarrow> i_heap st1 p;
                                   pa1 \<leftarrow> write_pa pa l p;
                                   sub_alloc_walk
                                     (st1\<lparr>i_heap := (i_heap st1)(p \<mapsto>
                                        ly1\<lparr>l_ary := (l_ary ly1)[m := new], l_count := l_count ly1 + 1\<rparr>)\<rparr>)
                                     pa1 new (l - 1) id1 start } }
               else do { pa1 \<leftarrow> write_pa pa l p;
                         sub_alloc_walk st pa1 (l_ary ly ! m) (l - 1) id1 start } }"

text \<open>The second loop: mark the layers above a full one.\<close>

partial_function (option) sub_alloc_mark ::
  "idr_mem \<Rightarrow> (nat \<rightharpoonup> nat) \<Rightarrow> nat \<Rightarrow> nat \<Rightarrow> int \<Rightarrow> idr_mem option" where
  [code]: "sub_alloc_mark st pa p l n =
     do { ly \<leftarrow> i_heap st p;
          if l_bitmap ly = - 1
          then do { q \<leftarrow> pa (l + 1);
                    if q = 0 then Some st
                    else do { lq \<leftarrow> i_heap st q;
                              let n1 = drop_bit IDR_BITS n;
                              sub_alloc_mark
                                (st\<lparr>i_heap := (i_heap st)(q \<mapsto>
                                   lq\<lparr>l_bitmap := set_bit (nat (n1 AND IDR_MASK)) (l_bitmap lq)\<rparr>)\<rparr>)
                                pa q (l + 1) n1 } }
          else Some st }"

definition sub_alloc :: "idr_mem \<Rightarrow> nat \<Rightarrow> int \<Rightarrow> (int \<times> int \<times> idr_mem) option" where
  "sub_alloc st ptr starting_id =
     do { pa \<leftarrow> write_pa Map.empty (i_layers st) 0;
          (e, st1) \<leftarrow> sub_alloc_walk st pa (i_top st) (i_layers st - 1) starting_id starting_id;
          case e of
            Sub_Ret v idn \<Rightarrow> Some (v, idn, st1)
          | Sub_Leaf pa1 p m idn \<Rightarrow>
              do { ly \<leftarrow> i_heap st1 p;
                   st2 \<leftarrow> sub_alloc_mark
                     (st1\<lparr>i_heap := (i_heap st1)(p \<mapsto>
                        ly\<lparr>l_ary := (l_ary ly)[m := ptr], l_bitmap := set_bit m (l_bitmap ly),
                           l_count := l_count ly + 1\<rparr>)\<rparr>) pa1 p 0 idn;
                   Some (idn, starting_id, st2) } }"

text \<open>\<open>idr_get_new_above_int\<close>: the teardown after a failed allocation, the growth of the tree, and the retry.\<close>

partial_function (option) idr_teardown :: "idr_mem \<Rightarrow> nat \<Rightarrow> idr_mem option" where
  [code]: "idr_teardown st p =
     (if p \<noteq> 0 \<and> p \<noteq> i_top st
      then do { ly \<leftarrow> i_heap st p;
                st1 \<leftarrow> free_layer
                  (st\<lparr>i_heap := (i_heap st)(p \<mapsto>
                     ly\<lparr>l_ary := (l_ary ly)[0 := 0], l_bitmap := 0, l_count := 0\<rparr>)\<rparr>) p;
                idr_teardown st1 (l_ary ly ! 0) }
      else Some st)"

partial_function (option) idr_grow ::
  "idr_mem \<Rightarrow> nat \<Rightarrow> nat \<Rightarrow> int \<Rightarrow> ((nat \<times> nat) option \<times> idr_mem) option" where
  [code]: "idr_grow st p layers idn =
     (if layers < MAX_LEVEL - 1 \<and> idn \<ge> push_bit (layers * IDR_BITS) 1
      then do { ly \<leftarrow> i_heap st p;
                if l_count ly = 0 then idr_grow st p (layers + 1) idn
                else do { (new, st1) \<leftarrow> alloc_layer st;
                          if new = 0 then map_option (Pair None) (idr_teardown st1 p)
                          else do { nl \<leftarrow> i_heap st1 new;
                                    pl \<leftarrow> i_heap st1 p;
                                    idr_grow
                                      (st1\<lparr>i_heap := (i_heap st1)(new \<mapsto>
                                         nl\<lparr>l_ary := (l_ary nl)[0 := p], l_count := 1,
                                            l_bitmap := (if l_bitmap pl = - 1 then set_bit 0 (l_bitmap nl)
                                                         else l_bitmap nl)\<rparr>)\<rparr>)
                                      new (layers + 1) idn } } }
      else Some (Some (p, layers), st))"

partial_function (option) idr_get_new_above_int :: "idr_mem \<Rightarrow> nat \<Rightarrow> int \<Rightarrow> (int \<times> idr_mem) option" where
  [code]: "idr_get_new_above_int st ptr idn =
     do { (p, layers, st1) \<leftarrow>
            (if i_top st = 0 then map_option (\<lambda>(p, s). (p, 1, s)) (alloc_layer st)
             else Some (i_top st, i_layers st, st));
          if p = 0 then Some (- 1, st1)
          else do { (r, st2) \<leftarrow> idr_grow st1 p layers idn;
                    case r of
                      None \<Rightarrow> Some (- 1, st2)
                    | Some (t, ls) \<Rightarrow>
                        do { (v, id1, st3) \<leftarrow> sub_alloc (st2\<lparr>i_top := t, i_layers := ls\<rparr>) ptr idn;
                             if v = - 2 then idr_get_new_above_int st3 ptr id1 else Some (v, st3) } } }"

definition idr_get_new_above :: "idr_mem \<Rightarrow> nat \<Rightarrow> int \<Rightarrow> (int \<times> int option \<times> idr_mem) option" where
  "idr_get_new_above st ptr starting_id =
     do { (rv, st1) \<leftarrow> idr_get_new_above_int st ptr starting_id;
          if rv < 0 then Some (if rv = - 1 then - EAGAIN else - ENOSPC, None, st1)
          else Some (0, Some rv, st1) }"

definition idr_get_new :: "idr_mem \<Rightarrow> nat \<Rightarrow> (int \<times> int option \<times> idr_mem) option" where
  "idr_get_new st ptr =
     do { (rv, st1) \<leftarrow> idr_get_new_above_int st ptr 0;
          if rv < 0 then Some (if rv = - 1 then - EAGAIN else - ENOSPC, None, st1)
          else Some (0, Some rv, st1) }"

section \<open>Removal, lookup and replacement\<close>

text \<open>
  \<open>sub_remove\<close>: \<open>paa\<close> is the stack of the places that hold the pointers followed, a slot of a layer or the handle's
  \<open>top\<close>, the innermost first; the bottom of the stack is the \<open>NULL\<close> of \<open>pa[0]\<close>.
\<close>

datatype place = Top | Slot nat nat

fun read_place :: "idr_mem \<Rightarrow> place \<Rightarrow> nat option" where
  "read_place st Top = Some (i_top st)"
| "read_place st (Slot p n) = map_option (\<lambda>ly. l_ary ly ! n) (i_heap st p)"

fun clear_place :: "idr_mem \<Rightarrow> place \<Rightarrow> idr_mem option" where
  "clear_place st Top = Some (st\<lparr>i_top := 0\<rparr>)"
| "clear_place st (Slot p n) =
     map_option (\<lambda>ly. st\<lparr>i_heap := (i_heap st)(p \<mapsto> ly\<lparr>l_ary := (l_ary ly)[n := 0]\<rparr>)\<rparr>) (i_heap st p)"

partial_function (option) sub_remove_walk ::
  "idr_mem \<Rightarrow> place list \<Rightarrow> nat \<Rightarrow> int \<Rightarrow> int \<Rightarrow> (place list \<times> nat \<times> idr_mem) option" where
  [code]: "sub_remove_walk st paa p shift idn =
     (if shift > 0 \<and> p \<noteq> 0
      then do { ly \<leftarrow> i_heap st p;
                let n = nat (drop_bit (nat shift) idn AND IDR_MASK);
                if Suc (length paa) < MAX_LEVEL
                then sub_remove_walk
                       (st\<lparr>i_heap := (i_heap st)(p \<mapsto> ly\<lparr>l_bitmap := unset_bit n (l_bitmap ly)\<rparr>)\<rparr>)
                       (Slot p n # paa) (l_ary ly ! n) (shift - int IDR_BITS) idn
                else None }
      else Some (paa, p, st))"

fun sub_remove_release :: "idr_mem \<Rightarrow> place list \<Rightarrow> (bool \<times> idr_mem) option" where
  "sub_remove_release st [] = Some (True, st)"
| "sub_remove_release st (a # paa) =
     do { p \<leftarrow> read_place st a;
          ly \<leftarrow> i_heap st p;
          let st1 = st\<lparr>i_heap := (i_heap st)(p \<mapsto> ly\<lparr>l_count := l_count ly - 1\<rparr>)\<rparr>;
          if l_count ly - 1 = 0
          then do { st2 \<leftarrow> free_layer st1 p; st3 \<leftarrow> clear_place st2 a; sub_remove_release st3 paa }
          else Some (False, st1) }"

definition sub_remove :: "idr_mem \<Rightarrow> int \<Rightarrow> int \<Rightarrow> idr_mem option" where
  "sub_remove st shift idn =
     do { (paa, p, st1) \<leftarrow> sub_remove_walk st [Top] (i_top st) shift idn;
          let n = nat (idn AND IDR_MASK);
          if p = 0 then Some st1
          else do { ly \<leftarrow> i_heap st1 p;
                    if bit (l_bitmap ly) n
                    then do { (emptied, st2) \<leftarrow> sub_remove_release
                                (st1\<lparr>i_heap := (i_heap st1)(p \<mapsto>
                                   ly\<lparr>l_bitmap := unset_bit n (l_bitmap ly), l_ary := (l_ary ly)[n := 0]\<rparr>)\<rparr>) paa;
                              Some (if emptied then st2\<lparr>i_layers := 0\<rparr> else st2) }
                    else Some st1 } }"

definition idr_drop_layer :: "idr_mem \<Rightarrow> idr_mem option" where
  "idr_drop_layer st =
     (if i_top st = 0 then Some st
      else do { ly \<leftarrow> i_heap st (i_top st);
                if l_count ly = 1 \<and> i_layers st > 1 \<and> l_ary ly ! 0 \<noteq> 0
                then do { st1 \<leftarrow> free_layer
                            (st\<lparr>i_heap := (i_heap st)(i_top st \<mapsto> ly\<lparr>l_bitmap := 0, l_count := 0\<rparr>)\<rparr>) (i_top st);
                          Some (st1\<lparr>i_top := l_ary ly ! 0, i_layers := i_layers st - 1\<rparr>) }
                else Some st })"

definition idr_remove :: "idr_mem \<Rightarrow> int \<Rightarrow> idr_mem option" where
  "idr_remove st id0 =
     do { let idn = id0 AND MAX_ID_MASK;
          st1 \<leftarrow> sub_remove st ((int (i_layers st) - 1) * int IDR_BITS) idn;
          st2 \<leftarrow> idr_drop_layer st1;
          if i_free_cnt st2 \<ge> IDR_FREE_MAX \<or> i_free_cnt st2 < 0
          then do { (p, st3) \<leftarrow> alloc_layer st2; kmem_cache_free p st3 }
          else Some st2 }"

partial_function (option) idr_destroy :: "idr_mem \<Rightarrow> idr_mem option" where
  [code]: "idr_destroy st =
     (if i_free_cnt st \<noteq> 0
      then do { (p, st1) \<leftarrow> alloc_layer st; st2 \<leftarrow> kmem_cache_free p st1; idr_destroy st2 }
      else Some st)"

fun idr_find_walk :: "idr_mem \<Rightarrow> nat \<Rightarrow> nat \<Rightarrow> int \<Rightarrow> nat option" where
  "idr_find_walk st 0 p idn = Some p"
| "idr_find_walk st (Suc l) p idn =
     (if p = 0 then Some p
      else do { ly \<leftarrow> i_heap st p;
                idr_find_walk st l (l_ary ly ! nat (drop_bit (IDR_BITS * l) idn AND IDR_MASK)) idn })"

definition idr_find :: "idr_mem \<Rightarrow> int \<Rightarrow> nat option" where
  "idr_find st id0 =
     (let idn = id0 AND MAX_ID_MASK in
      if idn \<ge> push_bit (i_layers st * IDR_BITS) 1 then Some 0
      else idr_find_walk st (i_layers st) (i_top st) idn)"

text \<open>\<open>idr_replace\<close> ends with the error code of an \<open>ERR_PTR\<close>, or the old pointer.\<close>

fun idr_replace_walk :: "idr_mem \<Rightarrow> nat \<Rightarrow> nat \<Rightarrow> int \<Rightarrow> nat option" where
  "idr_replace_walk st 0 p idn = Some p"
| "idr_replace_walk st (Suc l) p idn =
     (if p = 0 then Some p
      else do { ly \<leftarrow> i_heap st p;
                idr_replace_walk st l (l_ary ly ! nat (drop_bit (IDR_BITS * Suc l) idn AND IDR_MASK)) idn })"

definition idr_replace :: "idr_mem \<Rightarrow> nat \<Rightarrow> int \<Rightarrow> ((int + nat) \<times> idr_mem) option" where
  "idr_replace st ptr id0 =
     (let idn = id0 AND MAX_ID_MASK in
      if idn \<ge> push_bit (i_layers st * IDR_BITS) 1 then Some (Inl (- IDR_EINVAL), st)
      else do { p \<leftarrow> idr_replace_walk st (i_layers st - 1) (i_top st) idn;
                let n = nat (idn AND IDR_MASK);
                if p = 0 then Some (Inl (- ENOENT), st)
                else do { ly \<leftarrow> i_heap st p;
                          if \<not> bit (l_bitmap ly) n then Some (Inl (- ENOENT), st)
                          else Some (Inr (l_ary ly ! n),
                                     st\<lparr>i_heap := (i_heap st)(p \<mapsto> ly\<lparr>l_ary := (l_ary ly)[n := ptr]\<rparr>)\<rparr>) } })"

text \<open>The client in the Emulex driver: \<open>lpfc_get_instance\<close> numbers the adapters.\<close>

definition lpfc_get_instance :: "(idr_mem \<Rightarrow> nat) \<Rightarrow> idr_mem \<Rightarrow> (int \<times> idr_mem) option" where
  "lpfc_get_instance pick st =
     do { (ok, st1) \<leftarrow> idr_pre_get pick st;
          if ok = 0 then Some (- 1, st1)
          else do { (rv, instance_nr, st2) \<leftarrow> idr_get_new st1 0;
                    if rv \<noteq> 0 then Some (- 1, st2)
                    else Some (case instance_nr of None \<Rightarrow> 0 | Some i \<Rightarrow> i, st2) } }"

end
