(* ===== verification/Idr_Tree.thy ===== *)
theory Idr_Tree
  imports Idr
begin

section \<open>Digits and bits\<close>

lemma and63: "x AND (63::int) = x mod 64"
  using take_bit_eq_mask [of 6 x] by (simp add: take_bit_eq_mod mask_eq_exp_minus_1)

lemma pow64: "(2::'a::linordered_semidom) ^ (6 * l) = 64 ^ l"
  by (simp add: power_mult)

definition dig :: "nat \<Rightarrow> nat \<Rightarrow> nat" where
  "dig r l = r div 64 ^ l mod 64"

lemma dig_less [simp]: "dig r l < 64"
  by (simp add: dig_def)

lemma div_Suc64: "(r::nat) div 64 ^ Suc l = r div 64 ^ l div 64"
  by (simp only: power_Suc2 div_mult2_eq)

lemma div_digit: "64 * (r div 64 ^ Suc l) + dig r l = r div 64 ^ l"
  by (simp only: div_Suc64 dig_def) simp

lemma digit_int: "nat (drop_bit (6 * l) (int r) AND 63) = dig r l"
proof -
  have "drop_bit (6 * l) (int r) AND 63 = int (r div 64 ^ l mod 64)"
    by (simp add: and63 drop_bit_eq_div pow64 zdiv_int zmod_int)
  then show ?thesis by (simp add: dig_def)
qed

lemma scanbit_spec:
  assumes "scanbit w mx = m"
  shows "(\<forall>i<64. \<not> bit w i) \<and> m = mx \<or> m < 64 \<and> bit w m \<and> (\<forall>i<m. \<not> bit w i)"
proof (cases "List.find (bit w) [0..<64]")
  case None
  then have "scanbit w mx = mx" "\<forall>i<64. \<not> bit w i"
    by (simp_all add: scanbit_def) (auto simp: find_None_iff)
  then show ?thesis using assms by auto
next
  case (Some i)
  then have "scanbit w mx = i" "i < 64 \<and> bit w i \<and> (\<forall>j<i. \<not> bit w j)"
    by (simp_all add: scanbit_def) (auto simp: find_Some_iff)
  then show ?thesis using assms by auto
qed

lemma find_next_bit_spec:
  assumes "find_next_bit (NOT w) 64 n = m" "n < 64"
  shows "n \<le> m \<and> m \<le> 64 \<and> (\<forall>i. n \<le> i \<and> i < m \<longrightarrow> bit w i) \<and> (m < 64 \<longrightarrow> \<not> bit w m)"
proof -
  have b: "bit (drop_bit n (NOT w)) i \<longleftrightarrow> i + n < 64 \<and> \<not> bit w (i + n)" for i
    by (auto simp: bit_drop_bit_eq bit_not_iff_eq add.commute)
  define s where "s = scanbit (drop_bit n (NOT w)) (64 - n)"
  have m: "m = n + s" using assms by (simp add: find_next_bit_def s_def)
  have "(\<forall>i<64. \<not> bit (drop_bit n (NOT w)) i) \<and> s = 64 - n \<or>
        s < 64 \<and> bit (drop_bit n (NOT w)) s \<and> (\<forall>i. i < s \<longrightarrow> \<not> bit (drop_bit n (NOT w)) i)"
    using scanbit_spec [OF s_def [symmetric]] by blast
  moreover have "(\<forall>i. n \<le> i \<and> i < n + s \<longrightarrow> bit w i) \<longleftrightarrow> (\<forall>j. j < s \<longrightarrow> bit w (j + n))"
    by (metis add.commute add_less_cancel_left le_add1 le_add_diff_inverse2)
  ultimately show ?thesis unfolding b m using assms(2) by (auto simp: add.commute)
qed

lemma word64_full: "(w::u64) = - 1 \<longleftrightarrow> (\<forall>i<64. bit w i)"
  by (auto intro!: bit_word_eqI simp: bit_minus_1_iff)

lemma word64_zero: "(w::u64) = 0 \<longleftrightarrow> (\<forall>i<64. \<not> bit w i)"
  by (auto intro!: bit_word_eqI)

lemma xor_digit:
  "(x::int) XOR (x mod 64) XOR int m = x - x mod 64 + int m" if "m < 64"
proof -
  have x: "x = push_bit 6 (x div 64) + x mod 64"
    by (simp add: push_bit_eq_mult)
  have "x XOR take_bit 6 x = push_bit 6 (drop_bit 6 x)"
    by (rule bit_eqI) (auto simp: bit_simps)
  then have 1: "x XOR (x mod 64) = push_bit 6 (x div 64)"
    by (simp add: take_bit_eq_mod drop_bit_eq_div)
  have 2: "push_bit 6 (x div 64) AND int m = 0"
  proof (rule bit_eqI)
    fix n
    have "take_bit 6 (int m) = int m" using that by (simp add: take_bit_eq_mod)
    then have "bit (int m) n \<Longrightarrow> n < 6" by (metis bit_take_bit_iff)
    then show "bit (push_bit 6 (x div 64) AND int m) n = bit 0 n"
      by (auto simp: bit_and_iff bit_push_bit_iff)
  qed
  have "push_bit 6 (x div 64) XOR int m = push_bit 6 (x div 64) + int m"
    by (simp add: disjunctive_add_eq_xor 2)
  then have "(x XOR (x mod 64)) XOR int m = push_bit 6 (x div 64) + int m"
    by (simp only: 1)
  then show ?thesis using x by (simp add: xor.assoc)
qed

lemma to_int32_id: "0 \<le> x \<Longrightarrow> x < 2147483648 \<Longrightarrow> to_int32 x = x"
  unfolding to_int32_def by (rule signed_take_bit_int_eq_self) auto

section \<open>The tree in the heap\<close>

text \<open>
  \<open>nd l q\<close> is the layer at level \<open>l\<close> (the leaves are level 0) for the identifiers with quotient \<open>q\<close> by
  \<open>64 ^ (l + 1)\<close>, or 0. A layer above the leaves points to its children, counts them and marks the full ones. While an
  operation is on its way through the tree, the parents of the layers in \<open>D\<close> have no mark for them yet or any more, and
  the counts of the layers in \<open>C\<close> are one too high.
\<close>

type_synonym idr_nodes = "nat \<Rightarrow> nat \<Rightarrow> nat"
type_synonym idr_heap = "nat \<rightharpoonup> idr_layer"

definition full_at :: "idr_heap \<Rightarrow> nat \<Rightarrow> bool" where
  "full_at h p \<longleftrightarrow> (\<exists>ly. h p = Some ly \<and> l_bitmap ly = - 1)"

definition layer_ok :: "idr_nodes \<Rightarrow> (nat \<Rightarrow> nat \<Rightarrow> bool) \<Rightarrow> int \<Rightarrow> nat \<Rightarrow> nat \<Rightarrow> idr_layer \<Rightarrow> bool" where
  "layer_ok nd mk ex l q ly \<longleftrightarrow> length (l_ary ly) = 64 \<and>
     (case l of
        0 \<Rightarrow> l_count ly = int (card {i. i < 64 \<and> bit (l_bitmap ly) i}) + ex \<and>
            (\<forall>i<64. \<not> bit (l_bitmap ly) i \<longrightarrow> l_ary ly ! i = 0)
      | Suc k \<Rightarrow> l_count ly = int (card {i. i < 64 \<and> l_ary ly ! i \<noteq> 0}) + ex \<and>
            (\<forall>i<64. l_ary ly ! i = nd k (64 * q + i) \<and> bit (l_bitmap ly) i = mk k (64 * q + i)))"

definition marked :: "idr_nodes \<Rightarrow> (nat \<times> nat) set \<Rightarrow> idr_heap \<Rightarrow> nat \<Rightarrow> nat \<Rightarrow> bool" where
  "marked nd D h k j \<longleftrightarrow> (k, j) \<notin> D \<and> full_at h (nd k j)"

definition tree_ok :: "idr_nodes \<Rightarrow> (nat \<times> nat) set \<Rightarrow> (nat \<times> nat) set \<Rightarrow> nat \<Rightarrow> nat \<Rightarrow> idr_heap \<Rightarrow> bool" where
  "tree_ok nd D C t L h \<longleftrightarrow> L \<le> 5 \<and> (t = 0 \<longleftrightarrow> L = 0) \<and> (0 < L \<longrightarrow> nd (L - 1) 0 = t) \<and> h 0 = None \<and>
     (\<forall>l q. nd l q \<noteq> 0 \<longrightarrow> l < L \<and> (Suc l < L \<longrightarrow> nd (Suc l) (q div 64) \<noteq> 0) \<and> (\<not> Suc l < L \<longrightarrow> q = 0)) \<and>
     (\<forall>l q. nd l q \<noteq> 0 \<longrightarrow> (\<exists>ly. h (nd l q) = Some ly \<and> layer_ok nd (marked nd D h) (of_bool ((l, q) \<in> C)) l q ly)) \<and>
     (\<forall>l q l' q'. nd l q = nd l' q' \<longrightarrow> nd l q \<noteq> 0 \<longrightarrow> l = l' \<and> q = q')"

text \<open>What the tree stores.\<close>

definition idr_map :: "idr_nodes \<Rightarrow> idr_heap \<Rightarrow> nat \<rightharpoonup> nat" where
  "idr_map nd h r =
     (case h (nd 0 (r div 64)) of
        None \<Rightarrow> None
      | Some ly \<Rightarrow> if bit (l_bitmap ly) (r mod 64) then Some (l_ary ly ! (r mod 64)) else None)"

lemma tree_okI:
  assumes "L \<le> 5" "t = 0 \<longleftrightarrow> L = 0" "0 < L \<Longrightarrow> nd (L - 1) 0 = t" "h 0 = None"
    "\<And>l q. nd l q \<noteq> 0 \<Longrightarrow> l < L" "\<And>l q. nd l q \<noteq> 0 \<Longrightarrow> Suc l < L \<Longrightarrow> nd (Suc l) (q div 64) \<noteq> 0"
    "\<And>l q. nd l q \<noteq> 0 \<Longrightarrow> \<not> Suc l < L \<Longrightarrow> q = 0"
    "\<And>l q. nd l q \<noteq> 0 \<Longrightarrow> \<exists>ly. h (nd l q) = Some ly \<and> layer_ok nd (marked nd D h) (of_bool ((l, q) \<in> C)) l q ly"
    "\<And>l q l' q'. nd l q = nd l' q' \<Longrightarrow> nd l q \<noteq> 0 \<Longrightarrow> l = l' \<and> q = q'"
  shows "tree_ok nd D C t L h"
  unfolding tree_ok_def
  by (intro conjI allI impI) (rule assms assms(9) [THEN conjunct1] assms(9) [THEN conjunct2]; assumption)+

lemma tree_ok_size: "tree_ok nd D C t L h \<Longrightarrow> L \<le> 5" and
  tree_ok_root: "tree_ok nd D C t L h \<Longrightarrow> t = 0 \<longleftrightarrow> L = 0"
    "tree_ok nd D C t L h \<Longrightarrow> 0 < L \<Longrightarrow> nd (L - 1) 0 = t" and
  tree_ok_null: "tree_ok nd D C t L h \<Longrightarrow> h 0 = None"
  unfolding tree_ok_def by blast+

lemma tree_ok_up:
  assumes "tree_ok nd D C t L h" "nd l q \<noteq> 0"
  shows "l < L" "Suc l < L \<Longrightarrow> nd (Suc l) (q div 64) \<noteq> 0" "\<not> Suc l < L \<Longrightarrow> q = 0"
proof -
  have "l < L \<and> (Suc l < L \<longrightarrow> nd (Suc l) (q div 64) \<noteq> 0) \<and> (\<not> Suc l < L \<longrightarrow> q = 0)"
    using assms unfolding tree_ok_def by blast
  then show "l < L" "Suc l < L \<Longrightarrow> nd (Suc l) (q div 64) \<noteq> 0" "\<not> Suc l < L \<Longrightarrow> q = 0" by simp_all
qed

lemma tree_ok_inj:
  assumes "tree_ok nd D C t L h" "nd l q = nd l' q'" "nd l q \<noteq> 0"
  shows "l = l' \<and> q = q'"
proof -
  have "\<forall>l q l' q'. nd l q = nd l' q' \<longrightarrow> nd l q \<noteq> 0 \<longrightarrow> l = l' \<and> q = q'"
    using assms(1) unfolding tree_ok_def by (elim conjE) assumption
  with assms(2-) show ?thesis by blast
qed

lemma tree_ok_layer:
  assumes "tree_ok nd D C t L h" "nd l q \<noteq> 0"
  obtains ly where "h (nd l q) = Some ly" "layer_ok nd (marked nd D h) (of_bool ((l, q) \<in> C)) l q ly"
proof -
  have "\<forall>l q. nd l q \<noteq> 0 \<longrightarrow> (\<exists>ly. h (nd l q) = Some ly \<and> layer_ok nd (marked nd D h) (of_bool ((l, q) \<in> C)) l q ly)"
    using assms(1) unfolding tree_ok_def by (elim conjE) assumption
  with assms(2) that show ?thesis by blast
qed

lemma not_full_null: "tree_ok nd D C t L h \<Longrightarrow> \<not> full_at h 0"
  by (simp add: full_at_def tree_ok_null)

lemma tree_ok_lay:
  "tree_ok nd D C t L h \<Longrightarrow> nd l q \<noteq> 0 \<Longrightarrow> h (nd l q) = Some ly \<Longrightarrow>
   layer_ok nd (marked nd D h) (of_bool ((l, q) \<in> C)) l q ly"
  by (erule (1) tree_ok_layer) simp

lemma layer_ok_leaf:
  "layer_ok nd mk ex 0 q ly \<longleftrightarrow> length (l_ary ly) = 64 \<and>
     l_count ly = int (card {i. i < 64 \<and> bit (l_bitmap ly) i}) + ex \<and>
     (\<forall>i<64. \<not> bit (l_bitmap ly) i \<longrightarrow> l_ary ly ! i = 0)"
  by (simp add: layer_ok_def)

lemma layer_ok_inner:
  "layer_ok nd mk ex (Suc k) q ly \<longleftrightarrow> length (l_ary ly) = 64 \<and>
     l_count ly = int (card {i. i < 64 \<and> l_ary ly ! i \<noteq> 0}) + ex \<and>
     (\<forall>i<64. l_ary ly ! i = nd k (64 * q + i) \<and> bit (l_bitmap ly) i = mk k (64 * q + i))"
  by (simp add: layer_ok_def)

lemma layer_ok_cong:
  assumes "layer_ok nd mk ex l q ly"
    and "\<And>k i. l = Suc k \<Longrightarrow> i < 64 \<Longrightarrow> nd' k (64 * q + i) = nd k (64 * q + i) \<and> mk' k (64 * q + i) = mk k (64 * q + i)"
  shows "layer_ok nd' mk' ex l q ly"
  using assms by (cases l) (auto simp: layer_ok_leaf layer_ok_inner)

text \<open>Replacing one layer, the shape of the tree unchanged.\<close>

lemma tree_same_shape:
  assumes T: "tree_ok nd D C t L h" and "h' 0 = None"
    and "\<And>l q. nd l q \<noteq> 0 \<Longrightarrow>
           \<exists>ly. h' (nd l q) = Some ly \<and> layer_ok nd (marked nd D' h') (of_bool ((l, q) \<in> C')) l q ly"
  shows "tree_ok nd D' C' t L h'"
  by (rule tree_okI)
     (use assms(2,3) tree_ok_size [OF T] tree_ok_root [OF T] tree_ok_up [OF T] tree_ok_inj [OF T] in blast)+

lemma tree_upd:
  assumes T: "tree_ok nd D C t L h" and p: "nd l0 q0 \<noteq> 0"
    and new: "layer_ok nd (marked nd D' (h(nd l0 q0 \<mapsto> ly'))) (of_bool ((l0, q0) \<in> C')) l0 q0 ly'"
    and mk: "\<And>k j. Suc k \<noteq> l0 \<or> j div 64 \<noteq> q0 \<Longrightarrow> nd (Suc k) (j div 64) \<noteq> 0 \<Longrightarrow>
               marked nd D' (h(nd l0 q0 \<mapsto> ly')) k j = marked nd D h k j"
    and C: "\<And>l q. (l, q) \<noteq> (l0, q0) \<Longrightarrow> (l, q) \<in> C' \<longleftrightarrow> (l, q) \<in> C"
  shows "tree_ok nd D' C' t L (h(nd l0 q0 \<mapsto> ly'))"
proof -
  let ?h = "h(nd l0 q0 \<mapsto> ly')"
  have "\<exists>ly. ?h (nd l q) = Some ly \<and> layer_ok nd (marked nd D' ?h) (of_bool ((l, q) \<in> C')) l q ly"
    if n: "nd l q \<noteq> 0" for l q
  proof (cases "(l, q) = (l0, q0)")
    case True then show ?thesis using new by auto
  next
    case False
    then have "nd l q \<noteq> nd l0 q0" using tree_ok_inj [OF T] n by blast
    moreover obtain ly where "h (nd l q) = Some ly"
      and ok: "layer_ok nd (marked nd D h) (of_bool ((l, q) \<in> C)) l q ly"
      using tree_ok_layer [OF T n] by blast
    moreover have "layer_ok nd (marked nd D' ?h) (of_bool ((l, q) \<in> C)) l q ly"
      by (rule layer_ok_cong [OF ok]) (use False n in \<open>auto intro!: mk\<close>)
    ultimately show ?thesis using C [OF False] by auto
  qed
  then show ?thesis by (rule tree_same_shape [OF T, rotated]) (use tree_ok_null [OF T] p in auto)
qed

lemma full_at_upd [simp]: "full_at (h(p \<mapsto> ly)) r \<longleftrightarrow> (if r = p then l_bitmap ly = - 1 else full_at h r)"
  by (simp add: full_at_def)

lemma full_at_other:
  assumes "tree_ok nd D C t L h" "nd l q \<noteq> 0" "(k, j) \<noteq> (l, q)"
  shows "full_at (h(nd l q \<mapsto> ly)) (nd k j) = full_at h (nd k j)"
proof -
  have "nd k j \<noteq> nd l q" using tree_ok_inj [OF assms(1)] assms(2,3) by metis
  then show ?thesis by simp
qed

lemma bit_full: "l_bitmap ly = - 1 \<Longrightarrow> i < 64 \<Longrightarrow> bit (l_bitmap ly) i"
  by (simp add: bit_minus_1_iff)

lemma card_set_bit:
  fixes w :: u64
  assumes "m < 64" "\<not> bit w m"
  shows "card {i. i < 64 \<and> bit (set_bit m w) i} = Suc (card {i. i < 64 \<and> bit w i})"
proof -
  have "{i. i < 64 \<and> bit (set_bit m w) i} = insert m {i. i < 64 \<and> bit w i}"
    using assms(1) by (auto simp: bit_set_bit_iff)
  then show ?thesis using assms(2) by simp
qed

lemma card_unset_bit:
  fixes w :: u64
  assumes "m < 64" "bit w m"
  shows "card {i. i < 64 \<and> bit w i} = Suc (card {i. i < 64 \<and> bit (unset_bit m w) i})"
proof -
  have "{i. i < 64 \<and> bit w i} = insert m {i. i < 64 \<and> bit (unset_bit m w) i}"
    using assms by (auto simp: bit_unset_bit_iff)
  then show ?thesis by (simp add: bit_unset_bit_iff)
qed

text \<open>Planting a pointer in a leaf, and marking a full layer in its parent.\<close>

lemma tree_plant:
  assumes T: "tree_ok nd {} {} t L h" and p: "nd 0 q \<noteq> 0" and ly: "h (nd 0 q) = Some ly"
    and m: "m < 64" "\<not> bit (l_bitmap ly) m"
  shows "tree_ok nd {(0, q)} {} t L (h(nd 0 q \<mapsto> ly\<lparr>l_ary := (l_ary ly)[m := ptr],
           l_bitmap := set_bit m (l_bitmap ly), l_count := l_count ly + 1\<rparr>))"
proof (rule tree_upd [OF T p])
  have ok: "layer_ok nd (marked nd {} h) 0 0 q ly"
    using tree_ok_lay [OF T p ly] by simp
  then show "layer_ok nd (marked nd {(0, q)} (h(nd 0 q \<mapsto> ly\<lparr>l_ary := (l_ary ly)[m := ptr],
           l_bitmap := set_bit m (l_bitmap ly), l_count := l_count ly + 1\<rparr>))) (of_bool ((0, q) \<in> {})) 0 q
       (ly\<lparr>l_ary := (l_ary ly)[m := ptr], l_bitmap := set_bit m (l_bitmap ly), l_count := l_count ly + 1\<rparr>)"
    using m by (simp add: layer_ok_leaf card_set_bit [OF m]) (auto simp: nth_list_update bit_set_bit_iff)
next
  fix k j
  have "\<not> full_at h (nd 0 q)" using m ly bit_full by (auto simp: full_at_def)
  then show "marked nd {(0, q)} (h(nd 0 q \<mapsto> ly\<lparr>l_ary := (l_ary ly)[m := ptr],
           l_bitmap := set_bit m (l_bitmap ly), l_count := l_count ly + 1\<rparr>)) k j = marked nd {} h k j"
    using full_at_other [OF T p] by (cases "(k, j) = (0, q)") (simp_all add: marked_def)
qed simp

lemma tree_mark:
  assumes T: "tree_ok nd {(l, q)} {} t L h" and p: "nd (Suc l) (q div 64) \<noteq> 0"
    and ly: "h (nd (Suc l) (q div 64)) = Some ly" and full: "full_at h (nd l q)"
  shows "tree_ok nd {(Suc l, q div 64)} {} t L
           (h(nd (Suc l) (q div 64) \<mapsto> ly\<lparr>l_bitmap := set_bit (q mod 64) (l_bitmap ly)\<rparr>))"
    (is "tree_ok _ _ _ _ _ (h(?p \<mapsto> ?ly))")
proof (rule tree_upd [OF T p])
  have ok: "layer_ok nd (marked nd {(l, q)} h) 0 (Suc l) (q div 64) ly"
    using tree_ok_lay [OF T p ly] by simp
  have q: "64 * (q div 64) + i = q \<longleftrightarrow> i = q mod 64" for i by presburger
  have fo: "full_at (h(?p \<mapsto> ?ly)) (nd l j) = full_at h (nd l j)" for j
    by (rule full_at_other [OF T p]) simp
  show "layer_ok nd (marked nd {(Suc l, q div 64)} (h(?p \<mapsto> ?ly))) (of_bool ((Suc l, q div 64) \<in> {})) (Suc l)
          (q div 64) ?ly"
    unfolding layer_ok_inner
  proof (intro conjI allI impI)
    fix i :: nat assume i: "i < 64"
    then have "bit (l_bitmap ly) i = marked nd {(l, q)} h l (64 * (q div 64) + i)"
      using ok unfolding layer_ok_inner by blast
    then show "bit (l_bitmap ?ly) i = marked nd {(Suc l, q div 64)} (h(?p \<mapsto> ?ly)) l (64 * (q div 64) + i)"
      using full i unfolding marked_def fo by (cases "i = q mod 64") (simp_all add: bit_set_bit_iff q)
  qed (use ok in \<open>simp_all add: layer_ok_inner\<close>)
  fix k j assume o: "Suc k \<noteq> Suc l \<or> j div 64 \<noteq> q div 64"
  have "bit (l_bitmap ly) (q mod 64) = marked nd {(l, q)} h l (64 * (q div 64) + q mod 64)"
    using ok unfolding layer_ok_inner by (meson mod_less_divisor zero_less_numeral)
  then have "\<not> bit (l_bitmap ly) (q mod 64)" by (simp add: marked_def)
  then have "\<not> full_at h ?p" using ly bit_full by (auto simp: full_at_def)
  then show "marked nd {(Suc l, q div 64)} (h(?p \<mapsto> ?ly)) k j = marked nd {(l, q)} h k j"
    using full_at_other [OF T p, of k j] o by (cases "(k, j) = (Suc l, q div 64)") (auto simp: marked_def)
qed simp

text \<open>A layer that is not full, or has no parent, needs no mark.\<close>

lemma tree_unmarked:
  assumes T: "tree_ok nd D C t L h" and D: "\<And>l q. (l, q) \<in> D \<union> D' \<Longrightarrow> \<not> full_at h (nd l q) \<or> L \<le> Suc l"
  shows "tree_ok nd D' C t L h"
proof (rule tree_same_shape [OF T])
  show "h 0 = None" by (rule tree_ok_null [OF T])
  fix l q assume n: "nd l q \<noteq> 0"
  then obtain ly where "h (nd l q) = Some ly" and ok: "layer_ok nd (marked nd D h) (of_bool ((l, q) \<in> C)) l q ly"
    using tree_ok_layer [OF T] by blast
  moreover have "layer_ok nd (marked nd D' h) (of_bool ((l, q) \<in> C)) l q ly"
    by (rule layer_ok_cong [OF ok]) (use tree_ok_up(1) [OF T n] D in \<open>fastforce simp: marked_def\<close>)
  ultimately show "\<exists>ly. h (nd l q) = Some ly \<and> layer_ok nd (marked nd D' h) (of_bool ((l, q) \<in> C)) l q ly"
    by blast
qed

text \<open>Removing: the marks on the way down, the slot of the leaf, and the counts.\<close>

lemma not_full_unset: "n < 64 \<Longrightarrow> unset_bit n (w::u64) \<noteq> - 1"
  by (auto simp: word64_full bit_unset_bit_iff)

lemma tree_unmark:
  assumes T: "tree_ok nd {(Suc l, q)} {} t L h" and p: "nd (Suc l) q \<noteq> 0" and ly: "h (nd (Suc l) q) = Some ly"
    and n: "n < 64"
  shows "tree_ok nd {(l, 64 * q + n)} {} t L (h(nd (Suc l) q \<mapsto> ly\<lparr>l_bitmap := unset_bit n (l_bitmap ly)\<rparr>))"
    (is "tree_ok _ _ _ _ _ (h(?p \<mapsto> ?ly))")
proof (rule tree_upd [OF T p])
  have ok: "layer_ok nd (marked nd {(Suc l, q)} h) 0 (Suc l) q ly"
    using tree_ok_lay [OF T p ly] by simp
  have fo: "full_at (h(?p \<mapsto> ?ly)) (nd l j) = full_at h (nd l j)" for j
    by (rule full_at_other [OF T p]) simp
  show "layer_ok nd (marked nd {(l, 64 * q + n)} (h(?p \<mapsto> ?ly))) (of_bool ((Suc l, q) \<in> {})) (Suc l) q ?ly"
    using ok unfolding layer_ok_inner marked_def fo by (simp add: bit_unset_bit_iff) blast
  fix k j assume o: "Suc k \<noteq> Suc l \<or> j div 64 \<noteq> q"
  have "\<not> full_at (h(?p \<mapsto> ?ly)) ?p"
    using n not_full_unset [of n] by simp
  moreover have "(k, j) \<noteq> (l, 64 * q + n)" using o n by auto
  ultimately show "marked nd {(l, 64 * q + n)} (h(?p \<mapsto> ?ly)) k j = marked nd {(Suc l, q)} h k j"
    using full_at_other [OF T p, of k j ?ly]
    by (cases "(k, j) = (Suc l, q)") (simp_all add: marked_def del: full_at_upd)
qed simp

lemma tree_clear:
  assumes T: "tree_ok nd {(0, q)} {} t L h" and p: "nd 0 q \<noteq> 0" and ly: "h (nd 0 q) = Some ly"
    and n: "n < 64" "bit (l_bitmap ly) n"
  shows "tree_ok nd {} {(0, q)} t L
           (h(nd 0 q \<mapsto> ly\<lparr>l_bitmap := unset_bit n (l_bitmap ly), l_ary := (l_ary ly)[n := 0]\<rparr>))"
    (is "tree_ok _ _ _ _ _ (h(?p \<mapsto> ?ly))")
proof (rule tree_upd [OF T p])
  have ok: "layer_ok nd (marked nd {(0, q)} h) 0 0 q ly"
    using tree_ok_lay [OF T p ly] by simp
  then show "layer_ok nd (marked nd {} (h(?p \<mapsto> ?ly))) (of_bool ((0, q) \<in> {(0, q)})) 0 q ?ly"
    using card_unset_bit [OF n] n
    by (simp add: layer_ok_leaf) (auto simp: nth_list_update bit_unset_bit_iff)
  fix k j
  have "\<not> full_at (h(?p \<mapsto> ?ly)) ?p"
    using n not_full_unset [of n] by simp
  then show "marked nd {} (h(?p \<mapsto> ?ly)) k j = marked nd {(0, q)} h k j"
    using full_at_other [OF T p, of k j ?ly]
    by (cases "(k, j) = (0, q)") (simp_all add: marked_def del: full_at_upd)
qed simp

lemma tree_count:
  assumes T: "tree_ok nd {} {(l, q)} t L h" and p: "nd l q \<noteq> 0" and ly: "h (nd l q) = Some ly"
  shows "tree_ok nd {} {} t L (h(nd l q \<mapsto> ly\<lparr>l_count := l_count ly - 1\<rparr>))" (is "tree_ok _ _ _ _ _ (h(?p \<mapsto> ?ly))")
proof (rule tree_upd [OF T p])
  have m: "marked nd {} (h(?p \<mapsto> ?ly)) k j = marked nd {} h k j" for k j
    using ly by (auto simp: marked_def) (auto simp: full_at_def)
  then show "marked nd {} (h(?p \<mapsto> ?ly)) k j = marked nd {} h k j" for k j .
  have "layer_ok nd (marked nd {} h) 1 l q ly" using tree_ok_lay [OF T p ly] by simp
  moreover have "marked nd {} (h(?p \<mapsto> ?ly)) = marked nd {} h" by (intro ext m)
  ultimately show "layer_ok nd (marked nd {} (h(?p \<mapsto> ?ly))) (of_bool ((l, q) \<in> {})) l q ?ly"
    by (cases l) (simp_all add: layer_ok_def del: fun_upd_apply)
qed simp

text \<open>A layer with count 0 is as the constructor left it.\<close>

lemma tree_empty_layer:
  assumes T: "tree_ok nd {} {} t L h" and p: "nd l q \<noteq> 0" and ly: "h (nd l q) = Some ly" and c: "l_count ly = 0"
  shows "ly = idr_cache_ctor"
proof -
  have ok: "layer_ok nd (marked nd {} h) 0 l q ly" using tree_ok_lay [OF T p ly] by simp
  have "(\<forall>i<64. l_ary ly ! i = 0) \<and> l_bitmap ly = 0"
  proof (cases l)
    case 0
    then show ?thesis using ok c by (auto simp: layer_ok_leaf word64_zero)
  next
    case (Suc k)
    then have "\<forall>i<64. l_ary ly ! i = 0" using ok c by (auto simp: layer_ok_inner)
    then show ?thesis using ok Suc not_full_null [OF T]
      by (auto simp: layer_ok_inner word64_zero marked_def)
  qed
  moreover have "length (l_ary ly) = 64" using ok by (simp add: layer_ok_def)
  ultimately show ?thesis using c
    by (cases ly) (auto simp: idr_cache_ctor_def intro: nth_equalityI)
qed

lemma tree_ok_children:
  assumes "tree_ok nd D C t L h" "nd (Suc k) q \<noteq> 0" "h (nd (Suc k) q) = Some ly" "i < 64"
  shows "nd k (64 * q + i) = l_ary ly ! i" "bit (l_bitmap ly) i = marked nd D h k (64 * q + i)"
  using tree_ok_lay [OF assms(1-3)] assms(4) by (simp_all add: layer_ok_inner)

lemma tree_orphan:
  assumes "tree_ok nd D C t L h" "Suc k < L" "nd (Suc k) q = 0" "i < 64"
  shows "nd k (64 * q + i) = 0"
  using tree_ok_up(2) [OF assms(1), of k "64 * q + i"] assms(2-) by auto

text \<open>Changes of shape: linking a new layer below another, and taking an empty one out.\<close>

definition put_node :: "idr_nodes \<Rightarrow> nat \<Rightarrow> nat \<Rightarrow> nat \<Rightarrow> idr_nodes" where
  "put_node nd l q a = nd(l := (nd l)(q := a))"

lemma put_node_apply: "put_node nd l q a k j = (if k = l \<and> j = q then a else nd k j)"
  by (simp add: put_node_def)

lemma put_node_inj:
  assumes T: "tree_ok nd D C t L h" and a: "a = 0 \<or> (\<forall>k j. nd k j \<noteq> a)"
    and e: "put_node nd x y a l q = put_node nd x y a l' q'" "put_node nd x y a l q \<noteq> 0"
  shows "l = l' \<and> q = q'"
proof (cases "(l, q) = (x, y) \<or> (l', q') = (x, y)")
  case True
  then show ?thesis using a e by (auto simp: put_node_apply split: if_splits)
next
  case False
  then have "nd l q = nd l' q'" "nd l q \<noteq> 0" using e unfolding put_node_apply by (auto split: if_splits)
  then show ?thesis by (rule tree_ok_inj [OF T])
qed

lemma tree_put:
  assumes T: "tree_ok nd D C t L h" and l: "Suc l < L" and a: "a = 0 \<or> (\<forall>k j. nd k j \<noteq> a)"
    and p: "nd (Suc l) (q div 64) \<noteq> 0" and z: "\<And>k i. l = Suc k \<Longrightarrow> i < 64 \<Longrightarrow> nd k (64 * q + i) = 0"
    and h: "h' 0 = None"
    and ok: "\<And>k j. put_node nd l q a k j \<noteq> 0 \<Longrightarrow> \<exists>ly. h' (put_node nd l q a k j) = Some ly \<and>
              layer_ok (put_node nd l q a) (marked (put_node nd l q a) D' h') (of_bool ((k, j) \<in> C')) k j ly"
  shows "tree_ok (put_node nd l q a) D' C' t L h'"
proof (rule tree_okI)
  show "put_node nd l q a (L - 1) 0 = t" if "0 < L"
    using tree_ok_root(2) [OF T] that l by (auto simp: put_node_apply)
  show "k < L" if "put_node nd l q a k j \<noteq> 0" for k j
    using that tree_ok_up(1) [OF T] l by (auto simp: put_node_apply split: if_splits)
  show "j = 0" if "put_node nd l q a k j \<noteq> 0" "\<not> Suc k < L" for k j
    using that tree_ok_up(3) [OF T] l by (auto simp: put_node_apply split: if_splits)
  show "put_node nd l q a (Suc k) (j div 64) \<noteq> 0" if n: "put_node nd l q a k j \<noteq> 0" "Suc k < L" for k j
  proof (cases "(k, j) = (l, q)")
    case True then show ?thesis using p by (simp add: put_node_apply)
  next
    case False
    then have "nd k j \<noteq> 0" using n(1) by (auto simp: put_node_apply)
    moreover have "nd k j = 0" if "Suc k = l" "j div 64 = q"
      using z [of k "j mod 64"] that by auto
    ultimately show ?thesis using tree_ok_up(2) [OF T _ n(2)] by (auto simp: put_node_apply)
  qed
qed (rule tree_ok_size [OF T] tree_ok_root(1) [OF T] h ok put_node_inj [OF T a]; assumption)+

lemma ctor_simps [simp]:
  "l_bitmap idr_cache_ctor = 0" "l_ary idr_cache_ctor = replicate 64 0" "l_count idr_cache_ctor = 0"
  by (simp_all add: idr_cache_ctor_def)

lemma layer_ok_ctor:
  "(\<And>k i. l = Suc k \<Longrightarrow> i < 64 \<Longrightarrow> nd k (64 * q + i) = 0 \<and> \<not> mk k (64 * q + i)) \<Longrightarrow> layer_ok nd mk 0 l q idr_cache_ctor"
  by (cases l) (auto simp: layer_ok_leaf layer_ok_inner)

lemma card_slot_put:
  assumes "length xs = 64" "i < 64" "xs ! i = (0::nat)" "a \<noteq> 0"
  shows "card {j. j < 64 \<and> xs[i := a] ! j \<noteq> 0} = Suc (card {j. j < 64 \<and> xs ! j \<noteq> 0})"
proof -
  have "{j. j < 64 \<and> xs[i := a] ! j \<noteq> 0} = insert i {j. j < 64 \<and> xs ! j \<noteq> 0}"
    using assms by (auto simp: nth_list_update split: if_splits)
  then show ?thesis using assms by simp
qed

lemma card_slot_clear:
  assumes "length xs = 64" "i < 64" "xs ! i \<noteq> (0::nat)"
  shows "card {j. j < 64 \<and> xs ! j \<noteq> 0} = Suc (card {j. j < 64 \<and> xs[i := 0] ! j \<noteq> 0})"
  using card_slot_put [of "xs[i := 0]" i "xs ! i"] assms by simp

lemma tree_link:
  assumes T: "tree_ok nd {} {} t L h" and p: "nd (Suc l) q \<noteq> 0" and ly: "h (nd (Suc l) q) = Some ly"
    and i: "i < 64" "nd l (64 * q + i) = 0" and a: "a \<noteq> 0" "\<And>k j. nd k j \<noteq> a" "h a = Some idr_cache_ctor"
  shows "tree_ok (put_node nd l (64 * q + i) a) {} {} t L
           (h(nd (Suc l) q \<mapsto> ly\<lparr>l_ary := (l_ary ly)[i := a], l_count := l_count ly + 1\<rparr>))"
    (is "tree_ok ?nd _ _ _ _ (h(?p \<mapsto> ?ly))")
proof (rule tree_put [OF T])
  have SL: "Suc l < L" using tree_ok_up(1) [OF T p] .
  have ok: "layer_ok nd (marked nd {} h) 0 (Suc l) q ly" using tree_ok_lay [OF T p ly] by simp
  have mk: "marked ?nd {} (h(?p \<mapsto> ?ly)) k j = marked nd {} h k j" for k j
    using a i ly tree_ok_null [OF T] by (auto simp: marked_def put_node_apply) (auto simp: full_at_def)
  then have mk': "marked ?nd {} (h(?p \<mapsto> ?ly)) = marked nd {} h" by blast
  show "\<exists>ly. (h(?p \<mapsto> ?ly)) (?nd k j) = Some ly \<and>
           layer_ok ?nd (marked ?nd {} (h(?p \<mapsto> ?ly))) (of_bool ((k, j) \<in> {})) k j ly"
    if n: "?nd k j \<noteq> 0" for k j
  proof -
    consider "(k, j) = (l, 64 * q + i)" | "(k, j) = (Suc l, q)" | "(k, j) \<noteq> (l, 64 * q + i)" "(k, j) \<noteq> (Suc l, q)"
      by blast
    then show ?thesis
    proof cases
      case 1
      have z: "nd k' (64 * j + i') = 0" if "k = Suc k'" "i' < 64" for k' i'
        using tree_orphan [OF T, of k' j i'] 1 SL i that by simp
      have "k = l" using 1 by simp
      then have "layer_ok ?nd (marked nd {} h) 0 k j idr_cache_ctor"
        using z not_full_null [OF T] by (intro layer_ok_ctor) (auto simp: put_node_apply marked_def)
      then show ?thesis using 1 a p unfolding mk' by (auto simp: put_node_apply)
    next
      case 2
      have "layer_ok ?nd (marked nd {} h) 0 k j ?ly"
        using ok 2 i a card_slot_put [of "l_ary ly" i a]
        by (simp add: layer_ok_inner put_node_apply nth_list_update)
      then show ?thesis using 2 unfolding mk' by (auto simp: put_node_apply)
    next
      case 3
      then have nd: "?nd k j = nd k j" by (auto simp: put_node_apply)
      then have n': "nd k j \<noteq> 0" "nd k j \<noteq> ?p" using n 3(2) tree_ok_inj [OF T, of k j "Suc l" q] by auto
      then obtain ly0 where l0: "h (nd k j) = Some ly0" and ok0: "layer_ok nd (marked nd {} h) 0 k j ly0"
        using tree_ok_layer [OF T n'(1)] by auto
      have "layer_ok ?nd (marked nd {} h) 0 k j ly0"
        by (rule layer_ok_cong [OF ok0]) (use 3 i in \<open>auto simp: put_node_apply\<close>)
      then show ?thesis using l0 n' unfolding mk' nd by simp
    qed
  qed
  show "nd k (64 * (64 * q + i) + i') = 0" if "l = Suc k" "i' < 64" for k i'
    using tree_orphan [OF T, of k "64 * q + i" i'] SL i that by simp
qed (use tree_ok_up(1) [OF T p] tree_ok_null [OF T] p i a in auto)

lemma tree_detach:
  assumes T: "tree_ok nd {} {} t L h" and l: "Suc l < L" and n: "nd l q \<noteq> 0" "h (nd l q) = Some idr_cache_ctor"
    and ly: "h (nd (Suc l) (q div 64)) = Some ly"
  shows "tree_ok (put_node nd l q 0) {} {(Suc l, q div 64)} t L
           (h(nd l q := x, nd (Suc l) (q div 64) \<mapsto> ly\<lparr>l_ary := (l_ary ly)[q mod 64 := 0]\<rparr>))"
    (is "tree_ok ?nd _ _ _ _ (h(_ := _, ?p \<mapsto> ?ly))")
proof (rule tree_put [OF T l])
  let ?h = "h(nd l q := x, ?p \<mapsto> ?ly)"
  have p: "?p \<noteq> 0" "?p \<noteq> nd l q" using tree_ok_up(2) [OF T n(1) l] tree_ok_inj [OF T, of l q "Suc l" "q div 64"] n by auto
  have ok: "layer_ok nd (marked nd {} h) 0 (Suc l) (q div 64) ly" using tree_ok_lay [OF T p(1) ly] by simp
  have h: "?h (nd k j) = h (nd k j)" if "nd k j \<noteq> 0" "(k, j) \<noteq> (l, q)" "(k, j) \<noteq> (Suc l, q div 64)" for k j
  proof -
    have "nd k j \<noteq> nd l q" "nd k j \<noteq> ?p"
      using tree_ok_inj [OF T _ that(1), of l q] tree_ok_inj [OF T _ that(1), of "Suc l" "q div 64"] that(2,3) by auto
    then show ?thesis by simp
  qed
  have mk: "marked ?nd {} ?h k j = marked nd {} h k j" for k j
  proof -
    consider "(k, j) = (l, q)" | "(k, j) = (Suc l, q div 64)" | "nd k j = 0" "(k, j) \<noteq> (l, q)"
      | "nd k j \<noteq> 0" "(k, j) \<noteq> (l, q)" "(k, j) \<noteq> (Suc l, q div 64)" by blast
    then show ?thesis
    proof cases
      case 1
      then show ?thesis using n p not_full_null [OF T] tree_ok_null [OF T]
        by (simp add: marked_def put_node_apply full_at_def)
    next
      case 4
      then show ?thesis using h [OF 4] by (auto simp: marked_def put_node_apply full_at_def simp del: fun_upd_apply)
    qed (use ly p n tree_ok_null [OF T] in \<open>auto simp: marked_def put_node_apply full_at_def\<close>)
  qed
  then have mk': "marked ?nd {} ?h = marked nd {} h" by blast
  show "\<exists>ly. ?h (?nd k j) = Some ly \<and>
           layer_ok ?nd (marked ?nd {} ?h) (of_bool ((k, j) \<in> {(Suc l, q div 64)})) k j ly"
    if m: "?nd k j \<noteq> 0" for k j
  proof (cases "(k, j) = (Suc l, q div 64)")
    case True
    have q: "64 * (q div 64) + i = q \<longleftrightarrow> i = q mod 64" for i by presburger
    have "l_ary ly ! (q mod 64) \<noteq> 0" using tree_ok_children(1) [OF T p(1) ly, of "q mod 64"] n by simp
    then have "layer_ok ?nd (marked nd {} h) 1 (Suc l) (q div 64) ?ly"
      using ok card_slot_clear [of "l_ary ly" "q mod 64"]
      by (simp add: layer_ok_inner put_node_apply nth_list_update q)
    then show ?thesis using True unfolding mk' by (auto simp: put_node_apply)
  next
    case False
    then have nd: "(k, j) \<noteq> (l, q)" "?nd k j = nd k j" "nd k j \<noteq> 0" using m by (auto simp: put_node_apply split: if_splits)
    obtain ly0 where l0: "h (nd k j) = Some ly0" and ok0: "layer_ok nd (marked nd {} h) 0 k j ly0"
      using tree_ok_layer [OF T nd(3)] by auto
    have "layer_ok ?nd (marked nd {} h) 0 k j ly0"
      by (rule layer_ok_cong [OF ok0]) (use False in \<open>auto simp: put_node_apply\<close>)
    then show ?thesis using l0 False h [OF nd(3,1) False] unfolding mk' nd by auto
  qed
  show "nd k (64 * q + i) = 0" if "l = Suc k" "i < 64" for k i
    using tree_ok_children(1) [OF T, of k q idr_cache_ctor i] that n by simp
qed (use tree_ok_up(2) [OF T n(1) l] tree_ok_null [OF T] n in auto)

text \<open>Growth at the top, and its reversal.\<close>

lemma tree_grow:
  assumes T: "tree_ok nd {} {} t L h" and L: "0 < L" "L < 5" and a: "a \<noteq> 0" "\<And>k j. nd k j \<noteq> a"
    and w: "w = (if full_at h t then set_bit 0 0 else 0)"
  shows "tree_ok (put_node nd L 0 a) {} {} a (Suc L)
           (h(a \<mapsto> \<lparr>l_bitmap = w, l_ary = (replicate 64 0)[0 := t], l_count = 1\<rparr>))" (is "tree_ok ?nd _ _ _ _ (h(a \<mapsto> ?ly))")
proof (rule tree_okI)
  have root: "nd (L - 1) 0 = t" "t \<noteq> 0" using tree_ok_root [OF T] L by auto
  have top: "nd (L - 1) i = (if i = 0 then t else 0)" for i
    using tree_ok_up(3) [OF T, of "L - 1" i] L root(1) by auto
  have mk: "marked ?nd {} (h(a \<mapsto> ?ly)) k j = marked nd {} h k j" if "k < L" for k j
    using a that by (simp add: marked_def put_node_apply)
  show "\<exists>ly. (h(a \<mapsto> ?ly)) (?nd k j) = Some ly \<and>
           layer_ok ?nd (marked ?nd {} (h(a \<mapsto> ?ly))) (of_bool ((k, j) \<in> {})) k j ly" if n: "?nd k j \<noteq> 0" for k j
  proof (cases "(k, j) = (L, 0)")
    case True
    obtain k' where k': "L = Suc k'" using L(1) by (cases L) auto
    have "{i. i < 64 \<and> (replicate 64 0)[0 := t] ! i \<noteq> 0} = {0}"
      using root(2) by (auto simp: nth_list_update split: if_splits)
    moreover have "bit w i = marked nd {} h k' i" if "i < 64" for i
      using that top [of i] k' root not_full_null [OF T] by (auto simp: w marked_def bit_set_bit_iff bit_1_iff)
    ultimately have "layer_ok ?nd (marked ?nd {} (h(a \<mapsto> ?ly))) 0 L 0 ?ly"
      using top k' mk by (simp add: layer_ok_inner put_node_apply nth_list_update)
    then show ?thesis using True by (simp add: put_node_apply)
  next
    case False
    then have nd: "?nd k j = nd k j" "nd k j \<noteq> 0" using n by (auto simp: put_node_apply split: if_splits)
    have k: "k < L" by (rule tree_ok_up(1) [OF T nd(2)])
    obtain ly0 where l0: "h (nd k j) = Some ly0" and ok0: "layer_ok nd (marked nd {} h) 0 k j ly0"
      using tree_ok_layer [OF T nd(2)] by auto
    have "layer_ok ?nd (marked ?nd {} (h(a \<mapsto> ?ly))) 0 k j ly0"
      by (rule layer_ok_cong [OF ok0]) (use k mk in \<open>auto simp: put_node_apply\<close>)
    then show ?thesis using l0 a(2) unfolding nd by simp
  qed
  show "?nd (Suc k) (j div 64) \<noteq> 0" if n: "?nd k j \<noteq> 0" "Suc k < Suc L" for k j
  proof -
    have "nd k j \<noteq> 0" using n by (auto simp: put_node_apply split: if_splits)
    then show ?thesis using tree_ok_up(2,3) [OF T, of k j] n(2) a(1) by (cases "Suc k = L") (auto simp: put_node_apply)
  qed
  show "k < Suc L" "\<not> Suc k < Suc L \<Longrightarrow> j = 0" if "?nd k j \<noteq> 0" for k j
    using that tree_ok_up(1) [OF T, of k j] by (auto simp: put_node_apply split: if_splits)
  show "(a = 0) = (Suc L = 0)" using a(1) by simp
  show "(h(a \<mapsto> ?ly)) 0 = None" using a(1) tree_ok_null [OF T] by simp
  show "?nd (Suc L - 1) 0 = a" by (simp add: put_node_apply)
  show "k = k' \<and> j = j'" if "?nd k j = ?nd k' j'" "?nd k j \<noteq> 0" for k j k' j'
    using put_node_inj [OF T _ that] a(2) by blast
qed (use L in simp)

lemma tree_only_root:
  assumes T: "tree_ok nd D C t L h" and c: "\<And>j. Suc l < L \<Longrightarrow> nd l j = 0" and n: "nd k j \<noteq> 0"
  shows "l \<le> k \<or> L \<le> Suc l"
  using n
proof (induction "l - k" arbitrary: k j)
  case (Suc d)
  then show ?case
  proof (cases "Suc k < L")
    case True
    then have "nd (Suc k) (j div 64) \<noteq> 0" using tree_ok_up(2) [OF T Suc.prems] by simp
    moreover have "d = l - Suc k" using Suc.hyps(2) by simp
    ultimately have "l \<le> Suc k \<or> L \<le> Suc l" using Suc.hyps(1) by blast
    then show ?thesis using Suc.hyps(2) c [of "j div 64"] \<open>nd (Suc k) (j div 64) \<noteq> 0\<close>
      by (cases "l = Suc k"; cases "Suc l < L") auto
  qed auto
qed auto

text \<open>An empty top layer serves at any level.\<close>

definition lone_root :: "nat \<Rightarrow> nat \<Rightarrow> idr_nodes" where
  "lone_root l t = put_node (\<lambda>_ _. 0) l 0 t"

lemma tree_lone:
  assumes h: "h t = Some idr_cache_ctor" "h 0 = None" and L: "0 < L" "L \<le> 5" and t: "t \<noteq> 0"
  shows "tree_ok (lone_root (L - 1) t) {} {} t L h"
proof (rule tree_okI)
  have "layer_ok (lone_root (L - 1) t) (marked (lone_root (L - 1) t) {} h) 0 (L - 1) 0 idr_cache_ctor"
    by (rule layer_ok_ctor) (use L h in \<open>auto simp: lone_root_def put_node_apply marked_def full_at_def\<close>)
  then show "\<exists>ly. h (lone_root (L - 1) t l q) = Some ly \<and>
      layer_ok (lone_root (L - 1) t) (marked (lone_root (L - 1) t) {} h) (of_bool ((l, q) \<in> {})) l q ly"
    if "lone_root (L - 1) t l q \<noteq> 0" for l q
    using that h by (auto simp: lone_root_def put_node_apply split: if_splits)
qed (use L t h in \<open>auto simp: lone_root_def put_node_apply split: if_splits\<close>)

lemma tree_empty_top:
  assumes T: "tree_ok nd {} {} t L h" and t: "t \<noteq> 0" and c: "h t = Some idr_cache_ctor"
  shows "nd = lone_root (L - 1) t"
proof -
  have L: "0 < L" "nd (L - 1) 0 = t" using tree_ok_root [OF T] t by auto
  have z: "nd l j = 0" if "L - 1 = Suc l" for l j
  proof (rule ccontr)
    assume n: "nd l j \<noteq> 0"
    then have "nd (L - 1) (j div 64) \<noteq> 0" using tree_ok_up(2) [OF T n] that by simp
    then have "j div 64 = 0" using tree_ok_up(3) [OF T] L(1) that by simp
    then have "j < 64" by simp
    then show False using tree_ok_children(1) [OF T, of l 0 idr_cache_ctor j] that L t c n by simp
  qed
  have "(k, j) = (L - 1, 0)" if n: "nd k j \<noteq> 0" for k j
  proof -
    have "L - 1 \<le> k"
    proof (cases "L - 1")
      case (Suc l)
      then have "l \<le> k \<or> L \<le> Suc l" by (intro tree_only_root [OF T _ n]) (use z in auto)
      moreover have "k \<noteq> l" using z [OF Suc] n by metis
      ultimately show ?thesis using Suc by auto
    qed simp
    then show ?thesis using tree_ok_up(1,3) [OF T n] by auto
  qed
  then show ?thesis using L unfolding lone_root_def put_node_def fun_eq_iff by (metis fun_upd_apply prod.inject)
qed

lemma tree_drop:
  assumes T: "tree_ok nd {} {} t L h" and L: "1 < L" and ly: "h t = Some ly" and c: "l_count ly = 1" "l_ary ly ! 0 \<noteq> 0"
  shows "tree_ok (put_node nd (L - 1) 0 0) {} {} (l_ary ly ! 0) (L - 1) (h(t := x))" (is "tree_ok ?nd _ _ _ _ ?h")
proof (rule tree_okI)
  obtain l where l: "L = Suc (Suc l)" using L by (metis Suc_less_eq2 One_nat_def less_imp_Suc_add add_Suc)
  have t: "nd (Suc l) 0 = t" "t \<noteq> 0" using tree_ok_root [OF T] l by auto
  have ok: "layer_ok nd (marked nd {} h) 0 (Suc l) 0 ly" using tree_ok_lay [OF T, of "Suc l" 0 ly] t ly by simp
  have "card {i. i < 64 \<and> l_ary ly ! i \<noteq> 0} = 1" using ok c by (simp add: layer_ok_inner)
  then obtain z where z: "{i. i < 64 \<and> l_ary ly ! i \<noteq> 0} = {z}" using card_1_singletonE by blast
  have 0: "0 \<in> {i. i < 64 \<and> l_ary ly ! i \<noteq> 0}" using c(2) by simp
  have one: "j = 0" if n: "nd l j \<noteq> 0" for j
  proof -
    have "nd (Suc l) (j div 64) \<noteq> 0" using tree_ok_up(2) [OF T n] l by simp
    then have "j div 64 = 0" using tree_ok_up(3) [OF T] l by simp
    then have "j < 64" by simp
    then have "j \<in> {i. i < 64 \<and> l_ary ly ! i \<noteq> 0}"
      using tree_ok_children(1) [OF T, of l 0 ly j] t ly n by simp
    then show "j = 0" using 0 unfolding z by simp
  qed
  have lt: "k < Suc l \<and> (k, j) \<noteq> (Suc l, 0) \<and> nd k j \<noteq> 0 \<and> nd k j \<noteq> t \<and> ?nd k j = nd k j" if n: "?nd k j \<noteq> 0" for k j
  proof -
    have n': "nd k j \<noteq> 0" "(k, j) \<noteq> (Suc l, 0)" "?nd k j = nd k j" using n l by (auto simp: put_node_apply split: if_splits)
    then show ?thesis
      using tree_ok_up(1,3) [OF T n'(1)] tree_ok_inj [OF T _ n'(1), of "Suc l" 0] t l by auto
  qed
  have mk: "marked ?nd {} ?h k j = marked nd {} h k j" if "k < Suc l" for k j
    using that lt [of k j] l tree_ok_null [OF T] t(2) by (auto simp: marked_def put_node_apply full_at_def)
  show "\<exists>ly. ?h (?nd k j) = Some ly \<and> layer_ok ?nd (marked ?nd {} ?h) (of_bool ((k, j) \<in> {})) k j ly"
    if n: "?nd k j \<noteq> 0" for k j
  proof -
    have n': "nd k j \<noteq> 0" "nd k j \<noteq> t" "?nd k j = nd k j" "k < Suc l" using lt [OF n] by auto
    obtain ly0 where l0: "h (nd k j) = Some ly0" and ok0: "layer_ok nd (marked nd {} h) 0 k j ly0"
      using tree_ok_layer [OF T n'(1)] by auto
    have "layer_ok ?nd (marked ?nd {} ?h) 0 k j ly0"
      by (rule layer_ok_cong [OF ok0]) (use n' mk l in \<open>auto simp: put_node_apply\<close>)
    then show ?thesis using l0 n' by simp
  qed
  show "?nd (Suc k) (j div 64) \<noteq> 0" if "?nd k j \<noteq> 0" "Suc k < L - 1" for k j
    using lt [OF that(1)] that(2) tree_ok_up(2) [OF T, of k j] l by (auto simp: put_node_apply)
  show "k < L - 1" "\<not> Suc k < L - 1 \<Longrightarrow> j = 0" if "?nd k j \<noteq> 0" for k j
    using lt [OF that] one l by (auto simp: less_Suc_eq)
  show "(l_ary ly ! 0 = 0) = (L - 1 = 0)" using c l by simp
  show "?nd (L - 1 - 1) 0 = l_ary ly ! 0" using tree_ok_children(1) [OF T, of l 0 ly 0] t ly l by (simp add: put_node_apply)
  show "?h 0 = None" using t(2) tree_ok_null [OF T] by simp
  show "k = k' \<and> j = j'" if "?nd k j = ?nd k' j'" "?nd k j \<noteq> 0" for k j k' j'
    using put_node_inj [OF T _ that] by blast
qed (use tree_ok_size [OF T] in simp)

end
