(* ===== verification/Idr_Mem.thy ===== *)
theory Idr_Mem
  imports Idr_Tree
begin

text \<open>
  The memory of the identifier allocator: every layer is in the tree, on the list of free layers, or held by the operation
  in progress, and in one place only; a free layer and an object in the slab cache are as the constructor left them.
\<close>

section \<open>Ownership of layers\<close>

definition nodes :: "idr_nodes \<Rightarrow> nat set" where
  "nodes nd = {p. p \<noteq> 0 \<and> (\<exists>l q. nd l q = p)}"

definition link_layer :: "nat \<Rightarrow> idr_layer" where
  "link_layer b = idr_cache_ctor\<lparr>l_ary := (replicate 64 0)[0 := b]\<rparr>"

fun free_list :: "idr_heap \<Rightarrow> nat \<Rightarrow> nat list \<Rightarrow> bool" where
  "free_list h p [] \<longleftrightarrow> p = 0"
| "free_list h p (a # as) \<longleftrightarrow> p = a \<and> a \<noteq> 0 \<and> (\<exists>b. h a = Some (link_layer b) \<and> free_list h b as)"

definition mem_ok :: "idr_nodes \<Rightarrow> nat list \<Rightarrow> nat set \<Rightarrow> idr_mem \<Rightarrow> bool" where
  "mem_ok nd fl X st \<longleftrightarrow>
     free_list (i_heap st) (i_free st) fl \<and> i_free_cnt st = int (length fl) \<and> distinct fl \<and>
     0 \<notin> X \<and> nodes nd \<inter> (set fl \<union> X) = {} \<and> set fl \<inter> X = {} \<and>
     dom (i_heap st) = nodes nd \<union> set fl \<union> X \<and>
     (\<forall>p ly. i_slab st p = Some ly \<longrightarrow> ly = idr_cache_ctor \<and> i_heap st p = None)"

text \<open>The representation invariant between two operations.\<close>

definition idr_rep :: "idr_nodes \<Rightarrow> nat list \<Rightarrow> nat \<Rightarrow> nat \<Rightarrow> idr_mem \<Rightarrow> bool" where
  "idr_rep nd fl t L st \<longleftrightarrow> tree_ok nd {} {} t L (i_heap st) \<and> mem_ok nd fl {} st"

lemma link_layer_simps [simp]:
  "l_bitmap (link_layer b) = 0" "l_count (link_layer b) = 0" "l_ary (link_layer b) = (replicate 64 0)[0 := b]"
  "(link_layer b)\<lparr>l_ary := (replicate 64 0)[0 := c]\<rparr> = link_layer c"
  "link_layer 0 = idr_cache_ctor" "idr_cache_ctor\<lparr>l_ary := (replicate 64 0)[0 := c]\<rparr> = link_layer c"
  by (simp_all add: link_layer_def idr_cache_ctor_def numeral_eq_Suc)

lemma nodesI: "nd l q \<noteq> 0 \<Longrightarrow> nd l q \<in> nodes nd"
  by (auto simp: nodes_def)

lemma not_node: "a \<notin> nodes nd \<Longrightarrow> a \<noteq> 0 \<Longrightarrow> nd l q \<noteq> a"
  by (auto simp: nodes_def)

lemma nodes_put: "nd l q = 0 \<Longrightarrow> a \<noteq> 0 \<Longrightarrow> nodes (put_node nd l q a) = insert a (nodes nd)"
proof -
  assume z: "nd l q = 0" "a \<noteq> 0"
  have "(\<exists>k j. put_node nd l q a k j = p) \<longleftrightarrow> p = a \<or> (\<exists>k j. nd k j = p)" if "p \<noteq> 0" for p
    using z that unfolding put_node_apply by metis
  then have "x \<in> nodes (put_node nd l q a) \<longleftrightarrow> x \<in> insert a (nodes nd)" for x
    using z(2) unfolding nodes_def by (cases "x = 0") simp_all
  then show ?thesis by blast
qed

lemma nodes_del:
  assumes T: "tree_ok nd D C t L h" and n: "nd l q \<noteq> 0"
  shows "nodes (put_node nd l q 0) = nodes nd - {nd l q}"
proof -
  have "put_node nd l q 0 k j \<noteq> nd l q" for k j
    using tree_ok_inj [OF T _ n, of k j] n by (auto simp: put_node_apply)
  then show ?thesis by (fastforce simp: nodes_def put_node_apply split: if_splits)
qed

lemma free_list_frame: "p \<notin> set fl \<Longrightarrow> free_list (h(p := x)) a fl = free_list h a fl"
  by (induction fl arbitrary: a) auto

lemma free_list_null: "free_list h a fl \<Longrightarrow> 0 \<notin> set fl"
  by (induction fl arbitrary: a) auto

lemma free_list_hd: "free_list h a fl \<Longrightarrow> a = (case fl of [] \<Rightarrow> 0 | b # _ \<Rightarrow> b)"
  by (cases fl) auto

lemma tree_frame:
  assumes T: "tree_ok nd D C t L h" and a: "a \<notin> nodes nd" "a \<noteq> 0"
  shows "tree_ok nd D C t L (h(a := x))"
proof (rule tree_same_shape [OF T])
  have h: "(h(a := x)) (nd l q) = h (nd l q)" for l q using not_node [OF a, of l q] by simp
  then have m: "marked nd D (h(a := x)) = marked nd D h" by (simp add: marked_def full_at_def fun_eq_iff del: fun_upd_apply)
  show "\<exists>ly. (h(a := x)) (nd l q) = Some ly \<and> layer_ok nd (marked nd D (h(a := x))) (of_bool ((l, q) \<in> C)) l q ly"
    if "nd l q \<noteq> 0" for l q
    using tree_ok_layer [OF T that] unfolding h m by blast
qed (use a tree_ok_null [OF T] in simp)

lemma map_frame: "a \<notin> nodes nd \<Longrightarrow> a \<noteq> 0 \<Longrightarrow> idr_map nd (h(a := x)) = idr_map nd h"
  using not_node [of a nd 0] by (simp add: idr_map_def fun_eq_iff)

lemma mem_okD:
  assumes "mem_ok nd fl X st"
  shows "free_list (i_heap st) (i_free st) fl" "i_free_cnt st = int (length fl)" "distinct fl" "0 \<notin> X" "0 \<notin> set fl"
    "nodes nd \<inter> (set fl \<union> X) = {}" "set fl \<inter> X = {}" "dom (i_heap st) = nodes nd \<union> set fl \<union> X"
    "i_slab st p = Some ly \<Longrightarrow> ly = idr_cache_ctor \<and> i_heap st p = None"
  using assms free_list_null unfolding mem_ok_def by blast+

text \<open>Writing a layer that is in the tree or in hand.\<close>

lemma mem_upd:
  assumes M: "mem_ok nd fl X st" and p: "p \<in> nodes nd \<union> X"
  shows "mem_ok nd fl X (st\<lparr>i_heap := (i_heap st)(p \<mapsto> ly)\<rparr>)"
proof -
  have "p \<notin> set fl" using mem_okD(6,7) [OF M] p by blast
  moreover have "i_slab st p = None" using mem_okD(8,9) [OF M] p by (cases "i_slab st p") auto
  ultimately show ?thesis using M p unfolding mem_ok_def
    by (auto simp: free_list_frame)
qed

lemma alloc_layer_none: "mem_ok nd [] X st \<Longrightarrow> alloc_layer st = Some (0, st)"
  by (simp add: alloc_layer_def mem_ok_def)

lemma alloc_layer_pop:
  assumes M: "mem_ok nd (a # fl) X st"
  shows "\<exists>b. alloc_layer st = Some (a, st\<lparr>i_free := b, i_free_cnt := i_free_cnt st - 1,
                i_heap := (i_heap st)(a \<mapsto> idr_cache_ctor)\<rparr>) \<and>
             mem_ok nd fl (insert a X) (st\<lparr>i_free := b, i_free_cnt := i_free_cnt st - 1,
                i_heap := (i_heap st)(a \<mapsto> idr_cache_ctor)\<rparr>)"
proof -
  obtain b where b: "i_free st = a" "a \<noteq> 0" "i_heap st a = Some (link_layer b)" "free_list (i_heap st) b fl"
    using mem_okD(1) [OF M] by auto
  have "alloc_layer st = Some (a, st\<lparr>i_free := b, i_free_cnt := i_free_cnt st - 1,
                i_heap := (i_heap st)(a \<mapsto> idr_cache_ctor)\<rparr>)"
    using b by (simp add: alloc_layer_def)
  moreover have "mem_ok nd fl (insert a X) (st\<lparr>i_free := b, i_free_cnt := i_free_cnt st - 1,
                i_heap := (i_heap st)(a \<mapsto> idr_cache_ctor)\<rparr>)"
    using M b unfolding mem_ok_def by (auto simp: free_list_frame)
  ultimately show ?thesis by blast
qed

lemma free_layer_push:
  assumes M: "mem_ok nd fl X st" and a: "a \<in> X" "i_heap st a = Some (link_layer b)"
  shows "free_layer st a = Some (st\<lparr>i_heap := (i_heap st)(a \<mapsto> link_layer (i_free st)), i_free := a,
           i_free_cnt := i_free_cnt st + 1\<rparr>)"
    "mem_ok nd (a # fl) (X - {a}) (st\<lparr>i_heap := (i_heap st)(a \<mapsto> link_layer (i_free st)), i_free := a,
           i_free_cnt := i_free_cnt st + 1\<rparr>)"
proof -
  show "free_layer st a = Some (st\<lparr>i_heap := (i_heap st)(a \<mapsto> link_layer (i_free st)), i_free := a,
           i_free_cnt := i_free_cnt st + 1\<rparr>)"
    using a by (simp add: free_layer_def)
  have "a \<notin> set fl" "a \<noteq> 0" using mem_okD(4,7) [OF M] a by auto
  then show "mem_ok nd (a # fl) (X - {a}) (st\<lparr>i_heap := (i_heap st)(a \<mapsto> link_layer (i_free st)), i_free := a,
           i_free_cnt := i_free_cnt st + 1\<rparr>)"
    using M a unfolding mem_ok_def by (auto simp: free_list_frame)
qed

text \<open>Moving a layer between the tree and the hand.\<close>

lemma mem_link: "mem_ok nd fl X st \<Longrightarrow> a \<in> X \<Longrightarrow> nd l q = 0 \<Longrightarrow> mem_ok (put_node nd l q a) fl (X - {a}) st"
  by (cases "a = 0") (auto simp: mem_ok_def nodes_put)

lemma mem_unlink:
  assumes "mem_ok nd fl X st" "nodes nd' = nodes nd - {a}" "a \<in> nodes nd"
  shows "mem_ok nd' fl (insert a X) st"
proof -
  have "a \<noteq> 0" using assms(3) by (simp add: nodes_def)
  then show ?thesis using assms by (auto simp: mem_ok_def)
qed

section \<open>What the tree stores\<close>

lemma map_inner:
  assumes T: "tree_ok nd D C t L h" and n: "nd (Suc l) q \<noteq> 0"
  shows "idr_map nd (h(nd (Suc l) q := x)) = idr_map nd h"
proof -
  have "nd 0 j \<noteq> nd (Suc l) q" for j using tree_ok_inj [OF T _ n, of 0 j] by auto
  then show ?thesis by (simp add: idr_map_def fun_eq_iff)
qed

definition no_bits :: "idr_heap \<Rightarrow> nat \<Rightarrow> bool" where
  "no_bits h p \<longleftrightarrow> (\<forall>ly. h p = Some ly \<longrightarrow> l_bitmap ly = 0)"

lemma map_put:
  assumes "no_bits h a" "no_bits h (nd l q)"
  shows "idr_map (put_node nd l q a) h = idr_map nd h"
  using assms by (auto simp: idr_map_def put_node_apply no_bits_def fun_eq_iff split: option.splits)

lemma map_plant:
  assumes T: "tree_ok nd D C t L h" and n: "nd 0 q \<noteq> 0" and ly: "h (nd 0 q) = Some ly" and m: "m < 64"
  shows "idr_map nd (h(nd 0 q \<mapsto> ly\<lparr>l_ary := (l_ary ly)[m := ptr], l_bitmap := set_bit m (l_bitmap ly), l_count := c\<rparr>)) =
         (idr_map nd h)(64 * q + m \<mapsto> ptr)"
proof
  fix r
  have "length (l_ary ly) = 64" using tree_ok_lay [OF T n ly] by (simp add: layer_ok_leaf)
  moreover have "r = 64 * q + m \<longleftrightarrow> r div 64 = q \<and> r mod 64 = m" using m by auto
  moreover have "nd 0 (r div 64) = nd 0 q \<longleftrightarrow> r div 64 = q" using tree_ok_inj [OF T _ n, of 0 "r div 64"] by auto
  ultimately show "idr_map nd (h(nd 0 q \<mapsto> ly\<lparr>l_ary := (l_ary ly)[m := ptr], l_bitmap := set_bit m (l_bitmap ly), l_count := c\<rparr>)) r =
      ((idr_map nd h)(64 * q + m \<mapsto> ptr)) r"
    using m ly by (auto simp: idr_map_def bit_set_bit_iff nth_list_update)
qed

lemma map_clear:
  assumes T: "tree_ok nd D C t L h" and n: "nd 0 q \<noteq> 0" and ly: "h (nd 0 q) = Some ly" and m: "m < 64"
  shows "idr_map nd (h(nd 0 q \<mapsto> ly\<lparr>l_bitmap := unset_bit m (l_bitmap ly), l_ary := (l_ary ly)[m := 0]\<rparr>)) =
         (idr_map nd h)(64 * q + m := None)"
proof
  fix r
  have "r = 64 * q + m \<longleftrightarrow> r div 64 = q \<and> r mod 64 = m" using m by auto
  moreover have "nd 0 (r div 64) = nd 0 q \<longleftrightarrow> r div 64 = q" using tree_ok_inj [OF T _ n, of 0 "r div 64"] by auto
  ultimately show "idr_map nd (h(nd 0 q \<mapsto> ly\<lparr>l_bitmap := unset_bit m (l_bitmap ly), l_ary := (l_ary ly)[m := 0]\<rparr>)) r =
      ((idr_map nd h)(64 * q + m := None)) r"
    using m ly by (auto simp: idr_map_def bit_unset_bit_iff nth_list_update)
qed

lemma map_same_slots:
  assumes "h p = Some ly" "l_bitmap ly' = l_bitmap ly" "l_ary ly' = l_ary ly"
  shows "idr_map nd (h(p \<mapsto> ly')) = idr_map nd h"
  using assms by (auto simp: idr_map_def fun_eq_iff)

lemma node_bound:
  assumes T: "tree_ok nd D C t L h" and n: "nd l q \<noteq> 0"
  shows "q < 64 ^ (L - 1 - l)"
  using n
proof (induction "L - 1 - l" arbitrary: l q)
  case 0
  then show ?case using tree_ok_up(3) [OF T, of l q] by simp
next
  case (Suc d)
  then have S: "Suc l < L" "d = L - 1 - Suc l" by simp_all
  then have "q div 64 < 64 ^ d" using Suc.hyps(1) tree_ok_up(2) [OF T Suc.prems] by blast
  then have "q < 64 ^ d * 64" by (simp add: less_mult_imp_div_less div_less_iff_less_mult)
  then show ?case using Suc.hyps(2) [symmetric] by simp
qed

lemma dom_node: "r \<in> dom (idr_map nd h) \<Longrightarrow> h 0 = None \<Longrightarrow> nd 0 (r div 64) \<noteq> 0"
  by (rule notI) (simp add: idr_map_def dom_def)

lemma dom_bound:
  assumes T: "tree_ok nd D C t L h" and r: "r \<in> dom (idr_map nd h)"
  shows "r < 64 ^ L"
proof -
  have n: "nd 0 (r div 64) \<noteq> 0" using dom_node [OF r tree_ok_null [OF T]] .
  then have "r div 64 < 64 ^ (L - 1)" using node_bound [OF T n] by simp
  then have "r < 64 ^ (L - 1) * 64" by (simp add: div_less_iff_less_mult)
  moreover have "L = Suc (L - 1)" using tree_ok_up(1) [OF T n] by simp
  ultimately show ?thesis by (metis power_Suc2)
qed

text \<open>A layer is full exactly when all its identifiers are in use.\<close>

lemma child_quotient: "i < 64 \<Longrightarrow> r div 64 ^ l = 64 * q + i \<Longrightarrow> r div 64 ^ Suc l = (q::nat)"
  by (simp only: div_Suc64)

lemma full_dom:
  assumes T: "tree_ok nd {} {} t L h" and l: "l < L"
  shows "full_at h (nd l q) \<longleftrightarrow> (\<forall>r. r div 64 ^ Suc l = q \<longrightarrow> r \<in> dom (idr_map nd h))"
  using l
proof (induction l arbitrary: q)
  case 0
  have "r \<in> dom (idr_map nd h) \<longleftrightarrow> (\<exists>ly. h (nd 0 q) = Some ly \<and> bit (l_bitmap ly) (r mod 64))" if "r div 64 = q" for r
    using that by (auto simp: idr_map_def dom_def split: option.splits if_splits)
  then have "(\<forall>r. r div 64 = q \<longrightarrow> r \<in> dom (idr_map nd h)) \<longleftrightarrow>
      (\<forall>r. r div 64 = q \<longrightarrow> (\<exists>ly. h (nd 0 q) = Some ly \<and> bit (l_bitmap ly) (r mod 64)))" by blast
  also have "\<dots> \<longleftrightarrow> (\<forall>i<64. \<exists>ly. h (nd 0 q) = Some ly \<and> bit (l_bitmap ly) i)"
    (is "?l \<longleftrightarrow> ?r")
  proof
    assume a: ?l
    show ?r
    proof (intro allI impI)
      fix i :: nat assume "i < 64"
      then show "\<exists>ly. h (nd 0 q) = Some ly \<and> bit (l_bitmap ly) i" using a [rule_format, of "64 * q + i"] by simp
    qed
  qed simp
  also have "\<dots> \<longleftrightarrow> full_at h (nd 0 q)" by (cases "h (nd 0 q)") (auto simp: full_at_def word64_full intro: exI [of _ 0])
  finally show ?case by simp
next
  case (Suc l)
  have IH: "full_at h (nd l (64 * q + i)) \<longleftrightarrow> (\<forall>r. r div 64 ^ Suc l = 64 * q + i \<longrightarrow> r \<in> dom (idr_map nd h))" for i
    using Suc by simp
  have blocks: "(\<forall>r. r div 64 ^ Suc (Suc l) = q \<longrightarrow> r \<in> dom (idr_map nd h)) \<longleftrightarrow> (\<forall>i<64. full_at h (nd l (64 * q + i)))"
  proof
    assume "\<forall>r. r div 64 ^ Suc (Suc l) = q \<longrightarrow> r \<in> dom (idr_map nd h)"
    then show "\<forall>i<64. full_at h (nd l (64 * q + i))" unfolding IH using child_quotient by blast
  next
    assume a: "\<forall>i<64. full_at h (nd l (64 * q + i))"
    have "r div 64 ^ Suc l = 64 * q + dig r (Suc l)" if "r div 64 ^ Suc (Suc l) = q" for r
      using div_digit [of r "Suc l"] that by simp
    then show "\<forall>r. r div 64 ^ Suc (Suc l) = q \<longrightarrow> r \<in> dom (idr_map nd h)" using a unfolding IH by (metis dig_less)
  qed
  show ?case
  proof (cases "nd (Suc l) q = 0")
    case True
    then have "nd l (64 * q + 0) = 0" using tree_orphan [OF T Suc.prems True, of 0] by simp
    then show ?thesis using not_full_null [OF T] True unfolding blocks by (metis zero_less_numeral)
  next
    case False
    then obtain ly where ly: "h (nd (Suc l) q) = Some ly" using tree_ok_layer [OF T] by blast
    show ?thesis unfolding blocks using ly tree_ok_children(2) [OF T False ly]
      by (auto simp: full_at_def [of h "nd (Suc l) q"] word64_full marked_def)
  qed
qed

lemma bit_dom:
  assumes T: "tree_ok nd {} {} t L h" and n: "nd l q \<noteq> 0" and ly: "h (nd l q) = Some ly" and i: "i < 64"
  shows "bit (l_bitmap ly) i \<longleftrightarrow> (\<forall>r. r div 64 ^ l = 64 * q + i \<longrightarrow> r \<in> dom (idr_map nd h))"
proof (cases l)
  case 0
  have "64 * q + i \<in> dom (idr_map nd h) \<longleftrightarrow> bit (l_bitmap ly) i" using 0 ly i by (auto simp: idr_map_def split: if_splits)
  then show ?thesis using 0 by simp
next
  case (Suc k)
  then show ?thesis using tree_ok_children(2) [OF T, of k q ly i] n ly i tree_ok_up(1) [OF T n] full_dom [OF T, of k "64 * q + i"]
    by (simp add: marked_def)
qed

end
