(* ===== verification/Idr_Alloc.thy ===== *)
theory Idr_Alloc
  imports Idr_Mem
begin

text \<open>
  Allocation of identifiers: the walk of \<open>sub_alloc\<close> from the top to the lowest free identifier, the marking of full
  layers on the way back, and the growth of the tree. The walk is right when it never has to turn back; the
  condition is stated on the identifiers in use, and holds for \<open>idr_get_new\<close>.
\<close>

section \<open>The search for the lowest free identifier\<close>

text \<open>
  Of every aligned block of \<open>64 ^ k\<close> identifiers around the start that has a free one, one at or above the start is free.
\<close>

definition block_free :: "nat set \<Rightarrow> nat \<Rightarrow> nat \<Rightarrow> bool" where
  "block_free A s k \<longleftrightarrow> (\<exists>j. j \<notin> A \<and> j div 64 ^ k = s div 64 ^ k)"

definition no_turning_back :: "nat set \<Rightarrow> nat \<Rightarrow> nat \<Rightarrow> bool" where
  "no_turning_back A s k \<longleftrightarrow> (block_free A s k \<longrightarrow> (\<exists>j. j \<notin> A \<and> j div 64 ^ k = s div 64 ^ k \<and> s \<le> j))"

definition lowest_free :: "nat set \<Rightarrow> nat \<Rightarrow> nat \<Rightarrow> bool" where
  "lowest_free A s i \<longleftrightarrow> s \<le> i \<and> i \<notin> A \<and> (\<forall>j. s \<le> j \<and> j < i \<longrightarrow> j \<in> A)"

definition next_id :: "nat \<Rightarrow> nat \<Rightarrow> nat \<Rightarrow> nat" where
  "next_id s l m = (if m = dig s l then s else (64 * (s div 64 ^ Suc l) + m) * 64 ^ l)"

lemma next_id_div: "m < 64 \<Longrightarrow> next_id s l m div 64 ^ l = 64 * (s div 64 ^ Suc l) + m"
  using div_digit [of s l] by (simp add: next_id_def)

lemma next_id_up: "m < 64 \<Longrightarrow> next_id s l m div 64 ^ Suc l = s div 64 ^ Suc l"
  using next_id_div [of m s l] by (simp only: div_Suc64)

lemma div_mono_block: "s \<le> j \<Longrightarrow> j div 64 ^ Suc l = s div 64 ^ Suc l \<Longrightarrow> dig s l \<le> dig j l"
  using div_le_mono [of s j "64 ^ l"] div_digit [of s l] div_digit [of j l] by simp

lemma next_id_above:
  assumes "dig s l \<le> m" "m < 64"
  shows "s \<le> next_id s l m"
proof (cases "m = dig s l")
  case False
  then have "s div 64 ^ l + 1 \<le> 64 * (s div 64 ^ Suc l) + m" using assms div_digit [of s l] by simp
  then have "(s div 64 ^ l + 1) * 64 ^ l \<le> (64 * (s div 64 ^ Suc l) + m) * 64 ^ l" by (rule mult_le_mono1)
  then have "(s div 64 ^ l + 1) * 64 ^ l \<le> next_id s l m" using False by (simp only: next_id_def if_False)
  moreover have "s < (s div 64 ^ l + 1) * 64 ^ l" using dividend_less_div_times [of "64 ^ l" s] by simp
  ultimately show ?thesis by simp
qed (simp add: next_id_def)

text \<open>One level of the walk, on numbers: \<open>m\<close> is the first block at or after the one of \<open>s\<close> that is not full.\<close>

lemma walk_arith:
  fixes A :: "nat set" and l s m :: nat
  defines "B \<equiv> \<lambda>i. \<forall>r. r div 64 ^ l = 64 * (s div 64 ^ Suc l) + i \<longrightarrow> r \<in> A"
  assumes m: "dig s l \<le> m" "m \<le> 64" "\<And>i. dig s l \<le> i \<Longrightarrow> i < m \<Longrightarrow> B i" "m < 64 \<Longrightarrow> \<not> B m"
    and free: "block_free A s (Suc l)" and W: "\<And>k. k \<le> Suc l \<Longrightarrow> no_turning_back A s k"
  shows "m < 64" "\<And>j. s \<le> j \<Longrightarrow> j < next_id s l m \<Longrightarrow> j \<in> A" "block_free A (next_id s l m) l"
    "\<And>k. k \<le> l \<Longrightarrow> no_turning_back A (next_id s l m) k"
proof -
  obtain j where j: "j \<notin> A" "j div 64 ^ Suc l = s div 64 ^ Suc l" "s \<le> j"
    using W [of "Suc l"] free by (auto simp: no_turning_back_def)
  then have "\<not> B (dig j l)" using div_digit [of j l] by (auto simp: B_def)
  then show m64: "m < 64" using m(2,3) div_mono_block [OF j(3,2)] dig_less [of j l] by (metis linorder_not_le order_le_imp_less_or_eq nat_less_le)
  show "j \<in> A" if j: "s \<le> j" "j < next_id s l m" for j
  proof -
    have ne: "m \<noteq> dig s l" using j by (auto simp: next_id_def)
    then have lt: "j div 64 ^ l < 64 * (s div 64 ^ Suc l) + m"
      using j(2) by (simp add: next_id_def div_less_iff_less_mult)
    have ge: "64 * (s div 64 ^ Suc l) + dig s l \<le> j div 64 ^ l"
      using div_le_mono [OF j(1), of "64 ^ l"] div_digit [of s l] by simp
    define i where "i = j div 64 ^ l - 64 * (s div 64 ^ Suc l)"
    have i: "j div 64 ^ l = 64 * (s div 64 ^ Suc l) + i" "dig s l \<le> i" "i < m" using ge lt by (simp_all add: i_def)
    then show ?thesis using m(3) [OF i(2,3)] by (simp add: B_def)
  qed
  show bf: "block_free A (next_id s l m) l"
    using m(4) [OF m64] next_id_div [OF m64] by (auto simp: B_def block_free_def)
  show "no_turning_back A (next_id s l m) k" if k: "k \<le> l" for k
  proof (cases "m = dig s l")
    case True then show ?thesis using W k by (simp add: next_id_def)
  next
    case False
    then have "next_id s l m = (64 * (s div 64 ^ Suc l) + m) * 64 ^ (l - k) * 64 ^ k"
      using k by (simp add: next_id_def mult.assoc flip: power_add)
    then have "next_id s l m \<le> j" if "j div 64 ^ k = next_id s l m div 64 ^ k" for j
      using that by (metis div_times_less_eq_dividend nonzero_mult_div_cancel_right power_not_zero zero_neq_numeral)
    then show ?thesis by (auto simp: no_turning_back_def block_free_def)
  qed
qed

text \<open>The arithmetic of the C code computes \<^const>\<open>next_id\<close>.\<close>

lemma digit_int': "drop_bit (6 * l) (int s) AND 63 = int (dig s l)"
  by (simp add: and63 drop_bit_eq_div dig_def pow64 zdiv_int zmod_int)

lemma next_id_int:
  assumes "m < 64" "next_id s l m < 1073741824"
  shows "(if int m \<noteq> int (dig s l)
          then to_int32 (push_bit (6 * l) (drop_bit (6 * l) (int s) XOR int (dig s l) XOR int m)) else int s) =
         int (next_id s l m)"
proof (cases "m = dig s l")
  case False
  have "drop_bit (6 * l) (int s) XOR int (dig s l) XOR int m = int (s div 64 ^ l) XOR (int (s div 64 ^ l) mod 64) XOR int m"
    by (simp add: drop_bit_eq_div pow64 zdiv_int dig_def zmod_int)
  also have "\<dots> = int (s div 64 ^ l) - int (s div 64 ^ l) mod 64 + int m" by (rule xor_digit [OF assms(1)])
  also have "\<dots> = int (64 * (s div 64 ^ Suc l) + m)"
    unfolding div_Suc64 by (simp add: zdiv_int minus_mod_eq_mult_div)
  finally have "push_bit (6 * l) (drop_bit (6 * l) (int s) XOR int (dig s l) XOR int m) = int (next_id s l m)"
    using False by (simp add: next_id_def push_bit_eq_mult pow64 del: power_Suc)
  then show ?thesis using False assms(2) by (simp add: to_int32_id)
qed (simp add: next_id_def)

lemma id_bound:
  assumes T: "tree_ok nd D C t L h" and n: "nd l q \<noteq> 0" and i: "i div 64 ^ Suc l = q"
  shows "i < 64 ^ L" "i < 1073741824"
proof -
  have "i < 64 ^ (L - 1 - l) * 64 ^ Suc l"
    using node_bound [OF T n] i div_less_iff_less_mult [of "64 ^ Suc l" i "64 ^ (L - 1 - l)"] by (simp del: power_Suc)
  moreover have "L - 1 - l + Suc l = L" using tree_ok_up(1) [OF T n] by simp
  ultimately show L: "i < 64 ^ L" by (metis power_add)
  have "(64::nat) ^ L \<le> 64 ^ 5" using tree_ok_size [OF T] by (intro power_increasing) simp_all
  then show "i < 1073741824" using L by simp
qed

text \<open>Going down one level: the child exists, or is made from a free layer.\<close>

lemma rep_link:
  assumes R: "idr_rep nd (a # fl) t L st" and p: "nd (Suc l) q \<noteq> 0" and ly: "i_heap st (nd (Suc l) q) = Some ly"
    and i: "i < 64" "nd l (64 * q + i) = 0"
  shows "\<exists>b. alloc_layer st = Some (a, st\<lparr>i_free := b, i_free_cnt := i_free_cnt st - 1,
                i_heap := (i_heap st)(a \<mapsto> idr_cache_ctor)\<rparr>) \<and>
    idr_rep (put_node nd l (64 * q + i) a) fl t L
      (st\<lparr>i_free := b, i_free_cnt := i_free_cnt st - 1, i_heap := (i_heap st)(a \<mapsto> idr_cache_ctor,
          nd (Suc l) q \<mapsto> ly\<lparr>l_ary := (l_ary ly)[i := a], l_count := l_count ly + 1\<rparr>)\<rparr>) \<and>
    idr_map (put_node nd l (64 * q + i) a) ((i_heap st)(a \<mapsto> idr_cache_ctor,
          nd (Suc l) q \<mapsto> ly\<lparr>l_ary := (l_ary ly)[i := a], l_count := l_count ly + 1\<rparr>)) =
    idr_map nd (i_heap st) \<and> a \<noteq> 0 \<and> a \<noteq> nd (Suc l) q"
proof -
  let ?h = "(i_heap st)(a \<mapsto> idr_cache_ctor)" and ?ly = "ly\<lparr>l_ary := (l_ary ly)[i := a], l_count := l_count ly + 1\<rparr>"
  have T: "tree_ok nd {} {} t L (i_heap st)" and M: "mem_ok nd (a # fl) {} st" using R by (simp_all add: idr_rep_def)
  obtain b where b: "alloc_layer st = Some (a, st\<lparr>i_free := b, i_free_cnt := i_free_cnt st - 1, i_heap := ?h\<rparr>)"
      "mem_ok nd fl {a} (st\<lparr>i_free := b, i_free_cnt := i_free_cnt st - 1, i_heap := ?h\<rparr>)"
    using alloc_layer_pop [OF M] by auto
  have a: "a \<notin> nodes nd" "a \<noteq> 0" using mem_okD(5,6) [OF M] by auto
  have na: "nd k j \<noteq> a" for k j by (rule not_node [OF a])
  have T1: "tree_ok nd {} {} t L ?h" by (rule tree_frame [OF T a])
  have ly1: "?h (nd (Suc l) q) = Some ly" using ly na by simp
  have T2: "tree_ok (put_node nd l (64 * q + i) a) {} {} t L (?h(nd (Suc l) q \<mapsto> ?ly))"
    by (rule tree_link [OF T1 p ly1 i a(2) na]) simp
  have "mem_ok (put_node nd l (64 * q + i) a) fl {} (st\<lparr>i_free := b, i_free_cnt := i_free_cnt st - 1,
          i_heap := ?h(nd (Suc l) q \<mapsto> ?ly)\<rparr>)"
    using mem_link [where nd = nd and l = l and q = "64 * q + i", OF mem_upd [OF b(2), of "nd (Suc l) q" ?ly], of a] nodesI [of nd "Suc l" q] p i by simp
  moreover have "idr_map (put_node nd l (64 * q + i) a) (?h(nd (Suc l) q \<mapsto> ?ly)) = idr_map nd (i_heap st)"
  proof -
    have "idr_map (put_node nd l (64 * q + i) a) (?h(nd (Suc l) q \<mapsto> ?ly)) = idr_map nd (?h(nd (Suc l) q \<mapsto> ?ly))"
      by (rule map_put) (use i na p tree_ok_null [OF T] a in \<open>auto simp: no_bits_def\<close>)
    also have "\<dots> = idr_map nd ?h" by (rule map_inner [OF T1 p])
    also have "\<dots> = idr_map nd (i_heap st)" by (rule map_frame [OF a])
    finally show ?thesis .
  qed
  ultimately show ?thesis using b(1) T2 a na by (auto simp: idr_rep_def)
qed

lemma walk_level:
  assumes T: "tree_ok nd {} {} t L (i_heap st)" and p: "nd l (s div 64 ^ Suc l) \<noteq> 0"
    and free: "block_free (dom (idr_map nd (i_heap st))) s (Suc l)"
    and W: "\<And>k. k \<le> Suc l \<Longrightarrow> no_turning_back (dom (idr_map nd (i_heap st))) s k"
  obtains ly m where "i_heap st (nd l (s div 64 ^ Suc l)) = Some ly" "m < 64" "\<not> bit (l_bitmap ly) m"
    "s \<le> next_id s l m" "\<And>j. s \<le> j \<Longrightarrow> j < next_id s l m \<Longrightarrow> j \<in> dom (idr_map nd (i_heap st))"
    "block_free (dom (idr_map nd (i_heap st))) (next_id s l m) l"
    "\<And>k. k \<le> l \<Longrightarrow> no_turning_back (dom (idr_map nd (i_heap st))) (next_id s l m) k"
    "l = 0 \<Longrightarrow> sub_alloc_walk st pa (nd l (s div 64 ^ Suc l)) l (int s) start =
       Some (Sub_Leaf pa (nd l (s div 64 ^ Suc l)) m (int (next_id s l m)), st)"
    "l \<noteq> 0 \<Longrightarrow> l_ary ly ! m \<noteq> 0 \<Longrightarrow> sub_alloc_walk st pa (nd l (s div 64 ^ Suc l)) l (int s) start =
       sub_alloc_walk st (pa(l \<mapsto> nd l (s div 64 ^ Suc l))) (l_ary ly ! m) (l - 1) (int (next_id s l m)) start"
    "l \<noteq> 0 \<Longrightarrow> l_ary ly ! m = 0 \<Longrightarrow> alloc_layer st = Some (0, st) \<Longrightarrow>
       sub_alloc_walk st pa (nd l (s div 64 ^ Suc l)) l (int s) start = Some (Sub_Ret (- 1) start, st)"
    "\<And>a st1. l \<noteq> 0 \<Longrightarrow> l_ary ly ! m = 0 \<Longrightarrow> alloc_layer st = Some (a, st1) \<Longrightarrow> a \<noteq> 0 \<Longrightarrow>
       i_heap st1 (nd l (s div 64 ^ Suc l)) = Some ly \<Longrightarrow>
       sub_alloc_walk st pa (nd l (s div 64 ^ Suc l)) l (int s) start =
       sub_alloc_walk (st1\<lparr>i_heap := (i_heap st1)(nd l (s div 64 ^ Suc l) \<mapsto>
            ly\<lparr>l_ary := (l_ary ly)[m := a], l_count := l_count ly + 1\<rparr>)\<rparr>)
         (pa(l \<mapsto> nd l (s div 64 ^ Suc l))) a (l - 1) (int (next_id s l m)) start"
proof -
  define q where "q = s div 64 ^ Suc l"
  define A where "A = dom (idr_map nd (i_heap st))"
  obtain ly where ly: "i_heap st (nd l q) = Some ly" using tree_ok_layer [OF T p] unfolding q_def by blast
  define m where "m = find_next_bit (NOT (l_bitmap ly)) 64 (dig s l)"
  have b: "bit (l_bitmap ly) i \<longleftrightarrow> (\<forall>r. r div 64 ^ l = 64 * (s div 64 ^ Suc l) + i \<longrightarrow> r \<in> A)" if "i < 64" for i
    using bit_dom [OF T p, of ly i] ly that by (simp add: q_def A_def)
  have m: "dig s l \<le> m" "m \<le> 64" "\<And>i. dig s l \<le> i \<Longrightarrow> i < m \<Longrightarrow> bit (l_bitmap ly) i" "m < 64 \<Longrightarrow> \<not> bit (l_bitmap ly) m"
    using find_next_bit_spec [OF m_def [symmetric] dig_less] by auto
  have B: "\<And>i. dig s l \<le> i \<Longrightarrow> i < m \<Longrightarrow> \<forall>r. r div 64 ^ l = 64 * (s div 64 ^ Suc l) + i \<longrightarrow> r \<in> A"
    "m < 64 \<Longrightarrow> \<not> (\<forall>r. r div 64 ^ l = 64 * (s div 64 ^ Suc l) + m \<longrightarrow> r \<in> A)"
    using m(3,4) b m(2) by (meson order_less_le_trans)+
  note ar = walk_arith [OF m(1,2) B free [folded A_def] W [folded A_def]]
  have nb: "next_id s l m < 1073741824" by (rule id_bound(2) [OF T p next_id_up [OF ar(1)]])
  have l5: "l < 6" using tree_ok_up(1) [OF T p] tree_ok_size [OF T] by simp
  note ni = next_id_int [OF ar(1) nb]
  have step: "sub_alloc_walk st pa (nd l q) l (int s) start =
     (if l = 0 then Some (Sub_Leaf pa (nd l q) m (int (next_id s l m)), st)
      else if l_ary ly ! m = 0
      then do { (new, st1) \<leftarrow> alloc_layer st;
                if new = 0 then Some (Sub_Ret (- 1) start, st1)
                else do { ly1 \<leftarrow> i_heap st1 (nd l q);
                          pa1 \<leftarrow> write_pa pa l (nd l q);
                          sub_alloc_walk (st1\<lparr>i_heap := (i_heap st1)(nd l q \<mapsto>
                              ly1\<lparr>l_ary := (l_ary ly1)[m := new], l_count := l_count ly1 + 1\<rparr>)\<rparr>)
                            pa1 new (l - 1) (int (next_id s l m)) start } }
      else do { pa1 \<leftarrow> write_pa pa l (nd l q);
                sub_alloc_walk st pa1 (l_ary ly ! m) (l - 1) (int (next_id s l m)) start })"
    using ar(1) nb by (subst sub_alloc_walk.simps) (simp add: ly digit_int' m_def [symmetric] ni del: of_nat_eq_iff)
  show thesis
    by (rule that [of ly m]; (fold q_def A_def)?)
       (use step in \<open>simp_all add: write_pa_def l5 ar m(4) next_id_above [OF m(1) ar(1)] ly\<close>)
qed

text \<open>
  The walk from level \<open>l\<close> reaches the lowest free identifier, with the layers passed in \<open>pa\<close>, or runs out of layers; it
  takes at most \<open>l\<close> of the \<open>n\<close> free layers, and what is stored stays.
\<close>

definition same_handle :: "idr_mem \<Rightarrow> idr_mem \<Rightarrow> bool" where
  "same_handle st st' \<longleftrightarrow> i_top st' = i_top st \<and> i_layers st' = i_layers st"

definition walk_outcome ::
  "idr_nodes \<Rightarrow> nat \<Rightarrow> nat \<Rightarrow> nat \<Rightarrow> idr_mem \<Rightarrow> (nat \<rightharpoonup> nat) \<Rightarrow> nat \<Rightarrow> nat \<Rightarrow> int \<Rightarrow> (nat \<rightharpoonup> nat) \<Rightarrow>
   (walk_end \<times> idr_mem) option \<Rightarrow> bool" where
  "walk_outcome nd n t L st pa l s start M r \<longleftrightarrow>
     (\<exists>nd' fl' st'. idr_rep nd' fl' t L st' \<and> idr_map nd' (i_heap st') = M \<and> same_handle st st' \<and>
        (\<forall>k\<ge>l. nd' k = nd k) \<and> n \<le> length fl' + l \<and>
        (r = Some (Sub_Ret (- 1) start, st') \<and> n < l \<or>
         (\<exists>i pa'. lowest_free (dom M) s i \<and> i div 64 ^ Suc l = s div 64 ^ Suc l \<and> nd' 0 (i div 64) \<noteq> 0 \<and>
            r = Some (Sub_Leaf pa' (nd' 0 (i div 64)) (i mod 64) (int i), st') \<and>
            (\<forall>k. pa' k = (if 0 < k \<and> k \<le> l then Some (nd' k (i div 64 ^ Suc k)) else pa k)))))"

lemma lowest_free_skip:
  "lowest_free A s' i \<Longrightarrow> s \<le> s' \<Longrightarrow> (\<And>j. s \<le> j \<Longrightarrow> j < s' \<Longrightarrow> j \<in> A) \<Longrightarrow> lowest_free A s i"
  unfolding lowest_free_def by (metis le_trans linorder_not_le)

lemma walk_outcome_up:
  assumes O: "walk_outcome nd2 n2 t L st2 (pa(Suc l \<mapsto> nd (Suc l) (s div 64 ^ Suc (Suc l)))) l s' start M r"
    and s': "s \<le> s'" "\<And>j. s \<le> j \<Longrightarrow> j < s' \<Longrightarrow> j \<in> dom M" "s' div 64 ^ Suc (Suc l) = s div 64 ^ Suc (Suc l)"
    and st2: "same_handle st st2" "\<And>k. Suc l \<le> k \<Longrightarrow> nd2 k = nd k" "n \<le> Suc n2"
  shows "walk_outcome nd n t L st pa (Suc l) s start M r"
proof -
  obtain nd' fl' st' where 1: "idr_rep nd' fl' t L st'" "idr_map nd' (i_heap st') = M" "same_handle st2 st'"
      "\<forall>k\<ge>l. nd' k = nd2 k" "n2 \<le> length fl' + l"
    and 2: "r = Some (Sub_Ret (- 1) start, st') \<and> n2 < l \<or>
         (\<exists>i pa'. lowest_free (dom M) s' i \<and> i div 64 ^ Suc l = s' div 64 ^ Suc l \<and> nd' 0 (i div 64) \<noteq> 0 \<and>
            r = Some (Sub_Leaf pa' (nd' 0 (i div 64)) (i mod 64) (int i), st') \<and>
            (\<forall>k. pa' k = (if 0 < k \<and> k \<le> l then Some (nd' k (i div 64 ^ Suc k))
                          else (pa(Suc l \<mapsto> nd (Suc l) (s div 64 ^ Suc (Suc l)))) k)))"
    using O unfolding walk_outcome_def by blast
  have 3: "same_handle st st'" "\<forall>k\<ge>Suc l. nd' k = nd k" "n \<le> length fl' + Suc l"
    using 1(3-5) st2 by (simp_all add: same_handle_def)
  show ?thesis using 2
  proof
    assume "r = Some (Sub_Ret (- 1) start, st') \<and> n2 < l"
    then show ?thesis using 1(1,2) 3 st2(3) unfolding walk_outcome_def
      by (intro exI [of _ nd'] exI [of _ fl'] exI [of _ st']) simp
  next
    assume "\<exists>i pa'. lowest_free (dom M) s' i \<and> i div 64 ^ Suc l = s' div 64 ^ Suc l \<and> nd' 0 (i div 64) \<noteq> 0 \<and>
            r = Some (Sub_Leaf pa' (nd' 0 (i div 64)) (i mod 64) (int i), st') \<and>
            (\<forall>k. pa' k = (if 0 < k \<and> k \<le> l then Some (nd' k (i div 64 ^ Suc k))
                          else (pa(Suc l \<mapsto> nd (Suc l) (s div 64 ^ Suc (Suc l)))) k))"
    then obtain i pa' where i: "lowest_free (dom M) s' i" "i div 64 ^ Suc l = s' div 64 ^ Suc l" "nd' 0 (i div 64) \<noteq> 0"
        "r = Some (Sub_Leaf pa' (nd' 0 (i div 64)) (i mod 64) (int i), st')"
      and pa': "\<And>k. pa' k = (if 0 < k \<and> k \<le> l then Some (nd' k (i div 64 ^ Suc k))
                          else (pa(Suc l \<mapsto> nd (Suc l) (s div 64 ^ Suc (Suc l)))) k)" by blast
    have q: "i div 64 ^ Suc (Suc l) = s div 64 ^ Suc (Suc l)"
      using i(2) s'(3) by (metis div_Suc64)
    have "pa' k = (if 0 < k \<and> k \<le> Suc l then Some (nd' k (i div 64 ^ Suc k)) else pa k)" for k
      unfolding pa' using 3(2) q by (cases "k = Suc l") (simp_all del: power_Suc)
    then show ?thesis using 1(1,2) 3 i(3,4) q lowest_free_skip [OF i(1) s'(1,2)] unfolding walk_outcome_def by blast
  qed
qed

lemma sub_alloc_walk_ok:
  assumes "idr_rep nd fl t L st" "nd l (s div 64 ^ Suc l) \<noteq> 0"
    "block_free (dom (idr_map nd (i_heap st))) s (Suc l)"
    "\<And>k. k \<le> Suc l \<Longrightarrow> no_turning_back (dom (idr_map nd (i_heap st))) s k"
  shows "walk_outcome nd (length fl) t L st pa l s start (idr_map nd (i_heap st))
           (sub_alloc_walk st pa (nd l (s div 64 ^ Suc l)) l (int s) start)"
  using assms
proof (induction l arbitrary: nd fl st s pa)
  case 0
  have T: "tree_ok nd {} {} t L (i_heap st)" using 0(1) by (simp add: idr_rep_def)
  obtain ly m where m: "m < 64" "s \<le> next_id s 0 m"
      "\<And>j. s \<le> j \<Longrightarrow> j < next_id s 0 m \<Longrightarrow> j \<in> dom (idr_map nd (i_heap st))"
      "block_free (dom (idr_map nd (i_heap st))) (next_id s 0 m) 0"
      "sub_alloc_walk st pa (nd 0 (s div 64 ^ Suc 0)) 0 (int s) start =
         Some (Sub_Leaf pa (nd 0 (s div 64 ^ Suc 0)) m (int (next_id s 0 m)), st)"
    by (rule walk_level [OF T 0(2,3,4)]) blast+
  have i: "next_id s 0 m = 64 * (s div 64) + m" using next_id_div [OF m(1), of s 0] by simp
  have "next_id s 0 m \<notin> dom (idr_map nd (i_heap st))" using m(4) by (auto simp: block_free_def)
  then have lf: "lowest_free (dom (idr_map nd (i_heap st))) s (next_id s 0 m)" using m(2,3) by (auto simp: lowest_free_def)
  have dm: "next_id s 0 m div 64 = s div 64" "next_id s 0 m mod 64 = m" using m(1) unfolding i by simp_all
  show ?case unfolding walk_outcome_def
    by (rule exI [of _ nd], rule exI [of _ fl], rule exI [of _ st])
       (use 0(1,2) lf m(5) dm in \<open>auto simp: same_handle_def intro!: exI [of _ "next_id s 0 m"]\<close>)
next
  case (Suc l)
  let ?M = "idr_map nd (i_heap st)" and ?q = "s div 64 ^ Suc (Suc l)" and ?r = "\<lambda>pa. sub_alloc_walk st pa (nd (Suc l) (s div 64 ^ Suc (Suc l))) (Suc l) (int s) start"
  have T: "tree_ok nd {} {} t L (i_heap st)" using Suc.prems(1) by (simp add: idr_rep_def)
  obtain ly m where ly: "i_heap st (nd (Suc l) ?q) = Some ly" and m: "m < 64" "s \<le> next_id s (Suc l) m"
      "\<And>j. s \<le> j \<Longrightarrow> j < next_id s (Suc l) m \<Longrightarrow> j \<in> dom ?M"
    and s': "block_free (dom ?M) (next_id s (Suc l) m) (Suc l)"
      "\<And>k. k \<le> Suc l \<Longrightarrow> no_turning_back (dom ?M) (next_id s (Suc l) m) k"
    and r: "l_ary ly ! m \<noteq> 0 \<Longrightarrow> ?r pa =
       sub_alloc_walk st (pa(Suc l \<mapsto> nd (Suc l) ?q)) (l_ary ly ! m) l (int (next_id s (Suc l) m)) start"
    "l_ary ly ! m = 0 \<Longrightarrow> alloc_layer st = Some (0, st) \<Longrightarrow> ?r pa = Some (Sub_Ret (- 1) start, st)"
    "\<And>a st1. l_ary ly ! m = 0 \<Longrightarrow> alloc_layer st = Some (a, st1) \<Longrightarrow> a \<noteq> 0 \<Longrightarrow>
       i_heap st1 (nd (Suc l) ?q) = Some ly \<Longrightarrow> ?r pa =
       sub_alloc_walk (st1\<lparr>i_heap := (i_heap st1)(nd (Suc l) ?q \<mapsto>
            ly\<lparr>l_ary := (l_ary ly)[m := a], l_count := l_count ly + 1\<rparr>)\<rparr>)
         (pa(Suc l \<mapsto> nd (Suc l) ?q)) a l (int (next_id s (Suc l) m)) start"
    by (rule walk_level [OF T Suc.prems(2,3,4), where pa = pa and start = start]) (simp_all del: power_Suc)
  let ?s = "next_id s (Suc l) m"
  have up: "?s div 64 ^ Suc (Suc l) = ?q" "?s div 64 ^ Suc l = 64 * ?q + m"
    using next_id_up [OF m(1)] next_id_div [OF m(1)] by blast+
  have ch: "nd l (?s div 64 ^ Suc l) = l_ary ly ! m"
    unfolding up by (rule tree_ok_children(1) [OF T Suc.prems(2) ly m(1)])
  show ?case
  proof (cases "l_ary ly ! m = 0")
    case False
    have "walk_outcome nd (length fl) t L st (pa(Suc l \<mapsto> nd (Suc l) ?q)) l ?s start ?M (?r pa)"
      unfolding r(1) [OF False] using Suc.IH [OF Suc.prems(1), of ?s "pa(Suc l \<mapsto> nd (Suc l) ?q)"] False s'
      unfolding ch by blast
    then show ?thesis by (rule walk_outcome_up) (use m up in \<open>simp_all add: same_handle_def del: power_Suc\<close>)
  next
    case z: True
    show ?thesis
    proof (cases fl)
      case Nil
      then have "alloc_layer st = Some (0, st)" using Suc.prems(1) alloc_layer_none by (auto simp: idr_rep_def)
      then show ?thesis using r(2) [OF z] Suc.prems(1) Nil unfolding walk_outcome_def
        by (intro exI [of _ nd] exI [of _ fl] exI [of _ st]) (simp add: same_handle_def)
    next
      case (Cons a fl')
      let ?nd = "put_node nd l (64 * ?q + m) a"
      have z': "nd l (64 * ?q + m) = 0" using ch z unfolding up by simp
      let ?st = "\<lambda>b. st\<lparr>i_free := b, i_free_cnt := i_free_cnt st - 1, i_heap := (i_heap st)(a \<mapsto> idr_cache_ctor,
              nd (Suc l) ?q \<mapsto> ly\<lparr>l_ary := (l_ary ly)[m := a], l_count := l_count ly + 1\<rparr>)\<rparr>"
      obtain b where b: "alloc_layer st = Some (a, st\<lparr>i_free := b, i_free_cnt := i_free_cnt st - 1,
                i_heap := (i_heap st)(a \<mapsto> idr_cache_ctor)\<rparr>)"
        and R: "idr_rep ?nd fl' t L (?st b)"
        and M: "idr_map ?nd (i_heap (?st b)) = ?M" and a: "a \<noteq> 0" "a \<noteq> nd (Suc l) ?q"
        using rep_link [OF Suc.prems(1) [unfolded Cons] Suc.prems(2) ly m(1) z'] by auto
      let ?st = "?st b"
      have "?r pa = sub_alloc_walk ?st (pa(Suc l \<mapsto> nd (Suc l) ?q)) a l (int ?s) start"
        using r(3) [OF z b a(1)] a(2) ly by simp
      moreover have "?nd l (?s div 64 ^ Suc l) = a" unfolding up by (simp add: put_node_apply)
      ultimately have "walk_outcome ?nd (length fl') t L ?st (pa(Suc l \<mapsto> nd (Suc l) ?q)) l ?s start ?M (?r pa)"
        using Suc.IH [OF R, of ?s "pa(Suc l \<mapsto> nd (Suc l) ?q)"] a(1) s' unfolding M by metis
      then show ?thesis
        by (rule walk_outcome_up) (use m up Cons in \<open>simp_all add: same_handle_def put_node_def del: power_Suc\<close>)
    qed
  qed
qed

end
