(* ===== verification/Idr_Grow.thy ===== *)
theory Idr_Grow
  imports Idr_Alloc
begin

text \<open>
  The rest of the allocation: planting the pointer and marking full layers, the growth of the tree and its undoing, and
  the loop of \<open>idr_get_new_above_int\<close>.
\<close>

section \<open>Planting and marking\<close>

lemma sub_alloc_mark_ok:
  assumes "tree_ok nd {(l, i div 64 ^ Suc l)} {} t L (i_heap st)" "mem_ok nd fl {} st" "nd l (i div 64 ^ Suc l) \<noteq> 0"
    "\<And>k. l < k \<Longrightarrow> k < L \<Longrightarrow> pa k = Some (nd k (i div 64 ^ Suc k))" "pa L = Some 0"
  shows "\<exists>st'. sub_alloc_mark st pa (nd l (i div 64 ^ Suc l)) l (int (i div 64 ^ l)) = Some st' \<and>
           idr_rep nd fl t L st' \<and> idr_map nd (i_heap st') = idr_map nd (i_heap st) \<and> same_handle st st'"
  using assms
proof (induction "L - l" arbitrary: l st)
  case 0
  then show ?case using tree_ok_up(1) [OF 0(2,4)] by simp
next
  case (Suc d)
  let ?q = "i div 64 ^ Suc l" and ?h = "i_heap st"
  note T = Suc.prems(1)
  obtain ly where ly: "?h (nd l ?q) = Some ly" using tree_ok_layer [OF T Suc.prems(3)] by blast
  show ?case
  proof (cases "l_bitmap ly = - 1 \<and> Suc l < L")
    case False
    then have "sub_alloc_mark st pa (nd l ?q) l (int (i div 64 ^ l)) = Some st"
      using ly Suc.prems(5) tree_ok_up(1) [OF T Suc.prems(3)]
      by (subst sub_alloc_mark.simps) (auto simp: less_Suc_eq_le le_Suc_eq not_less dest: le_antisym)
    moreover have "tree_ok nd {} {} t L ?h"
      by (rule tree_unmarked [OF T]) (use False ly in \<open>auto simp: full_at_def simp del: power_Suc\<close>)
    ultimately show ?thesis using Suc.prems(2) by (auto simp: idr_rep_def same_handle_def)
  next
    case True
    let ?p = "nd (Suc l) (?q div 64)"
    have p: "?p \<noteq> 0" using tree_ok_up(2) [OF T Suc.prems(3)] True by simp
    then obtain lp where lp: "?h ?p = Some lp" using tree_ok_layer [OF T] by blast
    have q: "i div 64 ^ Suc (Suc l) = ?q div 64" by (rule div_Suc64)
    let ?st = "st\<lparr>i_heap := ?h(?p \<mapsto> lp\<lparr>l_bitmap := set_bit (?q mod 64) (l_bitmap lp)\<rparr>)\<rparr>"
    have n: "drop_bit 6 (int (i div 64 ^ l)) = int ?q"
      unfolding div_Suc64 by (simp add: drop_bit_eq_div zdiv_int)
    have n2: "nat (int ?q AND 63) = ?q mod 64" by (simp add: and63 nat_mod_distrib del: power_Suc)
    have "sub_alloc_mark st pa (nd l ?q) l (int (i div 64 ^ l)) = sub_alloc_mark ?st pa ?p (Suc l) (int ?q)"
      using ly True Suc.prems(4) [of "Suc l"] p lp unfolding q
      by (subst sub_alloc_mark.simps) (simp add: n n2 del: power_Suc)
    moreover have "\<exists>st'. sub_alloc_mark ?st pa (nd (Suc l) (i div 64 ^ Suc (Suc l))) (Suc l) (int (i div 64 ^ Suc l)) = Some st' \<and>
           idr_rep nd fl t L st' \<and> idr_map nd (i_heap st') = idr_map nd (i_heap ?st) \<and> same_handle ?st st'"
    proof (rule Suc.hyps(1))
      show "tree_ok nd {(Suc l, i div 64 ^ Suc (Suc l))} {} t L (i_heap ?st)"
        unfolding q using tree_mark [OF T p lp] True ly by (simp add: full_at_def del: power_Suc)
      show "mem_ok nd fl {} ?st" by (rule mem_upd [OF Suc.prems(2)]) (use nodesI p in blast)
    qed (use Suc.hyps(2) Suc.prems(4,5) p q True in \<open>auto simp del: power_Suc\<close>)
    moreover have "idr_map nd (i_heap ?st) = idr_map nd ?h" using map_inner [OF T p] by simp
    ultimately show ?thesis unfolding q by (auto simp: same_handle_def)
  qed
qed

lemma full_block: "r < 64 ^ L \<longleftrightarrow> r div 64 ^ L = (0::nat)"
  by (simp add: div_eq_0_iff)

lemma or_low_bits:
  assumes "s < 64 ^ L"
  shows "int s OR (push_bit (6 * L) 1 - 1) = 64 ^ L - 1"
proof -
  have "push_bit (6 * L) 1 - 1 = (mask (6 * L) :: int)" by (simp add: mask_eq_exp_minus_1 push_bit_eq_mult)
  moreover have "int s OR mask (6 * L) = mask (6 * L)"
  proof (rule bit_eqI)
    fix n
    have "take_bit (6 * L) (int s) = int s" using assms by (simp add: take_bit_int_eq_self pow64)
    then have "bit (int s) n \<Longrightarrow> n < 6 * L" by (metis bit_take_bit_iff)
    then show "bit (int s OR mask (6 * L)) n = bit (mask (6 * L) :: int) n" by (auto simp: bit_or_iff bit_mask_iff)
  qed
  ultimately show ?thesis by (simp add: mask_eq_exp_minus_1 pow64)
qed

text \<open>\<open>sub_alloc\<close> on a full tree asks for another level.\<close>

lemma sub_alloc_full:
  assumes R: "idr_rep nd fl t L st" and st: "i_top st = t" "i_layers st = L" "0 < L" and s: "s < 64 ^ L"
    and full: "\<not> block_free (dom (idr_map nd (i_heap st))) s L"
  shows "sub_alloc st ptr (int s) = Some (- 2, 64 ^ L, st)"
proof -
  have T: "tree_ok nd {} {} t L (i_heap st)" using R by (simp add: idr_rep_def)
  have L: "Suc (L - 1) = L" "L \<le> 5" using st(3) tree_ok_size [OF T] by simp_all
  have root: "nd (L - 1) 0 = t" "t \<noteq> 0" using tree_ok_root [OF T] st(3) by auto
  have "full_at (i_heap st) (nd (L - 1) 0)"
    using full_dom [OF T, of "L - 1" 0] full s st(3) unfolding L full_block by (auto simp: block_free_def)
  then obtain ly where ly: "i_heap st t = Some ly" "l_bitmap ly = - 1" unfolding root by (auto simp: full_at_def)
  obtain k where k: "L = Suc k" using st(3) by (cases L) auto
  have m: "find_next_bit 0 64 (dig s k) = 64"
    using find_next_bit_spec [of "- 1" "dig s k"] by (auto simp: order_le_less bit_minus_1_iff)
  have "(64::int) ^ L \<le> 64 ^ 5" using L by (intro power_increasing) simp_all
  then have w: "to_int32 ((int s OR (push_bit (6 * L) 1 - 1)) + 1) = 64 ^ L"
    using or_low_bits [OF s] by (simp add: to_int32_id)
  have "sub_alloc_walk st [L \<mapsto> 0] t (L - 1) (int s) (int s) = Some (Sub_Ret (- 2) (64 ^ L), st)"
    using m w unfolding k by (subst sub_alloc_walk.simps) (simp add: ly digit_int' del: power_Suc mult_Suc_right)
  then show ?thesis using L st by (simp add: sub_alloc_def write_pa_def)
qed

lemma plant_ok:
  assumes R: "idr_rep nd fl t L st" and n: "nd 0 (i div 64) \<noteq> 0" and i: "i \<notin> dom (idr_map nd (i_heap st))"
    and pa: "\<And>k. 0 < k \<Longrightarrow> k < L \<Longrightarrow> pa k = Some (nd k (i div 64 ^ Suc k))" "pa L = Some 0"
  obtains ly st' where "i_heap st (nd 0 (i div 64)) = Some ly"
    "sub_alloc_mark (st\<lparr>i_heap := (i_heap st)(nd 0 (i div 64) \<mapsto> ly\<lparr>l_ary := (l_ary ly)[i mod 64 := ptr],
        l_bitmap := set_bit (i mod 64) (l_bitmap ly), l_count := l_count ly + 1\<rparr>)\<rparr>) pa (nd 0 (i div 64)) 0 (int i) = Some st'"
    "idr_rep nd fl t L st'" "idr_map nd (i_heap st') = (idr_map nd (i_heap st))(i \<mapsto> ptr)" "same_handle st st'"
proof -
  have T: "tree_ok nd {} {} t L (i_heap st)" and M: "mem_ok nd fl {} st" using R by (simp_all add: idr_rep_def)
  obtain ly where ly: "i_heap st (nd 0 (i div 64)) = Some ly" using tree_ok_layer [OF T n] by blast
  have b: "\<not> bit (l_bitmap ly) (i mod 64)" using i ly by (auto simp: idr_map_def)
  let ?st = "st\<lparr>i_heap := (i_heap st)(nd 0 (i div 64) \<mapsto> ly\<lparr>l_ary := (l_ary ly)[i mod 64 := ptr],
        l_bitmap := set_bit (i mod 64) (l_bitmap ly), l_count := l_count ly + 1\<rparr>)\<rparr>"
  have "tree_ok nd {(0, i div 64)} {} t L (i_heap ?st)" using tree_plant [OF T n ly _ b] by simp
  moreover have "mem_ok nd fl {} ?st" by (rule mem_upd [OF M]) (use nodesI [of nd 0] n in blast)
  moreover have "idr_map nd (i_heap ?st) = (idr_map nd (i_heap st))(i \<mapsto> ptr)"
    using map_plant [OF T n ly, of "i mod 64"] by simp
  ultimately obtain st' where "sub_alloc_mark ?st pa (nd 0 (i div 64)) 0 (int i) = Some st'" "idr_rep nd fl t L st'"
      "idr_map nd (i_heap st') = (idr_map nd (i_heap st))(i \<mapsto> ptr)" "same_handle ?st st'"
    using sub_alloc_mark_ok [of nd 0 i t L ?st fl pa] n pa by auto
  then show thesis using that ly by (simp add: same_handle_def)
qed

definition sub_outcome ::
  "nat \<Rightarrow> nat \<Rightarrow> nat \<Rightarrow> idr_mem \<Rightarrow> nat \<Rightarrow> nat \<Rightarrow> (nat \<rightharpoonup> nat) \<Rightarrow> (int \<times> int \<times> idr_mem) option \<Rightarrow> bool" where
  "sub_outcome n t L st ptr s M r \<longleftrightarrow>
     (\<exists>nd' fl' st'. idr_rep nd' fl' t L st' \<and> same_handle st st' \<and>
        (r = Some (- 1, int s, st') \<and> idr_map nd' (i_heap st') = M \<and> n < L - 1 \<or>
         (\<exists>i. lowest_free (dom M) s i \<and> r = Some (int i, int s, st') \<and> idr_map nd' (i_heap st') = M(i \<mapsto> ptr))))"

lemma sub_alloc_ok:
  assumes R: "idr_rep nd fl t L st" and st: "i_top st = t" "i_layers st = L" "0 < L" and s: "s < 64 ^ L"
    and free: "block_free (dom (idr_map nd (i_heap st))) s L"
    and W: "\<And>k. k \<le> L \<Longrightarrow> no_turning_back (dom (idr_map nd (i_heap st))) s k"
  shows "sub_outcome (length fl) t L st ptr s (idr_map nd (i_heap st)) (sub_alloc st ptr (int s))"
proof -
  let ?M = "idr_map nd (i_heap st)"
  have T: "tree_ok nd {} {} t L (i_heap st)" using R by (simp add: idr_rep_def)
  obtain l where l: "L = Suc l" using st(3) by (cases L) auto
  have s0: "s div 64 ^ Suc l = 0" using s unfolding full_block l .
  have root: "nd l 0 = t" "t \<noteq> 0" using tree_ok_root [OF T] l by auto
  have "walk_outcome nd (length fl) t L st [L \<mapsto> 0] l s (int s) ?M
          (sub_alloc_walk st [L \<mapsto> 0] (nd l (s div 64 ^ Suc l)) l (int s) (int s))"
    by (rule sub_alloc_walk_ok [OF R]) (use root s0 free W l in simp_all)
  then obtain nd' fl' st' where 1: "idr_rep nd' fl' t L st'" "idr_map nd' (i_heap st') = ?M" "same_handle st st'"
    and 2: "sub_alloc_walk st [L \<mapsto> 0] t l (int s) (int s) = Some (Sub_Ret (- 1) (int s), st') \<and> length fl < l \<or>
         (\<exists>i pa'. lowest_free (dom ?M) s i \<and> nd' 0 (i div 64) \<noteq> 0 \<and>
            sub_alloc_walk st [L \<mapsto> 0] t l (int s) (int s) =
              Some (Sub_Leaf pa' (nd' 0 (i div 64)) (i mod 64) (int i), st') \<and>
            (\<forall>k. pa' k = (if 0 < k \<and> k \<le> l then Some (nd' k (i div 64 ^ Suc k)) else [L \<mapsto> 0] k)))"
    unfolding walk_outcome_def s0 root by blast
  have L6: "L < 6" using tree_ok_size [OF T] by simp
  show ?thesis using 2
  proof
    assume "sub_alloc_walk st [L \<mapsto> 0] t l (int s) (int s) = Some (Sub_Ret (- 1) (int s), st') \<and> length fl < l"
    then have "sub_alloc st ptr (int s) = Some (- 1, int s, st')" "length fl < L - 1"
      using st L6 l by (simp_all add: sub_alloc_def write_pa_def)
    then show ?thesis using 1 unfolding sub_outcome_def by blast
  next
    assume "\<exists>i pa'. lowest_free (dom ?M) s i \<and> nd' 0 (i div 64) \<noteq> 0 \<and>
            sub_alloc_walk st [L \<mapsto> 0] t l (int s) (int s) =
              Some (Sub_Leaf pa' (nd' 0 (i div 64)) (i mod 64) (int i), st') \<and>
            (\<forall>k. pa' k = (if 0 < k \<and> k \<le> l then Some (nd' k (i div 64 ^ Suc k)) else [L \<mapsto> 0] k))"
    then obtain i pa' where i: "lowest_free (dom ?M) s i" "nd' 0 (i div 64) \<noteq> 0"
        "sub_alloc_walk st [L \<mapsto> 0] t l (int s) (int s) = Some (Sub_Leaf pa' (nd' 0 (i div 64)) (i mod 64) (int i), st')"
      and pa': "\<And>k. pa' k = (if 0 < k \<and> k \<le> l then Some (nd' k (i div 64 ^ Suc k)) else [L \<mapsto> 0] k)" by blast
    have nm: "i \<notin> dom (idr_map nd' (i_heap st'))" using i(1) 1(2) by (simp add: lowest_free_def)
    obtain ly st2 where p: "i_heap st' (nd' 0 (i div 64)) = Some ly"
        "sub_alloc_mark (st'\<lparr>i_heap := (i_heap st')(nd' 0 (i div 64) \<mapsto> ly\<lparr>l_ary := (l_ary ly)[i mod 64 := ptr],
            l_bitmap := set_bit (i mod 64) (l_bitmap ly), l_count := l_count ly + 1\<rparr>)\<rparr>) pa' (nd' 0 (i div 64)) 0 (int i) = Some st2"
        "idr_rep nd' fl' t L st2" "idr_map nd' (i_heap st2) = ?M(i \<mapsto> ptr)" "same_handle st' st2"
      by (rule plant_ok [OF 1(1) i(2) nm, of pa' ptr]) (use pa' l 1(2) in \<open>auto simp del: power_Suc\<close>)
    then have "sub_alloc st ptr (int s) = Some (int i, int s, st2)"
      using st L6 l i(3) by (simp add: sub_alloc_def write_pa_def)
    then show ?thesis using p(3-5) i(1) 1(3) unfolding sub_outcome_def same_handle_def by metis
  qed
qed

section \<open>Growing the tree, and undoing it\<close>

lemma single_slot_layer:
  assumes T: "tree_ok nd {} {} t L h" and L: "1 < L" and ly: "h t = Some ly" and c: "l_count ly = 1" "l_ary ly ! 0 \<noteq> 0"
  shows "ly\<lparr>l_ary := (l_ary ly)[0 := b], l_bitmap := 0, l_count := 0\<rparr> = link_layer b"
proof -
  obtain k where k: "L - 1 = Suc k" using L by (cases "L - 1") auto
  have t: "nd (Suc k) 0 = t" "t \<noteq> 0" using tree_ok_root [OF T] L k by auto
  have ok: "layer_ok nd (marked nd {} h) 0 (Suc k) 0 ly" using tree_ok_lay [OF T, of "Suc k" 0 ly] t ly by simp
  then have len: "length (l_ary ly) = 64" and "card {i. i < 64 \<and> l_ary ly ! i \<noteq> 0} = 1" using c by (simp_all add: layer_ok_inner)
  then obtain z where z: "{i. i < 64 \<and> l_ary ly ! i \<noteq> 0} = {z}" using card_1_singletonE by blast
  have 0: "0 \<in> {i. i < 64 \<and> l_ary ly ! i \<noteq> 0}" using c(2) by simp
  then have z0: "z = 0" unfolding z by simp
  have "l_ary ly ! i = 0" if "0 < i" "i < 64" for i
  proof -
    have "i \<notin> {i. i < 64 \<and> l_ary ly ! i \<noteq> 0}" unfolding z z0 using that by simp
    then show ?thesis using that by simp
  qed
  then have "(l_ary ly)[0 := b] = (replicate 64 0)[0 := b]"
    using len by (intro nth_equalityI) (auto simp: nth_list_update)
  then show ?thesis by (simp add: link_layer_def idr_cache_ctor_def)
qed

lemma rep_drop:
  assumes R: "idr_rep nd fl t L st" and L: "1 < L" and ly: "i_heap st t = Some ly" "l_count ly = 1" "l_ary ly ! 0 \<noteq> 0"
  obtains st' where
    "free_layer (st\<lparr>i_heap := (i_heap st)(t \<mapsto> link_layer b)\<rparr>) t = Some st'"
    "idr_rep (put_node nd (L - 1) 0 0) (t # fl) (l_ary ly ! 0) (L - 1) st'"
    "idr_map (put_node nd (L - 1) 0 0) (i_heap st') = idr_map nd (i_heap st)" "same_handle st st'"
    "\<And>p. p \<noteq> t \<Longrightarrow> i_heap st' p = i_heap st p"
proof -
  let ?nd = "put_node nd (L - 1) 0 0" and ?st = "st\<lparr>i_heap := (i_heap st)(t \<mapsto> link_layer b)\<rparr>"
  have T: "tree_ok nd {} {} t L (i_heap st)" and M: "mem_ok nd fl {} st" using R by (simp_all add: idr_rep_def)
  have t: "nd (L - 1) 0 = t" "t \<noteq> 0" using tree_ok_root [OF T] L by auto
  have tn: "t \<in> nodes nd" using t nodesI [of nd "L - 1" 0] by simp
  have dn: "nodes ?nd = nodes nd - {t}" using nodes_del [OF T, of "L - 1" 0] t by simp
  have "mem_ok ?nd fl {t} ?st" by (rule mem_unlink [OF mem_upd [OF M] dn tn]) (use tn in simp)
  let ?st' = "?st\<lparr>i_heap := (i_heap ?st)(t \<mapsto> link_layer (i_free ?st)), i_free := t, i_free_cnt := i_free_cnt ?st + 1\<rparr>"
  have f: "free_layer ?st t = Some ?st'" and m: "mem_ok ?nd (t # fl) {} ?st'"
    using free_layer_push [of ?nd fl "{t}" ?st t b] \<open>mem_ok ?nd fl {t} ?st\<close> by simp_all
  have T': "tree_ok ?nd {} {} (l_ary ly ! 0) (L - 1) (i_heap ?st')"
    using tree_drop [OF T L ly, of "Some (link_layer (i_free st))"] by simp
  have "idr_map ?nd (i_heap ?st') = idr_map nd (i_heap st)"
  proof -
    have "put_node nd (L - 1) 0 0 0 j = nd 0 j" for j using L by (auto simp: put_node_apply)
    moreover have "nd 0 j \<noteq> t" for j using tree_ok_inj [OF T, of "L - 1" 0 0 j] t L by auto
    ultimately show ?thesis by (simp add: idr_map_def fun_eq_iff)
  qed
  then show thesis using that [OF f] m T' by (simp add: idr_rep_def same_handle_def)
qed

definition stacked :: "idr_nodes \<Rightarrow> idr_heap \<Rightarrow> nat \<Rightarrow> nat \<Rightarrow> bool" where
  "stacked nd h L0 k \<longleftrightarrow> (\<forall>j. L0 \<le> j \<and> j < k \<longrightarrow> (\<exists>ly. h (nd j 0) = Some ly \<and> l_count ly = 1 \<and> l_ary ly ! 0 \<noteq> 0))"

lemma teardown_ok:
  assumes "idr_rep nd fl p k st" "stacked nd (i_heap st) L0 k" "1 \<le> L0" "L0 \<le> k" "nd (L0 - 1) 0 = i_top st"
  shows "\<exists>nd' fl' st'. idr_teardown st p = Some st' \<and> idr_rep nd' fl' (i_top st) L0 st' \<and>
           idr_map nd' (i_heap st') = idr_map nd (i_heap st) \<and> same_handle st st'"
  using assms
proof (induction "k - L0" arbitrary: nd fl p k st)
  case 0
  have T: "tree_ok nd {} {} p k (i_heap st)" using 0(2) by (simp add: idr_rep_def)
  have k: "k = L0" using 0 by simp
  then have "p = i_top st" using tree_ok_root(2) [OF T] 0 by simp
  then have "idr_teardown st p = Some st" by (subst idr_teardown.simps) simp
  then show ?case using 0(2) k \<open>p = i_top st\<close> by (auto simp: same_handle_def)
next
  case (Suc d)
  have T: "tree_ok nd {} {} p k (i_heap st)" using Suc.prems(1) by (simp add: idr_rep_def)
  have k: "1 < k" "L0 \<le> k - 1" using Suc.hyps(2) Suc.prems(3) by simp_all
  have root: "nd (k - 1) 0 = p" "p \<noteq> 0" using tree_ok_root [OF T] k by auto
  obtain ly where ly: "i_heap st p = Some ly" "l_count ly = 1" "l_ary ly ! 0 \<noteq> 0"
    using Suc.prems(2) k root unfolding stacked_def by (metis diff_less less_le_trans zero_less_one less_imp_le Suc.prems(3,4))
  have np: "nd j 0 \<noteq> p" if "j < k - 1" for j
    using tree_ok_inj [OF T, of "k - 1" 0 j 0] root that by auto
  have "L0 - 1 < k - 1" using k Suc.prems(3) by simp
  then have pt: "p \<noteq> i_top st" using np [of "L0 - 1"] Suc.prems(5) by auto
  obtain st' where st': "free_layer (st\<lparr>i_heap := (i_heap st)(p \<mapsto> link_layer 0)\<rparr>) p = Some st'"
    "idr_rep (put_node nd (k - 1) 0 0) (p # fl) (l_ary ly ! 0) (k - 1) st'"
    "idr_map (put_node nd (k - 1) 0 0) (i_heap st') = idr_map nd (i_heap st)" "same_handle st st'"
    "\<And>r. r \<noteq> p \<Longrightarrow> i_heap st' r = i_heap st r"
    by (rule rep_drop [OF Suc.prems(1) k(1) ly, of 0]) blast
  have s: "idr_teardown st p = idr_teardown st' (l_ary ly ! 0)"
    using pt root(2) ly(1) st'(1) single_slot_layer [OF T k(1) ly, of 0] by (subst idr_teardown.simps) simp
  have "\<exists>nd' fl' st''. idr_teardown st' (l_ary ly ! 0) = Some st'' \<and> idr_rep nd' fl' (i_top st') L0 st'' \<and>
           idr_map nd' (i_heap st'') = idr_map (put_node nd (k - 1) 0 0) (i_heap st') \<and> same_handle st' st''"
  proof (rule Suc.hyps(1) [OF _ st'(2)])
    have "put_node nd (k - 1) 0 0 j 0 = nd j 0 \<and> nd j 0 \<noteq> p" if "j < k - 1" for j using np that by (simp add: put_node_apply)
    then show "stacked (put_node nd (k - 1) 0 0) (i_heap st') L0 (k - 1)"
      using Suc.prems(2) st'(5) unfolding stacked_def by (simp add: less_diff_conv)
    show "put_node nd (k - 1) 0 0 (L0 - 1) 0 = i_top st'"
      using Suc.prems(3,5) k st'(4) by (auto simp: put_node_apply same_handle_def)
  qed (use Suc.hyps(2) Suc.prems(3) k in auto)
  then show ?case using s st'(3,4) by (simp add: same_handle_def)
qed

lemma grow_guard: "(2::nat) ^ (k * 6) = 64 ^ k"
  using pow64 [of k, where 'a = nat] by (simp add: mult.commute)

text \<open>An empty top layer is moved up without taking a layer.\<close>

lemma grow_empty:
  assumes "i_heap st p = Some idr_cache_ctor" "k \<le> 5" "s < 64 ^ 5"
  shows "\<exists>k'. idr_grow st p k (int s) = Some (Some (p, k'), st) \<and> k \<le> k' \<and> k' \<le> 5 \<and> s < 64 ^ k'"
  using assms
proof (induction "5 - k" arbitrary: k)
  case 0
  then have "k = 5" by simp
  then show ?case using 0 by (subst idr_grow.simps) simp
next
  case (Suc d)
  have k: "k < 5" using Suc.hyps(2) by simp
  show ?case
  proof (cases "64 ^ k \<le> s")
    case True
    then have "idr_grow st p k (int s) = idr_grow st p (Suc k) (int s)"
      using k Suc.prems by (subst idr_grow.simps) (simp add: grow_guard)
    moreover have "\<exists>k'. idr_grow st p (Suc k) (int s) = Some (Some (p, k'), st) \<and> Suc k \<le> k' \<and> k' \<le> 5 \<and> s < 64 ^ k'"
      by (rule Suc.hyps(1)) (use Suc.hyps(2) Suc.prems in simp_all)
    ultimately show ?thesis using Suc_leD by metis
  next
    case False
    then show ?thesis using Suc.prems by (subst idr_grow.simps) (auto simp: grow_guard)
  qed
qed

lemma rep_lone:
  assumes R: "idr_rep nd fl p k st" and k: "0 < k" and p: "i_heap st p = Some idr_cache_ctor" and k': "0 < k'" "k' \<le> 5"
  shows "idr_rep (lone_root (k' - 1) p) fl p k' st \<and> idr_map (lone_root (k' - 1) p) (i_heap st) = idr_map nd (i_heap st)"
proof -
  have T: "tree_ok nd {} {} p k (i_heap st)" and M: "mem_ok nd fl {} st" using R by (simp_all add: idr_rep_def)
  have p0: "p \<noteq> 0" using tree_ok_root(1) [OF T] k by simp
  have nd: "nd = lone_root (k - 1) p" by (rule tree_empty_top [OF T p0 p])
  have n: "nodes (lone_root l p) = {p}" for l using p0 by (auto simp: nodes_def lone_root_def put_node_apply split: if_splits)
  have m: "idr_map (lone_root l p) (i_heap st) = Map.empty" for l
    using p tree_ok_null [OF T] by (simp add: idr_map_def lone_root_def put_node_apply fun_eq_iff)
  show ?thesis using tree_lone [OF p tree_ok_null [OF T] k' p0] M unfolding nd idr_rep_def mem_ok_def n m by blast
qed

lemma rep_grow:
  assumes R: "idr_rep nd (a # fl) t L st" and L: "0 < L" "L < 5"
  obtains b w where "alloc_layer st = Some (a, st\<lparr>i_free := b, i_free_cnt := i_free_cnt st - 1,
                i_heap := (i_heap st)(a \<mapsto> idr_cache_ctor)\<rparr>)" "a \<noteq> 0" "a \<noteq> t"
    "\<And>tl. i_heap st t = Some tl \<Longrightarrow> w = (if l_bitmap tl = - 1 then set_bit 0 0 else 0)"
    "idr_rep (put_node nd L 0 a) fl a (Suc L) (st\<lparr>i_free := b, i_free_cnt := i_free_cnt st - 1,
       i_heap := (i_heap st)(a \<mapsto> \<lparr>l_bitmap = w, l_ary = (replicate 64 0)[0 := t], l_count = 1\<rparr>)\<rparr>)"
    "idr_map (put_node nd L 0 a) ((i_heap st)(a \<mapsto> \<lparr>l_bitmap = w, l_ary = (replicate 64 0)[0 := t], l_count = 1\<rparr>)) =
       idr_map nd (i_heap st)" "a \<notin> nodes nd"
proof -
  have T: "tree_ok nd {} {} t L (i_heap st)" and M: "mem_ok nd (a # fl) {} st" using R by (simp_all add: idr_rep_def)
  have t: "nd (L - 1) 0 = t" "t \<noteq> 0" using tree_ok_root [OF T] L by auto
  obtain b where b: "alloc_layer st = Some (a, st\<lparr>i_free := b, i_free_cnt := i_free_cnt st - 1,
                i_heap := (i_heap st)(a \<mapsto> idr_cache_ctor)\<rparr>)"
      "mem_ok nd fl {a} (st\<lparr>i_free := b, i_free_cnt := i_free_cnt st - 1, i_heap := (i_heap st)(a \<mapsto> idr_cache_ctor)\<rparr>)"
    using alloc_layer_pop [OF M] by auto
  have a: "a \<notin> nodes nd" "a \<noteq> 0" using mem_okD(5,6) [OF M] by auto
  have na: "nd k j \<noteq> a" for k j by (rule not_node [OF a])
  define w where "w = (if full_at (i_heap st) t then set_bit 0 0 else 0 :: u64)"
  let ?ly = "\<lparr>l_bitmap = w, l_ary = (replicate 64 0)[0 := t], l_count = 1\<rparr>"
  have T': "tree_ok (put_node nd L 0 a) {} {} a (Suc L) ((i_heap st)(a \<mapsto> ?ly))"
    by (rule tree_grow [OF T L a(2) na w_def])
  have "nd L 0 = 0" using tree_ok_up(1) [OF T, of L 0] by auto
  then have M': "mem_ok (put_node nd L 0 a) fl {} (st\<lparr>i_free := b, i_free_cnt := i_free_cnt st - 1, i_heap := (i_heap st)(a \<mapsto> ?ly)\<rparr>)"
    using mem_link [where nd = nd and l = L and q = 0, OF mem_upd [OF b(2), of a ?ly], of a] by simp
  have "put_node nd L 0 a 0 j = nd 0 j" for j using L by (simp add: put_node_apply)
  then have "idr_map (put_node nd L 0 a) ((i_heap st)(a \<mapsto> ?ly)) = idr_map nd (i_heap st)"
    using na by (simp add: idr_map_def fun_eq_iff)
  then show thesis using that [OF b(1) a(2), of w] T' M' na t a(1) by (auto simp: idr_rep_def w_def full_at_def)
qed

definition grow_outcome ::
  "nat \<Rightarrow> nat \<Rightarrow> idr_mem \<Rightarrow> nat \<Rightarrow> (nat \<rightharpoonup> nat) \<Rightarrow> ((nat \<times> nat) option \<times> idr_mem) option \<Rightarrow> bool" where
  "grow_outcome n k st s M r \<longleftrightarrow>
     (\<exists>nd' fl' st'. same_handle st st' \<and> idr_map nd' (i_heap st') = M \<and>
        ((\<exists>p' k'. r = Some (Some (p', k'), st') \<and> idr_rep nd' fl' p' k' st' \<and> s < 64 ^ k' \<and> k \<le> k' \<and>
            n + k \<le> length fl' + k') \<or>
         r = Some (None, st') \<and> idr_rep nd' fl' (i_top st) (i_layers st) st' \<and> n + k < 5))"

lemma grow_ok:
  assumes "idr_rep nd fl p k st" "0 < k" "s < 64 ^ 5"
    "i_heap st p = Some idr_cache_ctor \<or>
     stacked nd (i_heap st) (i_layers st) k \<and> 1 \<le> i_layers st \<and> i_layers st \<le> k \<and> nd (i_layers st - 1) 0 = i_top st"
  shows "grow_outcome (length fl) k st s (idr_map nd (i_heap st)) (idr_grow st p k (int s))"
  using assms
proof (induction "5 - k" arbitrary: nd fl p k st)
  case 0
  then have "k \<le> 5" "5 \<le> k" using tree_ok_size [of nd "{}" "{}" p k] by (auto simp: idr_rep_def)
  then have "idr_grow st p k (int s) = Some (Some (p, k), st)" by (subst idr_grow.simps) simp
  then show ?case using 0 \<open>5 \<le> k\<close> \<open>k \<le> 5\<close> unfolding grow_outcome_def same_handle_def by auto
next
  case (Suc d)
  have T: "tree_ok nd {} {} p k (i_heap st)" using Suc.prems(1) by (simp add: idr_rep_def)
  have k: "k < 5" "0 < k" using Suc.hyps(2) Suc.prems(2) by simp_all
  have root: "nd (k - 1) 0 = p" "p \<noteq> 0" using tree_ok_root [OF T] k by auto
  obtain ly where ly: "i_heap st p = Some ly" using tree_ok_layer [OF T, of "k - 1" 0] root by auto
  consider "s < 64 ^ k" | "64 ^ k \<le> s" "l_count ly = 0" | "64 ^ k \<le> s" "l_count ly \<noteq> 0" by linarith
  then show ?case
  proof cases
    case 1
    then have "idr_grow st p k (int s) = Some (Some (p, k), st)" by (subst idr_grow.simps) (simp add: grow_guard)
    then show ?thesis using Suc.prems(1) 1 unfolding grow_outcome_def same_handle_def by auto
  next
    case 2
    then have c: "i_heap st p = Some idr_cache_ctor" using tree_empty_layer [OF T, of "k - 1" 0 ly] root ly by simp
    obtain k' where k': "idr_grow st p k (int s) = Some (Some (p, k'), st)" "k \<le> k'" "k' \<le> 5" "s < 64 ^ k'"
      using grow_empty [OF c, of k s] k Suc.prems(3) by auto
    then show ?thesis using rep_lone [OF Suc.prems(1) k(2) c, of k'] k unfolding grow_outcome_def same_handle_def by force
  next
    case 3
    then have st4: "stacked nd (i_heap st) (i_layers st) k" "1 \<le> i_layers st" "i_layers st \<le> k" "nd (i_layers st - 1) 0 = i_top st"
      using Suc.prems(4) ly by auto
    show ?thesis
    proof (cases fl)
      case Nil
      then have "alloc_layer st = Some (0, st)" using Suc.prems(1) alloc_layer_none by (auto simp: idr_rep_def)
      then have g: "idr_grow st p k (int s) = map_option (Pair None) (idr_teardown st p)"
        using 3 ly k by (subst idr_grow.simps) (simp add: grow_guard)
      obtain nd' fl' st' where "idr_teardown st p = Some st'" "idr_rep nd' fl' (i_top st) (i_layers st) st'"
           "idr_map nd' (i_heap st') = idr_map nd (i_heap st)" "same_handle st st'"
        using teardown_ok [OF Suc.prems(1) st4] by blast
      then show ?thesis using Nil k g unfolding grow_outcome_def by auto
    next
      case (Cons a fl')
      obtain b w where al: "alloc_layer st = Some (a, st\<lparr>i_free := b, i_free_cnt := i_free_cnt st - 1,
                i_heap := (i_heap st)(a \<mapsto> idr_cache_ctor)\<rparr>)" "a \<noteq> 0" "a \<noteq> p"
        and w: "w = (if l_bitmap ly = - 1 then set_bit 0 0 else 0)"
        and R: "idr_rep (put_node nd k 0 a) fl' a (Suc k) (st\<lparr>i_free := b, i_free_cnt := i_free_cnt st - 1,
           i_heap := (i_heap st)(a \<mapsto> \<lparr>l_bitmap = w, l_ary = (replicate 64 0)[0 := p], l_count = 1\<rparr>)\<rparr>)"
        and M: "idr_map (put_node nd k 0 a) ((i_heap st)(a \<mapsto> \<lparr>l_bitmap = w, l_ary = (replicate 64 0)[0 := p], l_count = 1\<rparr>)) =
           idr_map nd (i_heap st)" and an: "a \<notin> nodes nd"
        by (rule rep_grow [OF Suc.prems(1) [unfolded Cons] k(2,1)]) (use ly in blast)
      define st1 where "st1 = st\<lparr>i_free := b, i_free_cnt := i_free_cnt st - 1,
           i_heap := (i_heap st)(a \<mapsto> \<lparr>l_bitmap = w, l_ary = (replicate 64 0)[0 := p], l_count = 1\<rparr>)\<rparr>"
      have g: "idr_grow st p k (int s) = idr_grow st1 a (Suc k) (int s)"
        using 3 ly k al by (subst idr_grow.simps) (simp add: grow_guard st1_def w idr_cache_ctor_def)
      have "stacked (put_node nd k 0 a) (i_heap st1) (i_layers st) (Suc k)"
        using st4(1) root(2) not_node [OF an al(2)] unfolding stacked_def st1_def
        by (auto simp: less_Suc_eq put_node_apply)
      moreover have "put_node nd k 0 a (i_layers st - 1) 0 = i_top st" using st4(2-4) by (auto simp: put_node_apply)
      moreover have h: "i_top st1 = i_top st" "i_layers st1 = i_layers st" by (simp_all add: st1_def)
      ultimately have "grow_outcome (length fl') (Suc k) st1 s (idr_map (put_node nd k 0 a) (i_heap st1)) (idr_grow st1 a (Suc k) (int s))"
        by (intro Suc.hyps(1)) (use Suc.hyps(2) R Suc.prems(3) st4(2,3) in \<open>auto simp: st1_def\<close>)
      moreover have "idr_map (put_node nd k 0 a) (i_heap st1) = idr_map nd (i_heap st)" using M by (simp add: st1_def)
      ultimately show ?thesis unfolding g grow_outcome_def same_handle_def h using Cons by (auto 0 4 dest: Suc_leD)
    qed
  qed
qed

end
