(* ===== verification/Idr_New.thy ===== *)
theory Idr_New
  imports Idr_Grow
begin

text \<open>
  \<open>idr_get_new_above_int\<close>: one round of the loop, and that two rounds are enough. With nine free layers it never fails
  for want of a layer.
\<close>

definition idr_ok :: "idr_nodes \<Rightarrow> nat list \<Rightarrow> idr_mem \<Rightarrow> bool" where
  "idr_ok nd fl st \<longleftrightarrow> idr_rep nd fl (i_top st) (i_layers st) st"

lemma rep_empty_nodes: "tree_ok nd D C t 0 h \<Longrightarrow> nd = (\<lambda>_ _. 0)"
  using tree_ok_up(1) by (fastforce simp: fun_eq_iff)

lemma first_layer:
  assumes R: "idr_rep nd (a # fl) 0 0 st"
  obtains b where "alloc_layer st = Some (a, st\<lparr>i_free := b, i_free_cnt := i_free_cnt st - 1,
                i_heap := (i_heap st)(a \<mapsto> idr_cache_ctor)\<rparr>)" "a \<noteq> 0"
    "idr_rep (lone_root 0 a) fl a 1 (st\<lparr>i_free := b, i_free_cnt := i_free_cnt st - 1,
                i_heap := (i_heap st)(a \<mapsto> idr_cache_ctor)\<rparr>)"
    "idr_map (lone_root 0 a) ((i_heap st)(a \<mapsto> idr_cache_ctor)) = idr_map nd (i_heap st)"
proof -
  have T: "tree_ok nd {} {} 0 0 (i_heap st)" and M: "mem_ok nd (a # fl) {} st" using R by (simp_all add: idr_rep_def)
  have nd: "nd = (\<lambda>_ _. 0)" by (rule rep_empty_nodes [OF T])
  let ?st = "\<lambda>b. st\<lparr>i_free := b, i_free_cnt := i_free_cnt st - 1, i_heap := (i_heap st)(a \<mapsto> idr_cache_ctor)\<rparr>"
  obtain b where b: "alloc_layer st = Some (a, ?st b)" "mem_ok nd fl {a} (?st b)"
    using alloc_layer_pop [OF M] by auto
  have a: "a \<noteq> 0" using mem_okD(5) [OF M] by auto
  have "tree_ok (lone_root (1 - 1) a) {} {} a 1 (i_heap (?st b))"
    by (rule tree_lone) (use a tree_ok_null [OF T] in simp_all)
  moreover have "mem_ok (lone_root 0 a) fl {} (?st b)"
    using mem_link [OF b(2), of a 0 0] unfolding nd lone_root_def by simp
  moreover have "idr_map (lone_root 0 a) ((i_heap st)(a \<mapsto> idr_cache_ctor)) = idr_map nd (i_heap st)"
    using a tree_ok_null [OF T] by (simp add: idr_map_def nd lone_root_def put_node_apply fun_eq_iff)
  ultimately show thesis using that [OF b(1) a] by (simp add: idr_rep_def)
qed

text \<open>The start of a round: the top layer, a new one if there is none.\<close>

lemma round_start:
  assumes R: "idr_ok nd fl st"
  obtains (dry) "i_top st = 0" "i_layers st = 0" "fl = []" "alloc_layer st = Some (0, st)"
    | (go) p k st1 nd1 fl1 where "(if i_top st = 0 then map_option (\<lambda>(p, s). (p, 1, s)) (alloc_layer st)
        else Some (i_top st, i_layers st, st)) = Some (p, k, st1)" "p \<noteq> 0" "0 < k" "i_layers st \<le> k"
        "length fl + i_layers st = length fl1 + k" "idr_rep nd1 fl1 p k st1" "same_handle st st1"
        "idr_map nd1 (i_heap st1) = idr_map nd (i_heap st)"
        "i_heap st1 p = Some idr_cache_ctor \<or> stacked nd1 (i_heap st1) (i_layers st1) k \<and> 1 \<le> i_layers st1 \<and>
           i_layers st1 \<le> k \<and> nd1 (i_layers st1 - 1) 0 = i_top st1"
proof (cases "i_top st = 0")
  case True
  have T: "tree_ok nd {} {} (i_top st) (i_layers st) (i_heap st)" using R by (simp add: idr_ok_def idr_rep_def)
  have L: "i_layers st = 0" using tree_ok_root(1) [OF T] True by simp
  show thesis
  proof (cases fl)
    case Nil
    then have "alloc_layer st = Some (0, st)" using R alloc_layer_none by (auto simp: idr_ok_def idr_rep_def)
    then show thesis by (rule dry [OF True L Nil])
  next
    case (Cons a fl1)
    have "idr_rep nd (a # fl1) 0 0 st" using R True L Cons by (simp add: idr_ok_def)
    then obtain b where "alloc_layer st = Some (a, st\<lparr>i_free := b, i_free_cnt := i_free_cnt st - 1,
                i_heap := (i_heap st)(a \<mapsto> idr_cache_ctor)\<rparr>)" "a \<noteq> 0"
      "idr_rep (lone_root 0 a) fl1 a 1 (st\<lparr>i_free := b, i_free_cnt := i_free_cnt st - 1,
                i_heap := (i_heap st)(a \<mapsto> idr_cache_ctor)\<rparr>)"
      "idr_map (lone_root 0 a) ((i_heap st)(a \<mapsto> idr_cache_ctor)) = idr_map nd (i_heap st)"
      by (rule first_layer)
    then show thesis using True L Cons
      by (intro go [of a 1 "st\<lparr>i_free := b, i_free_cnt := i_free_cnt st - 1,
                i_heap := (i_heap st)(a \<mapsto> idr_cache_ctor)\<rparr>" fl1 "lone_root 0 a"]) (simp_all add: same_handle_def)
  qed
next
  case False
  have T: "tree_ok nd {} {} (i_top st) (i_layers st) (i_heap st)" using R by (simp add: idr_ok_def idr_rep_def)
  show thesis using False R tree_ok_root [OF T]
    by (intro go [of "i_top st" "i_layers st" st fl nd]) (simp_all add: idr_ok_def same_handle_def stacked_def Suc_le_eq)
qed

text \<open>One round: out of layers, done, or the tree is full and the next round starts behind it.\<close>

definition round_outcome ::
  "nat \<Rightarrow> idr_mem \<Rightarrow> nat \<Rightarrow> nat \<Rightarrow> (nat \<rightharpoonup> nat) \<Rightarrow> (int \<times> idr_mem) option \<Rightarrow> bool" where
  "round_outcome n st ptr s M r \<longleftrightarrow>
     (\<exists>nd' fl' st'. idr_ok nd' fl' st' \<and>
        (r = Some (- 1, st') \<and> idr_map nd' (i_heap st') = M \<and> n + i_layers st < 9 \<or>
         (\<exists>i. lowest_free (dom M) s i \<and> r = Some (int i, st') \<and> idr_map nd' (i_heap st') = M(i \<mapsto> ptr)) \<or>
         r = idr_get_new_above_int st' ptr (64 ^ i_layers st') \<and> idr_map nd' (i_heap st') = M \<and>
           s < 64 ^ i_layers st' \<and> \<not> block_free (dom M) s (i_layers st') \<and> n + i_layers st \<le> length fl' + i_layers st'))"

lemma round_ok:
  assumes R: "idr_ok nd fl st" and s: "s < 64 ^ 5"
    and W: "\<And>k. k \<le> 5 \<Longrightarrow> no_turning_back (dom (idr_map nd (i_heap st))) s k"
  shows "round_outcome (length fl) st ptr s (idr_map nd (i_heap st)) (idr_get_new_above_int st ptr (int s))"
proof -
  let ?M = "idr_map nd (i_heap st)" and ?r = "idr_get_new_above_int st ptr (int s)"
  from R show ?thesis
  proof (cases rule: round_start [case_names dry go, consumes 1])
    case dry
    then have "?r = Some (- 1, st)" by (subst idr_get_new_above_int.simps) simp
    then show ?thesis using R dry unfolding round_outcome_def by auto
  next
    case (go p k st1 nd1 fl1)
    have "grow_outcome (length fl1) k st1 s ?M (idr_grow st1 p k (int s))"
      using grow_ok [OF go(6) go(3) s go(9)] go(8) by simp
    then consider
        (fail) nd2 fl2 st2 where "same_handle st1 st2" "idr_map nd2 (i_heap st2) = ?M"
          "idr_grow st1 p k (int s) = Some (None, st2)" "idr_rep nd2 fl2 (i_top st1) (i_layers st1) st2" "length fl1 + k < 5"
      | (grown) nd2 fl2 st2 p' k' where "same_handle st1 st2" "idr_map nd2 (i_heap st2) = ?M"
          "idr_grow st1 p k (int s) = Some (Some (p', k'), st2)" "idr_rep nd2 fl2 p' k' st2" "s < 64 ^ k'" "k \<le> k'"
          "length fl1 + k \<le> length fl2 + k'"
      unfolding grow_outcome_def by blast
    then show ?thesis
    proof cases
      case fail
      then have "?r = Some (- 1, st2)" using go(1,2) by (subst idr_get_new_above_int.simps) simp
      then show ?thesis using fail go(5) unfolding round_outcome_def idr_ok_def same_handle_def by force
    next
      case grown
      define st3 where "st3 = st2\<lparr>i_top := p', i_layers := k'\<rparr>"
      have R3: "idr_rep nd2 fl2 p' k' st3" using grown(4) by (simp add: st3_def idr_rep_def mem_ok_def)
      have f3: "i_top st3 = p'" "i_layers st3 = k'" "0 < k'" "idr_map nd2 (i_heap st3) = ?M"
        using go(3) grown(2,6) by (simp_all add: st3_def)
      have r: "?r = do { (v, id1, st4) \<leftarrow> sub_alloc st3 ptr (int s);
                         if v = - 2 then idr_get_new_above_int st4 ptr id1 else Some (v, st4) }"
        using go(1,2) grown(3) by (subst idr_get_new_above_int.simps) (simp add: st3_def)
      have k5: "k' \<le> 5" using R3 tree_ok_size by (auto simp: idr_rep_def)
      show ?thesis
      proof (cases "block_free (dom ?M) s k'")
        case False
        then have "sub_alloc st3 ptr (int s) = Some (- 2, 64 ^ k', st3)"
          using sub_alloc_full [OF R3 f3(1-3) grown(5)] f3(4) by simp
        then have "?r = idr_get_new_above_int st3 ptr (64 ^ k')" using r by simp
        then show ?thesis using False R3 f3 grown(5,7) go(5) unfolding round_outcome_def idr_ok_def
          by (intro exI [of _ nd2] exI [of _ fl2] exI [of _ st3]) simp
      next
        case True
        have "sub_outcome (length fl2) p' k' st3 ptr s ?M (sub_alloc st3 ptr (int s))"
          using sub_alloc_ok [OF R3 f3(1-3) grown(5), of ptr] True W k5 f3(4) by simp
        then obtain nd4 fl4 st4 where 4: "idr_rep nd4 fl4 p' k' st4" "same_handle st3 st4"
          "sub_alloc st3 ptr (int s) = Some (- 1, int s, st4) \<and> idr_map nd4 (i_heap st4) = ?M \<and> length fl2 < k' - 1 \<or>
           (\<exists>i. lowest_free (dom ?M) s i \<and> sub_alloc st3 ptr (int s) = Some (int i, int s, st4) \<and>
              idr_map nd4 (i_heap st4) = ?M(i \<mapsto> ptr))"
          unfolding sub_outcome_def by blast
        then have "idr_ok nd4 fl4 st4" using f3 by (simp add: idr_ok_def same_handle_def)
        moreover have "?r = Some (- 1, st4) \<and> idr_map nd4 (i_heap st4) = ?M \<and> length fl + i_layers st < 9 \<or>
           (\<exists>i. lowest_free (dom ?M) s i \<and> ?r = Some (int i, st4) \<and> idr_map nd4 (i_heap st4) = ?M(i \<mapsto> ptr))"
          using 4(3) r grown(7) go(5) k5 by auto
        ultimately show ?thesis unfolding round_outcome_def by blast
      qed
    qed
  qed
qed

text \<open>A full tree is followed by one more round, at the first identifier behind it.\<close>

lemma next_round_start:
  assumes full: "\<not> block_free A s L" and s: "s < 64 ^ L"
  shows "no_turning_back A (64 ^ L) k"
proof -
  have low: "j \<in> A" if "j < 64 ^ L" for j
    using full s that unfolding block_free_def full_block by auto
  have "64 ^ L \<le> j" if "j \<notin> A" for j using low that by (meson linorder_not_le)
  then show ?thesis unfolding no_turning_back_def block_free_def by auto
qed

lemma idr_get_new_above_int_ok:
  assumes R: "idr_ok nd fl st" and W: "\<And>k. k \<le> 5 \<Longrightarrow> no_turning_back (dom (idr_map nd (i_heap st))) s k"
    and j: "s \<le> j" "j < 64 ^ 5" "j \<notin> dom (idr_map nd (i_heap st))"
  shows "\<exists>nd' fl' st'. idr_ok nd' fl' st' \<and>
    (idr_get_new_above_int st ptr (int s) = Some (- 1, st') \<and> idr_map nd' (i_heap st') = idr_map nd (i_heap st) \<and>
       length fl + i_layers st < 9 \<or>
     (\<exists>i. lowest_free (dom (idr_map nd (i_heap st))) s i \<and> idr_get_new_above_int st ptr (int s) = Some (int i, st') \<and>
        idr_map nd' (i_heap st') = (idr_map nd (i_heap st))(i \<mapsto> ptr)))"
proof -
  let ?M = "idr_map nd (i_heap st)" and ?r = "idr_get_new_above_int st ptr (int s)"
  have s5: "s < 64 ^ 5" using j by simp
  have "round_outcome (length fl) st ptr s ?M ?r" by (rule round_ok [OF R s5 W])
  then consider (last) "\<exists>nd' fl' st'. idr_ok nd' fl' st' \<and>
        (?r = Some (- 1, st') \<and> idr_map nd' (i_heap st') = ?M \<and> length fl + i_layers st < 9 \<or>
         (\<exists>i. lowest_free (dom ?M) s i \<and> ?r = Some (int i, st') \<and> idr_map nd' (i_heap st') = ?M(i \<mapsto> ptr)))"
    | (more) nd1 fl1 st1 where "idr_ok nd1 fl1 st1" "?r = idr_get_new_above_int st1 ptr (64 ^ i_layers st1)"
        "idr_map nd1 (i_heap st1) = ?M" "s < 64 ^ i_layers st1" "\<not> block_free (dom ?M) s (i_layers st1)"
        "length fl + i_layers st \<le> length fl1 + i_layers st1"
    unfolding round_outcome_def by blast
  then show ?thesis
  proof cases
    case more
    let ?L = "i_layers st1"
    have low: "i \<in> dom ?M" if "i < 64 ^ ?L" for i
      using more(4,5) that unfolding block_free_def full_block by auto
    have "64 ^ ?L \<le> j" using low j(3) by (meson linorder_not_le)
    then have L5: "(64::nat) ^ ?L < 64 ^ 5" using j(2) by linarith
    have T1: "tree_ok nd1 {} {} (i_top st1) ?L (i_heap st1)" using more(1) by (simp add: idr_ok_def idr_rep_def)
    have free: "64 ^ ?L \<notin> dom ?M" using dom_bound [OF T1, of "64 ^ ?L"] more(3) by auto
    have "round_outcome (length fl1) st1 ptr (64 ^ ?L) ?M (idr_get_new_above_int st1 ptr (int (64 ^ ?L)))"
      using round_ok [OF more(1) L5, of ptr] next_round_start [OF more(5,4)] unfolding more(3) by blast
    then have "round_outcome (length fl1) st1 ptr (64 ^ ?L) ?M ?r" using more(2) by simp
    moreover have "block_free (dom ?M) (64 ^ ?L) k" for k using free unfolding block_free_def by blast
    ultimately obtain nd2 fl2 st2 where "idr_ok nd2 fl2 st2" "?r = Some (- 1, st2) \<and> idr_map nd2 (i_heap st2) = ?M \<and>
          length fl1 + ?L < 9 \<or>
         (\<exists>i. lowest_free (dom ?M) (64 ^ ?L) i \<and> ?r = Some (int i, st2) \<and> idr_map nd2 (i_heap st2) = ?M(i \<mapsto> ptr))"
      unfolding round_outcome_def by blast
    moreover have "lowest_free (dom ?M) s i" if "lowest_free (dom ?M) (64 ^ ?L) i" for i
      by (rule lowest_free_skip [OF that]) (use more(4) low in auto)
    ultimately show ?thesis using more(6)
      by (intro exI [of _ nd2] exI [of _ fl2] exI [of _ st2]) auto
  qed blast
qed

end
