(* ===== verification/Idr_Remove.thy ===== *)
theory Idr_Remove
  imports Idr_New
begin

text \<open>Lookup, replacement and removal of identifiers, and the cache of layers.\<close>

section \<open>Lookup\<close>

lemma mask31: "(x::int) AND 2147483647 = x mod 2147483648"
  using take_bit_eq_mask [of 31 x] by (simp add: take_bit_eq_mod mask_eq_exp_minus_1)

lemma node_up:
  assumes T: "tree_ok nd D C t L h" and n: "nd 0 (r div 64) \<noteq> 0" and l: "l < L"
  shows "nd l (r div 64 ^ Suc l) \<noteq> 0"
  using l
proof (induction l)
  case 0 then show ?case using n by simp
next
  case (Suc l)
  then have "nd l (r div 64 ^ Suc l) \<noteq> 0" by simp
  then show ?case using tree_ok_up(2) [OF T] Suc.prems unfolding div_Suc64 [of r "Suc l"] by blast
qed

lemma no_node_no_id:
  assumes T: "tree_ok nd D C t L h" and z: "nd l (r div 64 ^ Suc l) = 0" and l: "l < L"
  shows "r \<notin> dom (idr_map nd h)"
  using node_up [OF T _ l, of r] z dom_node [of r nd h] tree_ok_null [OF T] by blast

definition found :: "nat option \<Rightarrow> nat" where
  "found v = (case v of None \<Rightarrow> 0 | Some p \<Rightarrow> p)"

lemma find_walk_ok:
  assumes T: "tree_ok nd {} {} t L (i_heap st)" and l: "l < L"
  shows "idr_find_walk st (Suc l) (nd l (r div 64 ^ Suc l)) (int r) = Some (found (idr_map nd (i_heap st) r))"
  using l
proof (induction l)
  case 0
  show ?case
  proof (cases "nd 0 (r div 64) = 0")
    case True
    then show ?thesis using tree_ok_null [OF T] by (simp add: idr_map_def found_def)
  next
    case False
    obtain ly where ly: "i_heap st (nd 0 (r div 64)) = Some ly"
        and ok: "layer_ok nd (marked nd {} (i_heap st)) 0 0 (r div 64) ly"
      using tree_ok_layer [OF T False] by auto
    then show ?thesis using False digit_int [of 0 r] by (auto simp: idr_map_def found_def layer_ok_leaf dig_def)
  qed
next
  case (Suc l)
  show ?case
  proof (cases "nd (Suc l) (r div 64 ^ Suc (Suc l)) = 0")
    case True
    then have "r \<notin> dom (idr_map nd (i_heap st))" using no_node_no_id [OF T] Suc.prems by blast
    then have "idr_map nd (i_heap st) r = None" by blast
    then show ?thesis using True by (simp add: found_def del: power_Suc)
  next
    case False
    then obtain ly where ly: "i_heap st (nd (Suc l) (r div 64 ^ Suc (Suc l))) = Some ly" using tree_ok_layer [OF T] by blast
    have "l_ary ly ! dig r (Suc l) = nd l (r div 64 ^ Suc l)"
      using tree_ok_children(1) [OF T False ly dig_less, of r "Suc l"] unfolding div_digit by simp
    then show ?thesis using False ly Suc.IH Suc.prems digit_int [of "Suc l" r] by (simp del: power_Suc idr_find_walk.simps add: idr_find_walk.simps(2) [of st "Suc l"])
  qed
qed

lemma idr_find_ok:
  assumes R: "idr_ok nd fl st"
  shows "idr_find st idn = Some (found (idr_map nd (i_heap st) (nat (idn mod 2147483648))))"
proof -
  define r where "r = nat (idn mod 2147483648)"
  have ir: "idn AND 2147483647 = int r" by (simp add: mask31 r_def)
  let ?L = "i_layers st"
  have T: "tree_ok nd {} {} (i_top st) ?L (i_heap st)" using R by (simp add: idr_ok_def idr_rep_def)
  have g: "push_bit (?L * 6) (1::int) \<le> int r \<longleftrightarrow> 64 ^ ?L \<le> r" by (simp add: grow_guard)
  show ?thesis
  proof (cases "64 ^ ?L \<le> r")
    case True
    then have "r \<notin> dom (idr_map nd (i_heap st))" using dom_bound [OF T, of r] by auto
    then have "idr_map nd (i_heap st) r = None" by blast
    then show ?thesis using True by (simp add: idr_find_def ir g found_def r_def [symmetric] del: push_bit_of_1)
  next
    case lt: False
    show ?thesis
    proof (cases ?L)
      case 0
      then have "nd = (\<lambda>_ _. 0)" "i_top st = 0" using rep_empty_nodes tree_ok_root(1) [OF T] T by auto
      then show ?thesis using 0 lt tree_ok_null [OF T]
        by (simp add: idr_find_def ir g found_def r_def [symmetric] idr_map_def del: push_bit_of_1)
    next
      case (Suc l)
      have "nd l 0 = i_top st" using tree_ok_root(2) [OF T] Suc by simp
      moreover have "r div 64 ^ Suc l = 0" using lt unfolding Suc by (simp add: not_le div_eq_0_iff)
      ultimately have "idr_find_walk st ?L (i_top st) (int r) = Some (found (idr_map nd (i_heap st) r))"
        using find_walk_ok [OF T, of l r] Suc by (simp del: idr_find_walk.simps power_Suc)
      then show ?thesis using lt g unfolding idr_find_def ir Let_def r_def [symmetric] by (simp only: if_False)
    qed
  qed
qed

section \<open>Replacement\<close>

lemma replace_walk_ok:
  assumes T: "tree_ok nd D C t L (i_heap st)" and l: "l < L"
  shows "idr_replace_walk st l (nd l (r div 64 ^ Suc l)) (int r) = Some (nd 0 (r div 64))"
  using l
proof (induction l)
  case (Suc l)
  show ?case
  proof (cases "nd (Suc l) (r div 64 ^ Suc (Suc l)) = 0")
    case True
    then have "nd 0 (r div 64) = 0" using node_up [OF T, of r "Suc l"] Suc.prems by auto
    then show ?thesis using True by (simp del: power_Suc)
  next
    case False
    then obtain ly where ly: "i_heap st (nd (Suc l) (r div 64 ^ Suc (Suc l))) = Some ly" using tree_ok_layer [OF T] by blast
    have "l_ary ly ! dig r (Suc l) = nd l (r div 64 ^ Suc l)"
      using tree_ok_children(1) [OF T False ly dig_less, of r "Suc l"] unfolding div_digit by simp
    then show ?thesis using False ly Suc.IH Suc.prems digit_int [of "Suc l" r] by (simp del: power_Suc)
  qed
qed simp

lemma tree_set_slot:
  assumes T: "tree_ok nd {} {} t L h" and p: "nd 0 q \<noteq> 0" and ly: "h (nd 0 q) = Some ly" and b: "bit (l_bitmap ly) n"
  shows "tree_ok nd {} {} t L (h(nd 0 q \<mapsto> ly\<lparr>l_ary := (l_ary ly)[n := ptr]\<rparr>))" (is "tree_ok _ _ _ _ _ (h(?p \<mapsto> ?ly))")
proof (rule tree_upd [OF T p])
  show "layer_ok nd (marked nd {} (h(?p \<mapsto> ?ly))) (of_bool ((0, q) \<in> {})) 0 q ?ly"
    using tree_ok_lay [OF T p ly] b by (auto simp: layer_ok_leaf) (metis nth_list_update_neq)
  show "marked nd {} (h(?p \<mapsto> ?ly)) k j = marked nd {} h k j" for k j
    using ly by (auto simp: marked_def) (auto simp: full_at_def)
qed simp

lemma map_set_slot:
  assumes T: "tree_ok nd D C t L h" and n: "nd 0 (r div 64) \<noteq> 0" and ly: "h (nd 0 (r div 64)) = Some ly"
    and b: "bit (l_bitmap ly) (r mod 64)"
  shows "idr_map nd (h(nd 0 (r div 64) \<mapsto> ly\<lparr>l_ary := (l_ary ly)[r mod 64 := ptr]\<rparr>)) = (idr_map nd h)(r \<mapsto> ptr)"
proof -
  have "set_bit (r mod 64) (l_bitmap ly) = l_bitmap ly" using b by (intro bit_word_eqI) (auto simp: bit_set_bit_iff)
  then show ?thesis using map_plant [OF T n ly, of "r mod 64", where ptr = ptr and c = "l_count ly"] by simp
qed

lemma idr_replace_ok:
  assumes R: "idr_ok nd fl st" and r: "r = nat (idn mod 2147483648)"
  shows "\<exists>st'. idr_ok nd fl st' \<and>
    (case idr_map nd (i_heap st) r of
       None \<Rightarrow> idr_replace st ptr idn = Some (Inl (if 64 ^ i_layers st \<le> r then - 22 else - 2), st) \<and> st' = st
     | Some old \<Rightarrow> idr_replace st ptr idn = Some (Inr old, st') \<and> idr_map nd (i_heap st') = (idr_map nd (i_heap st))(r \<mapsto> ptr))"
proof -
  let ?L = "i_layers st" and ?p = "nd 0 (r div 64)"
  have ir: "idn AND 2147483647 = int r" by (simp add: mask31 r)
  have T: "tree_ok nd {} {} (i_top st) ?L (i_heap st)" and M: "mem_ok nd fl {} st" using R by (simp_all add: idr_ok_def idr_rep_def)
  have g: "push_bit (?L * 6) (1::int) \<le> int r \<longleftrightarrow> 64 ^ ?L \<le> r" by (simp add: grow_guard)
  have n: "nat (int r AND 63) = r mod 64" using digit_int [of 0 r] by (simp add: dig_def)
  show ?thesis
  proof (cases "64 ^ ?L \<le> r")
    case True
    then have "r \<notin> dom (idr_map nd (i_heap st))" using dom_bound [OF T, of r] by auto
    then have "idr_map nd (i_heap st) r = None" by blast
    then show ?thesis using True R by (simp add: idr_replace_def ir g del: push_bit_of_1)
  next
    case lt: False
    have w: "idr_replace_walk st (?L - 1) (i_top st) (int r) = Some ?p"
    proof (cases ?L)
      case 0
      then have "nd = (\<lambda>_ _. 0)" "i_top st = 0" using rep_empty_nodes tree_ok_root(1) [OF T] T by auto
      then show ?thesis using 0 by simp
    next
      case (Suc l)
      have "nd l 0 = i_top st" using tree_ok_root(2) [OF T] Suc by simp
      moreover have "r div 64 ^ Suc l = 0" using lt unfolding Suc by (simp add: not_le div_eq_0_iff)
      ultimately show ?thesis using replace_walk_ok [OF T, of l r] Suc by simp
    qed
    show ?thesis
    proof (cases "?p = 0")
      case True
      then show ?thesis using w lt g R tree_ok_null [OF T] by (simp add: idr_replace_def ir n idr_map_def Let_def del: push_bit_of_1)
    next
      case False
      then obtain ly where ly: "i_heap st ?p = Some ly" using tree_ok_layer [OF T] by blast
      show ?thesis
      proof (cases "bit (l_bitmap ly) (r mod 64)")
        case b: True
        let ?st = "st\<lparr>i_heap := (i_heap st)(?p \<mapsto> ly\<lparr>l_ary := (l_ary ly)[r mod 64 := ptr]\<rparr>)\<rparr>"
        have "idr_replace st ptr idn = Some (Inr (l_ary ly ! (r mod 64)), ?st)"
          using w lt g False ly b by (simp add: idr_replace_def ir n Let_def del: push_bit_of_1)
        moreover have "idr_ok nd fl ?st"
          using tree_set_slot [OF T False ly b, of ptr] mem_upd [OF M, of ?p] nodesI [of nd 0 "r div 64"] False
          by (simp add: idr_ok_def idr_rep_def)
        ultimately show ?thesis using map_set_slot [OF T False ly b] ly b by (intro exI [of _ ?st]) (simp add: idr_map_def)
      next
        case b: False
        then show ?thesis using w lt g False ly R by (simp add: idr_replace_def ir n idr_map_def Let_def del: push_bit_of_1)
      qed
    qed
  qed
qed

section \<open>Removal\<close>

text \<open>The place that holds the pointer to the layer of \<open>r\<close> at level \<open>l\<close>.\<close>

definition place_of :: "idr_nodes \<Rightarrow> nat \<Rightarrow> nat \<Rightarrow> nat \<Rightarrow> place" where
  "place_of nd L r l = (if Suc l = L then Top else Slot (nd (Suc l) (r div 64 ^ Suc (Suc l))) (dig r (Suc l)))"

lemma remove_walk_ok:
  assumes "tree_ok nd {(l, r div 64 ^ Suc l)} {} t L (i_heap st)" "mem_ok nd fl {} st" "l < L"
    "\<And>k. k < L \<Longrightarrow> nat (drop_bit (6 * k) idn AND 63) = dig r k"
  shows "\<exists>paa p st'. sub_remove_walk st (map (place_of nd L r) [l..<L]) (nd l (r div 64 ^ Suc l)) (6 * int l) idn = Some (paa, p, st') \<and>
    mem_ok nd fl {} st' \<and> same_handle st st' \<and> idr_map nd (i_heap st') = idr_map nd (i_heap st) \<and>
    (p = 0 \<and> tree_ok nd {} {} t L (i_heap st') \<and> r \<notin> dom (idr_map nd (i_heap st)) \<or>
     p = nd 0 (r div 64) \<and> p \<noteq> 0 \<and> paa = map (place_of nd L r) [0..<L] \<and> tree_ok nd {(0, r div 64)} {} t L (i_heap st'))"
  using assms
proof (induction l arbitrary: st)
  case 0
  have "sub_remove_walk st (map (place_of nd L r) [0..<L]) (nd 0 (r div 64 ^ Suc 0)) (6 * int 0) idn =
      Some (map (place_of nd L r) [0..<L], nd 0 (r div 64 ^ Suc 0), st)" by (subst sub_remove_walk.simps) simp
  moreover have "tree_ok nd {} {} t L (i_heap st)" if "nd 0 (r div 64) = 0"
    by (rule tree_unmarked [OF 0(1)]) (use that not_full_null [OF 0(1)] in auto)
  moreover have "r \<notin> dom (idr_map nd (i_heap st))" if "nd 0 (r div 64) = 0"
    using no_node_no_id [OF 0(1), of 0 r] that 0(3) by simp
  ultimately show ?case using 0(1,2) by (cases "nd 0 (r div 64) = 0") (auto simp: same_handle_def)
next
  case (Suc l)
  let ?q = "r div 64 ^ Suc (Suc l)" and ?paa = "map (place_of nd L r)"
  note T = Suc.prems(1)
  show ?case
  proof (cases "nd (Suc l) ?q = 0")
    case True
    then have "sub_remove_walk st (?paa [Suc l..<L]) (nd (Suc l) ?q) (6 * int (Suc l)) idn = Some (?paa [Suc l..<L], 0, st)"
      by (subst sub_remove_walk.simps) (simp del: power_Suc)
    moreover have "tree_ok nd {} {} t L (i_heap st)"
      by (rule tree_unmarked [OF T]) (use True not_full_null [OF T] in \<open>auto simp del: power_Suc\<close>)
    moreover have "r \<notin> dom (idr_map nd (i_heap st))" by (rule no_node_no_id [OF T True Suc.prems(3)])
    ultimately show ?thesis using Suc.prems(2) by (auto simp: same_handle_def simp del: power_Suc)
  next
    case False
    then obtain ly where ly: "i_heap st (nd (Suc l) ?q) = Some ly" using tree_ok_layer [OF T] by blast
    let ?n = "dig r (Suc l)"
    let ?st = "st\<lparr>i_heap := (i_heap st)(nd (Suc l) ?q \<mapsto> ly\<lparr>l_bitmap := unset_bit ?n (l_bitmap ly)\<rparr>)\<rparr>"
    have ch: "l_ary ly ! ?n = nd l (r div 64 ^ Suc l)"
      using tree_ok_children(1) [OF T False ly dig_less, of r "Suc l"] unfolding div_digit by simp
    have paa: "?paa [l..<L] = Slot (nd (Suc l) ?q) ?n # ?paa [Suc l..<L]"
      using Suc.prems(3) by (simp add: upt_conv_Cons [of l] place_of_def del: power_Suc)
    have "L \<le> 5" by (rule tree_ok_size [OF T])
    then have len: "Suc (L - Suc l) < 6" using Suc.prems(3) by simp
    have sh: "nat (6 * int (Suc l)) = 6 * Suc l" "6 * int (Suc l) - 6 = 6 * int l" "6 * int (Suc l) > 0" by simp_all
    have dg: "nat (drop_bit (6 * Suc l) idn AND 63) = ?n" by (rule Suc.prems(4) [OF Suc.prems(3)])
    have s: "sub_remove_walk st (?paa [Suc l..<L]) (nd (Suc l) ?q) (6 * int (Suc l)) idn =
        sub_remove_walk ?st (?paa [l..<L]) (nd l (r div 64 ^ Suc l)) (6 * int l) idn"
      using False ly len sh dg ch unfolding paa
      by (subst sub_remove_walk.simps) (simp add: Let_def del: power_Suc mult_Suc_right of_nat_Suc)
    have T1: "tree_ok nd {(l, r div 64 ^ Suc l)} {} t L (i_heap ?st)"
      using tree_unmark [OF T False ly dig_less, of r "Suc l"] unfolding div_digit by simp
    have M1: "mem_ok nd fl {} ?st" by (rule mem_upd [OF Suc.prems(2)]) (use nodesI [of nd "Suc l"] False in blast)
    have m1: "idr_map nd (i_heap ?st) = idr_map nd (i_heap st)" using map_inner [OF T False] by simp
    have "same_handle ?st = same_handle st" by (simp add: same_handle_def fun_eq_iff)
    then show ?thesis using Suc.IH [OF T1 M1 Suc_lessD [OF Suc.prems(3)] Suc.prems(4)] unfolding s m1 by simp
  qed
qed

text \<open>Giving up an empty layer: it moves from the tree to the free list.\<close>

lemma release_layer:
  assumes T: "tree_ok nd {} {} t L (i_heap st)" and M: "mem_ok nd fl {} st" and n: "nd l q \<noteq> 0"
    and c: "i_heap st (nd l q) = Some idr_cache_ctor"
  obtains st' where "free_layer st (nd l q) = Some st'" "mem_ok (put_node nd l q 0) (nd l q # fl) {} st'"
    "i_heap st' = (i_heap st)(nd l q \<mapsto> link_layer (i_free st))" "same_handle st st'"
    "idr_map (put_node nd l q 0) (i_heap st') = idr_map nd (i_heap st)"
proof -
  let ?st = "st\<lparr>i_heap := (i_heap st)(nd l q \<mapsto> link_layer (i_free st)), i_free := nd l q, i_free_cnt := i_free_cnt st + 1\<rparr>"
  have "mem_ok (put_node nd l q 0) fl {nd l q} st"
    by (rule mem_unlink [OF M nodes_del [OF T n]]) (use nodesI [of nd l q] n in blast)
  then have f: "free_layer st (nd l q) = Some ?st" "mem_ok (put_node nd l q 0) (nd l q # fl) {} ?st"
    using free_layer_push [of "put_node nd l q 0" fl "{nd l q}" st "nd l q" 0] c by simp_all
  have nn: "nd l q \<notin> nodes (put_node nd l q 0)" using nodes_del [OF T n] by simp
  have "idr_map (put_node nd l q 0) (i_heap ?st) = idr_map (put_node nd l q 0) (i_heap st)"
    using map_frame [OF nn n] by simp
  also have "\<dots> = idr_map nd (i_heap st)"
    by (rule map_put) (use c tree_ok_null [OF T] in \<open>simp_all add: no_bits_def\<close>)
  finally show thesis using that [OF f] by (simp add: same_handle_def)
qed

lemma tree_nothing: "h 0 = None \<Longrightarrow> tree_ok (\<lambda>_ _. 0) {} {} 0 0 h"
  by (rule tree_okI) auto

definition release_outcome ::
  "nat \<Rightarrow> nat \<Rightarrow> nat \<Rightarrow> (nat \<rightharpoonup> nat) \<Rightarrow> (bool \<times> idr_mem) option \<Rightarrow> bool" where
  "release_outcome t L L' M r \<longleftrightarrow>
     (\<exists>e nd' fl' st'. r = Some (e, st') \<and> idr_map nd' (i_heap st') = M \<and> i_layers st' = L' \<and>
        i_top st' = (if e then 0 else t) \<and> idr_rep nd' fl' (i_top st') (if e then 0 else L) st')"

lemma release_ok:
  assumes "tree_ok nd {} {(l, r div 64 ^ Suc l)} t L (i_heap st)" "mem_ok nd fl {} st" "l < L"
    "nd l (r div 64 ^ Suc l) \<noteq> 0" "i_top st = t"
  shows "release_outcome t L (i_layers st) (idr_map nd (i_heap st)) (sub_remove_release st (map (place_of nd L r) [l..<L]))"
  using assms
proof (induction "L - l" arbitrary: l nd st fl)
  case (Suc d)
  let ?q = "r div 64 ^ Suc l"
  let ?p = "nd l ?q"
  note T = Suc.prems(1) and M = Suc.prems(2) and n = Suc.prems(4)
  obtain ly where ly: "i_heap st ?p = Some ly" using tree_ok_layer [OF T n] by blast
  have paa: "map (place_of nd L r) [l..<L] = place_of nd L r l # map (place_of nd L r) [Suc l..<L]"
    using Suc.prems(3) by (simp add: upt_conv_Cons [of l])
  have up: "nd (Suc l) (?q div 64) \<noteq> 0" if "Suc l < L" using tree_ok_up(2) [OF T n that] .
  have qd: "r div 64 ^ Suc (Suc l) = ?q div 64" "dig r (Suc l) = ?q mod 64" by (simp_all only: div_Suc64 [of r "Suc l"] dig_def)
  have rd: "read_place st (place_of nd L r l) = Some ?p"
  proof (cases "Suc l < L")
    case True
    then obtain lp where lp: "i_heap st (nd (Suc l) (?q div 64)) = Some lp" using tree_ok_layer [OF T up] by blast
    have "l_ary lp ! (?q mod 64) = ?p" using tree_ok_children(1) [OF T up [OF True] lp, of "?q mod 64"] by simp
    then show ?thesis using True lp unfolding place_of_def qd by simp
  next
    case False
    then have L: "Suc l = L" using Suc.prems(3) by simp
    then have "?q = 0" "nd l 0 = t" using tree_ok_up(3) [OF T n] tree_ok_root(2) [OF T] by auto
    then show ?thesis using L Suc.prems(5) by (simp add: place_of_def del: power_Suc)
  qed
  define st1 where "st1 = st\<lparr>i_heap := (i_heap st)(?p \<mapsto> ly\<lparr>l_count := l_count ly - 1\<rparr>)\<rparr>"
  have T1: "tree_ok nd {} {} t L (i_heap st1)" using tree_count [OF T n ly] by (simp add: st1_def)
  have M1: "mem_ok nd fl {} st1" unfolding st1_def by (rule mem_upd [OF M]) (use nodesI [of nd l] n in blast)
  have map1: "idr_map nd (i_heap st1) = idr_map nd (i_heap st)" 
    using map_same_slots [of "i_heap st" ?p ly "ly\<lparr>l_count := l_count ly - 1\<rparr>" nd] ly by (simp add: st1_def)
  have h1: "i_top st1 = t" "i_layers st1 = i_layers st" using Suc.prems(5) by (simp_all add: st1_def)
  have rel: "sub_remove_release st (place_of nd L r l # paa') =
      (if l_count ly - 1 = 0
       then do { st2 \<leftarrow> free_layer st1 ?p; st3 \<leftarrow> clear_place st2 (place_of nd L r l); sub_remove_release st3 paa' }
       else Some (False, st1))" for paa'
    using rd ly by (simp add: st1_def Let_def del: power_Suc)
  show ?case
  proof (cases "l_count ly - 1 = 0")
    case False
    then show ?thesis unfolding paa rel release_outcome_def
      by (intro exI [of _ False] exI [of _ nd] exI [of _ fl] exI [of _ st1]) (use T1 M1 map1 h1 in \<open>simp add: idr_rep_def\<close>)
  next
    case c0: True
    have "i_heap st1 ?p = Some (ly\<lparr>l_count := l_count ly - 1\<rparr>)" by (simp add: st1_def)
    then have c: "i_heap st1 ?p = Some idr_cache_ctor" using tree_empty_layer [OF T1 n] c0 by simp
    obtain st2 where st2: "free_layer st1 ?p = Some st2" "mem_ok (put_node nd l ?q 0) (?p # fl) {} st2"
        "i_heap st2 = (i_heap st1)(?p \<mapsto> link_layer (i_free st1))" "same_handle st1 st2"
        "idr_map (put_node nd l ?q 0) (i_heap st2) = idr_map nd (i_heap st1)"
      by (rule release_layer [OF T1 M1 n c])
    let ?nd = "put_node nd l ?q 0"
    show ?thesis
    proof (cases "Suc l < L")
      case True
      let ?pp = "nd (Suc l) (?q div 64)"
      have pp: "?pp \<noteq> 0" "?pp \<noteq> ?p" using up [OF True] tree_ok_inj [OF T1 _ n, of "Suc l" "?q div 64"] by auto
      obtain lp where lp: "i_heap st1 ?pp = Some lp" using tree_ok_layer [OF T1 pp(1)] by blast
      define st3 where "st3 = st2\<lparr>i_heap := (i_heap st2)(?pp \<mapsto> lp\<lparr>l_ary := (l_ary lp)[?q mod 64 := 0]\<rparr>)\<rparr>"
      have cl: "clear_place st2 (place_of nd L r l) = Some st3"
        using True lp pp st2(3) unfolding place_of_def qd by (simp add: st3_def del: power_Suc)
      have T3: "tree_ok ?nd {} {(Suc l, r div 64 ^ Suc (Suc l))} t L (i_heap st3)"
        unfolding st3_def qd using tree_detach [OF T1 True n c lp, of "Some (link_layer (i_free st1))"] st2(3) by simp
      have ppn: "?pp = ?nd (Suc l) (r div 64 ^ Suc (Suc l))" unfolding qd by (simp add: put_node_apply)
      have M3: "mem_ok ?nd (?p # fl) {} st3" unfolding st3_def
        by (rule mem_upd [OF st2(2)]) (use nodesI [of ?nd "Suc l" "r div 64 ^ Suc (Suc l)"] pp ppn in simp)
      have map3: "idr_map ?nd (i_heap st3) = idr_map nd (i_heap st)"
      proof -
        have "?nd 0 j \<noteq> ?pp" for j using tree_ok_inj [OF T1 _ pp(1), of 0 j] pp by (auto simp: put_node_apply)
        then show ?thesis using st2(5) map1 by (simp add: st3_def idr_map_def fun_eq_iff)
      qed
      have pl: "map (place_of nd L r) [Suc l..<L] = map (place_of ?nd L r) [Suc l..<L]"
        by (rule map_cong) (auto simp: place_of_def put_node_apply)
      have "release_outcome t L (i_layers st3) (idr_map ?nd (i_heap st3)) (sub_remove_release st3 (map (place_of ?nd L r) [Suc l..<L]))"
      proof (rule Suc.hyps(1) [OF _ T3 M3 True])
        show "d = L - Suc l" using Suc.hyps(2) by simp
        show "?nd (Suc l) (r div 64 ^ Suc (Suc l)) \<noteq> 0" using pp(1) ppn by simp
        show "i_top st3 = t" using st2(4) h1 by (simp add: st3_def same_handle_def)
      qed
      moreover have "i_layers st3 = i_layers st" using st2(4) h1 by (simp add: st3_def same_handle_def)
      ultimately show ?thesis unfolding paa rel pl using c0 st2(1) cl map3 by simp
    next
      case False
      then have L: "Suc l = L" using Suc.prems(3) by simp
      then have q0: "?q = 0" "nd l 0 = t" using tree_ok_up(3) [OF T n] tree_ok_root(2) [OF T] by auto
      have "nd = lone_root (L - 1) t" by (rule tree_empty_top [OF T1]) (use q0 c n in auto)
      then have nd0: "?nd = (\<lambda>_ _. 0)" using L q0 by (auto simp: lone_root_def put_node_def)
      have "tree_ok ?nd {} {} 0 0 (i_heap st2)" unfolding nd0
        by (rule tree_nothing) (use tree_ok_null [OF T1] n st2(3) in simp)
      then have "idr_rep ?nd (?p # fl) 0 0 (st2\<lparr>i_top := 0\<rparr>)" using st2(2) by (simp add: idr_rep_def mem_ok_def)
      then have "release_outcome t L (i_layers st) (idr_map nd (i_heap st)) (Some (True, st2\<lparr>i_top := 0\<rparr>))"
        unfolding release_outcome_def
        by (intro exI [of _ True] exI [of _ ?nd] exI [of _ "?p # fl"] exI [of _ "st2\<lparr>i_top := 0\<rparr>"])
           (use st2(4,5) map1 h1 in \<open>simp add: same_handle_def\<close>)
      then show ?thesis unfolding paa rel using c0 st2(1) L by (simp add: place_of_def)
    qed
  qed
qed simp

lemma dig_mod: "l < L \<Longrightarrow> dig (r mod 64 ^ L) l = dig r l"
proof -
  assume l: "l < L"
  have e: "(64::nat) ^ L = 64 ^ l * 64 ^ (L - l)" using l by (simp flip: power_add)
  have "(64::nat) dvd 64 ^ (L - l)" using l by simp
  then show ?thesis unfolding dig_def e by (simp add: mod_mult2_eq mod_mod_cancel)
qed

lemma sub_remove_ok:
  assumes R: "idr_ok nd fl st" and L: "0 < i_layers st"
  shows "\<exists>nd' fl' st'. sub_remove st ((int (i_layers st) - 1) * 6) (int r) = Some st' \<and> idr_ok nd' fl' st' \<and>
           idr_map nd' (i_heap st') = (idr_map nd (i_heap st))(r mod 64 ^ i_layers st := None)"
proof -
  define L where "L = i_layers st"
  define s where "s = r mod 64 ^ L"
  obtain l where l: "L = Suc l" using L by (cases L) (auto simp: L_def)
  let ?M = "idr_map nd (i_heap st)" and ?paa = "map (place_of nd L s)"
  have T: "tree_ok nd {} {} (i_top st) L (i_heap st)" and M: "mem_ok nd fl {} st"
    using R by (simp_all add: idr_ok_def idr_rep_def L_def)
  have s0: "s div 64 ^ Suc l = 0" unfolding s_def l by (simp add: div_eq_0_iff)
  have root: "nd l 0 = i_top st" using tree_ok_root(2) [OF T] l by simp
  have T0: "tree_ok nd {(l, s div 64 ^ Suc l)} {} (i_top st) L (i_heap st)"
    by (rule tree_unmarked [OF T]) (use l in auto)
  have d: "nat (drop_bit (6 * k) (int r) AND 63) = dig s k" if "k < L" for k
    using digit_int [of k r] dig_mod [OF that, of r] by (simp add: s_def)
  have sh: "(int (i_layers st) - 1) * 6 = 6 * int l" using l by (simp add: L_def)
  have top: "[Top] = ?paa [l..<L]" using l by (simp add: place_of_def)
  have n: "nat (int r AND 63) = s mod 64" using d [of 0] l by (simp add: dig_def)
  obtain paa p st1 where w: "sub_remove_walk st [Top] (i_top st) ((int (i_layers st) - 1) * 6) (int r) = Some (paa, p, st1)"
      "mem_ok nd fl {} st1" "same_handle st st1" "idr_map nd (i_heap st1) = ?M"
    and cs: "p = 0 \<and> tree_ok nd {} {} (i_top st) L (i_heap st1) \<and> s \<notin> dom ?M \<or>
     p = nd 0 (s div 64) \<and> p \<noteq> 0 \<and> paa = ?paa [0..<L] \<and> tree_ok nd {(0, s div 64)} {} (i_top st) L (i_heap st1)"
    using remove_walk_ok [OF T0 M _ d] l root unfolding s0 sh top by auto
  have h1: "i_top st1 = i_top st" "i_layers st1 = L" using w(3) by (simp_all add: same_handle_def L_def)
  have sr: "sub_remove st ((int (i_layers st) - 1) * 6) (int r) =
      (if p = 0 then Some st1
       else do { ly \<leftarrow> i_heap st1 p;
                 if bit (l_bitmap ly) (s mod 64)
                 then do { (emptied, st2) \<leftarrow> sub_remove_release
                             (st1\<lparr>i_heap := (i_heap st1)(p \<mapsto>
                                ly\<lparr>l_bitmap := unset_bit (s mod 64) (l_bitmap ly), l_ary := (l_ary ly)[s mod 64 := 0]\<rparr>)\<rparr>) paa;
                           Some (if emptied then st2\<lparr>i_layers := 0\<rparr> else st2) }
                 else Some st1 })"
    unfolding sub_remove_def using w(1) by (simp add: n Let_def)
  from cs show ?thesis
  proof (elim disjE conjE)
    assume z: "p = 0" "tree_ok nd {} {} (i_top st) L (i_heap st1)" "s \<notin> dom ?M"
    then have "?M(s := None) = ?M" by auto
    then show ?thesis using z w sr h1 unfolding s_def [unfolded L_def, symmetric] by (auto simp: idr_ok_def idr_rep_def L_def)
  next
    assume p: "p = nd 0 (s div 64)" "p \<noteq> 0" "paa = ?paa [0..<L]" and T1: "tree_ok nd {(0, s div 64)} {} (i_top st) L (i_heap st1)"
    obtain ly where ly: "i_heap st1 p = Some ly" using tree_ok_layer [OF T1] p by metis
    show ?thesis
    proof (cases "bit (l_bitmap ly) (s mod 64)")
      case False
      have "\<not> full_at (i_heap st1) p" using False ly bit_full by (auto simp: full_at_def)
      then have "tree_ok nd {} {} (i_top st) L (i_heap st1)" by (intro tree_unmarked [OF T1]) (use p in auto)
      moreover have "?M(s := None) = ?M"
        unfolding w(4) [symmetric] using False ly p by (auto simp: idr_map_def fun_eq_iff)
      ultimately show ?thesis using w sr h1 p(2) ly False unfolding s_def [unfolded L_def, symmetric]
        by (auto simp: idr_ok_def idr_rep_def L_def)
    next
      case True
      define st2 where "st2 = st1\<lparr>i_heap := (i_heap st1)(p \<mapsto>
                                ly\<lparr>l_bitmap := unset_bit (s mod 64) (l_bitmap ly), l_ary := (l_ary ly)[s mod 64 := 0]\<rparr>)\<rparr>"
      have n0: "nd 0 (s div 64) \<noteq> 0" and l0: "i_heap st1 (nd 0 (s div 64)) = Some ly" using p ly by simp_all
      have T2: "tree_ok nd {} {(0, s div 64 ^ Suc 0)} (i_top st) L (i_heap st2)"
        using tree_clear [OF T1 n0 l0 _ True] p(1) by (simp add: st2_def)
      have M2: "mem_ok nd fl {} st2" unfolding st2_def by (rule mem_upd [OF w(2)]) (use nodesI [of nd 0] p in auto)
      have map2: "idr_map nd (i_heap st2) = ?M(s := None)"
        using map_clear [OF T1 n0 l0, of "s mod 64"] p(1) w(4) by (simp add: st2_def)
      have "release_outcome (i_top st) L (i_layers st2) (idr_map nd (i_heap st2)) (sub_remove_release st2 (?paa [0..<L]))"
        by (rule release_ok [OF T2 M2]) (use n0 l h1 in \<open>simp_all add: st2_def\<close>)
      then obtain e nd' fl' st3 where "sub_remove_release st2 (?paa [0..<L]) = Some (e, st3)"
          "idr_map nd' (i_heap st3) = ?M(s := None)" "i_layers st3 = L"
          "i_top st3 = (if e then 0 else i_top st)" "idr_rep nd' fl' (i_top st3) (if e then 0 else L) st3"
        unfolding release_outcome_def map2 using h1 by (auto simp: st2_def)
      then show ?thesis using sr p(2,3) ly True unfolding s_def [unfolded L_def, symmetric]
        by (cases e) (auto simp: idr_ok_def idr_rep_def mem_ok_def st2_def [symmetric])
    qed
  qed
qed

lemma drop_layer_ok:
  assumes R: "idr_ok nd fl st"
  shows "\<exists>nd' fl' st'. idr_drop_layer st = Some st' \<and> idr_ok nd' fl' st' \<and>
           idr_map nd' (i_heap st') = idr_map nd (i_heap st)"
proof (cases "i_top st = 0")
  case True
  then show ?thesis using R by (auto simp: idr_drop_layer_def)
next
  case False
  let ?L = "i_layers st"
  have T: "tree_ok nd {} {} (i_top st) ?L (i_heap st)" using R by (simp add: idr_ok_def idr_rep_def)
  have "nd (?L - 1) 0 = i_top st" using tree_ok_root [OF T] False by simp
  then obtain ly where ly: "i_heap st (i_top st) = Some ly" using tree_ok_layer [OF T, of "?L - 1" 0] False by metis
  show ?thesis
  proof (cases "l_count ly = 1 \<and> 1 < ?L \<and> l_ary ly ! 0 \<noteq> 0")
    case c: True
    then have L: "1 < ?L" "l_count ly = 1" "l_ary ly ! 0 \<noteq> 0" by simp_all
    obtain st' where st': "free_layer (st\<lparr>i_heap := (i_heap st)(i_top st \<mapsto> link_layer (l_ary ly ! 0))\<rparr>) (i_top st) = Some st'"
      "idr_rep (put_node nd (?L - 1) 0 0) (i_top st # fl) (l_ary ly ! 0) (?L - 1) st'"
      "idr_map (put_node nd (?L - 1) 0 0) (i_heap st') = idr_map nd (i_heap st)"
      by (rule rep_drop [OF R [unfolded idr_ok_def] L(1) ly L(2,3), of "l_ary ly ! 0"]) blast
    have "ly\<lparr>l_bitmap := 0, l_count := 0\<rparr> = link_layer (l_ary ly ! 0)"
      using single_slot_layer [OF T L(1) ly L(2,3), of "l_ary ly ! 0"] by simp
    then have "idr_drop_layer st = Some (st'\<lparr>i_top := l_ary ly ! 0, i_layers := ?L - 1\<rparr>)"
      using False ly c st'(1) by (simp add: idr_drop_layer_def)
    moreover have "idr_ok (put_node nd (?L - 1) 0 0) (i_top st # fl) (st'\<lparr>i_top := l_ary ly ! 0, i_layers := ?L - 1\<rparr>)"
      using st'(2) by (simp add: idr_ok_def idr_rep_def mem_ok_def)
    ultimately show ?thesis using st'(3) by force
  next
    case False
    then have "idr_drop_layer st = Some st" using ly by (auto simp: idr_drop_layer_def)
    then show ?thesis using R by blast
  qed
qed

text \<open>A layer goes back to the slab cache as the constructor left it.\<close>

lemma return_layer:
  assumes R: "idr_ok nd (a # fl) st"
  obtains st1 st' where "alloc_layer st = Some (a, st1)" "kmem_cache_free a st1 = Some st'" "idr_ok nd fl st'"
    "idr_map nd (i_heap st') = idr_map nd (i_heap st)"
proof -
  have T: "tree_ok nd {} {} (i_top st) (i_layers st) (i_heap st)" and M: "mem_ok nd (a # fl) {} st"
    using R by (simp_all add: idr_ok_def idr_rep_def)
  have a: "a \<notin> nodes nd" "a \<noteq> 0" "a \<notin> set fl" using mem_okD(3,5,6) [OF M] by auto
  obtain b where b: "alloc_layer st = Some (a, st\<lparr>i_free := b, i_free_cnt := i_free_cnt st - 1,
                i_heap := (i_heap st)(a \<mapsto> idr_cache_ctor)\<rparr>)"
      "mem_ok nd fl {a} (st\<lparr>i_free := b, i_free_cnt := i_free_cnt st - 1, i_heap := (i_heap st)(a \<mapsto> idr_cache_ctor)\<rparr>)"
    using alloc_layer_pop [OF M] by auto
  let ?st = "st\<lparr>i_free := b, i_free_cnt := i_free_cnt st - 1, i_heap := (i_heap st)(a := None), i_slab := (i_slab st)(a \<mapsto> idr_cache_ctor)\<rparr>"
  have "kmem_cache_free a (st\<lparr>i_free := b, i_free_cnt := i_free_cnt st - 1, i_heap := (i_heap st)(a \<mapsto> idr_cache_ctor)\<rparr>) = Some ?st"
    by (simp add: kmem_cache_free_def)
  moreover have "mem_ok nd fl {} ?st"
  proof -
    have "dom (i_heap st) - {a} = nodes nd \<union> set fl" using mem_okD(8) [OF M] a by auto
    then show ?thesis using b(2) a mem_okD(9) [OF M] unfolding mem_ok_def by (simp add: free_list_frame)
  qed
  moreover have "tree_ok nd {} {} (i_top st) (i_layers st) (i_heap ?st)" using tree_frame [OF T a(1,2), of None] by simp
  moreover have "idr_map nd (i_heap ?st) = idr_map nd (i_heap st)" using map_frame [OF a(1,2), of "i_heap st" None] by simp
  ultimately show thesis using that [OF b(1)] by (simp add: idr_ok_def idr_rep_def)
qed

lemma idr_ok_cnt: "idr_ok nd fl st \<Longrightarrow> i_free_cnt st = int (length fl)"
  using mem_okD(2) by (auto simp: idr_ok_def idr_rep_def)

lemma idr_remove_ok:
  assumes R: "idr_ok nd fl st"
  shows "\<exists>nd' fl' st'. idr_remove st idn = Some st' \<and> idr_ok nd' fl' st' \<and>
    idr_map nd' (i_heap st') = (if i_layers st = 0 then idr_map nd (i_heap st)
      else (idr_map nd (i_heap st))(nat (idn mod 2147483648) mod 64 ^ i_layers st := None))"
proof -
  define r where "r = nat (idn mod 2147483648)"
  have ir: "idn AND 2147483647 = int r" by (simp add: mask31 r_def)
  let ?M = "if i_layers st = 0 then idr_map nd (i_heap st) else (idr_map nd (i_heap st))(r mod 64 ^ i_layers st := None)"
  obtain nd1 fl1 st1 where 1: "sub_remove st ((int (i_layers st) - 1) * 6) (int r) = Some st1" "idr_ok nd1 fl1 st1"
      "idr_map nd1 (i_heap st1) = ?M"
  proof (cases "i_layers st = 0")
    case True
    then have "i_top st = 0" using R tree_ok_root(1) [of nd "{}" "{}" "i_top st" 0 "i_heap st"] by (simp add: idr_ok_def idr_rep_def)
    then have "sub_remove st ((int (i_layers st) - 1) * 6) (int r) = Some st"
      using True by (simp add: sub_remove_def Let_def) (subst sub_remove_walk.simps, simp)
    then show thesis using that R True by simp
  next
    case False
    then show thesis using that sub_remove_ok [OF R, of r] by auto
  qed
  obtain nd2 fl2 st2 where 2: "idr_drop_layer st1 = Some st2" "idr_ok nd2 fl2 st2" "idr_map nd2 (i_heap st2) = ?M"
    using drop_layer_ok [OF 1(2)] 1(3) by metis
  note cnt = idr_ok_cnt [OF 2(2)]
  have rm: "idr_remove st idn = (if i_free_cnt st2 \<ge> 12 \<or> i_free_cnt st2 < 0
          then do { (p, st3) \<leftarrow> alloc_layer st2; kmem_cache_free p st3 } else Some st2)"
    using 1(1) 2(1) by (simp add: idr_remove_def ir)
  show ?thesis
  proof (cases "length fl2 < 12")
    case True
    then show ?thesis using rm cnt 2 unfolding r_def by auto
  next
    case False
    then obtain a fl3 where fl2: "fl2 = a # fl3" by (cases fl2) auto
    obtain st3 st4 where "alloc_layer st2 = Some (a, st3)" "kmem_cache_free a st3 = Some st4" "idr_ok nd2 fl3 st4"
        "idr_map nd2 (i_heap st4) = idr_map nd2 (i_heap st2)"
      using return_layer 2(2) unfolding fl2 by blast
    then show ?thesis using rm cnt False 2(3) unfolding r_def by auto
  qed
qed

lemma idr_destroy_ok:
  "idr_ok nd fl st \<Longrightarrow> \<exists>st'. idr_destroy st = Some st' \<and> idr_ok nd [] st' \<and> idr_map nd (i_heap st') = idr_map nd (i_heap st)"
proof (induction fl arbitrary: st)
  case Nil
  then have "idr_destroy st = Some st" using idr_ok_cnt [OF Nil] by (subst idr_destroy.simps) simp
  then show ?case using Nil by blast
next
  case (Cons a fl)
  obtain st1 st2 where "alloc_layer st = Some (a, st1)" "kmem_cache_free a st1 = Some st2" "idr_ok nd fl st2"
      "idr_map nd (i_heap st2) = idr_map nd (i_heap st)"
    using return_layer [OF Cons.prems] by blast
  moreover have "idr_destroy st = idr_destroy st2"
    using calculation idr_ok_cnt [OF Cons.prems] by (subst idr_destroy.simps) simp
  ultimately show ?case using Cons.IH by metis
qed

section \<open>Reserving layers\<close>

text \<open>The slab allocator never hands out an object that is in use.\<close>

definition fresh_pick :: "(idr_mem \<Rightarrow> nat) \<Rightarrow> bool" where
  "fresh_pick pick \<longleftrightarrow> (\<forall>st. pick st \<noteq> 0 \<longrightarrow> i_heap st (pick st) = None)"

lemma reserve_layer:
  assumes R: "idr_ok nd fl st" and F: "fresh_pick pick" and p: "pick st \<noteq> 0"
  obtains st1 st' where "kmem_cache_alloc pick st = (pick st, st1)" "free_layer st1 (pick st) = Some st'"
    "idr_ok nd (pick st # fl) st'" "idr_map nd (i_heap st') = idr_map nd (i_heap st)" "same_handle st st'"
proof -
  let ?a = "pick st"
  have T: "tree_ok nd {} {} (i_top st) (i_layers st) (i_heap st)" and M: "mem_ok nd fl {} st"
    using R by (simp_all add: idr_ok_def idr_rep_def)
  have h: "i_heap st ?a = None" using F p by (simp add: fresh_pick_def)
  have a: "?a \<notin> nodes nd" "?a \<notin> set fl" using mem_okD(8) [OF M] h by blast+
  have c: "(case i_slab st ?a of None \<Rightarrow> idr_cache_ctor | Some ly \<Rightarrow> ly) = idr_cache_ctor"
    using mem_okD(9) [OF M] by (auto split: option.splits)
  let ?st1 = "st\<lparr>i_heap := (i_heap st)(?a \<mapsto> idr_cache_ctor), i_slab := (i_slab st)(?a := None)\<rparr>"
  have k: "kmem_cache_alloc pick st = (?a, ?st1)" using p c by (simp add: kmem_cache_alloc_def Let_def)
  have M1: "mem_ok nd fl {?a} ?st1" using M a p unfolding mem_ok_def by (auto simp: free_list_frame)
  let ?st2 = "?st1\<lparr>i_heap := (i_heap ?st1)(?a \<mapsto> link_layer (i_free ?st1)), i_free := ?a, i_free_cnt := i_free_cnt ?st1 + 1\<rparr>"
  have f: "free_layer ?st1 ?a = Some ?st2" "mem_ok nd (?a # fl) {} ?st2"
    using free_layer_push [OF M1, of ?a 0] by simp_all
  have "tree_ok nd {} {} (i_top st) (i_layers st) (i_heap ?st2)"
    using tree_frame [OF T a(1) p, of "Some (link_layer (i_free st))"] by simp
  moreover have "idr_map nd (i_heap ?st2) = idr_map nd (i_heap st)"
    using map_frame [OF a(1) p, of "i_heap st" "Some (link_layer (i_free st))"] by simp
  ultimately show thesis using that [OF k f(1)] f(2) by (simp add: idr_ok_def idr_rep_def same_handle_def)
qed

lemma idr_pre_get_ok:
  assumes "idr_ok nd fl st" "fresh_pick pick"
  shows "\<exists>rv fl' st'. idr_pre_get pick st = Some (rv, st') \<and> idr_ok nd fl' st' \<and>
           idr_map nd (i_heap st') = idr_map nd (i_heap st) \<and> (rv = 0 \<or> rv = 1 \<and> 12 \<le> length fl')"
  using assms
proof (induction "12 - length fl" arbitrary: fl st)
  case 0
  then have "idr_pre_get pick st = Some (1, st)" using idr_ok_cnt [OF 0(2)] by (subst idr_pre_get.simps) simp
  then show ?case using 0 by auto
next
  case (Suc d)
  then have lt: "length fl < 12" by simp
  show ?case
  proof (cases "pick st = 0")
    case True
    then have "idr_pre_get pick st = Some (0, st)"
      using lt idr_ok_cnt [OF Suc.prems(1)] by (subst idr_pre_get.simps) (simp add: kmem_cache_alloc_def)
    then show ?thesis using Suc.prems by auto
  next
    case False
    obtain st1 st2 where r: "kmem_cache_alloc pick st = (pick st, st1)" "free_layer st1 (pick st) = Some st2"
      "idr_ok nd (pick st # fl) st2" "idr_map nd (i_heap st2) = idr_map nd (i_heap st)"
      using reserve_layer [OF Suc.prems False] by blast
    have "idr_pre_get pick st = idr_pre_get pick st2"
      using lt idr_ok_cnt [OF Suc.prems(1)] r(1,2) False by (subst idr_pre_get.simps) simp
    moreover have "d = 12 - length (pick st # fl)" using Suc.hyps(2) by simp
    ultimately show ?thesis using Suc.hyps(1) [OF _ r(3) Suc.prems(2)] r(4) by simp
  qed
qed

end
