(* ===== verification/Idr_Spec.thy ===== *)
theory Idr_Spec
  imports Idr_Remove
begin

text \<open>
  What the identifier allocator promises: it is a map from the numbers below \<open>2 ^ 30\<close> to pointers in which a new
  entry takes the lowest free number. The contract is the locale \<open>id_allocator\<close>; the radix tree is its
  interpretation, and the numbering of adapters in the Emulex driver is its client. Two uses of the code fall
  outside the contract, with what happens then: a start that makes the walk turn back, and the removal of a
  number beyond the tree.
\<close>

section \<open>The contract and its client\<close>

text \<open>\<open>rep st m\<close>: the state \<open>st\<close> represents the map \<open>m\<close>; \<open>ready st\<close>: layers are reserved for one allocation.\<close>

locale id_allocator =
  fixes rep :: "'s \<Rightarrow> (nat \<rightharpoonup> nat) \<Rightarrow> bool"
    and ready :: "'s \<Rightarrow> bool"
    and pre_get :: "'s \<Rightarrow> (int \<times> 's) option"
    and get_new :: "'s \<Rightarrow> nat \<Rightarrow> (int \<times> int option \<times> 's) option"
    and remove :: "'s \<Rightarrow> int \<Rightarrow> 's option"
  assumes pre_get_law: "rep st m \<Longrightarrow>
      \<exists>rv st'. pre_get st = Some (rv, st') \<and> rep st' m \<and> (rv = 0 \<or> rv = 1 \<and> ready st')"
    and get_new_law: "rep st m \<Longrightarrow> j < 64 ^ 5 \<Longrightarrow> j \<notin> dom m \<Longrightarrow>
      \<exists>st'. (get_new st p = Some (- 11, None, st') \<and> rep st' m \<and> \<not> ready st) \<or>
        (\<exists>i. lowest_free (dom m) 0 i \<and> get_new st p = Some (0, Some (int i), st') \<and> rep st' (m(i \<mapsto> p)))"
    and remove_law: "rep st m \<Longrightarrow> r \<in> dom m \<Longrightarrow> \<exists>st'. remove st (int r) = Some st' \<and> rep st' (m(r := None))"
begin

text \<open>A client that reserves, allocates, and takes the number or reports -1.\<close>

lemma get_instance_numbers:
  assumes R: "rep st m" and j: "j < 64 ^ 5" "j \<notin> dom m"
    and e: "r = (do { (ok, st1) \<leftarrow> pre_get st;
            if ok = 0 then Some (- 1, st1)
            else do { (rv, instance_nr, st2) \<leftarrow> get_new st1 0;
                      if rv \<noteq> 0 then Some (- 1, st2)
                      else Some (case instance_nr of None \<Rightarrow> 0 | Some i \<Rightarrow> i, st2) } })"
  shows "\<exists>st'. r = Some (- 1, st') \<and> rep st' m \<or>
    (\<exists>i. lowest_free (dom m) 0 i \<and> r = Some (int i, st') \<and> rep st' (m(i \<mapsto> 0)))"
proof -
  obtain rv st1 where 1: "pre_get st = Some (rv, st1)" "rep st1 m" "rv = 0 \<or> rv = 1 \<and> ready st1"
    using pre_get_law [OF R] by blast
  show ?thesis
  proof (cases "rv = 0")
    case True
    then show ?thesis using 1 e by auto
  next
    case False
    then obtain i st2 where "lowest_free (dom m) 0 i" "get_new st1 0 = Some (0, Some (int i), st2)" "rep st2 (m(i \<mapsto> 0))"
      using get_new_law [OF 1(2) j, of 0] 1(3) by blast
    then show ?thesis using 1(1) False e by auto
  qed
qed

end

section \<open>The radix tree keeps the contract\<close>

definition idr_reps :: "idr_mem \<Rightarrow> (nat \<rightharpoonup> nat) \<Rightarrow> bool" where
  "idr_reps st m \<longleftrightarrow> (\<exists>nd fl. idr_ok nd fl st \<and> idr_map nd (i_heap st) = m)"

definition idr_ready :: "idr_mem \<Rightarrow> bool" where
  "idr_ready st \<longleftrightarrow> i_free_cnt st \<ge> 12"

text \<open>A start number from which the search of \<open>idr_get_new_above\<close> never turns back to a higher layer.\<close>

definition straight_start :: "nat set \<Rightarrow> nat \<Rightarrow> bool" where
  "straight_start A s \<longleftrightarrow> (\<forall>k\<le>5. no_turning_back A s k)"

lemma straight_zero: "straight_start A 0"
  by (auto simp: straight_start_def no_turning_back_def block_free_def)

lemma straight_free: "s \<notin> A \<Longrightarrow> straight_start A s"
  by (auto simp: straight_start_def no_turning_back_def)

lemma dom_below: "idr_reps st m \<Longrightarrow> r \<in> dom m \<Longrightarrow> r < 64 ^ i_layers st \<and> r < 64 ^ 5"
proof -
  assume "idr_reps st m" "r \<in> dom m"
  then obtain nd fl where T: "tree_ok nd {} {} (i_top st) (i_layers st) (i_heap st)" and r: "r \<in> dom (idr_map nd (i_heap st))"
    by (auto simp: idr_reps_def idr_ok_def idr_rep_def)
  have "r < 64 ^ i_layers st" by (rule dom_bound [OF T r])
  moreover have "(64::nat) ^ i_layers st \<le> 64 ^ 5" using tree_ok_size [OF T] by (intro power_increasing) simp_all
  ultimately show ?thesis by linarith
qed

lemma get_new_above_law:
  assumes R: "idr_reps st m" and s: "straight_start (dom m) s" and j: "s \<le> j" "j < 64 ^ 5" "j \<notin> dom m"
  shows "\<exists>st'. idr_get_new_above_int st p (int s) = Some (- 1, st') \<and> idr_reps st' m \<and> \<not> idr_ready st \<or>
    (\<exists>i. lowest_free (dom m) s i \<and> idr_get_new_above_int st p (int s) = Some (int i, st') \<and> idr_reps st' (m(i \<mapsto> p)))"
proof -
  obtain nd fl where 1: "idr_ok nd fl st" "idr_map nd (i_heap st) = m" using R by (auto simp: idr_reps_def)
  have c: "\<not> idr_ready st" if "length fl + i_layers st < 9"
    using that idr_ok_cnt [OF 1(1)] by (simp add: idr_ready_def)
  show ?thesis
    using idr_get_new_above_int_ok [OF 1(1) _ j(1,2), of p] s j(3) c unfolding 1(2) idr_reps_def straight_start_def by blast
qed

lemma get_new_law:
  assumes R: "idr_reps st m" and j: "j < 64 ^ 5" "j \<notin> dom m"
  shows "\<exists>st'. idr_get_new st p = Some (- 11, None, st') \<and> idr_reps st' m \<and> \<not> idr_ready st \<or>
    (\<exists>i. lowest_free (dom m) 0 i \<and> idr_get_new st p = Some (0, Some (int i), st') \<and> idr_reps st' (m(i \<mapsto> p)))"
  using get_new_above_law [OF R straight_zero _ j, of p] by (auto simp: idr_get_new_def)

lemma pre_get_law:
  assumes "idr_reps st m" "fresh_pick pick"
  shows "\<exists>rv st'. idr_pre_get pick st = Some (rv, st') \<and> idr_reps st' m \<and> (rv = 0 \<or> rv = 1 \<and> idr_ready st')"
proof -
  obtain nd fl where 1: "idr_ok nd fl st" "idr_map nd (i_heap st) = m" using assms(1) by (auto simp: idr_reps_def)
  obtain rv fl' st' where 2: "idr_pre_get pick st = Some (rv, st')" "idr_ok nd fl' st'" "idr_map nd (i_heap st') = m"
      "rv = 0 \<or> rv = 1 \<and> 12 \<le> length fl'"
    using idr_pre_get_ok [OF 1(1) assms(2)] 1(2) by auto
  then show ?thesis using idr_ok_cnt [OF 2(2)] by (auto simp: idr_reps_def idr_ready_def)
qed

lemma remove_law:
  assumes R: "idr_reps st m" and r: "r \<in> dom m"
  shows "\<exists>st'. idr_remove st (int r) = Some st' \<and> idr_reps st' (m(r := None))"
proof -
  obtain nd fl where 1: "idr_ok nd fl st" "idr_map nd (i_heap st) = m" using R by (auto simp: idr_reps_def)
  have b: "r < 64 ^ i_layers st" "r < 1073741824" using dom_below [OF R r] by simp_all
  have T: "tree_ok nd {} {} (i_top st) (i_layers st) (i_heap st)" using 1(1) by (simp add: idr_ok_def idr_rep_def)
  have "nd 0 (r div 64) \<noteq> 0" using dom_node [of r nd "i_heap st"] tree_ok_null [OF T] r 1(2) by simp
  then have L: "i_layers st \<noteq> 0" using tree_ok_up(1) [OF T] by fastforce
  have "nat (int r mod 2147483648) mod 64 ^ i_layers st = r" using b by simp
  then show ?thesis using idr_remove_ok [OF 1(1), of "int r"] L 1(2) by (auto simp: idr_reps_def)
qed

locale idr_slab =
  fixes pick :: "idr_mem \<Rightarrow> nat"
  assumes fresh: "fresh_pick pick"

sublocale idr_slab \<subseteq> id_allocator idr_reps idr_ready "idr_pre_get pick" idr_get_new idr_remove
  by unfold_locales (use fresh in \<open>blast intro: pre_get_law get_new_law remove_law\<close>)+

context idr_slab
begin

lemmas lpfc_numbers = get_instance_numbers [OF _ _ _ lpfc_get_instance_def]

end

text \<open>A slab cache of 99 objects that hands out the first unused one.\<close>

definition first_unused :: "idr_mem \<Rightarrow> nat" where
  "first_unused st = (case filter (\<lambda>p. i_heap st p = None) [1..<100] of [] \<Rightarrow> 0 | p # _ \<Rightarrow> p)"

lemma fresh_first_unused: "fresh_pick first_unused"
proof -
  have "i_heap st p = None" if "filter (\<lambda>p. i_heap st p = None) [1..<100] = p # ps" for st p ps
    using Cons_eq_filterD [OF that [symmetric]] by blast
  then show ?thesis by (auto simp: fresh_pick_def first_unused_def split: list.splits)
qed

interpretation first_slab: idr_slab first_unused
  by unfold_locales (rule fresh_first_unused)

section \<open>Runs of operations\<close>

datatype idr_op =
    Pre_Get
  | Get_New nat
  | Get_New_Above nat nat
  | Find nat
  | Replace nat nat
  | Remove nat
  | Destroy

datatype idr_result = Rv int | New "int option" int | Ptr nat | Old "int + nat" | Void

fun idr_exec :: "(idr_mem \<Rightarrow> nat) \<Rightarrow> idr_op \<Rightarrow> idr_mem \<Rightarrow> (idr_result \<times> idr_mem) option" where
  "idr_exec pick Pre_Get st = map_option (\<lambda>(rv, s). (Rv rv, s)) (idr_pre_get pick st)"
| "idr_exec pick (Get_New p) st = map_option (\<lambda>(rv, i, s). (New i rv, s)) (idr_get_new st p)"
| "idr_exec pick (Get_New_Above p n) st = map_option (\<lambda>(rv, i, s). (New i rv, s)) (idr_get_new_above st p (int n))"
| "idr_exec pick (Find i) st = map_option (\<lambda>p. (Ptr p, st)) (idr_find st (int i))"
| "idr_exec pick (Replace p i) st = map_option (\<lambda>(r, s). (Old r, s)) (idr_replace st p (int i))"
| "idr_exec pick (Remove i) st = map_option (Pair Void) (idr_remove st (int i))"
| "idr_exec pick Destroy st = map_option (Pair Void) (idr_destroy st)"

fun idr_run :: "(idr_mem \<Rightarrow> nat) \<Rightarrow> idr_op list \<Rightarrow> idr_mem \<Rightarrow> (idr_result list \<times> idr_mem) option" where
  "idr_run pick [] st = Some ([], st)"
| "idr_run pick (op # ops) st =
     do { (r, st1) \<leftarrow> idr_exec pick op st; (rs, st2) \<leftarrow> idr_run pick ops st1; Some (r # rs, st2) }"

text \<open>The specification on maps. An allocation may fail for want of memory; nothing else is left open.\<close>

inductive id_spec :: "(nat \<rightharpoonup> nat) \<Rightarrow> idr_op \<Rightarrow> idr_result \<Rightarrow> (nat \<rightharpoonup> nat) \<Rightarrow> bool" where
  "rv = 0 \<or> rv = 1 \<Longrightarrow> id_spec m Pre_Get (Rv rv) m"
| "lowest_free (dom m) 0 i \<Longrightarrow> id_spec m (Get_New p) (New (Some (int i)) 0) (m(i \<mapsto> p))"
| "id_spec m (Get_New p) (New None (- 11)) m"
| "lowest_free (dom m) n i \<Longrightarrow> id_spec m (Get_New_Above p n) (New (Some (int i)) 0) (m(i \<mapsto> p))"
| "id_spec m (Get_New_Above p n) (New None (- 11)) m"
| "id_spec m (Find i) (Ptr (found (m i))) m"
| "m i = Some old \<Longrightarrow> id_spec m (Replace p i) (Old (Inr old)) (m(i \<mapsto> p))"
| "m i = None \<Longrightarrow> e = - 22 \<or> e = - 2 \<Longrightarrow> id_spec m (Replace p i) (Old (Inl e)) m"
| "id_spec m (Remove i) Void (m(i := None))"
| "id_spec m Destroy Void m"

inductive_cases id_spec_elims [elim!]:
  "id_spec m Pre_Get r m'" "id_spec m (Get_New p) r m'" "id_spec m (Find i) r m'"

text \<open>
  What a caller has to respect: an allocation needs a free number below \<open>2 ^ 30\<close>, at or above a start from which the search
  runs straight; a removal, a number in use; a lookup or a replacement, a number that is an \<open>int\<close>.
\<close>

fun id_allowed :: "(nat \<rightharpoonup> nat) \<Rightarrow> idr_op \<Rightarrow> bool" where
  "id_allowed m (Get_New p) \<longleftrightarrow> \<not> {..<64 ^ 5} \<subseteq> dom m"
| "id_allowed m (Get_New_Above p n) \<longleftrightarrow> \<not> {n..<64 ^ 5} \<subseteq> dom m \<and> straight_start (dom m) n"
| "id_allowed m (Find i) \<longleftrightarrow> i < 2 ^ 31"
| "id_allowed m (Replace p i) \<longleftrightarrow> i < 2 ^ 31"
| "id_allowed m (Remove i) \<longleftrightarrow> i \<in> dom m"
| "id_allowed m op \<longleftrightarrow> True"

fun id_legal :: "(nat \<rightharpoonup> nat) \<Rightarrow> idr_op list \<Rightarrow> bool" where
  "id_legal m [] \<longleftrightarrow> True"
| "id_legal m (op # ops) \<longleftrightarrow> id_allowed m op \<and> (\<forall>r m'. id_spec m op r m' \<longrightarrow> id_legal m' ops)"

inductive id_spec_run :: "(nat \<rightharpoonup> nat) \<Rightarrow> idr_op list \<Rightarrow> idr_result list \<Rightarrow> (nat \<rightharpoonup> nat) \<Rightarrow> bool" where
  "id_spec_run m [] [] m"
| "id_spec m op r m1 \<Longrightarrow> id_spec_run m1 ops rs m2 \<Longrightarrow> id_spec_run m (op # ops) (r # rs) m2"

lemma find_law:
  assumes R: "idr_reps st m" and i: "i < 2 ^ 31"
  shows "idr_find st (int i) = Some (found (m i))"
  using assms idr_find_ok [of _ _ st "int i"] by (auto simp: idr_reps_def)

lemma replace_law:
  assumes R: "idr_reps st m" and i: "i < 2 ^ 31"
  shows "\<exists>st'. (\<exists>old. m i = Some old \<and> idr_replace st p (int i) = Some (Inr old, st') \<and> idr_reps st' (m(i \<mapsto> p))) \<or>
    (\<exists>e. m i = None \<and> (e = - 22 \<or> e = - 2) \<and> idr_replace st p (int i) = Some (Inl e, st') \<and> idr_reps st' m)"
proof -
  obtain nd fl where 1: "idr_ok nd fl st" "idr_map nd (i_heap st) = m" using R by (auto simp: idr_reps_def)
  have "i = nat (int i mod 2147483648)" using i by simp
  then obtain st' where 2: "idr_ok nd fl st'"
    "case m i of None \<Rightarrow> idr_replace st p (int i) = Some (Inl (if 64 ^ i_layers st \<le> i then - 22 else - 2), st) \<and> st' = st
     | Some old \<Rightarrow> idr_replace st p (int i) = Some (Inr old, st') \<and> idr_map nd (i_heap st') = m(i \<mapsto> p)"
    using idr_replace_ok [OF 1(1), of i "int i" p] unfolding 1(2) by blast
  show ?thesis
  proof (cases "m i")
    case None
    then show ?thesis using 2 R by auto
  next
    case (Some old)
    then show ?thesis using 2 by (auto simp: idr_reps_def)
  qed
qed

lemma exec_law:
  assumes R: "idr_reps st m" and F: "fresh_pick pick" and A: "id_allowed m op"
  shows "\<exists>r st' m'. idr_exec pick op st = Some (r, st') \<and> id_spec m op r m' \<and> idr_reps st' m'"
proof (cases op)
  case Pre_Get
  then show ?thesis using pre_get_law [OF R F] by (fastforce intro: id_spec.intros)
next
  case (Get_New p)
  then obtain j where "j < 64 ^ 5" "j \<notin> dom m" using A by auto
  then show ?thesis using get_new_law [OF R, of j p] Get_New by (fastforce intro: id_spec.intros)
next
  case (Get_New_Above p n)
  then obtain j where "n \<le> j" "j < 64 ^ 5" "j \<notin> dom m" "straight_start (dom m) n" using A by (auto simp: subset_iff)
  then show ?thesis using get_new_above_law [OF R, of n j p] Get_New_Above
    by (fastforce simp: idr_get_new_above_def intro: id_spec.intros)
next
  case (Find i)
  then show ?thesis using find_law [OF R, of i] A R by (auto intro: id_spec.intros)
next
  case (Replace p i)
  then show ?thesis using replace_law [OF R, of i p] A by (fastforce intro: id_spec.intros)
next
  case (Remove i)
  then show ?thesis using remove_law [OF R, of i] A by (fastforce intro: id_spec.intros)
next
  case Destroy
  obtain nd fl where 1: "idr_ok nd fl st" "idr_map nd (i_heap st) = m" using R by (auto simp: idr_reps_def)
  then obtain st' where "idr_destroy st = Some st'" "idr_ok nd [] st'" "idr_map nd (i_heap st') = m"
    using idr_destroy_ok [OF 1(1)] by auto
  then show ?thesis using Destroy by (fastforce simp: idr_reps_def intro: id_spec.intros)
qed

lemma run_law:
  "idr_reps st m \<Longrightarrow> fresh_pick pick \<Longrightarrow> id_legal m ops \<Longrightarrow>
   \<exists>rs st' m'. idr_run pick ops st = Some (rs, st') \<and> id_spec_run m ops rs m' \<and> idr_reps st' m'"
proof (induction ops arbitrary: st m)
  case Nil
  then show ?case by (auto intro: id_spec_run.intros)
next
  case (Cons op ops)
  then obtain r st1 m1 where 1: "idr_exec pick op st = Some (r, st1)" "id_spec m op r m1" "idr_reps st1 m1"
    using exec_law [of st m pick op] by auto
  then obtain rs st2 m2 where "idr_run pick ops st1 = Some (rs, st2)" "id_spec_run m1 ops rs m2" "idr_reps st2 m2"
    using Cons by (meson id_legal.simps(2))
  then show ?case using 1 by (auto intro: id_spec_run.intros)
qed

lemma init_law: "i_heap st = Map.empty \<Longrightarrow> i_slab st = Map.empty \<Longrightarrow> idr_reps (idr_init st) Map.empty"
  unfolding idr_reps_def
  by (intro exI [of _ "\<lambda>_ _. 0"] exI [of _ "[]"])
     (auto simp: idr_ok_def idr_rep_def mem_ok_def nodes_def idr_init_def idr_map_def intro: tree_nothing)

section \<open>Properties\<close>

text \<open>C19: Refinement. From an initialised handle, any legal sequence of reservations, allocations, lookups, replacements,
  removals and releases of cached layers returns, and its results are those of a map from numbers to pointers in which
  every allocation takes the lowest free number at or above its start; at the end every lookup agrees with the map.\<close>

theorem idr_refines_map:
  assumes "fresh_pick pick" "i_heap st = Map.empty" "i_slab st = Map.empty" "id_legal Map.empty ops"
  shows "\<exists>rs st' m. idr_run pick ops (idr_init st) = Some (rs, st') \<and> id_spec_run Map.empty ops rs m \<and>
           (\<forall>i<2 ^ 31. idr_find st' (int i) = Some (found (m i)))"
  using run_law [OF init_law [OF assms(2,3)] assms(1,4)] find_law by blast

definition no_layers :: idr_mem where
  "no_layers = \<lparr>i_top = 0, i_free = 0, i_layers = 0, i_free_cnt = 0, i_heap = Map.empty, i_slab = Map.empty\<rparr>"

lemma number_free: "{..<1073741824::nat} \<noteq> {}"
  by (simp add: lessThan_empty_iff)

theorem idr_refines_map_witness:
  "\<exists>rs st' m. idr_run first_unused [Pre_Get, Get_New 7, Find 0] (idr_init no_layers) = Some (rs, st') \<and>
     id_spec_run Map.empty [Pre_Get, Get_New 7, Find 0] rs m \<and> (\<forall>i<2 ^ 31. idr_find st' (int i) = Some (found (m i)))"
  by (rule idr_refines_map [OF fresh_first_unused])
     (auto simp: no_layers_def number_free)

text \<open>C29: Reservation. After \<open>idr_pre_get\<close> has returned 1, an allocation with a straight start (the search never turns back to a higher layer:
  0, every free number, see \<open>straight_start\<close>), when a number below \<open>64 ^ 5\<close> at or above the start is free, succeeds, gives the
  lowest free number at or above the start, and a lookup finds the pointer under it.\<close>

theorem idr_reserved_never_fails:
  assumes "fresh_pick pick" "idr_reps st m" "idr_pre_get pick st = Some (1, st1)"
    and "straight_start (dom m) s" "s \<le> j" "j < 64 ^ 5" "j \<notin> dom m"
  shows "\<exists>i st2. idr_get_new_above st1 p (int s) = Some (0, Some (int i), st2) \<and> lowest_free (dom m) s i \<and>
           idr_find st2 (int i) = Some p"
proof -
  have r: "idr_reps st1 m" "idr_ready st1" using pre_get_law [OF assms(2,1)] assms(3) by auto
  obtain i st2 where i: "lowest_free (dom m) s i" "idr_get_new_above_int st1 p (int s) = Some (int i, st2)"
      "idr_reps st2 (m(i \<mapsto> p))"
    using get_new_above_law [OF r(1) assms(4-7), of p] r(2) by blast
  have "i < 2 ^ 31" using dom_below [OF i(3), of i] by simp
  then have "idr_find st2 (int i) = Some p" using find_law [OF i(3)] by (simp add: found_def)
  then show ?thesis using i by (auto simp: idr_get_new_above_def)
qed

lemma reserve_evaluated: "map_option fst (idr_pre_get first_unused (idr_init no_layers)) = Some 1"
  by code_simp

theorem idr_reserved_never_fails_witness:
  "\<exists>i st2. idr_get_new_above (snd (the (idr_pre_get first_unused (idr_init no_layers)))) 7 (int 100) =
       Some (0, Some (int i), st2) \<and> lowest_free (dom (Map.empty :: nat \<rightharpoonup> nat)) 100 i \<and> idr_find st2 (int i) = Some 7"
proof (rule idr_reserved_never_fails [where j = 100 and pick = first_unused and st = "idr_init no_layers" and m = Map.empty])
  show "idr_reps (idr_init no_layers) Map.empty" by (rule init_law) (simp_all add: no_layers_def)
  show "idr_pre_get first_unused (idr_init no_layers) = Some (1, snd (the (idr_pre_get first_unused (idr_init no_layers))))"
    using reserve_evaluated by auto
qed (simp_all add: straight_free fresh_first_unused)

text \<open>The client. \<open>lpfc_get_instance\<close> returns the lowest adapter number that is not in use, or -1 with the numbers in use
  unchanged.\<close>

theorem lpfc_get_instance_unique:
  assumes "fresh_pick pick" "idr_reps st m" "\<not> {..<64 ^ 5} \<subseteq> dom m"
  shows "\<exists>st'. lpfc_get_instance pick st = Some (- 1, st') \<and> idr_reps st' m \<or>
    (\<exists>i. lowest_free (dom m) 0 i \<and> lpfc_get_instance pick st = Some (int i, st') \<and> idr_reps st' (m(i \<mapsto> 0)))"
proof -
  have S: "idr_slab pick" by unfold_locales (rule assms(1))
  obtain j where j: "j < 64 ^ 5" "j \<notin> dom m" using assms(3) by auto
  show ?thesis by (rule idr_slab.lpfc_numbers [OF S assms(2) j])
qed

theorem lpfc_get_instance_unique_witness:
  "\<exists>st'. lpfc_get_instance first_unused (idr_init no_layers) = Some (- 1, st') \<and> idr_reps st' Map.empty \<or>
    (\<exists>i. lowest_free (dom (Map.empty :: nat \<rightharpoonup> nat)) 0 i \<and> lpfc_get_instance first_unused (idr_init no_layers) = Some (int i, st') \<and>
       idr_reps st' (Map.empty(i \<mapsto> 0)))"
  by (rule lpfc_get_instance_unique [OF fresh_first_unused init_law]) (simp_all add: no_layers_def number_free)

text \<open>Turning back goes wrong. Two allocations that start at 4095 get the numbers 4095 and 4096, but the second pointer is
  stored under 0: a lookup of 4096 finds nothing. An allocation that starts at \<open>2 ^ 30\<close> gets that number, and is stored
  under 0 as well.\<close>

theorem idr_get_new_above_misplaces:
  "do { (_, s) \<leftarrow> idr_pre_get first_unused (idr_init no_layers);
        (b, i, s) \<leftarrow> idr_get_new_above s 777 4095;
        (_, s) \<leftarrow> idr_pre_get first_unused s;
        (c, j, s) \<leftarrow> idr_get_new_above s 888 4095;
        x \<leftarrow> idr_find s 4096;
        y \<leftarrow> idr_find s 0;
        Some (b, i, c, j, x, y) } = Some (0, Some 4095, 0, Some 4096, 0, 888) \<and>
   do { (_, s) \<leftarrow> idr_pre_get first_unused (idr_init no_layers);
        (b, i, s) \<leftarrow> idr_get_new_above s 777 1073741824;
        x \<leftarrow> idr_find s 1073741824;
        y \<leftarrow> idr_find s 0;
        Some (b, i, x, y) } = Some (0, Some 1073741824, 0, 777)"
  by (rule conjI; code_simp)

text \<open>C35: \<open>idr_remove\<close> does not check its number: for every tree with a layer and every number below \<open>2 ^ 31\<close> it removes the entry that agrees with it in the digits the tree has, so a
  number beyond the tree takes another one's entry away.\<close>

theorem idr_remove_wraps:
  assumes "idr_reps st m" "0 < i_layers st" "r < 2 ^ 31"
  shows "\<exists>st'. idr_remove st (int r) = Some st' \<and> idr_reps st' (m(r mod 64 ^ i_layers st := None))"
proof -
  obtain nd fl where 1: "idr_ok nd fl st" "idr_map nd (i_heap st) = m" using assms(1) by (auto simp: idr_reps_def)
  have "nat (int r mod 2147483648) = r" using assms(3) by simp
  then show ?thesis using idr_remove_ok [OF 1(1), of "int r"] assms(2) 1(2) by (auto simp: idr_reps_def)
qed

definition one_entry :: idr_mem where
  "one_entry = no_layers\<lparr>i_top := 1, i_layers := 1,
     i_heap := [1 \<mapsto> \<lparr>l_bitmap = 1, l_ary = (replicate 64 0)[0 := 7], l_count = 1\<rparr>]\<rparr>"

lemma one_entry_reps: "idr_reps one_entry [0 \<mapsto> 7]"
proof -
  let ?nd = "lone_root 0 1"
  have bits: "{i::nat. i = 0 \<and> i < 64} = {0}" by auto
  have "tree_ok ?nd {} {} 1 1 (i_heap one_entry)"
    by (rule tree_okI)
       (auto simp: one_entry_def lone_root_def put_node_apply layer_ok_leaf bits bit_1_iff nth_list_update split: if_splits)
  moreover have "mem_ok ?nd [] {} one_entry"
    by (auto simp: mem_ok_def one_entry_def no_layers_def nodes_def lone_root_def put_node_apply split: if_splits)
  moreover have "idr_map ?nd (i_heap one_entry) = [0 \<mapsto> 7]"
  proof
    fix r :: nat
    have "r div 64 = 0 \<and> r mod 64 = 0 \<longleftrightarrow> r = 0" by auto
    then show "idr_map ?nd (i_heap one_entry) r = [0 \<mapsto> 7] r"
      by (auto simp: idr_map_def one_entry_def lone_root_def put_node_apply bit_1_iff)
  qed
  ultimately show ?thesis by (auto simp: idr_reps_def idr_ok_def idr_rep_def one_entry_def)
qed

theorem idr_remove_wraps_witness:
  "idr_reps one_entry [0 \<mapsto> 7] \<and> (\<exists>st'. idr_remove one_entry (int 64) = Some st' \<and> idr_reps st' Map.empty)"
  using idr_remove_wraps [OF one_entry_reps, of 64] one_entry_reps by (simp add: one_entry_def)

end
