(* ===== verification/Chardev.thy ===== *)
theory Chardev
  imports Prelude
begin

text \<open>
  Character devices of vmklinux: \<^verbatim>\<open>vmklinux26/vmware/linux_char.c\<close>. The vmkernel calls the entry points with the attributes of a file
  descriptor; each call builds a \<open>struct file\<close> for the driver and throws it away afterwards, and only \<open>private_data\<close> is carried from
  call to call, in \<open>clientData\<close>. The operations of the driver are functions on the file and on the state of the driver, of any
  type; \<^term>\<open>None\<close> stands for a pointer that is \<open>NULL\<close>. An entry point is undefined (\<^term>\<open>None\<close>) when it goes through a \<open>NULL\<close>
  pointer or leaves a table.
\<close>

section \<open>Files and drivers\<close>

record chr_inode =
  i_rdev :: u32

text \<open>\<open>f_other\<close> stands for all other fields; \<open>0\<close> is what \<open>memset\<close> leaves.\<close>

record chr_file =
  f_flags :: u32
  private_data :: nat
  f_owner_pid :: u32
  f_dentry :: "chr_inode option"
  f_other :: nat

record 'd file_operations =
  fop_open :: "(chr_inode \<Rightarrow> chr_file \<Rightarrow> 'd \<Rightarrow> int \<times> chr_file \<times> 'd) option"
  fop_release :: "(chr_inode \<Rightarrow> chr_file \<Rightarrow> 'd \<Rightarrow> int \<times> chr_file \<times> 'd) option"
  fop_compat_ioctl :: "(chr_file \<Rightarrow> u32 \<Rightarrow> nat \<Rightarrow> 'd \<Rightarrow> int \<times> chr_file \<times> 'd) option"
  fop_unlocked_ioctl :: "(chr_file \<Rightarrow> u32 \<Rightarrow> nat \<Rightarrow> 'd \<Rightarrow> int \<times> chr_file \<times> 'd) option"
  fop_ioctl :: "(chr_inode \<Rightarrow> chr_file \<Rightarrow> u32 \<Rightarrow> nat \<Rightarrow> 'd \<Rightarrow> int \<times> chr_file \<times> 'd) option"
  fop_fasync :: "(int \<Rightarrow> chr_file \<Rightarrow> int \<Rightarrow> 'd \<Rightarrow> int \<times> chr_file \<times> 'd) option"
  fop_poll :: "(chr_file \<Rightarrow> nat \<Rightarrow> 'd \<Rightarrow> u32 \<times> chr_file \<times> 'd) option"
  fop_read :: "(chr_file \<Rightarrow> nat \<Rightarrow> int \<Rightarrow> 'd \<Rightarrow> (int \<times> u8 list \<times> int) \<times> chr_file \<times> 'd) option"
  fop_write :: "(chr_file \<Rightarrow> u8 list \<Rightarrow> int \<Rightarrow> 'd \<Rightarrow> (int \<times> int) \<times> chr_file \<times> 'd) option"

record 'd LinuxCharDev =
  cd_modID :: nat
  cd_ops :: "'d file_operations option"

text \<open>The two tables, the state of the drivers, and the number of blocks that are allocated from the heaps of the modules.\<close>

record 'd char_sys =
  linuxCharDev :: "'d LinuxCharDev list"
  linuxMiscDev :: "'d LinuxCharDev list"
  drv :: 'd
  heap_blocks :: int

record fd_attr =
  at_major :: u16
  at_minor :: u16
  openFlags :: u32
  clientData :: nat

datatype vmk_status = VMK_OK | VMK_NO_MEMORY | VMK_NOT_IMPLEMENTED | VMK_GENERIC_LINUX_ERROR int

definition vmklnx_errno_to_vmk_return_status :: "int \<Rightarrow> vmk_status" where
  "vmklnx_errno_to_vmk_return_status error =
     (if error = 0 then VMK_OK else if error < 0 then VMK_GENERIC_LINUX_ERROR (- error) else VMK_GENERIC_LINUX_ERROR error)"

section \<open>Numbers\<close>

abbreviation (input) MISC_MAJOR :: nat where "MISC_MAJOR \<equiv> 10"
abbreviation (input) MAX_CHRDEV :: nat where "MAX_CHRDEV \<equiv> 255"
abbreviation (input) MISC_DYNAMIC_MINOR :: nat where "MISC_DYNAMIC_MINOR \<equiv> 255"
abbreviation (input) ENOIOCTLCMD :: int where "ENOIOCTLCMD \<equiv> 515"

definition MKDEV :: "u32 \<Rightarrow> u32 \<Rightarrow> u32" where
  "MKDEV ma mi = push_bit 20 ma OR mi"

definition LinuxChar_MajorMinorToPID :: "u16 \<Rightarrow> u16 \<Rightarrow> u32" where
  "LinuxChar_MajorMinorToPID major minor = (push_bit 16 (ucast major) AND 0xFFFF0000) OR (ucast minor AND 0xFFFF)"

definition LinuxChar_PIDToMajorMinor :: "u32 \<Rightarrow> u16 \<times> u16" where
  "LinuxChar_PIDToMajorMinor pid = (ucast (drop_bit 16 pid AND 0xFFFF), ucast (pid AND 0xFFFF))"

definition LinuxCharSelectDev :: "nat \<Rightarrow> nat \<Rightarrow> 'd char_sys \<Rightarrow> 'd LinuxCharDev option" where
  "LinuxCharSelectDev major minor s =
     (if major = MISC_MAJOR then (if minor < length (linuxMiscDev s) then Some (linuxMiscDev s ! minor) else None)
      else if major < length (linuxCharDev s) then Some (linuxCharDev s ! major) else None)"

text \<open>The operations of the device of a file descriptor.\<close>

definition dev_ops :: "fd_attr \<Rightarrow> 'd char_sys \<Rightarrow> 'd file_operations option" where
  "dev_ops attr s = LinuxCharSelectDev (unat (at_major attr)) (unat (at_minor attr)) s \<bind> cd_ops"

section \<open>Entry points\<close>

text \<open>\<open>mem\<close> is the answer of \<open>vmk_HeapAlloc\<close>: what the block holds, or \<^term>\<open>None\<close> when there is no memory.\<close>

definition heap_alloc :: "'d char_sys \<Rightarrow> 'd char_sys" where
  "heap_alloc s = s\<lparr>heap_blocks := heap_blocks s + 1\<rparr>"

definition heap_free :: "'d char_sys \<Rightarrow> 'd char_sys" where
  "heap_free s = s\<lparr>heap_blocks := heap_blocks s - 1\<rparr>"

definition attr_rdev :: "fd_attr \<Rightarrow> u32" where
  "attr_rdev attr = MKDEV (ucast (at_major attr) AND 0xff) (ucast (at_minor attr) AND 0xff)"

definition LinuxCharOpen :: "(chr_inode \<times> chr_file) option \<Rightarrow> fd_attr \<Rightarrow> 'd char_sys \<Rightarrow> (vmk_status \<times> fd_attr \<times> 'd char_sys) option" where
  "LinuxCharOpen mem attr s = do {
     ops \<leftarrow> dev_ops attr s;
     (case fop_open ops of
        None \<Rightarrow> Some (VMK_OK, attr, s)
      | Some f \<Rightarrow>
        (case mem of
           None \<Rightarrow> Some (VMK_NO_MEMORY, attr, s)
         | Some (inode, file) \<Rightarrow>
           let s1 = heap_alloc s;
               (ret, file1, d) = f (inode\<lparr>i_rdev := attr_rdev attr\<rparr>) (file\<lparr>f_flags := openFlags attr\<rparr>) (drv s1) in
           Some (vmklnx_errno_to_vmk_return_status ret, attr\<lparr>clientData := private_data file1\<rparr>, heap_free (s1\<lparr>drv := d\<rparr>)))) }"

text \<open>The file that an entry point builds: cleared, and filled from the file descriptor.\<close>

definition attr_file :: "fd_attr \<Rightarrow> chr_file" where
  "attr_file attr = \<lparr>f_flags = openFlags attr, private_data = clientData attr,
     f_owner_pid = LinuxChar_MajorMinorToPID (at_major attr) (at_minor attr), f_dentry = None, f_other = 0\<rparr>"

definition LinuxCharClose :: "bool \<Rightarrow> fd_attr \<Rightarrow> 'd char_sys \<Rightarrow> (vmk_status \<times> fd_attr \<times> 'd char_sys) option" where
  "LinuxCharClose mem attr s = do {
     ops \<leftarrow> dev_ops attr s;
     (case fop_release ops of
        None \<Rightarrow> Some (VMK_OK, attr, s)
      | Some f \<Rightarrow>
        if \<not> mem then Some (VMK_NO_MEMORY, attr, s)
        else
          let s1 = heap_alloc s;
              (ret, file1, d) = f \<lparr>i_rdev = attr_rdev attr\<rparr> ((attr_file attr)\<lparr>f_owner_pid := 0\<rparr>) (drv s1) in
          Some (vmklnx_errno_to_vmk_return_status ret, attr, heap_free (s1\<lparr>drv := d\<rparr>))) }"

text \<open>The three kinds of ioctl operations, one after the other until one knows the command; the result is that of the last one called.\<close>

definition ioctl_try :: "(chr_file \<Rightarrow> 'd \<Rightarrow> int \<times> chr_file \<times> 'd) option \<Rightarrow> (bool \<times> int) \<times> chr_file \<times> 'd \<Rightarrow> (bool \<times> int) \<times> chr_file \<times> 'd" where
  "ioctl_try op st =
     (case (op, st) of
        (Some f, (done, result), file, d) \<Rightarrow>
          if \<not> done then let (r, fd) = f file d in ((r \<noteq> - ENOIOCTLCMD, r), fd) else st
      | (None, _) \<Rightarrow> st)"

definition ioctl_ops :: "'d file_operations \<Rightarrow> bool \<Rightarrow> chr_inode \<Rightarrow> u32 \<Rightarrow> nat \<Rightarrow> int \<Rightarrow> chr_file \<Rightarrow> 'd \<Rightarrow> int \<times> chr_file \<times> 'd" where
  "ioctl_ops ops caller64 inode cmd arg result file d =
     (let st1 = ioctl_try (if caller64 then None else map_option (\<lambda>f file. f file cmd arg) (fop_compat_ioctl ops)) ((False, result), file, d);
          st2 = ioctl_try (map_option (\<lambda>f file. f file cmd arg) (fop_unlocked_ioctl ops)) st1;
          st3 = ioctl_try (map_option (\<lambda>f file. f inode file cmd arg) (fop_ioctl ops)) st2 in
      (snd (fst st3), snd st3))"

definition LinuxCharIoctl ::
  "bool \<Rightarrow> fd_attr \<Rightarrow> u32 \<Rightarrow> nat \<Rightarrow> bool \<Rightarrow> int \<Rightarrow> 'd char_sys \<Rightarrow> (vmk_status \<times> int \<times> fd_attr \<times> 'd char_sys) option" where
  "LinuxCharIoctl mem attr cmd userData caller64 result s = do {
     ops \<leftarrow> dev_ops attr s;
     if Option.is_none (fop_compat_ioctl ops) \<and> Option.is_none (fop_unlocked_ioctl ops) \<and> Option.is_none (fop_ioctl ops) then Some (VMK_NOT_IMPLEMENTED, result, attr, s)
     else if Option.is_none (fop_unlocked_ioctl ops) \<and> Option.is_none (fop_ioctl ops) \<and> caller64 then Some (VMK_NOT_IMPLEMENTED, result, attr, s)
     else if \<not> mem then Some (VMK_NO_MEMORY, result, attr, s)
     else
       let s1 = heap_alloc s;
           inode = \<lparr>i_rdev = attr_rdev attr\<rparr>;
           (result1, file1, d) = ioctl_ops ops caller64 inode cmd userData result ((attr_file attr)\<lparr>f_dentry := Some inode\<rparr>) (drv s1) in
       Some (VMK_OK, result1, attr\<lparr>clientData := private_data file1\<rparr>, heap_free (s1\<lparr>drv := d\<rparr>)) }"

definition LinuxCharFasync :: "bool \<Rightarrow> fd_attr \<Rightarrow> 'd char_sys \<Rightarrow> (vmk_status \<times> fd_attr \<times> 'd char_sys) option" where
  "LinuxCharFasync mem attr s = do {
     ops \<leftarrow> dev_ops attr s;
     (case fop_fasync ops of
        None \<Rightarrow> Some (VMK_NOT_IMPLEMENTED, attr, s)
      | Some f \<Rightarrow>
        if \<not> mem then Some (VMK_NO_MEMORY, attr, s)
        else
          let s1 = heap_alloc s; (ret, file1, d) = f (- 1) (attr_file attr) (- 1) (drv s1) in
          Some (vmklnx_errno_to_vmk_return_status ret, attr\<lparr>clientData := private_data file1\<rparr>, heap_free (s1\<lparr>drv := d\<rparr>))) }"

text \<open>\<open>POLLIN | POLLRDNORM | POLLOUT | POLLWRNORM\<close>.\<close>

abbreviation (input) poll_ready :: u32 where "poll_ready \<equiv> 0x145"

definition LinuxCharPoll :: "bool \<Rightarrow> fd_attr \<Rightarrow> nat \<Rightarrow> u32 \<Rightarrow> 'd char_sys \<Rightarrow> (vmk_status \<times> u32 \<times> fd_attr \<times> 'd char_sys) option" where
  "LinuxCharPoll mem attr pollCtx pollMask s = do {
     ops \<leftarrow> dev_ops attr s;
     (case fop_poll ops of
        None \<Rightarrow> Some (VMK_OK, poll_ready, attr, s)
      | Some f \<Rightarrow>
        if \<not> mem then Some (VMK_NO_MEMORY, pollMask, attr, s)
        else
          let s1 = heap_alloc s; (mask, file1, d) = f (attr_file attr) pollCtx (drv s1) in
          Some (VMK_OK, mask, attr\<lparr>clientData := private_data file1\<rparr>, heap_free (s1\<lparr>drv := d\<rparr>))) }"

text \<open>\<open>out\<close> is what the driver has put into the buffer, and \<open>ppos\<close> the position.\<close>

definition LinuxCharRead ::
  "bool \<Rightarrow> fd_attr \<Rightarrow> nat \<Rightarrow> int \<Rightarrow> int \<Rightarrow> 'd char_sys \<Rightarrow> (vmk_status \<times> (int \<times> u8 list \<times> int) \<times> fd_attr \<times> 'd char_sys) option" where
  "LinuxCharRead mem attr nbytes ppos nread s = do {
     ops \<leftarrow> dev_ops attr s;
     (case fop_read ops of
        None \<Rightarrow> Some (VMK_NOT_IMPLEMENTED, (nread, [], ppos), attr, s)
      | Some f \<Rightarrow>
        if \<not> mem then Some (VMK_NO_MEMORY, (nread, [], ppos), attr, s)
        else
          let s1 = heap_alloc s; ((n, out, pos), file1, d) = f (attr_file attr) nbytes ppos (drv s1) in
          Some (if n < 0 then vmklnx_errno_to_vmk_return_status n else VMK_OK, (n, out, pos),
            attr\<lparr>clientData := private_data file1\<rparr>, heap_free (s1\<lparr>drv := d\<rparr>))) }"

definition LinuxCharWrite ::
  "bool \<Rightarrow> fd_attr \<Rightarrow> u8 list \<Rightarrow> int \<Rightarrow> int \<Rightarrow> 'd char_sys \<Rightarrow> (vmk_status \<times> (int \<times> int) \<times> fd_attr \<times> 'd char_sys) option" where
  "LinuxCharWrite mem attr buffer ppos nwritten s = do {
     ops \<leftarrow> dev_ops attr s;
     (case fop_write ops of
        None \<Rightarrow> Some (VMK_NOT_IMPLEMENTED, (nwritten, ppos), attr, s)
      | Some f \<Rightarrow>
        if \<not> mem then Some (VMK_NO_MEMORY, (nwritten, ppos), attr, s)
        else
          let s1 = heap_alloc s; ((n, pos), file1, d) = f (attr_file attr) buffer ppos (drv s1) in
          Some (if n < 0 then vmklnx_errno_to_vmk_return_status n else VMK_OK, (n, pos),
            attr\<lparr>clientData := private_data file1\<rparr>, heap_free (s1\<lparr>drv := d\<rparr>))) }"

section \<open>Registration\<close>

text \<open>The answer of \<open>vmk_CharDevRegister\<close>: the major number it has assigned, \<open>VMK_BUSY\<close>, or another error.\<close>

datatype reg_answer = Reg_ok nat | Reg_busy | Reg_failed

abbreviation (input) EBUSY :: int where "EBUSY \<equiv> 16"
abbreviation (input) EINVAL :: int where "EINVAL \<equiv> 22"

definition set_dev :: "nat \<Rightarrow> 'd LinuxCharDev \<Rightarrow> 'd LinuxCharDev list \<Rightarrow> 'd LinuxCharDev list option" where
  "set_dev i c tbl = (if i < length tbl then Some (tbl[i := c]) else None)"

definition register_chrdev :: "nat \<Rightarrow> nat \<Rightarrow> 'd file_operations \<Rightarrow> reg_answer \<Rightarrow> 'd char_sys \<Rightarrow> (int \<times> 'd char_sys) option" where
  "register_chrdev major module fops ans s =
     (case ans of
        Reg_ok assigned \<Rightarrow> do {
          tbl \<leftarrow> set_dev assigned \<lparr>cd_modID = module, cd_ops = Some fops\<rparr> (linuxCharDev s);
          Some (if major = 0 then int assigned else 0, s\<lparr>linuxCharDev := tbl\<rparr>) }
      | Reg_busy \<Rightarrow> Some (- EBUSY, s)
      | Reg_failed \<Rightarrow> Some (- EINVAL, s))"

definition unregister_chrdev :: "nat \<Rightarrow> bool \<Rightarrow> 'd char_sys \<Rightarrow> (int \<times> 'd char_sys) option" where
  "unregister_chrdev major ok s =
     (if ok then do { tbl \<leftarrow> set_dev major \<lparr>cd_modID = 0, cd_ops = None\<rparr> (linuxCharDev s); Some (0, s\<lparr>linuxCharDev := tbl\<rparr>) }
      else Some (- EINVAL, s))"

definition misc_register :: "nat \<Rightarrow> nat \<Rightarrow> 'd file_operations \<Rightarrow> reg_answer \<Rightarrow> 'd char_sys \<Rightarrow> (int \<times> 'd char_sys) option" where
  "misc_register minor module fops ans s =
     (case ans of
        Reg_ok assigned \<Rightarrow> do {
          tbl \<leftarrow> set_dev minor \<lparr>cd_modID = module, cd_ops = Some fops\<rparr> (linuxMiscDev s);
          Some (int assigned, s\<lparr>linuxMiscDev := tbl\<rparr>) }
      | Reg_busy \<Rightarrow> Some (- EBUSY, s)
      | Reg_failed \<Rightarrow> Some (- EINVAL, s))"

definition misc_deregister :: "nat \<Rightarrow> bool \<Rightarrow> 'd char_sys \<Rightarrow> (int \<times> 'd char_sys) option" where
  "misc_deregister minor ok s =
     (if ok then do { tbl \<leftarrow> set_dev minor \<lparr>cd_modID = 0, cd_ops = None\<rparr> (linuxMiscDev s); Some (0, s\<lparr>linuxMiscDev := tbl\<rparr>) }
      else Some (- EINVAL, s))"

section \<open>Sessions\<close>

text \<open>The calls on an open file descriptor, and what they give: a status, a number, data and a position.\<close>

datatype chr_call = Call_ioctl u32 nat bool | Call_read nat int | Call_write "u8 list" int | Call_poll nat | Call_fasync

type_synonym chr_result = "vmk_status \<times> int \<times> u8 list \<times> int"

text \<open>\<open>mem\<close>: there is memory for the call.\<close>

fun chr_call_run :: "bool \<Rightarrow> chr_call \<Rightarrow> fd_attr \<Rightarrow> 'd char_sys \<Rightarrow> (chr_result \<times> fd_attr \<times> 'd char_sys) option" where
  "chr_call_run mem (Call_ioctl cmd arg c64) attr s = do { (st, r, a, s1) \<leftarrow> LinuxCharIoctl mem attr cmd arg c64 0 s; Some ((st, r, [], 0), a, s1) }"
| "chr_call_run mem (Call_read n pos) attr s = do { (st, (r, out, p), a, s1) \<leftarrow> LinuxCharRead mem attr n pos 0 s; Some ((st, r, out, p), a, s1) }"
| "chr_call_run mem (Call_write bs pos) attr s = do { (st, (r, p), a, s1) \<leftarrow> LinuxCharWrite mem attr bs pos 0 s; Some ((st, r, [], p), a, s1) }"
| "chr_call_run mem (Call_poll ctx) attr s = do { (st, m, a, s1) \<leftarrow> LinuxCharPoll mem attr ctx 0 s; Some ((st, uint m, [], 0), a, s1) }"
| "chr_call_run mem Call_fasync attr s = do { (st, a, s1) \<leftarrow> LinuxCharFasync mem attr s; Some ((st, 0, [], 0), a, s1) }"

fun chr_calls_run :: "(bool \<times> chr_call) list \<Rightarrow> fd_attr \<Rightarrow> 'd char_sys \<Rightarrow> (chr_result list \<times> fd_attr \<times> 'd char_sys) option" where
  "chr_calls_run [] attr s = Some ([], attr, s)"
| "chr_calls_run ((mem, c) # cs) attr s = do {
     (r, a, s1) \<leftarrow> chr_call_run mem c attr s; (rs, a2, s2) \<leftarrow> chr_calls_run cs a s1; Some (r # rs, a2, s2) }"

text \<open>A session: open, calls, close, each with memory or without; \<open>mo\<close> is the block of memory that open gets, if there is one, with what it
  holds, \<open>mc\<close> says whether there is memory for the close.\<close>

definition chr_session ::
  "(chr_inode \<times> chr_file) option \<Rightarrow> (bool \<times> chr_call) list \<Rightarrow> bool \<Rightarrow> fd_attr \<Rightarrow> 'd char_sys \<Rightarrow>
   (vmk_status \<times> chr_result list \<times> vmk_status \<times> 'd char_sys) option" where
  "chr_session mo cs mc attr s = do {
     (st, a1, s1) \<leftarrow> LinuxCharOpen mo attr s;
     (rs, a2, s2) \<leftarrow> chr_calls_run cs a1 s1;
     (st2, a3, s3) \<leftarrow> LinuxCharClose mc a2 s2;
     Some (st, rs, st2, s3) }"

text \<open>What a driver may expect: one \<open>struct file\<close> from open to close, which its operations work on.\<close>

fun spec_call :: "'d file_operations \<Rightarrow> chr_inode \<Rightarrow> chr_call \<Rightarrow> chr_file \<times> 'd \<Rightarrow> chr_result \<times> chr_file \<times> 'd" where
  "spec_call ops ino (Call_ioctl cmd arg c64) fd =
     (if Option.is_none (fop_unlocked_ioctl ops) \<and> Option.is_none (fop_ioctl ops) \<and> (c64 \<or> Option.is_none (fop_compat_ioctl ops))
      then ((VMK_NOT_IMPLEMENTED, 0, [], 0), fd)
      else let (r, fd1) = ioctl_ops ops c64 ino cmd arg 0 (fst fd) (snd fd) in ((VMK_OK, r, [], 0), fd1))"
| "spec_call ops ino (Call_read n pos) fd = (case fop_read ops of None \<Rightarrow> ((VMK_NOT_IMPLEMENTED, 0, [], pos), fd)
     | Some f \<Rightarrow> let ((k, out, p), fd1) = f (fst fd) n pos (snd fd) in ((if k < 0 then vmklnx_errno_to_vmk_return_status k else VMK_OK, k, out, p), fd1))"
| "spec_call ops ino (Call_write bs pos) fd = (case fop_write ops of None \<Rightarrow> ((VMK_NOT_IMPLEMENTED, 0, [], pos), fd)
     | Some f \<Rightarrow> let ((k, p), fd1) = f (fst fd) bs pos (snd fd) in ((if k < 0 then vmklnx_errno_to_vmk_return_status k else VMK_OK, k, [], p), fd1))"
| "spec_call ops ino (Call_poll ctx) fd = (case fop_poll ops of None \<Rightarrow> ((VMK_OK, uint poll_ready, [], 0), fd)
     | Some f \<Rightarrow> let (m, fd1) = f (fst fd) ctx (snd fd) in ((VMK_OK, uint m, [], 0), fd1))"
| "spec_call ops ino Call_fasync fd = (case fop_fasync ops of None \<Rightarrow> ((VMK_NOT_IMPLEMENTED, 0, [], 0), fd)
     | Some f \<Rightarrow> let (r, fd1) = f (- 1) (fst fd) (- 1) (snd fd) in ((vmklnx_errno_to_vmk_return_status r, 0, [], 0), fd1))"

text \<open>A call that the driver has an operation for fails when there is no memory, and then does nothing.\<close>

fun call_handled :: "'d file_operations \<Rightarrow> chr_call \<Rightarrow> bool" where
  "call_handled ops (Call_ioctl cmd arg c64) \<longleftrightarrow> fop_unlocked_ioctl ops \<noteq> None \<or> fop_ioctl ops \<noteq> None \<or> \<not> c64 \<and> fop_compat_ioctl ops \<noteq> None"
| "call_handled ops (Call_read n pos) \<longleftrightarrow> fop_read ops \<noteq> None"
| "call_handled ops (Call_write bs pos) \<longleftrightarrow> fop_write ops \<noteq> None"
| "call_handled ops (Call_poll ctx) \<longleftrightarrow> fop_poll ops \<noteq> None"
| "call_handled ops Call_fasync \<longleftrightarrow> fop_fasync ops \<noteq> None"

fun call_pos :: "chr_call \<Rightarrow> int" where
  "call_pos (Call_read n pos) = pos"
| "call_pos (Call_write bs pos) = pos"
| "call_pos _ = 0"

definition spec_call_mem :: "'d file_operations \<Rightarrow> chr_inode \<Rightarrow> bool \<Rightarrow> chr_call \<Rightarrow> chr_file \<times> 'd \<Rightarrow> chr_result \<times> chr_file \<times> 'd" where
  "spec_call_mem ops ino mem c fd = (if call_handled ops c \<and> \<not> mem then ((VMK_NO_MEMORY, 0, [], call_pos c), fd) else spec_call ops ino c fd)"

fun spec_calls :: "'d file_operations \<Rightarrow> chr_inode \<Rightarrow> (bool \<times> chr_call) list \<Rightarrow> chr_file \<times> 'd \<Rightarrow> chr_result list \<times> chr_file \<times> 'd" where
  "spec_calls ops ino [] fd = ([], fd)"
| "spec_calls ops ino ((mem, c) # cs) fd = (let (r, fd1) = spec_call_mem ops ino mem c fd; (rs, fd2) = spec_calls ops ino cs fd1 in (r # rs, fd2))"

text \<open>Open and release, with memory or without.\<close>

definition spec_end :: "(chr_inode \<Rightarrow> chr_file \<Rightarrow> 'd \<Rightarrow> int \<times> chr_file \<times> 'd) option \<Rightarrow> bool \<Rightarrow> chr_inode \<Rightarrow> chr_file \<times> 'd \<Rightarrow> vmk_status \<times> chr_file \<times> 'd" where
  "spec_end fop mem ino fd = (case fop of None \<Rightarrow> (VMK_OK, fd)
     | Some f \<Rightarrow> if \<not> mem then (VMK_NO_MEMORY, fd) else let (r, fd1) = f ino (fst fd) (snd fd) in (vmklnx_errno_to_vmk_return_status r, fd1))"

text \<open>The file at the beginning: what the block of memory for open holds, with the flags; when the driver's open is not called, the flags and the
  client data of the file descriptor.\<close>

definition spec_file :: "'d file_operations \<Rightarrow> (chr_inode \<times> chr_file) option \<Rightarrow> fd_attr \<Rightarrow> chr_file" where
  "spec_file ops mo attr = (case mo of Some (_, file) \<Rightarrow> if fop_open ops = None then attr_file attr else file\<lparr>f_flags := openFlags attr\<rparr> | None \<Rightarrow> attr_file attr)"

text \<open>A driver for which it makes no difference: its operations use nothing of the file but \<open>f_flags\<close> and \<open>private_data\<close>, and leave \<open>f_flags\<close> alone.\<close>

definition same_view :: "chr_file \<Rightarrow> chr_file \<Rightarrow> bool" where
  "same_view fl fl' \<longleftrightarrow> f_flags fl = f_flags fl' \<and> private_data fl = private_data fl'"

definition file_local :: "(chr_file \<Rightarrow> 'd \<Rightarrow> 'r \<times> chr_file \<times> 'd) \<Rightarrow> bool" where
  "file_local f \<longleftrightarrow> (\<forall>fl fl' d. same_view fl fl' \<longrightarrow>
     (case (f fl d, f fl' d) of ((r, g, e), (r', g', e')) \<Rightarrow> r = r' \<and> e = e' \<and> same_view g g' \<and> f_flags g = f_flags fl))"

definition ops_local :: "'d file_operations \<Rightarrow> bool" where
  "ops_local ops \<longleftrightarrow>
     (\<forall>f ino. fop_open ops = Some f \<longrightarrow> file_local (f ino)) \<and> (\<forall>f ino. fop_release ops = Some f \<longrightarrow> file_local (f ino)) \<and>
     (\<forall>f c a. fop_compat_ioctl ops = Some f \<longrightarrow> file_local (\<lambda>fl. f fl c a)) \<and> (\<forall>f c a. fop_unlocked_ioctl ops = Some f \<longrightarrow> file_local (\<lambda>fl. f fl c a)) \<and>
     (\<forall>f ino c a. fop_ioctl ops = Some f \<longrightarrow> file_local (\<lambda>fl. f ino fl c a)) \<and> (\<forall>f n m. fop_fasync ops = Some f \<longrightarrow> file_local (\<lambda>fl. f n fl m)) \<and>
     (\<forall>f c. fop_poll ops = Some f \<longrightarrow> file_local (\<lambda>fl. f fl c)) \<and> (\<forall>f n p. fop_read ops = Some f \<longrightarrow> file_local (\<lambda>fl. f fl n p)) \<and>
     (\<forall>f b p. fop_write ops = Some f \<longrightarrow> file_local (\<lambda>fl. f fl b p))"

section \<open>Lemmas\<close>

lemma same_view_refl [simp]: "same_view fl fl"
  by (simp add: same_view_def)

lemma file_localD:
  assumes "file_local f" "same_view fl fl'"
  shows "fst (f fl d) = fst (f fl' d)" "snd (snd (f fl d)) = snd (snd (f fl' d))" "same_view (fst (snd (f fl d))) (fst (snd (f fl' d)))"
    "f_flags (fst (snd (f fl d))) = f_flags fl"
  using assms by (auto simp: file_local_def split_beta)

lemma file_localI:
  assumes "\<And>fl fl' d. same_view fl fl' \<Longrightarrow> fst (f fl d) = fst (f fl' d) \<and> snd (snd (f fl d)) = snd (snd (f fl' d)) \<and>
     same_view (fst (snd (f fl d))) (fst (snd (f fl' d))) \<and> f_flags (fst (snd (f fl d))) = f_flags fl"
  shows "file_local f"
  using assms by (auto simp: file_local_def split_beta)

text \<open>Two attempts at an ioctl see the same, and leave the same.\<close>

lemma ioctl_try_local:
  assumes "\<And>f. op = Some f \<Longrightarrow> file_local f" "fst st = fst st'" "snd (snd st) = snd (snd st')" "same_view (fst (snd st)) (fst (snd st'))"
  shows "fst (ioctl_try op st) = fst (ioctl_try op st')" "snd (snd (ioctl_try op st)) = snd (snd (ioctl_try op st'))"
    "same_view (fst (snd (ioctl_try op st))) (fst (snd (ioctl_try op st')))" "f_flags (fst (snd (ioctl_try op st))) = f_flags (fst (snd st))"
proof -
  have "fst (ioctl_try op st) = fst (ioctl_try op st') \<and> snd (snd (ioctl_try op st)) = snd (snd (ioctl_try op st')) \<and>
    same_view (fst (snd (ioctl_try op st))) (fst (snd (ioctl_try op st'))) \<and> f_flags (fst (snd (ioctl_try op st))) = f_flags (fst (snd st))"
  proof (cases op)
    case (Some f)
    then show ?thesis using file_localD [OF assms(1) [OF Some] assms(4), of "snd (snd st)"] assms(2-4)
      by (simp add: ioctl_try_def split_beta)
  qed (use assms(2-4) in \<open>simp add: ioctl_try_def\<close>)
  then show "fst (ioctl_try op st) = fst (ioctl_try op st')" "snd (snd (ioctl_try op st)) = snd (snd (ioctl_try op st'))"
    "same_view (fst (snd (ioctl_try op st))) (fst (snd (ioctl_try op st')))" "f_flags (fst (snd (ioctl_try op st))) = f_flags (fst (snd st))"
    by simp_all
qed

lemma ioctl_local:
  assumes "ops_local ops"
  shows "file_local (ioctl_ops ops c64 ino cmd arg result)"
proof (rule file_localI)
  fix fl fl' :: chr_file and d :: 'a
  assume v: "same_view fl fl'"
  let ?c = "if c64 then None else map_option (\<lambda>f file. f file cmd arg) (fop_compat_ioctl ops)"
  let ?u = "map_option (\<lambda>f file. f file cmd arg) (fop_unlocked_ioctl ops)"
  let ?i = "map_option (\<lambda>f file. f ino file cmd arg) (fop_ioctl ops)"
  have op: "?c = Some f \<Longrightarrow> file_local f" "?u = Some f \<Longrightarrow> file_local f" "?i = Some f \<Longrightarrow> file_local f" for f
    using assms by (auto simp: ops_local_def split: if_splits)
  note 1 = ioctl_try_local [of ?c "((False, result), fl, d)" "((False, result), fl', d)", OF op(1)]
  note 2 = ioctl_try_local [of ?u "ioctl_try ?c ((False, result), fl, d)" "ioctl_try ?c ((False, result), fl', d)", OF op(2)]
  note 3 = ioctl_try_local [of ?i "ioctl_try ?u (ioctl_try ?c ((False, result), fl, d))" "ioctl_try ?u (ioctl_try ?c ((False, result), fl', d))", OF op(3)]
  show "fst (ioctl_ops ops c64 ino cmd arg result fl d) = fst (ioctl_ops ops c64 ino cmd arg result fl' d) \<and>
      snd (snd (ioctl_ops ops c64 ino cmd arg result fl d)) = snd (snd (ioctl_ops ops c64 ino cmd arg result fl' d)) \<and>
      same_view (fst (snd (ioctl_ops ops c64 ino cmd arg result fl d))) (fst (snd (ioctl_ops ops c64 ino cmd arg result fl' d))) \<and>
      f_flags (fst (snd (ioctl_ops ops c64 ino cmd arg result fl d))) = f_flags fl"
    using 1 2 3 v by (simp add: ioctl_ops_def Let_def)
qed

section \<open>A file descriptor behaves like one file\<close>

text \<open>What the calls leave alone: the tables, the blocks of the heap, and the device and flags of the file descriptor.\<close>

definition quiet :: "fd_attr \<Rightarrow> 'd char_sys \<Rightarrow> fd_attr \<Rightarrow> 'd char_sys \<Rightarrow> bool" where
  "quiet attr s attr' s' \<longleftrightarrow> linuxCharDev s' = linuxCharDev s \<and> linuxMiscDev s' = linuxMiscDev s \<and> heap_blocks s' = heap_blocks s \<and>
     at_major attr' = at_major attr \<and> at_minor attr' = at_minor attr \<and> openFlags attr' = openFlags attr"

lemma quiet_ops:
  assumes "quiet attr s attr' s'"
  shows "dev_ops attr' s' = dev_ops attr s" "attr_rdev attr' = attr_rdev attr"
  using assms by (simp_all add: quiet_def dev_ops_def LinuxCharSelectDev_def attr_rdev_def)

lemma quiet_trans: "quiet a s a1 s1 \<Longrightarrow> quiet a1 s1 a2 s2 \<Longrightarrow> quiet a s a2 s2"
  by (simp add: quiet_def)

lemma quiet_call: "quiet attr s (attr\<lparr>clientData := p\<rparr>) (heap_free ((heap_alloc s)\<lparr>drv := d\<rparr>))" "drv (heap_alloc s) = drv s" "drv (heap_free s1) = drv s1" "quiet attr s attr s"
  "quiet attr s attr (heap_free ((heap_alloc s)\<lparr>drv := d\<rparr>))"
  by (simp_all add: quiet_def heap_alloc_def heap_free_def)

lemma attr_file_simps [simp]: "f_flags (attr_file attr) = openFlags attr" "private_data (attr_file attr) = clientData attr"
  by (simp_all add: attr_file_def)

text \<open>Without memory a call that the driver handles is refused.\<close>

lemma call_no_mem:
  assumes "dev_ops attr s = Some ops"
  shows "chr_call_run mem c attr s = (if call_handled ops c \<and> \<not> mem then Some ((VMK_NO_MEMORY, 0, [], call_pos c), attr, s) else chr_call_run True c attr s)"
proof (cases c)
  case (Call_ioctl cmd arg c64)
  then show ?thesis using assms by (cases mem; cases c64) (auto simp: LinuxCharIoctl_def Option.is_none_def)
qed (use assms in \<open>auto simp: LinuxCharRead_def LinuxCharWrite_def LinuxCharPoll_def LinuxCharFasync_def split: option.splits\<close>)

lemma call_sim:
  assumes "dev_ops attr s = Some ops" "ops_local ops" "same_view (attr_file attr) fl"
  shows "\<exists>attr' s'. chr_call_run True c attr s = Some (fst (spec_call ops \<lparr>i_rdev = attr_rdev attr\<rparr> c (fl, drv s)), attr', s') \<and> quiet attr s attr' s' \<and>
    same_view (attr_file attr') (fst (snd (spec_call ops \<lparr>i_rdev = attr_rdev attr\<rparr> c (fl, drv s)))) \<and> drv s' = snd (snd (spec_call ops \<lparr>i_rdev = attr_rdev attr\<rparr> c (fl, drv s)))"
proof (cases c)
  case (Call_ioctl cmd arg c64)
  have "same_view ((attr_file attr)\<lparr>f_dentry := Some \<lparr>i_rdev = attr_rdev attr\<rparr>\<rparr>) fl" using assms(3) by (simp add: same_view_def)
  from file_localD [OF ioctl_local [OF assms(2)] this, of c64 "\<lparr>i_rdev = attr_rdev attr\<rparr>" cmd arg 0 "drv s"] show ?thesis using assms(1,3)
    by (auto simp: Call_ioctl LinuxCharIoctl_def quiet_call same_view_def split_beta Let_def)
next
  case (Call_read n pos)
  show ?thesis
  proof (cases "fop_read ops")
    case (Some f)
    then have "file_local (\<lambda>fl. f fl n pos)" using assms(2) by (simp add: ops_local_def)
    from file_localD [OF this assms(3), of "drv s"] show ?thesis using assms(1,3)
      by (auto simp: Call_read Some LinuxCharRead_def quiet_call same_view_def split_beta Let_def)
  qed (use assms in \<open>simp add: Call_read LinuxCharRead_def quiet_call\<close>)
next
  case (Call_write bs pos)
  show ?thesis
  proof (cases "fop_write ops")
    case (Some f)
    then have "file_local (\<lambda>fl. f fl bs pos)" using assms(2) by (simp add: ops_local_def)
    from file_localD [OF this assms(3), of "drv s"] show ?thesis using assms(1,3)
      by (auto simp: Call_write Some LinuxCharWrite_def quiet_call same_view_def split_beta Let_def)
  qed (use assms in \<open>simp add: Call_write LinuxCharWrite_def quiet_call\<close>)
next
  case (Call_poll ctx)
  show ?thesis
  proof (cases "fop_poll ops")
    case (Some f)
    then have "file_local (\<lambda>fl. f fl ctx)" using assms(2) by (simp add: ops_local_def)
    from file_localD [OF this assms(3), of "drv s"] show ?thesis using assms(1,3)
      by (auto simp: Call_poll Some LinuxCharPoll_def quiet_call same_view_def split_beta Let_def)
  qed (use assms in \<open>simp add: Call_poll LinuxCharPoll_def quiet_call\<close>)
next
  case Call_fasync
  show ?thesis
  proof (cases "fop_fasync ops")
    case (Some f)
    then have "file_local (\<lambda>fl. f (- 1) fl (- 1))" using assms(2) by (simp add: ops_local_def)
    from file_localD [OF this assms(3), of "drv s"] show ?thesis using assms(1,3)
      by (auto simp: Call_fasync Some LinuxCharFasync_def quiet_call same_view_def split_beta Let_def)
  qed (use assms in \<open>simp add: Call_fasync LinuxCharFasync_def quiet_call\<close>)
qed

lemma call_mem_sim:
  assumes "dev_ops attr s = Some ops" "ops_local ops" "same_view (attr_file attr) fl" "ino = \<lparr>i_rdev = attr_rdev attr\<rparr>"
  shows "\<exists>attr' s'. chr_call_run mem c attr s = Some (fst (spec_call_mem ops ino mem c (fl, drv s)), attr', s') \<and> quiet attr s attr' s' \<and>
    same_view (attr_file attr') (fst (snd (spec_call_mem ops ino mem c (fl, drv s)))) \<and> drv s' = snd (snd (spec_call_mem ops ino mem c (fl, drv s)))"
proof (cases "call_handled ops c \<and> \<not> mem")
  case True
  then show ?thesis using assms by (simp add: call_no_mem [OF assms(1)] spec_call_mem_def quiet_call)
next
  case False
  then show ?thesis using call_sim [OF assms(1-3), of c] unfolding call_no_mem [OF assms(1), of mem] spec_call_mem_def assms(4)
    by (simp only: if_False)
qed

lemma calls_sim:
  assumes "dev_ops attr s = Some ops" "ops_local ops" "same_view (attr_file attr) fl" "ino = \<lparr>i_rdev = attr_rdev attr\<rparr>"
  shows "\<exists>attr' s'. chr_calls_run cs attr s = Some (fst (spec_calls ops ino cs (fl, drv s)), attr', s') \<and> quiet attr s attr' s' \<and>
    same_view (attr_file attr') (fst (snd (spec_calls ops ino cs (fl, drv s)))) \<and> drv s' = snd (snd (spec_calls ops ino cs (fl, drv s)))"
  using assms
proof (induction cs arbitrary: attr s fl)
  case (Cons mc cs)
  obtain mem c where m: "mc = (mem, c)" by fastforce
  obtain r fl1 d1 where sp: "spec_call_mem ops ino mem c (fl, drv s) = (r, fl1, d1)" by (metis prod.collapse)
  obtain a1 s1 where c: "chr_call_run mem c attr s = Some (r, a1, s1)" "quiet attr s a1 s1" "same_view (attr_file a1) fl1" "drv s1 = d1"
    using call_mem_sim [OF Cons.prems, of mem c] sp by auto
  obtain a2 s2 where r: "chr_calls_run cs a1 s1 = Some (fst (spec_calls ops ino cs (fl1, d1)), a2, s2)" "quiet a1 s1 a2 s2"
      "same_view (attr_file a2) (fst (snd (spec_calls ops ino cs (fl1, d1))))" "drv s2 = snd (snd (spec_calls ops ino cs (fl1, d1)))"
    using Cons.IH [of a1 s1 fl1] Cons.prems c quiet_ops [OF c(2)] by auto
  then show ?case using c sp quiet_trans by (auto simp: m split_beta Let_def)
qed (simp add: quiet_call)

definition spec_session ::
  "'d file_operations \<Rightarrow> chr_inode \<Rightarrow> bool \<Rightarrow> chr_file \<Rightarrow> (bool \<times> chr_call) list \<Rightarrow> bool \<Rightarrow> 'd \<Rightarrow> vmk_status \<times> chr_result list \<times> vmk_status \<times> 'd" where
  "spec_session ops ino mo file cs mc d =
     (let (st, fd1) = spec_end (fop_open ops) mo ino (file, d);
          (rs, fd2) = spec_calls ops ino cs fd1;
          (st2, fd3) = spec_end (fop_release ops) mc ino fd2 in (st, rs, st2, snd fd3))"

lemma open_sim:
  fixes mo
  assumes "dev_ops attr s = Some ops" "ops_local ops"
  defines "sp \<equiv> spec_end (fop_open ops) (mo \<noteq> None) \<lparr>i_rdev = attr_rdev attr\<rparr> (spec_file ops mo attr, drv s)"
  shows "\<exists>attr' s'. LinuxCharOpen mo attr s = Some (fst sp, attr', s') \<and> quiet attr s attr' s' \<and> same_view (attr_file attr') (fst (snd sp)) \<and> drv s' = snd (snd sp)"
proof (cases "fop_open ops = None \<or> mo = None")
  case True
  then show ?thesis using assms(1)
    by (auto simp: sp_def LinuxCharOpen_def spec_end_def spec_file_def quiet_call split: option.splits)
next
  case False
  then obtain f inode "file" where f: "fop_open ops = Some f" "mo = Some (inode, file)" by auto
  then have "file_local (f \<lparr>i_rdev = attr_rdev attr\<rparr>)" using assms(2) by (simp add: ops_local_def)
  from file_localD(4) [OF this same_view_refl, of "file\<lparr>f_flags := openFlags attr\<rparr>" "drv s"] show ?thesis using assms(1)
    by (cases inode) (auto simp: sp_def f LinuxCharOpen_def spec_end_def spec_file_def quiet_call same_view_def split_beta Let_def)
qed

lemma close_sim:
  assumes "dev_ops attr s = Some ops" "ops_local ops" "same_view (attr_file attr) fl"
  shows "\<exists>s'. LinuxCharClose mc attr s = Some (fst (spec_end (fop_release ops) mc \<lparr>i_rdev = attr_rdev attr\<rparr> (fl, drv s)), attr, s') \<and> quiet attr s attr s' \<and>
    drv s' = snd (snd (spec_end (fop_release ops) mc \<lparr>i_rdev = attr_rdev attr\<rparr> (fl, drv s)))"
proof (cases "fop_release ops")
  case (Some f)
  then have "file_local (f \<lparr>i_rdev = attr_rdev attr\<rparr>)" using assms(2) by (simp add: ops_local_def)
  moreover have "same_view ((attr_file attr)\<lparr>f_owner_pid := 0\<rparr>) fl" using assms(3) by (simp add: same_view_def)
  ultimately show ?thesis using file_localD [of "f \<lparr>i_rdev = attr_rdev attr\<rparr>" "(attr_file attr)\<lparr>f_owner_pid := 0\<rparr>" fl "drv s"] assms(1)
    by (cases mc) (auto simp: Some LinuxCharClose_def spec_end_def quiet_call split_beta Let_def)
qed (use assms in \<open>simp add: LinuxCharClose_def spec_end_def quiet_call\<close>)

text \<open>C30: A file descriptor of a character device behaves like one \<open>struct file\<close> that lives from open to close, for a driver whose operations use of the file only \<open>f_flags\<close> and
  \<open>private_data\<close>: every call, in any sequence, gives what the driver's operation gives on that file, and changes the driver in the same way, although each call builds a
  file of its own. Each of open, the calls and close may find no memory: then it returns \<open>VMK_NO_MEMORY\<close> and the driver is not called; for a close this means that
  the session ends without \<open>release\<close>. All memory of the session has been freed at its end.\<close>

theorem chardev_session_refines:
  assumes "dev_ops attr s = Some ops" "ops_local ops"
  shows "\<exists>st rs st2 s'. chr_session mo cs mc attr s = Some (st, rs, st2, s') \<and> heap_blocks s' = heap_blocks s \<and>
    spec_session ops \<lparr>i_rdev = attr_rdev attr\<rparr> (mo \<noteq> None) (spec_file ops mo attr) cs mc (drv s) = (st, rs, st2, drv s')"
proof -
  let ?i = "\<lparr>i_rdev = attr_rdev attr\<rparr>"
  obtain st fl1 d1 where o: "spec_end (fop_open ops) (mo \<noteq> None) ?i (spec_file ops mo attr, drv s) = (st, fl1, d1)" by (metis prod.collapse)
  obtain rs fl2 d2 where r: "spec_calls ops ?i cs (fl1, d1) = (rs, fl2, d2)" by (metis prod.collapse)
  obtain st2 fl3 d3 where c: "spec_end (fop_release ops) mc ?i (fl2, d2) = (st2, fl3, d3)" by (metis prod.collapse)
  obtain a1 s1 where 1: "LinuxCharOpen mo attr s = Some (st, a1, s1)" "quiet attr s a1 s1" "same_view (attr_file a1) fl1" "drv s1 = d1"
    using open_sim [OF assms, of mo] o by auto
  obtain a2 s2 where 2: "chr_calls_run cs a1 s1 = Some (rs, a2, s2)" "quiet a1 s1 a2 s2" "same_view (attr_file a2) fl2" "drv s2 = d2"
    using calls_sim [of a1 s1 ops fl1 ?i cs] assms(1,2) quiet_ops [OF 1(2)] 1(3,4) r by auto
  have q: "quiet attr s a2 s2" using quiet_trans 1(2) 2(2) by blast
  obtain s3 where 3: "LinuxCharClose mc a2 s2 = Some (st2, a2, s3)" "quiet a2 s2 a2 s3" "drv s3 = d3"
    using close_sim [of a2 s2 ops fl2 mc] assms(1,2) quiet_ops [OF q] 2(3,4) c by auto
  have "heap_blocks s3 = heap_blocks s" using q 3(2) by (simp add: quiet_def)
  then show ?thesis using 1(1) 2(1) 3 o r c by (simp add: chr_session_def spec_session_def)
qed

text \<open>A driver that counts the bytes it was given and the files that are open, with the number of its file in \<open>private_data\<close>.\<close>

definition counting_ops :: "(nat \<times> nat) file_operations" where
  "counting_ops = \<lparr>fop_open = Some (\<lambda>ino file (d, n). (0, file\<lparr>private_data := 7\<rparr>, (d, n + 1))), fop_release = Some (\<lambda>ino file (d, n). (0, file, (d, n - 1))),
     fop_compat_ioctl = None, fop_unlocked_ioctl = None,
     fop_ioctl = Some (\<lambda>ino file cmd arg d. (int (private_data file), file, d)), fop_fasync = None, fop_poll = None, fop_read = None,
     fop_write = Some (\<lambda>file bs pos (d, n). ((int (length bs), pos), file, (d + length bs, n)))\<rparr>"

definition counting_sys :: "(nat \<times> nat) char_sys" where
  "counting_sys = \<lparr>linuxCharDev = (replicate 255 \<lparr>cd_modID = 0, cd_ops = None\<rparr>)[200 := \<lparr>cd_modID = 1, cd_ops = Some counting_ops\<rparr>],
     linuxMiscDev = replicate 255 \<lparr>cd_modID = 0, cd_ops = None\<rparr>, drv = (0, 0), heap_blocks = 0\<rparr>"

text \<open>The second write and the close find no memory: the bytes are not counted, and the file stays open.\<close>

theorem chardev_session_refines_witness:
  "\<exists>s'. chr_session (Some (\<lparr>i_rdev = 0\<rparr>, \<lparr>f_flags = 0, private_data = 99, f_owner_pid = 0, f_dentry = None, f_other = 5\<rparr>))
     [(True, Call_write [1, 2, 3] 0), (False, Call_write [4] 3), (True, Call_ioctl 1 0 True)] False
     \<lparr>at_major = 200, at_minor = 3, openFlags = 2, clientData = 0\<rparr> counting_sys =
   Some (VMK_OK, [(VMK_OK, 3, [], 0), (VMK_NO_MEMORY, 0, [], 3), (VMK_OK, 7, [], 0)], VMK_NO_MEMORY, s') \<and> drv s' = (3, 1) \<and> heap_blocks s' = 0"
proof -
  let ?a = "\<lparr>at_major = 200, at_minor = 3, openFlags = 2, clientData = 0\<rparr>"
  have 1: "dev_ops ?a counting_sys = Some counting_ops" by (simp add: dev_ops_def LinuxCharSelectDev_def counting_sys_def)
  have 2: "ops_local counting_ops" by (simp add: ops_local_def counting_ops_def file_local_def same_view_def)
  from chardev_session_refines [OF 1 2, of "Some (\<lparr>i_rdev = 0\<rparr>, \<lparr>f_flags = 0, private_data = 99, f_owner_pid = 0, f_dentry = None, f_other = 5\<rparr>)"
      "[(True, Call_write [1, 2, 3] 0), (False, Call_write [4] 3), (True, Call_ioctl 1 0 True)]" False]
  show ?thesis by (auto simp: spec_session_def spec_end_def spec_call_mem_def spec_file_def counting_ops_def ioctl_ops_def ioctl_try_def counting_sys_def vmklnx_errno_to_vmk_return_status_def numeral_3_eq_3)
qed

section \<open>Numbers and tables\<close>

lemma chardev_pid_roundtrip: "LinuxChar_PIDToMajorMinor (LinuxChar_MajorMinorToPID major minor) = (major, minor)"
proof -
  have m: "(0xFFFF :: u32) = mask 16" "(0xFFFF0000 :: u32) = push_bit 16 (mask 16)" by (simp_all add: mask_eq_exp_minus_1 push_bit_eq_mult)
  show ?thesis unfolding LinuxChar_PIDToMajorMinor_def LinuxChar_MajorMinorToPID_def m
    by (auto intro!: bit_word_eqI simp: bit_simps)
qed

text \<open>A device that was registered is the one that calls with its number reach, and no other device changes.\<close>

lemma register_dispatch:
  assumes "register_chrdev major module fops (Reg_ok n) s = Some (r, s')" "n \<noteq> MISC_MAJOR"
  shows "r = (if major = 0 then int n else 0) \<and> dev_ops attr s' = (if unat (at_major attr) = n then Some fops else dev_ops attr s)"
  using assms by (auto simp: register_chrdev_def set_dev_def dev_ops_def LinuxCharSelectDev_def split: if_splits)

lemma misc_dispatch:
  assumes "misc_register minor module fops (Reg_ok n) s = Some (r, s')"
  shows "r = int n \<and> dev_ops attr s' = (if unat (at_major attr) = MISC_MAJOR \<and> unat (at_minor attr) = minor then Some fops else dev_ops attr s)"
  using assms by (auto simp: misc_register_def set_dev_def dev_ops_def LinuxCharSelectDev_def split: if_splits)

text \<open>\<open>register_chrdev\<close> with the major number of the misc devices puts the operations where no call looks for them.\<close>

lemma register_misc_major_lost:
  assumes "register_chrdev MISC_MAJOR module fops (Reg_ok MISC_MAJOR) s = Some (r, s')" "unat (at_major attr) = MISC_MAJOR"
  shows "r = 0 \<and> dev_ops attr s' = dev_ops attr s"
  using assms by (auto simp: register_chrdev_def set_dev_def dev_ops_def LinuxCharSelectDev_def split: if_splits)

text \<open>The file that \<open>LinuxCharOpen\<close> builds is not cleared: with a driver that does not set \<open>private_data\<close>, the file descriptor gets what the memory held before.\<close>

lemma open_leaves_garbage:
  assumes "dev_ops attr s = Some ops" "fop_open ops = Some (\<lambda>ino file d. (0, file, d))"
  shows "\<exists>s'. LinuxCharOpen (Some (inode, file)) attr s = Some (VMK_OK, attr\<lparr>clientData := private_data file\<rparr>, s')"
  using assms by (simp add: LinuxCharOpen_def vmklnx_errno_to_vmk_return_status_def Let_def)

end
