(* ===== verification/Spec2Isabelle.thy ===== *)
theory Spec2Isabelle
  imports Prelude Ipmi_Smi_Faults Ipmi_Msg_Faults Ipmi_Msg_Register Ipmi_Bt Workqueue Usb_Device Hid_Report Hashtab Notifier Sort Mempool Klist Scsi_Cmd Idr_Spec Chardev
begin

text \<open>
  \<^bold>\<open>A verification of core components of the VMware ESX driver sources.\<close>

  The repository holds the drivers of the ESX hypervisor (\<^verbatim>\<open>src/vmkdrivers/src26/drivers\<close>) and vmklinux
  (\<^verbatim>\<open>src/vmkdrivers/src26/vmklinux26\<close>), the layer that runs Linux 2.6.18 drivers on the vmkernel: \<^verbatim>\<open>vmware/\<close>
  implements the interfaces of the Linux kernel with the vmkernel's interface (vmkapi), \<^verbatim>\<open>linux/\<close> is code taken
  from Linux. A driver queues work, registers notifiers, allocates from pools, and, for storage, receives commands
  from the vmkernel through vmklinux and completes them back to it. The code is modelled as the build
  compiles it: with \<open>__VMKLNX__\<close> defined and without the debugging assertions of \<open>VMX86_DEBUG\<close>. Paths below are
  relative to \<^verbatim>\<open>src/vmkdrivers/src26\<close>.

  \<^bold>\<open>Conventions.\<close> A C struct is a record, an enum a datatype, a machine integer a word, or an integer where its
  sign matters and the conversions are written out. An access outside an array, a dereferenced \<open>NULL\<close>, a
  panic, an undefined shift, or a loop that does not end, is \<^term>\<open>None\<close>; a theorem that an operation is
  \<^term>\<open>Some\<close> is its memory safety and its termination. Code outside the repository (the vmkernel, a BMC, a USB
  device, the driver below vmklinux, allocators, callbacks) is a parameter, or a participant of a transition system
  that may do anything its interface allows. Concurrent code is split into the sections that a lock, or an atomic
  operation, makes atomic, one definition each; an inductive relation interleaves them, and the invariants
  hold of every reachable state (locale \<open>step_invariant\<close> of \<open>Prelude\<close>, interpreted for each system).

  \<^bold>\<open>Theories.\<close>
  \<^item> \<open>Prelude\<close>: machine types, C conditions, buffers with checked access, the locale of invariants.
  \<^item> \<open>Ipmi_Si\<close>: \<^verbatim>\<open>ipmi_si_sm.h\<close>, the interface of the three IPMI state machines to the system interface driver, and
    its contract as the locale \<open>si_sm_contract\<close>, which each machine interprets with its own handlers.
  \<^item> \<open>Ipmi_Kcs\<close>, \<open>Ipmi_Kcs_Protocol\<close>: \<^verbatim>\<open>drivers/char/openipmi/ipmi_si_drv/ipmi_kcs_sm.c\<close>. Any sequence of calls
    with any device stays in the buffers; against a BMC that follows the protocol a transaction delivers the
    request and returns the response; exhausted retries are reported; a flaw of the recovery.
  \<^item> \<open>Ipmi_Smic\<close>: \<^verbatim>\<open>ipmi_smic_sm.c\<close>. Safety; a stuck BMC does not hang the machine; the bytes of a result.
  \<^item> \<open>Ipmi_Bt\<close>: \<^verbatim>\<open>ipmi_bt_sm.c\<close>. Safety for the requests and lengths for which it holds, and what happens for
    the others; request framing, matching of responses, timeouts.
  \<^item> \<open>Ipmi_Smi\<close>: \<^verbatim>\<open>ipmi_si_intf.c\<close>, the driver above the machines: its queues and transactions, and the threads that run it,
    cut into segments at the points where they take or drop \<open>si_lock\<close> and \<open>msg_lock\<close>. \<open>Ipmi_Smi_Safe\<close>: its invariant, proved
    once from what it needs of a machine (locale \<open>si_sm_driver\<close>, which extends \<open>si_sm_contract\<close>), interpreted with KCS and SMIC.
    \<open>Ipmi_Smi_Run\<close>: with one thread at a time in the event handler, and also when memory is short, no message is lost or freed, and
    every segment is defined but one, \<open>sender\<close> on an interface that is being removed; a request goes over the wire of KCS and its answer
    comes back. \<open>Ipmi_Smi_Faults\<close>: a message that two such threads lose for good, a deadlock of the two locks, and a message refused after
    a failed allocation.
  \<^item> \<open>Ipmi_Msg\<close>, \<open>Ipmi_Msg_Recv\<close>: \<^verbatim>\<open>drivers/char/openipmi/ipmi_msghandler/ipmi_msghandler.c\<close>, the layer above the system interface driver.
    \<open>Ipmi_Msg_Ipmb\<close>: sequence numbers and frames, and the way of a command over IPMB and back. \<open>Ipmi_Msg_Own\<close>, \<open>Ipmi_Msg_Moves\<close>: who owns a receive
    message, as equations on multisets for each operation. \<open>Ipmi_Msg_Run\<close>: the operations in any order as a system, whose parameter allows
    three faults or not; without them no receive message is handed out or freed twice, and none is lost but a response whose user is gone.
    \<open>Ipmi_Msg_Timer\<close>: commands that nobody answers time out. \<open>Ipmi_Msg_Faults\<close>: the faults, which are the end of an interface, network functions of more than six
    bits and a second round of \<open>ipmi_set_gets_events\<close>, and lost responses. \<open>Ipmi_Msg_Register\<close>: the start of an interface; numbers, the GUID, the scan of the channels.
  \<^item> \<open>Workqueue\<close>: \<^verbatim>\<open>vmklinux26/vmware/linux_workqueue.c\<close>. Interleaved clients, helper worlds and timers: flushing
    waits for what was queued before, cancelling is complete, no work is lost, the counters agree, callouts take
    the oldest work.
  \<^item> \<open>Usb_Config\<close>: \<^verbatim>\<open>drivers/usb/core/config.c\<close>. Parsing any bytes returns and stays in the buffers; what a
    successful parse yields. \<open>Usb_Device\<close>: reading the configurations of a device, with \<open>usb_get_descriptor\<close> of
    \<^verbatim>\<open>message.c\<close>, and freeing them: no leak and no double free, and a header for which freeing overruns an array.
  \<^item> \<open>Hid_Bits\<close>, \<open>Hid_Parser\<close>, \<open>Hid_Report\<close>: \<^verbatim>\<open>vmklinux26/linux/drivers/hid/hid-core.c\<close>. Bit fields with their round
    trips; the parser of report descriptors, safe and without leaks for up to 4096 bytes (the limit of its caller
    in \<^verbatim>\<open>drivers/usb/input/hid-core.c\<close>, which keeps the sizes of reports below \<open>2\<close> to the 32) and report
    identifiers below 256; what is written into a report of a parsed device is read back; input reports are safe
    under conditions on the descriptor, and examples that break each condition.
  \<^item> \<open>Hashtab\<close>: \<^verbatim>\<open>vmklinux26/vmware/linux_hashtab.c\<close>, \<^verbatim>\<open>include/linux/hash.h\<close>. The table refines a finite map (locale
    \<open>key_table\<close>, interpreted with the table's operations); the hash is multiplicative.
  \<^item> \<open>Notifier\<close>: \<^verbatim>\<open>vmklinux26/vmware/linux_notifier.c\<close>, over a memory of linked blocks: a chain is the list of
    registrations by descending priority, and a call visits it in order.
  \<^item> \<open>Sort\<close>: \<^verbatim>\<open>vmklinux26/linux/lib/sort.c\<close>, over the bytes of the array: it returns, permutes and sorts.
  \<^item> \<open>Mempool\<close>: \<^verbatim>\<open>vmklinux26/linux/mm/mempool.c\<close>, interleaved: no access outside the array with one resizer at
    a time; two resizers overflow the array; no element is lost or duplicated before that, with any number of resizers.
  \<^item> \<open>Klist\<close>: \<^verbatim>\<open>vmklinux26/linux/lib/klist.c\<close>, \<^verbatim>\<open>kref.c\<close>: reference counts, removal, walks.
  \<^item> \<open>Idr\<close>: \<^verbatim>\<open>vmklinux26/linux/lib/idr.c\<close>, the identifier allocator, with the slab cache calls it makes and its client
    \<open>lpfc_get_instance\<close> of the Emulex driver. \<open>Idr_Tree\<close>: the radix tree in the heap and what each write does to it.
    \<open>Idr_Mem\<close>: ownership of the layers, and the map the tree stores. \<open>Idr_Alloc\<close>, \<open>Idr_Grow\<close>, \<open>Idr_New\<close>: allocation.
    \<open>Idr_Remove\<close>: lookup, replacement, removal, the cache of layers. \<open>Idr_Spec\<close>: the contract (locale
    \<open>id_allocator\<close>, a sublocale of \<open>idr_slab\<close>), the refinement of a map from numbers to pointers for all runs that keep it,
    and two uses that break it. The slab of the vmkernel is a parameter that never hands out an object in use.
  \<^item> \<open>Scsi_Cmd\<close>: \<^verbatim>\<open>vmklinux26/vmware/linux_scsi.c\<close>, the life of a command: queueing, completion, bottom half, aborts
    and timeouts, interleaved. Each command is reported at most once, whatever happens; none is lost as long as timeouts do not
    overlap and the clock never reads the deadline of the bottom half; both provisos are needed.
  \<^item> \<open>Chardev\<close>: \<^verbatim>\<open>vmklinux26/vmware/linux_char.c\<close>, character devices. A file descriptor behaves like one file from open to
    close for a driver that keeps its state in \<open>private_data\<close>, each call with or without memory; registration and dispatch; what \<open>open\<close> leaves uninitialised.

  \<^bold>\<open>Bounds and fuel.\<close> Loops are recursive functions with a termination proof; loops that may not end are
  \<open>partial_function (option)\<close> or a relation, and the theorems say that they return. The only fuel is that of
  the walk of a \<open>klist\<close>, one more than the length of the list. The bound of \<open>Sort\<close> (1 GiB) is the range of the
  \<open>int\<close> offsets of the code.

  \<^bold>\<open>Not modelled.\<close> The drivers of particular network and storage adapters, libata, USB host controllers and firmware
  images, which program hardware the sources do not describe; the parts of vmklinux that only translate calls
  into vmkapi calls (PCI, DMA, heaps, worlds, timers, proc nodes, network packets), whose behaviour is the
  vmkernel's; the device model of IPMI interfaces; the driver core; zlib, which is vendored. In the modelled files: debug output,
  discovery, removal and the rearming of the timer of IPMI interfaces, the layout of the scatter-gather table, resets and internal commands of the SCSI layer, and freeing a work queue.

  \<^bold>\<open>Plan.\<close> Next: SCSI resets and internal commands, then the block layer.
\<close>

end
